(* ===== verification/Prelude.thy ===== *)
theory Prelude
  imports Main "HOL-Library.Word"
begin

text \<open>
  Shared vocabulary of the development: the outcome type of Rust functions, bytes and their
  little-endian words, byte slices and in-place slice updates, and the generic list lemmas that
  the components share. Nothing here models a particular function of the repository except
  \<open>le_bytes\<close> and \<open>of_le\<close>, the standard library's \<open>to_le_bytes\<close> and
  \<open>from_le_bytes\<close>.
\<close>

unbundle bit_operations_syntax

subsection \<open>Collections of the development\<close>

named_theorems res_simps \<open>evaluation of the outcome monad\<close>
named_theorems byte_simps \<open>lengths and bits of byte strings\<close>
named_theorems wf_intros \<open>introduction rules for well-formedness predicates\<close>

subsection \<open>Outcomes\<close>

text \<open>
  A Rust function returns \<open>Ok\<close>, returns \<open>Err\<close>, or panics (an index out of
  range, a failed \<open>assert!\<close>, an \<open>expect\<close> on an error).
\<close>

datatype ('e, 'a) res = Ok 'a | Err 'e | Panic

primrec rbind :: "('e, 'a) res \<Rightarrow> ('a \<Rightarrow> ('e, 'b) res) \<Rightarrow> ('e, 'b) res" where
  "rbind (Ok x) f = f x"
| "rbind (Err e) f = Err e"
| "rbind Panic f = Panic"

primrec map_err :: "('e \<Rightarrow> 'f) \<Rightarrow> ('e, 'a) res \<Rightarrow> ('f, 'a) res" where
  "map_err f (Ok x) = Ok x"
| "map_err f (Err e) = Err (f e)"
| "map_err f Panic = Panic"

definition guard :: "bool \<Rightarrow> 'e \<Rightarrow> ('e, unit) res" where
  "guard b e = (if b then Ok () else Err e)"

definition assert_that :: "bool \<Rightarrow> ('e, unit) res" where
  "assert_that b = (if b then Ok () else Panic)"

text \<open>\<open>Option::ok_or\<close> and \<open>Result::expect\<close>.\<close>

definition ok_or :: "'a option \<Rightarrow> 'e \<Rightarrow> ('e, 'a) res" where
  "ok_or v e = (case v of None \<Rightarrow> Err e | Some x \<Rightarrow> Ok x)"

primrec expect :: "('e, 'a) res \<Rightarrow> ('f, 'a) res" where
  "expect (Ok x) = Ok x"
| "expect (Err e) = Panic"
| "expect Panic = Panic"

primrec is_ok :: "('e, 'a) res \<Rightarrow> bool" where
  "is_ok (Ok x) = True"
| "is_ok (Err e) = False"
| "is_ok Panic = False"

fun is_panic :: "('e, 'a) res \<Rightarrow> bool" where
  "is_panic Panic = True"
| "is_panic _ = False"

lemma rbind_cong [fundef_cong]:
  "m = m' \<Longrightarrow> (\<And>x. m' = Ok x \<Longrightarrow> f x = f' x) \<Longrightarrow> rbind m f = rbind m' f'"
  by (cases m') auto

lemma rbind_eq_Ok [res_simps]: "rbind m f = Ok y \<longleftrightarrow> (\<exists>x. m = Ok x \<and> f x = Ok y)"
  by (cases m) auto

lemma rbind_eq_Err [res_simps]:
  "rbind m f = Err e \<longleftrightarrow> m = Err e \<or> (\<exists>x. m = Ok x \<and> f x = Err e)"
  by (cases m) auto

lemma rbind_eq_Panic [res_simps]:
  "rbind m f = Panic \<longleftrightarrow> m = Panic \<or> (\<exists>x. m = Ok x \<and> f x = Panic)"
  by (cases m) auto

lemma rbind_assoc: "rbind (rbind m f) g = rbind m (\<lambda>x. rbind (f x) g)"
  by (cases m) auto

lemma map_err_eq_Ok [res_simps]: "map_err f m = Ok x \<longleftrightarrow> m = Ok x"
  by (cases m) auto

lemma map_err_eq_Panic [res_simps]: "map_err f m = Panic \<longleftrightarrow> m = Panic"
  by (cases m) auto

lemma expect_eq_Ok [res_simps]: "expect m = Ok x \<longleftrightarrow> m = Ok x"
  by (cases m) auto

lemma guard_eq_Ok [res_simps]: "guard b e = Ok u \<longleftrightarrow> b"
  by (simp add: guard_def)

lemma guard_eq_Err [res_simps]: "guard b e = Err e' \<longleftrightarrow> \<not> b \<and> e' = e"
  by (auto simp: guard_def)

lemma guard_not_Panic [res_simps]: "guard b e \<noteq> Panic"
  by (simp add: guard_def)

lemma assert_eq_Ok [res_simps]: "assert_that b = Ok u \<longleftrightarrow> b"
  by (simp add: assert_that_def)

lemma assert_eq_Err [res_simps]: "assert_that b \<noteq> Err e"
  by (simp add: assert_that_def)

lemma assert_eq_Panic [res_simps]: "assert_that b = Panic \<longleftrightarrow> \<not> b"
  by (simp add: assert_that_def)

lemma ok_or_eq_Ok [res_simps]: "ok_or v e = Ok x \<longleftrightarrow> v = Some x"
  by (cases v) (auto simp: ok_or_def)

lemma guard_True [simp]: "guard True e = Ok ()"
  by (simp add: guard_def)

lemma guard_False [simp]: "guard False e = Err e"
  by (simp add: guard_def)

lemma assert_True [simp]: "assert_that True = Ok ()"
  by (simp add: assert_that_def)

lemma assert_False [simp]: "assert_that False = Panic"
  by (simp add: assert_that_def)

lemma is_ok_iff: "is_ok m \<longleftrightarrow> (\<exists>x. m = Ok x)"
  by (cases m) auto

text \<open>\<open>iter().map(f).collect::<Result<Vec<_>, _>>()\<close>: the first failure wins.\<close>

fun mapM :: "('a \<Rightarrow> ('e, 'b) res) \<Rightarrow> 'a list \<Rightarrow> ('e, 'b list) res" where
  "mapM f [] = Ok []"
| "mapM f (x # xs) = rbind (f x) (\<lambda>y. rbind (mapM f xs) (\<lambda>ys. Ok (y # ys)))"

lemma mapM_cong [fundef_cong]:
  "xs = ys \<Longrightarrow> (\<And>x. x \<in> set ys \<Longrightarrow> f x = g x) \<Longrightarrow> mapM f xs = mapM g ys"
  by (induction ys arbitrary: xs) auto

lemma mapM_Ok_length: "mapM f xs = Ok ys \<Longrightarrow> length ys = length xs"
  by (induction xs arbitrary: ys) (auto simp: res_simps)

lemma mapM_all_Ok: "(\<And>x. x \<in> set xs \<Longrightarrow> f x = Ok (g x)) \<Longrightarrow> mapM f xs = Ok (map g xs)"
  by (induction xs) auto

text \<open>A \<open>for\<close> loop whose body may fail: the state is threaded, the first failure wins.\<close>

fun foldM :: "('s \<Rightarrow> 'a \<Rightarrow> ('e, 's) res) \<Rightarrow> 's \<Rightarrow> 'a list \<Rightarrow> ('e, 's) res" where
  "foldM f s [] = Ok s"
| "foldM f s (x # xs) = rbind (f s x) (\<lambda>s'. foldM f s' xs)"

lemma foldM_cong [fundef_cong]:
  "xs = ys \<Longrightarrow> s = t \<Longrightarrow> (\<And>u x. x \<in> set ys \<Longrightarrow> f u x = g u x) \<Longrightarrow> foldM f s xs = foldM g t ys"
proof (induction ys arbitrary: xs s t)
  case (Cons y ys)
  then show ?case by (cases "g t y") auto
qed simp

lemma foldM_append: "foldM f s (xs @ ys) = rbind (foldM f s xs) (\<lambda>s'. foldM f s' ys)"
  by (induction xs arbitrary: s) (auto simp: rbind_assoc)

lemma foldM_total: "(\<And>s x. x \<in> set xs \<Longrightarrow> f s x = Ok (g s x)) \<Longrightarrow> foldM f s xs = Ok (foldl g s xs)"
  by (induction xs arbitrary: s) auto

text \<open>An invariant of the threaded state that every successful step keeps.\<close>

lemma foldM_invariant:
  assumes "foldM f s xs = Ok t" "P s"
    and "\<And>u x v. x \<in> set xs \<Longrightarrow> P u \<Longrightarrow> f u x = Ok v \<Longrightarrow> P v"
  shows "P t"
  using assms by (induction xs arbitrary: s) (auto simp: res_simps)

subsection \<open>Machine integers and bytes\<close>

type_synonym u8 = "8 word"
type_synonym u16 = "16 word"
type_synonym u32 = "32 word"
type_synonym u64 = "64 word"
type_synonym bytes = "u8 list"

abbreviation u32_max :: nat where "u32_max \<equiv> 4294967295"
abbreviation u64_max :: nat where "u64_max \<equiv> 18446744073709551615"

text \<open>Little-endian encoding of the low \<open>n\<close> bytes of a word, and its inverse.\<close>

definition le_bytes :: "nat \<Rightarrow> 'a::len word \<Rightarrow> bytes" where
  "le_bytes n w = map (\<lambda>i. ucast (drop_bit (8 * i) w)) [0..<n]"

primrec of_le :: "bytes \<Rightarrow> 'a::len word" where
  "of_le [] = 0"
| "of_le (b # bs) = ucast b OR push_bit 8 (of_le bs)"

lemma length_le_bytes [simp, byte_simps]: "length (le_bytes n w) = n"
  by (simp add: le_bytes_def)

lemma bit_le_bytes [byte_simps]:
  "i < n \<Longrightarrow> bit (le_bytes n w ! i) j \<longleftrightarrow> j < 8 \<and> bit w (8 * i + j)"
  by (auto simp: le_bytes_def bit_simps dest: bit_imp_le_length)

lemma bit_of_le [byte_simps]:
  "bit (of_le bs :: 'a::len word) k \<longleftrightarrow>
     k < LENGTH('a) \<and> k div 8 < length bs \<and> bit (bs ! (k div 8)) (k mod 8)"
proof (induction bs arbitrary: k)
  case Nil
  then show ?case by simp
next
  case (Cons b bs)
  show ?case
  proof (cases "k < 8")
    case True
    then show ?thesis by (auto simp: bit_simps Cons.IH)
  next
    case False
    then have "k div 8 = Suc ((k - 8) div 8)" "k mod 8 = (k - 8) mod 8"
      by (simp_all add: le_div_geq le_mod_geq)
    with False show ?thesis
      by (auto simp: bit_simps Cons.IH dest: bit_imp_le_length)
  qed
qed

lemma of_le_le_bytes: "of_le (le_bytes n w) = take_bit (8 * n) (w :: 'a::len word)"
proof (rule bit_word_eqI)
  fix k assume "k < LENGTH('a)"
  moreover have "k div 8 < n \<longleftrightarrow> k < 8 * n" by (simp add: div_less_iff_less_mult mult.commute)
  ultimately show "bit (of_le (le_bytes n w) :: 'a word) k = bit (take_bit (8 * n) w) k"
    by (auto simp: bit_of_le bit_le_bytes bit_take_bit_iff)
qed

lemma of_le_le_bytes_full [simp]:
  "LENGTH('a) \<le> 8 * n \<Longrightarrow> of_le (le_bytes n w) = (w :: 'a::len word)"
  by (simp add: of_le_le_bytes take_bit_word_eq_self)

lemma le_bytes_of_le:
  assumes "8 * length bs \<le> LENGTH('a)"
  shows "le_bytes (length bs) (of_le bs :: 'a::len word) = bs"
proof (rule nth_equalityI)
  fix i assume "i < length (le_bytes (length bs) (of_le bs :: 'a word))"
  then have i: "i < length bs" by simp
  show "le_bytes (length bs) (of_le bs :: 'a word) ! i = bs ! i"
  proof (rule bit_word_eqI)
    fix j assume "j < LENGTH(8)"
    then show "bit (le_bytes (length bs) (of_le bs :: 'a word) ! i) j = bit (bs ! i) j"
      using i assms by (auto simp: bit_le_bytes bit_of_le)
  qed
qed simp

lemma le_bytes_take_bit:
  "le_bytes n (take_bit (8 * n) w) = le_bytes n (w :: 'a::len word)"
proof (rule nth_equalityI)
  fix i assume "i < length (le_bytes n (take_bit (8 * n) w))"
  then have i: "i < n" by simp
  show "le_bytes n (take_bit (8 * n) w) ! i = le_bytes n w ! i"
    by (rule bit_word_eqI) (use i in \<open>auto simp: bit_le_bytes bit_take_bit_iff\<close>)
qed simp

lemma unat_le_u32 [simp]: "unat (w :: u32) \<le> u32_max"
  using unsigned_less[of w, where 'a = nat] by simp

lemma unat_of_nat_u32 [simp]: "n \<le> u32_max \<Longrightarrow> unat (of_nat n :: u32) = n"
  by (simp add: unat_of_nat)

lemma unat_of_nat_u64 [simp]: "n \<le> u64_max \<Longrightarrow> unat (of_nat n :: u64) = n"
  by (simp add: unat_of_nat)

text \<open>\<open>count_ones\<close> of a machine word.\<close>

definition popcount :: "'a::len word \<Rightarrow> nat" where
  "popcount w = length (filter (bit w) [0..<LENGTH('a)])"

subsection \<open>Slices\<close>

text \<open>
  \<open>slice lo hi xs\<close> is \<open>&xs[lo..hi]\<close> where it does not panic; \<open>splice pos ys xs\<close>
  is \<open>xs[pos..pos + ys.len()].copy_from_slice(ys)\<close>.
\<close>

definition slice :: "nat \<Rightarrow> nat \<Rightarrow> 'a list \<Rightarrow> 'a list" where
  "slice lo hi xs = take (hi - lo) (drop lo xs)"

definition slice_ok :: "nat \<Rightarrow> nat \<Rightarrow> 'a list \<Rightarrow> bool" where
  "slice_ok lo hi xs \<longleftrightarrow> lo \<le> hi \<and> hi \<le> length xs"

definition slice_r :: "nat \<Rightarrow> nat \<Rightarrow> 'a list \<Rightarrow> ('e, 'a list) res" where
  "slice_r lo hi xs = (if slice_ok lo hi xs then Ok (slice lo hi xs) else Panic)"

definition splice :: "nat \<Rightarrow> 'a list \<Rightarrow> 'a list \<Rightarrow> 'a list" where
  "splice pos ys xs = take pos xs @ ys @ drop (pos + length ys) xs"

lemma length_slice [simp, byte_simps]:
  "hi \<le> length xs \<Longrightarrow> length (slice lo hi xs) = hi - lo"
  by (simp add: slice_def)

lemma length_slice_min: "length (slice lo hi xs) = min (hi - lo) (length xs - lo)"
  by (simp add: slice_def)

lemma nth_slice [simp]: "lo + i < hi \<Longrightarrow> hi \<le> length xs \<Longrightarrow> slice lo hi xs ! i = xs ! (lo + i)"
  by (simp add: slice_def)

lemma slice_full [simp]: "slice 0 (length xs) xs = xs"
  by (simp add: slice_def)

lemma slice_empty [simp]: "slice lo lo xs = []"
  by (simp add: slice_def)

lemma slice_append_left: "hi \<le> length xs \<Longrightarrow> slice lo hi (xs @ ys) = slice lo hi xs"
  by (cases "lo \<le> length xs") (simp_all add: slice_def)

lemma slice_append_right:
  "length xs \<le> lo \<Longrightarrow> slice lo hi (xs @ ys) = slice (lo - length xs) (hi - length xs) ys"
  by (simp add: slice_def)

lemma slice_prefix_append [simp]: "n = length xs \<Longrightarrow> slice 0 n (xs @ ys) = xs"
  by (simp add: slice_def)

lemma slice_slice: "b \<le> hi - lo \<Longrightarrow> slice a b (slice lo hi xs) = slice (lo + a) (lo + b) xs"
  by (simp add: slice_def drop_take min_def add.commute)

lemma slice_join: "a \<le> b \<Longrightarrow> b \<le> c \<Longrightarrow> slice a b xs @ slice b c xs = slice a c xs"
proof -
  assume "a \<le> b" "b \<le> c"
  then have "c - a = (b - a) + (c - b)" "drop b xs = drop (b - a) (drop a xs)"
    by simp_all
  then show ?thesis unfolding slice_def by (metis take_add)
qed

lemma slice_r_eq_Ok [res_simps]:
  "slice_r lo hi xs = Ok ys \<longleftrightarrow> slice_ok lo hi xs \<and> ys = slice lo hi xs"
  by (auto simp: slice_r_def)

lemma slice_r_not_Err [res_simps]: "slice_r lo hi xs \<noteq> Err e"
  by (simp add: slice_r_def)

lemma slice_r_ok [simp]: "lo \<le> hi \<Longrightarrow> hi \<le> length xs \<Longrightarrow> slice_r lo hi xs = Ok (slice lo hi xs)"
  by (simp add: slice_r_def slice_ok_def)

lemma length_splice [simp, byte_simps]:
  "pos + length ys \<le> length xs \<Longrightarrow> length (splice pos ys xs) = length xs"
  by (simp add: splice_def)

lemma nth_splice:
  "pos + length ys \<le> length xs \<Longrightarrow> i < length xs \<Longrightarrow>
   splice pos ys xs ! i = (if pos \<le> i \<and> i < pos + length ys then ys ! (i - pos) else xs ! i)"
  by (auto simp: splice_def nth_append min_def)

lemma splice_nil [simp]: "splice pos [] xs = xs"
  by (simp add: splice_def)

lemma slice_splice_same:
  "pos + length ys \<le> length xs \<Longrightarrow> slice pos (pos + length ys) (splice pos ys xs) = ys"
  by (simp add: slice_def splice_def)

lemma slice_splice_disjoint:
  assumes "pos + length ys \<le> length xs" "hi \<le> length xs" "hi \<le> pos \<or> pos + length ys \<le> lo"
  shows "slice lo hi (splice pos ys xs) = slice lo hi xs"
proof (cases "lo \<le> hi")
  case True
  show ?thesis
    by (rule nth_equalityI) (use assms True in \<open>auto simp: nth_splice\<close>)
next
  case False
  then show ?thesis by (simp add: slice_def)
qed

lemma splice_update: "pos < length xs \<Longrightarrow> splice pos [y] xs = xs[pos := y]"
  by (simp add: splice_def upd_conv_take_nth_drop)

subsection \<open>Lists\<close>

text \<open>\<open>windows(2)\<close>.\<close>

definition pairs_of :: "'a list \<Rightarrow> ('a \<times> 'a) list" where
  "pairs_of xs = zip xs (tl xs)"

lemma length_pairs_of [simp]: "length (pairs_of xs) = length xs - 1"
  by (simp add: pairs_of_def)

lemma pairs_of_nth: "Suc i < length xs \<Longrightarrow> pairs_of xs ! i = (xs ! i, xs ! Suc i)"
  by (simp add: pairs_of_def nth_tl)

lemma pairs_of_Cons2 [simp]: "pairs_of (x # y # ys) = (x, y) # pairs_of (y # ys)"
  by (simp add: pairs_of_def)

lemma pairs_of_short [simp]: "pairs_of [] = []" "pairs_of [x] = []"
  by (simp_all add: pairs_of_def)

lemma sum_list_map_const [simp]: "sum_list (map (\<lambda>x. c) xs) = length xs * (c :: nat)"
  by (induction xs) auto

lemma length_filter_upt_split:
  "a \<le> b \<Longrightarrow> b \<le> c \<Longrightarrow>
   length (filter P [a..<c]) = length (filter P [a..<b]) + length (filter P [b..<c])"
  by (metis filter_append le_add_diff_inverse length_append upt_add_eq_append)

lemma length_filter_upt_shift:
  "length (filter P [a + k..<b + k]) = length (filter (\<lambda>i. P (i + k)) [a..<b])"
proof -
  have "[a + k..<b + k] = map (\<lambda>i. i + k) [a..<b]"
    by (induction b) auto
  then show ?thesis by (simp add: filter_map comp_def)
qed

lemma length_filter_cong:
  "(\<And>x. x \<in> set xs \<Longrightarrow> P x = Q x) \<Longrightarrow> length (filter P xs) = length (filter Q xs)"
  by (metis filter_cong)

lemma length_filter_le_upt: "length (filter P [a..<b]) \<le> b - a"
  by (metis length_filter_le length_upt)

end
