(* ===== verification/Format_Types.thy ===== *)
theory Format_Types
  imports Prelude
begin

text \<open>
  The type tags of the on-disk format (crate \<open>splayed-format\<close>): \<open>error.rs\<close>,
  \<open>types.rs\<close>, \<open>schema.rs\<close> and the constants of \<open>lib.rs\<close>. Every enum is a datatype
  with the constructors of the source; \<open>Compression::None\<close> is \<open>CNone\<close> and the
  \<open>TimeType\<close> constructors carry the prefix \<open>TT_\<close>, because HOL constructors share one
  name space. Error messages built with \<open>format!\<close> are represented by their fixed text.
\<close>

subsection \<open>\<open>error.rs\<close>\<close>

datatype format_error =
    BadMagic u64 u64
  | BadVersion u16 u16
  | UnknownDataType u8
  | UnknownTimeType u8
  | UnknownEncoding u8
  | UnknownCompression u8
  | SizeMismatch nat nat
  | Alignment nat nat
  | InvalidLayout string

subsection \<open>\<open>types.rs\<close>\<close>

datatype data_type =
    Bool | Int32 | Int64 | Float32 | Float64 | Date32 | TimestampUs | Int8 | Int16
  | UInt8 | UInt16 | UInt32 | UInt64 | Date64 | Utf8

fun data_type_id :: "data_type \<Rightarrow> u8" where
  "data_type_id Bool = 0"
| "data_type_id Int32 = 1"
| "data_type_id Int64 = 2"
| "data_type_id Float32 = 3"
| "data_type_id Float64 = 4"
| "data_type_id Date32 = 5"
| "data_type_id TimestampUs = 6"
| "data_type_id Int8 = 7"
| "data_type_id Int16 = 8"
| "data_type_id UInt8 = 9"
| "data_type_id UInt16 = 10"
| "data_type_id UInt32 = 11"
| "data_type_id UInt64 = 12"
| "data_type_id Date64 = 13"
| "data_type_id Utf8 = 14"

fun size_of :: "data_type \<Rightarrow> nat" where
  "size_of Bool = 1" | "size_of Int8 = 1" | "size_of UInt8 = 1"
| "size_of Int16 = 2" | "size_of UInt16 = 2"
| "size_of Int32 = 4" | "size_of UInt32 = 4" | "size_of Float32 = 4" | "size_of Date32 = 4"
| "size_of Int64 = 8" | "size_of UInt64 = 8" | "size_of Float64 = 8"
| "size_of TimestampUs = 8" | "size_of Date64 = 8"
| "size_of Utf8 = 0"

fun data_type_as_str :: "data_type \<Rightarrow> string" where
  "data_type_as_str Bool = ''BOOL''"
| "data_type_as_str Int32 = ''INT32''"
| "data_type_as_str Int64 = ''INT64''"
| "data_type_as_str Float32 = ''FLOAT32''"
| "data_type_as_str Float64 = ''FLOAT64''"
| "data_type_as_str Date32 = ''DATE32''"
| "data_type_as_str TimestampUs = ''TIMESTAMP_US''"
| "data_type_as_str Int8 = ''INT8''"
| "data_type_as_str Int16 = ''INT16''"
| "data_type_as_str UInt8 = ''UINT8''"
| "data_type_as_str UInt16 = ''UINT16''"
| "data_type_as_str UInt32 = ''UINT32''"
| "data_type_as_str UInt64 = ''UINT64''"
| "data_type_as_str Date64 = ''DATE64''"
| "data_type_as_str Utf8 = ''UTF8''"

definition is_signed_int :: "data_type \<Rightarrow> bool" where
  "is_signed_int dt \<longleftrightarrow> dt \<in> {Int8, Int16, Int32, Int64, Date32, TimestampUs, Date64}"

definition is_integer :: "data_type \<Rightarrow> bool" where
  "is_integer dt \<longleftrightarrow> dt \<notin> {Float32, Float64, Utf8}"

text \<open>\<open>TryFrom<u8>\<close> and \<open>from_id\<close>: the \<open>match\<close> over the id, in the source's order.\<close>

definition data_type_from_id :: "u8 \<Rightarrow> (format_error, data_type) res" where
  "data_type_from_id i =
     (if i = 0 then Ok Bool
      else if i = 1 then Ok Int32
      else if i = 2 then Ok Int64
      else if i = 3 then Ok Float32
      else if i = 4 then Ok Float64
      else if i = 5 then Ok Date32
      else if i = 6 then Ok TimestampUs
      else if i = 7 then Ok Int8
      else if i = 8 then Ok Int16
      else if i = 9 then Ok UInt8
      else if i = 10 then Ok UInt16
      else if i = 11 then Ok UInt32
      else if i = 12 then Ok UInt64
      else if i = 13 then Ok Date64
      else if i = 14 then Ok Utf8
      else Err (UnknownDataType i))"

datatype time_type = TT_Date32 | TT_TimestampUs

fun time_type_id :: "time_type \<Rightarrow> u8" where
  "time_type_id TT_Date32 = 0"
| "time_type_id TT_TimestampUs = 1"

fun time_size_of :: "time_type \<Rightarrow> nat" where
  "time_size_of TT_Date32 = 4"
| "time_size_of TT_TimestampUs = 8"

fun time_data_type :: "time_type \<Rightarrow> data_type" where
  "time_data_type TT_Date32 = Date32"
| "time_data_type TT_TimestampUs = TimestampUs"

definition time_type_from_id :: "u8 \<Rightarrow> (format_error, time_type) res" where
  "time_type_from_id i =
     (if i = 0 then Ok TT_Date32
      else if i = 1 then Ok TT_TimestampUs
      else Err (UnknownTimeType i))"

datatype encoding = Plain | Delta | Rle | Bitpack

fun encoding_id :: "encoding \<Rightarrow> u8" where
  "encoding_id Plain = 0"
| "encoding_id Delta = 1"
| "encoding_id Rle = 2"
| "encoding_id Bitpack = 3"

definition encoding_from_id :: "u8 \<Rightarrow> (format_error, encoding) res" where
  "encoding_from_id i =
     (if i = 0 then Ok Plain
      else if i = 1 then Ok Delta
      else if i = 2 then Ok Rle
      else if i = 3 then Ok Bitpack
      else Err (UnknownEncoding i))"

datatype compression = CNone | Zstd | Lz4

fun compression_id :: "compression \<Rightarrow> u8" where
  "compression_id CNone = 0"
| "compression_id Zstd = 1"
| "compression_id Lz4 = 2"

definition compression_from_id :: "u8 \<Rightarrow> (format_error, compression) res" where
  "compression_from_id i =
     (if i = 0 then Ok CNone
      else if i = 1 then Ok Zstd
      else if i = 2 then Ok Lz4
      else Err (UnknownCompression i))"

subsection \<open>\<open>schema.rs\<close>\<close>

record field_schema =
  fs_name :: string
  fs_type :: data_type

type_synonym schema = "field_schema list"

text \<open>\<open>iter().position\<close>: the first field with the name.\<close>

fun schema_position :: "schema \<Rightarrow> string \<Rightarrow> nat option" where
  "schema_position [] name = None"
| "schema_position (f # fs) name =
     (if fs_name f = name then Some 0 else map_option Suc (schema_position fs name))"

definition schema_data_type_of :: "schema \<Rightarrow> string \<Rightarrow> data_type option" where
  "schema_data_type_of s name = map_option (\<lambda>i. fs_type (s ! i)) (schema_position s name)"

definition schema_names :: "schema \<Rightarrow> string list" where
  "schema_names s = map fs_name s"

subsection \<open>Constants of \<open>lib.rs\<close>\<close>

definition bytes_of_string :: "string \<Rightarrow> bytes" where
  "bytes_of_string s = map of_char s"

definition META_MAGIC :: u64 where
  "META_MAGIC = of_le (bytes_of_string ''SPLAYMTA'')"

definition FIELD_MAGIC :: u64 where
  "FIELD_MAGIC = of_le (bytes_of_string ''SPLAYFLD'')"

definition HEADER_SIZE :: nat where
  "HEADER_SIZE = 64"

definition DATA_OFFSET :: u64 where
  "DATA_OFFSET = of_nat HEADER_SIZE"

definition FORMAT_VERSION :: u16 where
  "FORMAT_VERSION = 2"

definition validity_size :: "nat \<Rightarrow> nat" where
  "validity_size row_count = (row_count + 7) div 8"

subsection \<open>Lemmas\<close>

lemma size_of_values: "size_of dt \<in> {0, 1, 2, 4, 8}"
  by (cases dt) simp_all

lemma size_of_le_8 [simp]: "size_of dt \<le> 8"
  by (cases dt) simp_all

lemma size_of_pos: "dt \<noteq> Utf8 \<longleftrightarrow> 0 < size_of dt"
  by (cases dt) simp_all

lemma time_size_of_data_type: "size_of (time_data_type tt) = time_size_of tt"
  by (cases tt) simp_all

lemma data_type_from_id_id [simp]: "data_type_from_id (data_type_id dt) = Ok dt"
  by (cases dt) (simp_all add: data_type_from_id_def)

lemma data_type_from_id_Ok: "data_type_from_id i = Ok dt \<longleftrightarrow> i = data_type_id dt"
  by (cases dt) (auto simp: data_type_from_id_def split: if_splits)

lemma data_type_from_id_not_Panic [simp]: "data_type_from_id i \<noteq> Panic"
  by (simp add: data_type_from_id_def)

lemma encoding_from_id_id [simp]: "encoding_from_id (encoding_id e) = Ok e"
  by (cases e) (simp_all add: encoding_from_id_def)

lemma encoding_from_id_Ok: "encoding_from_id i = Ok e \<longleftrightarrow> i = encoding_id e"
  by (cases e) (auto simp: encoding_from_id_def split: if_splits)

lemma encoding_from_id_not_Panic [simp]: "encoding_from_id i \<noteq> Panic"
  by (simp add: encoding_from_id_def)

lemma compression_from_id_id [simp]: "compression_from_id (compression_id c) = Ok c"
  by (cases c) (simp_all add: compression_from_id_def)

lemma compression_from_id_Ok: "compression_from_id i = Ok c \<longleftrightarrow> i = compression_id c"
  by (cases c) (auto simp: compression_from_id_def split: if_splits)

lemma compression_from_id_not_Panic [simp]: "compression_from_id i \<noteq> Panic"
  by (simp add: compression_from_id_def)

lemma time_type_from_id_id [simp]: "time_type_from_id (time_type_id t) = Ok t"
  by (cases t) (simp_all add: time_type_from_id_def)

lemma time_type_from_id_Ok: "time_type_from_id i = Ok t \<longleftrightarrow> i = time_type_id t"
  by (cases t) (auto simp: time_type_from_id_def split: if_splits)

lemma time_type_from_id_not_Panic [simp]: "time_type_from_id i \<noteq> Panic"
  by (simp add: time_type_from_id_def)

lemma schema_position_Some:
  "schema_position s name = Some i \<Longrightarrow>
   i < length s \<and> fs_name (s ! i) = name \<and> (\<forall>j < i. fs_name (s ! j) \<noteq> name)"
proof (induction s arbitrary: i)
  case (Cons f fs)
  then show ?case
    by (auto split: if_splits simp: nth_Cons split: nat.splits)
qed simp

lemma schema_position_None: "schema_position s name = None \<longleftrightarrow> name \<notin> fs_name ` set s"
  by (induction s) auto

lemma schema_position_distinct:
  assumes "distinct (map fs_name s)" "i < length s"
  shows "schema_position s (fs_name (s ! i)) = Some i"
proof (cases "schema_position s (fs_name (s ! i))")
  case None
  with assms show ?thesis by (simp add: schema_position_None)
next
  case (Some j)
  with schema_position_Some[OF this] assms have "j = i"
    by (metis distinct_conv_nth length_map nth_map)
  with Some show ?thesis by simp
qed

lemma length_bytes_of_string [simp]: "length (bytes_of_string s) = length s"
  by (simp add: bytes_of_string_def)

lemma validity_size_bound: "n \<le> 8 * validity_size n" "8 * validity_size n < n + 8"
  by (simp_all add: validity_size_def)

lemma validity_size_0 [simp]: "validity_size n = 0 \<longleftrightarrow> n = 0"
  by (auto simp: validity_size_def)

lemma validity_size_mono: "m \<le> n \<Longrightarrow> validity_size m \<le> validity_size n"
  by (simp add: validity_size_def div_le_mono)

end
