(* ===== verification/Bitmap.thy ===== *)
theory Bitmap
  imports Format_Types
begin

text \<open>
  Validity bitmaps (\<open>splayed-format/src/bitmap.rs\<close>): bit \<open>i\<close> of a byte string, least
  significant bit first, is row \<open>i\<close>; 1 is valid, 0 is NULL. The three bulk routines of the
  source (\<open>bitmap_count_ones\<close>, \<open>bitmap_fill_bits\<close>, \<open>bitmap_copy_bits\<close>) treat a
  partial head byte, whole body bytes and a partial tail byte separately; each is translated with
  that structure and proved equal to its bit-by-bit specification. \<open>Buffer\<close> and
  \<open>BufferView\<close> appear as the bytes of their data region.
\<close>

subsection \<open>The reference: single bits of a byte string\<close>

definition get_bit :: "bytes \<Rightarrow> nat \<Rightarrow> bool" where
  "get_bit bs j = bit (bs ! (j div 8)) (j mod 8)"

definition ones :: "bytes \<Rightarrow> nat \<Rightarrow> nat \<Rightarrow> nat" where
  "ones bs lo hi = length (filter (get_bit bs) [lo..<hi])"

subsection \<open>Bulk routines\<close>

text \<open>\<open>(((1u16 << n) - 1) << sh) as u8\<close> and the masked read-modify-write of one byte.\<close>

definition edge_mask :: "nat \<Rightarrow> nat \<Rightarrow> u8" where
  "edge_mask n sh = ucast (push_bit sh (push_bit n 1 - 1 :: u16))"

definition rmw_byte :: "u8 \<Rightarrow> u8 \<Rightarrow> u8 \<Rightarrow> u8" where
  "rmw_byte d m s = (d AND NOT m) OR (s AND m)"

text \<open>Whole bytes: \<open>chunks_exact(8)\<close> as \<open>u64\<close> words, then the remainder.\<close>

fun count_body :: "bytes \<Rightarrow> nat" where
  "count_body bs =
     (if 8 \<le> length bs then popcount (of_le (take 8 bs) :: u64) + count_body (drop 8 bs)
      else sum_list (map popcount bs))"

declare count_body.simps [simp del]

definition bitmap_count_ones :: "bytes \<Rightarrow> nat \<Rightarrow> nat \<Rightarrow> ('e, nat) res" where
  "bitmap_count_ones bits bit_off len =
     (if len = 0 then Ok 0
      else if length bits * 8 < bit_off + len then Panic
      else let
          head = min ((8 - bit_off mod 8) mod 8) len;
          c1 = (if 0 < head
                then popcount (bits ! (bit_off div 8) AND edge_mask head (bit_off mod 8)) else 0);
          pos = bit_off + head;
          rest = len - head;
          c2 = count_body (slice (pos div 8) (pos div 8 + rest div 8) bits);
          pos2 = pos + rest div 8 * 8;
          rest2 = rest mod 8;
          c3 = (if 0 < rest2 then popcount (bits ! (pos2 div 8) AND edge_mask rest2 0) else 0)
        in Ok (c1 + c2 + c3))"

definition bitmap_fill_bits :: "bytes \<Rightarrow> nat \<Rightarrow> nat \<Rightarrow> bool \<Rightarrow> ('e, bytes \<times> nat) res" where
  "bitmap_fill_bits dst bit_off len valid =
     (if len = 0 then Ok (dst, 0)
      else if length dst * 8 < bit_off + len then Panic
      else rbind (bitmap_count_ones dst bit_off len) (\<lambda>old. let
          p = bit_off mod 8;
          head = (if p = 0 then 0 else min (8 - p) len);
          body_bit = bit_off + head;
          body_bytes = (len - head) div 8;
          tail = (len - head) mod 8;
          dst1 = (if 0 < head then (let m = edge_mask head p; d = dst ! (bit_off div 8) in
                    dst[bit_off div 8 := (if valid then d OR m else d AND NOT m)]) else dst);
          dst2 = (if 0 < body_bytes
                  then splice (body_bit div 8) (replicate body_bytes (if valid then 0xFF else 0)) dst1
                  else dst1);
          dst3 = (if 0 < tail then (let m = edge_mask tail 0;
                                        idx = (body_bit + body_bytes * 8) div 8; d = dst2 ! idx in
                    dst2[idx := (if valid then d OR m else d AND NOT m)]) else dst2)
        in Ok (dst3, old)))"

definition read_shifted_byte :: "bytes \<Rightarrow> nat \<Rightarrow> nat \<Rightarrow> u8" where
  "read_shifted_byte src b n =
     (let p = b mod 8; lo = drop_bit p (src ! (b div 8))
      in if p + n \<le> 8 then lo else lo OR push_bit (8 - p) (src ! (b div 8 + 1)))"

definition bitmap_copy_bits ::
  "bytes \<Rightarrow> nat \<Rightarrow> bytes \<Rightarrow> nat \<Rightarrow> nat \<Rightarrow> ('e, bytes \<times> nat \<times> nat) res" where
  "bitmap_copy_bits dst dst_off src src_off len =
     (if len = 0 then Ok (dst, 0, 0)
      else if length dst * 8 < dst_off + len then Panic
      else if length src * 8 < src_off + len then Panic
      else rbind (bitmap_count_ones dst dst_off len) (\<lambda>old. let
          p = dst_off mod 8;
          head = (if p = 0 then 0 else min (8 - p) len);
          body_bit = dst_off + head;
          body_bytes = (len - head) div 8;
          tail = (len - head) mod 8;
          dst1 = (if 0 < head then (let m = edge_mask head p;
                                        sb = push_bit p (read_shifted_byte src src_off head) in
                    dst[dst_off div 8 := rmw_byte (dst ! (dst_off div 8)) m sb]) else dst);
          dst2 = (if 0 < body_bytes then (let src_bit = src_off + head; d = body_bit div 8 in
                    if src_bit mod 8 = 0
                    then splice d (slice (src_bit div 8) (src_bit div 8 + body_bytes) src) dst1
                    else foldl (\<lambda>ds k. let b = src_bit + k * 8; sh = src_bit mod 8 in
                           ds[d + k := drop_bit sh (src ! (b div 8)) OR
                                       push_bit (8 - sh) (src ! (b div 8 + 1))])
                         dst1 [0..<body_bytes]) else dst1);
          dst3 = (if 0 < tail then (let dst_bit = body_bit + body_bytes * 8;
                                        src_bit = src_off + head + body_bytes * 8;
                                        m = edge_mask tail 0;
                                        sb = read_shifted_byte src src_bit tail in
                    dst2[dst_bit div 8 := rmw_byte (dst2 ! (dst_bit div 8)) m sb]) else dst2)
        in rbind (bitmap_count_ones dst3 dst_off len) (\<lambda>new. Ok (dst3, old, new))))"

subsection \<open>\<open>BitmapView\<close>\<close>

record bitmap_view =
  bv_data :: bytes
  bv_bit_offset :: nat
  bv_len :: nat

definition bitmap_view_new :: "bytes \<Rightarrow> nat \<Rightarrow> nat \<Rightarrow> (format_error, bitmap_view) res" where
  "bitmap_view_new data bit_offset len =
     (let needed = (bit_offset + len + 7) div 8
      in if length data < needed then Err (InvalidLayout ''validity buffer too small'')
         else Ok \<lparr>bv_data = data, bv_bit_offset = bit_offset, bv_len = len\<rparr>)"

definition view_is_valid :: "bitmap_view \<Rightarrow> nat \<Rightarrow> ('e, bool) res" where
  "view_is_valid v i =
     rbind (assert_that (i < bv_len v)) (\<lambda>_.
       let b = bv_bit_offset v + i
       in Ok ((drop_bit (b mod 8) (bv_data v ! (b div 8))) AND 1 = 1))"

definition view_count_ones :: "bitmap_view \<Rightarrow> ('e, nat) res" where
  "view_count_ones v = bitmap_count_ones (bv_data v) (bv_bit_offset v) (bv_len v)"

definition view_null_count :: "bitmap_view \<Rightarrow> ('e, nat) res" where
  "view_null_count v = rbind (view_count_ones v) (\<lambda>c. Ok (bv_len v - c))"

definition view_all_valid :: "bitmap_view \<Rightarrow> ('e, bool) res" where
  "view_all_valid v = rbind (view_count_ones v) (\<lambda>c. Ok (c = bv_len v))"

definition view_copy_bits_into ::
  "bitmap_view \<Rightarrow> bytes \<Rightarrow> nat \<Rightarrow> nat \<Rightarrow> ('e, bytes \<times> nat \<times> nat) res" where
  "view_copy_bits_into v dst dst_off len =
     bitmap_copy_bits dst dst_off (bv_data v) (bv_bit_offset v) len"

definition view_to_packed_bytes :: "bitmap_view \<Rightarrow> ('e, bytes) res" where
  "view_to_packed_bytes v =
     rbind (bitmap_copy_bits (replicate ((bv_len v + 7) div 8) 0) 0
              (bv_data v) (bv_bit_offset v) (bv_len v)) (\<lambda>(out, _). Ok out)"

definition view_slice :: "bitmap_view \<Rightarrow> nat \<Rightarrow> nat \<Rightarrow> (format_error, bitmap_view) res" where
  "view_slice v offset len =
     (if bv_len v < offset + len then Err (InvalidLayout ''bitmap slice out of range'')
      else bitmap_view_new (bv_data v) (bv_bit_offset v + offset) len)"

subsection \<open>\<open>Bitmap\<close>\<close>

record bitmap =
  bm_data :: bytes
  bm_bit_offset :: nat
  bm_len :: nat

definition bitmap_zeros :: "nat \<Rightarrow> bitmap" where
  "bitmap_zeros len = \<lparr>bm_data = replicate ((len + 7) div 8) 0, bm_bit_offset = 0, bm_len = len\<rparr>"

definition bitmap_ones :: "nat \<Rightarrow> bitmap" where
  "bitmap_ones len =
     (let data = replicate ((len + 7) div 8) 0xFF;
          data' = (if len mod 8 \<noteq> 0
                   then data[length data - 1 := push_bit (len mod 8) 1 - 1] else data)
      in \<lparr>bm_data = data', bm_bit_offset = 0, bm_len = len\<rparr>)"

definition bitmap_from_bytes :: "bytes \<Rightarrow> nat \<Rightarrow> ('e, bitmap) res" where
  "bitmap_from_bytes bs len =
     rbind (assert_that (length bs = (len + 7) div 8)) (\<lambda>_.
       Ok \<lparr>bm_data = bs, bm_bit_offset = 0, bm_len = len\<rparr>)"

definition bitmap_as_view :: "bitmap \<Rightarrow> ('e, bitmap_view) res" where
  "bitmap_as_view b = expect (bitmap_view_new (bm_data b) (bm_bit_offset b) (bm_len b))"

definition bitmap_is_valid :: "bitmap \<Rightarrow> nat \<Rightarrow> ('e, bool) res" where
  "bitmap_is_valid b i = rbind (bitmap_as_view b) (\<lambda>v. view_is_valid v i)"

definition bitmap_set :: "bitmap \<Rightarrow> nat \<Rightarrow> bool \<Rightarrow> ('e, bitmap) res" where
  "bitmap_set b i valid =
     rbind (assert_that (i < bm_len b)) (\<lambda>_.
       let j = bm_bit_offset b + i; d = bm_data b ! (j div 8);
           d' = (if valid then d OR push_bit (j mod 8) 1 else d AND NOT (push_bit (j mod 8) 1))
       in Ok (b\<lparr>bm_data := (bm_data b)[j div 8 := d']\<rparr>))"

definition bitmap_extract_bits :: "bitmap \<Rightarrow> nat \<Rightarrow> nat \<Rightarrow> (format_error, bytes) res" where
  "bitmap_extract_bits b offset len =
     (if bm_len b < offset + len then Err (InvalidLayout ''bitmap extract out of range'')
      else rbind (bitmap_copy_bits (replicate ((len + 7) div 8) 0) 0
                    (bm_data b) (bm_bit_offset b + offset) len) (\<lambda>(out, _). Ok out))"

definition bm_count_ones :: "bitmap \<Rightarrow> ('e, nat) res" where
  "bm_count_ones b = bitmap_count_ones (bm_data b) (bm_bit_offset b) (bm_len b)"

definition bm_null_count :: "bitmap \<Rightarrow> ('e, nat) res" where
  "bm_null_count b = rbind (bm_count_ones b) (\<lambda>c. Ok (bm_len b - c))"

definition bitmap_copy_bits_from ::
  "bitmap \<Rightarrow> nat \<Rightarrow> bitmap_view \<Rightarrow> nat \<Rightarrow> ('e, bitmap \<times> nat \<times> nat) res" where
  "bitmap_copy_bits_from b offset src len =
     rbind (assert_that (offset + len \<le> bm_len b)) (\<lambda>_.
     rbind (bitmap_copy_bits (bm_data b) (bm_bit_offset b + offset)
              (bv_data src) (bv_bit_offset src) len) (\<lambda>(d, old, new).
       Ok (b\<lparr>bm_data := d\<rparr>, old, new)))"

definition bitmap_set_range :: "bitmap \<Rightarrow> nat \<Rightarrow> nat \<Rightarrow> bool \<Rightarrow> ('e, bitmap \<times> nat) res" where
  "bitmap_set_range b offset len valid =
     rbind (assert_that (offset + len \<le> bm_len b)) (\<lambda>_.
     rbind (bitmap_fill_bits (bm_data b) (bm_bit_offset b + offset) len valid) (\<lambda>(d, old).
       Ok (b\<lparr>bm_data := d\<rparr>, old)))"

subsection \<open>Bits of masks and bytes\<close>

lemma bit_edge_mask [byte_simps]:
  assumes "n \<le> 8"
  shows "bit (edge_mask n sh) i \<longleftrightarrow> i < 8 \<and> sh \<le> i \<and> i < sh + n"
proof -
  have "push_bit n 1 - 1 = (mask n :: u16)"
    by (simp add: mask_eq_exp_minus_1 push_bit_eq_mult)
  then show ?thesis
    using assms by (auto simp: edge_mask_def bit_simps bit_ucast_iff)
qed

lemma bit_rmw_byte [byte_simps]:
  "bit (rmw_byte d m s) i \<longleftrightarrow> (if bit m i then bit s i else bit d i)"
  by (auto simp: rmw_byte_def bit_simps dest: bit_imp_le_length)

lemma bit_255_int [simp]: "bit (255 :: int) i \<longleftrightarrow> i < 8"
proof -
  have "(255 :: int) = mask 8" by (simp add: mask_eq_exp_minus_1)
  then show ?thesis by (metis bit_mask_iff possible_bit_def possible_bit_int)
qed

lemma get_bit_update:
  "i < length bs \<Longrightarrow> get_bit (bs[i := b]) j = (if j div 8 = i then bit b (j mod 8) else get_bit bs j)"
  by (auto simp: get_bit_def)

lemma ones_empty [simp]: "hi \<le> lo \<Longrightarrow> ones bs lo hi = 0"
  by (simp add: ones_def)

lemma ones_split: "a \<le> b \<Longrightarrow> b \<le> c \<Longrightarrow> ones bs a c = ones bs a b + ones bs b c"
  unfolding ones_def by (rule length_filter_upt_split)

lemma ones_cong:
  "(\<And>j. lo \<le> j \<Longrightarrow> j < hi \<Longrightarrow> get_bit bs j = get_bit cs j) \<Longrightarrow> ones bs lo hi = ones cs lo hi"
  unfolding ones_def by (rule length_filter_cong) simp

lemma ones_le: "ones bs lo hi \<le> hi - lo"
  unfolding ones_def by (rule length_filter_le_upt)

lemma ones_all: "(\<And>j. lo \<le> j \<Longrightarrow> j < hi \<Longrightarrow> get_bit bs j) \<Longrightarrow> ones bs lo hi = hi - lo"
  by (simp add: ones_def filter_id_conv)

lemma ones_none: "(\<And>j. lo \<le> j \<Longrightarrow> j < hi \<Longrightarrow> \<not> get_bit bs j) \<Longrightarrow> ones bs lo hi = 0"
  by (simp add: ones_def filter_empty_conv)

subsection \<open>Counting\<close>

lemma popcount_masked:
  assumes "p + n \<le> 8"
  shows "popcount (w AND edge_mask n p) = length (filter (bit w) [p..<p + n])"
proof -
  have "filter (bit (w AND edge_mask n p)) [0..<8] =
        filter (\<lambda>i. p \<le> i \<and> i < p + n \<and> bit w i) [0..<8]"
    using assms by (intro filter_cong) (auto simp: bit_simps byte_simps)
  also have "length \<dots> = length (filter (bit w) [p..<p + n])"
    using length_filter_upt_split[of 0 p 8 "\<lambda>i. p \<le> i \<and> i < p + n \<and> bit w i"]
      length_filter_upt_split[of p "p + n" 8 "\<lambda>i. p \<le> i \<and> i < p + n \<and> bit w i"] assms
    by (auto intro!: length_filter_cong simp: filter_empty_conv)
  finally show ?thesis by (simp add: popcount_def)
qed

lemma ones_in_byte:
  assumes "p + n \<le> 8"
  shows "ones bs (8 * i + p) (8 * i + p + n) = length (filter (bit (bs ! i)) [p..<p + n])"
proof -
  have "ones bs (8 * i + p) (8 * i + p + n) =
        length (filter (\<lambda>j. get_bit bs (j + 8 * i)) [p..<p + n])"
    using length_filter_upt_shift[of "get_bit bs" p "8 * i" "p + n"]
    by (simp add: ones_def ac_simps)
  also have "\<dots> = length (filter (bit (bs ! i)) [p..<p + n])"
    using assms by (intro length_filter_cong) (auto simp: get_bit_def)
  finally show ?thesis .
qed

lemma count_edge:
  assumes "pos mod 8 + n \<le> 8"
  shows "popcount (bs ! (pos div 8) AND edge_mask n (pos mod 8)) = ones bs pos (pos + n)"
  using ones_in_byte[OF assms, of bs "pos div 8"] assms by (simp add: popcount_masked)

lemma sum_popcount: "sum_list (map popcount bs) = ones bs 0 (8 * length bs)"
proof (induction bs rule: rev_induct)
  case (snoc b bs)
  have "ones (bs @ [b]) 0 (8 * length bs) = ones bs 0 (8 * length bs)"
    by (rule ones_cong) (simp add: get_bit_def nth_append div_less_iff_less_mult)
  moreover have "popcount b = ones (bs @ [b]) (8 * length bs) (8 * length bs + 8)"
    using ones_in_byte[of 0 8 "bs @ [b]" "length bs"] by (simp add: popcount_def)
  ultimately show ?case
    using snoc.IH ones_split[of 0 "8 * length bs" "8 * length bs + 8" "bs @ [b]"]
    by (simp add: add.commute)
qed simp

lemma popcount_u64: "length bs = 8 \<Longrightarrow> popcount (of_le bs :: u64) = ones bs 0 64"
  by (simp add: popcount_def ones_def)
     (rule length_filter_cong, auto simp: bit_of_le get_bit_def div_less_iff_less_mult)

lemma ones_append_drop:
  assumes "8 * n \<le> lo" "n \<le> length bs"
  shows "ones bs lo hi = ones (drop n bs) (lo - 8 * n) (hi - 8 * n)"
proof (cases "lo \<le> hi")
  case True
  obtain a b where ab: "lo = a + 8 * n" "hi = b + 8 * n"
    using assms True by (metis le_add_diff_inverse2 le_trans)
  have "ones bs lo hi = length (filter (\<lambda>i. get_bit bs (i + 8 * n)) [a..<b])"
    using length_filter_upt_shift[of "get_bit bs" a "8 * n" b] by (simp add: ones_def ab)
  also have "\<dots> = ones (drop n bs) a b"
    unfolding ones_def using assms(2)
    by (intro length_filter_cong) (simp add: get_bit_def add.commute)
  finally show ?thesis by (simp add: ab)
qed simp

lemma count_body_ones: "count_body bs = ones bs 0 (8 * length bs)"
proof (induction bs rule: count_body.induct)
  case (1 bs)
  show ?case
  proof (cases "8 \<le> length bs")
    case True
    have "ones bs 0 (8 * length bs) = ones bs 0 64 + ones bs 64 (8 * length bs)"
      by (rule ones_split) (use True in simp_all)
    also have "ones bs 0 64 = ones (take 8 bs) 0 64"
      by (rule ones_cong) (simp add: get_bit_def div_less_iff_less_mult)
    also have "ones bs 64 (8 * length bs) = ones (drop 8 bs) 0 (8 * length (drop 8 bs))"
      using ones_append_drop[of 8 64 bs "8 * length bs"] True by (simp add: diff_mult_distrib2)
    finally show ?thesis
      using True "1.IH" popcount_u64[of "take 8 bs"] by (subst count_body.simps) simp
  next
    case False
    then show ?thesis by (subst count_body.simps) (simp add: sum_popcount)
  qed
qed

lemma count_slice:
  assumes "8 * (i + n) \<le> 8 * length bs"
  shows "count_body (slice i (i + n) bs) = ones bs (8 * i) (8 * i + 8 * n)"
proof -
  have "ones bs (8 * i) (8 * i + 8 * n) = ones (drop i bs) 0 (8 * n)"
    using ones_append_drop[of i "8 * i" bs "8 * i + 8 * n"] assms by simp
  also have "\<dots> = ones (slice i (i + n) bs) 0 (8 * n)"
    by (rule ones_cong) (simp add: get_bit_def slice_def div_less_iff_less_mult)
  finally show ?thesis using assms by (simp add: count_body_ones)
qed

text \<open>The head, body and tail of a bit range that starts at \<open>off\<close>.\<close>

lemma head_gap: "(8 - off mod 8) mod 8 = (if off mod 8 = 0 then 0 else 8 - off mod 8)" for off :: nat
  by (auto simp: mod_less)

lemma range_parts:
  fixes off len head :: nat
  assumes head: "head = (if off mod 8 = 0 then 0 else min (8 - off mod 8) len)"
  shows "head \<le> len" "off mod 8 + head \<le> 8"
    "head < len \<Longrightarrow> (off + head) mod 8 = 0"
    "head < len \<Longrightarrow> 8 * ((off + head) div 8) = off + head"
    "0 < head \<Longrightarrow> off mod 8 \<noteq> 0"
proof -
  obtain q r where off: "off = 8 * q + r" "r < 8"
    by (metis mult_div_mod_eq mod_less_divisor zero_less_numeral)
  then have r: "off mod 8 = r" by simp
  show "head \<le> len" using head by simp
  show "off mod 8 + head \<le> 8" using head off(2) unfolding r by (auto simp: min_def)
  show 3: "(off + head) mod 8 = 0" if "head < len"
  proof (cases "r = 0")
    case False
    with that head have "head = 8 - r" unfolding r by (simp add: min_def split: if_splits)
    then have "off + head = 8 * (q + 1)" using off by simp
    then show ?thesis by simp
  qed (use head off r in simp)
  show "8 * ((off + head) div 8) = off + head" if "head < len"
    using 3[OF that] by auto
  show "0 < head \<Longrightarrow> off mod 8 \<noteq> 0"
    using head by (cases "off mod 8 = 0") auto
qed

theorem bitmap_count_ones_eq:
  assumes "bit_off + len \<le> length bits * 8"
  shows "bitmap_count_ones bits bit_off len = Ok (ones bits bit_off (bit_off + len))"
proof (cases "len = 0")
  case False
  define head where "head = min ((8 - bit_off mod 8) mod 8) len"
  then have "head = (if bit_off mod 8 = 0 then 0 else min (8 - bit_off mod 8) len)"
    by (simp add: head_gap)
  note parts = range_parts[OF this]
  define pos where "pos = bit_off + head"
  define rest where "rest = len - head"
  define pos2 where "pos2 = pos + rest div 8 * 8"
  have "pos + rest = bit_off + len" using parts(1) by (simp add: pos_def rest_def)
  then have total: "pos2 + rest mod 8 = bit_off + len"
    unfolding pos2_def by (metis add.assoc div_mult_mod_eq)
  have c1: "(if 0 < head then popcount (bits ! (bit_off div 8) AND edge_mask head (bit_off mod 8))
             else 0) = ones bits bit_off pos"
    using parts(2) by (simp add: count_edge pos_def)
  have aligned: "0 < rest \<Longrightarrow> 8 * (pos div 8) = pos"
    using parts(4) by (simp add: pos_def rest_def)
  have c2: "count_body (slice (pos div 8) (pos div 8 + rest div 8) bits) = ones bits pos pos2"
  proof (cases "rest div 8 = 0")
    case True
    then show ?thesis by (simp add: pos2_def count_body_ones)
  next
    case nz: False
    then have "8 * (pos div 8) = pos" using aligned by (cases "rest = 0") auto
    moreover have "8 * (pos div 8 + rest div 8) \<le> 8 * length bits"
    proof -
      have "8 * (rest div 8) \<le> rest" by simp
      then have "pos + 8 * (rest div 8) \<le> 8 * length bits"
        using assms parts(1) by (simp add: pos_def rest_def)
      then show ?thesis using calculation by simp
    qed
    ultimately show ?thesis using count_slice[of "pos div 8" "rest div 8" bits]
      by (simp add: pos2_def mult.commute)
  qed
  have c3: "(if 0 < rest mod 8 then popcount (bits ! (pos2 div 8) AND edge_mask (rest mod 8) 0)
             else 0) = ones bits pos2 (bit_off + len)"
  proof (cases "0 < rest mod 8")
    case True
    then have "pos2 = 8 * (pos div 8 + rest div 8)"
      using aligned by (cases "rest = 0") (simp_all add: pos2_def)
    then have "pos2 mod 8 = 0" by simp
    then show ?thesis using True total count_edge[of pos2 "rest mod 8" bits] by simp
  next
    case nt: False
    then have "pos2 = bit_off + len" using total by simp
    with nt show ?thesis by simp
  qed
  have "ones bits bit_off (bit_off + len) =
        ones bits bit_off pos + ones bits pos pos2 + ones bits pos2 (bit_off + len)"
  proof -
    have "pos \<le> pos2" "bit_off \<le> pos" by (simp_all add: pos2_def pos_def)
    moreover have "pos2 \<le> bit_off + len" using total by simp
    ultimately show ?thesis
      using ones_split[of bit_off pos "bit_off + len" bits]
        ones_split[of pos pos2 "bit_off + len" bits] by simp
  qed
  then show ?thesis
    using assms False c1 c2 c3
    unfolding bitmap_count_ones_def Let_def head_def[symmetric] pos_def[symmetric]
      rest_def[symmetric] pos2_def[symmetric] by simp
qed (simp add: bitmap_count_ones_def)

subsection \<open>Writing a bit range\<close>

lemma byte_range:
  fixes off n j :: nat
  assumes "off mod 8 + n \<le> 8"
  shows "(j div 8 = off div 8 \<and> off mod 8 \<le> j mod 8 \<and> j mod 8 < off mod 8 + n) \<longleftrightarrow>
         off \<le> j \<and> j < off + n"
proof -
  obtain q r where off: "off = 8 * q + r" "r < 8"
    by (metis mult_div_mod_eq mod_less_divisor zero_less_numeral)
  obtain k t where j: "j = 8 * k + t" "t < 8"
    by (metis mult_div_mod_eq mod_less_divisor zero_less_numeral)
  have e: "j div 8 = k" "off div 8 = q" "j mod 8 = t" "off mod 8 = r"
    using off j by simp_all
  have rn: "r + n \<le> 8" using assms e(4) by simp
  show ?thesis
  proof (cases "k = q")
    case True
    then show ?thesis unfolding e using off(1) j(1) by simp
  next
    case False
    then have "\<not> (8 * q + r \<le> 8 * k + t \<and> 8 * k + t < 8 * q + r + n)"
      using off(2) j(2) rn by arith
    then show ?thesis unfolding e using False off(1) j(1) by simp
  qed
qed

lemma byte_block:
  fixes d n j :: nat
  shows "d \<le> j div 8 \<and> j div 8 < d + n \<longleftrightarrow> 8 * d \<le> j \<and> j < 8 * d + 8 * n"
  by (auto simp: less_eq_div_iff_mult_less_eq div_less_iff_less_mult mult.commute add_mult_distrib)

lemma get_bit_edge:
  assumes "off mod 8 + n \<le> 8" "off div 8 < length bs"
    and "\<And>t. t < 8 \<Longrightarrow>
      bit b t = (if bit (edge_mask n (off mod 8)) t then f t else bit (bs ! (off div 8)) t)"
  shows "get_bit (bs[off div 8 := b]) j =
         (if off \<le> j \<and> j < off + n then f (j mod 8) else get_bit bs j)"
proof (cases "j div 8 = off div 8")
  case True
  have m: "bit (edge_mask n (off mod 8)) (j mod 8) \<longleftrightarrow> off \<le> j \<and> j < off + n"
    using byte_range[OF assms(1), of j] assms(1) True by (auto simp: bit_edge_mask)
  show ?thesis
    unfolding get_bit_update[OF assms(2)] using True assms(3)[of "j mod 8"] m
    by (simp add: get_bit_def)
next
  case False
  then have "\<not> (off \<le> j \<and> j < off + n)" using byte_range[OF assms(1), of j] by blast
  then show ?thesis unfolding get_bit_update[OF assms(2)] using False by auto
qed

lemma fill_edge:
  assumes "off mod 8 + n \<le> 8" "off div 8 < length bs"
  shows "get_bit (bs[off div 8 := (if v then bs ! (off div 8) OR edge_mask n (off mod 8)
                                   else bs ! (off div 8) AND NOT (edge_mask n (off mod 8)))]) j =
         (if off \<le> j \<and> j < off + n then v else get_bit bs j)"
  by (rule get_bit_edge[OF assms]) (auto simp: bit_simps)

lemma get_bit_splice:
  assumes "d + length ys \<le> length bs"
  shows "get_bit (splice d ys bs) j =
    (if 8 * d \<le> j \<and> j < 8 * d + 8 * length ys then bit (ys ! (j div 8 - d)) (j mod 8)
     else get_bit bs j)"
proof (cases "j div 8 < length bs")
  case True
  then show ?thesis
    using assms byte_block[of d j "length ys"] by (simp add: get_bit_def nth_splice)
next
  case False
  then have "\<not> (8 * d \<le> j \<and> j < 8 * d + 8 * length ys)"
    using byte_block[of d j "length ys"] assms by linarith
  moreover have "splice d ys bs ! (j div 8) = bs ! (j div 8)"
  proof -
    have "\<not> j div 8 < d" "\<not> j div 8 - d < length ys" using False assms by linarith+
    then show ?thesis using assms by (simp add: splice_def nth_append)
  qed
  ultimately show ?thesis by (auto simp: get_bit_def)
qed

lemma foldl_update_splice:
  "d + n \<le> length bs \<Longrightarrow>
   foldl (\<lambda>ds k. ds[d + k := f k]) bs [0..<n] = splice d (map f [0..<n]) bs"
proof (induction n)
  case (Suc n)
  have "foldl (\<lambda>ds k. ds[d + k := f k]) bs [0..<Suc n] = (splice d (map f [0..<n]) bs)[d + n := f n]"
    using Suc by simp
  also have "\<dots> = splice d (map f [0..<Suc n]) bs"
    by (rule nth_equalityI) (use Suc.prems in \<open>auto simp: nth_splice nth_list_update nth_append less_Suc_eq\<close>)
  finally show ?case .
qed simp

text \<open>Both writers split the range in the same three parts.\<close>

lemma write_parts:
  fixes off len head :: nat
  assumes head: "head = (if off mod 8 = 0 then 0 else min (8 - off mod 8) len)"
    and fits: "off + len \<le> n * 8" and "0 < len"
  defines "body \<equiv> (len - head) div 8" and "tail \<equiv> (len - head) mod 8"
  shows "head \<le> len" "off mod 8 + head \<le> 8" "off div 8 < n"
    "off + head + body * 8 + tail = off + len"
    "0 < body \<Longrightarrow> 8 * ((off + head) div 8) = off + head"
    "0 < body \<Longrightarrow> (off + head) div 8 + body \<le> n"
    "0 < tail \<Longrightarrow> (off + head + body * 8) mod 8 = 0"
    "0 < tail \<Longrightarrow> (off + head + body * 8) div 8 < n"
proof -
  note parts = range_parts[OF head]
  show "head \<le> len" "off mod 8 + head \<le> 8" by (fact parts)+
  show "off div 8 < n" using fits \<open>0 < len\<close> by (simp add: div_less_iff_less_mult)
  have "body * 8 + tail = len - head" by (simp add: body_def tail_def)
  then show total: "off + head + body * 8 + tail = off + len" using parts(1) by simp
  show aligned: "8 * ((off + head) div 8) = off + head" if "0 < body"
    using that parts(4) by (cases "head < len") (simp_all add: body_def)
  show "(off + head) div 8 + body \<le> n" if "0 < body"
    using aligned[OF that] total fits by linarith
  show tl: "(off + head + body * 8) mod 8 = 0" if "0 < tail"
    using that parts(3) by (cases "head < len") (simp_all add: tail_def mod_add_left_eq)
  show "(off + head + body * 8) div 8 < n" if "0 < tail"
    using that total fits by (simp add: div_less_iff_less_mult)
qed

theorem bitmap_fill_bits_eq:
  assumes fits: "off + len \<le> length dst * 8"
  shows "\<exists>dst'. bitmap_fill_bits dst off len valid =
       (Ok (dst', ones dst off (off + len)) :: ('e, _) res) \<and>
     length dst' = length dst \<and>
     (\<forall>j. get_bit dst' j = (if off \<le> j \<and> j < off + len then valid else get_bit dst j))"
proof (cases "len = 0")
  case False
  define head where "head = (if off mod 8 = 0 then 0 else min (8 - off mod 8) len)"
  define body where "body = (len - head) div 8"
  define tail where "tail = (len - head) mod 8"
  note P = write_parts[OF head_def fits, folded body_def tail_def] and pos = False
  define dst1 where "dst1 = (if 0 < head then (let m = edge_mask head (off mod 8); d = dst ! (off div 8) in
      dst[off div 8 := (if valid then d OR m else d AND NOT m)]) else dst)"
  define dst2 where "dst2 = (if 0 < body
      then splice ((off + head) div 8) (replicate body (if valid then 0xFF else 0)) dst1 else dst1)"
  define idx where "idx = (off + head + body * 8) div 8"
  define dst3 where "dst3 = (if 0 < tail then (let m = edge_mask tail 0; d = dst2 ! idx in
      dst2[idx := (if valid then d OR m else d AND NOT m)]) else dst2)"
  have l1: "length dst1 = length dst" by (simp add: dst1_def Let_def)
  have l2: "length dst2 = length dst" using P(6) pos by (simp add: dst2_def l1)
  have l3: "length dst3 = length dst" by (simp add: dst3_def Let_def l2)
  have b1: "get_bit dst1 j = (if off \<le> j \<and> j < off + head then valid else get_bit dst j)" for j
    unfolding dst1_def Let_def using fill_edge[OF P(2), of dst valid j] P(3) pos
    by (cases "0 < head") auto
  have b2: "get_bit dst2 j = (if off \<le> j \<and> j < off + head + body * 8 then valid else get_bit dst j)" for j
  proof (cases "0 < body")
    case True
    then have "8 * ((off + head) div 8) = off + head" "(off + head) div 8 + body \<le> length dst1"
      using P(5,6) pos l1 by simp_all
    moreover have "j div 8 - (off + head) div 8 < body"
      if "off + head \<le> j" "j < off + head + body * 8"
      using that byte_block[of "(off + head) div 8" j body] calculation True by linarith
    ultimately show ?thesis
      using True b1[of j] by (auto simp: dst2_def get_bit_splice mult.commute)
  qed (simp add: dst2_def b1)
  define off2 where "off2 = off + head + body * 8"
  have b3: "get_bit dst3 j = (if off \<le> j \<and> j < off + len then valid else get_bit dst j)" for j
  proof (cases "0 < tail")
    case True
    have "off2 mod 8 = 0" "off2 div 8 < length dst2" "off2 mod 8 + tail \<le> 8"
      using P(7,8) pos True l2 by (simp_all add: off2_def tail_def)
    then have "get_bit dst3 j = (if off2 \<le> j \<and> j < off2 + tail then valid else get_bit dst2 j)"
      unfolding dst3_def Let_def idx_def off2_def[symmetric]
      using fill_edge[of off2 tail dst2 valid j] True by (cases valid) simp_all
    then show ?thesis using b2[of j] P(4) pos by (auto simp: off2_def)
  next
    case nt: False
    then have "off + head + body * 8 = off + len" using P(4) pos by simp
    with nt show ?thesis by (simp add: dst3_def b2)
  qed
  have "bitmap_fill_bits dst off len valid = Ok (dst3, ones dst off (off + len))"
    using pos fits
    unfolding bitmap_fill_bits_def Let_def bitmap_count_ones_eq[OF fits] rbind.simps
      head_def[symmetric] body_def[symmetric] tail_def[symmetric]
      dst1_def[unfolded Let_def, symmetric] dst2_def[symmetric] idx_def[symmetric]
      dst3_def[unfolded Let_def, symmetric] by simp
  then show ?thesis using l3 b3 by blast
qed (auto simp: bitmap_fill_bits_def)

lemma div8_add:
  fixes q r t :: nat
  assumes "r + t < 8"
  shows "(8 * q + r + t) div 8 = q" "(8 * q + r + t) mod 8 = r + t"
proof -
  have "8 * q + r + t = (r + t) + 8 * q" by simp
  then show "(8 * q + r + t) div 8 = q" "(8 * q + r + t) mod 8 = r + t"
    using assms by (simp_all only: div_mult_self2 mod_mult_self2 div_less mod_less)
qed

lemma shifted_byte:
  assumes "t < 8"
  shows "bit (drop_bit (b mod 8) (src ! (b div 8)) OR push_bit (8 - b mod 8) (src ! (b div 8 + 1))) t
         = (if b mod 8 = 0 then bit (src ! (b div 8)) t else get_bit src (b + t))"
proof (cases "b mod 8 = 0")
  case False
  obtain q r where b: "b = 8 * q + r" "r < 8"
    by (metis mult_div_mod_eq mod_less_divisor zero_less_numeral)
  then have e: "b div 8 = q" "b mod 8 = r" by simp_all
  show ?thesis
  proof (cases "r + t < 8")
    case True
    then have "(b + t) div 8 = q" "(b + t) mod 8 = r + t" using b by (simp_all add: div8_add)
    with True assms False show ?thesis
      unfolding e get_bit_def by (auto simp: bit_simps e)
  next
    case ge: False
    then have eq: "b + t = 8 * (q + 1) + 0 + (r + t - 8)" and lt: "0 + (r + t - 8) < 8"
      using b assms by simp_all
    have "(b + t) div 8 = q + 1" unfolding eq by (rule div8_add[OF lt])
    moreover have "(b + t) mod 8 = 0 + (r + t - 8)" unfolding eq by (rule div8_add[OF lt])
    then have "(b + t) mod 8 = t - (8 - r)" using ge b(2) by simp
    moreover have "\<not> bit (src ! q) (r + t)" using ge by (auto dest: bit_imp_le_length)
    ultimately show ?thesis
      using ge assms False unfolding e get_bit_def by (auto simp: bit_simps e)
  qed
next
  case True
  have "\<not> bit (src ! (b div 8 + 1)) (t - 8)" if "8 \<le> t" using that assms by simp
  with True assms show ?thesis by (auto simp: bit_simps)
qed

lemma read_shifted_bit:
  assumes "t < n" "n \<le> 8"
  shows "bit (read_shifted_byte src b n) t = get_bit src (b + t)"
proof (cases "b mod 8 + n \<le> 8")
  case True
  obtain q r where b: "b = 8 * q + r" "r < 8"
    by (metis mult_div_mod_eq mod_less_divisor zero_less_numeral)
  with True assms(1) have "(b + t) div 8 = q" "(b + t) mod 8 = r + t" "b div 8 = q" "b mod 8 = r"
    by (simp_all add: div8_add)
  with True show ?thesis
    by (simp add: read_shifted_byte_def Let_def get_bit_def bit_drop_bit_eq)
next
  case False
  then have "b mod 8 \<noteq> 0" using assms by auto
  with False assms shifted_byte[of t b src] show ?thesis
    by (simp add: read_shifted_byte_def Let_def)
qed

lemma copy_edge:
  assumes "off mod 8 + n \<le> 8" "off div 8 < length bs"
  shows "get_bit (bs[off div 8 := rmw_byte (bs ! (off div 8)) (edge_mask n (off mod 8))
            (push_bit (off mod 8) (read_shifted_byte src sb n))]) j =
         (if off \<le> j \<and> j < off + n then get_bit src (sb + (j - off)) else get_bit bs j)"
proof -
  let ?f = "\<lambda>t. get_bit src (sb + (t - off mod 8))"
  have "get_bit (bs[off div 8 := rmw_byte (bs ! (off div 8)) (edge_mask n (off mod 8))
            (push_bit (off mod 8) (read_shifted_byte src sb n))]) j =
        (if off \<le> j \<and> j < off + n then ?f (j mod 8) else get_bit bs j)"
  proof (rule get_bit_edge[OF assms])
    fix t :: nat assume "t < 8"
    then show "bit (rmw_byte (bs ! (off div 8)) (edge_mask n (off mod 8))
           (push_bit (off mod 8) (read_shifted_byte src sb n))) t =
         (if bit (edge_mask n (off mod 8)) t then ?f t else bit (bs ! (off div 8)) t)"
      using assms(1) by (auto simp: bit_rmw_byte bit_edge_mask bit_push_bit_iff read_shifted_bit)
  qed
  moreover have "j mod 8 - off mod 8 = j - off" if "off \<le> j \<and> j < off + n"
  proof -
    have "j div 8 = off div 8" using byte_range[OF assms(1), of j] that by blast
    then show ?thesis by (metis minus_mod_eq_mult_div diff_diff_eq2 diff_le_self
          mult_div_mod_eq add_diff_cancel_left)
  qed
  ultimately show ?thesis by auto
qed

lemma copy_body:
  fixes d sb body :: nat and src dst1 :: bytes
  defines "r \<equiv> (if sb mod 8 = 0 then splice d (slice (sb div 8) (sb div 8 + body) src) dst1
     else foldl (\<lambda>ds k. let b = sb + k * 8; sh = sb mod 8 in
        ds[d + k := drop_bit sh (src ! (b div 8)) OR push_bit (8 - sh) (src ! (b div 8 + 1))])
      dst1 [0..<body])"
  assumes "d + body \<le> length dst1" "sb + 8 * body \<le> 8 * length src"
  shows "length r = length dst1"
    "get_bit r j = (if 8 * d \<le> j \<and> j < 8 * d + 8 * body then get_bit src (sb + (j - 8 * d))
                    else get_bit dst1 j)"
proof -
  define f where "f k = (if sb mod 8 = 0 then src ! (sb div 8 + k)
    else drop_bit (sb mod 8) (src ! ((sb + k * 8) div 8)) OR
         push_bit (8 - sb mod 8) (src ! ((sb + k * 8) div 8 + 1)))" for k
  have "r = splice d (map f [0..<body]) dst1"
  proof (cases "sb mod 8 = 0")
    case True
    then have "sb div 8 + body \<le> length src" using assms(3) by auto
    then have "slice (sb div 8) (sb div 8 + body) src = map f [0..<body]"
      using True by (intro nth_equalityI) (simp_all add: f_def)
    with True show ?thesis by (simp add: r_def)
  next
    case False
    then show ?thesis
      using foldl_update_splice[of d body dst1 f] assms(2) by (simp add: r_def f_def Let_def)
  qed
  moreover have f: "bit (f k) t = get_bit src (sb + 8 * k + t)" if "t < 8" for k t
  proof (cases "sb mod 8 = 0")
    case True
    then obtain q where "sb = 8 * q" by (metis mod_0_imp_dvd dvdE)
    with that div8_add[of 0 t "q + k"] show ?thesis
      by (simp add: f_def get_bit_def add_mult_distrib2)
  next
    case False
    with that shifted_byte[of t "sb + k * 8" src] show ?thesis
      by (simp add: f_def mult.commute)
  qed
  ultimately show "length r = length dst1" using assms(2) by simp
  show "get_bit r j = (if 8 * d \<le> j \<and> j < 8 * d + 8 * body then get_bit src (sb + (j - 8 * d))
                    else get_bit dst1 j)"
  proof (cases "8 * d \<le> j \<and> j < 8 * d + 8 * body")
    case True
    then have "j div 8 - d < body" "d \<le> j div 8" using byte_block[of d j body] by auto
    moreover from this have "8 * (j div 8 - d) + j mod 8 = j - 8 * d"
      by (simp add: diff_mult_distrib2)
    ultimately show ?thesis
      using True \<open>r = _\<close> assms(2) f[of "j mod 8" "j div 8 - d"]
      by (simp add: get_bit_splice add.assoc)
  next
    case False
    then show ?thesis using \<open>r = _\<close> assms(2) by (auto simp: get_bit_splice)
  qed
qed

theorem bitmap_copy_bits_eq:
  assumes fits: "off + len \<le> length dst * 8" and src: "soff + len \<le> length src * 8"
  shows "\<exists>dst'. bitmap_copy_bits dst off src soff len =
       (Ok (dst', ones dst off (off + len), ones dst' off (off + len)) :: ('e, _) res) \<and>
     length dst' = length dst \<and>
     (\<forall>j. get_bit dst' j =
        (if off \<le> j \<and> j < off + len then get_bit src (soff + (j - off)) else get_bit dst j))"
proof (cases "len = 0")
  case False
  define head where "head = (if off mod 8 = 0 then 0 else min (8 - off mod 8) len)"
  define body where "body = (len - head) div 8"
  define tail where "tail = (len - head) mod 8"
  note P = write_parts[OF head_def fits, folded body_def tail_def] and pos = False
  define dst1 where "dst1 = (if 0 < head then (let m = edge_mask head (off mod 8);
        sb = push_bit (off mod 8) (read_shifted_byte src soff head) in
      dst[off div 8 := rmw_byte (dst ! (off div 8)) m sb]) else dst)"
  define r where "r = (let src_bit = soff + head; d = (off + head) div 8 in
     if src_bit mod 8 = 0 then splice d (slice (src_bit div 8) (src_bit div 8 + body) src) dst1
     else foldl (\<lambda>ds k. let b = src_bit + k * 8; sh = src_bit mod 8 in
        ds[d + k := drop_bit sh (src ! (b div 8)) OR push_bit (8 - sh) (src ! (b div 8 + 1))])
      dst1 [0..<body])"
  define dst2 where "dst2 = (if 0 < body then r else dst1)"
  define off2 where "off2 = off + head + body * 8"
  define dst3 where "dst3 = (if 0 < tail then (let dst_bit = off2; src_bit = soff + head + body * 8;
        m = edge_mask tail 0; sb = read_shifted_byte src src_bit tail in
      dst2[dst_bit div 8 := rmw_byte (dst2 ! (dst_bit div 8)) m sb]) else dst2)"
  have l1: "length dst1 = length dst" by (simp add: dst1_def Let_def)
  have sfit: "soff + head + 8 * body \<le> 8 * length src" using P(4) pos src by linarith
  have rb: "length r = length dst1"
    "get_bit r j = (if 8 * ((off + head) div 8) \<le> j \<and> j < 8 * ((off + head) div 8) + 8 * body
       then get_bit src (soff + head + (j - 8 * ((off + head) div 8))) else get_bit dst1 j)"
    if "0 < body" for j
    using copy_body[of "(off + head) div 8" body dst1 "soff + head" src] P(6) pos that l1 sfit
    unfolding r_def Let_def by simp_all
  have l2: "length dst2 = length dst" using rb(1) by (simp add: dst2_def l1)
  have l3: "length dst3 = length dst" by (simp add: dst3_def Let_def l2)
  let ?v = "\<lambda>n j. if off \<le> j \<and> j < off + n then get_bit src (soff + (j - off)) else get_bit dst j"
  have b1: "get_bit dst1 j = ?v head j" for j
    unfolding dst1_def Let_def using copy_edge[OF P(2), of dst src soff j] P(3) pos
    by (cases "0 < head") auto
  have b2: "get_bit dst2 j = ?v (head + body * 8) j" for j
  proof (cases "0 < body")
    case True
    then show ?thesis using rb(2)[OF True, of j] P(5) pos b1[of j]
      by (auto simp: dst2_def)
  qed (simp add: dst2_def b1)
  have b3: "get_bit dst3 j = ?v len j" for j
  proof (cases "0 < tail")
    case True
    have "off2 mod 8 = 0" "off2 div 8 < length dst2" "off2 mod 8 + tail \<le> 8"
      using P(7,8) pos True l2 by (simp_all add: off2_def tail_def)
    then have "get_bit dst3 j = (if off2 \<le> j \<and> j < off2 + tail
        then get_bit src (soff + head + body * 8 + (j - off2)) else get_bit dst2 j)"
      unfolding dst3_def Let_def
      using copy_edge[of off2 tail dst2 src "soff + head + body * 8" j] True by simp
    then show ?thesis using b2[of j] P(4) pos by (auto simp: off2_def)
  next
    case nt: False
    then have "head + body * 8 = len" using P(4) pos by simp
    with nt show ?thesis using b2[of j] by (simp add: dst3_def)
  qed
  have fits3: "off + len \<le> length dst3 * 8" using fits l3 by simp
  have "bitmap_copy_bits dst off src soff len =
       Ok (dst3, ones dst off (off + len), ones dst3 off (off + len))"
    using pos fits src
    unfolding bitmap_copy_bits_def Let_def bitmap_count_ones_eq[OF fits] rbind.simps
      head_def[symmetric] body_def[symmetric] tail_def[symmetric]
      dst1_def[unfolded Let_def, symmetric] r_def[unfolded Let_def, symmetric]
      dst2_def[symmetric] off2_def[symmetric] dst3_def[unfolded Let_def, symmetric]
    by (simp add: bitmap_count_ones_eq[OF fits3])
  then show ?thesis using l3 b3 by blast
qed (auto simp: bitmap_copy_bits_def)

subsection \<open>The contract of a bulk write\<close>

lemma get_bit_ext:
  assumes "length bs = length cs" "\<And>j. j < 8 * length bs \<Longrightarrow> get_bit bs j = get_bit cs j"
  shows "bs = cs"
proof (rule nth_equalityI)
  fix i assume i: "i < length bs"
  show "bs ! i = cs ! i"
  proof (rule bit_word_eqI)
    fix k assume "k < LENGTH(8)"
    then have k: "k < 8" by simp
    have "8 * i + 0 + k = 8 * i + k" by simp
    moreover have "8 * i + k < 8 * length bs" using i k by linarith
    ultimately show "bit (bs ! i) k = bit (cs ! i) k"
      using assms(2)[of "8 * i + k"] div8_add[of 0 k i] k by (simp add: get_bit_def)
  qed
qed (fact assms)

text \<open>
  A client that keeps a running count of NULLs (the column writers do) relies on this contract
  and on nothing else of the routine: the counts it reports are those of the range before and
  after, and no bit outside the range changes.
\<close>

locale bit_range_writer =
  fixes wr :: "bytes \<Rightarrow> nat \<Rightarrow> nat \<Rightarrow> ('e, bytes \<times> nat) res"
    and val :: "nat \<Rightarrow> bool"
    and fits :: "nat \<Rightarrow> bool"
  assumes writes: "off + len \<le> length dst * 8 \<Longrightarrow> fits len \<Longrightarrow>
    \<exists>dst'. wr dst off len = Ok (dst', ones dst off (off + len)) \<and> length dst' = length dst \<and>
      (\<forall>j. get_bit dst' j = (if off \<le> j \<and> j < off + len then val (j - off) else get_bit dst j))"
begin

lemma write_Ok:
  assumes "off + len \<le> length dst * 8" "fits len"
  obtains dst' where "wr dst off len = Ok (dst', ones dst off (off + len))"
    "length dst' = length dst"
    "\<And>j. get_bit dst' j = (if off \<le> j \<and> j < off + len then val (j - off) else get_bit dst j)"
  using writes[OF assms] by blast

lemma write_result:
  assumes "wr dst off len = Ok (dst', old)" "off + len \<le> length dst * 8" "fits len"
  shows "length dst' = length dst" "old = ones dst off (off + len)"
    "get_bit dst' j = (if off \<le> j \<and> j < off + len then val (j - off) else get_bit dst j)"
  using writes[OF assms(2,3)] assms(1) by auto

lemma total_ones:
  assumes "wr dst off len = Ok (dst', old)" "off + len \<le> n" "n \<le> length dst * 8" "fits len"
  shows "ones dst' 0 n + old = ones dst 0 n + ones dst' off (off + len)"
proof -
  have le: "off + len \<le> length dst * 8" using assms by simp
  note w = write_result[OF assms(1) le assms(4)]
  have "ones dst' 0 off = ones dst 0 off" "ones dst' (off + len) n = ones dst (off + len) n"
    by (rule ones_cong, simp add: w(3))+
  moreover have "ones bs 0 n = ones bs 0 off + (ones bs off (off + len) + ones bs (off + len) n)"
    for bs using assms(2) ones_split[of 0 off n bs] ones_split[of off "off + len" n bs] by simp
  ultimately show ?thesis using w(2) by simp
qed

text \<open>The incremental update of a NULL count: subtract the range's old NULLs, add its new ones.\<close>

lemma null_count_update:
  assumes "wr dst off len = Ok (dst', old)" "off + len \<le> n" "n \<le> length dst * 8" "fits len"
  shows "n - ones dst' 0 n = (n - ones dst 0 n) + old - ones dst' off (off + len)"
  using total_ones[OF assms] ones_le[of dst 0 n] ones_le[of dst' 0 n] by linarith

lemma write_idempotent:
  assumes "wr dst off len = Ok (dst', old)" "off + len \<le> length dst * 8" "fits len"
  shows "wr dst' off len = Ok (dst', ones dst' off (off + len))"
proof -
  note w = write_result[OF assms]
  have le: "off + len \<le> length dst' * 8" using assms(2) w(1) by simp
  obtain dst'' where d: "wr dst' off len = Ok (dst'', ones dst' off (off + len))"
    "length dst'' = length dst'"
    "\<And>j. get_bit dst'' j = (if off \<le> j \<and> j < off + len then val (j - off) else get_bit dst' j)"
    using write_Ok[OF le assms(3)] by blast
  have "dst'' = dst'" by (rule get_bit_ext) (use d w(3) in auto)
  with d(1) show ?thesis by simp
qed

lemma writes_commute:
  assumes "wr dst a l = Ok (d1, u)" "wr d1 b m = Ok (d2, v)"
    "wr dst b m = Ok (e1, v')" "wr e1 a l = Ok (e2, u')"
    "a + l \<le> length dst * 8" "b + m \<le> length dst * 8" "fits l" "fits m"
    "a + l \<le> b \<or> b + m \<le> a"
  shows "d2 = e2 \<and> u = u' \<and> v = v'"
proof -
  note w1 = write_result[OF assms(1,5,7)] and w3 = write_result[OF assms(3,6,8)]
  have "b + m \<le> length d1 * 8" "a + l \<le> length e1 * 8" using assms(5,6) w1(1) w3(1) by simp_all
  note w2 = write_result[OF assms(2) this(1) assms(8)] and w4 = write_result[OF assms(4) this(2) assms(7)]
  have "d2 = e2"
    by (rule get_bit_ext)
      (use w1(1) w2(1) w3(1) w4(1) assms(9) in \<open>auto simp: w1(3) w2(3) w3(3) w4(3)\<close>)
  moreover have "u = u'" "v = v'"
    unfolding w1(2) w2(2) w3(2) w4(2)
    by (rule ones_cong; use assms(9) in \<open>auto simp: w1(3) w3(3)\<close>)+
  ultimately show ?thesis by simp
qed

end

interpretation fill: bit_range_writer "\<lambda>dst off len. bitmap_fill_bits dst off len v" "\<lambda>_. v" "\<lambda>_. True"
  for v
  by unfold_locales (rule bitmap_fill_bits_eq)

text \<open>\<open>bitmap_copy_bits\<close> from a fixed source, its second count left out.\<close>

definition copy_old :: "bytes \<Rightarrow> nat \<Rightarrow> bytes \<Rightarrow> nat \<Rightarrow> nat \<Rightarrow> ('e, bytes \<times> nat) res" where
  "copy_old src soff dst off len =
     rbind (bitmap_copy_bits dst off src soff len) (\<lambda>(d, old, _). Ok (d, old))"

interpretation copy: bit_range_writer
    "copy_old src soff :: bytes \<Rightarrow> nat \<Rightarrow> nat \<Rightarrow> ('e, bytes \<times> nat) res" "\<lambda>i. get_bit src (soff + i)"
    "\<lambda>len. soff + len \<le> length src * 8"
  for src soff
proof
  fix off len :: nat and dst :: bytes
  assume "off + len \<le> length dst * 8" "soff + len \<le> length src * 8"
  from bitmap_copy_bits_eq[OF this, where 'e = 'e]
  show "\<exists>dst'. copy_old src soff dst off len =
        (Ok (dst', ones dst off (off + len)) :: ('e, _) res) \<and>
      length dst' = length dst \<and> (\<forall>j. get_bit dst' j =
        (if off \<le> j \<and> j < off + len then get_bit src (soff + (j - off)) else get_bit dst j))"
    by (auto simp: copy_old_def)
qed

subsection \<open>Views and bitmaps\<close>

definition view_ok :: "bitmap_view \<Rightarrow> bool" where
  "view_ok v \<longleftrightarrow> bv_bit_offset v + bv_len v \<le> 8 * length (bv_data v)"

definition bitmap_ok :: "bitmap \<Rightarrow> bool" where
  "bitmap_ok b \<longleftrightarrow> bm_bit_offset b + bm_len b \<le> 8 * length (bm_data b)"

definition view_bit :: "bitmap_view \<Rightarrow> nat \<Rightarrow> bool" where
  "view_bit v i = get_bit (bv_data v) (bv_bit_offset v + i)"

definition bm_bit :: "bitmap \<Rightarrow> nat \<Rightarrow> bool" where
  "bm_bit b i = get_bit (bm_data b) (bm_bit_offset b + i)"

lemma needed_bytes: "(n + 7) div 8 \<le> m \<longleftrightarrow> n \<le> 8 * m" for n m :: nat
  by linarith

lemma bitmap_view_new_Ok:
  "bitmap_view_new d o' n = Ok v \<longleftrightarrow>
     o' + n \<le> 8 * length d \<and> v = \<lparr>bv_data = d, bv_bit_offset = o', bv_len = n\<rparr>"
  using needed_bytes[of "o' + n" "length d"] by (auto simp: bitmap_view_new_def)

lemma bitmap_view_new_ok: "bitmap_view_new d o' n = Ok v \<Longrightarrow> view_ok v"
  by (auto simp: bitmap_view_new_Ok view_ok_def)

lemma bitmap_view_new_not_Panic [simp]: "bitmap_view_new d o' n \<noteq> Panic"
  by (simp add: bitmap_view_new_def Let_def)

lemma view_is_valid_eq: "view_is_valid v i = (if i < bv_len v then Ok (view_bit v i) else Panic)"
  by (simp add: view_is_valid_def view_bit_def get_bit_def Let_def bit_iff_odd_drop_bit
      and_one_eq odd_iff_mod_2_eq_one)

lemma view_count_ones_eq:
  "view_ok v \<Longrightarrow> view_count_ones v = Ok (length (filter (view_bit v) [0..<bv_len v]))"
  using length_filter_upt_shift[of "get_bit (bv_data v)" 0 "bv_bit_offset v" "bv_len v"]
  by (simp add: view_count_ones_def view_ok_def bitmap_count_ones_eq ones_def view_bit_def[abs_def]
      add.commute mult.commute)

lemma view_null_count_eq:
  assumes "view_ok v"
  shows "view_null_count v = Ok (length (filter (\<lambda>i. \<not> view_bit v i) [0..<bv_len v]))"
proof -
  have "length (filter (view_bit v) [0..<bv_len v]) +
        length (filter (\<lambda>i. \<not> view_bit v i) [0..<bv_len v]) = bv_len v"
    using sum_length_filter_compl[of "view_bit v" "[0..<bv_len v]"] by simp
  then show ?thesis by (simp add: view_null_count_def view_count_ones_eq[OF assms])
qed

lemma view_slice_Ok:
  assumes "view_ok v"
  shows "view_slice v o' n =
    (if o' + n \<le> bv_len v then Ok (v\<lparr>bv_bit_offset := bv_bit_offset v + o', bv_len := n\<rparr>)
     else Err (InvalidLayout ''bitmap slice out of range''))"
  using assms bitmap_view_new_Ok[of "bv_data v" "bv_bit_offset v + o'" n]
  by (cases v) (auto simp: view_slice_def view_ok_def)

lemma view_slice_bit: "view_slice v o' n = Ok w \<Longrightarrow> view_bit w i = view_bit v (o' + i)"
  by (auto simp: view_slice_def bitmap_view_new_Ok view_bit_def add.assoc split: if_splits)

lemma view_slice_ok: "view_slice v o' n = Ok w \<Longrightarrow> view_ok w \<and> bv_len w = n"
  by (auto simp: view_slice_def bitmap_view_new_Ok view_ok_def split: if_splits)

lemma get_bit_zeros [simp]: "j < 8 * n \<Longrightarrow> \<not> get_bit (replicate n 0) j"
  by (simp add: get_bit_def div_less_iff_less_mult mult.commute)

lemma packed_bits:
  assumes "soff + len \<le> length src * 8"
  shows "\<exists>out. rbind (bitmap_copy_bits (replicate ((len + 7) div 8) 0) 0 src soff len)
      (\<lambda>(out, _). Ok out) = (Ok out :: ('e, _) res) \<and> length out = (len + 7) div 8 \<and>
    (\<forall>j. j < 8 * length out \<longrightarrow> get_bit out j = (j < len \<and> get_bit src (soff + j)))"
proof -
  have "0 + len \<le> length (replicate ((len + 7) div 8) 0 :: bytes) * 8"
    using needed_bytes[of len "(len + 7) div 8"] by simp
  from bitmap_copy_bits_eq[OF this assms, where 'e = 'e] show ?thesis by fastforce
qed

text \<open>
  \<open>to_packed_bytes\<close> and \<open>extract_bits\<close>: the rows of the range packed from bit 0, the padding
  bits of the last byte cleared.
\<close>

lemma view_to_packed_bytes_eq:
  assumes "view_ok v"
  shows "\<exists>out. view_to_packed_bytes v = Ok out \<and> length out = validity_size (bv_len v) \<and>
    (\<forall>j. j < 8 * length out \<longrightarrow> get_bit out j = (j < bv_len v \<and> view_bit v j))"
  using packed_bits[of "bv_bit_offset v" "bv_len v" "bv_data v"] assms
  by (simp add: view_to_packed_bytes_def view_ok_def view_bit_def validity_size_def mult.commute)

lemma bitmap_extract_bits_eq:
  assumes "bitmap_ok b" "off + len \<le> bm_len b"
  shows "\<exists>out. bitmap_extract_bits b off len = Ok out \<and> length out = validity_size len \<and>
    (\<forall>j. j < 8 * length out \<longrightarrow> get_bit out j = (j < len \<and> bm_bit b (off + j)))"
  using packed_bits[of "bm_bit_offset b + off" len "bm_data b"] assms
  by (simp add: bitmap_extract_bits_def bitmap_ok_def bm_bit_def validity_size_def add.assoc)

lemma bitmap_as_view_eq:
  "bitmap_ok b \<Longrightarrow> bitmap_as_view b =
     Ok \<lparr>bv_data = bm_data b, bv_bit_offset = bm_bit_offset b, bv_len = bm_len b\<rparr>"
  using bitmap_view_new_Ok[of "bm_data b" "bm_bit_offset b" "bm_len b"]
  by (simp add: bitmap_as_view_def bitmap_ok_def expect_eq_Ok)

lemma bitmap_is_valid_eq:
  "bitmap_ok b \<Longrightarrow> bitmap_is_valid b i = (if i < bm_len b then Ok (bm_bit b i) else Panic)"
  by (simp add: bitmap_is_valid_def bitmap_as_view_eq view_is_valid_eq view_bit_def bm_bit_def)

lemma bitmap_zeros_ok: "bitmap_ok (bitmap_zeros n)"
  using needed_bytes[of n "(n + 7) div 8"] by (simp add: bitmap_ok_def bitmap_zeros_def)

lemma bitmap_zeros_bits: "i < n \<Longrightarrow> \<not> bm_bit (bitmap_zeros n) i"
  using needed_bytes[of n "(n + 7) div 8"] by (simp add: bm_bit_def bitmap_zeros_def)

lemma bitmap_ones_ok: "bitmap_ok (bitmap_ones n)"
  using needed_bytes[of n "(n + 7) div 8"]
  by (simp add: bitmap_ok_def bitmap_ones_def Let_def)

lemma bit_low_mask [byte_simps]: "n < 8 \<Longrightarrow> bit (push_bit n 1 - 1 :: u8) i \<longleftrightarrow> i < n"
proof -
  assume "n < 8"
  have "push_bit n 1 - 1 = (mask n :: u8)"
    by (simp add: mask_eq_exp_minus_1 push_bit_eq_mult)
  then show ?thesis using \<open>n < 8\<close> by (auto simp: bit_simps)
qed

lemma bitmap_ones_bits: "j < 8 * length (bm_data (bitmap_ones n)) \<Longrightarrow>
    get_bit (bm_data (bitmap_ones n)) j \<longleftrightarrow> j < n"
proof -
  assume "j < 8 * length (bm_data (bitmap_ones n))"
  then have j: "j < 8 * ((n + 7) div 8)" by (simp add: bitmap_ones_def Let_def split: if_splits)
  then have jd: "j div 8 < (n + 7) div 8" by (simp add: div_less_iff_less_mult mult.commute)
  obtain q r where n: "n = 8 * q + r" "r < 8"
    by (metis mult_div_mod_eq mod_less_divisor zero_less_numeral)
  have jm: "j = 8 * (j div 8) + j mod 8" "j mod 8 < 8" by simp_all
  show ?thesis
  proof (cases "r = 0")
    case True
    then show ?thesis using n j jd by (simp add: bitmap_ones_def get_bit_def bit_simps)
  next
    case False
    then have sz: "(n + 7) div 8 = q + 1" "n mod 8 = r" using n by auto
    show ?thesis
    proof (cases "j div 8 = q")
      case True
      then show ?thesis using n False jm sz
        by (simp add: bitmap_ones_def get_bit_def Let_def bit_low_mask
            del: replicate_Suc push_bit_of_1) linarith
    next
      case ne: False
      then have "j div 8 < q" using jd sz by simp
      then show ?thesis using n False jm sz ne
        by (simp add: bitmap_ones_def get_bit_def Let_def bit_simps del: replicate_Suc)
    qed
  qed
qed

lemma bitmap_set_eq:
  assumes "bitmap_ok b" "i < bm_len b"
  shows "\<exists>b'. bitmap_set b i v = Ok b' \<and> bitmap_ok b' \<and> bm_len b' = bm_len b \<and>
    (\<forall>j. bm_bit b' j = (if j = i then v else bm_bit b j))"
proof -
  let ?p = "bm_bit_offset b + i"
  have p: "?p div 8 < length (bm_data b)"
    using assms by (simp add: bitmap_ok_def div_less_iff_less_mult)
  define d' where "d' = (if v then bm_data b ! (?p div 8) OR push_bit (?p mod 8) 1
     else bm_data b ! (?p div 8) AND NOT (push_bit (?p mod 8) 1))"
  have d: "bit d' k = (if k = ?p mod 8 then v else bit (bm_data b ! (?p div 8)) k)" if "k < 8" for k
    using that by (auto simp: d'_def bit_push_bit_iff bit_or_iff bit_and_iff bit_not_iff
        bit_1_iff simp del: push_bit_of_1)
  have pos: "(bm_bit_offset b + j) div 8 = ?p div 8 \<and> (bm_bit_offset b + j) mod 8 = ?p mod 8
      \<longleftrightarrow> j = i" for j
    by (metis add_left_cancel mult_div_mod_eq)
  have "bm_bit (b\<lparr>bm_data := (bm_data b)[?p div 8 := d']\<rparr>) j = (if j = i then v else bm_bit b j)" for j
    using d[of "(bm_bit_offset b + j) mod 8"] pos[of j] p
    by (auto simp: bm_bit_def get_bit_update[OF p]) (auto simp: get_bit_def)
  moreover have "bitmap_set b i v = Ok (b\<lparr>bm_data := (bm_data b)[?p div 8 := d']\<rparr>)"
    using assms by (simp add: bitmap_set_def Let_def d'_def del: push_bit_of_1)
  ultimately show ?thesis using assms(1) by (auto simp: bitmap_ok_def)
qed

lemma bitmap_set_range_eq:
  assumes "bitmap_ok b" "off + len \<le> bm_len b"
  shows "\<exists>b'. bitmap_set_range b off len v =
      (Ok (b', length (filter (bm_bit b) [off..<off + len])) :: ('e, _) res) \<and> bitmap_ok b' \<and> bm_len b' = bm_len b \<and>
    (\<forall>j. bm_bit b' j = (if off \<le> j \<and> j < off + len then v else bm_bit b j))"
proof -
  have "bm_bit_offset b + off + len \<le> length (bm_data b) * 8"
    using assms by (simp add: bitmap_ok_def)
  from bitmap_fill_bits_eq[OF this, of v, where 'e = 'e] obtain d where
    d: "bitmap_fill_bits (bm_data b) (bm_bit_offset b + off) len v =
      (Ok (d, ones (bm_data b) (bm_bit_offset b + off) (bm_bit_offset b + off + len)) :: ('e, _) res)"
    "length d = length (bm_data b)"
    "\<And>j. get_bit d j = (if bm_bit_offset b + off \<le> j \<and> j < bm_bit_offset b + off + len
        then v else get_bit (bm_data b) j)" by blast
  have "ones (bm_data b) (bm_bit_offset b + off) (bm_bit_offset b + off + len) =
      length (filter (bm_bit b) [off..<off + len])"
    using length_filter_upt_shift[of "get_bit (bm_data b)" off "bm_bit_offset b" "off + len"]
    by (simp add: ones_def bm_bit_def[abs_def] ac_simps)
  with d assms show ?thesis
    by (intro exI[of _ "b\<lparr>bm_data := d\<rparr>"])
       (simp add: bitmap_set_range_def bitmap_ok_def bm_bit_def)
qed

subsection \<open>Properties\<close>

text \<open>Filling a bit range (head byte, body bytes, tail byte) never panics inside the buffer,
  sets exactly the bits of the range to the given value, leaves every other bit and the length
  alone, and returns the number of ones the range held before.\<close>

theorem fill_bits_correct:
  assumes "off + len \<le> length dst * 8"
  shows "\<exists>dst'. bitmap_fill_bits dst off len valid =
       (Ok (dst', ones dst off (off + len)) :: ('e, _) res) \<and>
     length dst' = length dst \<and>
     (\<forall>j. get_bit dst' j = (if off \<le> j \<and> j < off + len then valid else get_bit dst j))"
  using bitmap_fill_bits_eq[OF assms] .

theorem fill_bits_correct_witness:
  "\<exists>dst'. bitmap_fill_bits [0x0F, 0xF0, 0xAA] 3 17 True = (Ok (dst', 7) :: (unit, _) res) \<and> length dst' = 3 \<and>
     get_bit dst' 19 \<and> \<not> get_bit dst' 20"
proof -
  have "(3 :: nat) + 17 \<le> length [0x0F, 0xF0, 0xAA :: u8] * 8" by simp
  from fill_bits_correct[OF this, of True, where 'e = unit] obtain d where
    d: "bitmap_fill_bits [0x0F, 0xF0, 0xAA] 3 17 True = (Ok (d, ones [0x0F, 0xF0, 0xAA] 3 (3 + 17)) :: (unit, _) res)"
      "length d = 3" "\<And>j. get_bit d j = (if 3 \<le> j \<and> j < 3 + 17 then True else get_bit [0x0F, 0xF0, 0xAA] j)"
    by auto
  moreover have "ones [0x0F, 0xF0, 0xAA] 3 (3 + 17) = 7" by code_simp
  moreover have "\<not> get_bit [0x0F, 0xF0, 0xAA] 20" by code_simp
  ultimately show ?thesis by auto
qed

text \<open>C2. Copying a bit range between two bitmaps whose bit offsets differ in phase never
  panics inside both buffers, moves bit for bit, leaves the bits outside the range alone, and
  returns the ones of the target range before and after.\<close>

theorem copy_bits_correct:
  assumes "off + len \<le> length dst * 8" "soff + len \<le> length src * 8"
  shows "\<exists>dst'. bitmap_copy_bits dst off src soff len =
       (Ok (dst', ones dst off (off + len), ones dst' off (off + len)) :: ('e, _) res) \<and>
     length dst' = length dst \<and>
     (\<forall>j. get_bit dst' j =
        (if off \<le> j \<and> j < off + len then get_bit src (soff + (j - off)) else get_bit dst j))"
  using bitmap_copy_bits_eq[OF assms] .

theorem copy_bits_correct_witness:
  "\<exists>dst'. bitmap_copy_bits [0, 0, 0xFF] 2 [0xFF, 0x0F, 0x55] 5 19 =
      (Ok (dst', ones [0, 0, 0xFF] 2 21, ones dst' 2 21) :: (unit, _) res) \<and> get_bit dst' 2 \<and> \<not> get_bit dst' 9"
proof -
  have "(2 :: nat) + 19 \<le> length [0, 0, 0xFF :: u8] * 8"
    "(5 :: nat) + 19 \<le> length [0xFF, 0x0F, 0x55 :: u8] * 8" by simp_all
  from copy_bits_correct[OF this, where 'e = unit] obtain d where
    d: "bitmap_copy_bits [0, 0, 0xFF] 2 [0xFF, 0x0F, 0x55] 5 19 =
      (Ok (d, ones [0, 0, 0xFF] 2 (2 + 19), ones d 2 (2 + 19)) :: (unit, _) res)"
      "\<And>j. get_bit d j = (if 2 \<le> j \<and> j < 2 + 19 then get_bit [0xFF, 0x0F, 0x55] (5 + (j - 2))
         else get_bit [0, 0, 0xFF] j)"
    by (elim exE conjE) (auto intro: that)
  moreover have "get_bit [0xFF, 0x0F, 0x55] 5" "\<not> get_bit [0xFF, 0x0F, 0x55] 12" by code_simp+
  ultimately show ?thesis by auto
qed

text \<open>The NULL count a writer keeps by subtracting the range's NULLs before a
  \<open>set_range\<close> and adding those after it is the NULL count of the whole bitmap: after
  \<open>set_range\<close> the bitmap's count of valid rows is the old one, less the count the call
  returned, plus the whole range when it was set valid.\<close>

theorem set_range_count:
  assumes "bitmap_ok b" "off + len \<le> bm_len b" "bitmap_set_range b off len v = (Ok (b', old) :: ('e, _) res)"
    "bm_count_ones b = (Ok n :: ('e, _) res)"
  shows "bm_count_ones b' = (Ok (n - old + (if v then len else 0)) :: ('e, _) res) \<and> old \<le> n"
proof -
  let ?o = "bm_bit_offset b"
  from bitmap_set_range_eq[OF assms(1,2), of v, where 'e = 'e] assms(3) have
    b': "bitmap_ok b'" "bm_len b' = bm_len b" and old: "old = length (filter (bm_bit b) [off..<off + len])"
    by auto
  from assms(2,3) obtain d where
    d: "bitmap_fill_bits (bm_data b) (?o + off) len v = (Ok (d, old) :: ('e, _) res)" "b' = b\<lparr>bm_data := d\<rparr>"
    by (auto simp: bitmap_set_range_def res_simps)
  have le: "?o + off + len \<le> ?o + bm_len b" "?o + bm_len b \<le> length (bm_data b) * 8"
    using assms(1,2) by (simp_all add: bitmap_ok_def)
  have r: "(?o + off) + len \<le> length (bm_data b) * 8" using le by simp
  note w = fill.write_result[OF d(1) r TrueI]
  have c: "bm_count_ones x =
      (Ok (ones (bm_data x) (bm_bit_offset x) (bm_bit_offset x + bm_len x)) :: ('e, _) res)"
    if "bitmap_ok x" for x
    using that by (simp add: bm_count_ones_def bitmap_ok_def bitmap_count_ones_eq mult.commute)
  have split: "ones xs ?o (?o + bm_len b) = ones xs ?o (?o + off) +
      (ones xs (?o + off) (?o + off + len) + ones xs (?o + off + len) (?o + bm_len b))" for xs
    using ones_split[of ?o "?o + off" "?o + bm_len b" xs]
      ones_split[of "?o + off" "?o + off + len" "?o + bm_len b" xs] le(1) by simp
  have "ones d ?o (?o + off) = ones (bm_data b) ?o (?o + off)"
    "ones d (?o + off + len) (?o + bm_len b) = ones (bm_data b) (?o + off + len) (?o + bm_len b)"
    by (rule ones_cong, simp add: w(3))+
  moreover have "ones d (?o + off) (?o + off + len) = (if v then len else 0)"
    using ones_all[of "?o + off" "?o + off + len" d] ones_none[of "?o + off" "?o + off + len" d]
    by (auto simp: w(3))
  moreover have "n = ones (bm_data b) ?o (?o + bm_len b)" using c[OF assms(1)] assms(4) by simp
  ultimately show ?thesis
    using c[OF b'(1)] d(2) w(2) split[of d] split[of "bm_data b"] by simp
qed

theorem set_range_count_witness:
  "\<exists>b'. bitmap_set_range \<lparr>bm_data = [0xF0, 0xFF], bm_bit_offset = 0, bm_len = 13\<rparr> 2 9 False =
      (Ok (b', 7) :: (unit, _) res) \<and> bm_count_ones b' = (Ok 2 :: (unit, _) res)"
proof -
  let ?b = "\<lparr>bm_data = [0xF0, 0xFF], bm_bit_offset = 0, bm_len = 13\<rparr>"
  have ok: "bitmap_ok ?b" "(2 :: nat) + 9 \<le> bm_len ?b" by (simp_all add: bitmap_ok_def)
  moreover have "bitmap_set_range ?b 2 9 False =
      (Ok (\<lparr>bm_data = [0, 0xF8], bm_bit_offset = 0, bm_len = 13\<rparr>, 7) :: (unit, _) res)" by code_simp
  moreover have "bm_count_ones ?b = (Ok 9 :: (unit, _) res)" by code_simp
  ultimately have "bm_count_ones \<lparr>bm_data = [0, 0xF8], bm_bit_offset = 0, bm_len = 13\<rparr> = (Ok (9 - 7 + 0) :: (unit, _) res)"
    using set_range_count[where 'e = unit, of ?b 2 9 False] by simp
  then show ?thesis
    by (intro exI[of _ "\<lparr>bm_data = [0, 0xF8], bm_bit_offset = 0, bm_len = 13\<rparr>"]) code_simp
qed

end
