(* ===== verification/Columns.thy ===== *)
theory Columns
  imports Bitmap
begin

text \<open>
  Buffers, columns and multi-column data of the crate \<open>splayed-format\<close> (\<open>buffer.rs\<close>,
  \<open>column.rs\<close>, \<open>dataview.rs\<close>). A \<open>ColumnView\<close> is a list of segments; its meaning is the
  list of cells it shows, \<open>view_cells\<close>, and every operation is described by what it does to
  that list. The address an allocation starts at is an argument of the operations that align it.
\<close>

subsection \<open>\<open>buffer.rs\<close>\<close>

record buffer =
  bf_raw :: bytes
  bf_offset :: nat
  bf_len :: nat
  bf_alignment :: u64

definition buffer_from_vec :: "bytes \<Rightarrow> buffer" where
  "buffer_from_vec v = \<lparr>bf_raw = v, bf_offset = 0, bf_len = length v, bf_alignment = 1\<rparr>"

definition is_power_of_two :: "u64 \<Rightarrow> bool" where
  "is_power_of_two a \<longleftrightarrow> popcount a = 1"

definition buffer_zeroed_aligned :: "u64 \<Rightarrow> nat \<Rightarrow> u64 \<Rightarrow> ('e, buffer) res" where
  "buffer_zeroed_aligned base len alignment =
     rbind (assert_that (is_power_of_two alignment)) (\<lambda>_.
       let raw = replicate (len + unat alignment - 1) 0;
           offset = unat (((base + alignment - 1) AND NOT (alignment - 1)) - base)
       in Ok \<lparr>bf_raw = raw, bf_offset = offset, bf_len = len, bf_alignment = alignment\<rparr>)"

definition buffer_as_slice :: "buffer \<Rightarrow> ('e, bytes) res" where
  "buffer_as_slice b = slice_r (bf_offset b) (bf_offset b + bf_len b) (bf_raw b)"

text \<open>\<open>as_mut_slice().copy_from_slice(bytes)\<close>: the lengths must agree.\<close>

definition buffer_copy_from :: "buffer \<Rightarrow> bytes \<Rightarrow> ('e, buffer) res" where
  "buffer_copy_from b bs =
     rbind (buffer_as_slice b) (\<lambda>s. rbind (assert_that (length s = length bs)) (\<lambda>_.
       Ok (b\<lparr>bf_raw := splice (bf_offset b) bs (bf_raw b)\<rparr>)))"

definition buffer_zeroed_aligned_bytes :: "u64 \<Rightarrow> bytes \<Rightarrow> u64 \<Rightarrow> ('e, buffer) res" where
  "buffer_zeroed_aligned_bytes base bs alignment =
     rbind (buffer_zeroed_aligned base (length bs) alignment) (\<lambda>b. buffer_copy_from b bs)"

definition buffer_clone :: "u64 \<Rightarrow> buffer \<Rightarrow> ('e, buffer) res" where
  "buffer_clone base b =
     rbind (buffer_zeroed_aligned base (bf_len b) (bf_alignment b)) (\<lambda>c.
     rbind (buffer_as_slice b) (\<lambda>s. buffer_copy_from c s))"

text \<open>
  \<open>BufferView::cast\<close> to a type of the given size and alignment, from a slice that starts at the
  address \<open>addr\<close>: the result is the list of the elements' images.
\<close>

fun chunks_exact :: "nat \<Rightarrow> nat \<Rightarrow> bytes \<Rightarrow> bytes list" where
  "chunks_exact n 0 bs = []"
| "chunks_exact n (Suc k) bs = take n bs # chunks_exact n k (drop n bs)"

definition buffer_view_slice :: "bytes \<Rightarrow> nat \<Rightarrow> nat \<Rightarrow> ('e, bytes) res" where
  "buffer_view_slice bs offset len = slice_r offset (offset + len) bs"

definition buffer_view_cast ::
  "nat \<Rightarrow> nat \<Rightarrow> nat \<Rightarrow> bytes \<Rightarrow> (format_error, bytes list) res" where
  "buffer_view_cast sz align addr bs =
     (if length bs mod sz \<noteq> 0 then Err (SizeMismatch sz (length bs mod sz))
      else if addr mod align \<noteq> 0 then Err (Alignment align (addr mod align))
      else Ok (chunks_exact sz (length bs div sz) bs))"

subsection \<open>\<open>column.rs\<close>: segments and views\<close>

datatype column_values =
    Fixed bytes
  | Dict (d_keys: bytes) (d_offsets: bytes) (d_strings: bytes)
  | RepeatDict (r_offsets: bytes) (r_strings: bytes) (r_index: u32)

record column_segment =
  seg_values :: column_values
  seg_validity :: "bitmap_view option"
  seg_rows :: nat

definition segment_new ::
  "data_type \<Rightarrow> bytes \<Rightarrow> bitmap_view option \<Rightarrow> nat \<Rightarrow> (format_error, column_segment) res" where
  "segment_new dt values validity rows =
     (let expected = rows * size_of dt
      in if length values \<noteq> expected then Err (SizeMismatch expected (length values))
         else Ok \<lparr>seg_values = Fixed values, seg_validity = validity, seg_rows = rows\<rparr>)"

definition segment_new_repeat_dict ::
  "bytes \<Rightarrow> bytes \<Rightarrow> u32 \<Rightarrow> bitmap_view option \<Rightarrow> nat \<Rightarrow> (format_error, column_segment) res" where
  "segment_new_repeat_dict dict_offsets dict_strings dict_index validity rows =
     (if dict_offsets = [] \<or> length dict_offsets mod 8 \<noteq> 0
      then Err (InvalidLayout ''dict offsets must be a non-empty multiple of 8 bytes'')
      else if length dict_offsets div 8 - 1 \<le> unat dict_index
      then Err (InvalidLayout ''dict_index out of range'')
      else Ok \<lparr>seg_values = RepeatDict dict_offsets dict_strings dict_index,
               seg_validity = validity, seg_rows = rows\<rparr>)"

definition segment_new_dict ::
  "bytes \<Rightarrow> bytes \<Rightarrow> bytes \<Rightarrow> bitmap_view option \<Rightarrow> nat \<Rightarrow> (format_error, column_segment) res" where
  "segment_new_dict keys dict_offsets dict_strings validity rows =
     (if length keys \<noteq> rows * 4 then Err (SizeMismatch (rows * 4) (length keys))
      else if dict_offsets = [] \<or> length dict_offsets mod 8 \<noteq> 0
      then Err (InvalidLayout ''dict offsets must be a non-empty multiple of 8 bytes'')
      else Ok \<lparr>seg_values = Dict keys dict_offsets dict_strings,
               seg_validity = validity, seg_rows = rows\<rparr>)"

fun raw_values_bytes :: "column_values \<Rightarrow> bytes option" where
  "raw_values_bytes (Fixed v) = Some v"
| "raw_values_bytes (Dict keys _ _) = Some keys"
| "raw_values_bytes (RepeatDict _ _ _) = None"

fun fixed_bytes :: "column_values \<Rightarrow> bytes option" where
  "fixed_bytes (Fixed v) = Some v"
| "fixed_bytes _ = None"

definition seg_null_count :: "column_segment \<Rightarrow> ('e, nat) res" where
  "seg_null_count s = (case seg_validity s of None \<Rightarrow> Ok 0 | Some v \<Rightarrow> view_null_count v)"

record column_view =
  cv_data_type :: data_type
  cv_segments :: "column_segment list"
  cv_length :: nat

definition column_view_new ::
  "data_type \<Rightarrow> column_segment list \<Rightarrow> (format_error, column_view) res" where
  "column_view_new dt segs =
     (if segs = [] then Err (InvalidLayout ''ColumnView requires at least one segment'')
      else Ok \<lparr>cv_data_type = dt, cv_segments = segs,
               cv_length = sum_list (map seg_rows segs)\<rparr>)"

definition column_view_from_one ::
  "data_type \<Rightarrow> bytes \<Rightarrow> bitmap_view option \<Rightarrow> nat \<Rightarrow> (format_error, column_view) res" where
  "column_view_from_one dt values validity rows =
     rbind (segment_new dt values validity rows) (\<lambda>s. column_view_new dt [s])"

text \<open>The \<open>expect\<close> of the source cannot fail: the segment has no rows and no bytes.\<close>

definition column_view_empty :: "data_type \<Rightarrow> column_view" where
  "column_view_empty dt =
     \<lparr>cv_data_type = dt,
      cv_segments = [\<lparr>seg_values = Fixed [], seg_validity = None, seg_rows = 0\<rparr>],
      cv_length = 0\<rparr>"

definition column_view_null_count :: "column_view \<Rightarrow> ('e, nat) res" where
  "column_view_null_count v =
     rbind (mapM seg_null_count (cv_segments v)) (\<lambda>ns. Ok (sum_list ns))"

subsection \<open>\<open>string_at\<close>\<close>

text \<open>\<open>std::str::from_utf8\<close>: the well-formed byte sequences of the Unicode standard.\<close>

definition between :: "u8 \<Rightarrow> u8 \<Rightarrow> u8 \<Rightarrow> bool" where
  "between lo hi b \<longleftrightarrow> lo \<le> b \<and> b \<le> hi"

fun utf8_valid :: "bytes \<Rightarrow> bool" where
  "utf8_valid [] = True"
| "utf8_valid (b # bs) =
     (if b < 0x80 then utf8_valid bs
      else case bs of [] \<Rightarrow> False | c # cs \<Rightarrow>
        if between 0xC2 0xDF b then between 0x80 0xBF c \<and> utf8_valid cs
        else case cs of [] \<Rightarrow> False | d # ds \<Rightarrow>
          if between 0xE0 0xEF b
          then (if b = 0xE0 then between 0xA0 0xBF c
                else if b = 0xED then between 0x80 0x9F c else between 0x80 0xBF c) \<and>
               between 0x80 0xBF d \<and> utf8_valid ds
          else case ds of [] \<Rightarrow> False | e # es \<Rightarrow>
            between 0xF0 0xF4 b \<and>
            (if b = 0xF0 then between 0x90 0xBF c
             else if b = 0xF4 then between 0x80 0x8F c else between 0x80 0xBF c) \<and>
            between 0x80 0xBF d \<and> between 0x80 0xBF e \<and> utf8_valid es)"

definition str_from_utf8 :: "bytes \<Rightarrow> bytes option" where
  "str_from_utf8 bs = (if utf8_valid bs then Some bs else None)"

text \<open>
  One row of a segment; a \<open>&str\<close> is its bytes. \<open>Panic\<close> is the slice \<open>sb[lo..hi]\<close> with
  \<open>lo > hi\<close>, or the offsets slice out of range.
\<close>

fun seg_string_at :: "column_values \<Rightarrow> nat \<Rightarrow> ('e, bytes option) res" where
  "seg_string_at (Dict kb ob sb) pos =
     (if length kb < pos * 4 + 4 then Ok None
      else let key = unat (of_le (slice (pos * 4) (pos * 4 + 4) kb) :: u32)
        in if length ob < (key + 2) * 8 then Ok None
        else let lo = unat (of_le (slice (key * 8) (key * 8 + 8) ob) :: u64);
                 hi = unat (of_le (slice ((key + 1) * 8) ((key + 1) * 8 + 8) ob) :: u64)
          in if length sb < hi then Ok None
             else rbind (slice_r lo hi sb) (\<lambda>s. Ok (str_from_utf8 s)))"
| "seg_string_at (RepeatDict ob sb i) pos =
     rbind (slice_r (unat i * 8) (unat i * 8 + 8) ob) (\<lambda>l.
     rbind (slice_r (unat i * 8 + 8) (unat i * 8 + 16) ob) (\<lambda>h.
       let lo = unat (of_le l :: u64); hi = unat (of_le h :: u64)
       in if length sb < hi then Ok None
          else rbind (slice_r lo hi sb) (\<lambda>s. Ok (str_from_utf8 s))))"
| "seg_string_at (Fixed v) pos = Ok None"

fun string_at_segs :: "column_segment list \<Rightarrow> nat \<Rightarrow> ('e, bytes option) res" where
  "string_at_segs [] pos = Ok None"
| "string_at_segs (s # ss) pos =
     (if pos < seg_rows s then seg_string_at (seg_values s) pos
      else string_at_segs ss (pos - seg_rows s))"

definition column_view_string_at :: "column_view \<Rightarrow> nat \<Rightarrow> ('e, bytes option) res" where
  "column_view_string_at v row = string_at_segs (cv_segments v) row"

subsection \<open>\<open>slice_rows\<close>\<close>

text \<open>
  The part \<open>[local_lo, local_lo + n)\<close> of one segment. The validity view is rebuilt from
  \<open>as_raw()\<close>, the whole byte slice, with the segment-local row as its bit offset.
\<close>

definition slice_validity ::
  "bitmap_view option \<Rightarrow> nat \<Rightarrow> nat \<Rightarrow> (format_error, bitmap_view option) res" where
  "slice_validity validity local_lo n =
     (case validity of None \<Rightarrow> Ok None
      | Some b \<Rightarrow> rbind (bitmap_view_new (bv_data b) local_lo n) (\<lambda>w. Ok (Some w)))"

definition slice_segment ::
  "data_type \<Rightarrow> column_segment \<Rightarrow> nat \<Rightarrow> nat \<Rightarrow> (format_error, column_segment) res" where
  "slice_segment dt seg local_lo n =
     rbind (slice_validity (seg_validity seg) local_lo n) (\<lambda>validity.
       case seg_values seg of
         Fixed v \<Rightarrow>
           rbind (slice_r (local_lo * size_of dt) ((local_lo + n) * size_of dt) v) (\<lambda>bs.
             segment_new dt bs validity n)
       | Dict keys dict_offsets dict_strings \<Rightarrow>
           rbind (slice_r (local_lo * 4) ((local_lo + n) * 4) keys) (\<lambda>kb.
             segment_new_dict kb dict_offsets dict_strings validity n)
       | RepeatDict dict_offsets dict_strings dict_index \<Rightarrow>
           segment_new_repeat_dict dict_offsets dict_strings dict_index validity n)"

fun slice_loop ::
  "data_type \<Rightarrow> nat \<Rightarrow> column_segment list \<Rightarrow> nat \<Rightarrow> nat \<Rightarrow> (format_error, column_segment list) res"
where
  "slice_loop dt stop [] seg_start pos = Ok []"
| "slice_loop dt stop (seg # segs) seg_start pos =
     (if stop \<le> pos then Ok []
      else let seg_end = seg_start + seg_rows seg; lo = max pos seg_start; hi = min stop seg_end
        in if lo < hi
           then rbind (slice_segment dt seg (lo - seg_start) (hi - lo)) (\<lambda>s.
                rbind (slice_loop dt stop segs seg_end hi) (\<lambda>ss. Ok (s # ss)))
           else slice_loop dt stop segs seg_end pos)"

definition slice_rows :: "column_view \<Rightarrow> nat \<Rightarrow> nat \<Rightarrow> (format_error, column_view) res" where
  "slice_rows v offset len =
     (if cv_length v < offset + len then Err (InvalidLayout ''slice out of range'')
      else if len = 0 then Ok (column_view_empty (cv_data_type v))
      else rbind (slice_loop (cv_data_type v) (offset + len) (cv_segments v) 0 offset) (\<lambda>segs.
             column_view_new (cv_data_type v) segs))"

subsection \<open>Owned columns\<close>

record column =
  col_data_type :: data_type
  col_values :: bytes
  col_validity :: "bitmap option"
  col_dict :: "(bytes \<times> bytes) option"

definition column_zeroed :: "data_type \<Rightarrow> nat \<Rightarrow> bool \<Rightarrow> ('e, column) res" where
  "column_zeroed dt rows all_null =
     rbind (assert_that (dt \<noteq> Utf8)) (\<lambda>_.
       Ok \<lparr>col_data_type = dt, col_values = replicate (rows * size_of dt) 0,
           col_validity = (if all_null then Some (bitmap_zeros rows) else None),
           col_dict = None\<rparr>)"

definition column_from_dict ::
  "u32 list \<Rightarrow> u64 list \<Rightarrow> bytes \<Rightarrow> bitmap option \<Rightarrow> ('e, column) res" where
  "column_from_dict keys offsets strings validity =
     rbind (assert_that (2 \<le> length offsets \<and> offsets ! 0 = 0)) (\<lambda>_.
       Ok \<lparr>col_data_type = Utf8, col_values = concat (map (le_bytes 4) keys),
           col_validity = validity,
           col_dict = Some (concat (map (le_bytes 8) offsets), strings)\<rparr>)"

text \<open>A \<open>Utf8\<close> column counts its keys; the division by \<open>size_of\<close> is never by zero.\<close>

definition column_length :: "column \<Rightarrow> nat" where
  "column_length c =
     (if col_data_type c = Utf8 then length (col_values c) div 4
      else length (col_values c) div size_of (col_data_type c))"

definition column_as_view :: "column \<Rightarrow> ('e, column_view) res" where
  "column_as_view c =
     rbind (case col_validity c of None \<Rightarrow> Ok None
            | Some b \<Rightarrow> rbind (bitmap_as_view b) (\<lambda>v. Ok (Some v))) (\<lambda>validity.
     rbind (expect (case col_dict c of
              Some (offs, strs) \<Rightarrow>
                segment_new_dict (col_values c) offs strs validity (column_length c)
            | None \<Rightarrow> segment_new (col_data_type c) (col_values c) validity (column_length c)))
       (\<lambda>seg. expect (column_view_new (col_data_type c) [seg])))"

definition column_null_count :: "column \<Rightarrow> ('e, nat) res" where
  "column_null_count c =
     (case col_validity c of None \<Rightarrow> Ok 0
      | Some b \<Rightarrow> rbind (bitmap_as_view b) view_null_count)"

subsection \<open>\<open>dataview.rs\<close>\<close>

record data =
  da_schema :: schema
  da_columns :: "column list"

definition data_new :: "schema \<Rightarrow> column list \<Rightarrow> (format_error, data) res" where
  "data_new schema columns =
     (if length columns \<noteq> length schema
      then Err (InvalidLayout ''column count does not match schema field count'')
      else rbind (case columns of [] \<Rightarrow> Ok []
                  | first # _ \<Rightarrow> mapM (\<lambda>(f, c). guard (column_length c = column_length first)
                                     (InvalidLayout ''column length'')) (zip schema columns))
             (\<lambda>_. Ok \<lparr>da_schema = schema, da_columns = columns\<rparr>))"

definition data_length :: "data \<Rightarrow> nat" where
  "data_length d = (case da_columns d of [] \<Rightarrow> 0 | c # _ \<Rightarrow> column_length c)"

definition data_column :: "data \<Rightarrow> string \<Rightarrow> column option" where
  "data_column d name = map_option (\<lambda>i. da_columns d ! i) (schema_position (da_schema d) name)"

record data_view =
  dv_schema :: schema
  dv_columns :: "column_view list"
  dv_length :: nat

definition data_view_new :: "schema \<Rightarrow> column_view list \<Rightarrow> (format_error, data_view) res" where
  "data_view_new schema columns =
     (if length columns \<noteq> length schema
      then Err (InvalidLayout ''column count does not match schema field count'')
      else let len = (case columns of [] \<Rightarrow> 0 | c # _ \<Rightarrow> cv_length c)
        in rbind (mapM (\<lambda>(f, c). rbind (guard (cv_length c = len) (InvalidLayout ''column length''))
                     (\<lambda>_. guard (cv_data_type c = fs_type f)
                             (InvalidLayout ''column data type does not match schema'')))
                   (zip schema columns))
             (\<lambda>_. Ok \<lparr>dv_schema = schema, dv_columns = columns, dv_length = len\<rparr>))"

definition data_as_view :: "data \<Rightarrow> ('e, data_view) res" where
  "data_as_view d =
     rbind (mapM column_as_view (da_columns d)) (\<lambda>columns.
       expect (data_view_new (da_schema d) columns))"

definition data_view_column :: "data_view \<Rightarrow> string \<Rightarrow> column_view option" where
  "data_view_column v name =
     map_option (\<lambda>i. dv_columns v ! i) (schema_position (dv_schema v) name)"

subsection \<open>Aligned buffers\<close>

definition buffer_ok :: "buffer \<Rightarrow> bool" where
  "buffer_ok b \<longleftrightarrow> bf_offset b + bf_len b \<le> length (bf_raw b)"

definition buffer_bytes :: "buffer \<Rightarrow> bytes" where
  "buffer_bytes b = slice (bf_offset b) (bf_offset b + bf_len b) (bf_raw b)"

lemma buffer_as_slice_eq: "buffer_ok b \<Longrightarrow> buffer_as_slice b = Ok (buffer_bytes b)"
  by (simp add: buffer_as_slice_def buffer_ok_def buffer_bytes_def)

lemma length_buffer_bytes [simp]: "buffer_ok b \<Longrightarrow> length (buffer_bytes b) = bf_len b"
  by (simp add: buffer_ok_def buffer_bytes_def)

lemma buffer_copy_from_eq:
  assumes "buffer_ok b" "length bs = bf_len b"
  shows "\<exists>b'. buffer_copy_from b bs = (Ok b' :: ('e, _) res) \<and> buffer_ok b' \<and> buffer_bytes b' = bs \<and>
    bf_offset b' = bf_offset b \<and> bf_len b' = bf_len b \<and> bf_alignment b' = bf_alignment b"
  using assms slice_splice_same[of "bf_offset b" bs "bf_raw b"]
  by (simp add: buffer_copy_from_def buffer_as_slice_eq)
     (simp add: buffer_ok_def buffer_bytes_def)

text \<open>\<open>(base + a - 1) & !(a - 1)\<close> is the next multiple of the power of two \<open>a\<close>.\<close>

lemma unat_two_power: "k < 64 \<Longrightarrow> unat (2 ^ k :: u64) = 2 ^ k"
proof -
  assume "k < 64"
  then have "(2 :: nat) ^ k < 2 ^ 64" by (rule power_strict_increasing) simp
  then have "unat (of_nat (2 ^ k) :: u64) = 2 ^ k" by (simp only: unat_of_nat) simp
  then show ?thesis by simp
qed

lemma align_up_word:
  fixes base :: u64
  assumes "k < 64" "unat base + 2 ^ k \<le> 2 ^ 64"
  shows "unat ((base + 2 ^ k - 1) AND NOT (2 ^ k - 1)) =
           unat base + 2 ^ k - 1 - (unat base + 2 ^ k - 1) mod 2 ^ k"
proof -
  let ?x = "base + 2 ^ k - 1"
  have p: "unat (2 ^ k :: u64) = 2 ^ k" by (rule unat_two_power[OF assms(1)])
  have "(1 :: nat) \<le> 2 ^ k" by simp
  define y :: u64 where "y = 2 ^ k - 1"
  have y: "unat y = 2 ^ k - 1"
    using assms(1) by (simp add: y_def unat_sub p word_le_nat_alt)
  have "?x = base + y" by (simp add: y_def)
  moreover have "unat (base + y) = unat base + unat y"
    using assms(2) y \<open>1 \<le> 2 ^ k\<close> by (subst unat_add_lem[THEN iffD1]) simp_all
  ultimately have x: "unat ?x = unat base + 2 ^ k - 1"
    using y \<open>1 \<le> 2 ^ k\<close> by (metis Nat.add_diff_assoc)
  have "?x AND NOT (2 ^ k - 1) = ?x - take_bit k ?x"
  proof -
    have "take_bit k ?x = ?x AND (2 ^ k - 1)"
      by (simp add: take_bit_eq_mask mask_eq_exp_minus_1)
    moreover have "?x = (?x AND (2 ^ k - 1)) + (?x AND NOT (2 ^ k - 1))"
      by (subst disjunctive_add_eq_or) (auto intro!: bit_word_eqI simp: bit_simps)
    ultimately show ?thesis by (metis add_diff_cancel_left')
  qed
  moreover have t: "unat (take_bit k ?x) = unat ?x mod 2 ^ k"
    by (simp only: unsigned_take_bit_eq take_bit_eq_mod[where 'a = nat])
  moreover have "take_bit k ?x \<le> ?x" by (simp only: word_le_nat_alt t mod_less_eq_dividend)
  ultimately show ?thesis by (simp only: unat_sub t x)
qed

lemma buffer_zeroed_aligned_eq:
  assumes a: "a = 2 ^ k" "k < 64" and b: "unat base + 2 ^ k \<le> 2 ^ 64"
  shows "\<exists>buf. buffer_zeroed_aligned base len a = (Ok buf :: ('e, _) res) \<and> buffer_ok buf \<and>
    buffer_bytes buf = replicate len 0 \<and> bf_len buf = len \<and> bf_alignment buf = a \<and>
    (unat base + bf_offset buf) mod unat a = 0"
proof -
  let ?u = "(base + a - 1) AND NOT (a - 1)" and ?n = "unat base + 2 ^ k - 1"
  have p: "unat a = 2 ^ k" using unat_two_power[OF a(2)] a(1) by simp
  have "{i. bit a i} \<inter> set [0..<64] = {k}" using a by (auto simp: bit_exp_iff)
  then have pow: "is_power_of_two a"
    by (simp add: is_power_of_two_def popcount_def distinct_length_filter)
  have u: "unat ?u = ?n - ?n mod 2 ^ k" using align_up_word[OF a(2) b] a(1) by simp
  have lt: "?n mod 2 ^ k < 2 ^ k" by simp
  then have le: "unat base \<le> unat ?u" using u by linarith
  then have off: "unat (?u - base) = unat ?u - unat base" by (simp add: unat_sub word_le_nat_alt)
  have bound: "unat (?u - base) + 1 \<le> 2 ^ k" using off u lt by linarith
  define buf where "buf = \<lparr>bf_raw = replicate (len + unat a - 1) 0, bf_offset = unat (?u - base),
      bf_len = len, bf_alignment = a\<rparr>"
  have "buffer_zeroed_aligned base len a = (Ok buf :: ('e, _) res)"
    using pow by (simp only: buffer_zeroed_aligned_def buf_def Let_def assert_True rbind.simps)
  moreover have "buffer_ok buf" using bound p by (simp add: buffer_ok_def buf_def)
  moreover have "buffer_bytes buf = replicate len 0"
    using bound p by (simp add: buffer_bytes_def buf_def slice_def drop_replicate min_def)
  moreover have "(unat base + bf_offset buf) mod unat a = 0"
  proof -
    have "unat base + bf_offset buf = ?n - ?n mod 2 ^ k"
      unfolding u[symmetric] using le off by (simp add: buf_def)
    then show ?thesis by (simp only: p minus_mod_eq_mult_div mod_mult_self1_is_0)
  qed
  moreover have "bf_len buf = len" "bf_alignment buf = a" by (simp_all add: buf_def)
  ultimately show ?thesis by (intro exI[of _ buf] conjI) assumption+
qed

lemma buffer_zeroed_aligned_bytes_eq:
  assumes "a = 2 ^ k" "k < 64" "unat base + 2 ^ k \<le> 2 ^ 64"
  shows "\<exists>buf. buffer_zeroed_aligned_bytes base bs a = (Ok buf :: ('e, _) res) \<and> buffer_ok buf \<and>
    buffer_bytes buf = bs \<and> bf_len buf = length bs \<and> bf_alignment buf = a \<and>
    (unat base + bf_offset buf) mod unat a = 0"
proof -
  from buffer_zeroed_aligned_eq[OF assms, where 'e = 'e and len = "length bs"] obtain z where
    z: "(buffer_zeroed_aligned base (length bs) a :: ('e, _) res) = Ok z" "buffer_ok z"
      "bf_len z = length bs" "bf_alignment z = a" "(unat base + bf_offset z) mod unat a = 0"
    by (elim exE conjE) (rule that)
  from buffer_copy_from_eq[OF z(2), where 'e = 'e and bs = bs] z(3) obtain b where
    "(buffer_copy_from z bs :: ('e, _) res) = Ok b" "buffer_ok b" "buffer_bytes b = bs"
    "bf_offset b = bf_offset z" "bf_len b = bf_len z" "bf_alignment b = bf_alignment z" by auto
  with z show ?thesis by (intro exI[of _ b]) (simp add: buffer_zeroed_aligned_bytes_def)
qed

subsection \<open>Cells\<close>

datatype cell_value = CBytes bytes | CKey u32 bytes bytes

fun value_at :: "data_type \<Rightarrow> column_values \<Rightarrow> nat \<Rightarrow> cell_value" where
  "value_at dt (Fixed v) i = CBytes (slice (i * size_of dt) ((i + 1) * size_of dt) v)"
| "value_at dt (Dict k ob sb) i = CKey (of_le (slice (i * 4) ((i + 1) * 4) k)) ob sb"
| "value_at dt (RepeatDict ob sb x) i = CKey x ob sb"

definition valid_at :: "bitmap_view option \<Rightarrow> nat \<Rightarrow> bool" where
  "valid_at v i = (case v of None \<Rightarrow> True | Some b \<Rightarrow> view_bit b i)"

definition seg_cells :: "data_type \<Rightarrow> column_segment \<Rightarrow> (bool \<times> cell_value) list" where
  "seg_cells dt s =
     map (\<lambda>i. (valid_at (seg_validity s) i, value_at dt (seg_values s) i)) [0..<seg_rows s]"

definition view_cells :: "column_view \<Rightarrow> (bool \<times> cell_value) list" where
  "view_cells v = concat (map (seg_cells (cv_data_type v)) (cv_segments v))"

definition validity_ok :: "bitmap_view option \<Rightarrow> nat \<Rightarrow> bool" where
  "validity_ok v n = (case v of None \<Rightarrow> True | Some b \<Rightarrow> view_ok b \<and> bv_len b = n)"

definition dict_offsets_ok :: "bytes \<Rightarrow> bool" where
  "dict_offsets_ok ob \<longleftrightarrow> ob \<noteq> [] \<and> length ob mod 8 = 0"

fun values_ok :: "data_type \<Rightarrow> column_values \<Rightarrow> nat \<Rightarrow> bool" where
  "values_ok dt (Fixed v) n \<longleftrightarrow> length v = n * size_of dt"
| "values_ok dt (Dict k ob sb) n \<longleftrightarrow> length k = n * 4 \<and> dict_offsets_ok ob"
| "values_ok dt (RepeatDict ob sb x) n \<longleftrightarrow> dict_offsets_ok ob \<and> unat x < length ob div 8 - 1"

definition seg_ok :: "data_type \<Rightarrow> column_segment \<Rightarrow> bool" where
  "seg_ok dt s \<longleftrightarrow> validity_ok (seg_validity s) (seg_rows s) \<and> values_ok dt (seg_values s) (seg_rows s)"

definition seg_byte_aligned :: "column_segment \<Rightarrow> bool" where
  "seg_byte_aligned s = (case seg_validity s of None \<Rightarrow> True | Some b \<Rightarrow> bv_bit_offset b = 0)"

definition column_view_ok :: "column_view \<Rightarrow> bool" where
  "column_view_ok v \<longleftrightarrow> cv_segments v \<noteq> [] \<and> (\<forall>s \<in> set (cv_segments v). seg_ok (cv_data_type v) s) \<and>
     cv_length v = sum_list (map seg_rows (cv_segments v))"

lemma length_seg_cells [simp]: "length (seg_cells dt s) = seg_rows s"
  by (simp add: seg_cells_def)

lemma length_concat_seg_cells [simp]:
  "length (concat (map (seg_cells dt) ss)) = sum_list (map seg_rows ss)"
  by (simp add: length_concat comp_def)

lemma length_view_cells: "column_view_ok v \<Longrightarrow> length (view_cells v) = cv_length v"
  by (simp add: view_cells_def column_view_ok_def)

lemma seg_null_count_eq:
  "seg_ok dt s \<Longrightarrow> seg_null_count s = Ok (length (filter (\<lambda>c. \<not> fst c) (seg_cells dt s)))"
  by (auto simp: seg_null_count_def seg_ok_def validity_ok_def valid_at_def seg_cells_def
      view_null_count_eq filter_map comp_def split: option.splits)

lemma column_view_null_count_eq:
  assumes "column_view_ok v"
  shows "column_view_null_count v =
    (Ok (length (filter (\<lambda>c. \<not> fst c) (view_cells v))) :: ('e, _) res)"
proof -
  let ?n = "\<lambda>s. length (filter (\<lambda>c. \<not> fst c) (seg_cells (cv_data_type v) s))"
  have "mapM seg_null_count (cv_segments v) = (Ok (map ?n (cv_segments v)) :: ('e, _) res)"
    using assms by (intro mapM_all_Ok seg_null_count_eq) (simp add: column_view_ok_def)
  moreover have "length (filter (\<lambda>c. \<not> fst c) (concat (map (seg_cells dt) ss))) =
      sum_list (map (\<lambda>s. length (filter (\<lambda>c. \<not> fst c) (seg_cells dt s))) ss)" for dt ss
    by (induction ss) simp_all
  ultimately show ?thesis by (simp add: column_view_null_count_def view_cells_def)
qed

subsection \<open>Constructors\<close>

lemma segment_new_Ok:
  "segment_new dt vs val n = Ok s \<longleftrightarrow> length vs = n * size_of dt \<and>
     s = \<lparr>seg_values = Fixed vs, seg_validity = val, seg_rows = n\<rparr>"
  by (auto simp: segment_new_def Let_def)

lemma segment_new_dict_Ok:
  "segment_new_dict k ob sb val n = Ok s \<longleftrightarrow> length k = n * 4 \<and> dict_offsets_ok ob \<and>
     s = \<lparr>seg_values = Dict k ob sb, seg_validity = val, seg_rows = n\<rparr>"
  by (auto simp: segment_new_dict_def dict_offsets_ok_def)

lemma segment_new_repeat_dict_Ok:
  "segment_new_repeat_dict ob sb x val n = Ok s \<longleftrightarrow>
     dict_offsets_ok ob \<and> unat x < length ob div 8 - 1 \<and>
     s = \<lparr>seg_values = RepeatDict ob sb x, seg_validity = val, seg_rows = n\<rparr>"
  by (auto simp: segment_new_repeat_dict_def dict_offsets_ok_def)

lemmas segment_Ok = segment_new_Ok segment_new_dict_Ok segment_new_repeat_dict_Ok

lemma column_view_new_ok:
  "column_view_new dt ss = Ok v \<Longrightarrow> \<forall>s \<in> set ss. seg_ok dt s \<Longrightarrow> column_view_ok v"
  by (auto simp: column_view_new_def column_view_ok_def split: if_splits)

lemma column_view_empty_ok: "column_view_ok (column_view_empty dt)" "view_cells (column_view_empty dt) = []"
  by (simp_all add: column_view_ok_def column_view_empty_def seg_ok_def validity_ok_def
      view_cells_def seg_cells_def)

subsection \<open>\<open>slice_rows\<close> shows the cells of the range\<close>

lemma validity_slice_eq:
  assumes "validity_ok val r" "lo + n \<le> r"
    and "\<And>b. val = Some b \<Longrightarrow> bv_bit_offset b = 0"
  shows "\<exists>w. slice_validity val lo n = Ok w \<and> validity_ok w n \<and>
    (\<forall>i. i < n \<longrightarrow> valid_at w i = valid_at val (lo + i))"
proof (cases val)
  case (Some b)
  with assms have "lo + n \<le> 8 * length (bv_data b)" "bv_bit_offset b = 0"
    by (auto simp: validity_ok_def view_ok_def)
  with Some show ?thesis
    by (auto simp: slice_validity_def bitmap_view_new_Ok rbind_eq_Ok validity_ok_def view_ok_def
        valid_at_def view_bit_def intro!: exI[of _ "Some \<lparr>bv_data = bv_data b, bv_bit_offset = lo, bv_len = n\<rparr>"])
qed (simp add: slice_validity_def validity_ok_def valid_at_def)

lemma slice_rows_bound: "lo + n \<le> r \<Longrightarrow> (lo + n) * w \<le> r * (w :: nat)"
  by (rule mult_le_mono1)

lemma slice_segment_eq:
  assumes "seg_ok dt s" "seg_byte_aligned s" "lo + n \<le> seg_rows s"
  shows "\<exists>t. slice_segment dt s lo n = Ok t \<and> seg_ok dt t \<and> seg_rows t = n \<and>
    seg_cells dt t = slice lo (lo + n) (seg_cells dt s)"
proof -
  have al: "\<And>b. seg_validity s = Some b \<Longrightarrow> bv_bit_offset b = 0"
    using assms(2) by (simp add: seg_byte_aligned_def)
  from assms(1,3) validity_slice_eq[OF _ assms(3) al] obtain w where
    w: "slice_validity (seg_validity s) lo n = Ok w" "validity_ok w n"
      "\<And>i. i < n \<Longrightarrow> valid_at w i = valid_at (seg_validity s) (lo + i)"
    by (auto simp: seg_ok_def)
  have cells: "seg_cells dt \<lparr>seg_values = vs, seg_validity = w, seg_rows = n\<rparr> =
      slice lo (lo + n) (seg_cells dt s)"
    if "\<And>i. i < n \<Longrightarrow> value_at dt vs i = value_at dt (seg_values s) (lo + i)" for vs
    by (rule nth_equalityI)
      (use assms(3) w(3) that in \<open>auto simp: length_slice_min seg_cells_def\<close>)
  have sub: "slice (i * k) ((i + 1) * k) (slice (lo * k) ((lo + n) * k) xs) =
      slice ((lo + i) * k) ((lo + i + 1) * k) xs" if "i < n" for i k and xs :: bytes
  proof -
    have "(i + 1) * k \<le> n * k" using that by (intro mult_le_mono1) simp
    then show ?thesis by (subst slice_slice) (simp_all add: algebra_simps)
  qed
  note bound = slice_rows_bound[OF assms(3)]
  show ?thesis
  proof (cases "seg_values s")
    case (Fixed v)
    let ?t = "\<lparr>seg_values = column_values.Fixed (slice (lo * size_of dt) ((lo + n) * size_of dt) v),
        seg_validity = w, seg_rows = n\<rparr>"
    have "length v = seg_rows s * size_of dt" using assms(1) Fixed by (simp add: seg_ok_def)
    then have "slice_segment dt s lo n = Ok ?t"
      using bound[of "size_of dt"] w(1) Fixed
      by (simp add: slice_segment_def segment_new_Ok diff_mult_distrib[symmetric])
    moreover have "values_ok dt (seg_values ?t) n"
      using bound[of "size_of dt"] \<open>length v = _\<close> by (simp add: diff_mult_distrib[symmetric])
    ultimately show ?thesis using w(2) cells[of "seg_values ?t"] sub Fixed
      by (intro exI[of _ ?t]) (simp add: seg_ok_def)
  next
    case (Dict ks ob sb)
    let ?t = "\<lparr>seg_values = column_values.Dict (slice (lo * 4) ((lo + n) * 4) ks) ob sb,
        seg_validity = w, seg_rows = n\<rparr>"
    have "length ks = seg_rows s * 4" "dict_offsets_ok ob"
      using assms(1) Dict by (simp_all add: seg_ok_def)
    then have "slice_segment dt s lo n = Ok ?t"
      using bound[of 4] w(1) Dict
      by (simp add: slice_segment_def segment_new_dict_Ok diff_mult_distrib[symmetric])
    moreover have "values_ok dt (seg_values ?t) n"
      using bound[of 4] \<open>length ks = _\<close> \<open>dict_offsets_ok ob\<close>
      by (simp add: diff_mult_distrib[symmetric])
    ultimately show ?thesis using w(2) cells[of "seg_values ?t"] sub[of _ 4 ks] Dict
      by (intro exI[of _ ?t]) (simp add: seg_ok_def)
  next
    case (RepeatDict ob sb x)
    let ?t = "\<lparr>seg_values = column_values.RepeatDict ob sb x, seg_validity = w, seg_rows = n\<rparr>"
    have "values_ok dt (seg_values ?t) n" using assms(1) RepeatDict by (simp add: seg_ok_def)
    moreover from this have "slice_segment dt s lo n = Ok ?t"
      using w(1) RepeatDict by (simp add: slice_segment_def segment_new_repeat_dict_Ok)
    ultimately show ?thesis using w(2) cells[of "seg_values ?t"] RepeatDict
      by (intro exI[of _ ?t]) (simp add: seg_ok_def)
  qed
qed

lemma slice_loop_done: "stop \<le> pos \<Longrightarrow> slice_loop dt stop segs st pos = Ok []"
  by (cases segs) simp_all

lemma slice_loop_eq:
  assumes "\<forall>s \<in> set segs. seg_ok dt s \<and> seg_byte_aligned s" "st \<le> pos" "pos \<le> stop"
    "stop \<le> st + sum_list (map seg_rows segs)"
  shows "\<exists>ss. slice_loop dt stop segs st pos = Ok ss \<and> (\<forall>s \<in> set ss. seg_ok dt s) \<and>
    sum_list (map seg_rows ss) = stop - pos \<and>
    concat (map (seg_cells dt) ss) = slice (pos - st) (stop - st) (concat (map (seg_cells dt) segs))"
  using assms
proof (induction segs arbitrary: st pos)
  case Nil
  then show ?case by (simp add: slice_def)
next
  case (Cons s segs)
  let ?fin = "st + seg_rows s" and ?cs = "concat (map (seg_cells dt) segs)"
  show ?case
  proof (cases "stop \<le> pos")
    case True
    with Cons.prems show ?thesis by (simp add: slice_def)
  next
    case go: False
    show ?thesis
    proof (cases "pos < ?fin")
      case False
      then have "slice (pos - st) (stop - st) (seg_cells dt s @ ?cs) = slice (pos - ?fin) (stop - ?fin) ?cs"
        using slice_append_right[of "seg_cells dt s" "pos - st" "stop - st" ?cs]
        by (simp add: le_diff_conv2 Cons.prems(2) add.commute)
      then show ?thesis using Cons.IH[of ?fin pos] Cons.prems False go by simp
    next
      case here: True
      let ?hi = "min stop ?fin"
      have "seg_ok dt s" "seg_byte_aligned s" "(pos - st) + (?hi - pos) \<le> seg_rows s"
        using Cons.prems here by auto
      from slice_segment_eq[OF this] obtain t where
        t: "slice_segment dt s (pos - st) (?hi - pos) = Ok t" "seg_ok dt t" "seg_rows t = ?hi - pos"
          "seg_cells dt t = slice (pos - st) (?hi - st) (seg_cells dt s)"
        using Cons.prems(2) here go by auto
      have step: "slice_loop dt stop (s # segs) st pos =
          rbind (slice_loop dt stop segs ?fin ?hi) (\<lambda>ss. Ok (t # ss))"
        using go here Cons.prems(2) t(1) by (simp add: Let_def max_def)
      show ?thesis
      proof (cases "stop \<le> ?fin")
        case True
        then have "slice (pos - st) (stop - st) (seg_cells dt s @ ?cs) = seg_cells dt t"
          using t(4) Cons.prems(2) slice_append_left[of "stop - st" "seg_cells dt s" "pos - st" ?cs]
          by (simp add: le_diff_conv add.commute min_def)
        with True t step show ?thesis by (simp add: slice_loop_done min_def)
      next
        case past: False
        then obtain ss where ss: "slice_loop dt stop segs ?fin ?fin = Ok ss" "\<forall>s \<in> set ss. seg_ok dt s"
          "sum_list (map seg_rows ss) = stop - ?fin"
          "concat (map (seg_cells dt) ss) = slice 0 (stop - ?fin) ?cs"
          using Cons.IH[of ?fin ?fin] Cons.prems by auto
        have "slice (pos - st) (stop - st) (seg_cells dt s @ ?cs) =
            slice (pos - st) (seg_rows s) (seg_cells dt s @ ?cs) @
            slice (seg_rows s) (stop - st) (seg_cells dt s @ ?cs)"
          using here past Cons.prems(2) by (intro slice_join[symmetric]) simp_all
        also have "\<dots> = seg_cells dt t @ concat (map (seg_cells dt) ss)"
          using past t(4) ss(4) by (simp add: slice_append_left slice_append_right min_def)
        finally show ?thesis
          using past step t ss here by (intro exI[of _ "t # ss"]) (simp add: min_def)
      qed
    qed
  qed
qed

text \<open>
  The condition \<open>seg_byte_aligned\<close> is needed: \<open>slice_rows\<close> drops the bit offset of a
  segment's validity view.
\<close>

definition sliceable :: "column_view \<Rightarrow> bool" where
  "sliceable v \<longleftrightarrow> column_view_ok v \<and> (\<forall>s \<in> set (cv_segments v). seg_byte_aligned s)"

lemma slice_rows_eq:
  assumes "sliceable v" "offset + len \<le> cv_length v"
  shows "\<exists>w. slice_rows v offset len = Ok w \<and> column_view_ok w \<and> cv_length w = len \<and>
    cv_data_type w = cv_data_type v \<and> view_cells w = slice offset (offset + len) (view_cells v)"
proof (cases "len = 0")
  case True
  then show ?thesis using assms column_view_empty_ok[of "cv_data_type v"]
    by (simp add: slice_rows_def) (simp add: column_view_empty_def)
next
  case False
  let ?dt = "cv_data_type v"
  from assms slice_loop_eq[of "cv_segments v" ?dt 0 offset "offset + len"] obtain ss where
    ss: "slice_loop ?dt (offset + len) (cv_segments v) 0 offset = Ok ss" "\<forall>s \<in> set ss. seg_ok ?dt s"
      "sum_list (map seg_rows ss) = len" "concat (map (seg_cells ?dt) ss) = slice offset (offset + len) (view_cells v)"
    by (auto simp: sliceable_def column_view_ok_def view_cells_def)
  then have "ss \<noteq> []" using False by auto
  with ss False assms show ?thesis
    by (intro exI[of _ "\<lparr>cv_data_type = ?dt, cv_segments = ss, cv_length = len\<rparr>"])
       (simp add: slice_rows_def column_view_new_def column_view_ok_def view_cells_def)
qed

lemma slice_rows_out_of_range:
  "cv_length v < offset + len \<Longrightarrow>
   slice_rows v offset len = Err (InvalidLayout ''slice out of range'')"
  by (simp add: slice_rows_def)

subsection \<open>\<open>string_at\<close> reads the cell\<close>

definition dict_string :: "bytes \<Rightarrow> bytes \<Rightarrow> u32 \<Rightarrow> ('e, bytes option) res" where
  "dict_string ob sb k =
     (if length ob < (unat k + 2) * 8 then Ok None
      else let lo = unat (of_le (slice (unat k * 8) (unat k * 8 + 8) ob) :: u64);
               hi = unat (of_le (slice ((unat k + 1) * 8) ((unat k + 1) * 8 + 8) ob) :: u64)
           in if length sb < hi then Ok None
              else rbind (slice_r lo hi sb) (\<lambda>s. Ok (str_from_utf8 s)))"

fun cell_string :: "cell_value \<Rightarrow> ('e, bytes option) res" where
  "cell_string (CBytes b) = Ok None"
| "cell_string (CKey k ob sb) = dict_string ob sb k"

lemma dict_index_bound: "dict_offsets_ok ob \<Longrightarrow> i < length ob div 8 - 1 \<Longrightarrow> (i + 2) * 8 \<le> length ob"
  by (auto simp: dict_offsets_ok_def)

lemma seg_string_at_cell:
  assumes "values_ok dt vs n" "i < n"
  shows "seg_string_at vs i = cell_string (value_at dt vs i)"
proof (cases vs)
  case (RepeatDict ob sb x)
  with assms have "(unat x + 2) * 8 \<le> length ob" by (intro dict_index_bound) simp_all
  then show ?thesis unfolding RepeatDict
    by (simp add: dict_string_def add.commute add.left_commute)
next
  case (Dict ks ob sb)
  with assms have "i * 4 + 4 \<le> length ks" by simp
  then show ?thesis unfolding Dict by (simp add: dict_string_def Let_def add.commute)
qed simp

lemma string_at_segs_eq:
  assumes "\<forall>s \<in> set segs. seg_ok dt s" "row < sum_list (map seg_rows segs)"
  shows "string_at_segs segs row = cell_string (snd (concat (map (seg_cells dt) segs) ! row))"
  using assms
proof (induction segs arbitrary: row)
  case (Cons s segs)
  show ?case
  proof (cases "row < seg_rows s")
    case True
    with Cons.prems seg_string_at_cell[of dt "seg_values s" "seg_rows s" row] show ?thesis
      by (simp add: nth_append seg_cells_def seg_ok_def)
  next
    case False
    with Cons show ?thesis by (simp add: nth_append)
  qed
qed simp

lemma column_view_string_at_eq:
  assumes "column_view_ok v" "row < cv_length v"
  shows "column_view_string_at v row = cell_string (snd (view_cells v ! row))"
  using assms string_at_segs_eq[of "cv_segments v" "cv_data_type v" row]
  by (simp add: column_view_string_at_def view_cells_def column_view_ok_def)

subsection \<open>Owned columns and data\<close>

definition column_ok :: "column \<Rightarrow> bool" where
  "column_ok c \<longleftrightarrow>
     (case col_dict c of
        None \<Rightarrow> col_data_type c \<noteq> Utf8 \<and> length (col_values c) = column_length c * size_of (col_data_type c)
      | Some (ob, sb) \<Rightarrow> col_data_type c = Utf8 \<and> length (col_values c) = column_length c * 4 \<and> dict_offsets_ok ob) \<and>
     (case col_validity c of None \<Rightarrow> True | Some b \<Rightarrow> bitmap_ok b \<and> bm_bit_offset b = 0 \<and> bm_len b = column_length c)"

lemma column_as_view_eq:
  assumes "column_ok c"
  shows "\<exists>v. column_as_view c = (Ok v :: ('e, _) res) \<and> sliceable v \<and> cv_length v = column_length c \<and>
    cv_data_type v = col_data_type c"
proof -
  let ?n = "column_length c"
  define val where "val = map_option (\<lambda>b. \<lparr>bv_data = bm_data b, bv_bit_offset = bm_bit_offset b,
      bv_len = bm_len b\<rparr>) (col_validity c)"
  have v: "(case col_validity c of None \<Rightarrow> Ok None
      | Some b \<Rightarrow> rbind (bitmap_as_view b) (\<lambda>v. Ok (Some v))) = (Ok val :: ('e, _) res)"
    using assms by (auto simp: val_def column_ok_def bitmap_as_view_eq split: option.splits)
  have vok: "validity_ok val ?n" "\<And>b. val = Some b \<Longrightarrow> bv_bit_offset b = 0"
    using assms by (auto simp: val_def column_ok_def validity_ok_def view_ok_def bitmap_ok_def
        split: option.splits)
  define vs where "vs = (case col_dict c of None \<Rightarrow> Fixed (col_values c)
      | Some (ob, sb) \<Rightarrow> Dict (col_values c) ob sb)"
  let ?s = "\<lparr>seg_values = vs, seg_validity = val, seg_rows = ?n\<rparr>"
  have "(case col_dict c of
          Some (offs, strs) \<Rightarrow> segment_new_dict (col_values c) offs strs val ?n
        | None \<Rightarrow> segment_new (col_data_type c) (col_values c) val ?n) = Ok ?s"
    using assms by (auto simp: vs_def column_ok_def segment_Ok split: option.splits)
  moreover have "values_ok (col_data_type c) vs ?n"
    using assms by (auto simp: vs_def column_ok_def split: option.splits)
  ultimately show ?thesis using v vok
    by (intro exI[of _ "\<lparr>cv_data_type = col_data_type c, cv_segments = [?s], cv_length = ?n\<rparr>"])
       (auto simp: column_as_view_def column_view_new_def sliceable_def column_view_ok_def seg_ok_def
         seg_byte_aligned_def split: option.splits)
qed

lemma column_zeroed_eq:
  assumes "dt \<noteq> Utf8"
  shows "\<exists>c. column_zeroed dt n all_null = (Ok c :: ('e, _) res) \<and> column_ok c \<and> column_length c = n \<and>
    col_data_type c = dt \<and> column_null_count c = (Ok (if all_null then n else 0) :: ('e, _) res)"
proof -
  have sz: "0 < size_of dt" using assms size_of_pos by simp
  let ?v = "\<lparr>bv_data = bm_data (bitmap_zeros n), bv_bit_offset = 0, bv_len = n\<rparr>"
  have fields: "bm_bit_offset (bitmap_zeros n) = 0" "bm_len (bitmap_zeros n) = n"
    by (simp_all add: bitmap_zeros_def)
  have "view_ok ?v" using bitmap_zeros_ok[of n] fields by (simp add: view_ok_def bitmap_ok_def)
  moreover have "filter (\<lambda>i. \<not> view_bit ?v i) [0..<n] = [0..<n]"
    using bitmap_zeros_bits[of _ n] fields by (auto simp: filter_id_conv view_bit_def bm_bit_def)
  ultimately have "view_null_count ?v = (Ok n :: ('e, _) res)" by (simp add: view_null_count_eq)
  then show ?thesis
    using assms sz fields bitmap_zeros_ok[of n]
    by (auto simp: column_zeroed_def column_ok_def column_length_def column_null_count_def
        bitmap_as_view_eq)
qed

lemma length_concat_le_bytes [simp]: "length (concat (map (le_bytes k) ws)) = length ws * k"
  by (induction ws) simp_all

lemma column_from_dict_eq:
  assumes "2 \<le> length offs" "offs ! 0 = 0"
    and "case val of None \<Rightarrow> True | Some b \<Rightarrow> bitmap_ok b \<and> bm_bit_offset b = 0 \<and> bm_len b = length keys"
  shows "\<exists>c. column_from_dict keys offs strs val = (Ok c :: ('e, _) res) \<and> column_ok c \<and>
    column_length c = length keys \<and> col_data_type c = Utf8"
proof -
  have "concat (map (le_bytes 8) offs) \<noteq> []"
    using assms(1) length_concat_le_bytes[of 8 offs] by fastforce
  with assms show ?thesis
    by (cases val) (simp_all add: column_from_dict_def column_ok_def column_length_def dict_offsets_ok_def)
qed

text \<open>A key below the number of entries shows the bytes between its two offsets.\<close>

lemma slice_concat_le_bytes:
  "i < length ws \<Longrightarrow> slice (i * k) (i * k + k) (concat (map (le_bytes k) ws)) = le_bytes k (ws ! i)"
proof (induction ws arbitrary: i)
  case (Cons w ws)
  then show ?case
    by (cases i) (simp_all add: slice_append_right slice_append_left add.commute[of k] slice_def)
qed simp

lemma dict_string_concat:
  fixes offs :: "u64 list"
  assumes "unat k + 1 < length offs" "unat (offs ! unat k) \<le> unat (offs ! (unat k + 1))"
    "unat (offs ! (unat k + 1)) \<le> length strs"
  shows "dict_string (concat (map (le_bytes 8) offs)) strs k =
     Ok (str_from_utf8 (slice (unat (offs ! unat k)) (unat (offs ! (unat k + 1))) strs))"
proof -
  have "slice (unat k * 8) (unat k * 8 + 8) (concat (map (le_bytes 8) offs)) = le_bytes 8 (offs ! unat k)"
    "slice ((unat k + 1) * 8) ((unat k + 1) * 8 + 8) (concat (map (le_bytes 8) offs)) =
      le_bytes 8 (offs ! (unat k + 1))"
    using assms(1) by (intro slice_concat_le_bytes; simp)+
  then show ?thesis using assms unfolding dict_string_def Let_def by simp
qed

lemma data_new_Ok:
  "data_new s cs = Ok d \<longleftrightarrow> length cs = length s \<and>
     (\<forall>c \<in> set cs. column_length c = column_length (hd cs)) \<and> d = \<lparr>da_schema = s, da_columns = cs\<rparr>"
proof -
  have *: "(\<exists>x. mapM (\<lambda>(f, c). guard (column_length c = m) e) (zip s cs) = Ok x) \<longleftrightarrow>
      (\<forall>c \<in> set cs. column_length c = m)" if "length cs = length s" for m and e :: format_error
    using that by (induction cs s rule: list_induct2) (auto simp: res_simps)
  show ?thesis
    by (cases cs) (use *[of "column_length (hd cs)"] in \<open>auto simp: data_new_def res_simps\<close>)
qed

lemma data_view_new_Ok:
  "data_view_new s cs = Ok d \<longleftrightarrow> length cs = length s \<and>
     (\<forall>(f, c) \<in> set (zip s cs). cv_length c = (case cs of [] \<Rightarrow> 0 | c # _ \<Rightarrow> cv_length c) \<and>
        cv_data_type c = fs_type f) \<and>
     d = \<lparr>dv_schema = s, dv_columns = cs, dv_length = (case cs of [] \<Rightarrow> 0 | c # _ \<Rightarrow> cv_length c)\<rparr>"
proof -
  have *: "(\<exists>x. mapM (\<lambda>(f, c). rbind (guard (cv_length c = m) e)
        (\<lambda>_. guard (cv_data_type c = fs_type f) e')) ps = Ok x) \<longleftrightarrow>
      (\<forall>(f, c) \<in> set ps. cv_length c = m \<and> cv_data_type c = fs_type f)" for m ps and e e' :: format_error
    by (induction ps) (auto simp: res_simps)
  show ?thesis unfolding data_view_new_def Let_def
    by (auto simp: rbind_eq_Ok *)
qed

text \<open>
  \<open>Data::as_view\<close> expects \<open>DataView::new\<close> to succeed. It does when every column has its
  field's type, which \<open>Data::new\<close> does not check.
\<close>

lemma data_as_view_eq:
  assumes "data_new s cs = Ok d" "\<forall>(f, c) \<in> set (zip s cs). column_ok c \<and> col_data_type c = fs_type f"
  shows "\<exists>v. data_as_view d = (Ok v :: ('e, _) res) \<and> dv_schema v = s \<and> dv_length v = data_length d \<and>
    length (dv_columns v) = length cs \<and> (\<forall>c \<in> set (dv_columns v). sliceable c)"
proof -
  from assms(1) have d: "d = \<lparr>da_schema = s, da_columns = cs\<rparr>" and len: "length cs = length s"
    and eq: "\<And>c. c \<in> set cs \<Longrightarrow> column_length c = column_length (hd cs)"
    by (auto simp: data_new_Ok)
  define g where "g c = (SOME v. column_as_view c = (Ok v :: ('e, _) res))" for c
  have ok: "column_ok c" if "c \<in> set cs" for c
    using assms(2) len that by (metis (mono_tags, lifting) case_prodD in_set_impl_in_set_zip2)
  have g: "column_as_view c = (Ok (g c) :: ('e, _) res)" "sliceable (g c)"
    "cv_length (g c) = column_length c" "cv_data_type (g c) = col_data_type c" if c: "c \<in> set cs" for c
  proof -
    obtain v where v: "column_as_view c = (Ok v :: ('e, _) res)" "sliceable v"
      "cv_length v = column_length c" "cv_data_type v = col_data_type c"
      using column_as_view_eq[OF ok[OF c], where 'e = 'e] by blast
    then have "g c = v" by (simp add: g_def)
    with v show "column_as_view c = (Ok (g c) :: ('e, _) res)" "sliceable (g c)"
      "cv_length (g c) = column_length c" "cv_data_type (g c) = col_data_type c" by simp_all
  qed
  have views: "mapM column_as_view cs = (Ok (map g cs) :: ('e, _) res)"
    by (rule mapM_all_Ok) (rule g(1))
  let ?v = "\<lparr>dv_schema = s, dv_columns = map g cs, dv_length = data_length d\<rparr>"
  have dl: "data_length d = (case map g cs of [] \<Rightarrow> 0 | c # _ \<Rightarrow> cv_length c)"
    using g(3) by (cases cs) (simp_all add: data_length_def d)
  have "data_view_new s (map g cs) = Ok ?v"
    unfolding data_view_new_Ok dl[symmetric]
  proof (intro conjI ballI)
    fix p assume p: "p \<in> set (zip s (map g cs))"
    then obtain f c where fc: "p = (f, g c)" "(f, c) \<in> set (zip s cs)"
      by (auto simp: zip_map2)
    then have c: "c \<in> set cs" by (auto dest: set_zip_rightD)
    have "cv_length (g c) = data_length d"
      using g(3)[OF c] eq[OF c] c by (cases cs) (auto simp: data_length_def d)
    moreover have "cv_data_type (g c) = fs_type f" using g(4)[OF c] assms(2) fc(2) by fastforce
    ultimately show "case p of (f, c) \<Rightarrow> cv_length c = data_length d \<and> cv_data_type c = fs_type f"
      by (simp add: fc(1))
  qed (simp_all add: len)
  then have "data_as_view d = (Ok ?v :: ('e, _) res)" by (simp add: data_as_view_def d views)
  then show ?thesis using g(2) by auto
qed

subsection \<open>Properties\<close>

text \<open>C3. Slicing a column view by rows succeeds on every range inside the view, across any
  number of segments and for fixed, dictionary and repeated-dictionary segments alike, and the
  result shows exactly the cells (value and validity) of the range, in order, provided no segment
  carries a validity view that starts inside its buffer.\<close>

theorem slice_rows_correct:
  assumes "sliceable v" "offset + len \<le> cv_length v"
  shows "\<exists>w. slice_rows v offset len = Ok w \<and> column_view_ok w \<and> cv_length w = len \<and>
    view_cells w = slice offset (offset + len) (view_cells v)"
  using slice_rows_eq[OF assms] by blast

definition example_view :: column_view where
  "example_view = \<lparr>cv_data_type = Int16, cv_segments =
     [\<lparr>seg_values = Fixed [1, 0, 2, 0, 3, 0],
       seg_validity = Some \<lparr>bv_data = [0x05], bv_bit_offset = 0, bv_len = 3\<rparr>, seg_rows = 3\<rparr>,
      \<lparr>seg_values = Fixed [4, 0, 5, 0], seg_validity = None, seg_rows = 2\<rparr>], cv_length = 5\<rparr>"

theorem slice_rows_correct_witness:
  "\<exists>w. slice_rows example_view 1 3 = Ok w \<and>
     view_cells w = [(False, CBytes [2, 0]), (True, CBytes [3, 0]), (True, CBytes [4, 0])]"
proof -
  have "sliceable example_view" "1 + 3 \<le> cv_length example_view"
    by (simp_all add: sliceable_def example_view_def column_view_ok_def seg_ok_def validity_ok_def
        view_ok_def seg_byte_aligned_def)
  from slice_rows_correct[OF this] obtain w where
    "slice_rows example_view 1 3 = Ok w" "view_cells w = slice 1 (1 + 3) (view_cells example_view)"
    by blast
  moreover have "slice 1 (1 + 3) (view_cells example_view) =
      [(False, CBytes [2, 0]), (True, CBytes [3, 0]), (True, CBytes [4, 0])]" by code_simp
  ultimately show ?thesis by auto
qed

text \<open>Slicing a slice is wrong: \<open>slice_rows\<close> rebuilds a segment's validity from the
  start of the underlying bytes and forgets the bit offset the first slice left, so row 0 of the
  second slice reports the validity of another row.\<close>

theorem slice_rows_twice_loses_offset:
  "\<exists>u w. slice_rows example_view 1 3 = Ok u \<and> slice_rows u 0 2 = Ok w \<and>
     map fst (view_cells u) = [False, True, True] \<and> map fst (view_cells w) = [True, False]"
  by (rule exI[of _ "\<lparr>cv_data_type = Int16, cv_segments =
       [\<lparr>seg_values = Fixed [2, 0, 3, 0],
         seg_validity = Some \<lparr>bv_data = [0x05], bv_bit_offset = 1, bv_len = 2\<rparr>, seg_rows = 2\<rparr>,
        \<lparr>seg_values = Fixed [4, 0], seg_validity = None, seg_rows = 1\<rparr>], cv_length = 3\<rparr>"],
      rule exI[of _ "\<lparr>cv_data_type = Int16, cv_segments =
       [\<lparr>seg_values = Fixed [2, 0, 3, 0],
         seg_validity = Some \<lparr>bv_data = [0x05], bv_bit_offset = 0, bv_len = 2\<rparr>, seg_rows = 2\<rparr>],
        cv_length = 2\<rparr>"]) code_simp

text \<open>\<open>Data::as_view\<close> never panics on a \<open>Data\<close> whose columns are consistent and have the
  types of the schema; \<open>Data::new\<close> itself only compares lengths, so the type agreement is the
  caller's.\<close>

theorem data_as_view_total:
  assumes "data_new s cs = Ok d" "\<forall>(f, c) \<in> set (zip s cs). column_ok c \<and> col_data_type c = fs_type f"
  shows "\<exists>v. data_as_view d = (Ok v :: ('e, _) res) \<and> dv_schema v = s \<and> dv_length v = data_length d \<and>
    (\<forall>c \<in> set (dv_columns v). sliceable c)"
  using data_as_view_eq[OF assms, where 'e = 'e] by blast

theorem data_as_view_total_witness:
  "\<exists>v. data_as_view \<lparr>da_schema = [\<lparr>fs_name = ''x'', fs_type = Int16\<rparr>],
      da_columns = [\<lparr>col_data_type = Int16, col_values = [1, 0, 2, 0], col_validity = None, col_dict = None\<rparr>]\<rparr>
     = (Ok v :: (unit, _) res) \<and> dv_length v = 2"
proof -
  let ?s = "[\<lparr>fs_name = ''x'', fs_type = Int16\<rparr>]"
    and ?c = "\<lparr>col_data_type = Int16, col_values = [1, 0, 2, 0], col_validity = None, col_dict = None\<rparr>"
  have "data_new ?s [?c] = Ok \<lparr>da_schema = ?s, da_columns = [?c]\<rparr>" by (simp add: data_new_Ok)
  moreover have "\<forall>(f, c) \<in> set (zip ?s [?c]). column_ok c \<and> col_data_type c = fs_type f"
    by (simp add: column_ok_def column_length_def)
  ultimately show ?thesis
    using data_as_view_total[where 'e = unit, of ?s "[?c]"]
    by (auto simp: data_length_def column_length_def)
qed

text \<open>Without that agreement \<open>as_view\<close> panics: \<open>Data::new\<close> accepts an \<open>Int64\<close> column
  under an \<open>Int32\<close> field, and viewing the result fails the \<open>expect\<close>.\<close>

theorem data_as_view_panics:
  "\<exists>d. data_new [\<lparr>fs_name = ''x'', fs_type = Int32\<rparr>]
        [\<lparr>col_data_type = Int64, col_values = replicate 8 0, col_validity = None, col_dict = None\<rparr>] = Ok d \<and>
     data_as_view d = (Panic :: (unit, _) res)"
  by (rule exI[of _ "\<lparr>da_schema = [\<lparr>fs_name = ''x'', fs_type = Int32\<rparr>],
        da_columns = [\<lparr>col_data_type = Int64, col_values = replicate 8 0, col_validity = None,
          col_dict = None\<rparr>]\<rparr>"]) code_simp

text \<open>\<open>string_at\<close> is a function of the cell: for every row of a well-formed view it returns
  the string its dictionary key names, whichever segment and representation holds the row, and
  \<open>None\<close> for a fixed-width column.\<close>

theorem string_at_correct:
  assumes "column_view_ok v" "row < cv_length v"
  shows "column_view_string_at v row = cell_string (snd (view_cells v ! row))"
  using column_view_string_at_eq[OF assms] .

theorem string_at_correct_witness:
  "column_view_string_at \<lparr>cv_data_type = Utf8, cv_segments =
     [\<lparr>seg_values = Dict [1, 0, 0, 0] (concat (map (le_bytes 8) [0, 1, 3 :: u64])) [65, 66, 67],
       seg_validity = None, seg_rows = 1\<rparr>], cv_length = 1\<rparr> 0 = (Ok (Some [66, 67]) :: (unit, _) res)"
proof -
  let ?v = "\<lparr>cv_data_type = Utf8, cv_segments =
     [\<lparr>seg_values = Dict [1, 0, 0, 0] (concat (map (le_bytes 8) [0, 1, 3 :: u64])) [65, 66, 67],
       seg_validity = None, seg_rows = 1\<rparr>], cv_length = 1\<rparr>"
  have "column_view_ok ?v" by code_simp
  moreover have "(0 :: nat) < cv_length ?v" by simp
  ultimately have "column_view_string_at ?v 0 = (cell_string (snd (view_cells ?v ! 0)) :: (unit, _) res)"
    by (rule string_at_correct)
  moreover have "cell_string (snd (view_cells ?v ! 0)) = (Ok (Some [66, 67]) :: (unit, _) res)"
    by code_simp
  ultimately show ?thesis by simp
qed

end
