(* ===== verification/Value_Codecs.thy ===== *)
theory Value_Codecs
  imports Format_Types
begin

text \<open>
  The byte-level value codecs of the crate \<open>splayed-codec\<close>: \<open>error.rs\<close>, \<open>plain.rs\<close>,
  \<open>delta.rs\<close> and \<open>rle.rs\<close>. A codec works on the contiguous values of a column, \<open>rows\<close>
  items of \<open>size_of\<close> bytes. The locale \<open>value_codec\<close> states what the chunk layer relies on;
  it is interpreted for each encoding.
\<close>

subsection \<open>\<open>error.rs\<close>\<close>

datatype codec_error =
    CFormat format_error
  | RowCountMismatch nat nat
  | Truncated nat nat
  | Corrupt string
  | CIo string

subsection \<open>\<open>plain.rs\<close>\<close>

definition plain_encode :: "bytes \<Rightarrow> (codec_error, bytes) res" where
  "plain_encode values = Ok values"

definition plain_decode :: "bytes \<Rightarrow> nat \<Rightarrow> nat \<Rightarrow> (codec_error, bytes) res" where
  "plain_decode payload rows sz =
     (let expected = rows * sz
      in if length payload \<noteq> expected then Err (RowCountMismatch expected (length payload))
         else Ok payload)"

subsection \<open>\<open>delta.rs\<close>\<close>

text \<open>Reading zero-extends to \<open>u64\<close>; an index out of range panics in the callers' guards.\<close>

definition read_word :: "bytes \<Rightarrow> nat \<Rightarrow> nat \<Rightarrow> u64" where
  "read_word buf index s = of_le (slice (index * s) (index * s + s) buf)"

text \<open>\<open>values.len() % s\<close> with \<open>s = 0\<close> (\<open>Utf8\<close>) is a division by zero.\<close>

definition whole_values :: "data_type \<Rightarrow> bytes \<Rightarrow> (codec_error, unit) res" where
  "whole_values dt values = assert_that (size_of dt \<noteq> 0 \<and> length values mod size_of dt = 0)"

definition delta_encode :: "data_type \<Rightarrow> bytes \<Rightarrow> (codec_error, bytes) res" where
  "delta_encode dt values =
     rbind (whole_values dt values) (\<lambda>_.
       let s = size_of dt; n = length values div s
       in Ok (foldl (\<lambda>out i. let word = (if i = 0 then read_word values 0 s
                                         else read_word values i s - read_word values (i - 1) s)
                             in out @ le_bytes s word) [] [0..<n]))"

definition delta_decode :: "data_type \<Rightarrow> bytes \<Rightarrow> nat \<Rightarrow> (codec_error, bytes) res" where
  "delta_decode dt payload rows =
     (let s = size_of dt; expected = rows * s
      in if length payload \<noteq> expected then Err (RowCountMismatch expected (length payload))
         else Ok (fst (foldl (\<lambda>(out, prev) i.
                let delta = read_word payload i s;
                    value = (if i = 0 then delta else prev + delta)
                in (splice (i * s) (le_bytes s value) out, value))
              (replicate expected 0, 0 :: u64) [0..<rows])))"

subsection \<open>\<open>rle.rs\<close>\<close>

abbreviation item :: "bytes \<Rightarrow> nat \<Rightarrow> nat \<Rightarrow> bytes" where
  "item vs s i \<equiv> slice (i * s) (i * s + s) vs"

function rle_run :: "bytes \<Rightarrow> nat \<Rightarrow> nat \<Rightarrow> nat \<Rightarrow> nat \<Rightarrow> nat" where
  "rle_run vs s n i run =
     (if i + run < n \<and> item vs s (i + run) = item vs s i then rle_run vs s n i (Suc run) else run)"
  by auto
termination by (relation "measure (\<lambda>(vs, s, n, i, run). n - (i + run))") auto

declare rle_run.simps [simp del]

lemma rle_run_ge: "run \<le> rle_run vs s n i run"
proof (induction vs s n i run rule: rle_run.induct)
  case (1 vs s n i run)
  then show ?case
    by (cases "i + run < n \<and> item vs s (i + run) = item vs s i") (auto simp: rle_run.simps[of vs s n i run])
qed

function rle_encode_loop :: "bytes \<Rightarrow> nat \<Rightarrow> nat \<Rightarrow> nat \<Rightarrow> bytes" where
  "rle_encode_loop vs s n i =
     (if i < n
      then let run = rle_run vs s n i 1
           in le_bytes 4 (of_nat run :: u32) @ item vs s i @ rle_encode_loop vs s n (i + run)
      else [])"
  by auto
termination
proof (relation "measure (\<lambda>(vs, s, n, i). n - i)")
  fix vs s n i run assume "i < n" "run = rle_run vs s n i 1"
  then show "((vs, s, n, i + run), vs, s, n, i) \<in> measure (\<lambda>(vs, s, n, i). n - i)"
    using rle_run_ge[of 1 vs s n i] by simp
qed simp

declare rle_encode_loop.simps [simp del]

definition rle_encode :: "data_type \<Rightarrow> bytes \<Rightarrow> (codec_error, bytes) res" where
  "rle_encode dt values =
     rbind (whole_values dt values) (\<lambda>_.
       Ok (rle_encode_loop values (size_of dt) (length values div size_of dt) 0))"

text \<open>The loop of \<open>decode\<close>; a run of length 0 consumes input, so the loop ends.\<close>

function rle_decode_loop ::
  "bytes \<Rightarrow> nat \<Rightarrow> nat \<Rightarrow> nat \<Rightarrow> nat \<Rightarrow> bytes \<Rightarrow> (codec_error, bytes) res" where
  "rle_decode_loop payload s rows got pos out =
     (if got < rows
      then if length payload < pos + 4 + s then Err (Truncated (pos + 4 + s) (length payload))
           else let run = unat (of_le (slice pos (pos + 4) payload) :: u32);
                    value = slice (pos + 4) (pos + 4 + s) payload
             in if rows < got + run then Err (RowCountMismatch rows (got + run))
                else rle_decode_loop payload s rows (got + run) (pos + 4 + s)
                       (out @ concat (replicate run value))
      else if pos \<noteq> length payload then Err (Corrupt ''trailing bytes after final run'')
      else Ok out)"
  by auto
termination by (relation "measure (\<lambda>(p, s, rows, got, pos, out). length p - pos)") auto

declare rle_decode_loop.simps [simp del]

definition rle_decode :: "data_type \<Rightarrow> bytes \<Rightarrow> nat \<Rightarrow> (codec_error, bytes) res" where
  "rle_decode dt payload rows = rle_decode_loop payload (size_of dt) rows 0 0 []"

subsection \<open>The contract of a value codec\<close>

locale value_codec =
  fixes enc :: "bytes \<Rightarrow> (codec_error, bytes) res"
    and dec :: "bytes \<Rightarrow> nat \<Rightarrow> (codec_error, bytes) res"
    and width :: nat
    and max_rows :: nat
  assumes encodes: "0 < width \<Longrightarrow> length vs = rows * width \<Longrightarrow> rows \<le> max_rows \<Longrightarrow>
      \<exists>p. enc vs = Ok p \<and> dec p rows = Ok vs"
    and decoded_length: "dec p rows = Ok vs \<Longrightarrow> length vs = rows * width"
    and decode_no_panic: "dec p rows \<noteq> Panic"
begin

lemma roundtrip:
  "0 < width \<Longrightarrow> length vs = rows * width \<Longrightarrow> rows \<le> max_rows \<Longrightarrow> enc vs = Ok p \<Longrightarrow> dec p rows = Ok vs"
  using encodes[of vs rows] by auto

lemma encode_total:
  "0 < width \<Longrightarrow> length vs = rows * width \<Longrightarrow> rows \<le> max_rows \<Longrightarrow> is_ok (enc vs)"
  using encodes[of vs rows] by auto

lemma encode_inj:
  assumes "0 < width" "length vs = rows * width" "length ws = rows * width" "rows \<le> max_rows"
    "enc vs = enc ws"
  shows "vs = ws"
proof -
  obtain p where "enc vs = Ok p" "dec p rows = Ok vs" using encodes[of vs rows] assms by auto
  moreover from this assms have "dec p rows = Ok ws" by (intro roundtrip) simp_all
  ultimately show ?thesis by simp
qed

text \<open>A payload is never decoded as two different row counts.\<close>

lemma decode_rows:
  "0 < width \<Longrightarrow> dec p rows = Ok vs \<Longrightarrow> dec p rows' = Ok vs \<Longrightarrow> rows = rows'"
  using decoded_length[of p rows vs] decoded_length[of p rows' vs] by simp

end

subsection \<open>Items of a value array\<close>

lemma item_in_range: "i < n \<Longrightarrow> i * s + s \<le> n * (s :: nat)"
  using mult_le_mono1[of "Suc i" n s] by simp

lemma length_item: "i < n \<Longrightarrow> length vs = n * s \<Longrightarrow> length (item vs s i) = s"
  using item_in_range[of i n s] by simp

lemma take_item: "i < n \<Longrightarrow> length vs = n * s \<Longrightarrow> take (i * s) vs @ item vs s i = take (Suc i * s) vs"
  using slice_join[of 0 "i * s" "i * s + s" vs] by (simp add: slice_def add.commute)

lemma le_bytes_read_word:
  assumes "i < n" "length vs = n * s" "s \<le> 8"
  shows "le_bytes s (read_word vs i s) = item vs s i"
proof -
  have "8 * length (item vs s i) \<le> LENGTH(64)" using assms by (simp add: length_item)
  from le_bytes_of_le[OF this] show ?thesis using assms by (simp add: read_word_def length_item)
qed

lemma whole_values_Ok: "0 < size_of dt \<Longrightarrow> length vs = rows * size_of dt \<Longrightarrow> whole_values dt vs = Ok ()"
  by (simp add: whole_values_def)

lemma foldl_append_concat: "foldl (\<lambda>out i. out @ f i) out xs = out @ concat (map f xs)"
  by (induction xs arbitrary: out) simp_all

lemma length_concat_map_same:
  "(\<And>x. x \<in> set xs \<Longrightarrow> length (f x) = s) \<Longrightarrow> length (concat (map f xs)) = length xs * (s :: nat)"
  by (induction xs) simp_all

lemma item_concat_map:
  "i < n \<Longrightarrow> (\<And>j. j < n \<Longrightarrow> length (f j) = s) \<Longrightarrow> item (concat (map f [0..<n])) s i = f i"
proof (induction n)
  case (Suc n)
  have len: "length (concat (map f [0..<n])) = n * s"
    using length_concat_map_same[of "[0..<n]" f s] Suc.prems(2) by simp
  show ?case
  proof (cases "i = n")
    case True
    then show ?thesis using len Suc.prems(2)[of n] by (simp add: slice_append_right slice_def)
  next
    case False
    then have "i < n" using Suc.prems(1) by simp
    then show ?thesis using Suc.IH Suc.prems(2) len item_in_range[of i n s]
      by (simp add: slice_append_left)
  qed
qed simp

subsection \<open>DELTA\<close>

lemma take_bit_add_word:
  "take_bit n (take_bit n a + take_bit n b) = take_bit n (a + b :: 'a::len word)"
  by transfer (simp add: take_bit_add)

lemma take_bit_le_bytes_eq: "take_bit (8 * s) v = take_bit (8 * s) w \<Longrightarrow> le_bytes s v = le_bytes s (w :: u64)"
  by (metis le_bytes_take_bit)

lemma read_word_take_bit:
  assumes "i < n" "length vs = n * s"
  shows "take_bit (8 * s) (read_word vs i s) = read_word vs i s"
proof (rule bit_word_eqI)
  fix k assume "k < LENGTH(64)"
  show "bit (take_bit (8 * s) (read_word vs i s)) k = bit (read_word vs i s) k"
    using length_item[OF assms] by (auto simp: bit_take_bit_iff read_word_def bit_of_le
        div_less_iff_less_mult mult.commute)
qed

lemma delta_encode_eq:
  assumes "0 < size_of dt" "length vs = n * size_of dt"
  shows "delta_encode dt vs = Ok (concat (map (\<lambda>i. le_bytes (size_of dt)
      (if i = 0 then read_word vs 0 (size_of dt)
       else read_word vs i (size_of dt) - read_word vs (i - 1) (size_of dt))) [0..<n]))"
  using assms by (simp add: delta_encode_def whole_values_Ok foldl_append_concat Let_def)

lemma delta_decode_loop:
  fixes p vs :: bytes
  assumes "0 < s" "length vs = n * s" "s \<le> 8" "k \<le> n"
    and p: "\<And>i. i < n \<Longrightarrow> read_word p i s = take_bit (8 * s)
      (if i = 0 then read_word vs 0 s else read_word vs i s - read_word vs (i - 1) s)"
  defines "f \<equiv> (\<lambda>(out, prev) i.
                let delta = read_word p i s; value = (if i = 0 then delta else prev + delta)
                in (splice (i * s) (le_bytes s value) out, value))"
  shows "fst (foldl f (replicate (n * s) 0, 0 :: u64) [0..<k]) = take (k * s) vs @ replicate ((n - k) * s) 0
    \<and> (0 < k \<longrightarrow> take_bit (8 * s) (snd (foldl f (replicate (n * s) 0, 0) [0..<k])) = read_word vs (k - 1) s)"
  using assms(4)
proof (induction k)
  case (Suc k)
  obtain out prev where st: "foldl f (replicate (n * s) 0, 0 :: u64) [0..<k] = (out, prev)"
    by (cases "foldl f (replicate (n * s) 0, 0 :: u64) [0..<k]")
  with Suc have out: "out = take (k * s) vs @ replicate ((n - k) * s) 0"
    and prev: "0 < k \<longrightarrow> take_bit (8 * s) prev = read_word vs (k - 1) s" by simp_all
  define v where "v = (if k = 0 then read_word p k s else prev + read_word p k s)"
  have kn: "k < n" using Suc.prems by simp
  have v: "take_bit (8 * s) v = read_word vs k s"
  proof (cases "k = 0")
    case True
    with p[OF kn] read_word_take_bit[OF kn assms(2)] show ?thesis by (simp add: v_def)
  next
    case False
    then have "take_bit (8 * s) v = take_bit (8 * s) (take_bit (8 * s) prev + take_bit (8 * s) (read_word p k s))"
      by (simp add: v_def take_bit_add_word)
    also have "\<dots> = take_bit (8 * s) (read_word vs (k - 1) s + (read_word vs k s - read_word vs (k - 1) s))"
      using False prev p[OF kn] take_bit_add_word[of "8 * s" "read_word vs (k - 1) s"
        "take_bit (8 * s) (read_word vs k s - read_word vs (k - 1) s)"] take_bit_add_word[of "8 * s" "read_word vs (k - 1) s"
        "read_word vs k s - read_word vs (k - 1) s"] by (simp add: read_word_take_bit)
    finally show ?thesis by (simp add: read_word_take_bit[OF kn assms(2)])
  qed
  have lb: "le_bytes s v = item vs s k"
    using v le_bytes_take_bit[of s v] le_bytes_read_word[OF kn assms(2,3)] by simp
  have len: "length (take (k * s) vs) = k * s"
    using item_in_range[OF kn, of s] assms(2) by simp
  have "(n - k) * s = s + (n - Suc k) * s" using kn by (metis Suc_diff_Suc mult_Suc)
  then have "splice (k * s) (item vs s k) out = (take (k * s) vs @ item vs s k) @ replicate ((n - Suc k) * s) 0"
    using len by (simp add: out splice_def length_item[OF kn assms(2)])
  then have "splice (k * s) (le_bytes s v) out = take (Suc k * s) vs @ replicate ((n - Suc k) * s) 0"
    by (simp only: lb take_item[OF kn assms(2)])
  moreover have "foldl f (replicate (n * s) 0, 0 :: u64) [0..<Suc k] = (splice (k * s) (le_bytes s v) out, v)"
    by (simp add: st) (simp add: f_def v_def Let_def)
  ultimately show ?case using v by simp
qed simp

interpretation delta: value_codec "delta_encode dt" "delta_decode dt" "size_of dt" rows for dt rows
proof
  fix vs :: bytes and n :: nat
  assume dt: "0 < size_of dt" and len: "length vs = n * size_of dt"
  let ?s = "size_of dt"
  let ?w = "\<lambda>i. if i = 0 then read_word vs 0 ?s else read_word vs i ?s - read_word vs (i - 1) ?s"
  define p where "p = concat (map (\<lambda>i. le_bytes ?s (?w i)) [0..<n])"
  have p: "read_word p i ?s = take_bit (8 * ?s) (?w i)" if "i < n" for i
    using item_concat_map[OF that, of "\<lambda>i. le_bytes ?s (?w i)" ?s, OF length_le_bytes]
    unfolding read_word_def[of p] unfolding p_def by (simp only: length_le_bytes of_le_le_bytes)
  have "length p = n * ?s" by (simp add: p_def length_concat comp_def)
  then have "delta_decode dt p n = Ok vs"
    using delta_decode_loop[OF dt len size_of_le_8 le_refl p] len
    unfolding delta_decode_def Let_def by simp
  then show "\<exists>p. delta_encode dt vs = Ok p \<and> delta_decode dt p n = Ok vs"
    using delta_encode_eq[OF dt len] unfolding p_def by blast
next
  fix p vs n assume "delta_decode dt p n = Ok vs"
  then have "vs = fst (foldl (\<lambda>(out, prev) i.
                let delta = read_word p i (size_of dt);
                    value = (if i = 0 then delta else prev + delta)
                in (splice (i * size_of dt) (le_bytes (size_of dt) value) out, value))
              (replicate (n * size_of dt) 0, 0 :: u64) [0..<n])"
    by (simp add: delta_decode_def Let_def split: if_splits)
  moreover have "length (fst (foldl (\<lambda>(out, prev) i.
                let delta = read_word p i s; value = (if i = 0 then delta else prev + delta)
                in (splice (i * s) (le_bytes s value) out, value))
              (replicate (n * s) 0, 0 :: u64) [0..<k])) = n * s" if "k \<le> n" for k s
    using that
  proof (induction k)
    case (Suc k)
    then show ?case using item_in_range[of k n s] by (simp add: case_prod_unfold Let_def)
  qed simp
  ultimately show "length vs = n * size_of dt" by simp
qed (simp add: delta_decode_def Let_def)

interpretation plain: value_codec plain_encode "\<lambda>p n. plain_decode p n w" w rows for w rows
  by unfold_locales (auto simp: plain_encode_def plain_decode_def Let_def split: if_splits)

subsection \<open>RLE\<close>

lemma rle_run_props:
  assumes "i + run \<le> n" "\<And>k. k < run \<Longrightarrow> item vs s (i + k) = item vs s i"
  shows "i + rle_run vs s n i run \<le> n"
    "k < rle_run vs s n i run \<Longrightarrow> item vs s (i + k) = item vs s i"
  using assms
proof (induction vs s n i run rule: rle_run.induct)
  case (1 vs s n i run)
  let ?go = "i + run < n \<and> item vs s (i + run) = item vs s i"
  { case 1
    show ?case
      by (cases ?go) (use 1 "1.IH" in \<open>auto simp: rle_run.simps[of vs s n i run] less_Suc_eq\<close>)
  next
    case 2
    show ?case
      by (cases ?go) (use 2 "1.IH" in \<open>auto simp: rle_run.simps[of vs s n i run] less_Suc_eq\<close>) }
qed

lemma take_run:
  assumes "i + r \<le> n" "length vs = n * s" "\<And>k. k < r \<Longrightarrow> item vs s (i + k) = item vs s i"
  shows "take (i * s) vs @ concat (replicate r (item vs s i)) = take ((i + r) * s) vs"
  using assms
proof (induction r)
  case (Suc r)
  have "take (i * s) vs @ concat (replicate (Suc r) (item vs s i)) =
      take ((i + r) * s) vs @ item vs s (i + r)"
    using Suc.IH Suc.prems by (simp flip: replicate_append_same)
  also have "\<dots> = take ((i + Suc r) * s) vs"
    using take_item[of "i + r" n vs s] Suc.prems by simp
  finally show ?case .
qed simp

lemma rle_decode_encode_loop:
  assumes "0 < s" "length vs = n * s" "n \<le> u32_max" "i \<le> n"
  shows "rle_decode_loop (pre @ rle_encode_loop vs s n i) s n i (length pre) (take (i * s) vs) = Ok vs"
  using assms(4)
proof (induction "n - i" arbitrary: i pre rule: less_induct)
  case less
  show ?case
  proof (cases "i < n")
    case False
    with less.prems assms(2) show ?thesis
      by (simp add: rle_encode_loop.simps[of vs s n n] rle_decode_loop.simps)
  next
    case True
    define r where "r = rle_run vs s n i 1"
    have r: "1 \<le> r" "i + r \<le> n" "\<And>k. k < r \<Longrightarrow> item vs s (i + k) = item vs s i"
      unfolding r_def using rle_run_ge[of 1 vs s n i] rle_run_props[where i = i and run = 1 and n = n and vs = vs and s = s] True by simp_all
    let ?rest = "rle_encode_loop vs s n (i + r)"
    let ?p = "pre @ le_bytes 4 (of_nat r :: u32) @ item vs s i @ ?rest"
    have enc: "rle_encode_loop vs s n i = le_bytes 4 (of_nat r :: u32) @ item vs s i @ ?rest"
      using True by (simp add: rle_encode_loop.simps[of vs s n i] r_def Let_def)
    have it: "length (item vs s i) = s" by (rule length_item[OF True assms(2)])
    have s1: "slice (length pre) (length pre + 4) ?p = le_bytes 4 (of_nat r :: u32)"
      by (simp add: slice_append_right slice_append_left) (simp add: slice_def)
    have s2: "slice (length pre + 4) (length pre + 4 + s) ?p = item vs s i"
      using it by (simp add: slice_append_right slice_append_left) (simp add: slice_def)
    have run: "unat (of_le (slice (length pre) (length pre + 4) ?p) :: u32) = r"
      unfolding s1 using r(2) assms(3) by simp
    have "rle_decode_loop ?p s n i (length pre) (take (i * s) vs) =
        rle_decode_loop ?p s n (i + r) (length pre + 4 + s) (take ((i + r) * s) vs)"
      using True r(2) it run s2 take_run[OF r(2) assms(2) r(3)]
      by (subst rle_decode_loop.simps) (simp add: Let_def)
    also have "\<dots> = Ok vs"
      using less.hyps[of "i + r" "pre @ le_bytes 4 (of_nat r :: u32) @ item vs s i"] r True it
      by (simp add: add.assoc)
    finally show ?thesis by (simp add: enc)
  qed
qed

lemma rle_decode_loop_length:
  assumes "rle_decode_loop p s rows got pos out = Ok vs" "length out = got * s" "got \<le> rows"
    "pos \<le> length p"
  shows "length vs = rows * s"
  using assms
proof (induction p s rows got pos out rule: rle_decode_loop.induct)
  case (1 p s rows got pos out)
  show ?case
  proof (cases "got < rows")
    case True
    let ?run = "unat (of_le (slice pos (pos + 4) p) :: u32)"
    have ok: "pos + 4 + s \<le> length p" "got + ?run \<le> rows"
      using "1.prems"(1) True by (auto simp: rle_decode_loop.simps[of p s rows got pos out] Let_def split: if_splits)
    have "length (out @ concat (replicate ?run (slice (pos + 4) (pos + 4 + s) p))) = (got + ?run) * s"
      using ok "1.prems"(2) by (simp add: length_concat sum_list_replicate add_mult_distrib)
    then show ?thesis
      using "1.IH"[OF True _ refl refl] "1.prems" ok True
      by (simp add: rle_decode_loop.simps[of p s rows got pos out] Let_def)
  next
    case False
    with "1.prems" show ?thesis
      by (auto simp: rle_decode_loop.simps[of p s rows got pos out] split: if_splits)
  qed
qed

lemma rle_decode_loop_no_panic: "rle_decode_loop p s rows got pos out \<noteq> Panic"
proof (induction p s rows got pos out rule: rle_decode_loop.induct)
  case (1 p s rows got pos out)
  then show ?case by (subst rle_decode_loop.simps) (simp add: Let_def)
qed

interpretation rle: value_codec "rle_encode dt" "rle_decode dt" "size_of dt" u32_max for dt
proof
  fix vs :: bytes and n :: nat
  assume dt: "0 < size_of dt" and len: "length vs = n * size_of dt" and n: "n \<le> u32_max"
  have "rle_encode dt vs = Ok (rle_encode_loop vs (size_of dt) n 0)"
    using dt len by (simp add: rle_encode_def whole_values_Ok)
  moreover have "rle_decode dt (rle_encode_loop vs (size_of dt) n 0) n = Ok vs"
    using rle_decode_encode_loop[OF dt len n, of 0 "[]"] by (simp add: rle_decode_def)
  ultimately show "\<exists>p. rle_encode dt vs = Ok p \<and> rle_decode dt p n = Ok vs" by blast
next
  fix p vs n assume "rle_decode dt p n = Ok vs"
  then show "length vs = n * size_of dt"
    using rle_decode_loop_length[of p "size_of dt" n 0 0 "[]" vs] by (simp add: rle_decode_def)
qed (simp add: rle_decode_def rle_decode_loop_no_panic)

end
