(* ===== verification/Bitpack.thy ===== *)
theory Bitpack
  imports Value_Codecs Bitmap
begin

text \<open>
  The BITPACK encoding (\<open>splayed-codec/src/bitpack.rs\<close>): values are mapped to \<open>u64\<close> (zigzag
  for signed types), the width of the widest is stored in one byte, and the low bits of every
  value are packed least significant bit first. The byte-wise \<open>write_bits\<close> and \<open>read_bits\<close>
  loops are proved to write and read exactly the bits of the range.
\<close>

subsection \<open>Mapping a value to \<open>u64\<close>\<close>

text \<open>\<open>i64\<close> values are the same 64-bit words; \<open>>>\<close> on them is the signed shift.\<close>

definition zigzag_encode :: "u64 \<Rightarrow> u64" where
  "zigzag_encode v = push_bit 1 v XOR signed_drop_bit 63 v"

definition zigzag_decode :: "u64 \<Rightarrow> u64" where
  "zigzag_decode u = drop_bit 1 u XOR (- (u AND 1))"

definition map_to_u64 :: "data_type \<Rightarrow> bytes \<Rightarrow> u64" where
  "map_to_u64 dt bs =
     (let raw = of_le bs :: u64
      in if is_signed_int dt
         then let shift = 64 - size_of dt * 8
              in zigzag_encode (signed_drop_bit shift (push_bit shift raw))
         else raw)"

definition map_from_u64 :: "data_type \<Rightarrow> u64 \<Rightarrow> nat \<Rightarrow> bytes" where
  "map_from_u64 dt val n =
     (if is_signed_int dt then le_bytes n (zigzag_decode val) else le_bytes n val)"

subsection \<open>Bit-level reads and writes\<close>

text \<open>The loops of \<open>write_bits\<close> and \<open>read_bits\<close>; \<open>take\<close> is at least one bit.\<close>

function write_bits_loop :: "bytes \<Rightarrow> nat \<Rightarrow> nat \<Rightarrow> u64 \<Rightarrow> bytes" where
  "write_bits_loop buf p remaining val =
     (if 0 < remaining
      then let byte = p div 8; b = p mod 8; tk = min (8 - b) remaining;
               m = (ucast (push_bit tk 1 - 1 :: u16) :: u8);
               buf' = buf[byte := buf ! byte OR push_bit b (ucast (val AND ucast m))]
           in write_bits_loop buf' (p + tk) (remaining - tk) (drop_bit tk val)
      else buf)"
  by auto
termination by (relation "measure (\<lambda>(buf, p, r, v). r)") auto

declare write_bits_loop.simps [simp del]

definition write_bits :: "bytes \<Rightarrow> nat \<Rightarrow> nat \<Rightarrow> nat \<Rightarrow> u64 \<Rightarrow> bytes" where
  "write_bits buf base_byte bit_pos width val =
     (if width = 0 then buf else write_bits_loop buf (base_byte * 8 + bit_pos) width val)"

function read_bits_loop :: "bytes \<Rightarrow> nat \<Rightarrow> nat \<Rightarrow> nat \<Rightarrow> u64 \<Rightarrow> u64" where
  "read_bits_loop buf p width shifted val =
     (if shifted < width
      then let byte = p div 8; b = p mod 8; tk = min (8 - b) (width - shifted);
               chunk = ucast (drop_bit b (buf ! byte)) AND ucast (push_bit tk 1 - 1 :: u16)
           in read_bits_loop buf (p + tk) width (shifted + tk) (val OR push_bit shifted chunk)
      else val)"
  by auto
termination by (relation "measure (\<lambda>(buf, p, w, s, v). w - s)") auto

declare read_bits_loop.simps [simp del]

definition read_bits :: "bytes \<Rightarrow> nat \<Rightarrow> nat \<Rightarrow> u64" where
  "read_bits buf bit_pos width = (if width = 0 then 0 else read_bits_loop buf bit_pos width 0 0)"

subsection \<open>\<open>encode\<close> and \<open>decode\<close>\<close>

definition leading_zeros :: "u64 \<Rightarrow> nat" where
  "leading_zeros w = length (takeWhile (\<lambda>i. \<not> bit w i) (rev [0..<64]))"

definition bitpack_encode :: "data_type \<Rightarrow> bytes \<Rightarrow> (codec_error, bytes) res" where
  "bitpack_encode dt values =
     rbind (whole_values dt values) (\<lambda>_.
       let s = size_of dt; n = length values div s;
           mapped = map (\<lambda>i. map_to_u64 dt (item values s i)) [0..<n];
           max_bits = foldl (\<lambda>m v. max m (64 - leading_zeros v)) 0 mapped;
           byte_len = (n * max_bits + 7) div 8
       in Ok (foldl (\<lambda>out i. write_bits out 1 (i * max_bits) max_bits (mapped ! i))
                (of_nat max_bits # replicate byte_len 0) [0..<n]))"

definition bitpack_decode :: "data_type \<Rightarrow> bytes \<Rightarrow> nat \<Rightarrow> (codec_error, bytes) res" where
  "bitpack_decode dt payload rows =
     (let s = size_of dt
      in case payload of [] \<Rightarrow> Err (Truncated 1 0)
       | w # packed \<Rightarrow>
         let bit_width = unat w; byte_len = (rows * bit_width + 7) div 8
         in if 64 < bit_width then Err (Corrupt ''bit_width > 64'')
            else if length payload < 1 + byte_len then Err (Truncated (1 + byte_len) (length payload))
            else Ok (foldl (\<lambda>out i.
                   splice (i * s) (map_from_u64 dt (read_bits packed (i * bit_width) bit_width) s) out)
                 (replicate (rows * s) 0) [0..<rows]))"

subsection \<open>Zigzag and sign extension\<close>

lemma bit_signed_drop_bit_u64:
  "bit (signed_drop_bit n (v :: u64)) k \<longleftrightarrow> k < 64 \<and> bit v (if k + n < 64 then k + n else 63)"
  using bit_imp_le_length[of v "n + k"] by (auto simp: bit_signed_drop_bit_iff add.commute[of k n])

lemma zigzag_decode_encode [simp]: "zigzag_decode (zigzag_encode v) = v"
proof (rule bit_word_eqI)
  fix k assume "k < LENGTH(64)"
  then have k: "k < 64" by simp
  have e: "bit (zigzag_encode v) j \<longleftrightarrow> j < 64 \<and> ((0 < j \<and> bit v (j - 1)) \<noteq> bit v 63)" for j
    unfolding zigzag_encode_def bit_xor_iff bit_push_bit_iff bit_signed_drop_bit_u64
    by (cases "j < 64") (auto dest: bit_imp_le_length)
  have sgn: "bit (- (u AND 1)) i \<longleftrightarrow> bit u 0" if "i < 64" for i and u :: u64
    using that by (cases "bit u 0") (simp_all add: and_one_eq bit_0 odd_iff_mod_2_eq_one)
  show "bit (zigzag_decode (zigzag_encode v)) k = bit v k"
    using k by (cases "k = 63") (auto simp: zigzag_decode_def bit_xor_iff bit_drop_bit_eq sgn e)
qed

lemma map_from_to_u64:
  assumes "length bs = size_of dt"
  shows "map_from_u64 dt (map_to_u64 dt bs) (size_of dt) = bs"
proof -
  have le: "8 * length bs \<le> 64" using assms size_of_le_8[of dt] by linarith
  have raw: "le_bytes (size_of dt) (of_le bs :: u64) = bs"
    using le_bytes_of_le[of bs, where 'a = 64] le assms by simp
  define sh where "sh = 64 - size_of dt * 8"
  have sh: "sh + 8 * size_of dt = 64" using le assms by (simp add: sh_def)
  have "take_bit (8 * size_of dt) (signed_drop_bit sh (push_bit sh (of_le bs :: u64))) =
      take_bit (8 * size_of dt) (of_le bs)"
    by (rule bit_word_eqI) (use sh in \<open>auto simp: bit_take_bit_iff bit_signed_drop_bit_u64 bit_push_bit_iff\<close>)
  then have "le_bytes (size_of dt) (signed_drop_bit sh (push_bit sh (of_le bs :: u64))) = bs"
    using take_bit_le_bytes_eq[of "size_of dt"] raw by metis
  then have "le_bytes (size_of dt) (signed_drop_bit (64 - size_of dt * 8)
      (push_bit (64 - size_of dt * 8) (of_le bs :: u64))) = bs" by (simp only: sh_def)
  with raw show ?thesis by (simp add: map_from_u64_def map_to_u64_def Let_def)
qed

lemma leading_zeros_bit: "bit w k \<Longrightarrow> k < 64 - leading_zeros w"
proof -
  assume b: "bit w k"
  then have k: "k < 64" by (auto dest: bit_imp_le_length)
  let ?xs = "rev [0..<64]"
  have "\<not> (63 - k < leading_zeros w)"
  proof
    assume l: "63 - k < leading_zeros w"
    then have "takeWhile (\<lambda>i. \<not> bit w i) ?xs ! (63 - k) = ?xs ! (63 - k)"
      unfolding leading_zeros_def by (rule takeWhile_nth)
    moreover have "?xs ! (63 - k) = k" using k by (simp add: rev_nth)
    moreover have "takeWhile (\<lambda>i. \<not> bit w i) ?xs ! (63 - k) \<in> set (takeWhile (\<lambda>i. \<not> bit w i) ?xs)"
      using l unfolding leading_zeros_def by (rule nth_mem)
    ultimately show False using b set_takeWhileD by metis
  qed
  then show ?thesis using k by simp
qed

subsection \<open>What the bit loops do\<close>

lemma bit_low16: "tk \<le> 8 \<Longrightarrow> bit (push_bit tk 1 - 1 :: u16) i \<longleftrightarrow> i < tk"
proof -
  assume "tk \<le> 8"
  have "push_bit tk 1 - 1 = (mask tk :: u16)" by (simp add: mask_eq_exp_minus_1 push_bit_eq_mult)
  then show ?thesis using \<open>tk \<le> 8\<close> by (auto simp: bit_simps)
qed

lemma write_bits_step:
  assumes "p div 8 < length buf" "p mod 8 + tk \<le> 8"
  shows "get_bit (buf[p div 8 := buf ! (p div 8) OR
       push_bit (p mod 8) (ucast (val AND ucast (ucast (push_bit tk 1 - 1 :: u16) :: u8)))]) j =
     (get_bit buf j \<or> (p \<le> j \<and> j < p + tk \<and> bit (val :: u64) (j - p)))"
proof -
  have tk: "tk \<le> 8" using assms(2) by simp
  have m: "bit (push_bit (p mod 8) (ucast (val AND ucast (ucast (push_bit tk 1 - 1 :: u16) :: u8)) :: u8)) i \<longleftrightarrow>
      p mod 8 \<le> i \<and> i < p mod 8 + tk \<and> bit val (i - p mod 8)" if "i < 8" for i
    using that tk assms(2)
    by (auto simp del: push_bit_of_1 simp: bit_push_bit_iff bit_ucast_iff bit_and_iff bit_low16)
  have r: "p \<le> j \<and> j < p + tk \<longleftrightarrow> j div 8 = p div 8 \<and> p mod 8 \<le> j mod 8 \<and> j mod 8 < p mod 8 + tk"
    using byte_range[OF assms(2), of j] by blast
  have d: "j - p = j mod 8 - p mod 8" if "j div 8 = p div 8"
    using that by (metis add_diff_cancel_left mult_div_mod_eq)
  show ?thesis
  proof (cases "j div 8 = p div 8")
    case True
    then have "get_bit buf j = bit (buf ! (p div 8)) (j mod 8)" by (simp add: get_bit_def)
    then show ?thesis
      unfolding get_bit_update[OF assms(1)] bit_or_iff
      using m[of "j mod 8"] d[OF True] True r by (cases "p \<le> j \<and> j < p + tk") auto
  next
    case False
    then show ?thesis unfolding get_bit_update[OF assms(1)] using r by auto
  qed
qed

lemma write_bits_loop_both:
  assumes "p + remaining \<le> 8 * length buf"
  shows "length (write_bits_loop buf p remaining val) = length buf \<and>
    get_bit (write_bits_loop buf p remaining val) j =
      (get_bit buf j \<or> (p \<le> j \<and> j < p + remaining \<and> bit val (j - p)))"
  using assms
proof (induction buf p remaining val rule: write_bits_loop.induct)
  case (1 buf p remaining val)
  show ?case
  proof (cases "0 < remaining")
    case True
    define tk where "tk = min (8 - p mod 8) remaining"
    let ?buf = "buf[p div 8 := buf ! (p div 8) OR
       push_bit (p mod 8) (ucast (val AND ucast (ucast (push_bit tk 1 - 1 :: u16) :: u8)))]"
    have step: "write_bits_loop buf p remaining val =
        write_bits_loop ?buf (p + tk) (remaining - tk) (drop_bit tk val)"
      using True unfolding tk_def by (subst write_bits_loop.simps) (simp only: Let_def if_True)
    have tk: "p mod 8 + tk \<le> 8" "tk \<le> remaining" using True by (auto simp: tk_def)
    have fit: "p + tk + (remaining - tk) \<le> 8 * length ?buf" using "1.prems" tk by simp
    have "p div 8 < length buf" using "1.prems" True by (simp add: div_less_iff_less_mult)
    note g = write_bits_step[OF this tk(1), of val j]
    have ih: "length (write_bits_loop ?buf (p + tk) (remaining - tk) (drop_bit tk val)) = length ?buf \<and>
      get_bit (write_bits_loop ?buf (p + tk) (remaining - tk) (drop_bit tk val)) j =
       (get_bit ?buf j \<or> (p + tk \<le> j \<and> j < p + tk + (remaining - tk) \<and> bit (drop_bit tk val) (j - (p + tk))))"
      using "1.IH"[OF True refl refl refl refl refl] fit unfolding tk_def by blast
    have "bit (drop_bit tk val) (j - (p + tk)) = bit val (j - p)" if "p + tk \<le> j"
      using that by (simp add: bit_drop_bit_eq)
    then show ?thesis unfolding step using ih tk(2) unfolding g
      by (cases "p + tk \<le> j") auto
  qed (auto simp: write_bits_loop.simps[of buf p 0 val])
qed

lemmas write_bits_loop_eq = write_bits_loop_both[THEN conjunct1] write_bits_loop_both[THEN conjunct2]

lemma write_bits_eq:
  assumes "8 * base + pos + width \<le> 8 * length buf"
  shows "length (write_bits buf base pos width val) = length buf"
    "get_bit (write_bits buf base pos width val) j =
      (get_bit buf j \<or> (8 * base + pos \<le> j \<and> j < 8 * base + pos + width \<and> bit val (j - (8 * base + pos))))"
  using write_bits_loop_eq[of "base * 8 + pos" width buf] assms
  by (auto simp: write_bits_def mult.commute)

lemma read_bits_loop_eq:
  assumes "shifted \<le> width" "width \<le> 64"
  shows "bit (read_bits_loop buf p width shifted val) k \<longleftrightarrow>
    bit val k \<or> (shifted \<le> k \<and> k < width \<and> get_bit buf (p + (k - shifted)))"
  using assms
proof (induction buf p width shifted val rule: read_bits_loop.induct)
  case (1 buf p width shifted val)
  show ?case
  proof (cases "shifted < width")
    case True
    define tk where "tk = min (8 - p mod 8) (width - shifted)"
    let ?c = "ucast (drop_bit (p mod 8) (buf ! (p div 8))) AND ucast (push_bit tk 1 - 1 :: u16) :: u64"
    have step: "read_bits_loop buf p width shifted val =
        read_bits_loop buf (p + tk) width (shifted + tk) (val OR push_bit shifted ?c)"
      using True unfolding tk_def by (subst read_bits_loop.simps) (simp only: Let_def if_True)
    have tk: "tk \<le> 8" "p mod 8 + tk \<le> 8" "shifted + tk \<le> width" using True by (auto simp: tk_def)
    have c: "bit ?c i \<longleftrightarrow> i < tk \<and> get_bit buf (p + i)" for i
    proof -
      have "(p + i) div 8 = p div 8 \<and> (p + i) mod 8 = p mod 8 + i" if "i < tk"
        using div8_add[of "p mod 8" i "p div 8"] tk(2) that by simp
      then show ?thesis
        using tk(1) by (auto simp del: push_bit_of_1 simp: bit_and_iff bit_ucast_iff bit_low16
            bit_drop_bit_eq get_bit_def)
    qed
    define G where "G = get_bit buf (p + (k - shifted))"
    have "p + tk + (k - (shifted + tk)) = p + (k - shifted)" if "shifted + tk \<le> k"
      using that by simp
    then have "bit (read_bits_loop buf p width shifted val) k \<longleftrightarrow>
        bit (val OR push_bit shifted ?c) k \<or> (shifted + tk \<le> k \<and> k < width \<and> G)"
      using "1.IH"[OF True refl refl refl refl] tk(3) "1.prems"(2) unfolding step G_def tk_def by auto
    also have "bit (val OR push_bit shifted ?c) k \<longleftrightarrow> bit val k \<or> (shifted \<le> k \<and> k < 64 \<and> k < shifted + tk \<and> G)"
      unfolding bit_or_iff bit_push_bit_iff c G_def by auto
    finally show ?thesis
      using tk(3) "1.prems"(2) unfolding G_def[symmetric]
      by (cases "shifted + tk \<le> k") auto
  qed (auto simp: read_bits_loop.simps[of buf p width shifted val])
qed

lemma read_bits_eq:
  "width \<le> 64 \<Longrightarrow> bit (read_bits buf pos width) k \<longleftrightarrow> k < width \<and> get_bit buf (pos + k)"
  using read_bits_loop_eq[of 0 width buf pos 0 k] by (simp add: read_bits_def)

subsection \<open>Round trip\<close>

lemma foldl_splice_items:
  assumes "\<And>i. length (f i) = s" "k \<le> n"
  shows "foldl (\<lambda>out i. splice (i * s) (f i) out) (replicate (n * s) 0) [0..<k] =
    concat (map f [0..<k]) @ replicate ((n - k) * s) 0"
  using assms(2)
proof (induction k)
  case (Suc k)
  have len: "length (concat (map f [0..<k])) = k * s"
    using length_concat_map_same[of "[0..<k]" f s] assms(1) by simp
  have "(n - k) * s = s + (n - Suc k) * s" using Suc.prems by (metis Suc_diff_Suc Suc_le_lessD mult_Suc)
  then show ?case using Suc len assms(1)[of k] by (simp add: splice_def)
qed simp

lemma concat_items:
  assumes "length vs = n * s" "k \<le> n"
  shows "concat (map (item vs s) [0..<k]) = take (k * s) vs"
  using assms(2)
proof (induction k)
  case (Suc k)
  then show ?case using take_item[of k n vs s] assms(1) by simp
qed simp

lemma foldl_max_ge:
  fixes f :: "'a \<Rightarrow> nat"
  shows "foldl (\<lambda>m v. max m (f v)) m0 xs \<ge> m0 \<and> (\<forall>v \<in> set xs. f v \<le> foldl (\<lambda>m v. max m (f v)) m0 xs)"
proof (induction xs arbitrary: m0)
  case (Cons x xs)
  show ?case using Cons.IH[of "max m0 (f x)"] by auto
qed simp

lemma foldl_max_le: "m0 \<le> c \<Longrightarrow> (\<And>v. f v \<le> c) \<Longrightarrow> foldl (\<lambda>m v. max m (f v)) m0 xs \<le> (c :: nat)"
  by (induction xs arbitrary: m0) simp_all

lemma write_all_bits:
  fixes f :: "nat \<Rightarrow> u64" and buf :: bytes and n w :: nat
  assumes "length buf = 1 + (n * w + 7) div 8" "\<And>j. 8 \<le> j \<Longrightarrow> j < 8 * length buf \<Longrightarrow> \<not> get_bit buf j" "k \<le> n"
  defines "r \<equiv> \<lambda>k. foldl (\<lambda>out i. write_bits out 1 (i * w) w (f i)) buf [0..<k]"
  shows "length (r k) = length buf \<and> (\<forall>j. j < 8 \<longrightarrow> get_bit (r k) j = get_bit buf j) \<and>
    (\<forall>i b. i < k \<longrightarrow> b < w \<longrightarrow> get_bit (r k) (8 + i * w + b) = bit (f i) b) \<and>
    (\<forall>j. 8 + k * w \<le> j \<longrightarrow> j < 8 * length buf \<longrightarrow> \<not> get_bit (r k) j)"
  using assms(3)
proof (induction k)
  case 0
  then show ?case using assms(2) by (simp add: r_def)
next
  case (Suc k)
  have rs: "r (Suc k) = write_bits (r k) 1 (k * w) w (f k)" by (simp add: r_def)
  have kw: "k * w + w \<le> n * w" using mult_le_mono1[of "Suc k" n w] Suc.prems by simp
  have nw: "8 + n * w \<le> 8 * length buf" using assms(1) by simp
  have ih: "length (r k) = length buf" "\<And>j. j < 8 \<Longrightarrow> get_bit (r k) j = get_bit buf j"
    "\<And>i b. i < k \<Longrightarrow> b < w \<Longrightarrow> get_bit (r k) (8 + i * w + b) = bit (f i) b"
    "\<And>j. 8 + k * w \<le> j \<Longrightarrow> j < 8 * length buf \<Longrightarrow> \<not> get_bit (r k) j"
    using Suc by auto
  have fit: "8 * 1 + k * w + w \<le> 8 * length (r k)" using kw nw ih(1) by simp
  note wr = write_bits_eq[OF fit, of "f k", folded rs]
  have "get_bit (r (Suc k)) (8 + i * w + b) = bit (f i) b" if "i < Suc k" "b < w" for i b
  proof (cases "i = k")
    case True
    then have "8 + i * w + b < 8 * length buf" using that kw nw by simp
    with True that show ?thesis using wr(2)[of "8 + i * w + b"] ih(4)[of "8 + i * w + b"] by simp
  next
    case False
    then have "i * w + b < k * w" using that mult_le_mono1[of "Suc i" k w] by simp
    then show ?thesis using wr(2)[of "8 + i * w + b"] ih(3)[of i b] False that by simp
  qed
  moreover have "\<not> get_bit (r (Suc k)) j" if "8 + Suc k * w \<le> j" "j < 8 * length buf" for j
    using wr(2)[of j] ih(4)[of j] that by simp
  ultimately show ?case using wr ih(1,2) by simp
qed

lemma get_bit_Cons: "get_bit (b # bs) (8 + j) = get_bit bs j"
proof -
  have "(8 + j) div 8 = Suc (j div 8)" by simp
  then show ?thesis unfolding get_bit_def by simp
qed

lemma bitpack_roundtrip_aux:
  assumes "0 < size_of dt" "length vs = n * size_of dt"
  shows "\<exists>p. bitpack_encode dt vs = Ok p \<and> bitpack_decode dt p n = Ok vs"
proof -
  let ?s = "size_of dt"
  define mapped where "mapped = map (\<lambda>i. map_to_u64 dt (item vs ?s i)) [0..<n]"
  define w where "w = foldl (\<lambda>m v. max m (64 - leading_zeros v)) 0 mapped"
  define buf where "buf = (of_nat w :: u8) # replicate ((n * w + 7) div 8) 0"
  define out where "out = foldl (\<lambda>out i. write_bits out 1 (i * w) w (mapped ! i)) buf [0..<n]"
  have w64: "w \<le> 64" unfolding w_def by (rule foldl_max_le) simp_all
  have enc: "bitpack_encode dt vs = Ok out"
    using assms by (simp add: bitpack_encode_def whole_values_Ok Let_def out_def buf_def w_def mapped_def)
  have z: "\<not> get_bit buf j" if "8 \<le> j" "j < 8 * length buf" for j
    using that get_bit_Cons[of "of_nat w" "replicate ((n * w + 7) div 8) 0" "j - 8"]
    by (simp add: buf_def)
  have lbuf: "length buf = 1 + (n * w + 7) div 8" by (simp add: buf_def)
  note W = write_all_bits[OF lbuf z le_refl, of "\<lambda>i. mapped ! i", folded out_def]
  have lout: "length out = 1 + (n * w + 7) div 8" using W lbuf by simp
  then obtain h packed where out: "out = h # packed" by (cases out) auto
  have h: "h = of_nat w"
  proof (rule bit_word_eqI)
    fix j assume "j < LENGTH(8)"
    then show "bit h j = bit (of_nat w :: u8) j"
      using W out by (auto simp: get_bit_def buf_def)
  qed
  then have uh: "unat h = w" using w64 by (simp add: unat_of_nat)
  have rd: "read_bits packed (i * w) w = mapped ! i" if "i < n" for i
  proof (rule bit_word_eqI)
    fix b assume "b < LENGTH(64)"
    have "b < w" if "bit (mapped ! i) b"
    proof -
      have "mapped ! i \<in> set mapped" using \<open>i < n\<close> by (simp add: mapped_def)
      then have "64 - leading_zeros (mapped ! i) \<le> w"
        unfolding w_def using foldl_max_ge[where f = "\<lambda>v. 64 - leading_zeros v" and ?m0.0 = 0 and xs = mapped] by blast
      then show ?thesis using leading_zeros_bit[OF that] by simp
    qed
    then show "bit (read_bits packed (i * w) w) b = bit (mapped ! i) b"
      using W that get_bit_Cons[of h packed "i * w + b"] w64
      by (auto simp: read_bits_eq out add.assoc)
  qed
  let ?f = "\<lambda>i. map_from_u64 dt (read_bits packed (i * w) w) ?s"
  have "?f i = item vs ?s i" if "i < n" for i
    using that map_from_to_u64[of "item vs ?s i" dt] length_item[OF that assms(2)]
    by (simp add: rd mapped_def)
  then have "concat (map ?f [0..<n]) = take (n * ?s) vs"
    using concat_items[OF assms(2) le_refl]
    by (metis (mono_tags, lifting) atLeastLessThan_iff map_cong set_upt)
  moreover have "length (?f i) = ?s" for i by (simp add: map_from_u64_def)
  ultimately have "foldl (\<lambda>out i. splice (i * ?s) (?f i) out) (replicate (n * ?s) 0) [0..<n] = vs"
    using foldl_splice_items[of ?f ?s n n] assms(2) by simp
  then have "bitpack_decode dt out n = Ok vs"
    using lout w64 unfolding out by (simp add: bitpack_decode_def Let_def uh)
  with enc show ?thesis by blast
qed

interpretation bitpack: value_codec "bitpack_encode dt" "bitpack_decode dt" "size_of dt" rows for dt rows
proof
  fix vs :: bytes and n :: nat
  assume "0 < size_of dt" "length vs = n * size_of dt"
  then show "\<exists>p. bitpack_encode dt vs = Ok p \<and> bitpack_decode dt p n = Ok vs"
    by (rule bitpack_roundtrip_aux)
next
  fix p vs n assume ok: "bitpack_decode dt p n = Ok vs"
  then obtain w packed where p: "p = w # packed" by (cases p) (simp_all add: bitpack_decode_def)
  let ?f = "\<lambda>i. map_from_u64 dt (read_bits packed (i * unat w) (unat w)) (size_of dt)"
  have f: "length (?f i) = size_of dt" for i by (simp add: map_from_u64_def)
  from ok have "vs = foldl (\<lambda>out i. splice (i * size_of dt) (?f i) out) (replicate (n * size_of dt) 0) [0..<n]"
    by (simp add: bitpack_decode_def p Let_def split: if_splits)
  then show "length vs = n * size_of dt"
    using foldl_splice_items[of ?f "size_of dt" n n, OF f le_refl]
      length_concat_map_same[of "[0..<n]" ?f "size_of dt", OF f] by simp
next
  fix p n show "bitpack_decode dt p n \<noteq> Panic"
    by (cases p) (simp_all add: bitpack_decode_def Let_def)
qed

end
