(* ===== verification/Headers.thy ===== *)
theory Headers
  imports Format_Types
begin

text \<open>
  The fixed-size records of the format (crate \<open>splayed-format\<close>): \<open>MetaHeader\<close> and
  \<open>SymIndexRecord\<close> of \<open>meta.rs\<close> and \<open>FieldHeader\<close> of \<open>field.rs\<close>. The
  Rust structs are \<open>#[repr(C)]\<close> with naturally aligned fields and no padding, read and written
  by \<open>bytemuck\<close> as raw memory: on the little-endian targets the crate supports that is the
  little-endian image of each field at its offset, which is what \<open>to_bytes\<close> and
  \<open>from_bytes\<close> are here. The locale \<open>pod_format\<close> states what a reader of such a record
  relies on; it is interpreted for the three records (and for the chunk header of the codec).
\<close>

subsection \<open>\<open>meta.rs\<close>: \<open>MetaHeader\<close>\<close>

record meta_header =
  mh_magic :: u64
  mh_version :: u16
  mh_flags :: u16
  mh_time_type :: u8
  mh_reserved0 :: "u8 \<times> u8 \<times> u8"
  mh_generation :: u64
  mh_time_count :: u32
  mh_sym_count :: u32
  mh_row_count :: u32
  mh_reserved1 :: u32
  mh_sym_dict_offset :: u64
  mh_sym_index_offset :: u64
  mh_file_size :: u64

definition meta_header_new ::
  "time_type \<Rightarrow> u64 \<Rightarrow> u32 \<Rightarrow> u32 \<Rightarrow> u32 \<Rightarrow> u64 \<Rightarrow> u64 \<Rightarrow> u64 \<Rightarrow> meta_header" where
  "meta_header_new tt generation time_count sym_count row_count
     sym_dict_offset sym_index_offset file_size =
   \<lparr>mh_magic = META_MAGIC, mh_version = FORMAT_VERSION, mh_flags = 0,
    mh_time_type = time_type_id tt, mh_reserved0 = (0, 0, 0), mh_generation = generation,
    mh_time_count = time_count, mh_sym_count = sym_count, mh_row_count = row_count,
    mh_reserved1 = 0, mh_sym_dict_offset = sym_dict_offset,
    mh_sym_index_offset = sym_index_offset, mh_file_size = file_size\<rparr>"

definition meta_header_to_bytes :: "meta_header \<Rightarrow> bytes" where
  "meta_header_to_bytes h =
     le_bytes 8 (mh_magic h) @ le_bytes 2 (mh_version h) @ le_bytes 2 (mh_flags h) @
     [mh_time_type h] @
     [fst (mh_reserved0 h), fst (snd (mh_reserved0 h)), snd (snd (mh_reserved0 h))] @
     le_bytes 8 (mh_generation h) @ le_bytes 4 (mh_time_count h) @ le_bytes 4 (mh_sym_count h) @
     le_bytes 4 (mh_row_count h) @ le_bytes 4 (mh_reserved1 h) @
     le_bytes 8 (mh_sym_dict_offset h) @ le_bytes 8 (mh_sym_index_offset h) @
     le_bytes 8 (mh_file_size h)"

text \<open>\<open>bytemuck::pod_read_unaligned\<close>.\<close>

definition meta_header_read :: "bytes \<Rightarrow> meta_header" where
  "meta_header_read bs =
   \<lparr>mh_magic = of_le (slice 0 8 bs), mh_version = of_le (slice 8 10 bs),
    mh_flags = of_le (slice 10 12 bs), mh_time_type = bs ! 12,
    mh_reserved0 = (bs ! 13, bs ! 14, bs ! 15), mh_generation = of_le (slice 16 24 bs),
    mh_time_count = of_le (slice 24 28 bs), mh_sym_count = of_le (slice 28 32 bs),
    mh_row_count = of_le (slice 32 36 bs), mh_reserved1 = of_le (slice 36 40 bs),
    mh_sym_dict_offset = of_le (slice 40 48 bs),
    mh_sym_index_offset = of_le (slice 48 56 bs), mh_file_size = of_le (slice 56 64 bs)\<rparr>"

definition meta_header_validate :: "meta_header \<Rightarrow> (format_error, unit) res" where
  "meta_header_validate h =
     (if mh_magic h \<noteq> META_MAGIC then Err (BadMagic META_MAGIC (mh_magic h))
      else if mh_version h \<noteq> FORMAT_VERSION then Err (BadVersion FORMAT_VERSION (mh_version h))
      else rbind (time_type_from_id (mh_time_type h)) (\<lambda>_. Ok ()))"

definition meta_header_from_bytes :: "bytes \<Rightarrow> (format_error, meta_header) res" where
  "meta_header_from_bytes bs =
     (if length bs < HEADER_SIZE then Err (SizeMismatch HEADER_SIZE (length bs))
      else let h = meta_header_read (slice 0 HEADER_SIZE bs)
           in rbind (meta_header_validate h) (\<lambda>_. Ok h))"

definition meta_time_type :: "meta_header \<Rightarrow> (format_error, time_type) res" where
  "meta_time_type h = time_type_from_id (mh_time_type h)"

definition meta_time_type_size :: "meta_header \<Rightarrow> nat" where
  "meta_time_type_size h = (case meta_time_type h of Ok t \<Rightarrow> time_size_of t | _ \<Rightarrow> 0)"

subsection \<open>\<open>meta.rs\<close>: \<open>SymIndexRecord\<close>\<close>

record sym_record =
  sr_time_start :: u32
  sr_time_count :: u32
  sr_row_start :: u32

definition SYM_INDEX_RECORD_SIZE :: nat where
  "SYM_INDEX_RECORD_SIZE = 12"

definition sym_record_to_bytes :: "sym_record \<Rightarrow> bytes" where
  "sym_record_to_bytes r =
     le_bytes 4 (sr_time_start r) @ le_bytes 4 (sr_time_count r) @ le_bytes 4 (sr_row_start r)"

definition sym_record_from_bytes :: "bytes \<Rightarrow> (format_error, sym_record) res" where
  "sym_record_from_bytes bs =
     (if length bs < SYM_INDEX_RECORD_SIZE
      then Err (SizeMismatch SYM_INDEX_RECORD_SIZE (length bs))
      else Ok \<lparr>sr_time_start = of_le (slice 0 4 bs), sr_time_count = of_le (slice 4 8 bs),
               sr_row_start = of_le (slice 8 12 bs)\<rparr>)"

text \<open>The three queries of a record; \<open>u32\<close> addition wraps in a release build.\<close>

definition sym_row_range :: "sym_record \<Rightarrow> u32 \<times> u32" where
  "sym_row_range r = (sr_row_start r, sr_row_start r + sr_time_count r)"

definition sym_contains_time :: "sym_record \<Rightarrow> u32 \<Rightarrow> bool" where
  "sym_contains_time r t \<longleftrightarrow> sr_time_start r \<le> t \<and> t < sr_time_start r + sr_time_count r"

definition sym_global_row :: "sym_record \<Rightarrow> u32 \<Rightarrow> u32 option" where
  "sym_global_row r t =
     (if sym_contains_time r t then Some (sr_row_start r + (t - sr_time_start r)) else None)"

subsection \<open>\<open>field.rs\<close>: \<open>FieldHeader\<close>\<close>

record field_header =
  fh_magic :: u64
  fh_version :: u16
  fh_flags :: u16
  fh_data_type :: u8
  fh_encoding :: u8
  fh_compression :: u8
  fh_reserved0 :: u8
  fh_generation :: u64
  fh_row_count :: u32
  fh_null_count :: u32
  fh_reserved1 :: u32
  fh_reserved2 :: u32
  fh_data_length :: u64
  fh_validity_offset :: u64
  fh_reserved3 :: u64

definition FIELD_FLAGS_HAS_VALIDITY :: u16 where
  "FIELD_FLAGS_HAS_VALIDITY = 1"

definition field_header_new_uncompressed ::
  "data_type \<Rightarrow> u64 \<Rightarrow> u32 \<Rightarrow> u32 \<Rightarrow> bool \<Rightarrow> field_header" where
  "field_header_new_uncompressed dt generation row_count null_count has_validity =
   (let data_length = (ucast row_count :: u64) * of_nat (size_of dt);
        validity_offset = (if has_validity then 64 + data_length else 0)
    in \<lparr>fh_magic = FIELD_MAGIC, fh_version = FORMAT_VERSION,
        fh_flags = (if has_validity then FIELD_FLAGS_HAS_VALIDITY else 0),
        fh_data_type = data_type_id dt, fh_encoding = encoding_id Plain,
        fh_compression = compression_id CNone, fh_reserved0 = 0, fh_generation = generation,
        fh_row_count = row_count, fh_null_count = null_count, fh_reserved1 = 0,
        fh_reserved2 = 0, fh_data_length = data_length, fh_validity_offset = validity_offset,
        fh_reserved3 = 0\<rparr>)"

definition field_header_to_bytes :: "field_header \<Rightarrow> bytes" where
  "field_header_to_bytes h =
     le_bytes 8 (fh_magic h) @ le_bytes 2 (fh_version h) @ le_bytes 2 (fh_flags h) @
     [fh_data_type h, fh_encoding h, fh_compression h, fh_reserved0 h] @
     le_bytes 8 (fh_generation h) @ le_bytes 4 (fh_row_count h) @ le_bytes 4 (fh_null_count h) @
     le_bytes 4 (fh_reserved1 h) @ le_bytes 4 (fh_reserved2 h) @
     le_bytes 8 (fh_data_length h) @ le_bytes 8 (fh_validity_offset h) @
     le_bytes 8 (fh_reserved3 h)"

definition field_header_read :: "bytes \<Rightarrow> field_header" where
  "field_header_read bs =
   \<lparr>fh_magic = of_le (slice 0 8 bs), fh_version = of_le (slice 8 10 bs),
    fh_flags = of_le (slice 10 12 bs), fh_data_type = bs ! 12, fh_encoding = bs ! 13,
    fh_compression = bs ! 14, fh_reserved0 = bs ! 15, fh_generation = of_le (slice 16 24 bs),
    fh_row_count = of_le (slice 24 28 bs), fh_null_count = of_le (slice 28 32 bs),
    fh_reserved1 = of_le (slice 32 36 bs), fh_reserved2 = of_le (slice 36 40 bs),
    fh_data_length = of_le (slice 40 48 bs), fh_validity_offset = of_le (slice 48 56 bs),
    fh_reserved3 = of_le (slice 56 64 bs)\<rparr>"

definition field_header_validate :: "field_header \<Rightarrow> (format_error, unit) res" where
  "field_header_validate h =
     (if fh_magic h \<noteq> FIELD_MAGIC then Err (BadMagic FIELD_MAGIC (fh_magic h))
      else if fh_version h \<noteq> FORMAT_VERSION then Err (BadVersion FORMAT_VERSION (fh_version h))
      else rbind (data_type_from_id (fh_data_type h)) (\<lambda>_.
           rbind (encoding_from_id (fh_encoding h)) (\<lambda>_.
           rbind (compression_from_id (fh_compression h)) (\<lambda>_. Ok ()))))"

definition field_header_from_bytes :: "bytes \<Rightarrow> (format_error, field_header) res" where
  "field_header_from_bytes bs =
     (if length bs < HEADER_SIZE then Err (SizeMismatch HEADER_SIZE (length bs))
      else let h = field_header_read (slice 0 HEADER_SIZE bs)
           in rbind (field_header_validate h) (\<lambda>_. Ok h))"

definition field_data_type :: "field_header \<Rightarrow> (format_error, data_type) res" where
  "field_data_type h = data_type_from_id (fh_data_type h)"

definition field_encoding :: "field_header \<Rightarrow> (format_error, encoding) res" where
  "field_encoding h = encoding_from_id (fh_encoding h)"

definition field_compression :: "field_header \<Rightarrow> (format_error, compression) res" where
  "field_compression h = compression_from_id (fh_compression h)"

definition has_validity :: "field_header \<Rightarrow> bool" where
  "has_validity h \<longleftrightarrow> fh_flags h AND FIELD_FLAGS_HAS_VALIDITY \<noteq> 0"

definition set_has_validity :: "bool \<Rightarrow> field_header \<Rightarrow> field_header" where
  "set_has_validity v h =
     (if v then h\<lparr>fh_flags := fh_flags h OR FIELD_FLAGS_HAS_VALIDITY\<rparr>
      else h\<lparr>fh_flags := fh_flags h AND NOT FIELD_FLAGS_HAS_VALIDITY\<rparr>)"

definition field_validity_size :: "field_header \<Rightarrow> nat" where
  "field_validity_size h = (if has_validity h then validity_size (unat (fh_row_count h)) else 0)"

definition is_chunked :: "field_header \<Rightarrow> bool" where
  "is_chunked h \<longleftrightarrow>
     fh_encoding h \<noteq> encoding_id Plain \<or> fh_compression h \<noteq> compression_id CNone"

definition is_all_null :: "field_header \<Rightarrow> bool" where
  "is_all_null h \<longleftrightarrow> 0 < fh_row_count h \<and> fh_null_count h = fh_row_count h"

subsection \<open>The contract of a fixed-size record\<close>

text \<open>
  What a reader needs of \<open>to_bytes\<close>/\<open>from_bytes\<close>: the image has a fixed size, a valid
  record is read back from any byte string that starts with its image, anything accepted is the
  image of a valid record, and a short input is the error \<open>short\<close>.
\<close>

locale pod_format =
  fixes to_b :: "'h \<Rightarrow> bytes"
    and from_b :: "bytes \<Rightarrow> ('e, 'h) res"
    and ok :: "'h \<Rightarrow> bool"
    and size :: nat
    and short :: "nat \<Rightarrow> 'e"
  assumes len: "length (to_b h) = size"
    and read_back: "ok h \<Longrightarrow> from_b (to_b h @ rest) = Ok h"
    and accepted: "from_b bs = Ok h \<Longrightarrow> ok h \<and> size \<le> length bs \<and> take size bs = to_b h"
    and truncated: "length bs < size \<Longrightarrow> from_b bs = Err (short (length bs))"
begin

lemma from_to: "ok h \<Longrightarrow> from_b (to_b h) = Ok h"
  using read_back[of h "[]"] by simp

lemma to_inj: "ok h \<Longrightarrow> ok h' \<Longrightarrow> to_b h = to_b h' \<Longrightarrow> h = h'"
  by (metis from_to res.inject(1))

lemma from_Ok_iff: "from_b bs = Ok h \<longleftrightarrow> ok h \<and> (\<exists>rest. bs = to_b h @ rest)"
  using accepted[of bs h] read_back[of h] by (metis append_take_drop_id)

lemma to_from: "from_b bs = Ok h \<Longrightarrow> length bs = size \<Longrightarrow> to_b h = bs"
  using accepted[of bs h] by simp

lemma prefix_only: "from_b bs = Ok h \<Longrightarrow> from_b (bs @ rest) = Ok h"
  by (auto simp: from_Ok_iff)

text \<open>A sequence of records stored back to back is read record by record.\<close>

lemma read_nth:
  assumes "\<forall>h \<in> set hs. ok h" "i < length hs"
  shows "from_b (drop (i * size) (concat (map to_b hs) @ rest)) = Ok (hs ! i)"
  using assms
proof (induction hs arbitrary: i)
  case (Cons h hs)
  show ?case
  proof (cases i)
    case 0
    with Cons.prems show ?thesis by (simp add: read_back)
  next
    case (Suc j)
    with Cons show ?thesis by (simp add: len)
  qed
qed simp

lemma length_concat: "length (concat (map to_b hs)) = length hs * size"
  by (induction hs) (simp_all add: len)

end

subsection \<open>The three interpretations\<close>

lemmas header_consts = HEADER_SIZE_def SYM_INDEX_RECORD_SIZE_def

lemma length_meta_header_to_bytes [simp]: "length (meta_header_to_bytes h) = 64"
  by (simp add: meta_header_to_bytes_def)

lemma length_field_header_to_bytes [simp]: "length (field_header_to_bytes h) = 64"
  by (simp add: field_header_to_bytes_def)

lemma length_sym_record_to_bytes [simp]: "length (sym_record_to_bytes h) = 12"
  by (simp add: sym_record_to_bytes_def)

lemma slice_append_cong:
  "slice lo hi (xs @ ys) =
     (if length xs \<le> lo then slice (lo - length xs) (hi - length xs) ys
      else if hi \<le> length xs then slice lo hi xs
      else slice lo (length xs) xs @ slice 0 (hi - length xs) ys)"
  by (auto simp: slice_def)

lemma slice_Cons_cong:
  "slice lo hi (x # xs) =
     (if lo = 0 then (if hi = 0 then [] else x # slice 0 (hi - 1) xs)
      else slice (lo - 1) (hi - 1) xs)"
  by (cases lo; cases hi) (simp_all add: slice_def)

lemma le_bytes_slice:
  "n = hi - lo \<Longrightarrow> 8 * n \<le> LENGTH('a) \<Longrightarrow> hi \<le> length bs \<Longrightarrow>
   le_bytes n (of_le (slice lo hi bs) :: 'a::len word) = slice lo hi bs"
  using le_bytes_of_le[of "slice lo hi bs", where 'a = 'a] by simp

lemma nth_slice_join:
  "j = Suc i \<Longrightarrow> j \<le> hi \<Longrightarrow> hi \<le> length bs \<Longrightarrow> bs ! i # slice j hi bs = slice i hi bs"
  by (simp add: slice_def Suc_diff_Suc[symmetric] Cons_nth_drop_Suc[symmetric])

lemma slice_all: "hi = length xs \<Longrightarrow> slice 0 hi xs = xs"
  by simp

lemmas read_image = slice_all slice_append_cong slice_Cons_cong nth_append nth_Cons'
lemmas image_read = le_bytes_slice nth_slice_join slice_join

lemma meta_header_read_to_bytes [simp]: "meta_header_read (meta_header_to_bytes h) = h"
  by (cases h) (simp add: meta_header_read_def meta_header_to_bytes_def read_image)

lemma meta_header_to_bytes_read:
  "length bs = 64 \<Longrightarrow> meta_header_to_bytes (meta_header_read bs) = bs"
  by (simp add: meta_header_read_def meta_header_to_bytes_def image_read)
     (metis slice_full)

lemma field_header_read_to_bytes [simp]: "field_header_read (field_header_to_bytes h) = h"
  by (cases h) (simp add: field_header_read_def field_header_to_bytes_def read_image)

lemma field_header_to_bytes_read:
  "length bs = 64 \<Longrightarrow> field_header_to_bytes (field_header_read bs) = bs"
  by (simp add: field_header_read_def field_header_to_bytes_def image_read)
     (metis slice_full)

definition meta_header_ok :: "meta_header \<Rightarrow> bool" where
  "meta_header_ok h \<longleftrightarrow> meta_header_validate h = Ok ()"

definition field_header_ok :: "field_header \<Rightarrow> bool" where
  "field_header_ok h \<longleftrightarrow> field_header_validate h = Ok ()"

lemma meta_header_ok_iff:
  "meta_header_ok h \<longleftrightarrow> mh_magic h = META_MAGIC \<and> mh_version h = FORMAT_VERSION \<and>
     (\<exists>t. mh_time_type h = time_type_id t)"
  by (auto simp: meta_header_ok_def meta_header_validate_def res_simps time_type_from_id_Ok)

lemma field_header_ok_iff:
  "field_header_ok h \<longleftrightarrow> fh_magic h = FIELD_MAGIC \<and> fh_version h = FORMAT_VERSION \<and>
     (\<exists>d. fh_data_type h = data_type_id d) \<and> (\<exists>e. fh_encoding h = encoding_id e) \<and>
     (\<exists>c. fh_compression h = compression_id c)"
  by (auto simp: field_header_ok_def field_header_validate_def res_simps data_type_from_id_Ok
      encoding_from_id_Ok compression_from_id_Ok)

lemma take_64_slice: "take 64 bs = slice 0 64 bs"
  by (simp add: slice_def)

interpretation meta_pod: pod_format meta_header_to_bytes meta_header_from_bytes meta_header_ok
  HEADER_SIZE "SizeMismatch HEADER_SIZE"
proof unfold_locales
  fix bs h assume "meta_header_from_bytes bs = Ok h"
  then have "meta_header_validate h = Ok ()" "64 \<le> length bs" "h = meta_header_read (slice 0 64 bs)"
    by (auto simp: meta_header_from_bytes_def header_consts Let_def res_simps split: if_splits)
  then show "meta_header_ok h \<and> HEADER_SIZE \<le> length bs \<and>
      take HEADER_SIZE bs = meta_header_to_bytes h"
    by (simp add: meta_header_ok_def header_consts take_64_slice meta_header_to_bytes_read)
qed (auto simp: meta_header_from_bytes_def meta_header_ok_def header_consts Let_def)

interpretation field_pod: pod_format field_header_to_bytes field_header_from_bytes field_header_ok
  HEADER_SIZE "SizeMismatch HEADER_SIZE"
proof unfold_locales
  fix bs h assume "field_header_from_bytes bs = Ok h"
  then have "field_header_validate h = Ok ()" "64 \<le> length bs"
      "h = field_header_read (slice 0 64 bs)"
    by (auto simp: field_header_from_bytes_def header_consts Let_def res_simps split: if_splits)
  then show "field_header_ok h \<and> HEADER_SIZE \<le> length bs \<and>
      take HEADER_SIZE bs = field_header_to_bytes h"
    by (simp add: field_header_ok_def header_consts take_64_slice field_header_to_bytes_read)
qed (auto simp: field_header_from_bytes_def field_header_ok_def header_consts Let_def)

interpretation sym_pod: pod_format sym_record_to_bytes sym_record_from_bytes "\<lambda>_. True"
  SYM_INDEX_RECORD_SIZE "SizeMismatch SYM_INDEX_RECORD_SIZE"
proof unfold_locales
  fix h :: sym_record and rest
  show "sym_record_from_bytes (sym_record_to_bytes h @ rest) = Ok h"
    by (cases h) (simp add: sym_record_from_bytes_def sym_record_to_bytes_def header_consts read_image)
next
  fix bs h assume "sym_record_from_bytes bs = Ok h"
  then have "12 \<le> length bs" and h: "h = \<lparr>sr_time_start = of_le (slice 0 4 bs),
      sr_time_count = of_le (slice 4 8 bs), sr_row_start = of_le (slice 8 12 bs)\<rparr>"
    by (auto simp: sym_record_from_bytes_def header_consts split: if_splits)
  then show "True \<and> SYM_INDEX_RECORD_SIZE \<le> length bs \<and>
      take SYM_INDEX_RECORD_SIZE bs = sym_record_to_bytes h"
    by (simp add: sym_record_to_bytes_def header_consts image_read) (simp add: slice_def)
qed (simp_all add: sym_record_from_bytes_def header_consts)

subsection \<open>Flags and derived facts of a FIELD header\<close>

lemma has_validity_bit: "has_validity h \<longleftrightarrow> bit (fh_flags h) 0"
  by (simp add: has_validity_def FIELD_FLAGS_HAS_VALIDITY_def and_one_eq bit_0 odd_iff_mod_2_eq_one)

lemma has_validity_set [simp]: "has_validity (set_has_validity v h) = v"
  by (simp add: has_validity_bit set_has_validity_def FIELD_FLAGS_HAS_VALIDITY_def bit_simps)

lemma set_has_validity_simps [simp]:
  "fh_magic (set_has_validity v h) = fh_magic h"
  "fh_version (set_has_validity v h) = fh_version h"
  "fh_data_type (set_has_validity v h) = fh_data_type h"
  "fh_encoding (set_has_validity v h) = fh_encoding h"
  "fh_compression (set_has_validity v h) = fh_compression h"
  "fh_generation (set_has_validity v h) = fh_generation h"
  "fh_row_count (set_has_validity v h) = fh_row_count h"
  "fh_null_count (set_has_validity v h) = fh_null_count h"
  "fh_data_length (set_has_validity v h) = fh_data_length h"
  by (simp_all add: set_has_validity_def)

lemma new_uncompressed_ok [simp]:
  "field_header_ok (field_header_new_uncompressed dt g r n v)"
  by (auto simp: field_header_ok_iff field_header_new_uncompressed_def Let_def
      intro: encoding_id.simps(1) compression_id.simps(1))

lemma new_uncompressed_simps [simp]:
  "fh_data_type (field_header_new_uncompressed dt g r n v) = data_type_id dt"
  "fh_encoding (field_header_new_uncompressed dt g r n v) = encoding_id Plain"
  "fh_compression (field_header_new_uncompressed dt g r n v) = compression_id CNone"
  "fh_generation (field_header_new_uncompressed dt g r n v) = g"
  "fh_row_count (field_header_new_uncompressed dt g r n v) = r"
  "fh_null_count (field_header_new_uncompressed dt g r n v) = n"
  "has_validity (field_header_new_uncompressed dt g r n v) = v"
  "\<not> is_chunked (field_header_new_uncompressed dt g r n v)"
  by (simp_all add: field_header_new_uncompressed_def Let_def has_validity_bit is_chunked_def
      FIELD_FLAGS_HAS_VALIDITY_def)

lemma unat_ucast_u32_u64 [simp]: "unat (ucast (w :: u32) :: u64) = unat w"
  using unsigned_less[of w, where 'a = nat]
  by (simp add: unsigned_ucast_eq take_bit_nat_eq_self)

lemma new_uncompressed_data_length:
  "unat (fh_data_length (field_header_new_uncompressed dt g r n v)) = unat r * size_of dt"
proof -
  have "unat r * size_of dt < 2 ^ 32 * 2 ^ 4"
    by (rule mult_strict_mono)
       (use unsigned_less[of r, where 'a = nat] le_less_trans[OF size_of_le_8[of dt]] in auto)
  moreover have "size_of dt mod 18446744073709551616 = size_of dt"
    by (simp add: le_less_trans[OF size_of_le_8])
  ultimately show ?thesis
    by (simp add: field_header_new_uncompressed_def Let_def unat_word_ariths unat_of_nat)
qed

text \<open>
  A record's row mapping, on the \<open>u32\<close> values. Without the no-overflow premise the
  comparison in \<open>contains_time\<close> is against a wrapped sum.
\<close>

definition sym_fits :: "sym_record \<Rightarrow> bool" where
  "sym_fits r \<longleftrightarrow> unat (sr_time_start r) + unat (sr_time_count r) \<le> u32_max \<and>
                unat (sr_row_start r) + unat (sr_time_count r) \<le> u32_max"

lemma unat_add_u32: "unat a + unat b \<le> u32_max \<Longrightarrow> unat (a + b :: u32) = unat a + unat b"
  by (simp add: unat_word_ariths)

lemma sym_global_row_value:
  assumes "sym_fits r"
  shows "sym_global_row r t =
     (if unat (sr_time_start r) \<le> unat t \<and>
         unat t < unat (sr_time_start r) + unat (sr_time_count r)
      then Some (of_nat (unat (sr_row_start r) + (unat t - unat (sr_time_start r)))) else None)"
proof -
  have c: "sym_contains_time r t \<longleftrightarrow> unat (sr_time_start r) \<le> unat t \<and>
      unat t < unat (sr_time_start r) + unat (sr_time_count r)"
    using assms by (simp add: sym_contains_time_def sym_fits_def word_le_nat_alt word_less_nat_alt
        unat_add_u32)
  show ?thesis
  proof (cases "sym_contains_time r t")
    case True
    then have "sr_time_start r \<le> t" using c by (simp add: word_le_nat_alt)
    then have "of_nat (unat t - unat (sr_time_start r)) = t - sr_time_start r"
      by (simp add: unat_sub[symmetric])
    with True show ?thesis unfolding c[symmetric] by (simp add: sym_global_row_def)
  next
    case False
    then show ?thesis unfolding c[symmetric] by (simp add: sym_global_row_def)
  qed
qed

subsection \<open>Properties\<close>

text \<open>A META header is accepted exactly when the input starts with the 64-byte image of a
  header with the right magic, version and a known time type: what \<open>to_bytes\<close> wrote is read
  back unchanged whatever follows it, and nothing else is read as that header.\<close>

theorem meta_header_from_bytes_iff:
  "meta_header_from_bytes bs = Ok h \<longleftrightarrow>
     mh_magic h = META_MAGIC \<and> mh_version h = FORMAT_VERSION \<and>
     (\<exists>tt. mh_time_type h = time_type_id tt) \<and> (\<exists>rest. bs = meta_header_to_bytes h @ rest)"
  unfolding meta_pod.from_Ok_iff meta_header_ok_iff by blast

text \<open>C6. A FIELD header is accepted exactly when the input starts with the 64-byte image of a
  header with the right magic and version and known type, encoding and compression tags.\<close>

theorem field_header_from_bytes_iff:
  "field_header_from_bytes bs = Ok h \<longleftrightarrow>
     fh_magic h = FIELD_MAGIC \<and> fh_version h = FORMAT_VERSION \<and>
     (\<exists>dt. fh_data_type h = data_type_id dt) \<and> (\<exists>e. fh_encoding h = encoding_id e) \<and>
     (\<exists>c. fh_compression h = compression_id c) \<and> (\<exists>rest. bs = field_header_to_bytes h @ rest)"
  unfolding field_pod.from_Ok_iff field_header_ok_iff by blast

end
