(* ===== verification/Chunk.thy ===== *)
theory Chunk
  imports Bitpack Headers
begin

text \<open>
  Compression, value encoding and the chunk layout of the crate \<open>splayed-codec\<close>
  (\<open>compression.rs\<close>, \<open>encoding.rs\<close>, \<open>chunk.rs\<close>). The compression libraries are not part of the
  repository: their entry points are the fields of a \<open>codec_backend\<close>, an argument of every
  function that calls them, and \<open>backend_ok\<close> states the documented round trip a theorem relies on.
\<close>

subsection \<open>\<open>compression.rs\<close>\<close>

text \<open>
  \<open>zstd_content_size\<close> is \<open>Some n\<close> where \<open>get_frame_content_size\<close> returns \<open>Ok(Some(n))\<close>. A
  failing call returns its message, and a call may also panic: the size in a frame is an untrusted number
  that the library allocates.
\<close>

record codec_backend =
  zstd_compress :: "bytes \<Rightarrow> int \<Rightarrow> (string, bytes) res"
  zstd_content_size :: "bytes \<Rightarrow> nat option"
  zstd_bulk_decompress :: "bytes \<Rightarrow> nat \<Rightarrow> (string, bytes) res"
  zstd_decode_all :: "bytes \<Rightarrow> (string, bytes) res"
  lz4_compress :: "bytes \<Rightarrow> bytes"
  lz4_decompress :: "bytes \<Rightarrow> (string, bytes) res"

definition DEFAULT_ZSTD_LEVEL :: int where
  "DEFAULT_ZSTD_LEVEL = 1"

fun compress :: "codec_backend \<Rightarrow> compression \<Rightarrow> bytes \<Rightarrow> (codec_error, bytes) res" where
  "compress B CNone d = Ok d"
| "compress B Zstd d = map_err CIo (zstd_compress B d DEFAULT_ZSTD_LEVEL)"
| "compress B Lz4 d = Ok (lz4_compress B d)"

fun decompress :: "codec_backend \<Rightarrow> compression \<Rightarrow> bytes \<Rightarrow> (codec_error, bytes) res" where
  "decompress B CNone p = Ok p"
| "decompress B Zstd p =
     (case zstd_content_size B p of
        Some n \<Rightarrow> map_err CIo (zstd_bulk_decompress B p n)
      | None \<Rightarrow> map_err CIo (zstd_decode_all B p))"
| "decompress B Lz4 p = map_err CIo (lz4_decompress B p)"

definition backend_ok :: "codec_backend \<Rightarrow> bool" where
  "backend_ok B \<longleftrightarrow>
     (\<forall>d p. zstd_compress B d DEFAULT_ZSTD_LEVEL = Ok p \<longrightarrow>
        (case zstd_content_size B p of Some n \<Rightarrow> zstd_bulk_decompress B p n = Ok d
         | None \<Rightarrow> zstd_decode_all B p = Ok d)) \<and>
     (\<forall>d. lz4_decompress B (lz4_compress B d) = Ok d)"

subsection \<open>\<open>encoding.rs\<close>\<close>

definition encode_values ::
  "encoding \<Rightarrow> data_type \<Rightarrow> bytes \<Rightarrow> nat \<Rightarrow> (codec_error, bytes) res" where
  "encode_values e dt values row_count =
     (let expected = row_count * size_of dt
      in if length values \<noteq> expected then Err (RowCountMismatch expected (length values))
         else case e of
           Plain \<Rightarrow> plain_encode values
         | Delta \<Rightarrow> delta_encode dt values
         | Rle \<Rightarrow> rle_encode dt values
         | Bitpack \<Rightarrow> bitpack_encode dt values)"

fun decode_values ::
  "encoding \<Rightarrow> data_type \<Rightarrow> bytes \<Rightarrow> nat \<Rightarrow> (codec_error, bytes) res" where
  "decode_values Plain dt payload row_count = plain_decode payload row_count (size_of dt)"
| "decode_values Delta dt payload row_count = delta_decode dt payload row_count"
| "decode_values Rle dt payload row_count = rle_decode dt payload row_count"
| "decode_values Bitpack dt payload row_count = bitpack_decode dt payload row_count"

definition encode_and_compress ::
  "codec_backend \<Rightarrow> encoding \<Rightarrow> compression \<Rightarrow> data_type \<Rightarrow> bytes \<Rightarrow> nat \<Rightarrow> (codec_error, bytes) res" where
  "encode_and_compress B e c dt values row_count =
     rbind (encode_values e dt values row_count) (\<lambda>encoded. compress B c encoded)"

subsection \<open>\<open>chunk.rs\<close>\<close>

definition CHUNK_HEADER_SIZE :: nat where
  "CHUNK_HEADER_SIZE = 12"

record chunk_header =
  ch_rows :: u32
  ch_values_len :: u32
  ch_payload_len :: u32

definition chunk_header_to_bytes :: "chunk_header \<Rightarrow> bytes" where
  "chunk_header_to_bytes h =
     le_bytes 4 (ch_rows h) @ le_bytes 4 (ch_values_len h) @ le_bytes 4 (ch_payload_len h)"

definition chunk_header_from_bytes :: "bytes \<Rightarrow> (codec_error, chunk_header) res" where
  "chunk_header_from_bytes bs =
     (if length bs < CHUNK_HEADER_SIZE then Err (Truncated CHUNK_HEADER_SIZE (length bs))
      else Ok \<lparr>ch_rows = of_le (slice 0 4 bs), ch_values_len = of_le (slice 4 8 bs),
               ch_payload_len = of_le (slice 8 12 bs)\<rparr>)"

definition encode_chunk ::
  "codec_backend \<Rightarrow> encoding \<Rightarrow> compression \<Rightarrow> data_type \<Rightarrow> bytes \<Rightarrow> bytes option \<Rightarrow> nat \<Rightarrow>
   (codec_error, bytes) res" where
  "encode_chunk B e c dt values validity rows =
     (let expected = rows * size_of dt
      in if length values \<noteq> expected then Err (RowCountMismatch expected (length values))
         else rbind (case validity of None \<Rightarrow> Ok ()
                     | Some bits \<Rightarrow> guard (length bits = validity_size (unat (of_nat rows :: u32)))
                                     (Corrupt ''validity byte length does not match rows'')) (\<lambda>_.
              rbind (encode_values e dt values rows) (\<lambda>encoded.
              let raw = (case validity of None \<Rightarrow> encoded | Some bits \<Rightarrow> encoded @ bits)
              in rbind (compress B c raw) (\<lambda>payload.
                 let header = \<lparr>ch_rows = of_nat rows,
                       ch_values_len = of_nat (length raw - (case validity of None \<Rightarrow> 0 | Some v \<Rightarrow> length v)),
                       ch_payload_len = of_nat (length payload)\<rparr>
                 in Ok (chunk_header_to_bytes header @ payload)))))"

definition decode_chunk ::
  "codec_backend \<Rightarrow> encoding \<Rightarrow> compression \<Rightarrow> data_type \<Rightarrow> bytes \<Rightarrow>
   (codec_error, bytes \<times> bytes option \<times> nat) res" where
  "decode_chunk B e c dt chunk =
     rbind (chunk_header_from_bytes chunk) (\<lambda>header.
       let rows = unat (ch_rows header); payload_len = unat (ch_payload_len header)
       in if length chunk < CHUNK_HEADER_SIZE + payload_len
          then Err (Truncated (CHUNK_HEADER_SIZE + payload_len) (length chunk))
          else rbind (slice_r CHUNK_HEADER_SIZE (CHUNK_HEADER_SIZE + payload_len) chunk) (\<lambda>p.
               rbind (decompress B c p) (\<lambda>raw.
               let values_len = unat (ch_values_len header)
               in if length raw < values_len
                  then Err (Corrupt ''decompressed payload shorter than values_len'')
                  else rbind (decode_values e dt (take values_len raw) rows) (\<lambda>values.
                       let bits_len = length raw - values_len
                       in rbind (if bits_len = 0 then Ok None
                                 else if bits_len = validity_size (unat (ch_rows header))
                                 then Ok (Some (drop values_len raw))
                                 else Err (Corrupt ''validity bit length does not match rows''))
                          (\<lambda>validity. Ok (values, validity, rows))))))"

subsection \<open>The chunk header\<close>

interpretation chunk_pod: pod_format chunk_header_to_bytes chunk_header_from_bytes "\<lambda>_. True"
  CHUNK_HEADER_SIZE "Truncated CHUNK_HEADER_SIZE"
proof unfold_locales
  fix h :: chunk_header and rest
  show "chunk_header_from_bytes (chunk_header_to_bytes h @ rest) = Ok h"
    by (cases h) (simp add: chunk_header_from_bytes_def chunk_header_to_bytes_def CHUNK_HEADER_SIZE_def read_image)
next
  fix bs h assume "chunk_header_from_bytes bs = Ok h"
  then have "12 \<le> length bs" and h: "h = \<lparr>ch_rows = of_le (slice 0 4 bs),
      ch_values_len = of_le (slice 4 8 bs), ch_payload_len = of_le (slice 8 12 bs)\<rparr>"
    by (auto simp: chunk_header_from_bytes_def CHUNK_HEADER_SIZE_def split: if_splits)
  then show "True \<and> CHUNK_HEADER_SIZE \<le> length bs \<and> take CHUNK_HEADER_SIZE bs = chunk_header_to_bytes h"
    by (simp add: chunk_header_to_bytes_def CHUNK_HEADER_SIZE_def image_read) (simp add: slice_def)
qed (simp_all add: chunk_header_from_bytes_def chunk_header_to_bytes_def CHUNK_HEADER_SIZE_def)

subsection \<open>Compression and encoding\<close>

lemma decompress_compress: "backend_ok B \<Longrightarrow> compress B c d = Ok p \<Longrightarrow> decompress B c p = Ok d"
proof (cases c)
  case Zstd
  assume "backend_ok B" "compress B c d = Ok p"
  then have "case zstd_content_size B p of Some n \<Rightarrow> zstd_bulk_decompress B p n = Ok d
      | None \<Rightarrow> zstd_decode_all B p = Ok d" using Zstd by (simp add: backend_ok_def res_simps)
  then show ?thesis using Zstd by (auto simp: res_simps split: option.splits)
qed (auto simp: backend_ok_def)

interpretation codec: value_codec "\<lambda>vs. encode_values e dt vs (length vs div size_of dt)"
    "decode_values e dt" "size_of dt" u32_max for e dt
proof
  fix vs :: bytes and n :: nat
  assume a: "0 < size_of dt" "length vs = n * size_of dt" "n \<le> u32_max"
  show "\<exists>p. encode_values e dt vs (length vs div size_of dt) = Ok p \<and> decode_values e dt p n = Ok vs"
    using plain.encodes[OF a(1,2) le_refl] delta.encodes[OF a(1,2) le_refl]
      rle.encodes[OF a] bitpack.encodes[OF a(1,2) le_refl] a
    by (cases e) (auto simp: encode_values_def)
next
  fix p vs n assume "decode_values e dt p n = Ok vs"
  then show "length vs = n * size_of dt"
    using plain.decoded_length delta.decoded_length rle.decoded_length bitpack.decoded_length
    by (cases e) auto
next
  fix p n show "decode_values e dt p n \<noteq> Panic"
    using plain.decode_no_panic delta.decode_no_panic rle.decode_no_panic bitpack.decode_no_panic
    by (cases e) auto
qed

subsection \<open>Encoded sizes\<close>

lemma length_rle_encode_loop:
  "length vs = n * s \<Longrightarrow> i \<le> n \<Longrightarrow> length (rle_encode_loop vs s n i) \<le> (n - i) * (4 + s)"
proof (induction "n - i" arbitrary: i rule: less_induct)
  case less
  show ?case
  proof (cases "i < n")
    case True
    define r where "r = rle_run vs s n i 1"
    have r: "1 \<le> r" "i + r \<le> n"
      unfolding r_def using rle_run_ge[of 1 vs s n i]
        rle_run_props[where i = i and run = 1 and n = n and vs = vs and s = s] True by simp_all
    have "length (rle_encode_loop vs s n i) = 4 + s + length (rle_encode_loop vs s n (i + r))"
      using True length_item[OF True less.prems(1)]
      by (subst rle_encode_loop.simps) (simp add: r_def Let_def)
    also have "\<dots> \<le> (1 + (n - (i + r))) * (4 + s)" using less r True by simp
    also have "\<dots> \<le> (n - i) * (4 + s)" using r by (intro mult_le_mono1) simp
    finally show ?thesis .
  qed (simp add: rle_encode_loop.simps[of vs s n i])
qed

lemma length_bitpack:
  assumes "bitpack_encode dt vs = Ok p"
  shows "length p \<le> 1 + (length vs div size_of dt * 64 + 7) div 8"
proof -
  let ?n = "length vs div size_of dt"
  let ?m = "map (\<lambda>i. map_to_u64 dt (item vs (size_of dt) i)) [0..<?n]"
  define w where "w = foldl (\<lambda>m v. max m (64 - leading_zeros v)) 0 ?m"
  define buf where "buf = (of_nat w :: u8) # replicate ((?n * w + 7) div 8) 0"
  have w: "w \<le> 64" unfolding w_def by (rule foldl_max_le) simp_all
  have z: "\<not> get_bit buf j" if "8 \<le> j" "j < 8 * length buf" for j
    using that get_bit_Cons[of "of_nat w" "replicate ((?n * w + 7) div 8) 0" "j - 8"] by (simp add: buf_def)
  have l: "length buf = 1 + (?n * w + 7) div 8" by (simp add: buf_def)
  have "p = foldl (\<lambda>out i. write_bits out 1 (i * w) w (?m ! i)) buf [0..<?n]"
    using assms by (auto simp: bitpack_encode_def res_simps Let_def w_def buf_def)
  then have "length p = 1 + (?n * w + 7) div 8"
    using write_all_bits[OF l z le_refl, of "\<lambda>i. ?m ! i"] l by simp
  also have "\<dots> \<le> 1 + (?n * 64 + 7) div 8" using w by (intro add_le_mono div_le_mono) simp_all
  finally show ?thesis .
qed

lemma length_encode_values:
  assumes "encode_values e dt vs n = Ok p" "0 < size_of dt"
  shows "length p \<le> 1 + n * 12"
proof -
  have len: "length vs = n * size_of dt"
    using assms(1) by (simp add: encode_values_def Let_def split: if_splits)
  have s: "n * size_of dt \<le> 1 + n * 12"
    using mult_le_mono2[OF size_of_le_8[of dt], of n] by linarith
  have enc: "(case e of Plain \<Rightarrow> plain_encode vs | Delta \<Rightarrow> delta_encode dt vs
      | Rle \<Rightarrow> rle_encode dt vs | Bitpack \<Rightarrow> bitpack_encode dt vs) = Ok p"
    using assms(1) len by (simp add: encode_values_def)
  show ?thesis
  proof (cases e)
    case Plain
    then show ?thesis using enc len s by (simp add: plain_encode_def)
  next
    case Delta
    then have "length p = n * size_of dt"
      using enc delta_encode_eq[OF assms(2) len] by (auto simp: length_concat comp_def)
    with s show ?thesis by simp
  next
    case Rle
    then have "p = rle_encode_loop vs (size_of dt) n 0"
      using enc len assms(2) by (simp add: rle_encode_def whole_values_Ok)
    then have "length p \<le> n * (4 + size_of dt)"
      using length_rle_encode_loop[OF len, of 0] by simp
    also have "\<dots> \<le> n * 12" by (intro mult_le_mono2) simp
    finally show ?thesis by simp
  next
    case Bitpack
    then have "length p \<le> 1 + (n * 64 + 7) div 8"
      using enc length_bitpack[of dt vs p] len assms(2) by simp
    then show ?thesis by simp
  qed
qed

subsection \<open>Chunks\<close>

lemma encode_chunk_Ok:
  assumes "encode_chunk B e c dt vs val rows = Ok ch" "rows \<le> u32_max"
  obtains encoded payload where
    "length vs = rows * size_of dt" "\<And>bits. val = Some bits \<Longrightarrow> length bits = validity_size rows"
    "encode_values e dt vs rows = Ok encoded"
    "compress B c (encoded @ (case val of None \<Rightarrow> [] | Some bits \<Rightarrow> bits)) = Ok payload"
    "ch = chunk_header_to_bytes \<lparr>ch_rows = of_nat rows, ch_values_len = of_nat (length encoded),
        ch_payload_len = of_nat (length payload)\<rparr> @ payload"
  using assms by (cases val) (auto simp: encode_chunk_def Let_def res_simps split: if_splits)

lemma decode_encode_chunk:
  assumes enc: "encode_chunk B e c dt vs val rows = Ok ch" and B: "backend_ok B" and dt: "dt \<noteq> Utf8"
    and small: "12 * rows < u32_max" "length ch \<le> u32_max" and val: "val \<noteq> None \<Longrightarrow> 0 < rows"
  shows "decode_chunk B e c dt (ch @ rest) = Ok (vs, val, rows)"
proof -
  have rows: "rows \<le> u32_max" using small by simp
  obtain encoded payload where E: "length vs = rows * size_of dt"
    "\<And>bits. val = Some bits \<Longrightarrow> length bits = validity_size rows"
    "encode_values e dt vs rows = Ok encoded"
    "compress B c (encoded @ (case val of None \<Rightarrow> [] | Some bits \<Rightarrow> bits)) = Ok payload"
    "ch = chunk_header_to_bytes \<lparr>ch_rows = of_nat rows, ch_values_len = of_nat (length encoded),
        ch_payload_len = of_nat (length payload)\<rparr> @ payload"
    using encode_chunk_Ok[OF enc rows] by blast
  have w: "0 < size_of dt" using dt by (simp flip: size_of_pos)
  have le: "length encoded \<le> u32_max" using length_encode_values[OF E(3) w] small by simp
  have lp: "length payload \<le> u32_max" using small(2) E(5) by simp
  have hdr: "chunk_header_from_bytes (ch @ rest) = Ok \<lparr>ch_rows = of_nat rows,
      ch_values_len = of_nat (length encoded), ch_payload_len = of_nat (length payload)\<rparr>"
    unfolding E(5) by (simp add: chunk_pod.read_back)
  have lh: "length (chunk_header_to_bytes h) = 12" for h
    using chunk_pod.len by (simp add: CHUNK_HEADER_SIZE_def)
  have sl: "slice 12 (12 + length payload) (ch @ rest) = payload" "12 + length payload \<le> length (ch @ rest)"
    unfolding E(5) using lh by (simp_all add: slice_append_right slice_append_left)
  have dec: "decode_values e dt encoded rows = Ok vs"
    using codec.roundtrip[OF w E(1) rows] E(1,3) w by simp
  have vs0: "validity_size rows = 0 \<longleftrightarrow> rows = 0" by simp
  show ?thesis
    unfolding decode_chunk_def hdr
    using sl rows le lp dec decompress_compress[OF B E(4)] E(2) val vs0
    by (cases val) (auto simp: CHUNK_HEADER_SIZE_def Let_def)
qed

text \<open>Where \<open>decode_chunk\<close> panics; what it accepts is a well-formed column part.\<close>

lemma decode_chunk_Panic:
  "decode_chunk B e c dt ch = Panic \<longleftrightarrow>
    12 \<le> length ch \<and> 12 + unat (of_le (slice 8 12 ch) :: u32) \<le> length ch \<and> decompress B c (slice 12 (12 + unat (of_le (slice 8 12 ch) :: u32)) ch) = Panic"
  using codec.decode_no_panic
  by (auto simp: decode_chunk_def res_simps Let_def chunk_header_from_bytes_def slice_r_def slice_ok_def
      CHUNK_HEADER_SIZE_def split: if_splits)

lemma decode_chunk_ok:
  assumes "decode_chunk B e c dt ch = Ok (vs, val, rows)"
  shows "length vs = rows * size_of dt" "case val of None \<Rightarrow> True | Some bits \<Rightarrow> length bits = validity_size rows"
    "rows \<le> u32_max"
  using assms codec.decoded_length
  by (fastforce simp: decode_chunk_def res_simps Let_def split: if_splits)+

lemma encode_chunk_total:
  assumes "dt \<noteq> Utf8" "length vs = rows * size_of dt" "rows \<le> u32_max"
    "case val of None \<Rightarrow> True | Some bits \<Rightarrow> length bits = validity_size rows" "c \<noteq> Zstd"
  shows "is_ok (encode_chunk B e c dt vs val rows)"
proof -
  have w: "0 < size_of dt" using assms(1) by (simp flip: size_of_pos)
  obtain p where p: "encode_values e dt vs rows = Ok p"
    using codec.encode_total[OF w assms(2,3), of e] w assms(2) by (auto simp: is_ok_iff)
  have "\<exists>q. compress B c d = Ok q" for d using assms(5) by (cases c) auto
  then obtain q where q: "\<And>d. compress B c d = Ok (q d)" by metis
  show ?thesis using assms p q by (cases val) (simp_all add: encode_chunk_def Let_def)
qed

subsection \<open>Properties\<close>

text \<open>C4. Every value encoding (PLAIN, DELTA, RLE, BITPACK) is bit-exact: for any byte pattern of
  \<open>rows\<close> fixed-width values, including the undefined bits of NULL cells, encoding succeeds and
  decoding with the same row count gives the values back.\<close>

theorem values_roundtrip:
  assumes "dt \<noteq> Utf8" "length vs = rows * size_of dt" "rows \<le> u32_max"
  shows "\<exists>p. encode_values e dt vs rows = Ok p \<and> decode_values e dt p rows = Ok vs"
proof -
  have w: "0 < size_of dt" using assms(1) by (simp flip: size_of_pos)
  then have "length vs div size_of dt = rows" using assms(2) by simp
  with codec.encodes[OF w assms(2,3), of e] show ?thesis by simp
qed

theorem values_roundtrip_witness:
  "\<exists>p. encode_values Bitpack Int16 [0xFF, 0xFF, 3, 0, 3, 0] 3 = Ok p \<and>
       decode_values Bitpack Int16 p 3 = Ok [0xFF, 0xFF, 3, 0, 3, 0]"
  using values_roundtrip[of Int16 "[0xFF, 0xFF, 3, 0, 3, 0]" 3 Bitpack] by simp

text \<open>C1. A chunk that \<open>encode_chunk\<close> wrote is decoded, whatever bytes follow it, to the values,
  validity bits and row count it was made from, for every encoding and compression, given the
  documented round trip of the compression library and sizes that fit the header's 32-bit fields.
  (A chunk of no rows loses an empty validity part, so validity needs at least one row.)\<close>

theorem chunk_roundtrip:
  assumes "encode_chunk B e c dt vs val rows = Ok ch" "backend_ok B" "dt \<noteq> Utf8"
    "12 * rows < u32_max" "length ch \<le> u32_max" "val \<noteq> None \<Longrightarrow> 0 < rows"
  shows "decode_chunk B e c dt (ch @ rest) = Ok (vs, val, rows)"
  using decode_encode_chunk[OF assms] .

definition example_backend :: codec_backend where
  "example_backend = \<lparr>zstd_compress = (\<lambda>d l. Ok (0x28 # d)), zstd_content_size = (\<lambda>p. Some (length p - 1)),
     zstd_bulk_decompress = (\<lambda>p n. if length p = n + 1 then Ok (tl p) else Err ''bad frame''),
     zstd_decode_all = (\<lambda>p. Ok (tl p)), lz4_compress = rev, lz4_decompress = (\<lambda>p. Ok (rev p))\<rparr>"

theorem chunk_roundtrip_witness:
  "\<exists>ch. encode_chunk example_backend Rle Zstd Int8 [7, 7, 9] (Some [0x05]) 3 = Ok ch \<and>
     decode_chunk example_backend Rle Zstd Int8 (ch @ [1, 2]) = Ok ([7, 7, 9], Some [0x05], 3)"
proof -
  define ch :: bytes where "ch = [3, 0, 0, 0, 10, 0, 0, 0, 12, 0, 0, 0, 0x28, 2, 0, 0, 0, 7, 1, 0, 0, 0, 9, 5]"
  have "encode_chunk example_backend Rle Zstd Int8 [7, 7, 9] (Some [0x05]) 3 = Ok ch"
    unfolding ch_def by code_simp
  moreover have "backend_ok example_backend" by (auto simp: backend_ok_def example_backend_def)
  moreover have "length ch \<le> u32_max" by (simp add: ch_def)
  ultimately show ?thesis
    using chunk_roundtrip[of example_backend Rle Zstd Int8 "[7, 7, 9]" "Some [0x05]" 3 ch "[1, 2]"] by simp
qed


end
