(* ===== verification/Ranges.thy ===== *)
theory Ranges
  imports Value_Codecs "HOL-Library.Product_Lexorder"
begin

text \<open>
  Row ranges (\<open>splayed-core/src/scan.rs\<close>) and the core's errors (\<open>error.rs\<close>). Offsets and
  lengths are \<open>u64\<close> values kept as naturals below \<open>2 ^ 64\<close>; the one addition that can overflow,
  \<open>end()\<close>, and the subtraction that depends on it wrap explicitly. A range stands for the set of
  its rows; \<open>merge_ranges\<close> and \<open>clamp_ranges\<close> are described by what they do to that set.
\<close>

subsection \<open>\<open>error.rs\<close>\<close>

text \<open>\<open>std::io::Error\<close> is represented by its message, a path by its string.\<close>

datatype core_error =
    EFormat format_error
  | ECodec codec_error
  | EIo string
  | Invalid string
  | InvalidState string
  | NotFound string
  | AlreadyExists string
  | NonContiguousTime bytes

datatype mode = Read | Write

fun require_write :: "mode \<Rightarrow> (core_error, unit) res" where
  "require_write Write = Ok ()"
| "require_write Read = Err (InvalidState ''requires a write-mode handle'')"

subsection \<open>\<open>RowRange\<close>\<close>

record row_range =
  rr_offset :: nat
  rr_length :: nat

definition rr_new :: "nat \<Rightarrow> nat \<Rightarrow> row_range" where
  "rr_new offset len = \<lparr>rr_offset = offset, rr_length = len\<rparr>"

definition rr_end :: "row_range \<Rightarrow> nat" where
  "rr_end r = (rr_offset r + rr_length r) mod 2 ^ 64"

definition rr_intersect :: "row_range \<Rightarrow> row_range \<Rightarrow> row_range option" where
  "rr_intersect r other =
     (let start = max (rr_offset r) (rr_offset other); fin = min (rr_end r) (rr_end other)
      in if start < fin then Some (rr_new start (fin - start)) else None)"

definition rr_contains :: "row_range \<Rightarrow> nat \<Rightarrow> bool" where
  "rr_contains r row \<longleftrightarrow> rr_offset r \<le> row \<and> row < rr_end r"

text \<open>The loop of \<open>merge_ranges\<close>; \<open>out\<close> is kept with its last element first.\<close>

definition u64_sub :: "nat \<Rightarrow> nat \<Rightarrow> nat" where
  "u64_sub a b = (if b \<le> a then a - b else a + 2 ^ 64 - b)"

fun merge_step :: "row_range list \<Rightarrow> row_range \<Rightarrow> row_range list" where
  "merge_step [] r = [r]"
| "merge_step (prev # out) r =
     (if rr_offset r \<le> rr_end prev
      then prev\<lparr>rr_length := max (rr_length prev) (u64_sub (rr_end r) (rr_offset prev))\<rparr> # out
      else r # prev # out)"

definition merge_ranges :: "row_range list \<Rightarrow> row_range list" where
  "merge_ranges ranges =
     (if length ranges \<le> 1 then ranges
      else rev (foldl merge_step [] (sort_key (\<lambda>r. (rr_offset r, rr_end r)) ranges)))"

definition clamp_ranges :: "row_range list \<Rightarrow> nat \<Rightarrow> row_range list" where
  "clamp_ranges ranges bound =
     (let source = (if ranges = [] then [rr_new 0 bound] else ranges)
      in merge_ranges (List.map_filter (\<lambda>r. rr_intersect r (rr_new 0 bound)) source))"

subsection \<open>Ranges as sets of rows\<close>

definition rr_fits :: "row_range \<Rightarrow> bool" where
  "rr_fits r \<longleftrightarrow> rr_offset r + rr_length r < 2 ^ 64"

definition rows_of :: "row_range \<Rightarrow> nat set" where
  "rows_of r = {rr_offset r..<rr_offset r + rr_length r}"

definition rows_all :: "row_range list \<Rightarrow> nat set" where
  "rows_all rs = (\<Union>r \<in> set rs. rows_of r)"

text \<open>Sorted, with a gap between neighbours.\<close>

fun separated :: "row_range list \<Rightarrow> bool" where
  "separated (a # b # rs) \<longleftrightarrow> rr_offset a + rr_length a < rr_offset b \<and> separated (b # rs)"
| "separated _ \<longleftrightarrow> True"

lemma rr_end_fits [simp]: "rr_fits r \<Longrightarrow> rr_end r = rr_offset r + rr_length r"
  by (simp add: rr_end_def rr_fits_def)

lemma rr_new_sel [simp]: "rr_offset (rr_new a b) = a" "rr_length (rr_new a b) = b"
  by (simp_all add: rr_new_def)

lemma rows_all_simps [simp]:
  "rows_all [] = {}" "rows_all (r # rs) = rows_of r \<union> rows_all rs"
  "rows_all (rs @ ss) = rows_all rs \<union> rows_all ss" "rows_all (rev rs) = rows_all rs"
  by (auto simp: rows_all_def)

lemma rr_contains_iff: "rr_fits r \<Longrightarrow> rr_contains r row \<longleftrightarrow> row \<in> rows_of r"
  by (simp add: rr_contains_def rows_of_def)

lemma rr_intersect_rows:
  assumes "rr_fits a" "rr_fits b"
  shows "(case rr_intersect a b of None \<Rightarrow> {} | Some r \<Rightarrow> rows_of r) = rows_of a \<inter> rows_of b"
  using assms by (auto simp: rr_intersect_def Let_def rows_of_def)

lemma rr_intersect_Some:
  assumes "rr_fits a" "rr_fits b" "rr_intersect a b = Some r"
  shows "rr_fits r" "0 < rr_length r" "rows_of r = rows_of a \<inter> rows_of b"
  using assms rr_intersect_rows[OF assms(1,2)]
  by (auto simp: rr_intersect_def Let_def rr_fits_def split: if_splits)

lemma rr_intersect_None: "rr_fits a \<Longrightarrow> rr_fits b \<Longrightarrow> rr_intersect a b = None \<Longrightarrow> rows_of a \<inter> rows_of b = {}"
  using rr_intersect_rows[of a b] by simp

subsection \<open>Merging\<close>

lemma separated_append_one:
  "separated (xs @ [a]) \<Longrightarrow> rr_offset a + rr_length a < rr_offset b \<Longrightarrow> separated (xs @ [a, b])"
  by (induction xs rule: separated.induct) auto

lemma separated_snoc_offset:
  "separated (xs @ [a]) \<Longrightarrow> rr_offset b = rr_offset a \<Longrightarrow> separated (xs @ [b])"
  by (induction xs rule: separated.induct) auto

definition merge_inv :: "row_range list \<Rightarrow> nat \<Rightarrow> bool" where
  "merge_inv out lo \<longleftrightarrow> (\<forall>x \<in> set out. rr_fits x) \<and> separated (rev out) \<and>
     (out = [] \<or> rr_offset (hd out) \<le> lo)"

definition all_nonempty :: "row_range list \<Rightarrow> bool" where
  "all_nonempty rs \<longleftrightarrow> (\<forall>r \<in> set rs. 0 < rr_length r)"

lemma merge_step_props:
  assumes "rr_fits r" "merge_inv out (rr_offset r)"
  shows "merge_inv (merge_step out r) (rr_offset r)"
    "rows_all (merge_step out r) = rows_all out \<union> rows_of r"
    "0 < rr_length r \<Longrightarrow> all_nonempty out \<Longrightarrow> all_nonempty (merge_step out r)"
proof -
  have "merge_inv (merge_step out r) (rr_offset r) \<and>
    rows_all (merge_step out r) = rows_all out \<union> rows_of r \<and>
    (0 < rr_length r \<longrightarrow> all_nonempty out \<longrightarrow> all_nonempty (merge_step out r))"
  proof (cases out)
    case Nil
    with assms show ?thesis by (simp add: merge_inv_def all_nonempty_def)
  next
    case (Cons prev rest)
    have fp: "rr_fits prev" and sep: "separated (rev rest @ [prev])" and le: "rr_offset prev \<le> rr_offset r"
      and fr: "\<forall>x \<in> set rest. rr_fits x"
      using assms(2) Cons by (simp_all add: merge_inv_def)
    show ?thesis
    proof (cases "rr_offset r \<le> rr_end prev")
      case True
      define l where "l = prev\<lparr>rr_length := max (rr_length prev) (u64_sub (rr_end r) (rr_offset prev))\<rparr>"
      have sub: "u64_sub (rr_end r) (rr_offset prev) = rr_offset r + rr_length r - rr_offset prev"
        using assms(1) le by (simp add: u64_sub_def)
      have off: "rr_offset l = rr_offset prev" by (simp add: l_def)
      have len: "rr_length l = max (rr_length prev) (rr_offset r + rr_length r - rr_offset prev)"
        by (simp add: l_def sub)
      have "rr_offset l + rr_length l = max (rr_offset prev + rr_length prev) (rr_offset r + rr_length r)"
        using le by (simp add: off len)
      then have "rows_of l = rows_of prev \<union> rows_of r"
        using True fp le by (simp add: rows_of_def off) (auto simp: max_def)
      moreover have "rr_fits l" using fp assms(1) le by (simp add: rr_fits_def off len)
      moreover have "separated (rev rest @ [l])" by (rule separated_snoc_offset[OF sep off])
      moreover have "merge_step out r = l # rest" using True Cons by (simp add: l_def)
      ultimately show ?thesis using Cons fr off le
        by (simp add: merge_inv_def all_nonempty_def len Un_ac less_max_iff_disj)
    next
      case False
      then have "separated (rev rest @ [prev, r])" using fp by (intro separated_append_one[OF sep]) simp
      with False Cons assms(1) fp fr show ?thesis by (auto simp: merge_inv_def all_nonempty_def)
    qed
  qed
  then show "merge_inv (merge_step out r) (rr_offset r)"
    "rows_all (merge_step out r) = rows_all out \<union> rows_of r"
    "0 < rr_length r \<Longrightarrow> all_nonempty out \<Longrightarrow> all_nonempty (merge_step out r)" by simp_all
qed

lemma merge_inv_mono: "merge_inv out lo \<Longrightarrow> lo \<le> hi \<Longrightarrow> merge_inv out hi"
  by (auto simp: merge_inv_def)

lemma foldl_merge_step:
  assumes "\<forall>r \<in> set rs. rr_fits r" "sorted (map (\<lambda>r. (rr_offset r, rr_end r)) rs)"
    "\<And>r. r \<in> set rs \<Longrightarrow> merge_inv out (rr_offset r)" "merge_inv out hi"
  shows "\<exists>hi. merge_inv (foldl merge_step out rs) hi \<and>
    rows_all (foldl merge_step out rs) = rows_all out \<union> rows_all rs \<and>
    (all_nonempty rs \<longrightarrow> all_nonempty out \<longrightarrow> all_nonempty (foldl merge_step out rs))"
  using assms
proof (induction rs arbitrary: out hi)
  case (Cons r rs)
  have fit: "rr_fits r" using Cons.prems(1) by simp
  have inv: "merge_inv out (rr_offset r)" using Cons.prems(3) by simp
  note M = merge_step_props[OF fit inv]
  have srt: "sorted (map (\<lambda>r. (rr_offset r, rr_end r)) rs)" using Cons.prems(2) by simp
  have later: "merge_inv (merge_step out r) (rr_offset q)" if "q \<in> set rs" for q
  proof (rule merge_inv_mono[OF M(1)])
    show "rr_offset r \<le> rr_offset q" using Cons.prems(2) that by (auto simp: less_eq_prod_def)
  qed
  have fr: "\<forall>r \<in> set rs. rr_fits r" using Cons.prems(1) by simp
  from Cons.IH[OF fr srt later M(1)] obtain h where
    "merge_inv (foldl merge_step (merge_step out r) rs) h \<and>
     rows_all (foldl merge_step (merge_step out r) rs) = rows_all (merge_step out r) \<union> rows_all rs \<and>
     (all_nonempty rs \<longrightarrow> all_nonempty (merge_step out r) \<longrightarrow>
       all_nonempty (foldl merge_step (merge_step out r) rs))" by (rule exE)
  moreover have "all_nonempty (merge_step out r)" if "all_nonempty (r # rs)" "all_nonempty out"
    using that M(3) by (simp add: all_nonempty_def)
  moreover have "all_nonempty rs" if "all_nonempty (r # rs)" using that by (simp add: all_nonempty_def)
  ultimately show ?case unfolding foldl_Cons rows_all_simps M(2) Un_assoc by blast
qed (auto simp: all_nonempty_def)

lemma merge_ranges_eq:
  assumes "\<forall>r \<in> set rs. rr_fits r"
  shows "rows_all (merge_ranges rs) = rows_all rs" "separated (merge_ranges rs)"
    "\<forall>r \<in> set (merge_ranges rs). rr_fits r"
    "all_nonempty rs \<Longrightarrow> all_nonempty (merge_ranges rs)"
proof -
  define s where "s = sort_key (\<lambda>r. (rr_offset r, rr_end r)) rs"
  have s: "set s = set rs" "sorted (map (\<lambda>r. (rr_offset r, rr_end r)) s)" by (simp_all add: s_def)
  have nil: "merge_inv [] h" for h by (simp add: merge_inv_def)
  have fits: "\<forall>r \<in> set s. rr_fits r" using assms s(1) by simp
  have same: "rows_all s = rows_all rs" "all_nonempty s = all_nonempty rs"
    by (simp_all add: rows_all_def all_nonempty_def s(1))
  have "all_nonempty []" by (simp add: all_nonempty_def)
  with foldl_merge_step[OF fits s(2) nil nil[of 0]] obtain h where
    F: "merge_inv (foldl merge_step [] s) h" "rows_all (foldl merge_step [] s) = rows_all rs"
    "all_nonempty rs \<longrightarrow> all_nonempty (foldl merge_step [] s)"
    unfolding same rows_all_simps Un_empty_left by blast
  show "rows_all (merge_ranges rs) = rows_all rs"
    using F(2) by (simp add: merge_ranges_def flip: s_def)
  have "separated rs" if "length rs \<le> 1" using that by (cases rs rule: separated.cases) simp_all
  then show "separated (merge_ranges rs)"
    using F(1) by (simp add: merge_ranges_def merge_inv_def flip: s_def)
  show "\<forall>r \<in> set (merge_ranges rs). rr_fits r"
    using F(1) assms by (simp add: merge_ranges_def merge_inv_def flip: s_def)
  show "all_nonempty rs \<Longrightarrow> all_nonempty (merge_ranges rs)"
    using F(3) by (simp add: merge_ranges_def flip: s_def) (simp add: all_nonempty_def)
qed

lemma clamp_ranges_eq:
  assumes "\<forall>r \<in> set rs. rr_fits r" "bound < 2 ^ 64"
  shows "rows_all (clamp_ranges rs bound) =
      (if rs = [] then {0..<bound} else rows_all rs \<inter> {0..<bound})"
    "separated (clamp_ranges rs bound)" "\<forall>r \<in> set (clamp_ranges rs bound). rr_fits r \<and> 0 < rr_length r"
proof -
  define src where "src = (if rs = [] then [rr_new 0 bound] else rs)"
  let ?b = "rr_new 0 bound"
  let ?c = "List.map_filter (\<lambda>r. rr_intersect r ?b) src"
  have b: "rr_fits ?b" "rows_of ?b = {0..<bound}" using assms(2) by (simp_all add: rr_fits_def rows_of_def)
  have src: "\<forall>r \<in> set src. rr_fits r" using assms(1) b(1) by (simp add: src_def)
  have c: "\<forall>r \<in> set ?c. rr_fits r \<and> 0 < rr_length r"
  proof
    fix r assume "r \<in> set ?c"
    then obtain x where "x \<in> set src" "rr_intersect x ?b = Some r" by (auto simp: map_filter_def)
    then show "rr_fits r \<and> 0 < rr_length r" using src rr_intersect_Some(1,2)[OF _ b(1)] by blast
  qed
  have "rows_all (List.map_filter (\<lambda>r. rr_intersect r ?b) xs) = rows_all xs \<inter> {0..<bound}"
    if "\<forall>r \<in> set xs. rr_fits r" for xs
    using that
  proof (induction xs)
    case (Cons x xs)
    then have x: "rr_fits x" by simp
    have "(case rr_intersect x ?b of None \<Rightarrow> {} | Some r \<Rightarrow> rows_of r) = rows_of x \<inter> {0..<bound}"
      using rr_intersect_rows[OF x b(1)] b(2) by simp
    with Cons show ?case by (simp add: map_filter_simps Int_Un_distrib2 split: option.splits)
  qed (simp add: map_filter_simps)
  note rows = this[OF src]
  have "rows_all src \<inter> {0..<bound} = (if rs = [] then {0..<bound} else rows_all rs \<inter> {0..<bound})"
    using b(2) by (simp add: src_def)
  moreover have e: "clamp_ranges rs bound = merge_ranges ?c"
    by (simp add: clamp_ranges_def src_def Let_def)
  have fits: "\<forall>r \<in> set ?c. rr_fits r" using c by blast
  note M = merge_ranges_eq[OF fits]
  ultimately show "rows_all (clamp_ranges rs bound) =
      (if rs = [] then {0..<bound} else rows_all rs \<inter> {0..<bound})"
    unfolding e M(1) rows by simp
  show "separated (clamp_ranges rs bound)" unfolding e by (rule M(2))
  have "all_nonempty ?c" using c by (simp add: all_nonempty_def)
  then show "\<forall>r \<in> set (clamp_ranges rs bound). rr_fits r \<and> 0 < rr_length r"
    unfolding e using M(3,4) by (simp add: all_nonempty_def)
qed

subsection \<open>Properties\<close>

text \<open>C11. \<open>merge_ranges\<close> keeps exactly the rows of its input and returns ranges in ascending
  order with a gap between any two neighbours (overlapping and adjacent ranges are coalesced),
  for ranges whose end does not overflow \<open>u64\<close>.\<close>

theorem merge_ranges_correct:
  assumes "\<forall>r \<in> set rs. rr_fits r"
  shows "rows_all (merge_ranges rs) = rows_all rs \<and> separated (merge_ranges rs)"
  using merge_ranges_eq(1,2)[OF assms] by blast

theorem merge_ranges_correct_witness:
  "rows_all (merge_ranges [rr_new 100 30, rr_new 50 10, rr_new 130 20]) = {100..<130} \<union> ({50..<60} \<union> {130..<150}) \<and>
   separated (merge_ranges [rr_new 100 30, rr_new 50 10, rr_new 130 20])"
  using merge_ranges_correct[of "[rr_new 100 30, rr_new 50 10, rr_new 130 20]"]
  by (simp add: rr_fits_def rows_of_def)

text \<open>\<open>clamp_ranges\<close> restricts a request to the rows that exist: it keeps the requested rows
  below the bound (all of them for an empty request), as non-empty, ascending, separated ranges.\<close>

theorem clamp_ranges_correct:
  assumes "\<forall>r \<in> set rs. rr_fits r" "bound < 2 ^ 64"
  shows "rows_all (clamp_ranges rs bound) = (if rs = [] then {0..<bound} else rows_all rs \<inter> {0..<bound}) \<and>
    separated (clamp_ranges rs bound) \<and> (\<forall>r \<in> set (clamp_ranges rs bound). 0 < rr_length r)"
  using clamp_ranges_eq[OF assms] by blast

theorem clamp_ranges_correct_witness:
  "rows_all (clamp_ranges [rr_new 5 40, rr_new 100 5] 30) = ({5..<45} \<union> {100..<105}) \<inter> {0..<30}"
  using clamp_ranges_correct[of "[rr_new 5 40, rr_new 100 5]" 30] by (simp add: rr_fits_def rows_of_def)

text \<open>A range whose end overflows stands for no rows: clamping an open-ended request
  written as offset 5 with length \<open>u64::MAX\<close> drops it instead of capping it.\<close>

theorem open_ended_range_is_dropped: "clamp_ranges [rr_new 5 u64_max] 30 = []"
  by (simp add: clamp_ranges_def merge_ranges_def rr_intersect_def rr_end_def map_filter_simps Let_def)

end
