(* ===== verification/Predicates.thy ===== *)
theory Predicates
  imports Ranges
begin

text \<open>
  Predicates over field values (\<open>splayed-core/src/scan.rs\<close> and the batch evaluator of
  \<open>field_file.rs\<close>). Signed integers are \<open>int\<close>, unsigned ones \<open>nat\<close>, an \<open>f64\<close> is its bit
  pattern with the IEEE comparison and the conversions \<open>as f64\<close> written out. The evaluator works on
  whole value slices and 0/1 byte masks; it is proved equal to a row-by-row reference.
\<close>

subsection \<open>Floating point\<close>

datatype ordering = Less | Equal | Greater

definition cmp_of :: "'a::linorder \<Rightarrow> 'a \<Rightarrow> ordering" where
  "cmp_of a b = (if a < b then Less else if a = b then Equal else Greater)"

text \<open>Magnitude bits, NaN and sign of an \<open>f64\<close>; the two zeros compare equal.\<close>

definition f64_mag :: "u64 \<Rightarrow> nat" where
  "f64_mag w = unat (take_bit 63 w)"

definition f64_nan :: "u64 \<Rightarrow> bool" where
  "f64_nan w \<longleftrightarrow> 2047 * 2 ^ 52 < f64_mag w"

definition f64_key :: "u64 \<Rightarrow> int" where
  "f64_key w = (if bit w 63 then - int (f64_mag w) else int (f64_mag w))"

definition f64_partial_cmp :: "u64 \<Rightarrow> u64 \<Rightarrow> ordering option" where
  "f64_partial_cmp a b = (if f64_nan a \<or> f64_nan b then None else Some (cmp_of (f64_key a) (f64_key b)))"

fun ilog2 :: "nat \<Rightarrow> nat" where
  "ilog2 n = (if n < 2 then 0 else Suc (ilog2 (n div 2)))"

declare ilog2.simps [simp del]

text \<open>\<open>as f64\<close> of an integer: exact up to 53 significant bits, else rounded to nearest, ties to even.\<close>

definition nat_to_f64_mag :: "nat \<Rightarrow> nat" where
  "nat_to_f64_mag m =
     (if m = 0 then 0
      else let e = ilog2 m
        in if e \<le> 52 then (e + 1022) * 2 ^ 52 + m * 2 ^ (52 - e)
           else let q = m div 2 ^ (e - 52); r = m mod 2 ^ (e - 52); half = 2 ^ (e - 53);
                    q' = (if half < r \<or> (r = half \<and> odd q) then q + 1 else q)
                in (e + 1022) * 2 ^ 52 + q')"

definition int_to_f64 :: "int \<Rightarrow> u64" where
  "int_to_f64 z = (if z < 0 then of_nat (2 ^ 63 + nat_to_f64_mag (nat (- z)))
                   else of_nat (nat_to_f64_mag (nat z)))"

text \<open>\<open>f32 as f64\<close>: every value is kept exactly; a NaN stays a NaN.\<close>

definition f32_to_f64 :: "u32 \<Rightarrow> u64" where
  "f32_to_f64 w =
     (let m = unat (take_bit 31 w); ex = m div 2 ^ 23; f = m mod 2 ^ 23;
          mag = (if ex = 255 then 2047 * 2 ^ 52 + f * 2 ^ 29
                 else if 0 < ex then (ex + 896) * 2 ^ 52 + f * 2 ^ 29
                 else if f = 0 then 0
                 else let e = ilog2 f in (e + 873) * 2 ^ 52 + f * 2 ^ (52 - e))
      in of_nat (if bit w 31 then 2 ^ 63 + mag else mag))"

subsection \<open>Operators, literals, predicates\<close>

datatype cmp_op = Eq | Ne | Lt | Le | Gt | Ge

fun matches :: "cmp_op \<Rightarrow> ordering \<Rightarrow> bool" where
  "matches Eq d \<longleftrightarrow> d = Equal"
| "matches Ne d \<longleftrightarrow> d \<noteq> Equal"
| "matches Lt d \<longleftrightarrow> d = Less"
| "matches Le d \<longleftrightarrow> d \<noteq> Greater"
| "matches Gt d \<longleftrightarrow> d = Greater"
| "matches Ge d \<longleftrightarrow> d \<noteq> Less"

text \<open>The operators \<open>==\<close>, \<open>!=\<close>, \<open><\<close>, ... on floats, through \<open>partial_cmp\<close>.\<close>

fun float_op :: "cmp_op \<Rightarrow> ordering option \<Rightarrow> bool" where
  "float_op Ne None = True"
| "float_op d None = False"
| "float_op d (Some x) = matches d x"

datatype scalar = SBool bool | SInt int | SUInt nat | SFloat u64 | SStr bytes

datatype predicate =
    PAnd "predicate list"
  | POr "predicate list"
  | PNot predicate
  | PCmp "string option" cmp_op scalar

text \<open>\<open>fields\<close> pushes onto \<open>out\<close> in order of first occurrence.\<close>

primrec pred_fields :: "predicate \<Rightarrow> string list \<Rightarrow> string list" where
  "pred_fields (PAnd cs) out = foldl (\<lambda>o' f. f o') out (map pred_fields cs)"
| "pred_fields (POr cs) out = foldl (\<lambda>o' f. f o') out (map pred_fields cs)"
| "pred_fields (PNot p) out = pred_fields p out"
| "pred_fields (PCmp field op val) out =
     (case field of None \<Rightarrow> out | Some name \<Rightarrow> if name \<in> set out then out else out @ [name])"

definition references_only :: "predicate \<Rightarrow> string list \<Rightarrow> bool" where
  "references_only p allowed \<longleftrightarrow> list_all (\<lambda>f. f \<in> set allowed) (pred_fields p [])"

text \<open>\<open>from_le_bytes\<close> of the unsigned and the signed integer types.\<close>

definition le_uint :: "bytes \<Rightarrow> nat" where
  "le_uint bs = unat (of_le bs :: u64)"

definition le_sint :: "nat \<Rightarrow> bytes \<Rightarrow> int" where
  "le_sint s bs = (if 2 ^ (8 * s - 1) \<le> le_uint bs then int (le_uint bs) - 2 ^ (8 * s) else int (le_uint bs))"

text \<open>The slices are exact: a wrong length panics in \<open>try_into().unwrap()\<close> or the indexing.\<close>

definition read_row_scalar :: "data_type \<Rightarrow> bytes \<Rightarrow> (core_error, scalar) res" where
  "read_row_scalar dt bs =
     (let n = size_of dt; fixed = rbind (slice_r 0 n bs)
      in case dt of
           Bool \<Rightarrow> fixed (\<lambda>b. Ok (SBool (hd b \<noteq> 0)))
         | Int8 \<Rightarrow> fixed (\<lambda>b. Ok (SInt (le_sint 1 b)))
         | Int16 \<Rightarrow> fixed (\<lambda>b. Ok (SInt (le_sint 2 b)))
         | Int32 \<Rightarrow> fixed (\<lambda>b. Ok (SInt (le_sint 4 b)))
         | Date32 \<Rightarrow> fixed (\<lambda>b. Ok (SInt (le_sint 4 b)))
         | Int64 \<Rightarrow> rbind (assert_that (length bs = 8)) (\<lambda>_. Ok (SInt (le_sint 8 bs)))
         | TimestampUs \<Rightarrow> rbind (assert_that (length bs = 8)) (\<lambda>_. Ok (SInt (le_sint 8 bs)))
         | Date64 \<Rightarrow> rbind (assert_that (length bs = 8)) (\<lambda>_. Ok (SInt (le_sint 8 bs)))
         | UInt8 \<Rightarrow> fixed (\<lambda>b. Ok (SUInt (le_uint b)))
         | UInt16 \<Rightarrow> fixed (\<lambda>b. Ok (SUInt (le_uint b)))
         | UInt32 \<Rightarrow> fixed (\<lambda>b. Ok (SUInt (le_uint b)))
         | UInt64 \<Rightarrow> rbind (assert_that (length bs = 8)) (\<lambda>_. Ok (SUInt (le_uint bs)))
         | Float32 \<Rightarrow> fixed (\<lambda>b. Ok (SFloat (f32_to_f64 (of_le b))))
         | Float64 \<Rightarrow> rbind (assert_that (length bs = 8)) (\<lambda>_. Ok (SFloat (of_le bs)))
         | Utf8 \<Rightarrow> Err (Invalid ''Utf8 has no fixed-width scalar''))"

subsection \<open>Batch evaluation\<close>

definition of_bool8 :: "bool \<Rightarrow> u8" where
  "of_bool8 b = (if b then 1 else 0)"

text \<open>
  One \<open>fill_cmp!\<close> loop over the items of \<open>typed_slice(values)\<close>: the cast panics unless the slice is
  whole items, \<open>out[o]\<close> panics past \<open>rows\<close>, rows past the slice keep 0. (The cast's alignment
  requirement is met by the callers: both value regions start at a multiple of 8.)
\<close>

definition fill_loop :: "nat \<Rightarrow> bytes \<Rightarrow> nat \<Rightarrow> (bytes \<Rightarrow> bool) \<Rightarrow> (core_error, u8 list) res" where
  "fill_loop s values rows f =
     rbind (assert_that (s \<noteq> 0 \<and> length values mod s = 0)) (\<lambda>_.
     rbind (assert_that (length values div s \<le> rows)) (\<lambda>_.
       Ok (map (\<lambda>i. of_bool8 (f (slice (i * s) (i * s + s) values))) [0..<length values div s]
           @ replicate (rows - length values div s) 0)))"

definition incompatible :: core_error where
  "incompatible = Invalid ''scalar incompatible with column type''"

definition i64_max :: nat where
  "i64_max = 2 ^ 63 - 1"

definition eval_cmp_bytes ::
  "data_type \<Rightarrow> bytes \<Rightarrow> cmp_op \<Rightarrow> scalar \<Rightarrow> nat \<Rightarrow> (core_error, u8 list) res" where
  "eval_cmp_bytes dt values op val rows =
     (let s = size_of dt;
          ints = (\<lambda>v :: int. fill_loop s values rows (\<lambda>b. matches op (cmp_of (le_sint s b) v)));
          uints = (\<lambda>v :: nat. fill_loop s values rows (\<lambda>b. matches op (cmp_of (le_uint b) v)));
          sfloats = (\<lambda>f. fill_loop s values rows (\<lambda>b. float_op op (f64_partial_cmp (int_to_f64 (le_sint s b)) f)));
          ufloats = (\<lambda>f. fill_loop s values rows (\<lambda>b. float_op op (f64_partial_cmp (int_to_f64 (int (le_uint b))) f)))
      in if dt = Utf8 then Err (Invalid ''value predicate on Utf8 field is not supported'')
         else if dt = Bool then
           (case val of SBool v \<Rightarrow> fill_loop 1 values rows (\<lambda>b. matches op (cmp_of (hd b \<noteq> 0) v))
            | _ \<Rightarrow> Err incompatible)
         else if dt \<in> {Int8, Int16, Int32, Date32, Int64, TimestampUs, Date64} then
           (case val of SInt v \<Rightarrow> ints v
            | SUInt v \<Rightarrow> if i64_max < v then Ok (replicate rows (of_bool8 (matches op Less))) else ints (int v)
            | SFloat f \<Rightarrow> sfloats f
            | _ \<Rightarrow> Err incompatible)
         else if dt \<in> {UInt8, UInt16, UInt32, UInt64} then
           (case val of SUInt v \<Rightarrow> uints v
            | SInt v \<Rightarrow> if v < 0 then Ok (replicate rows (of_bool8 (matches op Greater))) else uints (nat v)
            | SFloat f \<Rightarrow> ufloats f
            | _ \<Rightarrow> Err incompatible)
         else if dt = Float32 then
           (let run = (\<lambda>f. fill_loop 4 values rows (\<lambda>b. float_op op (f64_partial_cmp (f32_to_f64 (of_le b)) f)))
            in case val of SFloat f \<Rightarrow> run f | SInt v \<Rightarrow> run (int_to_f64 v)
               | SUInt v \<Rightarrow> run (int_to_f64 (int v)) | _ \<Rightarrow> Err incompatible)
         else
           (let run = (\<lambda>f. fill_loop 8 values rows (\<lambda>b. float_op op (f64_partial_cmp (of_le b) f)))
            in case val of SFloat f \<Rightarrow> run f | SInt v \<Rightarrow> run (int_to_f64 v)
               | SUInt v \<Rightarrow> run (int_to_f64 (int v)) | _ \<Rightarrow> Err incompatible))"

text \<open>\<open>for (o, &b) in out.iter_mut().zip(&c)\<close>: rows without a partner stay.\<close>

definition zip_mut :: "(u8 \<Rightarrow> u8 \<Rightarrow> u8) \<Rightarrow> u8 list \<Rightarrow> u8 list \<Rightarrow> u8 list" where
  "zip_mut f out c = map2 f out c @ drop (length c) out"

fun eval_predicate_bytes ::
  "predicate \<Rightarrow> data_type \<Rightarrow> bytes \<Rightarrow> nat \<Rightarrow> (core_error, u8 list) res"
and eval_and ::
  "predicate list \<Rightarrow> data_type \<Rightarrow> bytes \<Rightarrow> nat \<Rightarrow> u8 list \<Rightarrow> (core_error, u8 list) res"
and eval_or ::
  "predicate list \<Rightarrow> data_type \<Rightarrow> bytes \<Rightarrow> nat \<Rightarrow> u8 list \<Rightarrow> (core_error, u8 list) res"
where
  "eval_predicate_bytes (PAnd cs) dt values rows = eval_and cs dt values rows (replicate rows 1)"
| "eval_predicate_bytes (POr cs) dt values rows = eval_or cs dt values rows (replicate rows 0)"
| "eval_predicate_bytes (PNot p) dt values rows =
     rbind (eval_predicate_bytes p dt values rows) (\<lambda>c. Ok (map (\<lambda>b. b XOR 1) c))"
| "eval_predicate_bytes (PCmp field op val) dt values rows = eval_cmp_bytes dt values op val rows"
| "eval_and [] dt values rows out = Ok out"
| "eval_and (p # ps) dt values rows out =
     rbind (eval_predicate_bytes p dt values rows) (\<lambda>c.
       let out' = zip_mut (\<lambda>a b. a AND b) out c
       in if list_all (\<lambda>b. b = 0) out' then Ok out' else eval_and ps dt values rows out')"
| "eval_or [] dt values rows out = Ok out"
| "eval_or (p # ps) dt values rows out =
     rbind (eval_predicate_bytes p dt values rows) (\<lambda>c.
       eval_or ps dt values rows (zip_mut (\<lambda>a b. a OR b) out c))"

subsection \<open>Row-by-row reference\<close>

text \<open>
  Integers compare exactly whatever their signedness; a comparison with a float on either side
  converts the integer; booleans compare with booleans only.
\<close>

fun scalar_to_float :: "scalar \<Rightarrow> u64" where
  "scalar_to_float (SInt v) = int_to_f64 v"
| "scalar_to_float (SUInt v) = int_to_f64 (int v)"
| "scalar_to_float (SFloat f) = f"
| "scalar_to_float _ = 0"

fun compare_scalar :: "scalar \<Rightarrow> scalar \<Rightarrow> ordering option" where
  "compare_scalar (SBool a) (SBool b) = Some (cmp_of a b)"
| "compare_scalar (SInt a) (SInt b) = Some (cmp_of a b)"
| "compare_scalar (SInt a) (SUInt b) = Some (cmp_of a (int b))"
| "compare_scalar (SUInt a) (SInt b) = Some (cmp_of (int a) b)"
| "compare_scalar (SUInt a) (SUInt b) = Some (cmp_of a b)"
| "compare_scalar a b = f64_partial_cmp (scalar_to_float a) (scalar_to_float b)"

fun compatible :: "data_type \<Rightarrow> scalar \<Rightarrow> bool" where
  "compatible Utf8 v \<longleftrightarrow> False"
| "compatible Bool v \<longleftrightarrow> (\<exists>b. v = SBool b)"
| "compatible dt (SInt v) \<longleftrightarrow> True"
| "compatible dt (SUInt v) \<longleftrightarrow> True"
| "compatible dt (SFloat f) \<longleftrightarrow> True"
| "compatible dt v \<longleftrightarrow> False"

fun pred_compatible :: "data_type \<Rightarrow> predicate \<Rightarrow> bool" where
  "pred_compatible dt (PAnd cs) \<longleftrightarrow> (\<forall>c \<in> set cs. pred_compatible dt c)"
| "pred_compatible dt (POr cs) \<longleftrightarrow> (\<forall>c \<in> set cs. pred_compatible dt c)"
| "pred_compatible dt (PNot p) \<longleftrightarrow> pred_compatible dt p"
| "pred_compatible dt (PCmp field op val) \<longleftrightarrow> compatible dt val"

fun pred_holds :: "predicate \<Rightarrow> scalar \<Rightarrow> bool" where
  "pred_holds (PAnd cs) a \<longleftrightarrow> (\<forall>c \<in> set cs. pred_holds c a)"
| "pred_holds (POr cs) a \<longleftrightarrow> (\<exists>c \<in> set cs. pred_holds c a)"
| "pred_holds (PNot p) a \<longleftrightarrow> \<not> pred_holds p a"
| "pred_holds (PCmp field op val) a \<longleftrightarrow> float_op op (compare_scalar a val)"

definition row_scalar :: "data_type \<Rightarrow> bytes \<Rightarrow> nat \<Rightarrow> scalar" where
  "row_scalar dt values i =
     (case read_row_scalar dt (slice (i * size_of dt) (i * size_of dt + size_of dt) values) of
        Ok s \<Rightarrow> s | _ \<Rightarrow> SBool False)"

subsection \<open>The evaluator equals the reference\<close>

lemma fill_loop_eq:
  assumes "0 < s" "length values = rows * s"
  shows "fill_loop s values rows f =
    Ok (map (\<lambda>i. of_bool8 (f (slice (i * s) (i * s + s) values))) [0..<rows])"
  using assms by (simp add: fill_loop_def)

lemma item_bytes:
  "i < rows \<Longrightarrow> length (values :: bytes) = rows * s \<Longrightarrow> length (slice (i * s) (i * s + s) values) = s"
  by (simp add: length_item)

lemma slice_full_r: "length (bs :: bytes) = n \<Longrightarrow> slice_r 0 n bs = Ok bs"
  by auto

lemma slice_0_all: "length bs = n \<Longrightarrow> slice 0 n bs = bs"
  by auto

lemma le_uint_bound: "length bs = s \<Longrightarrow> s \<le> 8 \<Longrightarrow> le_uint bs < 2 ^ (8 * s)"
proof -
  assume l: "length bs = s" "s \<le> 8"
  have "take_bit (8 * s) (of_le bs :: u64) = of_le bs"
    by (rule bit_word_eqI) (use l in \<open>auto simp: bit_take_bit_iff bit_of_le div_less_iff_less_mult mult.commute\<close>)
  then have "le_uint bs = take_bit (8 * s) (le_uint bs)"
    unfolding le_uint_def by (metis unsigned_take_bit_eq)
  then show ?thesis by (metis take_bit_nat_less_exp)
qed

lemma le_sint_le_max: "length bs = s \<Longrightarrow> 0 < s \<Longrightarrow> s \<le> 8 \<Longrightarrow> le_sint s bs \<le> int i64_max"
proof -
  assume l: "length bs = s" "0 < s" "s \<le> 8"
  have "(2 :: nat) ^ (8 * s - 1) \<le> 2 ^ 63" using l by (intro power_increasing) simp_all
  have "int (le_uint bs) < 2 ^ (8 * s)"
    using le_uint_bound[OF l(1,3)] by (metis of_nat_less_iff of_nat_numeral of_nat_power)
  then have "int (le_uint bs) - 2 ^ (8 * s) \<le> int i64_max" by linarith
  moreover have "int (le_uint bs) \<le> int i64_max" if "\<not> 2 ^ (8 * s - 1) \<le> le_uint bs"
    using that \<open>2 ^ (8 * s - 1) \<le> 2 ^ 63\<close> by (simp add: i64_max_def)
  ultimately show ?thesis by (simp add: le_sint_def)
qed

lemma cmp_of_int_nat [simp]: "cmp_of (int a) (int b) = cmp_of a b"
  by (simp add: cmp_of_def)

lemma eval_cmp_bytes_eq:
  assumes len: "length values = rows * size_of dt" and c: "compatible dt val"
  shows "eval_cmp_bytes dt values op val rows =
    Ok (map (\<lambda>i. of_bool8 (float_op op (compare_scalar (row_scalar dt values i) val))) [0..<rows])"
proof -
  let ?s = "size_of dt"
  let ?it = "\<lambda>i. slice (i * ?s) (i * ?s + ?s) values"
  have s: "0 < ?s" using c by (cases dt) auto
  note loop = fill_loop_eq[OF s len]
  have it: "length (?it i) = ?s" if "i < rows" for i using that len by (rule item_bytes)
  have hi: "le_sint ?s (?it i) \<le> int i64_max" if "i < rows" for i
    using le_sint_le_max[OF it[OF that] s size_of_le_8] .
  have big: "cmp_of (le_sint ?s (?it i)) (int v) = Less" if "i < rows" "i64_max < v" for i v
    using hi[OF that(1)] that(2) by (simp add: cmp_of_def)
  have neg: "cmp_of (int (le_uint (?it i))) v = Greater" if "v < 0" for i v
    using that by (simp add: cmp_of_def)
  consider (bool) "dt = Bool" | (signed) "dt \<in> {Int8, Int16, Int32, Date32, Int64, TimestampUs, Date64}"
    | (unsigned) "dt \<in> {UInt8, UInt16, UInt32, UInt64}" | (f32) "dt = Float32" | (f64) "dt = Float64"
    using c by (cases dt) auto
  then show ?thesis
  proof cases
    case bool
    then obtain v where v: "val = SBool v" using c by auto
    have "row_scalar dt values i = SBool (hd (?it i) \<noteq> 0)" if "i < rows" for i
      using it[OF that] bool by (simp add: row_scalar_def read_row_scalar_def slice_0_all)
    then show ?thesis using bool v loop by (auto simp: eval_cmp_bytes_def)
  next
    case signed
    have r: "row_scalar dt values i = SInt (le_sint ?s (?it i))" if "i < rows" for i
      using it[OF that] signed by (auto simp: row_scalar_def read_row_scalar_def slice_0_all)
    have ev: "eval_cmp_bytes dt values op val rows =
      (case val of
         SInt v \<Rightarrow> fill_loop ?s values rows (\<lambda>b. matches op (cmp_of (le_sint ?s b) v))
       | SUInt v \<Rightarrow> if i64_max < v then Ok (replicate rows (of_bool8 (matches op Less)))
           else fill_loop ?s values rows (\<lambda>b. matches op (cmp_of (le_sint ?s b) (int v)))
       | SFloat f \<Rightarrow> fill_loop ?s values rows (\<lambda>b. float_op op (f64_partial_cmp (int_to_f64 (le_sint ?s b)) f))
       | _ \<Rightarrow> Err incompatible)"
      using signed by (auto simp: eval_cmp_bytes_def split: scalar.split)
    have "\<not> (\<exists>b. val = SBool b)" "\<not> (\<exists>b. val = SStr b)" using signed c by auto
    then show ?thesis unfolding ev using r big
      by (cases val) (auto simp: loop map_replicate_trivial[symmetric] intro!: map_cong)
  next
    case unsigned
    have r: "row_scalar dt values i = SUInt (le_uint (?it i))" if "i < rows" for i
      using it[OF that] unsigned by (auto simp: row_scalar_def read_row_scalar_def slice_0_all)
    have ev: "eval_cmp_bytes dt values op val rows =
      (case val of
         SUInt v \<Rightarrow> fill_loop ?s values rows (\<lambda>b. matches op (cmp_of (le_uint b) v))
       | SInt v \<Rightarrow> if v < 0 then Ok (replicate rows (of_bool8 (matches op Greater)))
           else fill_loop ?s values rows (\<lambda>b. matches op (cmp_of (le_uint b) (nat v)))
       | SFloat f \<Rightarrow> fill_loop ?s values rows (\<lambda>b. float_op op (f64_partial_cmp (int_to_f64 (int (le_uint b))) f))
       | _ \<Rightarrow> Err incompatible)"
      using unsigned by (auto simp: eval_cmp_bytes_def split: scalar.split)
    have "cmp_of (le_uint b) (nat v) = cmp_of (int (le_uint b)) v" if "\<not> v < 0" for b v
      using that cmp_of_int_nat[of "le_uint b" "nat v"] by simp
    moreover have "\<not> (\<exists>b. val = SBool b)" "\<not> (\<exists>b. val = SStr b)" using unsigned c by auto
    ultimately show ?thesis unfolding ev using r neg
      by (cases val) (auto simp: loop map_replicate_trivial[symmetric] intro!: map_cong)
  next
    case f32
    have r: "row_scalar dt values i = SFloat (f32_to_f64 (of_le (?it i)))" if "i < rows" for i
      using it[OF that] f32 by (simp add: row_scalar_def read_row_scalar_def slice_0_all)
    have "\<not> (\<exists>b. val = SBool b)" "\<not> (\<exists>b. val = SStr b)" using f32 c by auto
    then show ?thesis using r loop f32
      by (cases val) (auto simp: eval_cmp_bytes_def)
  next
    case f64
    have r: "row_scalar dt values i = SFloat (of_le (?it i))" if "i < rows" for i
      using it[OF that] f64 by (simp add: row_scalar_def read_row_scalar_def slice_0_all)
    have "\<not> (\<exists>b. val = SBool b)" "\<not> (\<exists>b. val = SStr b)" using f64 c by auto
    then show ?thesis using r loop f64
      by (cases val) (auto simp: eval_cmp_bytes_def)
  qed
qed

lemma of_bool8_ops [simp]:
  "of_bool8 a AND of_bool8 b = of_bool8 (a \<and> b)" "of_bool8 a OR of_bool8 b = of_bool8 (a \<or> b)"
  "of_bool8 a XOR 1 = of_bool8 (\<not> a)" "of_bool8 a = 0 \<longleftrightarrow> \<not> a" "of_bool8 True = 1" "of_bool8 False = 0"
  by (simp_all add: of_bool8_def)

definition mask_of :: "nat \<Rightarrow> (nat \<Rightarrow> bool) \<Rightarrow> u8 list" where
  "mask_of rows g = map (\<lambda>i. of_bool8 (g i)) [0..<rows]"

lemma mask_of_cong: "(\<And>i. i < rows \<Longrightarrow> g i = h i) \<Longrightarrow> mask_of rows g = mask_of rows h"
  by (simp add: mask_of_def)

lemma mask_of_const: "replicate rows 1 = mask_of rows (\<lambda>_. True)" "replicate rows 0 = mask_of rows (\<lambda>_. False)"
  by (simp_all add: mask_of_def map_replicate_const)

lemma zip_mut_mask:
  assumes "\<And>a b. f (of_bool8 a) (of_bool8 b) = of_bool8 (h a b)"
  shows "zip_mut f (mask_of rows g) (mask_of rows g') = mask_of rows (\<lambda>i. h (g i) (g' i))"
  using assms by (simp add: zip_mut_def mask_of_def zip_map_map map_zip_map comp_def zip_same_conv_map)

lemma mask_all_zero: "list_all (\<lambda>b. b = 0) (mask_of rows g) \<longleftrightarrow> (\<forall>i < rows. \<not> g i)"
  by (auto simp: mask_of_def list_all_iff)

lemma eval_and_mask:
  assumes "\<And>c. c \<in> set cs \<Longrightarrow> eval_predicate_bytes c dt vs rows = Ok (mask_of rows (h c))"
  shows "eval_and cs dt vs rows (mask_of rows g) = Ok (mask_of rows (\<lambda>i. g i \<and> (\<forall>c \<in> set cs. h c i)))"
  using assms
proof (induction cs arbitrary: g)
  case (Cons c cs)
  let ?g = "\<lambda>i. g i \<and> h c i"
  have z: "zip_mut (\<lambda>a b. a AND b) (mask_of rows g) (mask_of rows (h c)) = mask_of rows ?g"
    by (rule zip_mut_mask) simp
  have rest: "eval_and cs dt vs rows (mask_of rows ?g) = Ok (mask_of rows (\<lambda>i. ?g i \<and> (\<forall>c \<in> set cs. h c i)))"
    using Cons.IH[of ?g] Cons.prems by simp
  have "mask_of rows ?g = mask_of rows (\<lambda>i. ?g i \<and> (\<forall>c \<in> set cs. h c i))" if "\<forall>i < rows. \<not> ?g i"
    using that by (intro mask_of_cong) auto
  with rest show ?case
    using Cons.prems[of c] by (simp only: eval_and.simps rbind.simps list.set_intros z Let_def mask_all_zero)
      (simp add: conj_assoc)
qed simp

lemma eval_or_mask:
  assumes "\<And>c. c \<in> set cs \<Longrightarrow> eval_predicate_bytes c dt vs rows = Ok (mask_of rows (h c))"
  shows "eval_or cs dt vs rows (mask_of rows g) = Ok (mask_of rows (\<lambda>i. g i \<or> (\<exists>c \<in> set cs. h c i)))"
  using assms
proof (induction cs arbitrary: g)
  case (Cons c cs)
  have z: "zip_mut (\<lambda>a b. a OR b) (mask_of rows g) (mask_of rows (h c)) = mask_of rows (\<lambda>i. g i \<or> h c i)"
    by (rule zip_mut_mask) simp
  show ?case using Cons by (simp add: z disj_assoc)
qed simp

lemma eval_predicate_mask:
  assumes "length vs = rows * size_of dt" "pred_compatible dt p"
  shows "eval_predicate_bytes p dt vs rows = Ok (mask_of rows (\<lambda>i. pred_holds p (row_scalar dt vs i)))"
  using assms(2)
proof (induction p)
  case (PAnd cs)
  then show ?case using eval_and_mask[of cs dt vs rows "\<lambda>c i. pred_holds c (row_scalar dt vs i)" "\<lambda>_. True"]
    by (simp add: mask_of_const)
next
  case (POr cs)
  then show ?case using eval_or_mask[of cs dt vs rows "\<lambda>c i. pred_holds c (row_scalar dt vs i)" "\<lambda>_. False"]
    by (simp add: mask_of_const)
next
  case (PNot p)
  then show ?case by (simp add: mask_of_def comp_def)
next
  case (PCmp field op val)
  then show ?case by (simp add: eval_cmp_bytes_eq[OF assms(1)] mask_of_def)
qed

subsection \<open>What the float conversions mean\<close>

text \<open>The magnitude of a finite \<open>f64\<close> in units of \<open>2 ^ -1074\<close>, and of a finite \<open>f32\<close> in units of
  \<open>2 ^ -149\<close>.\<close>

definition f64_scaled :: "nat \<Rightarrow> nat" where
  "f64_scaled m = (let e = m div 2 ^ 52; f = m mod 2 ^ 52 in if e = 0 then f else (2 ^ 52 + f) * 2 ^ (e - 1))"

definition f32_scaled :: "nat \<Rightarrow> nat" where
  "f32_scaled m = (let e = m div 2 ^ 23; f = m mod 2 ^ 23 in if e = 0 then f else (2 ^ 23 + f) * 2 ^ (e - 1))"

lemma ilog2_bounds: "0 < n \<Longrightarrow> 2 ^ ilog2 n \<le> n \<and> n < 2 ^ Suc (ilog2 n)"
proof (induction n rule: ilog2.induct)
  case (1 n)
  show ?case
  proof (cases "n < 2")
    case True
    with 1 show ?thesis by (simp add: ilog2.simps[of n])
  next
    case False
    then have ih: "2 ^ ilog2 (n div 2) \<le> n div 2" "n div 2 < 2 ^ Suc (ilog2 (n div 2))" using 1 by auto
    have e: "ilog2 n = Suc (ilog2 (n div 2))" using False by (subst ilog2.simps) simp
    have "2 * 2 ^ ilog2 (n div 2) \<le> n" using ih(1) by linarith
    moreover have "n < 2 * 2 ^ Suc (ilog2 (n div 2))" using ih(2) by linarith
    ultimately show ?thesis by (simp add: e)
  qed
qed

text \<open>The order of magnitudes is the order of the values, so \<open>f64_partial_cmp\<close> compares values.\<close>

lemma div_mod_add: "f < d \<Longrightarrow> (e * d + f) div d = e" "f < d \<Longrightarrow> (e * d + f) mod d = (f :: nat)"
  by simp_all

lemma f64_scaled_ef:
  "f < 2 ^ 52 \<Longrightarrow> f64_scaled (e * 2 ^ 52 + f) = (if e = 0 then f else (2 ^ 52 + f) * 2 ^ (e - 1))"
  unfolding f64_scaled_def Let_def by (simp only: div_mod_add)

lemma f64_scaled_step: "f64_scaled m < f64_scaled (Suc m)"
proof -
  obtain e f where m: "m = e * 2 ^ 52 + f" "f < 2 ^ 52"
    by (rule that[of "m div 2 ^ 52" "m mod 2 ^ 52"]) simp_all
  show ?thesis
  proof (cases "Suc f < 2 ^ 52")
    case True
    have "f64_scaled (Suc m) = f64_scaled (e * 2 ^ 52 + Suc f)" by (simp only: m(1) add_Suc_right)
    then show ?thesis unfolding m(1) f64_scaled_ef[OF m(2)] f64_scaled_ef[OF True] by simp
  next
    case False
    then have f: "Suc f = 2 ^ 52" using m(2) by simp
    then have "Suc m = Suc e * 2 ^ 52 + 0" using m(1) by simp
    then have "f64_scaled (Suc m) = f64_scaled (Suc e * 2 ^ 52 + 0)" by (rule arg_cong)
    also have "\<dots> = 2 ^ 52 * 2 ^ e" by (subst f64_scaled_ef) simp_all
    finally have s: "f64_scaled (Suc m) = 2 ^ 52 * 2 ^ e" .
    have "2 ^ e = 2 * (2 :: nat) ^ (e - 1)" if "0 < e"
      using that by (metis Suc_pred' power_Suc)
    then show ?thesis
      unfolding s unfolding m(1) f64_scaled_ef[OF m(2)] using m(2) by (cases "e = 0") simp_all
  qed
qed

lemma f64_scaled_mono: "m < n \<Longrightarrow> f64_scaled m < f64_scaled n"
  by (rule lift_Suc_mono_less[of f64_scaled]) (rule f64_scaled_step)

lemma f64_scaled_normal: "f < 2 ^ 52 \<Longrightarrow> 0 < e \<Longrightarrow> f64_scaled (e * 2 ^ 52 + f) = (2 ^ 52 + f) * 2 ^ (e - 1)"
  by (simp add: f64_scaled_def Let_def)

lemma normalised:
  assumes "0 < m" "m < 2 ^ 53"
  obtains f where "ilog2 m \<le> 52" "m * 2 ^ (52 - ilog2 m) = 2 ^ 52 + f" "f < 2 ^ 52"
proof -
  define e where "e = ilog2 m"
  have b: "2 ^ e \<le> m" "m < 2 ^ Suc e" using ilog2_bounds[of m] assms(1) by (simp_all add: e_def)
  have "2 ^ e < (2 :: nat) ^ 53" using b(1) assms(2) by linarith
  then have e: "e \<le> 52" using power_strict_increasing_iff[of "2 :: nat" e 53] by simp
  have p: "2 ^ 52 = (2 :: nat) ^ e * 2 ^ (52 - e)" "2 ^ 53 = (2 :: nat) ^ Suc e * 2 ^ (52 - e)"
    using e by (simp_all flip: power_add)
  have lo: "2 ^ 52 \<le> m * 2 ^ (52 - e)" unfolding p(1) using b(1) by (rule mult_le_mono1)
  have hi: "m * 2 ^ (52 - e) < 2 ^ 53" unfolding p(2) using b(2) by simp
  show thesis
    by (rule that[of "m * 2 ^ (52 - e) - 2 ^ 52"]) (use e lo hi in \<open>simp_all flip: e_def\<close>)
qed

text \<open>An integer with at most 53 significant bits is converted exactly.\<close>

lemma nat_to_f64_exact:
  assumes "m < 2 ^ 53"
  shows "f64_scaled (nat_to_f64_mag m) = m * 2 ^ 1074" "nat_to_f64_mag m < 1076 * 2 ^ 52"
proof -
  have "f64_scaled (nat_to_f64_mag m) = m * 2 ^ 1074 \<and> nat_to_f64_mag m < 1076 * 2 ^ 52"
  proof (cases "m = 0")
    case False
    then obtain f where f: "ilog2 m \<le> 52" "m * 2 ^ (52 - ilog2 m) = 2 ^ 52 + f" "f < 2 ^ 52"
      using normalised[of m] assms by blast
    define e where "e = ilog2 m"
    have "nat_to_f64_mag m = (e + 1022) * 2 ^ 52 + (2 ^ 52 + f)"
      using False f(1,2) unfolding nat_to_f64_mag_def e_def Let_def by simp
    then have n: "nat_to_f64_mag m = (e + 1023) * 2 ^ 52 + f" by simp
    have "f64_scaled (nat_to_f64_mag m) = (2 ^ 52 + f) * 2 ^ (e + 1022)"
      unfolding n f64_scaled_ef[OF f(3)] by simp
    also have "\<dots> = m * (2 ^ (52 - e) * 2 ^ (e + 1022))" by (simp only: f(2)[symmetric] e_def mult.assoc)
    also have "2 ^ (52 - e) * 2 ^ (e + 1022) = (2 :: nat) ^ 1074"
      using f(1) by (simp add: e_def flip: power_add)
    finally show ?thesis using n f(1,3) by (simp add: e_def)
  qed (simp add: nat_to_f64_mag_def f64_scaled_def)
  then show "f64_scaled (nat_to_f64_mag m) = m * 2 ^ 1074" "nat_to_f64_mag m < 1076 * 2 ^ 52" by blast+
qed

lemma f64_of_mag:
  assumes "m < 2 ^ 63"
  shows "f64_mag (of_nat m) = m" "\<not> bit (of_nat m :: u64) 63"
    "f64_mag (of_nat (2 ^ 63 + m)) = m" "bit (of_nat (2 ^ 63 + m) :: u64) 63"
proof -
  have u: "unat (of_nat m :: u64) = m" "unat (of_nat (2 ^ 63 + m) :: u64) = 2 ^ 63 + m"
    by (rule unat_of_nat_u64; use assms in simp)+
  have b: "bit (w :: u64) 63 = odd (unat w div 2 ^ 63)" for w
    unfolding bit_iff_odd[of "unat w" 63, symmetric] by (simp add: bit_unsigned_iff)
  show "f64_mag (of_nat m) = m" "f64_mag (of_nat (2 ^ 63 + m)) = m"
    unfolding f64_mag_def unsigned_take_bit_eq u using assms by (simp_all add: take_bit_eq_mod)
  show "\<not> bit (of_nat m :: u64) 63" "bit (of_nat (2 ^ 63 + m) :: u64) 63"
    unfolding b u using assms div_add_self1[of "2 ^ 63" m] by simp_all
qed

text \<open>Widening an \<open>f32\<close> keeps its value.\<close>

lemma f32_to_f64_exact:
  assumes "unat (take_bit 31 w) div 2 ^ 23 < 255"
  shows "f64_scaled (f64_mag (f32_to_f64 w)) = f32_scaled (unat (take_bit 31 w)) * 2 ^ 925 \<and>
    (bit (f32_to_f64 w) 63 \<longleftrightarrow> bit w 31)"
proof -
  define ex f where "ex = unat (take_bit 31 w) div 2 ^ 23" and "f = unat (take_bit 31 w) mod 2 ^ 23"
  have ex: "ex < 255" and f: "f < 2 ^ 23" using assms by (simp_all add: ex_def f_def)
  define mag where "mag = (if ex = 255 then 2047 * 2 ^ 52 + f * 2 ^ 29
     else if 0 < ex then (ex + 896) * 2 ^ 52 + f * 2 ^ 29
     else if f = 0 then 0 else let e = ilog2 f in (e + 873) * 2 ^ 52 + f * 2 ^ (52 - e))"
  have w: "f32_to_f64 w = of_nat (if bit w 31 then 2 ^ 63 + mag else mag)"
    by (simp add: f32_to_f64_def Let_def mag_def ex_def f_def)
  have sc: "f32_scaled (unat (take_bit 31 w)) = (if ex = 0 then f else (2 ^ 23 + f) * 2 ^ (ex - 1))"
    by (simp add: f32_scaled_def Let_def ex_def f_def)
  have "mag < 2 ^ 63 \<and> f64_scaled mag = f32_scaled (unat (take_bit 31 w)) * 2 ^ 925"
  proof (cases "0 < ex")
    case True
    have lt: "f * 2 ^ 29 < 2 ^ 52" using f by simp
    have m: "mag = (ex + 896) * 2 ^ 52 + f * 2 ^ 29" using True ex by (simp add: mag_def)
    obtain k where k: "ex = Suc k" using True by (cases ex) auto
    have "f64_scaled mag = (2 ^ 52 + f * 2 ^ 29) * 2 ^ (k + 896)"
      unfolding m f64_scaled_ef[OF lt] by (simp add: k)
    also have "\<dots> = (2 ^ 23 + f) * (2 ^ 29 * 2 ^ (k + 896))" by (simp add: algebra_simps)
    also have "2 ^ 29 * 2 ^ (k + 896) = 2 ^ k * (2 :: nat) ^ 925"
    proof -
      have "29 + (k + 896) = k + 925" by simp
      then show ?thesis by (simp only: power_add[symmetric])
    qed
    finally show ?thesis using True m ex lt unfolding sc by (simp add: k)
  next
    case False
    then have ex0: "ex = 0" by simp
    show ?thesis
    proof (cases "f = 0")
      case True
      then show ?thesis using ex0 unfolding sc by (simp add: mag_def f64_scaled_def)
    next
      case nz: False
      then obtain g where g: "ilog2 f \<le> 52" "f * 2 ^ (52 - ilog2 f) = 2 ^ 52 + g" "g < 2 ^ 52"
        using normalised[of f] f by auto
      define e where "e = ilog2 f"
      have "mag = (e + 873) * 2 ^ 52 + (2 ^ 52 + g)"
        using nz ex0 g(2) unfolding mag_def Let_def e_def by simp
      then have m: "mag = (e + 874) * 2 ^ 52 + g" by simp
      have "f64_scaled mag = (2 ^ 52 + g) * 2 ^ (e + 873)"
        unfolding m f64_scaled_ef[OF g(3)] by simp
      also have "\<dots> = f * (2 ^ (52 - e) * 2 ^ (e + 873))" by (simp only: g(2)[symmetric] e_def mult.assoc)
      also have "2 ^ (52 - e) * 2 ^ (e + 873) = (2 :: nat) ^ 925"
        using g(1) by (simp add: e_def flip: power_add)
      finally show ?thesis using m g(1,3) ex0 unfolding sc by (simp add: e_def)
    qed
  qed
  then show ?thesis unfolding w using f64_of_mag[of mag] by simp
qed

subsection \<open>Properties\<close>

text \<open>C10. The batch evaluator of a predicate tree over a value slice (typed compare loops, byte
  masks combined by AND, OR and NOT, with a short cut once no row is left) gives the same mask as
  evaluating the tree row by row, for every predicate whose literals fit the column type.\<close>

theorem eval_predicate_correct:
  assumes "length vs = rows * size_of dt" "pred_compatible dt p"
  shows "eval_predicate_bytes p dt vs rows =
    Ok (map (\<lambda>i. if pred_holds p (row_scalar dt vs i) then 1 else 0) [0..<rows])"
  using eval_predicate_mask[OF assms] by (simp add: mask_of_def of_bool8_def)

theorem eval_predicate_correct_witness:
  "eval_predicate_bytes (PAnd [PCmp None Ge (SInt (- 1)), PNot (PCmp None Eq (SUInt 3))]) Int8 [0xFF, 3, 5, 0x80] 4
     = Ok [1, 0, 1, 0]"
proof -
  let ?p = "PAnd [PCmp None Ge (SInt (- 1)), PNot (PCmp None Eq (SUInt 3))]"
  have "eval_predicate_bytes ?p Int8 [0xFF, 3, 5, 0x80] 4 =
      Ok (map (\<lambda>i. if pred_holds ?p (row_scalar Int8 [0xFF, 3, 5, 0x80] i) then 1 else 0) [0..<4])"
    by (rule eval_predicate_correct) simp_all
  also have "map (\<lambda>i. if pred_holds ?p (row_scalar Int8 [0xFF, 3, 5, 0x80] i) then 1 else 0) [0..<4] = [1, 0, 1, 0 :: u8]"
    by code_simp
  finally show ?thesis .
qed

text \<open>Mixed integer and float comparisons are exact where the conversion is: a non-negative
  integer below \<open>2 ^ 53\<close> converts to the \<open>f64\<close> of the same value, and two finite magnitudes are
  ordered as their values are.\<close>

theorem int_to_f64_exact:
  assumes "n < 2 ^ 53"
  shows "f64_scaled (f64_mag (int_to_f64 (int n))) = n * 2 ^ 1074 \<and> \<not> bit (int_to_f64 (int n)) 63 \<and>
    \<not> f64_nan (int_to_f64 (int n))"
proof -
  have "nat_to_f64_mag n < 2 ^ 63" using nat_to_f64_exact(2)[OF assms] by simp
  then show ?thesis
    using nat_to_f64_exact[OF assms] f64_of_mag[of "nat_to_f64_mag n"]
    by (simp add: int_to_f64_def f64_nan_def)
qed

theorem int_to_f64_exact_witness:
  "f64_scaled (f64_mag (int_to_f64 (int 5))) = 5 * 2 ^ 1074 \<and> \<not> bit (int_to_f64 (int 5)) 63"
  using int_to_f64_exact[of 5] by simp

end
