(* ===== verification/Field_Scan.thy ===== *)
theory Field_Scan
  imports Predicates Columns
begin

text \<open>
  The field scanner (\<open>splayed-core/src/field_file.rs\<close>, section Scanner): candidate ranges are
  consumed in order, each in segments of at most \<open>EVAL_CAP\<close> rows; a segment is evaluated to a packed
  bit mask (predicate AND validity) and the mask is read back as maximal runs. The field handle is
  seen through its value region and validity bytes (\<open>scan_source\<close>). The scanner is proved to return
  exactly the matching rows of the candidates, in order, up to the limit.
\<close>

subsection \<open>\<open>next_true_run\<close>\<close>

definition trailing_zeros :: "u64 \<Rightarrow> nat" where
  "trailing_zeros w = length (takeWhile (\<lambda>i. \<not> bit w i) [0..<64])"

function run_start :: "u64 list \<Rightarrow> nat \<Rightarrow> nat \<Rightarrow> ('e, nat option) res" where
  "run_start msk len pos =
     (if length msk \<le> pos div 64 then Panic
      else let w = msk ! (pos div 64) AND push_bit (pos mod 64) (- 1)
        in if w \<noteq> 0 then Ok (Some (pos div 64 * 64 + trailing_zeros w))
           else let pos' = (pos div 64 + 1) * 64
             in if len \<le> pos' then Ok None else run_start msk len pos')"
  by auto
termination by (relation "measure (\<lambda>(msk, len, pos). length msk - pos div 64)") auto

declare run_start.simps [simp del]

function run_end :: "u64 list \<Rightarrow> nat \<Rightarrow> ('e, nat) res" where
  "run_end msk pos =
     (if length msk \<le> pos div 64 then Panic
      else let zeros = drop_bit (pos mod 64) (NOT (msk ! (pos div 64)))
        in if zeros = 0
           then let pos' = (pos div 64 + 1) * 64
                in if length msk \<le> pos' div 64 then Ok pos' else run_end msk pos'
           else Ok (pos + trailing_zeros zeros))"
  by auto
termination by (relation "measure (\<lambda>(msk, pos). length msk - pos div 64)") auto

declare run_end.simps [simp del]

definition next_true_run :: "u64 list \<Rightarrow> nat \<Rightarrow> nat \<Rightarrow> ('e, (nat \<times> nat) option) res" where
  "next_true_run msk len start0 =
     (if len \<le> start0 then Ok None
      else rbind (run_start msk len start0) (\<lambda>st. case st of None \<Rightarrow> Ok None
           | Some start \<Rightarrow> rbind (run_end msk start) (\<lambda>fin. Ok (Some (start, min fin len)))))"

subsection \<open>The scanner\<close>

record scan_source =
  src_type :: data_type
  src_values :: bytes
  src_validity :: "bytes option"

definition range_views ::
  "scan_source \<Rightarrow> nat \<Rightarrow> nat \<Rightarrow> (core_error, bytes \<times> bitmap_view option) res" where
  "range_views src offset len =
     (let s = size_of (src_type src)
      in rbind (slice_r (offset * s) ((offset + len) * s) (src_values src)) (\<lambda>values.
         rbind (case src_validity src of None \<Rightarrow> Ok None
                | Some bits \<Rightarrow> rbind (map_err EFormat (bitmap_view_new bits offset len)) (\<lambda>v. Ok (Some v)))
           (\<lambda>validity. Ok (values, validity))))"

record scanner =
  sc_ranges :: "row_range list"
  sc_predicate :: "predicate option"
  sc_remaining :: "nat option"
  sc_range_index :: nat
  sc_row :: nat
  sc_mask :: "u64 list"
  sc_mask_rows :: nat
  sc_mask_pos :: nat
  sc_done :: bool

definition EVAL_CAP :: nat where
  "EVAL_CAP = 1048576"

text \<open>\<open>FieldHandle::scan\<close>.\<close>

definition field_scan :: "nat \<Rightarrow> row_range list \<Rightarrow> predicate option \<Rightarrow> nat option \<Rightarrow> scanner" where
  "field_scan row_count ranges predicate limit =
     \<lparr>sc_ranges = (if ranges = [] then [rr_new 0 row_count]
                   else List.map_filter (\<lambda>r. rr_intersect r (rr_new 0 row_count)) ranges),
      sc_predicate = predicate, sc_remaining = limit, sc_range_index = 0, sc_row = 0, sc_mask = [],
      sc_mask_rows = 0, sc_mask_pos = 0, sc_done = False\<rparr>"

definition scanner_take :: "scanner \<Rightarrow> row_range \<Rightarrow> row_range \<times> scanner" where
  "scanner_take sc r =
     (case sc_remaining sc of
        Some rem \<Rightarrow> if rem \<le> rr_length r
                    then (rr_new (rr_offset r) rem, sc\<lparr>sc_remaining := Some 0, sc_done := True\<rparr>)
                    else (r, sc\<lparr>sc_remaining := Some (rem - rr_length r)\<rparr>)
      | None \<Rightarrow> (r, sc))"

text \<open>Packing the 0/1 bytes of one word, and the loop over the words.\<close>

definition pack_word :: "u8 list \<Rightarrow> u64" where
  "pack_word bits = foldl (\<lambda>w (j, b). w OR push_bit j (ucast b)) 0 (enumerate 0 bits)"

definition pack_mask :: "nat \<Rightarrow> u8 list \<Rightarrow> u64 list" where
  "pack_mask rows hit = map (\<lambda>wi. pack_word (slice (wi * 64) (min rows (wi * 64 + 64)) hit)) [0..<(rows + 63) div 64]"

text \<open>\<open>*slot &= v.is_valid(i) as u8\<close> over the rows.\<close>

definition apply_validity :: "bitmap_view option \<Rightarrow> u8 list \<Rightarrow> (core_error, u8 list) res" where
  "apply_validity validity hit =
     (case validity of None \<Rightarrow> Ok hit
      | Some v \<Rightarrow> mapM (\<lambda>(i, slot). rbind (view_is_valid v i) (\<lambda>b. Ok (slot AND of_bool8 b))) (enumerate 0 hit))"

definition evaluate_range :: "scan_source \<Rightarrow> scanner \<Rightarrow> nat \<Rightarrow> (core_error, scanner) res" where
  "evaluate_range src sc rows =
     rbind (range_views src (sc_row sc) rows) (\<lambda>(values, validity).
     rbind (case sc_predicate sc of
              Some p \<Rightarrow> eval_predicate_bytes p (src_type src) values rows
            | None \<Rightarrow> Ok (replicate rows 1)) (\<lambda>hit0.
     rbind (apply_validity validity hit0) (\<lambda>hit.
       Ok (sc\<lparr>sc_mask := pack_mask rows hit, sc_mask_rows := rows, sc_mask_pos := 0\<rparr>))))"

text \<open>The inner loop: the next range with rows left, and the row to continue at.\<close>

function scanner_advance :: "row_range list \<Rightarrow> nat \<Rightarrow> nat \<Rightarrow> (nat \<times> nat) option" where
  "scanner_advance ranges idx row =
     (if length ranges \<le> idx then None
      else let r = ranges ! idx; row' = max row (rr_offset r)
        in if row' < rr_end r then Some (idx, row') else scanner_advance ranges (idx + 1) 0)"
  by auto
termination by (relation "measure (\<lambda>(ranges, idx, row). length ranges - idx)") auto

declare scanner_advance.simps [simp del]

lemma evaluate_range_fields:
  assumes "evaluate_range src sc rows = Ok sc'"
  shows "sc_ranges sc' = sc_ranges sc" "sc_range_index sc' = sc_range_index sc" "sc_row sc' = sc_row sc"
    "sc_mask_rows sc' = rows" "sc_mask_pos sc' = 0" "sc_done sc' = sc_done sc"
    "sc_remaining sc' = sc_remaining sc" "sc_predicate sc' = sc_predicate sc"
  using assms by (auto simp: evaluate_range_def res_simps)

lemma scanner_advance_Some:
  assumes "scanner_advance ranges idx row = Some (idx', row')"
  shows "idx \<le> idx'" "idx' < length ranges" "row' < rr_end (ranges ! idx')"
    "idx' = idx \<Longrightarrow> row' = max row (rr_offset (ranges ! idx))"
proof -
  have "idx \<le> idx' \<and> idx' < length ranges \<and> row' < rr_end (ranges ! idx') \<and>
      (idx' = idx \<longrightarrow> row' = max row (rr_offset (ranges ! idx)))"
    using assms
  proof (induction ranges idx row rule: scanner_advance.induct)
    case (1 ranges idx row)
    show ?case
    proof (cases "length ranges \<le> idx \<or> max row (rr_offset (ranges ! idx)) < rr_end (ranges ! idx)")
      case True
      then show ?thesis using "1.prems"
        by (auto simp: scanner_advance.simps[of ranges idx row] Let_def split: if_splits)
    next
      case False
      then have nl: "\<not> length ranges \<le> idx" and nr: "\<not> max row (rr_offset (ranges ! idx)) < rr_end (ranges ! idx)"
        by blast+
      from False have "scanner_advance ranges (idx + 1) 0 = Some (idx', row')"
        using "1.prems" by (auto simp: scanner_advance.simps[of ranges idx row] Let_def split: if_splits)
      then show ?thesis using "1.IH"[OF nl refl refl nr] by auto
    qed
  qed
  then show "idx \<le> idx'" "idx' < length ranges" "row' < rr_end (ranges ! idx')"
    "idx' = idx \<Longrightarrow> row' = max row (rr_offset (ranges ! idx))" by blast+
qed

definition scan_todo :: "scanner \<Rightarrow> nat" where
  "scan_todo sc = (if sc_range_index sc < length (sc_ranges sc)
     then rr_end (sc_ranges sc ! sc_range_index sc) - (sc_row sc + sc_mask_rows sc) else 0)"

function scanner_next :: "scan_source \<Rightarrow> scanner \<Rightarrow> (core_error, row_range option \<times> scanner) res" where
  "scanner_next src sc =
     (if sc_done sc then Ok (None, sc)
      else rbind (if sc_mask_pos sc < sc_mask_rows sc
                  then next_true_run (sc_mask sc) (sc_mask_rows sc) (sc_mask_pos sc) else Ok None) (\<lambda>run.
        case run of
          Some (s, e) \<Rightarrow>
            let (r, sc') = scanner_take (sc\<lparr>sc_mask_pos := e\<rparr>) (rr_new (sc_row sc + s) (e - s))
            in Ok (Some r, sc')
        | None \<Rightarrow>
            let row = sc_row sc + sc_mask_rows sc
            in case scanner_advance (sc_ranges sc) (sc_range_index sc) row of
                 None \<Rightarrow> Ok (None, sc\<lparr>sc_range_index := max (sc_range_index sc) (length (sc_ranges sc)),
                     sc_row := (if length (sc_ranges sc) \<le> sc_range_index sc then row else 0),
                     sc_mask_rows := 0, sc_mask_pos := 0, sc_done := True\<rparr>)
               | Some (idx, row') \<Rightarrow>
                   let fin = min (rr_end (sc_ranges sc ! idx)) (row' + EVAL_CAP)
                   in rbind (evaluate_range src (sc\<lparr>sc_range_index := idx, sc_row := row',
                               sc_mask_rows := 0, sc_mask_pos := 0\<rparr>) (fin - row'))
                        (\<lambda>sc'. scanner_next src sc')))"
  by auto
termination
proof (relation "inv_image (less_than <*lex*> less_than)
    (\<lambda>(src, sc). (length (sc_ranges sc) - sc_range_index sc, scan_todo sc))", goal_cases)
  case (2 src sc run row x2 idx row' fin sc')
  have adv0: "scanner_advance (sc_ranges sc) (sc_range_index sc) (sc_row sc + sc_mask_rows sc) = Some (idx, row')"
    and fin: "fin = min (rr_end (sc_ranges sc ! idx)) (row' + EVAL_CAP)"
    and ev: "evaluate_range src (sc\<lparr>sc_range_index := idx, sc_row := row', sc_mask_rows := 0, sc_mask_pos := 0\<rparr>)
        (fin - row') = Ok sc'"
    using 2 by simp_all
  note adv = scanner_advance_Some[OF adv0] and f = evaluate_range_fields[OF ev]
  have r: "row' < fin" "fin \<le> rr_end (sc_ranges sc ! idx)"
    using adv(3) fin by (auto simp: EVAL_CAP_def)
  show ?case
  proof (cases "idx = sc_range_index sc")
    case True
    then have "scan_todo sc' < scan_todo sc"
      using adv f r by (simp add: scan_todo_def) linarith
    then show ?thesis using f True by simp
  next
    case False
    then have "sc_range_index sc < idx" using adv(1) by simp
    then show ?thesis using f adv(2) by (simp add: diff_less_mono2)
  qed
qed (auto simp: wf_inv_image)

declare scanner_next.simps [simp del]

subsection \<open>Reading runs of the mask\<close>

definition mbit :: "u64 list \<Rightarrow> nat \<Rightarrow> bool" where
  "mbit m j = bit (m ! (j div 64)) (j mod 64)"

lemma trailing_zeros_props:
  assumes "w \<noteq> 0"
  shows "trailing_zeros w < 64" "bit w (trailing_zeros w)" "i < trailing_zeros w \<Longrightarrow> \<not> bit w i"
proof -
  obtain k where k: "bit w k" using assms by (metis bit_eqI bit_0_eq bot_apply bot_bool_def)
  then have "k < 64" by (auto dest: bit_imp_le_length)
  let ?t = "takeWhile (\<lambda>i. \<not> bit w i) [0..<64]"
  have "length ?t \<noteq> length [0..<64]"
  proof
    assume "length ?t = length [0..<64]"
    then have "?t = [0..<64]" by (metis takeWhile_eq_take take_all le_refl)
    then have "\<forall>i \<in> set [0..<64]. \<not> bit w i" by (simp only: takeWhile_eq_all_conv)
    with k \<open>k < 64\<close> show False by simp
  qed
  moreover have "length ?t \<le> length [0..<64]" by (rule length_takeWhile_le)
  ultimately show lt: "trailing_zeros w < 64" by (simp add: trailing_zeros_def)
  then show "bit w (trailing_zeros w)"
    using nth_length_takeWhile[of "\<lambda>i. \<not> bit w i" "[0..<64]"] by (simp add: trailing_zeros_def)
  show "\<not> bit w i" if i: "i < trailing_zeros w"
  proof -
    have "?t ! i = [0..<64] ! i" using i by (simp add: trailing_zeros_def takeWhile_nth)
    moreover have "?t ! i \<in> set ?t" using i by (simp add: trailing_zeros_def)
    ultimately show ?thesis using i lt by (auto dest!: set_takeWhileD)
  qed
qed

lemma same_word:
  fixes pos j :: nat
  assumes "pos \<le> j" "j < (pos div 64 + 1) * 64"
  shows "j div 64 = pos div 64" "pos mod 64 \<le> j mod 64" "j = pos div 64 * 64 + j mod 64"
    "j - pos = j mod 64 - pos mod 64"
proof -
  have "pos div 64 \<le> j div 64" by (rule div_le_mono[OF assms(1)])
  moreover have "j div 64 < pos div 64 + 1" using assms(2) by (simp add: div_less_iff_less_mult)
  ultimately show d: "j div 64 = pos div 64" by simp
  then show "j = pos div 64 * 64 + j mod 64" by (metis div_mult_mod_eq)
  moreover have "pos = pos div 64 * 64 + pos mod 64" by simp
  ultimately show "pos mod 64 \<le> j mod 64" "j - pos = j mod 64 - pos mod 64" using assms(1) by linarith+
qed

lemma word_bound: "pos mod 64 + t < 64 \<Longrightarrow> pos + t < (pos div 64 + 1) * (64 :: nat)"
proof -
  assume "pos mod 64 + t < 64"
  moreover have "pos + t = pos div 64 * 64 + (pos mod 64 + t)" by simp
  ultimately show ?thesis by (simp only: add_mult_distrib mult_1)
qed

lemma run_start_spec:
  assumes "len \<le> 64 * length m" "pos < len"
  shows "case (run_start m len pos :: ('e, _) res) of
      Ok None \<Rightarrow> \<forall>j. pos \<le> j \<and> j < len \<longrightarrow> \<not> mbit m j
    | Ok (Some s) \<Rightarrow> pos \<le> s \<and> s < 64 * length m \<and> mbit m s \<and> (\<forall>j. pos \<le> j \<and> j < s \<longrightarrow> \<not> mbit m j)
    | _ \<Rightarrow> False"
  using assms
proof (induction m len pos rule: run_start.induct)
  case (1 m len pos)
  let ?w = "m ! (pos div 64) AND push_bit (pos mod 64) (- 1)"
  let ?n = "(pos div 64 + 1) * 64"
  have idx: "\<not> length m \<le> pos div 64" using "1.prems" by (simp add: not_le div_less_iff_less_mult)
  have pn: "pos < ?n" by (simp add: dividend_less_div_times)
  have b: "bit ?w i \<longleftrightarrow> i < 64 \<and> pos mod 64 \<le> i \<and> bit (m ! (pos div 64)) i" for i
    by (auto simp: bit_and_iff bit_not_iff bit_mask_iff dest: bit_imp_le_length)
  have mb: "mbit m j \<longleftrightarrow> bit ?w (j mod 64)" if "pos \<le> j" "j < ?n" for j
    using same_word[OF that] unfolding mbit_def b by simp
  show ?case
  proof (cases "?w = 0")
    case False
    let ?s = "pos div 64 * 64 + trailing_zeros ?w"
    note tz = trailing_zeros_props[OF False]
    have run: "run_start m len pos = (Ok (Some ?s) :: ('e, _) res)" using idx False by (subst run_start.simps) (simp add: Let_def)
    have ge: "pos mod 64 \<le> trailing_zeros ?w" using tz(2) b by blast
    have s: "pos \<le> ?s" using ge div_mult_mod_eq[of pos 64] by linarith
    moreover have s2: "?s < ?n" using tz(1) by (simp only: add_mult_distrib mult_1 nat_add_left_cancel_less)
    moreover have "?s mod 64 = trailing_zeros ?w" using tz(1) by simp
    moreover have "\<not> mbit m j" if j: "pos \<le> j" "j < ?s" for j
    proof -
      have "j < ?n" using j s2 by simp
      then have "j mod 64 < trailing_zeros ?w" using same_word(3)[OF j(1)] j(2) by linarith
      then show ?thesis using tz(3) mb[OF j(1) \<open>j < ?n\<close>] by blast
    qed
    moreover have "?n \<le> 64 * length m" using idx by simp
    ultimately show ?thesis using mb[of ?s] tz(2) unfolding run by simp
  next
    case True
    then have none: "\<not> mbit m j" if "pos \<le> j" "j < ?n" for j using mb[OF that] by simp
    show ?thesis
    proof (cases "len \<le> ?n")
      case le: True
      then have "run_start m len pos = (Ok None :: ('e, _) res)" using idx True by (subst run_start.simps) (simp add: Let_def)
      then show ?thesis using none le by simp
    next
      case more: False
      then have run: "run_start m len pos = (run_start m len ?n :: ('e, _) res)"
        using idx True by (subst run_start.simps) (simp add: Let_def)
      have ih: "case (run_start m len ?n :: ('e, _) res) of
          Ok None \<Rightarrow> \<forall>j. ?n \<le> j \<and> j < len \<longrightarrow> \<not> mbit m j
        | Ok (Some s) \<Rightarrow> ?n \<le> s \<and> s < 64 * length m \<and> mbit m s \<and> (\<forall>j. ?n \<le> j \<and> j < s \<longrightarrow> \<not> mbit m j)
        | _ \<Rightarrow> False"
        using "1.IH"[OF idx refl _ refl more] True "1.prems"(1) more by simp
      show ?thesis
      proof (cases "run_start m len ?n :: ('e, _) res")
        case (Ok st)
        show ?thesis
        proof (cases st)
          case None
          have "\<not> mbit m j" if "pos \<le> j" "j < len" for j
            using none[OF that(1)] that ih Ok None by (cases "j < ?n") simp_all
          then show ?thesis unfolding run Ok None by simp
        next
          case (Some s)
          then have s: "?n \<le> s" "s < 64 * length m" "mbit m s" "\<forall>j. ?n \<le> j \<and> j < s \<longrightarrow> \<not> mbit m j"
            using ih Ok by simp_all
          have "\<not> mbit m j" if "pos \<le> j" "j < s" for j
            using none[OF that(1)] that s(4) by (cases "j < ?n") simp_all
          then show ?thesis unfolding run Ok Some using s pn by simp
        qed
      next
        case (Err x)
        with ih show ?thesis by simp
      next
        case Panic
        with ih show ?thesis by simp
      qed
    qed
  qed
qed

lemma run_end_spec:
  assumes "pos < 64 * length m"
  shows "\<exists>e. run_end m pos = (Ok e :: ('e, _) res) \<and> pos \<le> e \<and> e \<le> 64 * length m \<and> (\<forall>j. pos \<le> j \<and> j < e \<longrightarrow> mbit m j) \<and>
    (e < 64 * length m \<longrightarrow> \<not> mbit m e)"
  using assms
proof (induction m pos rule: run_end.induct)
  case (1 m pos)
  let ?z = "drop_bit (pos mod 64) (NOT (m ! (pos div 64)))"
  let ?n = "(pos div 64 + 1) * 64"
  have idx: "\<not> length m \<le> pos div 64" using "1.prems" by (simp add: not_le div_less_iff_less_mult)
  have pn: "pos < ?n" by (simp add: dividend_less_div_times)
  have nl: "?n \<le> 64 * length m" using idx by simp
  have b: "bit ?z i \<longleftrightarrow> pos mod 64 + i < 64 \<and> \<not> bit (m ! (pos div 64)) (pos mod 64 + i)" for i
    by (auto simp: bit_drop_bit_eq bit_not_iff)
  have mb: "mbit m j \<longleftrightarrow> \<not> bit ?z (j - pos)" if "pos \<le> j" "j < ?n" for j
  proof -
    have "pos mod 64 + (j - pos) = j mod 64" "j mod 64 < 64" using same_word[OF that] by simp_all
    then show ?thesis using same_word(1)[OF that] unfolding b mbit_def by simp
  qed
  show ?case
  proof (cases "?z = 0")
    case False
    note tz = trailing_zeros_props[OF False]
    have run: "run_end m pos = (Ok (pos + trailing_zeros ?z) :: ('e, _) res)"
      using idx False by (subst run_end.simps) (simp add: Let_def)
    have "pos mod 64 + trailing_zeros ?z < 64" using tz(2) b by blast
    then have e: "pos + trailing_zeros ?z < ?n" by (rule word_bound)
    have "mbit m j" if "pos \<le> j" "j < pos + trailing_zeros ?z" for j
      using mb[of j] that e tz(3)[of "j - pos"] by simp
    moreover have "\<not> mbit m (pos + trailing_zeros ?z)" using mb[of "pos + trailing_zeros ?z"] e tz(2) by simp
    ultimately show ?thesis using run e nl by (intro exI[of _ "pos + trailing_zeros ?z"]) simp
  next
    case True
    then have ones: "mbit m j" if "pos \<le> j" "j < ?n" for j using mb[OF that] by simp
    show ?thesis
    proof (cases "length m \<le> ?n div 64")
      case end_: True
      then have "run_end m pos = (Ok ?n :: ('e, _) res)" using idx True by (subst run_end.simps) (simp add: Let_def)
      moreover have "64 * length m \<le> ?n" using end_ by simp
      ultimately show ?thesis using ones pn nl by (intro exI[of _ ?n]) auto
    next
      case more: False
      then have run: "run_end m pos = (run_end m ?n :: ('e, _) res)"
        using idx True by (subst run_end.simps) (simp add: Let_def)
      obtain e where e: "run_end m ?n = (Ok e :: ('e, _) res)" "?n \<le> e" "e \<le> 64 * length m"
        "\<forall>j. ?n \<le> j \<and> j < e \<longrightarrow> mbit m j" "e < 64 * length m \<longrightarrow> \<not> mbit m e"
        using "1.IH"[OF idx refl True refl more] more by auto
      have "mbit m j" if "pos \<le> j" "j < e" for j
        using ones[OF that(1)] e(4) that(2) by (cases "j < ?n") auto
      then show ?thesis using run e pn by (intro exI[of _ e]) auto
    qed
  qed
qed

lemma next_true_run_spec:
  assumes "len \<le> 64 * length m" "\<forall>j. len \<le> j \<and> j < 64 * length m \<longrightarrow> \<not> mbit m j"
  shows "case (next_true_run m len pos :: ('e, _) res) of
      Ok None \<Rightarrow> \<forall>j. pos \<le> j \<and> j < len \<longrightarrow> \<not> mbit m j
    | Ok (Some (s, e)) \<Rightarrow> pos \<le> s \<and> s < e \<and> e \<le> len \<and> (\<forall>j. pos \<le> j \<and> j < s \<longrightarrow> \<not> mbit m j) \<and>
        (\<forall>j. s \<le> j \<and> j < e \<longrightarrow> mbit m j) \<and> (e < len \<longrightarrow> \<not> mbit m e)
    | _ \<Rightarrow> False"
proof (cases "len \<le> pos")
  case True
  then show ?thesis by (auto simp: next_true_run_def)
next
  case False
  then have "pos < len" by simp
  note st = run_start_spec[OF assms(1) this, where 'e = 'e]
  show ?thesis
  proof (cases "run_start m len pos :: ('e, _) res")
    case (Ok st)
    show ?thesis
    proof (cases st)
      case None
      then show ?thesis using st Ok False by (simp add: next_true_run_def)
    next
      case (Some s)
      then have s: "pos \<le> s" "s < 64 * length m" "mbit m s" "\<forall>j. pos \<le> j \<and> j < s \<longrightarrow> \<not> mbit m j"
        using st Ok by simp_all
      then have sl: "s < len" using assms(2) by (meson not_le)
      obtain e where e: "run_end m s = (Ok e :: ('e, _) res)" "s \<le> e" "e \<le> 64 * length m"
        "\<forall>j. s \<le> j \<and> j < e \<longrightarrow> mbit m j" "e < 64 * length m \<longrightarrow> \<not> mbit m e"
        using run_end_spec[OF s(2), where 'e = 'e] by blast
      have "s < e" using e(2,5) s(2,3) by (cases "s = e") auto
      then have "next_true_run m len pos = (Ok (Some (s, min e len)) :: ('e, _) res)"
        using False Ok Some e(1) by (simp add: next_true_run_def)
      moreover have "\<not> mbit m (min e len)" if "min e len < len"
      proof -
        have "min e len = e" "e < 64 * length m" using that assms(1) by simp_all
        then show ?thesis using e(5) by simp
      qed
      ultimately show ?thesis using s sl e \<open>s < e\<close> by simp
    qed
  next
    case (Err x)
    with st show ?thesis by simp
  next
    case Panic
    with st show ?thesis by simp
  qed
qed

subsection \<open>Evaluating a segment\<close>

definition src_valid :: "scan_source \<Rightarrow> nat \<Rightarrow> bool" where
  "src_valid src i = (case src_validity src of None \<Rightarrow> True | Some bits \<Rightarrow> get_bit bits i)"

definition src_hit :: "scan_source \<Rightarrow> predicate option \<Rightarrow> nat \<Rightarrow> bool" where
  "src_hit src p i \<longleftrightarrow> (case p of None \<Rightarrow> True
     | Some q \<Rightarrow> pred_holds q (row_scalar (src_type src) (src_values src) i)) \<and> src_valid src i"

text \<open>A source of \<open>n\<close> rows whose predicate fits its type.\<close>

definition src_ok :: "scan_source \<Rightarrow> nat \<Rightarrow> predicate option \<Rightarrow> bool" where
  "src_ok src n p \<longleftrightarrow> length (src_values src) = n * size_of (src_type src) \<and>
     (case src_validity src of None \<Rightarrow> True | Some bits \<Rightarrow> n \<le> 8 * length bits) \<and>
     (case p of None \<Rightarrow> True | Some q \<Rightarrow> pred_compatible (src_type src) q)"

lemma bit_ucast_bool8: "bit (ucast (of_bool8 b) :: u64) t \<longleftrightarrow> t = 0 \<and> b"
  by (simp add: of_bool8_def bit_1_iff)

lemma pack_word_aux:
  "bit (foldl (\<lambda>w (j, b). w OR push_bit j (ucast b)) w0 (enumerate s (map of_bool8 xs)) :: u64) k \<longleftrightarrow>
   bit w0 k \<or> (s \<le> k \<and> k < 64 \<and> k - s < length xs \<and> xs ! (k - s))"
proof (induction xs arbitrary: w0 s)
  case (Cons x xs)
  have "bit (w0 OR push_bit s (ucast (of_bool8 x))) k \<longleftrightarrow> bit w0 k \<or> (s = k \<and> k < 64 \<and> x)"
    by (auto simp: bit_or_iff bit_push_bit_iff bit_ucast_bool8)
  moreover have "xs ! (k - Suc s) = (x # xs) ! (k - s)" "k - Suc s < length xs \<longleftrightarrow> k - s < length (x # xs)"
    if "Suc s \<le> k" using that by (simp add: nth_Cons', simp, linarith)
  ultimately show ?case
    using Cons.IH[of "w0 OR push_bit s (ucast (of_bool8 x))" "Suc s"] by (cases "s = k") auto
qed simp

lemma pack_word_bit: "bit (pack_word (map of_bool8 xs)) k \<longleftrightarrow> k < 64 \<and> k < length xs \<and> xs ! k"
  using pack_word_aux[of 0 0 xs k] by (simp add: pack_word_def)

lemma length_pack_mask [simp]: "length (pack_mask rows hit) = (rows + 63) div 64"
  by (simp add: pack_mask_def)

lemma mbit_pack_mask:
  assumes "j < 64 * length (pack_mask rows (mask_of rows g))"
  shows "mbit (pack_mask rows (mask_of rows g)) j \<longleftrightarrow> j < rows \<and> g j"
proof -
  let ?wi = "j div 64" and ?k = "j mod 64"
  have wi: "?wi < (rows + 63) div 64" using assms by (simp add: div_less_iff_less_mult mult.commute)
  define hi where "hi = min rows (?wi * 64 + 64)"
  have sl: "slice (?wi * 64) hi (mask_of rows g) = map of_bool8 (map g [?wi * 64..<hi])"
    unfolding mask_of_def slice_def hi_def by (simp add: drop_map take_map comp_def) (simp add: take_upt min_def)
  have "mbit (pack_mask rows (mask_of rows g)) j = bit (pack_word (map of_bool8 (map g [?wi * 64..<hi]))) ?k"
    using wi sl by (simp add: mbit_def pack_mask_def hi_def)
  also have "\<dots> \<longleftrightarrow> ?k < hi - ?wi * 64 \<and> g j"
  proof -
    have "[?wi * 64..<hi] ! ?k = j" if "?k < hi - ?wi * 64"
    proof -
      have "?wi * 64 + ?k < hi" using that by linarith
      from nth_upt[OF this] show ?thesis by simp
    qed
    then show ?thesis unfolding pack_word_bit by auto
  qed
  also have "?k < hi - ?wi * 64 \<longleftrightarrow> j < rows"
  proof -
    have "j = ?wi * 64 + ?k" "?k < 64" by simp_all
    then show ?thesis unfolding hi_def by linarith
  qed
  finally show ?thesis .
qed

lemma mapM_enumerate_mask:
  assumes "\<And>i. i < rows \<Longrightarrow> f (i, of_bool8 (g i)) = Ok (of_bool8 (h i))"
  shows "mapM f (enumerate 0 (mask_of rows g)) = Ok (mask_of rows h)"
proof -
  have e: "enumerate 0 (mask_of rows g) = map (\<lambda>i. (i, of_bool8 (g i))) [0..<rows]"
    by (rule nth_equalityI) (simp_all add: mask_of_def nth_enumerate_eq)
  have "mapM f (map k xs) = mapM (\<lambda>x. f (k x)) xs" for k and xs :: "nat list"
    by (induction xs) simp_all
  then show ?thesis
    using mapM_all_Ok[of "[0..<rows]" "\<lambda>i. f (i, of_bool8 (g i))" "\<lambda>i. of_bool8 (h i)"] assms
    unfolding e by (simp add: mask_of_def)
qed

lemma row_scalar_slice:
  assumes "lo + i < hi" "hi \<le> n" "length vs = n * size_of dt"
  shows "row_scalar dt (slice (lo * size_of dt) (hi * size_of dt) vs) i = row_scalar dt vs (lo + i)"
proof -
  let ?s = "size_of dt"
  have "(i + 1) * ?s \<le> (hi - lo) * ?s" using assms(1) by (intro mult_le_mono1) simp
  then have "i * ?s + ?s \<le> hi * ?s - lo * ?s" by (simp add: diff_mult_distrib)
  then have "slice (i * ?s) (i * ?s + ?s) (slice (lo * ?s) (hi * ?s) vs) =
      slice (lo * ?s + i * ?s) (lo * ?s + (i * ?s + ?s)) vs" by (rule slice_slice)
  then show ?thesis unfolding row_scalar_def by (simp add: add_mult_distrib add.assoc)
qed

lemma evaluate_range_eq:
  assumes ok: "src_ok src n (sc_predicate sc)" and fit: "sc_row sc + rows \<le> n"
  shows "evaluate_range src sc rows = Ok (sc\<lparr>sc_mask := pack_mask rows
      (mask_of rows (\<lambda>i. src_hit src (sc_predicate sc) (sc_row sc + i))), sc_mask_rows := rows, sc_mask_pos := 0\<rparr>)"
proof -
  let ?dt = "src_type src" and ?r = "sc_row sc" and ?p = "sc_predicate sc"
  let ?vs = "slice (?r * size_of ?dt) ((?r + rows) * size_of ?dt) (src_values src)"
  have len: "length (src_values src) = n * size_of ?dt" using ok by (simp add: src_ok_def)
  have hi: "(?r + rows) * size_of ?dt \<le> n * size_of ?dt" using fit by (rule mult_le_mono1)
  have lvs: "length ?vs = rows * size_of ?dt" using hi len by (simp add: add_mult_distrib)
  define view where "view = map_option (\<lambda>bits. \<lparr>bv_data = bits, bv_bit_offset = ?r, bv_len = rows\<rparr>) (src_validity src)"
  have v: "range_views src ?r rows = Ok (?vs, view)"
    using ok fit hi len
    by (cases "src_validity src")
       (auto simp: range_views_def src_ok_def view_def rbind_eq_Ok map_err_eq_Ok bitmap_view_new_Ok Let_def)
  define g where "g i = (case ?p of None \<Rightarrow> True | Some q \<Rightarrow> pred_holds q (row_scalar ?dt (src_values src) (?r + i)))" for i
  have hit: "(case ?p of Some p \<Rightarrow> eval_predicate_bytes p ?dt ?vs rows | None \<Rightarrow> Ok (replicate rows 1)) = Ok (mask_of rows g)"
  proof (cases ?p)
    case None
    then show ?thesis by (simp add: g_def[abs_def] mask_of_const)
  next
    case (Some q)
    then have "pred_compatible ?dt q" using ok by (simp add: src_ok_def)
    then have "eval_predicate_bytes q ?dt ?vs rows = Ok (mask_of rows (\<lambda>i. pred_holds q (row_scalar ?dt ?vs i)))"
      by (rule eval_predicate_mask[OF lvs])
    also have "mask_of rows (\<lambda>i. pred_holds q (row_scalar ?dt ?vs i)) = mask_of rows g"
      by (rule mask_of_cong) (use fit len Some in \<open>simp add: row_scalar_slice g_def\<close>)
    finally show ?thesis using Some by simp
  qed
  have "apply_validity view (mask_of rows g) = Ok (mask_of rows (\<lambda>i. g i \<and> src_valid src (?r + i)))"
    by (cases "src_validity src")
      (auto simp: apply_validity_def view_def src_valid_def view_is_valid_eq view_bit_def
        intro!: mapM_enumerate_mask)
  then show ?thesis
    unfolding evaluate_range_def using v hit by (simp add: g_def[abs_def] src_hit_def[abs_def])
qed

subsection \<open>The rows a scanner still has to return\<close>

definition rr_rows :: "row_range \<Rightarrow> nat list" where
  "rr_rows r = [rr_offset r..<rr_offset r + rr_length r]"

fun cand :: "row_range list \<Rightarrow> nat \<Rightarrow> nat list" where
  "cand [] row = []"
| "cand (r # rs) row = [max row (rr_offset r)..<rr_offset r + rr_length r] @ cand rs 0"

definition pending :: "scan_source \<Rightarrow> scanner \<Rightarrow> nat list" where
  "pending src sc =
     (if sc_done sc then []
      else map (\<lambda>j. sc_row sc + j) (filter (mbit (sc_mask sc)) [sc_mask_pos sc..<sc_mask_rows sc]) @
           filter (src_hit src (sc_predicate sc))
             (cand (drop (sc_range_index sc) (sc_ranges sc)) (sc_row sc + sc_mask_rows sc)))"

definition limited :: "nat option \<Rightarrow> nat list \<Rightarrow> nat list" where
  "limited limit xs = (case limit of None \<Rightarrow> xs | Some k \<Rightarrow> take k xs)"

definition scan_inv :: "scan_source \<Rightarrow> nat \<Rightarrow> scanner \<Rightarrow> bool" where
  "scan_inv src n sc \<longleftrightarrow> src_ok src n (sc_predicate sc) \<and>
     (\<forall>r \<in> set (sc_ranges sc). rr_fits r \<and> rr_offset r + rr_length r \<le> n) \<and>
     sc_mask_rows sc \<le> 64 * length (sc_mask sc) \<and>
     (\<forall>j. sc_mask_rows sc \<le> j \<and> j < 64 * length (sc_mask sc) \<longrightarrow> \<not> mbit (sc_mask sc) j)"

lemma cand_advance_None:
  "\<forall>r \<in> set ranges. rr_fits r \<Longrightarrow> scanner_advance ranges idx row = None \<Longrightarrow> cand (drop idx ranges) row = []"
proof (induction ranges idx row rule: scanner_advance.induct)
  case (1 ranges idx row)
  show ?case
  proof (cases "length ranges \<le> idx")
    case nl: False
    then have d: "drop idx ranges = ranges ! idx # drop (idx + 1) ranges" by (simp add: Cons_nth_drop_Suc)
    have fit: "rr_fits (ranges ! idx)" using 1 nl by simp
    have nr: "\<not> max row (rr_offset (ranges ! idx)) < rr_end (ranges ! idx)"
      using "1.prems"(2) nl by (auto simp: scanner_advance.simps[of ranges idx row] Let_def)
    then have "scanner_advance ranges (idx + 1) 0 = None"
      using "1.prems"(2) nl by (simp add: scanner_advance.simps[of ranges idx row] Let_def split: if_splits)
    then have "cand (drop (idx + 1) ranges) 0 = []" using "1.IH"[OF nl refl refl nr "1.prems"(1)] by simp
    moreover have "[max row (rr_offset (ranges ! idx))..<rr_offset (ranges ! idx) + rr_length (ranges ! idx)] = []"
      using nr fit by (intro upt_conv_Nil) (simp only: not_less rr_end_fits)
    ultimately show ?thesis unfolding d cand.simps by simp
  qed simp
qed

lemma cand_advance_Some:
  "\<forall>r \<in> set ranges. rr_fits r \<Longrightarrow> scanner_advance ranges idx row = Some (idx', row') \<Longrightarrow>
   cand (drop idx ranges) row = cand (drop idx' ranges) row' \<and> rr_offset (ranges ! idx') \<le> row'"
proof (induction ranges idx row rule: scanner_advance.induct)
  case (1 ranges idx row)
  have nl: "\<not> length ranges \<le> idx" using "1.prems"(2) by (auto simp: scanner_advance.simps[of ranges idx row])
  then have d: "drop idx ranges = ranges ! idx # drop (idx + 1) ranges" by (simp add: Cons_nth_drop_Suc)
  have fit: "rr_fits (ranges ! idx)" using 1 nl by simp
  show ?case
  proof (cases "max row (rr_offset (ranges ! idx)) < rr_end (ranges ! idx)")
    case True
    then have "idx' = idx" "row' = max row (rr_offset (ranges ! idx))"
      using "1.prems"(2) nl by (auto simp: scanner_advance.simps[of ranges idx row] Let_def)
    then show ?thesis using d by simp
  next
    case False
    then have "scanner_advance ranges (idx + 1) 0 = Some (idx', row')"
      using "1.prems"(2) nl by (auto simp: scanner_advance.simps[of ranges idx row] Let_def split: if_splits)
    moreover have "[max row (rr_offset (ranges ! idx))..<rr_offset (ranges ! idx) + rr_length (ranges ! idx)] = []"
      using False fit by (intro upt_conv_Nil) (simp only: not_less rr_end_fits)
    ultimately show ?thesis using "1.IH"[OF nl refl refl False "1.prems"(1)] unfolding d cand.simps by simp
  qed
qed

lemma filter_upt_run:
  assumes "p \<le> s" "s < e" "e \<le> n" "\<forall>j. p \<le> j \<and> j < s \<longrightarrow> \<not> P j" "\<forall>j. s \<le> j \<and> j < e \<longrightarrow> P j"
  shows "filter P [p..<n] = [s..<e] @ filter P [e..<n]"
proof -
  have "[p..<n] = [p..<s] @ [s..<e] @ [e..<n]"
    using assms(1-3) by (metis le_trans less_imp_le upt_add_eq_append le_add_diff_inverse)
  moreover have "filter P [p..<s] = []" using assms(4) by (simp add: filter_empty_conv)
  moreover have "filter P [s..<e] = [s..<e]" using assms(5) by (simp add: filter_id_conv)
  ultimately show ?thesis by simp
qed

lemma upt_split: "a \<le> b \<Longrightarrow> b \<le> c \<Longrightarrow> [a..<c] = [a..<b] @ [b..<c::nat]"
  by (metis upt_add_eq_append le_add_diff_inverse)

lemma limited_Nil [simp]: "limited x [] = []"
  by (simp add: limited_def split: option.splits)

subsection \<open>One call of \<open>next\<close>\<close>

definition next_ok :: "scan_source \<Rightarrow> nat \<Rightarrow> scanner \<Rightarrow> (core_error, row_range option \<times> scanner) res \<Rightarrow> bool" where
  "next_ok src n sc out \<longleftrightarrow> (case out of
     Ok (None, sc') \<Rightarrow> pending src sc = [] \<and> sc_done sc'
   | Ok (Some r, sc') \<Rightarrow> pending src sc \<noteq> [] \<and> scan_inv src n sc' \<and>
       limited (sc_remaining sc) (pending src sc) = rr_rows r @ limited (sc_remaining sc') (pending src sc') \<and>
       length (pending src sc') < length (pending src sc)
   | _ \<Rightarrow> False)"

lemma take_spec:
  assumes take_eq: "scanner_take sc r = (r', sc')" and nd: "\<not> sc_done sc"
    and P: "pending src sc0 = rr_rows r @ pending src sc" and rem: "sc_remaining sc0 = sc_remaining sc"
    and r: "0 < rr_length r"
  shows "limited (sc_remaining sc0) (pending src sc0) = rr_rows r' @ limited (sc_remaining sc') (pending src sc')"
    "length (pending src sc') < length (pending src sc0)"
proof -
  have pend: "pending src (sc\<lparr>sc_remaining := x\<rparr>) = pending src sc" for x by (simp add: pending_def)
  have over: "pending src (sc\<lparr>sc_remaining := x, sc_done := True\<rparr>) = []" for x by (simp add: pending_def)
  have l: "length (rr_rows r) = rr_length r" by (simp add: rr_rows_def)
  show "limited (sc_remaining sc0) (pending src sc0) = rr_rows r' @ limited (sc_remaining sc') (pending src sc')"
  proof (cases "sc_remaining sc")
    case None
    then show ?thesis using take_eq P rem by (auto simp: scanner_take_def limited_def)
  next
    case (Some k)
    show ?thesis
    proof (cases "k \<le> rr_length r")
      case True
      then have "rr_rows r' = take k (rr_rows r)" "pending src sc' = []"
        using take_eq Some over by (auto simp: scanner_take_def rr_rows_def take_upt)
      then show ?thesis using Some rem P l True by (simp add: limited_def[of "Some k"])
    next
      case False
      then have "r' = r" "sc' = sc\<lparr>sc_remaining := Some (k - rr_length r)\<rparr>"
        using take_eq Some by (auto simp: scanner_take_def)
      then show ?thesis using Some rem P l False pend by (simp add: limited_def)
    qed
  qed
  show "length (pending src sc') < length (pending src sc0)"
    using take_eq P l r pend over
    by (auto simp: scanner_take_def split: option.splits if_splits)
qed

lemma scanner_next_ok: "scan_inv src n sc \<Longrightarrow> next_ok src n sc (scanner_next src sc)"
proof (induction src sc rule: scanner_next.induct)
  case (1 src sc)
  let ?m = "sc_mask sc" and ?rows = "sc_mask_rows sc" and ?pos = "sc_mask_pos sc"
  have inv: "src_ok src n (sc_predicate sc)" "\<forall>r \<in> set (sc_ranges sc). rr_fits r \<and> rr_offset r + rr_length r \<le> n"
    "?rows \<le> 64 * length ?m" "\<forall>j. ?rows \<le> j \<and> j < 64 * length ?m \<longrightarrow> \<not> mbit ?m j"
    using "1.prems" by (simp_all add: scan_inv_def)
  show ?case
  proof (cases "sc_done sc")
    case True
    then show ?thesis by (simp add: scanner_next.simps[of src sc] next_ok_def pending_def)
  next
    case nd: False
    define run where "run = (if ?pos < ?rows then next_true_run ?m ?rows ?pos else Ok None :: (core_error, (nat \<times> nat) option) res)"
    have spec: "case run of
        Ok None \<Rightarrow> \<forall>j. ?pos \<le> j \<and> j < ?rows \<longrightarrow> \<not> mbit ?m j
      | Ok (Some (s, e)) \<Rightarrow> ?pos \<le> s \<and> s < e \<and> e \<le> ?rows \<and> (\<forall>j. ?pos \<le> j \<and> j < s \<longrightarrow> \<not> mbit ?m j) \<and>
          (\<forall>j. s \<le> j \<and> j < e \<longrightarrow> mbit ?m j) \<and> (e < ?rows \<longrightarrow> \<not> mbit ?m e)
      | _ \<Rightarrow> False"
      unfolding run_def using next_true_run_spec[OF inv(3,4), of ?pos, where 'e = core_error] by auto
    then obtain o' where o': "run = Ok o'" by (cases run) simp_all
    show ?thesis
    proof (cases o')
      case (Some se)
      then obtain s e where se: "o' = Some (s, e)" by (cases se) auto
      then have S: "?pos \<le> s" "s < e" "e \<le> ?rows" "\<forall>j. ?pos \<le> j \<and> j < s \<longrightarrow> \<not> mbit ?m j"
        "\<forall>j. s \<le> j \<and> j < e \<longrightarrow> mbit ?m j" using spec o' by simp_all
      obtain r sc' where tk: "scanner_take (sc\<lparr>sc_mask_pos := e\<rparr>) (rr_new (sc_row sc + s) (e - s)) = (r, sc')"
        by (cases "scanner_take (sc\<lparr>sc_mask_pos := e\<rparr>) (rr_new (sc_row sc + s) (e - s))")
      have nx: "scanner_next src sc = Ok (Some r, sc')"
        using nd o' se tk by (simp add: scanner_next.simps[of src sc] flip: run_def)
      have "map (\<lambda>j. sc_row sc + j) [s..<e] = rr_rows (rr_new (sc_row sc + s) (e - s))"
        using S(2) by (intro nth_equalityI) (simp_all add: rr_rows_def)
      then have P: "pending src sc = rr_rows (rr_new (sc_row sc + s) (e - s)) @ pending src (sc\<lparr>sc_mask_pos := e\<rparr>)"
        using nd by (simp add: pending_def filter_upt_run[OF S])
      have "\<not> sc_done (sc\<lparr>sc_mask_pos := e\<rparr>)" "sc_remaining sc = sc_remaining (sc\<lparr>sc_mask_pos := e\<rparr>)"
        "0 < rr_length (rr_new (sc_row sc + s) (e - s))" using nd S(2) by simp_all
      note T = take_spec[OF tk this(1) P this(2,3)]
      have "scan_inv src n sc'"
        using tk "1.prems" by (auto simp: scanner_take_def scan_inv_def split: option.splits if_splits)
      then show ?thesis unfolding nx next_ok_def using T by auto
    next
      case None
      then have empty: "filter (mbit ?m) [?pos..<?rows] = []"
        using spec o' by (simp add: filter_empty_conv)
      let ?row = "sc_row sc + ?rows"
      have fits: "\<forall>r \<in> set (sc_ranges sc). rr_fits r" using inv(2) by blast
      show ?thesis
      proof (cases "scanner_advance (sc_ranges sc) (sc_range_index sc) ?row")
        case adv: None
        then have "pending src sc = []" using empty cand_advance_None[OF fits adv] by (simp add: pending_def)
        then show ?thesis
          using nd o' None adv by (simp add: scanner_next.simps[of src sc] next_ok_def flip: run_def)
      next
        case adv: (Some p)
        obtain idx row' where p: "p = (idx, row')" by (cases p)
        note A = scanner_advance_Some[OF adv[unfolded p]] and C = cand_advance_Some[OF fits adv[unfolded p]]
        define fin where "fin = min (rr_end (sc_ranges sc ! idx)) (row' + EVAL_CAP)"
        let ?sc1 = "sc\<lparr>sc_range_index := idx, sc_row := row', sc_mask_rows := 0, sc_mask_pos := 0\<rparr>"
        define sc' where "sc' = ?sc1\<lparr>sc_mask := pack_mask (fin - row')
            (mask_of (fin - row') (\<lambda>i. src_hit src (sc_predicate sc) (row' + i))),
            sc_mask_rows := fin - row', sc_mask_pos := 0\<rparr>"
        have R: "rr_fits (sc_ranges sc ! idx)" "rr_offset (sc_ranges sc ! idx) + rr_length (sc_ranges sc ! idx) \<le> n"
          using inv(2) A(2) by simp_all
        have fin: "row' < fin" "fin \<le> rr_offset (sc_ranges sc ! idx) + rr_length (sc_ranges sc ! idx)"
          using A(3) R(1) by (auto simp: fin_def EVAL_CAP_def)
        have ev: "evaluate_range src ?sc1 (fin - row') = Ok sc'"
          using evaluate_range_eq[of src n ?sc1 "fin - row'"] inv(1) fin R(2) by (simp add: sc'_def)
        have nx: "scanner_next src sc = scanner_next src sc'"
          using nd o' None adv p ev
          by (simp add: scanner_next.simps[of src sc] fin_def flip: run_def)
        let ?g = "\<lambda>i. src_hit src (sc_predicate sc) (row' + i)"
        have mb: "mbit (sc_mask sc') j \<longleftrightarrow> j < fin - row' \<and> ?g j" if "j < 64 * length (sc_mask sc')" for j
          using mbit_pack_mask[of j "fin - row'" ?g] that by (simp add: sc'_def)
        have big: "fin - row' \<le> 64 * length (sc_mask sc')" by (simp add: sc'_def)
        have inv': "scan_inv src n sc'"
          using inv(1,2) big mb by (simp add: scan_inv_def) (simp add: sc'_def)
        have "drop idx (sc_ranges sc) = sc_ranges sc ! idx # drop (idx + 1) (sc_ranges sc)"
          using A(2) by (simp add: Cons_nth_drop_Suc)
        then have C1: "cand (drop idx (sc_ranges sc)) x =
            [max x (rr_offset (sc_ranges sc ! idx))..<rr_offset (sc_ranges sc ! idx) + rr_length (sc_ranges sc ! idx)] @
            cand (drop (idx + 1) (sc_ranges sc)) 0" for x by simp
        have split: "cand (drop idx (sc_ranges sc)) row' = [row'..<fin] @ cand (drop idx (sc_ranges sc)) fin"
          unfolding C1 append_assoc[symmetric] using C fin
          by (simp add: max_absorb1 upt_split[of row' fin, symmetric])
        have "filter (mbit (sc_mask sc')) [0..<fin - row'] = filter ?g [0..<fin - row']"
          using mb big by (intro filter_cong) auto
        moreover have "map (\<lambda>j. row' + j) (filter ?g [0..<fin - row']) = filter (src_hit src (sc_predicate sc)) [row'..<fin]"
        proof -
          have "[row'..<fin] = map (\<lambda>j. row' + j) [0..<fin - row']"
            using fin(1) by (intro nth_equalityI) simp_all
          then show ?thesis by (simp add: filter_map comp_def)
        qed
        ultimately have "pending src sc' = filter (src_hit src (sc_predicate sc)) (cand (drop idx (sc_ranges sc)) row')"
          using nd fin(1) by (simp add: pending_def split) (simp add: sc'_def)
        then have same: "pending src sc' = pending src sc"
          using nd empty C by (simp add: pending_def)
        have rem: "sc_remaining sc' = sc_remaining sc" by (simp add: sc'_def)
        have r0: "(if ?pos < ?rows then next_true_run ?m ?rows ?pos else Ok None) =
            (Ok None :: (core_error, (nat \<times> nat) option) res)"
          using o' None unfolding run_def by simp
        have "next_ok src n sc' (scanner_next src sc')"
          by (rule "1.IH"[OF nd r0 refl refl adv p[symmetric] refl ev[unfolded fin_def] inv'])
        then show ?thesis unfolding nx next_ok_def same rem .
      qed
    qed
  qed
qed

subsection \<open>Draining the scanner\<close>

text \<open>Calling \<open>next\<close> until it returns \<open>None\<close>; \<open>None\<close> stands for fuel that ran out.\<close>

fun scan_collect :: "nat \<Rightarrow> scan_source \<Rightarrow> scanner \<Rightarrow> (core_error, row_range list option) res" where
  "scan_collect 0 src sc = Ok None"
| "scan_collect (Suc fuel) src sc = rbind (scanner_next src sc) (\<lambda>(r, sc'). case r of
     None \<Rightarrow> Ok (Some [])
   | Some r \<Rightarrow> rbind (scan_collect fuel src sc') (\<lambda>rs. Ok (map_option ((#) r) rs)))"

lemma scan_collect_rows:
  "scan_inv src n sc \<Longrightarrow> length (pending src sc) < fuel \<Longrightarrow>
   \<exists>rs. scan_collect fuel src sc = Ok (Some rs) \<and>
        concat (map rr_rows rs) = limited (sc_remaining sc) (pending src sc)"
proof (induction fuel arbitrary: sc)
  case (Suc fuel)
  have ok: "next_ok src n sc (scanner_next src sc)" by (rule scanner_next_ok[OF Suc.prems(1)])
  then obtain r sc' where nx: "scanner_next src sc = Ok (r, sc')"
    by (cases "scanner_next src sc") (auto simp: next_ok_def)
  show ?case
  proof (cases r)
    case None
    then show ?thesis using ok nx by (simp add: next_ok_def)
  next
    case (Some r0)
    then have A: "scan_inv src n sc'" "length (pending src sc') < length (pending src sc)"
      "limited (sc_remaining sc) (pending src sc) = rr_rows r0 @ limited (sc_remaining sc') (pending src sc')"
      using ok nx by (simp_all add: next_ok_def)
    then obtain rs where "scan_collect fuel src sc' = Ok (Some rs)"
      "concat (map rr_rows rs) = limited (sc_remaining sc') (pending src sc')"
      using Suc.IH[OF A(1)] Suc.prems(2) by auto
    then show ?thesis using nx Some A(3) by simp
  qed
qed simp

definition requested :: "nat \<Rightarrow> row_range list \<Rightarrow> nat list" where
  "requested n ranges = (if ranges = [] then [0..<n]
     else concat (map (\<lambda>r. [rr_offset r..<min n (rr_offset r + rr_length r)]) ranges))"

lemma cand_clip:
  assumes "n < 2 ^ 64"
  shows "\<forall>r \<in> set ranges. rr_fits r \<Longrightarrow>
    cand (List.map_filter (\<lambda>r. rr_intersect r (rr_new 0 n)) ranges) 0 =
    concat (map (\<lambda>r. [rr_offset r..<min n (rr_offset r + rr_length r)]) ranges)"
proof (induction ranges)
  case (Cons r ranges)
  have "rr_fits (rr_new 0 n)" using assms by (simp add: rr_fits_def)
  then show ?case using Cons
    by (cases "rr_offset r < min n (rr_offset r + rr_length r)")
       (auto simp: rr_intersect_def Let_def List.map_filter_simps min.commute)
qed (simp add: List.map_filter_simps)

lemma field_scan_start:
  assumes "src_ok src n p" "n < 2 ^ 64" "\<forall>r \<in> set ranges. rr_fits r"
  shows "scan_inv src n (field_scan n ranges p limit)"
    "pending src (field_scan n ranges p limit) = filter (src_hit src p) (requested n ranges)"
proof -
  have fn: "rr_fits (rr_new 0 n)" using assms(2) by (simp add: rr_fits_def)
  have "rr_fits r' \<and> rr_offset r' + rr_length r' \<le> n"
    if mem: "r' \<in> set (List.map_filter (\<lambda>r. rr_intersect r (rr_new 0 n)) ranges)" for r'
  proof -
    obtain r where r: "r \<in> set ranges" "rr_intersect r (rr_new 0 n) = Some r'"
      using mem by (force simp: List.map_filter_def)
    then have "rr_fits r'" using assms(3) rr_intersect_Some(1)[OF _ fn] by blast
    moreover have "rr_offset r' + rr_length r' \<le> n"
      using r(2) fn by (auto simp: rr_intersect_def Let_def split: if_splits)
    ultimately show ?thesis by simp
  qed
  then show "scan_inv src n (field_scan n ranges p limit)"
    using assms(1) fn by (simp add: scan_inv_def field_scan_def)
  show "pending src (field_scan n ranges p limit) = filter (src_hit src p) (requested n ranges)"
    using cand_clip[OF assms(2,3)] by (simp add: pending_def field_scan_def requested_def)
qed

text \<open>C8. Draining a field scanner over a value region of \<open>n\<close> rows returns, within as many calls of
  \<open>next\<close> as there are requested rows plus one, ranges whose rows are exactly the requested rows (clipped
  to the field) that are valid and satisfy the predicate, in request order, cut after the limit.\<close>

theorem field_scan_correct:
  assumes "src_ok src n p" "n < 2 ^ 64" "\<forall>r \<in> set ranges. rr_fits r"
    and "length (requested n ranges) < fuel"
  shows "\<exists>rs. scan_collect fuel src (field_scan n ranges p limit) = Ok (Some rs) \<and>
    concat (map rr_rows rs) = limited limit (filter (src_hit src p) (requested n ranges))"
proof -
  note S = field_scan_start[OF assms(1-3), of limit]
  have "length (filter (src_hit src p) (requested n ranges)) < fuel"
    using length_filter_le assms(4) by (rule le_less_trans)
  then have "length (pending src (field_scan n ranges p limit)) < fuel" by (simp add: S(2))
  from scan_collect_rows[OF S(1) this] show ?thesis
    unfolding S(2) by (simp add: field_scan_def)
qed

theorem field_scan_correct_witness:
  "\<exists>rs. scan_collect 8 \<lparr>src_type = UInt8, src_values = [5, 7, 0, 9, 8, 1], src_validity = Some [0x3B]\<rparr>
       (field_scan 6 [rr_new 0 2, rr_new 3 9] (Some (PCmp (Some ''v'') Ge (SUInt 7))) (Some 2)) = Ok (Some rs) \<and>
     concat (map rr_rows rs) = [1, 3]"
  (is "\<exists>rs. scan_collect 8 ?src ?sc = _ \<and> _")
proof -
  have "filter (src_hit ?src (Some (PCmp (Some ''v'') Ge (SUInt 7)))) (requested 6 [rr_new 0 2, rr_new 3 9]) = [1, 3, 4]"
    by code_simp
  then show ?thesis
    using field_scan_correct[of ?src 6 "Some (PCmp (Some ''v'') Ge (SUInt 7))" "[rr_new 0 2, rr_new 3 9]" 8 "Some 2"]
    by (simp add: src_ok_def requested_def rr_fits_def limited_def)
qed

text \<open>One run search over a packed mask returns the first maximal run of set bits at or after the
  start position, cut at the row count, and nothing exactly when no row from there on is set.\<close>

theorem next_true_run_first_run:
  assumes "len \<le> 64 * length m" "\<forall>j. len \<le> j \<and> j < 64 * length m \<longrightarrow> \<not> mbit m j"
  shows "case (next_true_run m len p :: (core_error, (nat \<times> nat) option) res) of
        Ok None \<Rightarrow> \<forall>j. p \<le> j \<and> j < len \<longrightarrow> \<not> mbit m j
      | Ok (Some (s, e)) \<Rightarrow> p \<le> s \<and> s < e \<and> e \<le> len \<and> (\<forall>j. p \<le> j \<and> j < s \<longrightarrow> \<not> mbit m j) \<and>
          (\<forall>j. s \<le> j \<and> j < e \<longrightarrow> mbit m j) \<and> (e < len \<longrightarrow> \<not> mbit m e)
      | _ \<Rightarrow> False"
  by (rule next_true_run_spec[OF assms])

theorem next_true_run_first_run_witness:
  "case (next_true_run [0x23] 64 2 :: (core_error, (nat \<times> nat) option) res) of
      Ok None \<Rightarrow> \<forall>j. 2 \<le> j \<and> j < 64 \<longrightarrow> \<not> mbit [0x23] j
    | Ok (Some (s, e)) \<Rightarrow> 2 \<le> s \<and> s < e \<and> e \<le> 64 \<and> (\<forall>j. 2 \<le> j \<and> j < s \<longrightarrow> \<not> mbit [0x23] j) \<and>
        (\<forall>j. s \<le> j \<and> j < e \<longrightarrow> mbit [0x23] j) \<and> (e < 64 \<longrightarrow> \<not> mbit [0x23] e)
    | _ \<Rightarrow> False"
  by (rule next_true_run_first_run) auto

end
