(* ===== verification/Range_Lists.thy ===== *)
theory Range_Lists
  imports Field_Scan
begin

text \<open>
  The two-pointer intersection of two merged range lists (\<open>intersect_range_lists\<close> of
  \<open>splayed-core/src/dataset.rs\<close>; \<open>scan_index_handle\<close> of \<open>meta_file.rs\<close> has the same
  loop inline). On ascending lists it keeps, in order, the rows of the first that lie in the second.
\<close>

function intersect_lists :: "row_range list \<Rightarrow> row_range list \<Rightarrow> row_range list" where
  "intersect_lists [] bs = []"
| "intersect_lists (a # as) [] = []"
| "intersect_lists (a # as) (b # bs) =
     (let lo = max (rr_offset a) (rr_offset b); hi = min (rr_end a) (rr_end b);
          out = (if lo < hi then [rr_new lo (hi - lo)] else [])
      in if rr_end a \<le> rr_end b then out @ intersect_lists as (b # bs) else out @ intersect_lists (a # as) bs)"
  by pat_completeness auto
termination by (relation "measure (\<lambda>(as, bs). length as + length bs)") auto

definition rows_list :: "row_range list \<Rightarrow> nat list" where
  "rows_list rs = concat (map rr_rows rs)"

lemma set_rr_rows [simp]: "set (rr_rows r) = rows_of r"
  by (simp add: rr_rows_def rows_of_def)

lemma set_rows_list [simp]: "set (rows_list rs) = rows_all rs"
  by (auto simp: rows_list_def rows_all_def)

lemma rows_list_simps [simp]:
  "rows_list [] = []" "rows_list (r # rs) = rr_rows r @ rows_list rs" "rows_list (rs @ ss) = rows_list rs @ rows_list ss"
  by (simp_all add: rows_list_def)

lemma rows_list_interval: "rows_list (if lo < hi then [rr_new lo (hi - lo)] else []) = [lo..<hi]"
  by (simp add: rr_rows_def)

text \<open>Ascending ranges; neighbours may touch.\<close>

fun ascending :: "row_range list \<Rightarrow> bool" where
  "ascending (a # b # rs) \<longleftrightarrow> rr_offset a + rr_length a \<le> rr_offset b \<and> ascending (b # rs)"
| "ascending _ \<longleftrightarrow> True"

lemma separated_ascending: "separated rs \<Longrightarrow> ascending rs"
  by (induction rs rule: ascending.induct) simp_all

lemma ascending_Cons_above:
  "ascending (r # rs) \<Longrightarrow> \<forall>x \<in> rows_all rs. rr_offset r + rr_length r \<le> x"
proof (induction rs arbitrary: r)
  case (Cons s rs)
  then have "\<forall>x \<in> rows_all rs. rr_offset s + rr_length s \<le> x" "rr_offset r + rr_length r \<le> rr_offset s" by simp_all
  then show ?case by (auto simp: rows_of_def)
qed simp

lemma ascending_tl: "ascending (r # rs) \<Longrightarrow> ascending rs"
  by (cases rs) simp_all

lemma rows_list_sorted: "ascending rs \<Longrightarrow> sorted_wrt (<) (rows_list rs)"
proof (induction rs)
  case (Cons r rs)
  have "\<forall>x \<in> rows_all rs. rr_offset r + rr_length r \<le> x" by (rule ascending_Cons_above[OF Cons.prems])
  moreover have "sorted_wrt (<) (rows_list rs)" using Cons ascending_tl by blast
  ultimately show ?case by (auto simp: sorted_wrt_append rows_of_def rr_rows_def)
qed simp

lemma sorted_rows_ascending:
  "sorted_wrt (<) (rows_list rs) \<Longrightarrow> \<forall>r \<in> set rs. 0 < rr_length r \<Longrightarrow> ascending rs"
proof (induction rs rule: ascending.induct)
  case (1 a b rs)
  have "rr_offset a + rr_length a - 1 \<in> set (rr_rows a)" "rr_offset b \<in> set (rr_rows b)"
    using 1(3) by (auto simp: rows_of_def)
  then have "rr_offset a + rr_length a - 1 < rr_offset b"
    using 1(2) unfolding rows_list_simps sorted_wrt_append by (metis UnCI set_append)
  moreover have "ascending (b # rs)"
    by (rule 1(1)) (use 1(2,3) in \<open>simp_all add: sorted_wrt_append\<close>)
  ultimately show ?case by simp
qed simp_all

text \<open>What the clamped requests and the scanners consist of.\<close>

definition scan_ranges :: "row_range list \<Rightarrow> bool" where
  "scan_ranges rs \<longleftrightarrow> ascending rs \<and> (\<forall>r \<in> set rs. rr_fits r)"

lemma filter_upt_interval: "filter (\<lambda>x. lo \<le> x \<and> x < hi) [a..<b] = [max a lo..<min b hi]"
  by (rule sorted_distinct_set_unique) (auto intro: sorted_wrt_filter)

lemma intersect_lists_rows:
  "\<lbrakk>ascending as; ascending bs; \<forall>r \<in> set as. rr_fits r; \<forall>r \<in> set bs. rr_fits r\<rbrakk> \<Longrightarrow>
   rows_list (intersect_lists as bs) = filter (\<lambda>x. x \<in> rows_all bs) (rows_list as)"
proof (induction as bs rule: intersect_lists.induct)
  case (3 a as b bs)
  let ?a0 = "rr_offset a" and ?a1 = "rr_offset a + rr_length a"
  let ?b0 = "rr_offset b" and ?b1 = "rr_offset b + rr_length b"
  have e: "rr_end a = ?a1" "rr_end b = ?b1" using 3 by simp_all
  have up: "\<forall>x \<in> rows_all as. ?a1 \<le> x" "\<forall>x \<in> rows_all bs. ?b1 \<le> x"
    using ascending_Cons_above[OF 3(3)] ascending_Cons_above[OF 3(4)] .
  define out where "out = (if max ?a0 ?b0 < min ?a1 ?b1 then [rr_new (max ?a0 ?b0) (min ?a1 ?b1 - max ?a0 ?b0)] else [])"
  have out: "rows_list out = [max ?a0 ?b0..<min ?a1 ?b1]" unfolding out_def by (rule rows_list_interval)
  have ra: "rr_rows a = [?a0..<?a1]" by (simp add: rr_rows_def)
  have inb: "x \<in> rows_all (b # bs) \<longleftrightarrow> ?b0 \<le> x \<and> x < ?b1" if "x < ?b1" for x
    using up(2) that by (auto simp: rows_of_def)
  show ?case
  proof (cases "?a1 \<le> ?b1")
    case True
    have "filter (\<lambda>x. x \<in> rows_all (b # bs)) (rr_rows a) = filter (\<lambda>x. ?b0 \<le> x \<and> x < ?b1) [?a0..<?a1]"
      unfolding ra by (rule filter_cong[OF refl]) (rule inb, use True in simp)
    also have "\<dots> = rows_list out" unfolding out by (rule filter_upt_interval)
    finally have first: "filter (\<lambda>x. x \<in> rows_all (b # bs)) (rr_rows a) = rows_list out" .
    have "rows_list (intersect_lists as (b # bs)) = filter (\<lambda>x. x \<in> rows_all (b # bs)) (rows_list as)"
      by (rule "3.IH"(1)[OF refl refl refl]) (use 3(3-6) e True ascending_tl in auto)
    moreover have "intersect_lists (a # as) (b # bs) = out @ intersect_lists as (b # bs)"
      using True by (simp add: e out_def Let_def)
    ultimately show ?thesis by (simp only: rows_list_simps filter_append first)
  next
    case False
    have "filter (\<lambda>x. x \<in> rows_all (b # bs)) (rr_rows a @ rows_list as) =
        rows_list out @ filter (\<lambda>x. x \<in> rows_all bs) (rr_rows a @ rows_list as)"
    proof -
      have "filter (\<lambda>x. x \<in> rows_all (b # bs)) (rows_list as) = filter (\<lambda>x. x \<in> rows_all bs) (rows_list as)"
        using up(1) False by (intro filter_cong) (auto simp: rows_of_def)
      moreover have "filter (\<lambda>x. x \<in> rows_all (b # bs)) (rr_rows a) =
          rows_list out @ filter (\<lambda>x. x \<in> rows_all bs) (rr_rows a)"
      proof (cases "?a0 \<le> ?b1")
        case True
        then have s: "[?a0..<?a1] = [?a0..<?b1] @ [?b1..<?a1]" using False by (intro upt_split) simp_all
        have "filter (\<lambda>x. x \<in> rows_all (b # bs)) [?a0..<?b1] = filter (\<lambda>x. ?b0 \<le> x \<and> x < ?b1) [?a0..<?b1]"
          by (rule filter_cong[OF refl]) (rule inb, simp)
        also have "\<dots> = rows_list out" unfolding out filter_upt_interval using False by (simp add: min_def)
        finally have 1: "filter (\<lambda>x. x \<in> rows_all (b # bs)) [?a0..<?b1] = rows_list out" .
        have 2: "filter (\<lambda>x. x \<in> rows_all bs) [?a0..<?b1] = []" using up(2) by (auto simp: filter_empty_conv)
        have 3: "filter (\<lambda>x. x \<in> rows_all (b # bs)) [?b1..<?a1] = filter (\<lambda>x. x \<in> rows_all bs) [?b1..<?a1]"
          by (rule filter_cong[OF refl]) (auto simp: rows_of_def)
        show ?thesis unfolding ra s filter_append 1 2 3 by simp
      next
        case nb: False
        have "rows_list out = []" unfolding out using nb by (simp add: min_def max_def)
        moreover have "filter (\<lambda>x. x \<in> rows_all (b # bs)) (rr_rows a) = filter (\<lambda>x. x \<in> rows_all bs) (rr_rows a)"
          using nb by (intro filter_cong) (auto simp: rows_of_def)
        ultimately show ?thesis by simp
      qed
      ultimately show ?thesis by simp
    qed
    moreover have "rows_list (intersect_lists (a # as) bs) = filter (\<lambda>x. x \<in> rows_all bs) (rows_list (a # as))"
      by (rule "3.IH"(2)[OF refl refl refl]) (use 3(3-6) e False ascending_tl in auto)
    moreover have "intersect_lists (a # as) (b # bs) = out @ intersect_lists (a # as) bs"
      using False by (simp add: e out_def Let_def)
    ultimately show ?thesis by (simp only: rows_list_simps)
  qed
qed simp_all

lemma intersect_lists_nonempty:
  "\<forall>r \<in> set as. rr_fits r \<Longrightarrow> \<forall>r \<in> set bs. rr_fits r \<Longrightarrow> r \<in> set (intersect_lists as bs) \<Longrightarrow> rr_fits r \<and> 0 < rr_length r"
proof (induction as bs rule: intersect_lists.induct)
  case (3 a as b bs)
  have e: "rr_end a = rr_offset a + rr_length a" "rr_end a < 2 ^ 64" using 3(3) by (simp_all add: rr_fits_def)
  have out: "rr_fits r \<and> 0 < rr_length r"
    if "r \<in> set (if max (rr_offset a) (rr_offset b) < min (rr_end a) (rr_end b)
      then [rr_new (max (rr_offset a) (rr_offset b)) (min (rr_end a) (rr_end b) - max (rr_offset a) (rr_offset b))] else [])"
    using that e(2) by (auto simp: rr_fits_def split: if_splits)
  show ?case
  proof (cases "rr_end a \<le> rr_end b")
    case True
    then show ?thesis using 3(3-5) out "3.IH"(1)[OF refl refl refl True] by (auto simp: Let_def)
  next
    case False
    then show ?thesis using 3(3-5) out "3.IH"(2)[OF refl refl refl False] by (auto simp: Let_def)
  qed
qed simp_all

lemma intersect_scan_ranges:
  assumes "scan_ranges as" "scan_ranges bs"
  shows "scan_ranges (intersect_lists as bs)"
    "rows_list (intersect_lists as bs) = filter (\<lambda>x. x \<in> rows_all bs) (rows_list as)"
proof -
  have A: "ascending as" "ascending bs" "\<forall>r \<in> set as. rr_fits r" "\<forall>r \<in> set bs. rr_fits r"
    using assms by (simp_all add: scan_ranges_def)
  from intersect_lists_rows[OF A] show *: "rows_list (intersect_lists as bs) = filter (\<lambda>x. x \<in> rows_all bs) (rows_list as)" .
  have "\<forall>r \<in> set (intersect_lists as bs). rr_fits r \<and> 0 < rr_length r" using intersect_lists_nonempty[OF A(3,4)] by blast
  moreover have "sorted_wrt (<) (rows_list (intersect_lists as bs))"
    unfolding * by (rule sorted_wrt_filter[OF rows_list_sorted[OF A(1)]])
  ultimately show "scan_ranges (intersect_lists as bs)"
    using sorted_rows_ascending by (simp add: scan_ranges_def)
qed

subsection \<open>Property\<close>

text \<open>The two-pointer walk over two ascending lists (neighbours may touch) yields exactly the rows of the first list that lie in
  the second, each once and in order.\<close>

theorem intersect_lists_correct:
  assumes "ascending as" "ascending bs" "\<forall>r \<in> set as. rr_fits r" "\<forall>r \<in> set bs. rr_fits r"
  shows "concat (map rr_rows (intersect_lists as bs)) = filter (\<lambda>x. x \<in> rows_all bs) (concat (map rr_rows as))"
  using intersect_lists_rows[OF assms] by (simp add: rows_list_def)

theorem intersect_lists_correct_witness:
  "concat (map rr_rows (intersect_lists [rr_new 0 4, rr_new 6 3] [rr_new 2 5, rr_new 8 9])) = [2, 3, 6, 8]"
proof -
  have "filter (\<lambda>x. x \<in> rows_all [rr_new 2 5, rr_new 8 9]) (concat (map rr_rows [rr_new 0 4, rr_new 6 3])) = [2, 3, 6, 8]"
    by (simp add: rr_rows_def rows_of_def upt_rec)
  then show ?thesis
    using intersect_lists_correct[of "[rr_new 0 4, rr_new 6 3]" "[rr_new 2 5, rr_new 8 9]"] by (simp add: rr_fits_def)
qed

end
