(* ===== verification/Meta_Build.thy ===== *)
theory Meta_Build
  imports Headers Field_Scan
begin

text \<open>
  \<open>MetaBuilder::build\<close> (\<open>splayed-core/src/meta_file.rs\<close>): from the two columns
  \<open>(sym, time)\<close> to the bytes of a META file. The build is a run-length pass over the dictionary
  keys, a sorted and deduplicated time axis, one index record per run and the serialization. The file
  layout is \<open>meta_image\<close>. \<open>u32\<close> values that the code computes in \<open>u32\<close> stay words.
\<close>

subsection \<open>Reading the two input columns\<close>

text \<open>\<open>xs[i]\<close>, and \<open>bytemuck::cast_slice\<close> from bytes to little-endian words of \<open>n\<close> bytes
  (the slices of a column are aligned).\<close>

definition nth_r :: "'a list \<Rightarrow> nat \<Rightarrow> ('e, 'a) res" where
  "nth_r xs i = (if i < length xs then Ok (xs ! i) else Panic)"

definition cast_words :: "nat \<Rightarrow> bytes \<Rightarrow> ('e, ('a::len) word list) res" where
  "cast_words n bs =
     (if length bs mod n \<noteq> 0 then Panic else Ok (map of_le (chunks_exact n (length bs div n) bs)))"

definition infer_time_type :: "data_type \<Rightarrow> (core_error, time_type) res" where
  "infer_time_type dt = (case dt of
     Date32 \<Rightarrow> Ok TT_Date32 | Int32 \<Rightarrow> Ok TT_Date32
   | TimestampUs \<Rightarrow> Ok TT_TimestampUs | Date64 \<Rightarrow> Ok TT_TimestampUs | Int64 \<Rightarrow> Ok TT_TimestampUs
   | _ \<Rightarrow> Err (Invalid ''unsupported time column type''))"

definition sym_keys :: "column_view \<Rightarrow> (core_error, u32 list) res" where
  "sym_keys symc = rbind (mapM (\<lambda>seg. case seg_values seg of
       Dict keys _ _ \<Rightarrow> cast_words 4 keys
     | _ \<Rightarrow> Err (Invalid ''sym column must be dictionary-encoded'')) (cv_segments symc)) (\<lambda>kss. Ok (concat kss))"

text \<open>\<open>v as u64\<close> of an \<open>i32\<close> or \<open>i64\<close> extends the sign.\<close>

definition time_words :: "time_type \<Rightarrow> column_view \<Rightarrow> (core_error, u64 list) res" where
  "time_words tt time = rbind (mapM (\<lambda>seg.
       rbind (ok_or (fixed_bytes (seg_values seg)) (Invalid ''time column must be fixed-width'')) (\<lambda>bs.
         case tt of
           TT_Date32 \<Rightarrow> rbind (cast_words 4 bs) (\<lambda>ws. Ok (map (\<lambda>w :: u32. scast w) ws))
         | TT_TimestampUs \<Rightarrow> cast_words 8 bs)) (cv_segments time)) (\<lambda>tss. Ok (concat tss))"

subsection \<open>The runs\<close>

text \<open>\<open>SymRun\<close> together with its entry of \<open>run_names\<close>. The list of runs is kept with the
  current run first.\<close>

record sym_run =
  run_row_start :: nat
  run_time_first :: u64
  run_time_last :: u64
  run_rows :: nat
  run_name :: bytes

definition build_step ::
  "column_view \<Rightarrow> u32 list \<Rightarrow> u64 list \<Rightarrow> sym_run list \<Rightarrow> nat \<Rightarrow> (core_error, sym_run list) res" where
  "build_step symc keys tms runs i =
     rbind (nth_r tms i) (\<lambda>t.
     rbind (case runs of [] \<Rightarrow> Ok True
            | r # _ \<Rightarrow> rbind (nth_r keys i) (\<lambda>k. rbind (nth_r keys (run_row_start r)) (\<lambda>k0. Ok (k \<noteq> k0))))
       (\<lambda>is_new.
       if is_new
       then rbind (column_view_string_at symc i) (\<lambda>s.
            rbind (ok_or s (Invalid ''sym value at row is NULL'')) (\<lambda>name.
              Ok (\<lparr>run_row_start = i, run_time_first = t, run_time_last = t, run_rows = 1,
                   run_name = name\<rparr> # runs)))
       else case runs of [] \<Rightarrow> Panic
            | r # rest \<Rightarrow> Ok (r\<lparr>run_time_last := t, run_rows := run_rows r + 1\<rparr> # rest)))"

definition build_runs ::
  "column_view \<Rightarrow> u32 list \<Rightarrow> u64 list \<Rightarrow> nat \<Rightarrow> (core_error, sym_run list) res" where
  "build_runs symc keys tms rows = rbind (foldM (build_step symc keys tms) [] [0..<rows]) (\<lambda>runs. Ok (rev runs))"

subsection \<open>The axis and the index records\<close>

text \<open>\<open>sort_unstable\<close> and \<open>dedup\<close>; \<open>binary_search\<close> on the result, whose values are distinct.\<close>

definition time_axis :: "u64 list \<Rightarrow> u64 list" where
  "time_axis tms = remdups_adj (sort tms)"

fun position_of :: "'a \<Rightarrow> 'a list \<Rightarrow> nat option" where
  "position_of v [] = None"
| "position_of v (x # xs) = (if x = v then Some 0 else map_option Suc (position_of v xs))"

definition index_step ::
  "u64 list \<Rightarrow> u32 \<times> sym_record list \<Rightarrow> sym_run \<Rightarrow> (core_error, u32 \<times> sym_record list) res" where
  "index_step axis st run =
     rbind (case position_of (run_time_first run) axis of None \<Rightarrow> Panic | Some p \<Rightarrow> Ok (of_nat p :: u32)) (\<lambda>start.
     rbind (case position_of (run_time_last run) axis of None \<Rightarrow> Panic | Some p \<Rightarrow> Ok (of_nat p)) (\<lambda>fin.
       if fin < start \<or> unat (fin - start + 1) \<noteq> run_rows run
       then Err (NonContiguousTime (run_name run))
       else let span = fin - start + 1
            in Ok (fst st + span,
                   snd st @ [\<lparr>sr_time_start = start, sr_time_count = span, sr_row_start = fst st\<rparr>])))"

subsection \<open>Serialization\<close>

definition dict_offsets :: "bytes list \<Rightarrow> u64 list" where
  "dict_offsets names = map (\<lambda>k. of_nat (length (concat (take k names)))) [0..<length names + 1]"

definition image_header :: "time_type \<Rightarrow> nat \<Rightarrow> bytes list \<Rightarrow> u64 \<Rightarrow> meta_header" where
  "image_header tt axis_count names row_count =
     (let sym_count = of_nat (length names) :: u32; time_count = of_nat axis_count :: u32;
          axis_len = unat time_count * time_size_of tt;
          sym_dict_offset = unat DATA_OFFSET + axis_len;
          strings_start = sym_dict_offset + (unat sym_count + 1) * 8;
          sym_index_offset = strings_start + length (concat names);
          file_size = sym_index_offset + unat sym_count * 12
      in meta_header_new tt 1 time_count sym_count (ucast row_count) (of_nat sym_dict_offset)
           (of_nat sym_index_offset) (of_nat file_size))"

definition meta_image :: "time_type \<Rightarrow> u64 list \<Rightarrow> bytes list \<Rightarrow> sym_record list \<Rightarrow> u64 \<Rightarrow> bytes" where
  "meta_image tt axis names recs row_count =
     meta_header_to_bytes (image_header tt (length axis) names row_count) @
     concat (map (\<lambda>t. take (time_size_of tt) (le_bytes 8 t)) axis) @
     concat (map (le_bytes 8) (dict_offsets names)) @
     concat names @
     concat (map sym_record_to_bytes recs)"

subsection \<open>\<open>MetaBuilder::build\<close>\<close>

definition meta_build :: "data_view \<Rightarrow> (core_error, bytes) res" where
  "meta_build d =
     rbind (ok_or (data_view_column d ''sym'') (Invalid ''meta input requires a 'sym' column'')) (\<lambda>sym.
     rbind (ok_or (data_view_column d ''time'') (Invalid ''meta input requires a 'time' column'')) (\<lambda>time.
     rbind (guard (cv_data_type sym = Utf8) (Invalid ''meta 'sym' column must be Utf8'')) (\<lambda>_.
     rbind (infer_time_type (cv_data_type time)) (\<lambda>tt.
     let rows = dv_length d in
     rbind (guard (cv_length sym = rows \<and> cv_length time = rows) (Invalid ''sym/time column length mismatch'')) (\<lambda>_.
     rbind (guard (rows \<noteq> 0) (Invalid ''meta input must not be empty'')) (\<lambda>_.
     rbind (sym_keys sym) (\<lambda>keys.
     rbind (time_words tt time) (\<lambda>tms.
     rbind (build_runs sym keys tms rows) (\<lambda>runs.
     let axis = time_axis (take rows tms) in
     rbind (foldM (index_step axis) (0, []) runs) (\<lambda>(row_start, recs).
     let row_count = ucast row_start :: u64 in
     rbind (guard (row_count \<le> 4294967295) (Invalid ''total row capacity exceeds u32'')) (\<lambda>_.
       Ok (meta_image tt axis (map run_name runs) recs row_count))))))))))))"

subsection \<open>The runs tile the rows\<close>

fun tiled :: "nat \<Rightarrow> sym_run list \<Rightarrow> nat \<Rightarrow> bool" where
  "tiled a [] b \<longleftrightarrow> a = b"
| "tiled a (r # rs) b \<longleftrightarrow> run_row_start r = a \<and> 0 < run_rows r \<and> tiled (a + run_rows r) rs b"

definition run_of :: "u32 list \<Rightarrow> u64 list \<Rightarrow> (nat \<Rightarrow> bytes) \<Rightarrow> sym_run \<Rightarrow> bool" where
  "run_of keys tms name r \<longleftrightarrow>
     run_time_first r = tms ! run_row_start r \<and>
     run_time_last r = tms ! (run_row_start r + run_rows r - 1) \<and>
     run_name r = name (run_row_start r) \<and>
     (\<forall>i. run_row_start r \<le> i \<and> i < run_row_start r + run_rows r \<longrightarrow> keys ! i = keys ! run_row_start r)"

definition other_key :: "u32 list \<Rightarrow> sym_run \<Rightarrow> sym_run \<Rightarrow> bool" where
  "other_key keys r r' \<longleftrightarrow> keys ! run_row_start r \<noteq> keys ! run_row_start r'"

lemma successively_other_key_rev [simp]: "successively (other_key keys) (rev runs) = successively (other_key keys) runs"
  by (simp add: successively_rev other_key_def eq_commute)

lemma nth_r_ok [simp]: "i < length xs \<Longrightarrow> nth_r xs i = Ok (xs ! i)"
  by (simp add: nth_r_def)

lemma tiled_append: "tiled a (xs @ ys) c \<longleftrightarrow> (\<exists>b. tiled a xs b \<and> tiled b ys c)"
  by (induction xs arbitrary: a) auto

lemma tiled_le: "tiled a rs b \<Longrightarrow> a \<le> b"
  by (induction rs arbitrary: a) fastforce+

text \<open>Every row lies in exactly one run; the run found by its start is that one.\<close>

lemma tiled_cover:
  "tiled a rs b \<Longrightarrow> a \<le> i \<Longrightarrow> i < b \<Longrightarrow>
   \<exists>j < length rs. run_row_start (rs ! j) \<le> i \<and> i < run_row_start (rs ! j) + run_rows (rs ! j)"
proof (induction rs arbitrary: a)
  case (Cons r rs)
  show ?case
  proof (cases "i < a + run_rows r")
    case True
    then show ?thesis using Cons.prems by (intro exI[of _ 0]) simp
  next
    case False
    then obtain j where "j < length rs" "run_row_start (rs ! j) \<le> i" "i < run_row_start (rs ! j) + run_rows (rs ! j)"
      using Cons.IH[of "a + run_rows r"] Cons.prems by auto
    then show ?thesis by (intro exI[of _ "Suc j"]) simp
  qed
qed simp

lemma tiled_nth:
  "tiled a rs b \<Longrightarrow> j < length rs \<Longrightarrow>
   a \<le> run_row_start (rs ! j) \<and> 0 < run_rows (rs ! j) \<and> run_row_start (rs ! j) + run_rows (rs ! j) \<le> b \<and>
   (\<forall>k. j < k \<and> k < length rs \<longrightarrow> run_row_start (rs ! j) + run_rows (rs ! j) \<le> run_row_start (rs ! k))"
proof (induction rs arbitrary: a j)
  case (Cons r rs)
  show ?case
  proof (cases j)
    case 0
    have "a + run_rows r \<le> run_row_start (rs ! k)" if "k < length rs" for k
      using Cons.IH[of "a + run_rows r" k] Cons.prems that by simp
    then show ?thesis using 0 Cons.prems tiled_le[of "a + run_rows r" rs b] by (auto simp: nth_Cons split: nat.splits)
  next
    case (Suc j')
    then show ?thesis using Cons.IH[of "a + run_rows r" j'] Cons.prems
      by (auto simp: nth_Cons split: nat.splits)
  qed
qed simp

lemma build_step_runs:
  assumes t: "tiled 0 (rev runs) i" "\<forall>r \<in> set runs. run_of keys tms name r"
    and o': "successively (other_key keys) runs"
    and i: "i < length keys" "i < length tms" and s: "column_view_string_at symc i = (Ok (Some (name i)) :: (core_error, _) res)"
  shows "\<exists>runs'. build_step symc keys tms runs i = Ok runs' \<and> tiled 0 (rev runs') (Suc i) \<and>
    (\<forall>r \<in> set runs'. run_of keys tms name r) \<and> successively (other_key keys) runs'"
proof (cases runs)
  case Nil
  then show ?thesis using assms by (auto simp: build_step_def ok_or_def run_of_def)
next
  case (Cons r rest)
  then have t': "tiled 0 (rev rest) (run_row_start r)" "0 < run_rows r" "run_row_start r + run_rows r = i"
    using t(1) by (auto simp: tiled_append)
  show ?thesis
  proof (cases "keys ! i = keys ! run_row_start r")
    case True
    have "run_of keys tms name (r\<lparr>run_time_last := tms ! i, run_rows := run_rows r + 1\<rparr>)"
      using t(2) True t'(3) Cons by (auto simp: run_of_def less_Suc_eq)
    moreover have "build_step symc keys tms runs i =
        Ok (r\<lparr>run_time_last := tms ! i, run_rows := run_rows r + 1\<rparr> # rest)"
      using True Cons t' i by (simp add: build_step_def)
    moreover have "successively (other_key keys) (r\<lparr>run_time_last := tms ! i, run_rows := run_rows r + 1\<rparr> # rest)"
      using o' Cons by (cases rest) (simp_all add: other_key_def)
    ultimately show ?thesis using Cons t(2) t' by (simp add: tiled_append)
  next
    case False
    have "build_step symc keys tms runs i =
        Ok (\<lparr>run_row_start = i, run_time_first = tms ! i, run_time_last = tms ! i, run_rows = 1,
             run_name = name i\<rparr> # runs)"
      using False Cons t' i s by (simp add: build_step_def ok_or_def)
    moreover have "run_of keys tms name \<lparr>run_row_start = i, run_time_first = tms ! i, run_time_last = tms ! i,
        run_rows = 1, run_name = name i\<rparr>"
      by (auto simp: run_of_def less_Suc_eq_le dest: le_antisym)
    ultimately show ?thesis using Cons t False o' by (simp add: tiled_append other_key_def)
  qed
qed

lemma build_runs_tile:
  assumes "n \<le> length keys" "n \<le> length tms" "\<forall>i < n. column_view_string_at symc i = (Ok (Some (name i)) :: (core_error, _) res)"
  shows "\<exists>runs. build_runs symc keys tms n = Ok runs \<and> tiled 0 runs n \<and> (\<forall>r \<in> set runs. run_of keys tms name r) \<and>
    successively (other_key keys) runs"
proof -
  have step: "\<exists>runs. foldM (build_step symc keys tms) [] [0..<m] = Ok runs \<and> tiled 0 (rev runs) m \<and>
      (\<forall>r \<in> set runs. run_of keys tms name r) \<and> successively (other_key keys) runs" if "m \<le> n" for m
    using that
  proof (induction m)
    case (Suc m)
    then obtain runs where "foldM (build_step symc keys tms) [] [0..<m] = Ok runs" "tiled 0 (rev runs) m"
      "\<forall>r \<in> set runs. run_of keys tms name r" "successively (other_key keys) runs" by auto
    with build_step_runs[of runs m keys tms name symc] Suc.prems assms show ?case
      by (auto simp: foldM_append)
  qed simp
  from step[OF le_refl] obtain runs where "foldM (build_step symc keys tms) [] [0..<n] = Ok runs"
    "tiled 0 (rev runs) n" "\<forall>r \<in> set runs. run_of keys tms name r" "successively (other_key keys) runs" by blast
  then show ?thesis by (simp add: build_runs_def del: successively_rev)
qed

subsection \<open>The axis\<close>

lemma sorted_distinct_remdups_adj: "sorted xs \<Longrightarrow> distinct (remdups_adj (xs :: 'a :: linorder list))"
proof (induction xs rule: remdups_adj.induct)
  case (3 x y xs)
  then show ?case by (auto simp: dest: antisym)
qed simp_all

lemma time_axis_props [simp]: "set (time_axis tms) = set tms" "distinct (time_axis tms)" "sorted (time_axis tms)"
  by (simp_all add: time_axis_def sorted_remdups_adj sorted_distinct_remdups_adj)

lemma sorted_distinct_nth_less: "sorted xs \<Longrightarrow> distinct xs \<Longrightarrow> i < j \<Longrightarrow> j < length xs \<Longrightarrow> xs ! i < xs ! j"
  by (metis less_trans nth_eq_iff_index_eq order_le_imp_less_or_eq order_less_imp_le sorted_nth_mono less_irrefl)

lemma time_axis_less: "i < j \<Longrightarrow> j < length (time_axis tms) \<Longrightarrow> time_axis tms ! i < time_axis tms ! j"
  by (rule sorted_distinct_nth_less) simp_all

lemma position_of_Some: "position_of v xs = Some p \<Longrightarrow> p < length xs \<and> xs ! p = v"
  by (induction xs arbitrary: p) (auto split: if_splits)

lemma position_of_mem: "v \<in> set xs \<Longrightarrow> \<exists>p. position_of v xs = Some p"
  by (induction xs) auto

lemma position_of_nth: "distinct xs \<Longrightarrow> i < length xs \<Longrightarrow> position_of (xs ! i) xs = Some i"
  by (metis nth_eq_iff_index_eq nth_mem position_of_Some position_of_mem)

text \<open>A strictly increasing sequence of indices whose span is its length is contiguous.\<close>

lemma contiguous_indices:
  fixes p :: "nat \<Rightarrow> nat"
  assumes "\<forall>i. Suc i < n \<longrightarrow> p i < p (Suc i)" "p (n - 1) - p 0 + 1 = n" "i < n"
  shows "p i = p 0 + i"
proof -
  have up: "p 0 + i \<le> p i" if "i < n" for i
    using that by (induction i) (use assms(1) in \<open>force+\<close>)
  have down: "p i + (n - 1 - i) \<le> p (n - 1)" if "i < n" for i
    using that
  proof (induction "n - 1 - i" arbitrary: i)
    case (Suc k)
    then have "p (Suc i) + (n - 1 - Suc i) \<le> p (n - 1)" "p i < p (Suc i)" using assms(1) by auto
    then show ?case using Suc.hyps(2) by linarith
  next
    case 0
    then have "i = n - 1" by simp
    then show ?case by simp
  qed
  show ?thesis using up[OF assms(3)] down[OF assms(3)] up[of "n - 1"] assms(2,3) by linarith
qed

subsection \<open>The records of the runs\<close>

definition pos :: "u64 list \<Rightarrow> u64 \<Rightarrow> nat" where
  "pos axis v = (case position_of v axis of None \<Rightarrow> 0 | Some p \<Rightarrow> p)"

lemma position_of_eq_pos: "v \<in> set axis \<Longrightarrow> position_of v axis = Some (pos axis v)"
  using position_of_mem[of v axis] by (auto simp: pos_def)

lemma pos_less [simp]: "v \<in> set axis \<Longrightarrow> pos axis v < length axis"
  and nth_pos [simp]: "v \<in> set axis \<Longrightarrow> axis ! pos axis v = v"
  using position_of_Some[OF position_of_eq_pos[of v axis]] by simp_all

lemma pos_nth [simp]: "distinct axis \<Longrightarrow> i < length axis \<Longrightarrow> pos axis (axis ! i) = i"
  by (simp add: pos_def position_of_nth)

definition spans :: "u64 list \<Rightarrow> sym_run \<Rightarrow> bool" where
  "spans axis r \<longleftrightarrow> pos axis (run_time_last r) + 1 = pos axis (run_time_first r) + run_rows r"

definition rec_of :: "u64 list \<Rightarrow> sym_run \<Rightarrow> sym_record" where
  "rec_of axis r = \<lparr>sr_time_start = of_nat (pos axis (run_time_first r)),
     sr_time_count = of_nat (run_rows r), sr_row_start = of_nat (run_row_start r)\<rparr>"

lemma index_step_eq:
  assumes "run_time_first r \<in> set axis" "run_time_last r \<in> set axis" "length axis \<le> u32_max" "0 < run_rows r"
  shows "index_step axis (of_nat (run_row_start r), recs) r =
    (if spans axis r then Ok (of_nat (run_row_start r + run_rows r), recs @ [rec_of axis r])
     else Err (NonContiguousTime (run_name r)))"
proof -
  let ?p = "pos axis (run_time_first r)" and ?q = "pos axis (run_time_last r)"
  have b: "?p \<le> u32_max" "?q \<le> u32_max" using pos_less[of "run_time_first r" axis] pos_less[of "run_time_last r" axis] assms
    by linarith+
  have lt: "(of_nat ?q :: u32) < of_nat ?p \<longleftrightarrow> ?q < ?p" using b by (simp add: word_less_nat_alt)
  have diff: "of_nat ?q - of_nat ?p + 1 = (of_nat (?q - ?p + 1) :: u32)" if "?p \<le> ?q"
    using that by (simp add: of_nat_diff)
  have "?q - ?p + 1 \<le> u32_max" using pos_less[of "run_time_last r" axis] assms by linarith
  then have n: "unat (of_nat (?q - ?p + 1) :: u32) = ?q - ?p + 1" by (rule unat_of_nat_u32)
  show ?thesis
  proof (cases "?q < ?p")
    case True
    then show ?thesis using assms lt by (auto simp: index_step_def position_of_eq_pos spans_def)
  next
    case False
    then have *: "spans axis r \<longleftrightarrow> ?q - ?p + 1 = run_rows r" by (auto simp: spans_def)
    show ?thesis
      using assms False lt diff n unfolding index_step_def *
      by (simp add: position_of_eq_pos Let_def rec_of_def del: of_nat_add of_nat_Suc)
        (simp add: algebra_simps)
  qed
qed

lemma index_fold:
  assumes "tiled a runs b" "\<forall>r \<in> set runs. run_time_first r \<in> set axis \<and> run_time_last r \<in> set axis"
    "length axis \<le> u32_max"
  shows "foldM (index_step axis) (of_nat a, recs) runs =
    (case find (\<lambda>r. \<not> spans axis r) runs of
       None \<Rightarrow> Ok (of_nat b, recs @ map (rec_of axis) runs)
     | Some r \<Rightarrow> Err (NonContiguousTime (run_name r)))"
  using assms
proof (induction runs arbitrary: a recs)
  case (Cons r runs)
  have "index_step axis (of_nat a, recs) r =
      (if spans axis r then Ok (of_nat (a + run_rows r), recs @ [rec_of axis r])
       else Err (NonContiguousTime (run_name r)))"
    using index_step_eq[of r axis recs] Cons.prems by simp
  then show ?case using Cons.IH[of "a + run_rows r" "recs @ [rec_of axis r]"] Cons.prems
    by (simp del: of_nat_add split: option.splits)
qed simp

subsection \<open>The whole build\<close>

text \<open>An input whose columns are consistent: \<open>keys\<close>, \<open>tms\<close> and \<open>name\<close> are what it holds.\<close>

definition build_input :: "data_view \<Rightarrow> time_type \<Rightarrow> u32 list \<Rightarrow> u64 list \<Rightarrow> (nat \<Rightarrow> bytes) \<Rightarrow> nat \<Rightarrow> bool" where
  "build_input d tt keys tms name n \<longleftrightarrow>
     (\<exists>symc tm. data_view_column d ''sym'' = Some symc \<and> data_view_column d ''time'' = Some tm \<and>
        cv_data_type symc = Utf8 \<and> infer_time_type (cv_data_type tm) = Ok tt \<and>
        cv_length symc = n \<and> cv_length tm = n \<and>
        sym_keys symc = Ok keys \<and> time_words tt tm = Ok tms \<and>
        (\<forall>i < n. column_view_string_at symc i = (Ok (Some (name i)) :: (core_error, _) res))) \<and>
     dv_length d = n \<and> length keys = n \<and> length tms = n \<and> 0 < n \<and> n \<le> u32_max"

lemma length_time_axis_le: "length (time_axis tms) \<le> length tms"
  by (simp add: time_axis_def) (metis length_sort remdups_adj_length)

lemma meta_build_eq:
  assumes "build_input d tt keys tms name n"
  shows "\<exists>runs. tiled 0 runs n \<and> (\<forall>r \<in> set runs. run_of keys tms name r) \<and>
    successively (other_key keys) runs \<and>
    meta_build d = (case find (\<lambda>r. \<not> spans (time_axis tms) r) runs of
       Some r \<Rightarrow> Err (NonContiguousTime (run_name r))
     | None \<Rightarrow> Ok (meta_image tt (time_axis tms) (map run_name runs) (map (rec_of (time_axis tms)) runs) (of_nat n)))"
proof -
  obtain symc tm where c: "data_view_column d ''sym'' = Some symc" "data_view_column d ''time'' = Some tm"
    "cv_data_type symc = Utf8" "infer_time_type (cv_data_type tm) = Ok tt"
    "cv_length symc = n" "cv_length tm = n" "sym_keys symc = Ok keys" "time_words tt tm = Ok tms"
    "\<forall>i < n. column_view_string_at symc i = (Ok (Some (name i)) :: (core_error, _) res)"
    using assms by (auto simp: build_input_def)
  have n: "dv_length d = n" "length keys = n" "length tms = n" "0 < n" "n \<le> u32_max"
    using assms by (auto simp: build_input_def)
  have le: "n \<le> length keys" "n \<le> length tms" using n by simp_all
  obtain runs where r: "build_runs symc keys tms n = Ok runs" "tiled 0 runs n" "\<forall>r \<in> set runs. run_of keys tms name r"
    "successively (other_key keys) runs"
    using build_runs_tile[OF le c(9)] by blast
  have "run_time_first r \<in> set tms \<and> run_time_last r \<in> set tms" if "r \<in> set runs" for r
  proof -
    from that obtain j where "j < length runs" "r = runs ! j" unfolding in_set_conv_nth by blast
    then have "0 < run_rows r" "run_row_start r + run_rows r \<le> n" using tiled_nth[OF r(2), of j] by simp_all
    then show ?thesis using r(3) that n(3) by (simp add: run_of_def)
  qed
  then have "foldM (index_step (time_axis tms)) (of_nat 0, []) runs =
    (case find (\<lambda>r. \<not> spans (time_axis tms) r) runs of
       None \<Rightarrow> Ok (of_nat n, [] @ map (rec_of (time_axis tms)) runs)
     | Some r \<Rightarrow> Err (NonContiguousTime (run_name r)))"
    using length_time_axis_le[of tms] n by (intro index_fold[OF r(2)]) auto
  moreover have "(ucast (of_nat n :: u32) :: u64) = of_nat n"
    using n(5) by (intro word_unat_eq_iff[THEN iffD2]) simp
  moreover have "(of_nat n :: u64) \<le> 4294967295" using n(5) by (simp add: word_le_nat_alt)
  moreover have "meta_build d = rbind (foldM (index_step (time_axis tms)) (0, []) runs) (\<lambda>(row_start, recs).
      rbind (guard ((ucast row_start :: u64) \<le> 4294967295) (Invalid ''total row capacity exceeds u32'')) (\<lambda>_.
        Ok (meta_image tt (time_axis tms) (map run_name runs) recs (ucast row_start))))"
    by (simp add: meta_build_def ok_or_def c(1-8) n(1-3) r(1) n(4) Let_def)
  ultimately have "meta_build d = (case find (\<lambda>r. \<not> spans (time_axis tms) r) runs of
       Some r \<Rightarrow> Err (NonContiguousTime (run_name r))
     | None \<Rightarrow> Ok (meta_image tt (time_axis tms) (map run_name runs) (map (rec_of (time_axis tms)) runs) (of_nat n)))"
    by (cases "find (\<lambda>r. \<not> spans (time_axis tms) r) runs") simp_all
  then show ?thesis using r by blast
qed

text \<open>A run of strictly increasing times that passes the span check is a contiguous part of the axis.\<close>

lemma spans_contiguous:
  assumes r: "run_of keys tms name r" "0 < run_rows r" "run_row_start r + run_rows r \<le> length tms"
    and inc: "\<forall>i. run_row_start r \<le> i \<and> Suc i < run_row_start r + run_rows r \<longrightarrow> tms ! i < tms ! Suc i"
    and sp: "spans (time_axis tms) r" and k: "k < run_rows r"
  shows "pos (time_axis tms) (run_time_first r) + k < length (time_axis tms)"
    "time_axis tms ! (pos (time_axis tms) (run_time_first r) + k) = tms ! (run_row_start r + k)"
proof -
  let ?a = "time_axis tms" and ?s = "run_row_start r"
  define q where "q i = pos ?a (tms ! (?s + i))" for i
  have mem: "tms ! (?s + i) \<in> set ?a" if "i < run_rows r" for i using that r(3) by simp
  have lt: "q i < q (Suc i)" if i: "Suc i < run_rows r" for i
  proof (rule ccontr)
    assume "\<not> q i < q (Suc i)"
    then have "?a ! q (Suc i) \<le> ?a ! q i"
      using mem[of i] i by (intro sorted_nth_mono) (simp_all add: q_def)
    then have "tms ! Suc (?s + i) \<le> tms ! (?s + i)" using mem[of i] mem[of "Suc i"] i by (simp add: q_def)
    moreover have "tms ! (?s + i) < tms ! Suc (?s + i)" using inc i by simp
    ultimately show False by simp
  qed
  have ends: "q 0 = pos ?a (run_time_first r)" "q (run_rows r - 1) = pos ?a (run_time_last r)"
    using r(1,2) by (simp_all add: q_def run_of_def)
  have "q (run_rows r - 1) + 1 = q 0 + run_rows r" using sp ends by (simp add: spans_def)
  then have "q k = q 0 + k" using lt k by (intro contiguous_indices[of "run_rows r"]) auto
  then have qk: "pos ?a (run_time_first r) + k = q k" using ends(1) by simp
  have "q k < length ?a" "?a ! q k = tms ! (?s + k)"
    unfolding q_def using pos_less[OF mem[OF k]] nth_pos[OF mem[OF k]] by simp_all
  then show "pos ?a (run_time_first r) + k < length ?a" "?a ! (pos ?a (run_time_first r) + k) = tms ! (?s + k)"
    unfolding qk by simp_all
qed

subsection \<open>Properties\<close>

text \<open>C12. The build cuts the rows into the maximal runs of equal dictionary keys, puts the distinct times
  in ascending order on the axis and writes one record per run. It succeeds exactly when every run's span
  on the axis, from its first to its last time, has as many positions as the run has rows, and otherwise
  fails with the name of the first run for which this is not so.\<close>

theorem meta_build_correct:
  assumes "build_input d tt keys tms name n"
  shows "\<exists>runs. tiled 0 runs n \<and> (\<forall>r \<in> set runs. run_of keys tms name r) \<and>
    successively (other_key keys) runs \<and>
    meta_build d = (case find (\<lambda>r. \<not> spans (time_axis tms) r) runs of
       Some r \<Rightarrow> Err (NonContiguousTime (run_name r))
     | None \<Rightarrow> Ok (meta_image tt (time_axis tms) (map run_name runs) (map (rec_of (time_axis tms)) runs) (of_nat n)))"
  by (rule meta_build_eq[OF assms])

definition example_input :: "u64 list \<Rightarrow> data_view" where
  "example_input tms =
     \<lparr>dv_schema = [\<lparr>fs_name = ''sym'', fs_type = Utf8\<rparr>, \<lparr>fs_name = ''time'', fs_type = Int64\<rparr>],
      dv_columns =
        [\<lparr>cv_data_type = Utf8,
          cv_segments = [\<lparr>seg_values = Dict (concat (map (le_bytes 4) [0 :: u32, 0, 1, 1, 1]))
             (concat (map (le_bytes 8) [0 :: u64, 1, 2])) [65, 66], seg_validity = None, seg_rows = 5\<rparr>],
          cv_length = 5\<rparr>,
         \<lparr>cv_data_type = Int64,
          cv_segments = [\<lparr>seg_values = Fixed (concat (map (le_bytes 8) tms)), seg_validity = None, seg_rows = 5\<rparr>],
          cv_length = 5\<rparr>],
      dv_length = 5\<rparr>"

lemma example_build_input:
  "build_input (example_input [1, 2, 1, 2, 3]) TT_TimestampUs [0, 0, 1, 1, 1] [1, 2, 1, 2, 3]
     (\<lambda>i. if i < 2 then [65] else [66]) 5"
proof -
  have five: "(\<forall>i < 5. P i) \<longleftrightarrow> P 0 \<and> P 1 \<and> P 2 \<and> P 3 \<and> P (4 :: nat)" for P
    by (auto simp: eval_nat_numeral less_Suc_eq)
  show ?thesis
    unfolding build_input_def five
    by (intro conjI exI[of _ "dv_columns (example_input [1, 2, 1, 2, 3]) ! 0"]
        exI[of _ "dv_columns (example_input [1, 2, 1, 2, 3]) ! 1"]) ((simp; fail) | code_simp)+
qed

theorem meta_build_correct_witness:
  "\<exists>runs. tiled 0 runs 5 \<and>
    (\<forall>r \<in> set runs. run_of [0, 0, 1, 1, 1] [1, 2, 1, 2, 3] (\<lambda>i. if i < 2 then [65] else [66]) r) \<and>
    successively (other_key [0, 0, 1, 1, 1]) runs \<and>
    meta_build (example_input [1, 2, 1, 2, 3]) = (case find (\<lambda>r. \<not> spans (time_axis [1, 2, 1, 2, 3]) r) runs of
       Some r \<Rightarrow> Err (NonContiguousTime (run_name r))
     | None \<Rightarrow> Ok (meta_image TT_TimestampUs (time_axis [1, 2, 1, 2, 3]) (map run_name runs)
         (map (rec_of (time_axis [1, 2, 1, 2, 3])) runs) (of_nat 5)))"
  by (rule meta_build_correct[OF example_build_input])

end
