(* ===== verification/Meta_Handle.thy ===== *)
theory Meta_Handle
  imports Meta_Build "HOL-Library.List_Lexorder"
begin

text \<open>
  \<open>MetaHandle\<close> (\<open>splayed-core/src/meta_file.rs\<close>): opening a META file, the accessors of
  its sections, the three binary searches and reading a row range back as columns. A memory map is the
  content of the file. The locale \<open>sorted_probe\<close> is what a binary search relies on; it is
  interpreted for the time axis and for the symbol dictionary of an image that the builder writes.
\<close>

subsection \<open>Opening and closing\<close>

record meta_handle =
  mt_path :: string
  mt_mmap :: bytes
  mt_header :: meta_header

text \<open>The files of the system, as far as an operation sees them: their contents by path.\<close>

type_synonym files = "string \<Rightarrow> bytes option"

definition file_open :: "files \<Rightarrow> string \<Rightarrow> (core_error, bytes) res" where
  "file_open fs path = (case fs path of None \<Rightarrow> Err (NotFound path) | Some bs \<Rightarrow> Ok bs)"

definition meta_open :: "files \<Rightarrow> string \<Rightarrow> (core_error, meta_handle) res" where
  "meta_open fs path =
     rbind (file_open fs path) (\<lambda>mmap.
     rbind (map_err EFormat (meta_header_from_bytes mmap)) (\<lambda>header.
     if length mmap \<noteq> unat (mh_file_size header) then Err (InvalidState ''meta file size'')
     else Ok \<lparr>mt_path = path, mt_mmap = mmap, mt_header = header\<rparr>))"

record meta_info =
  mi_version :: u16
  mi_time_type :: time_type
  mi_generation :: u64
  mi_time_count :: u32
  mi_sym_count :: u32
  mi_row_count :: u32

definition handle_time_type :: "meta_handle \<Rightarrow> ('e, time_type) res" where
  "handle_time_type h = expect (meta_time_type (mt_header h))"

definition read_meta_handle :: "meta_handle \<Rightarrow> ('e, meta_info) res" where
  "read_meta_handle h = (let hd = mt_header h in
     rbind (expect (meta_time_type hd)) (\<lambda>tt.
       Ok \<lparr>mi_version = mh_version hd, mi_time_type = tt, mi_generation = mh_generation hd,
           mi_time_count = mh_time_count hd, mi_sym_count = mh_sym_count hd, mi_row_count = mh_row_count hd\<rparr>))"

definition read_index_schema :: "meta_handle \<Rightarrow> schema" where
  "read_index_schema h =
     (let tt = (case meta_time_type (mt_header h) of Ok t \<Rightarrow> t | _ \<Rightarrow> TT_TimestampUs)
      in [\<lparr>fs_name = ''sym'', fs_type = Utf8\<rparr>, \<lparr>fs_name = ''time'', fs_type = time_data_type tt\<rparr>])"

subsection \<open>The sections of the file\<close>

definition sym_total :: "meta_handle \<Rightarrow> nat" where "sym_total h = unat (mh_sym_count (mt_header h))"
definition time_total :: "meta_handle \<Rightarrow> nat" where "time_total h = unat (mh_time_count (mt_header h))"
definition row_total :: "meta_handle \<Rightarrow> nat" where "row_total h = unat (mh_row_count (mt_header h))"

definition axis_bytes :: "meta_handle \<Rightarrow> ('e, bytes) res" where
  "axis_bytes h = slice_r HEADER_SIZE (HEADER_SIZE + time_total h * meta_time_type_size (mt_header h)) (mt_mmap h)"

definition dict_offsets_bytes :: "meta_handle \<Rightarrow> ('e, bytes) res" where
  "dict_offsets_bytes h =
     (let start = unat (mh_sym_dict_offset (mt_header h)); n = sym_total h + 1
      in slice_r start (start + n * 8) (mt_mmap h))"

definition strings_bytes :: "meta_handle \<Rightarrow> ('e, bytes) res" where
  "strings_bytes h =
     slice_r (unat (mh_sym_dict_offset (mt_header h)) + (sym_total h + 1) * 8)
       (unat (mh_sym_index_offset (mt_header h))) (mt_mmap h)"

definition sym_index_bytes :: "meta_handle \<Rightarrow> ('e, bytes) res" where
  "sym_index_bytes h =
     (let start = unat (mh_sym_index_offset (mt_header h)) in slice_r start (start + sym_total h * 12) (mt_mmap h))"

text \<open>\<open>SymIndexRecord::from_bytes(&bytes[i * 12..])\<close>.\<close>

definition record_at :: "bytes \<Rightarrow> nat \<Rightarrow> (core_error, sym_record) res" where
  "record_at bs i = rbind (slice_r (i * 12) (length bs) bs) (\<lambda>b. map_err EFormat (sym_record_from_bytes b))"

definition sym_record_of :: "meta_handle \<Rightarrow> nat \<Rightarrow> (core_error, sym_record) res" where
  "sym_record_of h sym_id =
     (if sym_total h \<le> sym_id then Err (Invalid ''sym id out of range'')
      else rbind (sym_index_bytes h) (\<lambda>bs. record_at bs sym_id))"

definition read_u64_at :: "bytes \<Rightarrow> nat \<Rightarrow> ('e, nat) res" where
  "read_u64_at bs i = rbind (slice_r (i * 8) (i * 8 + 8) bs) (\<lambda>b. Ok (unat (of_le b :: u64)))"

definition sym_str :: "meta_handle \<Rightarrow> nat \<Rightarrow> (core_error, bytes) res" where
  "sym_str h sym_id =
     rbind (dict_offsets_bytes h) (\<lambda>offsets.
     rbind (read_u64_at offsets sym_id) (\<lambda>lo.
     rbind (read_u64_at offsets (sym_id + 1)) (\<lambda>hi.
     rbind (strings_bytes h) (\<lambda>strs.
     rbind (slice_r lo hi strs) (\<lambda>s.
       ok_or (str_from_utf8 s) (InvalidState ''sym dictionary is not utf-8''))))))"

text \<open>One element of the axis, read and zero-extended (\<open>time_at_fast\<close> of \<open>locate\<close> is the same read).\<close>

definition axis_word :: "time_type \<Rightarrow> nat \<Rightarrow> bytes \<Rightarrow> nat \<Rightarrow> ('e, u64) res" where
  "axis_word tt ts axis i =
     rbind (slice_r (i * ts) (i * ts + ts) axis) (\<lambda>bs.
       case tt of TT_Date32 \<Rightarrow> Ok (ucast (of_le bs :: u32)) | TT_TimestampUs \<Rightarrow> Ok (of_le bs))"

definition time_at :: "meta_handle \<Rightarrow> nat \<Rightarrow> (core_error, u64) res" where
  "time_at h i =
     (if time_total h \<le> i then Err (Invalid ''time index out of range'')
      else rbind (axis_bytes h) (\<lambda>axis.
           rbind (map_err EFormat (meta_time_type (mt_header h))) (\<lambda>tt.
             axis_word tt (meta_time_type_size (mt_header h)) axis i)))"

subsection \<open>The binary searches\<close>

text \<open>Three-way search: \<open>sym_id_of\<close> and \<open>axis_index_of\<close> share its shape.\<close>

function bsearch :: "(nat \<Rightarrow> ('e, 'a :: linorder) res) \<Rightarrow> 'a \<Rightarrow> nat \<Rightarrow> nat \<Rightarrow> ('e, nat option) res" where
  "bsearch probe v lo hi =
     (if lo < hi
      then let m = lo + (hi - lo) div 2
           in rbind (probe m) (\<lambda>x.
                if x < v then bsearch probe v (m + 1) hi
                else if v < x then bsearch probe v lo m
                else Ok (Some m))
      else Ok None)"
  by auto
termination by (relation "measure (\<lambda>(_, _, lo, hi). hi - lo)") auto

declare bsearch.simps [simp del]

definition sym_id_of :: "meta_handle \<Rightarrow> bytes \<Rightarrow> (core_error, nat option) res" where
  "sym_id_of h name = bsearch (sym_str h) name 0 (sym_total h)"

text \<open>\<open>time_at(mid).unwrap_or(u64::MAX)\<close>.\<close>

definition time_or_max :: "meta_handle \<Rightarrow> nat \<Rightarrow> (core_error, u64) res" where
  "time_or_max h i = (case time_at h i of Err _ \<Rightarrow> Ok (- 1) | r \<Rightarrow> r)"

definition axis_index_of :: "meta_handle \<Rightarrow> u64 \<Rightarrow> (core_error, nat option) res" where
  "axis_index_of h v = bsearch (time_or_max h) v 0 (time_total h)"

function lower_bound :: "(nat \<Rightarrow> ('e, 'a :: linorder) res) \<Rightarrow> 'a \<Rightarrow> nat \<Rightarrow> nat \<Rightarrow> ('e, nat) res" where
  "lower_bound probe v lo hi =
     (if lo < hi
      then let m = (lo + hi) div 2
           in rbind (probe m) (\<lambda>x.
                if x < v then lower_bound probe v (m + 1) hi else lower_bound probe v lo m)
      else Ok lo)"
  by auto
termination by (relation "measure (\<lambda>(_, _, lo, hi). hi - lo)") auto

declare lower_bound.simps [simp del]

definition axis_lower_bound :: "meta_handle \<Rightarrow> u64 \<Rightarrow> (core_error, nat) res" where
  "axis_lower_bound h v = lower_bound (time_or_max h) v 0 (time_total h)"

text \<open>The last record whose \<open>row_start\<close> passes the test, or the first record.\<close>

function last_le :: "(nat \<Rightarrow> ('e, bool) res) \<Rightarrow> nat \<Rightarrow> nat \<Rightarrow> ('e, nat) res" where
  "last_le ok lo hi =
     (if lo + 1 < hi
      then let m = (lo + hi) div 2 in rbind (ok m) (\<lambda>b. if b then last_le ok m hi else last_le ok lo m)
      else Ok lo)"
  by auto
termination by (relation "measure (\<lambda>(_, lo, hi). hi - lo)") auto

declare last_le.simps [simp del]

definition locate_row :: "meta_handle \<Rightarrow> nat \<Rightarrow> (core_error, nat \<times> nat) res" where
  "locate_row h row =
     (if row_total h \<le> row then Err (Invalid ''row out of range'')
      else rbind (sym_index_bytes h) (\<lambda>bs.
           rbind (last_le (\<lambda>m. rbind (record_at bs m) (\<lambda>r. Ok (sr_row_start r \<le> of_nat row))) 0 (sym_total h)) (\<lambda>lo.
           rbind (record_at bs lo) (\<lambda>r.
             Ok (lo, (unat (sr_time_start r) + u64_sub row (unat (sr_row_start r))) mod 2 ^ 32)))))"

subsection \<open>\<open>read_index_handle\<close>\<close>

function read_segments ::
  "meta_handle \<Rightarrow> time_type \<Rightarrow> nat \<Rightarrow> nat \<Rightarrow> nat \<Rightarrow> (core_error, (column_segment \<times> column_segment) list) res" where
  "read_segments h tt offset fin sym_id =
     (if sym_id < sym_total h
      then rbind (sym_record_of h sym_id) (\<lambda>r.
        let start = unat (sr_row_start r); stop = start + unat (sr_time_count r);
            lo = max offset start; hi = min fin stop
        in if hi \<le> lo
           then if fin \<le> start then Ok [] else read_segments h tt offset fin (sym_id + 1)
           else rbind (dict_offsets_bytes h) (\<lambda>offs.
                rbind (strings_bytes h) (\<lambda>strs.
                rbind (map_err EFormat (segment_new_repeat_dict offs strs (of_nat sym_id) None (hi - lo))) (\<lambda>s.
                rbind (axis_bytes h) (\<lambda>axis.
                let t0 = unat (sr_time_start r) + (lo - start); ts = time_size_of tt in
                rbind (slice_r (t0 * ts) ((t0 + (hi - lo)) * ts) axis) (\<lambda>tb.
                rbind (map_err EFormat (segment_new (time_data_type tt) tb None (hi - lo))) (\<lambda>t.
                rbind (read_segments h tt offset fin (sym_id + 1)) (\<lambda>rest. Ok ((s, t) # rest)))))))))
      else Ok [])"
  by auto
termination by (relation "measure (\<lambda>(h, _, _, _, sym_id). sym_total h - sym_id)") auto

declare read_segments.simps [simp del]

definition read_index_handle :: "meta_handle \<Rightarrow> nat \<Rightarrow> nat \<Rightarrow> (core_error, data_view) res" where
  "read_index_handle h offset len =
     (let fin = (offset + len) mod 2 ^ 64 in
      if row_total h < fin then Err (Invalid ''index read range out of bounds'')
      else rbind (map_err EFormat (meta_time_type (mt_header h))) (\<lambda>tt.
        let schema = [\<lparr>fs_name = ''sym'', fs_type = Utf8\<rparr>, \<lparr>fs_name = ''time'', fs_type = time_data_type tt\<rparr>]
        in if len = 0
           then map_err EFormat (data_view_new schema [column_view_empty Utf8, column_view_empty (time_data_type tt)])
           else rbind (sym_index_bytes h) (\<lambda>bs.
             rbind (last_le (\<lambda>m. rbind (record_at bs m) (\<lambda>r. Ok (unat (sr_row_start r) \<le> offset))) 0 (sym_total h)) (\<lambda>sym_id.
             rbind (read_segments h tt offset fin sym_id) (\<lambda>segs.
             rbind (map_err EFormat (column_view_new Utf8 (map fst segs))) (\<lambda>sym_view.
             rbind (map_err EFormat (column_view_new (time_data_type tt) (map snd segs))) (\<lambda>time_view.
               map_err EFormat (data_view_new schema [sym_view, time_view]))))))))"

subsection \<open>An opened image\<close>

definition image_size :: "time_type \<Rightarrow> u64 list \<Rightarrow> bytes list \<Rightarrow> nat" where
  "image_size tt axis names =
     64 + length axis * time_size_of tt + (length names + 1) * 8 + length (concat names) + length names * 12"

definition image_fits :: "time_type \<Rightarrow> u64 list \<Rightarrow> bytes list \<Rightarrow> sym_record list \<Rightarrow> bool" where
  "image_fits tt axis names recs \<longleftrightarrow>
     image_size tt axis names \<le> u64_max \<and> length axis \<le> u32_max \<and> length names \<le> u32_max \<and>
     length recs = length names \<and> (\<forall>s \<in> set names. utf8_valid s)"

definition opened ::
  "time_type \<Rightarrow> u64 list \<Rightarrow> bytes list \<Rightarrow> sym_record list \<Rightarrow> nat \<Rightarrow> meta_handle \<Rightarrow> bool" where
  "opened tt axis names recs n h \<longleftrightarrow>
     image_fits tt axis names recs \<and> n \<le> u32_max \<and>
     mt_mmap h = meta_image tt axis names recs (of_nat n) \<and>
     mt_header h = image_header tt (length axis) names (of_nat n)"

lemma length_dict_offsets [simp]: "length (dict_offsets names) = length names + 1"
  by (simp add: dict_offsets_def)

lemma take_le_bytes: "k \<le> n \<Longrightarrow> take k (le_bytes n w) = le_bytes k w"
  by (simp add: le_bytes_def take_map)

lemma time_size_le_8 [simp]: "time_size_of tt \<le> 8"
  by (cases tt) simp_all

lemma image_axis: "concat (map (\<lambda>t. take (time_size_of tt) (le_bytes 8 t)) axis) = concat (map (le_bytes (time_size_of tt)) axis)"
  by (simp add: take_le_bytes)

lemma length_meta_image:
  "length recs = length names \<Longrightarrow> length (meta_image tt axis names recs rc) = image_size tt axis names"
  by (simp add: meta_image_def image_axis image_size_def sym_pod.length_concat SYM_INDEX_RECORD_SIZE_def)

lemma image_header_simps:
  assumes "image_fits tt axis names recs"
  shows "unat (mh_sym_count (image_header tt (length axis) names rc)) = length names"
    "unat (mh_time_count (image_header tt (length axis) names rc)) = length axis"
    "meta_time_type (image_header tt (length axis) names rc) = Ok tt"
    "meta_time_type_size (image_header tt (length axis) names rc) = time_size_of tt"
    "unat (mh_sym_dict_offset (image_header tt (length axis) names rc)) = 64 + length axis * time_size_of tt"
    "unat (mh_sym_index_offset (image_header tt (length axis) names rc)) =
      64 + length axis * time_size_of tt + (length names + 1) * 8 + length (concat names)"
    "unat (mh_file_size (image_header tt (length axis) names rc)) = image_size tt axis names"
    "mh_row_count (image_header tt (length axis) names rc) = ucast rc"
    "meta_header_ok (image_header tt (length axis) names rc)"
proof -
  have b: "length axis \<le> u32_max" "length names \<le> u32_max" "image_size tt axis names \<le> u64_max"
    using assms by (simp_all add: image_fits_def)
  have c: "unat (of_nat (length axis) :: u32) = length axis" "unat (of_nat (length names) :: u32) = length names"
    by (rule unat_of_nat_u32, rule b)+
  have o': "unat DATA_OFFSET = 64" by (simp add: DATA_OFFSET_def HEADER_SIZE_def)
  note unf = image_header_def Let_def c o' meta_header_new_def
  have u: "unat (of_nat k :: u64) = k" if "k \<le> image_size tt axis names" for k
    using that b(3) by (intro unat_of_nat_u64) simp
  show "unat (mh_sym_count (image_header tt (length axis) names rc)) = length names"
    "unat (mh_time_count (image_header tt (length axis) names rc)) = length axis"
    "mh_row_count (image_header tt (length axis) names rc) = ucast rc"
    by (simp_all only: unf meta_header.simps)
  show "meta_time_type (image_header tt (length axis) names rc) = Ok tt"
    "meta_time_type_size (image_header tt (length axis) names rc) = time_size_of tt"
    by (simp_all add: unf meta_time_type_def meta_time_type_size_def)
  show "unat (mh_sym_dict_offset (image_header tt (length axis) names rc)) = 64 + length axis * time_size_of tt"
    "unat (mh_sym_index_offset (image_header tt (length axis) names rc)) =
      64 + length axis * time_size_of tt + (length names + 1) * 8 + length (concat names)"
    "unat (mh_file_size (image_header tt (length axis) names rc)) = image_size tt axis names"
    unfolding unf meta_header.simps by (subst u; simp add: image_size_def)+
  show "meta_header_ok (image_header tt (length axis) names rc)"
    by (auto simp: meta_header_ok_iff unf)
qed

lemma open_image:
  assumes "fs path = Some (meta_image tt axis names recs (of_nat n))" "image_fits tt axis names recs" "n \<le> u32_max"
  shows "\<exists>h. meta_open fs path = Ok h \<and> opened tt axis names recs n h"
proof -
  have "meta_header_from_bytes (meta_image tt axis names recs (of_nat n)) = Ok (image_header tt (length axis) names (of_nat n))"
    unfolding meta_image_def by (rule meta_pod.read_back) (rule image_header_simps(9)[OF assms(2)])
  moreover have "length (meta_image tt axis names recs (of_nat n)) = image_size tt axis names"
    using assms(2) by (intro length_meta_image) (simp add: image_fits_def)
  ultimately show ?thesis
    using assms image_header_simps(7)[OF assms(2), of "of_nat n"]
    by (simp add: meta_open_def file_open_def opened_def)
qed

text \<open>The sections of an opened image.\<close>

lemma slice_r_middle:
  "lo = length xs \<Longrightarrow> hi = length xs + length ys \<Longrightarrow> slice_r lo hi (xs @ ys @ zs) = Ok ys"
  by (simp add: slice_r_def slice_ok_def slice_def)

lemma slice_r_end:
  "lo = length xs \<Longrightarrow> hi = length xs + length ys \<Longrightarrow> slice_r lo hi (xs @ ys) = Ok ys"
  using slice_r_middle[of lo xs hi ys "[]"] by simp

lemma opened_sections:
  assumes "opened tt axis names recs n h"
  shows "sym_total h = length names" "time_total h = length axis" "row_total h = n"
    "meta_time_type (mt_header h) = Ok tt" "meta_time_type_size (mt_header h) = time_size_of tt"
    "axis_bytes h = Ok (concat (map (le_bytes (time_size_of tt)) axis))"
    "dict_offsets_bytes h = Ok (concat (map (le_bytes 8) (dict_offsets names)))"
    "strings_bytes h = Ok (concat names)"
    "sym_index_bytes h = Ok (concat (map sym_record_to_bytes recs))"
proof -
  have f: "image_fits tt axis names recs" "length recs = length names" "n \<le> u32_max"
    using assms by (simp_all add: opened_def image_fits_def)
  have m: "mt_mmap h = meta_header_to_bytes (image_header tt (length axis) names (of_nat n)) @
      concat (map (le_bytes (time_size_of tt)) axis) @ concat (map (le_bytes 8) (dict_offsets names)) @
      concat names @ concat (map sym_record_to_bytes recs)"
    and hd: "mt_header h = image_header tt (length axis) names (of_nat n)"
    using assms by (simp_all add: opened_def meta_image_def image_axis)
  note s = image_header_simps[OF f(1), of "of_nat n", folded hd]
  have l: "length (meta_header_to_bytes (image_header tt (length axis) names (of_nat n))) = 64" by simp
  have lr: "length (concat (map sym_record_to_bytes recs)) = length names * 12"
    using f(2) by (simp add: sym_pod.length_concat SYM_INDEX_RECORD_SIZE_def)
  show "sym_total h = length names" "time_total h = length axis"
    "meta_time_type (mt_header h) = Ok tt" "meta_time_type_size (mt_header h) = time_size_of tt"
    by (simp_all add: sym_total_def time_total_def s)
  note t = this
  have "unat (ucast (of_nat n :: u64) :: u32) = n"
    using f(3) by (simp add: unat_of_nat unsigned_ucast_eq take_bit_nat_def)
  then show "row_total h = n" by (simp add: row_total_def s(8))
  show "axis_bytes h = Ok (concat (map (le_bytes (time_size_of tt)) axis))"
    unfolding axis_bytes_def t m by (rule slice_r_middle) (simp_all add: HEADER_SIZE_def)
  show "dict_offsets_bytes h = Ok (concat (map (le_bytes 8) (dict_offsets names)))"
    unfolding dict_offsets_bytes_def t m s Let_def
    by (subst append_assoc[symmetric], rule slice_r_middle) simp_all
  show "strings_bytes h = Ok (concat names)"
    unfolding strings_bytes_def t m s
    by (subst append_assoc[symmetric], subst append_assoc[symmetric], rule slice_r_middle) simp_all
  show "sym_index_bytes h = Ok (concat (map sym_record_to_bytes recs))"
    unfolding sym_index_bytes_def t m s Let_def
    by (subst append_assoc[symmetric], subst append_assoc[symmetric], subst append_assoc[symmetric],
        rule slice_r_end) (simp_all add: lr)
qed

subsection \<open>The elements of an opened image\<close>

definition narrow :: "time_type \<Rightarrow> u64 \<Rightarrow> u64" where
  "narrow tt t = take_bit (8 * time_size_of tt) t"

lemma record_at_concat:
  assumes "i < length recs"
  shows "record_at (concat (map sym_record_to_bytes recs)) i = Ok (recs ! i)"
proof -
  have "sym_record_from_bytes (drop (i * 12) (concat (map sym_record_to_bytes recs))) = Ok (recs ! i)"
    using sym_pod.read_nth[of recs i "[]"] assms by (simp add: SYM_INDEX_RECORD_SIZE_def)
  moreover have "i * 12 \<le> length (concat (map sym_record_to_bytes recs))"
    using assms by (simp add: sym_pod.length_concat SYM_INDEX_RECORD_SIZE_def)
  ultimately show ?thesis by (simp add: record_at_def slice_def)
qed

lemma opened_record:
  assumes "opened tt axis names recs n h" "i < length names"
  shows "sym_record_of h i = Ok (recs ! i)"
proof -
  have "i < length recs" using assms by (simp add: opened_def image_fits_def)
  then show ?thesis using assms(2)
    by (simp add: sym_record_of_def record_at_concat opened_sections[OF assms(1)])
qed

lemma axis_word_concat:
  assumes "i < length axis"
  shows "axis_word tt (time_size_of tt) (concat (map (le_bytes (time_size_of tt)) axis)) i =
    (Ok (narrow tt (axis ! i)) :: ('e, _) res)"
proof -
  have "i * time_size_of tt + time_size_of tt \<le> length axis * time_size_of tt"
    using assms mult_le_mono1[of "Suc i" "length axis" "time_size_of tt"] by simp
  then have "slice_r (i * time_size_of tt) (i * time_size_of tt + time_size_of tt)
      (concat (map (le_bytes (time_size_of tt)) axis)) = (Ok (le_bytes (time_size_of tt) (axis ! i)) :: ('e, _) res)"
    using assms by (simp add: slice_r_def slice_ok_def slice_concat_le_bytes)
  moreover have "ucast (of_le (le_bytes 4 t) :: u32) = take_bit 32 t" for t :: u64
    by (rule bit_word_eqI) (auto simp: bit_simps bit_of_le bit_le_bytes)
  ultimately show ?thesis by (cases tt) (simp_all add: axis_word_def narrow_def of_le_le_bytes)
qed

lemma opened_time:
  assumes "opened tt axis names recs n h" "i < length axis"
  shows "time_at h i = Ok (narrow tt (axis ! i))"
  using assms(2) by (simp add: time_at_def axis_word_concat opened_sections[OF assms(1)])

lemma length_concat_take: "length (concat (take i names)) \<le> length (concat names)"
  by (metis append_take_drop_id concat_append length_append le_add1)

lemma dict_offsets_nth:
  assumes "length (concat names) \<le> u64_max" "i \<le> length names"
  shows "unat (dict_offsets names ! i) = length (concat (take i names))"
proof -
  have "dict_offsets names ! i = of_nat (length (concat (take i names)))"
    using assms(2) by (simp add: dict_offsets_def nth_append del: upt_Suc)
  moreover have "length (concat (take i names)) \<le> u64_max" using length_concat_take assms(1) by (rule le_trans)
  ultimately show ?thesis by simp
qed

lemma read_u64_at_concat:
  "i < length ws \<Longrightarrow> read_u64_at (concat (map (le_bytes 8) ws)) i = Ok (unat (ws ! i :: u64))"
  by (simp add: read_u64_at_def slice_r_def slice_ok_def slice_concat_le_bytes)

lemma slice_concat_nth:
  assumes "i < length xss"
  shows "slice (length (concat (take i xss))) (length (concat (take (Suc i) xss))) (concat xss) = xss ! i"
proof -
  have "xss = take i xss @ xss ! i # drop (Suc i) xss" using assms by (rule id_take_nth_drop)
  then have "concat xss = concat (take i xss) @ xss ! i @ concat (drop (Suc i) xss)"
    by (metis concat.simps(2) concat_append)
  moreover have "length (concat (take (Suc i) xss)) = length (concat (take i xss)) + length (xss ! i)"
    using assms by (simp add: take_Suc_conv_app_nth)
  ultimately show ?thesis by (simp add: slice_def)
qed

lemma opened_name:
  assumes "opened tt axis names recs n h" "i < length names"
  shows "sym_str h i = Ok (names ! i)"
proof -
  have f: "length (concat names) \<le> u64_max" "utf8_valid (names ! i)"
    using assms by (auto simp: opened_def image_fits_def image_size_def)
  let ?lo = "length (concat (take i names))" and ?hi = "length (concat (take (Suc i) names))"
  have "?lo \<le> ?hi" using length_concat_take[of i "take (Suc i) names"] by (simp add: min_def)
  then have "slice_r ?lo ?hi (concat names) = (Ok (names ! i) :: (core_error, _) res)"
    using length_concat_take[of "Suc i" names] slice_concat_nth[OF assms(2)] by (simp add: slice_r_def slice_ok_def)
  then show ?thesis
    using f assms(2)
    by (simp add: sym_str_def opened_sections(7,8)[OF assms(1)] read_u64_at_concat dict_offsets_nth ok_or_def str_from_utf8_def)
qed

subsection \<open>Searching a strictly increasing sequence\<close>

locale sorted_probe =
  fixes probe :: "'h \<Rightarrow> nat \<Rightarrow> ('e, 'k :: linorder) res"
    and total :: "'h \<Rightarrow> nat"
    and key :: "'h \<Rightarrow> nat \<Rightarrow> 'k"
    and ok :: "'h \<Rightarrow> bool"
  assumes probe_key: "ok h \<Longrightarrow> i < total h \<Longrightarrow> probe h i = Ok (key h i)"
    and increasing: "ok h \<Longrightarrow> i < j \<Longrightarrow> j < total h \<Longrightarrow> key h i < key h j"
begin

lemma key_less_iff: "ok h \<Longrightarrow> i < total h \<Longrightarrow> j < total h \<Longrightarrow> key h i < key h j \<longleftrightarrow> i < j"
  using increasing by (metis linorder_neqE_nat order_less_asym order_less_irrefl)

lemma key_le_iff: "ok h \<Longrightarrow> i < total h \<Longrightarrow> j < total h \<Longrightarrow> key h i \<le> key h j \<longleftrightarrow> i \<le> j"
  by (metis key_less_iff linorder_not_le)

lemma bsearch_window:
  assumes "ok h" "hi \<le> total h"
  shows "\<exists>r. bsearch (probe h) v lo hi = Ok r \<and>
    (case r of Some i \<Rightarrow> lo \<le> i \<and> i < hi \<and> key h i = v | None \<Rightarrow> \<forall>i. lo \<le> i \<and> i < hi \<longrightarrow> key h i \<noteq> v)"
  using assms(2)
proof (induction "hi - lo" arbitrary: lo hi rule: less_induct)
  case less
  show ?case
  proof (cases "lo < hi")
    case True
    define m where "m = lo + (hi - lo) div 2"
    have m: "lo \<le> m" "m < hi" "m < total h" using True less.prems by (auto simp: m_def)
    have w: "hi - (m + 1) < hi - lo" "m - lo < hi - lo" using m by linarith+
    note step = bsearch.simps[of "probe h" v lo hi] probe_key[OF assms(1) m(3)]
    show ?thesis
    proof (cases "key h m" v rule: linorder_cases)
      case less'': less
      have "key h i \<noteq> v" if "i < m + 1" for i
        using key_le_iff[OF assms(1) _ m(3), of i] that m(3) less'' by auto
      moreover obtain r where "bsearch (probe h) v (m + 1) hi = Ok r"
        "case r of Some i \<Rightarrow> m + 1 \<le> i \<and> i < hi \<and> key h i = v | None \<Rightarrow> \<forall>i. m + 1 \<le> i \<and> i < hi \<longrightarrow> key h i \<noteq> v"
        using less.hyps[OF w(1)] less.prems m by auto
      moreover have "bsearch (probe h) v lo hi = bsearch (probe h) v (m + 1) hi"
        using True less'' step by (simp add: m_def[symmetric] Let_def)
      ultimately show ?thesis using m by (cases r) (auto, metis not_less)
    next
      case equal
      then show ?thesis using True step m by (auto simp: m_def[symmetric] Let_def)
    next
      case greater
      have "key h i \<noteq> v" if "m \<le> i" "i < hi" for i
        using key_le_iff[OF assms(1) m(3), of i] that less.prems greater by auto
      moreover obtain r where "bsearch (probe h) v lo m = Ok r"
        "case r of Some i \<Rightarrow> lo \<le> i \<and> i < m \<and> key h i = v | None \<Rightarrow> \<forall>i. lo \<le> i \<and> i < m \<longrightarrow> key h i \<noteq> v"
        using less.hyps[OF w(2)] less.prems m by auto
      moreover have "bsearch (probe h) v lo hi = bsearch (probe h) v lo m"
        using True greater not_less_iff_gr_or_eq[THEN iffD2, OF disjI1, OF greater] step by (simp add: m_def[symmetric] Let_def)
      ultimately show ?thesis using m by (cases r) (auto, metis not_less)
    qed
  next
    case False
    then show ?thesis by (intro exI[of _ None]) (auto simp: bsearch.simps)
  qed
qed

lemma bsearch_spec:
  assumes "ok h"
  shows "\<exists>r. bsearch (probe h) v 0 (total h) = Ok r \<and>
    (\<forall>i. r = Some i \<longleftrightarrow> i < total h \<and> key h i = v)"
proof -
  obtain r where r: "bsearch (probe h) v 0 (total h) = Ok r"
    "case r of Some i \<Rightarrow> 0 \<le> i \<and> i < total h \<and> key h i = v | None \<Rightarrow> \<forall>i. 0 \<le> i \<and> i < total h \<longrightarrow> key h i \<noteq> v"
    using bsearch_window[OF assms le_refl] by blast
  moreover have "i = j" if "i < total h" "j < total h" "key h i = key h j" for i j
    using that key_less_iff[OF assms] by (metis linorder_neqE_nat order_less_irrefl)
  ultimately show ?thesis by (auto split: option.splits)
qed

lemma lower_bound_window:
  assumes "ok h" "hi \<le> total h"
  shows "\<exists>p. lower_bound (probe h) v lo hi = Ok p \<and> (lo \<le> hi \<longrightarrow> lo \<le> p \<and> p \<le> hi) \<and>
    (\<forall>i. lo \<le> i \<and> i < hi \<longrightarrow> (i < p \<longleftrightarrow> key h i < v))"
  using assms(2)
proof (induction "hi - lo" arbitrary: lo hi rule: less_induct)
  case less
  show ?case
  proof (cases "lo < hi")
    case True
    define m where "m = (lo + hi) div 2"
    have m: "lo \<le> m" "m < hi" "m < total h" using True less.prems by (auto simp: m_def)
    have w: "hi - (m + 1) < hi - lo" "m - lo < hi - lo" using m by linarith+
    note step = lower_bound.simps[of "probe h" v lo hi] probe_key[OF assms(1) m(3)]
    show ?thesis
    proof (cases "key h m < v")
      case below: True
      obtain p where p: "lower_bound (probe h) v (m + 1) hi = Ok p" "m + 1 \<le> p" "p \<le> hi"
        "\<forall>i. m + 1 \<le> i \<and> i < hi \<longrightarrow> (i < p \<longleftrightarrow> key h i < v)"
        using less.hyps[OF w(1)] less.prems m by auto
      have "key h i < v" if "i \<le> m" for i
        using key_le_iff[OF assms(1) _ m(3), of i] that below m by (meson le_less_trans)
      then have "i < p \<longleftrightarrow> key h i < v" if "i < hi" for i
        using p(2,4) that by (cases "i \<le> m") auto
      then show ?thesis using p True below step m by (auto simp: m_def[symmetric] Let_def)
    next
      case above: False
      obtain p where p: "lower_bound (probe h) v lo m = Ok p" "lo \<le> p" "p \<le> m"
        "\<forall>i. lo \<le> i \<and> i < m \<longrightarrow> (i < p \<longleftrightarrow> key h i < v)"
        using less.hyps[OF w(2)] less.prems m by auto
      have "\<not> key h i < v" if "m \<le> i" "i < hi" for i
        using key_le_iff[OF assms(1) m(3), of i] that above less.prems by (meson le_less_trans less_le_trans not_less)
      then have "i < p \<longleftrightarrow> key h i < v" if "lo \<le> i" "i < hi" for i
        using p(3,4) that by (cases "m \<le> i") auto
      then show ?thesis using p True above step m by (auto simp: m_def[symmetric] Let_def)
    qed
  next
    case False
    then show ?thesis by (auto simp: lower_bound.simps)
  qed
qed

lemma lower_bound_spec:
  assumes "ok h"
  shows "\<exists>p \<le> total h. lower_bound (probe h) v 0 (total h) = Ok p \<and> (\<forall>i < total h. i < p \<longleftrightarrow> key h i < v)"
  using lower_bound_window[OF assms le_refl, of v 0] by auto

end

text \<open>The search for the last index that passes a test that only a prefix of the indices passes.\<close>

lemma last_le_spec:
  assumes "lo < hi" "\<And>m. lo < m \<Longrightarrow> m < hi \<Longrightarrow> ok m = Ok (P m)"
    and "\<And>i j. lo < i \<Longrightarrow> i \<le> j \<Longrightarrow> j < hi \<Longrightarrow> P j \<Longrightarrow> P i"
  shows "\<exists>r. last_le ok lo hi = Ok r \<and> lo \<le> r \<and> r < hi \<and> (r = lo \<or> P r) \<and> (\<forall>m. r < m \<and> m < hi \<longrightarrow> \<not> P m)"
  using assms
proof (induction "hi - lo" arbitrary: lo hi rule: less_induct)
  case less
  note prem = less.prems
  show ?case
  proof (cases "lo + 1 < hi")
    case True
    define m where "m = (lo + hi) div 2"
    have m: "lo < m" "m < hi" using True by (auto simp: m_def)
    have w: "hi - m < hi - lo" "m - lo < hi - lo" using m by linarith+
    have step: "last_le ok lo hi = (if P m then last_le ok m hi else last_le ok lo m)"
      using True prem(2)[OF m] by (simp add: last_le.simps[of ok lo hi] m_def[symmetric] Let_def)
    show ?thesis
    proof (cases "P m")
      case Pm: True
      have "\<exists>r. last_le ok m hi = Ok r \<and> m \<le> r \<and> r < hi \<and> (r = m \<or> P r) \<and> (\<forall>k. r < k \<and> k < hi \<longrightarrow> \<not> P k)"
      proof (rule less.hyps[OF w(1) m(2)])
        show "ok k = Ok (P k)" if "m < k" "k < hi" for k using prem(2)[of k] that m by simp
        show "P i" if "m < i" "i \<le> j" "j < hi" "P j" for i j using prem(3)[of i j] that m by simp
      qed
      then obtain r where r: "last_le ok m hi = Ok r" "m \<le> r" "r < hi" "r = m \<or> P r"
        "\<forall>k. r < k \<and> k < hi \<longrightarrow> \<not> P k" by blast
      then have "P r" using Pm by auto
      then show ?thesis using r Pm m by (intro exI[of _ r]) (simp add: step)
    next
      case nP: False
      have "\<exists>r. last_le ok lo m = Ok r \<and> lo \<le> r \<and> r < m \<and> (r = lo \<or> P r) \<and> (\<forall>k. r < k \<and> k < m \<longrightarrow> \<not> P k)"
      proof (rule less.hyps[OF w(2) m(1)])
        show "ok k = Ok (P k)" if "lo < k" "k < m" for k using prem(2)[of k] that m by simp
        show "P i" if "lo < i" "i \<le> j" "j < m" "P j" for i j using prem(3)[of i j] that m by simp
      qed
      then obtain r where r: "last_le ok lo m = Ok r" "lo \<le> r" "r < m" "r = lo \<or> P r"
        "\<forall>k. r < k \<and> k < m \<longrightarrow> \<not> P k" by blast
      have "\<not> P k" if "r < k" "k < hi" for k
      proof (cases "k < m")
        case True
        then show ?thesis using r(5) that by simp
      next
        case False
        then show ?thesis using nP prem(3)[of m k] m that by auto
      qed
      then show ?thesis using r nP m by (intro exI[of _ r]) (simp add: step)
    qed
  next
    case False
    then have "last_le ok lo hi = Ok lo" by (simp add: last_le.simps)
    then show ?thesis using prem(1) False by (intro exI[of _ lo]) auto
  qed
qed

subsection \<open>The axis and the dictionary are searchable\<close>

definition time_key :: "meta_handle \<Rightarrow> nat \<Rightarrow> u64" where
  "time_key h i = (case time_at h i of Ok t \<Rightarrow> t | _ \<Rightarrow> 0)"

definition axis_ok :: "meta_handle \<Rightarrow> bool" where
  "axis_ok h \<longleftrightarrow> (\<forall>i < time_total h. time_at h i = Ok (time_key h i)) \<and>
     (\<forall>j < time_total h. \<forall>i < j. time_key h i < time_key h j)"

definition name_key :: "meta_handle \<Rightarrow> nat \<Rightarrow> bytes" where
  "name_key h i = (case sym_str h i of Ok s \<Rightarrow> s | _ \<Rightarrow> [])"

definition dict_ok :: "meta_handle \<Rightarrow> bool" where
  "dict_ok h \<longleftrightarrow> (\<forall>i < sym_total h. sym_str h i = Ok (name_key h i)) \<and>
     (\<forall>j < sym_total h. \<forall>i < j. name_key h i < name_key h j)"

interpretation axis: sorted_probe time_or_max time_total time_key axis_ok
  by unfold_locales (auto simp: axis_ok_def time_or_max_def)

interpretation dict: sorted_probe sym_str sym_total name_key dict_ok
  by unfold_locales (auto simp: dict_ok_def)

lemma opened_axis_ok:
  assumes "opened tt axis names recs n h" "\<forall>i j. i < j \<and> j < length axis \<longrightarrow> narrow tt (axis ! i) < narrow tt (axis ! j)"
  shows "axis_ok h" "\<forall>i < length axis. time_key h i = narrow tt (axis ! i)"
  using assms(2) by (simp_all add: axis_ok_def time_key_def opened_time[OF assms(1)] opened_sections(2)[OF assms(1)])

lemma opened_dict_ok:
  assumes "opened tt axis names recs n h" "\<forall>i j. i < j \<and> j < length names \<longrightarrow> names ! i < names ! j"
  shows "dict_ok h" "\<forall>i < length names. name_key h i = names ! i"
  using assms(2) by (simp_all add: dict_ok_def name_key_def opened_name[OF assms(1)] opened_sections(1)[OF assms(1)])

subsection \<open>The grid of rows\<close>

text \<open>What the index describes: row by row, the symbol and the position on the axis.\<close>

fun grid_from :: "nat \<Rightarrow> sym_record list \<Rightarrow> (nat \<times> nat) list" where
  "grid_from s [] = []"
| "grid_from s (r # rs) =
     map (\<lambda>k. (s, unat (sr_time_start r) + k)) [0..<unat (sr_time_count r)] @ grid_from (Suc s) rs"

fun recs_tile :: "nat \<Rightarrow> sym_record list \<Rightarrow> nat \<Rightarrow> bool" where
  "recs_tile a [] b \<longleftrightarrow> a = b"
| "recs_tile a (r # rs) b \<longleftrightarrow>
     unat (sr_row_start r) = a \<and> 0 < unat (sr_time_count r) \<and> recs_tile (a + unat (sr_time_count r)) rs b"

definition rec_in :: "nat \<Rightarrow> sym_record \<Rightarrow> bool" where
  "rec_in m r \<longleftrightarrow> unat (sr_time_start r) + unat (sr_time_count r) \<le> m"

abbreviation rec_lo :: "sym_record \<Rightarrow> nat" where "rec_lo r \<equiv> unat (sr_row_start r)"
abbreviation rec_hi :: "sym_record \<Rightarrow> nat" where "rec_hi r \<equiv> unat (sr_row_start r) + unat (sr_time_count r)"

definition indexed ::
  "time_type \<Rightarrow> u64 list \<Rightarrow> bytes list \<Rightarrow> sym_record list \<Rightarrow> nat \<Rightarrow> meta_handle \<Rightarrow> bool" where
  "indexed tt axis names recs n h \<longleftrightarrow> opened tt axis names recs n h \<and> recs_tile 0 recs n \<and>
     (\<forall>r \<in> set recs. rec_in (length axis) r)"

lemma recs_tile_le: "recs_tile a recs b \<Longrightarrow> a \<le> b"
  by (induction recs arbitrary: a) fastforce+

lemma recs_tile_grid_length: "recs_tile a recs b \<Longrightarrow> length (grid_from s recs) + a = b"
  by (induction recs arbitrary: a s) fastforce+

lemma recs_tile_nth:
  "recs_tile a recs b \<Longrightarrow> j < length recs \<Longrightarrow>
   a \<le> rec_lo (recs ! j) \<and> rec_lo (recs ! j) < rec_hi (recs ! j) \<and> rec_hi (recs ! j) \<le> b \<and>
   (\<forall>k. j < k \<and> k < length recs \<longrightarrow> rec_hi (recs ! j) \<le> rec_lo (recs ! k))"
proof (induction recs arbitrary: a j)
  case (Cons r recs)
  show ?case
  proof (cases j)
    case 0
    have "a + unat (sr_time_count r) \<le> rec_lo (recs ! k)" if "k < length recs" for k
      using Cons.IH[of "a + unat (sr_time_count r)" k] Cons.prems that by simp
    then show ?thesis using 0 Cons.prems recs_tile_le[of "a + unat (sr_time_count r)" recs b]
      by (auto simp: nth_Cons split: nat.splits)
  next
    case (Suc j')
    then show ?thesis using Cons.IH[of "a + unat (sr_time_count r)" j'] Cons.prems
      by (auto simp: nth_Cons split: nat.splits)
  qed
qed simp

lemma grid_nth:
  "recs_tile a recs b \<Longrightarrow> j < length recs \<Longrightarrow> rec_lo (recs ! j) \<le> i \<Longrightarrow> i < rec_hi (recs ! j) \<Longrightarrow>
   grid_from s recs ! (i - a) = (s + j, unat (sr_time_start (recs ! j)) + (i - rec_lo (recs ! j)))"
proof (induction recs arbitrary: a s j)
  case (Cons r recs)
  show ?case
  proof (cases j)
    case 0
    then show ?thesis using Cons.prems by (auto simp: nth_append)
  next
    case (Suc j')
    then have b: "a + unat (sr_time_count r) \<le> i"
      using recs_tile_nth[of "a + unat (sr_time_count r)" recs b j'] Cons.prems by auto
    then have "grid_from (Suc s) recs ! (i - (a + unat (sr_time_count r))) =
        (Suc s + j', unat (sr_time_start (recs ! j')) + (i - rec_lo (recs ! j')))"
      using Cons.IH[of "a + unat (sr_time_count r)" j' "Suc s"] Cons.prems Suc by simp
    moreover have "\<not> i - a < unat (sr_time_count r)" "i - a - unat (sr_time_count r) = i - (a + unat (sr_time_count r))"
      using b by simp_all
    ultimately show ?thesis using Suc by (simp add: nth_append)
  qed
qed simp

lemma recs_tile_cover:
  "recs_tile a recs b \<Longrightarrow> a \<le> i \<Longrightarrow> i < b \<Longrightarrow> \<exists>j < length recs. rec_lo (recs ! j) \<le> i \<and> i < rec_hi (recs ! j)"
proof (induction recs arbitrary: a)
  case (Cons r rs)
  show ?case
  proof (cases "i < a + unat (sr_time_count r)")
    case True
    then show ?thesis using Cons.prems by (intro exI[of _ 0]) simp
  next
    case False
    then obtain j where "j < length rs" "rec_lo (rs ! j) \<le> i" "i < rec_hi (rs ! j)"
      using Cons.IH[of "a + unat (sr_time_count r)"] Cons.prems by auto
    then show ?thesis by (intro exI[of _ "Suc j"]) simp
  qed
qed simp

text \<open>The search by \<open>row_start\<close> finds the record of the row.\<close>

lemma last_le_record:
  assumes "recs_tile 0 recs n" "i < n" "\<forall>m < length recs. ok m = Ok (rec_lo (recs ! m) \<le> i)"
  shows "\<exists>j. last_le ok 0 (length recs) = Ok j \<and> j < length recs \<and> rec_lo (recs ! j) \<le> i \<and> i < rec_hi (recs ! j)"
proof -
  obtain j where j: "j < length recs" "rec_lo (recs ! j) \<le> i" "i < rec_hi (recs ! j)"
    using recs_tile_cover[OF assms(1)] assms(2) by auto
  have mono: "rec_lo (recs ! k) \<le> i" if "k \<le> m" "m < length recs" "rec_lo (recs ! m) \<le> i" for k m
    using recs_tile_nth[OF assms(1), of k] that by (cases "k = m") (auto dest: spec[of _ m])
  have "\<exists>r. last_le ok 0 (length recs) = Ok r \<and> 0 \<le> r \<and> r < length recs \<and> (r = 0 \<or> rec_lo (recs ! r) \<le> i) \<and>
      (\<forall>m. r < m \<and> m < length recs \<longrightarrow> \<not> rec_lo (recs ! m) \<le> i)"
  proof (rule last_le_spec)
    show "0 < length recs" using j(1) by linarith
    show "ok m = Ok (rec_lo (recs ! m) \<le> i)" if "m < length recs" for m using assms(3) that by blast
    show "rec_lo (recs ! k) \<le> i" if "k \<le> m" "m < length recs" "rec_lo (recs ! m) \<le> i" for k m
      by (rule mono[OF that])
  qed
  then obtain r where r: "last_le ok 0 (length recs) = Ok r" "r < length recs" "r = 0 \<or> rec_lo (recs ! r) \<le> i"
    "\<forall>m. r < m \<and> m < length recs \<longrightarrow> \<not> rec_lo (recs ! m) \<le> i" by blast
  have "j \<le> r" using r(4) j by (meson not_le)
  moreover have "rec_lo (recs ! r) \<le> i" using r(3) mono[of 0 j] j by auto
  have "r \<le> j"
  proof (rule ccontr)
    assume "\<not> r \<le> j"
    then have "rec_hi (recs ! j) \<le> rec_lo (recs ! r)" using recs_tile_nth[OF assms(1) j(1)] r(2) by auto
    with \<open>rec_lo (recs ! r) \<le> i\<close> j(3) show False by simp
  qed
  ultimately show ?thesis using r(1) j by auto
qed

end
