(* ===== verification/Meta_Read.thy ===== *)
theory Meta_Read
  imports Meta_Handle
begin

text \<open>
  Reading an opened META file: the row of the index found for a row number, the two columns that
  \<open>read_index_handle\<close> returns for a row range, and the composition of the builder with both. The
  reference is \<open>grid_from\<close>, the list of \<open>(symbol, axis position)\<close> pairs row by row.
\<close>

subsection \<open>\<open>locate_row\<close>\<close>

lemma indexed_simps:
  assumes "indexed tt axis names recs n h"
  shows "opened tt axis names recs n h" "recs_tile 0 recs n" "length recs = length names"
    "length axis \<le> u32_max" "n \<le> u32_max" "length names \<le> u32_max"
  using assms by (simp_all add: indexed_def opened_def image_fits_def)

lemma indexed_rec_in: "indexed tt axis names recs n h \<Longrightarrow> j < length recs \<Longrightarrow> rec_in (length axis) (recs ! j)"
  by (simp add: indexed_def)

lemma locate_row_grid:
  assumes ix: "indexed tt axis names recs n h" and row: "row < n"
  shows "locate_row h row = Ok (grid_from 0 recs ! row)"
proof -
  note i = indexed_simps[OF ix] and sec = opened_sections[OF indexed_simps(1)[OF ix]]
  let ?bs = "concat (map sym_record_to_bytes recs)"
  let ?ok = "\<lambda>m. rbind (record_at ?bs m) (\<lambda>r. Ok (sr_row_start r \<le> (of_nat row :: u32)))"
  have "\<forall>m < length recs. ?ok m = Ok (rec_lo (recs ! m) \<le> row)"
    using row i(5) by (simp add: record_at_concat word_le_nat_alt)
  from last_le_record[OF i(2) row this] obtain j where j: "last_le ?ok 0 (length recs) = Ok j"
    "j < length recs" "rec_lo (recs ! j) \<le> row" "row < rec_hi (recs ! j)" by blast
  have "unat (sr_time_start (recs ! j)) + (row - rec_lo (recs ! j)) < length axis"
    using indexed_rec_in[OF ix j(2)] j(3,4) by (simp add: rec_in_def)
  then have "(unat (sr_time_start (recs ! j)) + (row - rec_lo (recs ! j))) mod 2 ^ 32 =
      unat (sr_time_start (recs ! j)) + (row - rec_lo (recs ! j))"
    using i(4) by simp
  then show ?thesis
    using grid_nth[OF i(2) j(2-4), of 0] j row
    by (simp add: locate_row_def sec i(3)[symmetric] record_at_concat u64_sub_def)
qed

subsection \<open>\<open>read_index_handle\<close>\<close>

definition sym_cell :: "bytes list \<Rightarrow> nat \<times> nat \<Rightarrow> bool \<times> cell_value" where
  "sym_cell names p = (True, CKey (of_nat (fst p)) (concat (map (le_bytes 8) (dict_offsets names))) (concat names))"

definition time_cell :: "time_type \<Rightarrow> u64 list \<Rightarrow> nat \<times> nat \<Rightarrow> bool \<times> cell_value" where
  "time_cell tt axis p = (True, CBytes (le_bytes (time_size_of tt) (axis ! snd p)))"

lemma slice_append_split:
  "slice lo hi (xs @ ys) = slice lo hi xs @ slice (lo - length xs) (hi - length xs) ys"
proof (cases "lo \<le> length xs")
  case True
  then show ?thesis by (simp add: slice_def add.commute diff_diff_eq)
next
  case False
  then show ?thesis by (simp add: slice_def)
qed

lemma slice_map_upt:
  "slice lo hi (map f [0..<m]) = map (\<lambda>k. f (lo + k)) [0..<min hi m - lo]"
  by (rule nth_equalityI) (auto simp: slice_def)

lemma slice_words:
  assumes "a + c \<le> length ws" "k < c"
  shows "slice (k * s) ((k + 1) * s) (slice (a * s) ((a + c) * s) (concat (map (le_bytes s) ws))) =
    le_bytes s (ws ! (a + k))"
proof -
  have "(k + 1) * s \<le> (a + c) * s - a * s" using assms(2) mult_le_mono1[of "k + 1" c s] by (simp add: add_mult_distrib)
  then have "slice (k * s) ((k + 1) * s) (slice (a * s) ((a + c) * s) (concat (map (le_bytes s) ws))) =
      slice (a * s + k * s) (a * s + (k + 1) * s) (concat (map (le_bytes s) ws))"
    by (rule slice_slice)
  also have "a * s + k * s = (a + k) * s" by (simp add: add_mult_distrib)
  also have "a * s + (k + 1) * s = (a + k) * s + s" by (simp add: add_mult_distrib)
  also have "slice ((a + k) * s) ((a + k) * s + s) (concat (map (le_bytes s) ws)) = le_bytes s (ws ! (a + k))"
    using assms by (intro slice_concat_le_bytes) simp
  finally show ?thesis .
qed

lemma dict_offsets_image: "concat (map (le_bytes 8) (dict_offsets names)) \<noteq> []"
  "length (concat (map (le_bytes 8) (dict_offsets names))) = (length names + 1) * 8"
proof -
  show l: "length (concat (map (le_bytes 8) (dict_offsets names))) = (length names + 1) * 8"
    by (simp only: length_concat_le_bytes length_dict_offsets)
  then show "concat (map (le_bytes 8) (dict_offsets names)) \<noteq> []" by force
qed

lemma recs_tile_drop: "recs_tile a recs b \<Longrightarrow> s < length recs \<Longrightarrow> recs_tile (rec_lo (recs ! s)) (drop s recs) b"
proof (induction recs arbitrary: a s)
  case (Cons r recs)
  then show ?case by (cases s) auto
qed simp

text \<open>The cells of the two segments that one record contributes.\<close>

lemma seg_cells_repeat:
  "seg_cells Utf8 \<lparr>seg_values = RepeatDict (concat (map (le_bytes 8) (dict_offsets names))) (concat names) (of_nat s),
     seg_validity = None, seg_rows = m\<rparr> = map (\<lambda>k. sym_cell names (s, f k)) [0..<m]"
  by (simp add: seg_cells_def valid_at_def sym_cell_def)

lemma seg_cells_times:
  assumes "a + c \<le> length axis"
  shows "seg_cells (time_data_type tt)
      \<lparr>seg_values = Fixed (slice (a * time_size_of tt) ((a + c) * time_size_of tt)
         (concat (map (le_bytes (time_size_of tt)) axis))), seg_validity = None, seg_rows = c\<rparr> =
    map (\<lambda>k. time_cell tt axis (s, a + k)) [0..<c]"
  using slice_words[OF assms, of _ "time_size_of tt"]
  by (simp add: seg_cells_def valid_at_def time_cell_def time_size_of_data_type)

lemma read_segments_grid:
  assumes ix: "indexed tt axis names recs n h" and rng: "offset < fin"
  shows "s \<le> length recs \<Longrightarrow> recs_tile base (drop s recs) n \<Longrightarrow>
    \<exists>segs. read_segments h tt offset fin s = Ok segs \<and>
      (\<forall>p \<in> set segs. seg_ok Utf8 (fst p) \<and> seg_ok (time_data_type tt) (snd p)) \<and>
      concat (map (seg_cells Utf8) (map fst segs)) =
        map (sym_cell names) (slice (offset - base) (fin - base) (grid_from s (drop s recs))) \<and>
      concat (map (seg_cells (time_data_type tt)) (map snd segs)) =
        map (time_cell tt axis) (slice (offset - base) (fin - base) (grid_from s (drop s recs)))"
proof (induction "length recs - s" arbitrary: s base)
  case 0
  then show ?case using indexed_simps(3)[OF ix]
    by (simp add: read_segments.simps opened_sections[OF indexed_simps(1)[OF ix]] slice_def)
next
  case (Suc d)
  note i = indexed_simps[OF ix] and sec = opened_sections[OF indexed_simps(1)[OF ix]]
  have s: "s < length recs" "s < length names" using Suc.hyps(2) i(3) by simp_all
  let ?r = "recs ! s"
  define cnt t0 where "cnt = unat (sr_time_count ?r)" and "t0 = unat (sr_time_start ?r)"
  have d: "drop s recs = ?r # drop (Suc s) recs" using s by (simp add: Cons_nth_drop_Suc)
  have tile: "rec_lo ?r = base" "0 < cnt" "recs_tile (base + cnt) (drop (Suc s) recs) n"
    using Suc.prems(2) unfolding d by (simp_all add: cnt_def)
  have inn: "t0 + cnt \<le> length axis" using indexed_rec_in[OF ix s(1)] by (simp add: rec_in_def t0_def cnt_def)
  define lo hi where "lo = max offset base" and "hi = min fin (base + cnt)"
  let ?rest = "slice (offset - (base + cnt)) (fin - (base + cnt)) (grid_from (Suc s) (drop (Suc s) recs))"
  have l2: "offset - base = lo - base" and l1: "min (fin - base) cnt - (lo - base) = hi - lo"
    and l3: "lo - (base + cnt) = offset - (base + cnt)"
    by (auto simp: lo_def hi_def)
  have g: "slice (offset - base) (fin - base) (grid_from s (drop s recs)) =
      map (\<lambda>k. (s, t0 + (lo - base) + k)) [0..<hi - lo] @ ?rest"
    unfolding d grid_from.simps slice_append_split slice_map_upt cnt_def[symmetric] t0_def[symmetric] l2
    by (simp add: l1 l3 add.assoc)
  have rec: "sym_record_of h s = Ok ?r" using opened_record[OF i(1) s(2)] .
  note step = read_segments.simps[of h tt offset fin s]
  obtain segs where IH: "read_segments h tt offset fin (Suc s) = Ok segs"
    "\<forall>p \<in> set segs. seg_ok Utf8 (fst p) \<and> seg_ok (time_data_type tt) (snd p)"
    "concat (map (seg_cells Utf8) (map fst segs)) = map (sym_cell names) ?rest"
    "concat (map (seg_cells (time_data_type tt)) (map snd segs)) = map (time_cell tt axis) ?rest"
  proof -
    have "d = length recs - Suc s" "Suc s \<le> length recs" using Suc.hyps(2) s(1) by linarith+
    then show ?thesis using Suc.hyps(1)[OF _ _ tile(3)] that by blast
  qed
  show ?case
  proof (cases "hi \<le> lo")
    case True
    have "?rest = []" if "fin \<le> base" using that by (simp add: slice_def)
    moreover have "read_segments h tt offset fin s =
        (if fin \<le> base then Ok [] else read_segments h tt offset fin (Suc s))"
      using True s(2) unfolding step
      by (simp add: sec rec tile(1) cnt_def[symmetric] lo_def[symmetric] hi_def[symmetric] Let_def)
    ultimately show ?thesis using True IH unfolding g by auto
  next
    case False
    let ?m = "hi - lo" and ?ts = "time_size_of tt"
    let ?a = "t0 + (lo - base)"
    have a: "?a + ?m \<le> length axis" using inn False by (auto simp: lo_def hi_def)
    let ?offs = "concat (map (le_bytes 8) (dict_offsets names))"
    let ?tb = "slice (?a * ?ts) ((?a + ?m) * ?ts) (concat (map (le_bytes ?ts) axis))"
    let ?s = "\<lparr>seg_values = RepeatDict ?offs (concat names) (of_nat s), seg_validity = None, seg_rows = ?m\<rparr>"
    let ?t = "\<lparr>seg_values = Fixed ?tb, seg_validity = None, seg_rows = ?m\<rparr>"
    have fit: "(?a + ?m) * ?ts \<le> length axis * ?ts" using a by (rule mult_le_mono1)
    have "unat (of_nat s :: u32) = s" using s(2) i(6) by (intro unat_of_nat_u32) simp
    then have sgs: "segment_new_repeat_dict ?offs (concat names) (of_nat s) None ?m = Ok ?s"
      using s(2) dict_offsets_image[of names] by (simp add: segment_new_repeat_dict_Ok dict_offsets_ok_def)
    have tbs: "slice_r (?a * ?ts) ((?a + ?m) * ?ts) (concat (map (le_bytes ?ts) axis)) = (Ok ?tb :: (core_error, _) res)"
      using fit by (intro slice_r_ok) simp_all
    have sgt: "segment_new (time_data_type tt) ?tb None ?m = Ok ?t"
      using fit by (simp add: segment_new_Ok time_size_of_data_type add_mult_distrib)
    have "read_segments h tt offset fin s = Ok ((?s, ?t) # segs)"
      using False s(2) IH(1) tbs sgs sgt unfolding step
      by (simp add: sec rec tile(1) cnt_def[symmetric] t0_def[symmetric] lo_def[symmetric] hi_def[symmetric] Let_def)
    moreover have "seg_ok Utf8 ?s" "seg_ok (time_data_type tt) ?t"
      using sgs sgt by (simp_all add: segment_Ok seg_ok_def validity_ok_def)
    moreover have "seg_cells Utf8 ?s = map (sym_cell names) (map (\<lambda>k. (s, ?a + k)) [0..<?m])"
      using seg_cells_repeat[of names s ?m "\<lambda>k. ?a + k"] by simp
    moreover have "seg_cells (time_data_type tt) ?t = map (time_cell tt axis) (map (\<lambda>k. (s, ?a + k)) [0..<?m])"
      using seg_cells_times[OF a, of tt s] by simp
    ultimately show ?thesis using IH(2-4) unfolding g by (intro exI[of _ "(?s, ?t) # segs"]) simp
  qed
qed

lemma grid_split:
  "recs_tile a recs b \<Longrightarrow> j < length recs \<Longrightarrow>
   \<exists>pre. grid_from s recs = pre @ grid_from (s + j) (drop j recs) \<and> length pre + a = rec_lo (recs ! j)"
proof (induction recs arbitrary: a s j)
  case (Cons r recs)
  show ?case
  proof (cases j)
    case 0
    then show ?thesis using Cons.prems by simp
  next
    case (Suc j')
    then obtain pre where "grid_from (Suc s) recs = pre @ grid_from (Suc s + j') (drop j' recs)"
      "length pre + (a + unat (sr_time_count r)) = rec_lo (recs ! j')"
      using Cons.IH[of "a + unat (sr_time_count r)" j' "Suc s"] Cons.prems by auto
    then show ?thesis using Suc by (intro exI[of _ "map (\<lambda>k. (s, unat (sr_time_start r) + k)) [0..<unat (sr_time_count r)] @ pre"]) simp
  qed
qed simp

lemma read_index_grid:
  assumes ix: "indexed tt axis names recs n h" and len: "0 < len" "offset + len \<le> n"
  shows "\<exists>sv tv. read_index_handle h offset len =
      Ok \<lparr>dv_schema = read_index_schema h, dv_columns = [sv, tv], dv_length = len\<rparr> \<and>
    column_view_ok sv \<and> cv_length sv = len \<and>
    view_cells sv = map (sym_cell names) (slice offset (offset + len) (grid_from 0 recs)) \<and>
    view_cells tv = map (time_cell tt axis) (slice offset (offset + len) (grid_from 0 recs))"
proof -
  note i = indexed_simps[OF ix] and sec = opened_sections[OF indexed_simps(1)[OF ix]]
  let ?bs = "concat (map sym_record_to_bytes recs)"
  let ?ok = "\<lambda>m. rbind (record_at ?bs m) (\<lambda>r. Ok (rec_lo r \<le> offset))"
  have fin: "(offset + len) mod 2 ^ 64 = offset + len" using len i(5) by simp
  have off: "offset < n" using len by simp
  have "\<forall>m < length recs. ?ok m = Ok (rec_lo (recs ! m) \<le> offset)"
    by (simp add: record_at_concat)
  from last_le_record[OF i(2) off this] obtain j where j: "last_le ?ok 0 (length recs) = Ok j"
    "j < length recs" "rec_lo (recs ! j) \<le> offset" by blast
  let ?b = "rec_lo (recs ! j)" and ?rows = "slice offset (offset + len) (grid_from 0 recs)"
  have grid: "slice (offset - ?b) (offset + len - ?b) (grid_from j (drop j recs)) = ?rows"
  proof -
    obtain pre where "grid_from 0 recs = pre @ grid_from j (drop j recs)" "length pre = ?b"
      using grid_split[OF i(2) j(2), of 0] by auto
    then show ?thesis using j(3) by (simp add: slice_append_right)
  qed
  obtain segs where segs: "read_segments h tt offset (offset + len) j = Ok segs"
    "concat (map (seg_cells Utf8) (map fst segs)) = map (sym_cell names) ?rows"
    "\<forall>p \<in> set segs. seg_ok Utf8 (fst p) \<and> seg_ok (time_data_type tt) (snd p)"
    "concat (map (seg_cells (time_data_type tt)) (map snd segs)) = map (time_cell tt axis) ?rows"
    using read_segments_grid[OF ix, of offset "offset + len" j ?b] recs_tile_drop[OF i(2) j(2)] j(2) len(1)
    unfolding grid by auto
  have rows: "length ?rows = len" using recs_tile_grid_length[OF i(2), of 0] len by simp
  have sums: "sum_list (map seg_rows (map fst segs)) = len" "sum_list (map seg_rows (map snd segs)) = len"
    using arg_cong[OF segs(2), of length] arg_cong[OF segs(4), of length] rows
    by (simp_all only: length_concat_seg_cells length_map)
  then have ne: "segs \<noteq> []" using len(1) by auto
  let ?sv = "\<lparr>cv_data_type = Utf8, cv_segments = map fst segs, cv_length = len\<rparr>"
  let ?tv = "\<lparr>cv_data_type = time_data_type tt, cv_segments = map snd segs, cv_length = len\<rparr>"
  have "column_view_new Utf8 (map fst segs) = Ok ?sv" "column_view_new (time_data_type tt) (map snd segs) = Ok ?tv"
    using ne sums by (simp_all add: column_view_new_def)
  moreover have "data_view_new (read_index_schema h) [?sv, ?tv] =
      Ok \<lparr>dv_schema = read_index_schema h, dv_columns = [?sv, ?tv], dv_length = len\<rparr>"
    by (simp add: data_view_new_Ok read_index_schema_def sec)
  ultimately have "read_index_handle h offset len =
      Ok \<lparr>dv_schema = read_index_schema h, dv_columns = [?sv, ?tv], dv_length = len\<rparr>"
    using len segs(1) j(1) i(3)
    by (simp add: read_index_handle_def Let_def fin[simplified] sec read_index_schema_def)
  moreover have "column_view_ok ?sv" using segs(3) ne sums(1) by (simp add: column_view_ok_def)
  ultimately show ?thesis using segs(2,4)
    by (intro exI[of _ ?sv] exI[of _ ?tv]) (simp add: view_cells_def)
qed

lemma sym_cell_string:
  assumes "opened tt axis names recs n h" "i < length names"
  shows "cell_string (snd (sym_cell names (i, t))) = (Ok (Some (names ! i)) :: ('e, _) res)"
proof -
  have f: "length (concat names) \<le> u64_max" "utf8_valid (names ! i)" "unat (of_nat i :: u32) = i"
    using assms by (auto simp: opened_def image_fits_def image_size_def intro!: unat_of_nat_u32)
  let ?lo = "length (concat (take i names))" and ?hi = "length (concat (take (Suc i) names))"
  have "unat (dict_offsets names ! i) = ?lo" "unat (dict_offsets names ! (i + 1)) = ?hi"
    using assms(2) f(1) by (simp_all add: dict_offsets_nth)
  moreover have "?lo \<le> ?hi" "?hi \<le> length (concat names)"
    using length_concat_take[of i "take (Suc i) names"] length_concat_take[of "Suc i" names] by (simp_all add: min_def)
  ultimately show ?thesis
    using dict_string_concat[of "of_nat i" "dict_offsets names" "concat names"] assms(2) f slice_concat_nth[OF assms(2)]
    by (simp add: sym_cell_def str_from_utf8_def)
qed

subsection \<open>What a built file describes\<close>

lemma str_from_utf8_valid: "str_from_utf8 bs = Some s \<Longrightarrow> utf8_valid s"
  by (simp add: str_from_utf8_def split: if_splits)

lemma seg_string_at_valid: "seg_string_at v i = Ok (Some s) \<Longrightarrow> utf8_valid s"
  by (cases v) (auto simp: res_simps Let_def str_from_utf8_valid split: if_splits)

lemma string_at_valid: "column_view_string_at v i = Ok (Some s) \<Longrightarrow> utf8_valid s"
proof -
  have "string_at_segs segs i = Ok (Some s) \<Longrightarrow> utf8_valid s" for segs i
    by (induction segs arbitrary: i) (auto split: if_splits dest: seg_string_at_valid)
  then show "column_view_string_at v i = Ok (Some s) \<Longrightarrow> utf8_valid s" by (simp add: column_view_string_at_def)
qed

text \<open>The rows are sorted by time within every run of a key, and a key has one name.\<close>

definition sorted_input :: "u32 list \<Rightarrow> u64 list \<Rightarrow> (nat \<Rightarrow> bytes) \<Rightarrow> bool" where
  "sorted_input keys tms name \<longleftrightarrow>
     (\<forall>i. Suc i < length tms \<and> keys ! i = keys ! Suc i \<longrightarrow> tms ! i < tms ! Suc i) \<and>
     (\<forall>i < length tms. \<forall>j < length tms. keys ! i = keys ! j \<longrightarrow> name i = name j)"

lemma tiled_length: "tiled a runs b \<Longrightarrow> length runs + a \<le> b"
  by (induction runs arbitrary: a) fastforce+

lemma tiled_recs:
  "tiled a runs b \<Longrightarrow> b \<le> u32_max \<Longrightarrow> recs_tile a (map (rec_of axis) runs) b"
proof (induction runs arbitrary: a)
  case (Cons r runs)
  then have "a + run_rows r \<le> b" using tiled_le[of "a + run_rows r" runs b] by simp
  with Cons show ?case by (simp add: rec_of_def)
qed simp

text \<open>What is in the file of an input, by its runs.\<close>

lemma built_runs:
  assumes bi: "build_input d tt keys tms name n" and so: "sorted_input keys tms name"
    and b: "meta_build d = Ok b" "length b \<le> u64_max"
  shows "\<exists>runs. tiled 0 runs n \<and> (\<forall>r \<in> set runs. run_of keys tms name r) \<and> successively (other_key keys) runs \<and>
    b = meta_image tt (time_axis tms) (map run_name runs) (map (rec_of (time_axis tms)) runs) (of_nat n) \<and>
    image_fits tt (time_axis tms) (map run_name runs) (map (rec_of (time_axis tms)) runs) \<and>
    recs_tile 0 (map (rec_of (time_axis tms)) runs) n \<and>
    (\<forall>r \<in> set (map (rec_of (time_axis tms)) runs). rec_in (length (time_axis tms)) r) \<and>
    (\<forall>i < n. case grid_from 0 (map (rec_of (time_axis tms)) runs) ! i of (s, t) \<Rightarrow>
       s < length (map run_name runs) \<and> t < length (time_axis tms) \<and>
       map run_name runs ! s = name i \<and> time_axis tms ! t = tms ! i)"
proof -
  let ?ax = "time_axis tms"
  have n: "n \<le> u32_max" "length tms = n" "length keys = n" using bi by (auto simp: build_input_def)
  obtain symc where str: "\<forall>i < n. column_view_string_at symc i = (Ok (Some (name i)) :: (core_error, _) res)"
    using bi by (auto simp: build_input_def)
  obtain runs where t: "tiled 0 runs n" and ro: "\<forall>r \<in> set runs. run_of keys tms name r"
    and sc: "successively (other_key keys) runs"
    and mb: "meta_build d = (case find (\<lambda>r. \<not> spans ?ax r) runs of
       Some r \<Rightarrow> Err (NonContiguousTime (run_name r))
     | None \<Rightarrow> Ok (meta_image tt ?ax (map run_name runs) (map (rec_of ?ax) runs) (of_nat n)))"
    using meta_build_eq[OF bi] by blast
  have f: "find (\<lambda>r. \<not> spans ?ax r) runs = None" using mb b(1) by (cases "find (\<lambda>r. \<not> spans ?ax r) runs") simp_all
  then have sp: "\<forall>r \<in> set runs. spans ?ax r" by (simp add: find_None_iff)
  let ?names = "map run_name runs" and ?recs = "map (rec_of ?ax) runs"
  have img: "b = meta_image tt ?ax ?names ?recs (of_nat n)" using mb b(1) f by simp
  have al: "length ?ax \<le> u32_max" using length_time_axis_le[of tms] n by simp
  have run: "0 < run_rows r \<and> run_row_start r + run_rows r \<le> n" if "r \<in> set runs" for r
  proof -
    from that obtain j where "j < length runs" "r = runs ! j" unfolding in_set_conv_nth by blast
    then show ?thesis using tiled_nth[OF t, of j] by simp
  qed
  have nm: "run_name r = name (run_row_start r)" if "r \<in> set runs" for r using ro that by (simp add: run_of_def)
  have "utf8_valid (run_name r)" if "r \<in> set runs" for r
  proof -
    have "column_view_string_at symc (run_row_start r) = (Ok (Some (run_name r)) :: (core_error, _) res)"
      using nm[OF that] run[OF that] str by simp
    then show ?thesis by (rule string_at_valid)
  qed
  moreover have "image_size tt ?ax ?names \<le> u64_max"
    using b(2) length_meta_image[of ?recs ?names tt ?ax "of_nat n"] unfolding img by simp
  ultimately have fits: "image_fits tt ?ax ?names ?recs"
    using al tiled_length[OF t] n(1) by (simp add: image_fits_def)
  have tile: "recs_tile 0 ?recs n" using t n(1) by (rule tiled_recs)
  have cont: "pos ?ax (run_time_first r) + k < length ?ax \<and>
      ?ax ! (pos ?ax (run_time_first r) + k) = tms ! (run_row_start r + k)" if "r \<in> set runs" "k < run_rows r" for r k
  proof -
    have "\<forall>i. run_row_start r \<le> i \<and> Suc i < run_row_start r + run_rows r \<longrightarrow> tms ! i < tms ! Suc i"
    proof (intro allI impI)
      fix i assume i: "run_row_start r \<le> i \<and> Suc i < run_row_start r + run_rows r"
      have "keys ! i = keys ! run_row_start r" "keys ! Suc i = keys ! run_row_start r"
        using bspec[OF ro that(1)] i unfolding run_of_def by (meson Suc_lessD le_SucI)+
      then show "tms ! i < tms ! Suc i" using so run[OF that(1)] i n(2) by (simp add: sorted_input_def)
    qed
    moreover have "run_of keys tms name r" "0 < run_rows r" "run_row_start r + run_rows r \<le> length tms"
      "spans ?ax r" using ro sp that(1) run[OF that(1)] n(2) by simp_all
    ultimately show ?thesis using spans_contiguous[of keys tms name r k] that(2) by simp
  qed
  have pu: "unat (of_nat (pos ?ax (run_time_first r)) :: u32) = pos ?ax (run_time_first r)" if "r \<in> set runs" for r
    using cont[OF that, of 0] run[OF that] al by (intro unat_of_nat_u32) simp
  have ru: "unat (of_nat (run_rows r) :: u32) = run_rows r" "unat (of_nat (run_row_start r) :: u32) = run_row_start r"
    if "r \<in> set runs" for r using run[OF that] n(1) by (auto intro!: unat_of_nat_u32)
  have "rec_in (length ?ax) (rec_of ?ax r)" if "r \<in> set runs" for r
  proof -
    have "pos ?ax (run_time_first r) + (run_rows r - 1) < length ?ax" using cont[OF that, of "run_rows r - 1"] run[OF that] by simp
    then have "pos ?ax (run_time_first r) + run_rows r \<le> length ?ax" using run[OF that] by linarith
    then show ?thesis using pu[OF that] ru[OF that] by (simp add: rec_in_def rec_of_def)
  qed
  moreover have "case grid_from 0 ?recs ! i of (s, p) \<Rightarrow> s < length ?names \<and> p < length ?ax \<and>
       ?names ! s = name i \<and> ?ax ! p = tms ! i" if i: "i < n" for i
  proof -
    obtain j where j: "j < length runs" "run_row_start (runs ! j) \<le> i" "i < run_row_start (runs ! j) + run_rows (runs ! j)"
      using tiled_cover[OF t _ i] by auto
    let ?r = "runs ! j"
    have m: "?r \<in> set runs" using j(1) by simp
    have "grid_from 0 ?recs ! i = (j, pos ?ax (run_time_first ?r) + (i - run_row_start ?r))"
      using grid_nth[OF tile, of j i 0] j pu[OF m] ru[OF m] by (simp add: rec_of_def)
    moreover have "name (run_row_start ?r) = name i"
    proof -
      have "keys ! i = keys ! run_row_start ?r" using bspec[OF ro m] j(2,3) unfolding run_of_def by blast
      moreover have "run_row_start ?r < n" using run[OF m] by linarith
      ultimately show ?thesis using so i n(2) unfolding sorted_input_def by metis
    qed
    ultimately show ?thesis
      using cont[OF m, of "i - run_row_start ?r"] j nm[OF m] by auto
  qed
  ultimately show ?thesis using img fits tile t ro sc by (intro exI[of _ runs]) auto
qed

lemma built_open_runs:
  assumes "build_input d tt keys tms name n" "sorted_input keys tms name"
    and "meta_build d = Ok b" "length b \<le> u64_max" "fs path = Some b"
  shows "\<exists>h runs. meta_open fs path = Ok h \<and> tiled 0 runs n \<and> (\<forall>r \<in> set runs. run_of keys tms name r) \<and>
    successively (other_key keys) runs \<and>
    indexed tt (time_axis tms) (map run_name runs) (map (rec_of (time_axis tms)) runs) n h \<and>
    (\<forall>i < n. case grid_from 0 (map (rec_of (time_axis tms)) runs) ! i of (s, t) \<Rightarrow>
       s < length (map run_name runs) \<and> t < length (time_axis tms) \<and>
       map run_name runs ! s = name i \<and> time_axis tms ! t = tms ! i)"
proof -
  obtain runs where B: "tiled 0 runs n" "\<forall>r \<in> set runs. run_of keys tms name r" "successively (other_key keys) runs"
    "b = meta_image tt (time_axis tms) (map run_name runs) (map (rec_of (time_axis tms)) runs) (of_nat n)"
    "image_fits tt (time_axis tms) (map run_name runs) (map (rec_of (time_axis tms)) runs)"
    "recs_tile 0 (map (rec_of (time_axis tms)) runs) n"
    "\<forall>r \<in> set (map (rec_of (time_axis tms)) runs). rec_in (length (time_axis tms)) r"
    "\<forall>i < n. case grid_from 0 (map (rec_of (time_axis tms)) runs) ! i of (s, t) \<Rightarrow>
       s < length (map run_name runs) \<and> t < length (time_axis tms) \<and>
       map run_name runs ! s = name i \<and> time_axis tms ! t = tms ! i"
    using built_runs[OF assms(1-4)] by blast
  have "n \<le> u32_max" using assms(1) by (simp add: build_input_def)
  with B(4,5) assms(5) obtain h where "meta_open fs path = Ok h"
    "opened tt (time_axis tms) (map run_name runs) (map (rec_of (time_axis tms)) runs) n h"
    using open_image[of fs path tt "time_axis tms" "map run_name runs" "map (rec_of (time_axis tms)) runs" n] by blast
  then show ?thesis using B by (intro exI[of _ h] exI[of _ runs]) (simp add: indexed_def)
qed

lemma built_open:
  assumes "build_input d tt keys tms name n" "sorted_input keys tms name"
    and "meta_build d = Ok b" "length b \<le> u64_max" "fs path = Some b"
  shows "\<exists>h names recs. meta_open fs path = Ok h \<and> indexed tt (time_axis tms) names recs n h \<and>
    (\<forall>i < n. case grid_from 0 recs ! i of (s, t) \<Rightarrow> s < length names \<and> t < length (time_axis tms) \<and>
       names ! s = name i \<and> time_axis tms ! t = tms ! i)"
  using built_open_runs[where fs = fs and path = path, OF assms] by blast

text \<open>What the grid of a built index says about the rows of the input.\<close>

lemma grid_names:
  assumes ix: "indexed tt axis names recs n h"
    and g: "\<forall>i < n. case grid_from 0 recs ! i of (s, t) \<Rightarrow> s < length names \<and> t < length axis \<and> names ! s = name i \<and> axis ! t = tms ! i"
    and b: "offset + len \<le> n" and sv: "column_view_ok sv" "cv_length sv = len"
      "view_cells sv = map (sym_cell names) (slice offset (offset + len) (grid_from 0 recs))"
  shows "\<forall>k < len. column_view_string_at sv k = (Ok (Some (name (offset + k))) :: (core_error, _) res)"
proof (intro allI impI)
  fix k assume k: "k < len"
  have "length (grid_from 0 recs) = n" using recs_tile_grid_length[OF indexed_simps(2)[OF ix], of 0] by simp
  then have row: "slice offset (offset + len) (grid_from 0 recs) ! k = grid_from 0 recs ! (offset + k)"
    "length (slice offset (offset + len) (grid_from 0 recs)) = len" using k b by simp_all
  obtain s t where st: "grid_from 0 recs ! (offset + k) = (s, t)" by (cases "grid_from 0 recs ! (offset + k)")
  have "offset + k < n" using k b by simp
  from g[rule_format, OF this] have "s < length names" "names ! s = name (offset + k)" unfolding st by simp_all
  moreover have "view_cells sv ! k = sym_cell names (s, t)" using sv(3) row st k by simp
  moreover have "column_view_string_at sv k = (cell_string (snd (view_cells sv ! k)) :: (core_error, _) res)"
    using sv(1,2) k by (intro column_view_string_at_eq) simp_all
  ultimately show "column_view_string_at sv k = (Ok (Some (name (offset + k))) :: (core_error, _) res)"
    using sym_cell_string[OF indexed_simps(1)[OF ix], of s t, where 'e = core_error] by simp
qed

lemma grid_times:
  assumes ix: "indexed tt axis names recs n h"
    and g: "\<forall>i < n. case grid_from 0 recs ! i of (s, t) \<Rightarrow> s < length names \<and> t < length axis \<and> names ! s = name i \<and> axis ! t = tms ! i"
    and b: "offset + len \<le> n"
  shows "map (time_cell tt axis) (slice offset (offset + len) (grid_from 0 recs)) =
    map (\<lambda>k. (True, CBytes (le_bytes (time_size_of tt) (tms ! (offset + k))))) [0..<len]"
proof (rule nth_equalityI)
  have "length (grid_from 0 recs) = n" using recs_tile_grid_length[OF indexed_simps(2)[OF ix], of 0] by simp
  then have l: "length (slice offset (offset + len) (grid_from 0 recs)) = len"
    and row: "slice offset (offset + len) (grid_from 0 recs) ! k = grid_from 0 recs ! (offset + k)" if "k < len" for k
    using b that by (auto simp: slice_def)
  show "length (map (time_cell tt axis) (slice offset (offset + len) (grid_from 0 recs))) =
      length (map (\<lambda>k. (True, CBytes (le_bytes (time_size_of tt) (tms ! (offset + k))))) [0..<len])"
    using b \<open>length (grid_from 0 recs) = n\<close> by simp
  fix k assume "k < length (map (time_cell tt axis) (slice offset (offset + len) (grid_from 0 recs)))"
  then have k: "k < len" using b \<open>length (grid_from 0 recs) = n\<close> by simp
  then show "map (time_cell tt axis) (slice offset (offset + len) (grid_from 0 recs)) ! k =
      map (\<lambda>k. (True, CBytes (le_bytes (time_size_of tt) (tms ! (offset + k))))) [0..<len] ! k"
    using g[rule_format, of "offset + k"] b row[OF k] l[OF k]
    by (cases "grid_from 0 recs ! (offset + k)") (simp add: time_cell_def)
qed

subsection \<open>Properties\<close>

lemma example_built:
  obtains b where "meta_build (example_input [1, 2, 1, 2, 3]) = Ok b" "length b \<le> u64_max"
proof -
  have "case meta_build (example_input [1, 2, 1, 2, 3]) of Ok b \<Rightarrow> length b = 138 | _ \<Rightarrow> False"
    by code_simp
  then show ?thesis using that by (cases "meta_build (example_input [1, 2, 1, 2, 3])") auto
qed

lemma example_sorted: "sorted_input [0, 0, 1, 1, 1] [1, 2, 1, 2, 3] (\<lambda>i. if i < 2 then [65] else [66])"
  by (auto simp: sorted_input_def nth_Cons less_Suc_eq split: nat.splits)

text \<open>C7. Build, then open, then look a row up: for an input sorted by time within each symbol, the file
  written by the builder opens, has the input's row count, and \<open>locate_row\<close> of every input row gives a
  symbol whose string is the row's symbol and an axis position whose time is the row's time (to the width
  of the time type).\<close>

theorem build_open_locate:
  assumes "build_input d tt keys tms name n" "sorted_input keys tms name"
    and "meta_build d = Ok b" "length b \<le> u64_max" "fs path = Some b"
  shows "\<exists>h. meta_open fs path = Ok h \<and> row_total h = n \<and>
    (\<forall>i < n. \<exists>s t. locate_row h i = Ok (s, t) \<and> sym_str h s = Ok (name i) \<and> time_at h t = Ok (narrow tt (tms ! i)))"
proof -
  obtain h names recs where h: "meta_open fs path = Ok h" and ix: "indexed tt (time_axis tms) names recs n h"
    and g: "\<forall>i < n. case grid_from 0 recs ! i of (s, t) \<Rightarrow> s < length names \<and> t < length (time_axis tms) \<and>
       names ! s = name i \<and> time_axis tms ! t = tms ! i"
    using built_open[where fs = fs and path = path, OF assms] by blast
  note o' = indexed_simps(1)[OF ix]
  have "\<exists>s t. locate_row h i = Ok (s, t) \<and> sym_str h s = Ok (name i) \<and> time_at h t = Ok (narrow tt (tms ! i))"
    if "i < n" for i
    using g that locate_row_grid[OF ix that] opened_name[OF o'] opened_time[OF o']
    by (cases "grid_from 0 recs ! i") auto
  then show ?thesis using h opened_sections(3)[OF o'] by blast
qed

theorem build_open_locate_witness:
  "\<exists>b h. meta_build (example_input [1, 2, 1, 2, 3]) = Ok b \<and> meta_open (\<lambda>_. Some b) ''META'' = Ok h \<and>
    row_total h = 5 \<and>
    (\<forall>i < 5. \<exists>s t. locate_row h i = Ok (s, t) \<and> sym_str h s = Ok (if i < 2 then [65] else [66]) \<and>
       time_at h t = Ok (narrow TT_TimestampUs ([1, 2, 1, 2, 3] ! i)))"
proof -
  obtain b where "meta_build (example_input [1, 2, 1, 2, 3]) = Ok b" "length b \<le> u64_max" by (rule example_built)
  then show ?thesis
    using build_open_locate[OF example_build_input example_sorted, of b "\<lambda>_. Some b" "''META''"] by blast
qed

text \<open>C9. Build, then open, then read a row range: the two columns that \<open>read_index_handle\<close> assembles
  from slices of the file show, row by row, the symbol and the time of the input.\<close>

theorem build_open_read:
  assumes "build_input d tt keys tms name n" "sorted_input keys tms name"
    and "meta_build d = Ok b" "length b \<le> u64_max" "fs path = Some b"
    and "0 < len" "offset + len \<le> n"
  shows "\<exists>h sv tv. meta_open fs path = Ok h \<and>
    read_index_handle h offset len =
      Ok \<lparr>dv_schema = read_index_schema h, dv_columns = [sv, tv], dv_length = len\<rparr> \<and>
    (\<forall>k < len. column_view_string_at sv k = (Ok (Some (name (offset + k))) :: (core_error, _) res)) \<and>
    view_cells tv = map (\<lambda>k. (True, CBytes (le_bytes (time_size_of tt) (tms ! (offset + k))))) [0..<len]"
proof -
  obtain h names recs where h: "meta_open fs path = Ok h" and ix: "indexed tt (time_axis tms) names recs n h"
    and g: "\<forall>i < n. case grid_from 0 recs ! i of (s, t) \<Rightarrow> s < length names \<and> t < length (time_axis tms) \<and>
       names ! s = name i \<and> time_axis tms ! t = tms ! i"
    using built_open[where fs = fs and path = path, OF assms(1-5)] by blast
  obtain sv tv where R: "read_index_handle h offset len =
      Ok \<lparr>dv_schema = read_index_schema h, dv_columns = [sv, tv], dv_length = len\<rparr>"
    "column_view_ok sv" "cv_length sv = len" "view_cells sv = map (sym_cell names) (slice offset (offset + len) (grid_from 0 recs))"
    "view_cells tv = map (time_cell tt (time_axis tms)) (slice offset (offset + len) (grid_from 0 recs))"
    using read_index_grid[OF ix assms(6,7)] by blast
  show ?thesis using h R(1,5) grid_names[OF ix g assms(7) R(2-4)] grid_times[OF ix g assms(7)] by auto
qed

theorem build_open_read_witness:
  "\<exists>b h sv tv. meta_build (example_input [1, 2, 1, 2, 3]) = Ok b \<and> meta_open (\<lambda>_. Some b) ''META'' = Ok h \<and>
    read_index_handle h 1 3 = Ok \<lparr>dv_schema = read_index_schema h, dv_columns = [sv, tv], dv_length = 3\<rparr> \<and>
    (\<forall>k < 3. column_view_string_at sv k = (Ok (Some (if 1 + k < 2 then [65] else [66])) :: (core_error, _) res)) \<and>
    view_cells tv = map (\<lambda>k. (True, CBytes (le_bytes (time_size_of TT_TimestampUs) ([1, 2, 1, 2, 3 :: u64] ! (1 + k))))) [0..<3]"
proof -
  obtain b where "meta_build (example_input [1, 2, 1, 2, 3]) = Ok b" "length b \<le> u64_max" by (rule example_built)
  moreover have "(0 :: nat) < 3" "1 + 3 \<le> (5 :: nat)" by simp_all
  ultimately show ?thesis
    using build_open_read[OF example_build_input example_sorted, of b "\<lambda>_. Some b" "''META''" 3 1] by blast
qed

text \<open>Only the ends and the length of a run are compared with the axis: the times 1, 9, 3 of the second
  symbol are not sorted, but the file is built and gives the middle row the time 2, which it does not have.\<close>

theorem build_accepts_unsorted:
  "meta_build (example_input [1, 2, 1, 9, 3]) =
     Ok (meta_image TT_TimestampUs [1, 2, 3, 9] [[65], [66]]
       [\<lparr>sr_time_start = 0, sr_time_count = 2, sr_row_start = 0\<rparr>,
        \<lparr>sr_time_start = 0, sr_time_count = 3, sr_row_start = 2\<rparr>] 5) \<and>
   grid_from 0 [\<lparr>sr_time_start = 0, sr_time_count = 2, sr_row_start = 0\<rparr>,
        \<lparr>sr_time_start = 0, sr_time_count = 3, sr_row_start = 2\<rparr>] ! 3 = (1, 1) \<and>
   [1, 2, 3, 9 :: u64] ! 1 = 2"
  by (intro conjI; code_simp)

end
