(* ===== verification/Number_Meaning.thy ===== *)
theory Number_Meaning
  imports Predicates Meta_Handle
begin

text \<open>
  What stored numbers mean, independent of the routines that convert and compare them: the number that the
  bytes of a cell stand for, and when the bytes of another type hold that number: modulo the width for
  integers, to the nearest value with ties to even for floats. The lemmas show that the rounding of the
  conversions meets this.
\<close>

subsection \<open>Numbers\<close>

text \<open>A number has a sign (true is minus) and a magnitude in units of \<open>2 ^ -1074\<close>, in which every integer and
  every finite float is whole. Infinity is \<open>2 ^ 1024\<close>, which no type stores otherwise.\<close>

datatype number = NotANumber | Num bool nat

definition infinite_mag :: nat where "infinite_mag = 2 ^ (1024 + 1074)"

definition int_number :: "int \<Rightarrow> number" where
  "int_number z = Num (z < 0) (nat \<bar>z\<bar> * 2 ^ 1074)"

definition f64_number :: "u64 \<Rightarrow> number" where
  "f64_number w = (if 2047 * 2 ^ 52 < f64_mag w then NotANumber else Num (bit w 63) (f64_scaled (f64_mag w)))"

definition f32_mag :: "u32 \<Rightarrow> nat" where
  "f32_mag w = unat (take_bit 31 w)"

definition f32_number :: "u32 \<Rightarrow> number" where
  "f32_number w = (if 255 * 2 ^ 23 < f32_mag w then NotANumber
     else Num (bit w 31) (if f32_mag w = 255 * 2 ^ 23 then infinite_mag else f32_scaled (f32_mag w) * 2 ^ 925))"

subsection \<open>The nearest value\<close>

text \<open>Among the magnitudes \<open>0..lim\<close>, whose values \<open>v\<close> ascend, \<open>m\<close> is closest to \<open>x\<close>; of two the even one.\<close>

definition nearest :: "(nat \<Rightarrow> nat) \<Rightarrow> nat \<Rightarrow> nat \<Rightarrow> nat \<Rightarrow> bool" where
  "nearest v lim x m \<longleftrightarrow> m \<le> lim \<and> (\<forall>k \<le> lim. k \<noteq> m \<longrightarrow>
     \<bar>int (v m) - int x\<bar> < \<bar>int (v k) - int x\<bar> \<or> \<bar>int (v m) - int x\<bar> = \<bar>int (v k) - int x\<bar> \<and> even m)"

lemma nearest_exact: "strict_mono v \<Longrightarrow> m \<le> lim \<Longrightarrow> v m = x \<Longrightarrow> nearest v lim x m"
  by (auto simp: nearest_def strict_mono_eq)

text \<open>Rounding between two neighbours.\<close>

lemma nearest_between:
  assumes v: "strict_mono v" and m0: "v m0 \<le> x" "x < v (Suc m0)"
    and m: "m = (if 2 * (x - v m0) < v (Suc m0) - v m0 \<or> (2 * (x - v m0) = v (Suc m0) - v m0 \<and> even m0) then m0 else Suc m0)"
  shows "nearest v lim x (min lim m)"
proof (cases "m \<le> lim")
  case True
  have "\<bar>int (v m) - int x\<bar> < \<bar>int (v k) - int x\<bar> \<or> \<bar>int (v m) - int x\<bar> = \<bar>int (v k) - int x\<bar> \<and> even m" if "k \<noteq> m" for k
  proof -
    consider "k < m0" | "k = m0" | "k = Suc m0" | "Suc m0 < k" by linarith
    then show ?thesis
    proof cases
      case 1
      then have "v k < v m0" using v by (simp add: strict_mono_less)
      then show ?thesis using m0 m by (auto split: if_splits)
    next
      case 4
      then have "v (Suc m0) < v k" using v by (simp add: strict_mono_less)
      then show ?thesis using m0 m by (auto split: if_splits)
    qed (use m0 m that in \<open>auto split: if_splits\<close>)
  qed
  then show ?thesis using True by (simp add: nearest_def min_absorb2)
next
  case False
  then have lim: "lim \<le> m0" using m by (auto split: if_splits)
  have "v k < v lim \<and> v lim \<le> v m0" if "k \<le> lim" "k \<noteq> lim" for k
    using v lim that by (simp add: strict_mono_less strict_mono_less_eq)
  then show ?thesis using False m0 by (fastforce simp: nearest_def min_absorb1)
qed

subsection \<open>Floats of any precision\<close>

text \<open>The value of a magnitude with \<open>p\<close> stored bits of the fraction, in units of the smallest one.\<close>

definition scaled :: "nat \<Rightarrow> nat \<Rightarrow> nat" where
  "scaled p m = (let e = m div 2 ^ p; f = m mod 2 ^ p in if e = 0 then f else (2 ^ p + f) * 2 ^ (e - 1))"

lemma f64_scaled_eq: "f64_scaled = scaled 52" and f32_scaled_eq: "f32_scaled = scaled 23"
  by (simp_all add: fun_eq_iff f64_scaled_def f32_scaled_def scaled_def)

lemma scaled_ef: "f < 2 ^ p \<Longrightarrow> scaled p (e * 2 ^ p + f) = (if e = 0 then f else (2 ^ p + f) * 2 ^ (e - 1))"
  unfolding scaled_def Let_def by (simp only: div_mod_add)

text \<open>A significand up to \<open>2 ^ (p + 1)\<close> with its exponent.\<close>

lemma scaled_significand:
  assumes "q \<le> 2 ^ (p + 1)" "0 < s \<Longrightarrow> 2 ^ p \<le> q"
  shows "scaled p (s * 2 ^ p + q) = q * 2 ^ s"
proof -
  consider "q < 2 ^ p" | "2 ^ p \<le> q" "q < 2 ^ (p + 1)" | "q = 2 ^ (p + 1)" using assms(1) by linarith
  then show ?thesis
  proof cases
    case 1
    then have s: "s = 0" using assms(2) by linarith
    show ?thesis using scaled_ef[OF 1, of 0] unfolding s by simp
  next
    case 2
    then have f: "q - 2 ^ p < 2 ^ p" by simp
    have "s * 2 ^ p + q = Suc s * 2 ^ p + (q - 2 ^ p)" using 2(1) by simp
    then show ?thesis using scaled_ef[OF f, of "Suc s"] 2(1) by (simp del: mult_Suc)
  next
    case 3
    have "s * 2 ^ p + q = Suc (Suc s) * 2 ^ p + 0" unfolding 3 by simp
    then have "scaled p (s * 2 ^ p + q) = 2 ^ p * 2 ^ Suc s" using scaled_ef[of 0 p "Suc (Suc s)"] by (simp del: mult_Suc)
    then show ?thesis unfolding 3 by simp
  qed
qed

lemma scaled_step: "scaled p m < scaled p (Suc m)"
proof -
  obtain e f where m: "m = e * 2 ^ p + f" "f < 2 ^ p"
    by (rule that[of "m div 2 ^ p" "m mod 2 ^ p"]) (simp_all only: div_mult_mod_eq, simp)
  show ?thesis
  proof (cases e)
    case 0
    then show ?thesis using scaled_significand[of m p 0] scaled_significand[of "Suc m" p 0] m by simp
  next
    case (Suc s)
    let ?q = "2 ^ p + f"
    have q: "m = s * 2 ^ p + ?q" "Suc m = s * 2 ^ p + Suc ?q" using m(1) Suc by simp_all
    have "scaled p m = ?q * 2 ^ s" unfolding q(1) by (rule scaled_significand) (use m(2) in simp_all)
    moreover have "scaled p (Suc m) = Suc ?q * 2 ^ s" unfolding q(2) by (rule scaled_significand) (use m(2) in simp_all)
    ultimately show ?thesis by simp
  qed
qed

lemma scaled_mono: "strict_mono (scaled p)"
  by (rule strict_monoI) (rule lift_Suc_mono_less[of "scaled p", OF scaled_step])

text \<open>Rounding to the nearest, in units \<open>2 ^ u\<close> times finer than the smallest float.\<close>

definition round_mag :: "nat \<Rightarrow> nat \<Rightarrow> nat \<Rightarrow> nat" where
  "round_mag p u x = (let sh = max u (ilog2 x - p); q = x div 2 ^ sh; r = x mod 2 ^ sh
     in (sh - u) * 2 ^ p + (if 2 * r < 2 ^ sh \<or> (2 * r = 2 ^ sh \<and> even q) then q else Suc q))"

lemma round_mag_nearest:
  assumes "0 < p"
  shows "nearest (\<lambda>m. scaled p m * 2 ^ u) lim x (min lim (round_mag p u x))"
proof -
  define sh q r where "sh = max u (ilog2 x - p)" and "q = x div 2 ^ sh" and "r = x mod 2 ^ sh"
  define m0 where "m0 = (sh - u) * 2 ^ p + q"
  have x: "x = q * 2 ^ sh + r" "r < 2 ^ sh" unfolding q_def r_def by (simp_all only: div_mult_mod_eq) simp
  have up: "x < 2 ^ (sh + p + 1)"
  proof (cases "x = 0")
    case False
    then have "x < 2 ^ Suc (ilog2 x)" using ilog2_bounds[of x] by simp
    also have "\<dots> \<le> 2 ^ (sh + p + 1)" by (intro power_increasing) (simp_all add: sh_def)
    finally show ?thesis .
  qed simp
  have q1: "q < 2 ^ (p + 1)"
  proof -
    have "x < 2 ^ (p + 1) * 2 ^ sh" using up by (simp add: power_add ac_simps)
    then show ?thesis by (simp add: q_def less_mult_imp_div_less)
  qed
  have q2: "2 ^ p \<le> q" if s: "0 < sh - u"
  proof -
    have "sh = ilog2 x - p" "0 < ilog2 x - p" using s by (auto simp: sh_def max_def split: if_splits)
    then have e: "ilog2 x = p + sh" by simp
    have "0 < x" using \<open>0 < ilog2 x - p\<close> by (cases x) (simp_all add: ilog2.simps[of 0])
    then have "2 ^ (p + sh) \<le> x" using ilog2_bounds[of x] e by simp
    then have "2 ^ p * 2 ^ sh div 2 ^ sh \<le> q" unfolding q_def by (intro div_le_mono) (simp add: power_add)
    then show ?thesis by simp
  qed
  have pw: "2 ^ (sh - u) * 2 ^ u = (2 :: nat) ^ sh" by (simp add: sh_def flip: power_add)
  have v0: "scaled p m0 * 2 ^ u = q * 2 ^ sh"
  proof -
    have "scaled p m0 = q * 2 ^ (sh - u)" unfolding m0_def by (rule scaled_significand) (use q1 q2 in simp_all)
    then show ?thesis by (simp add: mult.assoc pw)
  qed
  have v1: "scaled p (Suc m0) * 2 ^ u = Suc q * 2 ^ sh"
  proof -
    have "scaled p (Suc m0) = Suc q * 2 ^ (sh - u)"
      unfolding m0_def add_Suc_right[symmetric] by (rule scaled_significand) (use q1 q2 in fastforce)+
    then show ?thesis by (simp only: mult.assoc pw)
  qed
  have ev: "even m0 \<longleftrightarrow> even q" using assms by (simp add: m0_def)
  have mono: "strict_mono (\<lambda>m. scaled p m * 2 ^ u)" using scaled_mono[of p] by (simp add: strict_mono_def)
  have b: "scaled p m0 * 2 ^ u \<le> x" "x < scaled p (Suc m0) * 2 ^ u" unfolding v0 v1 using x by simp_all
  have d: "x - q * 2 ^ sh = r" "Suc q * 2 ^ sh - q * 2 ^ sh = 2 ^ sh" using x(1) by simp_all
  have m: "round_mag p u x = (if 2 * (x - scaled p m0 * 2 ^ u) < scaled p (Suc m0) * 2 ^ u - scaled p m0 * 2 ^ u \<or>
        2 * (x - scaled p m0 * 2 ^ u) = scaled p (Suc m0) * 2 ^ u - scaled p m0 * 2 ^ u \<and> even m0 then m0 else Suc m0)"
    unfolding v0 v1 d round_mag_def Let_def sh_def[symmetric] q_def[symmetric] r_def[symmetric] ev by (simp add: m0_def)
  show ?thesis by (rule nearest_between[OF mono b m])
qed

lemma ilog2_shift: "0 < n \<Longrightarrow> ilog2 (n * 2 ^ k) = ilog2 n + k"
proof (induction k)
  case (Suc k)
  have "ilog2 (n * 2 ^ Suc k) = Suc (ilog2 (n * 2 ^ Suc k div 2))"
    using Suc.prems by (subst ilog2.simps) (simp add: not_less)
  then show ?case using Suc by simp
qed simp

subsection \<open>The conversions round to the nearest\<close>

definition nearest_f64 :: "number \<Rightarrow> u64 \<Rightarrow> bool" where
  "nearest_f64 n w = (case n of NotANumber \<Rightarrow> 2047 * 2 ^ 52 < f64_mag w
     | Num s x \<Rightarrow> bit w 63 = s \<and> nearest f64_scaled (2047 * 2 ^ 52) x (f64_mag w))"

definition nearest_f32 :: "number \<Rightarrow> u32 \<Rightarrow> bool" where
  "nearest_f32 n w = (case n of NotANumber \<Rightarrow> 255 * 2 ^ 23 < f32_mag w
     | Num s x \<Rightarrow> bit w 31 = s \<and> nearest (\<lambda>m. f32_scaled m * 2 ^ 925) (255 * 2 ^ 23) x (f32_mag w))"

lemma nearest_f64_self: "nearest_f64 (f64_number w) w"
  using nearest_exact[OF scaled_mono[of 52], of "f64_mag w"]
  by (auto simp: nearest_f64_def f64_number_def f64_scaled_eq not_less)

lemma nat_to_f64_round:
  assumes "0 < n"
  shows "nat_to_f64_mag n = round_mag 52 0 (n * 2 ^ 1074)"
proof -
  define e where "e = ilog2 n"
  have sh: "max 0 (ilog2 (n * 2 ^ 1074) - 52) = e + 1022" using ilog2_shift[OF assms, of 1074] by (simp add: e_def)
  show ?thesis
  proof (cases "e \<le> 52")
    case True
    have "(2 :: nat) ^ 1074 = 2 ^ (52 - e) * 2 ^ (e + 1022)" using True by (simp flip: power_add)
    then have q: "n * 2 ^ 1074 = n * 2 ^ (52 - e) * 2 ^ (e + 1022)" by (simp only: mult.assoc)
    have "n * 2 ^ 1074 div 2 ^ (e + 1022) = n * 2 ^ (52 - e)" "n * 2 ^ 1074 mod 2 ^ (e + 1022) = 0"
      unfolding q by simp_all
    then show ?thesis using assms True unfolding round_mag_def sh Let_def nat_to_f64_mag_def e_def[symmetric] by simp
  next
    case False
    define k where "k = e - 52"
    then have e: "e = 52 + k" and k: "0 < k" using False by simp_all
    have q: "(2 :: nat) ^ (e + 1022) = 2 ^ k * 2 ^ 1074"
    proof -
      have "e + 1022 = k + 1074" using e by simp
      then show ?thesis by (simp only: power_add)
    qed
    have d: "n * 2 ^ 1074 div 2 ^ (e + 1022) = n div 2 ^ k" "n * 2 ^ 1074 mod 2 ^ (e + 1022) = n mod 2 ^ k * 2 ^ 1074"
      unfolding q by (simp_all add: mult_mod_left)
    obtain j where j: "k = Suc j" using k by (cases k) auto
    have c: "2 * (n mod 2 ^ k * 2 ^ 1074) < 2 ^ (e + 1022) \<longleftrightarrow> n mod 2 ^ k < 2 ^ j"
      "2 * (n mod 2 ^ k * 2 ^ 1074) = 2 ^ (e + 1022) \<longleftrightarrow> n mod 2 ^ k = 2 ^ j" unfolding q j by (simp_all add: mult.assoc[symmetric])
    have j': "e - 52 = k" "e - 53 = j" using e j by simp_all
    show ?thesis
      using assms False unfolding round_mag_def sh Let_def d c nat_to_f64_mag_def e_def[symmetric] j'
      by (auto simp: not_less le_less)
  qed
qed

lemma nat_to_f64_bound:
  assumes "0 < n" "n < 2 ^ 64"
  shows "nat_to_f64_mag n \<le> 1087 * 2 ^ 52"
proof -
  define e where "e = ilog2 n"
  have b: "2 ^ e \<le> n" "n < 2 ^ Suc e" using ilog2_bounds[OF assms(1)] by (simp_all add: e_def)
  have "2 ^ e < (2 :: nat) ^ 64" using b assms by linarith
  then have e: "e \<le> 63" using power_less_imp_less_exp[of "2 :: nat" e 64] by simp
  have le: "(e + 1022) * 2 ^ 52 \<le> (1085 * 2 ^ 52 :: nat)" using e by simp
  define q where "q = (if e \<le> 52 then n * 2 ^ (52 - e) else n div 2 ^ (e - 52))"
  have q: "q < 2 ^ 53"
  proof (cases "e \<le> 52")
    case True
    have "n * 2 ^ (52 - e) < 2 ^ Suc e * 2 ^ (52 - e)" using b(2) by simp
    also have "\<dots> = 2 ^ (Suc e + (52 - e))" by (simp only: power_add)
    also have "Suc e + (52 - e) = 53" using True by simp
    finally show ?thesis using True by (simp add: q_def)
  next
    case False
    then have "Suc e = 53 + (e - 52)" by simp
    then have "n < 2 ^ 53 * 2 ^ (e - 52)" using b(2) by (metis power_add)
    then have "n div 2 ^ (e - 52) < 2 ^ 53" by (rule less_mult_imp_div_less)
    then show ?thesis using False by (simp add: q_def)
  qed
  have "nat_to_f64_mag n \<le> (e + 1022) * 2 ^ 52 + Suc q"
    using assms(1) unfolding nat_to_f64_mag_def Let_def e_def[symmetric] q_def by simp
  also have "\<dots> \<le> 1085 * 2 ^ 52 + 2 ^ 53" using q le by linarith
  finally show ?thesis by simp
qed

lemma int_to_f64_nearest:
  assumes "nat \<bar>z\<bar> < 2 ^ 64"
  shows "nearest_f64 (int_number z) (int_to_f64 z)"
proof -
  define n where "n = nat \<bar>z\<bar>"
  have N: "nearest f64_scaled (2047 * 2 ^ 52) (n * 2 ^ 1074) (nat_to_f64_mag n)" and lt: "nat_to_f64_mag n < 2 ^ 63"
  proof (atomize(full), cases "n = 0")
    case True
    then show "nearest f64_scaled (2047 * 2 ^ 52) (n * 2 ^ 1074) (nat_to_f64_mag n) \<and> nat_to_f64_mag n < 2 ^ 63"
      using nearest_exact[OF scaled_mono[of 52], of 0 "2047 * 2 ^ 52" 0]
      by (simp add: nat_to_f64_mag_def f64_scaled_eq scaled_def)
  next
    case False
    then have n: "0 < n" by simp
    have b: "nat_to_f64_mag n \<le> 1087 * 2 ^ 52" using nat_to_f64_bound[OF n] assms by (simp add: n_def)
    have r: "round_mag 52 0 (n * 2 ^ 1074) = nat_to_f64_mag n" using nat_to_f64_round[OF n] by simp
    have "nearest f64_scaled (2047 * 2 ^ 52) (n * 2 ^ 1074) (min (2047 * 2 ^ 52) (nat_to_f64_mag n))"
      using round_mag_nearest[of 52 0 "2047 * 2 ^ 52" "n * 2 ^ 1074"] unfolding r f64_scaled_eq power_0 mult_1_right by simp
    moreover have "min (2047 * 2 ^ 52) (nat_to_f64_mag n) = nat_to_f64_mag n" using b by simp
    ultimately show "nearest f64_scaled (2047 * 2 ^ 52) (n * 2 ^ 1074) (nat_to_f64_mag n) \<and> nat_to_f64_mag n < 2 ^ 63"
      using b by simp
  qed
  have i: "int_number z = Num (z < 0) (n * 2 ^ 1074)" by (simp add: int_number_def n_def)
  have w: "int_to_f64 z = of_nat (if z < 0 then 2 ^ 63 + nat_to_f64_mag n else nat_to_f64_mag n)"
    by (simp add: int_to_f64_def n_def)
  show ?thesis using f64_of_mag[OF lt] N unfolding w i nearest_f64_def by (cases "z < 0") simp_all
qed

lemma f32_widened: "f64_number (f32_to_f64 w) = f32_number w"
proof (cases "f32_mag w div 2 ^ 23 < 255")
  case True
  have e: "f64_scaled (f64_mag (f32_to_f64 w)) = f32_scaled (f32_mag w) * 2 ^ 925" "bit (f32_to_f64 w) 63 = bit w 31"
    using f32_to_f64_exact[of w] True by (auto simp: f32_mag_def)
  have lt: "f32_mag w < 255 * 2 ^ 23" using True by (simp add: div_less_iff_less_mult)
  have "\<not> 2047 * 2 ^ 52 < f64_mag (f32_to_f64 w)"
  proof
    assume "2047 * 2 ^ 52 < f64_mag (f32_to_f64 w)"
    then have "f64_scaled (2047 * 2 ^ 52) < f64_scaled (f64_mag (f32_to_f64 w))" by (rule f64_scaled_mono)
    also have "\<dots> = scaled 23 (f32_mag w) * 2 ^ 925" by (simp only: e(1) f32_scaled_eq)
    also have "\<dots> < scaled 23 (255 * 2 ^ 23) * 2 ^ 925" using scaled_mono[of 23] lt by (simp add: strict_mono_less)
    finally show False by (simp add: f64_scaled_def scaled_def)
  qed
  then show ?thesis using e lt by (simp add: f64_number_def f32_number_def)
next
  case False
  have "f32_mag w < 2 ^ 31" using take_bit_nat_less_exp[of 31 "unat w"] by (simp add: f32_mag_def unsigned_take_bit_eq)
  then have "f32_mag w div 2 ^ 23 < 256" by (simp add: div_less_iff_less_mult)
  then have ex: "f32_mag w div 2 ^ 23 = 255" using False by linarith
  define f where "f = f32_mag w mod 2 ^ 23"
  have f: "f < 2 ^ 23" by (simp add: f_def)
  have m: "f32_mag w = 255 * 2 ^ 23 + f" unfolding f_def ex[symmetric] by (simp only: div_mult_mod_eq)
  define mag where "mag = 2047 * 2 ^ 52 + f * 2 ^ 29"
  have w: "f32_to_f64 w = of_nat (if bit w 31 then 2 ^ 63 + mag else mag)"
    using ex unfolding f32_to_f64_def Let_def f32_mag_def[symmetric] f_def[symmetric] by (simp add: mag_def)
  have lt: "mag < 2 ^ 63" using f by (simp add: mag_def)
  have g: "f64_mag (f32_to_f64 w) = mag" "bit (f32_to_f64 w) 63 = bit w 31"
    using f64_of_mag[OF lt] unfolding w by (cases "bit w 31"; simp)+
  have i: "f64_scaled (2047 * 2 ^ 52) = infinite_mag" by (simp add: f64_scaled_def infinite_mag_def)
  show ?thesis
  proof (cases "f = 0")
    case True
    then show ?thesis using m i g by (simp add: f64_number_def f32_number_def mag_def)
  next
    case False
    then show ?thesis using m i g by (simp add: f64_number_def f32_number_def mag_def)
  qed
qed

subsection \<open>What the bytes of a cell mean, and when other bytes hold it\<close>

fun whole_value :: "data_type \<Rightarrow> bytes \<Rightarrow> int" where
  "whole_value Bool bs = of_bool (of_le bs \<noteq> (0 :: u8))"
| "whole_value Int8 bs = sint (of_le bs :: u8)"
| "whole_value Int16 bs = sint (of_le bs :: u16)"
| "whole_value Int32 bs = sint (of_le bs :: u32)"
| "whole_value Date32 bs = sint (of_le bs :: u32)"
| "whole_value Int64 bs = sint (of_le bs :: u64)"
| "whole_value TimestampUs bs = sint (of_le bs :: u64)"
| "whole_value Date64 bs = sint (of_le bs :: u64)"
| "whole_value _ bs = uint (of_le bs :: u64)"

definition number_of :: "data_type \<Rightarrow> bytes \<Rightarrow> number" where
  "number_of dt bs = (case dt of Float32 \<Rightarrow> f32_number (of_le bs) | Float64 \<Rightarrow> f64_number (of_le bs)
     | _ \<Rightarrow> int_number (whole_value dt bs))"

text \<open>The whole part, toward zero.\<close>

fun whole_part :: "number \<Rightarrow> int" where
  "whole_part NotANumber = 0"
| "whole_part (Num s x) = (if s then - int (x div 2 ^ 1074) else int (x div 2 ^ 1074))"

lemma whole_part_int [simp]: "whole_part (int_number z) = z"
  by (auto simp: int_number_def)

text \<open>The bytes \<open>out\<close> of type \<open>dst\<close> hold the number in the bytes \<open>bs\<close> of type \<open>src\<close>: a float target is the
  nearest (a 32-bit one the nearest to the nearest 64-bit one); an integer target is the whole part modulo
  its width, a float outside the 64-bit range being its end, and no number zero.\<close>

definition clamp :: "data_type \<Rightarrow> int \<Rightarrow> int" where
  "clamp dst z = (if is_signed_int dst then max (- (2 ^ 63)) (min (2 ^ 63 - 1) z) else max 0 (min (2 ^ 64 - 1) z))"

definition holds_number :: "data_type \<Rightarrow> data_type \<Rightarrow> bytes \<Rightarrow> bytes \<Rightarrow> bool" where
  "holds_number src dst bs out \<longleftrightarrow> length out = size_of dst \<and>
     (let n = number_of src bs
      in case dst of
           Float64 \<Rightarrow> nearest_f64 n (of_le out)
         | Float32 \<Rightarrow> (\<exists>d. nearest_f64 n d \<and> nearest_f32 (f64_number d) (of_le out))
         | _ \<Rightarrow> uint (of_le out :: u64) =
             (if is_integer src then whole_part n else clamp dst (whole_part n)) mod 2 ^ (8 * size_of dst))"

subsection \<open>Times and literals\<close>

text \<open>The time of an axis value: a day number is a signed 32-bit value, a timestamp a signed 64-bit one.\<close>

fun time_value :: "time_type \<Rightarrow> u64 \<Rightarrow> int" where
  "time_value TT_Date32 w = sint (ucast w :: u32)"
| "time_value TT_TimestampUs w = sint w"

lemma sint_nonneg:
  assumes "0 \<le> sint w"
  shows "sint w = uint (w :: 'a::len word)"
proof -
  have "sint w < 2 ^ (LENGTH('a) - 1)" by (rule sint_lt)
  also have "\<dots> \<le> (2 :: int) ^ LENGTH('a)" by (intro power_increasing) simp_all
  finally show ?thesis using take_bit_int_eq_self[OF assms] by (simp add: uint_sint)
qed

lemma time_value_key:
  assumes "opened tt axis names recs n h" "t < time_total h" "0 \<le> time_value tt (time_key h t)"
  shows "time_value tt (time_key h t) = uint (time_key h t)"
proof -
  have k: "time_key h t = narrow tt (axis ! t)"
    using opened_time[OF assms(1)] assms(2) by (simp add: time_key_def opened_sections(2)[OF assms(1)])
  show ?thesis
  proof (cases tt)
    case TT_TimestampUs
    then show ?thesis using assms(3) sint_nonneg[of "time_key h t"] by simp
  next
    case TT_Date32
    then have "uint (ucast (time_key h t) :: u32) = uint (time_key h t)"
      unfolding k narrow_def by (simp add: unsigned_ucast_eq unsigned_take_bit_eq)
    then show ?thesis using TT_Date32 assms(3) sint_nonneg[of "ucast (time_key h t) :: u32"] by simp
  qed
qed

text \<open>The number a literal stands for, and numbers in their order: none of them with what is no number.\<close>

fun literal_number :: "scalar \<Rightarrow> number option" where
  "literal_number (SInt i) = Some (int_number i)"
| "literal_number (SUInt u) = Some (int_number (int u))"
| "literal_number (SFloat f) = Some (f64_number f)"
| "literal_number _ = None"

definition signed_mag :: "bool \<Rightarrow> nat \<Rightarrow> int" where
  "signed_mag s x = (if s then - int x else int x)"

fun number_cmp :: "number \<Rightarrow> number \<Rightarrow> ordering option" where
  "number_cmp (Num s x) (Num s' y) = Some (cmp_of (signed_mag s x) (signed_mag s' y))"
| "number_cmp _ _ = None"

lemma signed_int: "signed_mag (z < 0) (nat \<bar>z\<bar> * 2 ^ 1074) = z * 2 ^ 1074"
  by (simp add: signed_mag_def)

lemma number_cmp_int [simp]: "number_cmp (int_number a) (int_number b) = Some (cmp_of a b)"
  unfolding int_number_def number_cmp.simps signed_int by (simp add: cmp_of_def)

text \<open>A whole number that is not negative and below \<open>u64::MAX\<close>.\<close>

fun whole_time :: "number \<Rightarrow> bool" where
  "whole_time NotANumber = False"
| "whole_time (Num s x) \<longleftrightarrow> (s \<longrightarrow> x = 0) \<and> x mod 2 ^ 1074 = 0 \<and> x < u64_max * 2 ^ 1074"

lemma number_cmp_whole:
  assumes "whole_time (Num s x)"
  shows "number_cmp (int_number t) (Num s x) = Some (cmp_of t (int (x div 2 ^ 1074)))"
proof -
  have m: "signed_mag s x = int (x div K) * int K" if "x mod K = 0" "s \<longrightarrow> x = 0" for K
    using that div_mult_mod_eq[of x K] by (auto simp: signed_mag_def simp flip: of_nat_mult)
  have "signed_mag s x = int (x div 2 ^ 1074) * int (2 ^ 1074)" using assms unfolding whole_time.simps by (intro m) blast+
  also have "int (2 ^ 1074) = 2 ^ 1074" by (rule of_nat_power[of 2 1074, simplified of_nat_numeral])
  finally have e: "signed_mag s x = int (x div 2 ^ 1074) * 2 ^ 1074" .
  have c: "cmp_of (t * K) (v * K) = cmp_of t v" if "0 < K" for K t v :: int using that by (simp add: cmp_of_def)
  have p: "(0 :: int) < 2 ^ 1074" by (rule zero_less_power) simp
  show ?thesis unfolding int_number_def number_cmp.simps signed_int e c[OF p] ..
qed

lemma whole_time_int: "whole_time (int_number z) \<longleftrightarrow> 0 \<le> z \<and> z < int u64_max"
proof -
  have m: "nat \<bar>z\<bar> * K mod K = 0" "nat \<bar>z\<bar> * K < u * K \<longleftrightarrow> nat \<bar>z\<bar> < u" "nat \<bar>z\<bar> * K = 0 \<longleftrightarrow> z = 0"
    if "0 < K" for K u :: nat using that by auto
  have p: "(0 :: nat) < 2 ^ 1074" by (rule zero_less_power) simp
  have "nat \<bar>z\<bar> < u \<and> (z < 0 \<longrightarrow> z = 0) \<longleftrightarrow> 0 \<le> z \<and> z < int u" for u by auto
  then show ?thesis unfolding int_number_def whole_time.simps m[OF p] by blast
qed

end
