(* ===== verification/Index_Scan.thy ===== *)
theory Index_Scan
  imports Range_Lists Meta_Read Number_Meaning
begin

text \<open>
  Scanning the index (\<open>scan_index_handle\<close>, \<open>compile_predicate\<close>, \<open>IndexScanner\<close> of
  \<open>splayed-core/src/meta_file.rs\<close>). A predicate is compiled to a set of symbols and a window on the
  time axis; the scan turns them into row ranges. The reference is the predicate read on a row's symbol and
  time. What the window loses or adds is stated exactly.
\<close>

record scan_request =
  sq_ranges :: "row_range list"
  sq_projection :: "string list"
  sq_predicate :: "predicate option"
  sq_limit :: "nat option"

subsection \<open>Compiling a predicate\<close>

text \<open>\<open>f as u64\<close>: truncation, saturating at both ends, \<open>NaN\<close> to zero.\<close>

definition f64_as_u64 :: "u64 \<Rightarrow> nat" where
  "f64_as_u64 w = (if f64_nan w \<or> bit w 63 then 0 else min u64_max (f64_scaled (f64_mag w) div 2 ^ 1074))"

record window =
  wi_ids :: "nat list option"
  wi_lo :: nat
  wi_hi :: nat

fun or_ids :: "meta_handle \<Rightarrow> predicate list \<Rightarrow> nat list \<Rightarrow> (core_error, nat list option) res" where
  "or_ids h [] ids = Ok (Some ids)"
| "or_ids h (c # cs) ids =
     (case c of
        PCmp (Some f) Eq (SStr s) \<Rightarrow>
          if f = ''sym''
          then rbind (sym_id_of h s) (\<lambda>r. or_ids h cs (case r of None \<Rightarrow> ids | Some i \<Rightarrow> ids @ [i]))
          else Ok None
      | _ \<Rightarrow> Ok None)"

definition time_literal :: "scalar \<Rightarrow> nat option" where
  "time_literal val = (case val of
     SInt i \<Rightarrow> Some (nat (i mod 2 ^ 64)) | SUInt u \<Rightarrow> Some u | SFloat f \<Rightarrow> Some (f64_as_u64 f) | _ \<Rightarrow> None)"

definition compile_cmp :: "meta_handle \<Rightarrow> string \<Rightarrow> cmp_op \<Rightarrow> scalar \<Rightarrow> window \<Rightarrow> (core_error, window) res" where
  "compile_cmp h f op val acc =
     (if f = ''sym''
      then (case (op, val) of
          (Eq, SStr s) \<Rightarrow> rbind (sym_id_of h s) (\<lambda>r. case r of
              Some i \<Rightarrow> Ok (acc\<lparr>wi_ids := (case wi_ids acc of None \<Rightarrow> Some [i] | Some ex \<Rightarrow> Some (filter (\<lambda>e. e = i) ex))\<rparr>)
            | None \<Rightarrow> Ok (acc\<lparr>wi_ids := Some []\<rparr>))
        | _ \<Rightarrow> Ok acc)
      else if f = ''time''
      then (case time_literal val of
          None \<Rightarrow> Ok acc
        | Some v \<Rightarrow>
            rbind (axis_lower_bound h (of_nat v)) (\<lambda>lower.
            rbind (axis_lower_bound h (of_nat (min u64_max (v + 1)))) (\<lambda>upper.
              Ok (case op of
                Eq \<Rightarrow> acc\<lparr>wi_lo := max (wi_lo acc) lower, wi_hi := min (wi_hi acc) upper\<rparr>
              | Ge \<Rightarrow> acc\<lparr>wi_lo := max (wi_lo acc) lower\<rparr>
              | Gt \<Rightarrow> acc\<lparr>wi_lo := max (wi_lo acc) upper\<rparr>
              | Le \<Rightarrow> acc\<lparr>wi_hi := min (wi_hi acc) upper\<rparr>
              | Lt \<Rightarrow> acc\<lparr>wi_hi := min (wi_hi acc) lower\<rparr>
              | Ne \<Rightarrow> acc))))
      else Ok acc)"

fun compile_node :: "meta_handle \<Rightarrow> predicate \<Rightarrow> window \<Rightarrow> (core_error, window) res" where
  "compile_node h (PAnd cs) acc = foldM (\<lambda>a c. compile_node h c a) acc cs"
| "compile_node h (POr cs) acc =
     rbind (or_ids h cs []) (\<lambda>r. case r of
       None \<Rightarrow> Ok acc
     | Some ids \<Rightarrow> Ok (acc\<lparr>wi_ids := Some (case wi_ids acc of
           None \<Rightarrow> sort ids
         | Some ex \<Rightarrow> remdups_adj (sort (ex @ sort ids)))\<rparr>))"
| "compile_node h (PNot p) acc = Ok acc"
| "compile_node h (PCmp (Some f) op val) acc = compile_cmp h f op val acc"
| "compile_node h (PCmp None op val) acc = Ok acc"

definition compile_predicate :: "meta_handle \<Rightarrow> predicate option \<Rightarrow> (core_error, window) res" where
  "compile_predicate h p =
     (let acc = \<lparr>wi_ids = None, wi_lo = 0, wi_hi = time_total h\<rparr>
      in case p of None \<Rightarrow> Ok acc | Some q \<Rightarrow> compile_node h q acc)"

subsection \<open>The scan\<close>

text \<open>The rows of one record inside the window; \<open>None\<close> when there are none.\<close>

definition window_range :: "window \<Rightarrow> sym_record \<Rightarrow> row_range option" where
  "window_range w r =
     (let axis_lo = unat (sr_time_start r); axis_hi = axis_lo + unat (sr_time_count r);
          wlo = min (max (wi_lo w) axis_lo) axis_hi; whi = min (max (wi_hi w) axis_lo) axis_hi
      in if whi \<le> wlo then None else Some (rr_new (unat (sr_row_start r) + (wlo - axis_lo)) (whi - wlo)))"

fun scan_ids :: "meta_handle \<Rightarrow> window \<Rightarrow> nat option \<Rightarrow> nat list \<Rightarrow> nat \<Rightarrow> (core_error, row_range list) res" where
  "scan_ids h w limit [] produced = Ok []"
| "scan_ids h w limit (i # ids) produced =
     (if (case limit of None \<Rightarrow> False | Some l \<Rightarrow> l \<le> produced) then Ok []
      else rbind (sym_record_of h i) (\<lambda>r. case window_range w r of
        None \<Rightarrow> scan_ids h w limit ids produced
      | Some rng \<Rightarrow> rbind (scan_ids h w limit ids (produced + rr_length rng)) (\<lambda>rs. Ok (rng # rs))))"

record index_scanner =
  is_ranges :: "row_range list"
  is_pos :: nat
  is_limit :: "nat option"

definition scan_index_handle :: "meta_handle \<Rightarrow> scan_request \<Rightarrow> (core_error, index_scanner) res" where
  "scan_index_handle h rq =
     rbind (compile_predicate h (sq_predicate rq)) (\<lambda>w.
     rbind (scan_ids h w (sq_limit rq) (case wi_ids w of Some ids \<Rightarrow> ids | None \<Rightarrow> [0..<sym_total h]) 0) (\<lambda>ranges.
       let merged = merge_ranges ranges;
           out = (if sq_ranges rq = [] then merged
                  else intersect_lists merged (clamp_ranges (sq_ranges rq) (row_total h)))
       in Ok \<lparr>is_ranges = out, is_pos = 0, is_limit = sq_limit rq\<rparr>))"

definition index_next :: "index_scanner \<Rightarrow> row_range option \<times> index_scanner" where
  "index_next sc =
     (if length (is_ranges sc) \<le> is_pos sc then (None, sc)
      else let r = is_ranges sc ! is_pos sc; sc' = sc\<lparr>is_pos := is_pos sc + 1\<rparr>
        in case is_limit sc of
             None \<Rightarrow> (Some r, sc')
           | Some rem \<Rightarrow>
               let tk = min (rr_length r) rem; sc'' = sc'\<lparr>is_limit := Some (rem - tk)\<rparr>
               in if tk < rr_length r then (Some (rr_new (rr_offset r) tk), sc'') else (Some r, sc''))"

subsection \<open>The predicate on a row\<close>

text \<open>A comparison on another field is left to \<open>other\<close>: the index knows nothing about it.\<close>

type_synonym other_cmp = "string option \<Rightarrow> cmp_op \<Rightarrow> scalar \<Rightarrow> bool"

text \<open>The time and the literal are compared as numbers, whatever the type of the literal.\<close>

fun cmp_holds :: "other_cmp \<Rightarrow> bytes \<Rightarrow> int \<Rightarrow> string option \<Rightarrow> cmp_op \<Rightarrow> scalar \<Rightarrow> bool" where
  "cmp_holds other name t (Some f) op val \<longleftrightarrow>
     (if f = ''sym'' then (case val of SStr s \<Rightarrow> matches op (cmp_of name s) | _ \<Rightarrow> other (Some f) op val)
      else if f = ''time''
      then (case literal_number val of
          Some v \<Rightarrow> float_op op (number_cmp (int_number t) v)
        | None \<Rightarrow> other (Some f) op val)
      else other (Some f) op val)"
| "cmp_holds other name t None op val \<longleftrightarrow> other None op val"

fun index_holds :: "other_cmp \<Rightarrow> bytes \<Rightarrow> int \<Rightarrow> predicate \<Rightarrow> bool" where
  "index_holds other name t (PAnd cs) \<longleftrightarrow> (\<forall>c \<in> set cs. index_holds other name t c)"
| "index_holds other name t (POr cs) \<longleftrightarrow> (\<exists>c \<in> set cs. index_holds other name t c)"
| "index_holds other name t (PNot p) \<longleftrightarrow> \<not> index_holds other name t p"
| "index_holds other name t (PCmp f op val) \<longleftrightarrow> cmp_holds other name t f op val"

text \<open>The numbers compared with a time are whole, not negative and below \<open>u64::MAX\<close>. Others the code casts:
  the window of \<open>time < 1.5\<close> ends at 1, and the one of \<open>time \<ge> -1\<close> starts at \<open>u64::MAX\<close>.\<close>

fun literals_ok :: "predicate \<Rightarrow> bool" where
  "literals_ok (PAnd cs) \<longleftrightarrow> (\<forall>c \<in> set cs. literals_ok c)"
| "literals_ok (POr cs) \<longleftrightarrow> (\<forall>c \<in> set cs. literals_ok c)"
| "literals_ok (PNot p) \<longleftrightarrow> literals_ok p"
| "literals_ok (PCmp f op val) \<longleftrightarrow> f = Some ''time'' \<longrightarrow> (case literal_number val of None \<Rightarrow> True | Some v \<Rightarrow> whole_time v)"

text \<open>Conjunctions of \<open>sym = s\<close> and time comparisons other than \<open>\<noteq>\<close>: what the window expresses exactly.\<close>

fun exact :: "predicate \<Rightarrow> bool" where
  "exact (PAnd cs) \<longleftrightarrow> (\<forall>c \<in> set cs. exact c)"
| "exact (PCmp (Some f) op val) \<longleftrightarrow>
     f = ''sym'' \<and> op = Eq \<and> (\<exists>s. val = SStr s) \<or> f = ''time'' \<and> op \<noteq> Ne \<and> literal_number val \<noteq> None"
| "exact _ \<longleftrightarrow> False"

definition selects :: "window \<Rightarrow> nat \<Rightarrow> nat \<Rightarrow> bool" where
  "selects w s t \<longleftrightarrow> (case wi_ids w of None \<Rightarrow> True | Some ids \<Rightarrow> s \<in> set ids) \<and> wi_lo w \<le> t \<and> t < wi_hi w"

definition ids_in :: "meta_handle \<Rightarrow> window \<Rightarrow> bool" where
  "ids_in h w \<longleftrightarrow> (case wi_ids w of None \<Rightarrow> True | Some ids \<Rightarrow> \<forall>i \<in> set ids. i < sym_total h)"

subsection \<open>Compilation is sound, and exact on conjunctions\<close>

lemma sym_id_of_spec:
  "dict_ok h \<Longrightarrow> \<exists>r. sym_id_of h s = Ok r \<and> (\<forall>i. r = Some i \<longleftrightarrow> i < sym_total h \<and> name_key h i = s)"
  unfolding sym_id_of_def by (rule dict.bsearch_spec)

lemma axis_lower_bound_spec:
  assumes "axis_ok h" "v \<le> u64_max"
  shows "\<exists>p \<le> time_total h. axis_lower_bound h (of_nat v) = Ok p \<and>
    (\<forall>t < time_total h. t < p \<longleftrightarrow> unat (time_key h t) < v)"
proof -
  have "(time_key h t < (of_nat v :: u64)) \<longleftrightarrow> unat (time_key h t) < v" for t
    using assms(2) by (simp add: word_less_nat_alt)
  then show ?thesis using axis.lower_bound_spec[OF assms(1), of "of_nat v"] by (simp add: axis_lower_bound_def)
qed

text \<open>What compiling \<open>p\<close> does to a window: no row that satisfies \<open>p\<close> is lost, and on exact
  predicates no other row is kept.\<close>

definition narrows :: "meta_handle \<Rightarrow> other_cmp \<Rightarrow> predicate \<Rightarrow> window \<Rightarrow> window \<Rightarrow> bool" where
  "narrows h other p acc w \<longleftrightarrow> ids_in h w \<and>
     (\<forall>s < sym_total h. \<forall>t < time_total h.
        let holds = index_holds other (name_key h s) (uint (time_key h t)) p
        in (selects acc s t \<and> holds \<longrightarrow> selects w s t) \<and>
           (exact p \<longrightarrow> selects w s t \<longrightarrow> selects acc s t \<and> holds))"

lemma narrows_refl: "ids_in h acc \<Longrightarrow> \<not> exact p \<Longrightarrow> narrows h other p acc acc"
  by (simp add: narrows_def Let_def)

lemma or_ids_spec:
  "dict_ok h \<Longrightarrow> \<forall>i \<in> set ids0. i < sym_total h \<Longrightarrow>
   \<exists>r. or_ids h cs ids0 = Ok r \<and> (case r of None \<Rightarrow> True | Some ids \<Rightarrow>
     (\<forall>i \<in> set ids. i < sym_total h) \<and> set ids0 \<subseteq> set ids \<and>
     (\<forall>s < sym_total h. \<forall>t. (\<exists>c \<in> set cs. index_holds other (name_key h s) t c) \<longrightarrow> s \<in> set ids))"
proof (induction cs arbitrary: ids0)
  case (Cons c cs)
  show ?case
  proof (cases "\<exists>nm. c = PCmp (Some ''sym'') Eq (SStr nm)")
    case True
    then obtain nm where c: "c = PCmp (Some ''sym'') Eq (SStr nm)" by blast
    obtain r where r: "sym_id_of h nm = Ok r" "\<forall>i. r = Some i \<longleftrightarrow> i < sym_total h \<and> name_key h i = nm"
      using sym_id_of_spec[OF Cons.prems(1)] by blast
    let ?ids = "case r of None \<Rightarrow> ids0 | Some i \<Rightarrow> ids0 @ [i]"
    have in1: "\<forall>i \<in> set ?ids. i < sym_total h" using Cons.prems(2) r(2) by (auto split: option.splits)
    obtain r' where r': "or_ids h cs ?ids = Ok r'"
      "case r' of None \<Rightarrow> True | Some ids \<Rightarrow>
        (\<forall>i \<in> set ids. i < sym_total h) \<and> set ?ids \<subseteq> set ids \<and>
        (\<forall>s < sym_total h. \<forall>t. (\<exists>c \<in> set cs. index_holds other (name_key h s) t c) \<longrightarrow> s \<in> set ids)"
      using Cons.IH[OF Cons.prems(1) in1] by blast
    have hit: "s \<in> set ?ids" if "s < sym_total h" "index_holds other (name_key h s) t c" for s t
    proof -
      have "name_key h s = nm" using that(2) by (simp add: c cmp_of_def split: if_splits)
      then have "r = Some s" using r(2) that(1) by blast
      then show ?thesis by simp
    qed
    have "or_ids h (c # cs) ids0 = Ok r'" using r(1) r'(1) by (simp add: c)
    moreover have "case r' of None \<Rightarrow> True | Some ids \<Rightarrow>
        (\<forall>i \<in> set ids. i < sym_total h) \<and> set ids0 \<subseteq> set ids \<and>
        (\<forall>s < sym_total h. \<forall>t. (\<exists>c \<in> set (c # cs). index_holds other (name_key h s) t c) \<longrightarrow> s \<in> set ids)"
    proof (cases r')
      case (Some ids)
      then have R: "\<forall>i \<in> set ids. i < sym_total h" "set ?ids \<subseteq> set ids"
        "\<And>s t. s < sym_total h \<Longrightarrow> (\<exists>c \<in> set cs. index_holds other (name_key h s) t c) \<Longrightarrow> s \<in> set ids"
        using r'(2) by auto
      have "set ids0 \<subseteq> set ?ids" by (auto split: option.splits)
      then show ?thesis using R hit Some by (simp del: index_holds.simps) blast
    qed simp
    ultimately show ?thesis by blast
  next
    case False
    then have "or_ids h (c # cs) ids0 = Ok None"
      by (auto split: predicate.splits option.splits cmp_op.splits scalar.splits)
    then show ?thesis by simp
  qed
qed simp

lemma matches_cmp_of:
  "matches Eq (cmp_of a b) \<longleftrightarrow> a = b" "matches Ne (cmp_of a b) \<longleftrightarrow> a \<noteq> b"
  "matches Lt (cmp_of a b) \<longleftrightarrow> a < b" "matches Le (cmp_of a b) \<longleftrightarrow> a \<le> b"
  "matches Gt (cmp_of a b) \<longleftrightarrow> b < a" "matches Ge (cmp_of a b) \<longleftrightarrow> b \<le> a"
  by (auto simp: cmp_of_def)

text \<open>A whole literal is converted to its number.\<close>

lemma f64_as_u64_number: "f64_as_u64 f = (case f64_number f of NotANumber \<Rightarrow> 0 | Num s x \<Rightarrow> if s then 0 else min u64_max (x div 2 ^ 1074))"
  by (auto simp: f64_as_u64_def f64_number_def f64_nan_def)

lemma whole_literal:
  assumes "literal_number val = Some n" "whole_time n"
  shows "\<exists>v < u64_max. time_literal val = Some v \<and> (\<forall>t. number_cmp (int_number t) n = Some (cmp_of t (int v)))"
proof (cases val)
  case (SInt i)
  then have "0 \<le> i" "i < int u64_max" using assms whole_time_int[of i] by simp_all
  then have i: "nat i < u64_max" "i mod 2 ^ 64 = i" "int (nat i) = i" by (simp_all add: nat_less_iff)
  have "time_literal val = Some (nat i)" unfolding time_literal_def SInt scalar.case i(2) ..
  then show ?thesis using SInt assms(1) i(1,3) by (intro exI[of _ "nat i"]) auto
next
  case (SUInt u)
  then have "u < u64_max" using assms whole_time_int[of "int u"] by simp
  then show ?thesis using SUInt assms(1) by (auto simp: time_literal_def)
next
  case (SFloat f)
  then obtain s x where n: "f64_number f = Num s x" "n = Num s x" using assms by (cases n) auto
  have d: "x div K < u \<and> (if s then 0 else min u (x div K)) = x div K"
    if "(s \<longrightarrow> x = 0) \<and> x mod K = 0 \<and> x < u * K" for u K
    using that by (auto simp: less_mult_imp_div_less min_absorb2 less_imp_le)
  have "x div 2 ^ 1074 < u64_max \<and> f64_as_u64 f = x div 2 ^ 1074"
    using d[OF assms(2)[unfolded n(2) whole_time.simps]] unfolding f64_as_u64_number n(1) number.case .
  then show ?thesis using number_cmp_whole[OF assms(2)[unfolded n(2)]] unfolding n(2) time_literal_def SFloat scalar.case
    by (intro exI[of _ "x div 2 ^ 1074"]) (simp only: simp_thms)
qed (use assms in simp_all)

lemma compile_cmp_spec:
  assumes ok: "axis_ok h" "dict_ok h" and acc: "ids_in h acc" and lit: "literals_ok (PCmp (Some f) op val)"
  shows "\<exists>w. compile_cmp h f op val acc = Ok w \<and> narrows h other (PCmp (Some f) op val) acc w"
proof -
  consider (name) nm where "f = ''sym''" "op = Eq" "val = SStr nm"
    | (time) n where "f = ''time''" "literal_number val = Some n"
    | (same) "compile_cmp h f op val acc = Ok acc" "\<not> exact (PCmp (Some f) op val)"
    by (cases "f = ''sym''"; cases "f = ''time''"; cases op; cases val)
       (auto simp: compile_cmp_def time_literal_def)
  then show ?thesis
  proof cases
    case name
    obtain r where r: "sym_id_of h nm = Ok r" "\<forall>i. r = Some i \<longleftrightarrow> i < sym_total h \<and> name_key h i = nm"
      using sym_id_of_spec[OF ok(2)] by blast
    show ?thesis
    proof (cases r)
      case None
      then show ?thesis using r name acc
        by (auto simp: compile_cmp_def narrows_def ids_in_def selects_def cmp_of_def Let_def)
    next
      case (Some i)
      have i: "i < sym_total h" "name_key h i = nm" using r(2)[rule_format, of i] Some by simp_all
      have "name_key h s = nm \<longleftrightarrow> s = i" if "s < sym_total h" for s
        using r(2)[rule_format, of s] r(2)[rule_format, of i] Some that by auto
      then show ?thesis using i r(1) Some name acc
        by (cases "wi_ids acc")
           (auto simp: compile_cmp_def narrows_def ids_in_def selects_def cmp_of_def Let_def split: if_splits)
    qed
  next
    case time
    have "whole_time n" using lit time by simp
    then obtain v where v: "v < u64_max" and lv: "time_literal val = Some v"
      and cv: "\<forall>t. number_cmp (int_number t) n = Some (cmp_of t (int v))" using whole_literal[OF time(2)] by blast
    obtain lo where lo: "axis_lower_bound h (of_nat v) = Ok lo" "\<forall>t < time_total h. t < lo \<longleftrightarrow> unat (time_key h t) < v"
      using axis_lower_bound_spec[OF ok(1), of v] v by auto
    obtain up where up: "axis_lower_bound h (of_nat (v + 1)) = Ok up" "\<forall>t < time_total h. t < up \<longleftrightarrow> unat (time_key h t) < v + 1"
      using axis_lower_bound_spec[OF ok(1), of "v + 1"] v by auto
    have m: "min 18446744073709551614 v = v" using v by simp
    define w where "w = (case op of
        Eq \<Rightarrow> acc\<lparr>wi_lo := max (wi_lo acc) lo, wi_hi := min (wi_hi acc) up\<rparr>
      | Ge \<Rightarrow> acc\<lparr>wi_lo := max (wi_lo acc) lo\<rparr>
      | Gt \<Rightarrow> acc\<lparr>wi_lo := max (wi_lo acc) up\<rparr>
      | Le \<Rightarrow> acc\<lparr>wi_hi := min (wi_hi acc) up\<rparr>
      | Lt \<Rightarrow> acc\<lparr>wi_hi := min (wi_hi acc) lo\<rparr>
      | Ne \<Rightarrow> acc)"
    have "compile_cmp h f op val acc = Ok w"
      unfolding compile_cmp_def w_def using time(1) lv lo(1) up(1) by (simp add: m del: of_nat_add of_nat_Suc)
    moreover have "ids_in h w" using acc by (cases op) (simp_all add: w_def ids_in_def)
    moreover have "selects w s t \<longleftrightarrow> selects acc s t \<and> (op \<noteq> Ne \<longrightarrow> matches op (cmp_of (unat (time_key h t)) v))"
      if t: "t < time_total h" for s t
    proof -
      have k: "t < lo \<longleftrightarrow> unat (time_key h t) < v" "lo \<le> t \<longleftrightarrow> v \<le> unat (time_key h t)"
        "t < up \<longleftrightarrow> unat (time_key h t) \<le> v" "up \<le> t \<longleftrightarrow> v < unat (time_key h t)"
        using lo(2) up(2) t by (auto simp: less_Suc_eq_le not_less[symmetric])
      show ?thesis by (cases op) (auto simp: w_def selects_def matches_cmp_of k simp del: matches.simps)
    qed
    moreover have "cmp_of (uint k) (int v) = cmp_of (unat k) v" for k :: u64
    proof -
      have "uint k = int (unat k)" by simp
      then show ?thesis unfolding cmp_of_def by (simp only: of_nat_less_iff of_nat_eq_iff)
    qed
    ultimately show ?thesis using time(2) cv unfolding time(1)
      by (intro exI[of _ w]) (auto simp: narrows_def Let_def)
  next
    case same
    then show ?thesis using acc narrows_refl by blast
  qed
qed

lemma narrows_trans_all:
  assumes "ids_in h acc"
    and "\<And>c a. c \<in> set cs \<Longrightarrow> ids_in h a \<Longrightarrow> \<exists>w. f a c = Ok w \<and> narrows h other c a w"
  shows "\<exists>w. foldM f acc cs = Ok w \<and> narrows h other (PAnd cs) acc w"
  using assms
proof (induction cs arbitrary: acc)
  case Nil
  then show ?case by (simp add: narrows_def Let_def)
next
  case (Cons c cs)
  obtain w where w: "f acc c = Ok w" "narrows h other c acc w" using Cons.prems(2)[of c acc] Cons.prems(1) by auto
  then have "ids_in h w" by (simp add: narrows_def)
  then obtain w' where w': "foldM f w cs = Ok w'" "narrows h other (PAnd cs) w w'"
    using Cons.IH[of w] Cons.prems(2) by auto
  have "narrows h other (PAnd (c # cs)) acc w'"
    using w(2) w'(2) unfolding narrows_def Let_def by (simp only: index_holds.simps exact.simps list.set ball_simps) blast
  then show ?case using w(1) w'(1) by simp
qed

lemma compile_node_spec:
  "axis_ok h \<Longrightarrow> dict_ok h \<Longrightarrow> ids_in h acc \<Longrightarrow> literals_ok p \<Longrightarrow>
   \<exists>w. compile_node h p acc = Ok w \<and> narrows h other p acc w"
proof (induction h p acc rule: compile_node.induct)
  case (1 h cs acc)
  have "\<exists>w. foldM (\<lambda>a c. compile_node h c a) acc cs = Ok w \<and> narrows h other (PAnd cs) acc w"
    by (rule narrows_trans_all[OF "1.prems"(3)]) (use 1 in auto)
  then show ?case by simp
next
  case (2 h cs acc)
  obtain r where r: "or_ids h cs [] = Ok r" "case r of None \<Rightarrow> True | Some ids \<Rightarrow>
     (\<forall>i \<in> set ids. i < sym_total h) \<and> set [] \<subseteq> set ids \<and>
     (\<forall>s < sym_total h. \<forall>t. (\<exists>c \<in> set cs. index_holds other (name_key h s) t c) \<longrightarrow> s \<in> set ids)"
    using or_ids_spec[OF 2(2), of "[]" cs other] by auto
  show ?case
  proof (cases r)
    case None
    then show ?thesis using r(1) 2(3) by (simp add: narrows_refl)
  next
    case (Some ids)
    then show ?thesis using r 2(3)
      by (cases "wi_ids acc") (auto simp: narrows_def ids_in_def selects_def Let_def)
  qed
qed (use compile_cmp_spec narrows_refl in \<open>auto\<close>)

lemma compile_predicate_spec:
  assumes "axis_ok h" "dict_ok h" "case p of None \<Rightarrow> True | Some q \<Rightarrow> literals_ok q"
  shows "\<exists>w. compile_predicate h p = Ok w \<and> ids_in h w \<and>
    (\<forall>s < sym_total h. \<forall>t < time_total h.
      let holds = (case p of None \<Rightarrow> True | Some q \<Rightarrow> index_holds other (name_key h s) (uint (time_key h t)) q)
      in (holds \<longrightarrow> selects w s t) \<and> ((case p of None \<Rightarrow> True | Some q \<Rightarrow> exact q) \<longrightarrow> selects w s t \<longrightarrow> holds))"
proof -
  let ?acc = "\<lparr>wi_ids = None, wi_lo = 0, wi_hi = time_total h\<rparr>"
  have acc: "ids_in h ?acc" "\<forall>t < time_total h. selects ?acc s t" for s by (simp_all add: ids_in_def selects_def)
  show ?thesis
  proof (cases p)
    case None
    then show ?thesis using acc by (simp add: compile_predicate_def)
  next
    case (Some q)
    then obtain w where "compile_node h q ?acc = Ok w" "narrows h other q ?acc w"
      using compile_node_spec[OF assms(1,2) acc(1), of q other] assms(3) by auto
    then show ?thesis using Some acc(2) by (auto simp: compile_predicate_def narrows_def Let_def)
  qed
qed

subsection \<open>The rows a scan yields\<close>

lemma window_arith:
  fixes ts cnt rs lo hi i :: nat
  assumes "wlo = min (max lo ts) (ts + cnt)" "whi = min (max hi ts) (ts + cnt)"
  shows "rs + (wlo - ts) \<le> i \<and> i < rs + (wlo - ts) + (whi - wlo) \<longleftrightarrow>
    rs \<le> i \<and> i < rs + cnt \<and> lo \<le> ts + (i - rs) \<and> ts + (i - rs) < hi"
  using assms unfolding min_def max_def by (simp split: if_splits) arith+

lemma window_range_rows:
  assumes "rec_hi r \<le> u32_max"
  shows "case window_range w r of
      None \<Rightarrow> {i. rec_lo r \<le> i \<and> i < rec_hi r \<and>
        wi_lo w \<le> unat (sr_time_start r) + (i - rec_lo r) \<and> unat (sr_time_start r) + (i - rec_lo r) < wi_hi w} = {}
    | Some g \<Rightarrow> rr_fits g \<and> rows_of g = {i. rec_lo r \<le> i \<and> i < rec_hi r \<and>
        wi_lo w \<le> unat (sr_time_start r) + (i - rec_lo r) \<and> unat (sr_time_start r) + (i - rec_lo r) < wi_hi w}"
proof -
  define ts cnt where "ts = unat (sr_time_start r)" and "cnt = unat (sr_time_count r)"
  define wlo whi where "wlo = min (max (wi_lo w) ts) (ts + cnt)" and "whi = min (max (wi_hi w) ts) (ts + cnt)"
  note ar = window_arith[OF wlo_def whi_def, of "rec_lo r"]
  have "rec_lo r + (wlo - ts) + (whi - wlo) \<le> rec_hi r"
    unfolding cnt_def[symmetric] by (auto simp: wlo_def whi_def)
  then have fit: "rec_lo r + (wlo - ts) + (whi - wlo) < 2 ^ 64" using assms by simp
  have "window_range w r = (if whi \<le> wlo then None else Some (rr_new (rec_lo r + (wlo - ts)) (whi - wlo)))"
    unfolding window_range_def Let_def ts_def[symmetric] cnt_def[symmetric] wlo_def[symmetric] whi_def[symmetric]
    by (rule refl)
  note W = this
  let ?S = "{i. rec_lo r \<le> i \<and> i < rec_lo r + cnt \<and> wi_lo w \<le> ts + (i - rec_lo r) \<and> ts + (i - rec_lo r) < wi_hi w}"
  have S: "?S = {rec_lo r + (wlo - ts)..<rec_lo r + (wlo - ts) + (whi - wlo)}"
    using ar by (intro set_eqI) (simp only: mem_Collect_eq atLeastLessThan_iff)
  show ?thesis
    unfolding ts_def[symmetric] cnt_def[symmetric] S
    unfolding W using fit by (cases "whi \<le> wlo") (simp_all add: rows_of_def rr_fits_def)
qed

text \<open>Without a limit the scanned rows are those of the records whose position lies in the window.\<close>

lemma scan_ids_rows:
  assumes ix: "indexed tt axis names recs n h"
  shows "\<forall>j \<in> set ids. j < length recs \<Longrightarrow>
    \<exists>rs. scan_ids h w None ids produced = Ok rs \<and> (\<forall>r \<in> set rs. rr_fits r) \<and>
      rows_all rs = {i. i < n \<and> fst (grid_from 0 recs ! i) \<in> set ids \<and>
        wi_lo w \<le> snd (grid_from 0 recs ! i) \<and> snd (grid_from 0 recs ! i) < wi_hi w}"
proof (induction ids arbitrary: produced)
  case (Cons j ids)
  note i = indexed_simps[OF ix]
  have j: "j < length recs" using Cons.prems by simp
  then have rec: "sym_record_of h j = Ok (recs ! j)" using opened_record[OF i(1)] i(3) by simp
  have hi: "rec_hi (recs ! j) \<le> u32_max" using recs_tile_nth[OF i(2) j] i(5) by simp
  let ?g = "grid_from 0 recs"
  have own: "{x. rec_lo (recs ! j) \<le> x \<and> x < rec_hi (recs ! j) \<and>
        wi_lo w \<le> unat (sr_time_start (recs ! j)) + (x - rec_lo (recs ! j)) \<and>
        unat (sr_time_start (recs ! j)) + (x - rec_lo (recs ! j)) < wi_hi w} =
      {x. x < n \<and> fst (?g ! x) = j \<and> wi_lo w \<le> snd (?g ! x) \<and> snd (?g ! x) < wi_hi w}" (is "?A = ?B")
  proof (rule set_eqI)
    fix x
    have at_j: "?g ! x = (j, unat (sr_time_start (recs ! j)) + (x - rec_lo (recs ! j)))"
      if "rec_lo (recs ! j) \<le> x" "x < rec_hi (recs ! j)"
      using grid_nth[OF i(2) j that, of 0] by simp
    have in_j: "rec_lo (recs ! j) \<le> x \<and> x < rec_hi (recs ! j)" if x: "x < n" "fst (?g ! x) = j"
    proof -
      obtain k where k: "k < length recs" "rec_lo (recs ! k) \<le> x" "x < rec_hi (recs ! k)"
        using recs_tile_cover[OF i(2) _ x(1)] by auto
      then have "fst (?g ! x) = k" using grid_nth[OF i(2) k, of 0] by simp
      then show ?thesis using k x(2) by simp
    qed
    have "x < n" if "x < rec_hi (recs ! j)" using recs_tile_nth[OF i(2) j] that by simp
    then show "x \<in> ?A \<longleftrightarrow> x \<in> ?B"
      using at_j in_j by (cases "rec_lo (recs ! j) \<le> x \<and> x < rec_hi (recs ! j)") auto
  qed
  obtain rs where rs: "scan_ids h w None ids p = Ok (rs p)" "\<forall>r \<in> set (rs p). rr_fits r"
    "rows_all (rs p) = {x. x < n \<and> fst (?g ! x) \<in> set ids \<and> wi_lo w \<le> snd (?g ! x) \<and> snd (?g ! x) < wi_hi w}" for p
    using Cons.IH Cons.prems by (metis (no_types, lifting) list.set_intros(2))
  note W = window_range_rows[OF hi, of w, unfolded own]
  show ?case
  proof (cases "window_range w (recs ! j)")
    case None
    then have "\<And>x. x < n \<Longrightarrow> fst (?g ! x) = j \<Longrightarrow> wi_lo w \<le> snd (?g ! x) \<Longrightarrow> \<not> snd (?g ! x) < wi_hi w"
      using W by auto
    then show ?thesis using None rec rs[of produced] by auto
  next
    case (Some g)
    then show ?thesis using W rec rs[of "produced + rr_length g"] by auto
  qed
qed (simp add: rows_all_def)

lemma grid_in_bounds:
  assumes ix: "indexed tt axis names recs n h" and i: "i < n"
  shows "fst (grid_from 0 recs ! i) < sym_total h" "snd (grid_from 0 recs ! i) < time_total h"
proof -
  note x = indexed_simps[OF ix] and sec = opened_sections[OF indexed_simps(1)[OF ix]]
  obtain j where j: "j < length recs" "rec_lo (recs ! j) \<le> i" "i < rec_hi (recs ! j)"
    using recs_tile_cover[OF x(2) _ i] by auto
  have "grid_from 0 recs ! i = (j, unat (sr_time_start (recs ! j)) + (i - rec_lo (recs ! j)))"
    using grid_nth[OF x(2) j, of 0] by simp
  then show "fst (grid_from 0 recs ! i) < sym_total h" "snd (grid_from 0 recs ! i) < time_total h"
    using j indexed_rec_in[OF ix j(1)] x(3) by (simp_all add: sec rec_in_def)
qed

definition row_matches :: "time_type \<Rightarrow> meta_handle \<Rightarrow> sym_record list \<Rightarrow> other_cmp \<Rightarrow> predicate option \<Rightarrow> nat \<Rightarrow> bool" where
  "row_matches tt h recs other p i \<longleftrightarrow> (case p of None \<Rightarrow> True | Some q \<Rightarrow>
     index_holds other (name_key h (fst (grid_from 0 recs ! i))) (time_value tt (time_key h (snd (grid_from 0 recs ! i)))) q)"

definition in_request :: "scan_request \<Rightarrow> nat \<Rightarrow> bool" where
  "in_request rq i \<longleftrightarrow> sq_ranges rq = [] \<or> i \<in> rows_all (sq_ranges rq)"

lemma scan_index_rows:
  assumes ix: "indexed tt axis names recs n h" and ok: "axis_ok h" "dict_ok h"
    and lit: "case sq_predicate rq of None \<Rightarrow> True | Some q \<Rightarrow> literals_ok q"
    and rq: "sq_limit rq = None" "\<forall>r \<in> set (sq_ranges rq). rr_fits r"
  shows "\<exists>sc w. scan_index_handle h rq = Ok sc \<and> compile_predicate h (sq_predicate rq) = Ok w \<and>
    is_pos sc = 0 \<and> is_limit sc = None \<and> scan_ranges (is_ranges sc) \<and>
    rows_all (is_ranges sc) = {i. i < n \<and> in_request rq i \<and>
      selects w (fst (grid_from 0 recs ! i)) (snd (grid_from 0 recs ! i))}"
proof -
  let ?g = "grid_from 0 recs"
  note x = indexed_simps[OF ix] and sec = opened_sections[OF indexed_simps(1)[OF ix]]
  obtain w where w: "compile_predicate h (sq_predicate rq) = Ok w" "ids_in h w"
    using compile_predicate_spec[OF ok lit] by blast
  define ids where "ids = (case wi_ids w of Some ids \<Rightarrow> ids | None \<Rightarrow> [0..<sym_total h])"
  have "\<forall>j \<in> set ids. j < length recs"
    using w(2) x(3) by (auto simp: ids_def ids_in_def sec split: option.splits)
  then obtain rs where rs: "scan_ids h w None ids 0 = Ok rs" "\<forall>r \<in> set rs. rr_fits r"
    "rows_all rs = {i. i < n \<and> fst (?g ! i) \<in> set ids \<and> wi_lo w \<le> snd (?g ! i) \<and> snd (?g ! i) < wi_hi w}"
    using scan_ids_rows[OF ix, of ids w 0] by blast
  have sel: "fst (?g ! i) \<in> set ids \<and> wi_lo w \<le> snd (?g ! i) \<and> snd (?g ! i) < wi_hi w \<longleftrightarrow>
      selects w (fst (?g ! i)) (snd (?g ! i))" if "i < n" for i
    using grid_in_bounds(1)[OF ix that] by (auto simp: ids_def selects_def split: option.splits)
  have m: "rows_all (merge_ranges rs) = {i. i < n \<and> selects w (fst (?g ! i)) (snd (?g ! i))}"
    unfolding merge_ranges_eq(1)[OF rs(2)] rs(3) using sel by blast
  define out where "out = (if sq_ranges rq = [] then merge_ranges rs
      else intersect_lists (merge_ranges rs) (clamp_ranges (sq_ranges rq) (row_total h)))"
  have mg: "scan_ranges (merge_ranges rs)"
    using merge_ranges_eq(2,3)[OF rs(2)] by (simp add: scan_ranges_def separated_ascending)
  have "scan_ranges out \<and> rows_all out = {i. i < n \<and> in_request rq i \<and> selects w (fst (?g ! i)) (snd (?g ! i))}"
  proof (cases "sq_ranges rq = []")
    case True
    then show ?thesis using m mg by (simp add: out_def in_request_def)
  next
    case False
    have n: "n < 2 ^ 64" using x(5) by simp
    note C = clamp_ranges_eq[OF rq(2) n]
    have cl: "scan_ranges (clamp_ranges (sq_ranges rq) n)" using C(2,3) by (simp add: scan_ranges_def separated_ascending)
    have out: "out = intersect_lists (merge_ranges rs) (clamp_ranges (sq_ranges rq) n)"
      unfolding out_def sec(3) using False by (simp only: if_False)
    from arg_cong[OF intersect_scan_ranges(2)[OF mg cl], of set] intersect_scan_ranges(1)[OF mg cl] show ?thesis
      using m C(1) False unfolding out by (auto simp: in_request_def)
  qed
  moreover have "scan_index_handle h rq = Ok \<lparr>is_ranges = out, is_pos = 0, is_limit = None\<rparr>"
    using w(1) rs(1) rq(1) by (simp add: scan_index_handle_def ids_def[symmetric] out_def)
  ultimately show ?thesis using w(1) by auto
qed

subsection \<open>Draining the index scanner\<close>

fun index_collect :: "nat \<Rightarrow> index_scanner \<Rightarrow> row_range list option" where
  "index_collect 0 sc = None"
| "index_collect (Suc fuel) sc = (case index_next sc of
     (None, _) \<Rightarrow> Some []
   | (Some r, sc') \<Rightarrow> map_option ((#) r) (index_collect fuel sc'))"

lemma limited_append:
  "limited (Some k) (xs @ ys) = take (min (length xs) k) xs @ limited (Some (k - min (length xs) k)) ys"
  by (simp add: limited_def min_def)

lemma index_collect_rows:
  "length (is_ranges sc) - is_pos sc < fuel \<Longrightarrow>
   \<exists>rs. index_collect fuel sc = Some rs \<and>
     concat (map rr_rows rs) = limited (is_limit sc) (rows_list (drop (is_pos sc) (is_ranges sc)))"
proof (induction fuel arbitrary: sc)
  case (Suc fuel)
  show ?case
  proof (cases "length (is_ranges sc) \<le> is_pos sc")
    case True
    then show ?thesis by (simp add: index_next_def)
  next
    case False
    let ?r = "is_ranges sc ! is_pos sc"
    have d: "drop (is_pos sc) (is_ranges sc) = ?r # drop (is_pos sc + 1) (is_ranges sc)"
      using False by (simp add: Cons_nth_drop_Suc)
    have l: "length (rr_rows ?r) = rr_length ?r" by (simp add: rr_rows_def)
    have left: "length (is_ranges sc) - (is_pos sc + 1) < fuel" using Suc.prems False by linarith
    show ?thesis
    proof (cases "is_limit sc")
      case None
      then obtain rs where "index_collect fuel (sc\<lparr>is_pos := is_pos sc + 1\<rparr>) = Some rs"
        "concat (map rr_rows rs) = limited None (rows_list (drop (is_pos sc + 1) (is_ranges sc)))"
        using Suc.IH[of "sc\<lparr>is_pos := is_pos sc + 1\<rparr>"] left by auto
      then show ?thesis using False None d by (simp add: index_next_def Let_def limited_def)
    next
      case (Some k)
      let ?tk = "min (rr_length ?r) k"
      let ?sc = "sc\<lparr>is_pos := is_pos sc + 1, is_limit := Some (k - ?tk)\<rparr>"
      let ?out = "if ?tk < rr_length ?r then rr_new (rr_offset ?r) ?tk else ?r"
      obtain rs where rs: "index_collect fuel ?sc = Some rs"
        "concat (map rr_rows rs) = limited (Some (k - ?tk)) (rows_list (drop (is_pos sc + 1) (is_ranges sc)))"
        using Suc.IH[of ?sc] left by auto
      have nx: "index_next sc = (Some ?out, ?sc)" using False Some by (simp add: index_next_def Let_def)
      have "rr_rows ?out = take (min (length (rr_rows ?r)) k) (rr_rows ?r)"
        by (auto simp: rr_rows_def take_upt min_def)
      then show ?thesis using rs nx Some unfolding d by (simp add: limited_append l)
    qed
  qed
qed simp

subsection \<open>Properties\<close>

definition example_recs :: "sym_record list" where
  "example_recs = [\<lparr>sr_time_start = 0, sr_time_count = 2, sr_row_start = 0\<rparr>,
     \<lparr>sr_time_start = 0, sr_time_count = 3, sr_row_start = 2\<rparr>]"

definition example_image :: bytes where
  "example_image = meta_image TT_TimestampUs [1, 2, 3] [[65], [66]] example_recs (of_nat 5)"

lemma example_indexed:
  obtains h where "meta_open (\<lambda>_. Some example_image) ''META'' = Ok h"
    "indexed TT_TimestampUs [1, 2, 3] [[65], [66]] example_recs 5 h" "axis_ok h" "dict_ok h"
    "time_key h 0 = 1" "time_key h 1 = 2" "time_key h 2 = 3" "name_key h 0 = [65]" "name_key h 1 = [66]"
proof -
  have "image_fits TT_TimestampUs [1, 2, 3] [[65], [66]] example_recs"
    by (simp add: image_fits_def image_size_def example_recs_def)
  then obtain h where h: "meta_open (\<lambda>_. Some example_image) ''META'' = Ok h"
    "opened TT_TimestampUs [1, 2, 3] [[65], [66]] example_recs 5 h"
    using open_image[of "\<lambda>_. Some example_image" "''META''" TT_TimestampUs "[1, 2, 3]" "[[65], [66]]" example_recs 5]
    by (auto simp: example_image_def)
  have "indexed TT_TimestampUs [1, 2, 3] [[65], [66]] example_recs 5 h"
    using h(2) by (simp add: indexed_def example_recs_def rec_in_def)
  moreover have three: "(\<forall>i j. i < j \<and> j < length [1, 2, 3 :: u64] \<longrightarrow> P i j) \<longleftrightarrow> P 0 1 \<and> P 0 2 \<and> P 1 2" for P :: "nat \<Rightarrow> nat \<Rightarrow> bool"
    by (auto simp: less_Suc_eq eval_nat_numeral)
  have "axis_ok h" "\<forall>i < 3. time_key h i = narrow TT_TimestampUs ([1, 2, 3] ! i)"
    using opened_axis_ok[OF h(2)] unfolding three by (simp_all add: narrow_def)
  moreover have "dict_ok h" "\<forall>i < 2. name_key h i = [[65], [66]] ! i"
  proof -
    have two: "(\<forall>i j. i < j \<and> j < length [[65], [66 :: u8]] \<longrightarrow> P i j) \<longleftrightarrow> P 0 1" for P :: "nat \<Rightarrow> nat \<Rightarrow> bool"
      by (auto simp: less_Suc_eq eval_nat_numeral)
    show "dict_ok h" "\<forall>i < 2. name_key h i = [[65], [66]] ! i"
      using opened_dict_ok[OF h(2)] unfolding two by simp_all
  qed
  ultimately show ?thesis using that h(1) by (simp add: narrow_def)
qed

text \<open>C13. For an index whose times are not before 1970 and a predicate whose time literals are whole numbers,
  not negative and below \<open>u64::MAX\<close> (others are cast to such a number), a scan of the index without a limit
  succeeds and loses no matching row: every requested row whose symbol and time, read as a signed number and
  compared with the literals as numbers, satisfy the predicate, whatever the conditions on other fields say,
  is in the result. On conjunctions of symbol equalities and time comparisons it is also exact.\<close>

theorem scan_index_correct:
  assumes "indexed tt axis names recs n h" "axis_ok h" "dict_ok h"
    and "case sq_predicate rq of None \<Rightarrow> True | Some q \<Rightarrow> literals_ok q"
    and "\<forall>t < time_total h. 0 \<le> time_value tt (time_key h t)"
    and "sq_limit rq = None" "\<forall>r \<in> set (sq_ranges rq). rr_fits r"
  shows "\<exists>sc. scan_index_handle h rq = Ok sc \<and>
    {i. i < n \<and> in_request rq i \<and> row_matches tt h recs other (sq_predicate rq) i} \<subseteq> rows_all (is_ranges sc) \<and>
    ((case sq_predicate rq of None \<Rightarrow> True | Some q \<Rightarrow> exact q) \<longrightarrow>
      rows_all (is_ranges sc) = {i. i < n \<and> in_request rq i \<and> row_matches tt h recs other (sq_predicate rq) i})"
proof -
  obtain sc w where S: "scan_index_handle h rq = Ok sc" "compile_predicate h (sq_predicate rq) = Ok w"
    "rows_all (is_ranges sc) = {i. i < n \<and> in_request rq i \<and>
      selects w (fst (grid_from 0 recs ! i)) (snd (grid_from 0 recs ! i))}"
    using scan_index_rows[OF assms(1-4,6,7)] by blast
  have key: "(row_matches tt h recs other (sq_predicate rq) i \<longrightarrow> selects w (fst (grid_from 0 recs ! i)) (snd (grid_from 0 recs ! i))) \<and>
      ((case sq_predicate rq of None \<Rightarrow> True | Some q \<Rightarrow> exact q) \<longrightarrow>
        selects w (fst (grid_from 0 recs ! i)) (snd (grid_from 0 recs ! i)) \<longrightarrow> row_matches tt h recs other (sq_predicate rq) i)"
    if "i < n" for i
  proof -
    let ?s = "fst (grid_from 0 recs ! i)" and ?t = "snd (grid_from 0 recs ! i)"
    note b = grid_in_bounds[OF assms(1) that]
    have tv: "time_value tt (time_key h ?t) = uint (time_key h ?t)"
      using time_value_key[OF indexed_simps(1)[OF assms(1)] b(2)] assms(5) b(2) by blast
    show ?thesis using compile_predicate_spec[OF assms(2-4), of other] S(2) b
      unfolding row_matches_def tv Let_def by (metis res.inject(1))
  qed
  show ?thesis using S(1,3) key by (intro exI[of _ sc]) auto
qed

theorem scan_index_correct_witness:
  "\<exists>h sc. meta_open (\<lambda>_. Some example_image) ''META'' = Ok h \<and>
     scan_index_handle h \<lparr>sq_ranges = [rr_new 1 9], sq_projection = [],
        sq_predicate = Some (PAnd [PCmp (Some ''sym'') Eq (SStr [66]), PCmp (Some ''time'') Ge (SInt 2)]),
        sq_limit = None\<rparr> = Ok sc \<and> rows_all (is_ranges sc) = {3, 4}"
proof -
  let ?p = "PAnd [PCmp (Some ''sym'') Eq (SStr [66]), PCmp (Some ''time'') Ge (SInt 2)]"
  let ?rq = "\<lparr>sq_ranges = [rr_new 1 9], sq_projection = [], sq_predicate = Some ?p, sq_limit = None\<rparr>"
  obtain h where h: "meta_open (\<lambda>_. Some example_image) ''META'' = Ok h"
    "indexed TT_TimestampUs [1, 2, 3] [[65], [66]] example_recs 5 h" "axis_ok h" "dict_ok h"
    "time_key h 0 = 1" "time_key h 1 = 2" "time_key h 2 = 3" "name_key h 0 = [65]" "name_key h 1 = [66]"
    by (rule example_indexed)
  have pos: "\<forall>t < time_total h. 0 \<le> time_value TT_TimestampUs (time_key h t)"
    using h(5-7) opened_sections(2)[OF indexed_simps(1)[OF h(2)]] by (auto simp: less_Suc_eq eval_nat_numeral)
  have g: "grid_from 0 example_recs = [(0, 0), (0, 1), (1, 0), (1, 1), (1, 2)]" by code_simp
  have "row_matches TT_TimestampUs h example_recs (\<lambda>_ _ _. True) (Some ?p) i \<longleftrightarrow> i = 3 \<or> i = 4" if "i < 5" for i
  proof -
    have "i = 0 \<or> i = 1 \<or> i = 2 \<or> i = 3 \<or> i = 4" using that by auto
    then show ?thesis
      using h(5-9) by (elim disjE) (simp_all add: row_matches_def g cmp_of_def)
  qed
  then have "{i. i < 5 \<and> in_request ?rq i \<and> row_matches TT_TimestampUs h example_recs (\<lambda>_ _ _. True) (Some ?p) i} = {3, 4}"
    by (auto simp: in_request_def rows_of_def)
  moreover have "\<exists>sc. scan_index_handle h ?rq = Ok sc \<and>
    {i. i < 5 \<and> in_request ?rq i \<and> row_matches TT_TimestampUs h example_recs (\<lambda>_ _ _. True) (sq_predicate ?rq) i} \<subseteq> rows_all (is_ranges sc) \<and>
    ((case sq_predicate ?rq of None \<Rightarrow> True | Some q \<Rightarrow> exact q) \<longrightarrow>
      rows_all (is_ranges sc) = {i. i < 5 \<and> in_request ?rq i \<and> row_matches TT_TimestampUs h example_recs (\<lambda>_ _ _. True) (sq_predicate ?rq) i})"
    using pos by (intro scan_index_correct[OF h(2-4)]) (simp_all add: whole_time_int rr_fits_def)
  ultimately show ?thesis using h(1) by auto
qed

text \<open>Calling \<open>next\<close> of an index scanner to its end takes at most one call per range and one more, and
  returns the rows of its ranges in order, cut at the limit.\<close>

theorem index_scanner_limit:
  assumes "length (is_ranges sc) - is_pos sc < fuel"
  shows "\<exists>rs. index_collect fuel sc = Some rs \<and>
     concat (map rr_rows rs) = limited (is_limit sc) (concat (map rr_rows (drop (is_pos sc) (is_ranges sc))))"
  using index_collect_rows[OF assms] by (simp add: rows_list_def)

theorem index_scanner_limit_witness:
  "\<exists>rs. index_collect 3 \<lparr>is_ranges = [rr_new 0 2, rr_new 5 4], is_pos = 0, is_limit = Some 3\<rparr> = Some rs \<and>
     concat (map rr_rows rs) = [0, 1, 5]"
  using index_scanner_limit[of "\<lparr>is_ranges = [rr_new 0 2, rr_new 5 4], is_pos = 0, is_limit = Some 3\<rparr>" 3]
  by (simp add: limited_def rr_rows_def upt_rec)

end
