(* ===== verification/Index_Locate.thy ===== *)
theory Index_Locate
  imports Index_Scan
begin

text \<open>
  Batch location of \<open>(sym, time)\<close> keys (\<open>locate_index_generic\<close> of
  \<open>splayed-core/src/meta_file.rs\<close>): one pass over sorted keys with a cursor in the dictionary and a
  cursor in the symbol's part of the axis, merging consecutive rows on the fly.
\<close>

subsection \<open>The two cursors\<close>

definition no_sym :: core_error where "no_sym = Invalid ''locate: sym does not exist in META''"
definition no_key :: core_error where "no_key = Invalid ''locate: (sym, time) key does not exist''"
definition not_sorted :: core_error where
  "not_sorted = Invalid ''locate input must be sorted and unique by (sym ASC, time ASC)''"

function seek_sym :: "meta_handle \<Rightarrow> bytes \<Rightarrow> nat \<Rightarrow> (core_error, nat) res" where
  "seek_sym h name cur =
     (if cur < sym_total h
      then rbind (sym_str h cur) (\<lambda>s.
        if s < name then seek_sym h name (cur + 1) else if s = name then Ok cur else Err no_sym)
      else Err no_sym)"
  by auto
termination by (relation "measure (\<lambda>(h, _, cur). sym_total h - cur)") auto

declare seek_sym.simps [simp del]

function seek_time :: "(nat \<Rightarrow> (core_error, u64) res) \<Rightarrow> u64 \<Rightarrow> nat \<Rightarrow> nat \<Rightarrow> (core_error, nat) res" where
  "seek_time rd v cur stop =
     (if cur < stop then rbind (rd cur) (\<lambda>t. if v \<le> t then Ok cur else seek_time rd v (cur + 1) stop)
      else Ok cur)"
  by auto
termination by (relation "measure (\<lambda>(_, _, cur, stop). stop - cur)") auto

declare seek_time.simps [simp del]

subsection \<open>One key\<close>

text \<open>The ranges are kept with the last one first; \<open>usize::MAX\<close> as "no cached record" is \<open>None\<close>.\<close>

record locate_state =
  ls_ranges :: "row_range list"
  ls_sym :: nat
  ls_time :: nat
  ls_rec :: sym_record
  ls_cached :: "nat option"

definition push_row :: "row_range list \<Rightarrow> nat \<Rightarrow> row_range list" where
  "push_row ranges row = (case ranges of
     r # rest \<Rightarrow> if rr_end r = row then r\<lparr>rr_length := rr_length r + 1\<rparr> # rest else rr_new row 1 # ranges
   | [] \<Rightarrow> [rr_new row 1])"

definition locate_step ::
  "meta_handle \<Rightarrow> (nat \<Rightarrow> (core_error, u64) res) \<Rightarrow> (bytes \<times> int) option \<Rightarrow> bytes \<times> int \<Rightarrow> locate_state \<Rightarrow>
   (core_error, locate_state) res" where
  "locate_step h rd prev key st =
     (let name = fst key; time = snd key; time_u = of_int time :: u64 in
      rbind (case prev of None \<Rightarrow> Ok False
             | Some (pn, pt) \<Rightarrow> if name < pn \<or> (pn = name \<and> time \<le> pt) then Err not_sorted else Ok (pn = name))
        (\<lambda>same_sym.
      rbind (if same_sym then Ok st
             else rbind (seek_sym h name (ls_sym st)) (\<lambda>c.
                  let st' = st\<lparr>ls_sym := c\<rparr> in
                  if ls_cached st' \<noteq> Some c
                  then rbind (sym_record_of h c) (\<lambda>r.
                    Ok (st'\<lparr>ls_rec := r, ls_cached := Some c, ls_time := unat (sr_time_start r)\<rparr>))
                  else Ok st'))
        (\<lambda>st1.
      let stop = unat (sr_time_start (ls_rec st1)) + unat (sr_time_count (ls_rec st1)) in
      rbind (seek_time rd time_u (ls_time st1) stop) (\<lambda>cur.
      rbind (if stop \<le> cur then Ok False else rbind (rd cur) (\<lambda>t. Ok (t = time_u))) (\<lambda>found.
        if \<not> found then rbind (sym_str h (ls_sym st1)) (\<lambda>_. Err no_key)
        else let row = unat (sr_row_start (ls_rec st1)) + (cur - unat (sr_time_start (ls_rec st1)))
             in Ok (st1\<lparr>ls_time := cur, ls_ranges := push_row (ls_ranges st1) row\<rparr>))))))"

fun locate_loop ::
  "meta_handle \<Rightarrow> (nat \<Rightarrow> (core_error, u64) res) \<Rightarrow> (bytes \<times> int) option \<Rightarrow> (bytes \<times> int) list \<Rightarrow> locate_state \<Rightarrow>
   (core_error, locate_state) res" where
  "locate_loop h rd prev [] st = Ok st"
| "locate_loop h rd prev (k # ks) st =
     rbind (locate_step h rd prev k st) (\<lambda>st'. locate_loop h rd (Some k) ks st')"

definition locate_index_generic :: "meta_handle \<Rightarrow> (bytes \<times> int) list \<Rightarrow> (core_error, row_range list) res" where
  "locate_index_generic h pairs =
     (if pairs = [] then Ok []
      else rbind (axis_bytes h) (\<lambda>axis.
        rbind (map_err EFormat (meta_time_type (mt_header h))) (\<lambda>tt.
        rbind (locate_loop h (axis_word tt (meta_time_type_size (mt_header h)) axis) None pairs
            \<lparr>ls_ranges = [], ls_sym = 0, ls_time = 0,
             ls_rec = \<lparr>sr_time_start = 0, sr_time_count = 0, sr_row_start = 0\<rparr>, ls_cached = None\<rparr>) (\<lambda>st.
          let ranges = rev (ls_ranges st)
          in if sum_list (map rr_length ranges) \<noteq> length pairs then Err (InvalidState ''locate total mismatch'')
             else Ok ranges))))"

subsection \<open>Lemmas\<close>

lemma seek_sym_finds:
  assumes "dict_ok h"
  shows "cur \<le> c \<Longrightarrow> c < sym_total h \<Longrightarrow> seek_sym h (name_key h c) cur = Ok c"
proof (induction "c - cur" arbitrary: cur)
  case 0
  then show ?case using assms by (simp add: seek_sym.simps[of h _ cur] dict_ok_def)
next
  case (Suc d)
  then have "cur < c" "sym_str h cur = Ok (name_key h cur)" "name_key h cur < name_key h c"
    using assms by (simp_all add: dict_ok_def)
  then show ?case using Suc.hyps(1)[of "cur + 1"] Suc.hyps(2) Suc.prems
    by (subst seek_sym.simps) simp
qed

lemma seek_time_finds:
  assumes "\<forall>i < m. rd i = Ok (f i)" "\<forall>j < m. \<forall>i < j. f i < (f j :: u64)" "t < m"
  shows "cur \<le> t \<Longrightarrow> t < stop \<Longrightarrow> seek_time rd (f t) cur stop = Ok t"
proof (induction "t - cur" arbitrary: cur)
  case 0
  then show ?case using assms by (simp add: seek_time.simps[of _ _ cur])
next
  case (Suc d)
  then have "cur < t" "rd cur = Ok (f cur)" "f cur < f t" using assms by simp_all
  then show ?case using Suc.hyps(1)[of "cur + 1"] Suc.hyps(2) Suc.prems
    by (subst seek_time.simps) (simp add: not_le)
qed

lemma push_row_rows:
  assumes "\<forall>r \<in> set ranges. rr_fits r" "row < 2 ^ 64 - 1"
  shows "rows_list (rev (push_row ranges row)) = rows_list (rev ranges) @ [row]"
    "\<forall>r \<in> set (push_row ranges row). rr_fits r"
proof -
  show "rows_list (rev (push_row ranges row)) = rows_list (rev ranges) @ [row]"
    using assms(1) by (cases ranges) (auto simp: push_row_def rr_rows_def)
  show "\<forall>r \<in> set (push_row ranges row). rr_fits r"
    using assms by (cases ranges) (auto simp: push_row_def rr_fits_def)
qed

subsection \<open>The pass over the keys\<close>

text \<open>The row of a key in the grid: its time is the time of the axis value, read as a signed number.\<close>

definition key_at :: "time_type \<Rightarrow> meta_handle \<Rightarrow> sym_record list \<Rightarrow> nat \<Rightarrow> nat \<Rightarrow> bytes \<times> int \<Rightarrow> bool" where
  "key_at tt h recs n row k \<longleftrightarrow> row < n \<and> name_key h (fst (grid_from 0 recs ! row)) = fst k \<and>
     time_value tt (time_key h (snd (grid_from 0 recs ! row))) = snd k"

text \<open>What the pass compares: the unsigned value of the axis with the time of the key cast to \<open>u64\<close>.\<close>

definition key_cast_at :: "meta_handle \<Rightarrow> sym_record list \<Rightarrow> nat \<Rightarrow> nat \<Rightarrow> bytes \<times> int \<Rightarrow> bool" where
  "key_cast_at h recs n row k \<longleftrightarrow> row < n \<and> name_key h (fst (grid_from 0 recs ! row)) = fst k \<and>
     time_key h (snd (grid_from 0 recs ! row)) = of_int (snd k) \<and> 0 \<le> snd k \<and> snd k < 2 ^ 63"

lemma key_at_cast:
  assumes ix: "indexed tt axis names recs n h" and k: "key_at tt h recs n row k" "0 \<le> snd k"
  shows "key_cast_at h recs n row k"
proof -
  let ?t = "snd (grid_from 0 recs ! row)"
  have row: "row < n" "name_key h (fst (grid_from 0 recs ! row)) = fst k" "time_value tt (time_key h ?t) = snd k"
    using k(1) by (simp_all add: key_at_def)
  have "snd k = uint (time_key h ?t)"
    using time_value_key[OF indexed_simps(1)[OF ix] grid_in_bounds(2)[OF ix row(1)]] row(3) k(2) by simp
  then have "time_key h ?t = of_int (snd k)" by simp
  moreover have "time_value tt w < 2 ^ 63" for w
    using sint_lt[of "ucast w :: u32"] sint_lt[of w] by (cases tt) simp_all
  moreover have "snd k < 2 ^ 63" using calculation(2)[of "time_key h ?t"] row(3) by (simp only:)
  ultimately show ?thesis using row k(2) by (simp add: key_cast_at_def)
qed

definition key_less :: "bytes \<times> int \<Rightarrow> bytes \<times> int \<Rightarrow> bool" where
  "key_less a b \<longleftrightarrow> fst a < fst b \<or> (fst a = fst b \<and> snd a < snd b)"

definition locate_inv :: "sym_record list \<Rightarrow> nat option \<Rightarrow> locate_state \<Rightarrow> bool" where
  "locate_inv recs last_row st \<longleftrightarrow> (\<forall>r \<in> set (ls_ranges st). rr_fits r) \<and>
     (case last_row of None \<Rightarrow> ls_sym st = 0 \<and> ls_cached st = None
      | Some row \<Rightarrow> ls_sym st = fst (grid_from 0 recs ! row) \<and> ls_cached st = Some (ls_sym st) \<and>
          ls_rec st = recs ! ls_sym st \<and> ls_time st = snd (grid_from 0 recs ! row))"

lemma of_int_time_less:
  assumes "0 \<le> a" "a < (2 :: int) ^ 63" "0 \<le> b" "b < 2 ^ 63"
  shows "(of_int a :: u64) < of_int b \<longleftrightarrow> a < b"
  using assms by (simp add: word_less_def uint_word_of_int)

lemma locate_step_finds:
  assumes ix: "indexed tt axis names recs n h" and ok: "axis_ok h" "dict_ok h"
    and rd: "\<forall>i < time_total h. rd i = Ok (time_key h i)"
    and inv: "locate_inv recs last_row st" and k: "key_cast_at h recs n row k"
    and prev: "case last_row of None \<Rightarrow> prev = None
      | Some r0 \<Rightarrow> \<exists>k0. prev = Some k0 \<and> key_cast_at h recs n r0 k0 \<and> key_less k0 k"
  shows "\<exists>st'. locate_step h rd prev k st = Ok st' \<and> locate_inv recs (Some row) st' \<and>
    ls_ranges st' = push_row (ls_ranges st) row"
proof -
  note x = indexed_simps[OF ix] and sec = opened_sections[OF indexed_simps(1)[OF ix]]
  have row: "row < n" using k by (simp add: key_cast_at_def)
  obtain c where c: "c < length recs" "rec_lo (recs ! c) \<le> row" "row < rec_hi (recs ! c)"
    using recs_tile_cover[OF x(2) _ row] by auto
  define ts t where "ts = unat (sr_time_start (recs ! c))" and "t = ts + (row - rec_lo (recs ! c))"
  have g: "grid_from 0 recs ! row = (c, t)" using grid_nth[OF x(2) c, of 0] by (simp add: t_def ts_def)
  have nm: "fst k = name_key h c" "of_int (snd k) = time_key h t" "0 \<le> snd k" "snd k < 2 ^ 63"
    using k g by (simp_all add: key_cast_at_def)
  let ?stop = "ts + unat (sr_time_count (recs ! c))"
  have t: "ts \<le> t" "t < ?stop" "t < time_total h" "c < sym_total h"
    using c grid_in_bounds[OF ix row] g by (auto simp: t_def)
  have rec: "sym_record_of h c = Ok (recs ! c)" using opened_record[OF x(1)] c(1) x(3) by simp
  have rback: "rec_lo (recs ! c) + (t - ts) = row" using c by (simp add: t_def)
  define same where "same = (case prev of None \<Rightarrow> False | Some (pn, pt) \<Rightarrow> pn = fst k)"
  have s1: "(case prev of None \<Rightarrow> Ok False
      | Some (pn, pt) \<Rightarrow> if fst k < pn \<or> (pn = fst k \<and> snd k \<le> pt) then Err not_sorted else Ok (pn = fst k)) = Ok same"
    using prev by (cases last_row) (auto simp: same_def key_less_def split: prod.splits)
  define st1 where "st1 = (if same then st
      else st\<lparr>ls_sym := c, ls_rec := recs ! c, ls_cached := Some c, ls_time := ts\<rparr>)"
  have s2: "(if same then Ok st
       else rbind (seek_sym h (fst k) (ls_sym st)) (\<lambda>c.
            let st' = st\<lparr>ls_sym := c\<rparr> in
            if ls_cached st' \<noteq> Some c
            then rbind (sym_record_of h c) (\<lambda>r.
              Ok (st'\<lparr>ls_rec := r, ls_cached := Some c, ls_time := unat (sr_time_start r)\<rparr>))
            else Ok st')) = Ok st1"
    and S: "ls_sym st1 = c" "ls_cached st1 = Some c" "ls_rec st1 = recs ! c" "ls_time st1 \<le> t" "ls_ranges st1 = ls_ranges st"
  proof -
    have J: "(same \<longrightarrow> ls_sym st = c \<and> ls_cached st = Some c \<and> ls_rec st = recs ! c \<and> ls_time st \<le> t) \<and>
        (\<not> same \<longrightarrow> ls_sym st \<le> c \<and> ls_cached st \<noteq> Some c)"
    proof (cases last_row)
      case None
      then show "(same \<longrightarrow> ls_sym st = c \<and> ls_cached st = Some c \<and> ls_rec st = recs ! c \<and> ls_time st \<le> t) \<and>
        (\<not> same \<longrightarrow> ls_sym st \<le> c \<and> ls_cached st \<noteq> Some c)"
        using prev inv by (simp_all add: same_def locate_inv_def)
    next
      case (Some r0)
      then obtain k0 where k0: "prev = Some k0" "key_cast_at h recs n r0 k0" "key_less k0 k" using prev by auto
      have r0: "r0 < n" using k0(2) by (simp add: key_cast_at_def)
      obtain c0 t0 where g0: "grid_from 0 recs ! r0 = (c0, t0)" by (cases "grid_from 0 recs ! r0")
      have b0: "c0 < sym_total h" "t0 < time_total h" using grid_in_bounds[OF ix r0] g0 by simp_all
      have q: "fst k0 = name_key h c0" "of_int (snd k0) = time_key h t0" "0 \<le> snd k0" "snd k0 < 2 ^ 63"
        using k0(2) g0 by (simp_all add: key_cast_at_def)
      have I: "ls_sym st = c0" "ls_cached st = Some c0" "ls_rec st = recs ! c0" "ls_time st = t0"
        using inv Some g0 by (simp_all add: locate_inv_def)
      have sm: "same \<longleftrightarrow> fst k0 = fst k" using k0(1) by (simp add: same_def split: prod.splits)
      have "c0 = c" if "fst k0 = fst k"
        using that q(1) nm(1) dict.key_less_iff[OF ok(2) b0(1) t(4)] dict.key_less_iff[OF ok(2) t(4) b0(1)]
        by (metis less_irrefl linorder_neqE_nat)
      moreover have "t0 < t" if "fst k0 = fst k"
      proof -
        have "snd k0 < snd k" using k0(3) that by (simp add: key_less_def)
        then have "time_key h t0 < time_key h t"
          using of_int_time_less[OF q(3,4) nm(3,4)] q(2) nm(2) by simp
        then show ?thesis using axis.key_less_iff[OF ok(1) b0(2) t(3)] by simp
      qed
      moreover have "c0 < c" if "fst k0 \<noteq> fst k"
      proof -
        have "fst k0 < fst k" using k0(3) that by (simp add: key_less_def)
        then show ?thesis using dict.key_less_iff[OF ok(2) b0(1) t(4)] q(1) nm(1) by simp
      qed
      ultimately show "(same \<longrightarrow> ls_sym st = c \<and> ls_cached st = Some c \<and> ls_rec st = recs ! c \<and> ls_time st \<le> t) \<and>
        (\<not> same \<longrightarrow> ls_sym st \<le> c \<and> ls_cached st \<noteq> Some c)"
        using I sm by auto
    qed
    from J show "ls_sym st1 = c" "ls_cached st1 = Some c" "ls_rec st1 = recs ! c" "ls_time st1 \<le> t" "ls_ranges st1 = ls_ranges st"
      using t(1) by (simp_all add: st1_def)
    show "(if same then Ok st
       else rbind (seek_sym h (fst k) (ls_sym st)) (\<lambda>c.
            let st' = st\<lparr>ls_sym := c\<rparr> in
            if ls_cached st' \<noteq> Some c
            then rbind (sym_record_of h c) (\<lambda>r.
              Ok (st'\<lparr>ls_rec := r, ls_cached := Some c, ls_time := unat (sr_time_start r)\<rparr>))
            else Ok st')) = Ok st1"
      using J seek_sym_finds[OF ok(2) _ t(4), of "ls_sym st"] rec
      by (cases same) (simp_all add: st1_def nm(1) ts_def)
  qed
  have stop: "unat (sr_time_start (ls_rec st1)) + unat (sr_time_count (ls_rec st1)) = ?stop"
    by (simp add: S(3) ts_def)
  have s3: "seek_time rd (of_int (snd k)) (ls_time st1) ?stop = Ok t"
    unfolding nm(2) using ok(1) rd t S(4) by (intro seek_time_finds[of "time_total h"]) (auto simp: axis_ok_def)
  have s4: "(if ?stop \<le> t then Ok False else rbind (rd t) (\<lambda>t. Ok (t = of_int (snd k)))) = Ok True"
    using t rd nm(2) by simp
  have "locate_step h rd prev k st = Ok (st1\<lparr>ls_time := t, ls_ranges := push_row (ls_ranges st1) row\<rparr>)"
    unfolding locate_step_def Let_def[of "fst k"] Let_def[of "snd k"] Let_def[of "of_int (snd k) :: u64"] s1 rbind.simps s2
    unfolding Let_def stop s3 rbind.simps s4
    by (simp add: S(3) ts_def[symmetric] rback)
  moreover have "row < 2 ^ 64 - 1" using row x(5) by simp
  moreover have "locate_inv recs (Some row) (st1\<lparr>ls_time := t, ls_ranges := push_row (ls_ranges st1) row\<rparr>)"
    using inv push_row_rows(2)[of "ls_ranges st" row] \<open>row < 2 ^ 64 - 1\<close> S g by (simp add: locate_inv_def)
  ultimately show ?thesis using S(5) by auto
qed

lemma locate_loop_finds:
  assumes ix: "indexed tt axis names recs n h" and ok: "axis_ok h" "dict_ok h"
    and rd: "\<forall>i < time_total h. rd i = Ok (time_key h i)"
  shows "locate_inv recs last_row st \<Longrightarrow> list_all2 (key_cast_at h recs n) rows ks \<Longrightarrow>
    sorted_wrt key_less ks \<Longrightarrow>
    (case last_row of None \<Rightarrow> prev = None
     | Some r0 \<Rightarrow> \<exists>k0. prev = Some k0 \<and> key_cast_at h recs n r0 k0 \<and> (\<forall>k \<in> set ks. key_less k0 k)) \<Longrightarrow>
    \<exists>st'. locate_loop h rd prev ks st = Ok st' \<and>
      rows_list (rev (ls_ranges st')) = rows_list (rev (ls_ranges st)) @ rows"
proof (induction ks arbitrary: last_row st rows prev)
  case (Cons k ks)
  obtain row rows' where rows: "rows = row # rows'" "key_cast_at h recs n row k" "list_all2 (key_cast_at h recs n) rows' ks"
    using Cons.prems(2) by (auto simp: list_all2_Cons2)
  have "case last_row of None \<Rightarrow> prev = None
      | Some r0 \<Rightarrow> \<exists>k0. prev = Some k0 \<and> key_cast_at h recs n r0 k0 \<and> key_less k0 k"
    using Cons.prems(4) by (auto split: option.splits)
  from locate_step_finds[OF ix ok rd Cons.prems(1) rows(2) this] obtain st' where st':
    "locate_step h rd prev k st = Ok st'" "locate_inv recs (Some row) st'" "ls_ranges st' = push_row (ls_ranges st) row"
    by blast
  have "row < 2 ^ 64 - 1" using rows(2) indexed_simps(5)[OF ix] by (simp add: key_cast_at_def)
  then have "rows_list (rev (ls_ranges st')) = rows_list (rev (ls_ranges st)) @ [row]"
    using push_row_rows(1)[of "ls_ranges st" row] Cons.prems(1) st'(3) by (simp add: locate_inv_def)
  moreover obtain st'' where "locate_loop h rd (Some k) ks st' = Ok st''"
    "rows_list (rev (ls_ranges st'')) = rows_list (rev (ls_ranges st')) @ rows'"
    using Cons.IH[OF st'(2) rows(3), of "Some k"] Cons.prems(3) rows(2) by auto
  ultimately show ?case using st'(1) rows(1) by auto
qed simp

subsection \<open>Property\<close>

text \<open>C14. Batch location: for keys sorted by symbol and time that all exist in the index, with times from 1970
  on (earlier day numbers, which an index can hold, are not found), the single pass with its two cursors
  succeeds, and the merged ranges list the row of every key, in key order.\<close>

theorem locate_correct:
  assumes "indexed tt axis names recs n h" "axis_ok h" "dict_ok h"
    and "list_all2 (key_at tt h recs n) rows keys" "sorted_wrt key_less keys" "\<forall>k \<in> set keys. 0 \<le> snd k"
  shows "\<exists>rs. locate_index_generic h keys = Ok rs \<and> concat (map rr_rows rs) = rows"
proof (cases "keys = []")
  case True
  then show ?thesis using assms(4) by (simp add: locate_index_generic_def)
next
  case False
  note sec = opened_sections[OF indexed_simps(1)[OF assms(1)]]
  let ?rd = "axis_word tt (time_size_of tt) (concat (map (le_bytes (time_size_of tt)) axis))"
  let ?st = "\<lparr>ls_ranges = [], ls_sym = 0, ls_time = 0,
     ls_rec = \<lparr>sr_time_start = 0, sr_time_count = 0, sr_row_start = 0\<rparr>, ls_cached = None\<rparr>"
  have "?rd i = (Ok (time_key h i) :: (core_error, _) res)" if "i < time_total h" for i
    using that axis_word_concat[of i axis tt, where 'e = core_error] opened_time[OF indexed_simps(1)[OF assms(1)], of i]
    by (simp add: sec time_key_def)
  moreover have "list_all2 (key_cast_at h recs n) rows keys"
    using assms(4,6) key_at_cast[OF assms(1)] by (auto simp: list_all2_conv_all_nth)
  ultimately obtain st where st: "locate_loop h ?rd None keys ?st = Ok st" "rows_list (rev (ls_ranges st)) = rows"
    using locate_loop_finds[OF assms(1-3), of ?rd None ?st rows keys None] assms(5)
    by (auto simp: locate_inv_def)
  have "sum_list (map rr_length (rev (ls_ranges st))) = length (rows_list (rev (ls_ranges st)))"
    by (simp add: rows_list_def length_concat comp_def rr_rows_def)
  then have "sum_list (map rr_length (rev (ls_ranges st))) = length keys"
    using st(2) assms(4) by (simp add: list_all2_lengthD)
  then have "locate_index_generic h keys = Ok (rev (ls_ranges st))"
    using False st(1) by (simp add: locate_index_generic_def sec)
  then show ?thesis using st(2) by (simp add: rows_list_def)
qed

theorem locate_correct_witness:
  "\<exists>h rs. meta_open (\<lambda>_. Some example_image) ''META'' = Ok h \<and>
     locate_index_generic h [([65], 2), ([66], 1), ([66], 3)] = Ok rs \<and> concat (map rr_rows rs) = [1, 2, 4]"
proof -
  obtain h where h: "meta_open (\<lambda>_. Some example_image) ''META'' = Ok h"
    "indexed TT_TimestampUs [1, 2, 3] [[65], [66]] example_recs 5 h" "axis_ok h" "dict_ok h"
    "time_key h 0 = 1" "time_key h 1 = 2" "time_key h 2 = 3" "name_key h 0 = [65]" "name_key h 1 = [66]"
    by (rule example_indexed)
  have g: "grid_from 0 example_recs = [(0, 0), (0, 1), (1, 0), (1, 1), (1, 2)]" by code_simp
  have "\<exists>rs. locate_index_generic h [([65], 2), ([66], 1), ([66], 3)] = Ok rs \<and> concat (map rr_rows rs) = [1, 2, 4]"
    using h(5-9) by (intro locate_correct[OF h(2-4)]) (simp_all add: key_at_def key_less_def g)
  then show ?thesis using h(1) by blast
qed

end
