(* ===== verification/Partition.thy ===== *)
theory Partition
  imports Format_Types "HOL-Library.Signed_Division"
begin

text \<open>
  Partition names and time bounds (\<open>splayed-table/src/partition.rs\<close>). An \<open>i64\<close> is
  an \<open>int\<close> whose arithmetic results pass through \<open>i64\<close>, the two's complement
  wrap-around of a release build; \<open>u64\<close> and \<open>u32\<close> results pass through
  \<open>u64\<close> and \<open>u32\<close>. Rust's \<open>/\<close> is \<open>sdiv\<close>, which truncates
  towards zero. \<open>format!\<close> and \<open>str::parse\<close> are written out for the integer types
  that the module prints and reads.

  The lemmas show that the calendar conversion is the proleptic Gregorian one
  (\<open>march_days\<close>), that its two directions are inverse, and that the bounds read off a
  partition's name contain the value the name was made from.
\<close>

subsection \<open>Machine integers\<close>

definition i64 :: "int \<Rightarrow> int" where
  "i64 x = (x + 2 ^ 63) mod 2 ^ 64 - 2 ^ 63"

definition u64 :: "int \<Rightarrow> int" where
  "u64 x = x mod 2 ^ 64"

definition u32 :: "int \<Rightarrow> int" where
  "u32 x = x mod 2 ^ 32"

definition in_i64 :: "int \<Rightarrow> bool" where
  "in_i64 x \<longleftrightarrow> - (2 ^ 63) \<le> x \<and> x < 2 ^ 63"

lemma i64_id [simp]: "- 9223372036854775808 \<le> x \<Longrightarrow> x \<le> 9223372036854775807 \<Longrightarrow> i64 x = x"
  by (simp add: i64_def)

lemma u64_id [simp]: "0 \<le> x \<Longrightarrow> x < 18446744073709551616 \<Longrightarrow> u64 x = x"
  by (simp add: u64_def)

lemma u32_id [simp]: "0 \<le> x \<Longrightarrow> x < 4294967296 \<Longrightarrow> u32 x = x"
  by (simp add: u32_def)

text \<open>The standard library's decimal printing and parsing.\<close>

definition digit_char :: "nat \<Rightarrow> char" where
  "digit_char d = char_of (48 + d)"

definition digit_of :: "char \<Rightarrow> nat option" where
  "digit_of c = (let n = of_char c in if 48 \<le> n \<and> n < 58 then Some (n - 48) else None)"

fun decimal :: "nat \<Rightarrow> string" where
  "decimal n = (if n < 10 then [digit_char n] else decimal (n div 10) @ [digit_char (n mod 10)])"

declare decimal.simps [simp del]

definition pad0 :: "nat \<Rightarrow> string \<Rightarrow> string" where
  "pad0 w s = replicate (w - length s) (CHR ''0'') @ s"

text \<open>\<open>format!("{x:0w}")\<close> pads after the sign; \<open>format!("{x}")\<close> is width 0.\<close>

definition fmt_int :: "nat \<Rightarrow> int \<Rightarrow> string" where
  "fmt_int w x =
    (if x < 0 then CHR ''-'' # pad0 (w - 1) (decimal (nat (- x))) else pad0 w (decimal (nat x)))"

fun parse_digits :: "nat \<Rightarrow> string \<Rightarrow> nat option" where
  "parse_digits acc [] = Some acc"
| "parse_digits acc (c # cs) =
    (case digit_of c of None \<Rightarrow> None | Some d \<Rightarrow> parse_digits (10 * acc + d) cs)"

definition parse_nat :: "string \<Rightarrow> nat option" where
  "parse_nat s = (if s = [] then None else parse_digits 0 s)"

definition parse_i64 :: "string \<Rightarrow> int option" where
  "parse_i64 s =
    (let r = (case s of
        [] \<Rightarrow> None
      | c # cs \<Rightarrow>
          if c = CHR ''-'' then map_option (\<lambda>n. - int n) (parse_nat cs)
          else if c = CHR ''+'' then map_option int (parse_nat cs)
          else map_option int (parse_nat s))
     in case r of None \<Rightarrow> None | Some x \<Rightarrow> if in_i64 x then Some x else None)"

definition parse_u32 :: "string \<Rightarrow> int option" where
  "parse_u32 s =
    (let r = (case s of
        [] \<Rightarrow> None
      | c # cs \<Rightarrow> if c = CHR ''+'' then parse_nat cs else parse_nat s)
     in case r of None \<Rightarrow> None | Some n \<Rightarrow> if int n < 2 ^ 32 then Some (int n) else None)"

text \<open>\<open>str::split_once\<close> and \<open>str::split\<close> on a character.\<close>

fun split_once :: "char \<Rightarrow> string \<Rightarrow> (string \<times> string) option" where
  "split_once d [] = None"
| "split_once d (c # cs) =
    (if c = d then Some ([], cs)
     else map_option (\<lambda>(a, b). (c # a, b)) (split_once d cs))"

fun split_on :: "char \<Rightarrow> string \<Rightarrow> string list" where
  "split_on d [] = [[]]"
| "split_on d (c # cs) =
    (if c = d then [] # split_on d cs
     else (case split_on d cs of [] \<Rightarrow> [[c]] | p # ps \<Rightarrow> (c # p) # ps))"

subsection \<open>Schemes and calendar\<close>

definition US_PER_DAY :: int where
  "US_PER_DAY = 86400000000"

datatype partition_scheme = PS_None | PS_Year | PS_Month | PS_Date

fun scheme_as_str :: "partition_scheme \<Rightarrow> string" where
  "scheme_as_str PS_None = ''none''"
| "scheme_as_str PS_Year = ''year''"
| "scheme_as_str PS_Month = ''month''"
| "scheme_as_str PS_Date = ''date''"

definition from_partition_name :: "string \<Rightarrow> partition_scheme option" where
  "from_partition_name name =
    (let prefix = hd (split_on (CHR ''='') name)
     in if prefix = ''year'' then Some PS_Year
        else if prefix = ''month'' then Some PS_Month
        else if prefix = ''date'' then Some PS_Date
        else None)"

definition allows_partitions :: "partition_scheme \<Rightarrow> bool" where
  "allows_partitions s \<longleftrightarrow> s \<noteq> PS_None"

definition days_from_civil :: "int \<Rightarrow> int \<Rightarrow> int \<Rightarrow> int" where
  "days_from_civil y0 m d =
    (let y = i64 (y0 - (if m \<le> 2 then 1 else 0));
         era = (if y \<ge> 0 then y else i64 (y - 399)) sdiv 400;
         yoe = u64 (i64 (y - i64 (era * 400)));
         mp = (if m > 2 then u32 (m - 3) else u32 (m + 9));
         doy = u64 (u64 ((153 * mp + 2) div 5 + d) - 1);
         doe = u64 (u64 (u64 (u64 (yoe * 365) + yoe div 4) - yoe div 100) + doy)
     in i64 (i64 (i64 (era * 146097) + i64 doe) - 719468))"

definition civil_from_days :: "int \<Rightarrow> int \<times> int \<times> int" where
  "civil_from_days days =
    (let z = i64 (days + 719468);
         era = (if z \<ge> 0 then z else i64 (z - 146096)) sdiv 146097;
         doe = u64 (i64 (z - i64 (era * 146097)));
         yoe = u64 (u64 (u64 (doe - doe div 1460) + doe div 36524) - doe div 146096) div 365;
         y = i64 (i64 yoe + i64 (era * 400));
         doy = u64 (doe - u64 (u64 (u64 (365 * yoe) + yoe div 4) - yoe div 100));
         mp = u64 (u64 (5 * doy) + 2) div 153;
         d = u32 (u64 (u64 (doy - u64 (u64 (153 * mp) + 2) div 5) + 1));
         m = (if mp < 10 then u32 (u64 (mp + 3)) else u32 (u64 (mp - 9)))
     in (i64 (y + (if m \<le> 2 then 1 else 0)), m, d))"

definition value_to_days :: "int \<Rightarrow> time_type \<Rightarrow> int" where
  "value_to_days v tt = (case tt of TT_Date32 \<Rightarrow> v | TT_TimestampUs \<Rightarrow> v div US_PER_DAY)"

definition days_to_value :: "int \<Rightarrow> time_type \<Rightarrow> int" where
  "days_to_value days tt =
    (case tt of TT_Date32 \<Rightarrow> days | TT_TimestampUs \<Rightarrow> i64 (days * US_PER_DAY))"

definition partition_name :: "partition_scheme \<Rightarrow> int \<Rightarrow> time_type \<Rightarrow> string" where
  "partition_name scheme v tt =
    (case civil_from_days (value_to_days v tt) of (y, m, d) \<Rightarrow>
      (case scheme of
        PS_None \<Rightarrow> []
      | PS_Year \<Rightarrow> ''year='' @ fmt_int 0 y
      | PS_Month \<Rightarrow> ''month='' @ fmt_int 4 y @ ''-'' @ fmt_int 2 m
      | PS_Date \<Rightarrow> ''date='' @ fmt_int 4 y @ ''-'' @ fmt_int 2 m @ ''-'' @ fmt_int 2 d))"

definition year_bounds :: "string \<Rightarrow> (int \<times> int) option" where
  "year_bounds v =
    (case parse_i64 v of
      None \<Rightarrow> None
    | Some y \<Rightarrow> Some (days_from_civil y 1 1, days_from_civil (i64 (y + 1)) 1 1))"

definition month_bounds :: "string \<Rightarrow> (int \<times> int) option" where
  "month_bounds v =
    (case split_once (CHR ''-'') v of
      None \<Rightarrow> None
    | Some (ys, ms) \<Rightarrow>
        (case (parse_i64 ys, parse_u32 ms) of
          (Some y, Some m) \<Rightarrow>
            let (ny, nm) = (if m = 12 then (i64 (y + 1), 1) else (y, u32 (m + 1)))
            in Some (days_from_civil y m 1, days_from_civil ny nm 1)
        | _ \<Rightarrow> None))"

definition date_bounds :: "string \<Rightarrow> (int \<times> int) option" where
  "date_bounds v =
    (case split_on (CHR ''-'') v of
      ys # ms # ds # _ \<Rightarrow>
        (case (parse_i64 ys, parse_u32 ms, parse_u32 ds) of
          (Some y, Some m, Some d) \<Rightarrow>
            Some (days_from_civil y m d, i64 (days_from_civil y m d + 1))
        | _ \<Rightarrow> None)
    | _ \<Rightarrow> None)"

definition partition_range :: "partition_scheme \<Rightarrow> string \<Rightarrow> time_type \<Rightarrow> (int \<times> int) option" where
  "partition_range scheme name tt =
    (case split_once (CHR ''='') name of
      None \<Rightarrow> None
    | Some (prefix, v) \<Rightarrow>
        map_option (\<lambda>(lo, hi). (days_to_value lo tt, days_to_value hi tt))
          (if scheme = PS_Year \<and> prefix = ''year'' then year_bounds v
           else if scheme = PS_Month \<and> prefix = ''month'' then month_bounds v
           else if scheme = PS_Date \<and> prefix = ''date'' then date_bounds v
           else None))"

subsection \<open>The calendar\<close>

text \<open>
  The number of days before 1 March of year \<open>y\<close>, counted from 1 March of year 0: the
  Gregorian rule with one leap day every 4 years, none every 100, one every 400.
\<close>

definition march_days :: "int \<Rightarrow> int" where
  "march_days y = 365 * y + y div 4 - y div 100 + y div 400"

definition year_days :: "int \<Rightarrow> int" where
  "year_days k = 365 * k + k div 4 - k div 100"

lemma floor_div:
  assumes "0 < b"
  shows "(if (z :: int) \<ge> 0 then z else z - (b - 1)) sdiv b = z div b"
proof (cases "z \<ge> 0")
  case True
  then show ?thesis using assms by (simp add: signed_divide_int_def sgn_if zero_less_mult_iff)
next
  case False
  have "- ((b - 1 - z) div b) = z div b"
  proof -
    let ?q = "z div b" and ?r = "z mod b"
    have z: "z = b * ?q + ?r" by simp
    have r: "0 \<le> ?r" "?r < b" using assms by auto
    have "b - 1 - z = (b - 1 - ?r) + b * (- ?q)" using z by (simp add: algebra_simps)
    then have "(b - 1 - z) div b = (b - 1 - ?r) div b + (- ?q)"
      using assms by (simp only: div_mult_self2)
    also have "(b - 1 - ?r) div b = 0" using r by simp
    finally show ?thesis by simp
  qed
  moreover have "z - (b - 1) < 0" using False assms by simp
  ultimately show ?thesis using False assms by (simp add: signed_divide_int_def sgn_if abs_if)
qed

lemma march_days_split: "march_days y = (y div 400) * 146097 + year_days (y mod 400)"
proof -
  let ?q = "y div 400" and ?r = "y mod 400"
  have y: "y = ?r + 400 * ?q" by simp
  have "y div 4 = (?r + (100 * ?q) * 4) div 4" "y div 100 = (?r + (4 * ?q) * 100) div 100"
    by simp_all
  then have "y div 4 = ?r div 4 + 100 * ?q" "y div 100 = ?r div 100 + 4 * ?q"
    by (simp_all only: div_mult_self1 zero_neq_numeral not_False_eq_True)
  then have "march_days y = 365 * y + (?r div 4 + 100 * ?q) - (?r div 100 + 4 * ?q) + ?q"
    by (simp only: march_days_def)
  also have "\<dots> = ?q * 146097 + (365 * ?r + ?r div 4 - ?r div 100)"
    using y by linarith
  finally show ?thesis by (simp only: year_days_def)
qed

lemma year_days_bounds:
  assumes "0 \<le> r" "r < 400"
  shows "0 \<le> year_days r" "year_days r \<le> 146000"
proof -
  have "100 * (r div 100) \<le> r" "4 * (r div 4) \<le> r" "0 \<le> r div 100" "0 \<le> r div 4"
    using assms(1) by (auto simp: pos_imp_zdiv_nonneg_iff)
  then show "0 \<le> year_days r" "year_days r \<le> 146000" using assms unfolding year_days_def by linarith+
qed

text \<open>\<open>days_from_civil\<close> counts days; the wrap-around is absent on the supported range.\<close>

lemma days_from_civil_eq:
  assumes "\<bar>y\<bar> \<le> 2 ^ 50" "1 \<le> m" "m \<le> 12" "1 \<le> d" "d \<le> 31"
  shows "days_from_civil y m d =
    march_days (y - (if m \<le> 2 then 1 else 0)) +
    (153 * (if m > 2 then m - 3 else m + 9) + 2) div 5 + d - 1 - 719468"
proof -
  define x where "x = y - (if m \<le> 2 then 1 else 0)"
  define mp where "mp = (if m > 2 then m - 3 else m + 9)"
  have x: "- 1125899906842625 \<le> x" "x \<le> 1125899906842624" using assms(1) by (auto simp: x_def)
  have mp: "0 \<le> mp" "mp \<le> 11" using assms by (auto simp: mp_def)
  have mpw: "(if m > 2 then u32 (m - 3) else u32 (m + 9)) = mp" using assms by (simp add: mp_def)
  have era: "(if x \<ge> 0 then x else i64 (x - 399)) sdiv 400 = x div 400"
    using floor_div[of 400 x] x by (simp split: if_splits)
  have yoe: "x - x div 400 * 400 = x mod 400" by (simp add: minus_div_mult_eq_mod)
  define doy where "doy = (153 * mp + 2) div 5 + d - 1"
  have doy: "0 \<le> doy" "doy \<le> 400" unfolding doy_def using mp assms(4,5) by auto
  define r where "r = x mod 400"
  define q where "q = x div 400"
  have r: "0 \<le> r" "r < 400" by (simp_all add: r_def)
  have q: "- 2814749767107 \<le> q" "q \<le> 2814749767107" using x by (auto simp: q_def)
  have yd: "0 \<le> year_days r" "year_days r \<le> 146097" using year_days_bounds[OF r] by auto
  have yd0: "0 \<le> 365 * r + r div 4" "365 * r + r div 4 \<le> 146200" using r by auto
  have dd: "u64 (u64 ((153 * mp + 2) div 5 + d) - 1) = doy"
    using doy mp assms(4) unfolding doy_def by (simp add: u64_def)
  have doe: "u64 (u64 (u64 (u64 (r * 365) + r div 4) - r div 100) + doy) = year_days r + doy"
  proof -
    have "u64 (r * 365) = 365 * r" using r by simp
    moreover have "u64 (365 * r + r div 4) = 365 * r + r div 4" using yd0 by simp
    moreover have "u64 (365 * r + r div 4 - r div 100) = year_days r" using yd by (simp add: year_days_def)
    moreover have "u64 (year_days r + doy) = year_days r + doy" using yd doy by simp
    ultimately show ?thesis by simp
  qed
  have "days_from_civil y m d = i64 (i64 (i64 (q * 146097) + i64 (year_days r + doy)) - 719468)"
  proof -
    have "i64 (y - (if m \<le> 2 then 1 else 0)) = x" using x by (simp add: x_def[symmetric])
    moreover have "u64 (i64 (x - i64 (q * 400))) = r"
    proof -
      have "i64 (q * 400) = q * 400" using q by simp
      moreover have "x - q * 400 = r" using yoe by (simp add: q_def r_def)
      ultimately show ?thesis using r by simp
    qed
    ultimately show ?thesis
      unfolding days_from_civil_def Let_def mpw by (simp only: era q_def[symmetric] dd doe)
  qed
  also have "\<dots> = q * 146097 + (year_days r + doy) - 719468" using q yd doy by simp
  finally show ?thesis
    unfolding x_def[symmetric] mp_def[symmetric] march_days_split by (simp add: doy_def q_def r_def)
qed

text \<open>
  The year of an era's day: \<open>yoe\<close> steps at exactly the days \<open>year_start\<close>, which
  is checked at both ends of each of the 400 years; in between, the dividend is monotone.
\<close>

definition year_start :: "int \<Rightarrow> int" where
  "year_start k = 365 * k + k div 4 - k div 100 + k div 400"

definition doe_mono :: "int \<Rightarrow> int" where
  "doe_mono n = n - n div 1460 + n div 36524 - n div 146096"

lemma div_step:
  assumes "0 < (b :: int)"
  shows "(n + 1) div b = n div b + (if b dvd n + 1 then 1 else 0)"
proof -
  have n: "n = b * (n div b) + n mod b" "0 \<le> n mod b" "n mod b < b" using assms by auto
  show ?thesis
  proof (cases "n mod b = b - 1")
    case True
    then have e: "n + 1 = b * (n div b + 1)" using n(1) by (simp add: distrib_left)
    then have "b dvd n + 1" by simp
    moreover have "(n + 1) div b = n div b + 1" by (subst e) (use assms in simp)
    ultimately show ?thesis by simp
  next
    case False
    then have r: "0 \<le> n mod b + 1" "n mod b + 1 < b" using n by linarith+
    have e: "n + 1 = b * (n div b) + (n mod b + 1)" using n(1) by linarith
    have d: "(n + 1) div b = n div b" using r by (intro int_div_pos_eq[OF e]) auto
    have "(n + 1) mod b = n mod b + 1" using r by (intro int_mod_pos_eq[OF e]) auto
    then have "\<not> b dvd n + 1" using n(2) by (auto simp: dvd_eq_mod_eq_0)
    then show ?thesis using d by simp
  qed
qed

lemma doe_mono_Suc: "doe_mono n \<le> doe_mono (n + 1)"
proof -
  have "(146096 :: int) dvd n + 1 \<Longrightarrow> 36524 dvd n + 1"
    by (rule dvd_trans[of _ 146096]) simp_all
  then show ?thesis
    unfolding doe_mono_def by (simp add: div_step)
qed

lemma doe_mono_le: "m \<le> n \<Longrightarrow> doe_mono m \<le> doe_mono n"
  by (induction n rule: int_ge_induct) (use doe_mono_Suc order_trans in blast)+

definition year_ok :: "int \<Rightarrow> bool" where
  "year_ok k \<longleftrightarrow>
     doe_mono (year_start k) div 365 = k \<and> doe_mono (year_start (k + 1) - 1) div 365 = k"

lemma years_ok: "list_all year_ok [0..399]"
  by code_simp

lemma year_start_days: "0 \<le> k \<Longrightarrow> k < 400 \<Longrightarrow> year_start k = year_days k"
  by (simp add: year_start_def year_days_def)

lemma year_start_mono: "0 \<le> k \<Longrightarrow> year_start k < year_start (k + 1)"
  by (simp add: year_start_def div_step)

lemma find_year:
  assumes "0 \<le> n" "n < year_start (int K)"
  shows "\<exists>k. 0 \<le> k \<and> k < int K \<and> year_start k \<le> n \<and> n < year_start (k + 1)"
  using assms(2)
proof (induction K)
  case 0
  then show ?case using assms(1) by (simp add: year_start_def)
next
  case (Suc K)
  show ?case
  proof (cases "n < year_start (int K)")
    case True
    then show ?thesis using Suc.IH by force
  next
    case False
    then show ?thesis using Suc.prems by (intro exI[of _ "int K"]) (simp add: add.commute)
  qed
qed

text \<open>The year and the day of the year of a day of the era.\<close>

lemma year_of_era:
  assumes "0 \<le> n" "n < 146097"
  defines "k \<equiv> doe_mono n div 365"
  shows "0 \<le> k" "k < 400" "year_days k \<le> n" "n < year_start (k + 1)"
proof -
  have "year_start (int 400) = 146097" by (simp add: year_start_def)
  then obtain j where j: "0 \<le> j" "j < 400" "year_start j \<le> n" "n < year_start (j + 1)"
    using find_year[of n 400] assms by auto
  have ok: "year_ok j" using years_ok j by (simp add: list_all_iff)
  have "doe_mono (year_start j) \<le> doe_mono n" "doe_mono n \<le> doe_mono (year_start (j + 1) - 1)"
    using j by (auto intro: doe_mono_le)
  then have "doe_mono (year_start j) div 365 \<le> k" "k \<le> doe_mono (year_start (j + 1) - 1) div 365"
    by (simp_all add: k_def zdiv_mono1)
  then have "k = j" using ok by (simp add: year_ok_def)
  then show "0 \<le> k" "k < 400" "year_days k \<le> n" "n < year_start (k + 1)"
    using j by (simp_all add: year_start_days)
qed

text \<open>The month index and the day within a month of a day of the year.\<close>

lemma month_of_year:
  fixes n :: int
  assumes "0 \<le> n" "n \<le> 365"
  defines "mp \<equiv> (5 * n + 2) div 153"
  shows "0 \<le> mp" "mp \<le> 11" "(153 * mp + 2) div 5 \<le> n" "n < (153 * (mp + 1) + 2) div 5"
    "n - (153 * mp + 2) div 5 \<le> 30" "n < 306 \<longleftrightarrow> mp < 10"
proof -
  have m: "153 * mp \<le> 5 * n + 2" "5 * n + 2 < 153 * mp + 153"
    by (auto simp: mp_def)
  define a where "a = (153 * mp + 2) div 5"
  define b where "b = (153 * (mp + 1) + 2) div 5"
  have a: "5 * a \<le> 153 * mp + 2" "153 * mp + 2 < 5 * a + 5" by (auto simp: a_def)
  have b: "5 * b \<le> 153 * mp + 155" "153 * mp + 155 < 5 * b + 5" by (auto simp: b_def)
  show "0 \<le> mp" "mp \<le> 11" using m assms(1,2) by linarith+
  show "(153 * mp + 2) div 5 \<le> n" "n < (153 * (mp + 1) + 2) div 5"
    "n - (153 * mp + 2) div 5 \<le> 30"
    using a b m unfolding a_def[symmetric] b_def[symmetric] by linarith+
  show "n < 306 \<longleftrightarrow> mp < 10" using m by linarith
qed

lemma march_days_era: "march_days (k + e * 400) = e * 146097 + year_start k"
proof -
  have "(k + e * 400) div 4 = (k + (e * 100) * 4) div 4" "(k + e * 400) div 100 = (k + (e * 4) * 100) div 100"
    by simp_all
  then have "(k + e * 400) div 4 = e * 100 + k div 4" "(k + e * 400) div 100 = e * 4 + k div 100"
    "(k + e * 400) div 400 = e + k div 400"
    by (simp_all only: div_mult_self1 zero_neq_numeral not_False_eq_True)
  then show ?thesis by (simp add: march_days_def year_start_def)
qed

text \<open>
  A supported day is split into a year counted from March, a month counted from March and a
  day of the month, each in its bounds, and \<open>civil_from_days\<close> returns their civil
  names.
\<close>

lemma civil_from_days_cases:
  assumes "\<bar>days\<bar> \<le> 2 ^ 58"
  obtains Y mp d where
    "0 \<le> mp" "mp \<le> 11" "1 \<le> d" "d \<le> 31" "\<bar>Y\<bar> \<le> 2 ^ 50 - 8"
    "days + 719468 = march_days Y + (153 * mp + 2) div 5 + (d - 1)"
    "days + 719468 < march_days (Y + 1)"
    "(153 * mp + 2) div 5 + (d - 1) < (153 * (mp + 1) + 2) div 5"
    "(153 * mp + 2) div 5 + (d - 1) < 306 \<longleftrightarrow> mp < 10"
    "civil_from_days days = (Y + (if mp < 10 then 0 else 1), (if mp < 10 then mp + 3 else mp - 9), d)"
proof -
  define z where "z = days + 719468"
  define e where "e = z div 146097"
  define n where "n = z mod 146097"
  define k where "k = doe_mono n div 365"
  define doy where "doy = n - year_days k"
  define mp where "mp = (5 * doy + 2) div 153"
  define d where "d = doy - (153 * mp + 2) div 5 + 1"
  define Y where "Y = k + e * 400"
  have z: "- 288230376151711744 + 719468 \<le> z" "z \<le> 288230376151711744 + 719468"
    using assms by (auto simp: z_def)
  have zn: "z = e * 146097 + n" by (simp add: e_def n_def)
  have n: "0 \<le> n" "n < 146097" by (simp_all add: n_def)
  have e: "- 1972870002990 \<le> e" "e \<le> 1972870002990" using zn n z by linarith+
  note yk = year_of_era[OF n, folded k_def]
  have step: "year_start (k + 1) \<le> year_days k + 366"
  proof -
    have "\<not> (4 dvd k + 1) \<Longrightarrow> \<not> (400 dvd k + 1)" using dvd_trans[of 4 400 "k + 1"] by auto
    moreover have "\<not> (100 dvd k + 1) \<Longrightarrow> \<not> (400 dvd k + 1)" using dvd_trans[of 100 400 "k + 1"] by auto
    ultimately show ?thesis
      using yk(1,2) by (auto simp: year_start_days[symmetric] year_start_def div_step)
  qed
  have doy: "0 \<le> doy" "doy \<le> 365" using yk step by (simp_all add: doy_def)
  note mo = month_of_year[OF doy, folded mp_def]
  have yd: "0 \<le> year_days k" "year_days k \<le> 146000" using year_days_bounds[OF yk(1,2)] by auto
  have m: "doy = (153 * mp + 2) div 5 + (d - 1)" by (simp add: d_def)
  have d: "1 \<le> d" "d \<le> 31" using mo by (simp_all add: d_def)
  have civil: "civil_from_days days = (Y + (if mp < 10 then 0 else 1), (if mp < 10 then mp + 3 else mp - 9), d)"
  proof -
    have e1: "i64 (days + 719468) = z" using z by (simp add: z_def[symmetric])
    have e2: "(if z \<ge> 0 then z else i64 (z - 146096)) sdiv 146097 = e"
      using floor_div[of 146097 z] z by (simp add: e_def split: if_splits)
    have e3: "u64 (i64 (z - i64 (e * 146097))) = n" using e n zn by simp
    have b: "n div 1460 \<le> n" "0 \<le> n div 36524" "0 \<le> n div 1460" "n div 36524 \<le> 4" "0 \<le> n div 146096"
        "n div 146096 \<le> 1"
      using n by auto
    have dm: "0 \<le> doe_mono n"
      using doe_mono_le[OF n(1)] by (simp add: doe_mono_def)
    have e4: "u64 (u64 (u64 (n - n div 1460) + n div 36524) - n div 146096) div 365 = k"
    proof -
      have "u64 (n - n div 1460) = n - n div 1460" using b n by simp
      moreover have "u64 (n - n div 1460 + n div 36524) = n - n div 1460 + n div 36524" using b n by simp
      moreover have "u64 (n - n div 1460 + n div 36524 - n div 146096) = doe_mono n"
        using dm b n by (simp add: doe_mono_def)
      ultimately show ?thesis by (simp add: k_def)
    qed
    have e5: "i64 (i64 k + i64 (e * 400)) = Y" using yk e by (simp add: Y_def)
    have e6: "u64 (n - u64 (u64 (u64 (365 * k) + k div 4) - k div 100)) = doy"
    proof -
      have "0 \<le> k div 4" "k div 4 \<le> 100" using yk by auto
      then have "u64 (365 * k) = 365 * k" "u64 (365 * k + k div 4) = 365 * k + k div 4"
        using yk by simp_all
      moreover have "u64 (365 * k + k div 4 - k div 100) = year_days k" using yd by (simp add: year_days_def)
      ultimately show ?thesis using doy by (simp add: doy_def)
    qed
    have e7: "u64 (u64 (5 * doy) + 2) div 153 = mp" using doy by (simp add: mp_def)
    have e8: "u32 (u64 (u64 (doy - u64 (u64 (153 * mp) + 2) div 5) + 1)) = d"
      using mo d by (simp add: d_def)
    have e9: "(if mp < 10 then u32 (u64 (mp + 3)) else u32 (u64 (mp - 9))) = (if mp < 10 then mp + 3 else mp - 9)"
      using mo by simp
    have e10: "i64 (Y + (if (if mp < 10 then mp + 3 else mp - 9) \<le> 2 then 1 else 0)) = Y + (if mp < 10 then 0 else 1)"
      using mo e yk by (auto simp: Y_def)
    show ?thesis
      unfolding civil_from_days_def Let_def e1 e2 e3 e4 e5 e6 e7 e8 e9 e10 ..
  qed
  have Y: "march_days Y = e * 146097 + year_days k" "march_days (Y + 1) = e * 146097 + year_start (k + 1)"
    using march_days_era[of k e] march_days_era[of "k + 1" e] yk by (simp_all add: Y_def year_start_days ac_simps)
  show thesis
  proof (rule that)
    show "days + 719468 = march_days Y + (153 * mp + 2) div 5 + (d - 1)"
      using zn m Y(1) by (simp add: z_def doy_def)
    show "days + 719468 < march_days (Y + 1)" using zn yk(4) Y(2) by (simp add: z_def)
    show "\<bar>Y\<bar> \<le> 2 ^ 50 - 8" using e yk by (auto simp: Y_def abs_le_iff)
    show "(153 * mp + 2) div 5 + (d - 1) < (153 * (mp + 1) + 2) div 5" using mo(4) m by simp
    show "(153 * mp + 2) div 5 + (d - 1) < 306 \<longleftrightarrow> mp < 10" using mo(6) m by simp
  qed (use mo d civil in auto)
qed

lemma civil_back:
  assumes "\<bar>days\<bar> \<le> 2 ^ 58" "civil_from_days days = (y, m, d)"
  shows "1 \<le> m \<and> m \<le> 12 \<and> 1 \<le> d \<and> d \<le> 31 \<and> \<bar>y\<bar> \<le> 2 ^ 50 - 7 \<and> days_from_civil y m d = days"
proof (rule civil_from_days_cases[OF assms(1)])
  fix Y mp d'
  assume mp: "0 \<le> mp" "mp \<le> 11" and d: "1 \<le> d'" "d' \<le> 31" and Y: "\<bar>Y\<bar> \<le> 2 ^ 50 - 8"
    and dd: "days + 719468 = march_days Y + (153 * mp + 2) div 5 + (d' - 1)"
    and c: "civil_from_days days = (Y + (if mp < 10 then 0 else 1), (if mp < 10 then mp + 3 else mp - 9), d')"
  have yd: "y = Y + (if mp < 10 then 0 else 1)" "m = (if mp < 10 then mp + 3 else mp - 9)" "d = d'"
    using assms(2) c by simp_all
  have m: "1 \<le> m" "m \<le> 12" using mp by (auto simp: yd(2))
  have mp': "(if m > 2 then m - 3 else m + 9) = mp" "y - (if m \<le> 2 then 1 else 0) = Y"
    using mp by (auto simp: yd)
  have y: "\<bar>y\<bar> \<le> 2 ^ 50 - 7" using Y by (simp add: yd(1) abs_le_iff)
  then have "\<bar>y\<bar> \<le> 2 ^ 50" by simp
  then show ?thesis
    using days_from_civil_eq[of y m d, unfolded mp'] m d y dd by (simp add: yd(3))
qed

subsection \<open>Correctness of the conversion\<close>

definition leap :: "int \<Rightarrow> bool" where
  "leap y \<longleftrightarrow> 4 dvd y \<and> (100 dvd y \<longrightarrow> 400 dvd y)"

definition month_days :: "int \<Rightarrow> int \<Rightarrow> int" where
  "month_days y m =
    (if m = 2 then (if leap y then 29 else 28) else if m \<in> {4, 6, 9, 11} then 30 else 31)"

definition valid_date :: "int \<Rightarrow> int \<Rightarrow> int \<Rightarrow> bool" where
  "valid_date y m d \<longleftrightarrow> 1 \<le> m \<and> m \<le> 12 \<and> 1 \<le> d \<and> d \<le> month_days y m"

lemma march_days_step: "march_days (y + 1) = march_days y + (if leap (y + 1) then 366 else 365)"
proof -
  have "\<not> (4 dvd y + 1) \<Longrightarrow> \<not> (100 dvd y + 1)" "\<not> (100 dvd y + 1) \<Longrightarrow> \<not> (400 dvd y + 1)"
    using dvd_trans[of 4 100 "y + 1"] dvd_trans[of 100 400 "y + 1"] by auto
  then show ?thesis unfolding march_days_def leap_def by (auto simp: div_step)
qed

lemma march_days_mono: "x \<le> y \<Longrightarrow> march_days x \<le> march_days y"
  by (induction y rule: int_ge_induct) (auto simp: march_days_step)

lemma march_days_unique:
  assumes "march_days x \<le> n" "n < march_days (x + 1)" "march_days y \<le> n" "n < march_days (y + 1)"
  shows "x = y"
proof (rule ccontr)
  assume "x \<noteq> y"
  then consider "x + 1 \<le> y" | "y + 1 \<le> x" by linarith
  then show False using march_days_mono[of "x + 1" y] march_days_mono[of "y + 1" x] assms by cases auto
qed

lemma month_unique:
  fixes x y :: int
  assumes "(153 * x + 2) div 5 \<le> n" "n < (153 * (x + 1) + 2) div 5"
    "(153 * y + 2) div 5 \<le> n" "n < (153 * (y + 1) + 2) div 5"
  shows "x = y"
proof (rule ccontr)
  assume "x \<noteq> y"
  then consider "x + 1 \<le> y" | "y + 1 \<le> x" by linarith
  then show False
  proof cases
    case 1
    then have "(153 * (x + 1) + 2) div 5 \<le> (153 * y + 2) div 5" by (intro zdiv_mono1) auto
    then show ?thesis using assms by simp
  next
    case 2
    then have "(153 * (y + 1) + 2) div 5 \<le> (153 * x + 2) div 5" by (intro zdiv_mono1) auto
    then show ?thesis using assms by simp
  qed
qed

lemma month_cases:
  fixes m :: int
  assumes "1 \<le> m" "m \<le> 12"
  obtains "m = 1" | "m = 2" | "m = 3" | "m = 4" | "m = 5" | "m = 6" | "m = 7" | "m = 8" | "m = 9"
    | "m = 10" | "m = 11" | "m = 12"
proof -
  have "m \<in> set [1..12]" using assms by simp
  also have "[1..12] = [1, 2, 3, 4, 5, 6, 7, 8, 9, 10, 11, 12 :: int]" by code_simp
  finally show thesis using that by auto
qed

text \<open>A valid date lies within its month and its year, both counted from March.\<close>

lemma valid_date_bounds:
  assumes "valid_date y m d"
  defines "mp \<equiv> (if m > 2 then m - 3 else m + 9)" and "Y \<equiv> y - (if m \<le> 2 then 1 else 0)"
  shows "(153 * mp + 2) div 5 + (d - 1) < (153 * (mp + 1) + 2) div 5"
    "march_days Y + (153 * mp + 2) div 5 + (d - 1) < march_days (Y + 1)"
    "0 \<le> mp" "mp \<le> 11" "1 \<le> d" "d \<le> 31"
proof -
  have v: "1 \<le> m" "m \<le> 12" "1 \<le> d" "d \<le> month_days y m" using assms(1) by (auto simp: valid_date_def)
  show "(153 * mp + 2) div 5 + (d - 1) < (153 * (mp + 1) + 2) div 5"
    using v(3,4) by (cases rule: month_cases[OF v(1,2)]) (auto simp: mp_def month_days_def split: if_splits)
  show "march_days Y + (153 * mp + 2) div 5 + (d - 1) < march_days (Y + 1)"
    using v(3,4) march_days_step[of "y - 1"]
    by (cases rule: month_cases[OF v(1,2)]) (auto simp: mp_def Y_def month_days_def march_days_step split: if_splits)
  show "0 \<le> mp" "mp \<le> 11" using v(1,2) by (auto simp: mp_def)
  show "1 \<le> d" "d \<le> 31" using v(3,4) by (auto simp: month_days_def split: if_splits)
qed

lemma march_days_bound: "\<bar>y\<bar> \<le> 2 ^ 49 \<Longrightarrow> \<bar>march_days y\<bar> \<le> 2 ^ 58 - 1000000"
proof -
  assume y: "\<bar>y\<bar> \<le> 2 ^ 49"
  define a b c where "a = y div 4" and "b = y div 100" and "c = y div 400"
  have "4 * a \<le> y" "y < 4 * a + 4" "100 * b \<le> y" "y < 100 * b + 100" "400 * c \<le> y" "y < 400 * c + 400"
    by (auto simp: a_def b_def c_def)
  then show ?thesis
    using y unfolding march_days_def a_def[symmetric] b_def[symmetric] c_def[symmetric] by (simp add: abs_le_iff)
qed

lemma civil_forward:
  assumes "valid_date y m d" "\<bar>y\<bar> \<le> 2 ^ 48"
  shows "civil_from_days (days_from_civil y m d) = (y, m, d)"
proof -
  define mp where "mp = (if m > 2 then m - 3 else m + 9)"
  define Y where "Y = y - (if m \<le> 2 then 1 else 0)"
  define days where "days = days_from_civil y m d"
  note vb = valid_date_bounds[OF assms(1), folded mp_def Y_def]
  have m: "1 \<le> m" "m \<le> 12" using assms(1) by (auto simp: valid_date_def)
  have days: "days + 719468 = march_days Y + (153 * mp + 2) div 5 + (d - 1)"
    using days_from_civil_eq[of y m d, folded mp_def Y_def] assms(2) m vb by (simp add: days_def)
  have bound: "0 \<le> (153 * mp + 2) div 5" "(153 * mp + 2) div 5 \<le> 337"
    using zdiv_mono1[of "153 * mp + 2" 1687 5] vb(3,4) by (simp_all add: pos_imp_zdiv_nonneg_iff)
  have "\<bar>Y\<bar> \<le> 2 ^ 49" using assms(2) by (simp add: Y_def abs_le_iff)
  then have "\<bar>days\<bar> \<le> 2 ^ 58"
    using march_days_bound[of Y] days bound vb(5,6) by (simp add: abs_le_iff)
  then show ?thesis unfolding days_def[symmetric]
  proof (rule civil_from_days_cases)
    fix Y' mp' d'
    assume a: "0 \<le> mp'" "mp' \<le> 11" "1 \<le> d'" "d' \<le> 31"
      "days + 719468 = march_days Y' + (153 * mp' + 2) div 5 + (d' - 1)"
      "days + 719468 < march_days (Y' + 1)"
      "(153 * mp' + 2) div 5 + (d' - 1) < (153 * (mp' + 1) + 2) div 5"
      and c: "civil_from_days days = (Y' + (if mp' < 10 then 0 else 1), (if mp' < 10 then mp' + 3 else mp' - 9), d')"
    have "0 \<le> (153 * mp' + 2) div 5" using a(1) by (simp add: pos_imp_zdiv_nonneg_iff)
    then have Y': "Y' = Y"
      using march_days_unique[of Y' "days + 719468" Y] a vb days bound by simp
    have mp': "mp' = mp"
      using month_unique[of mp' "(153 * mp + 2) div 5 + (d - 1)" mp] a vb days Y' by simp
    then have "d' = d" using a days Y' by simp
    then show "civil_from_days days = (y, m, d)"
      using c Y' mp' m by (auto simp: Y_def mp_def)
  qed
qed

lemma valid_dateI:
  fixes y m d :: int
  assumes "1 \<le> m" "m \<le> 12" "1 \<le> d"
  defines "mp \<equiv> (if m > 2 then m - 3 else m + 9)" and "Y \<equiv> y - (if m \<le> 2 then 1 else 0)"
  assumes "(153 * mp + 2) div 5 + (d - 1) < (153 * (mp + 1) + 2) div 5"
    "march_days Y + (153 * mp + 2) div 5 + (d - 1) < march_days (Y + 1)"
  shows "valid_date y m d"
  using assms(6,7) assms(1-3) march_days_step[of "y - 1"] unfolding valid_date_def
  by (cases rule: month_cases[OF assms(1,2)]) (auto simp: mp_def Y_def month_days_def split: if_splits)

lemma civil_valid:
  assumes "\<bar>days\<bar> \<le> 2 ^ 58" "civil_from_days days = (y, m, d)"
  shows "valid_date y m d"
proof (rule civil_from_days_cases[OF assms(1)])
  fix Y mp d'
  assume mp: "0 \<le> mp" "mp \<le> 11" and d: "1 \<le> d'"
    and b: "days + 719468 = march_days Y + (153 * mp + 2) div 5 + (d' - 1)"
      "days + 719468 < march_days (Y + 1)"
      "(153 * mp + 2) div 5 + (d' - 1) < (153 * (mp + 1) + 2) div 5"
    and c: "civil_from_days days = (Y + (if mp < 10 then 0 else 1), (if mp < 10 then mp + 3 else mp - 9), d')"
  have yd: "y = Y + (if mp < 10 then 0 else 1)" "m = (if mp < 10 then mp + 3 else mp - 9)" "d = d'"
    using assms(2) c by simp_all
  have m: "1 \<le> m" "m \<le> 12" using mp by (auto simp: yd(2))
  have mp': "(if m > 2 then m - 3 else m + 9) = mp" "y - (if m \<le> 2 then 1 else 0) = Y"
    using mp by (auto simp: yd)
  show ?thesis using b m d by (intro valid_dateI) (auto simp: mp' yd(3))
qed

text \<open>The calendar conversion is a bijection between days and valid Gregorian dates: a day
  converts to a valid date and back to itself, and a valid date (with the Gregorian leap rule) converts to
  a day and back to itself, for every day and year far beyond what a timestamp can hold.\<close>

theorem civil_roundtrip:
  assumes "\<bar>days\<bar> \<le> 2 ^ 58" "valid_date y m d" "\<bar>y\<bar> \<le> 2 ^ 48"
  shows "(case civil_from_days days of (y', m', d') \<Rightarrow>
      valid_date y' m' d' \<and> days_from_civil y' m' d' = days) \<and>
    civil_from_days (days_from_civil y m d) = (y, m, d)"
  using civil_back[OF assms(1)] civil_valid[OF assms(1)] civil_forward[OF assms(2,3)]
  by (cases "civil_from_days days") auto

theorem civil_roundtrip_witness:
  "(case civil_from_days 20700 of (y', m', d') \<Rightarrow>
      valid_date y' m' d' \<and> days_from_civil y' m' d' = 20700) \<and>
    civil_from_days (days_from_civil 2000 2 29) = (2000, 2, 29)"
  by (rule civil_roundtrip) (simp_all add: valid_date_def month_days_def leap_def)

subsection \<open>Printing and parsing\<close>

lemma digit_of_digit_char [simp]: "d < 10 \<Longrightarrow> digit_of (digit_char d) = Some d"
  by (simp add: digit_of_def digit_char_def Let_def)

lemma parse_digits_append:
  "parse_digits acc (xs @ ys) =
    (case parse_digits acc xs of None \<Rightarrow> None | Some a \<Rightarrow> parse_digits a ys)"
  by (induction acc xs rule: parse_digits.induct) (auto split: option.splits)

lemma parse_digits_decimal: "parse_digits 0 (decimal n) = Some n"
proof (induction n rule: less_induct)
  case (less n)
  show ?case
  proof (cases "n < 10")
    case True
    then show ?thesis by (simp add: decimal.simps[of n])
  next
    case False
    then show ?thesis
      using less[of "n div 10"] by (simp add: decimal.simps[of n] parse_digits_append)
  qed
qed

lemma parse_digits_zeros: "parse_digits 0 (replicate k (CHR ''0'') @ s) = parse_digits 0 s"
  by (induction k) (simp_all add: digit_of_def Let_def)

lemma decimal_ne: "decimal n \<noteq> []"
  by (subst decimal.simps) simp

lemma parse_pad0: "parse_nat (pad0 w (decimal n)) = Some n"
  by (simp add: parse_nat_def pad0_def decimal_ne parse_digits_zeros parse_digits_decimal)

lemma digits_of_decimal: "c \<in> set (decimal n) \<Longrightarrow> \<exists>d. digit_of c = Some d"
proof (induction n rule: less_induct)
  case (less n)
  show ?case
  proof (cases "n < 10")
    case True
    then show ?thesis using less.prems by (simp add: decimal.simps[of n])
  next
    case False
    then show ?thesis
      using less.prems less.IH[of "n div 10"] by (auto simp: decimal.simps[of n])
  qed
qed

lemma digits_of_pad0: "c \<in> set (pad0 w (decimal n)) \<Longrightarrow> \<exists>d. digit_of c = Some d"
  by (auto simp: pad0_def digits_of_decimal) (simp add: digit_of_def Let_def)

lemma pad0_no_sign:
  "CHR ''-'' \<notin> set (pad0 w (decimal n))" "CHR ''+'' \<notin> set (pad0 w (decimal n))"
  using digits_of_pad0[of _ w n] by (fastforce simp: digit_of_def Let_def)+

lemma pad0_ne: "pad0 w (decimal n) \<noteq> []"
  by (simp add: pad0_def decimal_ne)

lemma parse_i64_fmt: "in_i64 x \<Longrightarrow> parse_i64 (fmt_int w x) = Some x"
proof -
  assume x: "in_i64 x"
  show ?thesis
  proof (cases "x < 0")
    case True
    then show ?thesis using x by (simp add: parse_i64_def fmt_int_def parse_pad0)
  next
    case False
    obtain c cs where c: "pad0 w (decimal (nat x)) = c # cs" using pad0_ne by (meson list.exhaust)
    have "c \<noteq> CHR ''-''" "c \<noteq> CHR ''+''" using pad0_no_sign[of w "nat x"] c by auto
    then show ?thesis using False x parse_pad0[of w "nat x"] by (simp add: parse_i64_def fmt_int_def c)
  qed
qed

lemma parse_u32_fmt: "0 \<le> x \<Longrightarrow> x < 2 ^ 32 \<Longrightarrow> parse_u32 (fmt_int w x) = Some x"
proof -
  assume x: "0 \<le> x" "x < 2 ^ 32"
  obtain c cs where c: "pad0 w (decimal (nat x)) = c # cs" using pad0_ne by (meson list.exhaust)
  have "c \<noteq> CHR ''+''" using pad0_no_sign[of w "nat x"] c by auto
  then show ?thesis using x parse_pad0[of w "nat x"] by (simp add: parse_u32_def fmt_int_def c)
qed

lemma fmt_no_minus: "0 \<le> x \<Longrightarrow> CHR ''-'' \<notin> set (fmt_int w x)"
  using pad0_no_sign(1) by (simp add: fmt_int_def)

lemma split_once_append: "d \<notin> set xs \<Longrightarrow> split_once d (xs @ d # ys) = Some (xs, ys)"
  by (induction xs) auto

lemma split_on_ne: "split_on d s \<noteq> []"
  by (induction s) (auto split: list.splits)

lemma split_on_append: "d \<notin> set xs \<Longrightarrow> split_on d (xs @ d # ys) = xs # split_on d ys"
  by (induction xs) auto

lemma split_on_single: "d \<notin> set xs \<Longrightarrow> split_on d xs = [xs]"
  by (induction xs) auto

subsection \<open>Partition bounds\<close>

definition supported :: "int \<Rightarrow> time_type \<Rightarrow> bool" where
  "supported v tt \<longleftrightarrow> \<bar>v\<bar> \<le> (case tt of TT_Date32 \<Rightarrow> 2 ^ 31 | TT_TimestampUs \<Rightarrow> 2 ^ 62)"

definition day_bounds :: "partition_scheme \<Rightarrow> int \<times> int \<times> int \<Rightarrow> int \<times> int" where
  "day_bounds scheme c = (case c of (y, m, d) \<Rightarrow>
    (case scheme of
      PS_Year \<Rightarrow> (days_from_civil y 1 1, days_from_civil (y + 1) 1 1)
    | PS_Month \<Rightarrow> (days_from_civil y m 1, days_from_civil y m 1 + month_days y m)
    | PS_Date \<Rightarrow> (days_from_civil y m d, days_from_civil y m d + 1)
    | PS_None \<Rightarrow> (0, 0)))"

lemma supported_days:
  assumes "supported v tt"
  shows "\<bar>value_to_days v tt\<bar> \<le> 2 ^ 31"
proof (cases tt)
  case TT_TimestampUs
  define q where "q = v div 86400000000"
  have "86400000000 * q \<le> v" "v < 86400000000 * q + 86400000000" by (auto simp: q_def)
  then have "\<bar>q\<bar> \<le> 2 ^ 31"
    using assms TT_TimestampUs by (simp add: supported_def abs_le_iff)
  then show ?thesis using TT_TimestampUs by (simp add: value_to_days_def US_PER_DAY_def q_def)
qed (use assms in \<open>simp add: supported_def value_to_days_def\<close>)

lemma year_of_small_day:
  assumes "\<bar>days\<bar> \<le> 2 ^ 31" "civil_from_days days = (y, m, d)"
  shows "\<bar>y\<bar> \<le> 2 ^ 24"
proof -
  have a: "\<bar>days\<bar> \<le> 2 ^ 58" using assms(1) by simp
  have v: "valid_date y m d" and b: "days_from_civil y m d = days" and y: "\<bar>y\<bar> \<le> 2 ^ 50"
    using civil_valid[OF a assms(2)] civil_back[OF a assms(2)] by auto
  define mp where "mp = (if m > 2 then m - 3 else m + 9)"
  define Y where "Y = y - (if m \<le> 2 then 1 else 0)"
  note vb = valid_date_bounds[OF v, folded mp_def Y_def]
  have e: "days + 719468 = march_days Y + (153 * mp + 2) div 5 + (d - 1)"
    using days_from_civil_eq[of y m d, folded mp_def Y_def] y v b vb by (auto simp: valid_date_def)
  have bound: "0 \<le> (153 * mp + 2) div 5" "(153 * mp + 2) div 5 \<le> 337"
    using zdiv_mono1[of "153 * mp + 2" 1687 5] vb(3,4) by (simp_all add: pos_imp_zdiv_nonneg_iff)
  define p q r where "p = Y div 4" and "q = Y div 100" and "r = Y div 400"
  have "4 * p \<le> Y" "Y < 4 * p + 4" "100 * q \<le> Y" "Y < 100 * q + 100" "400 * r \<le> Y" "Y < 400 * r + 400"
    by (auto simp: p_def q_def r_def)
  then have "\<bar>Y\<bar> \<le> 6000000"
    using e bound vb(5,6) assms(1) unfolding march_days_def p_def[symmetric] q_def[symmetric] r_def[symmetric]
    by (simp add: abs_le_iff)
  then show ?thesis by (simp add: Y_def abs_le_iff split: if_splits)
qed

lemma first_of_month:
  assumes "valid_date y m d" "\<bar>y\<bar> \<le> 2 ^ 49"
  shows "days_from_civil y m d = days_from_civil y m 1 + (d - 1)"
  using assms days_from_civil_eq[of y m d] days_from_civil_eq[of y m 1] valid_date_bounds[OF assms(1)]
  by (auto simp: valid_date_def)

lemma next_month:
  assumes "1 \<le> m" "m \<le> 12" "\<bar>y\<bar> \<le> 2 ^ 49"
  shows "(if m = 12 then days_from_civil (y + 1) 1 1 else days_from_civil y (m + 1) 1) =
    days_from_civil y m 1 + month_days y m"
  using assms(3) march_days_step[of "y - 1"]
  by (cases rule: month_cases[OF assms(1,2)])
     (simp_all add: days_from_civil_eq month_days_def abs_le_iff)

lemma year_start_day:
  assumes "\<bar>y\<bar> \<le> 2 ^ 49"
  shows "days_from_civil y 1 1 = march_days (y - 1) + 306 - 719468"
  using assms by (simp add: days_from_civil_eq)

lemma valid_first: "1 \<le> m \<Longrightarrow> m \<le> 12 \<Longrightarrow> 1 \<le> d \<Longrightarrow> d \<le> month_days y m \<Longrightarrow> valid_date y m d"
  by (simp add: valid_date_def)

lemma within_year:
  assumes a: "\<bar>days\<bar> \<le> 2 ^ 58" and "civil_from_days days = (y, m, d)"
  shows "march_days (y - 1) \<le> days + 719468 - 306" "days + 719468 - 306 < march_days y"
proof -
  have v: "valid_date y m d" and b: "days_from_civil y m d = days" and y: "\<bar>y\<bar> \<le> 2 ^ 50"
    using civil_valid[OF a assms(2)] civil_back[OF a assms(2)] by auto
  have m: "1 \<le> m" "m \<le> 12" "1 \<le> d" "d \<le> month_days y m" using v by (auto simp: valid_date_def)
  have e: "days + 719468 = march_days (y - (if m \<le> 2 then 1 else 0)) +
      (153 * (if m > 2 then m - 3 else m + 9) + 2) div 5 + d - 1"
    using days_from_civil_eq[of y m d] y m b valid_date_bounds(6)[OF v] by simp
  show "march_days (y - 1) \<le> days + 719468 - 306" "days + 719468 - 306 < march_days y"
    using e m(3,4) march_days_step[of "y - 1"]
    by (cases rule: month_cases[OF m(1,2)]; simp add: month_days_def split: if_splits)+
qed

lemma partition_range_name:
  assumes "supported v tt" "scheme \<noteq> PS_None"
    and c: "civil_from_days (value_to_days v tt) = (y, m, d)"
    and y: "scheme = PS_Year \<or> 0 \<le> y"
  shows "partition_range scheme (partition_name scheme v tt) tt =
    Some (case day_bounds scheme (y, m, d) of (lo, hi) \<Rightarrow> (days_to_value lo tt, days_to_value hi tt))"
proof -
  define days where "days = value_to_days v tt"
  have dl: "\<bar>days\<bar> \<le> 2 ^ 31" using supported_days[OF assms(1)] by (simp add: days_def)
  then have a: "\<bar>days\<bar> \<le> 2 ^ 58" by simp
  have c': "civil_from_days days = (y, m, d)" using c by (simp add: days_def)
  have yb: "\<bar>y\<bar> \<le> 2 ^ 24" using year_of_small_day[OF dl c'] .
  then have i: "in_i64 y" "i64 (y + 1) = y + 1" by (simp_all add: in_i64_def abs_le_iff)
  have v: "valid_date y m d" using civil_valid[OF a c'] .
  have m: "1 \<le> m" "m \<le> 12" "1 \<le> d" "d \<le> 31" using v valid_date_bounds(6)[OF v] by (auto simp: valid_date_def)
  have p: "parse_u32 (fmt_int w m) = Some m" "parse_u32 (fmt_int w d) = Some d" for w
    using m by (simp_all add: parse_u32_fmt)
  have nm: "CHR ''-'' \<notin> set (fmt_int w m)" "CHR ''-'' \<notin> set (fmt_int w d)" for w
    using m by (simp_all add: fmt_no_minus)
  show ?thesis
  proof (cases scheme)
    case PS_None then show ?thesis using assms(2) by simp
  next
    case PS_Year
    have "partition_name scheme v tt = ''year'' @ CHR ''='' # fmt_int 0 y"
      by (simp add: partition_name_def PS_Year c)
    then show ?thesis
      by (simp only: partition_range_def split_once_append)
         (simp add: split_once_append PS_Year year_bounds_def parse_i64_fmt i day_bounds_def)
  next
    case PS_Month
    then have y0: "0 \<le> y" using y by simp
    have n: "partition_name scheme v tt = ''month'' @ CHR ''='' # (fmt_int 4 y @ CHR ''-'' # fmt_int 2 m)"
      by (simp add: partition_name_def PS_Month c)
    have s: "split_once (CHR ''='') (''month'' @ CHR ''='' # r) = Some (''month'', r)" for r
      by (rule split_once_append) simp
    have "month_bounds (fmt_int 4 y @ CHR ''-'' # fmt_int 2 m) =
        Some (days_from_civil y m 1, days_from_civil y m 1 + month_days y m)"
      using next_month[OF m(1,2), of y] yb m
      by (simp add: month_bounds_def split_once_append fmt_no_minus y0 parse_i64_fmt i p split: if_splits)
    then show ?thesis
      unfolding partition_range_def n s by (simp add: PS_Month day_bounds_def)
  next
    case PS_Date
    then have y0: "0 \<le> y" using y by simp
    have n: "partition_name scheme v tt =
        ''date'' @ CHR ''='' # (fmt_int 4 y @ CHR ''-'' # (fmt_int 2 m @ CHR ''-'' # fmt_int 2 d))"
      by (simp add: partition_name_def PS_Date c)
    have s: "split_once (CHR ''='') (''date'' @ CHR ''='' # r) = Some (''date'', r)" for r
      by (rule split_once_append) simp
    have "days_from_civil y m d = days" using civil_back[OF a c'] by simp
    then have "date_bounds (fmt_int 4 y @ CHR ''-'' # (fmt_int 2 m @ CHR ''-'' # fmt_int 2 d)) =
        Some (days_from_civil y m d, days_from_civil y m d + 1)"
      using dl by (simp add: date_bounds_def split_on_append split_on_single fmt_no_minus y0 nm parse_i64_fmt i p abs_le_iff)
    then show ?thesis
      unfolding partition_range_def n s by (simp add: PS_Date day_bounds_def)
  qed
qed

text \<open>The days of a partition are exactly those whose date agrees with its name.\<close>

lemma day_bounds_contains:
  assumes "\<bar>days\<bar> \<le> 2 ^ 31" "civil_from_days days = (y, m, d)" "day_bounds scheme (y, m, d) = (lo, hi)"
    "scheme \<noteq> PS_None"
  shows "lo \<le> days \<and> days < hi"
proof -
  have a: "\<bar>days\<bar> \<le> 2 ^ 58" using assms(1) by auto
  have y: "\<bar>y\<bar> \<le> 2 ^ 24" using year_of_small_day[OF assms(1,2)] .
  have v: "valid_date y m d" and b: "days_from_civil y m d = days"
    using civil_valid[OF a assms(2)] civil_back[OF a assms(2)] by auto
  have m: "1 \<le> d" "d \<le> month_days y m" using v by (auto simp: valid_date_def)
  show ?thesis
  proof (cases scheme)
    case PS_Year
    have "\<bar>y\<bar> \<le> 2 ^ 49" "\<bar>y + 1\<bar> \<le> 2 ^ 49" using y by (simp_all add: abs_le_iff)
    then show ?thesis
      using within_year[OF a assms(2)] assms(3) PS_Year year_start_day[of y] year_start_day[of "y + 1"]
      by (auto simp: day_bounds_def)
  next
    case PS_Month
    then show ?thesis using first_of_month[OF v] y b m assms(3) by (auto simp: day_bounds_def)
  qed (use assms b in \<open>auto simp: day_bounds_def\<close>)
qed

definition same_name :: "partition_scheme \<Rightarrow> int \<times> int \<times> int \<Rightarrow> int \<times> int \<times> int \<Rightarrow> bool" where
  "same_name scheme a b = (case (a, b) of ((y, m, d), (y', m', d')) \<Rightarrow>
    (case scheme of
      PS_None \<Rightarrow> True
    | PS_Year \<Rightarrow> y = y'
    | PS_Month \<Rightarrow> y = y' \<and> m = m'
    | PS_Date \<Rightarrow> y = y' \<and> m = m' \<and> d = d'))"

lemma day_bounds_exact:
  assumes "\<bar>days\<bar> \<le> 2 ^ 31" "civil_from_days days = (y, m, d)" "day_bounds scheme (y, m, d) = (lo, hi)"
    and n: "lo \<le> n" "n < hi"
  shows "same_name scheme (civil_from_days n) (y, m, d)"
proof -
  have a: "\<bar>days\<bar> \<le> 2 ^ 58" using assms(1) by auto
  have y: "\<bar>y\<bar> \<le> 2 ^ 24" using year_of_small_day[OF assms(1,2)] .
  have v: "valid_date y m d" and b: "days_from_civil y m d = days"
    using civil_valid[OF a assms(2)] civil_back[OF a assms(2)] by auto
  have y': "\<bar>y\<bar> \<le> 2 ^ 49" "\<bar>y\<bar> \<le> 2 ^ 48" "\<bar>y + 1\<bar> \<le> 2 ^ 49" using y by (simp_all add: abs_le_iff)
  show ?thesis
  proof (cases scheme)
    case PS_Year
    have r: "march_days (y - 1) \<le> n + 719468 - 306" "n + 719468 - 306 < march_days y"
      using n assms(3) PS_Year year_start_day[OF y'(1)] year_start_day[OF y'(3)] by (simp_all add: day_bounds_def)
    have "\<bar>y - 1\<bar> \<le> 2 ^ 49" using y by (simp add: abs_le_iff)
    then have nb: "\<bar>n\<bar> \<le> 2 ^ 58"
      using r march_days_bound[OF y'(1)] march_days_bound[of "y - 1"] by (simp add: abs_le_iff)
    obtain y2 m2 d2 where c2: "civil_from_days n = (y2, m2, d2)" by (cases "civil_from_days n")
    have "y2 - 1 = y - 1"
      using march_days_unique[of "y2 - 1" _ "y - 1"] within_year[OF nb c2] r by simp
    then show ?thesis using PS_Year c2 by (simp add: same_name_def)
  next
    case PS_Month
    define k where "k = n - days_from_civil y m 1 + 1"
    have vk: "valid_date y m k" "1 \<le> k"
      using n assms(3) PS_Month v by (auto simp: day_bounds_def k_def valid_date_def)
    then have "days_from_civil y m k = n" using first_of_month[OF vk(1) y'(1)] by (simp add: k_def)
    then have "civil_from_days n = (y, m, k)" using civil_forward[OF vk(1) y'(2)] by simp
    then show ?thesis using PS_Month by (simp add: same_name_def)
  next
    case PS_Date
    then have "n = days" using n assms(3) b by (simp add: day_bounds_def)
    then show ?thesis using PS_Date assms(2) by (simp add: same_name_def)
  qed (simp add: same_name_def split: prod.splits)
qed

lemma days_to_value_bounds:
  assumes "tt = TT_Date32 \<or> \<bar>lo\<bar> \<le> 100000000 \<and> \<bar>hi\<bar> \<le> 100000000"
  shows "days_to_value lo tt \<le> w \<and> w < days_to_value hi tt \<longleftrightarrow>
    lo \<le> value_to_days w tt \<and> value_to_days w tt < hi"
proof (cases tt)
  case TT_TimestampUs
  define q where "q = w div 86400000000"
  have "86400000000 * q \<le> w" "w < 86400000000 * q + 86400000000" by (auto simp: q_def)
  then show ?thesis
    using assms TT_TimestampUs
    by (auto simp: days_to_value_def value_to_days_def US_PER_DAY_def q_def[symmetric] abs_le_iff)
qed (simp add: days_to_value_def value_to_days_def)

lemma timestamp_days:
  assumes "supported v TT_TimestampUs"
  shows "\<bar>value_to_days v TT_TimestampUs\<bar> \<le> 60000000"
proof -
  define q where "q = v div 86400000000"
  have "86400000000 * q \<le> v" "v < 86400000000 * q + 86400000000" by (auto simp: q_def)
  then show ?thesis
    using assms by (simp add: supported_def value_to_days_def US_PER_DAY_def q_def[symmetric] abs_le_iff)
qed

lemma day_bounds_near:
  assumes "\<bar>days\<bar> \<le> 2 ^ 31" "civil_from_days days = (y, m, d)" "day_bounds scheme (y, m, d) = (lo, hi)"
    "scheme \<noteq> PS_None"
  shows "days - 366 \<le> lo \<and> hi \<le> days + 366"
proof -
  have c: "lo \<le> days" "days < hi" using day_bounds_contains[OF assms] by auto
  have y: "\<bar>y\<bar> \<le> 2 ^ 24" using year_of_small_day[OF assms(1,2)] .
  then have y': "\<bar>y\<bar> \<le> 2 ^ 49" "\<bar>y + 1\<bar> \<le> 2 ^ 49" by (simp_all add: abs_le_iff)
  have "hi - lo \<le> 366"
    using assms(3,4) march_days_step[of "y - 1"] year_start_day[OF y'(1)] year_start_day[OF y'(2)]
    by (cases scheme) (auto simp: day_bounds_def month_days_def split: if_splits)
  then show ?thesis using c by linarith
qed

lemma same_name_eq:
  "same_name scheme (civil_from_days (value_to_days w tt)) (civil_from_days (value_to_days v tt)) \<Longrightarrow>
    partition_name scheme w tt = partition_name scheme v tt"
  by (auto simp: same_name_def partition_name_def split: prod.splits partition_scheme.splits)

text \<open>C18. The bounds read off a partition's directory name are those of the partition the name was
  made for: they contain the value, and every value within them is put in the same partition. Year
  partitions have this for every year, month and day partitions from year 0 on.\<close>

theorem partition_range_exact:
  assumes "scheme \<noteq> PS_None" "supported v tt"
    and "scheme = PS_Year \<or> 0 \<le> fst (civil_from_days (value_to_days v tt))"
  shows "\<exists>lo hi. partition_range scheme (partition_name scheme v tt) tt = Some (lo, hi) \<and>
    lo \<le> v \<and> v < hi \<and>
    (\<forall>w. lo \<le> w \<and> w < hi \<longrightarrow> partition_name scheme w tt = partition_name scheme v tt)"
proof -
  obtain y m d where c: "civil_from_days (value_to_days v tt) = (y, m, d)"
    by (cases "civil_from_days (value_to_days v tt)")
  obtain lo hi where b: "day_bounds scheme (y, m, d) = (lo, hi)" by fastforce
  have d: "\<bar>value_to_days v tt\<bar> \<le> 2 ^ 31" using supported_days[OF assms(2)] .
  have near: "tt = TT_Date32 \<or> \<bar>lo\<bar> \<le> 100000000 \<and> \<bar>hi\<bar> \<le> 100000000"
  proof (cases tt)
    case TT_TimestampUs
    then show ?thesis
      using day_bounds_near[OF d c b assms(1)] day_bounds_contains[OF d c b assms(1)] timestamp_days[of v] assms(2)
      by (auto simp: abs_le_iff)
  qed simp
  note iff = days_to_value_bounds[OF near]
  have "partition_range scheme (partition_name scheme v tt) tt = Some (days_to_value lo tt, days_to_value hi tt)"
    using partition_range_name[OF assms(2,1) c] assms(3) c b by simp
  moreover have "days_to_value lo tt \<le> v \<and> v < days_to_value hi tt"
    using iff[of v] day_bounds_contains[OF d c b assms(1)] by simp
  moreover have "partition_name scheme w tt = partition_name scheme v tt"
    if "days_to_value lo tt \<le> w \<and> w < days_to_value hi tt" for w
    using that iff[of w] day_bounds_exact[OF d c b] c by (intro same_name_eq) auto
  ultimately show ?thesis by blast
qed

theorem partition_range_exact_witness:
  "\<exists>lo hi. partition_range PS_Month (partition_name PS_Month 20700 TT_Date32) TT_Date32 = Some (lo, hi) \<and>
    lo \<le> 20700 \<and> 20700 < hi \<and>
    (\<forall>w. lo \<le> w \<and> w < hi \<longrightarrow>
      partition_name PS_Month w TT_Date32 = partition_name PS_Month 20700 TT_Date32)"
proof (rule partition_range_exact)
  have "civil_from_days 20700 = (2026, 9, 4)" by code_simp
  then show "PS_Month = PS_Year \<or> 0 \<le> fst (civil_from_days (value_to_days 20700 TT_Date32))"
    by (simp add: value_to_days_def)
qed (simp_all add: supported_def)

text \<open>The scheme read off a partition's name is the scheme the name was made with.\<close>

lemma scheme_of_name:
  assumes "scheme \<noteq> PS_None"
  shows "from_partition_name (partition_name scheme v tt) = Some scheme"
  using assms
  by (cases scheme) (auto simp: from_partition_name_def partition_name_def split: prod.splits list.splits)

text \<open>A month or day partition of a year before 0 has a name whose bounds cannot be read back:
  the year's sign is taken for the separator.\<close>

theorem negative_year_unreadable:
  assumes "civil_from_days (value_to_days v tt) = (y, m, d)" "y < 0" "scheme \<in> {PS_Month, PS_Date}"
  shows "partition_range scheme (partition_name scheme v tt) tt = None"
proof -
  have f: "fmt_int 4 y = CHR ''-'' # pad0 3 (decimal (nat (- y)))"
    using assms(2) by (simp add: fmt_int_def)
  have p: "month_bounds (CHR ''-'' # r) = None" "date_bounds (CHR ''-'' # r) = None" for r
    by (auto simp: month_bounds_def date_bounds_def parse_i64_def split: list.splits)
  show ?thesis
    using assms(1,3) by (auto simp: partition_name_def partition_range_def f p)
qed

theorem negative_year_unreadable_witness:
  "partition_range PS_Month (partition_name PS_Month (- 1000000) TT_Date32) TT_Date32 = None"
proof (rule negative_year_unreadable)
  show "civil_from_days (value_to_days (- 1000000) TT_Date32) = (-768, 2, 4)" by code_simp
qed simp_all

end
