(* ===== verification/File_System.thy ===== *)
theory File_System
  imports Meta_Handle
begin

text \<open>
  File operations of \<open>std::fs\<close> on the contents of files by path. An operation returns its outcome
  and the files after it, also when it fails, so that what a failed operation leaves behind is part
  of the model. Directories, permissions and device errors are not modelled: the only failures are a
  missing file and, for \<open>create_new\<close>, an existing one. \<open>sync_all\<close> and \<open>flush\<close> do not change
  contents.
\<close>

type_synonym 'a io = "files \<Rightarrow> (core_error, 'a) res \<times> files"

definition io_ret :: "'a \<Rightarrow> 'a io" where
  "io_ret x = (\<lambda>fs. (Ok x, fs))"

definition io_lift :: "(core_error, 'a) res \<Rightarrow> 'a io" where
  "io_lift r = (\<lambda>fs. (r, fs))"

definition io_bind :: "'a io \<Rightarrow> ('a \<Rightarrow> 'b io) \<Rightarrow> 'b io" where
  "io_bind m f = (\<lambda>fs. case m fs of
      (Ok x, fs') \<Rightarrow> f x fs'
    | (Err e, fs') \<Rightarrow> (Err e, fs')
    | (Panic, fs') \<Rightarrow> (Panic, fs'))"

fun io_each :: "('a \<Rightarrow> unit io) \<Rightarrow> 'a list \<Rightarrow> unit io" where
  "io_each f [] = io_ret ()"
| "io_each f (x # xs) = io_bind (f x) (\<lambda>_. io_each f xs)"

text \<open>A loop that carries local variables.\<close>

fun io_fold :: "('s \<Rightarrow> 'a \<Rightarrow> 's io) \<Rightarrow> 's \<Rightarrow> 'a list \<Rightarrow> 's io" where
  "io_fold f s [] = io_ret s"
| "io_fold f s (x # xs) = io_bind (f s x) (\<lambda>s'. io_fold f s' xs)"

subsection \<open>Files\<close>

definition io_exists :: "string \<Rightarrow> bool io" where
  "io_exists p = (\<lambda>fs. (Ok (fs p \<noteq> None), fs))"

definition io_read :: "string \<Rightarrow> bytes io" where
  "io_read p = (\<lambda>fs. (file_open fs p, fs))"

text \<open>\<open>read_exact\<close> of a prefix.\<close>

definition io_read_exact :: "string \<Rightarrow> nat \<Rightarrow> bytes io" where
  "io_read_exact p n = io_bind (io_read p) (\<lambda>bs.
     io_lift (if length bs < n then Err (EIo ''failed to fill whole buffer'') else Ok (take n bs)))"

definition io_create_new :: "string \<Rightarrow> unit io" where
  "io_create_new p = (\<lambda>fs. case fs p of
      None \<Rightarrow> (Ok (), fs(p \<mapsto> []))
    | Some _ \<Rightarrow> (Err (EIo ''file exists''), fs))"

text \<open>\<open>write(true).create(true).truncate(true)\<close>.\<close>

definition io_truncate :: "string \<Rightarrow> unit io" where
  "io_truncate p = (\<lambda>fs. (Ok (), fs(p \<mapsto> [])))"

text \<open>\<open>seek(Start(off)); write_all(bs)\<close>: a gap reads as zeros.\<close>

definition overwrite :: "nat \<Rightarrow> bytes \<Rightarrow> bytes \<Rightarrow> bytes" where
  "overwrite off bs old =
     (let padded = old @ replicate (off - length old) 0
      in take off padded @ bs @ drop (off + length bs) padded)"

definition io_pwrite :: "string \<Rightarrow> nat \<Rightarrow> bytes \<Rightarrow> unit io" where
  "io_pwrite p off bs = (\<lambda>fs. case fs p of
      None \<Rightarrow> (Err (NotFound p), fs)
    | Some old \<Rightarrow> (Ok (), fs(p \<mapsto> overwrite off bs old)))"

text \<open>\<open>write_all\<close> at the end of what has been written so far.\<close>

definition io_append :: "string \<Rightarrow> bytes \<Rightarrow> unit io" where
  "io_append p bs = (\<lambda>fs. case fs p of
      None \<Rightarrow> (Err (NotFound p), fs)
    | Some old \<Rightarrow> (Ok (), fs(p \<mapsto> old @ bs)))"

definition io_set_len :: "string \<Rightarrow> nat \<Rightarrow> unit io" where
  "io_set_len p n = (\<lambda>fs. case fs p of
      None \<Rightarrow> (Err (NotFound p), fs)
    | Some old \<Rightarrow> (Ok (), fs(p \<mapsto> take n old @ replicate (n - length old) 0)))"

definition io_remove :: "string \<Rightarrow> unit io" where
  "io_remove p = (\<lambda>fs. case fs p of
      None \<Rightarrow> (Err (NotFound p), fs)
    | Some _ \<Rightarrow> (Ok (), fs(p := None)))"

definition io_rename :: "string \<Rightarrow> string \<Rightarrow> unit io" where
  "io_rename a b = (\<lambda>fs. case fs a of
      None \<Rightarrow> (Err (NotFound a), fs)
    | Some c \<Rightarrow> (Ok (), (fs(a := None))(b \<mapsto> c)))"

text \<open>\<open>let _ = fs::remove_file(p)\<close>, and running cleanup when an operation returned an error.\<close>

definition io_try_remove :: "string \<Rightarrow> unit io" where
  "io_try_remove p = (\<lambda>fs. (Ok (), fs(p := None)))"

definition io_on_err :: "'a io \<Rightarrow> unit io \<Rightarrow> 'a io" where
  "io_on_err m cleanup = (\<lambda>fs. case m fs of
      (Err e, fs') \<Rightarrow> (Err e, snd (cleanup fs'))
    | r \<Rightarrow> r)"

text \<open>\<open>tmp_path\<close>: the sibling an atomic replacement writes.\<close>

definition tmp_path :: "string \<Rightarrow> string" where
  "tmp_path p = p @ ''.tmp''"

lemma tmp_path_ne [simp]: "tmp_path p \<noteq> p" "p \<noteq> tmp_path p"
  by (simp_all add: tmp_path_def)

subsection \<open>Evaluation\<close>

named_theorems io_simps \<open>evaluation of file operations\<close>

lemma io_ret_app [io_simps]: "io_ret x fs = (Ok x, fs)"
  by (simp add: io_ret_def)

lemma io_lift_app [io_simps]: "io_lift r fs = (r, fs)"
  by (simp add: io_lift_def)

lemma io_bind_Ok [io_simps]: "m fs = (Ok x, fs') \<Longrightarrow> io_bind m f fs = f x fs'"
  by (simp add: io_bind_def)

lemma io_lift_Ok_bind [io_simps]: "io_bind (io_lift (Ok x)) f = f x"
  by (simp add: io_bind_def io_lift_def)

lemma io_ret_bind [io_simps]: "io_bind (io_ret x) f = f x"
  by (simp add: io_bind_def io_ret_def)

lemma io_bind_eq_Ok:
  "io_bind m f fs = (Ok y, fs'') \<longleftrightarrow> (\<exists>x fs'. m fs = (Ok x, fs') \<and> f x fs' = (Ok y, fs''))"
  by (auto simp: io_bind_def split: prod.splits res.splits)

lemma io_lift_bind: "io_bind (io_lift r) f fs = (case r of Ok x \<Rightarrow> f x fs | Err e \<Rightarrow> (Err e, fs) | Panic \<Rightarrow> (Panic, fs))"
  by (simp add: io_bind_def io_lift_def split: res.splits)

lemma io_exists_app [io_simps]: "io_exists p fs = (Ok (fs p \<noteq> None), fs)"
  by (simp add: io_exists_def)

lemma io_read_app [io_simps]: "fs p = Some bs \<Longrightarrow> io_read p fs = (Ok bs, fs)"
  by (simp add: io_read_def file_open_def)

lemma io_append_app [io_simps]: "fs p = Some bs \<Longrightarrow> io_append p cs fs = (Ok (), fs(p \<mapsto> bs @ cs))"
  by (simp add: io_append_def)

lemma io_pwrite_app [io_simps]: "fs p = Some bs \<Longrightarrow> io_pwrite p off cs fs = (Ok (), fs(p \<mapsto> overwrite off cs bs))"
  by (simp add: io_pwrite_def)

lemma io_create_new_app [io_simps]: "fs p = None \<Longrightarrow> io_create_new p fs = (Ok (), fs(p \<mapsto> []))"
  by (simp add: io_create_new_def)

lemma io_truncate_app [io_simps]: "io_truncate p fs = (Ok (), fs(p \<mapsto> []))"
  by (simp add: io_truncate_def)

lemma io_rename_app [io_simps]: "fs a = Some c \<Longrightarrow> io_rename a b fs = (Ok (), (fs(a := None))(b \<mapsto> c))"
  by (simp add: io_rename_def)

lemma overwrite_prefix: "length hd0 = length hd1 \<Longrightarrow> overwrite 0 hd1 (hd0 @ rest) = hd1 @ rest"
  by (simp add: overwrite_def)

lemma overwrite_end: "off = length old \<Longrightarrow> overwrite off bs old = old @ bs"
  by (simp add: overwrite_def)

lemma overwrite_splice: "off + length bs \<le> length old \<Longrightarrow> overwrite off bs old = splice off bs old"
  by (simp add: overwrite_def splice_def)

text \<open>A loop that appends to one file computes its bytes chunk by chunk.\<close>

lemma io_each_append:
  assumes "fs p = Some old" "mapM f xs = Ok cs"
  shows "io_each (\<lambda>x. io_bind (io_lift (f x)) (io_append p)) xs fs = (Ok (), fs(p \<mapsto> old @ concat cs))"
  using assms
proof (induction xs arbitrary: fs old cs)
  case Nil
  then show ?case by (auto simp: io_simps fun_upd_idem)
next
  case (Cons x xs)
  then obtain c cs' where c: "f x = Ok c" "mapM f xs = Ok cs'" "cs = c # cs'"
    by (auto simp: res_simps)
  have "io_each (\<lambda>x. io_bind (io_lift (f x)) (io_append p)) (x # xs) fs =
      io_each (\<lambda>x. io_bind (io_lift (f x)) (io_append p)) xs (fs(p \<mapsto> old @ c))"
    using Cons.prems by (simp add: io_bind_def io_lift_def c io_append_def)
  also have "\<dots> = (Ok (), (fs(p \<mapsto> old @ c))(p \<mapsto> (old @ c) @ concat cs'))"
    by (rule Cons.IH) (simp_all add: c)
  also have "\<dots> = (Ok (), fs(p \<mapsto> old @ concat cs))"
    by (simp only: c concat.simps append_assoc fun_upd_upd)
  finally show ?case .
qed

subsection \<open>What an operation may touch\<close>

definition touches :: "string set \<Rightarrow> 'a io \<Rightarrow> bool" where
  "touches P m \<longleftrightarrow> (\<forall>fs r fs' q. m fs = (r, fs') \<longrightarrow> q \<notin> P \<longrightarrow> fs' q = fs q)"

named_theorems touch_intros \<open>footprints of file operations\<close>

lemma touchesD: "touches P m \<Longrightarrow> m fs = (r, fs') \<Longrightarrow> q \<notin> P \<Longrightarrow> fs' q = fs q"
  by (auto simp: touches_def)

lemma touches_basic [touch_intros]:
  "touches P (io_ret x)" "touches P (io_lift r)" "touches P (io_read p)" "touches P (io_exists p)"
  "p \<in> P \<Longrightarrow> touches P (io_append p bs)" "p \<in> P \<Longrightarrow> touches P (io_pwrite p n bs)"
  "p \<in> P \<Longrightarrow> touches P (io_truncate p)" "p \<in> P \<Longrightarrow> touches P (io_create_new p)"
  "p \<in> P \<Longrightarrow> touches P (io_set_len p n)" "p \<in> P \<Longrightarrow> touches P (io_try_remove p)"
  "p \<in> P \<Longrightarrow> touches P (io_remove p)" "p \<in> P \<Longrightarrow> q \<in> P \<Longrightarrow> touches P (io_rename p q)"
  by (auto simp: touches_def io_ret_def io_lift_def io_read_def io_exists_def io_append_def io_pwrite_def
      io_truncate_def io_create_new_def io_set_len_def io_try_remove_def io_remove_def io_rename_def
      split: option.splits)

lemma touches_bind [touch_intros]:
  assumes "touches P m" "\<And>x. touches P (f x)"
  shows "touches P (io_bind m f)"
proof -
  have "fs' q = fs q" if "io_bind m f fs = (r, fs')" "q \<notin> P" for fs r fs' q
  proof -
    obtain a fs1 where m: "m fs = (a, fs1)" by (cases "m fs")
    have e: "fs1 q = fs q" using touchesD[OF assms(1) m that(2)] .
    show ?thesis
    proof (cases a)
      case (Ok x)
      then have "f x fs1 = (r, fs')" using that(1) m by (simp add: io_bind_def)
      then show ?thesis using touchesD[OF assms(2) _ that(2)] e by metis
    qed (use that(1) m e in \<open>auto simp: io_bind_def\<close>)
  qed
  then show ?thesis by (simp add: touches_def)
qed

lemma touches_each [touch_intros]:
  "(\<And>x. touches P (f x)) \<Longrightarrow> touches P (io_each f xs)"
  by (induction xs) (auto intro: touch_intros)

lemma touches_fold [touch_intros]:
  "(\<And>s x. touches P (f s x)) \<Longrightarrow> touches P (io_fold f s xs)"
  by (induction xs arbitrary: s) (auto intro: touch_intros)

lemma touches_on_err [touch_intros]:
  assumes "touches P m" "touches P c"
  shows "touches P (io_on_err m c)"
proof -
  have "fs' q = fs q" if "io_on_err m c fs = (r, fs')" "q \<notin> P" for fs r fs' q
  proof -
    obtain a fs1 where m: "m fs = (a, fs1)" by (cases "m fs")
    obtain b fs2 where c: "c fs1 = (b, fs2)" by (cases "c fs1")
    show ?thesis
      using that(1) touchesD[OF assms(1) m that(2)] touchesD[OF assms(2) c that(2)] m c
      by (cases a) (auto simp: io_on_err_def)
  qed
  then show ?thesis by (simp add: touches_def)
qed

lemma touches_case [touch_intros]:
  "(\<And>x. touches P (f x)) \<Longrightarrow> touches P g \<Longrightarrow> touches P (case v of None \<Rightarrow> g | Some x \<Rightarrow> f x)"
  "touches P a \<Longrightarrow> touches P b \<Longrightarrow> touches P (if c then a else b)"
  by (auto split: option.splits)

text \<open>
  An operation that replaces a file atomically: unless it succeeds, it has changed nothing but the
  temporary file.
\<close>

definition unwinds :: "string set \<Rightarrow> 'a io \<Rightarrow> bool" where
  "unwinds P m \<longleftrightarrow> (\<forall>fs r fs' q. m fs = (r, fs') \<longrightarrow> \<not> is_ok r \<longrightarrow> q \<notin> P \<longrightarrow> fs' q = fs q)"

named_theorems unwind_intros \<open>atomic replacement\<close>

lemma unwindsD: "unwinds P m \<Longrightarrow> m fs = (r, fs') \<Longrightarrow> \<not> is_ok r \<Longrightarrow> q \<notin> P \<Longrightarrow> fs' q = fs q"
  by (auto simp: unwinds_def)

lemma touches_unwinds: "touches P m \<Longrightarrow> unwinds P m"
  unfolding touches_def unwinds_def by blast

lemma unwinds_basic [unwind_intros]:
  "unwinds P (io_ret x)" "unwinds P (io_lift r)" "unwinds P (io_rename p q)" "unwinds P (io_remove p)"
  by (auto simp: unwinds_def io_ret_def io_lift_def io_rename_def io_remove_def split: option.splits)

lemma unwinds_bind [unwind_intros]:
  assumes "touches P m" "\<And>x. unwinds P (f x)"
  shows "unwinds P (io_bind m f)"
proof -
  have "fs' q = fs q" if "io_bind m f fs = (r, fs')" "\<not> is_ok r" "q \<notin> P" for fs r fs' q
  proof -
    obtain a fs1 where m: "m fs = (a, fs1)" by (cases "m fs")
    have e: "fs1 q = fs q" using touchesD[OF assms(1) m that(3)] .
    show ?thesis
    proof (cases a)
      case (Ok x)
      then have "f x fs1 = (r, fs')" using that(1) m by (simp add: io_bind_def)
      then show ?thesis using unwindsD[OF assms(2) _ that(2,3)] e by metis
    qed (use that(1) m e in \<open>auto simp: io_bind_def\<close>)
  qed
  then show ?thesis by (simp add: unwinds_def)
qed

lemma unwinds_case [unwind_intros]:
  "(\<And>x. unwinds P (f x)) \<Longrightarrow> unwinds P g \<Longrightarrow> unwinds P (case v of None \<Rightarrow> g | Some x \<Rightarrow> f x)"
  "unwinds P a \<Longrightarrow> unwinds P b \<Longrightarrow> unwinds P (if c then a else b)"
  by (auto split: option.splits)

subsection \<open>Operations on one file\<close>

named_theorems local_intros \<open>operations whose outcome depends on one file\<close>

definition io_local :: "string \<Rightarrow> 'a io \<Rightarrow> bool" where
  "io_local p m \<longleftrightarrow> (\<forall>fs fs'. fs p = fs' p \<longrightarrow>
     fst (m fs) = fst (m fs') \<and> snd (m fs) p = snd (m fs') p) \<and> (\<forall>fs q. q \<noteq> p \<longrightarrow> snd (m fs) q = fs q)"

lemma io_local_basic [local_intros]:
  "io_local p (io_ret x)" "io_local p (io_lift r)" "io_local p (io_read p)" "io_local p (io_set_len p n)"
  "io_local p (io_exists p)" "io_local p (io_create_new p)" "io_local p (io_truncate p)" "io_local p (io_append p bs)"
  "io_local p (io_pwrite p off bs)" "io_local p (io_try_remove p)" "io_local p (io_remove p)"
  by (auto simp: io_local_def io_ret_def io_lift_def io_read_def io_set_len_def file_open_def io_exists_def
      io_create_new_def io_truncate_def io_append_def io_pwrite_def io_try_remove_def io_remove_def split: option.splits)

lemma io_local_update: "io_local p (\<lambda>fs. (r, fs(p \<mapsto> bs)))"
  by (simp add: io_local_def)

lemma io_localD:
  assumes "io_local p m"
  shows "fs p = fs' p \<Longrightarrow> m fs = (r, gs) \<Longrightarrow> \<exists>gs'. m fs' = (r, gs') \<and> gs' p = gs p"
    "q \<noteq> p \<Longrightarrow> m fs = (r, gs) \<Longrightarrow> gs q = fs q"
proof -
  assume e: "fs p = fs' p" and m: "m fs = (r, gs)"
  have "fst (m fs) = fst (m fs') \<and> snd (m fs) p = snd (m fs') p" using assms e unfolding io_local_def by blast
  then show "\<exists>gs'. m fs' = (r, gs') \<and> gs' p = gs p" using m by (intro exI[of _ "snd (m fs')"]) (simp add: prod_eq_iff)
next
  assume q: "q \<noteq> p" and m: "m fs = (r, gs)"
  have "snd (m fs) q = fs q" using assms q unfolding io_local_def by blast
  then show "gs q = fs q" using m by simp
qed

lemma io_localI:
  assumes "\<And>fs fs' r gs. fs p = fs' p \<Longrightarrow> m fs = (r, gs) \<Longrightarrow> \<exists>gs'. m fs' = (r, gs') \<and> gs' p = gs p"
    and "\<And>fs r gs q. q \<noteq> p \<Longrightarrow> m fs = (r, gs) \<Longrightarrow> gs q = fs q"
  shows "io_local p m"
proof -
  have "fst (m fs) = fst (m fs') \<and> snd (m fs) p = snd (m fs') p" if "fs p = fs' p" for fs fs'
    using assms(1)[where fs = fs and fs' = fs' and r = "fst (m fs)" and gs = "snd (m fs)"] that by auto
  moreover have "snd (m fs) q = fs q" if "q \<noteq> p" for fs q
    using assms(2)[where fs = fs and q = q and r = "fst (m fs)" and gs = "snd (m fs)"] that by simp
  ultimately show ?thesis unfolding io_local_def by blast
qed

lemma io_local_bind:
  assumes m: "io_local p m" and f: "\<And>fs x fs'. m fs = (Ok x, fs') \<Longrightarrow> io_local p (f x)"
  shows "io_local p (io_bind m f)"
proof (rule io_localI)
  fix fs fs' r gs assume e: "fs p = fs' p" and b: "io_bind m f fs = (r, gs)"
  obtain r1 g1 where m1: "m fs = (r1, g1)" by (cases "m fs")
  obtain g1' where m1': "m fs' = (r1, g1')" "g1' p = g1 p" using io_localD(1)[where fs = fs and fs' = fs', OF m e m1] by blast
  show "\<exists>gs'. io_bind m f fs' = (r, gs') \<and> gs' p = gs p"
  proof (cases r1)
    case (Ok x)
    then have "f x g1 = (r, gs)" using b m1 by (simp add: io_bind_def)
    moreover have "io_local p (f x)" using f[where fs = fs and fs' = g1 and x = x] m1 Ok by simp
    ultimately have "\<exists>gs'. f x g1' = (r, gs') \<and> gs' p = gs p"
      using io_localD(1)[where m = "f x" and fs = g1 and fs' = g1' and r = r and gs = gs and p = p] m1'(2) by simp
    then show ?thesis using m1'(1) Ok by (simp add: io_bind_def)
  qed (use b m1 m1' in \<open>simp_all add: io_bind_def\<close>)
next
  fix fs r gs q assume q: "q \<noteq> p" and b: "io_bind m f fs = (r, gs)"
  obtain r1 g1 where m1: "m fs = (r1, g1)" by (cases "m fs")
  have e: "g1 q = fs q" using io_localD(2)[where fs = fs and q = q, OF m q m1] .
  show "gs q = fs q"
  proof (cases r1)
    case (Ok x)
    then have "f x g1 = (r, gs)" using b m1 by (simp add: io_bind_def)
    moreover have "io_local p (f x)" using f[where fs = fs and fs' = g1 and x = x] m1 Ok by simp
    ultimately show ?thesis
      using io_localD(2)[where m = "f x" and fs = g1 and q = q and r = r and gs = gs and p = p] q e by simp
  qed (use b m1 e in \<open>simp_all add: io_bind_def\<close>)
qed

lemma io_local_bind_all [local_intros]: "io_local p m \<Longrightarrow> (\<And>x. io_local p (f x)) \<Longrightarrow> io_local p (io_bind m f)"
  by (rule io_local_bind)

lemma io_local_each [local_intros]: "(\<And>x. io_local p (f x)) \<Longrightarrow> io_local p (io_each f xs)"
  by (induction xs) (auto intro: local_intros)

lemma io_local_read_exact [local_intros]: "io_local p (io_read_exact p n)"
  unfolding io_read_exact_def by (intro local_intros)

lemma io_local_case [local_intros]:
  "(\<And>x. io_local p (f x)) \<Longrightarrow> io_local p g \<Longrightarrow> io_local p (case v of None \<Rightarrow> g | Some x \<Rightarrow> f x)"
  "io_local p a \<Longrightarrow> io_local p b \<Longrightarrow> io_local p (if c then a else b)"
  by (auto split: option.splits)

end
