(* ===== verification/Field_Create.thy ===== *)
theory Field_Create
  imports File_System Chunk Columns
begin

text \<open>
  Creating FIELD files (\<open>splayed-core/src/field_file.rs\<close>): the chunk boundaries, the uncompressed
  and the chunked writers, from owned columns, from views and from a stream. The compression library
  is the parameter \<open>B\<close>. A stream reader is the two sequences of results its methods return.
\<close>

subsection \<open>Conversions of errors\<close>

definition fmt_err :: "(format_error, 'a) res \<Rightarrow> (core_error, 'a) res" where
  "fmt_err = map_err EFormat"

definition codec_err :: "(codec_error, 'a) res \<Rightarrow> (core_error, 'a) res" where
  "codec_err = map_err ECodec"

lemma fmt_err_Ok [simp]: "fmt_err (Ok x) = Ok x"
  by (simp add: fmt_err_def)

lemma codec_err_Ok [simp]: "codec_err (Ok x) = Ok x"
  by (simp add: codec_err_def)

lemma fmt_err_eq_Ok [res_simps]: "fmt_err r = Ok x \<longleftrightarrow> r = Ok x"
  by (simp add: fmt_err_def map_err_eq_Ok)

lemma codec_err_eq_Ok [res_simps]: "codec_err r = Ok x \<longleftrightarrow> r = Ok x"
  by (simp add: codec_err_def map_err_eq_Ok)

subsection \<open>Chunk boundaries\<close>

definition CREATE_CHUNK_ROWS :: nat where
  "CREATE_CHUNK_ROWS = 8192"

definition chunk_starts :: "nat \<Rightarrow> nat list" where
  "chunk_starts rows = map (\<lambda>k. k * CREATE_CHUNK_ROWS) [0..<(rows + (CREATE_CHUNK_ROWS - 1)) div CREATE_CHUNK_ROWS]"

text \<open>\<open>windows(2)\<close> plus the implied last range.\<close>

definition starts_to_ranges :: "nat \<Rightarrow> nat list \<Rightarrow> (nat \<times> nat) list" where
  "starts_to_ranges rows starts =
     pairs_of starts @ (if last starts < rows then [(last starts, rows)] else [])"

definition compute_chunk_boundaries ::
  "nat \<Rightarrow> nat list option \<Rightarrow> (core_error, (nat \<times> nat) list) res" where
  "compute_chunk_boundaries rows_total chunk_offsets =
     (case chunk_offsets of
        Some offs \<Rightarrow>
          if offs = [] \<or> hd offs \<noteq> 0 then Err (Invalid ''chunk offsets must start at 0'')
          else let l = remdups_adj (sort offs)
            in if (\<exists>w \<in> set (pairs_of l). fst w \<ge> snd w) \<or> (\<exists>o' \<in> set l. o' \<ge> rows_total)
               then Err (Invalid ''chunk offsets must be strictly ascending within [0, row_count)'')
               else Ok (starts_to_ranges rows_total l)
      | None \<Rightarrow> Ok (map (\<lambda>o'. (o', min (o' + CREATE_CHUNK_ROWS) rows_total)) (chunk_starts rows_total)))"

subsection \<open>Initial contents\<close>

record stream_values =
  sv_values :: bytes
  sv_rows :: nat

record chunk_reader =
  rd_values :: "(core_error, stream_values) res list"
  rd_validity :: "(core_error, bytes) res list"

datatype field_init = FI_Length nat | FI_Data column | FI_Stream chunk_reader

record create_options =
  co_compression :: compression
  co_chunk_offsets :: "nat list option"

definition default_options :: create_options where
  "default_options = \<lparr>co_compression = CNone, co_chunk_offsets = None\<rparr>"

subsection \<open>The uncompressed writer\<close>

text \<open>The values phase of a stream: the total of rows (a \<open>u32\<close>) and of bytes written.\<close>

definition stream_values_step ::
  "string \<Rightarrow> u32 \<times> nat \<Rightarrow> (core_error, stream_values) res \<Rightarrow> (u32 \<times> nat) io" where
  "stream_values_step path st r = (case st of (rows, dlen) \<Rightarrow>
     io_bind (io_lift r) (\<lambda>batch.
     io_bind (io_append path (sv_values batch)) (\<lambda>_.
       io_ret (rows + of_nat (sv_rows batch), dlen + length (sv_values batch)))))"

text \<open>The validity phase: batches until the region is full or the reader ends.\<close>

fun stream_validity ::
  "string \<Rightarrow> nat \<Rightarrow> nat \<Rightarrow> nat \<Rightarrow> (core_error, bytes) res list \<Rightarrow> nat \<Rightarrow> nat \<Rightarrow> nat io" where
  "stream_validity path base validity_bytes total_bits rs written n_ones =
     (if written < validity_bytes
      then case rs of
             [] \<Rightarrow> io_ret n_ones
           | r # rs' \<Rightarrow>
               io_bind (io_lift r) (\<lambda>bits.
               io_bind (io_lift (bitmap_count_ones bits 0 (min (length bits * 8) (total_bits - written * 8)))) (\<lambda>n.
               io_bind (io_pwrite path (base + written) bits) (\<lambda>_.
                 stream_validity path base validity_bytes total_bits rs' (written + length bits) (n_ones + n))))
      else io_ret n_ones)"

declare stream_validity.simps [simp del]

definition write_header :: "string \<Rightarrow> field_header \<Rightarrow> unit io" where
  "write_header path h = io_pwrite path 0 (field_header_to_bytes h)"

definition create_field_file_plain :: "string \<Rightarrow> data_type \<Rightarrow> field_init \<Rightarrow> unit io" where
  "create_field_file_plain path data_type init =
     io_bind (io_create_new path) (\<lambda>_.
     io_bind (io_append path (replicate HEADER_SIZE 0)) (\<lambda>_.
     io_bind (case init of
        FI_Length n \<Rightarrow> io_ret (of_nat n, of_nat n, True)
      | FI_Data col \<Rightarrow>
          if col_data_type col \<noteq> data_type then io_lift (Err (Invalid ''init data type mismatch''))
          else io_bind (io_append path (col_values col)) (\<lambda>_.
               case col_validity col of
                 None \<Rightarrow> io_ret (of_nat (column_length col), 0, False)
               | Some bm \<Rightarrow>
                   io_bind (io_lift (bitmap_as_view bm)) (\<lambda>v.
                   io_bind (io_lift (view_null_count v)) (\<lambda>nulls.
                   io_bind (io_append path (bv_data v)) (\<lambda>_.
                     io_ret (of_nat (column_length col), of_nat nulls, True)))))
      | FI_Stream reader \<Rightarrow>
          io_bind (io_fold (stream_values_step path) (0, 0) (rd_values reader)) (\<lambda>(row_count, dlen).
          let validity_bytes = validity_size (unat row_count)
          in io_bind (stream_validity path (HEADER_SIZE + dlen) validity_bytes (unat row_count)
                        (rd_validity reader) 0 0) (\<lambda>n_ones.
             io_bind (io_set_len path (HEADER_SIZE + dlen + validity_bytes)) (\<lambda>_.
               io_ret (row_count, row_count - of_nat n_ones, True)))))
       (\<lambda>(row_count, null_count, has_validity).
         write_header path (field_header_new_uncompressed data_type 1 row_count null_count has_validity))))"

subsection \<open>The chunked writers\<close>

text \<open>One chunk of a column: values sliced, validity re-packed to start at a byte.\<close>

definition chunk_of ::
  "codec_backend \<Rightarrow> encoding \<Rightarrow> compression \<Rightarrow> data_type \<Rightarrow> bytes \<Rightarrow> nat \<Rightarrow> bitmap_view option \<Rightarrow> nat \<times> nat \<Rightarrow>
   (core_error, bytes) res" where
  "chunk_of B e c dt values per_row bits r = (case r of (lo, hi) \<Rightarrow>
     rbind (slice_r (lo * per_row) (hi * per_row) values) (\<lambda>vs.
     rbind (case bits of None \<Rightarrow> Ok None
            | Some b \<Rightarrow> rbind (fmt_err (view_slice b lo (hi - lo))) (\<lambda>v.
                        rbind (view_to_packed_bytes v) (\<lambda>p. Ok (Some p)))) (\<lambda>validity.
       codec_err (encode_chunk B e c dt vs validity (hi - lo)))))"

definition chunked_header :: "data_type \<Rightarrow> compression \<Rightarrow> nat \<Rightarrow> nat \<Rightarrow> nat \<Rightarrow> field_header" where
  "chunked_header dt c rows nulls len =
     (field_header_new_uncompressed dt 1 (of_nat rows) (of_nat nulls) False)
       \<lparr>fh_compression := compression_id c, fh_data_length := of_nat len\<rparr>"

definition create_field_file_chunked_data ::
  "codec_backend \<Rightarrow> string \<Rightarrow> data_type \<Rightarrow> column \<Rightarrow> compression \<Rightarrow> (nat \<times> nat) list \<Rightarrow> unit io" where
  "create_field_file_chunked_data B path data_type col compression boundaries =
     (if col_data_type col \<noteq> data_type then io_lift (Err (Invalid ''init data type mismatch''))
      else let rows = column_length col;
               per_row = (if 0 < rows then length (col_values col) div rows else 0)
        in io_bind (io_create_new path) (\<lambda>_.
           io_bind (io_append path (replicate HEADER_SIZE 0)) (\<lambda>_.
           io_bind (case col_validity col of None \<Rightarrow> io_ret None
                    | Some b \<Rightarrow> io_bind (io_lift (bitmap_as_view b)) (\<lambda>v. io_ret (Some v))) (\<lambda>bits.
           io_bind (io_each (\<lambda>r. io_bind (io_lift (chunk_of B Plain compression data_type (col_values col) per_row bits r))
                                   (io_append path)) boundaries) (\<lambda>_.
           io_bind (io_lift (column_null_count col)) (\<lambda>nulls.
             write_header path (chunked_header data_type compression rows nulls (length (col_values col)))))))))"

definition create_field_file_chunked_all_null ::
  "string \<Rightarrow> data_type \<Rightarrow> nat \<Rightarrow> compression \<Rightarrow> unit io" where
  "create_field_file_chunked_all_null path data_type rows compression =
     io_bind (io_create_new path) (\<lambda>_.
       io_append path (field_header_to_bytes
         ((field_header_new_uncompressed data_type 1 (of_nat rows) (of_nat rows) True)
            \<lparr>fh_compression := compression_id compression,
             fh_data_length := of_nat rows * of_nat (size_of data_type)\<rparr>)))"

definition create_field_file_chunked ::
  "codec_backend \<Rightarrow> string \<Rightarrow> data_type \<Rightarrow> field_init \<Rightarrow> create_options \<Rightarrow> unit io" where
  "create_field_file_chunked B path data_type init options =
     (case init of
        FI_Data col \<Rightarrow>
          io_bind (io_lift (compute_chunk_boundaries (column_length col) (co_chunk_offsets options))) (\<lambda>boundaries.
            create_field_file_chunked_data B path data_type col (co_compression options) boundaries)
      | FI_Length n \<Rightarrow>
          io_bind (io_lift (compute_chunk_boundaries n (co_chunk_offsets options))) (\<lambda>_.
            create_field_file_chunked_all_null path data_type n (co_compression options))
      | FI_Stream _ \<Rightarrow> io_lift (Err (Invalid ''chunked creation requires Data/Length init'')))"

subsection \<open>Writing a view\<close>

text \<open>\<open>bit_bm.set(curr_row + i, v.is_valid(i))\<close> over the rows of one segment.\<close>

definition set_segment_bits :: "nat \<Rightarrow> column_segment \<Rightarrow> bitmap \<Rightarrow> (core_error, bitmap) res" where
  "set_segment_bits curr_row s bm =
     (case seg_validity s of None \<Rightarrow> Ok bm
      | Some v \<Rightarrow> foldM (\<lambda>b i. rbind (view_is_valid v i) (\<lambda>x. bitmap_set b (curr_row + i) x)) bm [0..<seg_rows s])"

fun merge_segment_bits :: "nat \<Rightarrow> column_segment list \<Rightarrow> bitmap \<Rightarrow> (core_error, bitmap) res" where
  "merge_segment_bits curr_row [] bm = Ok bm"
| "merge_segment_bits curr_row (s # ss) bm =
     rbind (set_segment_bits curr_row s bm) (\<lambda>bm'. merge_segment_bits (curr_row + seg_rows s) ss bm')"

fun words_of :: "nat \<Rightarrow> nat \<Rightarrow> bytes \<Rightarrow> ('a::len) word list" where
  "words_of w 0 bs = []"
| "words_of w (Suc n) bs = of_le (take w bs) # words_of w n (drop w bs)"

definition column_view_to_owned_column :: "column_view \<Rightarrow> (core_error, column) res" where
  "column_view_to_owned_column view =
     (case cv_segments view of
        [seg] \<Rightarrow>
          rbind (case seg_validity seg of None \<Rightarrow> Ok None
                 | Some b \<Rightarrow> rbind (view_to_packed_bytes b) (\<lambda>p.
                             rbind (bitmap_from_bytes p (bv_len b)) (\<lambda>m. Ok (Some m)))) (\<lambda>validity.
            if cv_data_type view = Utf8
            then (case seg_values seg of
                    Dict keys offs strs \<Rightarrow>
                      column_from_dict (words_of 4 (length keys div 4) keys) (words_of 8 (length offs div 8) offs) strs validity
                  | RepeatDict offs strs i \<Rightarrow>
                      column_from_dict (replicate (seg_rows seg) i) (words_of 8 (length offs div 8) offs) strs validity
                  | Fixed v \<Rightarrow> Ok \<lparr>col_data_type = cv_data_type view, col_values = v, col_validity = validity, col_dict = None\<rparr>)
            else Ok \<lparr>col_data_type = cv_data_type view,
                     col_values = (case fixed_bytes (seg_values seg) of Some v \<Rightarrow> v | None \<Rightarrow> []),
                     col_validity = validity, col_dict = None\<rparr>)
      | segs \<Rightarrow>
          rbind (merge_segment_bits 0 segs (bitmap_ones (cv_length view))) (\<lambda>bit_bm.
            Ok \<lparr>col_data_type = cv_data_type view,
                col_values = concat (map (\<lambda>s. case fixed_bytes (seg_values s) of Some b \<Rightarrow> b | None \<Rightarrow> []) segs),
                col_validity = (if \<exists>s \<in> set segs. seg_validity s \<noteq> None then Some bit_bm else None),
                col_dict = None\<rparr>))"

text \<open>What the DATA phase writes of a segment.\<close>

fun plain_bytes :: "column_values \<Rightarrow> bytes" where
  "plain_bytes (Fixed b) = b"
| "plain_bytes (Dict keys _ _) = keys"
| "plain_bytes (RepeatDict _ _ _) = []"

definition create_field_file_view_plain :: "string \<Rightarrow> column_view \<Rightarrow> unit io" where
  "create_field_file_view_plain path column =
     io_bind (io_create_new path) (\<lambda>_.
     io_bind (io_append path (replicate HEADER_SIZE 0)) (\<lambda>_.
     io_bind (io_lift (column_view_null_count column)) (\<lambda>null_count.
     io_bind (io_each (\<lambda>s. io_append path (plain_bytes (seg_values s))) (cv_segments column)) (\<lambda>_.
     let data_len = sum_list (map (\<lambda>s. length (plain_bytes (seg_values s))) (cv_segments column));
         has_validity = (\<exists>s \<in> set (cv_segments column). seg_validity s \<noteq> None)
     in io_bind (if has_validity
                 then (case cv_segments column of
                         [seg] \<Rightarrow> (case seg_validity seg of Some bm \<Rightarrow> io_append path (bv_data bm) | None \<Rightarrow> io_ret ())
                       | segs \<Rightarrow>
                           io_bind (io_lift (merge_segment_bits 0 segs (bitmap_ones (cv_length column)))) (\<lambda>bm.
                           io_bind (io_lift (bitmap_as_view bm)) (\<lambda>v. io_append path (bv_data v))))
                 else io_ret ()) (\<lambda>_.
          write_header path ((field_header_new_uncompressed (cv_data_type column) 1 (of_nat (cv_length column))
            (of_nat null_count) has_validity) \<lparr>fh_data_length := of_nat data_len\<rparr>))))))"

definition create_field_file_view_chunked ::
  "codec_backend \<Rightarrow> string \<Rightarrow> column_view \<Rightarrow> create_options \<Rightarrow> unit io" where
  "create_field_file_view_chunked B path column options =
     (case cv_segments column of
        [] \<Rightarrow> io_lift Panic
      | seg # _ \<Rightarrow>
          (case fixed_bytes (seg_values seg) of
             None \<Rightarrow> io_lift (Err (Invalid ''chunked field requires fixed width values''))
           | Some values_bytes \<Rightarrow>
               let rows = cv_length column; per_row = (if 0 < rows then length values_bytes div rows else 0)
               in io_bind (io_lift (compute_chunk_boundaries rows (co_chunk_offsets options))) (\<lambda>boundaries.
                  io_bind (io_create_new path) (\<lambda>_.
                  io_bind (io_append path (replicate HEADER_SIZE 0)) (\<lambda>_.
                  io_bind (io_each (\<lambda>r. io_bind (io_lift (chunk_of B Plain (co_compression options) (cv_data_type column)
                                            values_bytes per_row (seg_validity seg) r)) (io_append path)) boundaries) (\<lambda>_.
                  io_bind (io_lift (column_view_null_count column)) (\<lambda>nulls.
                    write_header path (chunked_header (cv_data_type column) (co_compression options) rows nulls
                      (length values_bytes)))))))))"

definition create_field_file_from_view ::
  "codec_backend \<Rightarrow> string \<Rightarrow> column_view \<Rightarrow> create_options \<Rightarrow> unit io" where
  "create_field_file_from_view B path column options =
     io_bind (io_exists path) (\<lambda>ex.
     if ex then io_lift (Err (AlreadyExists path))
     else io_bind (io_lift (column_view_null_count column)) (\<lambda>null_count.
       let data_type = cv_data_type column; rows = cv_length column
       in if 0 < rows \<and> null_count = rows \<and> co_compression options = CNone
          then create_field_file_plain path data_type (FI_Length rows)
          else if 0 < rows \<and> null_count = rows \<and> data_type \<noteq> Utf8
          then create_field_file_chunked B path data_type (FI_Length rows) options
          else if co_compression options = CNone \<or> data_type = Utf8
          then create_field_file_view_plain path column
          else if length (cv_segments column) = 1
          then create_field_file_view_chunked B path column options
          else io_bind (io_lift (column_view_to_owned_column column)) (\<lambda>col.
                 create_field_file_chunked B path data_type (FI_Data col) options)))"

end
