(* ===== verification/Field_Handle.thy ===== *)
theory Field_Handle
  imports Field_Create Field_Scan
begin

text \<open>
  \<open>FieldHandle\<close> (\<open>splayed-core/src/field_file.rs\<close>): opening a FIELD file, decoding a chunked file
  into its working representation, the regions of a handle and reading rows back. A memory map is the
  content of the file when it was mapped; a writable map writes through to the file. The working
  values are a byte string (the alignment of their buffer is the subject of \<open>Columns\<close>).
\<close>

subsection \<open>The handle\<close>

datatype backing = BMmap bytes | BMmapMut bytes | BEmpty

record working =
  wk_values :: bytes
  wk_validity :: "bitmap option"

record field_handle =
  fd_path :: string
  fd_header :: field_header
  fd_mode :: mode
  fd_backing :: backing
  fd_chunk_rows :: "nat list"
  fd_chunk_ends :: "nat list"
  fd_working :: "working option"
  fd_modified :: bool

definition fd_data_type :: "field_handle \<Rightarrow> ('e, data_type) res" where
  "fd_data_type h = expect (field_data_type (fd_header h))"

definition fd_row_count :: "field_handle \<Rightarrow> nat" where
  "fd_row_count h = unat (fh_row_count (fd_header h))"

definition fd_is_chunked :: "field_handle \<Rightarrow> bool" where
  "fd_is_chunked h = is_chunked (fd_header h)"

text \<open>\<open>Path::file_name\<close>: the part after the last separator.\<close>

definition file_name :: "string \<Rightarrow> string" where
  "file_name p = rev (takeWhile (\<lambda>c. c \<noteq> CHR ''/'') (rev p))"

definition fd_schema :: "field_handle \<Rightarrow> ('e, field_schema) res" where
  "fd_schema h = rbind (fd_data_type h) (\<lambda>dt. Ok \<lparr>fs_name = file_name (fd_path h), fs_type = dt\<rparr>)"

definition truncated :: "(core_error, 'a) res" where
  "truncated = Err (InvalidState ''field file truncated'')"

definition unmapped :: "(core_error, 'a) res" where
  "unmapped = Err (InvalidState ''backing is unmapped'')"

definition uncompressed_slices :: "field_handle \<Rightarrow> (core_error, bytes \<times> bytes option) res" where
  "uncompressed_slices h =
     (case fd_working h of
        Some work \<Rightarrow>
          rbind (case wk_validity work of None \<Rightarrow> Ok None
                 | Some b \<Rightarrow> rbind (bitmap_as_view b) (\<lambda>v. Ok (Some (bv_data v)))) (\<lambda>validity.
            Ok (wk_values work, validity))
      | None \<Rightarrow>
          rbind (case fd_backing h of BMmap m \<Rightarrow> Ok m | BMmapMut m \<Rightarrow> Ok m | BEmpty \<Rightarrow> unmapped) (\<lambda>bs.
          let data_len = unat (fh_data_length (fd_header h)); vlen = field_validity_size (fd_header h)
          in if length bs < HEADER_SIZE + data_len + vlen then truncated
             else Ok (slice HEADER_SIZE (HEADER_SIZE + data_len) bs,
                      if 0 < vlen then Some (slice (HEADER_SIZE + data_len) (HEADER_SIZE + data_len + vlen) bs)
                      else None)))"

text \<open>The mutable regions of a writable map: DATA and VALIDITY.\<close>

definition uncompressed_slices_mut :: "field_handle \<Rightarrow> (core_error, bytes \<times> bytes) res" where
  "uncompressed_slices_mut h =
     (let data_len = unat (fh_data_length (fd_header h)); vlen = field_validity_size (fd_header h)
      in rbind (case fd_backing h of
                  BMmapMut m \<Rightarrow> Ok m
                | BMmap _ \<Rightarrow> Err (InvalidState ''not writable'')
                | BEmpty \<Rightarrow> unmapped) (\<lambda>bs.
         if length bs < HEADER_SIZE + data_len + vlen then truncated
         else Ok (slice HEADER_SIZE (HEADER_SIZE + data_len) bs,
                  slice (HEADER_SIZE + data_len) (HEADER_SIZE + data_len + vlen) bs)))"

definition working_ref :: "field_handle \<Rightarrow> (core_error, working) res" where
  "working_ref h = ok_or (fd_working h) (InvalidState ''compressed working representation missing'')"

subsection \<open>Decoding a chunked file\<close>

text \<open>\<open>dst[pos..pos + src.len()].copy_from_slice(src)\<close>.\<close>

definition copy_into :: "nat \<Rightarrow> nat \<Rightarrow> bytes \<Rightarrow> bytes \<Rightarrow> ('e, bytes) res" where
  "copy_into lo hi src dst =
     rbind (slice_r lo hi dst) (\<lambda>s. rbind (assert_that (length s = length src)) (\<lambda>_. Ok (splice lo src dst)))"

definition merge_chunk_bits ::
  "bitmap option \<Rightarrow> bytes option \<Rightarrow> nat \<Rightarrow> nat \<Rightarrow> (core_error, bitmap option) res" where
  "merge_chunk_bits bits chunk_validity decoded_rows rows =
     (case bits of
        None \<Rightarrow> Ok None
      | Some dst \<Rightarrow>
          (case chunk_validity of
             Some src \<Rightarrow>
               rbind (fmt_err (bitmap_view_new src 0 rows)) (\<lambda>view.
               rbind (bitmap_copy_bits_from dst decoded_rows view rows) (\<lambda>(d, _). Ok (Some d)))
           | None \<Rightarrow> rbind (bitmap_set_range dst decoded_rows rows True) (\<lambda>(d, _). Ok (Some d))))"

function decode_loop ::
  "codec_backend \<Rightarrow> encoding \<Rightarrow> compression \<Rightarrow> data_type \<Rightarrow> bytes \<Rightarrow> bytes \<Rightarrow> bitmap option \<Rightarrow> nat \<Rightarrow>
   (core_error, bytes \<times> bitmap option \<times> nat) res" where
  "decode_loop B e c dt rest values bits decoded_rows =
     (if rest = [] then Ok (values, bits, decoded_rows)
      else case chunk_header_from_bytes rest of
        Err er \<Rightarrow> Err (ECodec er)
      | Panic \<Rightarrow> Panic
      | Ok hdr \<Rightarrow>
          let chunk_end = CHUNK_HEADER_SIZE + unat (ch_payload_len hdr)
          in rbind (slice_r 0 chunk_end rest) (\<lambda>chunk.
             rbind (codec_err (decode_chunk B e c dt chunk)) (\<lambda>(chunk_values, chunk_validity, rows).
             rbind (copy_into (decoded_rows * size_of dt) ((decoded_rows + rows) * size_of dt) chunk_values values) (\<lambda>values'.
             rbind (merge_chunk_bits bits chunk_validity decoded_rows rows) (\<lambda>bits'.
               decode_loop B e c dt (drop chunk_end rest) values' bits' (decoded_rows + rows))))))"
  by auto
termination
  by (relation "measure (\<lambda>(_, _, _, _, rest, _, _, _). length rest)") (auto simp: CHUNK_HEADER_SIZE_def)

declare decode_loop.simps [simp del]

definition decode_working :: "codec_backend \<Rightarrow> bytes \<Rightarrow> field_header \<Rightarrow> (core_error, working) res" where
  "decode_working B bs header =
     rbind (fmt_err (field_data_type header)) (\<lambda>dt.
     rbind (fmt_err (field_encoding header)) (\<lambda>e.
     rbind (fmt_err (field_compression header)) (\<lambda>c.
     let rows = unat (fh_row_count header)
     in rbind (decode_loop B e c dt (drop HEADER_SIZE bs) (replicate (rows * size_of dt) 0)
                 (if 0 < validity_size rows then Some (bitmap_zeros rows) else None) 0)
          (\<lambda>(values, bits, decoded_rows).
             if decoded_rows \<noteq> rows then Err (InvalidState ''chunk rows sum != header row_count'')
             else Ok \<lparr>wk_values = values, wk_validity = bits\<rparr>))))"

subsection \<open>Opening\<close>

text \<open>The walk over the chunk headers: the rows of every chunk, and where the walk ended.\<close>

function walk_chunks :: "bytes \<Rightarrow> nat \<Rightarrow> (core_error, nat list \<times> nat) res" where
  "walk_chunks bs p =
     (if length bs \<le> p then Ok ([], p)
      else case chunk_header_from_bytes (drop p bs) of
        Err er \<Rightarrow> Err (ECodec er)
      | Panic \<Rightarrow> Panic
      | Ok hdr \<Rightarrow>
          rbind (walk_chunks bs (p + (CHUNK_HEADER_SIZE + unat (ch_payload_len hdr)))) (\<lambda>(rs, fin).
            Ok (unat (ch_rows hdr) # rs, fin)))"
  by auto
termination
  by (relation "measure (\<lambda>(bs, p). length bs - p)") (auto simp: CHUNK_HEADER_SIZE_def)

declare walk_chunks.simps [simp del]

fun running_ends :: "nat \<Rightarrow> nat list \<Rightarrow> nat list" where
  "running_ends acc [] = []"
| "running_ends acc (r # rs) = (acc + r) # running_ends (acc + r) rs"

definition default_chunk_rows :: "nat \<Rightarrow> nat list" where
  "default_chunk_rows rows = map (\<lambda>o'. min (rows - o') CREATE_CHUNK_ROWS) (chunk_starts rows)"

definition open_parts ::
  "codec_backend \<Rightarrow> bytes \<Rightarrow> field_header \<Rightarrow> (core_error, nat list \<times> working option) res" where
  "open_parts B bs header =
     (let rows = unat (fh_row_count header)
      in if length bs = HEADER_SIZE \<and> 0 < rows
         then rbind (fmt_err (field_data_type header)) (\<lambda>dt.
                Ok (if is_chunked header then default_chunk_rows rows else [],
                    Some \<lparr>wk_values = replicate (rows * size_of dt) 0, wk_validity = Some (bitmap_zeros rows)\<rparr>))
         else if is_chunked header
         then rbind (walk_chunks bs HEADER_SIZE) (\<lambda>(rs, p).
              if p \<noteq> length bs then Err (InvalidState ''chunk stream does not exactly cover file'')
              else rbind (decode_working B bs header) (\<lambda>w. Ok (rs, Some w)))
         else Ok ([], None))"

definition open_field_file :: "codec_backend \<Rightarrow> string \<Rightarrow> mode \<Rightarrow> field_handle io" where
  "open_field_file B path m =
     io_bind (io_read_exact path HEADER_SIZE) (\<lambda>header_bytes.
     io_bind (io_lift (fmt_err (field_header_from_bytes header_bytes))) (\<lambda>header.
     io_bind (io_read path) (\<lambda>bs.
     io_bind (io_lift (open_parts B bs header)) (\<lambda>(chunk_rows, work).
     io_bind (case work of
                Some w \<Rightarrow>
                  if is_chunked header \<and> \<not> (length bs = HEADER_SIZE \<and> 0 < fh_row_count header)
                  then (case wk_validity w of
                          None \<Rightarrow> io_ret (header\<lparr>fh_null_count := 0\<rparr>)
                        | Some b \<Rightarrow> io_bind (io_lift (bm_null_count b)) (\<lambda>n. io_ret (header\<lparr>fh_null_count := of_nat n\<rparr>)))
                  else io_ret header
              | None \<Rightarrow> io_ret header) (\<lambda>header'.
       io_ret \<lparr>fd_path = path, fd_header = header', fd_mode = m,
               fd_backing = (case m of Read \<Rightarrow> BMmap bs | Write \<Rightarrow> BMmapMut bs),
               fd_chunk_rows = chunk_rows, fd_chunk_ends = running_ends 0 chunk_rows,
               fd_working = work, fd_modified = False\<rparr>)))))"

definition read_field_schema :: "string \<Rightarrow> field_schema io" where
  "read_field_schema path =
     io_bind (io_read_exact path HEADER_SIZE) (\<lambda>buf.
     io_bind (io_lift (fmt_err (field_header_from_bytes buf))) (\<lambda>header.
     io_bind (io_lift (fmt_err (field_data_type header))) (\<lambda>dt.
       io_ret \<lparr>fs_name = file_name path, fs_type = dt\<rparr>)))"

subsection \<open>Reading\<close>

text \<open>\<open>partition_point\<close> of a partitioned slice.\<close>

definition partition_point :: "('a \<Rightarrow> bool) \<Rightarrow> 'a list \<Rightarrow> nat" where
  "partition_point P xs = length (takeWhile P xs)"

fun chunk_segments ::
  "data_type \<Rightarrow> working \<Rightarrow> nat \<Rightarrow> nat \<Rightarrow> (nat \<times> nat) list \<Rightarrow> (core_error, column_segment list) res" where
  "chunk_segments dt work offset stop [] = Ok []"
| "chunk_segments dt work offset stop ((rows, cend) # cs) =
     (let cstart = cend - rows
      in if stop \<le> cstart then Ok []
         else let lo = max offset cstart; hi = min stop cend; s = size_of dt
           in rbind (slice_r (lo * s) (hi * s) (wk_values work)) (\<lambda>values.
              rbind (case wk_validity work of None \<Rightarrow> Ok None
                     | Some b \<Rightarrow> rbind (bitmap_as_view b) (\<lambda>v.
                                 rbind (fmt_err (view_slice v lo (hi - lo))) (\<lambda>w. Ok (Some w)))) (\<lambda>validity.
              rbind (fmt_err (segment_new dt values validity (hi - lo))) (\<lambda>seg.
              rbind (chunk_segments dt work offset stop cs) (\<lambda>segs. Ok (seg # segs))))))"

definition read_field_handle :: "field_handle \<Rightarrow> nat \<Rightarrow> nat \<Rightarrow> (core_error, column_view) res" where
  "read_field_handle h offset len =
     (if u64_max < offset + len then Err (Invalid ''read range offset + length overflows'')
      else if fd_row_count h < offset + len then Err (Invalid ''read range exceeds row_count'')
      else rbind (fd_data_type h) (\<lambda>dt.
        if len = 0 then Ok (column_view_empty dt)
        else if fd_is_chunked h
        then rbind (working_ref h) (\<lambda>work.
             let k = partition_point (\<lambda>e. e \<le> offset) (fd_chunk_ends h)
             in rbind (chunk_segments dt work offset (offset + len)
                         (drop k (zip (fd_chunk_rows h) (fd_chunk_ends h)))) (\<lambda>segs.
                  fmt_err (column_view_new dt segs)))
        else rbind (uncompressed_slices h) (\<lambda>(data, validity).
             let lo = offset; hi = lo + len; s = size_of dt
             in rbind (slice_r (lo * s) (hi * s) data) (\<lambda>values.
                rbind (case validity of None \<Rightarrow> Ok None
                       | Some bits \<Rightarrow> rbind (fmt_err (bitmap_view_new bits lo len)) (\<lambda>v. Ok (Some v))) (\<lambda>validity'.
                  fmt_err (column_view_from_one dt values validity' len))))))"

text \<open>The part of a handle that its scanner sees (\<open>FieldHandle::range_views\<close>).\<close>

definition scan_source_of :: "field_handle \<Rightarrow> (core_error, scan_source) res" where
  "scan_source_of h =
     rbind (fd_data_type h) (\<lambda>dt.
       if fd_is_chunked h
       then rbind (working_ref h) (\<lambda>work.
            rbind (case wk_validity work of None \<Rightarrow> Ok None
                   | Some b \<Rightarrow> rbind (bitmap_as_view b) (\<lambda>v. Ok (Some (bv_data v)))) (\<lambda>validity.
              Ok \<lparr>src_type = dt, src_values = wk_values work, src_validity = validity\<rparr>))
       else rbind (uncompressed_slices h) (\<lambda>(data, validity).
              Ok \<lparr>src_type = dt, src_values = data, src_validity = validity\<rparr>))"

subsection \<open>The cells of a handle\<close>

definition cells_of :: "data_type \<Rightarrow> bytes \<Rightarrow> (nat \<Rightarrow> bool) \<Rightarrow> nat \<Rightarrow> (bool \<times> cell_value) list" where
  "cells_of dt values valid n =
     map (\<lambda>i. (valid i, CBytes (slice (i * size_of dt) ((i + 1) * size_of dt) values))) [0..<n]"

definition source_cells :: "scan_source \<Rightarrow> nat \<Rightarrow> (bool \<times> cell_value) list" where
  "source_cells src n = cells_of (src_type src) (src_values src) (src_valid src) n"

text \<open>
  A well-formed handle over the source \<open>src\<close>: the regions have the lengths the header promises and,
  for a chunked file, the chunks tile the rows.
\<close>

definition fd_ok :: "field_handle \<Rightarrow> scan_source \<Rightarrow> bool" where
  "fd_ok h src \<longleftrightarrow>
     scan_source_of h = Ok src \<and> length (src_values src) = fd_row_count h * size_of (src_type src) \<and>
     (\<forall>bits. src_validity src = Some bits \<longrightarrow> fd_row_count h \<le> 8 * length bits) \<and>
     (fd_is_chunked h \<longrightarrow> fd_chunk_ends h = running_ends 0 (fd_chunk_rows h) \<and>
        sum_list (fd_chunk_rows h) = fd_row_count h \<and>
        (\<forall>w b. fd_working h = Some w \<longrightarrow> wk_validity w = Some b \<longrightarrow>
           bitmap_ok b \<and> bm_bit_offset b = 0 \<and> bm_len b = fd_row_count h))"

lemma length_cells_of [simp]: "length (cells_of dt vs valid n) = n"
  by (simp add: cells_of_def)

lemma cells_of_nth [simp]: "i < n \<Longrightarrow> cells_of dt vs valid n ! i =
    (valid i, CBytes (slice (i * size_of dt) ((i + 1) * size_of dt) vs))"
  by (simp add: cells_of_def)

lemma cells_of_cong:
  assumes "\<And>i. i < n \<Longrightarrow> valid i = valid' i"
    and "\<And>i. i < n \<Longrightarrow> slice (i * size_of dt) ((i + 1) * size_of dt) vs = slice (i * size_of dt) ((i + 1) * size_of dt) vs'"
  shows "cells_of dt vs valid n = cells_of dt vs' valid' n"
  using assms by (simp add: cells_of_def)

text \<open>The segment that shows the rows \<open>[lo, hi)\<close> of a region.\<close>

lemma segment_cells:
  assumes "lo \<le> hi" "hi \<le> n" "length vs = n * size_of dt"
    and "\<And>i. i < hi - lo \<Longrightarrow> valid_at val i = valid (lo + i)"
  shows "seg_cells dt \<lparr>seg_values = Fixed (slice (lo * size_of dt) (hi * size_of dt) vs), seg_validity = val,
      seg_rows = hi - lo\<rparr> = slice lo hi (cells_of dt vs valid n)"
proof (rule nth_equalityI)
  show "length (seg_cells dt \<lparr>seg_values = Fixed (slice (lo * size_of dt) (hi * size_of dt) vs),
      seg_validity = val, seg_rows = hi - lo\<rparr>) = length (slice lo hi (cells_of dt vs valid n))"
    using assms(1,2) by simp
  fix i assume "i < length (seg_cells dt \<lparr>seg_values = Fixed (slice (lo * size_of dt) (hi * size_of dt) vs),
      seg_validity = val, seg_rows = hi - lo\<rparr>)"
  then have i: "i < hi - lo" by simp
  have "(i + 1) * size_of dt \<le> (hi - lo) * size_of dt" using i by (intro mult_le_mono1) simp
  then have "(i + 1) * size_of dt \<le> hi * size_of dt - lo * size_of dt" by (simp add: diff_mult_distrib)
  then have "slice (i * size_of dt) ((i + 1) * size_of dt) (slice (lo * size_of dt) (hi * size_of dt) vs) =
      slice ((lo + i) * size_of dt) ((lo + i + 1) * size_of dt) vs"
    by (simp add: slice_slice algebra_simps)
  then show "seg_cells dt \<lparr>seg_values = Fixed (slice (lo * size_of dt) (hi * size_of dt) vs),
      seg_validity = val, seg_rows = hi - lo\<rparr> ! i = slice lo hi (cells_of dt vs valid n) ! i"
    using i assms by (simp add: seg_cells_def cells_of_def nth_upt[of lo i n] less_diff_conv add.commute)
qed

subsection \<open>Reading is slicing\<close>

lemma length_running_ends [simp]: "length (running_ends acc rs) = length rs"
  by (induction rs arbitrary: acc) auto

lemma drop_partition_point:
  assumes "st \<le> offset" "offset < st + sum_list rs"
  shows "\<exists>st' rs'. drop (partition_point (\<lambda>e. e \<le> offset) (running_ends st rs)) (zip rs (running_ends st rs)) =
      zip rs' (running_ends st' rs') \<and> st' \<le> offset \<and> rs' \<noteq> [] \<and> offset < st' + hd rs' \<and>
      st' + sum_list rs' = st + sum_list rs"
  using assms
proof (induction rs arbitrary: st)
  case (Cons r rs)
  show ?case
  proof (cases "st + r \<le> offset")
    case True
    then show ?thesis using Cons.IH[of "st + r"] Cons.prems by (simp add: partition_point_def add.assoc)
  next
    case False
    then show ?thesis using Cons.prems
      by (intro exI[of _ st] exI[of _ "r # rs"]) (simp add: partition_point_def)
  qed
qed simp

definition bits_valid :: "bitmap option \<Rightarrow> nat \<Rightarrow> bool" where
  "bits_valid b i = (case b of None \<Rightarrow> True | Some m \<Rightarrow> bm_bit m i)"

definition bits_ok :: "bitmap option \<Rightarrow> nat \<Rightarrow> bool" where
  "bits_ok b n = (case b of None \<Rightarrow> True | Some m \<Rightarrow> bitmap_ok m \<and> bm_bit_offset m = 0 \<and> bm_len m = n)"

lemma bits_slice:
  assumes "bits_ok b n" "lo \<le> hi" "hi \<le> n"
  shows "\<exists>val. (case b of None \<Rightarrow> Ok None
      | Some b \<Rightarrow> rbind (bitmap_as_view b) (\<lambda>v. rbind (fmt_err (view_slice v lo (hi - lo))) (\<lambda>w. Ok (Some w)))) = Ok val \<and>
    validity_ok val (hi - lo) \<and> (\<forall>i. valid_at val i = bits_valid b (lo + i))"
proof (cases b)
  case (Some m)
  define v where "v = \<lparr>bv_data = bm_data m, bv_bit_offset = 0, bv_len = n\<rparr>"
  have m: "bitmap_ok m" "bm_bit_offset m = 0" "bm_len m = n" using assms(1) Some by (auto simp: bits_ok_def)
  have v: "bitmap_as_view m = (Ok v :: (core_error, _) res)" using bitmap_as_view_eq[OF m(1)] m by (simp add: v_def)
  have ok: "view_ok v" using m by (simp add: view_ok_def bitmap_ok_def v_def)
  have le: "lo + (hi - lo) \<le> bv_len v" using assms by (simp add: v_def)
  define w where "w = v\<lparr>bv_bit_offset := lo, bv_len := hi - lo\<rparr>"
  have w: "view_slice v lo (hi - lo) = Ok w" using view_slice_Ok[OF ok, of lo "hi - lo"] le by (simp add: w_def v_def)
  show ?thesis
    using v w view_slice_ok[OF w] view_slice_bit[OF w]
    by (intro exI[of _ "Some w"])
       (simp add: Some validity_ok_def valid_at_def bits_valid_def, simp add: view_bit_def bm_bit_def v_def m)
qed (simp add: validity_ok_def valid_at_def bits_valid_def)

lemma chunk_segments_eq:
  assumes "length (wk_values work) = n * size_of dt" "bits_ok (wk_validity work) n"
    "offset < stop" "stop \<le> n" "rs \<noteq> [] \<longrightarrow> offset < st + hd rs" "stop \<le> st + sum_list rs"
  shows "\<exists>segs. chunk_segments dt work offset stop (zip rs (running_ends st rs)) = Ok segs \<and>
    (\<forall>s \<in> set segs. seg_ok dt s) \<and>
    concat (map (seg_cells dt) segs) =
      slice (max offset st) stop (cells_of dt (wk_values work) (bits_valid (wk_validity work)) n)"
  using assms(5,6)
proof (induction rs arbitrary: st)
  case Nil
  then show ?case using assms(3) by (simp add: slice_def)
next
  case (Cons r rs)
  let ?cells = "cells_of dt (wk_values work) (bits_valid (wk_validity work)) n"
  show ?case
  proof (cases "stop \<le> st")
    case True
    then show ?thesis by (simp add: slice_def)
  next
    case False
    define lo where "lo = max offset st"
    define hi where "hi = min stop (st + r)"
    have b: "lo \<le> hi" "hi \<le> n" using Cons.prems assms(3,4) False by (auto simp: lo_def hi_def)
    have "\<exists>segs. chunk_segments dt work offset stop (zip rs (running_ends (st + r) rs)) = Ok segs \<and>
        (\<forall>s \<in> set segs. seg_ok dt s) \<and> concat (map (seg_cells dt) segs) = slice (max offset (st + r)) stop ?cells"
      using Cons.prems by (intro Cons.IH) auto
    then obtain segs where segs: "chunk_segments dt work offset stop (zip rs (running_ends (st + r) rs)) = Ok segs"
      "\<forall>s \<in> set segs. seg_ok dt s" "concat (map (seg_cells dt) segs) = slice (st + r) stop ?cells"
      using Cons.prems by (auto simp: max_def)
    obtain val where val: "(case wk_validity work of None \<Rightarrow> Ok None
      | Some b \<Rightarrow> rbind (bitmap_as_view b) (\<lambda>v. rbind (fmt_err (view_slice v lo (hi - lo))) (\<lambda>w. Ok (Some w)))) = Ok val"
      "validity_ok val (hi - lo)" "\<And>i. valid_at val i = bits_valid (wk_validity work) (lo + i)"
      using bits_slice[OF assms(2) b] by blast
    define sg where "sg = \<lparr>seg_values = Fixed (slice (lo * size_of dt) (hi * size_of dt) (wk_values work)),
      seg_validity = val, seg_rows = hi - lo\<rparr>"
    have bb: "lo * size_of dt \<le> hi * size_of dt" "hi * size_of dt \<le> length (wk_values work)"
      using b assms(1) by simp_all
    have e: "segment_new dt (slice (lo * size_of dt) (hi * size_of dt) (wk_values work)) val (hi - lo) = Ok sg"
      using bb by (simp add: segment_new_Ok sg_def diff_mult_distrib)
    have c: "seg_cells dt sg = slice lo hi ?cells"
      unfolding sg_def using b assms(1) val(3) by (intro segment_cells) auto
    have ok: "seg_ok dt sg" using val(2) bb by (simp add: seg_ok_def sg_def diff_mult_distrib)
    have "chunk_segments dt work offset stop (zip (r # rs) (running_ends st (r # rs))) = Ok (sg # segs)"
      using False bb val(1) e segs(1) by (simp add: Let_def lo_def[symmetric] hi_def[symmetric])
    moreover have "slice lo hi ?cells @ slice (st + r) stop ?cells = slice lo stop ?cells"
    proof (cases "st + r \<le> stop")
      case True
      then show ?thesis using b by (simp add: hi_def slice_join)
    next
      case False
      then show ?thesis by (simp add: hi_def slice_def)
    qed
    ultimately show ?thesis
      using ok segs c by (intro exI[of _ "sg # segs"]) (simp add: lo_def[symmetric])
  qed
qed

lemma fd_ok_chunked:
  assumes "fd_ok h src" "fd_is_chunked h"
  obtains work where "fd_working h = Some work" "src_values src = wk_values work"
    "bits_ok (wk_validity work) (fd_row_count h)" "\<And>i. bits_valid (wk_validity work) i = src_valid src i"
    "src_validity src = map_option bm_data (wk_validity work)"
proof -
  from assms obtain work where w: "fd_working h = Some work" "src_values src = wk_values work"
    and v: "(case wk_validity work of None \<Rightarrow> Ok None
         | Some b \<Rightarrow> rbind (bitmap_as_view b) (\<lambda>v. Ok (Some (bv_data v)))) = (Ok (src_validity src) :: (core_error, _) res)"
    by (auto simp: fd_ok_def scan_source_of_def working_ref_def res_simps)
  have b: "bits_ok (wk_validity work) (fd_row_count h)"
    using assms w(1) by (auto simp: fd_ok_def bits_ok_def split: option.splits)
  have m: "src_validity src = map_option bm_data (wk_validity work)"
    using v b by (cases "wk_validity work") (auto simp: bits_ok_def res_simps bitmap_as_view_eq)
  have "bits_valid (wk_validity work) i = src_valid src i" for i
    using b by (cases "wk_validity work") (auto simp: m bits_valid_def src_valid_def bits_ok_def bm_bit_def)
  then show thesis using that w b m by blast
qed

lemma fd_ok_type:
  assumes "fd_ok h src"
  shows "fd_data_type h = Ok (src_type src)"
proof -
  have "scan_source_of h = Ok src" using assms by (simp add: fd_ok_def)
  then have "fd_data_type h = (Ok (src_type src) :: (core_error, _) res)"
    by (auto simp: scan_source_of_def res_simps split: if_splits)
  then show ?thesis by (simp add: fd_data_type_def res_simps)
qed

lemma read_eq:
  assumes ok: "fd_ok h src" and b: "offset + len \<le> fd_row_count h"
  shows "\<exists>v. read_field_handle h offset len = Ok v \<and> column_view_ok v \<and> cv_length v = len \<and>
    cv_data_type v = src_type src \<and> view_cells v = slice offset (offset + len) (source_cells src (fd_row_count h))"
proof -
  let ?n = "fd_row_count h" and ?dt = "src_type src"
  have n: "?n \<le> u64_max" using unsigned_less[of "fh_row_count (fd_header h)", where 'a = nat]
    by (simp add: fd_row_count_def)
  then have g: "\<not> u64_max < offset + len" "\<not> ?n < offset + len" using b by simp_all
  have dt: "fd_data_type h = (Ok ?dt :: (core_error, _) res)" using fd_ok_type[OF ok] .
  have vl: "length (src_values src) = ?n * size_of ?dt" using ok by (simp add: fd_ok_def)
  show ?thesis
  proof (cases "len = 0")
    case True
    then show ?thesis
      using g dt column_view_empty_ok[of ?dt]
      by (simp add: read_field_handle_def column_view_empty_def)
  next
    case len: False
    show ?thesis
    proof (cases "fd_is_chunked h")
      case True
      obtain work where w: "fd_working h = Some work" "src_values src = wk_values work"
        "bits_ok (wk_validity work) ?n" "\<And>i. bits_valid (wk_validity work) i = src_valid src i"
        using fd_ok_chunked[OF ok True] by blast
      have ch: "fd_chunk_ends h = running_ends 0 (fd_chunk_rows h)" "sum_list (fd_chunk_rows h) = ?n"
        using ok True by (simp_all add: fd_ok_def)
      let ?k = "partition_point (\<lambda>e. e \<le> offset) (fd_chunk_ends h)"
      obtain st rs where d: "drop ?k (zip (fd_chunk_rows h) (fd_chunk_ends h)) = zip rs (running_ends st rs)"
        "st \<le> offset" "rs \<noteq> []" "offset < st + hd rs" "st + sum_list rs = ?n"
        using drop_partition_point[of 0 offset "fd_chunk_rows h"] ch len b by auto
      have "\<exists>segs. chunk_segments ?dt work offset (offset + len) (zip rs (running_ends st rs)) = Ok segs \<and>
          (\<forall>s \<in> set segs. seg_ok ?dt s) \<and> concat (map (seg_cells ?dt) segs) =
            slice (max offset st) (offset + len) (cells_of ?dt (wk_values work) (bits_valid (wk_validity work)) ?n)"
        using vl w(2,3) len b d by (intro chunk_segments_eq) auto
      moreover have "cells_of ?dt (wk_values work) (bits_valid (wk_validity work)) ?n = source_cells src ?n"
        using w(2,4) by (simp add: source_cells_def cells_of_def)
      ultimately obtain segs where s: "chunk_segments ?dt work offset (offset + len) (zip rs (running_ends st rs)) = Ok segs"
        "\<forall>s \<in> set segs. seg_ok ?dt s" "concat (map (seg_cells ?dt) segs) = slice offset (offset + len) (source_cells src ?n)"
        using d(2) by (auto simp: max_absorb1)
      have len': "length (slice offset (offset + len) (source_cells src ?n)) = len"
        using b by (simp add: source_cells_def)
      then have "sum_list (map seg_rows segs) = len"
        using s(3) by (metis length_concat_seg_cells)
      moreover have "segs \<noteq> []" using s(3) len len' by auto
      ultimately have "column_view_new ?dt segs = Ok \<lparr>cv_data_type = ?dt, cv_segments = segs, cv_length = len\<rparr>"
        by (simp add: column_view_new_def)
      moreover from this have "column_view_ok \<lparr>cv_data_type = ?dt, cv_segments = segs, cv_length = len\<rparr>"
        using s(2) by (rule column_view_new_ok)
      ultimately show ?thesis
        using g len True dt w(1) d(1) s(1,3)
        by (simp add: read_field_handle_def working_ref_def ok_or_def view_cells_def)
    next
      case False
      let ?s = "size_of ?dt"
      have u: "uncompressed_slices h = Ok (src_values src, src_validity src)"
        using ok False by (auto simp: fd_ok_def scan_source_of_def res_simps)
      have bb: "offset * ?s \<le> (offset + len) * ?s" "(offset + len) * ?s \<le> length (src_values src)"
        using b vl by simp_all
      obtain val where val: "(case src_validity src of None \<Rightarrow> Ok None
          | Some bits \<Rightarrow> rbind (fmt_err (bitmap_view_new bits offset len)) (\<lambda>v. Ok (Some v))) = Ok val"
        "validity_ok val len" "\<And>i. valid_at val i = src_valid src (offset + i)"
      proof (cases "src_validity src")
        case (Some bits)
        define w where "w = \<lparr>bv_data = bits, bv_bit_offset = offset, bv_len = len\<rparr>"
        have "offset + len \<le> 8 * length bits" using ok b Some by (fastforce simp: fd_ok_def)
        then have "bitmap_view_new bits offset len = Ok w" "view_ok w"
          by (simp_all add: bitmap_view_new_Ok w_def view_ok_def)
        then show ?thesis
          by (intro that[of "Some w"]) (simp_all add: Some validity_ok_def valid_at_def src_valid_def view_bit_def w_def)
      qed (auto simp: validity_ok_def valid_at_def src_valid_def)
      define sg where "sg = \<lparr>seg_values = Fixed (slice (offset * ?s) ((offset + len) * ?s) (src_values src)),
        seg_validity = val, seg_rows = len\<rparr>"
      have l: "length (slice (offset * ?s) ((offset + len) * ?s) (src_values src)) = len * ?s"
        using bb by (simp add: diff_mult_distrib algebra_simps)
      have e: "column_view_from_one ?dt (slice (offset * ?s) ((offset + len) * ?s) (src_values src)) val len =
          Ok \<lparr>cv_data_type = ?dt, cv_segments = [sg], cv_length = len\<rparr>"
        using l by (simp add: column_view_from_one_def segment_new_def column_view_new_def sg_def)
      have c: "seg_cells ?dt sg = slice offset (offset + len) (source_cells src ?n)"
        using segment_cells[of offset "offset + len" ?n "src_values src" ?dt val "src_valid src"] b vl val(3)
        by (simp add: sg_def source_cells_def)
      have "seg_ok ?dt sg" using val(2) l by (simp add: seg_ok_def sg_def)
      then have "column_view_ok \<lparr>cv_data_type = ?dt, cv_segments = [sg], cv_length = len\<rparr>"
        by (simp add: column_view_ok_def sg_def)
      moreover have "read_field_handle h offset len = Ok \<lparr>cv_data_type = ?dt, cv_segments = [sg], cv_length = len\<rparr>"
        using g len False dt u bb val(1) e by (simp add: read_field_handle_def Let_def)
      ultimately show ?thesis using c by (simp add: view_cells_def)
    qed
  qed
qed

subsection \<open>What a file holds\<close>

text \<open>
  The contract between the functions that write FIELD files and those that open them: every open of
  the bytes succeeds, in either mode, and shows the cells.
\<close>

definition field_holds :: "codec_backend \<Rightarrow> bytes \<Rightarrow> data_type \<Rightarrow> (bool \<times> cell_value) list \<Rightarrow> bool" where
  "field_holds B bs dt cells \<longleftrightarrow>
     (\<forall>fs p m. fs p = Some bs \<longrightarrow>
        (\<exists>h src. open_field_file B p m fs = (Ok h, fs) \<and> fd_ok h src \<and> src_type src = dt \<and>
           fd_row_count h = length cells \<and> source_cells src (length cells) = cells))"

lemma field_holds_read:
  assumes "field_holds B bs dt cells" "fs p = Some bs" "offset + len \<le> length cells"
  shows "\<exists>h v. open_field_file B p m fs = (Ok h, fs) \<and> read_field_handle h offset len = Ok v \<and>
    column_view_ok v \<and> cv_data_type v = dt \<and> cv_length v = len \<and> view_cells v = slice offset (offset + len) cells"
proof -
  obtain h src where h: "open_field_file B p m fs = (Ok h, fs)" "fd_ok h src" "src_type src = dt"
    "fd_row_count h = length cells" "source_cells src (length cells) = cells"
    using assms(1,2) unfolding field_holds_def by blast
  have b: "offset + len \<le> fd_row_count h" using h(4) assms(3) by simp
  show ?thesis using read_eq[OF h(2) b] h by auto
qed

definition opened_header :: "bytes \<Rightarrow> field_header \<Rightarrow> working option \<Rightarrow> field_header" where
  "opened_header bs header work =
     (case work of None \<Rightarrow> header
      | Some w \<Rightarrow>
          if is_chunked header \<and> \<not> (length bs = HEADER_SIZE \<and> 0 < fh_row_count header)
          then (case wk_validity w of
                  None \<Rightarrow> header\<lparr>fh_null_count := 0\<rparr>
                | Some b \<Rightarrow> header\<lparr>fh_null_count := of_nat (length (filter (\<lambda>i. \<not> bm_bit b i) [0..<bm_len b]))\<rparr>)
          else header)"

definition opened_field :: "string \<Rightarrow> mode \<Rightarrow> bytes \<Rightarrow> field_header \<Rightarrow> nat list \<Rightarrow> working option \<Rightarrow> field_handle" where
  "opened_field path m bs header chunk_rows work =
     \<lparr>fd_path = path, fd_header = opened_header bs header work, fd_mode = m,
      fd_backing = (case m of Read \<Rightarrow> BMmap bs | Write \<Rightarrow> BMmapMut bs),
      fd_chunk_rows = chunk_rows, fd_chunk_ends = running_ends 0 chunk_rows,
      fd_working = work, fd_modified = False\<rparr>"

lemma bm_null_count_eq:
  assumes "bitmap_ok b"
  shows "bm_null_count b = Ok (length (filter (\<lambda>i. \<not> bm_bit b i) [0..<bm_len b]))"
proof -
  define v where "v = \<lparr>bv_data = bm_data b, bv_bit_offset = bm_bit_offset b, bv_len = bm_len b\<rparr>"
  have "view_ok v" using assms by (simp add: v_def view_ok_def bitmap_ok_def)
  from view_null_count_eq[OF this] show ?thesis
    by (simp add: view_null_count_def view_count_ones_def bm_null_count_def bm_count_ones_def v_def view_bit_def bm_bit_def)
qed

lemma open_eq:
  assumes "fs path = Some bs" "field_header_ok header" "bs = field_header_to_bytes header @ body"
    "open_parts B bs header = Ok (chunk_rows, work)"
    "\<forall>w b. work = Some w \<longrightarrow> wk_validity w = Some b \<longrightarrow> bitmap_ok b"
  shows "open_field_file B path m fs = (Ok (opened_field path m bs header chunk_rows work), fs)"
proof -
  have l: "length (field_header_to_bytes header) = HEADER_SIZE" using field_pod.len .
  have "take HEADER_SIZE bs = field_header_to_bytes header" using l assms(3) by simp
  moreover have "field_header_from_bytes (field_header_to_bytes header) = Ok header"
    using field_pod.from_to[OF assms(2)] .
  moreover have "\<not> length bs < HEADER_SIZE" using l assms(3) by simp
  ultimately show ?thesis
    using assms(1,4,5)
    by (auto simp: open_field_file_def io_read_exact_def io_bind_def io_lift_def io_read_def file_open_def io_ret_def
        opened_field_def opened_header_def bm_null_count_eq split: option.splits)
qed

text \<open>An uncompressed file: header, DATA, VALIDITY.\<close>

lemma plain_holds:
  assumes "field_header_ok header" "\<not> is_chunked header" "field_data_type header = Ok dt"
    and rows: "unat (fh_row_count header) = n" and dl: "unat (fh_data_length header) = n * size_of dt"
    and "length data = n * size_of dt" "length vb = field_validity_size header"
    and body: "n = 0 \<or> data @ vb \<noteq> []"
  shows "field_holds B (field_header_to_bytes header @ data @ vb) dt
    (cells_of dt data (\<lambda>i. if has_validity header then get_bit vb i else True) n)"
  unfolding field_holds_def
proof (intro allI impI)
  fix fs :: files and p :: string and m :: mode
  let ?bs = "field_header_to_bytes header @ data @ vb"
  assume fs: "fs p = Some ?bs"
  have l: "length (field_header_to_bytes header) = HEADER_SIZE" using field_pod.len .
  have ho: "(length ?bs = HEADER_SIZE \<and> 0 < n) = False" using body l by auto
  have parts: "open_parts B ?bs header = Ok ([], None)"
    unfolding open_parts_def Let_def rows ho if_False using assms(2) by simp
  define h where "h = opened_field p m ?bs header [] None"
  have op: "open_field_file B p m fs = (Ok h, fs)"
    unfolding h_def using fs assms(1) parts
    by (intro open_eq[where fs = fs and path = p and body = "data @ vb"]) auto
  define src where "src = \<lparr>src_type = dt, src_values = data,
    src_validity = (if 0 < field_validity_size header then Some vb else None)\<rparr>"
  have hd: "fd_header h = header" by (simp add: h_def opened_field_def opened_header_def)
  have sl: "slice HEADER_SIZE (HEADER_SIZE + n * size_of dt) ?bs = data"
    "slice (HEADER_SIZE + n * size_of dt) (HEADER_SIZE + n * size_of dt + field_validity_size header) ?bs = vb"
    using l assms(6,7) by (simp_all add: slice_def)
  have "uncompressed_slices h = Ok (src_values src, src_validity src)"
    using l assms(6,7) sl
    by (cases m) (simp_all add: uncompressed_slices_def hd dl Let_def src_def h_def opened_field_def opened_header_def)
  then have sc: "scan_source_of h = Ok src"
    using assms(2,3) by (simp add: scan_source_of_def fd_data_type_def hd fd_is_chunked_def src_def)
  have rc: "fd_row_count h = n" by (simp add: fd_row_count_def hd rows)
  have "n \<le> 8 * length vb" if "0 < field_validity_size header"
    using that assms(7) validity_size_bound(1)[of n] by (auto simp: field_validity_size_def rows split: if_splits)
  then have ok: "fd_ok h src"
    using sc rc assms(2,6) by (simp add: fd_ok_def src_def fd_is_chunked_def hd)
  have "src_valid src i = (if has_validity header then get_bit vb i else True)" if "i < n" for i
    using that by (auto simp: src_valid_def src_def field_validity_size_def rows)
  then have "source_cells src n = cells_of dt data (\<lambda>i. if has_validity header then get_bit vb i else True) n"
    by (simp add: source_cells_def src_def cells_of_def)
  then show "\<exists>h src. open_field_file B p m fs = (Ok h, fs) \<and> fd_ok h src \<and> src_type src = dt \<and>
      fd_row_count h = length (cells_of dt data (\<lambda>i. if has_validity header then get_bit vb i else True) n) \<and>
      source_cells src (length (cells_of dt data (\<lambda>i. if has_validity header then get_bit vb i else True) n)) =
        cells_of dt data (\<lambda>i. if has_validity header then get_bit vb i else True) n"
    using op ok rc by (intro exI[of _ h] exI[of _ src]) (simp add: src_def)
qed

text \<open>A header-only file: every row is NULL and reads as zero bytes.\<close>

definition null_cells :: "data_type \<Rightarrow> nat \<Rightarrow> (bool \<times> cell_value) list" where
  "null_cells dt n = replicate n (False, CBytes (replicate (size_of dt) 0))"

lemma sum_default_chunk_rows: "sum_list (default_chunk_rows n) = n"
proof -
  let ?c = CREATE_CHUNK_ROWS
  have s: "sum_list (map (\<lambda>k. min (n - k * ?c) ?c) [0..<m]) = min n (m * ?c)" for m
    by (induction m) (auto simp: min_def)
  have "n \<le> (n + (?c - 1)) div ?c * ?c"
    by (simp add: CREATE_CHUNK_ROWS_def)
  then show ?thesis
    using s[of "(n + (?c - 1)) div ?c"] by (simp add: default_chunk_rows_def chunk_starts_def comp_def)
qed

lemma null_holds:
  assumes "field_header_ok header" "field_data_type header = Ok dt" "unat (fh_row_count header) = n" "0 < n"
  shows "field_holds B (field_header_to_bytes header) dt (null_cells dt n)"
  unfolding field_holds_def
proof (intro allI impI)
  fix fs :: files and p :: string and m :: mode
  let ?bs = "field_header_to_bytes header"
  assume fs: "fs p = Some ?bs"
  have l: "length ?bs = HEADER_SIZE" using field_pod.len .
  define w where "w = \<lparr>wk_values = replicate (n * size_of dt) 0, wk_validity = Some (bitmap_zeros n)\<rparr>"
  define cr where "cr = (if is_chunked header then default_chunk_rows n else [])"
  have parts: "open_parts B ?bs header = Ok (cr, Some w)"
    using l assms(2-4) by (simp add: open_parts_def w_def cr_def)
  define h where "h = opened_field p m ?bs header cr (Some w)"
  have op: "open_field_file B p m fs = (Ok h, fs)"
    unfolding h_def using fs assms(1) parts
    by (intro open_eq[where fs = fs and path = p and body = "[]"]) (auto simp: w_def bitmap_zeros_ok)
  have hd: "fd_header h = header"
    using l assms(3,4) by (simp add: h_def opened_field_def opened_header_def word_less_nat_alt)
  have rc: "fd_row_count h = n" by (simp add: fd_row_count_def hd assms(3))
  have v: "bitmap_as_view (bitmap_zeros n) =
      (Ok \<lparr>bv_data = bm_data (bitmap_zeros n), bv_bit_offset = 0, bv_len = n\<rparr> :: (core_error, _) res)"
    using bitmap_as_view_eq[OF bitmap_zeros_ok[of n]] by (simp add: bitmap_zeros_def)
  define src where "src = \<lparr>src_type = dt, src_values = replicate (n * size_of dt) 0,
    src_validity = Some (bm_data (bitmap_zeros n))\<rparr>"
  have wh: "fd_working h = Some w" by (simp add: h_def opened_field_def)
  have sc: "scan_source_of h = Ok src"
    using assms(2) v
    by (simp add: scan_source_of_def fd_data_type_def hd fd_is_chunked_def working_ref_def uncompressed_slices_def
        wh w_def src_def ok_or_def)
  have vl: "n \<le> 8 * length (bm_data (bitmap_zeros n))"
    using validity_size_bound(1)[of n] by (simp add: bitmap_zeros_def validity_size_def)
  have chk: "fd_is_chunked h \<longrightarrow> fd_chunk_ends h = running_ends 0 (fd_chunk_rows h) \<and>
      sum_list (fd_chunk_rows h) = n"
    by (auto simp: fd_is_chunked_def hd h_def opened_field_def opened_header_def cr_def sum_default_chunk_rows)
  then have ok: "fd_ok h src"
    using sc vl by (auto simp: fd_ok_def src_def rc wh w_def bitmap_zeros_ok) (auto simp: bitmap_zeros_def)
  have "source_cells src n = null_cells dt n"
  proof (rule nth_equalityI)
    fix i assume "i < length (source_cells src n)"
    then have i: "i < n" by (simp add: source_cells_def)
    have "\<not> bm_bit (bitmap_zeros n) i" using i by (rule bitmap_zeros_bits)
    then have "\<not> src_valid src i" by (simp add: src_valid_def src_def bm_bit_def bitmap_zeros_def)
    moreover have "(i + 1) * size_of dt \<le> n * size_of dt" using i by (intro mult_le_mono1) simp
    then have "slice (i * size_of dt) ((i + 1) * size_of dt) (replicate (n * size_of dt) (0 :: u8)) =
        replicate (size_of dt) 0"
      by (simp add: slice_def drop_replicate take_replicate min_def)
    ultimately show "source_cells src n ! i = null_cells dt n ! i"
      using i by (simp add: source_cells_def null_cells_def src_def)
  qed (simp add: source_cells_def null_cells_def)
  then show "\<exists>h src. open_field_file B p m fs = (Ok h, fs) \<and> fd_ok h src \<and> src_type src = dt \<and>
      fd_row_count h = length (null_cells dt n) \<and> source_cells src (length (null_cells dt n)) = null_cells dt n"
    using op ok rc by (intro exI[of _ h] exI[of _ src]) (simp add: src_def null_cells_def)
qed

end
