(* ===== verification/Meta_File.thy ===== *)
theory Meta_File
  imports File_System Field_Handle Index_Locate
begin

text \<open>
  META files on the disk (\<open>splayed-core/src/meta_file.rs\<close>): the atomic writer, the empty index, creating,
  replacing and deleting an index, and the reader and writer objects over a handle. An index that is replaced
  through a handle leaves the handle as a fresh open of the new file would give it.
\<close>

subsection \<open>Writing\<close>

definition write_meta_atomic :: "string \<Rightarrow> bytes \<Rightarrow> unit io" where
  "write_meta_atomic path bytes =
     io_bind (io_on_err (io_bind (io_truncate (tmp_path path)) (\<lambda>_. io_append (tmp_path path) bytes))
       (io_try_remove (tmp_path path))) (\<lambda>_. io_rename (tmp_path path) path)"

definition empty_header :: "time_type \<Rightarrow> meta_header" where
  "empty_header tt =
     \<lparr>mh_magic = META_MAGIC, mh_version = 2, mh_flags = 0, mh_time_type = time_type_id tt, mh_reserved0 = (0, 0, 0),
      mh_generation = 1, mh_time_count = 0, mh_sym_count = 0, mh_row_count = 0, mh_reserved1 = 0,
      mh_sym_dict_offset = of_nat HEADER_SIZE, mh_sym_index_offset = of_nat (HEADER_SIZE + 8),
      mh_file_size = of_nat (HEADER_SIZE + 8)\<rparr>"

definition open_index :: "string \<Rightarrow> meta_handle io" where
  "open_index path = (\<lambda>fs. (meta_open fs path, fs))"

definition create_index :: "string \<Rightarrow> time_type \<Rightarrow> meta_handle io" where
  "create_index path tt =
     io_bind (io_exists path) (\<lambda>ex.
     if ex then io_lift (Err (AlreadyExists path))
     else io_bind (io_create_new path) (\<lambda>_.
          io_bind (io_append path (meta_header_to_bytes (empty_header tt))) (\<lambda>_.
          io_bind (io_append path (replicate 8 0)) (\<lambda>_. open_index path))))"

definition create_meta_file :: "string \<Rightarrow> data_view \<Rightarrow> unit io" where
  "create_meta_file path data = io_bind (io_lift (meta_build data)) (write_meta_atomic path)"

definition init_index :: "string \<Rightarrow> data_view \<Rightarrow> meta_handle io" where
  "init_index path data = io_bind (create_meta_file path data) (\<lambda>_. open_index path)"

definition delete_meta_file :: "string \<Rightarrow> unit io" where
  "delete_meta_file path = io_remove path"

definition drop_index :: "meta_handle \<Rightarrow> unit io" where
  "drop_index h = delete_meta_file (mt_path h)"

definition index_schema_of :: "string \<Rightarrow> schema io" where
  "index_schema_of path = io_bind (open_index path) (\<lambda>h. io_ret (read_index_schema h))"

text \<open>\<open>Path::with_extension\<close>: what follows the last dot of the file name is replaced, unless that dot is
  its first character.\<close>

definition file_stem :: "string \<Rightarrow> string" where
  "file_stem f = (let before = rev (drop 1 (dropWhile (\<lambda>c. c \<noteq> CHR ''.'') (rev f)))
     in if f = ''..'' \<or> before = [] then f else before)"

definition with_extension :: "string \<Rightarrow> string \<Rightarrow> string" where
  "with_extension ext p = (let f = file_name p
     in if f = [] \<or> f = ''..'' then p else take (length p - length f) p @ file_stem f @ ''.'' @ ext)"

text \<open>\<open>update_index\<close> gives the handle on the new file; on an error the handle stays as it was.\<close>

definition update_index :: "meta_handle \<Rightarrow> data_view \<Rightarrow> meta_handle io" where
  "update_index h data =
     (let tmp = with_extension ''tmp'' (mt_path h)
      in io_bind (io_lift (meta_build data)) (\<lambda>bytes.
         io_bind (io_truncate tmp) (\<lambda>_.
         io_bind (io_append tmp bytes) (\<lambda>_.
         io_bind (io_read tmp) (\<lambda>new_mmap.
         io_bind (io_lift (slice_r 0 HEADER_SIZE new_mmap)) (\<lambda>head.
         io_bind (io_lift (map_err EFormat (meta_header_from_bytes head))) (\<lambda>new_header.
         io_bind (io_rename tmp (mt_path h)) (\<lambda>_.
           io_ret (h\<lparr>mt_mmap := new_mmap, mt_header := new_header\<rparr>)))))))))"

subsection \<open>Readers and writers\<close>

record index_reader = ir_inner :: meta_handle
record index_writer = iw_inner :: meta_handle

definition index_reader_open :: "string \<Rightarrow> index_reader io" where
  "index_reader_open path = io_bind (open_index path) (\<lambda>h. io_ret \<lparr>ir_inner = h\<rparr>)"

definition index_writer_open :: "string \<Rightarrow> index_writer io" where
  "index_writer_open path = io_bind (open_index path) (\<lambda>h. io_ret \<lparr>iw_inner = h\<rparr>)"

definition index_writer_create :: "string \<Rightarrow> time_type \<Rightarrow> index_writer io" where
  "index_writer_create path tt = io_bind (create_index path tt) (\<lambda>_. index_writer_open path)"

definition index_writer_init :: "string \<Rightarrow> data_view \<Rightarrow> index_writer io" where
  "index_writer_init path data = io_bind (init_index path data) (\<lambda>_. index_writer_open path)"

definition index_reader_read :: "index_reader \<Rightarrow> nat \<Rightarrow> nat \<Rightarrow> (core_error, data_view) res" where
  "index_reader_read r offset len = read_index_handle (ir_inner r) offset len"

definition index_writer_read :: "index_writer \<Rightarrow> nat \<Rightarrow> nat \<Rightarrow> (core_error, data_view) res" where
  "index_writer_read w offset len = read_index_handle (iw_inner w) offset len"

definition index_writer_update :: "index_writer \<Rightarrow> data_view \<Rightarrow> index_writer io" where
  "index_writer_update w data = io_bind (update_index (iw_inner w) data) (\<lambda>h. io_ret \<lparr>iw_inner = h\<rparr>)"

definition index_writer_as_reader :: "index_writer \<Rightarrow> index_reader io" where
  "index_writer_as_reader w = index_reader_open (mt_path (iw_inner w))"

definition index_writer_remove :: "index_writer \<Rightarrow> unit io" where
  "index_writer_remove w = delete_meta_file (mt_path (iw_inner w))"

subsection \<open>The empty index\<close>

lemma empty_image: "meta_header_to_bytes (empty_header tt) @ replicate 8 0 = meta_image tt [] [] [] 0"
proof -
  have "image_header tt 0 [] 0 = empty_header tt"
    by (simp add: image_header_def empty_header_def meta_header_new_def header_consts Let_def DATA_OFFSET_def FORMAT_VERSION_def)
  moreover have "concat (map (le_bytes 8) (dict_offsets [])) = replicate 8 0"
    by (simp add: dict_offsets_def le_bytes_def numeral_eq_Suc)
  ultimately show ?thesis by (simp add: meta_image_def)
qed

lemma header_of_prefix:
  assumes "meta_open fs path = Ok h" "fs path = Some b"
  shows "HEADER_SIZE \<le> length b" "meta_header_from_bytes (take HEADER_SIZE b) = Ok (mt_header h)" "mt_mmap h = b" "mt_path h = path"
proof -
  have o: "meta_header_from_bytes b = Ok (mt_header h) \<and> mt_mmap h = b \<and> mt_path h = path"
    using assms by (cases "meta_header_from_bytes b") (auto simp: meta_open_def file_open_def split: if_splits)
  then show l: "HEADER_SIZE \<le> length b" "mt_mmap h = b" "mt_path h = path"
    by (auto simp: meta_header_from_bytes_def split: if_splits)
  have "slice 0 HEADER_SIZE (take HEADER_SIZE b) = slice 0 HEADER_SIZE b" by (simp add: slice_def)
  then show "meta_header_from_bytes (take HEADER_SIZE b) = Ok (mt_header h)"
    using o l(1) by (simp add: meta_header_from_bytes_def)
qed

lemma create_index_eq:
  assumes "fs path = None"
  shows "\<exists>h. create_index path tt fs = (Ok h, fs(path \<mapsto> meta_image tt [] [] [] 0)) \<and> indexed tt [] [] [] 0 h \<and> mt_path h = path"
proof -
  let ?fs = "fs(path \<mapsto> meta_image tt [] [] [] 0)"
  have "image_fits tt [] [] []" by (simp add: image_fits_def image_size_def)
  then obtain h where h: "meta_open ?fs path = Ok h" "opened tt [] [] [] 0 h"
    using open_image[of ?fs path tt "[]" "[]" "[]" 0] by auto
  have "create_index path tt fs = (Ok h, ?fs)"
    using assms h(1) empty_image[of tt]
    by (simp add: create_index_def io_simps io_bind_def io_exists_def io_create_new_def io_append_def open_index_def io_lift_def)
  then show ?thesis using h(2) header_of_prefix(4)[OF h(1)] by (intro exI[of _ h]) (simp add: indexed_def)
qed

subsection \<open>Replacing an index\<close>

lemma write_meta_eq: "write_meta_atomic path bytes fs = (Ok (), (fs(tmp_path path := None))(path \<mapsto> bytes))"
  by (simp add: write_meta_atomic_def io_bind_def io_on_err_def io_truncate_def io_append_def io_rename_def)

text \<open>After a replacement the handle is what an open of the new file gives.\<close>

lemma update_index_eq:
  assumes b: "meta_build data = Ok b" and o: "meta_open (\<lambda>_. Some b) (mt_path h) = Ok h'"
    and t: "with_extension ''tmp'' (mt_path h) \<noteq> mt_path h"
  shows "update_index h data fs = (Ok h', (fs(with_extension ''tmp'' (mt_path h) := None))(mt_path h \<mapsto> b))"
proof -
  note p = header_of_prefix[OF o refl]
  have "h\<lparr>mt_mmap := b, mt_header := mt_header h'\<rparr> = h'" using p(3,4) by simp
  moreover have "slice_r 0 HEADER_SIZE b = (Ok (take HEADER_SIZE b) :: (core_error, _) res)"
    using p(1) by (simp add: slice_r_def slice_ok_def slice_def)
  ultimately show ?thesis using b p(2) t
    by (simp add: update_index_def Let_def io_bind_def io_lift_def io_truncate_def io_append_def io_read_def file_open_def io_rename_def io_ret_def)
qed

lemma meta_open_cong: "fs path = fs' path \<Longrightarrow> meta_open fs path = meta_open fs' path"
  by (simp add: meta_open_def file_open_def)

lemma update_index_fails:
  assumes "\<not> is_ok (meta_build data)"
  shows "\<exists>r. update_index h data fs = (r, fs) \<and> \<not> is_ok r"
  using assms by (cases "meta_build data") (simp_all add: update_index_def Let_def io_bind_def io_lift_def)

lemma with_extension_meta: "with_extension ''tmp'' (root @ ''/.meta'') = root @ ''/.meta.tmp''"
proof -
  have "takeWhile (\<lambda>c. c \<noteq> CHR ''/'') (rev (root @ ''/.meta'')) = ''atem.''" by simp
  then show ?thesis by (simp add: with_extension_def file_name_def Let_def file_stem_def)
qed

subsection \<open>Properties\<close>

text \<open>C33. Replacing the index of a dataset: the new file is in place, the temporary file is gone and no other
  file has changed; the handle is the one that opening the new file gives, its grid shows the symbol and the
  time of every row of the new input. An input that the builder refuses changes nothing.\<close>

theorem update_index_reopens:
  assumes "build_input data tt keys tms name n" "sorted_input keys tms name" "meta_build data = Ok b" "length b \<le> u64_max"
    and "with_extension ''tmp'' (mt_path h) \<noteq> mt_path h"
  shows "\<exists>h' fs' names recs. update_index h data fs = (Ok h', fs') \<and> fs' (mt_path h) = Some b \<and>
    fs' (with_extension ''tmp'' (mt_path h)) = None \<and>
    (\<forall>q. q \<noteq> mt_path h \<and> q \<noteq> with_extension ''tmp'' (mt_path h) \<longrightarrow> fs' q = fs q) \<and>
    meta_open fs' (mt_path h) = Ok h' \<and> indexed tt (time_axis tms) names recs n h' \<and>
    (\<forall>i < n. case grid_from 0 recs ! i of (s, t) \<Rightarrow> s < length names \<and> t < length (time_axis tms) \<and>
       names ! s = name i \<and> time_axis tms ! t = tms ! i) \<and>
    (\<forall>bad. \<not> is_ok (meta_build bad) \<longrightarrow> snd (update_index h bad fs) = fs)"
proof -
  obtain h' names recs where h': "meta_open (\<lambda>_. Some b) (mt_path h) = Ok h'" "indexed tt (time_axis tms) names recs n h'"
    and g: "\<forall>i < n. case grid_from 0 recs ! i of (s, t) \<Rightarrow> s < length names \<and> t < length (time_axis tms) \<and>
       names ! s = name i \<and> time_axis tms ! t = tms ! i"
    using built_open[where fs = "\<lambda>_. Some b" and path = "mt_path h", OF assms(1-4) refl] by blast
  let ?tmp = "with_extension ''tmp'' (mt_path h)"
  let ?fs' = "(fs(?tmp := None))(mt_path h \<mapsto> b)"
  have up: "update_index h data fs = (Ok h', ?fs')" by (rule update_index_eq[OF assms(3) h'(1) assms(5)])
  have "meta_open ?fs' (mt_path h) = Ok h'" using h'(1) meta_open_cong[of ?fs' "mt_path h" "\<lambda>_. Some b"] by simp
  moreover have "snd (update_index h bad fs) = fs" if "\<not> is_ok (meta_build bad)" for bad
    using update_index_fails[OF that, of h fs] by auto
  ultimately show ?thesis using up h'(2) g assms(5)
    by (intro exI[of _ h'] exI[of _ ?fs'] exI[of _ names] exI[of _ recs]) simp
qed

text \<open>The empty index of \<open>create_index\<close> replaced by that of the example.\<close>

theorem update_index_reopens_witness:
  "\<exists>b h h' fs'. create_index ''r/.meta'' TT_TimestampUs (\<lambda>_. None) = (Ok h, [''r/.meta'' \<mapsto> meta_image TT_TimestampUs [] [] [] 0]) \<and>
     meta_build (example_input [1, 2, 1, 2, 3]) = Ok b \<and>
     update_index h (example_input [1, 2, 1, 2, 3]) [''r/.meta'' \<mapsto> meta_image TT_TimestampUs [] [] [] 0] = (Ok h', fs') \<and>
     fs' ''r/.meta'' = Some b \<and> fs' ''r/.meta.tmp'' = None \<and> meta_open fs' ''r/.meta'' = Ok h'"
proof -
  obtain b where b: "meta_build (example_input [1, 2, 1, 2, 3]) = Ok b" "length b \<le> u64_max" by (rule example_built)
  let ?fs = "[''r/.meta'' \<mapsto> meta_image TT_TimestampUs [] [] [] 0]"
  obtain h where h: "create_index ''r/.meta'' TT_TimestampUs (\<lambda>_. None) = (Ok h, ?fs)" and p: "mt_path h = ''r/.meta''"
    using create_index_eq[of "\<lambda>_. None" "''r/.meta''" TT_TimestampUs, OF refl] by (elim exE conjE) (rule that)
  have t: "with_extension ''tmp'' ''r/.meta'' = ''r/.meta.tmp''" using with_extension_meta[of "''r''"] by simp
  then have "with_extension ''tmp'' (mt_path h) \<noteq> mt_path h" by (simp add: p)
  from update_index_reopens[OF example_build_input example_sorted b this, of ?fs]
  obtain h' fs' where "update_index h (example_input [1, 2, 1, 2, 3]) ?fs = (Ok h', fs')" "fs' ''r/.meta'' = Some b"
    "fs' ''r/.meta.tmp'' = None" "meta_open fs' ''r/.meta'' = Ok h'"
    unfolding p t by (elim exE conjE) (rule that)
  then show ?thesis using h b(1) by (intro exI[of _ b] exI[of _ h] exI[of _ h'] exI[of _ fs'] conjI)
qed

text \<open>Every image carries generation 1: replacing an index does not raise the generation.\<close>

theorem generation_stays: "mh_generation (image_header tt k names rc) = 1"
  by (simp add: image_header_def meta_header_new_def Let_def)

end
