(* ===== verification/Field_Chunks.thy ===== *)
theory Field_Chunks
  imports Field_Handle
begin

text \<open>
  Chunk streams: a sequence of chunks that encodes consecutive row ranges is walked and decoded back to
  the column it was made from, so a file of a header and such a stream holds the column's cells. The
  chunk boundaries that the writers compute are such ranges.
\<close>

subsection \<open>Chunk streams\<close>

text \<open>Ranges that cover \<open>[a, n)\<close> in order, none of them empty.\<close>

fun tiles :: "nat \<Rightarrow> nat \<Rightarrow> (nat \<times> nat) list \<Rightarrow> bool" where
  "tiles a n [] \<longleftrightarrow> a = n"
| "tiles a n ((lo, hi) # rs) \<longleftrightarrow> lo = a \<and> lo < hi \<and> tiles hi n rs"

lemma tiles_le: "tiles a n rs \<Longrightarrow> a \<le> n"
  by (induction a n rs rule: tiles.induct) auto

lemma tiles_bound: "tiles a n rs \<Longrightarrow> (lo, hi) \<in> set rs \<Longrightarrow> a \<le> lo \<and> lo < hi \<and> hi \<le> n"
  by (induction a n rs rule: tiles.induct) (use tiles_le in fastforce)+

lemma tiles_sum: "tiles a n rs \<Longrightarrow> a + sum_list (map (\<lambda>(lo, hi). hi - lo) rs) = n"
  by (induction a n rs rule: tiles.induct) auto

text \<open>A chunk that encodes the rows \<open>[lo, hi)\<close> of a column, and the size it may have.\<close>

definition bits_code :: "bytes option \<Rightarrow> (nat \<Rightarrow> bool) \<Rightarrow> nat \<Rightarrow> nat \<Rightarrow> bool" where
  "bits_code val valid lo n = (case val of
      None \<Rightarrow> \<forall>j. lo \<le> j \<longrightarrow> j < lo + n \<longrightarrow> valid j
    | Some p \<Rightarrow> \<forall>j. j < n \<longrightarrow> get_bit p j = valid (lo + j))"

definition chunk_codes ::
  "codec_backend \<Rightarrow> encoding \<Rightarrow> compression \<Rightarrow> data_type \<Rightarrow> bytes \<Rightarrow> (nat \<Rightarrow> bool) \<Rightarrow> nat \<times> nat \<Rightarrow> bytes \<Rightarrow> bool" where
  "chunk_codes B e c dt vals valid r ch = (case r of (lo, hi) \<Rightarrow>
     \<exists>val. encode_chunk B e c dt (slice (lo * size_of dt) (hi * size_of dt) vals) val (hi - lo) = Ok ch \<and>
       bits_code val valid lo (hi - lo))"

definition chunk_small :: "nat \<times> nat \<Rightarrow> bytes \<Rightarrow> bool" where
  "chunk_small r ch = (case r of (lo, hi) \<Rightarrow> 12 * (hi - lo) < u32_max \<and> length ch \<le> u32_max)"

lemma encoded_header:
  assumes "encode_chunk B e c dt vs val rows = Ok ch" "12 * rows < u32_max" "length ch \<le> u32_max"
  shows "\<exists>hdr. chunk_header_from_bytes (ch @ rest) = Ok hdr \<and>
    CHUNK_HEADER_SIZE + unat (ch_payload_len hdr) = length ch \<and> unat (ch_rows hdr) = rows"
proof -
  have r: "rows \<le> u32_max" using assms(2) by simp
  obtain encoded payload where "length vs = rows * size_of dt"
    "\<And>bits. val = Some bits \<Longrightarrow> length bits = validity_size rows"
    "encode_values e dt vs rows = Ok encoded"
    "compress B c (encoded @ (case val of None \<Rightarrow> [] | Some bits \<Rightarrow> bits)) = Ok payload"
    and ch: "ch = chunk_header_to_bytes \<lparr>ch_rows = of_nat rows, ch_values_len = of_nat (length encoded),
        ch_payload_len = of_nat (length payload)\<rparr> @ payload"
    using encode_chunk_Ok[OF assms(1) r] by blast
  define hdr where "hdr = \<lparr>ch_rows = of_nat rows, ch_values_len = of_nat (length encoded),
      ch_payload_len = (of_nat (length payload) :: u32)\<rparr>"
  have l: "length (chunk_header_to_bytes hdr) = CHUNK_HEADER_SIZE" using chunk_pod.len .
  have p: "length payload \<le> u32_max" using assms(3) ch by simp
  have c: "ch = chunk_header_to_bytes hdr @ payload" using ch by (simp only: hdr_def)
  have "chunk_header_from_bytes (ch @ rest) = Ok hdr"
    unfolding c append_assoc by (rule chunk_pod.read_back) simp
  moreover have "CHUNK_HEADER_SIZE + unat (ch_payload_len hdr) = length ch"
    using l p unfolding c by (simp add: hdr_def)
  moreover have "unat (ch_rows hdr) = rows" using r by (simp add: hdr_def)
  ultimately show ?thesis by blast
qed

lemma copy_bits_from_eq:
  assumes "bitmap_ok b" "bm_bit_offset b = 0" "off + len \<le> bm_len b" "view_ok v" "len \<le> bv_len v"
  shows "\<exists>b' old new. bitmap_copy_bits_from b off v len = (Ok (b', old, new) :: ('e, _) res) \<and> bitmap_ok b' \<and>
    bm_bit_offset b' = 0 \<and> bm_len b' = bm_len b \<and> length (bm_data b') = length (bm_data b) \<and>
    old = ones (bm_data b) off (off + len) \<and> new = ones (bm_data b') off (off + len) \<and>
    (\<forall>j. bm_bit b' j = (if off \<le> j \<and> j < off + len then view_bit v (j - off) else bm_bit b j))"
proof -
  have f: "off + len \<le> length (bm_data b) * 8" "bv_bit_offset v + len \<le> length (bv_data v) * 8"
    using assms by (simp_all add: bitmap_ok_def view_ok_def)
  from bitmap_copy_bits_eq[OF f, where 'e = 'e] obtain d where d:
    "bitmap_copy_bits (bm_data b) off (bv_data v) (bv_bit_offset v) len =
       (Ok (d, ones (bm_data b) off (off + len), ones d off (off + len)) :: ('e, _) res)"
    "length d = length (bm_data b)"
    "\<forall>j. get_bit d j = (if off \<le> j \<and> j < off + len then get_bit (bv_data v) (bv_bit_offset v + (j - off))
       else get_bit (bm_data b) j)" by blast
  show ?thesis
    using assms(1-3) d
    by (intro exI[of _ "b\<lparr>bm_data := d\<rparr>"])
       (simp add: bitmap_copy_bits_from_def bitmap_ok_def bm_bit_def view_bit_def)
qed

lemma set_range_eq:
  assumes "bitmap_ok b" "bm_bit_offset b = 0" "off + len \<le> bm_len b"
  shows "\<exists>b' old. bitmap_set_range b off len v = (Ok (b', old) :: ('e, _) res) \<and> bitmap_ok b' \<and>
    bm_bit_offset b' = 0 \<and> bm_len b' = bm_len b \<and> length (bm_data b') = length (bm_data b) \<and>
    old = ones (bm_data b) off (off + len) \<and>
    (\<forall>j. bm_bit b' j = (if off \<le> j \<and> j < off + len then v else bm_bit b j))"
proof -
  have f: "off + len \<le> length (bm_data b) * 8" using assms by (simp add: bitmap_ok_def)
  from bitmap_fill_bits_eq[OF f, where 'e = 'e and valid = v] obtain d where d:
    "bitmap_fill_bits (bm_data b) off len v = (Ok (d, ones (bm_data b) off (off + len)) :: ('e, _) res)"
    "length d = length (bm_data b)"
    "\<forall>j. get_bit d j = (if off \<le> j \<and> j < off + len then v else get_bit (bm_data b) j)" by blast
  show ?thesis
    using assms d
    by (intro exI[of _ "b\<lparr>bm_data := d\<rparr>"]) (simp add: bitmap_set_range_def bitmap_ok_def bm_bit_def)
qed

lemma merge_chunk_bits_eq:
  assumes b: "bitmap_ok b" "bm_bit_offset b = 0" "bm_len b = n" "a + rows \<le> n"
    and val: "bits_code val valid a rows" "case val of None \<Rightarrow> True | Some p \<Rightarrow> length p = validity_size rows"
  shows "\<exists>b'. merge_chunk_bits (Some b) val a rows = Ok (Some b') \<and> bitmap_ok b' \<and> bm_bit_offset b' = 0 \<and>
    bm_len b' = n \<and> (\<forall>j. bm_bit b' j = (if a \<le> j \<and> j < a + rows then valid j else bm_bit b j))"
proof (cases val)
  case None
  have le: "a + rows \<le> bm_len b" using b by simp
  from set_range_eq[OF b(1,2) le, of True, where 'e = core_error] obtain b' old where
    b': "bitmap_set_range b a rows True = (Ok (b', old) :: (core_error, _) res)" "bitmap_ok b'"
      "bm_bit_offset b' = 0" "bm_len b' = bm_len b"
      "\<forall>j. bm_bit b' j = (if a \<le> j \<and> j < a + rows then True else bm_bit b j)" by blast
  show ?thesis
    using b' b(3) val(1) None by (intro exI[of _ b']) (simp add: merge_chunk_bits_def bits_code_def)
next
  case (Some p)
  define v where "v = \<lparr>bv_data = p, bv_bit_offset = 0, bv_len = rows\<rparr>"
  have v: "bitmap_view_new p 0 rows = Ok v" "view_ok v"
    using val(2) Some validity_size_bound(1)[of rows] by (simp_all add: bitmap_view_new_Ok v_def view_ok_def)
  have "bv_len v = rows" by (simp add: v_def)
  with copy_bits_from_eq[of b a rows v, where 'e = core_error] b v(2) obtain b' old new where
    b': "bitmap_copy_bits_from b a v rows = (Ok (b', old, new) :: (core_error, _) res)" "bitmap_ok b'"
      "bm_bit_offset b' = 0" "bm_len b' = n"
      "\<forall>j. bm_bit b' j = (if a \<le> j \<and> j < a + rows then view_bit v (j - a) else bm_bit b j)" by auto
  have "view_bit v (j - a) = valid j" if "a \<le> j" "j < a + rows" for j
  proof -
    have "get_bit p (j - a) = valid (a + (j - a))" using val(1) Some that by (simp add: bits_code_def)
    then show ?thesis using that by (simp add: view_bit_def v_def)
  qed
  then show ?thesis using v(1) b' Some by (intro exI[of _ b']) (simp add: merge_chunk_bits_def)
qed

subsection \<open>Decoding a stream\<close>

lemma decode_loop_chunks:
  assumes B: "backend_ok B" and dt: "dt \<noteq> Utf8" and vals: "length vals = n * size_of dt"
    and "tiles a n rs" "list_all2 (chunk_codes B e c dt vals valid) rs cs" "list_all2 chunk_small rs cs"
    and "length cur = n * size_of dt" "bitmap_ok b" "bm_bit_offset b = 0" "bm_len b = n"
  shows "\<exists>b'. decode_loop B e c dt (concat cs) cur (Some b) a =
      Ok (take (a * size_of dt) cur @ drop (a * size_of dt) vals, Some b', n) \<and>
    bitmap_ok b' \<and> bm_bit_offset b' = 0 \<and> bm_len b' = n \<and>
    (\<forall>j. bm_bit b' j = (if a \<le> j \<and> j < n then valid j else bm_bit b j))"
  using assms(4-)
proof (induction rs arbitrary: a cs cur b)
  case Nil
  then show ?case using vals by (auto simp: decode_loop.simps)
next
  case (Cons r rs)
  let ?s = "size_of dt"
  obtain hi where r: "r = (a, hi)" "a < hi" "tiles hi n rs" using Cons.prems(1) by (cases r) auto
  have hn: "hi \<le> n" using tiles_le[OF r(3)] .
  obtain ch cs' where cs: "cs = ch # cs'" "chunk_codes B e c dt vals valid r ch" "chunk_small r ch"
    "list_all2 (chunk_codes B e c dt vals valid) rs cs'" "list_all2 chunk_small rs cs'"
    using Cons.prems(2,3) by (cases cs) auto
  let ?vs = "slice (a * ?s) (hi * ?s) vals"
  obtain val where enc: "encode_chunk B e c dt ?vs val (hi - a) = Ok ch" and bits: "bits_code val valid a (hi - a)"
    using cs(2) r(1) by (auto simp: chunk_codes_def)
  have sm: "12 * (hi - a) < u32_max" "length ch \<le> u32_max" using cs(3) r(1) by (simp_all add: chunk_small_def)
  obtain hdr where hdr: "chunk_header_from_bytes (ch @ concat cs') = Ok hdr"
    "CHUNK_HEADER_SIZE + unat (ch_payload_len hdr) = length ch"
    using encoded_header[OF enc sm] by blast
  have dec: "decode_chunk B e c dt ch = Ok (?vs, val, hi - a)"
    using decode_encode_chunk[OF enc B dt sm, of "[]"] r(2) by simp
  have vl: "case val of None \<Rightarrow> True | Some p \<Rightarrow> length p = validity_size (hi - a)"
    using decode_chunk_ok(2)[OF dec] .
  have ne: "ch \<noteq> []" using hdr(2) by (auto simp: CHUNK_HEADER_SIZE_def)
  have hs: "a * ?s \<le> hi * ?s" "hi * ?s \<le> n * ?s" using r(2) hn by simp_all
  have lv: "length ?vs = hi * ?s - a * ?s" using hs vals by simp
  define cur' where "cur' = splice (a * ?s) ?vs cur"
  have cp: "copy_into (a * ?s) ((a + (hi - a)) * ?s) ?vs cur = (Ok cur' :: (core_error, _) res)"
    using hs lv r(2) Cons.prems(4) by (simp add: copy_into_def cur'_def)
  have cl: "length cur' = n * ?s" using hs lv Cons.prems(4) by (simp add: cur'_def)
  have le: "a + (hi - a) \<le> n" using r(2) hn by simp
  obtain b1 where b1: "merge_chunk_bits (Some b) val a (hi - a) = Ok (Some b1)" "bitmap_ok b1" "bm_bit_offset b1 = 0"
    "bm_len b1 = n" "\<forall>j. bm_bit b1 j = (if a \<le> j \<and> j < a + (hi - a) then valid j else bm_bit b j)"
    using merge_chunk_bits_eq[OF Cons.prems(5,6,7) le bits vl] by blast
  obtain b' where b': "decode_loop B e c dt (concat cs') cur' (Some b1) hi =
      Ok (take (hi * ?s) cur' @ drop (hi * ?s) vals, Some b', n)" "bitmap_ok b'" "bm_bit_offset b' = 0" "bm_len b' = n"
    "\<forall>j. bm_bit b' j = (if hi \<le> j \<and> j < n then valid j else bm_bit b1 j)"
    using Cons.IH[OF r(3) cs(4,5) cl b1(2,3,4)] by blast
  have "length (take (a * ?s) cur @ ?vs) = hi * ?s"
    using hs lv Cons.prems(4) by (simp only: length_append length_take min_absorb2 order_trans[OF hs] le_add_diff_inverse)
  then have "take (hi * ?s) cur' = take (a * ?s) cur @ ?vs"
    by (simp only: cur'_def splice_def append_assoc[symmetric] take_append[of "hi * ?s" "take (a * ?s) cur @ ?vs"])
       (simp add: min_absorb2[OF hs(1)])
  then have v: "take (hi * ?s) cur' @ drop (hi * ?s) vals = take (a * ?s) cur @ drop (a * ?s) vals"
    using append_take_drop_id[of "hi * ?s - a * ?s" "drop (a * ?s) vals"]
    by (simp only: drop_drop le_add_diff_inverse2[OF hs(1)] slice_def append_assoc)
  have "decode_loop B e c dt (concat cs) cur (Some b) a = decode_loop B e c dt (concat cs') cur' (Some b1) hi"
    using ne hdr dec cp b1(1) r(2) cs(1)
    by (subst decode_loop.simps) (simp add: Let_def)
  moreover have "bm_bit b' j = (if a \<le> j \<and> j < n then valid j else bm_bit b j)" for j
    using b'(5) b1(5) r(2) hn by auto
  ultimately show ?case using b' v by (intro exI[of _ b']) simp
qed

lemma walk_chunks_eq:
  assumes "list_all2 (chunk_codes B e c dt vals valid) rs cs" "list_all2 chunk_small rs cs"
    "drop p bs = concat cs" "p \<le> length bs"
  shows "walk_chunks bs p = Ok (map (\<lambda>(lo, hi). hi - lo) rs, length bs)"
  using assms
proof (induction rs arbitrary: cs p)
  case Nil
  then show ?case by (simp add: walk_chunks.simps)
next
  case (Cons r rs)
  obtain lo hi where r: "r = (lo, hi)" by (cases r)
  obtain ch cs' where cs: "cs = ch # cs'" "chunk_codes B e c dt vals valid r ch" "chunk_small r ch"
    "list_all2 (chunk_codes B e c dt vals valid) rs cs'" "list_all2 chunk_small rs cs'"
    using Cons.prems(1,2) by (cases cs) auto
  obtain val where enc: "encode_chunk B e c dt (slice (lo * size_of dt) (hi * size_of dt) vals) val (hi - lo) = Ok ch"
    using cs(2) r by (auto simp: chunk_codes_def)
  have sm: "12 * (hi - lo) < u32_max" "length ch \<le> u32_max" using cs(3) r by (simp_all add: chunk_small_def)
  obtain hdr where hdr: "chunk_header_from_bytes (ch @ concat cs') = Ok hdr"
    "CHUNK_HEADER_SIZE + unat (ch_payload_len hdr) = length ch" "unat (ch_rows hdr) = hi - lo"
    using encoded_header[OF enc sm] by blast
  have d: "drop p bs = ch @ concat cs'" using Cons.prems(3) cs(1) by simp
  have ne: "\<not> length bs \<le> p" using d hdr(2) by (auto simp: CHUNK_HEADER_SIZE_def)
  have "drop (p + length ch) bs = concat cs'" using d by (metis append_eq_conv_conj drop_drop add.commute)
  moreover have "p + length ch \<le> length bs" using d Cons.prems(4) by (metis length_append length_drop le_add1 le_diff_conv2 add.commute)
  ultimately have "walk_chunks bs (p + length ch) = Ok (map (\<lambda>(lo, hi). hi - lo) rs, length bs)"
    using Cons.IH[OF cs(4,5)] by blast
  then show ?case
    using ne d hdr r by (subst walk_chunks.simps) simp
qed

text \<open>A header and a stream that covers its rows hold the column.\<close>

lemma chunked_holds:
  assumes B: "backend_ok B" and dt: "dt \<noteq> Utf8"
    and hd: "field_header_ok header" "is_chunked header" "field_data_type header = Ok dt"
      "field_encoding header = Ok e" "field_compression header = Ok c" "unat (fh_row_count header) = n"
    and vals: "length vals = n * size_of dt"
    and cs: "tiles 0 n rs" "list_all2 (chunk_codes B e c dt vals valid) rs cs" "list_all2 chunk_small rs cs"
  shows "field_holds B (field_header_to_bytes header @ concat cs) dt (cells_of dt vals valid n)"
  unfolding field_holds_def
proof (intro allI impI)
  fix fs :: files and p :: string and m :: mode
  let ?bs = "field_header_to_bytes header @ concat cs" and ?cells = "cells_of dt vals valid n"
  assume fs: "fs p = Some ?bs"
  have l: "length (field_header_to_bytes header) = HEADER_SIZE" using field_pod.len .
  have d: "drop HEADER_SIZE ?bs = concat cs" using l by simp
  have walk: "walk_chunks ?bs HEADER_SIZE = Ok (map (\<lambda>(lo, hi). hi - lo) rs, length ?bs)"
    by (rule walk_chunks_eq[OF cs(2,3) d]) (simp add: header_consts)
  have ne: "concat cs \<noteq> []" if "0 < n"
  proof -
    obtain r rs' where rs: "rs = r # rs'" using cs(1) \<open>0 < n\<close> by (cases rs) auto
    then obtain ch cs' where c: "cs = ch # cs'" "chunk_codes B e c dt vals valid r ch" "chunk_small r ch"
      using cs(2,3) by (cases cs) auto
    then have "ch \<noteq> []"
      using encoded_header[of B e c dt _ _ "snd r - fst r" ch "[]"]
      by (force simp: chunk_codes_def chunk_small_def CHUNK_HEADER_SIZE_def)
    then show ?thesis using c(1) by simp
  qed
  have ho: "(length ?bs = HEADER_SIZE \<and> 0 < n) = False" using l ne by auto
  define work where "work = (\<lambda>b. \<lparr>wk_values = vals, wk_validity = b\<rparr>)"
  obtain b where b: "decode_working B ?bs header = Ok (work b)" "bits_ok b n" "\<And>i. i < n \<Longrightarrow> bits_valid b i = valid i"
  proof (cases "n = 0")
    case True
    then have "rs = []" "cs = []" using cs(1,2) tiles_bound[OF cs(1)] by (cases rs; force)+
    then have "decode_working B ?bs header = Ok (work None)"
      using True hd vals l by (simp add: decode_working_def decode_loop.simps work_def)
    then show ?thesis using True by (intro that[of None]) (simp_all add: bits_ok_def)
  next
    case False
    have z: "bm_bit_offset (bitmap_zeros n) = 0" "bm_len (bitmap_zeros n) = n" by (simp_all add: bitmap_zeros_def)
    obtain b' where b': "decode_loop B e c dt (concat cs) (replicate (n * size_of dt) 0) (Some (bitmap_zeros n)) 0 =
        Ok (vals, Some b', n)" "bitmap_ok b'" "bm_bit_offset b' = 0" "bm_len b' = n" "\<forall>j. j < n \<longrightarrow> bm_bit b' j = valid j"
      using decode_loop_chunks[OF B dt vals cs, of "replicate (n * size_of dt) 0" "bitmap_zeros n"] bitmap_zeros_ok z
      by auto
    then have "decode_working B ?bs header = Ok (work (Some b'))"
      using False hd l by (simp add: decode_working_def work_def)
    then show ?thesis using b' by (intro that[of "Some b'"]) (simp_all add: bits_ok_def bits_valid_def)
  qed
  define cr where "cr = map (\<lambda>(lo, hi). hi - lo) rs"
  have parts: "open_parts B ?bs header = Ok (cr, Some (work b))"
    unfolding open_parts_def Let_def hd(6) ho if_False using hd(2) walk b(1) by (simp add: cr_def)
  define h where "h = opened_field p m ?bs header cr (Some (work b))"
  have op: "open_field_file B p m fs = (Ok h, fs)"
    unfolding h_def using fs hd(1) parts b(2)
    by (intro open_eq[where fs = fs and path = p and body = "concat cs"]) (auto simp: work_def bits_ok_def)
  have hh: "field_data_type (fd_header h) = field_data_type header" "is_chunked (fd_header h)" "fd_row_count h = n"
    using hd(2,6) by (auto simp: h_def opened_field_def opened_header_def field_data_type_def is_chunked_def fd_row_count_def
        split: option.splits)
  define src where "src = \<lparr>src_type = dt, src_values = vals, src_validity = map_option bm_data b\<rparr>"
  have wh: "fd_working h = Some (work b)" "fd_chunk_rows h = cr" "fd_chunk_ends h = running_ends 0 cr"
    by (simp_all add: h_def opened_field_def)
  have "scan_source_of h = Ok src"
    using hh hd(3) wh b(2)
    by (cases b) (simp_all add: scan_source_of_def fd_data_type_def fd_is_chunked_def working_ref_def ok_or_def src_def
        work_def bits_ok_def bitmap_as_view_eq)
  moreover have "n \<le> 8 * length bits" if "src_validity src = Some bits" for bits
    using that b(2) by (auto simp: src_def bits_ok_def bitmap_ok_def)
  moreover have "sum_list cr = n" using tiles_sum[OF cs(1)] by (simp add: cr_def)
  ultimately have ok: "fd_ok h src"
    using vals hh wh b(2) by (auto simp: fd_ok_def src_def work_def bits_ok_def)
  have "src_valid src i = valid i" if "i < n" for i
    using b(2) b(3)[OF that] by (cases b) (auto simp: src_valid_def src_def bits_valid_def bits_ok_def bm_bit_def)
  then have "source_cells src n = ?cells"
    by (simp add: source_cells_def src_def cells_of_def)
  then show "\<exists>h src. open_field_file B p m fs = (Ok h, fs) \<and> fd_ok h src \<and> src_type src = dt \<and>
      fd_row_count h = length ?cells \<and> source_cells src (length ?cells) = ?cells"
    using op ok hh by (intro exI[of _ h] exI[of _ src]) (simp add: src_def)
qed

end
