(* ===== verification/Field_Created.thy ===== *)
theory Field_Created
  imports Field_Chunks
begin

text \<open>
  The writers of \<open>Field_Create\<close> produce files that hold what they were given: the chunk boundaries
  tile the rows, a column written uncompressed or chunk by chunk is shown by every later open, and an
  all-NULL field is its header alone. \<open>backend_sane\<close> is what the compression library must offer for
  a chunked writer to succeed: it does not fail, gives the data back and expands it by a bounded amount.
\<close>

subsection \<open>Boundaries\<close>

lemma tiles_even:
  fixes c n m :: nat
  assumes "0 < c" "m = (n + (c - 1)) div c" "a < m"
  shows "tiles (a * c) n (map (\<lambda>k. (k * c, min (k * c + c) n)) [a..<m])"
  using assms(3)
proof (induction "m - a" arbitrary: a)
  case (Suc x)
  have lt: "k * c < n" if "k < m" for k
  proof -
    have "(k + 1) * c \<le> m * c" using that by (intro mult_le_mono1) simp
    also have "\<dots> \<le> n + (c - 1)" by (simp add: assms(2))
    finally show ?thesis using assms(1) by simp
  qed
  have u: "[a..<m] = a # [Suc a..<m]" using Suc.prems by (simp add: upt_conv_Cons)
  show ?case
  proof (cases "Suc a < m")
    case True
    then have "Suc a * c < n" by (rule lt)
    then show ?thesis using Suc.hyps(1)[of "Suc a"] Suc.hyps(2) True assms(1) u
      by (simp add: add.commute)
  next
    case False
    then have m: "m = Suc a" using Suc.prems by simp
    have "n + (c - 1) < (m + 1) * c" using assms(1,2) by (simp add: dividend_less_div_times)
    then have "n \<le> Suc a * c" using m assms(1) by simp
    then show ?thesis using m lt[OF Suc.prems] assms(1) by (simp add: min_def)
  qed
qed simp

lemma tiles_default: "tiles 0 n (map (\<lambda>o'. (o', min (o' + CREATE_CHUNK_ROWS) n)) (chunk_starts n))"
proof (cases "n = 0")
  case True
  then show ?thesis by (simp add: chunk_starts_def CREATE_CHUNK_ROWS_def)
next
  case False
  then have "0 < (n + (CREATE_CHUNK_ROWS - 1)) div CREATE_CHUNK_ROWS"
    by (simp add: CREATE_CHUNK_ROWS_def div_greater_zero_iff)
  from tiles_even[OF _ refl this] show ?thesis
    by (simp add: chunk_starts_def comp_def CREATE_CHUNK_ROWS_def)
qed

lemma tiles_starts:
  assumes "sorted_wrt (<) (x # l)" "last (x # l) < n"
  shows "tiles x n (starts_to_ranges n (x # l))"
  using assms
proof (induction l arbitrary: x)
  case Nil
  then show ?case by (simp add: starts_to_ranges_def)
next
  case (Cons y l)
  then have "tiles y n (starts_to_ranges n (y # l))" by (intro Cons.IH) simp_all
  then show ?case using Cons.prems by (simp add: starts_to_ranges_def)
qed

lemma sorted_remdups_adj_sort: "sorted_wrt (<) (remdups_adj (sort (l :: nat list)))"
proof -
  have "sorted ms \<Longrightarrow> sorted_wrt (<) (remdups_adj ms)" for ms :: "nat list"
    by (induction ms rule: remdups_adj.induct) (auto simp: less_le)
  then show ?thesis by simp
qed

lemma pairs_of_strict:
  assumes "sorted_wrt (<) l"
  shows "\<not> (\<exists>w \<in> set (pairs_of l). (fst w :: nat) \<ge> snd w)"
  using assms
proof (induction l)
  case (Cons x l)
  then show ?case by (cases l) auto
qed simp

lemma boundaries_accept:
  "compute_chunk_boundaries n (Some offs) = Ok rs \<longleftrightarrow>
     offs \<noteq> [] \<and> hd offs = 0 \<and> (\<forall>o' \<in> set offs. o' < n) \<and>
     rs = starts_to_ranges n (sorted_list_of_set (set offs))"
proof -
  let ?l = "remdups_adj (sort offs)"
  have l: "?l = sorted_list_of_set (set offs)"
    by (rule strict_sorted_equal[OF _ sorted_remdups_adj_sort]) simp_all
  have "\<not> (\<exists>w \<in> set (pairs_of ?l). fst w \<ge> snd w)"
    using pairs_of_strict[OF sorted_remdups_adj_sort] .
  moreover have m: "(\<exists>o' \<in> set ?l. n \<le> o') \<longleftrightarrow> \<not> (\<forall>o' \<in> set offs. o' < n)" by (simp add: not_less)
  ultimately show ?thesis
    using m by (auto simp: compute_chunk_boundaries_def Let_def l[symmetric])
qed

lemma boundaries_tile:
  assumes "compute_chunk_boundaries n offs = Ok rs"
  shows "tiles 0 n rs"
proof (cases offs)
  case None
  then show ?thesis using assms tiles_default[of n] by (auto simp: compute_chunk_boundaries_def)
next
  case (Some l)
  then have l: "l \<noteq> []" "hd l = 0" "\<forall>o' \<in> set l. o' < n" "rs = starts_to_ranges n (sorted_list_of_set (set l))"
    using assms by (simp_all add: boundaries_accept)
  have "0 \<in> set l" using l(1,2) by (metis hd_in_set)
  then obtain xs where x: "sorted_list_of_set (set l) = 0 # xs"
  proof (cases "sorted_list_of_set (set l)")
    case (Cons a as)
    have "sorted (a # as)" "0 \<in> set (a # as)"
      using \<open>0 \<in> set l\<close> unfolding Cons[symmetric] by simp_all
    then have "a = 0" by auto
    then show ?thesis using that Cons by simp
  qed simp
  have ss: "sorted_wrt (<) (0 # xs)" unfolding x[symmetric] by simp
  have "last (0 # xs) \<in> set l" unfolding x[symmetric] using l(1) by (metis List.finite_set last_in_set set_sorted_list_of_set x list.distinct(1))
  then have "last (0 # xs) < n" using l(3) by blast
  then show ?thesis using tiles_starts[OF ss] l(4) x by simp
qed

text \<open>Chunk boundaries: whatever is accepted, the ranges cover the rows from 0 on, in order,
  without gaps or empty ranges; and a list of offsets is accepted exactly when its first entry is 0
  and every entry is a row, in any order and with repetitions, since it is sorted before the check
  for ascending order.\<close>

theorem chunk_boundaries_tile:
  "(compute_chunk_boundaries n offs = Ok rs \<longrightarrow> tiles 0 n rs) \<and>
   ((\<exists>rs. compute_chunk_boundaries n (Some l) = Ok rs) \<longleftrightarrow> l \<noteq> [] \<and> hd l = 0 \<and> (\<forall>o' \<in> set l. o' < n))"
  using boundaries_tile boundaries_accept by blast

theorem chunk_boundaries_tile_witness:
  "compute_chunk_boundaries 10 (Some [0, 7, 3, 7]) = Ok [(0, 3), (3, 7), (7, 10)] \<and> tiles 0 10 [(0, 3), (3, 7), (7, 10)]"
proof -
  have e: "compute_chunk_boundaries 10 (Some [0, 7, 3, 7]) = Ok [(0, 3), (3, 7), (7, 10)]" by code_simp
  then show ?thesis using chunk_boundaries_tile[of 10 "Some [0, 7, 3, 7]" "[(0, 3), (3, 7), (7, 10)]"] by blast
qed

subsection \<open>Chunks of a column\<close>

definition backend_sane :: "codec_backend \<Rightarrow> compression \<Rightarrow> bool" where
  "backend_sane B c \<longleftrightarrow>
     backend_ok B \<and> (\<forall>d. \<exists>p. compress B c d = Ok p \<and> length p \<le> 2 * length d + 1024)"

lemma encode_chunk_sane:
  assumes "backend_sane B c" "dt \<noteq> Utf8" "length vs = rows * size_of dt" "rows \<le> 2 ^ 26"
    and "case val of None \<Rightarrow> True | Some bits \<Rightarrow> length bits = validity_size rows"
  shows "\<exists>ch. encode_chunk B e c dt vs val rows = Ok ch \<and> length ch \<le> u32_max \<and> 12 * rows < u32_max"
proof -
  have w: "0 < size_of dt" using assms(2) by (simp flip: size_of_pos)
  have r: "rows \<le> u32_max" "12 * rows < u32_max" using assms(4) by simp_all
  obtain enc where enc: "encode_values e dt vs rows = Ok enc"
    using codec.encode_total[OF w assms(3) r(1), of e] w assms(3) by (auto simp: is_ok_iff)
  have le: "length enc \<le> 1 + rows * 12" using length_encode_values[OF enc w] .
  define raw where "raw = enc @ (case val of None \<Rightarrow> [] | Some bits \<Rightarrow> bits)"
  obtain p where p: "compress B c raw = Ok p" "length p \<le> 2 * length raw + 1024"
    using assms(1) by (auto simp: backend_sane_def)
  have "length raw \<le> 2 + rows * 13"
    using le assms(5) validity_size_bound(2)[of rows] by (cases val) (auto simp: raw_def)
  then have "length p + 12 \<le> u32_max" using p(2) assms(4) by simp
  moreover have "length (chunk_header_to_bytes h) = 12" for h
    using chunk_pod.len by (simp add: CHUNK_HEADER_SIZE_def)
  moreover have "unat (of_nat rows :: u32) = rows" using r(1) by (rule unat_of_nat_u32)
  ultimately show ?thesis
    using assms(3,5) enc p(1) r(2) by (cases val) (auto simp: encode_chunk_def Let_def raw_def)
qed

text \<open>\<open>chunk_of\<close> encodes the rows of its range.\<close>

lemma chunk_of_codes:
  assumes sane: "backend_sane B c" and dt: "dt \<noteq> Utf8" and vals: "length vals = n * size_of dt" and n: "n \<le> 2 ^ 26"
    and r: "lo < hi" "hi \<le> n" and bits: "validity_ok bits n"
  shows "\<exists>ch. chunk_of B e c dt vals (size_of dt) bits (lo, hi) = Ok ch \<and>
    chunk_codes B e c dt vals (valid_at bits) (lo, hi) ch \<and> chunk_small (lo, hi) ch"
proof -
  let ?s = "size_of dt"
  let ?vs = "slice (lo * ?s) (hi * ?s) vals"
  have h: "lo * ?s \<le> hi * ?s" "hi * ?s \<le> length vals" using r vals by simp_all
  have l: "length ?vs = (hi - lo) * ?s" using h by (simp add: diff_mult_distrib)
  obtain val where val: "(case bits of None \<Rightarrow> Ok None
      | Some b \<Rightarrow> rbind (fmt_err (view_slice b lo (hi - lo))) (\<lambda>v. rbind (view_to_packed_bytes v) (\<lambda>p. Ok (Some p)))) = Ok val"
    "bits_code val (valid_at bits) lo (hi - lo)"
    "case val of None \<Rightarrow> True | Some p \<Rightarrow> length p = validity_size (hi - lo)"
  proof (cases bits)
    case (Some b)
    have b: "view_ok b" "bv_len b = n" using bits Some by (simp_all add: validity_ok_def)
    then obtain v where v: "view_slice b lo (hi - lo) = Ok v"
      using view_slice_Ok[OF b(1), of lo "hi - lo"] r by auto
    have vo: "view_ok v" "bv_len v = hi - lo" using view_slice_ok[OF v] by auto
    obtain out where out: "view_to_packed_bytes v = (Ok out :: (core_error, _) res)" "length out = validity_size (bv_len v)"
      "\<forall>j. j < 8 * length out \<longrightarrow> get_bit out j = (j < bv_len v \<and> view_bit v j)"
      using view_to_packed_bytes_eq[OF vo(1)] by blast
    have "get_bit out j = view_bit b (lo + j)" if "j < hi - lo" for j
      using that out(2,3) vo(2) view_slice_bit[OF v] validity_size_bound(1)[of "hi - lo"] by auto
    then show ?thesis
      using v out(1,2) vo(2) by (intro that[of "Some out"]) (simp_all add: Some bits_code_def valid_at_def)
  qed (auto simp: bits_code_def valid_at_def)
  have "hi - lo \<le> 2 ^ 26" using r n by simp
  from encode_chunk_sane[OF sane dt l this val(3), of e] obtain ch where
    ch: "encode_chunk B e c dt ?vs val (hi - lo) = Ok ch" "length ch \<le> u32_max" "12 * (hi - lo) < u32_max" by blast
  then have "chunk_of B e c dt vals ?s bits (lo, hi) = Ok ch"
    using h val(1) by (simp add: chunk_of_def)
  then show ?thesis using ch val(2) by (auto simp: chunk_codes_def chunk_small_def)
qed

lemma chunks_of_codes:
  assumes sane: "backend_sane B c" and dt: "dt \<noteq> Utf8" and vals: "length vals = n * size_of dt" and n: "n \<le> 2 ^ 26"
    and bits: "validity_ok bits n" and rs: "tiles a n rs"
  shows "\<exists>cs. mapM (chunk_of B e c dt vals (size_of dt) bits) rs = Ok cs \<and>
    list_all2 (chunk_codes B e c dt vals (valid_at bits)) rs cs \<and> list_all2 chunk_small rs cs"
  using rs
proof (induction rs arbitrary: a)
  case (Cons r rs)
  obtain hi where r: "r = (a, hi)" "a < hi" "tiles hi n rs" using Cons.prems by (cases r) auto
  obtain cs where cs: "mapM (chunk_of B e c dt vals (size_of dt) bits) rs = Ok cs"
    "list_all2 (chunk_codes B e c dt vals (valid_at bits)) rs cs" "list_all2 chunk_small rs cs"
    using Cons.IH[OF r(3)] by blast
  obtain ch where "chunk_of B e c dt vals (size_of dt) bits (a, hi) = Ok ch"
    "chunk_codes B e c dt vals (valid_at bits) (a, hi) ch" "chunk_small (a, hi) ch"
    using chunk_of_codes[OF sane dt vals n r(2) tiles_le[OF r(3)] bits] by blast
  then show ?case using cs r(1) by simp
qed simp

subsection \<open>Written columns\<close>

definition col_valid :: "column \<Rightarrow> nat \<Rightarrow> bool" where
  "col_valid col i = (case col_validity col of None \<Rightarrow> True | Some b \<Rightarrow> bm_bit b i)"

definition col_cells :: "column \<Rightarrow> (bool \<times> cell_value) list" where
  "col_cells col = cells_of (col_data_type col) (col_values col) (col_valid col) (column_length col)"

text \<open>A fixed-width column as the constructors make it: the bitmap starts at its first byte.\<close>

definition col_ok :: "column \<Rightarrow> bool" where
  "col_ok col \<longleftrightarrow> col_data_type col \<noteq> Utf8 \<and>
     length (col_values col) = column_length col * size_of (col_data_type col) \<and>
     (case col_validity col of None \<Rightarrow> True
      | Some b \<Rightarrow> bm_bit_offset b = 0 \<and> bm_len b = column_length col \<and>
          length (bm_data b) = validity_size (column_length col))"

lemma col_null_count:
  assumes "col_ok col"
  shows "\<exists>k. column_null_count col = Ok k"
proof (cases "col_validity col")
  case (Some b)
  have b: "bitmap_ok b" using assms Some validity_size_bound(1)[of "column_length col"]
    by (simp add: col_ok_def bitmap_ok_def)
  have "view_ok \<lparr>bv_data = bm_data b, bv_bit_offset = bm_bit_offset b, bv_len = bm_len b\<rparr>"
    using b by (simp add: view_ok_def bitmap_ok_def)
  from view_null_count_eq[OF this] show ?thesis
    by (auto simp: column_null_count_def Some bitmap_as_view_eq[OF b])
qed (simp add: column_null_count_def)

lemma header_image_length: "length (field_header_to_bytes h) = HEADER_SIZE"
  using field_pod.len .

lemma write_header_app:
  assumes "fs p = Some (replicate HEADER_SIZE 0 @ body)"
  shows "write_header p h fs = (Ok (), fs(p \<mapsto> field_header_to_bytes h @ body))"
  using assms by (simp add: write_header_def io_pwrite_def overwrite_prefix header_consts)

lemma plain_data_created:
  assumes "fs p = None" "col_ok col" "column_length col \<le> u32_max"
  shows "\<exists>bs. create_field_file_plain p (col_data_type col) (FI_Data col) fs = (Ok (), fs(p \<mapsto> bs)) \<and>
    field_holds B bs (col_data_type col) (col_cells col)"
proof -
  let ?dt = "col_data_type col" and ?n = "column_length col"
  have dt: "?dt \<noteq> Utf8" and vl: "length (col_values col) = ?n * size_of ?dt" using assms(2) by (simp_all add: col_ok_def)
  have s: "0 < size_of ?dt" using dt by (simp flip: size_of_pos)
  define vb where "vb = (case col_validity col of None \<Rightarrow> [] | Some b \<Rightarrow> bm_data b)"
  define hv where "hv = (col_validity col \<noteq> None)"
  have run: "\<exists>k. create_field_file_plain p ?dt (FI_Data col) fs =
      (Ok (), fs(p \<mapsto> field_header_to_bytes (field_header_new_uncompressed ?dt 1 (of_nat ?n) k hv) @ col_values col @ vb))"
  proof (cases "col_validity col")
    case None
    then show ?thesis using assms(1)
      by (intro exI[of _ 0]) (simp add: create_field_file_plain_def io_simps io_bind_def io_create_new_def io_append_def io_ret_def
          write_header_app vb_def hv_def)
  next
    case (Some b)
    have b: "bitmap_ok b" using assms(2) Some validity_size_bound(1)[of ?n]
      by (simp add: col_ok_def bitmap_ok_def)
    define v where "v = \<lparr>bv_data = bm_data b, bv_bit_offset = bm_bit_offset b, bv_len = bm_len b\<rparr>"
    have "view_ok v" using b by (simp add: view_ok_def bitmap_ok_def v_def)
    note nc = view_null_count_eq[OF this]
    have av: "bitmap_as_view b = (Ok v :: (core_error, _) res)" using bitmap_as_view_eq[OF b] by (simp add: v_def)
    have vd: "bv_data v = bm_data b" by (simp add: v_def)
    show ?thesis using assms(1) Some av
      by (intro exI[of _ "of_nat (length (filter (\<lambda>i. \<not> view_bit v i) [0..<bv_len v]))"])
         (simp add: create_field_file_plain_def io_simps io_bind_def io_create_new_def io_append_def io_ret_def io_lift_def
          write_header_app vb_def hv_def vd nc)
  qed
  then obtain k where k: "create_field_file_plain p ?dt (FI_Data col) fs =
      (Ok (), fs(p \<mapsto> field_header_to_bytes (field_header_new_uncompressed ?dt 1 (of_nat ?n) k hv) @ col_values col @ vb))"
    by blast
  let ?h = "field_header_new_uncompressed ?dt 1 (of_nat ?n) k hv"
  have "length vb = field_validity_size ?h"
    using assms(2,3) by (auto simp: vb_def hv_def col_ok_def field_validity_size_def split: option.splits)
  moreover have "?n = 0 \<or> col_values col @ vb \<noteq> []" using vl s by auto
  moreover have "unat (fh_data_length ?h) = ?n * size_of ?dt"
    using assms(3) by (simp add: new_uncompressed_data_length)
  ultimately have "field_holds B (field_header_to_bytes ?h @ col_values col @ vb) ?dt
      (cells_of ?dt (col_values col) (\<lambda>i. if has_validity ?h then get_bit vb i else True) ?n)"
    using assms(3) vl by (intro plain_holds) (auto simp: field_data_type_def)
  moreover have "cells_of ?dt (col_values col) (\<lambda>i. if has_validity ?h then get_bit vb i else True) ?n = col_cells col"
    using assms(2) by (auto simp: col_cells_def col_valid_def hv_def vb_def bm_bit_def col_ok_def intro!: cells_of_cong split: option.splits)
  ultimately show ?thesis using k by (intro exI) auto
qed

lemma plain_length_created:
  assumes "fs p = None" "0 < n" "n \<le> u32_max"
  shows "\<exists>bs. create_field_file_plain p dt (FI_Length n) fs = (Ok (), fs(p \<mapsto> bs)) \<and>
    field_holds B bs dt (null_cells dt n)"
proof -
  let ?h = "field_header_new_uncompressed dt 1 (of_nat n) (of_nat n) True"
  have "create_field_file_plain p dt (FI_Length n) fs = (Ok (), fs(p \<mapsto> field_header_to_bytes ?h))"
    using assms(1) write_header_app[of "fs(p \<mapsto> replicate HEADER_SIZE 0)" p "[]"]
    by (simp add: create_field_file_plain_def io_bind_def io_create_new_def io_append_def io_ret_def)
  moreover have "field_holds B (field_header_to_bytes ?h) dt (null_cells dt n)"
    using assms by (intro null_holds) (simp_all add: field_data_type_def)
  ultimately show ?thesis by blast
qed

lemma chunked_header_simps [simp]:
  "fh_data_type (chunked_header dt c rows nulls len) = data_type_id dt"
  "fh_row_count (chunked_header dt c rows nulls len) = of_nat rows"
  "field_encoding (chunked_header dt c rows nulls len) = Ok Plain"
  "field_compression (chunked_header dt c rows nulls len) = Ok c"
  "field_header_ok (chunked_header dt c rows nulls len)"
  "c \<noteq> CNone \<Longrightarrow> is_chunked (chunked_header dt c rows nulls len)"
proof -
  show "fh_data_type (chunked_header dt c rows nulls len) = data_type_id dt"
    "fh_row_count (chunked_header dt c rows nulls len) = of_nat rows"
    "field_encoding (chunked_header dt c rows nulls len) = Ok Plain"
    "field_compression (chunked_header dt c rows nulls len) = Ok c"
    by (simp_all add: chunked_header_def field_encoding_def field_compression_def encoding_from_id_def)
  show "field_header_ok (chunked_header dt c rows nulls len)"
    using new_uncompressed_ok[of dt 1 "of_nat rows" "of_nat nulls" False]
    by (auto simp: chunked_header_def field_header_ok_iff)
  show "is_chunked (chunked_header dt c rows nulls len)" if "c \<noteq> CNone"
    using that by (cases c) (auto simp: chunked_header_def is_chunked_def)
qed

lemma chunked_data_created:
  assumes sane: "backend_sane B c" "c \<noteq> CNone" and fs: "fs p = None" and col: "col_ok col" "column_length col \<le> 2 ^ 26"
    and rs: "tiles 0 (column_length col) rs"
  shows "\<exists>bs. create_field_file_chunked_data B p (col_data_type col) col c rs fs = (Ok (), fs(p \<mapsto> bs)) \<and>
    field_holds B bs (col_data_type col) (col_cells col)"
proof -
  let ?dt = "col_data_type col" and ?n = "column_length col" and ?vs = "col_values col"
  have dt: "?dt \<noteq> Utf8" and vl: "length ?vs = ?n * size_of ?dt" using col(1) by (simp_all add: col_ok_def)
  have s: "0 < size_of ?dt" using dt by (simp flip: size_of_pos)
  define bits where "bits = map_option (\<lambda>b. \<lparr>bv_data = bm_data b, bv_bit_offset = bm_bit_offset b, bv_len = bm_len b\<rparr>) (col_validity col)"
  have bok: "bitmap_ok b" if "col_validity col = Some b" for b
    using col(1) that validity_size_bound(1)[of ?n] by (simp add: col_ok_def bitmap_ok_def)
  have bits: "validity_ok bits ?n"
    using bok col(1) by (cases "col_validity col") (auto simp: bits_def validity_ok_def view_ok_def bitmap_ok_def col_ok_def)
  have view: "(case col_validity col of None \<Rightarrow> io_ret None
      | Some b \<Rightarrow> io_bind (io_lift (bitmap_as_view b)) (\<lambda>v. io_ret (Some v))) fs' = (Ok bits, fs')" for fs'
    using bok by (cases "col_validity col") (auto simp: bits_def io_bind_def io_ret_def io_lift_def bitmap_as_view_eq)
  define per_row where "per_row = (if 0 < ?n then length ?vs div ?n else 0)"
  obtain cs where cs: "mapM (chunk_of B Plain c ?dt ?vs (size_of ?dt) bits) rs = Ok cs"
    "list_all2 (chunk_codes B Plain c ?dt ?vs (valid_at bits)) rs cs" "list_all2 chunk_small rs cs"
    using chunks_of_codes[OF sane(1) dt vl col(2) bits rs] by blast
  have "mapM (chunk_of B Plain c ?dt ?vs per_row bits) rs = Ok cs"
  proof (cases "?n = 0")
    case True
    then have "rs = []" using rs tiles_bound[OF rs] by (cases rs) fastforce+
    then show ?thesis using cs(1) by simp
  next
    case False
    then have "per_row = size_of ?dt" using vl by (simp add: per_row_def)
    then show ?thesis using cs(1) by simp
  qed
  note loop = io_each_append[where p = p, OF _ this]
  obtain k where k: "column_null_count col = (Ok k :: (core_error, _) res)" using col_null_count[OF col(1)] by blast
  let ?h = "chunked_header ?dt c ?n k (length ?vs)"
  have "create_field_file_chunked_data B p ?dt col c rs fs =
      (Ok (), fs(p \<mapsto> field_header_to_bytes ?h @ concat cs))"
  proof -
    have l: "io_each (\<lambda>r. io_bind (io_lift (chunk_of B Plain c ?dt ?vs per_row bits r)) (io_append p)) rs
        (fs(p \<mapsto> replicate HEADER_SIZE 0)) = (Ok (), fs(p \<mapsto> replicate HEADER_SIZE 0 @ concat cs))"
      using loop[of "fs(p \<mapsto> replicate HEADER_SIZE 0)" "replicate HEADER_SIZE 0"] by simp
    show ?thesis
      using fs k write_header_app[of "fs(p \<mapsto> replicate HEADER_SIZE 0 @ concat cs)" p "concat cs" ?h]
      by (simp add: create_field_file_chunked_data_def Let_def per_row_def[symmetric] io_simps view l)
  qed
  moreover have "field_holds B (field_header_to_bytes ?h @ concat cs) ?dt (cells_of ?dt ?vs (valid_at bits) ?n)"
    using sane dt vl cs(2,3) rs col(2)
    by (intro chunked_holds[where rs = rs and e = Plain and c = c]) (auto simp: field_data_type_def backend_sane_def)
  moreover have "cells_of ?dt ?vs (valid_at bits) ?n = col_cells col"
    by (cases "col_validity col")
       (simp_all add: col_cells_def col_valid_def cells_of_def bits_def valid_at_def view_bit_def bm_bit_def)
  ultimately show ?thesis by auto
qed

lemma chunked_null_created:
  assumes "fs p = None" "0 < n" "n \<le> u32_max"
  shows "\<exists>bs. create_field_file_chunked_all_null p dt n c fs = (Ok (), fs(p \<mapsto> bs)) \<and>
    field_holds B bs dt (null_cells dt n)"
proof -
  let ?h = "(field_header_new_uncompressed dt 1 (of_nat n) (of_nat n) True)
    \<lparr>fh_compression := compression_id c, fh_data_length := of_nat n * of_nat (size_of dt)\<rparr>"
  have "create_field_file_chunked_all_null p dt n c fs = (Ok (), fs(p \<mapsto> field_header_to_bytes ?h))"
    using assms(1) by (simp add: create_field_file_chunked_all_null_def io_bind_def io_create_new_def io_append_def)
  moreover have "field_header_ok ?h"
    using new_uncompressed_ok[of dt 1 "of_nat n" "of_nat n" True] by (auto simp: field_header_ok_iff)
  then have "field_holds B (field_header_to_bytes ?h) dt (null_cells dt n)"
    using assms by (intro null_holds) (simp_all add: field_data_type_def)
  ultimately show ?thesis by blast
qed

end
