(* ===== verification/Field_Write.thy ===== *)
theory Field_Write
  imports Field_Created
begin

text \<open>
  Writing through a \<open>FieldHandle\<close> (\<open>splayed-core/src/field_file.rs\<close>): positional writes into the
  map or the working representation with the NULL count kept up to date, header updates, closing, and
  the file operations. A write is proved to overwrite exactly the cells of its range and to keep the
  NULL count exact. A map and its file have the same content: an operation that changes the map of a
  handle changes the file with it. What a handle holds after an error is not described.

\<close>

subsection \<open>Writing segments\<close>

definition values_width :: "data_type \<Rightarrow> nat" where
  "values_width dt = (if dt = Utf8 then 4 else size_of dt)"

definition raw_or_panic :: "column_values \<Rightarrow> ('e, bytes) res" where
  "raw_or_panic v = (case raw_values_bytes v of Some b \<Rightarrow> Ok b | None \<Rightarrow> Panic)"

text \<open>One segment into the mapped regions: values, validity, the change of the NULL count, the row.\<close>

definition mmap_write_segment ::
  "nat \<Rightarrow> bool \<Rightarrow> bytes \<times> bytes \<times> int \<times> nat \<Rightarrow> column_segment \<Rightarrow> (core_error, bytes \<times> bytes \<times> int \<times> nat) res" where
  "mmap_write_segment width hv st seg = (case st of (values, validity, null_delta, row) \<Rightarrow>
     let rows = seg_rows seg
     in rbind (raw_or_panic (seg_values seg)) (\<lambda>raw.
        rbind (copy_into (row * width) ((row + rows) * width) raw values) (\<lambda>values'.
        rbind (if hv
               then (case seg_validity seg of
                       Some src \<Rightarrow>
                         rbind (view_copy_bits_into src validity row rows) (\<lambda>(validity', old_ones, new_ones).
                           Ok (validity', null_delta + (int old_ones - int new_ones)))
                     | None \<Rightarrow>
                         rbind (bitmap_fill_bits validity row rows True) (\<lambda>(validity', old_ones).
                           Ok (validity', null_delta + (int old_ones - int rows))))
               else Ok (validity, null_delta)) (\<lambda>(validity', null_delta').
          Ok (values', validity', null_delta', row + rows)))))"

text \<open>\<open>(null_count as i64 + null_delta).max(0) as u32\<close>.\<close>

definition adjust_nulls :: "int \<Rightarrow> field_header \<Rightarrow> field_header" where
  "adjust_nulls null_delta hdr = hdr\<lparr>fh_null_count := of_int (max 0 (int (unat (fh_null_count hdr)) + null_delta))\<rparr>"

text \<open>The regions put back into the map they are slices of.\<close>

definition put_regions :: "field_header \<Rightarrow> bytes \<Rightarrow> bytes \<Rightarrow> bytes \<Rightarrow> bytes" where
  "put_regions hdr values validity m =
     splice HEADER_SIZE values (splice (HEADER_SIZE + unat (fh_data_length hdr)) validity m)"

definition carries_null :: "column_segment \<Rightarrow> (core_error, bool) res" where
  "carries_null s = (case seg_validity s of
      None \<Rightarrow> Ok False
    | Some src \<Rightarrow> rbind (view_count_ones src) (\<lambda>n. Ok (n < seg_rows s)))"

definition write_into_mmap :: "field_handle \<Rightarrow> nat \<Rightarrow> column_view \<Rightarrow> (core_error, field_handle) res" where
  "write_into_mmap h offset data =
     rbind (fd_data_type h) (\<lambda>dt.
     let width = values_width dt; hdr = fd_header h; hv = has_validity hdr
     in rbind (if hv then Ok []
               else mapM (\<lambda>s. rbind (carries_null s) (\<lambda>b.
                      guard (\<not> b) (Invalid ''field has no validity region; cannot write NULLs''))) (cv_segments data)) (\<lambda>_.
        rbind (uncompressed_slices_mut h) (\<lambda>(values, validity).
        rbind (foldM (mmap_write_segment width hv) (values, validity, 0, offset) (cv_segments data))
          (\<lambda>(values', validity', null_delta, _).
             let m' = (case fd_backing h of
                 BMmapMut m \<Rightarrow> BMmapMut (put_regions hdr values' validity' m) | bk \<Rightarrow> bk)
             in Ok (h\<lparr>fd_backing := m', fd_header := (if hv then adjust_nulls null_delta hdr else hdr)\<rparr>)))))"

text \<open>One segment into the working representation.\<close>

definition working_write_segment ::
  "nat \<Rightarrow> working \<times> int \<times> nat \<Rightarrow> column_segment \<Rightarrow> (core_error, working \<times> int \<times> nat) res" where
  "working_write_segment width st seg = (case st of (work, null_delta, row) \<Rightarrow>
     let rows = seg_rows seg
     in rbind (raw_or_panic (seg_values seg)) (\<lambda>raw.
        rbind (copy_into (row * width) ((row + rows) * width) raw (wk_values work)) (\<lambda>values'.
        rbind (case wk_validity work of
                 None \<Rightarrow> Ok (None, null_delta)
               | Some full \<Rightarrow>
                   (case seg_validity seg of
                      Some src \<Rightarrow>
                        rbind (bitmap_copy_bits_from full row src rows) (\<lambda>(full', old_ones, new_ones).
                          Ok (Some full', null_delta + (int old_ones - int new_ones)))
                    | None \<Rightarrow>
                        rbind (bitmap_set_range full row rows True) (\<lambda>(full', old_ones).
                          Ok (Some full', null_delta + (int old_ones - int rows))))) (\<lambda>(validity', null_delta').
          Ok (\<lparr>wk_values = values', wk_validity = validity'\<rparr>, null_delta', row + rows)))))"

text \<open>\<open>b.count_ones() < b.len()\<close>, over the segments until the first that has it.\<close>

fun any_null :: "column_segment list \<Rightarrow> (core_error, bool) res" where
  "any_null [] = Ok False"
| "any_null (s # ss) =
     (case seg_validity s of
        None \<Rightarrow> any_null ss
      | Some b \<Rightarrow> rbind (view_count_ones b) (\<lambda>n. if n < bv_len b then Ok True else any_null ss))"

definition write_into_working :: "field_handle \<Rightarrow> nat \<Rightarrow> column_view \<Rightarrow> (core_error, field_handle) res" where
  "write_into_working h offset data =
     rbind (any_null (cv_segments data)) (\<lambda>needs_bits.
     case fd_working h of
       None \<Rightarrow> Panic
     | Some work0 \<Rightarrow>
         let work = (if needs_bits \<and> wk_validity work0 = None
                     then work0\<lparr>wk_validity := Some (bitmap_ones (fd_row_count h))\<rparr> else work0)
         in rbind (fd_data_type h) (\<lambda>dt.
            rbind (foldM (working_write_segment (values_width dt)) (work, 0, offset) (cv_segments data))
              (\<lambda>(work', null_delta, _).
                 Ok (h\<lparr>fd_working := Some work', fd_header := adjust_nulls null_delta (fd_header h)\<rparr>))))"

subsection \<open>\<open>write_field_handle\<close>\<close>

definition expand_header_only_file :: "field_handle \<Rightarrow> field_handle io" where
  "expand_header_only_file h =
     (let hdr = fd_header h; len = HEADER_SIZE + unat (fh_data_length hdr) + field_validity_size hdr
      in io_bind (io_set_len (fd_path h) len) (\<lambda>_.
         io_bind (io_read (fd_path h)) (\<lambda>m.
           io_ret (h\<lparr>fd_backing := BMmapMut m, fd_working := None\<rparr>))))"

text \<open>The header written at the start of a writable map; the map and its file change together.\<close>

definition sync_header :: "field_handle \<Rightarrow> field_handle io" where
  "sync_header h = (case fd_backing h of
      BMmapMut m \<Rightarrow>
        io_bind (io_lift (copy_into 0 HEADER_SIZE (field_header_to_bytes (fd_header h)) m)) (\<lambda>m'.
          (\<lambda>fs. (Ok (h\<lparr>fd_backing := BMmapMut m'\<rparr>), fs(fd_path h \<mapsto> m'))))
    | _ \<Rightarrow> io_ret h)"

definition write_field_handle :: "field_handle \<Rightarrow> nat \<Rightarrow> column_view \<Rightarrow> field_handle io" where
  "write_field_handle h offset data =
     io_bind (io_lift (require_write (fd_mode h))) (\<lambda>_.
     io_bind (io_lift (fd_data_type h)) (\<lambda>dt.
     if cv_data_type data \<noteq> dt then io_lift (Err (Invalid ''write data type does not match field''))
     else if u64_max < offset + cv_length data
     then io_lift (Err (Invalid ''write range offset + length overflows''))
     else if fd_row_count h < offset + cv_length data
     then io_lift (Err (Invalid ''write range exceeds row_count''))
     else if cv_length data = 0 then io_ret h
     else io_bind (if fd_is_chunked h then io_lift (write_into_working h offset data)
                   else io_bind (if fd_working h \<noteq> None then expand_header_only_file h else io_ret h) (\<lambda>h1.
                        io_lift (write_into_mmap h1 offset data))) (\<lambda>h2.
            sync_header (h2\<lparr>fd_header := (fd_header h2)\<lparr>fh_generation := fh_generation (fd_header h2) + 1\<rparr>,
                            fd_modified := True\<rparr>))))"

definition update_header :: "field_handle \<Rightarrow> field_header \<Rightarrow> field_handle io" where
  "update_header h header =
     io_bind (io_lift (require_write (fd_mode h))) (\<lambda>_.
     let cur = fd_header h;
         h1 = header\<lparr>fh_magic := fh_magic cur, fh_version := fh_version cur, fh_data_type := fh_data_type cur,
                     fh_row_count := fh_row_count cur, fh_null_count := fh_null_count cur,
                     fh_generation := fh_generation cur + 1\<rparr>
     in io_bind (io_lift (fmt_err (field_header_validate h1))) (\<lambda>_.
        io_bind (if is_chunked h1 then io_ret h1
                 else io_bind (io_lift (fmt_err (field_data_type h1))) (\<lambda>dt.
                      let dl = ucast (fh_row_count h1) * of_nat (size_of dt) :: u64
                      in io_ret (h1\<lparr>fh_data_length := dl,
                                    fh_validity_offset := (if has_validity h1 then 64 + dl else 0)\<rparr>))) (\<lambda>h2.
        let g = h\<lparr>fd_header := h2, fd_modified := True\<rparr>
        in io_bind (if fd_working g \<noteq> None \<and> \<not> fd_is_chunked g then expand_header_only_file g else io_ret g) (\<lambda>g'.
             sync_header g'))))"

subsection \<open>Closing\<close>

text \<open>A chunk of the working representation.\<close>

definition working_chunk ::
  "codec_backend \<Rightarrow> encoding \<Rightarrow> compression \<Rightarrow> data_type \<Rightarrow> working \<Rightarrow> nat \<times> nat \<Rightarrow> (core_error, bytes) res" where
  "working_chunk B e c dt work r = (case r of (rows, hi) \<Rightarrow>
     let lo = hi - rows
     in rbind (slice_r (lo * size_of dt) (hi * size_of dt) (wk_values work)) (\<lambda>values.
        rbind (case wk_validity work of None \<Rightarrow> Ok None
               | Some b \<Rightarrow> rbind (fmt_err (bitmap_extract_bits b lo rows)) (\<lambda>p. Ok (Some p))) (\<lambda>validity.
          codec_err (encode_chunk B e c dt values validity rows))))"

definition close_field_handle :: "codec_backend \<Rightarrow> field_handle \<Rightarrow> unit io" where
  "close_field_handle B h =
     (if fd_mode h = Read then io_ret ()
      else if \<not> fd_is_chunked h then io_ret ()
      else if \<not> fd_modified h then io_ret ()
      else case fd_working h of
        None \<Rightarrow> io_lift Panic
      | Some work \<Rightarrow>
          io_bind (io_lift (fmt_err (field_data_type (fd_header h)))) (\<lambda>dt.
          io_bind (io_lift (fmt_err (field_encoding (fd_header h)))) (\<lambda>e.
          io_bind (io_lift (fmt_err (field_compression (fd_header h)))) (\<lambda>c.
          let tmp = tmp_path (fd_path h)
          in io_bind (io_truncate tmp) (\<lambda>_.
             io_bind (io_on_err
               (io_bind (io_append tmp (field_header_to_bytes (fd_header h))) (\<lambda>_.
                  io_each (\<lambda>r. io_bind (io_lift (working_chunk B e c dt work r)) (io_append tmp))
                    (zip (fd_chunk_rows h) (fd_chunk_ends h))))
               (io_try_remove tmp)) (\<lambda>_.
             io_rename tmp (fd_path h)))))))"

subsection \<open>File operations\<close>

definition delete_field_file :: "string \<Rightarrow> unit io" where
  "delete_field_file path = io_remove path"

text \<open>\<open>path.parent().join(name)\<close>.\<close>

definition sibling :: "string \<Rightarrow> string \<Rightarrow> string" where
  "sibling path name = take (length path - length (file_name path)) path @ name"

definition rename_field_file :: "string \<Rightarrow> string \<Rightarrow> unit io" where
  "rename_field_file path new_name =
     (if new_name = [] \<or> hd new_name = CHR ''.'' \<or> CHR ''/'' \<in> set new_name \<or> CHR 0x5C \<in> set new_name
      then io_lift (Err (Invalid ''invalid field name''))
      else let target = sibling path new_name
        in io_bind (io_exists target) (\<lambda>ex.
             if ex then io_lift (Err (AlreadyExists target)) else io_rename path target))"

definition drop_field_handle :: "codec_backend \<Rightarrow> field_handle \<Rightarrow> unit io" where
  "drop_field_handle B h = io_bind (close_field_handle B h) (\<lambda>_. delete_field_file (fd_path h))"

definition update_field :: "codec_backend \<Rightarrow> field_handle \<Rightarrow> column_view \<Rightarrow> field_handle io" where
  "update_field B h data =
     io_bind (io_lift (require_write (fd_mode h))) (\<lambda>_.
     io_bind (io_lift (fd_data_type h)) (\<lambda>dt.
     if cv_data_type data \<noteq> dt then io_lift (Err (Invalid ''update data type mismatch''))
     else let tmp = tmp_path (fd_path h)
       in io_bind (io_try_remove tmp) (\<lambda>_.
          io_bind (create_field_file_from_view B tmp data default_options) (\<lambda>_.
          io_bind (io_rename tmp (fd_path h)) (\<lambda>_.
            open_field_file B (fd_path h) (fd_mode h))))))"

subsection \<open>A write overwrites the cells of its range\<close>

lemma splice_splice_adjacent:
  assumes "row + length xs + length ys \<le> length zs"
  shows "splice (row + length xs) ys (splice row xs zs) = splice row (xs @ ys) zs"
  using assms by (simp add: splice_def ac_simps)

lemma splice_cells:
  assumes "length values = n * size_of dt" "row + k \<le> n" "length raw = k * size_of dt"
    and "\<And>j. j < n \<Longrightarrow> valid' j = (if row \<le> j \<and> j < row + k then f (j - row) else valid j)"
  shows "cells_of dt (splice (row * size_of dt) raw values) valid' n =
    splice row (map (\<lambda>i. (f i, CBytes (slice (i * size_of dt) ((i + 1) * size_of dt) raw))) [0..<k])
      (cells_of dt values valid n)"
proof (rule nth_equalityI)
  let ?s = "size_of dt"
  let ?new = "map (\<lambda>i. (f i, CBytes (slice (i * ?s) ((i + 1) * ?s) raw))) [0..<k]"
  show "length (cells_of dt (splice (row * ?s) raw values) valid' n) =
      length (splice row ?new (cells_of dt values valid n))" using assms(2) by simp
  fix j assume "j < length (cells_of dt (splice (row * ?s) raw values) valid' n)"
  then have j: "j < n" by simp
  have fit: "row * ?s + length raw \<le> length values"
    using assms(1-3) by (metis add_mult_distrib mult_le_mono1)
  have b: "(j + 1) * ?s \<le> length values" using j assms(1) by (simp del: mult_Suc add_mult_distrib)
  show "cells_of dt (splice (row * ?s) raw values) valid' n ! j = splice row ?new (cells_of dt values valid n) ! j"
  proof (cases "row \<le> j \<and> j < row + k")
    case True
    define i where "i = j - row"
    have i: "j = row + i" "i < k" using True by (auto simp: i_def)
    have c: "(i + 1) * ?s \<le> length raw" using i(2) assms(3) by (simp del: mult_Suc add_mult_distrib)
    have "slice (j * ?s) ((j + 1) * ?s) (splice (row * ?s) raw values) =
        slice (i * ?s) ((i + 1) * ?s) (slice (row * ?s) (row * ?s + length raw) (splice (row * ?s) raw values))"
      using c by (subst slice_slice) (simp_all add: i(1) algebra_simps)
    also have "\<dots> = slice (i * ?s) ((i + 1) * ?s) raw" by (simp only: slice_splice_same[OF fit])
    finally show ?thesis
      using j i True assms(2,4) by (simp add: nth_splice)
  next
    case False
    then consider "j + 1 \<le> row" | "row + k \<le> j" by linarith
    then have "(j + 1) * ?s \<le> row * ?s \<or> row * ?s + length raw \<le> j * ?s"
    proof cases
      case 1
      then show ?thesis using mult_le_mono1[of "j + 1" row ?s] by simp
    next
      case 2
      then show ?thesis using mult_le_mono1[of "row + k" j ?s] assms(3) by (simp add: add_mult_distrib)
    qed
    then have "slice (j * ?s) ((j + 1) * ?s) (splice (row * ?s) raw values) = slice (j * ?s) ((j + 1) * ?s) values"
      by (rule slice_splice_disjoint[OF fit b])
    then show ?thesis using j False assms(2,4) by (auto simp: nth_splice)
  qed
qed

definition seg_fixed :: "data_type \<Rightarrow> column_segment \<Rightarrow> bool" where
  "seg_fixed dt s \<longleftrightarrow> seg_ok dt s \<and> (\<exists>v. seg_values s = Fixed v)"

definition bits_ones :: "bitmap option \<Rightarrow> nat \<Rightarrow> nat" where
  "bits_ones b n = (case b of None \<Rightarrow> n | Some m \<Rightarrow> ones (bm_data m) 0 n)"

lemma ones_replaced:
  assumes "a + k \<le> n" "\<And>j. j < a \<or> a + k \<le> j \<Longrightarrow> get_bit d' j = get_bit d j"
  shows "ones d' 0 n + ones d a (a + k) = ones d 0 n + ones d' a (a + k)"
proof -
  have s: "ones e 0 n = ones e 0 a + ones e a (a + k) + ones e (a + k) n" for e
    using ones_split[of 0 a "a + k" e] ones_split[of 0 "a + k" n e] assms(1) by simp
  have "ones d' 0 a = ones d 0 a" "ones d' (a + k) n = ones d (a + k) n"
    using assms(2) by (auto intro: ones_cong)
  then show ?thesis using s[of d] s[of d'] by simp
qed

definition bits_bytes :: "bitmap option \<Rightarrow> nat option" where
  "bits_bytes b = map_option (\<lambda>m. length (bm_data m)) b"

lemma working_segment_eq:
  assumes seg: "seg_fixed dt seg" and fit: "row + seg_rows seg \<le> n"
    and w: "length (wk_values work) = n * size_of dt" "bits_ok (wk_validity work) n"
    and dt: "dt \<noteq> Utf8"
    and nov: "wk_validity work = None \<longrightarrow> (\<forall>i < seg_rows seg. valid_at (seg_validity seg) i)"
  shows "\<exists>work' d'. working_write_segment (values_width dt) (work, d, row) seg = Ok (work', d', row + seg_rows seg) \<and>
    length (wk_values work') = n * size_of dt \<and> bits_ok (wk_validity work') n \<and>
    bits_bytes (wk_validity work') = bits_bytes (wk_validity work) \<and>
    cells_of dt (wk_values work') (bits_valid (wk_validity work')) n =
      splice row (seg_cells dt seg) (cells_of dt (wk_values work) (bits_valid (wk_validity work)) n) \<and>
    d' + int (bits_ones (wk_validity work') n) = d + int (bits_ones (wk_validity work) n)"
proof -
  let ?k = "seg_rows seg" and ?s = "size_of dt" and ?val = "seg_validity seg"
  obtain raw where raw: "seg_values seg = Fixed raw" using seg by (auto simp: seg_fixed_def)
  have so: "length raw = ?k * ?s" "validity_ok ?val ?k" using seg raw by (simp_all add: seg_fixed_def seg_ok_def)
  have fit2: "row * ?s + length raw \<le> length (wk_values work)"
    using fit so(1) w(1) by (metis add_mult_distrib mult_le_mono1)
  define values' where "values' = splice (row * ?s) raw (wk_values work)"
  have cp: "copy_into (row * values_width dt) ((row + ?k) * values_width dt) raw (wk_values work) =
      (Ok values' :: (core_error, _) res)"
    using dt fit2 so(1) by (simp add: values_width_def copy_into_def values'_def add_mult_distrib)
  have vl: "length values' = n * ?s" using fit2 w(1) by (simp add: values'_def)
  have sc: "seg_cells dt seg = map (\<lambda>i. (valid_at ?val i, CBytes (slice (i * ?s) ((i + 1) * ?s) raw))) [0..<?k]"
    by (simp add: seg_cells_def raw)
  have cells: "cells_of dt values' (bits_valid b') n =
      splice row (seg_cells dt seg) (cells_of dt (wk_values work) (bits_valid (wk_validity work)) n)"
    if "\<And>j. j < n \<Longrightarrow> bits_valid b' j =
      (if row \<le> j \<and> j < row + ?k then valid_at ?val (j - row) else bits_valid (wk_validity work) j)" for b'
    unfolding values'_def sc by (rule splice_cells[OF w(1) fit so(1) that])
  show ?thesis
  proof (cases "wk_validity work")
    case None
    have "cells_of dt values' (bits_valid None) n =
        splice row (seg_cells dt seg) (cells_of dt (wk_values work) (bits_valid (wk_validity work)) n)"
      using nov None by (intro cells) (auto simp: bits_valid_def)
    then show ?thesis using None raw cp vl
      by (simp add: working_write_segment_def Let_def raw_or_panic_def bits_ok_def)
  next
    case (Some m)
    have m: "bitmap_ok m" "bm_bit_offset m = 0" "bm_len m = n" using w(2) Some by (simp_all add: bits_ok_def)
    then have fitm: "row + ?k \<le> bm_len m" using fit by simp
    obtain m' d' where m': "(case ?val of
          Some src \<Rightarrow> rbind (bitmap_copy_bits_from m row src ?k) (\<lambda>(full', old_ones, new_ones).
            Ok (Some full', d + (int old_ones - int new_ones)))
        | None \<Rightarrow> rbind (bitmap_set_range m row ?k True) (\<lambda>(full', old_ones).
            Ok (Some full', d + (int old_ones - int ?k)))) = (Ok (Some m', d') :: (core_error, _) res)"
      "bitmap_ok m'" "bm_bit_offset m' = 0" "bm_len m' = n" "length (bm_data m') = length (bm_data m)"
      "d' = d + (int (ones (bm_data m) row (row + ?k)) - int (ones (bm_data m') row (row + ?k)))"
      "\<forall>j. bm_bit m' j = (if row \<le> j \<and> j < row + ?k then valid_at ?val (j - row) else bm_bit m j)"
    proof (cases ?val)
      case None
      from set_range_eq[OF m(1,2) fitm, of True, where 'e = core_error] obtain b' old where b':
        "bitmap_set_range m row ?k True = (Ok (b', old) :: (core_error, _) res)" "bitmap_ok b'" "bm_bit_offset b' = 0"
        "bm_len b' = bm_len m" "length (bm_data b') = length (bm_data m)" "old = ones (bm_data m) row (row + ?k)"
        "\<forall>j. bm_bit b' j = (if row \<le> j \<and> j < row + ?k then True else bm_bit m j)" by blast
      have "ones (bm_data b') row (row + ?k) = ?k"
        using b'(3,7) by (subst ones_all) (auto simp: bm_bit_def)
      then show ?thesis using b' m(3) None
        by (intro that[of b' "d + (int old - int ?k)"]) (simp_all add: valid_at_def)
    next
      case (Some src)
      have src: "view_ok src" "?k \<le> bv_len src" using so(2) Some by (simp_all add: validity_ok_def)
      from copy_bits_from_eq[OF m(1,2) fitm src, where 'e = core_error] obtain b' old new where b':
        "bitmap_copy_bits_from m row src ?k = (Ok (b', old, new) :: (core_error, _) res)" "bitmap_ok b'" "bm_bit_offset b' = 0"
        "bm_len b' = bm_len m" "length (bm_data b') = length (bm_data m)" "old = ones (bm_data m) row (row + ?k)"
        "new = ones (bm_data b') row (row + ?k)"
        "\<forall>j. bm_bit b' j = (if row \<le> j \<and> j < row + ?k then view_bit src (j - row) else bm_bit m j)" by blast
      then show ?thesis using m(3) Some
        by (intro that[of b' "d + (int old - int new)"]) (simp_all add: valid_at_def)
    qed
    have "ones (bm_data m') 0 n + ones (bm_data m) row (row + ?k) = ones (bm_data m) 0 n + ones (bm_data m') row (row + ?k)"
      using m'(3,7) m(2) fit by (intro ones_replaced) (auto simp: bm_bit_def)
    then have "d' + int (ones (bm_data m') 0 n) = d + int (ones (bm_data m) 0 n)" using m'(6) by linarith
    moreover have "cells_of dt values' (bits_valid (Some m')) n =
        splice row (seg_cells dt seg) (cells_of dt (wk_values work) (bits_valid (wk_validity work)) n)"
      using m'(7) Some by (intro cells) (simp add: bits_valid_def)
    moreover have "working_write_segment (values_width dt) (work, d, row) seg =
        Ok (\<lparr>wk_values = values', wk_validity = Some m'\<rparr>, d', row + ?k)"
      using cp m'(1) by (simp add: working_write_segment_def Let_def raw raw_or_panic_def Some)
    ultimately show ?thesis using m'(2-5) vl Some
      by (simp add: bits_ok_def bits_bytes_def bits_ones_def)
  qed
qed

definition all_valid_segs :: "column_segment list \<Rightarrow> bool" where
  "all_valid_segs segs \<longleftrightarrow> (\<forall>s \<in> set segs. \<forall>i < seg_rows s. valid_at (seg_validity s) i)"

lemma working_loop_eq:
  assumes "\<forall>s \<in> set segs. seg_fixed dt s" "row + sum_list (map seg_rows segs) \<le> n" "dt \<noteq> Utf8"
    and "length (wk_values work) = n * size_of dt" "bits_ok (wk_validity work) n"
    and "wk_validity work = None \<longrightarrow> all_valid_segs segs"
  shows "\<exists>work' d'. foldM (working_write_segment (values_width dt)) (work, d, row) segs =
      Ok (work', d', row + sum_list (map seg_rows segs)) \<and>
    length (wk_values work') = n * size_of dt \<and> bits_ok (wk_validity work') n \<and>
    bits_bytes (wk_validity work') = bits_bytes (wk_validity work) \<and>
    cells_of dt (wk_values work') (bits_valid (wk_validity work')) n =
      splice row (concat (map (seg_cells dt) segs)) (cells_of dt (wk_values work) (bits_valid (wk_validity work)) n) \<and>
    d' + int (bits_ones (wk_validity work') n) = d + int (bits_ones (wk_validity work) n)"
  using assms
proof (induction segs arbitrary: work d row)
  case Nil
  then show ?case by simp
next
  case (Cons s ss)
  have v: "wk_validity work = None \<longrightarrow> (\<forall>i < seg_rows s. valid_at (seg_validity s) i)"
    using Cons.prems(6) by (auto simp: all_valid_segs_def)
  have s: "seg_fixed dt s" "row + seg_rows s \<le> n" using Cons.prems(1,2) by auto
  obtain w1 d1 where w1: "working_write_segment (values_width dt) (work, d, row) s = Ok (w1, d1, row + seg_rows s)"
    "length (wk_values w1) = n * size_of dt" "bits_ok (wk_validity w1) n"
    "bits_bytes (wk_validity w1) = bits_bytes (wk_validity work)"
    "cells_of dt (wk_values w1) (bits_valid (wk_validity w1)) n =
      splice row (seg_cells dt s) (cells_of dt (wk_values work) (bits_valid (wk_validity work)) n)"
    "d1 + int (bits_ones (wk_validity w1) n) = d + int (bits_ones (wk_validity work) n)"
    using working_segment_eq[OF s Cons.prems(4,5,3) v] by blast
  have n1: "wk_validity w1 = None \<longrightarrow> all_valid_segs ss"
    using w1(4) Cons.prems(6) by (auto simp: bits_bytes_def all_valid_segs_def)
  have le: "row + seg_rows s + sum_list (map seg_rows ss) \<le> n" "\<forall>s \<in> set ss. seg_fixed dt s" using Cons.prems by auto
  obtain w2 d2 where w2: "foldM (working_write_segment (values_width dt)) (w1, d1, row + seg_rows s) ss =
      Ok (w2, d2, row + seg_rows s + sum_list (map seg_rows ss))"
    "length (wk_values w2) = n * size_of dt" "bits_ok (wk_validity w2) n"
    "bits_bytes (wk_validity w2) = bits_bytes (wk_validity w1)"
    "cells_of dt (wk_values w2) (bits_valid (wk_validity w2)) n =
      splice (row + seg_rows s) (concat (map (seg_cells dt) ss)) (cells_of dt (wk_values w1) (bits_valid (wk_validity w1)) n)"
    "d2 + int (bits_ones (wk_validity w2) n) = d1 + int (bits_ones (wk_validity w1) n)"
    using Cons.IH[OF le(2,1) Cons.prems(3) w1(2,3) n1] by blast
  have "splice (row + seg_rows s) (concat (map (seg_cells dt) ss)) (splice row (seg_cells dt s)
        (cells_of dt (wk_values work) (bits_valid (wk_validity work)) n)) =
      splice row (concat (map (seg_cells dt) (s # ss))) (cells_of dt (wk_values work) (bits_valid (wk_validity work)) n)"
    using splice_splice_adjacent[of row "seg_cells dt s" "concat (map (seg_cells dt) ss)"
        "cells_of dt (wk_values work) (bits_valid (wk_validity work)) n"] le(1) by simp
  then show ?case using w1 w2 by (intro exI[of _ w2] exI[of _ d2]) (simp add: add.assoc)
qed

text \<open>The map's segment writer is the working representation's, on the regions.\<close>

definition regions_of :: "bool \<Rightarrow> nat \<Rightarrow> bytes \<Rightarrow> bytes \<Rightarrow> working" where
  "regions_of hv n values vb = \<lparr>wk_values = values,
     wk_validity = (if hv then Some \<lparr>bm_data = vb, bm_bit_offset = 0, bm_len = n\<rparr> else None)\<rparr>"

lemma mmap_segment_sim:
  assumes "row + seg_rows seg \<le> n"
  shows "working_write_segment w (regions_of hv n values vb, d, row) seg =
    rbind (mmap_write_segment w hv (values, vb, d, row) seg) (\<lambda>(v, b, d', r). Ok (regions_of hv n v b, d', r))"
  using assms
  by (cases "seg_validity seg")
     (auto simp: working_write_segment_def mmap_write_segment_def Let_def regions_of_def rbind_assoc
       view_copy_bits_into_def bitmap_copy_bits_from_def bitmap_set_range_def split_def intro!: arg_cong2[where f = rbind])

lemma mmap_loop_sim:
  assumes "row + sum_list (map seg_rows segs) \<le> n"
  shows "foldM (working_write_segment w) (regions_of hv n vals vb, d, row) segs =
    rbind (foldM (mmap_write_segment w hv) (vals, vb, d, row) segs) (\<lambda>(v, b, d', r). Ok (regions_of hv n v b, d', r))"
  using assms
proof (induction segs arbitrary: vals vb d row)
  case (Cons s ss)
  have s: "row + seg_rows s \<le> n" using Cons.prems by simp
  show ?case
  proof (cases "mmap_write_segment w hv (vals, vb, d, row) s")
    case (Ok st)
    obtain v b d' r where st: "st = (v, b, d', r)" by (cases st)
    have "r = row + seg_rows s"
      using Ok st by (auto simp: mmap_write_segment_def Let_def res_simps)
    then show ?thesis
      using Cons.prems Cons.IH[of r v b d'] by (simp add: mmap_segment_sim[OF s] Ok st add.assoc)
  qed (simp_all add: mmap_segment_sim[OF s])
qed simp

lemma filter_upt_less: "length (filter P [0..<n]) < n \<longleftrightarrow> \<not> (\<forall>i < n. P i)"
proof (cases "\<forall>i < n. P i")
  case True
  then have "filter P [0..<n] = [0..<n]" by (simp add: filter_id_conv)
  then show ?thesis using True by simp
next
  case False
  then obtain i where "i < n" "\<not> P i" by blast
  then have "length (filter P [0..<n]) < length [0..<n]" by (intro length_filter_less[of i]) simp_all
  then show ?thesis using False by simp
qed

lemma any_null_eq:
  "\<forall>s \<in> set segs. seg_fixed dt s \<Longrightarrow> any_null segs = Ok (\<not> all_valid_segs segs)"
proof (induction segs)
  case (Cons s ss)
  then have ok: "validity_ok (seg_validity s) (seg_rows s)" by (simp add: seg_fixed_def seg_ok_def)
  show ?case
  proof (cases "seg_validity s")
    case (Some b)
    have b: "view_ok b" "bv_len b = seg_rows s" using ok Some by (simp_all add: validity_ok_def)
    have "length (filter (view_bit b) [0..<bv_len b]) < bv_len b \<longleftrightarrow> \<not> (\<forall>i < seg_rows s. view_bit b i)"
      unfolding b(2) by (rule filter_upt_less)
    then show ?thesis using Cons b Some
      by (auto simp: view_count_ones_eq all_valid_segs_def valid_at_def)
  qed (use Cons in \<open>auto simp: all_valid_segs_def valid_at_def\<close>)
qed (simp add: all_valid_segs_def)

lemma carries_null_eq:
  assumes "seg_fixed dt s"
  shows "carries_null s = Ok (\<not> (\<forall>i < seg_rows s. valid_at (seg_validity s) i))"
proof -
  have "any_null [s] = Ok (\<not> all_valid_segs [s])" using any_null_eq[of "[s]"] assms by simp
  moreover have "validity_ok (seg_validity s) (seg_rows s)" using assms by (simp add: seg_fixed_def seg_ok_def)
  ultimately show ?thesis
    by (cases "seg_validity s")
       (auto simp: carries_null_def all_valid_segs_def valid_at_def validity_ok_def view_count_ones_eq split: if_splits)
qed

lemma bits_null_count:
  assumes "bits_ok b n"
  shows "length (filter (\<lambda>c. \<not> fst c) (cells_of dt vs (bits_valid b) n)) = n - bits_ones b n" "bits_ones b n \<le> n"
proof -
  have a: "length (filter (\<lambda>c. \<not> fst c) (cells_of dt vs (bits_valid b) n)) = length (filter (\<lambda>i. \<not> bits_valid b i) [0..<n])"
    by (simp add: cells_of_def filter_map comp_def)
  have o': "length (filter (bits_valid b) [0..<n]) = bits_ones b n"
  proof (cases b)
    case (Some m)
    then have "bits_valid b = get_bit (bm_data m)" using assms by (auto simp: bits_valid_def bits_ok_def bm_bit_def)
    then show ?thesis by (simp add: bits_ones_def ones_def Some)
  qed (simp add: bits_valid_def bits_ones_def)
  have "length (filter (bits_valid b) [0..<n]) + length (filter (\<lambda>i. \<not> bits_valid b i) [0..<n]) = n"
    using sum_length_filter_compl[of "bits_valid b" "[0..<n]"] by simp
  then show "length (filter (\<lambda>c. \<not> fst c) (cells_of dt vs (bits_valid b) n)) = n - bits_ones b n" "bits_ones b n \<le> n"
    using a o' by linarith+
qed

definition nulls_of :: "(bool \<times> cell_value) list \<Rightarrow> nat" where
  "nulls_of cells = length (filter (\<lambda>c. \<not> fst c) cells)"

lemma adjusted_count:
  assumes "d + int m' = int m" "m \<le> n" "m' \<le> n" "n \<le> u32_max" "unat (fh_null_count hdr) = n - m"
  shows "unat (fh_null_count (adjust_nulls d hdr)) = n - m'"
proof -
  have "max 0 (int (unat (fh_null_count hdr)) + d) = int (n - m')"
    using assms(1-3,5) by (simp add: of_nat_diff)
  then have "fh_null_count (adjust_nulls d hdr) = of_nat (n - m')" by (simp add: adjust_nulls_def)
  then show ?thesis using assms(4) by (simp only: unat_of_nat_u32 diff_le_self le_trans[OF diff_le_self])
qed

lemma row_count_u32: "fd_row_count h \<le> u32_max"
  by (simp add: fd_row_count_def)

lemma write_into_working_eq:
  assumes ok: "fd_ok h src" "fd_is_chunked h" and dt: "src_type src \<noteq> Utf8"
    and segs: "\<forall>s \<in> set (cv_segments data). seg_fixed (src_type src) s" "cv_length data = sum_list (map seg_rows (cv_segments data))"
    and fit: "offset + cv_length data \<le> fd_row_count h"
  shows "\<exists>work d src'. write_into_working h offset data =
      Ok (h\<lparr>fd_working := Some work, fd_header := adjust_nulls d (fd_header h)\<rparr>) \<and>
    src' = \<lparr>src_type = src_type src, src_values = wk_values work, src_validity = map_option bm_data (wk_validity work)\<rparr> \<and>
    length (wk_values work) = fd_row_count h * size_of (src_type src) \<and> bits_ok (wk_validity work) (fd_row_count h) \<and>
    cells_of (src_type src) (wk_values work) (bits_valid (wk_validity work)) (fd_row_count h) =
      splice offset (concat (map (seg_cells (src_type src)) (cv_segments data))) (source_cells src (fd_row_count h)) \<and>
    (unat (fh_null_count (fd_header h)) = nulls_of (source_cells src (fd_row_count h)) \<longrightarrow>
     unat (fh_null_count (adjust_nulls d (fd_header h))) =
       nulls_of (cells_of (src_type src) (wk_values work) (bits_valid (wk_validity work)) (fd_row_count h)))"
proof -
  let ?n = "fd_row_count h" and ?dt = "src_type src" and ?segs = "cv_segments data"
  obtain work0 where w0: "fd_working h = Some work0" "src_values src = wk_values work0"
    "bits_ok (wk_validity work0) ?n" "\<And>i. bits_valid (wk_validity work0) i = src_valid src i"
    using fd_ok_chunked[OF ok] by blast
  define work where "work = (if \<not> all_valid_segs ?segs \<and> wk_validity work0 = None
    then work0\<lparr>wk_validity := Some (bitmap_ones ?n)\<rparr> else work0)"
  have ones: "bits_ok (Some (bitmap_ones ?n)) ?n" "\<And>i. i < ?n \<Longrightarrow> bits_valid (Some (bitmap_ones ?n)) i"
    using bitmap_ones_ok[of ?n] bitmap_ones_bits[of _ ?n]
    by (auto simp: bits_ok_def bits_valid_def bm_bit_def bitmap_ones_def Let_def bitmap_ok_def)
  have lv: "length (wk_values work) = ?n * size_of ?dt"
    using ok(1) w0(2) by (simp add: fd_ok_def work_def)
  have bo: "bits_ok (wk_validity work) ?n" using w0(3) ones(1) by (simp add: work_def)
  have wv: "bits_valid (wk_validity work) i = src_valid src i" if "i < ?n" for i
  proof (cases "\<not> all_valid_segs ?segs \<and> wk_validity work0 = None")
    case True
    then have "src_valid src i" using w0(4)[of i] by (simp add: bits_valid_def)
    then show ?thesis using True ones(2)[OF that] by (simp add: work_def)
  next
    case False
    then have "work = work0" by (simp only: work_def if_False)
    then show ?thesis using w0(4) by simp
  qed
  have c0: "cells_of ?dt (wk_values work) (bits_valid (wk_validity work)) ?n = source_cells src ?n"
  proof -
    have "wk_values work = src_values src" using w0(2) by (simp add: work_def)
    then show ?thesis using wv by (simp add: source_cells_def cells_of_def)
  qed
  have nv: "wk_validity work = None \<longrightarrow> all_valid_segs ?segs" by (auto simp: work_def)
  have fit': "offset + sum_list (map seg_rows ?segs) \<le> ?n" using fit segs(2) by simp
  obtain work' d where w': "foldM (working_write_segment (values_width ?dt)) (work, 0, offset) ?segs =
      Ok (work', d, offset + sum_list (map seg_rows ?segs))"
    "length (wk_values work') = ?n * size_of ?dt" "bits_ok (wk_validity work') ?n"
    "cells_of ?dt (wk_values work') (bits_valid (wk_validity work')) ?n =
      splice offset (concat (map (seg_cells ?dt) ?segs)) (source_cells src ?n)"
    "d + int (bits_ones (wk_validity work') ?n) = 0 + int (bits_ones (wk_validity work) ?n)"
    using working_loop_eq[OF segs(1) fit' dt lv bo nv, of 0] unfolding c0 by blast
  have "write_into_working h offset data = rbind (fd_data_type h) (\<lambda>dt.
      rbind (foldM (working_write_segment (values_width dt)) (work, 0, offset) ?segs)
        (\<lambda>(work', null_delta, _).
           Ok (h\<lparr>fd_working := Some work', fd_header := adjust_nulls null_delta (fd_header h)\<rparr>)))"
    unfolding write_into_working_def any_null_eq[OF segs(1)] w0(1) work_def
    by (simp only: rbind.simps option.case Let_def)
  then have run: "write_into_working h offset data =
      Ok (h\<lparr>fd_working := Some work', fd_header := adjust_nulls d (fd_header h)\<rparr>)"
    using w'(1) by (simp add: fd_ok_type[OF ok(1)])
  have "unat (fh_null_count (adjust_nulls d (fd_header h))) = ?n - bits_ones (wk_validity work') ?n"
    if "unat (fh_null_count (fd_header h)) = nulls_of (source_cells src ?n)"
    using adjusted_count[of d "bits_ones (wk_validity work') ?n" "bits_ones (wk_validity work) ?n" ?n "fd_header h"]
      w'(5) bits_null_count(1)[OF bo, of ?dt "wk_values work"] bits_null_count(2)[OF bo] bits_null_count(2)[OF w'(3)] that row_count_u32[of h]
    by (simp add: nulls_of_def c0)
  then show ?thesis
    using run w'(2-4) bits_null_count(1)[OF w'(3), of ?dt "wk_values work'"]
    by (intro exI[of _ work'] exI[of _ d]) (simp add: nulls_of_def)
qed

subsection \<open>Writes through a map\<close>

definition plain_src :: "field_header \<Rightarrow> data_type \<Rightarrow> bytes \<Rightarrow> scan_source" where
  "plain_src hdr dt m =
     (let dl = unat (fh_data_length hdr); vs = field_validity_size hdr
      in \<lparr>src_type = dt, src_values = slice HEADER_SIZE (HEADER_SIZE + dl) m,
          src_validity = (if 0 < vs then Some (slice (HEADER_SIZE + dl) (HEADER_SIZE + dl + vs) m) else None)\<rparr>)"

definition plain_fits :: "field_header \<Rightarrow> data_type \<Rightarrow> bytes \<Rightarrow> bool" where
  "plain_fits hdr dt m \<longleftrightarrow> \<not> is_chunked hdr \<and> field_data_type hdr = Ok dt \<and>
     unat (fh_data_length hdr) = unat (fh_row_count hdr) * size_of dt \<and>
     HEADER_SIZE + unat (fh_data_length hdr) + field_validity_size hdr \<le> length m"

lemma plain_ok:
  assumes "plain_fits (fd_header h) dt m" "fd_working h = None" "fd_backing h = BMmapMut m"
  shows "fd_ok h (plain_src (fd_header h) dt m)"
proof -
  have "0 < field_validity_size (fd_header h) \<Longrightarrow> fd_row_count h \<le> 8 * field_validity_size (fd_header h)"
    using validity_size_bound(1)[of "fd_row_count h"] by (auto simp: field_validity_size_def fd_row_count_def split: if_splits)
  then show ?thesis
    using assms
    by (auto simp: fd_ok_def plain_fits_def scan_source_of_def fd_data_type_def fd_is_chunked_def uncompressed_slices_def
        plain_src_def Let_def fd_row_count_def)
qed

lemma put_regions_slices:
  assumes "length v = unat (fh_data_length hdr)" "length b = field_validity_size hdr"
    and "HEADER_SIZE + unat (fh_data_length hdr) + field_validity_size hdr \<le> length m"
  shows "length (put_regions hdr v b m) = length m"
    "slice HEADER_SIZE (HEADER_SIZE + unat (fh_data_length hdr)) (put_regions hdr v b m) = v"
    "slice (HEADER_SIZE + unat (fh_data_length hdr)) (HEADER_SIZE + unat (fh_data_length hdr) + field_validity_size hdr)
      (put_regions hdr v b m) = b"
proof -
  let ?dl = "unat (fh_data_length hdr)"
  let ?m1 = "splice (HEADER_SIZE + ?dl) b m"
  have l1: "length ?m1 = length m" using assms by simp
  then show "length (put_regions hdr v b m) = length m" using assms by (simp add: put_regions_def)
  show "slice HEADER_SIZE (HEADER_SIZE + ?dl) (put_regions hdr v b m) = v"
    using slice_splice_same[of HEADER_SIZE v ?m1] l1 assms by (simp add: put_regions_def)
  have "slice (HEADER_SIZE + ?dl) (HEADER_SIZE + ?dl + field_validity_size hdr) (put_regions hdr v b m) =
      slice (HEADER_SIZE + ?dl) (HEADER_SIZE + ?dl + field_validity_size hdr) ?m1"
    unfolding put_regions_def using l1 assms by (intro slice_splice_disjoint) auto
  also have "\<dots> = b" using slice_splice_same[of "HEADER_SIZE + ?dl" b m] assms by simp
  finally show "slice (HEADER_SIZE + ?dl) (HEADER_SIZE + ?dl + field_validity_size hdr) (put_regions hdr v b m) = b" .
qed

lemma regions_cells:
  assumes "plain_fits hdr dt m" "n = unat (fh_row_count hdr)"
  shows "cells_of dt (src_values (plain_src hdr dt m)) (bits_valid (wk_validity (regions_of (has_validity hdr) n values
      (slice (HEADER_SIZE + unat (fh_data_length hdr))
        (HEADER_SIZE + unat (fh_data_length hdr) + field_validity_size hdr) m)))) n = source_cells (plain_src hdr dt m) n"
proof -
  have "bits_valid (wk_validity (regions_of (has_validity hdr) n values
      (slice (HEADER_SIZE + unat (fh_data_length hdr))
        (HEADER_SIZE + unat (fh_data_length hdr) + field_validity_size hdr) m))) i = src_valid (plain_src hdr dt m) i"
    if "i < n" for i
    using that assms(2)
    by (auto simp: bits_valid_def regions_of_def src_valid_def plain_src_def field_validity_size_def bm_bit_def Let_def)
  then show ?thesis by (simp add: source_cells_def cells_of_def plain_src_def Let_def)
qed

lemma write_into_mmap_eq:
  assumes fits: "plain_fits (fd_header h) dt m" and h: "fd_working h = None" "fd_backing h = BMmapMut m"
    and dt: "dt \<noteq> Utf8" and n: "n = fd_row_count h"
    and segs: "\<forall>s \<in> set (cv_segments data). seg_fixed dt s" "cv_length data = sum_list (map seg_rows (cv_segments data))"
    and fit: "offset + cv_length data \<le> n"
    and nov: "\<not> has_validity (fd_header h) \<longrightarrow> all_valid_segs (cv_segments data)"
  shows "\<exists>m' d. write_into_mmap h offset data = Ok (h\<lparr>fd_backing := BMmapMut m',
        fd_header := (if has_validity (fd_header h) then adjust_nulls d (fd_header h) else fd_header h)\<rparr>) \<and>
    length m' = length m \<and>
    source_cells (plain_src (fd_header h) dt m') n =
      splice offset (concat (map (seg_cells dt) (cv_segments data))) (source_cells (plain_src (fd_header h) dt m) n) \<and>
    (unat (fh_null_count (fd_header h)) = nulls_of (source_cells (plain_src (fd_header h) dt m) n) \<longrightarrow>
     unat (fh_null_count (if has_validity (fd_header h) then adjust_nulls d (fd_header h) else fd_header h)) =
       nulls_of (source_cells (plain_src (fd_header h) dt m') n))"
proof -
  let ?hdr = "fd_header h" and ?segs = "cv_segments data"
  let ?hv = "has_validity ?hdr" and ?dl = "unat (fh_data_length ?hdr)" and ?vs = "field_validity_size ?hdr"
  define vals where "vals = slice HEADER_SIZE (HEADER_SIZE + ?dl) m"
  define vb where "vb = slice (HEADER_SIZE + ?dl) (HEADER_SIZE + ?dl + ?vs) m"
  have f: "\<not> is_chunked ?hdr" "field_data_type ?hdr = Ok dt" "?dl = n * size_of dt" "HEADER_SIZE + ?dl + ?vs \<le> length m"
    using fits by (auto simp: plain_fits_def n fd_row_count_def)
  have nn: "n = unat (fh_row_count ?hdr)" by (simp add: n fd_row_count_def)
  have mut: "uncompressed_slices_mut h = Ok (vals, vb)"
    using f(4) by (simp add: uncompressed_slices_mut_def h(2) Let_def vals_def vb_def)
  have lv: "length vals = n * size_of dt" "length vb = ?vs" using f(3,4) by (simp_all add: vals_def vb_def)
  define R where "R = regions_of ?hv n vals vb"
  have Rv: "wk_values R = vals" by (simp add: R_def regions_of_def)
  have bo: "bits_ok (wk_validity R) n"
    using lv(2) validity_size_bound(1)[of n] by (auto simp: R_def regions_of_def bits_ok_def bitmap_ok_def field_validity_size_def nn)
  have nv: "wk_validity R = None \<longrightarrow> all_valid_segs ?segs" using nov by (auto simp: R_def regions_of_def)
  have c0: "cells_of dt (wk_values R) (bits_valid (wk_validity R)) n = source_cells (plain_src ?hdr dt m) n"
    using regions_cells[OF fits nn, of vals] unfolding Rv by (simp add: R_def vb_def plain_src_def Let_def vals_def)
  have lR: "length (wk_values R) = n * size_of dt" using lv(1) Rv by simp
  have fit': "offset + sum_list (map seg_rows ?segs) \<le> n" using fit segs(2) by simp
  obtain work' d where w': "foldM (working_write_segment (values_width dt)) (R, 0, offset) ?segs =
      Ok (work', d, offset + sum_list (map seg_rows ?segs))"
    "length (wk_values work') = n * size_of dt" "bits_ok (wk_validity work') n"
    "bits_bytes (wk_validity work') = bits_bytes (wk_validity R)"
    "cells_of dt (wk_values work') (bits_valid (wk_validity work')) n =
      splice offset (concat (map (seg_cells dt) ?segs)) (source_cells (plain_src ?hdr dt m) n)"
    "d + int (bits_ones (wk_validity work') n) = 0 + int (bits_ones (wk_validity R) n)"
    using working_loop_eq[OF segs(1) fit' dt lR bo nv, of 0] unfolding c0 by blast
  obtain v' b' r where mm: "foldM (mmap_write_segment (values_width dt) ?hv) (vals, vb, 0, offset) ?segs = Ok (v', b', d, r)"
    "work' = regions_of ?hv n v' b'"
    using w'(1) unfolding R_def mmap_loop_sim[OF fit'] by (auto simp: res_simps)
  have lb: "length b' = ?vs"
  proof (cases ?hv)
    case True
    then show ?thesis using w'(4) mm(2) lv(2) by (simp add: bits_bytes_def R_def regions_of_def)
  next
    case False
    have "case (v', b', d, r) of (v, b, d, r) \<Rightarrow> b = vb"
      by (rule foldM_invariant[OF mm(1)]) (use False in \<open>auto simp: mmap_write_segment_def Let_def res_simps\<close>)
    then show ?thesis using lv(2) by simp
  qed
  have lv': "length v' = ?dl" using w'(2) mm(2) f(3) by (simp add: regions_of_def)
  define m' where "m' = put_regions ?hdr v' b' m"
  note pr = put_regions_slices[OF lv' lb f(4), folded m'_def]
  have fits': "plain_fits ?hdr dt m'" using fits pr(1) by (simp add: plain_fits_def)
  have "source_cells (plain_src ?hdr dt m') n = cells_of dt (wk_values work') (bits_valid (wk_validity work')) n"
    using regions_cells[OF fits' nn, of v'] pr(2,3) mm(2) by (simp add: regions_of_def plain_src_def Let_def)
  then have cells: "source_cells (plain_src ?hdr dt m') n =
      splice offset (concat (map (seg_cells dt) ?segs)) (source_cells (plain_src ?hdr dt m) n)"
    "nulls_of (source_cells (plain_src ?hdr dt m') n) = n - bits_ones (wk_validity work') n"
    using w'(5) bits_null_count(1)[OF w'(3), of dt "wk_values work'"] by (simp_all add: nulls_of_def)
  have c1: "nulls_of (source_cells (plain_src ?hdr dt m) n) = n - bits_ones (wk_validity R) n"
    using bits_null_count(1)[OF bo, of dt "wk_values R"] c0 by (simp add: nulls_of_def)
  have chk: "\<exists>us. (if ?hv then Ok [] else mapM (\<lambda>s. rbind (carries_null s) (\<lambda>b.
      guard (\<not> b) (Invalid ''field has no validity region; cannot write NULLs''))) ?segs) = Ok us"
  proof (cases ?hv)
    case False
    then have "all_valid_segs ?segs" using nov by simp
    then have "mapM (\<lambda>s. rbind (carries_null s) (\<lambda>b.
      guard (\<not> b) (Invalid ''field has no validity region; cannot write NULLs''))) ?segs = Ok (map (\<lambda>s. ()) ?segs)"
      using segs(1) by (intro mapM_all_Ok) (auto simp: carries_null_eq all_valid_segs_def)
    then show ?thesis using False by simp
  qed simp
  then obtain us where us: "(if ?hv then Ok [] else mapM (\<lambda>s. rbind (carries_null s) (\<lambda>b.
      guard (\<not> b) (Invalid ''field has no validity region; cannot write NULLs''))) ?segs) = Ok us" by blast
  have ty: "fd_data_type h = (Ok dt :: (core_error, _) res)" using f(2) by (simp add: fd_data_type_def)
  have run: "write_into_mmap h offset data = Ok (h\<lparr>fd_backing := BMmapMut m',
      fd_header := (if ?hv then adjust_nulls d ?hdr else ?hdr)\<rparr>)"
    unfolding write_into_mmap_def ty rbind.simps Let_def us mut prod.case mm(1)
    by (simp add: h(2) m'_def)
  have nulls: "unat (fh_null_count (if ?hv then adjust_nulls d ?hdr else ?hdr)) = n - bits_ones (wk_validity work') n"
    if "unat (fh_null_count ?hdr) = n - bits_ones (wk_validity R) n"
  proof (cases ?hv)
    case True
    then show ?thesis
      using adjusted_count[of d "bits_ones (wk_validity work') n" "bits_ones (wk_validity R) n" n ?hdr] w'(6)
        bits_null_count(2)[OF bo] bits_null_count(2)[OF w'(3)] that row_count_u32[of h] by (simp add: n)
  next
    case False
    then show ?thesis using that mm(2) by (simp add: R_def regions_of_def)
  qed
  show ?thesis
    using run pr(1) cells c1 nulls by (intro exI[of _ m'] exI[of _ d]) simp
qed

subsection \<open>\<open>write_field_handle\<close> refines overwriting a list of cells\<close>

definition zero_working :: "data_type \<Rightarrow> nat \<Rightarrow> working" where
  "zero_working dt n = \<lparr>wk_values = replicate (n * size_of dt) 0, wk_validity = Some (bitmap_zeros n)\<rparr>"

text \<open>
  A handle that was opened for writing on the file as it is: chunked, or uncompressed with its
  regions in the map, or a header-only file whose regions do not exist yet.
\<close>

definition fd_live :: "files \<Rightarrow> field_handle \<Rightarrow> data_type \<Rightarrow> bool" where
  "fd_live fs h dt \<longleftrightarrow> fd_mode h = Write \<and>
     (\<exists>m. fd_backing h = BMmapMut m \<and> fs (fd_path h) = Some m \<and> HEADER_SIZE \<le> length m \<and>
        (fd_is_chunked h \<or>
         fd_working h = None \<and> plain_fits (fd_header h) dt m \<or>
         fd_working h = Some (zero_working dt (fd_row_count h)) \<and> length m = HEADER_SIZE \<and>
           has_validity (fd_header h) \<and> \<not> is_chunked (fd_header h) \<and> field_data_type (fd_header h) = Ok dt \<and>
           unat (fh_data_length (fd_header h)) = fd_row_count h * size_of dt))"

lemma sync_header_eq:
  assumes "fd_backing h = BMmapMut m" "HEADER_SIZE \<le> length m"
  shows "sync_header h fs = (Ok (h\<lparr>fd_backing := BMmapMut (splice 0 (field_header_to_bytes (fd_header h)) m)\<rparr>),
    fs(fd_path h \<mapsto> splice 0 (field_header_to_bytes (fd_header h)) m))"
proof -
  have "copy_into 0 HEADER_SIZE (field_header_to_bytes (fd_header h)) m =
      (Ok (splice 0 (field_header_to_bytes (fd_header h)) m) :: (core_error, _) res)"
    using assms(2) header_image_length[of "fd_header h"] by (simp add: copy_into_def)
  then show ?thesis using assms(1) by (simp add: sync_header_def io_bind_def io_lift_def)
qed

lemma splice_header_slice:
  assumes "HEADER_SIZE \<le> length m" "HEADER_SIZE \<le> lo" "hi \<le> length m"
  shows "slice lo hi (splice 0 (field_header_to_bytes hdr) m) = slice lo hi m"
  using assms header_image_length[of hdr] by (intro slice_splice_disjoint) simp_all

lemma length_splice_header: "HEADER_SIZE \<le> length m \<Longrightarrow> length (splice 0 (field_header_to_bytes hdr) m) = length m"
  using header_image_length[of hdr] by simp

text \<open>Counters of the header do not change what a handle shows.\<close>

definition same_layout :: "field_header \<Rightarrow> field_header \<Rightarrow> bool" where
  "same_layout a b \<longleftrightarrow> (\<exists>g k. b = a\<lparr>fh_generation := g, fh_null_count := k\<rparr>)"

lemma same_layout_intros:
  "same_layout a a" "same_layout a (adjust_nulls d a)"
proof -
  have "a = a\<lparr>fh_generation := fh_generation a, fh_null_count := fh_null_count a\<rparr>" by simp
  then show "same_layout a a" unfolding same_layout_def by blast
  have "adjust_nulls d a = a\<lparr>fh_generation := fh_generation a,
      fh_null_count := of_int (max 0 (int (unat (fh_null_count a)) + d))\<rparr>" by (simp add: adjust_nulls_def)
  then show "same_layout a (adjust_nulls d a)" unfolding same_layout_def by blast
qed

lemma same_layout_generation: "same_layout a b \<Longrightarrow> same_layout a (b\<lparr>fh_generation := g\<rparr>)"
proof -
  assume "same_layout a b"
  then obtain g' k where "b = a\<lparr>fh_generation := g', fh_null_count := k\<rparr>" by (auto simp: same_layout_def)
  then have "b\<lparr>fh_generation := g\<rparr> = a\<lparr>fh_generation := g, fh_null_count := k\<rparr>" by simp
  then show ?thesis unfolding same_layout_def by blast
qed

lemma same_layout_simps:
  assumes "same_layout a b"
  shows "is_chunked b = is_chunked a" "field_data_type b = field_data_type a" "fh_row_count b = fh_row_count a"
    "fh_data_length b = fh_data_length a" "field_validity_size b = field_validity_size a" "has_validity b = has_validity a"
    "plain_src b dt m = plain_src a dt m" "plain_fits b dt m = plain_fits a dt m"
proof -
  obtain g k where b: "b = a\<lparr>fh_generation := g, fh_null_count := k\<rparr>" using assms by (auto simp: same_layout_def)
  have s: "is_chunked b = is_chunked a" "field_data_type b = field_data_type a" "fh_row_count b = fh_row_count a"
    "fh_data_length b = fh_data_length a" "field_validity_size b = field_validity_size a" "has_validity b = has_validity a"
    by (simp_all add: b is_chunked_def field_data_type_def field_validity_size_def has_validity_def)
  then show "is_chunked b = is_chunked a" "field_data_type b = field_data_type a" "fh_row_count b = fh_row_count a"
    "fh_data_length b = fh_data_length a" "field_validity_size b = field_validity_size a" "has_validity b = has_validity a"
    "plain_src b dt m = plain_src a dt m" "plain_fits b dt m = plain_fits a dt m"
    by (simp_all only: plain_src_def plain_fits_def Let_def)
qed

lemma plain_src_splice_header:
  assumes "plain_fits hdr dt m"
  shows "plain_src hdr dt (splice 0 (field_header_to_bytes hdr') m) = plain_src hdr dt m"
  using assms splice_header_slice[of m HEADER_SIZE "HEADER_SIZE + unat (fh_data_length hdr)" hdr']
    splice_header_slice[of m "HEADER_SIZE + unat (fh_data_length hdr)"
      "HEADER_SIZE + unat (fh_data_length hdr) + field_validity_size hdr" hdr']
  by (simp add: plain_src_def plain_fits_def Let_def)

lemma expand_eq:
  assumes "fd_backing h = BMmapMut m" "fs (fd_path h) = Some m" "length m = HEADER_SIZE"
    and "fd_working h = Some (zero_working dt (fd_row_count h))" "has_validity (fd_header h)"
    and "\<not> is_chunked (fd_header h)" "field_data_type (fd_header h) = Ok dt"
    and dl: "unat (fh_data_length (fd_header h)) = fd_row_count h * size_of dt" and ok: "fd_ok h src"
  shows "\<exists>m'. expand_header_only_file h fs = (Ok (h\<lparr>fd_backing := BMmapMut m', fd_working := None\<rparr>), fs(fd_path h \<mapsto> m')) \<and>
    plain_fits (fd_header h) dt m' \<and>
    source_cells (plain_src (fd_header h) dt m') (fd_row_count h) = source_cells src (fd_row_count h)"
proof -
  let ?hdr = "fd_header h" and ?n = "fd_row_count h"
  let ?k = "?n * size_of dt + validity_size ?n"
  define m' where "m' = m @ replicate ?k (0 :: u8)"
  have vs: "field_validity_size ?hdr = validity_size ?n" using assms(5) by (simp add: field_validity_size_def fd_row_count_def)
  have e: "expand_header_only_file h fs = (Ok (h\<lparr>fd_backing := BMmapMut m', fd_working := None\<rparr>), fs(fd_path h \<mapsto> m'))"
    using assms(2,3) by (simp add: expand_header_only_file_def Let_def io_bind_def io_set_len_def io_read_def file_open_def
        io_ret_def dl vs m'_def add.assoc)
  have fits: "plain_fits ?hdr dt m'"
    using assms(3,6,7) dl vs by (simp add: plain_fits_def m'_def fd_row_count_def)
  have sl: "slice HEADER_SIZE (HEADER_SIZE + ?n * size_of dt) m' = replicate (?n * size_of dt) 0"
    "slice (HEADER_SIZE + ?n * size_of dt) (HEADER_SIZE + ?n * size_of dt + validity_size ?n) m' = replicate (validity_size ?n) 0"
    using assms(3) by (simp_all add: m'_def slice_def)
  have v: "bitmap_as_view (bitmap_zeros ?n) =
      (Ok \<lparr>bv_data = bm_data (bitmap_zeros ?n), bv_bit_offset = 0, bv_len = ?n\<rparr> :: (core_error, _) res)"
    using bitmap_as_view_eq[OF bitmap_zeros_ok[of ?n]] by (simp add: bitmap_zeros_def)
  have "uncompressed_slices h = Ok (replicate (?n * size_of dt) 0, Some (bm_data (bitmap_zeros ?n)))"
    using assms(4) v by (simp add: uncompressed_slices_def zero_working_def)
  moreover have "scan_source_of h = Ok src" using ok by (simp add: fd_ok_def)
  ultimately have src: "src = \<lparr>src_type = dt, src_values = replicate (?n * size_of dt) 0,
      src_validity = Some (replicate (validity_size ?n) 0)\<rparr>"
    using assms(6,7) by (simp add: scan_source_of_def fd_data_type_def fd_is_chunked_def bitmap_zeros_def validity_size_def)
  have "source_cells (plain_src ?hdr dt m') ?n = source_cells src ?n"
    by (auto simp: source_cells_def plain_src_def Let_def dl vs sl src src_valid_def intro!: cells_of_cong)
  then show ?thesis using e fits by blast
qed

text \<open>What a write promises, for a handle that shows \<open>cells\<close>.\<close>

definition write_result ::
  "files \<Rightarrow> field_handle \<Rightarrow> data_type \<Rightarrow> (bool \<times> cell_value) list \<Rightarrow> (bool \<times> cell_value) list \<Rightarrow> bool \<Rightarrow>
   (core_error, field_handle) res \<times> files \<Rightarrow> bool" where
  "write_result fs h dt before after changed r \<longleftrightarrow>
     (\<exists>h' fs' src'. r = (Ok h', fs') \<and> fd_ok h' src' \<and> src_type src' = dt \<and> fd_live fs' h' dt \<and>
        fd_path h' = fd_path h \<and> fd_row_count h' = fd_row_count h \<and>
        source_cells src' (fd_row_count h) = after \<and> (\<forall>q. q \<noteq> fd_path h \<longrightarrow> fs' q = fs q) \<and>
        (unat (fh_null_count (fd_header h)) = nulls_of before \<longrightarrow> unat (fh_null_count (fd_header h')) = nulls_of after) \<and>
        (changed \<longrightarrow> fd_modified h' \<and> fh_generation (fd_header h') = fh_generation (fd_header h) + 1) \<and>
        (\<not> changed \<longrightarrow> h' = h \<and> fs' = fs))"

definition writable :: "field_handle \<Rightarrow> data_type \<Rightarrow> column_view \<Rightarrow> bool" where
  "writable h dt data \<longleftrightarrow> dt \<noteq> Utf8 \<and> cv_data_type data = dt \<and> (\<forall>s \<in> set (cv_segments data). seg_fixed dt s) \<and>
     cv_length data = sum_list (map seg_rows (cv_segments data)) \<and>
     (\<not> fd_is_chunked h \<and> \<not> has_validity (fd_header h) \<longrightarrow> all_valid_segs (cv_segments data))"

definition bump :: "field_handle \<Rightarrow> field_handle" where
  "bump h = h\<lparr>fd_header := (fd_header h)\<lparr>fh_generation := fh_generation (fd_header h) + 1\<rparr>, fd_modified := True\<rparr>"

lemma write_eq:
  assumes ok: "fd_ok h src" and live: "fd_live fs h dt" and ty: "src_type src = dt" and wr: "writable h dt data"
    and fit: "offset + cv_length data \<le> fd_row_count h"
  shows "write_result fs h dt (source_cells src (fd_row_count h))
    (splice offset (view_cells data) (source_cells src (fd_row_count h))) (cv_length data \<noteq> 0)
    (write_field_handle h offset data fs)"
proof -
  let ?n = "fd_row_count h" and ?hdr = "fd_header h" and ?segs = "cv_segments data"
  let ?before = "source_cells src ?n" and ?after = "splice offset (view_cells data) (source_cells src ?n)"
  have dt: "dt \<noteq> Utf8" "cv_data_type data = dt" and segs: "\<forall>s \<in> set ?segs. seg_fixed dt s"
    "cv_length data = sum_list (map seg_rows ?segs)" using wr by (simp_all add: writable_def)
  have vc: "view_cells data = concat (map (seg_cells dt) ?segs)" using dt(2) by (simp add: view_cells_def)
  obtain m where m: "fd_mode h = Write" "fd_backing h = BMmapMut m" "fs (fd_path h) = Some m" "HEADER_SIZE \<le> length m"
    using live by (auto simp: fd_live_def)
  have fdt: "fd_data_type h = (Ok dt :: (core_error, _) res)" using fd_ok_type[OF ok] ty by simp
  have g: "\<not> u64_max < offset + cv_length data" "\<not> ?n < offset + cv_length data"
    using fit row_count_u32[of h] by simp_all
  have start: "write_field_handle h offset data fs =
      (if cv_length data = 0 then (Ok h, fs)
       else io_bind (if fd_is_chunked h then io_lift (write_into_working h offset data)
                   else io_bind (if fd_working h \<noteq> None then expand_header_only_file h else io_ret h) (\<lambda>h1.
                        io_lift (write_into_mmap h1 offset data))) (\<lambda>h2. sync_header (bump h2)) fs)"
    using g m(1) fdt dt(2)
    by (simp add: write_field_handle_def io_lift_Ok_bind io_ret_app bump_def)
  show ?thesis
  proof (cases "cv_length data = 0")
    case True
    then have "view_cells data = []" using segs(2) vc by (auto simp: seg_cells_def)
    then show ?thesis using True start ok ty live by (auto simp: write_result_def)
  next
    case len: False
    show ?thesis
    proof (cases "fd_is_chunked h")
      case True
      have segs': "\<forall>s \<in> set ?segs. seg_fixed (src_type src) s" using segs(1) ty by simp
      have dt': "src_type src \<noteq> Utf8" using dt(1) ty by simp
      obtain work d src' where w: "write_into_working h offset data =
          Ok (h\<lparr>fd_working := Some work, fd_header := adjust_nulls d ?hdr\<rparr>)"
        "src' = \<lparr>src_type = dt, src_values = wk_values work, src_validity = map_option bm_data (wk_validity work)\<rparr>"
        "length (wk_values work) = ?n * size_of dt" "bits_ok (wk_validity work) ?n"
        "cells_of dt (wk_values work) (bits_valid (wk_validity work)) ?n = ?after"
        "unat (fh_null_count ?hdr) = nulls_of ?before \<longrightarrow> unat (fh_null_count (adjust_nulls d ?hdr)) = nulls_of ?after"
        using write_into_working_eq[OF ok True dt' segs' segs(2) fit] unfolding ty vc by (elim exE conjE) metis
      define h2 where "h2 = bump (h\<lparr>fd_working := Some work, fd_header := adjust_nulls d ?hdr\<rparr>)"
      have h2: "fd_backing h2 = BMmapMut m" "fd_path h2 = fd_path h" "fd_working h2 = Some work"
        "fd_chunk_rows h2 = fd_chunk_rows h" "fd_chunk_ends h2 = fd_chunk_ends h" "fd_mode h2 = Write"
        "fd_modified h2" using m by (simp_all add: h2_def bump_def)
      have sl: "same_layout ?hdr (fd_header h2)"
        using same_layout_generation[OF same_layout_intros(2)] by (simp add: h2_def bump_def)
      define m' where "m' = splice 0 (field_header_to_bytes (fd_header h2)) m"
      define h' where "h' = h2\<lparr>fd_backing := BMmapMut m'\<rparr>"
      have run: "write_field_handle h offset data fs = (Ok h', fs(fd_path h \<mapsto> m'))"
        unfolding start using len True w(1) sync_header_eq[OF h2(1) m(4), of fs] h2(2)
        by (simp add: io_bind_def io_lift_def h2_def[symmetric] m'_def h'_def)
      have rc: "fd_row_count h' = ?n" "fd_is_chunked h'"
        using same_layout_simps[OF sl] True by (simp_all add: h'_def fd_row_count_def fd_is_chunked_def)
      have "scan_source_of h' = Ok src'"
        using w(2,4) rc same_layout_simps(2)[OF sl] fdt h2(3)
        by (cases "wk_validity work")
           (auto simp: scan_source_of_def fd_data_type_def h'_def working_ref_def ok_or_def bits_ok_def bitmap_as_view_eq fd_is_chunked_def)
      then have ok': "fd_ok h' src'"
        using ok True w(2-4) rc h2
        by (auto simp: fd_ok_def h'_def bits_ok_def bitmap_ok_def)
      have "src_valid src' i = bits_valid (wk_validity work) i" for i
        using w(2,4) by (cases "wk_validity work") (auto simp: src_valid_def bits_valid_def bits_ok_def bm_bit_def)
      then have "source_cells src' ?n = ?after"
        using w(2,5) by (simp add: source_cells_def cells_of_def)
      moreover have "fd_live (fs(fd_path h \<mapsto> m')) h' dt"
        using m(4) h2 rc length_splice_header[OF m(4), of "fd_header h2"] by (simp add: fd_live_def h'_def m'_def)
      moreover have "unat (fh_null_count ?hdr) = nulls_of ?before \<longrightarrow> unat (fh_null_count (fd_header h')) = nulls_of ?after"
        using w(6) by (simp add: h'_def h2_def bump_def)
      moreover have "fh_generation (fd_header h') = fh_generation ?hdr + 1"
        by (simp add: h'_def h2_def bump_def adjust_nulls_def)
      ultimately show ?thesis
        unfolding write_result_def using run ok' rc w(2) h2 len
        by (intro exI[of _ h'] exI[of _ "fs(fd_path h \<mapsto> m')"] exI[of _ src']) (simp add: h'_def)
    next
      case False
      obtain h1 m1 fs1 where h1: "(if fd_working h \<noteq> None then expand_header_only_file h else io_ret h) fs = (Ok h1, fs1)"
        "h1 = h\<lparr>fd_backing := BMmapMut m1, fd_working := None\<rparr>" "plain_fits ?hdr dt m1"
        "source_cells (plain_src ?hdr dt m1) ?n = ?before" "fs1 (fd_path h) = Some m1" "\<And>q. q \<noteq> fd_path h \<Longrightarrow> fs1 q = fs q"
      proof (cases "fd_working h")
        case None
        then have fits: "plain_fits ?hdr dt m" using live m(2) False by (auto simp: fd_live_def fd_is_chunked_def)
        have "scan_source_of h = Ok (plain_src ?hdr dt m)" using plain_ok[OF fits None m(2)] by (simp add: fd_ok_def)
        then have "plain_src ?hdr dt m = src" using ok by (simp add: fd_ok_def)
        then show ?thesis using that[of h fs m] None m fits by (simp add: io_ret_def)
      next
        case (Some w0)
        then have c: "fd_working h = Some (zero_working dt ?n)" "length m = HEADER_SIZE" "has_validity ?hdr"
          "\<not> is_chunked ?hdr" "field_data_type ?hdr = Ok dt" "unat (fh_data_length ?hdr) = ?n * size_of dt"
          using live m(2) False by (auto simp: fd_live_def fd_is_chunked_def)
        from expand_eq[where fs = fs, OF m(2,3) c(2,1,3-6) ok] obtain m1 where
          "expand_header_only_file h fs = (Ok (h\<lparr>fd_backing := BMmapMut m1, fd_working := None\<rparr>), fs(fd_path h \<mapsto> m1))"
          "plain_fits ?hdr dt m1" "source_cells (plain_src ?hdr dt m1) ?n = ?before" by blast
        then show ?thesis using that[of _ "fs(fd_path h \<mapsto> m1)" m1] Some by simp
      qed
      have h1s: "fd_header h1 = ?hdr" "fd_working h1 = None" "fd_backing h1 = BMmapMut m1" "fd_row_count h1 = ?n"
        "fd_path h1 = fd_path h" "fd_mode h1 = Write"
        using h1(2) m(1) by (simp_all add: fd_row_count_def)
      have fits1: "plain_fits (fd_header h1) dt m1" using h1(3) h1s by simp
      have nov: "\<not> has_validity (fd_header h1) \<longrightarrow> all_valid_segs ?segs" using wr False h1s(1) by (simp add: writable_def)
      have "\<exists>m2 hdr2. write_into_mmap h1 offset data = Ok (h1\<lparr>fd_backing := BMmapMut m2, fd_header := hdr2\<rparr>) \<and>
          same_layout ?hdr hdr2 \<and> fh_generation hdr2 = fh_generation ?hdr \<and> length m2 = length m1 \<and>
          source_cells (plain_src ?hdr dt m2) ?n = ?after \<and>
          (unat (fh_null_count ?hdr) = nulls_of ?before \<longrightarrow> unat (fh_null_count hdr2) = nulls_of ?after)"
      proof -
        obtain m2 d where w: "write_into_mmap h1 offset data = Ok (h1\<lparr>fd_backing := BMmapMut m2,
            fd_header := (if has_validity ?hdr then adjust_nulls d ?hdr else ?hdr)\<rparr>)"
          "length m2 = length m1" "source_cells (plain_src ?hdr dt m2) ?n = ?after"
          "unat (fh_null_count ?hdr) = nulls_of ?before \<longrightarrow>
            unat (fh_null_count (if has_validity ?hdr then adjust_nulls d ?hdr else ?hdr)) =
              nulls_of (source_cells (plain_src ?hdr dt m2) ?n)"
          using write_into_mmap_eq[OF fits1 h1s(2,3) dt(1) h1s(4)[symmetric] segs fit nov]
          unfolding h1s(1) vc[symmetric] h1(4) by blast
        moreover have "same_layout ?hdr (if has_validity ?hdr then adjust_nulls d ?hdr else ?hdr)"
          by (simp add: same_layout_intros)
        moreover have "fh_generation (if has_validity ?hdr then adjust_nulls d ?hdr else ?hdr) = fh_generation ?hdr"
          by (simp add: adjust_nulls_def)
        ultimately show ?thesis using w(3) by metis
      qed
      then obtain m2 hdr2 where m2: "write_into_mmap h1 offset data = Ok (h1\<lparr>fd_backing := BMmapMut m2, fd_header := hdr2\<rparr>)"
        "same_layout ?hdr hdr2" "fh_generation hdr2 = fh_generation ?hdr" "length m2 = length m1"
        "source_cells (plain_src ?hdr dt m2) ?n = ?after"
        "unat (fh_null_count ?hdr) = nulls_of ?before \<longrightarrow> unat (fh_null_count hdr2) = nulls_of ?after" by blast
      define h2 where "h2 = bump (h1\<lparr>fd_backing := BMmapMut m2, fd_header := hdr2\<rparr>)"
      have h2: "fd_backing h2 = BMmapMut m2" "fd_path h2 = fd_path h" "fd_working h2 = None" "fd_mode h2 = Write"
        "fd_modified h2" using h1s by (simp_all add: h2_def bump_def)
      have sl: "same_layout ?hdr (fd_header h2)"
        using same_layout_generation[OF m2(2)] by (simp add: h2_def bump_def)
      have lm: "HEADER_SIZE \<le> length m2" using h1(3) m2(4) by (simp add: plain_fits_def)
      define m' where "m' = splice 0 (field_header_to_bytes (fd_header h2)) m2"
      define h' where "h' = h2\<lparr>fd_backing := BMmapMut m'\<rparr>"
      have run: "write_field_handle h offset data fs = (Ok h', fs1(fd_path h \<mapsto> m'))"
        unfolding start using len False h1(1) m2(1) sync_header_eq[OF h2(1) lm, of fs1] h2(2)
        by (simp add: io_bind_def io_lift_def h2_def[symmetric] m'_def h'_def)
      have f2: "plain_fits ?hdr dt m2" using h1(3) m2(4) by (simp add: plain_fits_def)
      have f': "plain_fits (fd_header h') dt m'"
        using f2 length_splice_header[OF lm, of "fd_header h2"] same_layout_simps[OF sl]
        by (simp add: h'_def m'_def plain_fits_def)
      have ps: "plain_src (fd_header h') dt m' = plain_src ?hdr dt m2"
        using plain_src_splice_header[OF f2, of "fd_header h2"] same_layout_simps[OF sl] by (simp add: h'_def m'_def)
      have ok': "fd_ok h' (plain_src (fd_header h') dt m')"
        by (rule plain_ok[OF f']) (simp_all add: h'_def h2)
      have rc: "fd_row_count h' = ?n" using same_layout_simps[OF sl] by (simp add: h'_def fd_row_count_def)
      have "fd_live (fs1(fd_path h \<mapsto> m')) h' dt"
        using f' h2 length_splice_header[OF lm, of "fd_header h2"] lm by (simp add: fd_live_def h'_def m'_def)
      moreover have "fh_generation (fd_header h') = fh_generation ?hdr + 1"
        using m2(3) by (simp add: h'_def h2_def bump_def)
      moreover have "unat (fh_null_count ?hdr) = nulls_of ?before \<longrightarrow> unat (fh_null_count (fd_header h')) = nulls_of ?after"
        using m2(6) by (simp add: h'_def h2_def bump_def)
      ultimately show ?thesis
        unfolding write_result_def using run ok' rc ps m2(5) h2 len h1(6)
        by (intro exI[of _ h'] exI[of _ "fs1(fd_path h \<mapsto> m')"] exI[of _ "plain_src (fd_header h') dt m'"])
           (simp add: h'_def plain_src_def Let_def)
    qed
  qed
qed

subsection \<open>Closing\<close>

lemma tiles_running:
  assumes "\<forall>r \<in> set rs. 0 < r"
  shows "tiles st (st + sum_list rs) (map (\<lambda>(r, e). (e - r, e)) (zip rs (running_ends st rs)))"
  using assms
proof (induction rs arbitrary: st)
  case (Cons r rs)
  then show ?case using Cons.IH[of "st + r"] by (simp add: add.assoc)
qed simp

lemma working_chunk_codes:
  assumes sane: "backend_sane B c" and dt: "dt \<noteq> Utf8" and vals: "length (wk_values work) = n * size_of dt" and n: "n \<le> 2 ^ 26"
    and r: "0 < rows" "rows \<le> hi" "hi \<le> n" and bits: "bits_ok (wk_validity work) n"
  shows "\<exists>ch. working_chunk B e c dt work (rows, hi) = Ok ch \<and>
    chunk_codes B e c dt (wk_values work) (bits_valid (wk_validity work)) (hi - rows, hi) ch \<and> chunk_small (hi - rows, hi) ch"
proof -
  let ?s = "size_of dt" and ?lo = "hi - rows"
  let ?vs = "slice (?lo * ?s) (hi * ?s) (wk_values work)"
  have h: "?lo * ?s \<le> hi * ?s" "hi * ?s \<le> length (wk_values work)" using r vals by simp_all
  have hl: "hi - ?lo = rows" using r by simp
  have l: "length ?vs = rows * ?s" using h hl by (simp add: diff_mult_distrib[symmetric])
  obtain val where val: "(case wk_validity work of None \<Rightarrow> Ok None
      | Some b \<Rightarrow> rbind (fmt_err (bitmap_extract_bits b ?lo rows)) (\<lambda>p. Ok (Some p))) = Ok val"
    "bits_code val (bits_valid (wk_validity work)) ?lo rows"
    "case val of None \<Rightarrow> True | Some p \<Rightarrow> length p = validity_size rows"
  proof (cases "wk_validity work")
    case (Some b)
    have b: "bitmap_ok b" "bm_len b = n" using bits Some by (simp_all add: bits_ok_def)
    then have le: "?lo + rows \<le> bm_len b" using r by simp
    obtain out where out: "bitmap_extract_bits b ?lo rows = Ok out" "length out = validity_size rows"
      "\<forall>j. j < 8 * length out \<longrightarrow> get_bit out j = (j < rows \<and> bm_bit b (?lo + j))"
      using bitmap_extract_bits_eq[OF b(1) le] by blast
    have "get_bit out j = bm_bit b (?lo + j)" if "j < rows" for j
      using that out(2,3) validity_size_bound(1)[of rows] by auto
    then show ?thesis using out(1,2) by (intro that[of "Some out"]) (simp_all add: Some bits_code_def bits_valid_def)
  qed (auto simp: bits_code_def bits_valid_def)
  have "rows \<le> 2 ^ 26" using r n by simp
  from encode_chunk_sane[OF sane dt l this val(3), of e] obtain ch where
    ch: "encode_chunk B e c dt ?vs val rows = Ok ch" "length ch \<le> u32_max" "12 * rows < u32_max" by blast
  then have "working_chunk B e c dt work (rows, hi) = Ok ch"
    using h val(1) by (simp add: working_chunk_def Let_def)
  then show ?thesis using ch val(2) hl unfolding chunk_codes_def chunk_small_def by auto
qed

lemma working_chunks_codes:
  assumes sane: "backend_sane B c" and dt: "dt \<noteq> Utf8" and vals: "length (wk_values work) = n * size_of dt" and n: "n \<le> 2 ^ 26"
    and bits: "bits_ok (wk_validity work) n" and rs: "\<forall>r \<in> set rs. 0 < r" "st + sum_list rs \<le> n"
  shows "\<exists>cs. mapM (working_chunk B e c dt work) (zip rs (running_ends st rs)) = Ok cs \<and>
    list_all2 (chunk_codes B e c dt (wk_values work) (bits_valid (wk_validity work)))
      (map (\<lambda>(r, e). (e - r, e)) (zip rs (running_ends st rs))) cs \<and>
    list_all2 chunk_small (map (\<lambda>(r, e). (e - r, e)) (zip rs (running_ends st rs))) cs"
  using rs
proof (induction rs arbitrary: st)
  case (Cons r rs)
  have r: "0 < r" "r \<le> st + r" "st + r \<le> n" using Cons.prems by auto
  obtain ch where ch: "working_chunk B e c dt work (r, st + r) = Ok ch"
    "chunk_codes B e c dt (wk_values work) (bits_valid (wk_validity work)) (st + r - r, st + r) ch"
    "chunk_small (st + r - r, st + r) ch"
    using working_chunk_codes[OF sane dt vals n r bits] by blast
  have "\<forall>r \<in> set rs. 0 < r" "st + r + sum_list rs \<le> n" using Cons.prems by auto
  from Cons.IH[OF this] obtain cs where cs: "mapM (working_chunk B e c dt work) (zip rs (running_ends (st + r) rs)) = Ok cs"
    "list_all2 (chunk_codes B e c dt (wk_values work) (bits_valid (wk_validity work)))
      (map (\<lambda>(r, e). (e - r, e)) (zip rs (running_ends (st + r) rs))) cs"
    "list_all2 chunk_small (map (\<lambda>(r, e). (e - r, e)) (zip rs (running_ends (st + r) rs))) cs" by blast
  then show ?case using ch by simp
qed simp

definition closable :: "codec_backend \<Rightarrow> field_handle \<Rightarrow> bool" where
  "closable B h \<longleftrightarrow> fd_mode h = Write \<and> fd_is_chunked h \<and> fd_modified h \<and> field_header_ok (fd_header h) \<and>
     fd_row_count h \<le> 2 ^ 26 \<and> (\<forall>r \<in> set (fd_chunk_rows h). 0 < r) \<and>
     (\<forall>c. field_compression (fd_header h) = Ok c \<longrightarrow> backend_sane B c)"

lemma close_eq:
  assumes ok: "fd_ok h src" and cl: "closable B h" and dt: "src_type src \<noteq> Utf8"
  shows "\<exists>bs. close_field_handle B h fs = (Ok (), fs(tmp_path (fd_path h) := None, fd_path h \<mapsto> bs)) \<and>
    field_holds B bs (src_type src) (source_cells src (fd_row_count h))"
proof -
  let ?hdr = "fd_header h" and ?dt = "src_type src" and ?n = "fd_row_count h" and ?tmp = "tmp_path (fd_path h)"
  have c: "fd_mode h = Write" "fd_is_chunked h" "fd_modified h" "field_header_ok ?hdr" "?n \<le> 2 ^ 26"
    "\<forall>r \<in> set (fd_chunk_rows h). 0 < r" using cl by (simp_all add: closable_def)
  obtain e where e: "field_encoding ?hdr = Ok e" using c(4) by (auto simp: field_header_ok_iff field_encoding_def)
  obtain cc where cc: "field_compression ?hdr = Ok cc" using c(4) by (auto simp: field_header_ok_iff field_compression_def)
  have sane: "backend_sane B cc" using cl cc by (simp add: closable_def)
  obtain work where w: "fd_working h = Some work" "src_values src = wk_values work" "bits_ok (wk_validity work) ?n"
    "\<And>i. bits_valid (wk_validity work) i = src_valid src i"
    using fd_ok_chunked[OF ok c(2)] by blast
  have ch: "fd_chunk_ends h = running_ends 0 (fd_chunk_rows h)" "sum_list (fd_chunk_rows h) = ?n"
    "length (wk_values work) = ?n * size_of ?dt"
    using ok c(2) w(2) by (auto simp: fd_ok_def)
  have "fd_data_type h = (Ok ?dt :: (core_error, _) res)" using fd_ok_type[OF ok] .
  then have ty: "field_data_type ?hdr = Ok ?dt" by (simp add: fd_data_type_def res_simps)
  have sum: "0 + sum_list (fd_chunk_rows h) \<le> ?n" using ch(2) by simp
  let ?z = "zip (fd_chunk_rows h) (fd_chunk_ends h)"
  obtain cs where cs: "mapM (working_chunk B e cc ?dt work) ?z = Ok cs"
    "list_all2 (chunk_codes B e cc ?dt (wk_values work) (bits_valid (wk_validity work))) (map (\<lambda>(r, e). (e - r, e)) ?z) cs"
    "list_all2 chunk_small (map (\<lambda>(r, e). (e - r, e)) ?z) cs"
    using working_chunks_codes[OF sane dt ch(3) c(5) w(3) c(6) sum, of e] unfolding ch(1) by blast
  have t: "tiles 0 ?n (map (\<lambda>(r, e). (e - r, e)) ?z)"
    using tiles_running[OF c(6), of 0] ch(1,2) by simp
  define bs where "bs = field_header_to_bytes ?hdr @ concat cs"
  have "field_holds B bs ?dt (cells_of ?dt (wk_values work) (bits_valid (wk_validity work)) ?n)"
    unfolding bs_def using sane dt c(2,4) ty e cc ch(3) t cs(2,3)
    by (intro chunked_holds[where e = e and c = cc]) (simp_all add: backend_sane_def fd_is_chunked_def fd_row_count_def)
  moreover have "cells_of ?dt (wk_values work) (bits_valid (wk_validity work)) ?n = source_cells src ?n"
    by (simp add: source_cells_def cells_of_def w(2,4))
  moreover have "close_field_handle B h fs = (Ok (), fs(?tmp := None, fd_path h \<mapsto> bs))"
  proof -
    have l: "io_each (\<lambda>r. io_bind (io_lift (working_chunk B e cc ?dt work r)) (io_append ?tmp)) ?z
        (fs(?tmp \<mapsto> field_header_to_bytes ?hdr)) = (Ok (), fs(?tmp \<mapsto> bs))"
      using io_each_append[of "fs(?tmp \<mapsto> field_header_to_bytes ?hdr)" ?tmp "field_header_to_bytes ?hdr", OF _ cs(1)]
      by (simp add: bs_def)
    show ?thesis
      using c(1-3) w(1)
      by (simp add: close_field_handle_def ty e cc io_simps l io_on_err_def Let_def)
  qed
  ultimately show ?thesis by auto
qed

lemma close_unwinds: "unwinds {tmp_path (fd_path h)} (close_field_handle B h)"
  unfolding close_field_handle_def Let_def
  by (intro unwind_intros touch_intros) simp_all

text \<open>C15. A positional write refines overwriting a list of cells: through any live handle (chunked,
  uncompressed, or header-only, whose regions are created first) the handle shows the old cells with
  exactly the written range replaced, the generation grows by one, the NULL count stays exact, no other
  file changes and the handle stays live for the next write; an empty write changes nothing.\<close>

theorem write_field_refines:
  assumes "fd_ok h src" "fd_live fs h dt" "src_type src = dt" "writable h dt data"
    "offset + cv_length data \<le> fd_row_count h"
  shows "write_result fs h dt (source_cells src (fd_row_count h))
    (splice offset (view_cells data) (source_cells src (fd_row_count h))) (cv_length data \<noteq> 0)
    (write_field_handle h offset data fs)"
  using write_eq[OF assms] .

definition example_map :: bytes where
  "example_map = field_header_to_bytes (field_header_new_uncompressed Int8 1 3 0 True) @ [10, 20, 30] @ [0x07]"

definition example_handle :: field_handle where
  "example_handle = \<lparr>fd_path = ''f'', fd_header = field_header_new_uncompressed Int8 1 3 0 True, fd_mode = Write,
     fd_backing = BMmapMut example_map, fd_chunk_rows = [], fd_chunk_ends = [], fd_working = None, fd_modified = False\<rparr>"

definition example_data :: column_view where
  "example_data = \<lparr>cv_data_type = Int8, cv_segments =
     [\<lparr>seg_values = Fixed [7, 9], seg_validity = Some \<lparr>bv_data = [0x02], bv_bit_offset = 0, bv_len = 2\<rparr>, seg_rows = 2\<rparr>],
     cv_length = 2\<rparr>"

lemma example_fits: "plain_fits (fd_header example_handle) Int8 example_map"
  using header_image_length[of "field_header_new_uncompressed Int8 1 3 0 True"]
  by (simp add: plain_fits_def example_handle_def example_map_def field_data_type_def new_uncompressed_data_length
      field_validity_size_def validity_size_def data_type_from_id_def)

theorem write_field_refines_witness:
  "\<exists>h' fs' src'. write_field_handle example_handle 1 example_data (Map.empty(''f'' \<mapsto> example_map)) = (Ok h', fs') \<and>
     fd_ok h' src' \<and> source_cells src' 3 = [(True, CBytes [10]), (False, CBytes [7]), (True, CBytes [9])]"
proof -
  let ?fs = "Map.empty(''f'' \<mapsto> example_map)"
  let ?src = "plain_src (fd_header example_handle) Int8 example_map"
  have n: "fd_row_count example_handle = 3" by (simp add: fd_row_count_def example_handle_def)
  have ok: "fd_ok example_handle ?src"
    by (rule plain_ok[OF example_fits]) (simp_all add: example_handle_def)
  have live: "fd_live ?fs example_handle Int8"
    using example_fits header_image_length[of "field_header_new_uncompressed Int8 1 3 0 True"]
    by (simp add: fd_live_def example_handle_def example_map_def)
  have ty: "src_type ?src = Int8" by (simp add: plain_src_def Let_def)
  have wr: "writable example_handle Int8 example_data"
    by (simp add: writable_def example_data_def seg_fixed_def seg_ok_def validity_ok_def view_ok_def example_handle_def)
  have fit: "1 + cv_length example_data \<le> fd_row_count example_handle" using n by (simp add: example_data_def)
  have c: "splice 1 (view_cells example_data) (source_cells ?src 3) =
      [(True, CBytes [10]), (False, CBytes [7]), (True, CBytes [9])]"
    by code_simp
  show ?thesis
    using write_field_refines[OF ok live ty wr fit] unfolding write_result_def n c by blast
qed

text \<open>C16. Closing a modified chunked handle makes the writes durable: the file is replaced by one
  re-encoded chunk by chunk, no temporary file is left, and every later open and read of it shows the
  cells that the handle showed.\<close>

theorem close_reopen:
  assumes "fd_ok h src" "closable B h" "src_type src \<noteq> Utf8"
  shows "\<exists>fs'. close_field_handle B h fs = (Ok (), fs') \<and> fs' (tmp_path (fd_path h)) = None \<and>
    (\<forall>m offset len. offset + len \<le> fd_row_count h \<longrightarrow>
      (\<exists>h' v. open_field_file B (fd_path h) m fs' = (Ok h', fs') \<and> read_field_handle h' offset len = Ok v \<and>
         view_cells v = slice offset (offset + len) (source_cells src (fd_row_count h))))"
proof -
  obtain bs where bs: "close_field_handle B h fs = (Ok (), fs(tmp_path (fd_path h) := None, fd_path h \<mapsto> bs))"
    "field_holds B bs (src_type src) (source_cells src (fd_row_count h))"
    using close_eq[OF assms] by blast
  let ?fs' = "fs(tmp_path (fd_path h) := None, fd_path h \<mapsto> bs)"
  have "\<exists>h' v. open_field_file B (fd_path h) m ?fs' = (Ok h', ?fs') \<and> read_field_handle h' offset len = Ok v \<and>
      view_cells v = slice offset (offset + len) (source_cells src (fd_row_count h))"
    if "offset + len \<le> fd_row_count h" for m offset len
    using field_holds_read[OF bs(2), of ?fs' "fd_path h" offset len m] that by (auto simp: source_cells_def)
  then show ?thesis using bs(1) by (intro exI[of _ ?fs']) simp
qed

definition example_chunked :: field_handle where
  "example_chunked = \<lparr>fd_path = ''f'', fd_header = chunked_header Int8 Zstd 2 0 2, fd_mode = Write,
     fd_backing = BMmapMut [], fd_chunk_rows = [2], fd_chunk_ends = [2],
     fd_working = Some \<lparr>wk_values = [5, 6], wk_validity = Some \<lparr>bm_data = [0x01], bm_bit_offset = 0, bm_len = 2\<rparr>\<rparr>,
     fd_modified = True\<rparr>"

lemma example_backend_sane: "backend_sane example_backend Zstd"
  by (auto simp: backend_sane_def backend_ok_def example_backend_def)

lemma example_chunked_ok:
  "fd_ok example_chunked \<lparr>src_type = Int8, src_values = [5, 6], src_validity = Some [0x01]\<rparr>"
  "fd_row_count example_chunked = 2" "fd_is_chunked example_chunked"
proof -
  have n: "fd_row_count example_chunked = 2" and ch: "fd_is_chunked example_chunked"
    by (simp_all add: fd_row_count_def fd_is_chunked_def example_chunked_def)
  then show "fd_row_count example_chunked = 2" "fd_is_chunked example_chunked" by simp_all
  have "bitmap_ok \<lparr>bm_data = [0x01], bm_bit_offset = 0, bm_len = 2\<rparr>" by (simp add: bitmap_ok_def)
  then show "fd_ok example_chunked \<lparr>src_type = Int8, src_values = [5, 6], src_validity = Some [0x01]\<rparr>"
    using n ch
    by (auto simp: fd_ok_def scan_source_of_def fd_data_type_def field_data_type_def working_ref_def ok_or_def
        bitmap_as_view_eq data_type_from_id_def) (auto simp: example_chunked_def bitmap_as_view_eq data_type_from_id_def ok_or_def field_data_type_def)
qed

theorem close_reopen_witness:
  "\<exists>fs' h' v. close_field_handle example_backend example_chunked Map.empty = (Ok (), fs') \<and>
     open_field_file example_backend ''f'' Read fs' = (Ok h', fs') \<and> read_field_handle h' 0 2 = Ok v \<and>
     view_cells v = [(True, CBytes [5]), (False, CBytes [6])]"
proof -
  let ?src = "\<lparr>src_type = Int8, src_values = [5, 6], src_validity = Some [0x01]\<rparr>"
  have cl: "closable example_backend example_chunked"
    using example_chunked_ok(2,3) example_backend_sane
    by (auto simp: closable_def example_chunked_def)
  have ty: "src_type ?src \<noteq> Utf8" by simp
  have p: "fd_path example_chunked = ''f''" by (simp add: example_chunked_def)
  have c: "slice 0 (0 + 2) (source_cells ?src 2) = [(True, CBytes [5]), (False, CBytes [6])]" by code_simp
  obtain fs' where fs: "close_field_handle example_backend example_chunked Map.empty = (Ok (), fs')"
    and all: "\<forall>m offset len. offset + len \<le> 2 \<longrightarrow>
      (\<exists>h' v. open_field_file example_backend ''f'' m fs' = (Ok h', fs') \<and> read_field_handle h' offset len = Ok v \<and>
         view_cells v = slice offset (offset + len) (source_cells ?src 2))"
    using close_reopen[OF example_chunked_ok(1) cl ty, of Map.empty] unfolding p example_chunked_ok(2) by blast
  have "(0::nat) + 2 \<le> 2" by simp
  from all[rule_format, OF this, of Read] show ?thesis using fs unfolding c by blast
qed

text \<open>C17. Closing is atomic: whatever goes wrong while the chunks are re-encoded (the compression
  library failing, an unknown tag), no file but the temporary one differs from before.\<close>

theorem close_atomic:
  assumes "close_field_handle B h fs = (r, fs')" "\<not> is_ok r" "q \<noteq> tmp_path (fd_path h)"
  shows "fs' q = fs q"
  using unwindsD[OF close_unwinds assms(1,2)] assms(3) by simp

theorem close_atomic_witness:
  "\<exists>e fs'. close_field_handle (example_backend\<lparr>zstd_compress := (\<lambda>d l. Err ''no'')\<rparr>) example_chunked
      (Map.empty(''f'' \<mapsto> [1, 2])) = (Err e, fs') \<and> fs' ''f'' = Some [1, 2]"
proof -
  let ?B = "example_backend\<lparr>zstd_compress := (\<lambda>d l. Err ''no'')\<rparr>" and ?fs = "Map.empty(''f'' \<mapsto> [1, 2 :: u8])"
  have r: "fst (close_field_handle ?B example_chunked ?fs) = Err (ECodec (CIo ''no''))" by code_simp
  obtain fs' where c: "close_field_handle ?B example_chunked ?fs = (Err (ECodec (CIo ''no'')), fs')"
    using r by (metis prod.collapse)
  have "fs' ''f'' = ?fs ''f''"
    using close_atomic[OF c, of "''f''"] by (simp add: example_chunked_def)
  then show ?thesis using c by auto
qed

end
