(* ===== verification/Field_Compress.thy ===== *)
theory Field_Compress
  imports Field_Write
begin

text \<open>
  Compressing and decompressing a FIELD file in place (\<open>splayed-core/src/field_file.rs\<close>), and the
  general creation function that can compress a streamed file. Both replace the file through a
  temporary one. Decompression parses the chunks itself; it is related to the open of the same file by
  the list of decoded chunks that both go through.
\<close>

subsection \<open>Compression\<close>

definition compress_offsets :: "nat \<Rightarrow> nat list option \<Rightarrow> (core_error, nat list) res" where
  "compress_offsets rows offsets =
     (case offsets of
        Some offs \<Rightarrow>
          if offs = [] \<or> hd offs \<noteq> 0 then Err (Invalid ''offsets must start at 0'')
          else let l = remdups_adj (sort offs)
            in if (\<exists>w \<in> set (pairs_of l). fst w \<ge> snd w) \<or> (\<exists>o' \<in> set l. o' \<ge> rows) \<or> l = []
               then Err (Invalid ''offsets must be strictly ascending within [0, row_count)'')
               else Ok l
      | None \<Rightarrow> Ok (chunk_starts rows))"

text \<open>One chunk of a handle: the rows \<open>[lo, hi)\<close> of its regions.\<close>

definition handle_chunk ::
  "codec_backend \<Rightarrow> encoding \<Rightarrow> compression \<Rightarrow> data_type \<Rightarrow> field_handle \<Rightarrow> nat \<times> nat \<Rightarrow> (core_error, bytes) res" where
  "handle_chunk B e c dt h r = (case r of (lo, hi) \<Rightarrow>
     rbind (scan_source_of h) (\<lambda>src.
     rbind (range_views src lo (hi - lo)) (\<lambda>(vs, validity).
     rbind (case validity of None \<Rightarrow> Ok None
            | Some b \<Rightarrow> rbind (view_to_packed_bytes b) (\<lambda>p. Ok (Some p))) (\<lambda>bits.
       codec_err (encode_chunk B e c dt vs bits (hi - lo))))))"

text \<open>Write the bytes to the temporary file and rename it over \<open>path\<close>.\<close>

definition replace_file :: "string \<Rightarrow> bytes \<Rightarrow> unit io" where
  "replace_file path bs =
     (let tmp = tmp_path path
      in io_bind (io_truncate tmp) (\<lambda>_. io_bind (io_append tmp bs) (\<lambda>_. io_rename tmp path)))"

definition compress_field_file_encoded ::
  "codec_backend \<Rightarrow> string \<Rightarrow> nat list option \<Rightarrow> encoding \<Rightarrow> compression \<Rightarrow> unit io" where
  "compress_field_file_encoded B path offsets e c =
     io_bind (open_field_file B path Read) (\<lambda>h.
     if fd_is_chunked h then io_lift (Err (InvalidState ''field is already compressed''))
     else io_bind (io_read path) (\<lambda>bs.
       let tagged = (fd_header h)\<lparr>fh_compression := compression_id c, fh_encoding := encoding_id e\<rparr>
       in if length bs = HEADER_SIZE \<or> is_all_null (fd_header h)
          then replace_file path (field_header_to_bytes (set_has_validity True tagged))
          else let rows = fd_row_count h; tmp = tmp_path path
            in io_bind (io_lift (compress_offsets rows offsets)) (\<lambda>boundaries.
               io_bind (io_lift (fd_data_type h)) (\<lambda>dt.
               io_bind (io_truncate tmp) (\<lambda>_.
               io_bind (io_on_err
                 (io_bind (io_append tmp (field_header_to_bytes ((set_has_validity False tagged)\<lparr>fh_validity_offset := 0\<rparr>))) (\<lambda>_.
                    if boundaries = [] then io_lift Panic
                    else io_each (\<lambda>r. io_bind (io_lift (handle_chunk B e c dt h r)) (io_append tmp))
                           (starts_to_ranges rows boundaries)))
                 (io_try_remove tmp)) (\<lambda>_.
               io_rename tmp path))))))"

definition compress_field_file :: "codec_backend \<Rightarrow> string \<Rightarrow> nat list option \<Rightarrow> unit io" where
  "compress_field_file B path offsets = compress_field_file_encoded B path offsets Plain Zstd"

definition create_field_file ::
  "codec_backend \<Rightarrow> string \<Rightarrow> data_type \<Rightarrow> field_init \<Rightarrow> create_options \<Rightarrow> unit io" where
  "create_field_file B path data_type init options =
     io_bind (io_exists path) (\<lambda>ex.
     if ex then io_lift (Err (AlreadyExists path))
     else if co_compression options = CNone then create_field_file_plain path data_type init
     else if data_type = Utf8 then create_field_file_plain path data_type init
     else case init of
        FI_Stream _ \<Rightarrow>
          io_bind (create_field_file_plain path data_type init) (\<lambda>_.
            compress_field_file_encoded B path (co_chunk_offsets options) Plain (co_compression options))
      | _ \<Rightarrow> create_field_file_chunked B path data_type init options)"

subsection \<open>Decompression\<close>

text \<open>A bit stream under construction: the pending bits, how many they are, the bytes completed.\<close>

type_synonym bit_stream = "u64 \<times> nat \<times> bytes"

definition stitch_bit :: "bytes option \<Rightarrow> bit_stream \<Rightarrow> nat \<Rightarrow> (core_error, bit_stream) res" where
  "stitch_bit bits st i = (case st of (bit_acc, acc_bits, emitted) \<Rightarrow>
     rbind (case bits of
              Some b \<Rightarrow> rbind (nth_r b (i div 8)) (\<lambda>x. Ok (drop_bit (i mod 8) x AND 1))
            | None \<Rightarrow> Ok 1) (\<lambda>x.
     let acc = bit_acc OR push_bit acc_bits (ucast x)
     in if acc_bits + 1 = 8 then Ok (0, 0, emitted @ [ucast acc]) else Ok (acc, acc_bits + 1, emitted)))"

definition stitch_chunk_bits :: "bytes option \<Rightarrow> nat \<Rightarrow> bit_stream \<Rightarrow> (core_error, bit_stream) res" where
  "stitch_chunk_bits bits rows st = foldM (stitch_bit bits) st [0..<rows]"

text \<open>The position, length and rows of every chunk, and where the walk ended.\<close>

function chunk_spans :: "bytes \<Rightarrow> nat \<Rightarrow> (core_error, (nat \<times> nat \<times> nat) list \<times> nat) res" where
  "chunk_spans bs p =
     (if length bs \<le> p then Ok ([], p)
      else case chunk_header_from_bytes (drop p bs) of
        Err er \<Rightarrow> Err (ECodec er)
      | Panic \<Rightarrow> Panic
      | Ok hdr \<Rightarrow>
          let len = CHUNK_HEADER_SIZE + unat (ch_payload_len hdr)
          in rbind (chunk_spans bs (p + len)) (\<lambda>(cs, fin). Ok ((p, len, unat (ch_rows hdr)) # cs, fin)))"
  by auto
termination
  by (relation "measure (\<lambda>(bs, p). length bs - p)") (auto simp: CHUNK_HEADER_SIZE_def)

declare chunk_spans.simps [simp del]

record decompress_state =
  ds_data_pos :: nat
  ds_validity_pos :: nat
  ds_acc :: "u64 \<times> nat"
  ds_saw_validity :: bool
  ds_data_written :: nat

definition decompress_step ::
  "codec_backend \<Rightarrow> encoding \<Rightarrow> compression \<Rightarrow> data_type \<Rightarrow> bytes \<Rightarrow> string \<Rightarrow> decompress_state \<Rightarrow> nat \<times> nat \<times> nat \<Rightarrow>
   decompress_state io" where
  "decompress_step B e c dt m tmp st chunk = (case chunk of (p, len, crows) \<Rightarrow>
     io_bind (io_lift (rbind (slice_r p (p + len) m) (\<lambda>ch. codec_err (decode_chunk B e c dt ch)))) (\<lambda>(vs, validity, decoded_rows).
     if decoded_rows \<noteq> crows then io_lift (Err (InvalidState ''chunk header rows mismatch with decoded rows''))
     else io_bind (io_pwrite tmp (ds_data_pos st) vs) (\<lambda>_.
          io_bind (io_lift (stitch_chunk_bits validity decoded_rows (fst (ds_acc st), snd (ds_acc st), []))) (\<lambda>(acc, n, emitted).
          io_bind (if emitted = [] then io_ret () else io_pwrite tmp (ds_validity_pos st) emitted) (\<lambda>_.
            io_ret \<lparr>ds_data_pos = ds_data_pos st + length vs, ds_validity_pos = ds_validity_pos st + length emitted,
                    ds_acc = (acc, n), ds_saw_validity = (ds_saw_validity st \<or> validity \<noteq> None),
                    ds_data_written = ds_data_written st + length vs\<rparr>)))))"

definition decompress_body ::
  "codec_backend \<Rightarrow> field_header \<Rightarrow> encoding \<Rightarrow> compression \<Rightarrow> data_type \<Rightarrow> bytes \<Rightarrow> string \<Rightarrow> (nat \<times> nat \<times> nat) list \<Rightarrow> unit io" where
  "decompress_body B header e c dt m tmp chunks =
     (let data_len = unat (fh_row_count header) * size_of dt
      in io_bind (io_fold (decompress_step B e c dt m tmp)
           \<lparr>ds_data_pos = HEADER_SIZE, ds_validity_pos = HEADER_SIZE + data_len, ds_acc = (0, 0),
            ds_saw_validity = False, ds_data_written = 0\<rparr> chunks) (\<lambda>st.
         if ds_data_written st \<noteq> data_len then io_lift (Err (InvalidState ''decoded data length mismatch''))
         else io_bind (if ds_saw_validity st \<and> 0 < snd (ds_acc st)
                       then io_pwrite tmp (ds_validity_pos st) [ucast (fst (ds_acc st))] else io_ret ()) (\<lambda>_.
              io_bind (write_header tmp (field_header_new_uncompressed dt (fh_generation header) (fh_row_count header)
                         (fh_null_count header) (ds_saw_validity st))) (\<lambda>_.
                if ds_saw_validity st then io_ret () else io_set_len tmp (HEADER_SIZE + data_len)))))"

definition decompress_field_file :: "codec_backend \<Rightarrow> string \<Rightarrow> unit io" where
  "decompress_field_file B path =
     io_bind (io_read path) (\<lambda>m.
     io_bind (io_lift (rbind (slice_r 0 HEADER_SIZE m) (\<lambda>hb. fmt_err (field_header_from_bytes hb)))) (\<lambda>header.
     if \<not> is_chunked header then io_lift (Err (InvalidState ''field is not compressed''))
     else if length m = HEADER_SIZE
     then replace_file path (field_header_to_bytes (set_has_validity True
            (header\<lparr>fh_compression := compression_id CNone, fh_encoding := encoding_id Plain\<rparr>)))
     else io_bind (io_lift (fmt_err (field_data_type header))) (\<lambda>dt.
          io_bind (io_lift (fmt_err (field_encoding header))) (\<lambda>e.
          io_bind (io_lift (fmt_err (field_compression header))) (\<lambda>c.
          let rows = unat (fh_row_count header); tmp = tmp_path path
          in io_bind (io_lift (chunk_spans m HEADER_SIZE)) (\<lambda>(chunks, p).
             if p \<noteq> length m then io_lift (Err (InvalidState ''chunk stream does not exactly cover file''))
             else io_bind (io_truncate tmp) (\<lambda>_.
                  io_bind (io_set_len tmp (HEADER_SIZE + rows * size_of dt + validity_size rows)) (\<lambda>_.
                  io_bind (io_on_err (decompress_body B header e c dt m tmp chunks) (io_try_remove tmp)) (\<lambda>_.
                    io_rename tmp path)))))))))"


subsection \<open>The bit stream\<close>

text \<open>The stream holds the bits \<open>bs\<close>, in bytes except for the pending last ones.\<close>

definition stream_holds :: "bit_stream \<Rightarrow> bool list \<Rightarrow> bool" where
  "stream_holds st bs = (case st of (acc, n, out) \<Rightarrow>
     n < 8 \<and> length bs = 8 * length out + n \<and> (\<forall>j. j < 8 * length out \<longrightarrow> get_bit out j = bs ! j) \<and>
     (\<forall>j. bit acc j = (j < n \<and> bs ! (8 * length out + j))))"

definition stream_bytes :: "bit_stream \<Rightarrow> bytes" where
  "stream_bytes st = (case st of (acc, n, out) \<Rightarrow> out @ (if 0 < n then [ucast acc] else []))"

lemma get_bit_front: "j < 8 * length out \<Longrightarrow> get_bit (out @ ys) j = get_bit out j"
  by (simp add: get_bit_def nth_append less_mult_imp_div_less mult.commute)

lemma get_bit_last: "k < 8 \<Longrightarrow> get_bit (out @ [x]) (8 * length out + k) = bit x k"
  by (simp add: get_bit_def)

lemma stream_bytes_get:
  assumes "stream_holds st bs" "j < length bs"
  shows "get_bit (stream_bytes st) j = bs ! j"
proof -
  obtain acc n out where st: "st = (acc, n, out)" by (cases st) auto
  have h: "n < 8" "length bs = 8 * length out + n" "\<forall>j. j < 8 * length out \<longrightarrow> get_bit out j = bs ! j"
    "\<forall>j. bit acc j = (j < n \<and> bs ! (8 * length out + j))" using assms(1) by (simp_all add: stream_holds_def st)
  show ?thesis
  proof (cases "j < 8 * length out")
    case True
    then show ?thesis using h(3) by (simp add: stream_bytes_def st get_bit_front)
  next
    case False
    then obtain k where k: "j = 8 * length out + k" using less_imp_add_positive[of "8 * length out" j] by (cases "j = 8 * length out") auto
    then have "k < n" using assms(2) h(2) by simp
    moreover have "bit acc k = (k < n \<and> bs ! j)" using h(4) k by blast
    ultimately show ?thesis using h(1) k by (simp add: stream_bytes_def st get_bit_last bit_ucast_iff)
  qed
qed

lemma length_stream_bytes:
  assumes "stream_holds st bs"
  shows "length (stream_bytes st) = validity_size (length bs)"
proof -
  obtain acc n out where st: "st = (acc, n, out)" by (cases st) auto
  have h: "n < 8" "length bs = 8 * length out + n" using assms by (simp_all add: stream_holds_def st)
  have "(8 * length out + n + 7) div 8 = length out + (n + 7) div 8"
    using div_mult_self1[of 8 "n + 7" "length out"] by (simp only: mult.commute add.assoc add.commute)
  moreover have "(n + 7) div 8 = (if 0 < n then 1 else 0)" using h(1) by (auto simp: div_nat_eqI)
  ultimately have "(8 * length out + n + 7) div 8 = length out + (if 0 < n then 1 else 0)" by simp
  then show ?thesis using h by (simp add: stream_bytes_def st validity_size_def)
qed

lemma stitch_bit_holds:
  assumes "stream_holds st bs" and b: "case bits of None \<Rightarrow> v | Some p \<Rightarrow> i div 8 < length p \<and> get_bit p i = v"
  shows "\<exists>st'. stitch_bit bits st i = Ok st' \<and> stream_holds st' (bs @ [v])"
proof -
  obtain acc n out where st: "st = (acc, n, out)" by (cases st) auto
  have h: "n < 8" "length bs = 8 * length out + n" "\<forall>j. j < 8 * length out \<longrightarrow> get_bit out j = bs ! j"
    "\<forall>j. bit acc j = (j < n \<and> bs ! (8 * length out + j))" using assms(1) by (simp_all add: stream_holds_def st)
  obtain x :: u8 where x: "(case bits of Some b \<Rightarrow> rbind (nth_r b (i div 8)) (\<lambda>x. Ok (drop_bit (i mod 8) x AND 1))
      | None \<Rightarrow> Ok 1) = (Ok x :: (core_error, _) res)" "\<And>j. bit x j = (j = 0 \<and> v)"
  proof (cases bits)
    case None
    then show ?thesis using b by (intro that[of 1]) (auto simp: bit_1_iff)
  next
    case (Some p)
    then have "bit (drop_bit (i mod 8) (p ! (i div 8)) AND 1) j = (j = 0 \<and> v)" for j
      using b by (auto simp: bit_and_iff bit_1_iff bit_drop_bit_eq get_bit_def)
    then show ?thesis using Some b by (intro that[of "drop_bit (i mod 8) (p ! (i div 8)) AND 1"]) (auto simp: nth_r_def)
  qed
  define acc' where "acc' = acc OR push_bit n (ucast x)"
  have a: "bit acc' j = (j < n + 1 \<and> (bs @ [v]) ! (8 * length out + j))" for j
  proof -
    have "bit (push_bit n (ucast x :: u64)) j = (j = n \<and> v)"
    proof (cases "j = n")
      case False
      then have "\<not> (n \<le> j \<and> bit x (j - n))" by (simp add: x(2))
      then show ?thesis using False by (simp add: bit_push_bit_iff bit_ucast_iff)
    qed (use h(1) x(2)[of 0] in \<open>simp add: bit_push_bit_iff bit_ucast_iff\<close>)
    moreover have "(bs @ [v]) ! (8 * length out + j) = (if j < n then bs ! (8 * length out + j) else v)" if "j < n + 1"
      using that h(2) by (auto simp: nth_append)
    moreover have "bit acc j = (j < n \<and> bs ! (8 * length out + j))" using h(4) by blast
    ultimately show ?thesis
      by (cases "j < n"; cases "j = n") (simp_all add: acc'_def bit_or_iff)
  qed
  show ?thesis
  proof (cases "n + 1 = 8")
    case True
    have g: "get_bit (out @ [ucast acc']) j = (bs @ [v]) ! j" if j: "j < 8 * length (out @ [ucast acc' :: u8])" for j
    proof (cases "j < 8 * length out")
      case True
      then show ?thesis using h(2,3) by (simp add: nth_append get_bit_front)
    next
      case False
      then obtain k where k: "j = 8 * length out + k" using less_imp_add_positive[of "8 * length out" j] by (cases "j = 8 * length out") auto
      then have "k < 8" using j by simp
      then show ?thesis using a[of k] k True by (simp add: get_bit_last bit_ucast_iff)
    qed
    have "stitch_bit bits st i = Ok (0, 0, out @ [ucast acc'])"
      using x(1) True by (simp add: stitch_bit_def st acc'_def Let_def)
    moreover have "stream_holds (0, 0, out @ [ucast acc']) (bs @ [v])"
      using g h(2) True by (simp add: stream_holds_def)
    ultimately show ?thesis by blast
  next
    case False
    have "stitch_bit bits st i = Ok (acc', n + 1, out)"
      using x(1) False by (simp add: stitch_bit_def st acc'_def Let_def)
    moreover have "stream_holds (acc', n + 1, out) (bs @ [v])"
      using h a False by (simp add: stream_holds_def nth_append)
    ultimately show ?thesis by blast
  qed
qed

definition chunk_flags :: "bytes option \<Rightarrow> nat \<Rightarrow> bool list" where
  "chunk_flags val n = map (\<lambda>i. case val of None \<Rightarrow> True | Some p \<Rightarrow> get_bit p i) [0..<n]"

lemma length_chunk_flags [simp]: "length (chunk_flags val n) = n"
  by (simp add: chunk_flags_def)

lemma stitch_chunk_bits_holds:
  assumes "stream_holds st bs" "case val of None \<Rightarrow> True | Some p \<Rightarrow> n \<le> 8 * length p"
  shows "\<exists>st'. stitch_chunk_bits val n st = Ok st' \<and> stream_holds st' (bs @ chunk_flags val n)"
proof -
  have "\<exists>st'. foldM (stitch_bit val) st [0..<k] = Ok st' \<and> stream_holds st' (bs @ chunk_flags val k)" if "k \<le> n" for k
    using that
  proof (induction k)
    case (Suc k)
    then obtain st1 where st1: "foldM (stitch_bit val) st [0..<k] = Ok st1" "stream_holds st1 (bs @ chunk_flags val k)" by auto
    have "case val of None \<Rightarrow> (case val of None \<Rightarrow> True | Some p \<Rightarrow> get_bit p k)
        | Some p \<Rightarrow> k div 8 < length p \<and> get_bit p k = (case val of None \<Rightarrow> True | Some p \<Rightarrow> get_bit p k)"
      using assms(2) Suc.prems by (auto split: option.splits)
    from stitch_bit_holds[OF st1(2) this] show ?case
      using st1(1) by (auto simp: foldM_append chunk_flags_def)
  qed (simp add: assms(1) chunk_flags_def)
  then show ?thesis by (simp add: stitch_chunk_bits_def)
qed

text \<open>What is pending does not depend on what was already emitted.\<close>

lemma stitch_bit_prefix:
  "stitch_bit bits (acc, n, pre @ out) i =
     (case stitch_bit bits (acc, n, out) i of Ok (a, k, out') \<Rightarrow> Ok (a, k, pre @ out') | Err e \<Rightarrow> Err e | Panic \<Rightarrow> Panic)"
  by (cases bits) (auto simp: stitch_bit_def Let_def nth_r_def)

lemma stitch_chunk_bits_prefix:
  "stitch_chunk_bits bits rows (acc, n, pre @ out) =
     (case stitch_chunk_bits bits rows (acc, n, out) of Ok (a, k, out') \<Rightarrow> Ok (a, k, pre @ out') | Err e \<Rightarrow> Err e | Panic \<Rightarrow> Panic)"
proof -
  have "foldM (stitch_bit bits) (acc, n, pre @ out) is =
     (case foldM (stitch_bit bits) (acc, n, out) is of Ok (a, k, out') \<Rightarrow> Ok (a, k, pre @ out') | Err e \<Rightarrow> Err e | Panic \<Rightarrow> Panic)" for "is"
  proof (induction "is" arbitrary: acc n out)
    case (Cons i "is")
    show ?case
    proof (cases "stitch_bit bits (acc, n, out) i")
      case (Ok st1)
      obtain a k o1 where "st1 = (a, k, o1)" by (cases st1) auto
      then show ?thesis using Cons.IH Ok by (simp add: stitch_bit_prefix[of bits acc n pre out i])
    qed (simp_all add: stitch_bit_prefix[of bits acc n pre out i])
  qed simp
  then show ?thesis by (simp add: stitch_chunk_bits_def)
qed


subsection \<open>The chunks of a file\<close>

text \<open>The bytes are a sequence of chunks that decode to the given values, validity and rows.\<close>

fun decodes ::
  "codec_backend \<Rightarrow> encoding \<Rightarrow> compression \<Rightarrow> data_type \<Rightarrow> bytes \<Rightarrow> (bytes \<times> bytes option \<times> nat) list \<Rightarrow> bool" where
  "decodes B e c dt rest [] \<longleftrightarrow> rest = []"
| "decodes B e c dt rest ((vs, val, rows) # ds) \<longleftrightarrow> rest \<noteq> [] \<and>
     (\<exists>hdr. chunk_header_from_bytes rest = Ok hdr \<and> CHUNK_HEADER_SIZE + unat (ch_payload_len hdr) \<le> length rest \<and>
        rows = unat (ch_rows hdr) \<and>
        decode_chunk B e c dt (take (CHUNK_HEADER_SIZE + unat (ch_payload_len hdr)) rest) = Ok (vs, val, rows) \<and>
        decodes B e c dt (drop (CHUNK_HEADER_SIZE + unat (ch_payload_len hdr)) rest) ds)"

definition all_values :: "(bytes \<times> bytes option \<times> nat) list \<Rightarrow> bytes" where
  "all_values ds = concat (map fst ds)"

definition all_flags :: "(bytes \<times> bytes option \<times> nat) list \<Rightarrow> bool list" where
  "all_flags ds = concat (map (\<lambda>(vs, val, rows). chunk_flags val rows) ds)"

lemma all_simps [simp]:
  "all_values [] = []" "all_flags [] = []"
  "all_values (d # ds) = fst d @ all_values ds"
  "all_flags ((vs, val, rows) # ds) = chunk_flags val rows @ all_flags ds"
  by (simp_all add: all_values_def all_flags_def)

lemma chunk_header_take:
  assumes "chunk_header_from_bytes rest = Ok hdr" "CHUNK_HEADER_SIZE \<le> k"
  shows "chunk_header_from_bytes (take k rest) = Ok hdr"
  using assms by (auto simp: chunk_header_from_bytes_def slice_def drop_take min_def CHUNK_HEADER_SIZE_def split: if_splits)

lemma decode_chunk_rows:
  assumes "decode_chunk B e c dt ch = Ok (vs, val, rows)" "chunk_header_from_bytes ch = Ok hdr"
  shows "rows = unat (ch_rows hdr)"
  using assms by (auto simp: decode_chunk_def res_simps Let_def split: if_splits)

lemma decodes_lengths:
  assumes "decodes B e c dt rest ds"
  shows "length (all_values ds) = length (all_flags ds) * size_of dt"
  using assms
proof (induction ds arbitrary: rest)
  case (Cons d ds)
  obtain vs val rows where d: "d = (vs, val, rows)" by (cases d) auto
  then show ?case using Cons by (auto simp: decode_chunk_ok(1) add_mult_distrib)
qed simp

lemma merge_chunk_bits_Ok:
  assumes "merge_chunk_bits (Some b) val a rows = Ok b'" "bitmap_ok b" "bm_bit_offset b = 0" "a + rows \<le> bm_len b"
    "case val of None \<Rightarrow> True | Some p \<Rightarrow> length p = validity_size rows"
  shows "\<exists>m. b' = Some m \<and> bitmap_ok m \<and> bm_bit_offset m = 0 \<and> bm_len m = bm_len b \<and>
    (\<forall>j. bm_bit m j = (if a \<le> j \<and> j < a + rows then chunk_flags val rows ! (j - a) else bm_bit b j))"
proof -
  define valid where "valid = (\<lambda>j. chunk_flags val rows ! (j - a))"
  have "bits_code val valid a rows"
    by (auto simp: bits_code_def valid_def chunk_flags_def split: option.splits)
  from merge_chunk_bits_eq[OF assms(2,3) refl assms(4) this assms(5)] assms(1) show ?thesis
    by (auto simp: valid_def)
qed

lemma decode_loop_decodes:
  assumes "decode_loop B e c dt rest cur bits a = Ok (vals, bits', n)" "dt \<noteq> Utf8"
    and "length cur = N * size_of dt" "a \<le> N" "bits = Some b" "bitmap_ok b" "bm_bit_offset b = 0" "bm_len b = N"
  shows "\<exists>ds b'. decodes B e c dt rest ds \<and> n = a + length (all_flags ds) \<and> n \<le> N \<and>
    vals = take (a * size_of dt) cur @ all_values ds @ drop (n * size_of dt) cur \<and> bits' = Some b' \<and>
    bitmap_ok b' \<and> bm_bit_offset b' = 0 \<and> bm_len b' = N \<and>
    (\<forall>j. bm_bit b' j = (if a \<le> j \<and> j < n then all_flags ds ! (j - a) else bm_bit b j))"
  using assms(1,3-)
proof (induction "length rest" arbitrary: rest cur bits a b rule: less_induct)
  case less
  let ?s = "size_of dt"
  have s: "0 < ?s" using assms(2) by (simp flip: size_of_pos)
  show ?case
  proof (cases "rest = []")
    case True
    then have "vals = cur" "bits' = Some b" "n = a"
      using less.prems(1,4) by (auto simp: decode_loop.simps[of B e c dt "[]"])
    then show ?thesis using True less.prems by (intro exI[of _ "[]"] exI[of _ b]) auto
  next
    case False
    from less.prems(1)[unfolded decode_loop.simps[of B e c dt rest cur bits a]] False obtain hdr vs val rows cur' bits1 where
      hdr: "chunk_header_from_bytes rest = Ok hdr" and
      k: "CHUNK_HEADER_SIZE + unat (ch_payload_len hdr) \<le> length rest" and
      dec: "decode_chunk B e c dt (slice 0 (CHUNK_HEADER_SIZE + unat (ch_payload_len hdr)) rest) = Ok (vs, val, rows)" and
      cp: "copy_into (a * ?s) ((a + rows) * ?s) vs cur = (Ok cur' :: (core_error, _) res)" and
      mg: "merge_chunk_bits bits val a rows = Ok bits1" and
      nx: "decode_loop B e c dt (drop (CHUNK_HEADER_SIZE + unat (ch_payload_len hdr)) rest) cur' bits1 (a + rows) = Ok (vals, bits', n)"
      by (auto simp: res_simps Let_def slice_ok_def split: res.splits)
    let ?k = "CHUNK_HEADER_SIZE + unat (ch_payload_len hdr)"
    have tk: "slice 0 ?k rest = take ?k rest" by (simp add: slice_def)
    have vl: "length vs = rows * ?s" "case val of None \<Rightarrow> True | Some p \<Rightarrow> length p = validity_size rows"
      using decode_chunk_ok[OF dec] by auto
    have cu: "cur' = splice (a * ?s) vs cur" "(a + rows) * ?s \<le> length cur"
      using cp by (auto simp: copy_into_def res_simps slice_ok_def)
    then have le: "a + rows \<le> N" using less.prems(2) s by simp
    obtain b1 where b1: "bits1 = Some b1" "bitmap_ok b1" "bm_bit_offset b1 = 0" "bm_len b1 = N"
      "\<forall>j. bm_bit b1 j = (if a \<le> j \<and> j < a + rows then chunk_flags val rows ! (j - a) else bm_bit b j)"
      using merge_chunk_bits_Ok[of b val a rows bits1] mg less.prems(4-) le vl(2) by auto
    have le2: "a * ?s + length vs \<le> length cur" using cu(2) vl(1) by (simp add: add_mult_distrib)
    have lc: "length cur' = N * ?s" using cu(1) le2 less.prems(2) by simp
    have lt: "length (drop ?k rest) < length rest" using False by (simp add: CHUNK_HEADER_SIZE_def)
    obtain ds b' where ds: "decodes B e c dt (drop ?k rest) ds" "n = a + rows + length (all_flags ds)" "n \<le> N"
      "vals = take ((a + rows) * ?s) cur' @ all_values ds @ drop (n * ?s) cur'" "bits' = Some b'"
      "bitmap_ok b'" "bm_bit_offset b' = 0" "bm_len b' = N"
      "\<forall>j. bm_bit b' j = (if a + rows \<le> j \<and> j < n then all_flags ds ! (j - (a + rows)) else bm_bit b1 j)"
      using less.hyps[OF lt nx lc le b1(1-4)] by blast
    have sp: "(a + rows) * ?s = a * ?s + length vs" using vl(1) by (simp add: add_mult_distrib)
    have t: "take ((a + rows) * ?s) cur' = take (a * ?s) cur @ vs"
      using le2 unfolding sp cu(1) splice_def by simp
    have "a * ?s + length vs \<le> n * ?s" using ds(2) sp by (metis le_add1 mult_le_mono1)
    then have d: "drop (n * ?s) cur' = drop (n * ?s) cur"
      using le2 ds(2) unfolding cu(1) splice_def by simp
    have rows: "rows = unat (ch_rows hdr)"
      using decode_chunk_rows[OF dec] chunk_header_take[OF hdr, of ?k] tk by simp
    have "decodes B e c dt rest ((vs, val, rows) # ds)"
      using False hdr k rows dec ds(1) tk by simp
    moreover have "bm_bit b' j = (if a \<le> j \<and> j < n then (chunk_flags val rows @ all_flags ds) ! (j - a) else bm_bit b j)" for j
      using ds(2,9) b1(5) by (auto simp: nth_append)
    moreover have "vals = take (a * ?s) cur @ all_values ((vs, val, rows) # ds) @ drop (n * ?s) cur"
      using ds(4) t d by simp
    ultimately show ?thesis using ds(2,3,5-8)
      by (intro exI[of _ "(vs, val, rows) # ds"] exI[of _ b']) simp
  qed
qed

lemma chunk_spans_decodes:
  assumes "decodes B e c dt (drop p bs) ds" "p \<le> length bs"
  shows "\<exists>cs. chunk_spans bs p = Ok (cs, length bs) \<and>
    list_all2 (\<lambda>(q, len, rows) d. q + len \<le> length bs \<and> rows = snd (snd d) \<and>
      decode_chunk B e c dt (slice q (q + len) bs) = Ok d) cs ds"
  using assms
proof (induction ds arbitrary: p)
  case Nil
  then show ?case by (simp add: chunk_spans.simps)
next
  case (Cons d ds)
  obtain vs val rows where d: "d = (vs, val, rows)" by (cases d) auto
  from Cons.prems(1) obtain hdr where
    ne: "drop p bs \<noteq> []" and hdr: "chunk_header_from_bytes (drop p bs) = Ok hdr" and
    k: "CHUNK_HEADER_SIZE + unat (ch_payload_len hdr) \<le> length (drop p bs)" and rows: "rows = unat (ch_rows hdr)" and
    dec: "decode_chunk B e c dt (take (CHUNK_HEADER_SIZE + unat (ch_payload_len hdr)) (drop p bs)) = Ok (vs, val, rows)" and
    nx: "decodes B e c dt (drop (CHUNK_HEADER_SIZE + unat (ch_payload_len hdr)) (drop p bs)) ds"
    unfolding d by auto
  let ?k = "CHUNK_HEADER_SIZE + unat (ch_payload_len hdr)"
  have "p + ?k \<le> length bs" using k Cons.prems(2) by simp
  moreover from this obtain cs where "chunk_spans bs (p + ?k) = Ok (cs, length bs)"
    "list_all2 (\<lambda>(q, len, rows) d. q + len \<le> length bs \<and> rows = snd (snd d) \<and>
      decode_chunk B e c dt (slice q (q + len) bs) = Ok d) cs ds"
    using Cons.IH[of "p + ?k"] nx by (auto simp: add.commute)
  ultimately show ?case
    using ne hdr rows dec d by (subst chunk_spans.simps) (auto simp: Let_def slice_def)
qed


subsection \<open>Decompression writes the decoded chunks\<close>

lemma overwrite_zeros:
  assumes "length x \<le> m"
  shows "overwrite (length a) x (a @ replicate m 0 @ c) = a @ x @ replicate (m - length x) 0 @ c"
  using assms by (simp add: overwrite_def)

text \<open>The temporary file while it is filled: a header of zeros, the DATA and VALIDITY written so far.\<close>

definition partial_file :: "nat \<Rightarrow> nat \<Rightarrow> bytes \<Rightarrow> bytes \<Rightarrow> bytes" where
  "partial_file D V vs out = replicate HEADER_SIZE 0 @ vs @ replicate (D - length vs) 0 @ out @ replicate (V - length out) 0"

lemma partial_file_values:
  assumes "length vs + length x \<le> D"
  shows "overwrite (HEADER_SIZE + length vs) x (partial_file D V vs out) = partial_file D V (vs @ x) out"
  using overwrite_zeros[of x "D - length vs" "replicate HEADER_SIZE 0 @ vs" "out @ replicate (V - length out) 0"] assms
  by (simp add: partial_file_def)

lemma partial_file_validity:
  assumes "length vs \<le> D" "length out + length x \<le> V"
  shows "overwrite (HEADER_SIZE + D + length out) x (partial_file D V vs out) = partial_file D V vs (out @ x)"
  using overwrite_zeros[of x "V - length out" "replicate HEADER_SIZE 0 @ vs @ replicate (D - length vs) 0 @ out" "[]"] assms
  by (simp add: partial_file_def add.assoc)

definition step_state :: "nat \<Rightarrow> bytes \<Rightarrow> bit_stream \<Rightarrow> bool \<Rightarrow> decompress_state" where
  "step_state D vs st saw = (case st of (acc, n, out) \<Rightarrow>
     \<lparr>ds_data_pos = HEADER_SIZE + length vs, ds_validity_pos = HEADER_SIZE + D + length out, ds_acc = (acc, n),
      ds_saw_validity = saw, ds_data_written = length vs\<rparr>)"

lemma stream_emitted_le:
  assumes "stream_holds (acc, n, out) bs" "length bs \<le> N"
  shows "length out \<le> validity_size N"
  using assms validity_size_bound(1)[of N] by (simp add: stream_holds_def)

lemma decompress_step_eq:
  assumes dec: "decode_chunk B e c dt (slice q (q + len) m) = Ok (v, val, rows)" "q + len \<le> length m"
    and st: "stream_holds (acc, n, out) bs" and D: "length vs + length v \<le> D" and N: "length bs + rows \<le> N"
    and fs: "fs tmp = Some (partial_file D (validity_size N) vs out)"
  shows "\<exists>acc' n' out'. decompress_step B e c dt m tmp (step_state D vs (acc, n, out) saw) (q, len, rows) fs =
      (Ok (step_state D (vs @ v) (acc', n', out') (saw \<or> val \<noteq> None)),
       fs(tmp \<mapsto> partial_file D (validity_size N) (vs @ v) out')) \<and>
    stream_holds (acc', n', out') (bs @ chunk_flags val rows)"
proof -
  have vl: "case val of None \<Rightarrow> True | Some p \<Rightarrow> rows \<le> 8 * length p"
    using decode_chunk_ok(2)[OF dec(1)] validity_size_bound(1)[of rows] by (auto split: option.splits)
  obtain acc' n' out' where s1: "stitch_chunk_bits val rows (acc, n, out) = Ok (acc', n', out')"
    "stream_holds (acc', n', out') (bs @ chunk_flags val rows)"
    using stitch_chunk_bits_holds[OF st vl] by (metis prod_cases3)
  obtain em where em: "stitch_chunk_bits val rows (acc, n, []) = Ok (acc', n', em)" "out' = out @ em"
    using s1(1) stitch_chunk_bits_prefix[of val rows acc n out "[]"]
    by (auto split: res.splits)
  have l: "length out' \<le> validity_size N"
    using stream_emitted_le[OF s1(2)] N by simp
  let ?fs1 = "fs(tmp \<mapsto> partial_file D (validity_size N) (vs @ v) out)"
  have w1: "io_pwrite tmp (HEADER_SIZE + length vs) v fs = (Ok (), ?fs1)"
    using partial_file_values[OF D] by (simp add: io_pwrite_app[of fs, OF fs])
  have w2: "overwrite (HEADER_SIZE + D + length out) em (partial_file D (validity_size N) (vs @ v) out) =
      partial_file D (validity_size N) (vs @ v) out'"
    unfolding em(2) by (rule partial_file_validity) (use D l em(2) in simp_all)
  have "decompress_step B e c dt m tmp (step_state D vs (acc, n, out) saw) (q, len, rows) fs =
      (Ok (step_state D (vs @ v) (acc', n', out') (saw \<or> val \<noteq> None)),
       fs(tmp \<mapsto> partial_file D (validity_size N) (vs @ v) out'))"
    using dec w1 w2 em(1)
    by (simp add: decompress_step_def step_state_def io_simps em(2))
  then show ?thesis using s1(2) by blast
qed

lemma decompress_loop_eq:
  assumes "list_all2 (\<lambda>(q, len, rows) d. q + len \<le> length m \<and> rows = snd (snd d) \<and>
      decode_chunk B e c dt (slice q (q + len) m) = Ok d) cs ds"
    and "stream_holds (acc, n, out) bs" "length vs + length (all_values ds) \<le> D" "length bs + length (all_flags ds) \<le> N"
    and "fs tmp = Some (partial_file D (validity_size N) vs out)"
  shows "\<exists>acc' n' out'. io_fold (decompress_step B e c dt m tmp) (step_state D vs (acc, n, out) saw) cs fs =
      (Ok (step_state D (vs @ all_values ds) (acc', n', out') (saw \<or> (\<exists>d \<in> set ds. fst (snd d) \<noteq> None))),
       fs(tmp \<mapsto> partial_file D (validity_size N) (vs @ all_values ds) out')) \<and>
    stream_holds (acc', n', out') (bs @ all_flags ds)"
  using assms
proof (induction arbitrary: acc n out bs vs saw fs rule: list_all2_induct)
  case Nil
  have "fs(tmp \<mapsto> partial_file D (validity_size N) vs out) = fs" using Nil by (intro fun_upd_idem)
  then show ?case using Nil
    by (intro exI[of _ acc] exI[of _ n] exI[of _ out]) (simp add: io_ret_def del: fun_upd_apply)
next
  case (Cons sp cs' d ds)
  obtain v val rows where d: "d = (v, val, rows)" by (cases d) auto
  from Cons.hyps(1) d obtain q len where cs: "sp = (q, len, rows)" "q + len \<le> length m"
    "decode_chunk B e c dt (slice q (q + len) m) = Ok (v, val, rows)" by (cases sp) auto
  have D: "length vs + length v \<le> D" and N: "length bs + rows \<le> N" using Cons.prems(2,3) d by simp_all
  obtain acc1 n1 out1 where s1: "decompress_step B e c dt m tmp (step_state D vs (acc, n, out) saw) (q, len, rows) fs =
      (Ok (step_state D (vs @ v) (acc1, n1, out1) (saw \<or> val \<noteq> None)),
       fs(tmp \<mapsto> partial_file D (validity_size N) (vs @ v) out1))"
    "stream_holds (acc1, n1, out1) (bs @ chunk_flags val rows)"
    using decompress_step_eq[where fs = fs and tmp = tmp, OF cs(3,2) Cons.prems(1) D N Cons.prems(4)] by blast
  have p: "length (vs @ v) + length (all_values ds) \<le> D" "length (bs @ chunk_flags val rows) + length (all_flags ds) \<le> N"
    using Cons.prems(2,3) d by simp_all
  have f: "(fs(tmp \<mapsto> partial_file D (validity_size N) (vs @ v) out1)) tmp = Some (partial_file D (validity_size N) (vs @ v) out1)"
    by simp
  show ?case
    using Cons.IH[where fs = "fs(tmp \<mapsto> partial_file D (validity_size N) (vs @ v) out1)", OF s1(2) p f, of "saw \<or> val \<noteq> None"]
    by (simp add: cs(1) d io_bind_Ok[of "decompress_step B e c dt m tmp (step_state D vs (acc, n, out) saw) (q, len, rows)", OF s1(1)] del: fun_upd_apply)
qed


subsection \<open>Decompression\<close>

text \<open>What the outcome of an open says about the file.\<close>

lemma open_Ok:
  assumes "open_field_file B p md fs = (Ok h, fs')"
  shows "fs' = fs \<and> fd_path h = p \<and> fd_mode h = md \<and> (\<exists>bs header rs work. fs p = Some bs \<and> HEADER_SIZE \<le> length bs \<and>
    field_header_from_bytes (take HEADER_SIZE bs) = Ok header \<and> open_parts B bs header = Ok (rs, work) \<and>
    (\<exists>k. fd_header h = header\<lparr>fh_null_count := k\<rparr>) \<and> fd_working h = work)"
proof -
  obtain bs where bs: "fs p = Some bs" "HEADER_SIZE \<le> length bs"
    using assms
    by (auto simp: open_field_file_def io_read_exact_def io_bind_def io_lift_def io_read_def file_open_def not_less
        split: option.splits if_splits)
  then have rd: "io_read_exact p HEADER_SIZE fs = (Ok (take HEADER_SIZE bs), fs)" "io_read p fs = (Ok bs, fs)"
    by (simp_all add: io_read_exact_def io_bind_def io_lift_def io_read_def file_open_def)
  obtain header where header: "field_header_from_bytes (take HEADER_SIZE bs) = Ok header"
    using assms by (auto simp: open_field_file_def io_simps rd io_lift_bind res_simps split: res.splits)
  obtain rs work where parts: "open_parts B bs header = Ok (rs, work)"
    using assms by (auto simp: open_field_file_def io_simps rd io_lift_bind header split: res.splits)
  have same: "\<exists>k. hd0 = hd0\<lparr>fh_null_count := k\<rparr>" for hd0 :: field_header
    by (rule exI[of _ "fh_null_count hd0"]) simp
  have "fs' = fs \<and> fd_path h = p \<and> fd_mode h = md \<and> (\<exists>k. fd_header h = header\<lparr>fh_null_count := k\<rparr>) \<and> fd_working h = work"
    using assms same[of header]
    by (cases work)
       (auto simp: open_field_file_def io_simps rd io_lift_bind header parts io_bind_def io_ret_def io_lift_def
         split: res.splits option.splits if_splits)
  then show ?thesis using bs header parts by blast
qed

text \<open>What a chunked file with rows consists of, when it opens.\<close>

lemma open_chunked:
  assumes op: "open_field_file B p md fs = (Ok h, fs')" and ch: "fd_is_chunked h" and ok: "fd_ok h src" "src_type src \<noteq> Utf8"
    and bs: "fs p = Some bs" "length bs \<noteq> HEADER_SIZE" and pos: "0 < fd_row_count h"
  shows "\<exists>header e c ds. field_header_from_bytes (take HEADER_SIZE bs) = Ok header \<and>
    HEADER_SIZE < length bs \<and> is_chunked header \<and> field_data_type header = Ok (src_type src) \<and>
    field_encoding header = Ok e \<and> field_compression header = Ok c \<and>
    decodes B e c (src_type src) (drop HEADER_SIZE bs) ds \<and> length (all_flags ds) = fd_row_count h \<and>
    fd_row_count h = unat (fh_row_count header) \<and> src_values src = all_values ds \<and>
    (\<forall>i < fd_row_count h. src_valid src i = all_flags ds ! i)"
proof -
  obtain header rs work k where
    fs: "HEADER_SIZE \<le> length bs" and hd: "field_header_from_bytes (take HEADER_SIZE bs) = Ok header" and
    parts: "open_parts B bs header = Ok (rs, work)" and h: "fd_header h = header\<lparr>fh_null_count := k\<rparr>" "fd_working h = work"
    using open_Ok[OF op] bs(1) by auto
  have chd: "is_chunked header" using ch h(1) by (simp add: fd_is_chunked_def is_chunked_def)
  obtain w where w: "decode_working B bs header = Ok w" "work = Some w"
    using parts bs(2) chd by (auto simp: open_parts_def Let_def res_simps split: if_splits)
  let ?N = "unat (fh_row_count header)"
  obtain dt e c bits where d: "field_data_type header = Ok dt" "field_encoding header = Ok e" "field_compression header = Ok c"
    and lp: "decode_loop B e c dt (drop HEADER_SIZE bs) (replicate (?N * size_of dt) 0)
                 (if 0 < validity_size ?N then Some (bitmap_zeros ?N) else None) 0 = Ok (wk_values w, bits, ?N)"
    and wv: "wk_validity w = bits"
    using w(1) by (auto simp: decode_working_def res_simps Let_def split: if_splits)
  have "fd_data_type h = (Ok (src_type src) :: (core_error, _) res)" using fd_ok_type[OF ok(1)] .
  then have ty: "src_type src = dt"
    using d(1) h(1) by (simp add: fd_data_type_def field_data_type_def)
  obtain wk where wk: "fd_working h = Some wk" "src_values src = wk_values wk" "bits_ok (wk_validity wk) (fd_row_count h)"
    "\<And>i. bits_valid (wk_validity wk) i = src_valid src i"
    using fd_ok_chunked[OF ok(1) ch] by blast
  have wkw: "wk = w" using wk(1) h(2) w(2) by simp
  have rc: "fd_row_count h = ?N" using h(1) by (simp add: fd_row_count_def)
  then have v: "(if 0 < validity_size ?N then Some (bitmap_zeros ?N) else None) = Some (bitmap_zeros ?N)"
    using pos by (simp add: word_greater_zero_iff)
  have z: "bitmap_ok (bitmap_zeros ?N)" "bm_bit_offset (bitmap_zeros ?N) = 0" "bm_len (bitmap_zeros ?N) = ?N"
    using bitmap_zeros_ok by (simp_all add: bitmap_zeros_def)
  have dt: "dt \<noteq> Utf8" and l: "length (replicate (?N * size_of dt) (0 :: u8)) = ?N * size_of dt" and le: "0 \<le> ?N"
    using ok(2) ty by simp_all
  obtain ds b' where ds: "decodes B e c dt (drop HEADER_SIZE bs) ds" "?N = 0 + length (all_flags ds)"
    "wk_values w = take (0 * size_of dt) (replicate (?N * size_of dt) 0) @ all_values ds @
       drop (?N * size_of dt) (replicate (?N * size_of dt) 0)" "bits = Some b'"
    "\<forall>j. bm_bit b' j = (if 0 \<le> j \<and> j < ?N then all_flags ds ! (j - 0) else bm_bit (bitmap_zeros ?N) j)"
    using decode_loop_decodes[OF lp dt l le v z] by blast
  then have "\<forall>i < ?N. bits_valid bits i = all_flags ds ! i" by (simp add: bits_valid_def)
  then show ?thesis
    using fs hd bs chd d ty rc wk(2,4) wkw wv ds by auto
qed


lemma no_validity_flags:
  assumes "\<forall>d \<in> set ds. fst (snd d) = None" "i < length (all_flags ds)"
  shows "all_flags ds ! i"
proof -
  have "x" if "x \<in> set (all_flags ds)" for x
    using assms(1) that by (fastforce simp: all_flags_def chunk_flags_def)
  then show ?thesis using assms(2) nth_mem by blast
qed

lemma decompress_body_eq:
  assumes dec: "decodes B e c dt (drop HEADER_SIZE m) ds" "chunk_spans m HEADER_SIZE = Ok (cs, length m)"
    and sp: "list_all2 (\<lambda>(q, len, rows) d. q + len \<le> length m \<and> rows = snd (snd d) \<and>
      decode_chunk B e c dt (slice q (q + len) m) = Ok d) cs ds"
    and n: "length (all_flags ds) = unat (fh_row_count header)"
    and fs: "fs tmp = Some (partial_file (unat (fh_row_count header) * size_of dt) (validity_size (unat (fh_row_count header))) [] [])"
  shows "\<exists>vb. decompress_body B header e c dt m tmp cs fs = (Ok (), fs(tmp \<mapsto>
      field_header_to_bytes (field_header_new_uncompressed dt (fh_generation header) (fh_row_count header)
        (fh_null_count header) (\<exists>d \<in> set ds. fst (snd d) \<noteq> None)) @ all_values ds @ vb)) \<and>
    length vb = (if \<exists>d \<in> set ds. fst (snd d) \<noteq> None then validity_size (unat (fh_row_count header)) else 0) \<and>
    ((\<exists>d \<in> set ds. fst (snd d) \<noteq> None) \<longrightarrow> (\<forall>i < length (all_flags ds). get_bit vb i = all_flags ds ! i))"
proof -
  let ?N = "unat (fh_row_count header)" and ?saw = "\<exists>d \<in> set ds. fst (snd d) \<noteq> None"
  let ?D = "?N * size_of dt" and ?V = "validity_size ?N"
  have l: "length (all_values ds) = ?D" using decodes_lengths[OF dec(1)] n by simp
  have p: "stream_holds (0, 0, []) []" "length ([] :: bytes) + length (all_values ds) \<le> ?D"
    "length ([] :: bool list) + length (all_flags ds) \<le> ?N" using l n by (simp_all add: stream_holds_def)
  obtain acc k out where lp: "io_fold (decompress_step B e c dt m tmp) (step_state ?D [] (0, 0, []) False) cs fs =
      (Ok (step_state ?D (all_values ds) (acc, k, out) ?saw), fs(tmp \<mapsto> partial_file ?D ?V (all_values ds) out))"
    and st: "stream_holds (acc, k, out) (all_flags ds)"
    using decompress_loop_eq[where fs = fs and tmp = tmp, OF sp p fs, of False] by auto
  have lpb: "io_bind (io_fold (decompress_step B e c dt m tmp) (step_state ?D [] (0, 0, []) False) cs) f fs =
      f (step_state ?D (all_values ds) (acc, k, out) ?saw) (fs(tmp \<mapsto> partial_file ?D ?V (all_values ds) out))" for f :: "_ \<Rightarrow> unit io"
    using lp by (rule io_bind_Ok)
  have ini: "\<lparr>ds_data_pos = HEADER_SIZE, ds_validity_pos = HEADER_SIZE + ?D, ds_acc = (0, 0), ds_saw_validity = False,
      ds_data_written = 0\<rparr> = step_state ?D [] (0, 0, []) False" by (simp add: step_state_def)
  let ?hd = "field_header_to_bytes (field_header_new_uncompressed dt (fh_generation header) (fh_row_count header)
        (fh_null_count header) ?saw)"
  have sb: "length (stream_bytes (acc, k, out)) = ?V" "\<forall>i < length (all_flags ds). get_bit (stream_bytes (acc, k, out)) i = all_flags ds ! i"
    using length_stream_bytes[OF st] stream_bytes_get[OF st] n by simp_all
  show ?thesis
  proof (cases ?saw)
    case True
    have tail: "(if 0 < k then overwrite (HEADER_SIZE + ?D + length out) [ucast acc] (partial_file ?D ?V (all_values ds) out)
        else partial_file ?D ?V (all_values ds) out) = replicate HEADER_SIZE 0 @ all_values ds @ stream_bytes (acc, k, out)"
      using partial_file_validity[of "all_values ds" ?D out "[ucast acc]" ?V] l sb(1)
      by (auto simp: stream_bytes_def partial_file_def)
    have "decompress_body B header e c dt m tmp cs fs = (Ok (), fs(tmp \<mapsto> ?hd @ all_values ds @ stream_bytes (acc, k, out)))"
      unfolding decompress_body_def Let_def ini lpb
      using True tail l
      by (cases "0 < k") (simp_all add: step_state_def io_simps write_header_app fun_upd_same del: fun_upd_apply)
    then show ?thesis using True sb by (intro exI[of _ "stream_bytes (acc, k, out)"]) simp
  next
    case False
    have pf: "partial_file ?D ?V (all_values ds) out = replicate HEADER_SIZE 0 @ all_values ds @ (out @ replicate (?V - length out) 0)"
      using l by (simp add: partial_file_def)
    have "decompress_body B header e c dt m tmp cs fs = (Ok (), fs(tmp \<mapsto> ?hd @ all_values ds))"
      unfolding decompress_body_def Let_def ini lpb
      using False l header_image_length
      by (simp add: step_state_def io_simps pf write_header_app io_set_len_def fun_upd_same del: fun_upd_apply)
    then show ?thesis using False by (intro exI[of _ "[]"]) simp
  qed
qed


lemma field_holds_open:
  assumes "field_holds B bs dt cells" "fs p = Some bs" "open_field_file B p m fs = (Ok h, fs')" "fd_ok h src"
  shows "src_type src = dt \<and> fd_row_count h = length cells \<and> source_cells src (length cells) = cells"
proof -
  obtain h0 src0 where "open_field_file B p m fs = (Ok h0, fs)" "fd_ok h0 src0" "src_type src0 = dt"
    "fd_row_count h0 = length cells" "source_cells src0 (length cells) = cells"
    using assms(1,2) unfolding field_holds_def by blast
  moreover from this have "h0 = h" using assms(3) by simp
  ultimately show ?thesis using assms(4) by (simp add: fd_ok_def)
qed

lemma header_image_split:
  assumes "field_header_from_bytes (take HEADER_SIZE bs) = Ok header" "HEADER_SIZE \<le> length bs"
  shows "field_header_ok header" "take HEADER_SIZE bs = field_header_to_bytes header"
    "bs = field_header_to_bytes header @ drop HEADER_SIZE bs"
proof -
  show ok: "field_header_ok header" and t: "take HEADER_SIZE bs = field_header_to_bytes header"
    using field_pod.accepted[OF assms(1)] by simp_all
  show "bs = field_header_to_bytes header @ drop HEADER_SIZE bs" unfolding t[symmetric] by simp
qed

lemma replace_file_eq:
  "replace_file path bs fs = (Ok (), fs(tmp_path path := None, path \<mapsto> bs))"
  by (simp add: replace_file_def io_truncate_def io_bind_def io_append_def io_rename_def)

text \<open>A file of a header alone keeps its cells whatever encoding and compression its header names.\<close>

lemma retagged_null:
  assumes "field_header_ok header" "fh_encoding header' = encoding_id e" "fh_compression header' = compression_id c"
    and "header' = header\<lparr>fh_compression := c', fh_encoding := e'\<rparr>"
  shows "field_header_ok (set_has_validity v header')" "field_data_type (set_has_validity v header') = field_data_type header"
    "fh_row_count (set_has_validity v header') = fh_row_count header"
  using assms by (auto simp: field_header_ok_iff field_data_type_def)

lemma decompress_eq:
  assumes op: "open_field_file B p md fs = (Ok h, fs')" and ch: "fd_is_chunked h" and ok: "fd_ok h src" "src_type src \<noteq> Utf8"
    and pos: "0 < fd_row_count h"
  shows "\<exists>bs. decompress_field_file B p fs = (Ok (), fs(tmp_path p := None, p \<mapsto> bs)) \<and>
    field_holds B bs (src_type src) (source_cells src (fd_row_count h))"
proof -
  obtain m hd0 rs work k where m: "fs p = Some m" "HEADER_SIZE \<le> length m" "field_header_from_bytes (take HEADER_SIZE m) = Ok hd0"
    "open_parts B m hd0 = Ok (rs, work)" "fd_header h = hd0\<lparr>fh_null_count := k\<rparr>"
    using open_Ok[OF op] by blast
  have sl: "slice_r 0 HEADER_SIZE m = (Ok (take HEADER_SIZE m) :: (core_error, _) res)"
    using m(2) by (simp add: slice_def slice_r_def slice_ok_def)
  have chd: "is_chunked hd0" using ch m(5) by (simp add: fd_is_chunked_def is_chunked_def)
  have rc: "fd_row_count h = unat (fh_row_count hd0)" using m(5) by (simp add: fd_row_count_def)
  have "fd_data_type h = (Ok (src_type src) :: (core_error, _) res)" using fd_ok_type[OF ok(1)] .
  then have ty: "field_data_type hd0 = Ok (src_type src)" using m(5) by (simp add: fd_data_type_def field_data_type_def res_simps)
  show ?thesis
  proof (cases "length m = HEADER_SIZE")
    case True
    then have img: "m = field_header_to_bytes hd0" using header_image_split[OF m(3,2)] by simp
    let ?hd = "set_has_validity True (hd0\<lparr>fh_compression := compression_id CNone, fh_encoding := encoding_id Plain\<rparr>)"
    note hok = header_image_split(1)[OF m(3,2)]
    have r: "field_header_ok ?hd" "field_data_type ?hd = Ok (src_type src)" "unat (fh_row_count ?hd) = fd_row_count h"
      using retagged_null[OF hok, of _ Plain CNone _ _ True] ty rc by simp_all
    have "field_holds B m (src_type src) (null_cells (src_type src) (fd_row_count h))"
      unfolding img using hok ty rc pos by (intro null_holds) simp_all
    from field_holds_open[OF this m(1) op ok(1)]
    have "source_cells src (fd_row_count h) = null_cells (src_type src) (fd_row_count h)"
      by (simp add: null_cells_def)
    moreover have "field_holds B (field_header_to_bytes ?hd) (src_type src) (null_cells (src_type src) (fd_row_count h))"
      using r pos by (intro null_holds) simp_all
    moreover have "decompress_field_file B p fs = replace_file p (field_header_to_bytes ?hd) fs"
      using m sl chd True by (simp add: decompress_field_file_def io_simps)
    ultimately show ?thesis by (simp add: replace_file_eq) blast
  next
    case False
    obtain header e c ds where x: "field_header_from_bytes (take HEADER_SIZE m) = Ok header"
      "field_encoding header = Ok e" "field_compression header = Ok c" "HEADER_SIZE < length m"
      "decodes B e c (src_type src) (drop HEADER_SIZE m) ds" "length (all_flags ds) = fd_row_count h"
      "src_values src = all_values ds" "\<forall>i < fd_row_count h. src_valid src i = all_flags ds ! i"
      using open_chunked[OF op ch ok m(1) False pos] by blast
    then have hd: "header = hd0" using m(3) by simp
    let ?dt = "src_type src" and ?N = "fd_row_count h" and ?tmp = "tmp_path p"
    let ?saw = "\<exists>d \<in> set ds. fst (snd d) \<noteq> None"
    obtain cs where cs: "chunk_spans m HEADER_SIZE = Ok (cs, length m)"
      "list_all2 (\<lambda>(q, len, rows) d. q + len \<le> length m \<and> rows = snd (snd d) \<and>
        decode_chunk B e c ?dt (slice q (q + len) m) = Ok d) cs ds"
      using chunk_spans_decodes[OF x(5) m(2)] by blast
    let ?fs1 = "fs(?tmp \<mapsto> partial_file (?N * size_of ?dt) (validity_size ?N) [] [])"
    let ?hd = "field_header_new_uncompressed ?dt (fh_generation hd0) (fh_row_count hd0) (fh_null_count hd0) ?saw"
    have f1: "?fs1 ?tmp = Some (partial_file (unat (fh_row_count hd0) * size_of ?dt) (validity_size (unat (fh_row_count hd0))) [] [])"
      by (simp add: rc)
    obtain vb where vb: "decompress_body B hd0 e c ?dt m ?tmp cs ?fs1 =
        (Ok (), ?fs1(?tmp \<mapsto> field_header_to_bytes ?hd @ all_values ds @ vb))"
      "length vb = (if ?saw then validity_size ?N else 0)"
      "?saw \<longrightarrow> (\<forall>i < ?N. get_bit vb i = all_flags ds ! i)"
      using decompress_body_eq[where fs = ?fs1 and tmp = ?tmp, OF x(5) cs _ f1] x(6) rc by auto
    have st: "io_set_len ?tmp (HEADER_SIZE + ?N * size_of ?dt + validity_size ?N) (fs(?tmp \<mapsto> [])) = (Ok (), ?fs1)"
      by (simp add: io_set_len_def partial_file_def replicate_add)
    have body: "io_on_err (decompress_body B hd0 e c ?dt m ?tmp cs) (io_try_remove ?tmp) ?fs1 =
        (Ok (), fs(?tmp \<mapsto> field_header_to_bytes ?hd @ all_values ds @ vb))"
      using vb(1) by (simp add: io_on_err_def del: fun_upd_apply)
    have "decompress_field_file B p fs = (Ok (), fs(?tmp := None, p \<mapsto> field_header_to_bytes ?hd @ all_values ds @ vb))"
      using m(1,3) sl chd False x(2,3) hd ty cs(1) st body
      by (simp add: decompress_field_file_def io_simps Let_def rc io_rename_def fun_upd_same del: fun_upd_apply)
    moreover have "field_holds B (field_header_to_bytes ?hd @ all_values ds @ vb) ?dt
        (cells_of ?dt (all_values ds) (\<lambda>i. if has_validity ?hd then get_bit vb i else True) ?N)"
    proof (rule plain_holds)
      show "unat (fh_data_length ?hd) = ?N * size_of ?dt" by (simp add: new_uncompressed_data_length rc)
      show "length (all_values ds) = ?N * size_of ?dt" using decodes_lengths[OF x(5)] x(6) by simp
      then show "?N = 0 \<or> all_values ds @ vb \<noteq> []" using pos ok(2) size_of_pos[of ?dt] by fastforce
      show "length vb = field_validity_size ?hd" using vb(2) rc by (simp add: field_validity_size_def)
    qed (simp_all add: rc field_data_type_def)
    moreover have "cells_of ?dt (all_values ds) (\<lambda>i. if has_validity ?hd then get_bit vb i else True) ?N = source_cells src ?N"
      unfolding source_cells_def x(7)
      by (rule cells_of_cong) (use vb(3) x(6,8) no_validity_flags[of ds] in auto)
    ultimately show ?thesis by auto
  qed
qed


subsection \<open>Compression keeps what the cells show\<close>

text \<open>The value of a NULL cell is not shown.\<close>

definition shown :: "(bool \<times> cell_value) list \<Rightarrow> cell_value option list" where
  "shown cells = map (\<lambda>(v, x). if v then Some x else None) cells"

lemma shown_null: "(\<forall>i < length cells. \<not> fst (cells ! i)) \<Longrightarrow> shown cells = replicate (length cells) None"
  by (rule nth_equalityI) (auto simp: shown_def split: prod.splits)

lemma all_null_cells:
  assumes "nulls_of cells = length cells"
  shows "shown cells = replicate (length cells) None"
proof -
  have "\<not> fst c" if "c \<in> set cells" for c
    using length_filter_less[OF that, of "\<lambda>c. \<not> fst c"] assms by (auto simp: nulls_of_def)
  then show ?thesis using shown_null[of cells] by simp
qed

lemma packed_codes:
  assumes "view_ok v" "bv_len v = n" "\<And>j. j < n \<Longrightarrow> view_bit v j = valid (lo + j)"
  shows "\<exists>out. view_to_packed_bytes v = (Ok out :: (core_error, _) res) \<and> length out = validity_size n \<and>
    bits_code (Some out) valid lo n"
proof -
  obtain out where out: "view_to_packed_bytes v = (Ok out :: (core_error, _) res)" "length out = validity_size (bv_len v)"
    "\<forall>j. j < 8 * length out \<longrightarrow> get_bit out j = (j < bv_len v \<and> view_bit v j)"
    using view_to_packed_bytes_eq[OF assms(1)] by blast
  then show ?thesis using assms(2,3) validity_size_bound(1)[of n] by (auto simp: bits_code_def)
qed

lemma handle_chunk_codes:
  assumes sane: "backend_sane B c" and ok: "fd_ok h src" "src_type src \<noteq> Utf8" "fd_row_count h \<le> 2 ^ 26"
    and r: "lo < hi" "hi \<le> fd_row_count h"
  shows "\<exists>ch. handle_chunk B e c (src_type src) h (lo, hi) = Ok ch \<and>
    chunk_codes B e c (src_type src) (src_values src) (src_valid src) (lo, hi) ch \<and> chunk_small (lo, hi) ch"
proof -
  let ?dt = "src_type src" and ?n = "fd_row_count h"
  let ?s = "size_of ?dt"
  let ?vs = "slice (lo * ?s) (hi * ?s) (src_values src)"
  have sc: "scan_source_of h = Ok src" "length (src_values src) = ?n * ?s"
    "\<forall>bits. src_validity src = Some bits \<longrightarrow> ?n \<le> 8 * length bits" using ok(1) by (simp_all add: fd_ok_def)
  have b: "lo * ?s \<le> hi * ?s" "hi * ?s \<le> length (src_values src)" using r sc(2) by simp_all
  have l: "length ?vs = (hi - lo) * ?s" using b by (simp add: diff_mult_distrib)
  obtain vw val where rv: "range_views src lo (hi - lo) = Ok (?vs, vw)"
    "(case vw of None \<Rightarrow> Ok None | Some b \<Rightarrow> rbind (view_to_packed_bytes b) (\<lambda>p. Ok (Some p))) = (Ok val :: (core_error, _) res)"
    "bits_code val (src_valid src) lo (hi - lo)" "case val of None \<Rightarrow> True | Some p \<Rightarrow> length p = validity_size (hi - lo)"
  proof (cases "src_validity src")
    case None
    then show ?thesis
      using b r by (intro that[of None None]) (auto simp: range_views_def Let_def bits_code_def src_valid_def)
  next
    case (Some bits)
    define v where "v = \<lparr>bv_data = bits, bv_bit_offset = lo, bv_len = hi - lo\<rparr>"
    have v: "bitmap_view_new bits lo (hi - lo) = Ok v" "view_ok v"
      using sc(3) Some r by (auto simp: bitmap_view_new_Ok v_def view_ok_def)
    have "view_bit v j = src_valid src (lo + j)" for j by (simp add: view_bit_def v_def src_valid_def Some)
    from packed_codes[of v "hi - lo", OF v(2) _ this] obtain out where
      "view_to_packed_bytes v = (Ok out :: (core_error, _) res)" "length out = validity_size (hi - lo)"
      "bits_code (Some out) (src_valid src) lo (hi - lo)" by (auto simp: v_def)
    then show ?thesis
      using b r v(1) Some by (intro that[of "Some v" "Some out"]) (simp_all add: range_views_def Let_def)
  qed
  have "hi - lo \<le> 2 ^ 26" using r ok(3) by simp
  from encode_chunk_sane[OF sane ok(2) l this rv(4), of e] obtain ch where
    ch: "encode_chunk B e c ?dt ?vs val (hi - lo) = Ok ch" "length ch \<le> u32_max" "12 * (hi - lo) < u32_max" by blast
  then have "handle_chunk B e c ?dt h (lo, hi) = Ok ch"
    using sc(1) rv(1,2) by (simp add: handle_chunk_def)
  then show ?thesis using ch rv(3) by (auto simp: chunk_codes_def chunk_small_def)
qed

lemma handle_chunks_codes:
  assumes "backend_sane B c" "fd_ok h src" "src_type src \<noteq> Utf8" "fd_row_count h \<le> 2 ^ 26"
    and "tiles a (fd_row_count h) rs"
  shows "\<exists>cs. mapM (handle_chunk B e c (src_type src) h) rs = Ok cs \<and>
    list_all2 (chunk_codes B e c (src_type src) (src_values src) (src_valid src)) rs cs \<and> list_all2 chunk_small rs cs"
  using assms(5)
proof (induction rs arbitrary: a)
  case (Cons r rs)
  obtain hi where r: "r = (a, hi)" "a < hi" "tiles hi (fd_row_count h) rs" using Cons.prems by (cases r) auto
  obtain cs where "mapM (handle_chunk B e c (src_type src) h) rs = Ok cs"
    "list_all2 (chunk_codes B e c (src_type src) (src_values src) (src_valid src)) rs cs" "list_all2 chunk_small rs cs"
    using Cons.IH[OF r(3)] by blast
  then show ?case using handle_chunk_codes[OF assms(1-4) r(2) tiles_le[OF r(3)], of e] r(1) by auto
qed simp

text \<open>The offsets that compression accepts are those of creation, and cut the rows the same way.\<close>

lemma compress_offsets_boundaries:
  assumes "compress_offsets n offs = Ok l" "0 < n"
  shows "l \<noteq> [] \<and> tiles 0 n (starts_to_ranges n l)"
proof (cases offs)
  case None
  then have l: "l = chunk_starts n" using assms(1) by (simp add: compress_offsets_def)
  define m where "m = (n + (CREATE_CHUNK_ROWS - 1)) div CREATE_CHUNK_ROWS"
  have m: "0 < m" using assms(2) by (simp add: m_def CREATE_CHUNK_ROWS_def div_greater_zero_iff)
  have lm: "l = map (\<lambda>k. k * CREATE_CHUNK_ROWS) [0..<m]" by (simp add: l chunk_starts_def m_def)
  have sw: "sorted_wrt (<) l" by (simp add: lm sorted_wrt_map sorted_wrt_upt CREATE_CHUNK_ROWS_def)
  have "m * CREATE_CHUNK_ROWS \<le> n + (CREATE_CHUNK_ROWS - 1)" by (simp add: m_def)
  then have la: "last l < n"
    using m by (cases m) (simp_all add: lm CREATE_CHUNK_ROWS_def)
  obtain l' where l': "l = 0 # l'" using m by (cases m) (auto simp: lm upt_conv_Cons simp del: upt_Suc)
  show ?thesis using tiles_starts[of 0 l' n] sw la unfolding l' by simp
next
  case (Some os)
  then have "compute_chunk_boundaries n (Some os) = Ok (starts_to_ranges n l)" "l \<noteq> []"
    using assms(1) by (auto simp: compress_offsets_def compute_chunk_boundaries_def Let_def split: if_splits)
  then show ?thesis using boundaries_tile by blast
qed


lemma tag_chunked: "c \<noteq> CNone \<or> e \<noteq> Plain \<Longrightarrow>
    encoding_id e \<noteq> encoding_id Plain \<or> compression_id c \<noteq> compression_id CNone"
  by (cases c; cases e) auto

lemma compress_eq:
  assumes op: "open_field_file B p Read fs = (Ok h, fs')" and ch: "\<not> fd_is_chunked h" and ok: "fd_ok h src" "src_type src \<noteq> Utf8"
    and n: "0 < fd_row_count h" "fd_row_count h \<le> 2 ^ 26" and sane: "backend_sane B c" "c \<noteq> CNone \<or> e \<noteq> Plain"
    and nulls: "unat (fh_null_count (fd_header h)) = nulls_of (source_cells src (fd_row_count h))"
    and offs: "compress_offsets (fd_row_count h) offs = Ok l"
  shows "\<exists>bs cells. compress_field_file_encoded B p offs e c fs = (Ok (), fs(tmp_path p := None, p \<mapsto> bs)) \<and>
    field_holds B bs (src_type src) cells \<and> length cells = fd_row_count h \<and>
    shown cells = shown (source_cells src (fd_row_count h)) \<and>
    (\<exists>hd body. field_header_ok hd \<and> bs = field_header_to_bytes hd @ body \<and> is_chunked hd \<and>
      fh_generation hd = fh_generation (fd_header h))"
proof -
  let ?dt = "src_type src" and ?N = "fd_row_count h" and ?tmp = "tmp_path p"
  obtain m hd0 rs work k where m: "fs p = Some m" "HEADER_SIZE \<le> length m" "field_header_from_bytes (take HEADER_SIZE m) = Ok hd0"
    "fd_header h = hd0\<lparr>fh_null_count := k\<rparr>" and fs': "fs' = fs"
    using open_Ok[OF op] by blast
  note op1 = op[unfolded fs']
  have hok: "field_header_ok (fd_header h)"
    using header_image_split(1)[OF m(3,2)] m(4) by (simp add: field_header_ok_iff)
  have "fd_data_type h = (Ok ?dt :: (core_error, _) res)" using fd_ok_type[OF ok(1)] .
  then have ty: "field_data_type (fd_header h) = Ok ?dt" by (simp add: fd_data_type_def res_simps)
  let ?tagged = "(fd_header h)\<lparr>fh_compression := compression_id c, fh_encoding := encoding_id e\<rparr>"
  show ?thesis
  proof (cases "length m = HEADER_SIZE \<or> is_all_null (fd_header h)")
    case True
    have null: "nulls_of (source_cells src ?N) = ?N"
    proof (cases "length m = HEADER_SIZE")
      case True
      then have img: "m = field_header_to_bytes hd0" using header_image_split[OF m(3,2)] by simp
      have "field_holds B m ?dt (null_cells ?dt ?N)"
        unfolding img using header_image_split(1)[OF m(3,2)] ty n(1) m(4)
        by (intro null_holds) (simp_all add: field_data_type_def fd_row_count_def)
      from field_holds_open[OF this m(1) op ok(1)] show ?thesis by (simp add: null_cells_def nulls_of_def)
    next
      case False
      then have "is_all_null (fd_header h)" using \<open>length m = HEADER_SIZE \<or> is_all_null (fd_header h)\<close> by simp
      then show ?thesis using nulls by (simp add: is_all_null_def fd_row_count_def)
    qed
    let ?hd = "set_has_validity True ?tagged"
    have r: "field_header_ok ?hd" "field_data_type ?hd = Ok ?dt" "unat (fh_row_count ?hd) = ?N"
      using retagged_null[OF hok, of _ e c _ _ True] ty by (simp_all add: fd_row_count_def)
    have "compress_field_file_encoded B p offs e c fs = replace_file p (field_header_to_bytes ?hd) fs"
      using m(1) op1 ch True by (simp add: compress_field_file_encoded_def io_simps fd_is_chunked_def Let_def)
    moreover have "field_holds B (field_header_to_bytes ?hd) ?dt (null_cells ?dt ?N)"
      using r n(1) by (intro null_holds) simp_all
    moreover have "shown (source_cells src ?N) = replicate ?N None"
      using all_null_cells[of "source_cells src ?N"] null by (simp add: source_cells_def)
    moreover have "shown (null_cells ?dt ?N) = replicate ?N None" by (simp add: shown_def null_cells_def)
    moreover have "\<exists>hd body. field_header_ok hd \<and> field_header_to_bytes ?hd = field_header_to_bytes hd @ body \<and> is_chunked hd \<and>
        fh_generation hd = fh_generation (fd_header h)"
      using r(1) tag_chunked[OF sane(2)] by (intro exI[of _ ?hd] exI[of _ "[]"]) (simp add: is_chunked_def)
    ultimately show ?thesis
      by (intro exI[of _ "field_header_to_bytes ?hd"] exI[of _ "null_cells ?dt ?N"]) (simp add: replace_file_eq null_cells_def)
  next
    case False
    let ?hd = "(set_has_validity False ?tagged)\<lparr>fh_validity_offset := 0\<rparr>"
    have l: "l \<noteq> []" "tiles 0 ?N (starts_to_ranges ?N l)" using compress_offsets_boundaries[OF offs n(1)] by simp_all
    obtain cs where cs: "mapM (handle_chunk B e c ?dt h) (starts_to_ranges ?N l) = Ok cs"
      "list_all2 (chunk_codes B e c ?dt (src_values src) (src_valid src)) (starts_to_ranges ?N l) cs"
      "list_all2 chunk_small (starts_to_ranges ?N l) cs"
      using handle_chunks_codes[OF sane(1) ok(1) ok(2), of 0 "starts_to_ranges ?N l" e] l(2) n(2) by auto
    define bs where "bs = field_header_to_bytes ?hd @ concat cs"
    have lp: "io_each (\<lambda>r. io_bind (io_lift (handle_chunk B e c ?dt h r)) (io_append ?tmp)) (starts_to_ranges ?N l)
        (fs(?tmp \<mapsto> field_header_to_bytes ?hd)) = (Ok (), fs(?tmp \<mapsto> bs))"
      using io_each_append[of "fs(?tmp \<mapsto> field_header_to_bytes ?hd)" ?tmp "field_header_to_bytes ?hd", OF _ cs(1)]
      by (simp add: bs_def)
    have "compress_field_file_encoded B p offs e c fs = (Ok (), fs(?tmp := None, p \<mapsto> bs))"
      using m(1) op1 ch False ty offs l(1)
      by (simp add: compress_field_file_encoded_def io_simps fd_is_chunked_def Let_def fd_data_type_def io_on_err_def lp)
    moreover have hd: "field_header_ok ?hd" "is_chunked ?hd"
      using hok tag_chunked[OF sane(2)] by (auto simp: field_header_ok_iff is_chunked_def)
    moreover have "field_holds B bs ?dt (cells_of ?dt (src_values src) (src_valid src) ?N)"
      unfolding bs_def
    proof (rule chunked_holds[where e = e and c = c])
      show "backend_ok B" using sane(1) by (simp add: backend_sane_def)
      show "field_header_ok ?hd" "is_chunked ?hd" using hd by simp_all
      show "field_data_type ?hd = Ok ?dt" using ty by (simp add: field_data_type_def)
      show "field_encoding ?hd = Ok e" "field_compression ?hd = Ok c" by (simp_all add: field_encoding_def field_compression_def)
      show "length (src_values src) = ?N * size_of ?dt" using ok(1) by (simp add: fd_ok_def)
    qed (use ok(2) l(2) cs in \<open>simp_all add: fd_row_count_def\<close>)
    moreover have "\<exists>hd body. field_header_ok hd \<and> bs = field_header_to_bytes hd @ body \<and> is_chunked hd \<and>
        fh_generation hd = fh_generation (fd_header h)"
      using hd by (intro exI[of _ ?hd] exI[of _ "concat cs"]) (simp add: bs_def)
    ultimately show ?thesis
      by (intro exI[of _ bs] exI[of _ "source_cells src ?N"]) (simp add: source_cells_def)
  qed
qed


subsection \<open>Failures leave the file\<close>

lemma touches_prod [touch_intros]: "(\<And>a b. touches P (f a b)) \<Longrightarrow> touches P (case x of (a, b) \<Rightarrow> f a b)"
  by (cases x) simp

lemma unwinds_prod [unwind_intros]: "(\<And>a b. unwinds P (f a b)) \<Longrightarrow> unwinds P (case x of (a, b) \<Rightarrow> f a b)"
  by (cases x) simp

lemma touches_open [touch_intros]: "touches P (open_field_file B p m)"
  unfolding open_field_file_def io_read_exact_def
  by (intro touch_intros)

lemma replace_file_unwinds [unwind_intros]: "tmp_path p \<in> P \<Longrightarrow> unwinds P (replace_file p bs)"
  unfolding replace_file_def Let_def by (intro unwind_intros touch_intros)

lemma compress_unwinds: "unwinds {tmp_path p} (compress_field_file_encoded B p offs e c)"
  unfolding compress_field_file_encoded_def Let_def
  by (intro unwind_intros touch_intros) simp_all

lemma decompress_unwinds: "unwinds {tmp_path p} (decompress_field_file B p)"
  unfolding decompress_field_file_def decompress_body_def decompress_step_def write_header_def Let_def
  by (intro unwind_intros touch_intros) simp_all


lemma opened_chunked:
  assumes "open_field_file B p md fs = (Ok h, fs')" "fs p = Some (field_header_to_bytes hdr @ body)" "field_header_ok hdr"
  shows "fd_is_chunked h \<longleftrightarrow> is_chunked hdr"
proof -
  have "take HEADER_SIZE (field_header_to_bytes hdr @ body) = field_header_to_bytes hdr" using header_image_length by simp
  then have "field_header_from_bytes (take HEADER_SIZE (field_header_to_bytes hdr @ body)) = Ok hdr"
    using field_pod.from_to[OF assms(3)] by simp
  then show ?thesis using open_Ok[OF assms(1)] assms(2) by (auto simp: fd_is_chunked_def is_chunked_def)
qed

subsection \<open>Properties\<close>

text \<open>C19. Compressing an uncompressed field in place succeeds, leaves no temporary file and touches no
  other file; the file then opens as a chunked one that shows the same cells (a NULL cell shows no
  value: an all-NULL field is reduced to its header), whatever accepted chunk offsets are given.\<close>

theorem compress_keeps_cells:
  assumes "open_field_file B p Read fs = (Ok h, fs)" "\<not> fd_is_chunked h" "fd_ok h src" "src_type src \<noteq> Utf8"
    and "0 < fd_row_count h" "fd_row_count h \<le> 2 ^ 26" "backend_sane B Zstd"
    and "unat (fh_null_count (fd_header h)) = nulls_of (source_cells src (fd_row_count h))"
    and "compress_offsets (fd_row_count h) offs = Ok l"
  shows "\<exists>fs' h' src'. compress_field_file B p offs fs = (Ok (), fs') \<and> fs' (tmp_path p) = None \<and>
    (\<forall>q. q \<notin> {p, tmp_path p} \<longrightarrow> fs' q = fs q) \<and> open_field_file B p Read fs' = (Ok h', fs') \<and>
    fd_is_chunked h' \<and> fd_ok h' src' \<and> src_type src' = src_type src \<and> fd_row_count h' = fd_row_count h \<and>
    shown (source_cells src' (fd_row_count h)) = shown (source_cells src (fd_row_count h))"
proof -
  obtain bs cells hdr body where c: "compress_field_file B p offs fs = (Ok (), fs(tmp_path p := None, p \<mapsto> bs))"
    "field_holds B bs (src_type src) cells" "length cells = fd_row_count h"
    "shown cells = shown (source_cells src (fd_row_count h))"
    "field_header_ok hdr" "bs = field_header_to_bytes hdr @ body" "is_chunked hdr"
    using compress_eq[OF assms(1-7) _ assms(8,9), of Plain] by (auto simp: compress_field_file_def)
  let ?fs = "fs(tmp_path p := None, p \<mapsto> bs)"
  have f: "?fs p = Some bs" by simp
  obtain h' src' where h': "open_field_file B p Read ?fs = (Ok h', ?fs)" "fd_ok h' src'" "src_type src' = src_type src"
    "fd_row_count h' = length cells" "source_cells src' (length cells) = cells"
    using c(2) f unfolding field_holds_def by blast
  have "fd_is_chunked h'" using opened_chunked[OF h'(1) _ c(5)] c(6,7) by simp
  then show ?thesis using c(1,3,4) h' by (intro exI[of _ ?fs] exI[of _ h'] exI[of _ src']) simp
qed

lemma example_field:
  "\<exists>h src. open_field_file example_backend ''f'' Read (Map.empty(''f'' \<mapsto> example_map)) =
      (Ok h, Map.empty(''f'' \<mapsto> example_map)) \<and> fd_ok h src \<and> src_type src = Int8 \<and> fd_row_count h = 3 \<and>
    source_cells src 3 = [(True, CBytes [10]), (True, CBytes [20]), (True, CBytes [30])] \<and>
    fd_header h = field_header_new_uncompressed Int8 1 3 0 True"
proof -
  let ?H = "field_header_new_uncompressed Int8 1 3 0 True"
  have "field_holds example_backend (field_header_to_bytes ?H @ [10, 20, 30] @ [0x07]) Int8
      (cells_of Int8 [10, 20, 30] (\<lambda>i. if has_validity ?H then get_bit [0x07] i else True) 3)"
    by (rule plain_holds) (simp_all add: field_data_type_def data_type_from_id_def new_uncompressed_data_length
        field_validity_size_def validity_size_def)
  moreover have "cells_of Int8 [10, 20, 30] (\<lambda>i. if has_validity ?H then get_bit [0x07] i else True) 3 =
      [(True, CBytes [10]), (True, CBytes [20]), (True, CBytes [30])]"
    by (simp add: cells_of_def upt_rec slice_def get_bit_def)
  ultimately have holds: "field_holds example_backend example_map Int8
      [(True, CBytes [10]), (True, CBytes [20]), (True, CBytes [30])]"
    by (simp add: example_map_def)
  let ?fs = "Map.empty(''f'' \<mapsto> example_map)"
  have len3: "length [(True, CBytes [10]), (True, CBytes [20]), (True, CBytes [30])] = 3" by simp
  obtain h src where h: "open_field_file example_backend ''f'' Read ?fs = (Ok h, ?fs)" "fd_ok h src" "src_type src = Int8"
    "fd_row_count h = 3" "source_cells src 3 = [(True, CBytes [10]), (True, CBytes [20]), (True, CBytes [30])]"
    using holds[unfolded field_holds_def len3, rule_format, of ?fs "''f''" Read] by (simp only: fun_upd_same simp_thms) blast
  have "open_parts example_backend example_map ?H = Ok ([], None)"
    using header_image_length by (simp add: open_parts_def example_map_def)
  from open_eq[of ?fs "''f''" example_map ?H "[10, 20, 30] @ [0x07]" example_backend "[]" None Read] this
  have "open_field_file example_backend ''f'' Read ?fs = (Ok (opened_field ''f'' Read example_map ?H [] None), ?fs)"
    by (simp add: example_map_def)
  then have "fd_header h = ?H" using h(1) by (auto simp: opened_field_def opened_header_def)
  then show ?thesis using h by blast
qed

theorem compress_keeps_cells_witness:
  "\<exists>fs' h' src'. compress_field_file example_backend ''f'' (Some [0, 2]) (Map.empty(''f'' \<mapsto> example_map)) = (Ok (), fs') \<and>
     open_field_file example_backend ''f'' Read fs' = (Ok h', fs') \<and> fd_is_chunked h' \<and> fd_ok h' src' \<and>
     shown (source_cells src' 3) = [Some (CBytes [10]), Some (CBytes [20]), Some (CBytes [30])]"
proof -
  obtain h src where h: "open_field_file example_backend ''f'' Read (Map.empty(''f'' \<mapsto> example_map)) =
      (Ok h, Map.empty(''f'' \<mapsto> example_map))" "fd_ok h src" "src_type src = Int8" "fd_row_count h = 3"
    "source_cells src 3 = [(True, CBytes [10]), (True, CBytes [20]), (True, CBytes [30])]"
    "fd_header h = field_header_new_uncompressed Int8 1 3 0 True" using example_field by blast
  have nc: "\<not> fd_is_chunked h" by (simp add: fd_is_chunked_def h(6))
  have off: "compress_offsets (fd_row_count h) (Some [0, 2]) = Ok [0, 2]" unfolding h(4) by (simp add: compress_offsets_def)
  have nulls: "unat (fh_null_count (fd_header h)) = nulls_of (source_cells src (fd_row_count h))"
    unfolding h(4-6) by (simp add: nulls_of_def)
  have p: "src_type src \<noteq> Utf8" "0 < fd_row_count h" "fd_row_count h \<le> 2 ^ 26" using h(3,4) by simp_all
  have sh: "shown (source_cells src 3) = [Some (CBytes [10]), Some (CBytes [20]), Some (CBytes [30])]"
    unfolding h(5) by (simp add: shown_def)
  show ?thesis
    using compress_keeps_cells[OF h(1) nc h(2) p example_backend_sane nulls off] unfolding h(4) sh by blast
qed

text \<open>C20. Decompressing any chunked field that opens succeeds (its own pass over the chunks accepts what
  the open accepted), leaves no temporary file and touches no other file; every later open and read of
  the file shows exactly the cells of before, values of NULL rows included.\<close>

theorem decompress_keeps_cells:
  assumes "open_field_file B p Read fs = (Ok h, fs)" "fd_is_chunked h" "fd_ok h src" "src_type src \<noteq> Utf8"
    and "0 < fd_row_count h"
  shows "\<exists>fs'. decompress_field_file B p fs = (Ok (), fs') \<and> fs' (tmp_path p) = None \<and>
    (\<forall>q. q \<notin> {p, tmp_path p} \<longrightarrow> fs' q = fs q) \<and>
    (\<forall>m offset len. offset + len \<le> fd_row_count h \<longrightarrow>
      (\<exists>h' v. open_field_file B p m fs' = (Ok h', fs') \<and> read_field_handle h' offset len = Ok v \<and>
         view_cells v = slice offset (offset + len) (source_cells src (fd_row_count h))))"
proof -
  obtain bs where bs: "decompress_field_file B p fs = (Ok (), fs(tmp_path p := None, p \<mapsto> bs))"
    "field_holds B bs (src_type src) (source_cells src (fd_row_count h))"
    using decompress_eq[OF assms] by blast
  let ?fs = "fs(tmp_path p := None, p \<mapsto> bs)"
  have "\<exists>h' v. open_field_file B p m ?fs = (Ok h', ?fs) \<and> read_field_handle h' offset len = Ok v \<and>
      view_cells v = slice offset (offset + len) (source_cells src (fd_row_count h))"
    if "offset + len \<le> fd_row_count h" for m offset len
    using field_holds_read[OF bs(2), of ?fs p offset len m] that by (auto simp: source_cells_def)
  then show ?thesis using bs(1) by (intro exI[of _ ?fs]) simp
qed

lemma example_chunked_field:
  "\<exists>bs h src. open_field_file example_backend ''f'' Read (Map.empty(''f'' \<mapsto> bs)) = (Ok h, Map.empty(''f'' \<mapsto> bs)) \<and>
     fd_is_chunked h \<and> fd_ok h src \<and> src_type src = Int8 \<and> fd_row_count h = 2 \<and>
     source_cells src 2 = [(True, CBytes [5]), (False, CBytes [6])]"
proof -
  let ?src = "\<lparr>src_type = Int8, src_values = [5, 6], src_validity = Some [0x01]\<rparr>"
  have sane: "backend_sane example_backend Zstd" by (rule example_backend_sane)
  have c: "source_cells ?src 2 = [(True, CBytes [5]), (False, CBytes [6])]" by code_simp
  have sm: "(2::nat) \<le> 2 ^ 26" "length ([5, 6] :: bytes) = 2 * size_of Int8" by simp_all
  have b: "validity_ok (Some \<lparr>bv_data = [0x01], bv_bit_offset = 0, bv_len = 2\<rparr>) 2"
    by (simp add: validity_ok_def view_ok_def)
  have t: "tiles 0 2 [(0, 2)]" by simp
  obtain cs where cs: "list_all2 (chunk_codes example_backend Plain Zstd Int8 [5, 6]
      (valid_at (Some \<lparr>bv_data = [0x01], bv_bit_offset = 0, bv_len = 2\<rparr>))) [(0, 2)] cs" "list_all2 chunk_small [(0, 2)] cs"
    using chunks_of_codes[OF sane _ sm(2) sm(1) b t, of Plain] by auto
  let ?H = "chunked_header Int8 Zstd 2 1 2"
  let ?bs = "field_header_to_bytes ?H @ concat cs"
  have "field_holds example_backend ?bs Int8
      (cells_of Int8 [5, 6] (valid_at (Some \<lparr>bv_data = [0x01], bv_bit_offset = 0, bv_len = 2\<rparr>)) 2)"
    by (rule chunked_holds[OF _ _ _ _ _ _ _ _ _ t cs])
       (use sane in \<open>simp_all add: backend_sane_def field_data_type_def data_type_from_id_def\<close>)
  moreover have "cells_of Int8 [5, 6] (valid_at (Some \<lparr>bv_data = [0x01], bv_bit_offset = 0, bv_len = 2\<rparr>)) 2 =
      [(True, CBytes [5]), (False, CBytes [6])]" by code_simp
  ultimately have holds: "field_holds example_backend ?bs Int8 [(True, CBytes [5]), (False, CBytes [6])]" by simp
  let ?fs = "Map.empty(''f'' \<mapsto> ?bs)"
  have len2: "length [(True, CBytes [5]), (False, CBytes [6])] = 2" by simp
  obtain h src where h: "open_field_file example_backend ''f'' Read ?fs = (Ok h, ?fs)" "fd_ok h src" "src_type src = Int8"
    "fd_row_count h = 2" "source_cells src 2 = [(True, CBytes [5]), (False, CBytes [6])]"
    using holds[unfolded field_holds_def len2, rule_format, of ?fs "''f''" Read] by (simp only: fun_upd_same simp_thms) blast
  have "fd_is_chunked h" using opened_chunked[OF h(1)] by simp
  then show ?thesis using h by blast
qed

theorem decompress_keeps_cells_witness:
  "\<exists>fs fs' h' v. decompress_field_file example_backend ''f'' fs = (Ok (), fs') \<and>
     open_field_file example_backend ''f'' Write fs' = (Ok h', fs') \<and> read_field_handle h' 1 1 = Ok v \<and>
     view_cells v = [(False, CBytes [6])]"
proof -
  obtain bs h src where h: "open_field_file example_backend ''f'' Read (Map.empty(''f'' \<mapsto> bs)) = (Ok h, Map.empty(''f'' \<mapsto> bs))"
    "fd_is_chunked h" "fd_ok h src" "src_type src = Int8" "fd_row_count h = 2"
    "source_cells src 2 = [(True, CBytes [5]), (False, CBytes [6])]" using example_chunked_field by blast
  have p: "src_type src \<noteq> Utf8" "0 < fd_row_count h" using h(4,5) by simp_all
  obtain fs' where d: "decompress_field_file example_backend ''f'' (Map.empty(''f'' \<mapsto> bs)) = (Ok (), fs')" and
    all: "\<forall>m offset len. offset + len \<le> 2 \<longrightarrow>
      (\<exists>h' v. open_field_file example_backend ''f'' m fs' = (Ok h', fs') \<and> read_field_handle h' offset len = Ok v \<and>
         view_cells v = slice offset (offset + len) [(True, CBytes [5]), (False, CBytes [6])])"
    using decompress_keeps_cells[OF h(1-3) p] unfolding h(5,6) by blast
  have "(1::nat) + 1 \<le> 2" by simp
  from all[rule_format, OF this, of Write] show ?thesis using d by (auto simp: slice_def)
qed

subsection \<open>Dictionary fields\<close>

definition utf8_file :: "nat \<Rightarrow> bytes \<Rightarrow> bytes" where
  "utf8_file n keys = field_header_to_bytes ((field_header_new_uncompressed Utf8 1 (of_nat n) 0 False)
     \<lparr>fh_data_length := of_nat (length keys)\<rparr>) @ keys"

lemma compress_utf8:
  assumes "backend_sane B Zstd" "0 < n" "n \<le> u32_max" "length keys = 4 * n"
  shows "\<exists>ch. codec_err (encode_chunk B Plain Zstd Utf8 [] None n) = Ok ch \<and>
    compress_field_file B p (Some [0]) (fs(p \<mapsto> utf8_file n keys)) = (Ok (), fs(tmp_path p := None, p \<mapsto>
      field_header_to_bytes ((set_has_validity False ((field_header_new_uncompressed Utf8 1 (of_nat n) 0 False)
        \<lparr>fh_data_length := of_nat (4 * n), fh_compression := compression_id Zstd, fh_encoding := encoding_id Plain\<rparr>))
          \<lparr>fh_validity_offset := 0\<rparr>) @ ch))"
proof -
  let ?H = "(field_header_new_uncompressed Utf8 1 (of_nat n) 0 False)\<lparr>fh_data_length := of_nat (length keys)\<rparr>"
  let ?fs = "fs(p \<mapsto> utf8_file n keys)" and ?tmp = "tmp_path p"
  have rows: "unat (fh_row_count ?H) = n" using assms(3) by (simp add: unat_of_nat_u32)
  have l: "length (utf8_file n keys) \<noteq> HEADER_SIZE" using assms(2,4) header_image_length by (simp add: utf8_file_def)
  have parts: "open_parts B (utf8_file n keys) ?H = Ok ([], None)"
    using l by (simp add: open_parts_def Let_def is_chunked_def)
  have ok: "field_header_ok ?H" using new_uncompressed_ok[of Utf8 1 "of_nat n" 0 False] by (simp add: field_header_ok_iff)
  define h where "h = opened_field p Read (utf8_file n keys) ?H [] None"
  have op: "open_field_file B p Read ?fs = (Ok h, ?fs)"
    unfolding h_def by (rule open_eq[where body = keys]) (use ok parts in \<open>simp_all add: utf8_file_def\<close>)
  have h: "fd_header h = ?H" "fd_working h = None" "fd_backing h = BMmap (utf8_file n keys)"
    by (simp_all add: h_def opened_field_def opened_header_def)
  have ty: "field_data_type ?H = Ok Utf8" by (simp add: field_data_type_def data_type_from_id_def)
  have "length keys \<le> u64_max" using assms(3,4) by simp
  then have dl: "unat (fh_data_length ?H) = length keys" by (simp add: unat_of_nat_u64)
  have "\<not> has_validity (field_header_new_uncompressed Utf8 1 (of_nat n) 0 False)" by simp
  then have hv: "\<not> has_validity ?H" unfolding has_validity_def by simp
  have sc: "scan_source_of h = Ok \<lparr>src_type = Utf8, src_values = keys, src_validity = None\<rparr>"
    using l header_image_length ty dl hv
    by (simp add: scan_source_of_def h fd_data_type_def fd_is_chunked_def uncompressed_slices_def Let_def utf8_file_def
        field_validity_size_def slice_def is_chunked_def)
  obtain enc where e: "compress B Zstd [] = Ok enc" using assms(1) by (auto simp: backend_sane_def)
  then obtain ch where ch: "codec_err (encode_chunk B Plain Zstd Utf8 [] None n) = Ok ch"
    by (simp add: encode_chunk_def encode_values_def plain_encode_def Let_def)
  have hc: "handle_chunk B Plain Zstd Utf8 h (0, n) = Ok ch"
    using ch sc by (simp add: handle_chunk_def range_views_def slice_r_def slice_ok_def)
  have off: "compress_offsets n (Some [0]) = Ok [0]" "starts_to_ranges n [0] = [(0, n)]"
    using assms(2) by (simp_all add: compress_offsets_def starts_to_ranges_def Let_def)
  have nn: "\<not> is_all_null ?H" using assms(2) rows by (auto simp: is_all_null_def)
  have n: "fd_row_count h = n" using rows by (simp add: fd_row_count_def h)
  show ?thesis
    using op l nn off hc ty ch n assms(4)
    by (simp add: compress_field_file_def compress_field_file_encoded_def io_simps fd_is_chunked_def h Let_def is_chunked_def
        fd_data_type_def io_on_err_def fun_upd_twist[of ?tmp p])
qed

text \<open>Compressing a dictionary (Utf8) field loses it: the compression succeeds and replaces the file,
  but the result does not depend on the keys, which were all there was of the column.\<close>

theorem compress_utf8_loses_keys:
  assumes "backend_sane B Zstd" "0 < n" "n \<le> u32_max" "length keys = 4 * n" "length keys' = 4 * n"
  shows "compress_field_file B p (Some [0]) (fs(p \<mapsto> utf8_file n keys)) =
      compress_field_file B p (Some [0]) (fs(p \<mapsto> utf8_file n keys')) \<and>
    fst (compress_field_file B p (Some [0]) (fs(p \<mapsto> utf8_file n keys))) = Ok ()"
  using compress_utf8[OF assms(1-4), of p fs] compress_utf8[OF assms(1-3,5), of p fs] by (metis fst_conv res.inject(1))

theorem compress_utf8_loses_keys_witness:
  "compress_field_file example_backend ''f'' (Some [0]) (Map.empty(''f'' \<mapsto> utf8_file 1 [0, 0, 0, 0])) =
     compress_field_file example_backend ''f'' (Some [0]) (Map.empty(''f'' \<mapsto> utf8_file 1 [1, 0, 0, 0])) \<and>
   utf8_file 1 [0, 0, 0, 0] \<noteq> utf8_file 1 [1, 0, 0, 0]"
  using compress_utf8_loses_keys[OF example_backend_sane, of 1 "[0, 0, 0, 0]" "[1, 0, 0, 0]" "''f''" Map.empty]
  by (simp add: utf8_file_def)

subsection \<open>Created files\<close>

lemma created_holds:
  assumes "fs p = None" "col_ok col" "column_length col \<le> 2 ^ 26"
    and "co_compression opts \<noteq> CNone \<Longrightarrow> backend_sane B (co_compression opts)"
    and "compute_chunk_boundaries (column_length col) (co_chunk_offsets opts) = Ok rs"
  shows "\<exists>bs. create_field_file B p (col_data_type col) (FI_Data col) opts fs = (Ok (), fs(p \<mapsto> bs)) \<and>
    field_holds B bs (col_data_type col) (col_cells col)"
proof (cases "co_compression opts = CNone")
  case True
  have "column_length col \<le> u32_max" using assms(3) by simp
  from plain_data_created[where fs = fs and p = p, OF assms(1,2) this, of B] show ?thesis
    using assms(1) True by (auto simp: create_field_file_def io_exists_def io_bind_def)
next
  case False
  have "col_data_type col \<noteq> Utf8" using assms(2) by (simp add: col_ok_def)
  with chunked_data_created[where fs = fs and p = p, OF assms(4)[OF False] False assms(1-3) boundaries_tile[OF assms(5)]] show ?thesis
    using assms(1,5) False by (auto simp: create_field_file_def create_field_file_chunked_def io_exists_def io_bind_def io_lift_def)
qed

text \<open>C23. A column that is created as a field file, compressed or not, with any accepted chunk offsets,
  is what every later open of the file reads: in every mode and for every range of rows.\<close>

theorem created_field_reads_back:
  assumes "fs p = None" "col_ok col" "column_length col \<le> 2 ^ 26"
    and "co_compression opts \<noteq> CNone \<Longrightarrow> backend_sane B (co_compression opts)"
    and "compute_chunk_boundaries (column_length col) (co_chunk_offsets opts) = Ok rs"
  shows "\<exists>fs'. create_field_file B p (col_data_type col) (FI_Data col) opts fs = (Ok (), fs') \<and>
    (\<forall>q. q \<noteq> p \<longrightarrow> fs' q = fs q) \<and>
    (\<forall>m offset len. offset + len \<le> column_length col \<longrightarrow>
      (\<exists>h v. open_field_file B p m fs' = (Ok h, fs') \<and> read_field_handle h offset len = Ok v \<and>
         cv_data_type v = col_data_type col \<and> view_cells v = slice offset (offset + len) (col_cells col)))"
proof -
  obtain bs where bs: "create_field_file B p (col_data_type col) (FI_Data col) opts fs = (Ok (), fs(p \<mapsto> bs))"
    "field_holds B bs (col_data_type col) (col_cells col)" using created_holds[where fs = fs and p = p, OF assms] by blast
  have "\<exists>h v. open_field_file B p m (fs(p \<mapsto> bs)) = (Ok h, fs(p \<mapsto> bs)) \<and> read_field_handle h offset len = Ok v \<and>
      cv_data_type v = col_data_type col \<and> view_cells v = slice offset (offset + len) (col_cells col)"
    if "offset + len \<le> column_length col" for m offset len
    using field_holds_read[OF bs(2), of "fs(p \<mapsto> bs)" p offset len m] that by (auto simp: col_cells_def)
  then show ?thesis using bs(1) by (intro exI[of _ "fs(p \<mapsto> bs)"]) simp
qed

theorem created_field_reads_back_witness:
  "\<exists>fs' h v. create_field_file example_backend ''f'' Int8
       (FI_Data \<lparr>col_data_type = Int8, col_values = [5, 6, 7], col_validity = Some (\<lparr>bm_data = [0x05], bm_bit_offset = 0, bm_len = 3\<rparr>),
          col_dict = None\<rparr>) \<lparr>co_compression = Zstd, co_chunk_offsets = Some [0, 2]\<rparr> Map.empty = (Ok (), fs') \<and>
     open_field_file example_backend ''f'' Write fs' = (Ok h, fs') \<and> read_field_handle h 1 2 = Ok v \<and>
     view_cells v = [(False, CBytes [6]), (True, CBytes [7])]"
proof -
  let ?col = "\<lparr>col_data_type = Int8, col_values = [5, 6, 7], col_validity = Some (\<lparr>bm_data = [0x05], bm_bit_offset = 0, bm_len = 3\<rparr>),
          col_dict = None\<rparr>"
  let ?o = "\<lparr>co_compression = Zstd, co_chunk_offsets = Some [0, 2]\<rparr>"
  have l: "column_length ?col = 3" by code_simp
  have ok: "col_ok ?col" using l by (simp add: col_ok_def validity_size_def)
  have b: "compute_chunk_boundaries (column_length ?col) (co_chunk_offsets ?o) = Ok [(0, 2), (2, 3)]"
    unfolding l by code_simp
  have sm: "column_length ?col \<le> 2 ^ 26" by (simp only: l) simp
  have "co_compression ?o \<noteq> CNone \<Longrightarrow> backend_sane example_backend (co_compression ?o)" using example_backend_sane by simp
  from created_field_reads_back[of Map.empty "''f''" ?col ?o example_backend, OF _ ok sm this b]
  obtain fs' where fs': "create_field_file example_backend ''f'' Int8 (FI_Data ?col) ?o Map.empty = (Ok (), fs')" and
    all: "\<forall>m offset len. offset + len \<le> 3 \<longrightarrow>
      (\<exists>h v. open_field_file example_backend ''f'' m fs' = (Ok h, fs') \<and> read_field_handle h offset len = Ok v \<and>
         cv_data_type v = Int8 \<and> view_cells v = slice offset (offset + len) (col_cells ?col))"
    unfolding l by auto
  have c: "slice 1 (1 + 2) (col_cells ?col) = [(False, CBytes [6]), (True, CBytes [7])]" by code_simp
  have "(1::nat) + 2 \<le> 3" by simp
  from all[rule_format, OF this, of Write] show ?thesis using fs' unfolding c by blast
qed

end
