(* ===== verification/Dataset_Handle.thy ===== *)
theory Dataset_Handle
  imports Field_Compress Index_Scan "HOL-Library.AList"
begin

text \<open>
  The open dataset (\<open>DatasetHandle\<close> of \<open>splayed-core/src/dataset.rs\<close>): the index, the schema and a
  cache of field handles that are opened on demand, and reading a row range of several columns. An
  operation takes and returns the handle and the files; the handle is returned on an error too, since
  the cache keeps what was opened before it. The cache is an association list: \<open>HashMap\<close> iterates in no
  fixed order, and the order of the list stands for any.
\<close>

subsection \<open>Names and paths\<close>

definition META_FILE_NAME :: string where "META_FILE_NAME = ''.meta''"
definition RESERVED_FIELD_NAMES :: "string list" where "RESERVED_FIELD_NAMES = [''sym'', ''time'']"

definition is_reserved :: "string \<Rightarrow> bool" where
  "is_reserved name \<longleftrightarrow> name \<in> set RESERVED_FIELD_NAMES"

definition validate_field_name :: "string \<Rightarrow> (core_error, unit) res" where
  "validate_field_name name =
     guard (\<not> (name = [] \<or> hd name = CHR ''.'' \<or> CHR ''/'' \<in> set name \<or> CHR 0x5C \<in> set name \<or> is_reserved name))
       (Invalid ''invalid field name'')"

text \<open>\<open>root.join(name.replace('.', "/"))\<close>, for a name that does not start with a dot.\<close>

definition dots_to_slashes :: "string \<Rightarrow> string" where
  "dots_to_slashes = map (\<lambda>c. if c = CHR ''.'' then CHR ''/'' else c)"

definition path_join :: "string \<Rightarrow> string \<Rightarrow> string" where
  "path_join root p = root @ CHR ''/'' # p"

subsection \<open>The state\<close>

record dataset_handle =
  ds_root :: string
  ds_meta :: meta_handle
  ds_schema :: schema
  ds_mode :: mode
  ds_fields :: "(string \<times> field_handle) list"
  ds_max_parallelism :: nat

definition field_path :: "dataset_handle \<Rightarrow> string \<Rightarrow> string" where
  "field_path d name = path_join (ds_root d) (dots_to_slashes name)"

definition logical_length :: "dataset_handle \<Rightarrow> nat" where
  "logical_length d = row_total (ds_meta d)"

definition set_max_parallelism :: "nat \<Rightarrow> dataset_handle \<Rightarrow> dataset_handle" where
  "set_max_parallelism k d = d\<lparr>ds_max_parallelism := max k 1\<rparr>"

type_synonym 'a ds = "dataset_handle \<times> files \<Rightarrow> (core_error, 'a) res \<times> dataset_handle \<times> files"

definition ds_ret :: "'a \<Rightarrow> 'a ds" where
  "ds_ret x = (\<lambda>s. (Ok x, s))"

definition ds_lift :: "(core_error, 'a) res \<Rightarrow> 'a ds" where
  "ds_lift r = (\<lambda>s. (r, s))"

definition ds_get :: "(dataset_handle \<Rightarrow> 'a) \<Rightarrow> 'a ds" where
  "ds_get f = (\<lambda>(d, fs). (Ok (f d), d, fs))"

definition ds_modify :: "(dataset_handle \<Rightarrow> dataset_handle) \<Rightarrow> unit ds" where
  "ds_modify f = (\<lambda>(d, fs). (Ok (), f d, fs))"

definition ds_io :: "'a io \<Rightarrow> 'a ds" where
  "ds_io m = (\<lambda>(d, fs). case m fs of (r, fs') \<Rightarrow> (r, d, fs'))"

definition ds_bind :: "'a ds \<Rightarrow> ('a \<Rightarrow> 'b ds) \<Rightarrow> 'b ds" where
  "ds_bind m f = (\<lambda>s. case m s of
      (Ok x, s') \<Rightarrow> f x s'
    | (Err e, s') \<Rightarrow> (Err e, s')
    | (Panic, s') \<Rightarrow> (Panic, s'))"

fun ds_each :: "('a \<Rightarrow> unit ds) \<Rightarrow> 'a list \<Rightarrow> unit ds" where
  "ds_each f [] = ds_ret ()"
| "ds_each f (x # xs) = ds_bind (f x) (\<lambda>_. ds_each f xs)"

subsection \<open>The cache of field handles\<close>

definition cache_insert :: "string \<Rightarrow> field_handle \<Rightarrow> dataset_handle \<Rightarrow> dataset_handle" where
  "cache_insert name h d = d\<lparr>ds_fields := AList.update name h (ds_fields d)\<rparr>"

definition cache_remove :: "string \<Rightarrow> dataset_handle \<Rightarrow> dataset_handle" where
  "cache_remove name d = d\<lparr>ds_fields := AList.delete name (ds_fields d)\<rparr>"

definition ensure_field :: "codec_backend \<Rightarrow> string \<Rightarrow> unit ds" where
  "ensure_field B name =
     ds_bind (ds_get (\<lambda>d. d)) (\<lambda>d.
       if map_of (ds_fields d) name = None
       then ds_bind (ds_io (open_field_file B (field_path d name) (ds_mode d))) (\<lambda>h. ds_modify (cache_insert name h))
       else ds_ret ())"

definition cached_handle :: "dataset_handle \<Rightarrow> string \<Rightarrow> (core_error, field_handle) res" where
  "cached_handle d name = ok_or (map_of (ds_fields d) name) (NotFound name)"

subsection \<open>Reading\<close>

record dataset_statistics =
  st_row_count :: nat
  st_sym_count :: nat
  st_sym_min :: "bytes option"
  st_sym_max :: "bytes option"
  st_time_count :: nat
  st_time_min :: int
  st_time_max :: int

text \<open>\<open>cond.then(|| m).transpose()\<close>.\<close>

definition then_transpose :: "bool \<Rightarrow> ('e, 'a) res \<Rightarrow> ('e, 'a option) res" where
  "then_transpose b m = (if b then rbind m (\<lambda>x. Ok (Some x)) else Ok None)"

definition read_dataset_statistics :: "dataset_handle \<Rightarrow> (core_error, dataset_statistics) res" where
  "read_dataset_statistics d =
     (let h = ds_meta d; syms = sym_total h; times = time_total h;
          as_i64 = (\<lambda>t :: u64 option. sint (case t of None \<Rightarrow> 0 | Some w \<Rightarrow> w))
      in rbind (then_transpose (0 < syms) (sym_str h 0)) (\<lambda>sym_min.
         rbind (then_transpose (0 < syms) (sym_str h (syms - 1))) (\<lambda>sym_max.
         rbind (then_transpose (0 < times) (time_at h 0)) (\<lambda>time_min.
         rbind (then_transpose (0 < times) (time_at h (times - 1))) (\<lambda>time_max.
           Ok \<lparr>st_row_count = row_total h, st_sym_count = syms, st_sym_min = sym_min, st_sym_max = sym_max,
               st_time_count = times, st_time_min = as_i64 time_min, st_time_max = as_i64 time_max\<rparr>)))))"

text \<open>The projection: reserved names are skipped, repeated names taken once.\<close>

fun request_columns :: "schema \<Rightarrow> string list \<Rightarrow> string list \<Rightarrow> (core_error, string list) res" where
  "request_columns s req [] = Ok req"
| "request_columns s req (c # cs) =
     (if is_reserved c then request_columns s req cs
      else if schema_position s c = None then Err (Invalid ''unknown field'')
      else request_columns s (if c \<in> set req then req else req @ [c]) cs)"

text \<open>One thread opens each missing field; the threads only read files, and their results are taken in
  the order of the names. After an error the scope joins the other threads, and panics if one of them did.\<close>

fun open_each :: "codec_backend \<Rightarrow> dataset_handle \<Rightarrow> string list \<Rightarrow> (string \<times> field_handle) list io" where
  "open_each B d [] = io_ret []"
| "open_each B d (name # names) = (\<lambda>fs.
     case open_field_file B (field_path d name) (ds_mode d) fs of
       (Ok h, fs1) \<Rightarrow> io_bind (open_each B d names) (\<lambda>hs. io_ret ((name, h) # hs)) fs1
     | (Err e, fs1) \<Rightarrow>
         (if list_ex (\<lambda>n. is_panic (fst (open_field_file B (field_path d n) (ds_mode d) fs1))) names then Panic else Err e, fs1)
     | (Panic, fs1) \<Rightarrow> (Panic, fs1))"

definition open_missing :: "codec_backend \<Rightarrow> string list \<Rightarrow> unit ds" where
  "open_missing B req =
     ds_bind (ds_get (\<lambda>d. d)) (\<lambda>d.
     let missing = filter (\<lambda>name. map_of (ds_fields d) name = None) req
     in if 1 < length missing
        then ds_bind (ds_io (open_each B d missing)) (ds_each (\<lambda>(name, h). ds_modify (cache_insert name h)))
        else case missing of [] \<Rightarrow> ds_ret () | name # _ \<Rightarrow> ensure_field B name)"

fun read_each ::
  "dataset_handle \<Rightarrow> nat \<Rightarrow> nat \<Rightarrow> string list \<Rightarrow> (core_error, (field_schema \<times> column_view) list) res" where
  "read_each d offset len [] = Ok []"
| "read_each d offset len (name # names) =
     rbind (cached_handle d name) (\<lambda>h.
     rbind (read_field_handle h offset len) (\<lambda>v.
     rbind (fd_data_type h) (\<lambda>dt.
     rbind (read_each d offset len names) (\<lambda>rest. Ok ((\<lparr>fs_name = name, fs_type = dt\<rparr>, v) # rest)))))"

definition read_dataset :: "codec_backend \<Rightarrow> nat \<Rightarrow> nat \<Rightarrow> string list option \<Rightarrow> data_view ds" where
  "read_dataset B offset len columns =
     ds_bind (ds_get (\<lambda>d. d)) (\<lambda>d0.
     if u64_max < offset + len \<or> logical_length d0 < offset + len
     then ds_lift (Err (Invalid ''read range exceeds dataset length''))
     else ds_bind (ds_lift (request_columns (ds_schema d0) [] (case columns of None \<Rightarrow> [] | Some cs \<Rightarrow> cs))) (\<lambda>req.
     ds_bind (open_missing B req) (\<lambda>_.
     ds_bind (ds_lift (read_index_handle (ds_meta d0) offset len)) (\<lambda>base.
     ds_bind (ds_get (\<lambda>d. d)) (\<lambda>d.
     ds_bind (ds_lift (read_each d offset len req)) (\<lambda>cols.
       ds_lift (fmt_err (data_view_new (dv_schema base @ map fst cols) (dv_columns base @ map snd cols)))))))))"

subsection \<open>Closing\<close>

text \<open>Handles are closed in the order of the cache; the first failure leaves the others unclosed.\<close>

definition close_dataset :: "codec_backend \<Rightarrow> dataset_handle \<Rightarrow> unit io" where
  "close_dataset B d = io_each (\<lambda>(_, h). close_field_handle B h) (ds_fields d)"


subsection \<open>Evaluation\<close>

named_theorems ds_simps \<open>evaluation of dataset operations\<close>

lemma ds_evals [ds_simps]:
  "ds_ret x s = (Ok x, s)" "ds_lift r s = (r, s)" "ds_get f (d, fs) = (Ok (f d), d, fs)"
  "ds_modify g (d, fs) = (Ok (), g d, fs)"
  by (simp_all add: ds_ret_def ds_lift_def ds_get_def ds_modify_def)

lemma ds_io_app [ds_simps]: "m fs = (r, fs') \<Longrightarrow> ds_io m (d, fs) = (r, d, fs')"
  by (simp add: ds_io_def)

lemma ds_bind_Ok [ds_simps]: "m s = (Ok x, s') \<Longrightarrow> ds_bind m f s = f x s'"
  by (simp add: ds_bind_def)

lemma ds_bind_simps [ds_simps]:
  "ds_bind (ds_ret x) f = f x" "ds_bind (ds_lift (Ok x)) f = f x" "ds_bind (ds_get g) f (d, fs) = f (g d) (d, fs)"
  by (simp_all add: ds_bind_def ds_ret_def ds_lift_def ds_get_def)

subsection \<open>What the fields of a dataset show\<close>

definition handle_shows :: "field_handle \<Rightarrow> data_type \<Rightarrow> (bool \<times> cell_value) list \<Rightarrow> bool" where
  "handle_shows h dt cells \<longleftrightarrow>
     (\<exists>src. fd_ok h src \<and> src_type src = dt \<and> fd_row_count h = length cells \<and> source_cells src (length cells) = cells)"

text \<open>Through its cached handle, or else through its file; with what later writes need.\<close>

definition field_shows ::
  "codec_backend \<Rightarrow> files \<Rightarrow> dataset_handle \<Rightarrow> string \<Rightarrow> data_type \<Rightarrow> (bool \<times> cell_value) list \<Rightarrow> bool" where
  "field_shows B fs d name dt cells \<longleftrightarrow>
     (case map_of (ds_fields d) name of
        Some h \<Rightarrow> fd_path h = field_path d name \<and> handle_shows h dt cells \<and> (ds_mode d = Write \<longrightarrow> fd_live fs h dt)
      | None \<Rightarrow> (\<exists>h. open_field_file B (field_path d name) (ds_mode d) fs = (Ok h, fs) \<and> fd_path h = field_path d name \<and>
           handle_shows h dt cells \<and> (ds_mode d = Write \<longrightarrow> fd_live fs h dt)))"

text \<open>A file with a body that opens for writing gives a live handle.\<close>

lemma open_backing:
  assumes "open_field_file B p md fs = (Ok h, fs')"
  shows "\<exists>bs. fs p = Some bs \<and> HEADER_SIZE \<le> length bs \<and> fd_backing h = (case md of Read \<Rightarrow> BMmap bs | Write \<Rightarrow> BMmapMut bs)"
proof -
  obtain bs header rs work where bs: "fs p = Some bs" "HEADER_SIZE \<le> length bs"
    "field_header_from_bytes (take HEADER_SIZE bs) = Ok header" "open_parts B bs header = Ok (rs, work)"
    using open_Ok[OF assms] by blast
  then have "io_read_exact p HEADER_SIZE fs = (Ok (take HEADER_SIZE bs), fs)" "io_read p fs = (Ok bs, fs)"
    by (simp_all add: io_read_exact_def io_bind_def io_lift_def io_read_def file_open_def)
  then have "fd_backing h = (case md of Read \<Rightarrow> BMmap bs | Write \<Rightarrow> BMmapMut bs)"
    using assms bs(3,4)
    by (cases work)
       (auto simp: open_field_file_def io_simps io_lift_bind io_bind_def io_ret_def io_lift_def
         split: res.splits option.splits if_splits)
  then show ?thesis using bs(1,2) by blast
qed

lemma open_live:
  assumes op: "open_field_file B p Write fs = (Ok h, fs')" and ok: "fd_ok h src"
    and body: "\<forall>bs. fs p = Some bs \<longrightarrow> length bs \<noteq> HEADER_SIZE"
  shows "fd_live fs h (src_type src)"
proof -
  obtain bs where bs: "fs p = Some bs" "HEADER_SIZE \<le> length bs" "fd_backing h = BMmapMut bs"
    using open_backing[OF op] by auto
  obtain header rs work k where o: "fd_path h = p" "fd_mode h = Write" "open_parts B bs header = Ok (rs, work)"
    "fd_header h = header\<lparr>fh_null_count := k\<rparr>" "fd_working h = work"
    using open_Ok[OF op] bs(1) by auto
  have "fd_is_chunked h \<or> fd_working h = None \<and> plain_fits (fd_header h) (src_type src) bs"
  proof (cases "fd_is_chunked h")
    case False
    then have nc: "\<not> is_chunked header" using o(4) by (simp add: fd_is_chunked_def is_chunked_def)
    then have w: "fd_working h = None"
      using o(3,5) body bs(1) by (auto simp: open_parts_def Let_def split: if_splits)
    have dt: "fd_data_type h = (Ok (src_type src) :: (core_error, _) res)" using fd_ok_type[OF ok] .
    obtain data val where us: "uncompressed_slices h = Ok (data, val)" "src_values src = data"
      using ok False by (auto simp: fd_ok_def scan_source_of_def res_simps split: if_splits)
    have l: "length data = fd_row_count h * size_of (src_type src)" using ok us(2) by (simp add: fd_ok_def)
    have fit: "HEADER_SIZE + unat (fh_data_length (fd_header h)) + field_validity_size (fd_header h) \<le> length bs"
      "data = slice HEADER_SIZE (HEADER_SIZE + unat (fh_data_length (fd_header h))) bs"
      using us(1) w bs(3) by (auto simp: uncompressed_slices_def Let_def truncated_def split: if_splits)
    then have "length data = unat (fh_data_length (fd_header h))" by simp
    then show ?thesis
      using w l fit(1) dt False by (simp add: plain_fits_def fd_row_count_def fd_is_chunked_def fd_data_type_def field_data_type_def res_simps)
  qed simp
  then show ?thesis using bs o(1,2) by (auto simp: fd_live_def)
qed

text \<open>A later state of the handle in which more fields are open.\<close>

definition opened_more :: "codec_backend \<Rightarrow> files \<Rightarrow> dataset_handle \<Rightarrow> dataset_handle \<Rightarrow> bool" where
  "opened_more B fs d d' \<longleftrightarrow> d' = d\<lparr>ds_fields := ds_fields d'\<rparr> \<and>
     (\<forall>name. map_of (ds_fields d') name = map_of (ds_fields d) name \<or>
        map_of (ds_fields d) name = None \<and>
        (\<exists>h. map_of (ds_fields d') name = Some h \<and> open_field_file B (field_path d name) (ds_mode d) fs = (Ok h, fs)))"

lemma opened_more_same: "opened_more B fs d d' \<Longrightarrow> ds_root d' = ds_root d \<and> ds_meta d' = ds_meta d \<and>
    ds_schema d' = ds_schema d \<and> ds_mode d' = ds_mode d \<and> field_path d' = field_path d"
proof -
  assume "opened_more B fs d d'"
  then obtain x where x: "d' = d\<lparr>ds_fields := x\<rparr>" unfolding opened_more_def by blast
  show ?thesis unfolding x by (simp add: field_path_def fun_eq_iff)
qed

lemma opened_more_refl: "opened_more B fs d d"
  by (simp add: opened_more_def)

lemma opened_more_trans:
  assumes "opened_more B fs d d'" "opened_more B fs d' d''"
  shows "opened_more B fs d d''"
proof -
  have e: "d'' = d'\<lparr>ds_fields := ds_fields d''\<rparr>" "d' = d\<lparr>ds_fields := ds_fields d'\<rparr>"
    using assms unfolding opened_more_def by blast+
  have "d'' = d\<lparr>ds_fields := ds_fields d''\<rparr>" by (subst e(1), subst e(2)) simp
  then show ?thesis
    using assms opened_more_same[OF assms(1)] unfolding opened_more_def by metis
qed

lemma opened_more_shows:
  assumes "opened_more B fs d d'" "field_shows B fs d name dt cells"
  shows "field_shows B fs d' name dt cells"
proof -
  note e = opened_more_same[OF assms(1)]
  consider "map_of (ds_fields d') name = map_of (ds_fields d) name" |
    h where "map_of (ds_fields d) name = None" "map_of (ds_fields d') name = Some h"
      "open_field_file B (field_path d name) (ds_mode d) fs = (Ok h, fs)"
    using assms(1) unfolding opened_more_def by blast
  then show ?thesis
  proof cases
    case 1
    then show ?thesis using assms(2) by (simp only: field_shows_def e)
  next
    case 2
    then show ?thesis using assms(2) by (simp add: field_shows_def e)
  qed
qed

lemma cache_insert_simps [simp]:
  "map_of (ds_fields (cache_insert name h d)) name' = (if name' = name then Some h else map_of (ds_fields d) name')"
  "ds_mode (cache_insert name h d) = ds_mode d" "ds_root (cache_insert name h d) = ds_root d"
  "ds_meta (cache_insert name h d) = ds_meta d" "ds_schema (cache_insert name h d) = ds_schema d"
  "field_path (cache_insert name h d) = field_path d"
  by (simp_all add: cache_insert_def update_conv' field_path_def fun_eq_iff)

lemma insert_opened_more:
  assumes "map_of (ds_fields d) name = None" "open_field_file B (field_path d name) (ds_mode d) fs = (Ok h, fs)"
  shows "opened_more B fs d (cache_insert name h d)"
  using assms by (simp add: opened_more_def) (simp add: cache_insert_def)

lemma ensure_field_eq:
  assumes "field_shows B fs d name dt cells"
  shows "\<exists>d' h. ensure_field B name (d, fs) = (Ok (), d', fs) \<and> opened_more B fs d d' \<and> map_of (ds_fields d') name = Some h \<and>
    fd_path h = field_path d name \<and> d' = (if map_of (ds_fields d) name = None then cache_insert name h d else d)"
proof (cases "map_of (ds_fields d) name")
  case None
  then obtain h where h: "open_field_file B (field_path d name) (ds_mode d) fs = (Ok h, fs)" "fd_path h = field_path d name"
    using assms by (auto simp: field_shows_def)
  have "ensure_field B name (d, fs) = (Ok (), cache_insert name h d, fs)"
    using None h(1) by (simp add: ensure_field_def ds_bind_def ds_get_def ds_io_def ds_modify_def)
  then show ?thesis using insert_opened_more[OF None h(1)] h(2) None
    by (intro exI[of _ "cache_insert name h d"] exI[of _ h]) simp
next
  case (Some h)
  then show ?thesis using opened_more_refl assms by (simp add: ensure_field_def ds_simps field_shows_def)
qed

lemma open_each_eq:
  assumes "\<forall>name \<in> set names. map_of (ds_fields d) name = None \<and> (\<exists>dt cells. field_shows B fs d name dt cells)"
  shows "\<exists>hs. open_each B d names fs = (Ok hs, fs) \<and> map fst hs = names \<and>
    (\<forall>(name, h) \<in> set hs. open_field_file B (field_path d name) (ds_mode d) fs = (Ok h, fs))"
  using assms
proof (induction names)
  case (Cons name names)
  obtain h where h: "open_field_file B (field_path d name) (ds_mode d) fs = (Ok h, fs)"
    using Cons.prems by (auto simp: field_shows_def)
  obtain hs where hs: "open_each B d names fs = (Ok hs, fs)" "map fst hs = names"
    "\<forall>(name, h) \<in> set hs. open_field_file B (field_path d name) (ds_mode d) fs = (Ok h, fs)"
    using Cons by auto
  have "open_each B d (name # names) fs = (Ok ((name, h) # hs), fs)"
    using h hs(1) by (simp add: io_bind_def io_ret_def)
  then show ?case using h hs(2,3) by (intro exI[of _ "(name, h) # hs"]) simp
qed (simp add: io_simps)

lemma insert_each_eq:
  assumes "distinct (map fst hs)" "\<forall>(name, h) \<in> set hs. map_of (ds_fields d) name = None \<and>
    open_field_file B (field_path d name) (ds_mode d) fs = (Ok h, fs)"
  shows "\<exists>d'. ds_each (\<lambda>(name, h). ds_modify (cache_insert name h)) hs (d, fs) = (Ok (), d', fs) \<and>
    opened_more B fs d d' \<and> (\<forall>name \<in> fst ` set hs. map_of (ds_fields d') name \<noteq> None)"
  using assms
proof (induction hs arbitrary: d)
  case Nil
  then show ?case using opened_more_refl by (simp add: ds_simps)
next
  case (Cons nh hs)
  obtain name h where nh: "nh = (name, h)" by (cases nh)
  let ?d = "cache_insert name h d"
  have h: "map_of (ds_fields d) name = None" "open_field_file B (field_path d name) (ds_mode d) fs = (Ok h, fs)"
    using Cons.prems(2) nh by simp_all
  have m: "opened_more B fs d ?d" using insert_opened_more[OF h] .
  have "\<forall>(name', h') \<in> set hs. map_of (ds_fields ?d) name' = None \<and>
      open_field_file B (field_path ?d name') (ds_mode ?d) fs = (Ok h', fs)"
  proof -
    have "name' \<noteq> name \<and> map_of (ds_fields d) name' = None \<and>
        open_field_file B (field_path d name') (ds_mode d) fs = (Ok h', fs)" if "(name', h') \<in> set hs" for name' h'
      using Cons.prems nh that by force
    then show ?thesis by auto
  qed
  with Cons.IH[of ?d] Cons.prems(1) nh obtain d' where d':
    "ds_each (\<lambda>(name, h). ds_modify (cache_insert name h)) hs (?d, fs) = (Ok (), d', fs)"
    "opened_more B fs ?d d'" "\<forall>name \<in> fst ` set hs. map_of (ds_fields d') name \<noteq> None" by auto
  have "map_of (ds_fields ?d) name = Some h" by simp
  then have "map_of (ds_fields d') name \<noteq> None" using d'(2) unfolding opened_more_def by (metis option.distinct(1))
  then show ?case
    using d' nh opened_more_trans[OF m d'(2)] by (intro exI[of _ d']) (simp add: ds_simps)
qed

lemma open_missing_eq:
  assumes "distinct req" "\<forall>name \<in> set req. \<exists>dt cells. field_shows B fs d name dt cells"
  shows "\<exists>d'. open_missing B req (d, fs) = (Ok (), d', fs) \<and> opened_more B fs d d' \<and>
    (\<forall>name \<in> set req. map_of (ds_fields d') name \<noteq> None)"
proof -
  define missing where "missing = filter (\<lambda>name. map_of (ds_fields d) name = None) req"
  have mono: "map_of (ds_fields d') name \<noteq> None"
    if "opened_more B fs d d'" "name \<in> set req" "name \<in> set missing \<longrightarrow> map_of (ds_fields d') name \<noteq> None" for d' name
  proof (cases "map_of (ds_fields d) name")
    case None
    then show ?thesis using that by (simp add: missing_def)
  next
    case (Some h)
    then show ?thesis using that(1) unfolding opened_more_def by (metis option.distinct(1))
  qed
  have start: "open_missing B req (d, fs) =
      (if 1 < length missing
       then ds_bind (ds_io (open_each B d missing)) (ds_each (\<lambda>(name, h). ds_modify (cache_insert name h))) (d, fs)
       else (case missing of [] \<Rightarrow> ds_ret () | name # _ \<Rightarrow> ensure_field B name) (d, fs))"
    by (simp add: open_missing_def ds_simps missing_def Let_def)
  show ?thesis
  proof (cases "1 < length missing")
    case True
    obtain hs where hs: "open_each B d missing fs = (Ok hs, fs)" "map fst hs = missing"
      "\<forall>(name, h) \<in> set hs. open_field_file B (field_path d name) (ds_mode d) fs = (Ok h, fs)"
      using open_each_eq[of missing d B fs] assms(2) by (auto simp: missing_def)
    have di: "distinct (map fst hs)" using assms(1) unfolding hs(2) missing_def by simp
    have "map_of (ds_fields d) name = None" if "name \<in> set missing" for name using that by (simp add: missing_def)
    then have "\<forall>(name, h) \<in> set hs. map_of (ds_fields d) name = None \<and>
        open_field_file B (field_path d name) (ds_mode d) fs = (Ok h, fs)"
      using hs(2,3) by force
    from insert_each_eq[OF di this] obtain d' where d':
      "ds_each (\<lambda>(name, h). ds_modify (cache_insert name h)) hs (d, fs) = (Ok (), d', fs)"
      "opened_more B fs d d'" "\<forall>name \<in> fst ` set hs. map_of (ds_fields d') name \<noteq> None" by blast
    have "fst ` set hs = set missing" using hs(2) by (metis set_map)
    then show ?thesis
      using True d' hs(1) mono[OF d'(2)] by (intro exI[of _ d']) (simp add: start ds_bind_def ds_io_def)
  next
    case False
    show ?thesis
    proof (cases missing)
      case Nil
      then show ?thesis using opened_more_refl mono[OF opened_more_refl] by (simp add: start ds_simps)
    next
      case (Cons name rest)
      then have r: "missing = [name]" using False by simp
      have "name \<in> set missing" using r by simp
      then have "name \<in> set req" by (simp add: missing_def)
      then obtain dt cells where "field_shows B fs d name dt cells" using assms(2) by blast
      from ensure_field_eq[OF this] obtain d' h where d': "ensure_field B name (d, fs) = (Ok (), d', fs)"
        "opened_more B fs d d'" "map_of (ds_fields d') name = Some h" by blast
      then show ?thesis using r mono[OF d'(2)] by (intro exI[of _ d']) (simp add: start)
    qed
  qed
qed

subsection \<open>Reading\<close>

text \<open>The names a projection asks for: each once, in the order of the first mention.\<close>

definition projected :: "string list \<Rightarrow> string list" where
  "projected cs = rev (remdups (rev (filter (\<lambda>c. \<not> is_reserved c) cs)))"

lemma projected_simps:
  "projected [] = []" "projected (cs @ [c]) = (if is_reserved c \<or> c \<in> set (projected cs) then projected cs else projected cs @ [c])"
  "distinct (projected cs)" "set (projected cs) = {c \<in> set cs. \<not> is_reserved c}"
  by (auto simp: projected_def)

lemma request_columns_append:
  "request_columns s req (xs @ ys) = rbind (request_columns s req xs) (\<lambda>req'. request_columns s req' ys)"
  by (induction s req xs rule: request_columns.induct) auto

lemma request_columns_eq:
  "\<forall>c \<in> set cs. is_reserved c \<or> schema_position s c \<noteq> None \<Longrightarrow> request_columns s [] cs = Ok (projected cs)"
  by (induction cs rule: rev_induct) (auto simp: request_columns_append projected_simps)

lemma read_each_eq:
  assumes "\<forall>c \<in> set cs. map_of (ds_fields d) c \<noteq> None \<and> field_shows B fs d c (dt c) (cells c) \<and> length (cells c) = n"
    and "offset + len \<le> n"
  shows "\<exists>vs. read_each d offset len cs = Ok (zip (map (\<lambda>c. \<lparr>fs_name = c, fs_type = dt c\<rparr>) cs) vs) \<and> length vs = length cs \<and>
    (\<forall>(c, v) \<in> set (zip cs vs). cv_length v = len \<and> cv_data_type v = dt c \<and>
       view_cells v = slice offset (offset + len) (cells c))"
  using assms(1)
proof (induction cs)
  case (Cons c cs)
  obtain h src where h: "map_of (ds_fields d) c = Some h" "fd_ok h src" "src_type src = dt c" "fd_row_count h = length (cells c)"
    "source_cells src (length (cells c)) = cells c"
    using Cons.prems by (auto simp: field_shows_def handle_shows_def)
  have b: "offset + len \<le> fd_row_count h" using h(4) Cons.prems assms(2) by simp
  obtain v where v: "read_field_handle h offset len = Ok v" "cv_length v = len" "cv_data_type v = dt c"
    "view_cells v = slice offset (offset + len) (cells c)"
    using read_eq[OF h(2) b] h(3-5) by auto
  have t: "fd_data_type h = (Ok (dt c) :: (core_error, _) res)" using fd_ok_type[OF h(2)] h(3) by simp
  obtain vs where "read_each d offset len cs = Ok (zip (map (\<lambda>c. \<lparr>fs_name = c, fs_type = dt c\<rparr>) cs) vs)" "length vs = length cs"
    "\<forall>(c, v) \<in> set (zip cs vs). cv_length v = len \<and> cv_data_type v = dt c \<and>
       view_cells v = slice offset (offset + len) (cells c)"
    using Cons by auto
  then show ?case using h(1) v t by (intro exI[of _ "v # vs"]) (simp add: cached_handle_def ok_or_def)
qed simp

text \<open>The time type and the row count of an index that was built.\<close>

lemma indexed_schema:
  assumes "indexed tt axis names recs n h"
  shows "read_index_schema h = [\<lparr>fs_name = ''sym'', fs_type = Utf8\<rparr>, \<lparr>fs_name = ''time'', fs_type = time_data_type tt\<rparr>]"
    "row_total h = n" "n \<le> u32_max"
  using opened_sections[OF indexed_simps(1)[OF assms]] indexed_simps[OF assms] by (simp_all add: read_index_schema_def)

text \<open>Its columns passed the checks of a view.\<close>

lemma read_index_view: "read_index_handle h offset len = Ok v \<Longrightarrow> data_view_new (dv_schema v) (dv_columns v) = Ok v"
proof -
  have *: "data_view_new s cs = Ok v \<Longrightarrow> data_view_new (dv_schema v) (dv_columns v) = Ok v" for s cs
    using data_view_new_Ok[of s cs v] by auto
  show "read_index_handle h offset len = Ok v \<Longrightarrow> data_view_new (dv_schema v) (dv_columns v) = Ok v"
    by (auto simp: read_index_handle_def Let_def res_simps intro: * split: if_splits)
qed

subsection \<open>Property\<close>

lemma read_dataset_shows:
  assumes "indexed tt axis names recs n (ds_meta d)" "0 < len" "offset + len \<le> n"
    and "\<forall>c \<in> set cs. is_reserved c \<or> schema_position (ds_schema d) c \<noteq> None"
    and "\<forall>c \<in> set (projected cs). field_shows B fs d c (dt c) (cells c) \<and> length (cells c) = n"
  shows "\<exists>d' sv tv vs. read_dataset B offset len (Some cs) (d, fs) =
      (Ok \<lparr>dv_schema = read_index_schema (ds_meta d) @ map (\<lambda>c. \<lparr>fs_name = c, fs_type = dt c\<rparr>) (projected cs),
           dv_columns = sv # tv # vs, dv_length = len\<rparr>, d', fs) \<and>
    column_view_ok sv \<and> cv_length sv = len \<and>
    view_cells sv = map (sym_cell names) (slice offset (offset + len) (grid_from 0 recs)) \<and>
    view_cells tv = map (time_cell tt axis) (slice offset (offset + len) (grid_from 0 recs)) \<and>
    map view_cells vs = map (\<lambda>c. slice offset (offset + len) (cells c)) (projected cs) \<and>
    (\<forall>c ty cl. field_shows B fs d c ty cl \<longrightarrow> field_shows B fs d' c ty cl)"
proof -
  let ?req = "projected cs"
  note ix = indexed_schema[OF assms(1)]
  have g: "\<not> (u64_max < offset + len \<or> logical_length d < offset + len)"
    using assms(3) ix(2,3) by (simp add: logical_length_def)
  obtain d' where d': "open_missing B ?req (d, fs) = (Ok (), d', fs)" "opened_more B fs d d'"
    "\<forall>name \<in> set ?req. map_of (ds_fields d') name \<noteq> None"
    using open_missing_eq[OF projected_simps(3)] assms(5) by blast
  have keep: "field_shows B fs d' c ty cl" if "field_shows B fs d c ty cl" for c ty cl
    using opened_more_shows[OF d'(2) that] .
  have "\<forall>c \<in> set ?req. map_of (ds_fields d') c \<noteq> None \<and> field_shows B fs d' c (dt c) (cells c) \<and> length (cells c) = n"
    using d'(3) keep assms(5) by blast
  from read_each_eq[OF this assms(3)] obtain vs where vs:
    "read_each d' offset len ?req = Ok (zip (map (\<lambda>c. \<lparr>fs_name = c, fs_type = dt c\<rparr>) ?req) vs)" "length vs = length ?req"
    "\<forall>(c, v) \<in> set (zip ?req vs). cv_length v = len \<and> cv_data_type v = dt c \<and> view_cells v = slice offset (offset + len) (cells c)"
    by blast
  obtain sv tv where base: "read_index_handle (ds_meta d) offset len =
      Ok \<lparr>dv_schema = read_index_schema (ds_meta d), dv_columns = [sv, tv], dv_length = len\<rparr>"
    "column_view_ok sv" "cv_length sv = len"
    "view_cells sv = map (sym_cell names) (slice offset (offset + len) (grid_from 0 recs))"
    "view_cells tv = map (time_cell tt axis) (slice offset (offset + len) (grid_from 0 recs))"
    using read_index_grid[OF assms(1-3)] by blast
  from read_index_view[OF base(1)] have ty: "cv_length tv = len" "cv_data_type sv = Utf8" "cv_data_type tv = time_data_type tt"
    using base(3) unfolding data_view_new_Ok ix(1) by auto
  let ?out = "\<lparr>dv_schema = read_index_schema (ds_meta d) @ map (\<lambda>c. \<lparr>fs_name = c, fs_type = dt c\<rparr>) ?req,
      dv_columns = sv # tv # vs, dv_length = len\<rparr>"
  have "\<forall>(f, v) \<in> set (zip (map (\<lambda>c. \<lparr>fs_name = c, fs_type = dt c\<rparr>) ?req) vs). cv_length v = len \<and> cv_data_type v = fs_type f"
    using vs(3) by (auto simp: zip_map1)
  then have "data_view_new (dv_schema ?out) (dv_columns ?out) = Ok ?out"
    using vs(2) base(3) ty ix(1) unfolding data_view_new_Ok by auto
  moreover have "map fst (zip (map (\<lambda>c. \<lparr>fs_name = c, fs_type = dt c\<rparr>) ?req) vs) = map (\<lambda>c. \<lparr>fs_name = c, fs_type = dt c\<rparr>) ?req"
    "map snd (zip (map (\<lambda>c. \<lparr>fs_name = c, fs_type = dt c\<rparr>) ?req) vs) = vs" using vs(2) by simp_all
  moreover have "ds_bind (open_missing B ?req) f (d, fs) = f () (d', fs)" for f :: "unit \<Rightarrow> data_view ds"
    by (simp add: ds_bind_def d'(1))
  ultimately have "read_dataset B offset len (Some cs) (d, fs) = (Ok ?out, d', fs)"
    using g base(1) opened_more_same[OF d'(2)]
    by (simp add: read_dataset_def ds_simps request_columns_eq[OF assms(4)] vs(1))
  moreover have "map view_cells vs = map (\<lambda>c. slice offset (offset + len) (cells c)) ?req"
  proof (rule nth_equalityI)
    show "length (map view_cells vs) = length (map (\<lambda>c. slice offset (offset + len) (cells c)) ?req)" using vs(2) by simp
    fix i assume "i < length (map view_cells vs)"
    then have i: "i < length ?req" "i < length vs" using vs(2) by simp_all
    then have "(?req ! i, vs ! i) \<in> set (zip ?req vs)" by (auto simp: in_set_zip)
    then show "map view_cells vs ! i = map (\<lambda>c. slice offset (offset + len) (cells c)) ?req ! i"
      using vs(3) i by auto
  qed
  ultimately show ?thesis using base(2-5) keep by blast
qed


text \<open>C26. Reading a row range of a dataset returns the symbol and time columns of the index and the
  requested fields, each once and in the order of the first mention, with the cells of those rows; fields
  that were not open are opened, which changes no file and nothing that any field shows.\<close>

theorem read_dataset_correct:
  assumes "indexed tt axis names recs n (ds_meta d)" "0 < len" "offset + len \<le> n"
    and "\<forall>c \<in> set cs. is_reserved c \<or> schema_position (ds_schema d) c \<noteq> None"
    and "\<forall>c \<in> set (projected cs). field_shows B fs d c (dt c) (cells c) \<and> length (cells c) = n"
  shows "\<exists>d' sv tv vs. read_dataset B offset len (Some cs) (d, fs) =
      (Ok \<lparr>dv_schema = read_index_schema (ds_meta d) @ map (\<lambda>c. \<lparr>fs_name = c, fs_type = dt c\<rparr>) (projected cs),
           dv_columns = sv # tv # vs, dv_length = len\<rparr>, d', fs) \<and>
    view_cells sv = map (sym_cell names) (slice offset (offset + len) (grid_from 0 recs)) \<and>
    view_cells tv = map (time_cell tt axis) (slice offset (offset + len) (grid_from 0 recs)) \<and>
    map view_cells vs = map (\<lambda>c. slice offset (offset + len) (cells c)) (projected cs) \<and>
    (\<forall>c ty cl. field_shows B fs d c ty cl \<longrightarrow> field_shows B fs d' c ty cl)"
  using read_dataset_shows[where fs = fs and B = B, OF assms] by blast

text \<open>A dataset of five rows with the uncompressed field \<open>v\<close>, not yet open.\<close>

definition example_field_image :: bytes where
  "example_field_image = field_header_to_bytes (field_header_new_uncompressed Int8 1 5 0 False) @ [5, 6, 7, 8, 9]"

definition example_dataset :: "meta_handle \<Rightarrow> mode \<Rightarrow> dataset_handle" where
  "example_dataset meta md = \<lparr>ds_root = ''r'', ds_meta = meta,
     ds_schema = [\<lparr>fs_name = ''sym'', fs_type = Utf8\<rparr>, \<lparr>fs_name = ''time'', fs_type = TimestampUs\<rparr>, \<lparr>fs_name = ''v'', fs_type = Int8\<rparr>],
     ds_mode = md, ds_fields = [], ds_max_parallelism = 2\<rparr>"

definition example_cells :: "(bool \<times> cell_value) list" where
  "example_cells = map (\<lambda>b. (True, CBytes [b])) [5, 6, 7, 8, 9]"

lemma example_field_shows:
  assumes "fs (field_path d name) = Some example_field_image" "ds_fields d = []"
  shows "field_shows B fs d name Int8 example_cells"
proof -
  let ?hdr = "field_header_new_uncompressed Int8 1 5 0 False"
  have c: "cells_of Int8 [5, 6, 7, 8, 9] (\<lambda>i. if has_validity ?hdr then get_bit [] i else True) 5 = example_cells" by code_simp
  have "field_holds B (field_header_to_bytes ?hdr @ [5, 6, 7, 8, 9] @ []) Int8 example_cells"
    unfolding c[symmetric]
    by (rule plain_holds) (simp_all add: field_data_type_def data_type_from_id_def new_uncompressed_data_length field_validity_size_def)
  then have "field_holds B example_field_image Int8 example_cells" by (simp add: example_field_image_def)
  then obtain h src where
    h: "open_field_file B (field_path d name) (ds_mode d) fs = (Ok h, fs)" "fd_ok h src" "src_type src = Int8"
      "fd_row_count h = length example_cells" "source_cells src (length example_cells) = example_cells"
    using assms(1) unfolding field_holds_def by blast
  have "fd_live fs h Int8" if "ds_mode d = Write"
  proof -
    have "length example_field_image \<noteq> HEADER_SIZE"
      using header_image_length[of ?hdr] by (simp add: example_field_image_def)
    then show ?thesis using open_live[of B "field_path d name" fs h fs src] h that assms(1) by simp
  qed
  moreover have "fd_path h = field_path d name" using open_Ok[OF h(1)] by simp
  moreover have "handle_shows h Int8 example_cells" unfolding handle_shows_def using h(2-5) by blast
  ultimately show ?thesis using h(1) assms(2) by (simp add: field_shows_def)
qed

lemma example_path: "field_path (example_dataset meta md) ''v'' = ''r/v''" "ds_fields (example_dataset meta md) = []"
  by (simp_all add: field_path_def example_dataset_def path_join_def dots_to_slashes_def)

theorem read_dataset_correct_witness:
  "\<exists>meta d' sv tv v. meta_open (\<lambda>_. Some example_image) ''META'' = Ok meta \<and>
     read_dataset example_backend 1 3 (Some [''time'', ''v'', ''v'']) (example_dataset meta Read, [''r/v'' \<mapsto> example_field_image]) =
       (Ok \<lparr>dv_schema = read_index_schema meta @ [\<lparr>fs_name = ''v'', fs_type = Int8\<rparr>], dv_columns = [sv, tv, v], dv_length = 3\<rparr>,
        d', [''r/v'' \<mapsto> example_field_image]) \<and>
     view_cells tv = map (time_cell TT_TimestampUs [1, 2, 3]) [(0, 1), (1, 0), (1, 1)] \<and>
     view_cells v = [(True, CBytes [6]), (True, CBytes [7]), (True, CBytes [8])]"
proof -
  obtain meta where m: "meta_open (\<lambda>_. Some example_image) ''META'' = Ok meta"
    "indexed TT_TimestampUs [1, 2, 3] [[65], [66]] example_recs 5 meta" by (rule example_indexed)
  let ?d = "example_dataset meta Read" and ?fs = "[''r/v'' \<mapsto> example_field_image]"
  have d: "ds_meta ?d = meta" by (simp add: example_dataset_def)
  have ix: "indexed TT_TimestampUs [1, 2, 3] [[65], [66]] example_recs 5 (ds_meta ?d)" using m(2) d by simp
  have p: "projected [''time'', ''v'', ''v''] = [''v'']" by code_simp
  have s: "\<forall>c \<in> set [''time'', ''v'', ''v'']. is_reserved c \<or> schema_position (ds_schema ?d) c \<noteq> None"
    by (simp add: is_reserved_def RESERVED_FIELD_NAMES_def example_dataset_def)
  have f: "\<forall>c \<in> set (projected [''time'', ''v'', ''v'']). field_shows example_backend ?fs ?d c Int8 example_cells \<and> length example_cells = 5"
    unfolding p using example_field_shows[of ?fs ?d "''v''"] by (simp add: example_path) (simp add: example_cells_def)
  have l: "(0::nat) < 3" "1 + 3 \<le> (5::nat)" by simp_all
  have g: "slice 1 (1 + 3) (grid_from 0 example_recs) = [(0, 1), (1, 0), (1, 1)]" by code_simp
  have c: "slice 1 (1 + 3) example_cells = [(True, CBytes [6]), (True, CBytes [7]), (True, CBytes [8])]" by code_simp
  obtain d' sv tv vs where r: "read_dataset example_backend 1 3 (Some [''time'', ''v'', ''v'']) (?d, ?fs) =
      (Ok \<lparr>dv_schema = read_index_schema meta @ map (\<lambda>c. \<lparr>fs_name = c, fs_type = Int8\<rparr>) [''v''],
           dv_columns = sv # tv # vs, dv_length = 3\<rparr>, d', ?fs)"
    "view_cells tv = map (time_cell TT_TimestampUs [1, 2, 3]) [(0, 1), (1, 0), (1, 1)]"
    "map view_cells vs = map (\<lambda>c. [(True, CBytes [6]), (True, CBytes [7]), (True, CBytes [8])]) [''v'']"
    using read_dataset_correct[OF ix l s, of example_backend ?fs "\<lambda>_. Int8" "\<lambda>_. example_cells", OF f]
    unfolding p g c d by blast
  obtain v where "vs = [v]" using r(3) by (cases vs) auto
  then show ?thesis using m(1) r by (intro exI[of _ meta] exI[of _ d'] exI[of _ sv] exI[of _ tv] exI[of _ v]) simp
qed

end
