(* ===== verification/Field_View.thy ===== *)
theory Field_View
  imports Field_Compress
begin

text \<open>
  A field file created from a column view (\<open>create_field_file_from_view\<close> of
  \<open>splayed-core/src/field_file.rs\<close>): the four ways it is written - an all-NULL header, an uncompressed file,
  chunks of the one segment, chunks of the column merged from several segments - all hold the cells of the
  view. NULL cells have no value: an all-NULL column keeps none of its bytes.
\<close>

subsection \<open>Views that are stored as they are\<close>

text \<open>Fixed-width segments; a single segment has its validity from the first bit of its buffer on, with no
  bytes beyond its rows (a slice that does not is stored with other NULLs).\<close>

definition view_storable :: "column_view \<Rightarrow> bool" where
  "view_storable v \<longleftrightarrow> cv_data_type v \<noteq> Utf8 \<and> column_view_ok v \<and> cv_length v \<le> 2 ^ 26 \<and>
     (\<forall>s \<in> set (cv_segments v). seg_fixed (cv_data_type v) s) \<and>
     (case cv_segments v of
        [s] \<Rightarrow> (case seg_validity s of None \<Rightarrow> True
                | Some b \<Rightarrow> bv_bit_offset b = 0 \<and> length (bv_data b) = validity_size (seg_rows s))
      | _ \<Rightarrow> True)"

lemma shown_nulls: "\<forall>c \<in> set cells. \<not> fst c \<Longrightarrow> length cells = n \<Longrightarrow> shown (null_cells dt n) = shown cells"
  using shown_null[of cells] shown_null[of "null_cells dt n"] by (simp add: null_cells_def)

subsection \<open>Merging the bits of segments\<close>

lemma bitmap_set_shape:
  "bitmap_set b i v = Ok b' \<Longrightarrow> bm_bit_offset b' = bm_bit_offset b \<and> bm_len b' = bm_len b \<and> length (bm_data b') = length (bm_data b)"
  by (auto simp: bitmap_set_def res_simps Let_def assert_that_def split: if_splits)

definition merges :: "bitmap \<Rightarrow> bitmap \<Rightarrow> nat \<Rightarrow> (nat \<Rightarrow> bool) \<Rightarrow> nat \<Rightarrow> bool" where
  "merges bm bm' lo flags n \<longleftrightarrow> bitmap_ok bm' \<and> bm_bit_offset bm' = bm_bit_offset bm \<and> bm_len bm' = bm_len bm \<and>
     length (bm_data bm') = length (bm_data bm) \<and>
     (\<forall>j. bm_bit bm' j = (if lo \<le> j \<and> j < lo + n then flags (j - lo) else bm_bit bm j))"

lemma set_segment_loop:
  assumes "view_ok v" "k \<le> bv_len v" "bitmap_ok bm" "lo + k \<le> bm_len bm"
  shows "\<exists>bm'. foldM (\<lambda>b i. rbind (view_is_valid v i) (\<lambda>x. bitmap_set b (lo + i) x)) bm [0..<k] = (Ok bm' :: (core_error, _) res) \<and>
    merges bm bm' lo (view_bit v) k"
  using assms(2,4)
proof (induction k)
  case 0
  then show ?case using assms(3) by (auto simp: merges_def)
next
  case (Suc k)
  then obtain bm1 where bm1: "foldM (\<lambda>b i. rbind (view_is_valid v i) (\<lambda>x. bitmap_set b (lo + i) x)) bm [0..<k] = (Ok bm1 :: (core_error, _) res)"
    "merges bm bm1 lo (view_bit v) k" by auto
  then have b1: "bitmap_ok bm1" "lo + k < bm_len bm1" using Suc.prems by (simp_all add: merges_def)
  from bitmap_set_eq[OF b1, where v = "view_bit v k"] obtain bm2 where bm2: "bitmap_set bm1 (lo + k) (view_bit v k) = (Ok bm2 :: (core_error, _) res)"
    "bitmap_ok bm2" "\<forall>j. bm_bit bm2 j = (if j = lo + k then view_bit v k else bm_bit bm1 j)" by blast
  have "merges bm bm2 lo (view_bit v) (Suc k)"
    using bm1(2) bm2(2,3) bitmap_set_shape[OF bm2(1)] by (auto simp: merges_def)
  moreover have "view_is_valid v k = (Ok (view_bit v k) :: (core_error, _) res)"
    using Suc.prems by (simp add: view_is_valid_eq)
  ultimately show ?case using bm1(1) bm2(1) by (intro exI[of _ bm2]) (simp add: foldM_append)
qed

lemma set_segment_bits_eq:
  assumes s: "validity_ok (seg_validity s) (seg_rows s)" and bm: "bitmap_ok bm" "lo + seg_rows s \<le> bm_len bm"
    and t: "\<forall>j. lo \<le> j \<and> j < lo + seg_rows s \<longrightarrow> bm_bit bm j"
  shows "\<exists>bm'. set_segment_bits lo s bm = Ok bm' \<and> merges bm bm' lo (valid_at (seg_validity s)) (seg_rows s)"
proof (cases "seg_validity s")
  case None
  then show ?thesis using bm t by (auto simp: set_segment_bits_def merges_def valid_at_def)
next
  case (Some v)
  then have v: "view_ok v" "seg_rows s \<le> bv_len v" using s by (simp_all add: validity_ok_def)
  have "valid_at (Some v) = view_bit v" by (simp add: fun_eq_iff valid_at_def)
  then show ?thesis using set_segment_loop[OF v bm] by (simp add: set_segment_bits_def Some)
qed

lemma merge_segment_bits_eq:
  assumes "\<forall>s \<in> set ss. validity_ok (seg_validity s) (seg_rows s)" "bitmap_ok bm"
    and "lo + sum_list (map seg_rows ss) \<le> bm_len bm" "\<forall>j. lo \<le> j \<and> j < lo + sum_list (map seg_rows ss) \<longrightarrow> bm_bit bm j"
  shows "\<exists>bm'. merge_segment_bits lo ss bm = Ok bm' \<and>
    merges bm bm' lo (\<lambda>j. fst (concat (map (seg_cells dt) ss) ! j)) (sum_list (map seg_rows ss))"
  using assms
proof (induction ss arbitrary: lo bm)
  case Nil
  then show ?case by (auto simp: merges_def)
next
  case (Cons s ss)
  obtain bm1 where bm1: "set_segment_bits lo s bm = Ok bm1" "merges bm bm1 lo (valid_at (seg_validity s)) (seg_rows s)"
    using set_segment_bits_eq[of s bm lo] Cons.prems by auto
  then obtain bm2 where bm2: "merge_segment_bits (lo + seg_rows s) ss bm1 = Ok bm2"
    "merges bm1 bm2 (lo + seg_rows s) (\<lambda>j. fst (concat (map (seg_cells dt) ss) ! j)) (sum_list (map seg_rows ss))"
    using Cons.IH[of bm1 "lo + seg_rows s"] Cons.prems by (auto simp: merges_def)
  have c: "fst (concat (map (seg_cells dt) (s # ss)) ! j) =
      (if j < seg_rows s then valid_at (seg_validity s) j else fst (concat (map (seg_cells dt) ss) ! (j - seg_rows s)))" for j
    by (simp add: nth_append) (simp add: seg_cells_def)
  have "merges bm bm2 lo (\<lambda>j. fst (concat (map (seg_cells dt) (s # ss)) ! j)) (sum_list (map seg_rows (s # ss)))"
    using bm1(2) bm2(2) unfolding merges_def c by (auto simp: algebra_simps)
  then show ?case using bm1(1) bm2(1) by auto
qed

subsection \<open>The column of a view\<close>

lemma seg_cells_bytes:
  assumes "seg_fixed dt s"
  shows "seg_cells dt s = cells_of dt (plain_bytes (seg_values s)) (valid_at (seg_validity s)) (seg_rows s)"
    "length (plain_bytes (seg_values s)) = seg_rows s * size_of dt"
proof -
  obtain v where "seg_values s = Fixed v" using assms by (auto simp: seg_fixed_def)
  then show "seg_cells dt s = cells_of dt (plain_bytes (seg_values s)) (valid_at (seg_validity s)) (seg_rows s)"
    "length (plain_bytes (seg_values s)) = seg_rows s * size_of dt"
    using assms by (simp_all add: seg_cells_def cells_of_def seg_fixed_def seg_ok_def)
qed

lemma cells_of_append:
  assumes "length vs = m * size_of dt"
  shows "cells_of dt (vs @ ws) f (m + n) = cells_of dt vs f m @ cells_of dt ws (\<lambda>i. f (m + i)) n"
proof (rule nth_equalityI)
  fix i assume "i < length (cells_of dt (vs @ ws) f (m + n))"
  then have i: "i < m + n" by (simp add: cells_of_def)
  show "cells_of dt (vs @ ws) f (m + n) ! i = (cells_of dt vs f m @ cells_of dt ws (\<lambda>i. f (m + i)) n) ! i"
  proof (cases "i < m")
    case True
    then have "(i + 1) * size_of dt \<le> length vs" using assms by (metis Suc_eq_plus1 Suc_leI mult_le_mono1)
    then show ?thesis using True i by (simp add: nth_append cells_of_def slice_append_left)
  next
    case False
    then obtain j where "i = m + j" "j < n" using i by (metis add_less_cancel_left le_add_diff_inverse linorder_not_less)
    then show ?thesis using assms by (simp add: nth_append cells_of_def slice_def add_mult_distrib)
  qed
qed (simp add: cells_of_def)

lemma concat_seg_cells:
  assumes "\<forall>s \<in> set ss. seg_fixed dt s"
  shows "concat (map (seg_cells dt) ss) =
      cells_of dt (concat (map (\<lambda>s. plain_bytes (seg_values s)) ss)) (\<lambda>j. fst (concat (map (seg_cells dt) ss) ! j)) (sum_list (map seg_rows ss)) \<and>
    length (concat (map (\<lambda>s. plain_bytes (seg_values s)) ss)) = sum_list (map seg_rows ss) * size_of dt"
  using assms
proof (induction ss)
  case (Cons s ss)
  then have s: "seg_fixed dt s" by simp
  note b = seg_cells_bytes[OF s]
  let ?rest = "concat (map (seg_cells dt) ss)"
  let ?f = "\<lambda>j. fst ((seg_cells dt s @ ?rest) ! j)"
  have "cells_of dt (plain_bytes (seg_values s)) ?f (seg_rows s) = seg_cells dt s"
    unfolding b(1) by (rule cells_of_cong) (simp_all add: nth_append cells_of_def)
  moreover have "(\<lambda>i. ?f (seg_rows s + i)) = (\<lambda>j. fst (?rest ! j))" by (simp add: nth_append)
  ultimately show ?case
    using Cons cells_of_append[OF b(2), of "concat (map (\<lambda>s. plain_bytes (seg_values s)) ss)" ?f "sum_list (map seg_rows ss)"] b(2)
    by (simp add: add_mult_distrib)
qed (simp add: cells_of_def)

subsection \<open>The uncompressed file\<close>

definition append_view_bits :: "string \<Rightarrow> column_view \<Rightarrow> unit io" where
  "append_view_bits path column =
     (case cv_segments column of
        [seg] \<Rightarrow> (case seg_validity seg of Some bm \<Rightarrow> io_append path (bv_data bm) | None \<Rightarrow> io_ret ())
      | segs \<Rightarrow>
          io_bind (io_lift (merge_segment_bits 0 segs (bitmap_ones (cv_length column)))) (\<lambda>bm.
          io_bind (io_lift (bitmap_as_view bm)) (\<lambda>v. io_append path (bv_data v))))"

lemma view_bits:
  assumes st: "view_storable v" and hv: "\<exists>s \<in> set (cv_segments v). seg_validity s \<noteq> None"
  shows "\<exists>vb. length vb = validity_size (cv_length v) \<and> (\<forall>j < cv_length v. get_bit vb j = fst (view_cells v ! j)) \<and>
    (\<forall>fs old. fs p = Some old \<longrightarrow> append_view_bits p v fs = (Ok (), fs(p \<mapsto> old @ vb)))"
proof (cases "\<exists>s. cv_segments v = [s]")
  case True
  then obtain s b where s: "cv_segments v = [s]" "seg_validity s = Some b" using hv by auto
  then have b: "bv_bit_offset b = 0" "length (bv_data b) = validity_size (cv_length v)" "cv_length v = seg_rows s"
    using st by (simp_all add: view_storable_def column_view_ok_def)
  show ?thesis
    by (intro exI[of _ "bv_data b"])
       (simp add: b(1,2) append_view_bits_def s io_simps view_cells_def seg_cells_def b(3) valid_at_def view_bit_def)
next
  case False
  have ok: "column_view_ok v" using st by (simp add: view_storable_def)
  let ?n = "cv_length v"
  have n: "sum_list (map seg_rows (cv_segments v)) = ?n" using ok by (simp add: column_view_ok_def)
  have val: "\<forall>s \<in> set (cv_segments v). validity_ok (seg_validity s) (seg_rows s)"
    using ok by (simp add: column_view_ok_def seg_ok_def)
  have o: "bitmap_ok (bitmap_ones ?n)" "bm_bit_offset (bitmap_ones ?n) = 0" "bm_len (bitmap_ones ?n) = ?n"
    "length (bm_data (bitmap_ones ?n)) = validity_size ?n"
    by (simp_all add: bitmap_ones_ok) (simp_all add: bitmap_ones_def Let_def validity_size_def)
  have t: "bm_bit (bitmap_ones ?n) j" if "j < ?n" for j
    using bitmap_ones_bits[of j ?n] that o validity_size_bound(1)[of ?n] by (simp add: bm_bit_def)
  obtain bm where bm: "merge_segment_bits 0 (cv_segments v) (bitmap_ones ?n) = Ok bm"
    "merges (bitmap_ones ?n) bm 0 (\<lambda>j. fst (concat (map (seg_cells (cv_data_type v)) (cv_segments v)) ! j)) ?n"
    using merge_segment_bits_eq[OF val o(1), of 0 "cv_data_type v"] o(3) t unfolding n by auto
  then have m: "bitmap_ok bm" "bm_bit_offset bm = 0" "bm_len bm = ?n" "length (bm_data bm) = validity_size ?n"
    "\<forall>j < ?n. bm_bit bm j = fst (view_cells v ! j)"
    using o by (simp_all add: merges_def view_cells_def)
  then have g: "\<forall>j < ?n. get_bit (bm_data bm) j = fst (view_cells v ! j)" by (simp add: bm_bit_def)
  have "append_view_bits p v fs = io_bind (io_lift (merge_segment_bits 0 (cv_segments v) (bitmap_ones ?n))) (\<lambda>bm.
          io_bind (io_lift (bitmap_as_view bm)) (\<lambda>v. io_append p (bv_data v))) fs" for fs
    using False by (simp add: append_view_bits_def split: list.splits)
  moreover have "bitmap_as_view bm = (Ok \<lparr>bv_data = bm_data bm, bv_bit_offset = 0, bv_len = ?n\<rparr> :: (core_error, _) res)"
    using bitmap_as_view_eq[OF m(1)] m(2,3) by simp
  ultimately show ?thesis using m(4) g by (intro exI[of _ "bm_data bm"]) (simp add: bm(1) io_simps)
qed

lemma view_plain_created:
  assumes st: "view_storable v" and fs: "fs p = None"
  shows "\<exists>bs. create_field_file_view_plain p v fs = (Ok (), fs(p \<mapsto> bs)) \<and> field_holds B bs (cv_data_type v) (view_cells v)"
proof -
  let ?dt = "cv_data_type v" and ?n = "cv_length v" and ?ss = "cv_segments v"
  define data where "data = concat (map (\<lambda>s. plain_bytes (seg_values s)) ?ss)"
  define hv where "hv = (\<exists>s \<in> set ?ss. seg_validity s \<noteq> None)"
  have ok: "column_view_ok v" "?dt \<noteq> Utf8" "?n \<le> u32_max" and fx: "\<forall>s \<in> set ?ss. seg_fixed ?dt s"
    using st by (simp_all add: view_storable_def)
  have n: "sum_list (map seg_rows ?ss) = ?n" using ok(1) by (simp add: column_view_ok_def)
  have c: "view_cells v = cells_of ?dt data (\<lambda>j. fst (view_cells v ! j)) ?n" "length data = ?n * size_of ?dt"
    using concat_seg_cells[OF fx] by (simp_all add: view_cells_def data_def n)
  have s: "0 < size_of ?dt" using ok(2) by (simp flip: size_of_pos)
  define nulls where "nulls = length (filter (\<lambda>c. \<not> fst c) (view_cells v))"
  have nc: "column_view_null_count v = (Ok nulls :: (core_error, _) res)"
    using column_view_null_count_eq[OF ok(1)] by (simp add: nulls_def)
  have flags: "fst (view_cells v ! j)" if "\<not> hv" "j < ?n" for j
  proof -
    have "fst x" if "x \<in> set (view_cells v)" for x
      using that \<open>\<not> hv\<close> by (auto simp: view_cells_def seg_cells_def hv_def valid_at_def)
    then show ?thesis using that(2) length_view_cells[OF ok(1)] by simp
  qed
  obtain vb where vb: "length vb = (if hv then validity_size ?n else 0)"
    "\<forall>j < ?n. (if hv then get_bit vb j else True) = fst (view_cells v ! j)"
    "\<And>fs old. fs p = Some old \<Longrightarrow> (if hv then append_view_bits p v else io_ret ()) fs = (Ok (), fs(p \<mapsto> old @ vb))"
  proof (cases hv)
    case True
    then obtain vb where "length vb = validity_size ?n" "\<forall>j < ?n. get_bit vb j = fst (view_cells v ! j)"
      "\<forall>fs old. fs p = Some old \<longrightarrow> append_view_bits p v fs = (Ok (), fs(p \<mapsto> old @ vb))"
      using view_bits[OF st, of p] unfolding hv_def by blast
    then show ?thesis using True by (intro that[of vb]) simp_all
  next
    case False
    then show ?thesis using flags by (intro that[of "[]"]) (simp_all add: io_ret_def fun_upd_idem)
  qed
  let ?h = "(field_header_new_uncompressed ?dt 1 (of_nat ?n) (of_nat nulls) hv)\<lparr>fh_data_length := of_nat (length data)\<rparr>"
  have dl: "?h = field_header_new_uncompressed ?dt 1 (of_nat ?n) (of_nat nulls) hv"
  proof -
    let ?g = "field_header_new_uncompressed ?dt 1 (of_nat ?n) (of_nat nulls) hv"
    have "unat (fh_data_length ?g) = length data" using ok(3) c(2) by (simp add: new_uncompressed_data_length)
    then have "of_nat (length data) = fh_data_length ?g" by (metis of_nat_unat ucast_id)
    then show ?thesis by simp
  qed
  have each: "io_each (\<lambda>s. io_append p (plain_bytes (seg_values s))) ss fs' =
      (Ok (), fs'(p \<mapsto> old @ concat (map (\<lambda>s. plain_bytes (seg_values s)) ss)))" if "fs' p = Some old" for ss fs' old
    using that by (induction ss arbitrary: fs' old) (simp_all add: io_simps fun_upd_idem)
  have sum: "sum_list (map (\<lambda>s. length (plain_bytes (seg_values s))) ?ss) = length data"
    by (simp add: data_def length_concat comp_def)
  have "create_field_file_view_plain p v fs = (Ok (), fs(p \<mapsto> field_header_to_bytes ?h @ data @ vb))"
  proof -
    have "create_field_file_view_plain p v =
        io_bind (io_create_new p) (\<lambda>_. io_bind (io_append p (replicate HEADER_SIZE 0)) (\<lambda>_.
        io_bind (io_lift (column_view_null_count v)) (\<lambda>null_count.
        io_bind (io_each (\<lambda>s. io_append p (plain_bytes (seg_values s))) ?ss) (\<lambda>_.
        io_bind (if hv then append_view_bits p v else io_ret ()) (\<lambda>_.
          write_header p ((field_header_new_uncompressed ?dt 1 (of_nat ?n) (of_nat null_count) hv) \<lparr>fh_data_length := of_nat (length data)\<rparr>))))))"
      by (simp only: create_field_file_view_plain_def Let_def hv_def[symmetric] sum append_view_bits_def)
    then show ?thesis
      using fs nc each[of "fs(p \<mapsto> replicate HEADER_SIZE 0)" "replicate HEADER_SIZE 0" ?ss, folded data_def]
        vb(3)[of "fs(p \<mapsto> replicate HEADER_SIZE 0 @ data)" "replicate HEADER_SIZE 0 @ data"]
        write_header_app[of "fs(p \<mapsto> replicate HEADER_SIZE 0 @ data @ vb)" p "data @ vb" ?h]
      by (simp add: io_simps)
  qed
  moreover have "field_holds B (field_header_to_bytes ?h @ data @ vb) ?dt
      (cells_of ?dt data (\<lambda>i. if has_validity ?h then get_bit vb i else True) ?n)"
    unfolding dl using ok(3) c(2) vb(1) s
    by (intro plain_holds) (auto simp: field_data_type_def new_uncompressed_data_length field_validity_size_def)
  moreover have "cells_of ?dt data (\<lambda>i. if has_validity ?h then get_bit vb i else True) ?n = view_cells v"
    unfolding dl by (subst c(1), rule cells_of_cong) (use vb(2) in auto)
  ultimately show ?thesis by auto
qed

subsection \<open>The chunked file\<close>

definition segment_column :: "column_view \<Rightarrow> column_segment \<Rightarrow> column" where
  "segment_column v s = \<lparr>col_data_type = cv_data_type v, col_values = plain_bytes (seg_values s),
     col_validity = map_option (\<lambda>b. \<lparr>bm_data = bv_data b, bm_bit_offset = bv_bit_offset b, bm_len = bv_len b\<rparr>) (seg_validity s),
     col_dict = None\<rparr>"

lemma segment_column_ok:
  assumes st: "view_storable v" and s: "cv_segments v = [s]"
  shows "col_ok (segment_column v s)" "column_length (segment_column v s) = cv_length v"
    "col_cells (segment_column v s) = view_cells v"
proof -
  have f: "seg_fixed (cv_data_type v) s" "cv_data_type v \<noteq> Utf8" "cv_length v = seg_rows s"
    using st by (simp_all add: view_storable_def s column_view_ok_def)
  note b = seg_cells_bytes[OF f(1)]
  have sz: "0 < size_of (cv_data_type v)" using f(2) by (simp flip: size_of_pos)
  show l: "column_length (segment_column v s) = cv_length v"
    using b(2) f sz by (simp add: column_length_def segment_column_def)
  have v: "validity_ok (seg_validity s) (seg_rows s)" using f(1) by (simp add: seg_fixed_def seg_ok_def)
  show "col_ok (segment_column v s)"
    using st b(2) f l v
    by (auto simp: col_ok_def segment_column_def view_storable_def s validity_ok_def split: option.splits)
  show "col_cells (segment_column v s) = view_cells v"
  proof -
    have "col_valid (segment_column v s) = valid_at (seg_validity s)"
      by (auto simp: fun_eq_iff segment_column_def col_valid_def valid_at_def view_bit_def bm_bit_def split: option.splits)
    then show ?thesis unfolding col_cells_def l view_cells_def s by (simp add: b(1) f(3)) (simp add: segment_column_def)
  qed
qed

lemma view_chunked_eq:
  assumes st: "view_storable v" and s: "cv_segments v = [s]"
    and rs: "compute_chunk_boundaries (cv_length v) (co_chunk_offsets opts) = Ok rs"
  shows "create_field_file_view_chunked B p v opts fs =
    create_field_file_chunked_data B p (cv_data_type v) (segment_column v s) (co_compression opts) rs fs"
proof -
  have f: "seg_fixed (cv_data_type v) s" using st by (simp add: view_storable_def s)
  then obtain vs where vs: "seg_values s = Fixed vs" by (auto simp: seg_fixed_def)
  note l = segment_column_ok(2)[OF st s]
  have col: "col_values (segment_column v s) = vs" "col_data_type (segment_column v s) = cv_data_type v"
    by (simp_all add: segment_column_def vs)
  have bits: "(case col_validity (segment_column v s) of None \<Rightarrow> io_ret None
      | Some b \<Rightarrow> io_bind (io_lift (bitmap_as_view b)) (\<lambda>w. io_ret (Some w))) fs' = (Ok (seg_validity s), fs')" for fs'
    using f by (cases "seg_validity s")
      (auto simp: segment_column_def io_simps seg_fixed_def seg_ok_def validity_ok_def view_ok_def bitmap_as_view_eq bitmap_ok_def)
  have nulls: "(column_view_null_count v :: (core_error, _) res) = column_null_count (segment_column v s)"
  proof (cases "seg_validity s")
    case (Some b)
    then have b: "view_ok b" "bitmap_ok \<lparr>bm_data = bv_data b, bm_bit_offset = bv_bit_offset b, bm_len = bv_len b\<rparr>"
      using f by (simp_all add: seg_fixed_def seg_ok_def validity_ok_def view_ok_def bitmap_ok_def)
    have r: "\<lparr>bv_data = bv_data b, bv_bit_offset = bv_bit_offset b, bv_len = bv_len b\<rparr> = b" by simp
    show ?thesis
      by (simp add: r view_null_count_eq[OF b(1)] column_view_null_count_def s seg_null_count_def column_null_count_def segment_column_def Some bitmap_as_view_eq[OF b(2)])
  qed (simp add: column_view_null_count_def s seg_null_count_def column_null_count_def segment_column_def)
  have b2: "io_bind (case col_validity (segment_column v s) of None \<Rightarrow> io_ret None
      | Some b \<Rightarrow> io_bind (io_lift (bitmap_as_view b)) (\<lambda>w. io_ret (Some w))) f fs' = f (seg_validity s) fs'" for f :: "_ \<Rightarrow> unit io" and fs'
    by (rule io_bind_Ok[OF bits])
  have e: "io_bind m (\<lambda>_. io_bind (case col_validity (segment_column v s) of None \<Rightarrow> io_ret None
      | Some b \<Rightarrow> io_bind (io_lift (bitmap_as_view b)) (\<lambda>w. io_ret (Some w))) f) = io_bind m (\<lambda>_. f (seg_validity s))"
    for m :: "unit io" and f :: "_ \<Rightarrow> unit io"
    by (rule arg_cong[where f = "io_bind m"]) (simp add: fun_eq_iff b2)
  show ?thesis
    unfolding create_field_file_view_chunked_def create_field_file_chunked_data_def
    by (simp add: s vs rs col l Let_def io_simps nulls e)
qed

lemma owned_column:
  assumes st: "view_storable v" and s: "length (cv_segments v) \<noteq> 1"
  shows "\<exists>c. column_view_to_owned_column v = Ok c \<and> col_ok c \<and> column_length c = cv_length v \<and>
    col_data_type c = cv_data_type v \<and> col_cells c = view_cells v"
proof -
  let ?dt = "cv_data_type v" and ?n = "cv_length v" and ?ss = "cv_segments v"
  have ok: "column_view_ok v" "?dt \<noteq> Utf8" and fx: "\<forall>s \<in> set ?ss. seg_fixed ?dt s"
    using st by (simp_all add: view_storable_def)
  have n: "sum_list (map seg_rows ?ss) = ?n" using ok(1) by (simp add: column_view_ok_def)
  have sz: "0 < size_of ?dt" using ok(2) by (simp flip: size_of_pos)
  define data where "data = concat (map (\<lambda>s. plain_bytes (seg_values s)) ?ss)"
  have c: "view_cells v = cells_of ?dt data (\<lambda>j. fst (view_cells v ! j)) ?n" "length data = ?n * size_of ?dt"
    using concat_seg_cells[OF fx] by (simp_all add: view_cells_def data_def n)
  have d: "concat (map (\<lambda>s. case fixed_bytes (seg_values s) of Some b \<Rightarrow> b | None \<Rightarrow> []) ?ss) = data"
    unfolding data_def using fx by (intro arg_cong[where f = concat] map_cong) (auto simp: seg_fixed_def)
  have val: "\<forall>s \<in> set ?ss. validity_ok (seg_validity s) (seg_rows s)"
    using ok(1) by (simp add: column_view_ok_def seg_ok_def)
  have o: "bitmap_ok (bitmap_ones ?n)" "bm_bit_offset (bitmap_ones ?n) = 0" "bm_len (bitmap_ones ?n) = ?n"
    "length (bm_data (bitmap_ones ?n)) = validity_size ?n"
    by (simp_all add: bitmap_ones_ok) (simp_all add: bitmap_ones_def Let_def validity_size_def)
  have t: "bm_bit (bitmap_ones ?n) j" if "j < ?n" for j
    using bitmap_ones_bits[of j ?n] that o validity_size_bound(1)[of ?n] by (simp add: bm_bit_def)
  obtain bm where bm: "merge_segment_bits 0 ?ss (bitmap_ones ?n) = Ok bm"
    "merges (bitmap_ones ?n) bm 0 (\<lambda>j. fst (concat (map (seg_cells ?dt) ?ss) ! j)) ?n"
    using merge_segment_bits_eq[OF val o(1), of 0 ?dt] o(3) t unfolding n by auto
  define cc where "cc = \<lparr>col_data_type = ?dt, col_values = data,
      col_validity = (if \<exists>s \<in> set ?ss. seg_validity s \<noteq> None then Some bm else None), col_dict = None\<rparr>"
  have "column_view_to_owned_column v = Ok cc"
    using s bm(1) d by (auto simp: column_view_to_owned_column_def cc_def split: list.splits)
  moreover have l: "column_length cc = ?n" using c(2) ok(2) sz by (simp add: column_length_def cc_def)
  moreover have f: "col_values cc = data" "col_data_type cc = ?dt"
    "col_validity cc = (if \<exists>s \<in> set ?ss. seg_validity s \<noteq> None then Some bm else None)" by (simp_all add: cc_def)
  moreover have "bm_bit_offset bm = 0" "bm_len bm = ?n" "length (bm_data bm) = validity_size ?n"
    using bm(2) o by (simp_all add: merges_def)
  then have "col_ok cc" unfolding col_ok_def l f using c(2) ok(2) by simp
  moreover have "fst (view_cells v ! j)" if "\<not> (\<exists>s \<in> set ?ss. seg_validity s \<noteq> None)" "j < ?n" for j
  proof -
    have "fst x" if "x \<in> set (view_cells v)" for x
      using that \<open>\<not> (\<exists>s \<in> set ?ss. seg_validity s \<noteq> None)\<close> by (auto simp: view_cells_def seg_cells_def valid_at_def)
    then show ?thesis using that(2) length_view_cells[OF ok(1)] by simp
  qed
  then have "col_cells cc = view_cells v"
    unfolding col_cells_def l f(1,2)
    by (subst c(1)) (rule cells_of_cong, use bm(2) f(3) in \<open>auto simp: col_valid_def merges_def view_cells_def\<close>)
  ultimately show ?thesis by (intro exI[of _ cc]) simp
qed

subsection \<open>All ways of writing a view\<close>

lemma view_created:
  assumes st: "view_storable v" and fs: "fs p = None"
    and B: "co_compression opts \<noteq> CNone \<Longrightarrow> backend_sane B (co_compression opts)"
    and rs: "compute_chunk_boundaries (cv_length v) (co_chunk_offsets opts) = Ok rs"
  shows "\<exists>bs cells. create_field_file_from_view B p v opts fs = (Ok (), fs(p \<mapsto> bs)) \<and>
    field_holds B bs (cv_data_type v) cells \<and> length cells = cv_length v \<and> shown cells = shown (view_cells v)"
proof -
  let ?dt = "cv_data_type v" and ?n = "cv_length v"
  have ok: "column_view_ok v" "?dt \<noteq> Utf8" "?n \<le> 2 ^ 26" using st by (simp_all add: view_storable_def)
  note len = length_view_cells[OF ok(1)]
  have ex: "io_exists p fs = (Ok False, fs)" by (simp add: io_exists_def fs)
  define k where "k = length (filter (\<lambda>c. \<not> fst c) (view_cells v))"
  have nc: "column_view_null_count v = (Ok k :: (core_error, _) res)" using column_view_null_count_eq[OF ok(1)] by (simp add: k_def)
  show ?thesis
  proof (cases "0 < ?n \<and> k = ?n")
    case True
    have "filter (\<lambda>c. \<not> fst c) (view_cells v) = view_cells v"
      using True len by (metis filter_id_conv k_def length_filter_less linorder_neq_iff)
    then have a: "shown (null_cells ?dt ?n) = shown (view_cells v)"
      by (intro shown_nulls) (simp_all add: len filter_id_conv)
    have u: "?n \<le> u32_max" using ok(3) by simp
    show ?thesis
    proof (cases "co_compression opts = CNone")
      case c: True
      from plain_length_created[where fs = fs and p = p and dt = ?dt, OF fs conjunct1[OF True] u, of B] obtain bs where
        "create_field_file_plain p ?dt (FI_Length ?n) fs = (Ok (), fs(p \<mapsto> bs))" "field_holds B bs ?dt (null_cells ?dt ?n)" by blast
      then show ?thesis using True c a ex nc
        by (intro exI[of _ bs] exI[of _ "null_cells ?dt ?n"])
           (simp add: create_field_file_from_view_def io_bind_def io_lift_def null_cells_def)
    next
      case c: False
      from chunked_null_created[where fs = fs and p = p and dt = ?dt and c = "co_compression opts", OF fs conjunct1[OF True] u, of B] obtain bs where
        "create_field_file_chunked_all_null p ?dt ?n (co_compression opts) fs = (Ok (), fs(p \<mapsto> bs))"
        "field_holds B bs ?dt (null_cells ?dt ?n)" by blast
      then show ?thesis using True c a ex nc rs ok(2)
        by (intro exI[of _ bs] exI[of _ "null_cells ?dt ?n"])
           (simp add: create_field_file_from_view_def create_field_file_chunked_def io_bind_def io_lift_def null_cells_def)
    qed
  next
    case False
    have "\<exists>bs. create_field_file_from_view B p v opts fs = (Ok (), fs(p \<mapsto> bs)) \<and> field_holds B bs ?dt (view_cells v)"
    proof (cases "co_compression opts = CNone")
      case True
      then show ?thesis using view_plain_created[where fs = fs and p = p and B = B, OF st fs] False ex nc
        by (auto simp: create_field_file_from_view_def io_bind_def io_lift_def)
    next
      case c: False
      show ?thesis
      proof (cases "length (cv_segments v) = 1")
        case True
        then obtain s where s: "cv_segments v = [s]" by (auto simp: length_Suc_conv)
        note sc = segment_column_ok[OF st s]
        have "col_data_type (segment_column v s) = ?dt" by (simp add: segment_column_def)
        with chunked_data_created[where fs = fs and p = p and B = B, OF B[OF c] c fs sc(1)] sc ok(3) boundaries_tile[OF rs]
        obtain bs where "create_field_file_chunked_data B p ?dt (segment_column v s) (co_compression opts) rs fs = (Ok (), fs(p \<mapsto> bs))"
          "field_holds B bs ?dt (view_cells v)" by auto
        then show ?thesis using view_chunked_eq[OF st s rs, of B p fs] True False c ok(2) ex nc
          by (auto simp: create_field_file_from_view_def io_bind_def io_lift_def)
      next
        case m: False
        obtain cc where cc: "column_view_to_owned_column v = Ok cc" "col_ok cc" "column_length cc = ?n" "col_data_type cc = ?dt"
          "col_cells cc = view_cells v" using owned_column[OF st m] by blast
        with chunked_data_created[where fs = fs and p = p and B = B, OF B[OF c] c fs cc(2)] ok(3) boundaries_tile[OF rs]
        obtain bs where "create_field_file_chunked_data B p ?dt cc (co_compression opts) rs fs = (Ok (), fs(p \<mapsto> bs))"
          "field_holds B bs ?dt (view_cells v)" by auto
        then show ?thesis using False c m ok(2) ex nc cc(1,3) rs
          by (auto simp: create_field_file_from_view_def create_field_file_chunked_def io_bind_def io_lift_def)
      qed
    qed
    then show ?thesis using len by blast
  qed
qed

end
