(* ===== verification/Field_Cast.thy ===== *)
theory Field_Cast
  imports Field_Compress Index_Scan Number_Meaning
begin

text \<open>
  Casting a FIELD file to another type (\<open>splayed-core/src/field_file.rs\<close>): the conversion of single
  values, the streaming reader that converts a handle batch by batch, and the file operation that
  streams into a temporary file, restores generation and compression, and replaces the original. The
  name of the temporary file (made unique by process id and a counter) is the argument \<open>tmp\<close>.
\<close>

subsection \<open>Converting a value\<close>

text \<open>\<open>f64 as f32\<close>: the value in units of \<open>2 ^ -1074\<close> rounded to 24 significant bits (ties to even) or to
  the subnormal grid \<open>2 ^ -149\<close>; a result of 128 binades or more is infinite. The payload of a NaN is
  not determined by the language: the model keeps its upper bits and makes it quiet.\<close>

definition f64_to_f32_mag :: "nat \<Rightarrow> nat" where
  "f64_to_f32_mag m =
     (let s = f64_scaled m; sh = max 925 (ilog2 s - 23); q = s div 2 ^ sh; r = s mod 2 ^ sh; half = 2 ^ (sh - 1);
          q' = (if half < r \<or> (r = half \<and> odd q) then q + 1 else q)
      in min (255 * 2 ^ 23) ((sh - 925) * 2 ^ 23 + q'))"

definition f64_to_f32 :: "u64 \<Rightarrow> u32" where
  "f64_to_f32 w =
     (let m = f64_mag w;
          mag = (if f64_nan w then 255 * 2 ^ 23 + 2 ^ 22 + (m mod 2 ^ 51) div 2 ^ 29 else f64_to_f32_mag m)
      in of_nat (if bit w 63 then 2 ^ 31 + mag else mag))"

text \<open>\<open>f64 as i64\<close>: truncation, saturating at both ends, NaN to zero.\<close>

definition f64_as_i64 :: "u64 \<Rightarrow> int" where
  "f64_as_i64 w =
     (if f64_nan w then 0
      else let t = int (f64_scaled (f64_mag w) div 2 ^ 1074)
        in if bit w 63 then max (- (2 ^ 63)) (- t) else min (2 ^ 63 - 1) t)"

fun scalar_to_f64 :: "scalar \<Rightarrow> u64" where
  "scalar_to_f64 (SBool b) = int_to_f64 (of_bool b)"
| "scalar_to_f64 (SInt i) = int_to_f64 i"
| "scalar_to_f64 (SUInt u) = int_to_f64 (int u)"
| "scalar_to_f64 (SFloat f) = f"
| "scalar_to_f64 (SStr _) = 0"

fun scalar_to_i64 :: "scalar \<Rightarrow> int" where
  "scalar_to_i64 (SBool b) = of_bool b"
| "scalar_to_i64 (SInt i) = i"
| "scalar_to_i64 (SUInt u) = sint (of_nat u :: u64)"
| "scalar_to_i64 (SFloat f) = f64_as_i64 f"
| "scalar_to_i64 (SStr _) = 0"

fun scalar_to_u64 :: "scalar \<Rightarrow> nat" where
  "scalar_to_u64 (SBool b) = of_bool b"
| "scalar_to_u64 (SInt i) = unat (of_int i :: u64)"
| "scalar_to_u64 (SUInt u) = u"
| "scalar_to_u64 (SFloat f) = f64_as_u64 f"
| "scalar_to_u64 (SStr _) = 0"

text \<open>The bytes of a converted value, at the width of the target.\<close>

definition scalar_bytes :: "data_type \<Rightarrow> scalar \<Rightarrow> bytes" where
  "scalar_bytes dst v =
     (case dst of
        Float32 \<Rightarrow> le_bytes 4 (f64_to_f32 (scalar_to_f64 v))
      | Float64 \<Rightarrow> le_bytes 8 (scalar_to_f64 v)
      | _ \<Rightarrow> if is_signed_int dst then take (size_of dst) (le_bytes 8 (of_int (scalar_to_i64 v) :: u64))
             else take (size_of dst) (le_bytes 8 (of_nat (scalar_to_u64 v) :: u64)))"

definition convert_values ::
  "data_type \<Rightarrow> data_type \<Rightarrow> bytes \<Rightarrow> bytes option \<Rightarrow> nat \<Rightarrow> (core_error, bytes \<times> bytes option \<times> nat) res" where
  "convert_values src dst vs validity rows =
     rbind (mapM (\<lambda>i. rbind (slice_r (i * size_of src) (i * size_of src + size_of src) vs) (\<lambda>bs.
              rbind (read_row_scalar src bs) (\<lambda>v. Ok (scalar_bytes dst v)))) [0..<rows]) (\<lambda>out.
       Ok (concat out, validity, rows))"

subsection \<open>The streaming reader\<close>

definition CAST_BATCH_ROWS :: nat where
  "CAST_BATCH_ROWS = 2 ^ 18"

record cast_reader =
  cr_handle :: field_handle
  cr_src :: data_type
  cr_dst :: data_type
  cr_total :: nat
  cr_offset :: nat
  cr_phase :: nat
  cr_validity_stream :: bytes
  cr_bit_acc :: u64
  cr_acc_bits :: nat
  cr_validity_written :: nat

text \<open>One segment of a batch: its values converted, its validity appended to the bit stream (the loop is
  that of \<open>stitch_chunk_bits\<close>, a segment without validity being all ones).\<close>

definition cast_segment ::
  "data_type \<Rightarrow> data_type \<Rightarrow> bytes \<times> nat \<times> bit_stream \<Rightarrow> column_segment \<Rightarrow> (core_error, bytes \<times> nat \<times> bit_stream) res" where
  "cast_segment src dst st seg = (case st of (converted, rows, stream) \<Rightarrow>
     let seg_n = seg_rows seg
     in rbind (case fixed_bytes (seg_values seg) of Some v \<Rightarrow> Ok v | None \<Rightarrow> Panic) (\<lambda>vs.
        rbind (convert_values src dst vs None seg_n) (\<lambda>(out, _, _).
        rbind (case seg_validity seg of
                 Some bm \<Rightarrow> view_to_packed_bytes bm
               | None \<Rightarrow> Ok (replicate ((seg_n + 7) div 8) 0xFF)) (\<lambda>bits.
        rbind (stitch_chunk_bits (Some bits) seg_n stream) (\<lambda>stream'.
          Ok (converted @ out, rows + seg_n, stream'))))))"

definition cast_next_values :: "cast_reader \<Rightarrow> (core_error, stream_values option \<times> cast_reader) res" where
  "cast_next_values r =
     (if cr_total r \<le> cr_offset r then Ok (None, r)
      else let n = min CAST_BATCH_ROWS (cr_total r - cr_offset r)
        in rbind (read_field_handle (cr_handle r) (cr_offset r) n) (\<lambda>view.
           rbind (foldM (cast_segment (cr_src r) (cr_dst r))
                    ([], 0, (cr_bit_acc r, cr_acc_bits r, cr_validity_stream r)) (cv_segments view))
             (\<lambda>(converted, rows, (acc, k, stream)).
                Ok (Some \<lparr>sv_values = converted, sv_rows = rows\<rparr>,
                    r\<lparr>cr_offset := cr_offset r + rows, cr_bit_acc := acc, cr_acc_bits := k, cr_validity_stream := stream\<rparr>))))"

definition cast_next_validity :: "cast_reader \<Rightarrow> bytes option \<times> cast_reader" where
  "cast_next_validity r0 =
     (let r = (if cr_phase r0 = 0 then r0\<lparr>cr_phase := 1\<rparr> else r0)
      in if cr_validity_written r < length (cr_validity_stream r)
         then let stop = min (cr_validity_written r + 64 * 1024) (length (cr_validity_stream r))
           in (Some (slice (cr_validity_written r) stop (cr_validity_stream r)), r\<lparr>cr_validity_written := stop\<rparr>)
         else if 0 < cr_acc_bits r then (Some [ucast (cr_bit_acc r)], r\<lparr>cr_bit_acc := 0, cr_acc_bits := 0\<rparr>)
         else (None, r))"

text \<open>
  The sequences of results that the two methods return. Every batch of a well-formed handle has rows,
  so \<open>total\<close> batches are enough (\<open>drain_values_eq\<close>); a reader that never ended is \<open>Panic\<close>.
\<close>

fun drain_values :: "nat \<Rightarrow> cast_reader \<Rightarrow> (core_error, stream_values) res list \<times> cast_reader" where
  "drain_values 0 r = (if cr_total r \<le> cr_offset r then ([], r) else ([Panic], r))"
| "drain_values (Suc fuel) r =
     (case cast_next_values r of
        Err e \<Rightarrow> ([Err e], r)
      | Panic \<Rightarrow> ([Panic], r)
      | Ok (None, r') \<Rightarrow> ([], r')
      | Ok (Some b, r') \<Rightarrow> (case drain_values fuel r' of (bs, r'') \<Rightarrow> (Ok b # bs, r'')))"

function drain_validity :: "cast_reader \<Rightarrow> bytes list" where
  "drain_validity r = (case cast_next_validity r of (None, _) \<Rightarrow> [] | (Some b, r') \<Rightarrow> b # drain_validity r')"
  by auto
termination
  by (relation "measure (\<lambda>r. length (cr_validity_stream r) - cr_validity_written r + cr_acc_bits r)")
     (auto simp: cast_next_validity_def Let_def split: if_splits)

declare drain_validity.simps [simp del]

definition cast_stream :: "field_handle \<Rightarrow> data_type \<Rightarrow> data_type \<Rightarrow> chunk_reader" where
  "cast_stream h src dst =
     (let total_rows = fd_row_count h
      in case drain_values total_rows
           \<lparr>cr_handle = h, cr_src = src, cr_dst = dst, cr_total = total_rows, cr_offset = 0, cr_phase = 0,
            cr_validity_stream = [], cr_bit_acc = 0, cr_acc_bits = 0, cr_validity_written = 0\<rparr> of
         (vs, r) \<Rightarrow> \<lparr>rd_values = vs, rd_validity = map Ok (drain_validity r)\<rparr>)"

subsection \<open>The file operation\<close>

text \<open>Read the header, change it, write it back.\<close>

definition patch_header :: "string \<Rightarrow> (field_header \<Rightarrow> field_header) \<Rightarrow> unit io" where
  "patch_header path f =
     io_bind (io_read_exact path HEADER_SIZE) (\<lambda>hb.
     io_bind (io_lift (fmt_err (field_header_from_bytes hb))) (\<lambda>h.
       write_header path (f h)))"

definition starts_of :: "nat list \<Rightarrow> nat list" where
  "starts_of rows = map2 (\<lambda>e r. e - r) (running_ends 0 rows) rows"

definition cast_body :: "codec_backend \<Rightarrow> string \<Rightarrow> string \<Rightarrow> data_type \<Rightarrow> unit io" where
  "cast_body B path tmp target_type =
     io_bind (open_field_file B path Read) (\<lambda>h.
     io_bind (io_lift (fd_data_type h)) (\<lambda>dt.
     if dt = target_type then io_ret ()
     else if dt = Utf8 \<or> target_type = Utf8 then io_lift (Err (Invalid ''cast involving Utf8 is not supported''))
     else io_bind (io_read path) (\<lambda>bs.
          let header_only = (length bs = HEADER_SIZE)
          in io_bind (io_lift (fmt_err (field_encoding (fd_header h)))) (\<lambda>e.
             io_bind (io_lift (fmt_err (field_compression (fd_header h)))) (\<lambda>c.
             io_bind (create_field_file B tmp target_type
                        (if header_only then FI_Length (fd_row_count h) else FI_Stream (cast_stream h dt target_type))
                        default_options) (\<lambda>_.
             io_bind (patch_header tmp (\<lambda>hdr. hdr\<lparr>fh_generation := fh_generation (fd_header h)\<rparr>)) (\<lambda>_.
             io_bind (if \<not> fd_is_chunked h then io_ret ()
                      else if header_only
                      then patch_header tmp (\<lambda>hdr. set_has_validity True
                             (hdr\<lparr>fh_compression := compression_id c, fh_encoding := encoding_id e\<rparr>))
                      else compress_field_file_encoded B tmp (Some (starts_of (fd_chunk_rows h))) e c) (\<lambda>_.
               io_rename tmp path))))))))"

definition cast_field_file :: "codec_backend \<Rightarrow> string \<Rightarrow> string \<Rightarrow> data_type \<Rightarrow> unit io" where
  "cast_field_file B path tmp target_type =
     io_on_err (cast_body B path tmp target_type)
       (io_bind (io_try_remove tmp) (\<lambda>_. io_try_remove (tmp_path tmp)))"


subsection \<open>Converting cells\<close>

definition conv_bytes :: "data_type \<Rightarrow> data_type \<Rightarrow> bytes \<Rightarrow> bytes" where
  "conv_bytes src dst bs = scalar_bytes dst (case read_row_scalar src bs of Ok v \<Rightarrow> v | _ \<Rightarrow> SBool False)"

fun cell_bytes :: "cell_value \<Rightarrow> bytes" where
  "cell_bytes (CBytes b) = b"
| "cell_bytes (CKey _ _ _) = []"

definition conv_cell :: "data_type \<Rightarrow> data_type \<Rightarrow> bool \<times> cell_value \<Rightarrow> bool \<times> cell_value" where
  "conv_cell src dst c = (fst c, CBytes (conv_bytes src dst (cell_bytes (snd c))))"

definition conv_all :: "data_type \<Rightarrow> data_type \<Rightarrow> (bool \<times> cell_value) list \<Rightarrow> bytes" where
  "conv_all src dst cells = concat (map (\<lambda>c. conv_bytes src dst (cell_bytes (snd c))) cells)"

lemma length_scalar_bytes [simp]: "length (scalar_bytes dst v) = size_of dst"
  using size_of_le_8[of dst] by (cases dst) (simp_all add: scalar_bytes_def)

lemma length_conv_bytes [simp]: "length (conv_bytes src dst bs) = size_of dst"
  by (simp add: conv_bytes_def)

lemma length_conv_all [simp]: "length (conv_all src dst cells) = length cells * size_of dst"
  by (induction cells) (simp_all add: conv_all_def)

lemma conv_all_append: "conv_all src dst (xs @ ys) = conv_all src dst xs @ conv_all src dst ys"
  by (simp add: conv_all_def)

lemma read_row_scalar_total:
  "src \<noteq> Utf8 \<Longrightarrow> length bs = size_of src \<Longrightarrow> \<exists>v. read_row_scalar src bs = Ok v"
  by (cases src) (auto simp: read_row_scalar_def Let_def slice_r_def slice_ok_def)

lemma convert_values_eq:
  assumes "src \<noteq> Utf8" "length vs = rows * size_of src"
  shows "convert_values src dst vs validity rows =
    Ok (concat (map (\<lambda>i. conv_bytes src dst (slice (i * size_of src) ((i + 1) * size_of src) vs)) [0..<rows]), validity, rows)"
proof -
  have "rbind (slice_r (i * size_of src) (i * size_of src + size_of src) vs) (\<lambda>bs.
      rbind (read_row_scalar src bs) (\<lambda>v. Ok (scalar_bytes dst v))) =
      (Ok (conv_bytes src dst (slice (i * size_of src) ((i + 1) * size_of src) vs)) :: (core_error, _) res)" if "i < rows" for i
  proof -
    have "(i + 1) * size_of src \<le> rows * size_of src" using that by (intro mult_le_mono1) simp
    then have le: "i * size_of src + size_of src \<le> length vs" using assms(2) by simp
    then have "length (slice (i * size_of src) (i * size_of src + size_of src) vs) = size_of src" by simp
    from read_row_scalar_total[OF assms(1) this] show ?thesis
      using le by (auto simp: conv_bytes_def slice_r_def slice_ok_def add.commute)
  qed
  then have "mapM (\<lambda>i. rbind (slice_r (i * size_of src) (i * size_of src + size_of src) vs) (\<lambda>bs.
              rbind (read_row_scalar src bs) (\<lambda>v. Ok (scalar_bytes dst v)))) [0..<rows] =
      (Ok (map (\<lambda>i. conv_bytes src dst (slice (i * size_of src) ((i + 1) * size_of src) vs)) [0..<rows]) :: (core_error, _) res)"
    by (intro mapM_all_Ok) simp
  then show ?thesis by (simp add: convert_values_def)
qed

text \<open>The segments of a field are fixed-width.\<close>

lemma chunk_segments_fixed:
  "chunk_segments dt work offset stop cs = Ok segs \<Longrightarrow> s \<in> set segs \<Longrightarrow> \<exists>v. seg_values s = Fixed v"
proof (induction cs arbitrary: segs)
  case (Cons c cs)
  obtain rows cend where c: "c = (rows, cend)" by (cases c)
  show ?case
  proof (cases "stop \<le> cend - rows")
    case False
    obtain vs val n seg segs' where seg: "segment_new dt vs val n = Ok seg" and r: "chunk_segments dt work offset stop cs = Ok segs'"
      and "segs = seg # segs'"
      using Cons.prems(1) False unfolding c by (auto simp: Let_def res_simps fmt_err_eq_Ok)
    moreover have "\<exists>v. seg_values seg = Fixed v" using seg by (auto simp: segment_new_def Let_def split: if_splits)
    ultimately show ?thesis using Cons.IH[OF r] Cons.prems(2) by auto
  qed (use Cons.prems c in \<open>simp add: Let_def\<close>)
qed simp

lemma read_fixed:
  assumes "read_field_handle h offset len = Ok v" "s \<in> set (cv_segments v)"
  shows "\<exists>b. seg_values s = Fixed b"
proof -
  from assms(1) consider dt where "v = column_view_empty dt"
    | dt segs work cs where "chunk_segments dt work offset (offset + len) cs = Ok segs" "cv_segments v = segs"
    | bs dt validity where "column_view_from_one dt bs validity len = Ok v"
    by (auto simp: read_field_handle_def res_simps fmt_err_eq_Ok Let_def column_view_new_def split: if_splits)
  then show ?thesis
  proof cases
    case 1
    then show ?thesis using assms(2) by (simp add: column_view_empty_def)
  next
    case (2 dt segs work cs)
    then show ?thesis using chunk_segments_fixed assms(2) by blast
  next
    case (3 bs dt validity)
    then show ?thesis using assms(2)
      by (auto simp: column_view_from_one_def column_view_new_def segment_new_def res_simps Let_def split: if_splits)
  qed
qed


lemma replicate_ones: "i < n \<Longrightarrow> get_bit (replicate ((n + 7) div 8) 0xFF) i"
proof -
  assume "i < n"
  then have "i div 8 < (n + 7) div 8" using div_le_mono[of i "n - 1" 8] div_add_self2[of 8 "n - 1"] by auto
  then show ?thesis by (simp add: get_bit_def bit_255_int)
qed

lemma cast_segment_eq:
  assumes seg: "seg_ok src s" "\<exists>v. seg_values s = Fixed v" and ty: "src \<noteq> Utf8" and st: "stream_holds st bs"
  shows "\<exists>st'. cast_segment src dst (out, rows, st) s =
      Ok (out @ conv_all src dst (seg_cells src s), rows + seg_rows s, st') \<and>
    stream_holds st' (bs @ map fst (seg_cells src s))"
proof -
  obtain v where v: "seg_values s = Fixed v" "length v = seg_rows s * size_of src" using seg by (auto simp: seg_ok_def)
  let ?n = "seg_rows s"
  have conv: "convert_values src dst v None ?n = Ok (conv_all src dst (seg_cells src s), None, ?n)"
    using convert_values_eq[OF ty v(2), of dst None]
    by (simp add: conv_all_def seg_cells_def v(1) comp_def)
  obtain bits where bits: "(case seg_validity s of Some bm \<Rightarrow> view_to_packed_bytes bm
      | None \<Rightarrow> Ok (replicate ((?n + 7) div 8) 0xFF)) = (Ok bits :: (core_error, _) res)"
    "?n \<le> 8 * length bits" "\<forall>i < ?n. get_bit bits i = valid_at (seg_validity s) i"
  proof (cases "seg_validity s")
    case None
    then show ?thesis using replicate_ones[of _ ?n] validity_size_bound(1)[of ?n]
      by (intro that[of "replicate ((?n + 7) div 8) 0xFF"]) (simp_all add: valid_at_def validity_size_def)
  next
    case (Some bm)
    then have b: "view_ok bm" "bv_len bm = ?n" using seg(1) by (simp_all add: seg_ok_def validity_ok_def)
    obtain p where "view_to_packed_bytes bm = (Ok p :: (core_error, _) res)" "length p = validity_size (bv_len bm)"
      "\<forall>j. j < 8 * length p \<longrightarrow> get_bit p j = (j < bv_len bm \<and> view_bit bm j)"
      using view_to_packed_bytes_eq[OF b(1)] by blast
    then show ?thesis using Some b(2) validity_size_bound(1)[of ?n]
      by (intro that[of p]) (simp_all add: valid_at_def)
  qed
  have "case Some bits of None \<Rightarrow> True | Some p \<Rightarrow> ?n \<le> 8 * length p" using bits(2) by simp
  from stitch_chunk_bits_holds[OF st this] obtain st' where
    st': "stitch_chunk_bits (Some bits) ?n st = Ok st'" "stream_holds st' (bs @ chunk_flags (Some bits) ?n)" by blast
  have "chunk_flags (Some bits) ?n = map fst (seg_cells src s)"
    using bits(3) by (simp add: chunk_flags_def seg_cells_def)
  then show ?thesis using st' bits(1) conv v(1)
    by (intro exI[of _ st']) (simp add: cast_segment_def Let_def)
qed

lemma cast_segments_eq:
  assumes "\<forall>s \<in> set segs. seg_ok src s \<and> (\<exists>v. seg_values s = Fixed v)" "src \<noteq> Utf8" "stream_holds st bs"
  shows "\<exists>st'. foldM (cast_segment src dst) (out, rows, st) segs =
      Ok (out @ conv_all src dst (concat (map (seg_cells src) segs)), rows + sum_list (map seg_rows segs), st') \<and>
    stream_holds st' (bs @ map fst (concat (map (seg_cells src) segs)))"
  using assms(1,3)
proof (induction segs arbitrary: out rows st bs)
  case Nil
  then show ?case by (simp add: conv_all_def)
next
  case (Cons s segs)
  obtain st1 where st1: "cast_segment src dst (out, rows, st) s =
      Ok (out @ conv_all src dst (seg_cells src s), rows + seg_rows s, st1)"
    "stream_holds st1 (bs @ map fst (seg_cells src s))"
    using cast_segment_eq[of src s st bs dst out rows] Cons.prems assms(2) by auto
  have "\<forall>s \<in> set segs. seg_ok src s \<and> (\<exists>v. seg_values s = Fixed v)" using Cons.prems(1) by simp
  from Cons.IH[OF this st1(2), of "out @ conv_all src dst (seg_cells src s)" "rows + seg_rows s"] show ?case
    using st1(1) by (auto simp: conv_all_append add.assoc)
qed

text \<open>The state of a reader that has passed the first rows of a handle.\<close>

definition reader_at ::
  "field_handle \<Rightarrow> scan_source \<Rightarrow> data_type \<Rightarrow> nat \<Rightarrow> cast_reader \<Rightarrow> bool" where
  "reader_at h src dst k r \<longleftrightarrow> cr_handle r = h \<and> cr_src r = src_type src \<and> cr_dst r = dst \<and>
     cr_total r = fd_row_count h \<and> cr_offset r = k \<and> k \<le> fd_row_count h \<and> cr_phase r = 0 \<and> cr_validity_written r = 0 \<and>
     stream_holds (cr_bit_acc r, cr_acc_bits r, cr_validity_stream r) (map fst (take k (source_cells src (fd_row_count h))))"

lemma take_slice: "lo \<le> hi \<Longrightarrow> take lo xs @ slice lo hi xs = take hi xs"
  by (metis le_add_diff_inverse slice_def take_add)

lemma next_values_eq:
  assumes r: "reader_at h src dst k r" and ok: "fd_ok h src" "src_type src \<noteq> Utf8" and k: "k < fd_row_count h"
  shows "\<exists>j b r'. cast_next_values r = Ok (Some b, r') \<and> k < j \<and> j \<le> fd_row_count h \<and> reader_at h src dst j r' \<and>
    sv_values b = conv_all (src_type src) dst (slice k j (source_cells src (fd_row_count h))) \<and> sv_rows b = j - k"
proof -
  let ?N = "fd_row_count h" and ?cells = "source_cells src (fd_row_count h)"
  define n where "n = min CAST_BATCH_ROWS (?N - k)"
  have n: "0 < n" "k + n \<le> ?N" using k by (auto simp: n_def CAST_BATCH_ROWS_def)
  obtain v where v: "read_field_handle h k n = Ok v" "column_view_ok v" "cv_length v = n" "cv_data_type v = src_type src"
    "view_cells v = slice k (k + n) ?cells" using read_eq[OF ok(1) n(2)] by blast
  have segs: "\<forall>s \<in> set (cv_segments v). seg_ok (src_type src) s \<and> (\<exists>b. seg_values s = Fixed b)"
    using v(2,4) read_fixed[OF v(1)] by (simp add: column_view_ok_def)
  have st: "stream_holds (cr_bit_acc r, cr_acc_bits r, cr_validity_stream r) (map fst (take k ?cells))"
    using r by (simp add: reader_at_def)
  obtain acc m out where f: "foldM (cast_segment (src_type src) dst)
      ([], 0, (cr_bit_acc r, cr_acc_bits r, cr_validity_stream r)) (cv_segments v) =
      Ok (conv_all (src_type src) dst (slice k (k + n) ?cells), n, (acc, m, out))"
    "stream_holds (acc, m, out) (map fst (take k ?cells) @ map fst (slice k (k + n) ?cells))"
    using cast_segments_eq[OF segs ok(2) st, of dst "[]" 0] v(2-5)
    by (auto simp: view_cells_def column_view_ok_def)
  have t: "map fst (take k ?cells) @ map fst (slice k (k + n) ?cells) = map fst (take (k + n) ?cells)"
    by (simp flip: map_append add: take_slice)
  let ?r' = "r\<lparr>cr_offset := k + n, cr_bit_acc := acc, cr_acc_bits := m, cr_validity_stream := out\<rparr>"
  have "cast_next_values r = Ok (Some \<lparr>sv_values = conv_all (src_type src) dst (slice k (k + n) ?cells), sv_rows = n\<rparr>, ?r')"
    using r k v(1) f(1) by (simp add: cast_next_values_def reader_at_def Let_def n_def[symmetric])
  moreover have "reader_at h src dst (k + n) ?r'" using r n(2) f(2) t by (simp add: reader_at_def)
  ultimately show ?thesis using n by (intro exI[of _ "k + n"]) simp
qed

lemma drain_values_eq:
  assumes "fd_ok h src" "src_type src \<noteq> Utf8" "reader_at h src dst k r" "fd_row_count h - k \<le> fuel"
  shows "\<exists>bs r'. drain_values fuel r = (map Ok bs, r') \<and> reader_at h src dst (fd_row_count h) r' \<and>
    concat (map sv_values bs) = conv_all (src_type src) dst (drop k (source_cells src (fd_row_count h))) \<and>
    sum_list (map sv_rows bs) = fd_row_count h - k"
  using assms(3,4)
proof (induction fuel arbitrary: k r)
  case 0
  then have "k = fd_row_count h" by (simp add: reader_at_def)
  then show ?case using 0 by (intro exI[of _ "[]"] exI[of _ r]) (simp add: reader_at_def conv_all_def source_cells_def)
next
  case (Suc fuel)
  let ?N = "fd_row_count h" and ?cells = "source_cells src (fd_row_count h)"
  show ?case
  proof (cases "k < ?N")
    case True
    obtain j b r' where j: "cast_next_values r = Ok (Some b, r')" "k < j" "j \<le> ?N" "reader_at h src dst j r'"
      "sv_values b = conv_all (src_type src) dst (slice k j ?cells)" "sv_rows b = j - k"
      using next_values_eq[OF Suc.prems(1) assms(1,2) True] by blast
    have "?N - j \<le> fuel" using Suc.prems(2) j(2) by simp
    from Suc.IH[OF j(4) this] obtain bs r'' where b: "drain_values fuel r' = (map Ok bs, r'')"
      "reader_at h src dst ?N r''" "concat (map sv_values bs) = conv_all (src_type src) dst (drop j ?cells)"
      "sum_list (map sv_rows bs) = ?N - j" by blast
    have d: "slice k j ?cells @ drop j ?cells = drop k ?cells"
      using j(2) append_take_drop_id[of "j - k" "drop k ?cells"] by (simp add: slice_def)
    show ?thesis
      using j b by (intro exI[of _ "b # bs"] exI[of _ r'']) (simp add: conv_all_append[symmetric] d)
  next
    case False
    then have "k = ?N" using Suc.prems(1) by (simp add: reader_at_def)
    then show ?thesis using Suc.prems(1)
      by (intro exI[of _ "[]"] exI[of _ r]) (simp add: reader_at_def cast_next_values_def conv_all_def source_cells_def)
  qed
qed

lemma drain_validity_pieces:
  assumes "stream_holds (cr_bit_acc r, cr_acc_bits r, cr_validity_stream r) fl"
    "cr_validity_written r \<le> length (cr_validity_stream r)"
  shows "concat (drain_validity r) = drop (cr_validity_written r) (cr_validity_stream r) @
      (if 0 < cr_acc_bits r then [ucast (cr_bit_acc r)] else []) \<and> (\<forall>p \<in> set (drain_validity r). p \<noteq> [])"
  using assms(2)
proof (induction r rule: drain_validity.induct)
  case (1 r0)
  define r where "r = (if cr_phase r0 = 0 then r0\<lparr>cr_phase := 1\<rparr> else r0)"
  have sel: "cr_validity_stream r = cr_validity_stream r0" "cr_validity_written r = cr_validity_written r0"
    "cr_acc_bits r = cr_acc_bits r0" "cr_bit_acc r = cr_bit_acc r0" by (simp_all add: r_def)
  show ?case
  proof (cases "cr_validity_written r0 < length (cr_validity_stream r0)")
    case True
    define stop where "stop = min (cr_validity_written r0 + 64 * 1024) (length (cr_validity_stream r0))"
    have nx: "cast_next_validity r0 = (Some (slice (cr_validity_written r0) stop (cr_validity_stream r0)), r\<lparr>cr_validity_written := stop\<rparr>)"
      using True by (simp add: cast_next_validity_def Let_def r_def[symmetric] sel stop_def)
    have st: "cr_validity_written r0 < stop" "stop \<le> length (cr_validity_stream r0)" using True by (simp_all add: stop_def)
    have ih: "concat (drain_validity (r\<lparr>cr_validity_written := stop\<rparr>)) = drop stop (cr_validity_stream r0) @
        (if 0 < cr_acc_bits r0 then [ucast (cr_bit_acc r0)] else []) \<and>
        (\<forall>p \<in> set (drain_validity (r\<lparr>cr_validity_written := stop\<rparr>)). p \<noteq> [])"
      using 1(1)[OF nx[symmetric] refl] st sel by simp
    have "slice (cr_validity_written r0) stop (cr_validity_stream r0) \<noteq> []" using st by (simp add: slice_def)
    moreover have "slice (cr_validity_written r0) stop (cr_validity_stream r0) @ drop stop (cr_validity_stream r0) =
        drop (cr_validity_written r0) (cr_validity_stream r0)"
      using st append_take_drop_id[of "stop - cr_validity_written r0" "drop (cr_validity_written r0) (cr_validity_stream r0)"]
      by (simp add: slice_def)
    ultimately show ?thesis using ih nx by (subst (1 2) drain_validity.simps) simp
  next
    case False
    then have w: "drop (cr_validity_written r0) (cr_validity_stream r0) = []" by simp
    show ?thesis
    proof (cases "0 < cr_acc_bits r0")
      case True
      let ?r1 = "r\<lparr>cr_bit_acc := 0, cr_acc_bits := 0\<rparr>"
      have nx: "cast_next_validity r0 = (Some [ucast (cr_bit_acc r0)], ?r1)"
        using False True by (simp add: cast_next_validity_def Let_def r_def[symmetric] sel)
      have "drain_validity ?r1 = []"
        using False by (subst drain_validity.simps) (simp add: cast_next_validity_def Let_def sel)
      then show ?thesis using nx w True by (subst (1 2) drain_validity.simps) simp
    next
      case f2: False
      have "cast_next_validity r0 = (None, r)"
        using False f2 by (simp add: cast_next_validity_def Let_def r_def[symmetric] sel)
      then show ?thesis using w f2 by (subst (1 2) drain_validity.simps) simp
    qed
  qed
qed

lemma cast_stream_eq:
  assumes "fd_ok h src" "src_type src \<noteq> Utf8"
  shows "\<exists>bs ps. cast_stream h (src_type src) dst = \<lparr>rd_values = map Ok bs, rd_validity = map Ok ps\<rparr> \<and>
    concat (map sv_values bs) = conv_all (src_type src) dst (source_cells src (fd_row_count h)) \<and>
    sum_list (map sv_rows bs) = fd_row_count h \<and> (\<forall>p \<in> set ps. p \<noteq> []) \<and>
    length (concat ps) = validity_size (fd_row_count h) \<and>
    (\<forall>i < fd_row_count h. get_bit (concat ps) i = fst (source_cells src (fd_row_count h) ! i))"
proof -
  let ?N = "fd_row_count h" and ?cells = "source_cells src (fd_row_count h)"
  define r where "r = \<lparr>cr_handle = h, cr_src = src_type src, cr_dst = dst, cr_total = ?N, cr_offset = 0, cr_phase = 0,
    cr_validity_stream = [], cr_bit_acc = 0, cr_acc_bits = 0, cr_validity_written = 0\<rparr>"
  have "reader_at h src dst 0 r" by (simp add: reader_at_def r_def stream_holds_def)
  from drain_values_eq[OF assms this, of ?N] obtain bs r' where d: "drain_values ?N r = (map Ok bs, r')"
    "reader_at h src dst ?N r'" "concat (map sv_values bs) = conv_all (src_type src) dst ?cells"
    "sum_list (map sv_rows bs) = ?N" by auto
  have st: "stream_holds (cr_bit_acc r', cr_acc_bits r', cr_validity_stream r') (map fst ?cells)"
    and w: "cr_validity_written r' = 0"
    using d(2) by (simp_all add: reader_at_def source_cells_def)
  have p: "concat (drain_validity r') = stream_bytes (cr_bit_acc r', cr_acc_bits r', cr_validity_stream r')"
    "\<forall>p \<in> set (drain_validity r'). p \<noteq> []"
    using drain_validity_pieces[OF st] w by (simp_all add: stream_bytes_def)
  have "cast_stream h (src_type src) dst = \<lparr>rd_values = map Ok bs, rd_validity = map Ok (drain_validity r')\<rparr>"
    using d(1) by (simp add: cast_stream_def Let_def r_def)
  then show ?thesis
    using d(3,4) p length_stream_bytes[OF st] stream_bytes_get[OF st]
    by (intro exI[of _ bs] exI[of _ "drain_validity r'"]) (simp add: source_cells_def)
qed


subsection \<open>A stream written as a file\<close>

lemma stream_values_loop:
  assumes "fs p = Some old"
  shows "io_fold (stream_values_step p) (r0, d0) (map Ok bs) fs =
    (Ok (r0 + of_nat (sum_list (map sv_rows bs)), d0 + length (concat (map sv_values bs))),
     fs(p \<mapsto> old @ concat (map sv_values bs)))"
  using assms
proof (induction bs arbitrary: r0 d0 old fs)
  case Nil
  then show ?case by (simp add: io_ret_def fun_upd_idem)
next
  case (Cons b bs)
  have "stream_values_step p (r0, d0) (Ok b) fs =
      (Ok (r0 + of_nat (sv_rows b), d0 + length (sv_values b)), fs(p \<mapsto> old @ sv_values b))"
    using Cons.prems by (simp add: stream_values_step_def io_simps)
  then have "io_bind (stream_values_step p (r0, d0) (Ok b)) f fs =
      f (r0 + of_nat (sv_rows b), d0 + length (sv_values b)) (fs(p \<mapsto> old @ sv_values b))" for f :: "_ \<Rightarrow> (u32 \<times> nat) io"
    by (rule io_bind_Ok)
  then show ?case
    using Cons.IH[of "fs(p \<mapsto> old @ sv_values b)" "old @ sv_values b" "r0 + of_nat (sv_rows b)" "d0 + length (sv_values b)"]
    by (simp add: add.assoc fun_upd_same del: fun_upd_apply)
qed

lemma stream_validity_loop:
  assumes "fs p = Some old" "length old = base + written" "\<forall>q \<in> set ps. q \<noteq> []"
    and "written + length (concat ps) = validity_size tot" "8 * written \<le> tot \<or> ps = []"
  shows "stream_validity p base (validity_size tot) tot (map Ok ps) written k fs =
    (Ok (k + ones (concat ps) 0 (tot - 8 * written)), fs(p \<mapsto> old @ concat ps))"
  using assms
proof (induction ps arbitrary: written k old fs)
  case Nil
  then have "tot \<le> 8 * written" using validity_size_bound(1)[of tot] by simp
  then show ?case using Nil by (subst stream_validity.simps) (simp add: io_ret_def fun_upd_idem)
next
  case (Cons q ps)
  let ?T = "tot - 8 * written" and ?L = "8 * length q"
  have w: "written < validity_size tot" using Cons.prems(3,4) by (cases q) auto
  have cnt: "bitmap_count_ones q 0 (min (length q * 8) (tot - written * 8)) = (Ok (ones q 0 (min ?L ?T)) :: (core_error, _) res)"
    by (simp add: bitmap_count_ones_eq mult.commute)
  have front: "ones (q @ concat ps) 0 (min ?L ?T) = ones q 0 (min ?L ?T)"
    by (rule ones_cong) (simp add: get_bit_front)
  have tot: "tot \<le> 8 * (written + length q + length (concat ps))"
    using validity_size_bound(1)[of tot] Cons.prems(4) by simp
  have split: "ones (q @ concat ps) 0 ?T = ones q 0 (min ?L ?T) + ones (concat ps) 0 (tot - 8 * (written + length q))"
  proof (cases "?T \<le> ?L")
    case True
    then have "tot - 8 * (written + length q) = 0" by simp
    then show ?thesis using True front by (simp add: min_absorb2)
  next
    case False
    have "ones (q @ concat ps) 0 ?T = ones (q @ concat ps) 0 ?L + ones (q @ concat ps) ?L ?T"
      by (rule ones_split) (use False in simp_all)
    moreover have "ones (q @ concat ps) ?L ?T = ones (concat ps) 0 (?T - ?L)"
      using ones_append_drop[of "length q" ?L "q @ concat ps" ?T] by simp
    ultimately show ?thesis using False front by (simp add: min_absorb1 algebra_simps)
  qed
  have more: "8 * (written + length q) \<le> tot \<or> ps = []"
  proof (cases ps)
    case (Cons q' ps')
    then have "0 < length q'" "written + length q + length q' \<le> (tot + 7) div 8"
      using Cons.prems(3,4) by (auto simp: validity_size_def)
    then have "written + length q + 1 \<le> (tot + 7) div 8" by (cases q') simp_all
    then have "8 * (written + length q + 1) \<le> 8 * ((tot + 7) div 8)" by (intro mult_le_mono2)
    moreover have "8 * ((tot + 7) div 8) \<le> tot + 7" by simp
    ultimately have "8 * (written + length q + 1) \<le> tot + 7" by (rule le_trans)
    then show ?thesis by simp
  qed simp
  have "stream_validity p base (validity_size tot) tot (map Ok (q # ps)) written k fs =
      stream_validity p base (validity_size tot) tot (map Ok ps) (written + length q) (k + ones q 0 (min ?L ?T))
        (fs(p \<mapsto> old @ q))"
    using w Cons.prems(1,2) by (subst stream_validity.simps) (simp add: cnt io_simps overwrite_end del: fun_upd_apply)
  also have "\<dots> = (Ok (k + ones q 0 (min ?L ?T) + ones (concat ps) 0 (tot - 8 * (written + length q))),
      fs(p \<mapsto> old @ q, p \<mapsto> (old @ q) @ concat ps))"
    by (rule Cons.IH) (use Cons.prems more in auto)
  finally show ?case using split by (simp del: fun_upd_apply)
qed

text \<open>The file a stream is written to.\<close>

definition stream_file :: "data_type \<Rightarrow> nat \<Rightarrow> nat \<Rightarrow> bytes \<Rightarrow> bytes \<Rightarrow> bytes" where
  "stream_file dt n nulls data vb =
     field_header_to_bytes (field_header_new_uncompressed dt 1 (of_nat n) (of_nat nulls) True) @ data @ vb"

lemma stream_created:
  assumes fs: "fs p = None" and n: "n \<le> u32_max" "sum_list (map sv_rows bs) = n"
    and ps: "\<forall>q \<in> set ps. q \<noteq> []" "length (concat ps) = validity_size n"
  shows "create_field_file_plain p dt (FI_Stream \<lparr>rd_values = map Ok bs, rd_validity = map Ok ps\<rparr>) fs =
    (Ok (), fs(p \<mapsto> stream_file dt n (n - ones (concat ps) 0 n) (concat (map sv_values bs)) (concat ps)))"
proof -
  let ?Z = "replicate HEADER_SIZE 0" and ?data = "concat (map sv_values bs)"
  have rows: "unat (of_nat n :: u32) = n" using n(1) by (rule unat_of_nat_u32)
  have v: "io_fold (stream_values_step p) (0, 0) (map Ok bs) (fs(p \<mapsto> ?Z)) =
      (Ok (of_nat n, length ?data), fs(p \<mapsto> ?Z @ ?data))"
    using stream_values_loop[of "fs(p \<mapsto> ?Z)" p ?Z 0 0 bs] n(2) by simp
  have b: "stream_validity p (HEADER_SIZE + length ?data) (validity_size n) n (map Ok ps) 0 0 (fs(p \<mapsto> ?Z @ ?data)) =
      (Ok (ones (concat ps) 0 n), fs(p \<mapsto> (?Z @ ?data) @ concat ps))"
    using stream_validity_loop[of "fs(p \<mapsto> ?Z @ ?data)" p "?Z @ ?data" "HEADER_SIZE + length ?data" 0 ps n 0] ps by simp
  have vb: "io_bind (io_fold (stream_values_step p) (0, 0) (map Ok bs)) f (fs(p \<mapsto> ?Z)) =
      f (of_nat n, length ?data) (fs(p \<mapsto> ?Z @ ?data))" for f :: "_ \<Rightarrow> (u32 \<times> u32 \<times> bool) io"
    using v by (rule io_bind_Ok)
  have bb: "io_bind (stream_validity p (HEADER_SIZE + length ?data) (validity_size n) n (map Ok ps) 0 0) f (fs(p \<mapsto> ?Z @ ?data)) =
      f (ones (concat ps) 0 n) (fs(p \<mapsto> (?Z @ ?data) @ concat ps))" for f :: "_ \<Rightarrow> (u32 \<times> u32 \<times> bool) io"
    using b by (rule io_bind_Ok)
  have sub: "(of_nat n :: u32) - of_nat (ones (concat ps) 0 n) = of_nat (n - ones (concat ps) 0 n)"
    using ones_le[of "concat ps" 0 n] by simp
  show ?thesis
    using fs ps(2) vb bb
      write_header_app[of "fs(p \<mapsto> (?Z @ ?data) @ concat ps)" p "?data @ concat ps"]
    by (simp add: create_field_file_plain_def io_simps rows Let_def io_set_len_def stream_file_def sub)
qed


subsection \<open>Casting a file\<close>

lemma open_plain_file:
  assumes "fs p = Some (field_header_to_bytes hdr @ body)" "field_header_ok hdr" "\<not> is_chunked hdr" "body \<noteq> []"
  shows "\<exists>h. open_field_file B p md fs = (Ok h, fs) \<and> fd_header h = hdr"
proof -
  let ?bs = "field_header_to_bytes hdr @ body"
  have "length ?bs \<noteq> HEADER_SIZE" using assms(4) header_image_length by simp
  then have "open_parts B ?bs hdr = Ok ([], None)" using assms(3) by (simp add: open_parts_def Let_def)
  from open_eq[where fs = fs and path = p, OF assms(1,2) refl this] show ?thesis
    by (auto simp: opened_field_def opened_header_def)
qed

lemma patch_header_eq:
  assumes "fs p = Some (field_header_to_bytes hdr @ body)" "field_header_ok hdr"
  shows "patch_header p f fs = (Ok (), fs(p \<mapsto> field_header_to_bytes (f hdr) @ body))"
proof -
  have "io_read_exact p HEADER_SIZE fs = (Ok (field_header_to_bytes hdr), fs)"
    using assms(1) header_image_length
    by (simp add: io_read_exact_def io_bind_def io_lift_def io_read_def file_open_def)
  moreover have "field_header_from_bytes (field_header_to_bytes hdr) = Ok hdr" using field_pod.from_to[OF assms(2)] .
  moreover have "write_header p (f hdr) fs = (Ok (), fs(p \<mapsto> field_header_to_bytes (f hdr) @ body))"
    using assms(1) header_image_length by (simp add: write_header_def io_simps overwrite_prefix)
  ultimately show ?thesis by (simp add: patch_header_def io_simps)
qed

lemma ones_flags:
  assumes "\<forall>i < length cells. get_bit vb i = fst (cells ! i)"
  shows "length cells - ones vb 0 (length cells) = nulls_of cells"
proof -
  have m: "map ((!) cells) [0..<length cells] = cells" by (rule map_nth)
  have "ones vb 0 (length cells) = length (filter (\<lambda>i. fst (cells ! i)) [0..<length cells])"
    unfolding ones_def using assms by (intro length_filter_cong) simp
  also have "\<dots> = length (filter fst (map ((!) cells) [0..<length cells]))" by (simp add: filter_map comp_def)
  finally have "ones vb 0 (length cells) = length (filter fst cells)" unfolding m .
  moreover have "length (filter fst cells) + length (filter (\<lambda>c. \<not> fst c) cells) = length cells"
    by (rule sum_length_filter_compl)
  ultimately show ?thesis by (simp add: nulls_of_def)
qed

lemma conv_cells:
  assumes "\<forall>i < length cells. get_bit vb i = fst (cells ! i)"
  shows "cells_of dst (conv_all src dst cells) (get_bit vb) (length cells) = map (conv_cell src dst) cells"
proof (rule nth_equalityI)
  fix i assume "i < length (cells_of dst (conv_all src dst cells) (get_bit vb) (length cells))"
  then have i: "i < length cells" by simp
  have "conv_all src dst cells = concat (map (\<lambda>j. conv_bytes src dst (cell_bytes (snd (cells ! j)))) [0..<length cells])"
    by (simp add: conv_all_def) (metis (mono_tags, lifting) map_nth map_map comp_def map_eq_conv)
  then have "item (conv_all src dst cells) (size_of dst) i = conv_bytes src dst (cell_bytes (snd (cells ! i)))"
    using item_concat_map[OF i, of "\<lambda>j. conv_bytes src dst (cell_bytes (snd (cells ! j)))" "size_of dst"] by simp
  then show "cells_of dst (conv_all src dst cells) (get_bit vb) (length cells) ! i = map (conv_cell src dst) cells ! i"
    using i assms by (simp add: conv_cell_def add.commute)
qed simp

text \<open>The file the stream of a cast makes, once its generation is restored.\<close>

lemma converted_file:
  fixes dst cells vb g
  defines "H \<equiv> (field_header_new_uncompressed dst 1 (of_nat (length cells)) (of_nat (nulls_of cells)) True)\<lparr>fh_generation := g\<rparr>"
  assumes "dst \<noteq> Utf8" "0 < length cells" "length cells \<le> u32_max" "length vb = validity_size (length cells)"
    and "\<forall>i < length cells. get_bit vb i = fst (cells ! i)"
  shows "field_holds B (field_header_to_bytes H @ conv_all src dst cells @ vb) dst (map (conv_cell src dst) cells)"
    and "field_header_ok H" "\<not> is_chunked H" "unat (fh_null_count H) = nulls_of cells"
proof -
  have n: "unat (of_nat (length cells) :: u32) = length cells" using assms(4) by (rule unat_of_nat_u32)
  have hv: "has_validity H" by (simp add: H_def has_validity_bit) (simp flip: has_validity_bit)
  show ok: "field_header_ok H" using new_uncompressed_ok by (auto simp: H_def field_header_ok_iff)
  show ch: "\<not> is_chunked H" by (simp add: H_def is_chunked_def)
  have ne: "vb \<noteq> []" using assms(3,5) validity_size_bound(1)[of "length cells"] by auto
  have "nulls_of cells \<le> u32_max" unfolding nulls_of_def using length_filter_le assms(4) by (rule le_trans)
  then show "unat (fh_null_count H) = nulls_of cells" by (simp add: H_def unat_of_nat_u32)
  have "field_holds B (field_header_to_bytes H @ conv_all src dst cells @ vb) dst
      (cells_of dst (conv_all src dst cells) (\<lambda>i. if has_validity H then get_bit vb i else True) (length cells))"
    using assms(4,5) ok ch hv n ne
    by (intro plain_holds) (auto simp: H_def field_data_type_def new_uncompressed_data_length field_validity_size_def)
  then show "field_holds B (field_header_to_bytes H @ conv_all src dst cells @ vb) dst (map (conv_cell src dst) cells)"
    using hv conv_cells[OF assms(6)] by simp
qed


lemma starts_of_ok:
  assumes "sum_list rows = n" "\<forall>r \<in> set rows. 0 < r" "rows \<noteq> []"
  shows "starts_of rows \<noteq> [] \<and> hd (starts_of rows) = 0 \<and> (\<forall>s \<in> set (starts_of rows). s < n)"
proof -
  have b: "(e, r) \<in> set (zip (running_ends a rs) rs) \<Longrightarrow> r \<le> e \<and> e \<le> a + sum_list rs" for a e r rs
  proof (induction rs arbitrary: a)
    case (Cons x xs)
    then show ?case by (cases "(e, r) = (a + x, x)") fastforce+
  qed simp
  have "e - r < n" if "(e, r) \<in> set (zip (running_ends 0 rows) rows)" for e r
  proof -
    have "0 < r" using that assms(2) by (auto dest: set_zip_rightD)
    then show ?thesis using b[OF that] assms(1) by linarith
  qed
  moreover have "starts_of rows \<noteq> [] \<and> hd (starts_of rows) = 0"
    using assms(3) by (cases rows) (simp_all add: starts_of_def)
  ultimately show ?thesis by (auto simp: starts_of_def)
qed

lemma starts_accepted:
  assumes "starts \<noteq> []" "hd starts = 0" "\<forall>s \<in> set starts. s < n"
  shows "\<exists>l. compress_offsets n (Some starts) = Ok l"
proof -
  have s: "\<not> (\<exists>w \<in> set (pairs_of (remdups_adj (sort starts))). fst w \<ge> snd w)"
    by (rule pairs_of_strict[OF sorted_remdups_adj_sort])
  have "\<not> (\<exists>o' \<in> set (remdups_adj (sort starts)). n \<le> o')" using assms(3) by (auto simp: not_le)
  moreover have "sort starts \<noteq> []" using assms(1) by (metis length_0_conv length_sort)
  ultimately show ?thesis using assms(1,2) s by (auto simp: compress_offsets_def Let_def)
qed

text \<open>The file that the stream of a cast is written to, before the file is compressed again.\<close>

lemma cast_written:
  assumes ok: "fd_ok h src" "src_type src \<noteq> Utf8" "dst \<noteq> Utf8" and n: "0 < fd_row_count h" "fd_row_count h \<le> u32_max"
    and fs: "fs tmp = None"
  shows "\<exists>hdr body. create_field_file B tmp dst (FI_Stream (cast_stream h (src_type src) dst)) default_options fs =
      (Ok (), fs(tmp \<mapsto> field_header_to_bytes hdr @ body)) \<and> field_header_ok hdr \<and> body \<noteq> [] \<and>
    (\<forall>g. field_holds B (field_header_to_bytes (hdr\<lparr>fh_generation := g\<rparr>) @ body) dst
           (map (conv_cell (src_type src) dst) (source_cells src (fd_row_count h))) \<and>
         field_header_ok (hdr\<lparr>fh_generation := g\<rparr>) \<and> \<not> is_chunked (hdr\<lparr>fh_generation := g\<rparr>) \<and>
         unat (fh_null_count (hdr\<lparr>fh_generation := g\<rparr>)) = nulls_of (source_cells src (fd_row_count h)))"
proof -
  let ?N = "fd_row_count h" and ?cells = "source_cells src (fd_row_count h)"
  have l: "length ?cells = ?N" by (simp add: source_cells_def)
  obtain bs ps where s: "cast_stream h (src_type src) dst = \<lparr>rd_values = map Ok bs, rd_validity = map Ok ps\<rparr>"
    "concat (map sv_values bs) = conv_all (src_type src) dst ?cells"
    "sum_list (map sv_rows bs) = ?N" "\<forall>p \<in> set ps. p \<noteq> []" "length (concat ps) = validity_size ?N"
    "\<forall>i < ?N. get_bit (concat ps) i = fst (?cells ! i)" using cast_stream_eq[OF ok(1,2), of dst] by blast
  let ?H = "field_header_new_uncompressed dst 1 (of_nat (length ?cells)) (of_nat (nulls_of ?cells)) True"
  let ?body = "conv_all (src_type src) dst ?cells @ concat ps"
  have fl: "\<forall>i < length ?cells. get_bit (concat ps) i = fst (?cells ! i)" using s(6) l by simp
  have nu: "?N - ones (concat ps) 0 ?N = nulls_of ?cells" using ones_flags[OF fl] l by simp
  have "create_field_file B tmp dst (FI_Stream (cast_stream h (src_type src) dst)) default_options fs =
      (Ok (), fs(tmp \<mapsto> field_header_to_bytes ?H @ ?body))"
    using stream_created[where fs = fs and p = tmp and dt = dst, OF fs n(2) s(3,4,5)] fs
    by (simp add: create_field_file_def default_options_def io_exists_def io_bind_def s(1,2) stream_file_def nu l)
  moreover have "0 < length (concat ps)"
    using s(5) n(1) validity_size_bound(1)[of ?N] by (cases "validity_size ?N") simp_all
  then have "?body \<noteq> []" by (metis append_is_Nil_conv length_greater_0_conv)
  moreover have "field_header_ok ?H" by (rule new_uncompressed_ok)
  moreover have "0 < length ?cells" "length ?cells \<le> u32_max" "length (concat ps) = validity_size (length ?cells)"
    using n s(5) l by simp_all
  note converted_file(1)[where B = B and src = "src_type src", OF ok(3) this fl] converted_file(2-4)[OF ok(3) this fl]
  ultimately show ?thesis by (intro exI[of _ ?H] exI[of _ ?body]) blast
qed


lemma plain_length_eq:
  "fs p = None \<Longrightarrow> create_field_file_plain p dt (FI_Length n) fs =
     (Ok (), fs(p \<mapsto> field_header_to_bytes (field_header_new_uncompressed dt 1 (of_nat n) (of_nat n) True)))"
  using write_header_app[of "fs(p \<mapsto> replicate HEADER_SIZE 0)" p "[]"]
  by (simp add: create_field_file_plain_def io_bind_def io_create_new_def io_append_def io_ret_def)

text \<open>The parts of a cast before the rename, by what the file is.\<close>

definition cast_result :: "codec_backend \<Rightarrow> files \<Rightarrow> string \<Rightarrow> field_handle \<Rightarrow> scan_source \<Rightarrow> data_type \<Rightarrow> files \<Rightarrow> bool" where
  "cast_result B fs tmp h src dst fs' \<longleftrightarrow> (\<exists>cells hdr body.
     fs' tmp = Some (field_header_to_bytes hdr @ body) \<and> field_header_ok hdr \<and>
     field_holds B (field_header_to_bytes hdr @ body) dst cells \<and> length cells = fd_row_count h \<and>
     shown cells = shown (map (conv_cell (src_type src) dst) (source_cells src (fd_row_count h))) \<and>
     is_chunked hdr = fd_is_chunked h \<and> fh_generation hdr = fh_generation (fd_header h))"

lemma cast_header_only:
  assumes h: "field_header_ok (fd_header h)" "field_encoding (fd_header h) = Ok e" "field_compression (fd_header h) = Ok c"
    and n: "0 < fd_row_count h" and fs: "fs tmp = None"
    and null: "\<forall>i < fd_row_count h. \<not> fst (source_cells src (fd_row_count h) ! i)"
  shows "\<exists>fs'. io_bind (create_field_file B tmp dst (FI_Length (fd_row_count h)) default_options) (\<lambda>_.
      io_bind (patch_header tmp (\<lambda>hdr. hdr\<lparr>fh_generation := fh_generation (fd_header h)\<rparr>)) (\<lambda>_.
      if \<not> fd_is_chunked h then io_ret ()
      else patch_header tmp (\<lambda>hdr. set_has_validity True
             (hdr\<lparr>fh_compression := compression_id c, fh_encoding := encoding_id e\<rparr>)))) fs = (Ok (), fs') \<and>
    cast_result B fs tmp h src dst fs'"
proof -
  let ?N = "fd_row_count h" and ?g = "fh_generation (fd_header h)"
  let ?Hc = "field_header_new_uncompressed dst 1 (of_nat ?N) (of_nat ?N) True"
  let ?Hg = "?Hc\<lparr>fh_generation := ?g\<rparr>"
  let ?Hf = "if fd_is_chunked h then set_has_validity True (?Hg\<lparr>fh_compression := compression_id c, fh_encoding := encoding_id e\<rparr>) else ?Hg"
  have n32: "?N \<le> u32_max" using unsigned_less[of "fh_row_count (fd_header h)", where ?'a = nat] by (simp add: fd_row_count_def)
  have c0: "create_field_file B tmp dst (FI_Length ?N) default_options fs = (Ok (), fs(tmp \<mapsto> field_header_to_bytes ?Hc @ []))"
    using plain_length_eq[of fs tmp dst ?N] fs by (simp add: create_field_file_def default_options_def io_exists_def io_bind_def)
  have ok: "field_header_ok ?Hc" "field_header_ok ?Hg" "field_header_ok ?Hf"
    using new_uncompressed_ok[of dst 1 "of_nat ?N" "of_nat ?N" True] by (auto simp: field_header_ok_iff)
  have c1: "patch_header tmp (\<lambda>hdr. hdr\<lparr>fh_generation := ?g\<rparr>) (fs(tmp \<mapsto> field_header_to_bytes ?Hc @ [])) =
      (Ok (), fs(tmp \<mapsto> field_header_to_bytes ?Hg @ []))"
    using patch_header_eq[where fs = "fs(tmp \<mapsto> field_header_to_bytes ?Hc @ [])" and p = tmp, OF _ ok(1)] by simp
  have c2: "(if \<not> fd_is_chunked h then io_ret () else patch_header tmp (\<lambda>hdr. set_has_validity True
             (hdr\<lparr>fh_compression := compression_id c, fh_encoding := encoding_id e\<rparr>))) (fs(tmp \<mapsto> field_header_to_bytes ?Hg @ [])) =
      (Ok (), fs(tmp \<mapsto> field_header_to_bytes ?Hf @ []))"
    using patch_header_eq[where fs = "fs(tmp \<mapsto> field_header_to_bytes ?Hg @ [])" and p = tmp, OF _ ok(2)] by (simp add: io_ret_def)
  have ids: "fh_encoding (fd_header h) = encoding_id e" "fh_compression (fd_header h) = compression_id c"
    using h by (auto simp: field_encoding_def field_compression_def encoding_from_id_Ok compression_from_id_Ok)
  then have "is_chunked ?Hf = fd_is_chunked h" by (auto simp: is_chunked_def fd_is_chunked_def)
  moreover have "field_holds B (field_header_to_bytes ?Hf @ []) dst (null_cells dst ?N)"
    using null_holds[OF ok(3), of dst ?N B] n n32 by (simp add: field_data_type_def unat_of_nat_u32)
  moreover have "shown (map (conv_cell (src_type src) dst) (source_cells src ?N)) = replicate ?N None"
    using null shown_null[of "map (conv_cell (src_type src) dst) (source_cells src ?N)"]
    by (simp add: source_cells_def conv_cell_def)
  moreover have "shown (null_cells dst ?N) = replicate ?N None" by (simp add: shown_def null_cells_def)
  ultimately have "cast_result B fs tmp h src dst (fs(tmp \<mapsto> field_header_to_bytes ?Hf @ []))"
    unfolding cast_result_def using ok(3)
    by (intro exI[of _ "null_cells dst ?N"] exI[of _ ?Hf] exI[of _ "[]"]) (simp add: null_cells_def)
  then show ?thesis unfolding io_bind_def c0 prod.case res.case c1 c2 by blast
qed

lemma cast_streamed:
  assumes h: "field_header_ok (fd_header h)" "field_encoding (fd_header h) = Ok e" "field_compression (fd_header h) = Ok c"
    and ok: "fd_ok h src" "src_type src \<noteq> Utf8" "dst \<noteq> Utf8" and n: "0 < fd_row_count h" "fd_row_count h \<le> 2 ^ 26"
    and fs: "fs tmp = None"
    and ch: "fd_is_chunked h \<Longrightarrow> backend_sane B c" "fd_is_chunked h \<Longrightarrow> \<forall>r \<in> set (fd_chunk_rows h). 0 < r"
  shows "\<exists>fs'. io_bind (create_field_file B tmp dst (FI_Stream (cast_stream h (src_type src) dst)) default_options) (\<lambda>_.
      io_bind (patch_header tmp (\<lambda>hdr. hdr\<lparr>fh_generation := fh_generation (fd_header h)\<rparr>)) (\<lambda>_.
      if \<not> fd_is_chunked h then io_ret ()
      else compress_field_file_encoded B tmp (Some (starts_of (fd_chunk_rows h))) e c)) fs = (Ok (), fs') \<and>
    cast_result B fs tmp h src dst fs'"
proof -
  let ?N = "fd_row_count h" and ?g = "fh_generation (fd_header h)"
  let ?cells = "map (conv_cell (src_type src) dst) (source_cells src ?N)"
  have n32: "?N \<le> u32_max" using n(2) by simp
  obtain hdr body where c0: "create_field_file B tmp dst (FI_Stream (cast_stream h (src_type src) dst)) default_options fs =
      (Ok (), fs(tmp \<mapsto> field_header_to_bytes hdr @ body))" "field_header_ok hdr" "body \<noteq> []" and
    g: "\<forall>g. field_holds B (field_header_to_bytes (hdr\<lparr>fh_generation := g\<rparr>) @ body) dst ?cells \<and>
         field_header_ok (hdr\<lparr>fh_generation := g\<rparr>) \<and> \<not> is_chunked (hdr\<lparr>fh_generation := g\<rparr>) \<and>
         unat (fh_null_count (hdr\<lparr>fh_generation := g\<rparr>)) = nulls_of (source_cells src ?N)"
    using cast_written[where fs = fs and tmp = tmp, OF ok n(1) n32 fs] by blast
  let ?H = "hdr\<lparr>fh_generation := ?g\<rparr>"
  let ?fs = "fs(tmp \<mapsto> field_header_to_bytes ?H @ body)"
  have c1: "patch_header tmp (\<lambda>hdr. hdr\<lparr>fh_generation := ?g\<rparr>) (fs(tmp \<mapsto> field_header_to_bytes hdr @ body)) = (Ok (), ?fs)"
    using patch_header_eq[where fs = "fs(tmp \<mapsto> field_header_to_bytes hdr @ body)" and p = tmp, OF _ c0(2)] by simp
  have H: "field_holds B (field_header_to_bytes ?H @ body) dst ?cells" "field_header_ok ?H" "\<not> is_chunked ?H"
    "unat (fh_null_count ?H) = nulls_of (source_cells src ?N)" using g by blast+
  have f: "?fs tmp = Some (field_header_to_bytes ?H @ body)" by simp
  have len: "length ?cells = ?N" by (simp add: source_cells_def)
  have nulls: "nulls_of ?cells = nulls_of (source_cells src ?N)"
    by (simp add: nulls_of_def filter_map comp_def conv_cell_def)
  show ?thesis
  proof (cases "fd_is_chunked h")
    case False
    then have "cast_result B fs tmp h src dst ?fs"
      unfolding cast_result_def using H f len by (intro exI[of _ ?cells] exI[of _ ?H] exI[of _ body]) simp
    then show ?thesis using False unfolding io_bind_def c0(1) prod.case res.case c1 by (simp add: io_ret_def)
  next
    case True
    obtain h2 where op: "open_field_file B tmp Read ?fs = (Ok h2, ?fs)" "fd_header h2 = ?H"
      using open_plain_file[where fs = ?fs and p = tmp, OF f H(2,3) c0(3)] by blast
    obtain h2' src2 where "open_field_file B tmp Read ?fs = (Ok h2', ?fs)" "fd_ok h2' src2" "src_type src2 = dst"
      "fd_row_count h2' = length ?cells" "source_cells src2 (length ?cells) = ?cells"
      using H(1) f unfolding field_holds_def by blast
    then have s2: "fd_ok h2 src2" "src_type src2 = dst" "fd_row_count h2 = ?N" "source_cells src2 ?N = ?cells"
      using op(1) len by simp_all
    have ids: "fh_encoding (fd_header h) = encoding_id e" "fh_compression (fd_header h) = compression_id c"
      using h by (auto simp: field_encoding_def field_compression_def encoding_from_id_Ok compression_from_id_Ok)
    then have ce: "c \<noteq> CNone \<or> e \<noteq> Plain" using True by (auto simp: fd_is_chunked_def is_chunked_def)
    have "sum_list (fd_chunk_rows h) = ?N" using ok(1) True by (simp add: fd_ok_def)
    moreover from this have "fd_chunk_rows h \<noteq> []" using n(1) by auto
    ultimately obtain l where l: "compress_offsets ?N (Some (starts_of (fd_chunk_rows h))) = Ok l"
      using starts_of_ok[OF _ ch(2)[OF True]] starts_accepted by blast
    have pre: "\<not> fd_is_chunked h2" "src_type src2 \<noteq> Utf8" "0 < fd_row_count h2" "fd_row_count h2 \<le> 2 ^ 26"
      "unat (fh_null_count (fd_header h2)) = nulls_of (source_cells src2 (fd_row_count h2))"
      using op(2) H(3,4) s2 ok(3) n nulls by (simp_all add: fd_is_chunked_def)
    note l2 = l[folded s2(3)]
    obtain bs cells hd2 body2 where c: "compress_field_file_encoded B tmp (Some (starts_of (fd_chunk_rows h))) e c ?fs =
        (Ok (), ?fs(tmp_path tmp := None, tmp \<mapsto> bs))" "field_holds B bs dst cells" "length cells = ?N"
      "shown cells = shown ?cells" "field_header_ok hd2" "bs = field_header_to_bytes hd2 @ body2" "is_chunked hd2"
      "fh_generation hd2 = ?g"
      using compress_eq[OF op(1) pre(1) s2(1) pre(2-4) ch(1)[OF True] ce pre(5) l2] s2(2-4) op(2) by auto
    have "cast_result B fs tmp h src dst (?fs(tmp_path tmp := None, tmp \<mapsto> bs))"
      unfolding cast_result_def using c True
      by (intro exI[of _ cells] exI[of _ hd2] exI[of _ body2]) simp
    then show ?thesis using True c(1) unfolding io_bind_def c0(1) prod.case res.case c1 by auto
  qed
qed


lemma touches_field_writers [touch_intros]:
  "p \<in> P \<Longrightarrow> touches P (create_field_file_plain p dt init)"
  "p \<in> P \<Longrightarrow> touches P (create_field_file_chunked B p dt init opts)"
  "p \<in> P \<Longrightarrow> tmp_path p \<in> P \<Longrightarrow> touches P (compress_field_file_encoded B p offs e c)"
  "p \<in> P \<Longrightarrow> touches P (patch_header p f)"
proof -
  have v: "p \<in> P \<Longrightarrow> touches P (stream_validity p base vb tb rs w k)" for base vb tb rs w k
  proof (induction p base vb tb rs w k rule: stream_validity.induct)
    case (1 p base vb tb rs w k)
    then show ?case
      by (subst stream_validity.simps) (cases rs, auto intro!: touch_intros)
  qed
  assume p: "p \<in> P"
  show "touches P (create_field_file_plain p dt init)"
    unfolding create_field_file_plain_def stream_values_step_def write_header_def Let_def
    by (cases init) (auto intro!: touch_intros v p split: option.splits)
  show "touches P (create_field_file_chunked B p dt init opts)"
    unfolding create_field_file_chunked_def create_field_file_chunked_data_def create_field_file_chunked_all_null_def write_header_def Let_def
    by (cases init) (auto intro!: touch_intros p split: option.splits)
  show "touches P (patch_header p f)"
    unfolding patch_header_def io_read_exact_def write_header_def by (intro touch_intros p)
  show "touches P (compress_field_file_encoded B p offs e c)" if "tmp_path p \<in> P"
    unfolding compress_field_file_encoded_def replace_file_def Let_def by (intro touch_intros p that)
qed

lemma touches_create [touch_intros]:
  "p \<in> P \<Longrightarrow> tmp_path p \<in> P \<Longrightarrow> touches P (create_field_file B p dt init opts)"
  unfolding create_field_file_def by (cases init) (auto intro!: touch_intros)

lemma cast_touches:
  "p \<in> P \<Longrightarrow> tmp \<in> P \<Longrightarrow> tmp_path tmp \<in> P \<Longrightarrow> touches P (cast_field_file B p tmp dst)"
  unfolding cast_field_file_def cast_body_def Let_def by (intro touch_intros)

lemma cast_unwinds: "unwinds {tmp, tmp_path tmp} (cast_field_file B p tmp dst)"
proof -
  have on_err: "unwinds P (io_on_err m c)" if "unwinds P m" "touches P c" for P and m :: "unit io" and c
  proof -
    have "fs' q = fs q" if r: "io_on_err m c fs = (r, fs')" "\<not> is_ok r" "q \<notin> P" for fs r fs' q
    proof -
      obtain a fs1 where m: "m fs = (a, fs1)" by (cases "m fs")
      obtain b fs2 where c: "c fs1 = (b, fs2)" by (cases "c fs1")
      have "fs2 q = fs1 q" using touchesD[OF \<open>touches P c\<close> c r(3)] .
      moreover have "\<not> is_ok a \<Longrightarrow> fs1 q = fs q" using unwindsD[OF \<open>unwinds P m\<close> m _ r(3)] by blast
      ultimately show ?thesis using r(1,2) m c by (cases a) (auto simp: io_on_err_def)
    qed
    then show ?thesis by (simp add: unwinds_def)
  qed
  have "unwinds {tmp, tmp_path tmp} (cast_body B p tmp dst)"
    unfolding cast_body_def Let_def by (intro unwind_intros touch_intros) simp_all
  then show ?thesis unfolding cast_field_file_def by (rule on_err) (intro touch_intros, simp_all)
qed

lemma header_ids:
  assumes "open_field_file B p md fs = (Ok h, fs')"
  shows "field_header_ok (fd_header h) \<and> (\<exists>e c. field_encoding (fd_header h) = Ok e \<and> field_compression (fd_header h) = Ok c)"
proof -
  obtain bs header k where "HEADER_SIZE \<le> length bs" "field_header_from_bytes (take HEADER_SIZE bs) = Ok header"
    "fd_header h = header\<lparr>fh_null_count := k\<rparr>" using open_Ok[OF assms] by blast
  then have "field_header_ok (fd_header h)" using header_image_split(1) by (simp add: field_header_ok_iff)
  then show ?thesis by (auto simp: field_header_ok_iff field_encoding_def field_compression_def)
qed

lemma cast_eq:
  assumes op: "open_field_file B p Read fs = (Ok h, fs)" and ok: "fd_ok h src" "src_type src \<noteq> Utf8" "dst \<noteq> Utf8"
    and ne: "dst \<noteq> src_type src" and n: "0 < fd_row_count h" "fd_row_count h \<le> 2 ^ 26" and tmp: "fs tmp = None"
    and ch: "fd_is_chunked h \<longrightarrow> field_compression (fd_header h) = Ok c \<and> backend_sane B c \<and> (\<forall>r \<in> set (fd_chunk_rows h). 0 < r)"
  shows "\<exists>fs'. cast_field_file B p tmp dst fs = (Ok (), fs') \<and> fs' tmp = None \<and>
    (\<exists>fs2. cast_result B fs tmp h src dst fs2 \<and> fs' p = fs2 tmp)"
proof -
  obtain m hd0 k where m: "fs p = Some m" "HEADER_SIZE \<le> length m" "field_header_from_bytes (take HEADER_SIZE m) = Ok hd0"
    "fd_header h = hd0\<lparr>fh_null_count := k\<rparr>" using open_Ok[OF op] by blast
  have pt: "p \<noteq> tmp" using m(1) tmp by auto
  obtain e' c' where ids: "field_header_ok (fd_header h)" "field_encoding (fd_header h) = Ok e'" "field_compression (fd_header h) = Ok c'"
    using header_ids[OF op] by blast
  have ch': "fd_is_chunked h \<Longrightarrow> backend_sane B c'" "fd_is_chunked h \<Longrightarrow> \<forall>r \<in> set (fd_chunk_rows h). 0 < r"
    using ch ids(3) by auto
  have dt: "fd_data_type h = (Ok (src_type src) :: (core_error, _) res)" using fd_ok_type[OF ok(1)] .
  define ho where "ho = (length m = HEADER_SIZE)"
  define mid where "mid = io_bind (create_field_file B tmp dst
      (if ho then FI_Length (fd_row_count h) else FI_Stream (cast_stream h (src_type src) dst)) default_options) (\<lambda>_.
    io_bind (patch_header tmp (\<lambda>hdr. hdr\<lparr>fh_generation := fh_generation (fd_header h)\<rparr>)) (\<lambda>_.
    if \<not> fd_is_chunked h then io_ret ()
    else if ho then patch_header tmp (\<lambda>hdr. set_has_validity True
           (hdr\<lparr>fh_compression := compression_id c', fh_encoding := encoding_id e'\<rparr>))
    else compress_field_file_encoded B tmp (Some (starts_of (fd_chunk_rows h))) e' c'))"
  have assoc: "io_bind m (\<lambda>_. io_bind k (\<lambda>_. r)) = io_bind (io_bind m (\<lambda>_. k)) (\<lambda>_. r)" for m k r :: "unit io"
    by (rule ext) (simp add: io_bind_def split: prod.splits res.splits)
  have "\<exists>fs2. mid fs = (Ok (), fs2) \<and> cast_result B fs tmp h src dst fs2"
  proof (cases ho)
    case True
    then have img: "m = field_header_to_bytes hd0" using header_image_split[OF m(3,2)] by (simp add: ho_def)
    have ty: "field_data_type hd0 = Ok (src_type src)"
      using dt m(4) by (simp add: fd_data_type_def field_data_type_def res_simps)
    have "field_holds B m (src_type src) (null_cells (src_type src) (fd_row_count h))"
      unfolding img using header_image_split(1)[OF m(3,2)] ty n(1) m(4)
      by (intro null_holds) (simp_all add: fd_row_count_def)
    from field_holds_open[OF this m(1) op ok(1)]
    have "\<forall>i < fd_row_count h. \<not> fst (source_cells src (fd_row_count h) ! i)" by (simp add: null_cells_def)
    from cast_header_only[where fs = fs and tmp = tmp, OF ids n(1) tmp this, of B dst]
    show ?thesis using True by (simp add: mid_def cong: if_cong)
  next
    case False
    from cast_streamed[where fs = fs and tmp = tmp, OF ids ok n tmp ch']
    show ?thesis using False by (simp add: mid_def cong: if_cong)
  qed
  then obtain fs2 where fs2: "mid fs = (Ok (), fs2)" "cast_result B fs tmp h src dst fs2" by blast
  obtain T where T: "fs2 tmp = Some T" using fs2(2) unfolding cast_result_def by blast
  have "cast_body B p tmp dst fs = io_bind mid (\<lambda>_. io_rename tmp p) fs"
    unfolding cast_body_def mid_def
    using op dt ne ok(2,3) m(1) ids(2,3) by (simp add: io_simps Let_def ho_def[symmetric] assoc)
  also have "\<dots> = (Ok (), (fs2(tmp := None))(p \<mapsto> T))"
    using fs2(1) T by (simp add: io_bind_def io_rename_def)
  finally have "cast_field_file B p tmp dst fs = (Ok (), (fs2(tmp := None))(p \<mapsto> T))"
    by (simp add: cast_field_file_def io_on_err_def)
  then show ?thesis using pt T fs2(2) by (intro exI[of _ "(fs2(tmp := None))(p \<mapsto> T)"]) auto
qed


subsection \<open>Conversions between integer types\<close>

definition int_value :: "data_type \<Rightarrow> bytes \<Rightarrow> int" where
  "int_value dt bs = (if dt = Bool then of_bool (hd bs \<noteq> 0)
     else if is_signed_int dt then le_sint (size_of dt) bs else int (le_uint bs))"

lemma of_int_mod_cong:
  assumes "v mod 2 ^ (8 * n) = v' mod 2 ^ (8 * n)"
  shows "le_bytes n (of_int v :: u64) = le_bytes n (of_int v' :: u64)"
proof -
  have "take_bit (8 * n) v = take_bit (8 * n) v'" using assms by (simp add: take_bit_eq_mod)
  then have "take_bit (8 * n) (of_int v :: u64) = take_bit (8 * n) (of_int v' :: u64)" by (simp only: take_bit_of_int)
  then show ?thesis by (metis le_bytes_take_bit)
qed

lemma read_int:
  assumes "is_integer src" "length bs = size_of src"
  shows "\<exists>v. read_row_scalar src bs = Ok v \<and> (of_int (scalar_to_i64 v) :: u64) = of_int (int_value src bs) \<and>
    (of_nat (scalar_to_u64 v) :: u64) = of_int (int_value src bs)"
  using assms
  by (cases src) (auto simp: is_integer_def read_row_scalar_def Let_def slice_r_def slice_ok_def slice_def int_value_def
      is_signed_int_def)

lemma conv_int:
  assumes "is_integer src" "is_integer dst" "length bs = size_of src"
  shows "conv_bytes src dst bs = le_bytes (size_of dst) (of_int (int_value src bs) :: u64)"
proof -
  obtain v where v: "read_row_scalar src bs = Ok v" "(of_int (scalar_to_i64 v) :: u64) = of_int (int_value src bs)"
    "(of_nat (scalar_to_u64 v) :: u64) = of_int (int_value src bs)" using read_int[OF assms(1,3)] by blast
  show ?thesis
    using assms(2) v take_le_bytes[OF size_of_le_8[of dst]]
    by (cases dst) (simp_all add: conv_bytes_def scalar_bytes_def is_integer_def)
qed

lemma le_uint_le_bytes: "n \<le> 8 \<Longrightarrow> int (le_uint (le_bytes n (of_int v :: u64))) = v mod 2 ^ (8 * n)"
proof -
  assume n: "n \<le> 8"
  have "uint (take_bit (8 * n) (of_int v :: u64)) = take_bit (8 * n) (take_bit 64 v)"
    by (simp add: unsigned_take_bit_eq unsigned_of_int)
  also have "\<dots> = take_bit (8 * n) v" using n by (simp add: min_def)
  finally show ?thesis by (simp add: le_uint_def of_le_le_bytes take_bit_eq_mod)
qed

lemma int_value_mod:
  assumes "is_integer dt" "dt \<noteq> Bool" "length bs = size_of dt"
  shows "int_value dt bs mod 2 ^ (8 * size_of dt) = int (le_uint bs)"
proof -
  have "le_uint bs < 2 ^ (8 * size_of dt)" using le_uint_bound[OF assms(3) size_of_le_8] .
  then have "int (le_uint bs) < 2 ^ (8 * size_of dt)" by (metis of_nat_less_iff of_nat_numeral of_nat_power)
  then show ?thesis using assms(2) by (simp add: int_value_def le_sint_def mod_diff_right_eq[symmetric])
qed

text \<open>Casting between integer types keeps the value modulo the range of the target, whatever the signs
  and widths (a narrower target wraps, it does not saturate; Bool as a target keeps the low byte, so 256
  becomes false), and casting to a type that is no narrower and back gives the original bytes.\<close>

theorem integer_cast_wraps:
  assumes "is_integer src" "is_integer dst" "length bs = size_of src"
  shows "int (le_uint (conv_bytes src dst bs)) = int_value src bs mod 2 ^ (8 * size_of dst) \<and>
    (src \<noteq> Bool \<longrightarrow> dst \<noteq> Bool \<longrightarrow> size_of src \<le> size_of dst \<longrightarrow> conv_bytes dst src (conv_bytes src dst bs) = bs)"
proof (intro conjI impI)
  let ?v = "int_value src bs" and ?n = "size_of src" and ?m = "size_of dst"
  show "int (le_uint (conv_bytes src dst bs)) = ?v mod 2 ^ (8 * ?m)"
    unfolding conv_int[OF assms] by (rule le_uint_le_bytes[OF size_of_le_8])
  assume ne: "src \<noteq> Bool" "dst \<noteq> Bool" and le: "?n \<le> ?m"
  let ?bs = "le_bytes ?m (of_int ?v :: u64)"
  have l: "length ?bs = ?m" by simp
  have "int_value dst ?bs mod 2 ^ (8 * ?m) = ?v mod 2 ^ (8 * ?m)"
    unfolding int_value_mod[OF assms(2) ne(2) l] by (rule le_uint_le_bytes[OF size_of_le_8])
  moreover have d: "(2 :: int) ^ (8 * ?n) dvd 2 ^ (8 * ?m)" using le by (intro le_imp_power_dvd) simp
  ultimately have "int_value dst ?bs mod 2 ^ (8 * ?n) = ?v mod 2 ^ (8 * ?n)"
    using mod_mod_cancel[OF d, of "int_value dst ?bs"] mod_mod_cancel[OF d, of ?v] by argo
  then have "conv_bytes dst src ?bs = le_bytes ?n (of_int ?v :: u64)"
    unfolding conv_int[OF assms(2,1) l] by (rule of_int_mod_cong)
  also have "\<dots> = le_bytes ?n (of_int (int (le_uint bs)) :: u64)"
    by (rule of_int_mod_cong) (simp add: int_value_mod[OF assms(1) ne(1) assms(3), symmetric])
  also have "le_bytes (length bs) (of_le bs :: u64) = bs"
    using assms(3) size_of_le_8[of src] by (intro le_bytes_of_le) simp
  then have "le_bytes ?n (of_int (int (le_uint bs)) :: u64) = bs" using assms(3) by (simp add: le_uint_def)
  finally show "conv_bytes dst src (conv_bytes src dst bs) = bs" unfolding conv_int[OF assms] .
qed

theorem integer_cast_wraps_witness:
  "int_value Int16 [0, 1] = 256 \<and> int (le_uint (conv_bytes Int16 Bool [0, 1])) = 256 mod 2 ^ 8 \<and>
   conv_bytes UInt64 Int16 (conv_bytes Int16 UInt64 [0xFE, 0xFF]) = [0xFE, 0xFF]"
proof -
  have v: "int_value Int16 [0, 1] = 256" by (simp add: int_value_def le_sint_def le_uint_def is_signed_int_def)
  have "is_integer Int16" "is_integer Bool" "is_integer UInt64" by (simp_all add: is_integer_def)
  then show ?thesis
    using v integer_cast_wraps[of Int16 Bool "[0, 1]"] integer_cast_wraps[of Int16 UInt64 "[0xFE, 0xFF]"] by simp
qed


subsection \<open>What a conversion means\<close>

text \<open>The bytes a conversion writes hold the number it reads.\<close>

lemma uint_of_le: "LENGTH('a) = 8 * length bs \<Longrightarrow> length bs \<le> 8 \<Longrightarrow> uint (of_le bs :: 'a::len word) = uint (of_le bs :: u64)"
  by (rule bit_eqI) (auto simp: bit_uint_iff bit_of_le div_less_iff_less_mult)

lemma sint_of_le:
  assumes "LENGTH('a) = 8 * length bs" "length bs \<le> 8"
  shows "sint (of_le bs :: 'a::len word) = le_sint (length bs) bs"
proof -
  let ?w = "of_le bs :: 'a word" and ?n = "8 * length bs"
  have n: "?n \<noteq> 0" using assms(1) len_gt_0[where 'a = 'a] by simp
  have u: "uint ?w = int (le_uint bs)" using uint_of_le[OF assms] by (simp add: le_uint_def)
  have b: "uint ?w < 2 ^ ?n" using uint_lt2p[of ?w] assms(1) by simp
  have "sint ?w = signed_take_bit (?n - 1) (uint ?w)" by (simp add: sint_uint assms(1))
  also have "\<dots> = (if 2 ^ (?n - 1) \<le> uint ?w then uint ?w - 2 ^ ?n else uint ?w)"
  proof (cases "2 ^ (?n - 1) \<le> uint ?w")
    case True
    have "signed_take_bit (?n - 1) (uint ?w) = signed_take_bit (?n - 1) (uint ?w - 2 ^ ?n)"
      using n by (simp add: signed_take_bit_eq_iff_take_bit_eq take_bit_eq_mod)
    also have "\<dots> = uint ?w - 2 ^ ?n"
    proof (rule signed_take_bit_int_eq_self)
      have "(2 :: int) ^ ?n = 2 * 2 ^ (?n - 1)" using n by (metis power_Suc Suc_pred' neq0_conv)
      then show "- (2 ^ (?n - 1)) \<le> uint ?w - 2 ^ ?n" "uint ?w - 2 ^ ?n < 2 ^ (?n - 1)" using True b by linarith+
    qed
    finally show ?thesis using True by simp
  next
    case False
    have "signed_take_bit (?n - 1) (uint ?w) = uint ?w"
    proof (rule signed_take_bit_int_eq_self)
      show "- (2 ^ (?n - 1)) \<le> uint ?w" using uint_ge_0[of ?w] by (smt (verit) zero_le_power)
    qed (use False in simp)
    then show ?thesis using False by simp
  qed
  finally show ?thesis using n unfolding u le_sint_def by (auto simp flip: of_nat_le_iff)
qed

lemma int_value_whole:
  assumes "is_integer dt" "length bs = size_of dt"
  shows "int_value dt bs = whole_value dt bs"
proof (cases "dt = Bool")
  case True
  then show ?thesis using assms(2) by (auto simp: int_value_def length_Suc_conv)
next
  case False
  then show ?thesis
    using assms
      sint_of_le[where 'a = 8 and bs = bs] sint_of_le[where 'a = 16 and bs = bs]
      sint_of_le[where 'a = 32 and bs = bs] sint_of_le[where 'a = 64 and bs = bs]
    by (cases dt) (auto simp: int_value_def is_signed_int_def is_integer_def le_uint_def simp del: of_le.simps)
qed

lemma f32_of_mag:
  assumes "m < 2 ^ 31"
  shows "f32_mag (of_nat (if b then 2 ^ 31 + m else m)) = m" "bit (of_nat (if b then 2 ^ 31 + m else m) :: u32) 31 = b"
proof -
  have u: "unat (of_nat (if b then 2 ^ 31 + m else m) :: u32) = (if b then 2 ^ 31 + m else m)"
    by (rule unat_of_nat_u32) (use assms in simp)
  have i: "bit (w :: u32) 31 = odd (unat w div 2 ^ 31)" for w
    unfolding bit_iff_odd[of "unat w" 31, symmetric] by (simp add: bit_unsigned_iff)
  show "f32_mag (of_nat (if b then 2 ^ 31 + m else m)) = m"
    unfolding f32_mag_def unsigned_take_bit_eq u using assms by (simp add: take_bit_eq_mod)
  show "bit (of_nat (if b then 2 ^ 31 + m else m) :: u32) 31 = b"
    unfolding i u using assms div_add_self1[of "2 ^ 31" m] by simp
qed

lemma f64_to_f32_round: "f64_to_f32_mag m = min (255 * 2 ^ 23) (round_mag 23 925 (f64_scaled m))"
proof -
  define x where "x = f64_scaled m"
  define sh where "sh = max 925 (ilog2 x - 23)"
  obtain k where k: "sh = Suc k" unfolding sh_def by (cases "max 925 (ilog2 x - 23)") auto
  show ?thesis
    unfolding f64_to_f32_mag_def round_mag_def Let_def x_def[symmetric] sh_def[symmetric] k
    by (auto simp: not_less le_less)
qed

lemma f64_to_f32_nearest: "nearest_f32 (f64_number w) (f64_to_f32 w)"
proof -
  define m where "m = f64_mag w"
  define mag where "mag = (if f64_nan w then 255 * 2 ^ 23 + 2 ^ 22 + (m mod 2 ^ 51) div 2 ^ 29 else f64_to_f32_mag m)"
  have w: "f64_to_f32 w = of_nat (if bit w 63 then 2 ^ 31 + mag else mag)" by (simp add: f64_to_f32_def mag_def m_def Let_def)
  have "m mod 2 ^ 51 < 2 ^ 51" by simp
  then have "(m mod 2 ^ 51) div 2 ^ 29 < 2 ^ 22" by (simp add: div_less_iff_less_mult)
  moreover have "f64_to_f32_mag m \<le> 255 * 2 ^ 23" unfolding f64_to_f32_round by simp
  ultimately have lt: "mag < 2 ^ 31" by (simp add: mag_def)
  have "nearest (\<lambda>m. f32_scaled m * 2 ^ 925) (255 * 2 ^ 23) (f64_scaled m) (f64_to_f32_mag m)"
    unfolding f64_to_f32_round f32_scaled_eq by (rule round_mag_nearest) simp
  then show ?thesis
    using f32_of_mag[OF lt, of "bit w 63"] unfolding w nearest_f32_def f64_number_def
    by (simp add: mag_def f64_nan_def m_def)
qed

lemma int_value_bound:
  assumes "length bs = size_of dt"
  shows "nat \<bar>int_value dt bs\<bar> < 2 ^ 64"
proof -
  have u: "le_uint bs < 2 ^ (8 * size_of dt)" using le_uint_bound[OF assms size_of_le_8] .
  have p: "(2 :: nat) ^ (8 * size_of dt) \<le> 2 ^ 64" using size_of_le_8[of dt] by (intro power_increasing) simp_all
  have "le_uint bs < 2 ^ 64" using u p by (rule less_le_trans)
  then have "int (le_uint bs) < 2 ^ 64" by (metis of_nat_less_numeral_power_cancel_iff)
  moreover have "(2 :: int) ^ (8 * size_of dt) \<le> 2 ^ 64" using size_of_le_8[of dt] by (intro power_increasing) simp_all
  moreover have "(0 :: int) < 2 ^ (8 * size_of dt)" "0 \<le> int (le_uint bs)" by simp_all
  moreover have "0 < le_uint bs" if "2 ^ (8 * size_of dt - 1) \<le> le_uint bs" using that by (rule less_le_trans[rotated]) simp
  ultimately have "\<bar>int_value dt bs\<bar> < 2 ^ 64"
    using u unfolding int_value_def le_sint_def by (auto simp: abs_if split: if_splits)
  then show ?thesis by simp
qed

lemma integer_as_f64:
  assumes "is_integer src" "length bs = size_of src"
  shows "\<exists>v. read_row_scalar src bs = Ok v \<and> scalar_to_f64 v = int_to_f64 (int_value src bs)"
  using assms
  by (cases src) (auto simp: is_integer_def read_row_scalar_def Let_def slice_r_def slice_ok_def slice_def int_value_def
      is_signed_int_def)

lemma number_of_int: "is_integer src \<Longrightarrow> length bs = size_of src \<Longrightarrow> number_of src bs = int_number (int_value src bs)"
  by (cases src) (simp_all add: number_of_def int_value_whole is_integer_def del: whole_value.simps)

lemma read_float:
  assumes "\<not> is_integer src" "src \<noteq> Utf8" "length bs = size_of src"
  shows "\<exists>f. read_row_scalar src bs = Ok (SFloat f) \<and> number_of src bs = f64_number f"
  using assms
  by (cases src) (auto simp: is_integer_def read_row_scalar_def Let_def slice_r_def slice_ok_def slice_def number_of_def f32_widened)

lemma converted_f64:
  assumes "src \<noteq> Utf8" "length bs = size_of src"
  shows "\<exists>v. read_row_scalar src bs = Ok v \<and> nearest_f64 (number_of src bs) (scalar_to_f64 v)"
proof (cases "is_integer src")
  case True
  obtain v where v: "read_row_scalar src bs = Ok v" "scalar_to_f64 v = int_to_f64 (int_value src bs)"
    using integer_as_f64[OF True assms(2)] by blast
  then show ?thesis using int_to_f64_nearest[OF int_value_bound[OF assms(2)]] number_of_int[OF True assms(2)] by simp
next
  case False
  obtain f where f: "read_row_scalar src bs = Ok (SFloat f)" "number_of src bs = f64_number f"
    using read_float[OF False assms] by blast
  then show ?thesis using nearest_f64_self[of f] by simp
qed

lemma f64_clamped:
  "is_signed_int dst \<Longrightarrow> f64_as_i64 f = clamp dst (whole_part (f64_number f))"
  "\<not> is_signed_int dst \<Longrightarrow> int (f64_as_u64 f) = clamp dst (whole_part (f64_number f))"
  by (auto simp: f64_as_i64_def f64_as_u64_def clamp_def f64_number_def f64_nan_def Let_def)

theorem conv_holds_number:
  assumes "src \<noteq> Utf8" "dst \<noteq> Utf8" "length bs = size_of src"
  shows "holds_number src dst bs (conv_bytes src dst bs)"
proof -
  have u: "uint (of_le (conv_bytes src dst bs) :: u64) = int (le_uint (conv_bytes src dst bs))" by (simp add: le_uint_def)
  obtain v where v: "read_row_scalar src bs = Ok v" "nearest_f64 (number_of src bs) (scalar_to_f64 v)"
    using converted_f64[OF assms(1,3)] by blast
  have c: "conv_bytes src dst bs = scalar_bytes dst v" by (simp add: conv_bytes_def v(1))
  consider "dst = Float64" | "dst = Float32" | "is_integer dst" using assms(2) by (auto simp: is_integer_def)
  then show ?thesis
  proof cases
    case 1
    then show ?thesis using v(2) unfolding holds_number_def c by (simp add: scalar_bytes_def)
  next
    case 2
    then show ?thesis using v(2) f64_to_f32_nearest unfolding holds_number_def c by (auto simp: scalar_bytes_def)
  next
    case 3
    have "int (le_uint (conv_bytes src dst bs)) =
        (if is_integer src then whole_part (number_of src bs) else clamp dst (whole_part (number_of src bs))) mod 2 ^ (8 * size_of dst)"
    proof (cases "is_integer src")
      case True
      show ?thesis unfolding conv_int[OF True 3 assms(3)] number_of_int[OF True assms(3)]
        using True le_uint_le_bytes[OF size_of_le_8[of dst]] by simp
    next
      case False
      obtain f where f: "read_row_scalar src bs = Ok (SFloat f)" "number_of src bs = f64_number f"
        using read_float[OF False assms(1,3)] by blast
      have "conv_bytes src dst bs = le_bytes (size_of dst) (of_int (clamp dst (whole_part (f64_number f))) :: u64)"
        using 3 f(1) f64_clamped[of dst f, symmetric] take_le_bytes[OF size_of_le_8[of dst]]
        by (cases "is_signed_int dst"; cases dst) (simp_all add: conv_bytes_def scalar_bytes_def is_integer_def)
      then show ?thesis using False f(2) le_uint_le_bytes[OF size_of_le_8[of dst]] by simp
    qed
    then show ?thesis using 3 unfolding holds_number_def Let_def u by (cases dst) (simp_all add: is_integer_def)
  qed
qed

text \<open>NULL stays NULL, and each value is held by the bytes shown for it.\<close>

fun cell_held :: "data_type \<Rightarrow> data_type \<Rightarrow> cell_value option \<Rightarrow> cell_value option \<Rightarrow> bool" where
  "cell_held src dst None c = (c = None)"
| "cell_held src dst (Some (CBytes bs)) c = (\<exists>out. c = Some (CBytes out) \<and> holds_number src dst bs out)"
| "cell_held src dst (Some (CKey _ _ _)) c = False"

lemma shown_held:
  assumes "src_type src \<noteq> Utf8" "dst \<noteq> Utf8" "length (src_values src) = n * size_of (src_type src)"
  shows "list_all2 (cell_held (src_type src) dst) (shown (source_cells src n))
    (shown (map (conv_cell (src_type src) dst) (source_cells src n)))"
proof (rule list_all2_all_nthI)
  fix i assume "i < length (shown (source_cells src n))"
  then have i: "i < n" by (simp add: shown_def source_cells_def)
  let ?s = "size_of (src_type src)"
  have "(i + 1) * ?s \<le> length (src_values src)" using i unfolding assms(3) by (intro mult_le_mono1) simp
  then have "length (slice (i * ?s) ((i + 1) * ?s) (src_values src)) = ?s" by simp
  from conv_holds_number[OF assms(1,2) this] i
  show "cell_held (src_type src) dst (shown (source_cells src n) ! i)
      (shown (map (conv_cell (src_type src) dst) (source_cells src n)) ! i)"
    by (simp add: shown_def source_cells_def cells_of_def conv_cell_def)
qed (simp add: shown_def)

text \<open>A float outside the range of a narrow integer wraps: it is clamped to 64 bits and then cut. 300.0 as
  \<open>Int8\<close> is 44.\<close>

theorem float_to_narrow_wraps: "conv_bytes Float64 Int8 (le_bytes 8 (0x4072C00000000000 :: u64)) = [44]"
proof -
  let ?out = "conv_bytes Float64 Int8 (le_bytes 8 (0x4072C00000000000 :: u64))"
  have f: "f64_number 0x4072C00000000000 = Num False (300 * 2 ^ 1074)"
    by (simp add: f64_number_def f64_mag_def f64_scaled_def take_bit_eq_mod)
  have "holds_number Float64 Int8 (le_bytes 8 (0x4072C00000000000 :: u64)) ?out"
    by (rule conv_holds_number) simp_all
  then have "uint (of_le ?out :: u64) = 44"
    by (simp add: holds_number_def number_of_def is_integer_def f clamp_def is_signed_int_def)
  then have "of_le ?out = (44 :: u64)" by (metis word_of_int_uint of_int_numeral)
  moreover have "length ?out = 1" by simp
  ultimately show ?thesis using le_bytes_of_le[of ?out, where 'a = 64] by (simp add: le_bytes_def upt_rec)
qed

subsection \<open>Casting and restructuring files\<close>

text \<open>C21. Casting a field in place succeeds for every fixed-width type, every number of batches and every
  state of compression: no temporary file remains, no other file changes, and the file then opens with
  the target type, the same number of rows, generation and state of compression. It shows each NULL cell as
  NULL, and for each valid cell bytes that hold its number in the target type: a float target the nearest
  value, ties to even (32 bits from the nearest 64-bit one), an integer target the whole part modulo its
  width, where a float is first clamped to 64 bits (so 300.0 as \<open>Int8\<close> is 44).\<close>

theorem cast_converts_cells:
  assumes "open_field_file B p Read fs = (Ok h, fs)" "fd_ok h src" "src_type src \<noteq> Utf8" "dst \<noteq> Utf8" "dst \<noteq> src_type src"
    and "0 < fd_row_count h" "fd_row_count h \<le> 2 ^ 26" "fs tmp = None"
    and "fd_is_chunked h \<longrightarrow> field_compression (fd_header h) = Ok c \<and> backend_sane B c \<and> (\<forall>r \<in> set (fd_chunk_rows h). 0 < r)"
  shows "\<exists>fs' h' src'. cast_field_file B p tmp dst fs = (Ok (), fs') \<and> fs' tmp = None \<and>
    (\<forall>q. q \<notin> {p, tmp, tmp_path tmp} \<longrightarrow> fs' q = fs q) \<and> open_field_file B p Read fs' = (Ok h', fs') \<and>
    fd_ok h' src' \<and> src_type src' = dst \<and> fd_row_count h' = fd_row_count h \<and>
    fh_generation (fd_header h') = fh_generation (fd_header h) \<and> fd_is_chunked h' = fd_is_chunked h \<and>
    list_all2 (cell_held (src_type src) dst) (shown (source_cells src (fd_row_count h)))
      (shown (source_cells src' (fd_row_count h)))"
proof -
  obtain fs' cells hdr body where c: "cast_field_file B p tmp dst fs = (Ok (), fs')" "fs' tmp = None"
    "fs' p = Some (field_header_to_bytes hdr @ body)" "field_header_ok hdr"
    "field_holds B (field_header_to_bytes hdr @ body) dst cells" "length cells = fd_row_count h"
    "shown cells = shown (map (conv_cell (src_type src) dst) (source_cells src (fd_row_count h)))"
    "is_chunked hdr = fd_is_chunked h" "fh_generation hdr = fh_generation (fd_header h)"
    using cast_eq[where fs = fs and tmp = tmp, OF assms] unfolding cast_result_def by auto
  have "touches {p, tmp, tmp_path tmp} (cast_field_file B p tmp dst)" by (intro cast_touches) simp_all
  from touchesD[where fs = fs and fs' = fs', OF this c(1)]
  have frame: "fs' q = fs q" if "q \<notin> {p, tmp, tmp_path tmp}" for q using that .
  obtain h' src' where h': "open_field_file B p Read fs' = (Ok h', fs')" "fd_ok h' src'" "src_type src' = dst"
    "fd_row_count h' = length cells" "source_cells src' (length cells) = cells"
    using c(3,5) unfolding field_holds_def by blast
  have ch: "fd_is_chunked h' = fd_is_chunked h" using opened_chunked[OF h'(1) c(3,4)] c(8) by simp
  obtain bs hd0 k where o: "fs' p = Some bs" "field_header_from_bytes (take HEADER_SIZE bs) = Ok hd0"
    "fd_header h' = hd0\<lparr>fh_null_count := k\<rparr>" using open_Ok[OF h'(1)] by blast
  have "bs = field_header_to_bytes hdr @ body" using o(1) c(3) by simp
  then have "take HEADER_SIZE bs = field_header_to_bytes hdr" using header_image_length[of hdr] by simp
  then have "hd0 = hdr" using o(2) field_pod.from_to[OF c(4)] by simp
  then have "fh_generation (fd_header h') = fh_generation (fd_header h)" using o(3) c(9) by simp
  moreover have "length (src_values src) = fd_row_count h * size_of (src_type src)" using assms(2) by (simp add: fd_ok_def)
  note shown_held[OF assms(3,4) this]
  ultimately show ?thesis using c(1,2,6,7) frame h' ch by (intro exI[of _ fs'] exI[of _ h'] exI[of _ src']) simp
qed

theorem cast_converts_cells_witness:
  "\<exists>fs' h' src'. cast_field_file example_backend ''f'' ''t'' UInt16 (Map.empty(''f'' \<mapsto> example_map)) = (Ok (), fs') \<and>
     open_field_file example_backend ''f'' Read fs' = (Ok h', fs') \<and> src_type src' = UInt16 \<and> fd_ok h' src' \<and>
     shown (source_cells src' 3) = [Some (CBytes [10, 0]), Some (CBytes [20, 0]), Some (CBytes [30, 0])]"
proof -
  obtain h src where h: "open_field_file example_backend ''f'' Read (Map.empty(''f'' \<mapsto> example_map)) =
      (Ok h, Map.empty(''f'' \<mapsto> example_map))" "fd_ok h src" "src_type src = Int8" "fd_row_count h = 3"
    "source_cells src 3 = [(True, CBytes [10]), (True, CBytes [20]), (True, CBytes [30])]"
    "fd_header h = field_header_new_uncompressed Int8 1 3 0 True" using example_field by blast
  have nc: "\<not> fd_is_chunked h" by (simp add: fd_is_chunked_def h(6))
  then have ch: "fd_is_chunked h \<longrightarrow> field_compression (fd_header h) = Ok CNone \<and> backend_sane example_backend CNone \<and>
    (\<forall>r \<in> set (fd_chunk_rows h). 0 < r)" by simp
  have p: "src_type src \<noteq> Utf8" "UInt16 \<noteq> Utf8" "UInt16 \<noteq> src_type src" "0 < fd_row_count h" "fd_row_count h \<le> 2 ^ 26"
    "(Map.empty(''f'' \<mapsto> example_map)) ''t'' = None" using h(3,4) by simp_all
  from cast_converts_cells[where fs = "Map.empty(''f'' \<mapsto> example_map)" and p = "''f''" and tmp = "''t''", OF h(1,2) p ch]
  obtain fs' h' src' where c:
    "cast_field_file example_backend ''f'' ''t'' UInt16 (Map.empty(''f'' \<mapsto> example_map)) = (Ok (), fs')"
    "open_field_file example_backend ''f'' Read fs' = (Ok h', fs')" "fd_ok h' src'" "src_type src' = UInt16"
    "list_all2 (cell_held Int8 UInt16) (shown (source_cells src 3)) (shown (source_cells src' 3))"
    unfolding h(3,4) by (elim exE conjE)
  have held: "out = [b, 0]" if "holds_number Int8 UInt16 [b] out" "b \<in> {10, 20, 30}" for b :: u8 and out
  proof -
    have "uint (of_le out :: u64) = uint b" "length out = 2"
      using that by (auto simp: holds_number_def number_of_def is_integer_def)
    then have "of_le out = (of_int (uint b) :: u64)" "le_bytes 2 (of_le out :: u64) = out"
      using le_bytes_of_le[of out, where 'a = 64] by (metis word_of_int_uint, simp)
    then have "out = le_bytes 2 (of_int (uint b) :: u64)" by simp
    then show ?thesis using that(2) by (auto simp: le_bytes_def upt_rec)
  qed
  have "shown (source_cells src' 3) = [Some (CBytes [10, 0]), Some (CBytes [20, 0]), Some (CBytes [30, 0])]"
    using c(5) held unfolding h(5) by (auto simp: shown_def list_all2_Cons1)
  with c(1-4) show ?thesis by (intro exI conjI)
qed

text \<open>C22. Restructuring is atomic: a compression, a decompression or a cast that fails, by an error or a
  panic at any point, has changed no file but its temporary ones; and a cast that returns an error has
  removed those.\<close>

theorem restructure_atomic:
  "(compress_field_file_encoded B p offs e c fs = (r, fs') \<longrightarrow> \<not> is_ok r \<longrightarrow> q \<noteq> tmp_path p \<longrightarrow> fs' q = fs q) \<and>
   (decompress_field_file B p fs = (r, fs') \<longrightarrow> \<not> is_ok r \<longrightarrow> q \<noteq> tmp_path p \<longrightarrow> fs' q = fs q) \<and>
   (cast_field_file B p tmp dst fs = (r, fs') \<longrightarrow> \<not> is_ok r \<longrightarrow> q \<notin> {tmp, tmp_path tmp} \<longrightarrow> fs' q = fs q) \<and>
   (cast_field_file B p tmp dst fs = (Err err, fs') \<longrightarrow> fs' tmp = None \<and> fs' (tmp_path tmp) = None)"
proof (intro conjI impI)
  show "fs' q = fs q" if "compress_field_file_encoded B p offs e c fs = (r, fs')" "\<not> is_ok r" "q \<noteq> tmp_path p"
    by (rule unwindsD[OF compress_unwinds that(1,2)]) (use that(3) in simp)
  show "fs' q = fs q" if "decompress_field_file B p fs = (r, fs')" "\<not> is_ok r" "q \<noteq> tmp_path p"
    by (rule unwindsD[OF decompress_unwinds that(1,2)]) (use that(3) in simp)
  show "fs' q = fs q" if "cast_field_file B p tmp dst fs = (r, fs')" "\<not> is_ok r" "q \<notin> {tmp, tmp_path tmp}"
    by (rule unwindsD[OF cast_unwinds that])
  show "fs' tmp = None" "fs' (tmp_path tmp) = None" if "cast_field_file B p tmp dst fs = (Err err, fs')"
    using that by (auto simp: cast_field_file_def io_on_err_def io_bind_def io_try_remove_def split: prod.splits res.splits)
qed

theorem restructure_atomic_witness:
  "\<exists>err fs'. cast_field_file example_backend ''f'' ''t'' Int8 (Map.empty(''f'' \<mapsto> [], ''t'' \<mapsto> [1], ''g'' \<mapsto> [2])) = (Err err, fs') \<and>
     fs' ''f'' = Some [] \<and> fs' ''g'' = Some [2] \<and> fs' ''t'' = None"
proof -
  let ?fs = "Map.empty(''f'' \<mapsto> [], ''t'' \<mapsto> [1 :: u8], ''g'' \<mapsto> [2])"
  obtain err fs' where c: "cast_field_file example_backend ''f'' ''t'' Int8 ?fs = (Err err, fs')"
    by (simp add: cast_field_file_def cast_body_def open_field_file_def io_read_exact_def io_bind_def io_lift_def io_read_def
        file_open_def io_on_err_def HEADER_SIZE_def)
  have e: "\<not> is_ok (Err err :: (core_error, unit) res)" by simp
  have q: "''f'' \<notin> {''t'', tmp_path ''t''}" "''g'' \<notin> {''t'', tmp_path ''t''}" by (simp_all add: tmp_path_def)
  note atomic = restructure_atomic[THEN conjunct2, THEN conjunct2]
  have "fs' ''f'' = ?fs ''f''" by (rule atomic[THEN conjunct1, rule_format, OF c e q(1)])
  moreover have "fs' ''g'' = ?fs ''g''" by (rule atomic[THEN conjunct1, rule_format, OF c e q(2)])
  moreover have "fs' ''t'' = None" by (rule atomic[THEN conjunct2, rule_format, OF c, THEN conjunct1])
  ultimately show ?thesis using c by (intro exI[of _ err] exI[of _ fs']) simp
qed

end
