(* ===== verification/Thread_Pool.thy ===== *)
theory Thread_Pool
  imports Ranges "HOL-Library.Multiset"
begin

text \<open>
  A pool of scoped threads (\<open>std::thread::scope\<close> in \<open>splayed-core/src/dataset.rs\<close>), used for writing and for
  creating fields: the tasks are dealt round-robin into buckets, every thread works off its bucket and ends
  at its first error, and the first error in the order of the threads is the result. A schedule says which
  thread makes the next step; a step is one task. The contract of a task is the locale \<open>task_pool\<close>: tasks
  that wait together can be swapped. Under it the threads end in one outcome whatever their order.
\<close>

subsection \<open>The pool\<close>

definition round_robin :: "nat \<Rightarrow> 'a list \<Rightarrow> 'a list list" where
  "round_robin p targets = map (\<lambda>b. map (nth targets) (filter (\<lambda>j. j mod p = b) [0..<length targets])) [0..<p]"

record ('t, 's) pool =
  pl_buckets :: "'t list list"
  pl_errors :: "core_error option list"
  pl_state :: 's

type_synonym ('t, 's) task = "'t \<Rightarrow> 's \<Rightarrow> (core_error, unit) res \<times> 's"

text \<open>Thread \<open>b\<close> after a task; on an error it ends.\<close>

definition thread_after :: "nat \<Rightarrow> (core_error, unit) res \<Rightarrow> 't list \<Rightarrow> ('t, 's) pool \<Rightarrow> ('t, 's) pool" where
  "thread_after b r rest P = (case r of
      Ok _ \<Rightarrow> P\<lparr>pl_buckets := (pl_buckets P)[b := rest]\<rparr>
    | Err e \<Rightarrow> P\<lparr>pl_buckets := (pl_buckets P)[b := []], pl_errors := (pl_errors P)[b := Some e]\<rparr>
    | Panic \<Rightarrow> P\<lparr>pl_buckets := (pl_buckets P)[b := []],
               pl_errors := (pl_errors P)[b := Some (InvalidState ''field writer thread panicked'')]\<rparr>)"

definition pool_move :: "('t, 's) task \<Rightarrow> nat \<Rightarrow> ('t, 's) pool \<Rightarrow> ('t, 's) pool option" where
  "pool_move act b P =
     (if length (pl_buckets P) \<le> b then None
      else case pl_buckets P ! b of
        [] \<Rightarrow> None
      | t # rest \<Rightarrow> (case act t (pl_state P) of
          (r, s) \<Rightarrow> Some (thread_after b r rest (P\<lparr>pl_state := s\<rparr>))))"

inductive pool_step :: "('t, 's) task \<Rightarrow> ('t, 's) pool \<Rightarrow> ('t, 's) pool \<Rightarrow> bool" for act where
  "pool_move act b P = Some P' \<Longrightarrow> pool_step act P P'"

inductive_cases pool_stepE: "pool_step act P P'"

fun pool_schedule :: "('t, 's) task \<Rightarrow> nat list \<Rightarrow> ('t, 's) pool \<Rightarrow> ('t, 's) pool" where
  "pool_schedule act [] P = P"
| "pool_schedule act (b # bs) P =
     pool_schedule act bs (case pool_move act b P of None \<Rightarrow> P | Some P' \<Rightarrow> P')"

text \<open>Joining the threads: every bucket is worked off.\<close>

definition pool_join :: "('t, 's) task \<Rightarrow> ('t, 's) pool \<Rightarrow> ('t, 's) pool" where
  "pool_join act P =
     pool_schedule act (concat (map (\<lambda>b. replicate (length (pl_buckets P ! b)) b) [0..<length (pl_buckets P)])) P"

definition start_pool :: "nat \<Rightarrow> 't list \<Rightarrow> 's \<Rightarrow> ('t, 's) pool" where
  "start_pool p targets s = \<lparr>pl_buckets = round_robin p targets, pl_errors = replicate p None, pl_state = s\<rparr>"

definition pool_result :: "('t, 's) pool \<Rightarrow> (core_error, unit) res" where
  "pool_result P = (case List.map_filter (\<lambda>e. e) (pl_errors P) of [] \<Rightarrow> Ok () | e # _ \<Rightarrow> Err e)"

definition run_pool :: "('t, 's) task \<Rightarrow> nat list \<Rightarrow> nat \<Rightarrow> 't list \<Rightarrow> 's \<Rightarrow> (core_error, unit) res \<times> 's" where
  "run_pool act schedule p targets s =
     (let P = pool_join act (pool_schedule act schedule (start_pool p targets s)) in (pool_result P, pl_state P))"

subsection \<open>One step\<close>

lemma pool_move_Some:
  assumes "pool_move act b P = Some P'"
  obtains t rest r s where "b < length (pl_buckets P)" "pl_buckets P ! b = t # rest"
    "act t (pl_state P) = (r, s)" "P' = thread_after b r rest (P\<lparr>pl_state := s\<rparr>)"
  using assms by (auto simp: pool_move_def split: if_splits list.splits prod.splits)

lemma pool_moveI:
  "b < length (pl_buckets P) \<Longrightarrow> pl_buckets P ! b = t # rest \<Longrightarrow> act t (pl_state P) = (r, s) \<Longrightarrow>
   pool_move act b P = Some (thread_after b r rest (P\<lparr>pl_state := s\<rparr>))"
  by (simp add: pool_move_def)

lemma thread_after_simps [simp]:
  "pl_state (thread_after b r rest P) = pl_state P"
  "length (pl_buckets (thread_after b r rest P)) = length (pl_buckets P)"
  "c \<noteq> b \<Longrightarrow> pl_buckets (thread_after b r rest P) ! c = pl_buckets P ! c"
  by (auto simp: thread_after_def split: res.splits)

lemma thread_after_buckets:
  "pl_buckets (thread_after b r rest P) = (pl_buckets P)[b := (case r of Ok _ \<Rightarrow> rest | _ \<Rightarrow> [])]"
  by (simp add: thread_after_def split: res.splits)

lemma pending_split:
  "b < length bs \<Longrightarrow> bs ! b = t # rest \<Longrightarrow> \<exists>A C. concat bs = A @ t # rest @ C \<and> (\<forall>x. concat (bs[b := x]) = A @ x @ C)"
  by (intro exI[of _ "concat (take b bs)"] exI[of _ "concat (drop (Suc b) bs)"] conjI allI)
     (subst id_take_nth_drop[of b bs], simp_all add: upd_conv_take_nth_drop)

definition pool_left :: "('t, 's) pool \<Rightarrow> nat" where
  "pool_left P = length (concat (pl_buckets P))"

lemma pool_left_step: "pool_move act b P = Some P' \<Longrightarrow> pool_left P' < pool_left P"
proof -
  assume mv: "pool_move act b P = Some P'"
  obtain t rest r s where m: "b < length (pl_buckets P)" "pl_buckets P ! b = t # rest"
    "P' = thread_after b r rest (P\<lparr>pl_state := s\<rparr>)"
    by (rule pool_move_Some[OF mv])
  obtain A C where "concat (pl_buckets P) = A @ t # rest @ C" "\<And>x. concat ((pl_buckets P)[b := x]) = A @ x @ C"
    using pending_split[OF m(1,2)] by blast
  then show ?thesis by (simp add: pool_left_def m(3) thread_after_buckets split: res.splits)
qed

lemma pool_steps_wf: "wf {(Q', Q). pool_step act Q Q'}"
  by (rule wf_subset[of "measure pool_left"]) (auto elim!: pool_stepE dest: pool_left_step)

lemma pool_ends: "\<exists>N. (pool_step act)\<^sup>*\<^sup>* P N \<and> (\<forall>Q. \<not> pool_step act N Q)"
proof (induction "pool_left P" arbitrary: P rule: less_induct)
  case less
  show ?case
  proof (cases "\<exists>P'. pool_step act P P'")
    case True
    then obtain P' where st: "pool_step act P P'" by blast
    then obtain b where "pool_move act b P = Some P'" by (auto elim: pool_step.cases)
    from less[OF pool_left_step[OF this]] st show ?thesis by (meson converse_rtranclp_into_rtranclp)
  qed blast
qed

subsection \<open>Schedules\<close>

lemma schedule_steps: "(pool_step act)\<^sup>*\<^sup>* P (pool_schedule act bs P)"
proof (induction bs arbitrary: P)
  case (Cons b bs)
  show ?case
  proof (cases "pool_move act b P")
    case None
    then show ?thesis using Cons by simp
  next
    case (Some P')
    then have "pool_step act P P'" by (rule pool_step.intros)
    then show ?thesis using Cons[of P'] Some by (simp add: converse_rtranclp_into_rtranclp)
  qed
qed simp

lemma schedule_append: "pool_schedule act (xs @ ys) P = pool_schedule act ys (pool_schedule act xs P)"
  by (induction xs arbitrary: P) simp_all

lemma pool_move_buckets:
  assumes "pool_move act b P = Some P'"
  shows "length (pl_buckets P') = length (pl_buckets P)" "c \<noteq> b \<Longrightarrow> pl_buckets P' ! c = pl_buckets P ! c"
    "length (pl_buckets P' ! b) < length (pl_buckets P ! b)"
proof -
  obtain t rest r s where m: "b < length (pl_buckets P)" "pl_buckets P ! b = t # rest"
    "P' = thread_after b r rest (P\<lparr>pl_state := s\<rparr>)"
    by (rule pool_move_Some[OF assms])
  then show "length (pl_buckets P') = length (pl_buckets P)" "c \<noteq> b \<Longrightarrow> pl_buckets P' ! c = pl_buckets P ! c"
    "length (pl_buckets P' ! b) < length (pl_buckets P ! b)"
    by (auto simp: thread_after_buckets split: res.splits)
qed

lemma schedule_buckets:
  "length (pl_buckets (pool_schedule act bs P)) = length (pl_buckets P) \<and>
   (c \<notin> set bs \<or> pl_buckets P ! c = [] \<longrightarrow> pl_buckets (pool_schedule act bs P) ! c = pl_buckets P ! c)"
proof (induction bs arbitrary: P)
  case (Cons b bs)
  show ?case
  proof (cases "pool_move act b P")
    case None
    then show ?thesis using Cons[of P] by auto
  next
    case (Some P')
    note m = pool_move_buckets[OF Some]
    have "pl_buckets P ! c = [] \<Longrightarrow> c \<noteq> b" using m(3) by auto
    then show ?thesis using Cons[of P'] Some m(1) m(2)[of c] by auto
  qed
qed simp

lemma schedule_one:
  "b < length (pl_buckets P) \<Longrightarrow> length (pl_buckets P ! b) \<le> k \<Longrightarrow>
   pl_buckets (pool_schedule act (replicate k b) P) ! b = []"
proof (induction k arbitrary: P)
  case (Suc k)
  show ?case
  proof (cases "pool_move act b P")
    case None
    then have "pl_buckets P ! b = []" using Suc.prems(1) by (auto simp: pool_move_def split: list.splits prod.splits)
    then show ?thesis using None Suc by simp
  next
    case (Some P')
    then show ?thesis using Suc.IH[of P'] Suc.prems pool_move_buckets[OF Some] by simp
  qed
qed simp

lemma join_done: "\<not> pool_step act (pool_join act P) Q"
proof -
  let ?sched = "\<lambda>bs. concat (map (\<lambda>b. replicate (length (pl_buckets P ! b)) b) bs)"
  have "pl_buckets (pool_schedule act (?sched bs) P') ! c = []"
    if "distinct bs" "c \<in> set bs" "\<forall>b \<in> set bs. b < length (pl_buckets P') \<and> pl_buckets P' ! b = pl_buckets P ! b" for bs c P'
    using that
  proof (induction bs arbitrary: P')
    case (Cons b bs)
    let ?k = "length (pl_buckets P ! b)"
    define P1 where "P1 = pool_schedule act (replicate ?k b) P'"
    have e: "pool_schedule act (?sched (b # bs)) P' = pool_schedule act (?sched bs) P1"
      by (simp add: schedule_append P1_def)
    have l: "length (pl_buckets P1) = length (pl_buckets P')" "c' \<noteq> b \<Longrightarrow> pl_buckets P1 ! c' = pl_buckets P' ! c'" for c'
      using schedule_buckets[of act "replicate ?k b" P' c'] by (auto simp: P1_def)
    show ?case
    proof (cases "c = b")
      case True
      have "pl_buckets P1 ! c = []"
        unfolding True P1_def by (rule schedule_one) (use Cons.prems(3) in simp_all)
      then show ?thesis unfolding e using schedule_buckets[of act "?sched bs" P1 c] by simp
    next
      case False
      have "\<forall>b' \<in> set bs. b' < length (pl_buckets P1) \<and> pl_buckets P1 ! b' = pl_buckets P ! b'"
      proof
        fix b' assume b': "b' \<in> set bs"
        then have "b' \<noteq> b" using Cons.prems(1) by auto
        then show "b' < length (pl_buckets P1) \<and> pl_buckets P1 ! b' = pl_buckets P ! b'" using Cons.prems(3) l b' by simp
      qed
      then show ?thesis unfolding e using Cons.IH[of P1] Cons.prems(1,2) False by simp
    qed
  qed simp
  from this[of "[0..<length (pl_buckets P)]" _ P]
  have "\<forall>b < length (pl_buckets P). pl_buckets (pool_join act P) ! b = []" by (simp add: pool_join_def)
  moreover have "length (pl_buckets (pool_join act P)) = length (pl_buckets P)"
    unfolding pool_join_def using schedule_buckets by blast
  ultimately show ?thesis by (auto simp: pool_step.simps elim!: pool_move_Some)
qed

lemma mset_groups:
  "distinct bs \<Longrightarrow> mset (concat (map (\<lambda>b. filter (\<lambda>j. f j = b) xs) bs)) = mset (filter (\<lambda>j. f j \<in> set bs) xs)"
proof (induction bs)
  case (Cons b bs)
  then have b: "b \<notin> set bs" by simp
  have "mset (filter (\<lambda>j. f j = b) xs) + mset (filter (\<lambda>j. f j \<in> set bs) xs) = mset (filter (\<lambda>j. f j \<in> set (b # bs)) xs)"
    using b by (induction xs) auto
  then show ?case using Cons by simp
qed simp

lemma mset_round_robin:
  assumes "0 < p"
  shows "mset (concat (round_robin p targets)) = mset targets"
proof -
  let ?n = "length targets"
  have "concat (round_robin p targets) = map (nth targets) (concat (map (\<lambda>b. filter (\<lambda>j. j mod p = b) [0..<?n]) [0..<p]))"
    by (simp add: round_robin_def map_concat comp_def)
  moreover have "mset (concat (map (\<lambda>b. filter (\<lambda>j. j mod p = b) [0..<?n]) [0..<p])) = mset [0..<?n]"
    using mset_groups[of "[0..<p]" "\<lambda>j. j mod p" "[0..<?n]"] assms by simp
  ultimately have "mset (concat (round_robin p targets)) = mset (map (nth targets) [0..<?n])" by simp
  then show ?thesis by (simp only: map_nth)
qed


subsection \<open>The contract of the tasks\<close>

locale task_pool =
  fixes act :: "'t \<Rightarrow> 's \<Rightarrow> (core_error, unit) res \<times> 's"
    and ok :: "'s \<Rightarrow> 't multiset \<Rightarrow> bool"
  assumes ok_less: "ok s (add_mset t M) \<Longrightarrow> ok s M"
    and ok_act: "ok s (add_mset t M) \<Longrightarrow> act t s = (r, s') \<Longrightarrow> ok s' M"
    and commute: "ok s (add_mset t (add_mset u M)) \<Longrightarrow> act t s = (r1, s1) \<Longrightarrow> act u s = (r2, s2) \<Longrightarrow>
      \<exists>s'. act u s1 = (r2, s') \<and> act t s2 = (r1, s')"
begin

definition fit :: "('t, 's) pool \<Rightarrow> bool" where
  "fit P \<longleftrightarrow> ok (pl_state P) (mset (concat (pl_buckets P)))"

lemma ok_drop: "ok s (N + M) \<Longrightarrow> ok s M"
  by (induction N) (auto dest: ok_less)

lemma fit_step:
  assumes "fit P" "pool_move act b P = Some P'"
  shows "fit P'"
proof -
  obtain t rest r s where m: "b < length (pl_buckets P)" "pl_buckets P ! b = t # rest"
    "act t (pl_state P) = (r, s)" "P' = thread_after b r rest (P\<lparr>pl_state := s\<rparr>)"
    by (rule pool_move_Some[OF assms(2)])
  obtain A C where AC: "concat (pl_buckets P) = A @ t # rest @ C" "\<And>x. concat ((pl_buckets P)[b := x]) = A @ x @ C"
    using pending_split[OF m(1,2)] by blast
  have "ok (pl_state P) (add_mset t (mset rest + (mset A + mset C)))" using assms(1) by (simp add: fit_def AC(1) ac_simps)
  from ok_act[OF this m(3)] have o: "ok s (mset rest + (mset A + mset C))" .
  moreover have "ok s (mset A + mset C)" using ok_drop[OF o] .
  ultimately show ?thesis
    by (cases r) (simp_all add: fit_def m(4) thread_after_buckets AC(2) ac_simps)
qed

lemma diamond:
  assumes ok: "fit P" and mv: "pool_move act a P = Some P1" "pool_move act b P = Some P2" and ab: "a \<noteq> b"
  shows "\<exists>Q. pool_move act b P1 = Some Q \<and> pool_move act a P2 = Some Q"
proof -
  obtain t1 rest1 r1 s1 where m1: "a < length (pl_buckets P)" "pl_buckets P ! a = t1 # rest1"
    "act t1 (pl_state P) = (r1, s1)" "P1 = thread_after a r1 rest1 (P\<lparr>pl_state := s1\<rparr>)"
    by (rule pool_move_Some[OF mv(1)])
  obtain t2 rest2 r2 s2 where m2: "b < length (pl_buckets P)" "pl_buckets P ! b = t2 # rest2"
    "act t2 (pl_state P) = (r2, s2)" "P2 = thread_after b r2 rest2 (P\<lparr>pl_state := s2\<rparr>)"
    by (rule pool_move_Some[OF mv(2)])
  obtain A C where AC: "concat (pl_buckets P) = A @ t1 # rest1 @ C" "\<And>x. concat ((pl_buckets P)[a := x]) = A @ x @ C"
    using pending_split[OF m1(1,2)] by blast
  have b: "b < length ((pl_buckets P)[a := rest1])" "(pl_buckets P)[a := rest1] ! b = t2 # rest2" using m2(1,2) ab by simp_all
  obtain A' C' where "concat ((pl_buckets P)[a := rest1]) = A' @ t2 # rest2 @ C'" using pending_split[OF b] by blast
  then have "A @ rest1 @ C = A' @ t2 # rest2 @ C'" by (simp only: AC(2))
  then have "mset A + mset rest1 + mset C = add_mset t2 (mset A' + mset rest2 + mset C')"
    by (metis add_mset_add_single mset.simps(2) mset_append union_assoc union_mset_add_mset_right)
  then have "mset (concat (pl_buckets P)) = add_mset t1 (add_mset t2 (mset A' + mset rest2 + mset C'))"
    by (simp add: AC(1) ac_simps)
  then obtain s where s: "act t2 s1 = (r2, s)" "act t1 s2 = (r1, s)"
    using commute[OF _ m1(3) m2(3)] ok unfolding fit_def by metis
  have "pool_move act b P1 = Some (thread_after b r2 rest2 (P1\<lparr>pl_state := s\<rparr>))"
    by (rule pool_moveI) (use m2(1,2) ab s(1) in \<open>simp_all add: m1(4)\<close>)
  moreover have "pool_move act a P2 = Some (thread_after a r1 rest1 (P2\<lparr>pl_state := s\<rparr>))"
    by (rule pool_moveI) (use m1(1,2) ab s(2) in \<open>simp_all add: m2(4)\<close>)
  moreover have "thread_after b r2 rest2 (P1\<lparr>pl_state := s\<rparr>) = thread_after a r1 rest1 (P2\<lparr>pl_state := s\<rparr>)"
    unfolding m1(4) m2(4) using ab
    by (cases r1; cases r2) (simp_all add: thread_after_def list_update_swap[of a b])
  ultimately show ?thesis by simp
qed

lemma steps_unique:
  "fit P \<Longrightarrow> (pool_step act)\<^sup>*\<^sup>* P N \<Longrightarrow> \<forall>Q. \<not> pool_step act N Q \<Longrightarrow>
   (pool_step act)\<^sup>*\<^sup>* P N' \<Longrightarrow> \<forall>Q. \<not> pool_step act N' Q \<Longrightarrow> N = N'"
proof (induction "pool_left P" arbitrary: P N N' rule: less_induct)
  case less
  show ?case
  proof (cases "\<exists>P'. pool_step act P P'")
    case False
    then show ?thesis using less.prems(2,4) by (metis converse_rtranclpE)
  next
    case True
    then obtain P' where "pool_step act P P'" by blast
    then have "P \<noteq> N" "P \<noteq> N'" using less.prems(3,5) by auto
    then obtain P1 P2 where st: "pool_step act P P1" "(pool_step act)\<^sup>*\<^sup>* P1 N"
      "pool_step act P P2" "(pool_step act)\<^sup>*\<^sup>* P2 N'"
      using less.prems(2,4) by (metis converse_rtranclpE)
    obtain a b where m: "pool_move act a P = Some P1" "pool_move act b P = Some P2"
      using st(1,3) by (auto elim!: pool_step.cases)
    note l = pool_left_step[OF m(1)] pool_left_step[OF m(2)] and o = fit_step[OF less.prems(1) m(1)] fit_step[OF less.prems(1) m(2)]
    show ?thesis
    proof (cases "a = b")
      case True
      then have "P1 = P2" using m by simp
      then show ?thesis using less.hyps[OF l(1) o(1) st(2) less.prems(3)] st(4) less.prems(5) by blast
    next
      case False
      obtain Q where Q: "pool_move act b P1 = Some Q" "pool_move act a P2 = Some Q"
        using diamond[OF less.prems(1) m False] by blast
      obtain M where M: "(pool_step act)\<^sup>*\<^sup>* Q M" "\<forall>R. \<not> pool_step act M R"
        using pool_ends[of act Q] by blast
      have r: "(pool_step act)\<^sup>*\<^sup>* P1 M" "(pool_step act)\<^sup>*\<^sup>* P2 M"
        using Q M(1) by (meson converse_rtranclp_into_rtranclp pool_step.intros)+
      then have "N = M" "N' = M"
        using less.hyps[OF l(1) o(1) st(2) less.prems(3) r(1) M(2)] less.hyps[OF l(2) o(2) st(4) less.prems(5) r(2) M(2)] by blast+
      then show ?thesis by simp
    qed
  qed
qed



lemma start_fit: "0 < p \<Longrightarrow> ok s (mset targets) \<Longrightarrow> fit (start_pool p targets s)"
  using mset_round_robin[of p targets] by (simp add: fit_def start_pool_def)

lemma run_unique:
  assumes "0 < p" "ok s (mset targets)" "(pool_step act)\<^sup>*\<^sup>* (start_pool p targets s) Q" "\<forall>Q'. \<not> pool_step act Q Q'"
  shows "run_pool act schedule p targets s = (pool_result Q, pl_state Q)"
proof -
  let ?N = "pool_join act (pool_schedule act schedule (start_pool p targets s))"
  have "(pool_step act)\<^sup>*\<^sup>* (start_pool p targets s) ?N"
    unfolding pool_join_def by (rule rtranclp_trans[OF schedule_steps schedule_steps])
  then have "Q = ?N" using steps_unique[OF start_fit[OF assms(1,2)] assms(3,4)] join_done by blast
  then show ?thesis by (simp add: run_pool_def Let_def)
qed

end

subsection \<open>Runs without an error\<close>

definition all_done :: "('t set \<Rightarrow> 's \<Rightarrow> bool) \<Rightarrow> 't list \<Rightarrow> 't set \<Rightarrow> ('t, 's) pool \<Rightarrow> bool" where
  "all_done J ts D P \<longleftrightarrow> J D (pl_state P) \<and> (\<forall>e \<in> set (pl_errors P). e = None) \<and>
     distinct (concat (pl_buckets P)) \<and> set (concat (pl_buckets P)) = set ts - D \<and> D \<subseteq> set ts"

lemma all_done_step:
  assumes step: "\<And>D s t. J D s \<Longrightarrow> t \<in> set ts \<Longrightarrow> t \<notin> D \<Longrightarrow> D \<subseteq> set ts \<Longrightarrow> \<exists>s'. act t s = (Ok (), s') \<and> J (insert t D) s'"
    and G: "all_done J ts D P" and mv: "pool_move act b P = Some P'"
  shows "\<exists>D'. all_done J ts D' P'"
proof -
  obtain t rest r s where m: "b < length (pl_buckets P)" "pl_buckets P ! b = t # rest"
    "act t (pl_state P) = (r, s)" "P' = thread_after b r rest (P\<lparr>pl_state := s\<rparr>)"
    by (rule pool_move_Some[OF mv])
  obtain A C where AC: "concat (pl_buckets P) = A @ t # rest @ C" "\<And>x. concat ((pl_buckets P)[b := x]) = A @ x @ C"
    using pending_split[OF m(1,2)] by blast
  have all: "set (A @ t # rest @ C) = set ts - D" "distinct (A @ t # rest @ C)" "D \<subseteq> set ts"
    using G by (simp_all add: all_done_def AC(1))
  then have t: "t \<in> set ts" "t \<notin> D" by auto
  then have r: "r = Ok ()" "J (insert t D) s" using step[of D "pl_state P" t] all(3) G m(3) by (auto simp: all_done_def)
  have "set (A @ rest @ C) = set (A @ t # rest @ C) - {t}" using all(2) by auto
  also have "\<dots> = set ts - insert t D" unfolding all(1) by blast
  finally have "all_done J ts (insert t D) P'"
    using G r all(2,3) t(1) by (simp add: all_done_def m(4) thread_after_def AC(2))
  then show ?thesis by blast
qed

lemma stuck_empty:
  assumes "\<forall>Q'. \<not> pool_step act Q Q'"
  shows "concat (pl_buckets Q) = []"
proof (rule ccontr)
  assume "concat (pl_buckets Q) \<noteq> []"
  then obtain c where c: "c < length (pl_buckets Q)" "pl_buckets Q ! c \<noteq> []" by (auto simp: in_set_conv_nth)
  then obtain t rest where t: "pl_buckets Q ! c = t # rest" by (cases "pl_buckets Q ! c") simp_all
  obtain r s where "act t (pl_state Q) = (r, s)" by (cases "act t (pl_state Q)")
  then have "pool_move act c Q = Some (thread_after c r rest (Q\<lparr>pl_state := s\<rparr>))" by (rule pool_moveI[where b = c and P = Q, OF c(1) t])
  then show False using assms pool_step.intros by blast
qed

lemma no_errors: "\<forall>e \<in> set es. e = None \<Longrightarrow> List.map_filter (\<lambda>e. e) es = []"
  by (induction es) (auto simp: List.map_filter_simps)

lemma all_done_full:
  assumes "all_done J ts D Q" "concat (pl_buckets Q) = []"
  shows "J (set ts) (pl_state Q) \<and> pool_result Q = Ok ()"
proof -
  have "set ts - D = {}" "D \<subseteq> set ts" "J D (pl_state Q)" "\<forall>e \<in> set (pl_errors Q). e = None"
    using assms by (simp_all add: all_done_def del: concat_eq_Nil_conv)
  moreover from this have "D = set ts" by blast
  ultimately show ?thesis using no_errors[of "pl_errors Q"] by (simp add: pool_result_def)
qed

lemma run_pool_all:
  assumes step: "\<And>D s t. J D s \<Longrightarrow> t \<in> set ts \<Longrightarrow> t \<notin> D \<Longrightarrow> D \<subseteq> set ts \<Longrightarrow> \<exists>s'. act t s = (Ok (), s') \<and> J (insert t D) s'"
    and "0 < p" "distinct ts" "J {} s"
  shows "\<exists>s'. run_pool act schedule p ts s = (Ok (), s') \<and> J (set ts) s'"
proof -
  let ?P = "start_pool p ts s"
  let ?Q = "pool_join act (pool_schedule act schedule ?P)"
  note ms = mset_round_robin[OF assms(2), of ts]
  have "set (concat (round_robin p ts)) = set ts" "distinct (concat (round_robin p ts))"
    using mset_eq_setD[OF ms] mset_eq_imp_distinct_iff[OF ms] assms(3) by simp_all
  then have "all_done J ts {} ?P" using assms(4) unfolding all_done_def start_pool_def by simp
  moreover have "(pool_step act)\<^sup>*\<^sup>* ?P ?Q"
    unfolding pool_join_def by (rule rtranclp_trans[OF schedule_steps schedule_steps])
  moreover have "\<exists>D'. all_done J ts D' R" if "(pool_step act)\<^sup>*\<^sup>* Q R" "all_done J ts D Q" for D Q R
    using that
  proof (induction rule: rtranclp_induct)
    case (step R R')
    then show ?case using all_done_step[where act = act and J = J and ts = ts, OF assms(1)] by (blast elim: pool_stepE)
  qed blast
  ultimately obtain D where D: "all_done J ts D ?Q" by blast
  have "concat (pl_buckets ?Q) = []" by (rule stuck_empty[where act = act]) (simp add: join_done)
  from all_done_full[OF D this] show ?thesis by (simp add: run_pool_def Let_def)
qed

end
