(* ===== verification/Dataset_Write.thy ===== *)
theory Dataset_Write
  imports Dataset_Handle Thread_Pool
begin

text \<open>
  Writing a row range of several fields (\<open>DatasetHandle::write_dataset\<close> of
  \<open>splayed-core/src/dataset.rs\<close>). The handles to write are found by the file name of their path, and
  are written one after the other or, for a large view, by threads that each own a bucket of handles. A
  schedule says which thread makes the next step; a step is one write of a handle, since no two threads
  share a handle or a file.
\<close>

subsection \<open>The operation\<close>

definition WRITE_PARALLEL_MIN_BYTES :: nat where
  "WRITE_PARALLEL_MIN_BYTES = 1024 * 1024"

definition view_bytes :: "column_view \<Rightarrow> nat" where
  "view_bytes view = sum_list (map (\<lambda>s. case seg_values s of
      Fixed v \<Rightarrow> length v | Dict keys _ _ \<Rightarrow> length keys | RepeatDict _ _ _ \<Rightarrow> 0) (cv_segments view))"

fun check_fields :: "schema \<Rightarrow> field_schema list \<Rightarrow> (core_error, unit) res" where
  "check_fields s [] = Ok ()"
| "check_fields s (f # fs) =
     (if is_reserved (fs_name f) then Err (Invalid ''write_dataset must not contain sym/time columns'')
      else case schema_data_type_of s (fs_name f) of
        None \<Rightarrow> Err (Invalid ''unknown field'')
      | Some t \<Rightarrow> if t \<noteq> fs_type f then Err (Invalid ''field type does not match dataset schema'')
          else check_fields s fs)"

text \<open>The column of the view and the cache key of every handle that is written.\<close>

definition write_targets :: "dataset_handle \<Rightarrow> data_view \<Rightarrow> (nat \<times> string) list" where
  "write_targets d data =
     List.map_filter (\<lambda>(key, h). map_option (\<lambda>i. (i, key)) (schema_position (dv_schema data) (file_name (fd_path h))))
       (ds_fields d)"

definition write_target :: "nat \<Rightarrow> data_view \<Rightarrow> nat \<times> string \<Rightarrow> unit ds" where
  "write_target offset data t =
     ds_bind (ds_get (\<lambda>d. d)) (\<lambda>d.
     ds_bind (ds_lift (cached_handle d (snd t))) (\<lambda>h.
     ds_bind (ds_lift (nth_r (dv_columns data) (fst t))) (\<lambda>col.
     ds_bind (ds_io (write_field_handle h offset col)) (\<lambda>h'.
       ds_modify (cache_insert (snd t) h')))))"

definition write_parallel :: "nat list \<Rightarrow> nat \<Rightarrow> nat \<Rightarrow> data_view \<Rightarrow> (nat \<times> string) list \<Rightarrow> unit ds" where
  "write_parallel schedule p offset data targets = run_pool (write_target offset data) schedule p targets"

definition write_dataset :: "codec_backend \<Rightarrow> nat list \<Rightarrow> nat \<Rightarrow> data_view \<Rightarrow> unit ds" where
  "write_dataset B schedule offset data =
     ds_bind (ds_get (\<lambda>d. d)) (\<lambda>d0.
     ds_bind (ds_lift (require_write (ds_mode d0))) (\<lambda>_.
     if u64_max < offset + dv_length data \<or> logical_length d0 < offset + dv_length data
     then ds_lift (Err (Invalid ''write range exceeds dataset length''))
     else if dv_length data = 0 then ds_ret ()
     else ds_bind (ds_lift (check_fields (ds_schema d0) (dv_schema data))) (\<lambda>_.
          ds_bind (ds_each (\<lambda>f. ensure_field B (fs_name f)) (dv_schema data)) (\<lambda>_.
          ds_bind (ds_lift (guard (distinct (map fs_name (dv_schema data))) (Invalid ''duplicate field in write_dataset''))) (\<lambda>_.
          ds_bind (ds_get (\<lambda>d. d)) (\<lambda>d.
          let targets = write_targets d data;
              total_bytes = sum_list (map view_bytes (dv_columns data));
              p = ds_max_parallelism d
          in if length targets \<le> 1 \<or> total_bytes < WRITE_PARALLEL_MIN_BYTES \<or> p \<le> 1
             then ds_each (write_target offset data) targets
             else write_parallel schedule (min p (length targets)) offset data targets))))))"

subsection \<open>A write depends on one file\<close>

lemma write_into_path:
  "write_into_working h offset data = Ok h' \<Longrightarrow> fd_path h' = fd_path h"
  "write_into_mmap h offset data = Ok h' \<Longrightarrow> fd_path h' = fd_path h"
proof -
  show "write_into_working h offset data = Ok h' \<Longrightarrow> fd_path h' = fd_path h"
    by (cases "fd_working h") (auto simp: write_into_working_def res_simps Let_def split: if_splits)
  show "write_into_mmap h offset data = Ok h' \<Longrightarrow> fd_path h' = fd_path h"
    by (cases "fd_backing h") (auto simp: write_into_mmap_def res_simps Let_def split: if_splits)
qed

lemma sync_header_local: "fd_path h = p \<Longrightarrow> io_local p (sync_header h)"
  unfolding sync_header_def
  by (cases "fd_backing h") (auto intro!: io_local_bind io_local_basic io_local_update)

lemma expand_local: "io_local (fd_path h) (expand_header_only_file h)"
  unfolding expand_header_only_file_def Let_def by (intro io_local_bind io_local_basic)

lemma expand_path: "expand_header_only_file h fs = (Ok h1, fs') \<Longrightarrow> fd_path h1 = fd_path h"
  by (auto simp: expand_header_only_file_def Let_def io_bind_eq_Ok io_ret_def)

lemma write_local: "io_local (fd_path h) (write_field_handle h offset data)"
proof -
  let ?body = "if fd_is_chunked h then io_lift (write_into_working h offset data)
                   else io_bind (if fd_working h \<noteq> None then expand_header_only_file h else io_ret h) (\<lambda>h1.
                        io_lift (write_into_mmap h1 offset data))"
  have l: "io_local (fd_path h) ?body"
    by (auto intro!: io_local_bind io_local_basic expand_local)
  have p: "fd_path h2 = fd_path h" if "?body fs = (Ok h2, fs')" for fs h2 fs'
    using that
    by (auto simp: io_bind_eq_Ok io_lift_def io_ret_def dest!: write_into_path expand_path split: if_splits)
  have "io_local (fd_path h) (io_bind ?body (\<lambda>h2.
            sync_header (h2\<lparr>fd_header := (fd_header h2)\<lparr>fh_generation := fh_generation (fd_header h2) + 1\<rparr>, fd_modified := True\<rparr>)))"
    by (rule io_local_bind[OF l]) (rule sync_header_local, simp add: p)
  then show ?thesis
    unfolding write_field_handle_def by (auto intro!: io_local_bind io_local_basic)
qed


subsection \<open>Steps of different threads commute\<close>

definition target_io :: "nat \<Rightarrow> data_view \<Rightarrow> nat \<Rightarrow> field_handle \<Rightarrow> field_handle io" where
  "target_io offset data i h = io_bind (io_lift (nth_r (dv_columns data) i)) (write_field_handle h offset)"

lemma target_local: "io_local (fd_path h) (target_io offset data i h)"
  unfolding target_io_def by (intro io_local_bind io_local_basic write_local)

lemma write_target_eq:
  assumes "map_of (ds_fields d) key = Some h" "target_io offset data i h fs = (r, gs)"
  shows "write_target offset data (i, key) (d, fs) =
    (rbind r (\<lambda>_. Ok ()), (case r of Ok h' \<Rightarrow> cache_insert key h' d | _ \<Rightarrow> d), gs)"
  using assms
  by (cases "nth_r (dv_columns data) i :: (core_error, _) res"; cases r)
     (auto simp: write_target_def target_io_def cached_handle_def ok_or_def ds_bind_def ds_get_def ds_lift_def ds_io_def
        ds_modify_def io_bind_def io_lift_def split: prod.splits res.splits)

lemma update_commute:
  "k \<noteq> k' \<Longrightarrow> k \<in> fst ` set al \<Longrightarrow> k' \<in> fst ` set al \<Longrightarrow>
   AList.update k v (AList.update k' v' al) = AList.update k' v' (AList.update k v al)"
proof (induction al)
  case (Cons x al)
  have one: "AList.update k v (AList.update k' v' ((a, b) # l)) = AList.update k' v' (AList.update k v ((a, b) # l))"
    if "a = k \<or> a = k'" for a b l using that Cons.prems(1) by auto
  show ?case
  proof (cases "fst x = k \<or> fst x = k'")
    case True
    then show ?thesis using one[of "fst x" "snd x" al] by simp
  next
    case False
    then have "k \<in> fst ` set al" "k' \<in> fst ` set al" using Cons.prems by auto
    then show ?thesis using Cons False by (cases x) auto
  qed
qed simp

lemma insert_commute_cached:
  "k \<noteq> k' \<Longrightarrow> map_of (ds_fields d) k \<noteq> None \<Longrightarrow> map_of (ds_fields d) k' \<noteq> None \<Longrightarrow>
   cache_insert k v (cache_insert k' v' d) = cache_insert k' v' (cache_insert k v d)"
  by (simp add: cache_insert_def update_commute map_of_eq_None_iff)

lemma write_target_commute:
  assumes h: "map_of (ds_fields d) k1 = Some h1" "map_of (ds_fields d) k2 = Some h2" "fd_path h1 \<noteq> fd_path h2"
    and w: "write_target offset data (i1, k1) (d, fs) = (r1, s1)" "write_target offset data (i2, k2) (d, fs) = (r2, s2)"
  shows "\<exists>s. write_target offset data (i2, k2) s1 = (r2, s) \<and> write_target offset data (i1, k1) s2 = (r1, s)"
proof -
  let ?p1 = "fd_path h1" and ?p2 = "fd_path h2"
  have k: "k1 \<noteq> k2" using h by auto
  obtain q1 g1 where t1: "target_io offset data i1 h1 fs = (q1, g1)" by (cases "target_io offset data i1 h1 fs")
  obtain q2 g2 where t2: "target_io offset data i2 h2 fs = (q2, g2)" by (cases "target_io offset data i2 h2 fs")
  note D1 = io_localD[OF target_local[of h1 offset data i1]] and D2 = io_localD[OF target_local[of h2 offset data i2]]
  have off1: "g1 q = fs q" if "q \<noteq> ?p1" for q using D1(2)[where fs = fs and q = q, OF that t1] .
  have off2: "g2 q = fs q" if "q \<noteq> ?p2" for q using D2(2)[where fs = fs and q = q, OF that t2] .
  obtain g12 where t12: "target_io offset data i2 h2 g1 = (q2, g12)" "g12 ?p2 = g2 ?p2"
    using D2(1)[where fs = fs and fs' = g1, OF _ t2] off1[of ?p2] h(3) by auto
  obtain g21 where t21: "target_io offset data i1 h1 g2 = (q1, g21)" "g21 ?p1 = g1 ?p1"
    using D1(1)[where fs = fs and fs' = g2, OF _ t1] off2[of ?p1] h(3) by auto
  have "g12 = g21"
  proof
    fix q
    have a: "q \<noteq> ?p2 \<Longrightarrow> g12 q = g1 q" using D2(2)[where fs = g1 and q = q, OF _ t12(1)] .
    have b: "q \<noteq> ?p1 \<Longrightarrow> g21 q = g2 q" using D1(2)[where fs = g2 and q = q, OF _ t21(1)] .
    show "g12 q = g21 q"
      using a b off1[of q] off2[of q] t12(2) t21(2) h(3) by (cases "q = ?p1"; cases "q = ?p2") auto
  qed
  define d1 where "d1 = (case q1 of Ok h' \<Rightarrow> cache_insert k1 h' d | _ \<Rightarrow> d)"
  define d2 where "d2 = (case q2 of Ok h' \<Rightarrow> cache_insert k2 h' d | _ \<Rightarrow> d)"
  have s: "r1 = rbind q1 (\<lambda>_. Ok ())" "s1 = (d1, g1)" "r2 = rbind q2 (\<lambda>_. Ok ())" "s2 = (d2, g2)"
    using w write_target_eq[OF h(1) t1] write_target_eq[OF h(2) t2] by (simp_all add: d1_def d2_def)
  have l: "map_of (ds_fields d1) k2 = Some h2" "map_of (ds_fields d2) k1 = Some h1"
    using h k by (auto simp: d1_def d2_def split: res.splits)
  have c: "(case q2 of Ok h' \<Rightarrow> cache_insert k2 h' d1 | _ \<Rightarrow> d1) = (case q1 of Ok h' \<Rightarrow> cache_insert k1 h' d2 | _ \<Rightarrow> d2)"
    using insert_commute_cached[of k2 k1 d] h(1,2) k by (auto simp: d1_def d2_def split: res.splits)
  show ?thesis
    using write_target_eq[OF l(1) t12(1)] write_target_eq[OF l(2) t21(1)] c \<open>g12 = g21\<close> unfolding s by auto
qed


definition target_path :: "dataset_handle \<Rightarrow> nat \<times> string \<Rightarrow> string" where
  "target_path d t = fd_path (the (map_of (ds_fields d) (snd t)))"

text \<open>The pending targets are open handles of different files.\<close>

definition targets_ok :: "dataset_handle \<Rightarrow> (nat \<times> string) list \<Rightarrow> bool" where
  "targets_ok d ts \<longleftrightarrow> (\<forall>t \<in> set ts. map_of (ds_fields d) (snd t) \<noteq> None) \<and> distinct (map (target_path d) ts)"

lemma write_target_other:
  assumes "write_target offset data t (d, fs) = (r, d', fs')" "key \<noteq> snd t"
  shows "map_of (ds_fields d') key = map_of (ds_fields d) key"
  using assms
  by (auto simp: write_target_def ds_bind_def ds_get_def ds_lift_def ds_io_def ds_modify_def split: res.splits prod.splits)

lemma targets_ok_mset: "mset ts = mset ts' \<Longrightarrow> targets_ok d ts \<longleftrightarrow> targets_ok d ts'"
  unfolding targets_ok_def using mset_eq_setD[of ts ts'] mset_eq_imp_distinct_iff[of "map (target_path d) ts" "map (target_path d) ts'"]
  by simp

definition pending_ok :: "dataset_handle \<times> files \<Rightarrow> (nat \<times> string) multiset \<Rightarrow> bool" where
  "pending_ok s M \<longleftrightarrow> (\<exists>ts. mset ts = M \<and> targets_ok (fst s) ts)"

lemma pending_ok_mset [simp]: "pending_ok s (mset ts) \<longleftrightarrow> targets_ok (fst s) ts"
  unfolding pending_ok_def by (metis targets_ok_mset)

lemma pending_okE:
  assumes "pending_ok s (add_mset t M)"
  obtains us where "M = mset us" "targets_ok (fst s) (t # us)"
proof -
  obtain us where us: "mset us = M" using ex_mset by blast
  then have "pending_ok s (mset (t # us))" using assms by simp
  then show ?thesis using that us unfolding pending_ok_mset by blast
qed

lemma targets_ok_after:
  assumes "targets_ok d (t # us)" "write_target offset data t (d, fs) = (r, d', fs')"
  shows "targets_ok d' us"
proof -
  have ne: "snd u \<noteq> snd t" if "u \<in> set us" for u
  proof -
    have "target_path d t \<notin> target_path d ` set us" using assms(1) by (simp add: targets_ok_def)
    then have "target_path d u \<noteq> target_path d t" using that by (metis imageI)
    then show ?thesis by (auto simp: target_path_def)
  qed
  then have e: "map_of (ds_fields d') (snd u) = map_of (ds_fields d) (snd u)" if "u \<in> set us" for u
    using write_target_other[OF assms(2)] that by blast
  have m: "map (target_path d') us = map (target_path d) us" using e by (simp add: target_path_def)
  show ?thesis unfolding targets_ok_def m using assms(1) e by (simp add: targets_ok_def)
qed

interpretation writers: task_pool "write_target offset data" pending_ok for offset data
proof
  fix s t and M :: "(nat \<times> string) multiset"
  assume "pending_ok s (add_mset t M)"
  then obtain us where us: "M = mset us" "targets_ok (fst s) (t # us)" by (rule pending_okE)
  then show "pending_ok s M" by (simp add: targets_ok_def)
  show "pending_ok s' M" if "write_target offset data t s = (r, s')" for r s'
    using targets_ok_after[of "fst s" t us offset data "snd s" r "fst s'" "snd s'"] us that by simp
next
  fix s t u and M :: "(nat \<times> string) multiset" and r1 s1 r2 s2
  assume ok: "pending_ok s (add_mset t (add_mset u M))"
    and w: "write_target offset data t s = (r1, s1)" "write_target offset data u s = (r2, s2)"
  obtain us where "add_mset u M = mset us" "targets_ok (fst s) (t # us)" by (rule pending_okE[OF ok])
  then have T: "targets_ok (fst s) (t # us)" "u \<in> set us" by (metis, metis set_mset_mset union_single_eq_member)
  then obtain h1 h2 where h: "map_of (ds_fields (fst s)) (snd t) = Some h1" "map_of (ds_fields (fst s)) (snd u) = Some h2"
    by (auto simp: targets_ok_def)
  have "target_path (fst s) t \<notin> target_path (fst s) ` set us" using T(1) by (simp add: targets_ok_def)
  with T(2) have "target_path (fst s) u \<noteq> target_path (fst s) t" by (metis imageI)
  with h have "fd_path h1 \<noteq> fd_path h2" by (simp add: target_path_def)
  from write_target_commute[OF h this, of offset data "fst t" "snd s" r1 s1 "fst u" r2 s2] w
  show "\<exists>s'. write_target offset data u s1 = (r2, s') \<and> write_target offset data t s2 = (r1, s')" by simp
qed

subsection \<open>What a write does to the fields\<close>

definition simple_name :: "string \<Rightarrow> bool" where
  "simple_name name \<longleftrightarrow> CHR ''.'' \<notin> set name \<and> CHR ''/'' \<notin> set name"

lemma dots_simple: "simple_name name \<Longrightarrow> dots_to_slashes name = name"
  by (induction name) (auto simp: simple_name_def dots_to_slashes_def)

lemma dots_to_slashes_inj: "simple_name name \<Longrightarrow> dots_to_slashes other = dots_to_slashes name \<Longrightarrow> other = name"
proof (induction name arbitrary: other)
  case Nil
  then show ?case by (simp add: dots_to_slashes_def)
next
  case (Cons c name)
  then obtain c' other' where o: "other = c' # other'" by (cases other) (auto simp: dots_to_slashes_def)
  have "simple_name name" "c \<noteq> CHR ''.''" "c \<noteq> CHR ''/''" using Cons.prems(1) by (auto simp: simple_name_def)
  then show ?case using Cons o by (auto simp: dots_to_slashes_def split: if_splits)
qed

lemma field_path_inj: "simple_name name \<Longrightarrow> field_path d other = field_path d name \<Longrightarrow> other = name"
  using dots_to_slashes_inj by (simp add: field_path_def path_join_def)

lemma file_name_field_path: "simple_name name \<Longrightarrow> file_name (field_path d name) = name"
proof -
  assume s: "simple_name name"
  have "takeWhile (\<lambda>c. c \<noteq> CHR ''/'') (rev name @ CHR ''/'' # rev (ds_root d)) = rev name"
    using s by (subst takeWhile_append2) (auto simp: simple_name_def)
  then show ?thesis by (simp add: file_name_def field_path_def path_join_def dots_simple[OF s])
qed

text \<open>A cache whose handles belong to the fields they are stored under, all with names of one kind.\<close>

definition cache_ok :: "(string \<Rightarrow> bool) \<Rightarrow> dataset_handle \<Rightarrow> bool" where
  "cache_ok kind d \<longleftrightarrow> distinct (map fst (ds_fields d)) \<and>
     (\<forall>(key, h) \<in> set (ds_fields d). kind key \<and> fd_path h = field_path d key)"

text \<open>The field takes the column: NULLs need a validity region.\<close>

definition takes :: "codec_backend \<Rightarrow> files \<Rightarrow> dataset_handle \<Rightarrow> string \<Rightarrow> data_type \<Rightarrow> column_view \<Rightarrow> bool" where
  "takes B fs d name dt col \<longleftrightarrow>
     (\<forall>h. (case map_of (ds_fields d) name of
             Some h' \<Rightarrow> h = h'
           | None \<Rightarrow> open_field_file B (field_path d name) (ds_mode d) fs = (Ok h, fs)) \<longrightarrow> writable h dt col)"

definition write_ready ::
  "codec_backend \<Rightarrow> files \<Rightarrow> dataset_handle \<Rightarrow> nat \<Rightarrow> data_view \<Rightarrow> (nat \<Rightarrow> (bool \<times> cell_value) list) \<Rightarrow> bool" where
  "write_ready B fs d offset data cells \<longleftrightarrow>
     ds_mode d = Write \<and> cache_ok (\<lambda>_. True) d \<and> 0 < dv_length data \<and> offset + dv_length data \<le> logical_length d \<and>
     distinct (map fs_name (dv_schema data)) \<and> length (dv_columns data) = length (dv_schema data) \<and>
     (\<forall>i < length (dv_schema data). let f = dv_schema data ! i; col = dv_columns data ! i in
        \<not> is_reserved (fs_name f) \<and> schema_data_type_of (ds_schema d) (fs_name f) = Some (fs_type f) \<and>
        field_shows B fs d (fs_name f) (fs_type f) (cells i) \<and> length (cells i) = logical_length d \<and>
        cv_length col = dv_length data \<and> takes B fs d (fs_name f) (fs_type f) col)"

text \<open>Between two writes: the columns \<open>D\<close> are written, the others are as they were.\<close>

definition write_inv ::
  "dataset_handle \<Rightarrow> files \<Rightarrow> nat \<Rightarrow> data_view \<Rightarrow> (nat \<Rightarrow> (bool \<times> cell_value) list) \<Rightarrow> nat set \<Rightarrow> dataset_handle \<times> files \<Rightarrow> bool" where
  "write_inv d fs offset data cells D s \<longleftrightarrow>
     (let nm = (\<lambda>i. fs_name (dv_schema data ! i)); m = length (dv_schema data) in
      fst s = d\<lparr>ds_fields := ds_fields (fst s)\<rparr> \<and>
      (\<forall>i < m. if i \<in> D
         then \<exists>h. map_of (ds_fields (fst s)) (nm i) = Some h \<and> fd_path h = field_path d (nm i) \<and>
                handle_shows h (fs_type (dv_schema data ! i)) (splice offset (view_cells (dv_columns data ! i)) (cells i)) \<and>
                fd_live (snd s) h (fs_type (dv_schema data ! i))
         else map_of (ds_fields (fst s)) (nm i) = map_of (ds_fields d) (nm i) \<and>
              snd s (field_path d (nm i)) = fs (field_path d (nm i))) \<and>
      (\<forall>k. k \<notin> nm ` {..<m} \<longrightarrow> map_of (ds_fields (fst s)) k = map_of (ds_fields d) k) \<and>
      (\<forall>q. q \<notin> (\<lambda>i. field_path d (nm i)) ` {..<m} \<longrightarrow> snd s q = fs q))"

text \<open>What holds when all fields of the view are open.\<close>

definition write_open ::
  "files \<Rightarrow> dataset_handle \<Rightarrow> nat \<Rightarrow> data_view \<Rightarrow> (nat \<Rightarrow> (bool \<times> cell_value) list) \<Rightarrow> bool" where
  "write_open fs d offset data cells \<longleftrightarrow> ds_mode d = Write \<and>
     distinct (map fs_name (dv_schema data)) \<and> length (dv_columns data) = length (dv_schema data) \<and>
     (\<forall>i < length (dv_schema data). let f = dv_schema data ! i in simple_name (fs_name f) \<and>
        (\<exists>h. map_of (ds_fields d) (fs_name f) = Some h \<and> fd_path h = field_path d (fs_name f) \<and>
           handle_shows h (fs_type f) (cells i) \<and> fd_live fs h (fs_type f) \<and> writable h (fs_type f) (dv_columns data ! i) \<and>
           offset + cv_length (dv_columns data ! i) \<le> length (cells i)))"

lemma live_cong: "fs' (fd_path h) = fs (fd_path h) \<Longrightarrow> fd_live fs' h dt = fd_live fs h dt"
  by (simp add: fd_live_def)

lemma writable_length: "writable h dt col \<Longrightarrow> length (view_cells col) = cv_length col"
  by (simp add: writable_def view_cells_def length_concat comp_def)

lemma write_inv_step:
  assumes W: "write_open fs d offset data cells" and J: "write_inv d fs offset data cells D s" and i: "i < length (dv_schema data)" "i \<notin> D"
  shows "\<exists>s'. write_target offset data (i, fs_name (dv_schema data ! i)) s = (Ok (), s') \<and>
    write_inv d fs offset data cells (insert i D) s'"
proof -
  define nm where "nm = (\<lambda>j. fs_name (dv_schema data ! j))"
  let ?t = "fs_type (dv_schema data ! i)" and ?col = "dv_columns data ! i" and ?p = "field_path d (nm i)"
  obtain d1 f1 where s: "s = (d1, f1)" by (cases s)
  obtain h where h: "map_of (ds_fields d) (nm i) = Some h" "fd_path h = ?p" "handle_shows h ?t (cells i)" "fd_live fs h ?t"
    "writable h ?t ?col" "offset + cv_length ?col \<le> length (cells i)" "simple_name (nm i)"
    using W i(1) by (auto simp: write_open_def Let_def nm_def)
  have inj: "nm j \<noteq> nm i" "field_path d (nm j) \<noteq> ?p" if "j < length (dv_schema data)" "j \<noteq> i" for j
  proof -
    show n: "nm j \<noteq> nm i" using W i(1) that by (auto simp: write_open_def nm_def distinct_conv_nth)
    show "field_path d (nm j) \<noteq> ?p" using field_path_inj[OF h(7)] n by blast
  qed
  have J': "d1 = d\<lparr>ds_fields := ds_fields d1\<rparr>" "map_of (ds_fields d1) (nm i) = Some h" "f1 ?p = fs ?p"
    using J i h(1) by (auto simp: write_inv_def Let_def s nm_def)
  obtain src where src: "fd_ok h src" "src_type src = ?t" "fd_row_count h = length (cells i)" "source_cells src (length (cells i)) = cells i"
    using h(3) by (auto simp: handle_shows_def)
  have live: "fd_live f1 h ?t" using h(4) live_cong[of f1 h fs] J'(3) h(2) by simp
  have fit: "offset + cv_length ?col \<le> fd_row_count h" using h(6) src(3) by simp
  from write_eq[OF src(1) live src(2) h(5) fit] obtain h' f2 src' where w:
    "write_field_handle h offset ?col f1 = (Ok h', f2)" "fd_ok h' src'" "src_type src' = ?t" "fd_live f2 h' ?t"
    "fd_path h' = fd_path h" "fd_row_count h' = fd_row_count h"
    "source_cells src' (fd_row_count h) = splice offset (view_cells ?col) (cells i)" "\<forall>q. q \<noteq> fd_path h \<longrightarrow> f2 q = f1 q"
    unfolding write_result_def src(3,4) by blast
  have "target_io offset data i h f1 = (Ok h', f2)"
    using w(1) W i(1) by (simp add: target_io_def nth_r_def write_open_def io_bind_def io_lift_def)
  from write_target_eq[OF J'(2) this] have wt: "write_target offset data (i, nm i) (d1, f1) = (Ok (), cache_insert (nm i) h' d1, f2)"
    by simp
  have "length (view_cells ?col) = cv_length ?col" by (rule writable_length[OF h(5)])
  then have shows': "handle_shows h' ?t (splice offset (view_cells ?col) (cells i))"
    using w(2,3,6,7) src(3) h(6) by (auto simp: handle_shows_def)
  have root: "cache_insert (nm i) h' d1 = d\<lparr>ds_fields := ds_fields (cache_insert (nm i) h' d1)\<rparr>"
    by (subst J'(1)) (simp add: cache_insert_def)
  let ?d2 = "cache_insert (nm i) h' d1"
  have all: "if j \<in> insert i D
      then \<exists>hj. map_of (ds_fields ?d2) (nm j) = Some hj \<and> fd_path hj = field_path d (nm j) \<and>
        handle_shows hj (fs_type (dv_schema data ! j)) (splice offset (view_cells (dv_columns data ! j)) (cells j)) \<and>
        fd_live f2 hj (fs_type (dv_schema data ! j))
      else map_of (ds_fields ?d2) (nm j) = map_of (ds_fields d) (nm j) \<and> f2 (field_path d (nm j)) = fs (field_path d (nm j))"
    if j: "j < length (dv_schema data)" for j
  proof (cases "j = i")
    case True
    then show ?thesis using shows' w(4,5) h(2) by simp
  next
    case False
    have k: "map_of (ds_fields ?d2) (nm j) = map_of (ds_fields d1) (nm j)" "f2 (field_path d (nm j)) = f1 (field_path d (nm j))"
      using inj[OF j False] w(8) h(2) by simp_all
    have Jj: "if j \<in> D
      then \<exists>hj. map_of (ds_fields d1) (nm j) = Some hj \<and> fd_path hj = field_path d (nm j) \<and>
        handle_shows hj (fs_type (dv_schema data ! j)) (splice offset (view_cells (dv_columns data ! j)) (cells j)) \<and>
        fd_live f1 hj (fs_type (dv_schema data ! j))
      else map_of (ds_fields d1) (nm j) = map_of (ds_fields d) (nm j) \<and> f1 (field_path d (nm j)) = fs (field_path d (nm j))"
      using J j unfolding write_inv_def Let_def s nm_def fst_conv snd_conv by blast
    show ?thesis
    proof (cases "j \<in> D")
      case True
      then obtain hj where hj: "map_of (ds_fields d1) (nm j) = Some hj" "fd_path hj = field_path d (nm j)"
        "handle_shows hj (fs_type (dv_schema data ! j)) (splice offset (view_cells (dv_columns data ! j)) (cells j))"
        "fd_live f1 hj (fs_type (dv_schema data ! j))" using Jj by auto
      have "fd_live f2 hj (fs_type (dv_schema data ! j))" using live_cong[of f2 hj f1] hj(2,4) k(2) by simp
      then show ?thesis using hj k True by auto
    qed (use Jj k False in auto)
  qed
  have rest: "map_of (ds_fields ?d2) k = map_of (ds_fields d) k" if "k \<notin> nm ` {..<length (dv_schema data)}" for k
  proof -
    have "k \<noteq> nm i" using that i(1) by auto
    then show ?thesis using J that by (simp add: write_inv_def Let_def s nm_def)
  qed
  have files: "f2 q = fs q" if "q \<notin> (\<lambda>i. field_path d (nm i)) ` {..<length (dv_schema data)}" for q
  proof -
    have "q \<noteq> ?p" using that i(1) by auto
    then have "f2 q = f1 q" using w(8) h(2) by simp
    then show ?thesis using J that by (simp add: write_inv_def Let_def s nm_def)
  qed
  have "write_inv d fs offset data cells (insert i D) (?d2, f2)"
    unfolding write_inv_def Let_def nm_def[symmetric] fst_conv snd_conv using root all rest files by blast
  then show ?thesis using wt s unfolding nm_def by auto
qed

lemma write_inv_start: "write_inv d fs offset data cells {} (d, fs)"
  by (simp add: write_inv_def Let_def)

lemma serial_writes:
  assumes W: "write_open fs d offset data cells"
  shows "distinct ts \<Longrightarrow> set ts \<subseteq> {(i, fs_name (dv_schema data ! i)) | i. i < length (dv_schema data) \<and> i \<notin> D} \<Longrightarrow>
    write_inv d fs offset data cells D s \<Longrightarrow>
    \<exists>s'. ds_each (write_target offset data) ts s = (Ok (), s') \<and> write_inv d fs offset data cells (D \<union> fst ` set ts) s'"
proof (induction ts arbitrary: D s)
  case (Cons t ts)
  obtain i where t: "t = (i, fs_name (dv_schema data ! i))" "i < length (dv_schema data)" "i \<notin> D" using Cons.prems(2) by auto
  obtain s1 where s1: "write_target offset data t s = (Ok (), s1)" "write_inv d fs offset data cells (insert i D) s1"
    using write_inv_step[OF W Cons.prems(3) t(2,3)] t(1) by blast
  have "set ts \<subseteq> {(i, fs_name (dv_schema data ! i)) | i. i < length (dv_schema data) \<and> i \<notin> insert (fst t) D}"
    using Cons.prems(1,2) t(1) by auto
  moreover have "distinct ts" "write_inv d fs offset data cells (insert (fst t) D) s1" using Cons.prems(1) s1(2) t(1) by simp_all
  ultimately obtain s' where "ds_each (write_target offset data) ts s1 = (Ok (), s')"
    "write_inv d fs offset data cells (insert (fst t) D \<union> fst ` set ts) s'" using Cons.IH by blast
  then show ?case using s1(1) t(1) by (simp add: ds_bind_def)
qed (simp add: ds_simps)

lemma parallel_writes:
  assumes W: "write_open fs d offset data cells" and p: "0 < p" and dis: "distinct ts"
    and ts: "set ts = {(i, fs_name (dv_schema data ! i)) | i. i < length (dv_schema data)}"
  shows "\<exists>s' D. write_parallel schedule p offset data ts (d, fs) = (Ok (), s') \<and> {..<length (dv_schema data)} \<subseteq> D \<and>
    write_inv d fs offset data cells D s'"
proof -
  let ?J = "\<lambda>D. write_inv d fs offset data cells (fst ` D)"
  have "\<exists>s'. write_target offset data t s = (Ok (), s') \<and> ?J (insert t D) s'"
    if J: "?J D s" and t: "t \<in> set ts" "t \<notin> D" and D: "D \<subseteq> set ts" for D s t
  proof -
    obtain i where i: "t = (i, fs_name (dv_schema data ! i))" "i < length (dv_schema data)" using t(1) ts by auto
    have "i \<notin> fst ` D" using t(2) D ts i(1) by auto
    from write_inv_step[OF W J i(2) this] show ?thesis by (simp add: i(1))
  qed
  then obtain s' where s': "run_pool (write_target offset data) schedule p ts (d, fs) = (Ok (), s')" "?J (set ts) s'"
    using run_pool_all[where J = ?J and act = "write_target offset data" and ts = ts and p = p and s = "(d, fs)" and schedule = schedule]
      p dis write_inv_start[of d fs offset data cells] by auto
  have "{..<length (dv_schema data)} \<subseteq> fst ` set ts" using ts by force
  then show ?thesis using s' by (intro exI[of _ s'] exI[of _ "fst ` set ts"]) (simp add: write_parallel_def)
qed

subsection \<open>The whole operation\<close>

lemma set_update: "set (AList.update k v al) \<subseteq> insert (k, v) (set al)"
  by (induction al) auto

lemma ensure_all:
  assumes "\<forall>f \<in> set fls. kind (fs_name f) \<and> (\<exists>dt cells. field_shows B fs d (fs_name f) dt cells)" "cache_ok kind d"
  shows "\<exists>d1. ds_each (\<lambda>f. ensure_field B (fs_name f)) fls (d, fs) = (Ok (), d1, fs) \<and> opened_more B fs d d1 \<and>
    cache_ok kind d1 \<and> (\<forall>f \<in> set fls. map_of (ds_fields d1) (fs_name f) \<noteq> None)"
  using assms
proof (induction fls arbitrary: d)
  case Nil
  then show ?case using opened_more_refl by (simp add: ds_simps)
next
  case (Cons f fls)
  obtain dt cells where "field_shows B fs d (fs_name f) dt cells" using Cons.prems(1) by auto
  from ensure_field_eq[OF this] obtain d1 h where d1: "ensure_field B (fs_name f) (d, fs) = (Ok (), d1, fs)" "opened_more B fs d d1"
    "map_of (ds_fields d1) (fs_name f) = Some h" "fd_path h = field_path d (fs_name f)"
    "d1 = (if map_of (ds_fields d) (fs_name f) = None then cache_insert (fs_name f) h d else d)" by blast
  have "cache_ok kind (cache_insert (fs_name f) h d)"
    if "map_of (ds_fields d) (fs_name f) = None"
  proof -
    have "distinct (map fst (ds_fields (cache_insert (fs_name f) h d)))"
      using Cons.prems(2) by (simp add: cache_ok_def cache_insert_def distinct_update)
    moreover have "set (ds_fields (cache_insert (fs_name f) h d)) \<subseteq> insert (fs_name f, h) (set (ds_fields d))"
      unfolding cache_insert_def by (simp add: set_update)
    ultimately show ?thesis
      using Cons.prems d1(4) by (auto simp: cache_ok_def)
  qed
  then have ok: "cache_ok kind d1" using d1(5) Cons.prems(2) by (auto split: if_splits)
  have sh: "\<forall>f \<in> set fls. kind (fs_name f) \<and> (\<exists>dt cells. field_shows B fs d1 (fs_name f) dt cells)"
  proof
    fix g assume "g \<in> set fls"
    then have "kind (fs_name g) \<and> (\<exists>dt cells. field_shows B fs d (fs_name g) dt cells)" using Cons.prems(1) by simp
    then show "kind (fs_name g) \<and> (\<exists>dt cells. field_shows B fs d1 (fs_name g) dt cells)"
      using opened_more_shows[OF d1(2)] by blast
  qed
  obtain d2 where d2: "ds_each (\<lambda>f. ensure_field B (fs_name f)) fls (d1, fs) = (Ok (), d2, fs)" "opened_more B fs d1 d2"
    "cache_ok kind d2" "\<forall>f \<in> set fls. map_of (ds_fields d2) (fs_name f) \<noteq> None" using Cons.IH[OF sh ok] by blast
  have "map_of (ds_fields d2) (fs_name f) \<noteq> None"
    using d2(2) d1(3) unfolding opened_more_def by (metis option.distinct(1))
  then show ?case
    using d1(1) d2 opened_more_trans[OF d1(2) d2(2)] by (intro exI[of _ d2]) (simp add: ds_bind_def)
qed

lemma map_filter_same: "(\<And>x. x \<in> set xs \<Longrightarrow> f x = g x) \<Longrightarrow> List.map_filter f xs = List.map_filter g xs"
  by (induction xs) (auto simp: List.map_filter_simps split: option.splits)

lemma targets_of_cache:
  assumes c: "cache_ok simple_name d" and dis: "distinct (map fs_name (dv_schema data))"
    and all: "\<forall>f \<in> set (dv_schema data). map_of (ds_fields d) (fs_name f) \<noteq> None"
  shows "distinct (write_targets d data)"
    "set (write_targets d data) = {(i, fs_name (dv_schema data ! i)) | i. i < length (dv_schema data)}"
proof -
  have e: "write_targets d data = List.map_filter (\<lambda>(key, h). map_option (\<lambda>i. (i, key)) (schema_position (dv_schema data) key)) (ds_fields d)"
    unfolding write_targets_def
    by (rule map_filter_same) (use c file_name_field_path in \<open>auto simp: cache_ok_def\<close>)
  let ?pick = "\<lambda>(key, h :: field_handle). map_option (\<lambda>i. (i, key)) (schema_position (dv_schema data) key)"
  have sub: "snd ` set (List.map_filter ?pick al) \<subseteq> fst ` set al" for al
    by (force simp: List.map_filter_def split: option.splits)
  have "distinct (map snd (List.map_filter ?pick al))" if "distinct (map fst al)" for al
    using that
  proof (induction al)
    case (Cons x al)
    have "fst x \<notin> snd ` set (List.map_filter ?pick al)" using Cons.prems sub[of al] by auto
    then show ?case using Cons by (cases x) (auto simp: List.map_filter_simps split: option.splits)
  qed (simp add: List.map_filter_simps)
  from this[of "ds_fields d"] c show "distinct (write_targets d data)"
    unfolding e by (simp add: cache_ok_def distinct_map)
  show "set (write_targets d data) = {(i, fs_name (dv_schema data ! i)) | i. i < length (dv_schema data)}"
  proof (intro set_eqI iffI)
    fix t assume "t \<in> set (write_targets d data)"
    then obtain k h i where "(k, h) \<in> set (ds_fields d)" "schema_position (dv_schema data) k = Some i" "t = (i, k)"
      unfolding e by (auto simp: List.map_filter_def split: prod.splits)
    then show "t \<in> {(i, fs_name (dv_schema data ! i)) | i. i < length (dv_schema data)}"
      using schema_position_Some by fastforce
  next
    fix t assume "t \<in> {(i, fs_name (dv_schema data ! i)) | i. i < length (dv_schema data)}"
    then obtain i where i: "t = (i, fs_name (dv_schema data ! i))" "i < length (dv_schema data)" by blast
    then obtain h where h: "map_of (ds_fields d) (fs_name (dv_schema data ! i)) = Some h" using all by fastforce
    then have "(fs_name (dv_schema data ! i), h) \<in> set (ds_fields d)" by (rule map_of_SomeD)
    moreover have "schema_position (dv_schema data) (fs_name (dv_schema data ! i)) = Some i"
      using schema_position_distinct dis i(2) by blast
    ultimately show "t \<in> set (write_targets d data)"
      unfolding e i(1) by (force simp: List.map_filter_def)
  qed
qed

lemma open_local: "io_local p (open_field_file B p md)"
  unfolding open_field_file_def
  by (auto intro!: io_local_bind io_local_basic io_local_read_exact split: option.splits prod.splits)

lemma field_shows_frame:
  assumes "map_of (ds_fields d') name = map_of (ds_fields d) name" "fs' (field_path d name) = fs (field_path d name)"
    and "field_path d' = field_path d" "ds_mode d' = ds_mode d" "field_shows B fs d name dt cells"
  shows "field_shows B fs' d' name dt cells"
proof (cases "map_of (ds_fields d) name")
  case None
  obtain h where h: "open_field_file B (field_path d name) (ds_mode d) fs = (Ok h, fs)" "fd_path h = field_path d name"
    "handle_shows h dt cells" "ds_mode d = Write \<longrightarrow> fd_live fs h dt"
    using assms(5) None by (auto simp: field_shows_def)
  obtain gs where "open_field_file B (field_path d name) (ds_mode d) fs' = (Ok h, gs)"
    using io_localD(1)[where fs = fs and fs' = fs', OF open_local _ h(1)] assms(2) by auto
  moreover from this have "gs = fs'" using open_Ok by blast
  ultimately show ?thesis
    using None h assms(1-4) live_cong[of fs' h fs] by (simp add: field_shows_def)
next
  case (Some h)
  then show ?thesis using assms live_cong[of fs' h fs] by (auto simp: field_shows_def)
qed

lemma check_fields_eq:
  "\<forall>f \<in> set fls. \<not> is_reserved (fs_name f) \<and> schema_data_type_of s (fs_name f) = Some (fs_type f) \<Longrightarrow> check_fields s fls = Ok ()"
  by (induction fls) auto

lemma write_ready_open:
  assumes R: "write_ready B fs d offset data cells" and M: "opened_more B fs d d1"
    and C: "\<forall>f \<in> set (dv_schema data). map_of (ds_fields d1) (fs_name f) \<noteq> None"
    and N: "\<forall>f \<in> set (dv_schema data). simple_name (fs_name f)"
  shows "write_open fs d1 offset data cells"
proof -
  have H: "\<exists>h. map_of (ds_fields d1) (fs_name f) = Some h \<and> fd_path h = field_path d1 (fs_name f) \<and>
      handle_shows h (fs_type f) (cells i) \<and> fd_live fs h (fs_type f) \<and> writable h (fs_type f) (dv_columns data ! i) \<and>
      offset + cv_length (dv_columns data ! i) \<le> length (cells i) \<and> simple_name (fs_name f)"
    if i: "i < length (dv_schema data)" and f: "f = dv_schema data ! i" for i f
  proof -
    have r: "simple_name (fs_name f)" "field_shows B fs d (fs_name f) (fs_type f) (cells i)" "length (cells i) = logical_length d"
      "cv_length (dv_columns data ! i) = dv_length data" "takes B fs d (fs_name f) (fs_type f) (dv_columns data ! i)"
      "ds_mode d = Write" "offset + dv_length data \<le> logical_length d"
      using R i N by (simp_all add: write_ready_def Let_def f)
    obtain h where h: "map_of (ds_fields d1) (fs_name f) = Some h" using C i f by fastforce
    have sh: "fd_path h = field_path d1 (fs_name f)" "handle_shows h (fs_type f) (cells i)" "fd_live fs h (fs_type f)"
      using opened_more_shows[OF M r(2)] h r(6) opened_more_same[OF M] by (auto simp: field_shows_def)
    have "writable h (fs_type f) (dv_columns data ! i)"
    proof (cases "map_of (ds_fields d) (fs_name f)")
      case None
      then have "open_field_file B (field_path d (fs_name f)) (ds_mode d) fs = (Ok h, fs)"
        using M h unfolding opened_more_def by (metis option.distinct(1) option.inject)
      then show ?thesis using r(5) None by (simp add: takes_def)
    next
      case (Some h')
      then have "h' = h" using M h unfolding opened_more_def by (metis option.distinct(1) option.inject)
      then show ?thesis using r(5) Some by (simp add: takes_def)
    qed
    then show ?thesis using h sh r by simp
  qed
  have "\<forall>i < length (dv_schema data). let f = dv_schema data ! i in simple_name (fs_name f) \<and>
        (\<exists>h. map_of (ds_fields d1) (fs_name f) = Some h \<and> fd_path h = field_path d1 (fs_name f) \<and>
           handle_shows h (fs_type f) (cells i) \<and> fd_live fs h (fs_type f) \<and> writable h (fs_type f) (dv_columns data ! i) \<and>
           offset + cv_length (dv_columns data ! i) \<le> length (cells i))"
    unfolding Let_def using H[OF _ refl] by blast
  moreover have "ds_mode d1 = Write" "distinct (map fs_name (dv_schema data))" "length (dv_columns data) = length (dv_schema data)"
    using R opened_more_same[OF M] unfolding write_ready_def by auto
  ultimately show ?thesis unfolding write_open_def by blast
qed

subsection \<open>Properties\<close>

text \<open>C27. Writing the fields of a dataset with threads is deterministic and ends: no run of the threads is
  infinite, some run works off every bucket, and whatever order the threads make their steps in, a run
  that cannot continue has reached the one result, handles and files of \<open>write_parallel\<close> (for every
  schedule); also when handles fail.\<close>

theorem write_threads_deterministic:
  assumes "0 < p" "targets_ok (fst s) targets"
  shows "wf {(Q', Q). pool_step (write_target offset data) Q Q'} \<and>
    (\<exists>Q. (pool_step (write_target offset data))\<^sup>*\<^sup>* (start_pool p targets s) Q \<and> (\<forall>Q'. \<not> pool_step (write_target offset data) Q Q')) \<and>
    (\<forall>Q schedule. (pool_step (write_target offset data))\<^sup>*\<^sup>* (start_pool p targets s) Q \<longrightarrow>
       (\<forall>Q'. \<not> pool_step (write_target offset data) Q Q') \<longrightarrow>
       write_parallel schedule p offset data targets s = (pool_result Q, pl_state Q))"
proof (intro conjI allI impI)
  show "wf {(Q', Q). pool_step (write_target offset data) Q Q'}" by (rule pool_steps_wf)
  show "\<exists>Q. (pool_step (write_target offset data))\<^sup>*\<^sup>* (start_pool p targets s) Q \<and> (\<forall>Q'. \<not> pool_step (write_target offset data) Q Q')"
    by (rule pool_ends)
next
  fix Q schedule
  assume "(pool_step (write_target offset data))\<^sup>*\<^sup>* (start_pool p targets s) Q" "\<forall>Q'. \<not> pool_step (write_target offset data) Q Q'"
  from writers.run_unique[OF assms(1) _ this] assms(2)
  show "write_parallel schedule p offset data targets s = (pool_result Q, pl_state Q)" by (simp add: write_parallel_def)
qed

text \<open>C28. Writing a view refines overwriting a list of cells in every field it names, where no field of the
  view and no open field has a nested name (a dot or a slash in it: those are not written, C29): for a
  schedule of the threads, or serially, the written fields show their old cells with exactly the range
  replaced, every other field shows what it showed, and no other file changes.\<close>

theorem write_dataset_refines:
  assumes "write_ready B fs d offset data cells"
    and "\<forall>f \<in> set (dv_schema data). simple_name (fs_name f)" "\<forall>(name, h) \<in> set (ds_fields d). simple_name name"
  shows "\<exists>d' fs'. write_dataset B schedule offset data (d, fs) = (Ok (), d', fs') \<and>
    (\<forall>i < length (dv_schema data). field_shows B fs' d' (fs_name (dv_schema data ! i)) (fs_type (dv_schema data ! i))
       (splice offset (view_cells (dv_columns data ! i)) (cells i))) \<and>
    (\<forall>name dt cl. name \<notin> fs_name ` set (dv_schema data) \<longrightarrow> field_shows B fs d name dt cl \<longrightarrow>
       field_shows B fs' d' name dt cl) \<and>
    (\<forall>q. q \<notin> (\<lambda>f. field_path d (fs_name f)) ` set (dv_schema data) \<longrightarrow> fs' q = fs q)"
proof -
  let ?m = "length (dv_schema data)" and ?nm = "\<lambda>i. fs_name (dv_schema data ! i)"
  have R: "ds_mode d = Write" "0 < dv_length data" "offset + dv_length data \<le> logical_length d"
    "distinct (map fs_name (dv_schema data))"
    and Rs: "\<And>f. f \<in> set (dv_schema data) \<Longrightarrow> \<not> is_reserved (fs_name f) \<and>
        schema_data_type_of (ds_schema d) (fs_name f) = Some (fs_type f) \<and> (\<exists>dt cl. field_shows B fs d (fs_name f) dt cl)"
    using assms(1) by (auto simp: write_ready_def Let_def in_set_conv_nth)
  have C: "cache_ok simple_name d" using assms(1,3) by (auto simp: write_ready_def cache_ok_def)
  have Rf: "simple_name (fs_name f) \<and> \<not> is_reserved (fs_name f) \<and>
        schema_data_type_of (ds_schema d) (fs_name f) = Some (fs_type f) \<and> (\<exists>dt cl. field_shows B fs d (fs_name f) dt cl)"
    if "f \<in> set (dv_schema data)" for f using Rs[OF that] assms(2) that by blast
  have "logical_length d \<le> u32_max" by (simp add: logical_length_def row_total_def)
  then have g: "\<not> (u64_max < offset + dv_length data \<or> logical_length d < offset + dv_length data)" using R(3) by simp
  obtain d1 where d1: "ds_each (\<lambda>f. ensure_field B (fs_name f)) (dv_schema data) (d, fs) = (Ok (), d1, fs)" "opened_more B fs d d1"
    "cache_ok simple_name d1" "\<forall>f \<in> set (dv_schema data). map_of (ds_fields d1) (fs_name f) \<noteq> None"
    using ensure_all[of "dv_schema data" simple_name B fs d] Rf C by blast
  note same = opened_more_same[OF d1(2)]
  have W: "write_open fs d1 offset data cells" by (rule write_ready_open[OF assms(1) d1(2,4) assms(2)])
  let ?ts = "write_targets d1 data"
  note T = targets_of_cache[OF d1(3) R(4) d1(4)]
  define run where "run = (if length ?ts \<le> 1 \<or> sum_list (map view_bytes (dv_columns data)) < WRITE_PARALLEL_MIN_BYTES \<or> ds_max_parallelism d1 \<le> 1
     then ds_each (write_target offset data) ?ts
     else write_parallel schedule (min (ds_max_parallelism d1) (length ?ts)) offset data ?ts)"
  have "write_dataset B schedule offset data (d, fs) = run (d1, fs)"
  proof -
    have "check_fields (ds_schema d) (dv_schema data) = Ok ()" by (rule check_fields_eq) (use Rf in blast)
    moreover have "ds_bind (ds_each (\<lambda>f. ensure_field B (fs_name f)) (dv_schema data)) f (d, fs) = f () (d1, fs)" for f :: "unit \<Rightarrow> unit ds"
      by (simp add: ds_bind_def d1(1))
    ultimately show ?thesis
      using g R(1,2,4) by (simp add: write_dataset_def ds_simps run_def Let_def)
  qed
  moreover obtain s' D where run: "run (d1, fs) = (Ok (), s')" "{..<?m} \<subseteq> D" "write_inv d1 fs offset data cells D s'"
  proof (cases "length ?ts \<le> 1 \<or> sum_list (map view_bytes (dv_columns data)) < WRITE_PARALLEL_MIN_BYTES \<or> ds_max_parallelism d1 \<le> 1")
    case True
    have "set ?ts \<subseteq> {(i, ?nm i) | i. i < ?m \<and> i \<notin> {}}" unfolding T(2) by blast
    from serial_writes[OF W T(1) this write_inv_start] obtain s' where
      "ds_each (write_target offset data) ?ts (d1, fs) = (Ok (), s')" "write_inv d1 fs offset data cells ({} \<union> fst ` set ?ts) s'" by blast
    moreover have "{..<?m} \<subseteq> {} \<union> fst ` set ?ts" unfolding T(2) by force
    ultimately show ?thesis using that True by (simp only: run_def if_True)
  next
    case False
    then have "0 < min (ds_max_parallelism d1) (length ?ts)" by auto
    from parallel_writes[OF W this T] that False show ?thesis by (simp only: run_def if_False) blast
  qed
  moreover obtain d' fs' where s': "s' = (d', fs')" by (cases s')
  have J: "d' = d1\<lparr>ds_fields := ds_fields d'\<rparr>"
    "\<And>i. i < ?m \<Longrightarrow> \<exists>h. map_of (ds_fields d') (?nm i) = Some h \<and> fd_path h = field_path d1 (?nm i) \<and>
       handle_shows h (fs_type (dv_schema data ! i)) (splice offset (view_cells (dv_columns data ! i)) (cells i)) \<and>
       fd_live fs' h (fs_type (dv_schema data ! i))"
    "\<And>k. k \<notin> ?nm ` {..<?m} \<Longrightarrow> map_of (ds_fields d') k = map_of (ds_fields d1) k"
    "\<And>q. q \<notin> (\<lambda>i. field_path d1 (?nm i)) ` {..<?m} \<Longrightarrow> fs' q = fs q"
    using run(2,3) unfolding write_inv_def Let_def s' fst_conv snd_conv by (blast, auto)
  have eq: "field_path d' = field_path d1" "ds_mode d' = ds_mode d1"
    using J(1) by (metis dataset_handle.select_convs(4) dataset_handle.surjective dataset_handle.update_convs(5) field_path_def ext dataset_handle.select_convs(1))+
  have im: "?nm ` {..<?m} = fs_name ` set (dv_schema data)" "(\<lambda>i. field_path d1 (?nm i)) ` {..<?m} = (\<lambda>f. field_path d (fs_name f)) ` set (dv_schema data)"
    using same by (auto simp: in_set_conv_nth image_iff) (metis nth_mem | force)+
  have A: "\<forall>i < ?m. field_shows B fs' d' (?nm i) (fs_type (dv_schema data ! i)) (splice offset (view_cells (dv_columns data ! i)) (cells i))"
    using J(2) eq by (fastforce simp: field_shows_def)
  have O: "field_shows B fs' d' name dt cl" if n: "name \<notin> fs_name ` set (dv_schema data)" and sh: "field_shows B fs d name dt cl" for name dt cl
  proof (rule field_shows_frame[OF _ _ eq opened_more_shows[OF d1(2) sh]])
    show "map_of (ds_fields d') name = map_of (ds_fields d1) name" using J(3) n im(1) by simp
    have "field_path d1 name \<notin> (\<lambda>i. field_path d1 (?nm i)) ` {..<?m}"
    proof
      assume "field_path d1 name \<in> (\<lambda>i. field_path d1 (?nm i)) ` {..<?m}"
      then obtain i where i: "i < ?m" "field_path d1 name = field_path d1 (?nm i)" by auto
      then have "name = ?nm i" using field_path_inj Rf[OF nth_mem[OF i(1)]] by blast
      then show False using n i(1) by auto
    qed
    then show "fs' (field_path d1 name) = fs (field_path d1 name)" by (rule J(4))
  qed
  ultimately show ?thesis using A O J(4) unfolding im(2) s' by metis
qed


lemma file_name_set: "set (file_name (path_join root x)) \<subseteq> set x"
proof -
  have "takeWhile (\<lambda>c. c \<noteq> CHR ''/'') (rev x @ CHR ''/'' # rev root) = takeWhile (\<lambda>c. c \<noteq> CHR ''/'') (rev x)"
    by (induction "rev x") (simp_all add: takeWhile_tail)
  then show ?thesis by (auto simp: file_name_def path_join_def dest: set_takeWhileD)
qed

lemma dots_to_slashes_set: "CHR ''.'' \<notin> set (dots_to_slashes name)"
  by (auto simp: dots_to_slashes_def)

text \<open>C29. Writing fields whose names are nested (they contain a dot) is silently lost: the write returns
  success and changes no file and no field, because the handles to write are found by their file name,
  which is only the part of the name after the last dot.\<close>

theorem nested_write_is_lost:
  assumes "ds_mode d = Write" "cache_ok (\<lambda>_. True) d" "offset + dv_length data \<le> logical_length d"
    and "distinct (map fs_name (dv_schema data))"
    and "\<forall>f \<in> set (dv_schema data). CHR ''.'' \<in> set (fs_name f) \<and> \<not> is_reserved (fs_name f) \<and>
      schema_data_type_of (ds_schema d) (fs_name f) = Some (fs_type f) \<and> (\<exists>dt cells. field_shows B fs d (fs_name f) dt cells)"
  shows "\<exists>d'. write_dataset B schedule offset data (d, fs) = (Ok (), d', fs) \<and>
    (\<forall>name dt cells. field_shows B fs d name dt cells \<longrightarrow> field_shows B fs d' name dt cells)"
proof -
  have "logical_length d \<le> u32_max" by (simp add: logical_length_def row_total_def)
  then have g: "\<not> (u64_max < offset + dv_length data \<or> logical_length d < offset + dv_length data)" using assms(3) by simp
  show ?thesis
  proof (cases "dv_length data = 0")
    case True
    then show ?thesis using assms(1) g by (simp add: write_dataset_def ds_simps)
  next
    case False
    obtain d1 where d1: "ds_each (\<lambda>f. ensure_field B (fs_name f)) (dv_schema data) (d, fs) = (Ok (), d1, fs)" "opened_more B fs d d1"
      "cache_ok (\<lambda>_. True) d1"
      using ensure_all[of "dv_schema data" "\<lambda>_. True" B fs d] assms(2,5) by blast
    have "schema_position (dv_schema data) (file_name (fd_path h)) = None" if "(k, h) \<in> set (ds_fields d1)" for k h
    proof -
      have "fd_path h = path_join (ds_root d1) (dots_to_slashes k)" using d1(3) that by (auto simp: cache_ok_def field_path_def)
      then have "CHR ''.'' \<notin> set (file_name (fd_path h))" using file_name_set dots_to_slashes_set by fastforce
      then show ?thesis using assms(5) by (auto simp: schema_position_None)
    qed
    then have t: "write_targets d1 data = []"
      by (auto simp: write_targets_def List.map_filter_def filter_empty_conv)
    have "check_fields (ds_schema d) (dv_schema data) = Ok ()" by (rule check_fields_eq) (use assms(5) in blast)
    moreover have "ds_bind (ds_each (\<lambda>f. ensure_field B (fs_name f)) (dv_schema data)) f (d, fs) = f () (d1, fs)" for f :: "unit \<Rightarrow> unit ds"
      by (simp add: ds_bind_def d1(1))
    ultimately have "write_dataset B schedule offset data (d, fs) = (Ok (), d1, fs)"
      using g assms(1,4) False by (simp add: write_dataset_def ds_simps t)
    then show ?thesis using opened_more_shows[OF d1(2)] by blast
  qed
qed


subsection \<open>Instances\<close>

definition example_view :: "string \<Rightarrow> data_view" where
  "example_view name = \<lparr>dv_schema = [\<lparr>fs_name = name, fs_type = Int8\<rparr>],
     dv_columns = [\<lparr>cv_data_type = Int8, cv_segments = [\<lparr>seg_values = Fixed [1, 2], seg_validity = None, seg_rows = 2\<rparr>], cv_length = 2\<rparr>],
     dv_length = 2\<rparr>"

theorem write_threads_deterministic_witness:
  "\<exists>d h Q. map_of (ds_fields d) ''a'' = Some h \<and>
     (pool_step (write_target 0 (example_view ''a'')))\<^sup>*\<^sup>* (start_pool 2 [(0, ''a''), (0, ''b'')] (d, Map.empty)) Q \<and>
     write_parallel [1, 0] 2 0 (example_view ''a'') [(0, ''a''), (0, ''b'')] (d, Map.empty) = (pool_result Q, pl_state Q) \<and>
     write_parallel [] 2 0 (example_view ''a'') [(0, ''a''), (0, ''b'')] (d, Map.empty) = (pool_result Q, pl_state Q)"
proof -
  let ?d = "\<lparr>ds_root = ''r'', ds_meta = undefined, ds_schema = [], ds_mode = Write,
     ds_fields = [(''a'', example_handle\<lparr>fd_path := ''r/a''\<rparr>), (''b'', example_handle\<lparr>fd_path := ''r/b''\<rparr>)],
     ds_max_parallelism = 2\<rparr>"
  have ok: "targets_ok (fst (?d, Map.empty :: files)) [(0, ''a''), (0, ''b'')]"
    by (simp add: targets_ok_def target_path_def)
  have "(0 :: nat) < 2" by simp
  from write_threads_deterministic[OF this ok, of 0 "example_view ''a''"] obtain Q where
    "(pool_step (write_target 0 (example_view ''a'')))\<^sup>*\<^sup>* (start_pool 2 [(0, ''a''), (0, ''b'')] (?d, Map.empty)) Q"
    "\<forall>schedule. write_parallel schedule 2 0 (example_view ''a'') [(0, ''a''), (0, ''b'')] (?d, Map.empty) = (pool_result Q, pl_state Q)"
    by blast
  then show ?thesis
    by (intro exI[of _ ?d] exI[of _ "example_handle\<lparr>fd_path := ''r/a''\<rparr>"] exI[of _ Q]) simp
qed

lemma example_takes: "dv_columns (example_view name) = [col] \<Longrightarrow> writable h Int8 col"
  by (auto simp: example_view_def writable_def seg_fixed_def seg_ok_def validity_ok_def all_valid_segs_def valid_at_def)

theorem write_dataset_refines_witness:
  "\<exists>meta d' fs'. meta_open (\<lambda>_. Some example_image) ''META'' = Ok meta \<and>
     write_dataset example_backend [] 1 (example_view ''v'') (example_dataset meta Write, [''r/v'' \<mapsto> example_field_image]) =
       (Ok (), d', fs') \<and>
     field_shows example_backend fs' d' ''v'' Int8
       [(True, CBytes [5]), (True, CBytes [1]), (True, CBytes [2]), (True, CBytes [8]), (True, CBytes [9])]"
proof -
  obtain meta where m: "meta_open (\<lambda>_. Some example_image) ''META'' = Ok meta"
    "indexed TT_TimestampUs [1, 2, 3] [[65], [66]] example_recs 5 meta" by (rule example_indexed)
  let ?d = "example_dataset meta Write" and ?fs = "[''r/v'' \<mapsto> example_field_image]" and ?v = "example_view ''v''"
  have l: "logical_length ?d = 5" using indexed_schema(2)[OF m(2)] by (simp add: logical_length_def example_dataset_def)
  have sh: "field_shows example_backend ?fs ?d ''v'' Int8 example_cells"
    using example_field_shows[of ?fs ?d "''v''"] by (simp add: example_path)
  have s: "schema_data_type_of (ds_schema ?d) ''v'' = Some Int8" by (simp add: example_dataset_def schema_data_type_of_def)
  have t: "takes example_backend ?fs ?d ''v'' Int8 (dv_columns ?v ! 0)"
    using example_takes[of "''v''"] by (simp add: takes_def example_view_def)
  have "write_ready example_backend ?fs ?d 1 ?v (\<lambda>_. example_cells)"
    using l sh s t
    by (simp add: write_ready_def cache_ok_def example_path)
       (simp add: example_view_def is_reserved_def RESERVED_FIELD_NAMES_def example_cells_def example_dataset_def)
  moreover have "\<forall>f \<in> set (dv_schema ?v). simple_name (fs_name f)" "\<forall>(name, h) \<in> set (ds_fields ?d). simple_name name"
    by (simp_all add: example_view_def simple_name_def example_dataset_def)
  ultimately obtain d' fs' where
    w: "write_dataset example_backend [] 1 ?v (?d, ?fs) = (Ok (), d', fs')"
    "field_shows example_backend fs' d' (fs_name (dv_schema ?v ! 0)) (fs_type (dv_schema ?v ! 0))
       (splice 1 (view_cells (dv_columns ?v ! 0)) example_cells)"
    using write_dataset_refines[of example_backend ?fs ?d 1 ?v "\<lambda>_. example_cells" "[]"] by (auto simp: example_view_def)
  have "splice 1 (view_cells (dv_columns ?v ! 0)) example_cells =
      [(True, CBytes [5]), (True, CBytes [1]), (True, CBytes [2]), (True, CBytes [8]), (True, CBytes [9])]" by code_simp
  then show ?thesis using m(1) w by (simp add: example_view_def)
qed

theorem nested_write_is_lost_witness:
  "\<exists>meta d'. meta_open (\<lambda>_. Some example_image) ''META'' = Ok meta \<and>
     write_dataset example_backend [] 1 (example_view ''a.v'')
       (example_dataset meta Write\<lparr>ds_schema := [\<lparr>fs_name = ''a.v'', fs_type = Int8\<rparr>]\<rparr>, [''r/a/v'' \<mapsto> example_field_image]) =
       (Ok (), d', [''r/a/v'' \<mapsto> example_field_image]) \<and>
     field_shows example_backend [''r/a/v'' \<mapsto> example_field_image] d' ''a.v'' Int8 example_cells"
proof -
  obtain meta where m: "meta_open (\<lambda>_. Some example_image) ''META'' = Ok meta"
    "indexed TT_TimestampUs [1, 2, 3] [[65], [66]] example_recs 5 meta" by (rule example_indexed)
  let ?d = "example_dataset meta Write\<lparr>ds_schema := [\<lparr>fs_name = ''a.v'', fs_type = Int8\<rparr>]\<rparr>"
  let ?fs = "[''r/a/v'' \<mapsto> example_field_image]" and ?v = "example_view ''a.v''"
  have l: "logical_length ?d = 5" using indexed_schema(2)[OF m(2)] by (simp add: logical_length_def example_dataset_def)
  have p: "field_path ?d ''a.v'' = ''r/a/v''" "ds_fields ?d = []" "ds_mode ?d = Write"
    by (simp_all add: field_path_def example_dataset_def path_join_def dots_to_slashes_def)
  have sh: "field_shows example_backend ?fs ?d ''a.v'' Int8 example_cells"
    using example_field_shows[of ?fs ?d "''a.v''"] p by simp
  have "cache_ok (\<lambda>_. True) ?d" "1 + dv_length ?v \<le> logical_length ?d" "distinct (map fs_name (dv_schema ?v))"
    using l p by (simp_all add: cache_ok_def example_view_def)
  moreover have "\<forall>f \<in> set (dv_schema ?v). CHR ''.'' \<in> set (fs_name f) \<and> \<not> is_reserved (fs_name f) \<and>
      schema_data_type_of (ds_schema ?d) (fs_name f) = Some (fs_type f) \<and>
      (\<exists>dt cells. field_shows example_backend ?fs ?d (fs_name f) dt cells)"
    using sh by (auto simp: example_view_def is_reserved_def RESERVED_FIELD_NAMES_def schema_data_type_of_def)
  ultimately obtain d' where "write_dataset example_backend [] 1 ?v (?d, ?fs) = (Ok (), d', ?fs)"
    "\<forall>name dt cells. field_shows example_backend ?fs ?d name dt cells \<longrightarrow> field_shows example_backend ?fs d' name dt cells"
    using nested_write_is_lost[OF p(3), of 1 ?v example_backend ?fs "[]"] by blast
  then show ?thesis using m(1) sh by (intro exI[of _ meta] exI[of _ d']) simp
qed

end
