(* ===== verification/Dataset_Table.thy ===== *)
theory Dataset_Table
  imports Meta_File Dataset_Handle Field_View Field_Cast Dataset_Write "HOL-Library.Char_ord"
begin

text \<open>
  The directory of a dataset (\<open>splayed-core/src/dataset.rs\<close>): its files, the schema that is built from
  them, opening, renaming and deleting it. A directory is the set of files under its path; it exists when
  there is one, so empty directories are not represented, nor that a file is in the way of a subdirectory.
  The order in which the operating system lists a directory is a parameter: \<open>listing\<close> is a list of paths
  that contains the files of the disk. The abstract view of a directory is a table: what each field, by
  its name, has for its type and its rows.
\<close>

subsection \<open>Directories\<close>

definition under :: "string \<Rightarrow> string \<Rightarrow> bool" where
  "under root p \<longleftrightarrow> take (Suc (length root)) p = root @ ''/''"

definition dir_files :: "string list \<Rightarrow> string \<Rightarrow> files \<Rightarrow> string list" where
  "dir_files listing root fs = filter (\<lambda>p. under root p \<and> fs p \<noteq> None) listing"

definition is_dir :: "string list \<Rightarrow> string \<Rightarrow> files \<Rightarrow> bool" where
  "is_dir listing root fs \<longleftrightarrow> dir_files listing root fs \<noteq> []"

definition path_exists :: "string list \<Rightarrow> string \<Rightarrow> files \<Rightarrow> bool" where
  "path_exists listing p fs \<longleftrightarrow> fs p \<noteq> None \<or> is_dir listing p fs"

definition remove_dir_all :: "string \<Rightarrow> unit io" where
  "remove_dir_all root = (\<lambda>fs. (Ok (), \<lambda>p. if under root p then None else fs p))"

subsection \<open>The schema of a directory\<close>

fun split_on :: "char \<Rightarrow> string \<Rightarrow> string list" where
  "split_on c [] = [[]]"
| "split_on c (x # xs) = (if x = c then [] # split_on c xs
     else case split_on c xs of [] \<Rightarrow> [[x]] | w # ws \<Rightarrow> (x # w) # ws)"

definition hidden :: "string \<Rightarrow> bool" where
  "hidden w \<longleftrightarrow> (w \<noteq> [] \<and> hd w = CHR ''.'') \<or> (4 \<le> length w \<and> drop (length w - 4) w = ''.tmp'') \<or> w = ''.lock''"

text \<open>\<open>walk_dir\<close> on the path of one file: no part of it is hidden, and the parts are joined with dots.\<close>

definition walk_file :: "string \<Rightarrow> string \<Rightarrow> (string \<times> string) option" where
  "walk_file root p =
     (let parts = split_on CHR ''/'' (drop (Suc (length root)) p)
      in if \<exists>w \<in> set parts. hidden w then None
         else Some (map (\<lambda>c. if c = CHR ''/'' then CHR ''.'' else c) (drop (Suc (length root)) p), p))"

definition discovered :: "string list \<Rightarrow> string \<Rightarrow> files \<Rightarrow> (string \<times> string) list" where
  "discovered listing root fs = sort_key fst (List.map_filter (walk_file root) (dir_files listing root fs))"

definition header_schema :: "string \<times> string \<Rightarrow> field_schema io" where
  "header_schema f = (case f of (name, path) \<Rightarrow>
     io_bind (io_read_exact path HEADER_SIZE) (\<lambda>head.
     io_bind (io_lift (fmt_err (field_header_from_bytes head))) (\<lambda>header.
     io_bind (io_lift (fmt_err (field_data_type header))) (\<lambda>dt.
       io_ret \<lparr>fs_name = name, fs_type = dt\<rparr>))))"

fun header_schemas :: "(string \<times> string) list \<Rightarrow> schema io" where
  "header_schemas [] = io_ret []"
| "header_schemas (f # fs) = io_bind (header_schema f) (\<lambda>s. io_bind (header_schemas fs) (\<lambda>ss. io_ret (s # ss)))"

definition build_schema :: "string list \<Rightarrow> string \<Rightarrow> time_type \<Rightarrow> schema io" where
  "build_schema listing root tt = (\<lambda>fs.
     io_bind (header_schemas (discovered listing root fs)) (\<lambda>ss.
       io_ret ([\<lparr>fs_name = ''sym'', fs_type = Utf8\<rparr>, \<lparr>fs_name = ''time'', fs_type = time_data_type tt\<rparr>] @ ss)) fs)"

subsection \<open>Opening, renaming, deleting\<close>

definition new_handle :: "string \<Rightarrow> meta_handle \<Rightarrow> schema \<Rightarrow> mode \<Rightarrow> nat \<Rightarrow> dataset_handle" where
  "new_handle root meta s md cores =
     \<lparr>ds_root = root, ds_meta = meta, ds_schema = s, ds_mode = md, ds_fields = [], ds_max_parallelism = cores\<rparr>"

definition open_dataset :: "string list \<Rightarrow> nat \<Rightarrow> string \<Rightarrow> mode \<Rightarrow> dataset_handle io" where
  "open_dataset listing cores root md = (\<lambda>fs.
     if \<not> is_dir listing root fs then (Err (NotFound root), fs)
     else io_bind (open_index (path_join root META_FILE_NAME)) (\<lambda>meta.
          io_bind (io_lift (handle_time_type meta)) (\<lambda>tt.
          io_bind (build_schema listing root tt) (\<lambda>s. io_ret (new_handle root meta s md cores)))) fs)"

definition open_dataset_with_schema :: "string list \<Rightarrow> nat \<Rightarrow> string \<Rightarrow> mode \<Rightarrow> schema \<Rightarrow> dataset_handle io" where
  "open_dataset_with_schema listing cores root md s = (\<lambda>fs.
     if \<not> is_dir listing root fs then (Err (NotFound root), fs)
     else io_bind (open_index (path_join root META_FILE_NAME)) (\<lambda>meta. io_ret (new_handle root meta s md cores)) fs)"

definition read_dataset_schema :: "string list \<Rightarrow> string \<Rightarrow> schema io" where
  "read_dataset_schema listing root =
     io_bind (open_index (path_join root META_FILE_NAME)) (\<lambda>meta.
     io_bind (io_lift (handle_time_type meta)) (build_schema listing root))"

definition delete_dataset :: "string list \<Rightarrow> string \<Rightarrow> unit io" where
  "delete_dataset listing root = (\<lambda>fs.
     if is_dir listing root fs then remove_dir_all root fs
     else (Err (if fs root = None then NotFound root else EIo ''not a directory''), fs))"

definition drop_dataset :: "codec_backend \<Rightarrow> string list \<Rightarrow> dataset_handle \<Rightarrow> unit io" where
  "drop_dataset B listing d = io_bind (close_dataset B d) (\<lambda>_. delete_dataset listing (ds_root d))"

definition rename_dir :: "string \<Rightarrow> string \<Rightarrow> unit io" where
  "rename_dir a b = (\<lambda>fs. (Ok (), \<lambda>p.
     if under b p then fs (a @ drop (length b) p) else if under a p then None else fs p))"

definition rename_dataset :: "string list \<Rightarrow> string \<Rightarrow> string \<Rightarrow> unit io" where
  "rename_dataset listing root new_name = (\<lambda>fs.
     if new_name = [] \<or> hd new_name = CHR ''.'' \<or> CHR ''/'' \<in> set new_name \<or> CHR 0x5C \<in> set new_name \<or> CHR ''='' \<in> set new_name
     then (Err (Invalid ''invalid dataset name''), fs)
     else if \<not> is_dir listing root fs then (Err (NotFound root), fs)
     else let target = sibling root new_name
          in if path_exists listing target fs then (Err (AlreadyExists target), fs)
             else rename_dir root target fs)"

subsection \<open>Paths below a directory\<close>

lemma under_join [simp]: "under root (path_join root x)"
  by (simp add: under_def path_join_def)

lemma path_join_inj [simp]: "path_join root x = path_join root y \<longleftrightarrow> x = y"
  by (simp add: path_join_def)

lemma drop_join [simp]: "drop (Suc (length root)) (path_join root x) = x"
  by (simp add: path_join_def)

lemma simple_hd: "simple_name x \<Longrightarrow> x \<noteq> [] \<Longrightarrow> hd x \<noteq> CHR ''.'' \<and> hd x \<noteq> CHR ''/''"
  by (cases x) (auto simp: simple_name_def)

lemma split_on_simple: "CHR ''/'' \<notin> set x \<Longrightarrow> split_on CHR ''/'' x = [x]"
  by (induction x) auto

lemma hidden_simple: "simple_name x \<Longrightarrow> \<not> hidden x"
proof -
  assume x: "simple_name x"
  have "drop (length x - 4) x \<noteq> ''.tmp''"
  proof
    assume "drop (length x - 4) x = ''.tmp''"
    then have "CHR ''.'' \<in> set (drop (length x - 4) x)" by simp
    then show False using x in_set_dropD unfolding simple_name_def by metis
  qed
  then show ?thesis using x simple_hd[OF x] by (auto simp: hidden_def simple_name_def)
qed

lemma walk_column: "simple_name x \<Longrightarrow> walk_file root (path_join root x) = Some (x, path_join root x)"
proof -
  assume x: "simple_name x"
  have "map (\<lambda>c. if c = CHR ''/'' then CHR ''.'' else c) x = x"
    using x by (intro map_idI) (auto simp: simple_name_def)
  then show ?thesis using x hidden_simple[OF x] by (simp add: walk_file_def Let_def split_on_simple simple_name_def)
qed

lemma walk_meta: "walk_file root (path_join root META_FILE_NAME) = None"
proof -
  have "hidden ''.meta''" by code_simp
  then show ?thesis by (simp add: walk_file_def Let_def META_FILE_NAME_def)
qed

lemma not_meta: "simple_name x \<Longrightarrow> x \<noteq> META_FILE_NAME"
  by (auto simp: simple_name_def META_FILE_NAME_def)

lemma map_filter_set: "set (List.map_filter f xs) = {y. \<exists>x \<in> set xs. f x = Some y}"
  by (force simp: List.map_filter_def)

lemma holds_header:
  assumes "fs p = Some bs" "field_holds B bs dt cells"
  shows "header_schema (name, p) fs = (Ok \<lparr>fs_name = name, fs_type = dt\<rparr>, fs)"
proof -
  obtain h src where h: "open_field_file B p Read fs = (Ok h, fs)" "fd_ok h src" "src_type src = dt"
    using assms unfolding field_holds_def by blast
  obtain header rs work k where o: "HEADER_SIZE \<le> length bs" "field_header_from_bytes (take HEADER_SIZE bs) = Ok header"
    "fd_header h = header\<lparr>fh_null_count := k\<rparr>" using open_Ok[OF h(1)] assms(1) by auto
  have "fd_data_type h = (Ok dt :: (core_error, _) res)" using fd_ok_type[OF h(2)] h(3) by simp
  then have "fmt_err (field_data_type header) = Ok dt"
    using o(3) by (simp add: fd_data_type_def field_data_type_def res_simps)
  then show ?thesis
    using assms(1) o(1,2) by (simp add: header_schema_def io_read_exact_def io_simps)
qed

subsection \<open>Tables\<close>

type_synonym field_rows = "data_type \<times> cell_value option list"
type_synonym table = "string \<Rightarrow> field_rows option"

text \<open>The names that are stored in the directory itself under their own name, without subdirectories.\<close>

definition plain_name :: "string \<Rightarrow> bool" where
  "plain_name x \<longleftrightarrow> x \<noteq> [] \<and> simple_name x \<and> \<not> is_reserved x"

definition file_shows :: "codec_backend \<Rightarrow> files \<Rightarrow> string \<Rightarrow> field_rows \<Rightarrow> bool" where
  "file_shows B fs p v \<longleftrightarrow> (\<exists>bs cells. fs p = Some bs \<and> field_holds B bs (fst v) cells \<and> shown cells = snd v)"

definition dir_shows :: "codec_backend \<Rightarrow> string list \<Rightarrow> files \<Rightarrow> string \<Rightarrow> table \<Rightarrow> bool" where
  "dir_shows B listing fs root T \<longleftrightarrow> finite (dom T) \<and> distinct listing \<and>
     (\<forall>x \<in> dom T. plain_name x \<and> path_join root x \<in> set listing) \<and>
     (\<forall>q. under root q \<and> fs q \<noteq> None \<and> walk_file root q \<noteq> None \<longrightarrow> q \<in> path_join root ` dom T) \<and>
     (\<forall>x v. T x = Some v \<longrightarrow> file_shows B fs (path_join root x) v)"

definition index_fields :: "time_type \<Rightarrow> schema" where
  "index_fields tt = [\<lparr>fs_name = ''sym'', fs_type = Utf8\<rparr>, \<lparr>fs_name = ''time'', fs_type = time_data_type tt\<rparr>]"

definition table_schema :: "time_type \<Rightarrow> table \<Rightarrow> schema" where
  "table_schema tt T = index_fields tt @ map (\<lambda>x. \<lparr>fs_name = x, fs_type = fst (the (T x))\<rparr>) (sorted_list_of_set (dom T))"

lemma dir_showsD:
  assumes "dir_shows B listing fs root T"
  shows "finite (dom T)" "distinct listing" "x \<in> dom T \<Longrightarrow> plain_name x" "x \<in> dom T \<Longrightarrow> path_join root x \<in> set listing"
    "under root q \<Longrightarrow> fs q \<noteq> None \<Longrightarrow> walk_file root q \<noteq> None \<Longrightarrow> q \<in> path_join root ` dom T"
    "T x = Some v \<Longrightarrow> file_shows B fs (path_join root x) v"
  using assms unfolding dir_shows_def by blast+

lemma length_shown [simp]: "length (shown cells) = length cells"
  by (simp add: shown_def)

lemma file_shows_there: "file_shows B fs p v \<Longrightarrow> fs p \<noteq> None"
  by (auto simp: file_shows_def)

lemma plain_simple: "plain_name x \<Longrightarrow> simple_name x"
  by (simp add: plain_name_def)

text \<open>What a listing of the disk in any order shows of the directory.\<close>

lemma walk_found:
  assumes D: "dir_shows B listing fs root T" and q: "under root q" "fs q \<noteq> None" "walk_file root q = Some y"
  shows "\<exists>x \<in> dom T. q = path_join root x \<and> y = (x, path_join root x)"
proof -
  obtain x where x: "x \<in> dom T" "q = path_join root x" using dir_showsD(5)[OF D q(1,2)] q(3) by auto
  then show ?thesis using q(3) walk_column[OF plain_simple[OF dir_showsD(3)[OF D x(1)]]] by auto
qed

lemma map_filter_distinct:
  assumes "distinct qs" "\<And>q y. q \<in> set qs \<Longrightarrow> f q = Some y \<Longrightarrow> q = g (fst y)"
  shows "distinct (map fst (List.map_filter f qs))"
  using assms
proof (induction qs)
  case (Cons q qs)
  show ?case
  proof (cases "f q")
    case (Some y)
    have "fst y \<notin> fst ` set (List.map_filter f qs)"
    proof
      assume "fst y \<in> fst ` set (List.map_filter f qs)"
      then obtain q' y' where q': "q' \<in> set qs" "f q' = Some y'" "fst y' = fst y" by (auto simp: map_filter_set)
      then have "q' = q" using Cons.prems(2)[of q y] Cons.prems(2)[of q' y'] Some by simp
      then show False using q'(1) Cons.prems(1) by simp
    qed
    then show ?thesis using Cons Some by (simp add: List.map_filter_simps)
  qed (use Cons in \<open>simp add: List.map_filter_simps\<close>)
qed (simp add: List.map_filter_simps)

lemma discovered_table:
  assumes D: "dir_shows B listing fs root T"
  shows "discovered listing root fs = map (\<lambda>x. (x, path_join root x)) (sorted_list_of_set (dom T))"
proof -
  let ?f = "\<lambda>x. (x, path_join root x)"
  let ?found = "List.map_filter (walk_file root) (dir_files listing root fs)"
  have set: "set ?found = ?f ` dom T"
  proof (intro set_eqI iffI)
    fix y assume "y \<in> set ?found"
    then obtain q where "under root q" "fs q \<noteq> None" "walk_file root q = Some y"
      by (auto simp: map_filter_set dir_files_def)
    then show "y \<in> ?f ` dom T" using walk_found[OF D] by blast
  next
    fix y assume "y \<in> ?f ` dom T"
    then obtain x where x: "x \<in> dom T" "y = ?f x" by blast
    then obtain v where "T x = Some v" by blast
    have "fs (path_join root x) \<noteq> None" using file_shows_there[OF dir_showsD(6)[OF D \<open>T x = Some v\<close>]] .
    then have "path_join root x \<in> set (dir_files listing root fs)"
      using dir_showsD(4)[OF D x(1)] by (simp add: dir_files_def)
    then show "y \<in> set ?found"
      using x(2) walk_column[OF plain_simple[OF dir_showsD(3)[OF D x(1)]]] unfolding map_filter_set by blast
  qed
  have "distinct (map fst ?found)"
  proof (rule map_filter_distinct[where g = "path_join root"])
    show "distinct (dir_files listing root fs)" using dir_showsD(2)[OF D] by (simp add: dir_files_def)
    show "q = path_join root (fst y)" if "q \<in> set (dir_files listing root fs)" "walk_file root q = Some y" for q y
      using walk_found[OF D _ _ that(2)] that(1) by (auto simp: dir_files_def)
  qed
  moreover have "map fst (map ?f (sorted_list_of_set (dom T))) = sorted_list_of_set (dom T)" by (simp add: comp_def)
  ultimately have "sort_key fst ?found = map ?f (sorted_list_of_set (dom T))"
    using set dir_showsD(1)[OF D]
    by (intro map_sorted_distinct_set_unique[where f = fst]) (auto simp: inj_on_def distinct_map comp_def)
  then show ?thesis by (simp add: discovered_def)
qed

lemma header_schemas_table:
  assumes "\<forall>x \<in> set xs. file_shows B fs (path_join root x) (the (T x))"
  shows "header_schemas (map (\<lambda>x. (x, path_join root x)) xs) fs = (Ok (map (\<lambda>x. \<lparr>fs_name = x, fs_type = fst (the (T x))\<rparr>) xs), fs)"
  using assms
proof (induction xs)
  case (Cons x xs)
  obtain bs cells where "fs (path_join root x) = Some bs" "field_holds B bs (fst (the (T x))) cells"
    using Cons.prems by (auto simp: file_shows_def)
  from holds_header[where fs = fs and p = "path_join root x", OF this]
  have "header_schema (x, path_join root x) fs = (Ok \<lparr>fs_name = x, fs_type = fst (the (T x))\<rparr>, fs)" .
  then show ?case using Cons by (simp add: io_bind_Ok io_ret_def)
qed (simp add: io_ret_def)

lemma build_schema_table:
  assumes D: "dir_shows B listing fs root T"
  shows "build_schema listing root tt fs = (Ok (table_schema tt T), fs)"
proof -
  have "\<forall>x \<in> set (sorted_list_of_set (dom T)). file_shows B fs (path_join root x) (the (T x))"
    using dir_showsD(1,6)[OF D] by auto
  from header_schemas_table[where fs = fs, OF this]
  show ?thesis by (simp add: build_schema_def discovered_table[OF D] io_simps table_schema_def index_fields_def)
qed

subsection \<open>An open dataset and its table\<close>

text \<open>The handle has the schema of the table, and its cached handles show what the files hold.\<close>

definition dataset_shows :: "codec_backend \<Rightarrow> string list \<Rightarrow> files \<Rightarrow> dataset_handle \<Rightarrow> table \<Rightarrow> bool" where
  "dataset_shows B listing fs d T \<longleftrightarrow> dir_shows B listing fs (ds_root d) T \<and>
     (\<forall>x \<in> dom T. length (snd (the (T x))) = logical_length d) \<and>
     (\<exists>tt. meta_time_type (mt_header (ds_meta d)) = Ok tt \<and> ds_schema d = table_schema tt T) \<and>
     (\<forall>x h. map_of (ds_fields d) x = Some h \<longrightarrow> x \<in> dom T \<and> fd_path h = field_path d x \<and>
        (\<exists>cells. handle_shows h (fst (the (T x))) cells \<and> shown cells = snd (the (T x))))"

lemma dataset_showsD:
  assumes "dataset_shows B listing fs d T"
  shows "dir_shows B listing fs (ds_root d) T" "T x = Some v \<Longrightarrow> length (snd v) = logical_length d"
    "\<exists>tt. meta_time_type (mt_header (ds_meta d)) = Ok tt \<and> ds_schema d = table_schema tt T"
    "map_of (ds_fields d) x = Some h \<Longrightarrow> x \<in> dom T \<and> fd_path h = field_path d x \<and>
        (\<exists>cells. handle_shows h (fst (the (T x))) cells \<and> shown cells = snd (the (T x)))"
  using assms unfolding dataset_shows_def by (blast | force)+

lemma field_path_plain: "plain_name x \<Longrightarrow> field_path d x = path_join (ds_root d) x"
  by (simp add: field_path_def plain_name_def dots_simple)

lemma position_table:
  assumes "finite (dom T)"
  shows "schema_position (table_schema tt T) x = None \<longleftrightarrow> \<not> is_reserved x \<and> x \<notin> dom T"
proof -
  have "fs_name ` set (table_schema tt T) = {''sym'', ''time''} \<union> dom T"
    using assms by (force simp: table_schema_def index_fields_def)
  then show ?thesis by (auto simp: schema_position_None is_reserved_def RESERVED_FIELD_NAMES_def)
qed

lemma open_dataset_shows:
  assumes m: "meta_open fs (path_join root META_FILE_NAME) = Ok h" "meta_time_type (mt_header h) = Ok tt"
    and D: "dir_shows B listing fs root T" "path_join root META_FILE_NAME \<in> set listing"
    and n: "\<forall>x \<in> dom T. length (snd (the (T x))) = row_total h"
  shows "open_dataset listing cores root md fs = (Ok (new_handle root h (table_schema tt T) md cores), fs) \<and>
    dataset_shows B listing fs (new_handle root h (table_schema tt T) md cores) T"
proof -
  have "fs (path_join root META_FILE_NAME) \<noteq> None" using m(1) by (auto simp: meta_open_def file_open_def split: option.splits)
  then have dir: "is_dir listing root fs"
    using D(2) unfolding is_dir_def dir_files_def filter_empty_conv by (metis under_join)
  have "handle_time_type h = (Ok tt :: (core_error, _) res)" using m(2) by (simp add: handle_time_type_def)
  then have "open_dataset listing cores root md fs = (Ok (new_handle root h (table_schema tt T) md cores), fs)"
    using dir m(1) build_schema_table[OF D(1)] by (simp add: open_dataset_def open_index_def io_bind_def io_lift_def io_ret_def)
  then show ?thesis using D(1) m(2) n by (simp add: dataset_shows_def new_handle_def logical_length_def)
qed

text \<open>A handle that is open for reading shows every field of the table.\<close>

lemma shows_field:
  assumes D: "dataset_shows B listing fs d T" and T: "T x = Some v" and md: "ds_mode d = Read"
  shows "\<exists>cells. field_shows B fs d x (fst v) cells \<and> length cells = logical_length d \<and> shown cells = snd v"
proof -
  have p: "plain_name x" using dir_showsD(3)[OF dataset_showsD(1)[OF D]] T by blast
  have l: "length cells = logical_length d" if "shown cells = snd v" for cells
    using dataset_showsD(2)[OF D T] that length_shown[of cells] by simp
  show ?thesis
  proof (cases "map_of (ds_fields d) x")
    case None
    obtain bs cells where f: "fs (path_join (ds_root d) x) = Some bs" "field_holds B bs (fst v) cells" "shown cells = snd v"
      using dir_showsD(6)[OF dataset_showsD(1)[OF D] T] by (auto simp: file_shows_def)
    obtain h src where h: "open_field_file B (path_join (ds_root d) x) Read fs = (Ok h, fs)" "fd_ok h src" "src_type src = fst v"
      "fd_row_count h = length cells" "source_cells src (length cells) = cells"
      using f(1,2) unfolding field_holds_def by blast
    have "fd_path h = path_join (ds_root d) x" using open_Ok[OF h(1)] by simp
    moreover have "handle_shows h (fst v) cells" using h(2-5) by (auto simp: handle_shows_def)
    ultimately have "field_shows B fs d x (fst v) cells" using None h(1) md by (simp add: field_shows_def field_path_plain[OF p])
    then show ?thesis using f(3) l by blast
  next
    case (Some h)
    then obtain cells where "fd_path h = field_path d x" "handle_shows h (fst v) cells" "shown cells = snd v"
      using dataset_showsD(4)[OF D Some] T by auto
    then show ?thesis using Some md l by (auto simp: field_shows_def)
  qed
qed

lemma read_table:
  assumes D: "dataset_shows B listing fs d T" "ds_mode d = Read" and ix: "indexed tt axis names recs n (ds_meta d)"
    and len: "0 < len" "offset + len \<le> n" and cs: "set cs \<subseteq> dom T"
  shows "\<exists>d' sv tv vs. read_dataset B offset len (Some cs) (d, fs) =
      (Ok \<lparr>dv_schema = index_fields tt @ map (\<lambda>c. \<lparr>fs_name = c, fs_type = fst (the (T c))\<rparr>) (projected cs),
           dv_columns = sv # tv # vs, dv_length = len\<rparr>, d', fs) \<and>
    column_view_ok sv \<and> cv_length sv = len \<and>
    view_cells sv = map (sym_cell names) (slice offset (offset + len) (grid_from 0 recs)) \<and>
    view_cells tv = map (time_cell tt axis) (slice offset (offset + len) (grid_from 0 recs)) \<and>
    map (\<lambda>v. shown (view_cells v)) vs = map (\<lambda>c. slice offset (offset + len) (snd (the (T c)))) (projected cs)"
proof -
  define cells where "cells x = (SOME cl. field_shows B fs d x (fst (the (T x))) cl \<and> length cl = logical_length d \<and> shown cl = snd (the (T x)))" for x
  have cells: "field_shows B fs d x (fst (the (T x))) (cells x) \<and> length (cells x) = logical_length d \<and> shown (cells x) = snd (the (T x))"
    if x: "x \<in> dom T" for x
  proof -
    obtain v where "T x = Some v" using x by blast
    from shows_field[OF D(1) this D(2)] this
    have "\<exists>cl. field_shows B fs d x (fst (the (T x))) cl \<and> length cl = logical_length d \<and> shown cl = snd (the (T x))" by simp
    then show ?thesis unfolding cells_def by (rule someI_ex)
  qed
  note ixs = indexed_schema[OF ix]
  have n: "logical_length d = n" using opened_sections(3)[OF indexed_simps(1)[OF ix]] by (simp add: logical_length_def)
  obtain ty where ty: "ds_schema d = table_schema ty T" using dataset_showsD(3)[OF D(1)] by blast
  have pos: "\<forall>c \<in> set cs. is_reserved c \<or> schema_position (ds_schema d) c \<noteq> None"
    using cs dir_showsD(1)[OF dataset_showsD(1)[OF D(1)]] unfolding ty by (auto simp: position_table)
  have sub: "set (projected cs) \<subseteq> dom T" using cs by (auto simp: projected_simps)
  then have fs: "\<forall>c \<in> set (projected cs). field_shows B fs d c (fst (the (T c))) (cells c) \<and> length (cells c) = n"
    using cells n by blast
  obtain d' sv tv vs where rd: "read_dataset B offset len (Some cs) (d, fs) =
      (Ok \<lparr>dv_schema = read_index_schema (ds_meta d) @ map (\<lambda>c. \<lparr>fs_name = c, fs_type = fst (the (T c))\<rparr>) (projected cs),
           dv_columns = sv # tv # vs, dv_length = len\<rparr>, d', fs)"
    "column_view_ok sv" "cv_length sv = len" "view_cells sv = map (sym_cell names) (slice offset (offset + len) (grid_from 0 recs))"
    "view_cells tv = map (time_cell tt axis) (slice offset (offset + len) (grid_from 0 recs))"
    and vs: "map view_cells vs = map (\<lambda>c. slice offset (offset + len) (cells c)) (projected cs)"
    using read_dataset_shows[OF ix len pos fs] by blast
  have "read_index_schema (ds_meta d) = index_fields tt"
    using opened_sections(4)[OF indexed_simps(1)[OF ix]] by (simp add: read_index_schema_def index_fields_def)
  moreover have "map (\<lambda>v. shown (view_cells v)) vs = map shown (map view_cells vs)" by simp
  then have "map (\<lambda>v. shown (view_cells v)) vs = map (\<lambda>c. slice offset (offset + len) (shown (cells c))) (projected cs)"
    unfolding vs by (simp add: slice_def take_map drop_map shown_def)
  then have "map (\<lambda>v. shown (view_cells v)) vs = map (\<lambda>c. slice offset (offset + len) (snd (the (T c)))) (projected cs)"
    using cells sub by (metis (no_types, lifting) map_cong subsetD)
  ultimately show ?thesis using rd by (intro exI[of _ d'] exI[of _ sv] exI[of _ tv] exI[of _ vs]) simp
qed

end
