(* ===== verification/Dataset_Chunks.thy ===== *)
theory Dataset_Chunks
  imports Field_Compress Meta_Read
begin

text \<open>
  Planning the chunks of a dataset (\<open>splayed-core/src/dataset.rs\<close>): boundaries that follow the symbols,
  computed from the records of the index (\<open>sym_aligned_chunk_offsets\<close>) or from the dictionary keys of an
  input column (\<open>sym_chunk_offsets_from_view\<close>). The loops advance by \<open>row_cap\<close>, a public argument; with
  \<open>row_cap = 0\<close> they need not end, so a plan is a partial function: \<open>None\<close> is no result.
\<close>

subsection \<open>The plan\<close>

definition CHUNK_ROW_CAP :: nat where
  "CHUNK_ROW_CAP = 64 * 1024"

text \<open>\<open>while p < stop { push(p); p += row_cap }\<close>.\<close>

partial_function (option) split_loop :: "nat \<Rightarrow> nat \<Rightarrow> nat \<Rightarrow> nat list \<Rightarrow> (nat list \<times> nat) option" where
  "split_loop row_cap p stop bs =
     (if p < stop then split_loop row_cap (p + row_cap) stop (bs @ [p]) else Some (bs, p))"

text \<open>One symbol of \<open>len\<close> rows from \<open>start\<close>: the state is the boundaries so far and the rows of the open
  chunk.\<close>

definition plan_step :: "nat \<Rightarrow> nat \<Rightarrow> nat list \<times> nat \<Rightarrow> nat \<times> nat \<Rightarrow> (nat list \<times> nat) option" where
  "plan_step target_rows row_cap st run = (case (st, run) of ((bs, acc), (start, len)) \<Rightarrow>
     let (bs, acc) = (if target_rows \<le> acc then (bs @ [start], 0) else (bs, acc));
         acc = acc + len
     in if row_cap < len
        then Option.bind (split_loop row_cap (start + row_cap) (start + len) bs) (\<lambda>(bs', p).
               Some (bs', start + len - (p - row_cap)))
        else Some (bs, acc))"

primrec plan :: "nat \<Rightarrow> nat \<Rightarrow> nat list \<times> nat \<Rightarrow> (nat \<times> nat) list \<Rightarrow> (nat list \<times> nat) option" where
  "plan target_rows row_cap st [] = Some st"
| "plan target_rows row_cap st (run # runs) =
     Option.bind (plan_step target_rows row_cap st run) (\<lambda>st'. plan target_rows row_cap st' runs)"

text \<open>\<open>sort_unstable\<close> and \<open>dedup\<close>.\<close>

definition finish_plan :: "nat list \<times> nat \<Rightarrow> nat list" where
  "finish_plan st = remdups_adj (sort (fst st))"

subsection \<open>From the index\<close>

text \<open>The loop leaves at the first record that cannot be read.\<close>

fun readable_records :: "meta_handle \<Rightarrow> nat list \<Rightarrow> (core_error, (nat \<times> nat) list) res" where
  "readable_records h [] = Ok []"
| "readable_records h (i # is) =
     (case sym_record_of h i of
        Ok r \<Rightarrow> rbind (readable_records h is) (\<lambda>rs. Ok ((unat (sr_row_start r), unat (sr_time_count r)) # rs))
      | Err _ \<Rightarrow> Ok []
      | Panic \<Rightarrow> Panic)"

definition sym_aligned_chunk_offsets :: "meta_handle \<Rightarrow> nat \<Rightarrow> nat \<Rightarrow> (core_error, nat list) res option" where
  "sym_aligned_chunk_offsets h target_rows row_cap =
     (case readable_records h [0..<sym_total h] of
        Ok runs \<Rightarrow> map_option (\<lambda>st. Ok (finish_plan st)) (plan target_rows row_cap ([0], 0) runs)
      | Err e \<Rightarrow> Some (Err e)
      | Panic \<Rightarrow> Some Panic)"

subsection \<open>From an input column\<close>

definition key_at_row :: "bytes \<Rightarrow> nat \<Rightarrow> u32" where
  "key_at_row keys i = of_le (slice (i * 4) (i * 4 + 4) keys)"

function run_length :: "bytes \<Rightarrow> nat \<Rightarrow> nat \<Rightarrow> nat \<Rightarrow> nat" where
  "run_length keys n i len =
     (if i + len < n \<and> key_at_row keys (i + len) = key_at_row keys i then run_length keys n i (len + 1) else len)"
  by auto
termination by (relation "measure (\<lambda>(_, n, i, len). n - (i + len))") auto

declare run_length.simps [simp del]

lemma run_length_ge: "len \<le> run_length keys n i len"
proof (induction keys n i len rule: run_length.induct)
  case (1 keys n i len)
  then show ?case by (subst run_length.simps) auto
qed

function key_runs :: "bytes \<Rightarrow> nat \<Rightarrow> nat \<Rightarrow> (nat \<times> nat) list" where
  "key_runs keys n i =
     (if i < n then let len = run_length keys n i 1 in (i, len) # key_runs keys n (i + len) else [])"
  by auto
termination
proof (relation "measure (\<lambda>(_, n, i). n - i)", goal_cases)
  case (2 keys n i x)
  then show ?case using run_length_ge[of 1 keys n i] by simp
qed simp

declare key_runs.simps [simp del]

definition sym_chunk_offsets_from_view :: "column_view \<Rightarrow> nat \<Rightarrow> nat \<Rightarrow> (core_error, nat list) res option" where
  "sym_chunk_offsets_from_view view target_rows row_cap =
     (case cv_segments view of
        [] \<Rightarrow> Some (Err (Invalid ''sym column is empty''))
      | seg # _ \<Rightarrow> (case seg_values seg of
          Dict keys _ _ \<Rightarrow> map_option (\<lambda>st. Ok (finish_plan st))
            (plan target_rows row_cap ([0], 0) (key_runs keys (length keys div 4) 0))
        | _ \<Rightarrow> Some (Err (Invalid ''sym column must be dictionary encoded''))))"

subsection \<open>The splitting loop\<close>

lemma split_loop_eq:
  assumes "0 < c"
  shows "\<exists>k. split_loop c p stop bs = Some (bs @ map (\<lambda>j. p + j * c) [0..<k], p + k * c) \<and>
    stop \<le> p + k * c \<and> (\<forall>j < k. p + j * c < stop) \<and> (p < stop \<longrightarrow> 0 < k)"
proof (induction "stop - p" arbitrary: p bs rule: less_induct)
  case less
  show ?case
  proof (cases "p < stop")
    case True
    then have "stop - (p + c) < stop - p" using assms by simp
    from less(1)[OF this, of "bs @ [p]"] obtain k where k:
      "split_loop c (p + c) stop (bs @ [p]) = Some ((bs @ [p]) @ map (\<lambda>j. p + c + j * c) [0..<k], p + c + k * c)"
      "stop \<le> p + c + k * c" "\<forall>j < k. p + c + j * c < stop" by blast
    have u: "map (\<lambda>j. p + j * c) [0..<Suc k] = p # map (\<lambda>j. p + c + j * c) [0..<k]"
      by (simp add: upt_conv_Cons map_Suc_upt[symmetric] comp_def add.assoc del: upt_Suc)
    have "p + j * c < stop" if "j < Suc k" for j
      using k(3) True that by (cases j) (simp_all add: add.assoc)
    then show ?thesis
      using k(1,2) True u by (intro exI[of _ "Suc k"]) (subst split_loop.simps, simp add: add.assoc del: upt_Suc)
  next
    case False
    then show ?thesis by (intro exI[of _ 0]) (subst split_loop.simps, simp)
  qed
qed

text \<open>Without progress the loop does not return.\<close>

lemma split_loop_stuck: "p < stop \<Longrightarrow> split_loop 0 p stop bs = None"
proof -
  assume p: "p < stop"
  have "split_loop c p stop bs = Some y \<Longrightarrow> c = 0 \<longrightarrow> stop \<le> p" for c bs y
    by (erule split_loop.raw_induct[rotated]) (fastforce split: if_splits)
  from this[of 0 bs] p show ?thesis by (cases "split_loop 0 p stop bs") auto
qed

subsection \<open>What a plan guarantees\<close>

fun runs_tile :: "nat \<Rightarrow> (nat \<times> nat) list \<Rightarrow> nat \<Rightarrow> bool" where
  "runs_tile a [] b \<longleftrightarrow> a = b"
| "runs_tile a ((start, len) # rs) b \<longleftrightarrow> start = a \<and> 0 < len \<and> runs_tile (a + len) rs b"

text \<open>Boundaries: ascending from 0, gaps at most \<open>G\<close>, each one satisfying \<open>P\<close>.\<close>

definition bounds_ok :: "nat \<Rightarrow> (nat \<Rightarrow> bool) \<Rightarrow> nat list \<Rightarrow> bool" where
  "bounds_ok G P bs \<longleftrightarrow> bs \<noteq> [] \<and> hd bs = 0 \<and> sorted_wrt (<) bs \<and>
     (\<forall>w \<in> set (pairs_of bs). snd w - fst w \<le> G) \<and> (\<forall>b \<in> set bs. P b)"

lemma pairs_of_snoc: "xs \<noteq> [] \<Longrightarrow> pairs_of (xs @ [y]) = pairs_of xs @ [(last xs, y)]"
proof (induction xs)
  case (Cons x xs)
  then show ?case by (cases xs) simp_all
qed simp

lemma bounds_ok_snoc:
  assumes "bounds_ok G P bs" "last bs < y" "y \<le> last bs + G" "P y"
  shows "bounds_ok G P (bs @ [y])"
proof -
  have "b < y" if "b \<in> set bs" for b
  proof -
    have "b \<le> last bs" using assms(1) that
      by (auto simp: bounds_ok_def sorted_wrt_iff_nth_less in_set_conv_nth last_conv_nth le_eq_less_or_eq)
         (metis Suc_pred length_greater_0_conv less_Suc_eq less_antisym list.size(3) not_less_zero)
    then show ?thesis using assms(2) by simp
  qed
  then show ?thesis using assms by (auto simp: bounds_ok_def sorted_wrt_append pairs_of_snoc)
qed

lemma bounds_ok_steps:
  assumes "bounds_ok G P bs" "last bs < p" "p \<le> last bs + G" "0 < c" "c \<le> G" "\<forall>j < k. P (p + j * c)"
  shows "bounds_ok G P (bs @ map (\<lambda>j. p + j * c) [0..<k])"
  using assms(6)
proof (induction k)
  case (Suc k)
  let ?bs = "bs @ map (\<lambda>j. p + j * c) [0..<k]"
  have ok: "bounds_ok G P ?bs" using Suc by simp
  have "last ?bs < p + k * c" "p + k * c \<le> last ?bs + G"
    using assms(2-5) by (cases k; simp add: last_append)+
  from bounds_ok_snoc[OF ok this] Suc.prems show ?case by simp
qed (use assms in simp)

lemma plan_step_ok:
  assumes t: "0 < target" "0 < cap" and ok: "bounds_ok (target - 1 + cap) P bs"
    and e: "last bs + acc = e" "acc \<le> target - 1 + cap" "0 < acc \<or> e = 0"
    and len: "0 < len" and P: "P e" "cap < len \<longrightarrow> (\<forall>b. e < b \<and> b < e + len \<longrightarrow> P b)"
  shows "\<exists>bs' acc'. plan_step target cap (bs, acc) (e, len) = Some (bs', acc') \<and>
    bounds_ok (target - 1 + cap) P bs' \<and> last bs' + acc' = e + len \<and> acc' \<le> target - 1 + cap \<and> 0 < acc'"
proof -
  let ?G = "target - 1 + cap"
  define bs1 where "bs1 = (if target \<le> acc then bs @ [e] else bs)"
  define acc1 where "acc1 = (if target \<le> acc then 0 else acc)"
  have ok1: "bounds_ok ?G P bs1"
  proof (cases "target \<le> acc")
    case True
    then have "last bs < e" "e \<le> last bs + ?G" using e t by linarith+
    from bounds_ok_snoc[OF ok this P(1)] show ?thesis using True by (simp add: bs1_def)
  next
    case False
    then have "bs1 = bs" by (simp add: bs1_def)
    then show ?thesis using ok by (simp only:)
  qed
  have e1: "last bs1 + acc1 = e" "acc1 < target" using e t by (auto simp: bs1_def acc1_def)
  show ?thesis
  proof (cases "cap < len")
    case True
    obtain k where k: "split_loop cap (e + cap) (e + len) bs1 =
        Some (bs1 @ map (\<lambda>j. e + cap + j * cap) [0..<k], e + cap + k * cap)"
      "e + len \<le> e + cap + k * cap" "\<forall>j < k. e + cap + j * cap < e + len" "e + cap < e + len \<longrightarrow> 0 < k"
      using split_loop_eq[OF t(2)] by blast
    let ?bs = "bs1 @ map (\<lambda>j. e + cap + j * cap) [0..<k]"
    have k0: "0 < k" using k(4) True by simp
    then obtain k' where k': "k = Suc k'" by (cases k) auto
    have la: "last ?bs = e + k * cap" using k' by simp
    have lt: "k * cap < len" using k(3) k' by auto
    have "bounds_ok ?G P ?bs"
    proof (rule bounds_ok_steps[OF ok1])
      show "last bs1 < e + cap" "e + cap \<le> last bs1 + ?G" using e1 t(2) by auto
      show "\<forall>j < k. P (e + cap + j * cap)" using P(2) True k(3) t(2) by auto
    qed (use t in simp_all)
    moreover have "plan_step target cap (bs, acc) (e, len) = Some (?bs, len - k * cap)"
      using True k(1) by (cases "target \<le> acc") (simp_all add: plan_step_def Let_def bs1_def)
    ultimately show ?thesis using la lt k(2) t by (intro exI[of _ ?bs] exI[of _ "len - k * cap"]) auto
  next
    case False
    then show ?thesis using ok1 e1 len
      by (intro exI[of _ bs1] exI[of _ "acc1 + len"]) (auto simp: plan_step_def Let_def bs1_def acc1_def)
  qed
qed

lemma plan_ok:
  assumes "0 < target" "0 < cap" "runs_tile e runs n" "bounds_ok (target - 1 + cap) P bs"
    and "last bs + acc = e" "acc \<le> target - 1 + cap" "0 < acc \<or> e = 0"
    and "\<forall>(s, l) \<in> set runs. P s \<and> (cap < l \<longrightarrow> (\<forall>b. s < b \<and> b < s + l \<longrightarrow> P b))"
  shows "\<exists>bs' acc'. plan target cap (bs, acc) runs = Some (bs', acc') \<and> bounds_ok (target - 1 + cap) P bs' \<and>
    last bs' + acc' = n \<and> acc' \<le> target - 1 + cap \<and> (0 < acc' \<or> n = 0)"
  using assms(3-8)
proof (induction runs arbitrary: e bs acc)
  case (Cons run runs)
  obtain len where run: "run = (e, len)" "0 < len" "runs_tile (e + len) runs n" using Cons.prems(1) by (cases run) auto
  obtain bs1 acc1 where s: "plan_step target cap (bs, acc) (e, len) = Some (bs1, acc1)"
    "bounds_ok (target - 1 + cap) P bs1" "last bs1 + acc1 = e + len" "acc1 \<le> target - 1 + cap" "0 < acc1"
    using plan_step_ok[OF assms(1,2) Cons.prems(2-5) run(2)] Cons.prems(6) run(1) by auto
  have "\<forall>(s, l) \<in> set runs. P s \<and> (cap < l \<longrightarrow> (\<forall>b. s < b \<and> b < s + l \<longrightarrow> P b))" using Cons.prems(6) by simp
  from Cons.IH[OF run(3) s(2,3,4) _ this] s(5) obtain bs' acc' where
    "plan target cap (bs1, acc1) runs = Some (bs', acc')" "bounds_ok (target - 1 + cap) P bs'"
    "last bs' + acc' = n" "acc' \<le> target - 1 + cap" "0 < acc' \<or> n = 0" by auto
  then show ?case using s(1) run(1) by auto
qed auto


lemma bounds_ok_last: "bounds_ok G P bs \<Longrightarrow> b \<in> set bs \<Longrightarrow> b \<le> last bs"
  by (induction bs rule: rev_induct) (auto simp: bounds_ok_def sorted_wrt_append)

lemma finish_plan_sorted: "sorted_wrt (<) bs \<Longrightarrow> finish_plan (bs, acc) = bs"
proof -
  assume s: "sorted_wrt (<) bs"
  then have "sorted bs" "distinct bs" by (simp_all add: strict_sorted_iff)
  then show ?thesis by (simp add: finish_plan_def sorted_sort_id remdups_adj_distinct)
qed

lemma plan_accepted:
  assumes "0 < target" "0 < cap" "runs_tile 0 runs n" "0 < n"
    and "\<forall>(s, l) \<in> set runs. P s \<and> (cap < l \<longrightarrow> (\<forall>b. s < b \<and> b < s + l \<longrightarrow> P b))" "P 0"
  shows "\<exists>st. plan target cap ([0], 0) runs = Some st \<and>
    compress_offsets n (Some (finish_plan st)) = Ok (finish_plan st) \<and>
    (\<forall>(lo, hi) \<in> set (starts_to_ranges n (finish_plan st)). lo < hi \<and> hi - lo \<le> target - 1 + cap) \<and>
    (\<forall>b \<in> set (finish_plan st). P b)"
proof -
  have init: "bounds_ok (target - 1 + cap) P [0]" "last [0::nat] + 0 = 0" "0 \<le> target - 1 + cap" "0 < (0::nat) \<or> (0::nat) = 0"
    using assms(6) by (simp_all add: bounds_ok_def)
  obtain bs acc where p: "plan target cap ([0], 0) runs = Some (bs, acc)" "bounds_ok (target - 1 + cap) P bs"
    "last bs + acc = n" "acc \<le> target - 1 + cap" "0 < acc"
    using plan_ok[OF assms(1,2,3) init assms(5)] assms(4) by auto
  have b: "bs \<noteq> []" "hd bs = 0" "sorted_wrt (<) bs" "\<forall>w \<in> set (pairs_of bs). snd w - fst w \<le> target - 1 + cap" "\<forall>b \<in> set bs. P b"
    using p(2) by (simp_all add: bounds_ok_def)
  have f: "finish_plan (bs, acc) = bs" using b(3) by (rule finish_plan_sorted)
  then have r: "remdups_adj (sort bs) = bs" by (simp add: finish_plan_def)
  have lt: "\<forall>o' \<in> set bs. o' < n" using bounds_ok_last[OF p(2)] p(3,5) by (metis add.commute add_le_less_mono add_0 le_add_same_cancel1 le_neq_implies_less less_add_same_cancel2 not_le trans_le_add1)
  have w: "\<not> (\<exists>w \<in> set (pairs_of bs). fst w \<ge> snd w)" using pairs_of_strict[OF b(3)] .
  have "compress_offsets n (Some bs) = Ok bs"
    using b(1,2) lt w by (auto simp: compress_offsets_def Let_def r not_le)
  moreover have "lo < hi \<and> hi - lo \<le> target - 1 + cap" if "(lo, hi) \<in> set (starts_to_ranges n bs)" for lo hi
    using that b(4) w p(3,4,5) by (force simp: starts_to_ranges_def not_le)
  ultimately show ?thesis using p(1) b(5) by (intro exI[of _ "(bs, acc)"]) (auto simp: f)
qed

subsection \<open>The two sources of runs\<close>

lemma chunks_exact_nth: "i < k \<Longrightarrow> chunks_exact m k bs ! i = slice (i * m) (i * m + m) bs"
proof (induction m k bs arbitrary: i rule: chunks_exact.induct)
  case (2 m k bs)
  then show ?case by (cases i) (simp_all add: slice_def add.commute drop_drop)
qed simp

lemma length_chunks_exact [simp]: "length (chunks_exact m k bs) = k"
  by (induction m k bs rule: chunks_exact.induct) simp_all

lemma run_length_eq:
  assumes "\<forall>j. i \<le> j \<and> j < i + m \<longrightarrow> key_at_row kb j = key_at_row kb i" "i + m \<le> n"
    and "i + m = n \<or> key_at_row kb (i + m) \<noteq> key_at_row kb i" "len \<le> m"
  shows "run_length kb n i len = m"
  using assms(4)
proof (induction "m - len" arbitrary: len)
  case 0
  then have "len = m" using Suc_le_eq by simp
  then have "\<not> (i + len < n \<and> key_at_row kb (i + len) = key_at_row kb i)" using assms(3) by auto
  then show ?case using \<open>len = m\<close> unfolding run_length.simps[of kb n i len] by (simp only: if_False)
next
  case (Suc d)
  from Suc(2) have lt: "len < m" by simp
  have "key_at_row kb (i + len) = key_at_row kb i" by (rule assms(1)[rule_format]) (use lt in simp)
  moreover have "i + len < n" using lt assms(2) by simp
  moreover have "run_length kb n i (len + 1) = m" by (rule Suc(1)) (use Suc(2) lt in simp_all)
  ultimately show ?case unfolding run_length.simps[of kb n i len] by (simp only: simp_thms if_True)
qed

definition run_pair :: "sym_run \<Rightarrow> nat \<times> nat" where
  "run_pair r = (run_row_start r, run_rows r)"

lemma key_runs_eq:
  assumes k: "\<forall>i < n. key_at_row kb i = keys ! i"
  shows "tiled a runs n \<Longrightarrow> \<forall>r \<in> set runs. run_of keys tms name r \<Longrightarrow> successively (other_key keys) runs \<Longrightarrow>
    key_runs kb n a = map run_pair runs"
proof (induction runs arbitrary: a)
  case Nil
  then show ?case by (subst key_runs.simps) simp
next
  case (Cons r runs)
  have r: "run_row_start r = a" "0 < run_rows r" "tiled (a + run_rows r) runs n" using Cons.prems(1) by simp_all
  have le: "a + run_rows r \<le> n" using tiled_le[OF r(3)] .
  have same: "keys ! j = keys ! a" if "a \<le> j" "j < a + run_rows r" for j
  proof -
    have "run_of keys tms name r" using Cons.prems(2) by simp
    then show ?thesis using that r(1) unfolding run_of_def by blast
  qed
  have "run_length kb n a 1 = run_rows r"
  proof (rule run_length_eq)
    show "\<forall>j. a \<le> j \<and> j < a + run_rows r \<longrightarrow> key_at_row kb j = key_at_row kb a"
    proof (intro allI impI)
      fix j assume j: "a \<le> j \<and> j < a + run_rows r"
      then have "j < n" "a < n" using le by simp_all
      then show "key_at_row kb j = key_at_row kb a" using k same[of j] j by simp
    qed
    show "a + run_rows r = n \<or> key_at_row kb (a + run_rows r) \<noteq> key_at_row kb a"
    proof (cases runs)
      case Nil
      then show ?thesis using r(3) by simp
    next
      case (Cons r' rs)
      then have "run_row_start r' = a + run_rows r" "0 < run_rows r'" "tiled (a + run_rows r + run_rows r') rs n"
        using r(3) by simp_all
      moreover have "keys ! run_row_start r \<noteq> keys ! run_row_start r'"
        using Cons.prems Cons \<open>successively (other_key keys) (r # runs)\<close> by (simp add: other_key_def)
      ultimately show ?thesis using k r(1,2) tiled_le[of "a + run_rows r + run_rows r'" rs n] by auto
    qed
  qed (use le r(2) in auto)
  moreover have "key_runs kb n (a + run_rows r) = map run_pair runs"
    using Cons.IH[OF r(3)] Cons.prems(2,3) by (cases runs) simp_all
  ultimately show ?case using le r(1,2) by (subst key_runs.simps) (simp add: Let_def run_pair_def)
qed

lemma readable_records_eq:
  assumes "\<forall>i \<in> set is. sym_record_of h i = Ok (recs ! i)"
  shows "readable_records h is = Ok (map (\<lambda>i. (rec_lo (recs ! i), unat (sr_time_count (recs ! i)))) is)"
  using assms by (induction "is") simp_all

lemma tiled_runs_tile: "tiled a runs n \<Longrightarrow> runs_tile a (map run_pair runs) n"
  by (induction runs arbitrary: a) (simp_all add: run_pair_def)


lemma tiled_adjacent:
  "tiled a rs b \<Longrightarrow> Suc i < length rs \<Longrightarrow> run_row_start (rs ! Suc i) = run_row_start (rs ! i) + run_rows (rs ! i)"
proof (induction rs arbitrary: a i)
  case (Cons r rs)
  then show ?case by (cases i; cases rs) auto
qed simp

subsection \<open>Properties\<close>

lemma planned:
  assumes "build_input d tt keys tms name n" "sorted_input keys tms name"
    and "meta_build d = Ok b" "length b \<le> u64_max" "fs path = Some b" "0 < target" "0 < cap"
  shows "\<exists>h runs st. meta_open fs path = Ok h \<and> row_total h = n \<and> tiled 0 runs n \<and>
    (\<forall>r \<in> set runs. run_of keys tms name r) \<and> successively (other_key keys) runs \<and>
    plan target cap ([0], 0) (map run_pair runs) = Some st \<and>
    sym_aligned_chunk_offsets h target cap = Some (Ok (finish_plan st)) \<and>
    compress_offsets n (Some (finish_plan st)) = Ok (finish_plan st) \<and>
    (\<forall>(lo, hi) \<in> set (starts_to_ranges n (finish_plan st)). lo < hi \<and> hi - lo \<le> target - 1 + cap) \<and>
    (\<forall>o' \<in> set (finish_plan st). \<exists>r \<in> set runs. o' = run_row_start r \<or>
       (cap < run_rows r \<and> run_row_start r < o' \<and> o' < run_row_start r + run_rows r))"
proof -
  obtain h runs where h: "meta_open fs path = Ok h" "tiled 0 runs n" "\<forall>r \<in> set runs. run_of keys tms name r"
    "successively (other_key keys) runs"
    "indexed tt (time_axis tms) (map run_name runs) (map (rec_of (time_axis tms)) runs) n h"
    using built_open_runs[where fs = fs and path = path, OF assms(1-5)] by blast
  note op = indexed_simps(1)[OF h(5)]
  let ?recs = "map (rec_of (time_axis tms)) runs"
  have n: "0 < n" "n \<le> u32_max" using assms(1) by (auto simp: build_input_def)
  have rt: "row_total h = n" "sym_total h = length runs" using opened_sections[OF op] by simp_all
  have u: "unat (of_nat (run_rows r) :: u32) = run_rows r" "unat (of_nat (run_row_start r) :: u32) = run_row_start r"
    if "r \<in> set runs" for r
  proof -
    from that obtain j where "j < length runs" "r = runs ! j" by (metis in_set_conv_nth)
    then have "run_row_start r + run_rows r \<le> n" using tiled_nth[OF h(2), of j] by simp
    then show "unat (of_nat (run_rows r) :: u32) = run_rows r" "unat (of_nat (run_row_start r) :: u32) = run_row_start r"
      using n(2) by (auto intro!: unat_of_nat_u32)
  qed
  have "readable_records h [0..<sym_total h] = Ok (map (\<lambda>i. (rec_lo (?recs ! i), unat (sr_time_count (?recs ! i)))) [0..<sym_total h])"
    using opened_record[OF op] rt(2) by (intro readable_records_eq) simp
  also have "map (\<lambda>i. (rec_lo (?recs ! i), unat (sr_time_count (?recs ! i)))) [0..<sym_total h] = map run_pair runs"
    by (rule nth_equalityI) (simp_all add: rt(2) run_pair_def rec_of_def u)
  finally have rd: "readable_records h [0..<sym_total h] = Ok (map run_pair runs)" .
  let ?P = "\<lambda>o'. \<exists>r \<in> set runs. o' = run_row_start r \<or>
       (cap < run_rows r \<and> run_row_start r < o' \<and> o' < run_row_start r + run_rows r)"
  have P: "\<forall>(s, l) \<in> set (map run_pair runs). ?P s \<and> (cap < l \<longrightarrow> (\<forall>b. s < b \<and> b < s + l \<longrightarrow> ?P b))"
    by (auto simp: run_pair_def)
  have P0: "?P 0" using h(2) n(1) by (cases runs) auto
  obtain st where st: "plan target cap ([0], 0) (map run_pair runs) = Some st"
    "compress_offsets n (Some (finish_plan st)) = Ok (finish_plan st)"
    "\<forall>(lo, hi) \<in> set (starts_to_ranges n (finish_plan st)). lo < hi \<and> hi - lo \<le> target - 1 + cap"
    "\<forall>o' \<in> set (finish_plan st). ?P o'"
    using plan_accepted[OF assms(6,7) tiled_runs_tile[OF h(2)] n(1) P P0] by blast
  moreover have "sym_aligned_chunk_offsets h target cap = Some (Ok (finish_plan st))"
    using rd st(1) by (simp add: sym_aligned_chunk_offsets_def)
  ultimately show ?thesis using h(1-4) rt(1) by blast
qed

text \<open>C24. The chunk boundaries planned from the index of a dataset are always accepted by the compression:
  they start at 0, ascend and lie below the row count; every chunk has at most \<open>target - 1 + cap\<close> rows;
  and every boundary is the first row of a symbol or lies inside a symbol of more than \<open>cap\<close> rows.\<close>

theorem chunk_plan_accepted:
  assumes "build_input d tt keys tms name n" "sorted_input keys tms name"
    and "meta_build d = Ok b" "length b \<le> u64_max" "fs path = Some b" "0 < target" "0 < cap"
  shows "\<exists>h offs. meta_open fs path = Ok h \<and> sym_aligned_chunk_offsets h target cap = Some (Ok offs) \<and>
    compress_offsets (row_total h) (Some offs) = Ok offs \<and>
    (\<forall>(lo, hi) \<in> set (starts_to_ranges n offs). lo < hi \<and> hi - lo \<le> target - 1 + cap) \<and>
    (\<forall>o' \<in> set offs. o' = 0 \<or> keys ! (o' - 1) \<noteq> keys ! o' \<or>
       (\<exists>s l. cap < l \<and> s < o' \<and> o' < s + l \<and> s + l \<le> n \<and> (\<forall>i. s \<le> i \<and> i < s + l \<longrightarrow> keys ! i = keys ! s)))"
proof -
  obtain h runs st where P: "meta_open fs path = Ok h" "row_total h = n" "tiled 0 runs n"
    "\<forall>r \<in> set runs. run_of keys tms name r" "successively (other_key keys) runs"
    "sym_aligned_chunk_offsets h target cap = Some (Ok (finish_plan st))"
    "compress_offsets n (Some (finish_plan st)) = Ok (finish_plan st)"
    "\<forall>(lo, hi) \<in> set (starts_to_ranges n (finish_plan st)). lo < hi \<and> hi - lo \<le> target - 1 + cap"
    "\<forall>o' \<in> set (finish_plan st). \<exists>r \<in> set runs. o' = run_row_start r \<or>
       (cap < run_rows r \<and> run_row_start r < o' \<and> o' < run_row_start r + run_rows r)"
    using planned[where fs = fs and path = path, OF assms] by blast
  have same: "\<forall>i. run_row_start r \<le> i \<and> i < run_row_start r + run_rows r \<longrightarrow> keys ! i = keys ! run_row_start r"
    if "r \<in> set runs" for r using P(4) that unfolding run_of_def by blast
  have start: "run_row_start r = 0 \<or> keys ! (run_row_start r - 1) \<noteq> keys ! run_row_start r" if "r \<in> set runs" for r
  proof -
    from that obtain j where j: "j < length runs" "r = runs ! j" by (metis in_set_conv_nth)
    show ?thesis
    proof (cases j)
      case 0
      then show ?thesis using P(3) j by (cases runs) auto
    next
      case (Suc i)
      then have i: "i < length runs" "Suc i < length runs" using j by simp_all
      have d: "keys ! run_row_start (runs ! i) \<noteq> keys ! run_row_start (runs ! Suc i)"
        using P(5) i by (simp add: successively_conv_nth other_key_def)
      have "run_row_start (runs ! Suc i) = run_row_start (runs ! i) + run_rows (runs ! i)" "0 < run_rows (runs ! i)"
        using tiled_adjacent[OF P(3) i(2)] tiled_nth[OF P(3) i(1)] by simp_all
      then have "run_row_start (runs ! i) \<le> run_row_start (runs ! Suc i) - 1"
        "run_row_start (runs ! Suc i) - 1 < run_row_start (runs ! i) + run_rows (runs ! i)" by simp_all
      then have "keys ! (run_row_start (runs ! Suc i) - 1) = keys ! run_row_start (runs ! i)"
        using same[OF nth_mem[OF i(1)]] by blast
      then show ?thesis using d j Suc by metis
    qed
  qed
  have inside: "run_row_start r + run_rows r \<le> n" if "r \<in> set runs" for r
  proof -
    from that obtain j where "j < length runs" "r = runs ! j" by (metis in_set_conv_nth)
    then show ?thesis using tiled_nth[OF P(3), of j] by simp
  qed
  have "o' = 0 \<or> keys ! (o' - 1) \<noteq> keys ! o' \<or>
       (\<exists>s l. cap < l \<and> s < o' \<and> o' < s + l \<and> s + l \<le> n \<and> (\<forall>i. s \<le> i \<and> i < s + l \<longrightarrow> keys ! i = keys ! s))"
    if "o' \<in> set (finish_plan st)" for o'
  proof -
    from bspec[OF P(9) that] obtain r where r: "r \<in> set runs" "o' = run_row_start r \<or>
       (cap < run_rows r \<and> run_row_start r < o' \<and> o' < run_row_start r + run_rows r)" by (rule bexE)
    from r(2) show ?thesis
    proof
      assume "o' = run_row_start r"
      then show ?thesis using start[OF r(1)] by metis
    next
      assume "cap < run_rows r \<and> run_row_start r < o' \<and> o' < run_row_start r + run_rows r"
      then have "cap < run_rows r \<and> run_row_start r < o' \<and> o' < run_row_start r + run_rows r \<and>
          run_row_start r + run_rows r \<le> n \<and>
          (\<forall>i. run_row_start r \<le> i \<and> i < run_row_start r + run_rows r \<longrightarrow> keys ! i = keys ! run_row_start r)"
        using inside[OF r(1)] same[OF r(1)] by (simp only: simp_thms)
      then show ?thesis by (intro disjI2 exI)
    qed
  qed
  then have "\<forall>o' \<in> set (finish_plan st). o' = 0 \<or> keys ! (o' - 1) \<noteq> keys ! o' \<or>
       (\<exists>s l. cap < l \<and> s < o' \<and> o' < s + l \<and> s + l \<le> n \<and> (\<forall>i. s \<le> i \<and> i < s + l \<longrightarrow> keys ! i = keys ! s))"
    by (rule ballI)
  with P(8) have "(\<forall>(lo, hi) \<in> set (starts_to_ranges n (finish_plan st)). lo < hi \<and> hi - lo \<le> target - 1 + cap) \<and>
      (\<forall>o' \<in> set (finish_plan st). o' = 0 \<or> keys ! (o' - 1) \<noteq> keys ! o' \<or>
       (\<exists>s l. cap < l \<and> s < o' \<and> o' < s + l \<and> s + l \<le> n \<and> (\<forall>i. s \<le> i \<and> i < s + l \<longrightarrow> keys ! i = keys ! s)))" ..
  moreover have "compress_offsets (row_total h) (Some (finish_plan st)) = Ok (finish_plan st)" using P(2,7) by (simp only:)
  ultimately show ?thesis using P(1,6) by (intro exI conjI) (assumption | erule conjunct1 conjunct2)+
qed

text \<open>Planning from the keys of the symbol column.\<close>

lemma planned_view:
  assumes "build_input d tt keys tms name n" "sorted_input keys tms name"
    and "meta_build d = Ok b" "length b \<le> u64_max" "fs path = Some b" "0 < target" "0 < cap"
    and "data_view_column d ''sym'' = Some symc" "cv_segments symc = [seg]"
  shows "\<exists>h offs. meta_open fs path = Ok h \<and> sym_chunk_offsets_from_view symc target cap = Some (Ok offs) \<and>
    sym_aligned_chunk_offsets h target cap = Some (Ok offs) \<and> compress_offsets n (Some offs) = Ok offs"
proof -
  obtain h runs st where P: "meta_open fs path = Ok h" "tiled 0 runs n" "\<forall>r \<in> set runs. run_of keys tms name r"
    "successively (other_key keys) runs" "plan target cap ([0], 0) (map run_pair runs) = Some st"
    "sym_aligned_chunk_offsets h target cap = Some (Ok (finish_plan st))"
    "compress_offsets n (Some (finish_plan st)) = Ok (finish_plan st)"
    using planned[where fs = fs and path = path, OF assms(1-7)] by blast
  have k: "sym_keys symc = Ok keys" "length keys = n" using assms(1,8) by (auto simp: build_input_def)
  obtain kb offs strs where kb: "seg_values seg = Dict kb offs strs" "cast_words 4 kb = (Ok keys :: (core_error, _) res)"
    using k(1) assms(9) by (auto simp: sym_keys_def res_simps split: column_values.splits)
  then have keys: "keys = map of_le (chunks_exact 4 (length kb div 4) kb)"
    by (simp add: cast_words_def split: if_splits)
  then have n: "length kb div 4 = n" using k(2) by simp
  have "\<forall>i < n. key_at_row kb i = keys ! i" using n by (simp add: keys chunks_exact_nth key_at_row_def)
  from key_runs_eq[OF this P(2-4)] have "key_runs kb n 0 = map run_pair runs" .
  then have "sym_chunk_offsets_from_view symc target cap = Some (Ok (finish_plan st))"
    using P(5) kb(1) assms(9) n by (simp add: sym_chunk_offsets_from_view_def)
  then show ?thesis using P(1,6,7) by simp
qed

text \<open>C25. Planning from the index and planning from the symbol column the index was built from give the same
  boundaries, when that column has one segment.\<close>

theorem chunk_plans_agree:
  assumes "build_input d tt keys tms name n" "sorted_input keys tms name"
    and "meta_build d = Ok b" "length b \<le> u64_max" "fs path = Some b" "0 < target" "0 < cap"
    and "data_view_column d ''sym'' = Some symc" "cv_segments symc = [seg]"
  shows "\<exists>h. meta_open fs path = Ok h \<and>
    sym_chunk_offsets_from_view symc target cap = sym_aligned_chunk_offsets h target cap \<and>
    sym_aligned_chunk_offsets h target cap \<noteq> None"
  using planned_view[where fs = fs and path = path, OF assms] by fastforce

theorem chunk_plan_accepted_witness:
  "\<exists>b h offs. meta_build (example_input [1, 2, 1, 2, 3]) = Ok b \<and> meta_open (\<lambda>_. Some b) ''META'' = Ok h \<and>
     sym_aligned_chunk_offsets h 2 2 = Some (Ok offs) \<and> compress_offsets (row_total h) (Some offs) = Ok offs"
proof -
  obtain b where b: "meta_build (example_input [1, 2, 1, 2, 3]) = Ok b" "length b \<le> u64_max" by (rule example_built)
  have "(\<lambda>_. Some b) ''META'' = Some b" "(0::nat) < 2" by simp_all
  from chunk_plan_accepted[where fs = "\<lambda>_. Some b" and path = "''META''", OF example_build_input example_sorted b this(1,2,2)]
  show ?thesis using b(1) by blast
qed

theorem chunk_plans_agree_witness:
  "\<exists>b h. meta_build (example_input [1, 2, 1, 2, 3]) = Ok b \<and> meta_open (\<lambda>_. Some b) ''META'' = Ok h \<and>
     sym_aligned_chunk_offsets h 2 2 = Some (Ok [0, 2, 4]) \<and>
     sym_chunk_offsets_from_view (dv_columns (example_input [1, 2, 1, 2, 3]) ! 0) 2 2 = Some (Ok [0, 2, 4])"
proof -
  obtain b where b: "meta_build (example_input [1, 2, 1, 2, 3]) = Ok b" "length b \<le> u64_max" by (rule example_built)
  let ?c = "dv_columns (example_input [1, 2, 1, 2, 3]) ! 0"
  have c: "data_view_column (example_input [1, 2, 1, 2, 3]) ''sym'' = Some ?c" by code_simp
  have "length (cv_segments ?c) = 1" by code_simp
  then obtain seg where seg: "cv_segments ?c = [seg]" by (cases "cv_segments ?c") auto
  have "(\<lambda>_. Some b) ''META'' = Some b" "(0::nat) < 2" by simp_all
  from chunk_plans_agree[where fs = "\<lambda>_. Some b" and path = "''META''", OF example_build_input example_sorted b this(1,2,2) c seg]
  obtain h where h: "meta_open (\<lambda>_. Some b) ''META'' = Ok h"
    "sym_chunk_offsets_from_view ?c 2 2 = sym_aligned_chunk_offsets h 2 2" by blast
  have "case seg_values (hd (cv_segments ?c)) of Dict kb _ _ \<Rightarrow> key_runs kb (length kb div 4) 0 = [(0, 2), (2, 3)] | _ \<Rightarrow> False"
    by code_simp
  then have "sym_chunk_offsets_from_view ?c 2 2 = map_option (\<lambda>st. Ok (finish_plan st)) (plan 2 2 ([0], 0) [(0, 2), (2, 3)])"
    using seg by (simp add: sym_chunk_offsets_from_view_def split: column_values.splits)
  moreover have "plan 2 2 ([0], 0) [(0, 2), (2, 3)] = Some ([0, 2, 4], 1)"
    by (simp add: plan_step_def split_loop.simps)
  moreover have "finish_plan ([0, 2, 4], 1) = [0, 2, 4]" by code_simp
  ultimately show ?thesis using b(1) h by (intro exI[of _ b] exI[of _ h]) simp
qed

end
