(* ===== verification/Dataset_Create.thy ===== *)
theory Dataset_Create
  imports Dataset_Table Dataset_Chunks
begin

text \<open>
  Creating a dataset directory (\<open>splayed-core/src/dataset.rs\<close>): the index, then the fields, serially or
  by threads, and the removal of the directory when one of them fails. A created dataset shows the table of
  its input: it opens with the schema of the fields sorted by name, and reads give its cells back.
\<close>

text \<open>\<open>root.join(p)\<close>: an absolute path replaces the root.\<close>

definition join :: "string \<Rightarrow> string \<Rightarrow> string" where
  "join root p = (if p \<noteq> [] \<and> hd p = CHR ''/'' then p else path_join root p)"

subsection \<open>Creation\<close>

record dataset_options =
  do_max_parallelism :: nat
  do_compression :: compression
  do_chunk_target_rows :: nat

text \<open>\<open>available_parallelism\<close> of the machine is a parameter.\<close>

definition default_dataset_options :: "nat \<Rightarrow> dataset_options" where
  "default_dataset_options cores = \<lparr>do_max_parallelism = cores, do_compression = CNone, do_chunk_target_rows = 8192\<rparr>"

text \<open>The row cap is positive, so the plan always returns.\<close>

definition field_options :: "dataset_options \<Rightarrow> data_view \<Rightarrow> (core_error, create_options) res" where
  "field_options options data =
     (if do_compression options = CNone then Ok default_options
      else if do_chunk_target_rows options = 0
      then Ok \<lparr>co_compression = do_compression options, co_chunk_offsets = None\<rparr>
      else case data_view_column data ''sym'' of
        None \<Rightarrow> Panic
      | Some symc \<Rightarrow> (case sym_chunk_offsets_from_view symc (max (do_chunk_target_rows options) 1) CHUNK_ROW_CAP of
            None \<Rightarrow> Panic
          | Some r \<Rightarrow> rbind r (\<lambda>offs.
              Ok \<lparr>co_compression = do_compression options, co_chunk_offsets = Some offs\<rparr>)))"

type_synonym field_column = "string \<times> data_type \<times> column_view"

definition field_cols :: "data_view \<Rightarrow> field_column list" where
  "field_cols data =
     List.map_filter (\<lambda>f. if is_reserved (fs_name f) then None
       else map_option (\<lambda>col. (fs_name f, fs_type f, col)) (data_view_column data (fs_name f))) (dv_schema data)"

definition column_path :: "string \<Rightarrow> string \<Rightarrow> string" where
  "column_path root name = join root (dots_to_slashes name)"

definition create_column :: "codec_backend \<Rightarrow> string \<Rightarrow> create_options \<Rightarrow> field_column \<Rightarrow> unit io" where
  "create_column B root options c = (case c of (name, dt, col) \<Rightarrow>
     create_field_file_from_view B (column_path root name) col (if dt = Utf8 then default_options else options))"

definition write_new_meta :: "string \<Rightarrow> bytes \<Rightarrow> unit io" where
  "write_new_meta path meta = io_bind (io_truncate path) (\<lambda>_. io_append path meta)"

text \<open>The scope returns the first error in the order of the threads; the threads behind it are joined when the
  scope ends, which panics if one of them did.\<close>

definition scope_result :: "(field_column, files) pool \<Rightarrow> (core_error, unit) res" where
  "scope_result P = (case List.map_filter (\<lambda>e. e) (pl_errors P) of
      [] \<Rightarrow> Ok ()
    | e # later \<Rightarrow> if InvalidState ''field writer thread panicked'' \<in> set later then Panic else Err e)"

definition create_parallel ::
  "codec_backend \<Rightarrow> nat list \<Rightarrow> string \<Rightarrow> nat \<Rightarrow> create_options \<Rightarrow> field_column list \<Rightarrow> unit io" where
  "create_parallel B schedule root p options cols = (\<lambda>fs.
     let P = pool_join (create_column B root options)
               (pool_schedule (create_column B root options) schedule (start_pool p cols fs))
     in (scope_result P, pl_state P))"

definition create_files ::
  "codec_backend \<Rightarrow> nat list \<Rightarrow> string \<Rightarrow> bytes \<Rightarrow> nat \<Rightarrow> create_options \<Rightarrow> field_column list \<Rightarrow> unit io" where
  "create_files B schedule root meta par options cols =
     io_bind (write_new_meta (path_join root META_FILE_NAME) meta) (\<lambda>_.
       let p = max (min (max par 1) (length cols)) 1
       in if p \<le> 1 then io_each (create_column B root options) cols
          else create_parallel B schedule root p options cols)"

definition create_dataset_from_view ::
  "codec_backend \<Rightarrow> string list \<Rightarrow> nat list \<Rightarrow> string \<Rightarrow> data_view \<Rightarrow> dataset_options \<Rightarrow> unit io" where
  "create_dataset_from_view B listing schedule root data options = (\<lambda>fs.
     if path_exists listing root fs then (Err (AlreadyExists root), fs)
     else if data_view_column data ''sym'' = None \<or> data_view_column data ''time'' = None
     then (Err (Invalid ''dataset input requires sym and time columns''), fs)
     else io_bind (io_lift (meta_build data)) (\<lambda>meta.
          io_bind (io_lift (field_options options data)) (\<lambda>fo.
            io_on_err (create_files B schedule root meta (do_max_parallelism options) fo (field_cols data))
              (remove_dir_all root))) fs)"

definition init_dataset ::
  "codec_backend \<Rightarrow> string list \<Rightarrow> nat \<Rightarrow> nat list \<Rightarrow> string \<Rightarrow> data_view \<Rightarrow> dataset_options option \<Rightarrow> dataset_handle io" where
  "init_dataset B listing cores schedule root data options =
     io_bind (create_dataset_from_view B listing schedule root data
       (case options of Some o' \<Rightarrow> o' | None \<Rightarrow> default_dataset_options cores)) (\<lambda>_.
       open_dataset listing cores root Read)"

lemma column_path_simple: "simple_name x \<Longrightarrow> column_path root x = path_join root x"
  using simple_hd[of x] by (cases "x = []") (simp_all add: column_path_def join_def dots_simple)

subsection \<open>Creating the files\<close>

definition column_stored :: "codec_backend \<Rightarrow> files \<Rightarrow> string \<Rightarrow> field_column \<Rightarrow> bool" where
  "column_stored B fs root c \<longleftrightarrow> (case c of (name, dt, col) \<Rightarrow>
     file_shows B fs (path_join root name) (dt, shown (view_cells col)))"

definition column_ok :: "nat \<Rightarrow> field_column \<Rightarrow> bool" where
  "column_ok n c \<longleftrightarrow> (case c of (name, dt, col) \<Rightarrow>
     plain_name name \<and> cv_data_type col = dt \<and> cv_length col = n \<and> view_storable col)"

definition created :: "codec_backend \<Rightarrow> string \<Rightarrow> bytes \<Rightarrow> files \<Rightarrow> field_column set \<Rightarrow> files \<Rightarrow> bool" where
  "created B root meta fs D fs' \<longleftrightarrow> fs' (path_join root META_FILE_NAME) = Some meta \<and>
     (\<forall>c \<in> D. column_stored B fs' root c) \<and>
     (\<forall>q. q \<noteq> path_join root META_FILE_NAME \<and> q \<notin> path_join root ` fst ` D \<longrightarrow> fs' q = fs q)"

lemma create_parallel_run:
  assumes "run_pool (create_column B root options) schedule p cols fs = (r, fs')"
  shows "snd (create_parallel B schedule root p options cols fs) = fs'"
    "r = Ok () \<Longrightarrow> create_parallel B schedule root p options cols fs = (Ok (), fs')"
  using assms by (auto simp: run_pool_def create_parallel_def Let_def pool_result_def scope_result_def split: list.splits)

lemma created_step:

  assumes cols: "distinct (map fst cols)" "\<forall>c \<in> set cols. column_ok n c"
    and fresh: "\<forall>q. under root q \<longrightarrow> fs q = None"
    and opts: "co_compression opts \<noteq> CNone \<longrightarrow> backend_sane B (co_compression opts)"
      "compute_chunk_boundaries n (co_chunk_offsets opts) = Ok rs"
    and J: "created B root meta fs D s" and c: "c \<in> set cols" "c \<notin> D" "D \<subseteq> set cols"
  shows "\<exists>s'. create_column B root opts c s = (Ok (), s') \<and> created B root meta fs (insert c D) s'"
proof -
  obtain x dt col where x: "c = (x, dt, col)" by (cases c)
  have ok: "simple_name x" "x \<noteq> []" "cv_data_type col = dt" "cv_length col = n" "view_storable col"
    using cols(2) c(1) by (auto simp: column_ok_def x plain_name_def)
  have dt: "dt \<noteq> Utf8" using ok(3,5) by (auto simp: view_storable_def)
  have other: "fst e \<noteq> x" if "e \<in> D" for e
  proof
    assume "fst e = x"
    then have "e = c" using eq_key_imp_eq_value[of cols x "snd e" "snd c"] cols(1) c that x by (cases e) auto
    then show False using that c(2) by simp
  qed
  have ne: "path_join root x \<noteq> path_join root META_FILE_NAME" "path_join root x \<notin> path_join root ` fst ` D"
    using not_meta[OF ok(1)] other by fastforce+
  have free: "s (path_join root x) = None" using J fresh ne by (simp add: created_def)
  obtain bs cells where w: "create_field_file_from_view B (path_join root x) col opts s = (Ok (), s(path_join root x \<mapsto> bs))"
    "field_holds B bs dt cells" "length cells = n" "shown cells = shown (view_cells col)"
    using view_created[where fs = s and p = "path_join root x" and B = B and opts = opts and rs = rs, OF ok(5) free] opts ok(3,4) by auto
  have "create_column B root opts c s = (Ok (), s(path_join root x \<mapsto> bs))"
    using w(1) dt by (simp add: create_column_def x column_path_simple[OF ok(1)])
  moreover have "created B root meta fs (insert c D) (s(path_join root x \<mapsto> bs))"
  proof -
    have "column_stored B (s(path_join root x \<mapsto> bs)) root e" if "e \<in> D" for e
      using J that other[OF that] by (cases e) (auto simp: created_def column_stored_def file_shows_def)
    moreover have "column_stored B (s(path_join root x \<mapsto> bs)) root c"
      using w(2-4) ok(3) by (auto simp: column_stored_def file_shows_def x)
    ultimately show ?thesis using J ne by (simp add: created_def x)
  qed
  ultimately show ?thesis by blast
qed

lemma io_each_all:
  assumes step: "\<And>D s t. J D s \<Longrightarrow> t \<in> set ts \<Longrightarrow> t \<notin> D \<Longrightarrow> D \<subseteq> set ts \<Longrightarrow> \<exists>s'. act t s = (Ok (), s') \<and> J (insert t D) s'"
  shows "distinct us \<Longrightarrow> set us \<subseteq> set ts - D \<Longrightarrow> D \<subseteq> set ts \<Longrightarrow> J D s \<Longrightarrow> \<exists>s'. io_each act us s = (Ok (), s') \<and> J (D \<union> set us) s'"
proof (induction us arbitrary: D s)
  case (Cons u us)
  then obtain s1 where s1: "act u s = (Ok (), s1)" "J (insert u D) s1" using step[of D s u] by auto
  then obtain s' where "io_each act us s1 = (Ok (), s')" "J (insert u D \<union> set us) s'"
    using Cons.IH[of "insert u D" s1] Cons.prems by auto
  then show ?case using s1(1) by (simp add: io_bind_Ok)
qed (simp add: io_ret_def)

lemma create_files_eq:
  assumes cols: "distinct (map fst cols)" "\<forall>c \<in> set cols. column_ok n c"
    and fresh: "\<forall>q. under root q \<longrightarrow> fs q = None"
    and opts: "co_compression opts \<noteq> CNone \<longrightarrow> backend_sane B (co_compression opts)"
      "compute_chunk_boundaries n (co_chunk_offsets opts) = Ok rs"
  shows "\<exists>fs'. create_files B schedule root meta par opts cols fs = (Ok (), fs') \<and> created B root meta fs (set cols) fs'"
proof -
  let ?J = "created B root meta fs" and ?act = "create_column B root opts"
  let ?fs1 = "fs(path_join root META_FILE_NAME \<mapsto> meta)"
  have m: "write_new_meta (path_join root META_FILE_NAME) meta fs = (Ok (), ?fs1)"
    by (simp add: write_new_meta_def io_simps)
  have b: "io_bind (write_new_meta (path_join root META_FILE_NAME) meta) f fs = f () ?fs1" for f :: "unit \<Rightarrow> unit io"
    by (simp add: io_bind_def m)
  have J0: "?J {} ?fs1" by (simp add: created_def)
  have dis: "distinct cols" using cols(1) by (simp add: distinct_map)
  note step = created_step[OF cols fresh opts]
  have "\<exists>fs'. io_each ?act cols ?fs1 = (Ok (), fs') \<and> ?J (set cols) fs'"
    using io_each_all[where J = ?J and act = ?act and ts = cols and us = cols and D = "{}", OF step dis _ _ J0] by auto
  moreover have "\<exists>fs'. create_parallel B schedule root p opts cols ?fs1 = (Ok (), fs') \<and> ?J (set cols) fs'" if "0 < p" for p
    using run_pool_all[where J = ?J and act = ?act and ts = cols and schedule = schedule, OF step that dis J0]
      create_parallel_run(2) by blast
  ultimately show ?thesis unfolding create_files_def by (auto simp: b Let_def)
qed

lemma options_accepted:
  assumes "build_input data tt keys tms name n" "sorted_input keys tms name" "meta_build data = Ok b" "length b \<le> u64_max"
    and "do_compression options = CNone \<or> do_chunk_target_rows options = 0 \<or>
      (\<exists>symc seg. data_view_column data ''sym'' = Some symc \<and> cv_segments symc = [seg])"
  shows "\<exists>fo rs. field_options options data = Ok fo \<and> compute_chunk_boundaries n (co_chunk_offsets fo) = Ok rs \<and>
    (co_compression fo \<noteq> CNone \<longrightarrow> co_compression fo = do_compression options)"
proof (cases "do_compression options = CNone \<or> do_chunk_target_rows options = 0")
  case True
  then show ?thesis by (auto simp: field_options_def default_options_def compute_chunk_boundaries_def)
next
  case False
  then obtain symc seg where sym: "data_view_column data ''sym'' = Some symc" "cv_segments symc = [seg]" using assms(5) by auto
  let ?t = "max (do_chunk_target_rows options) 1"
  have pos: "0 < ?t" "0 < CHUNK_ROW_CAP" by (simp_all add: CHUNK_ROW_CAP_def)
  obtain offs where offs: "sym_chunk_offsets_from_view symc ?t CHUNK_ROW_CAP = Some (Ok offs)"
    "compress_offsets n (Some offs) = Ok offs"
    using planned_view[where fs = "\<lambda>_. Some b" and path = "[]", OF assms(1-4) refl pos sym] by blast
  have "\<exists>rs. compute_chunk_boundaries n (Some offs) = Ok rs"
    using offs(2) by (auto simp: compress_offsets_def compute_chunk_boundaries_def Let_def split: if_splits)
  then show ?thesis using False sym(1) offs(1) by (auto simp: field_options_def)
qed

text \<open>A dataset of this input can be created in a place where no file is.\<close>

definition creatable :: "codec_backend \<Rightarrow> files \<Rightarrow> string \<Rightarrow> nat \<Rightarrow> data_view \<Rightarrow> dataset_options \<Rightarrow> bool" where
  "creatable B fs root n data options \<longleftrightarrow> (\<forall>q. q = root \<or> under root q \<longrightarrow> fs q = None) \<and>
     distinct (map fst (field_cols data)) \<and> (\<forall>c \<in> set (field_cols data). column_ok n c) \<and>
     (do_compression options = CNone \<or> backend_sane B (do_compression options) \<and>
       (do_chunk_target_rows options = 0 \<or>
        (\<exists>symc seg. data_view_column data ''sym'' = Some symc \<and> cv_segments symc = [seg])))"

lemma create_eq:
  assumes I: "build_input data tt keys tms name n" "sorted_input keys tms name" "meta_build data = Ok b" "length b \<le> u64_max"
    and C: "creatable B fs root n data options"
  shows "\<exists>fs'. create_dataset_from_view B listing schedule root data options fs = (Ok (), fs') \<and>
    created B root b fs (set (field_cols data)) fs'"
proof -
  have c: "\<forall>q. under root q \<longrightarrow> fs q = None" "fs root = None" "distinct (map fst (field_cols data))"
    "\<forall>c \<in> set (field_cols data). column_ok n c" using C by (auto simp: creatable_def)
  have o': "do_compression options = CNone \<or> do_chunk_target_rows options = 0 \<or>
      (\<exists>symc seg. data_view_column data ''sym'' = Some symc \<and> cv_segments symc = [seg])"
    using C unfolding creatable_def by blast
  obtain fo rs where fo: "field_options options data = Ok fo" "compute_chunk_boundaries n (co_chunk_offsets fo) = Ok rs"
    "co_compression fo \<noteq> CNone \<longrightarrow> co_compression fo = do_compression options"
    using options_accepted[OF I o'] by blast
  have "co_compression fo \<noteq> CNone \<longrightarrow> backend_sane B (co_compression fo)" using fo(3) C by (auto simp: creatable_def)
  from create_files_eq[OF c(3,4,1) this fo(2)] obtain fs' where fs':
    "create_files B schedule root b (do_max_parallelism options) fo (field_cols data) fs = (Ok (), fs')"
    "created B root b fs (set (field_cols data)) fs'" by blast
  have "\<not> path_exists listing root fs" using c(1,2) by (auto simp: path_exists_def is_dir_def dir_files_def filter_empty_conv)
  moreover have "data_view_column data ''sym'' \<noteq> None" "data_view_column data ''time'' \<noteq> None"
    using I(1) by (auto simp: build_input_def)
  ultimately have "create_dataset_from_view B listing schedule root data options fs = (Ok (), fs')"
    using I(3) fo(1) fs'(1) by (simp add: create_dataset_from_view_def io_simps io_on_err_def)
  then show ?thesis using fs'(2) by blast
qed

text \<open>The table of the input, and what is left to say of the listing.\<close>

definition view_table :: "data_view \<Rightarrow> table" where
  "view_table data = map_of (map (\<lambda>(name, dt, col). (name, dt, shown (view_cells col))) (field_cols data))"

lemma view_table_Some:
  assumes "distinct (map fst (field_cols data))"
  shows "view_table data x = Some v \<longleftrightarrow> (\<exists>col. (x, fst v, col) \<in> set (field_cols data) \<and> snd v = shown (view_cells col))"
proof -
  let ?g = "\<lambda>(name, dt, col). (name, dt, shown (view_cells col))"
  have "map fst (map ?g (field_cols data)) = map fst (field_cols data)" by (auto simp: comp_def split: prod.splits)
  then have "view_table data x = Some v \<longleftrightarrow> (x, v) \<in> set (map ?g (field_cols data))"
    unfolding view_table_def using assms by (metis map_of_eq_Some_iff)
  also have "\<dots> \<longleftrightarrow> (\<exists>col. (x, fst v, col) \<in> set (field_cols data) \<and> snd v = shown (view_cells col))"
  proof
    assume "(x, v) \<in> set (map ?g (field_cols data))"
    then obtain c where c: "c \<in> set (field_cols data)" "(x, v) = ?g c" unfolding set_map by blast
    then show "\<exists>col. (x, fst v, col) \<in> set (field_cols data) \<and> snd v = shown (view_cells col)"
      by (intro exI[of _ "snd (snd c)"]) (simp add: split_def prod_eq_iff)
  next
    assume "\<exists>col. (x, fst v, col) \<in> set (field_cols data) \<and> snd v = shown (view_cells col)"
    then obtain col where c: "(x, fst v, col) \<in> set (field_cols data)" "snd v = shown (view_cells col)" by blast
    have "(x, v) = ?g (x, fst v, col)" using c(2) by (simp add: prod_eq_iff)
    then show "(x, v) \<in> set (map ?g (field_cols data))" unfolding set_map using c(1) by (rule image_eqI)
  qed
  finally show ?thesis .
qed

lemma dom_view_table: "dom (view_table data) = fst ` set (field_cols data)"
  by (simp add: view_table_def dom_map_of_conv_image_fst image_image split_def)

definition lists_dataset :: "string list \<Rightarrow> string \<Rightarrow> data_view \<Rightarrow> bool" where
  "lists_dataset listing root data \<longleftrightarrow> distinct listing \<and> path_join root META_FILE_NAME \<in> set listing \<and>
     (\<forall>x \<in> dom (view_table data). path_join root x \<in> set listing)"

lemma created_shows:
  assumes C: "creatable B fs root n data options" and F: "created B root b fs (set (field_cols data)) fs'"
    and L: "lists_dataset listing root data"
  shows "dir_shows B listing fs' root (view_table data)" "\<forall>x \<in> dom (view_table data). length (snd (the (view_table data x))) = n"
proof -
  have c: "\<forall>q. under root q \<longrightarrow> fs q = None" "distinct (map fst (field_cols data))" "\<forall>c \<in> set (field_cols data). column_ok n c"
    using C by (auto simp: creatable_def)
  note T = view_table_Some[OF c(2)]
  have fin: "finite (dom (view_table data))" by (simp add: dom_view_table)
  have plain: "plain_name x" if "x \<in> dom (view_table data)" for x using that c(3) by (auto simp: dom_view_table column_ok_def)
  have only: "q \<in> path_join root ` dom (view_table data)" if "under root q" "fs' q \<noteq> None" "walk_file root q \<noteq> None" for q
  proof -
    have "q \<noteq> path_join root META_FILE_NAME" using that(3) walk_meta[of root] by auto
    then show ?thesis using F c(1) that(1,2) unfolding created_def dom_view_table by metis
  qed
  have rows: "file_shows B fs' (path_join root x) v" if tv: "view_table data x = Some v" for x v
  proof -
    obtain col where col: "(x, fst v, col) \<in> set (field_cols data)" "snd v = shown (view_cells col)" using tv unfolding T by blast
    have "\<forall>c \<in> set (field_cols data). column_stored B fs' root c" using F by (simp add: created_def)
    from bspec[OF this col(1)] show ?thesis by (simp add: column_stored_def flip: col(2))
  qed
  show "dir_shows B listing fs' root (view_table data)"
    unfolding dir_shows_def using fin plain only rows L by (simp add: lists_dataset_def)
  show "\<forall>x \<in> dom (view_table data). length (snd (the (view_table data x))) = n"
  proof
    fix x assume "x \<in> dom (view_table data)"
    then obtain v where v: "view_table data x = Some v" by blast
    then obtain col where col: "(x, fst v, col) \<in> set (field_cols data)" "snd v = shown (view_cells col)" unfolding T by blast
    have "cv_length col = n" "column_view_ok col" using bspec[OF c(3) col(1)] by (simp_all add: column_ok_def view_storable_def)
    then show "length (snd (the (view_table data x))) = n" using v col(2) length_view_cells by simp
  qed
qed

lemma open_created:
  assumes I: "build_input data tt keys tms name n" "sorted_input keys tms name" "meta_build data = Ok b" "length b \<le> u64_max"
    and C: "creatable B fs root n data options" and F: "created B root b fs (set (field_cols data)) fs'"
    and L: "lists_dataset listing root data"
  shows "\<exists>d names recs. open_dataset listing cores root md fs' = (Ok d, fs') \<and> ds_mode d = md \<and> ds_schema d = table_schema tt (view_table data) \<and>
    dataset_shows B listing fs' d (view_table data) \<and> indexed tt (time_axis tms) names recs n (ds_meta d) \<and>
    (\<forall>i < n. case grid_from 0 recs ! i of (s, t) \<Rightarrow> s < length names \<and> t < length (time_axis tms) \<and>
       names ! s = name i \<and> time_axis tms ! t = tms ! i)"
proof -
  let ?m = "path_join root META_FILE_NAME"
  have m: "fs' ?m = Some b" using F by (simp add: created_def)
  obtain h names recs where h: "meta_open fs' ?m = Ok h" and ix: "indexed tt (time_axis tms) names recs n h"
    and g: "\<forall>i < n. case grid_from 0 recs ! i of (s, t) \<Rightarrow> s < length names \<and> t < length (time_axis tms) \<and>
       names ! s = name i \<and> time_axis tms ! t = tms ! i"
    using built_open[where fs = fs' and path = ?m, OF I m] by blast
  note o' = opened_sections[OF indexed_simps(1)[OF ix]]
  have n: "\<forall>x \<in> dom (view_table data). length (snd (the (view_table data x))) = row_total h"
    using created_shows(2)[OF C F L] o'(3) by simp
  have "path_join root META_FILE_NAME \<in> set listing" using L by (simp add: lists_dataset_def)
  from open_dataset_shows[OF h o'(4) created_shows(1)[OF C F L] this n, of cores md]
  show ?thesis using ix g
    by (intro exI[of _ "new_handle root h (table_schema tt (view_table data)) md cores"] exI[of _ names] exI[of _ recs])
       (simp add: new_handle_def)
qed

subsection \<open>Failed creations\<close>

lemma touches_view_created [touch_intros]: "p \<in> P \<Longrightarrow> touches P (create_field_file_from_view B p col opts)"
  unfolding create_field_file_from_view_def create_field_file_view_plain_def create_field_file_view_chunked_def
    write_header_def Let_def
  by (auto intro!: touch_intros split: list.splits option.splits)

lemma run_pool_keeps:
  assumes act: "\<And>t s r s'. t \<in> set ts \<Longrightarrow> act t s = (r, s') \<Longrightarrow> Q s \<Longrightarrow> Q s'" and Q: "Q s" and r: "run_pool act schedule p ts s = (r, s')"
  shows "Q s'"
proof -
  define I where "I P \<longleftrightarrow> set (concat (pl_buckets P)) \<subseteq> set ts \<and> Q (pl_state P)" for P :: "('a, 'b) pool"
  have "I P'" if st: "pool_move act b P = Some P'" and i: "I P" for P P' b
  proof -
    obtain t rest r1 s1 where m: "b < length (pl_buckets P)" "pl_buckets P ! b = t # rest"
      "act t (pl_state P) = (r1, s1)" "P' = thread_after b r1 rest (P\<lparr>pl_state := s1\<rparr>)"
      by (rule pool_move_Some[OF st])
    obtain A C where AC: "concat (pl_buckets P) = A @ t # rest @ C" "\<And>x. concat ((pl_buckets P)[b := x]) = A @ x @ C"
      using pending_split[OF m(1,2)] by blast
    have "t \<in> set ts" "Q (pl_state P)" using i by (simp_all add: I_def AC(1) del: set_concat)
    then have "Q s1" using act m(3) by blast
    then show ?thesis using i by (cases r1) (simp_all add: I_def m(4) thread_after_buckets AC del: set_concat)
  qed
  then have sch: "I (pool_schedule act bs P)" if "I P" for bs P
    using that by (induction bs arbitrary: P) (auto split: option.splits)
  have "set (concat (round_robin p ts)) \<subseteq> set ts" by (auto simp: round_robin_def)
  then have "I (start_pool p ts s)" using Q by (simp add: I_def start_pool_def)
  then have "I (pool_join act (pool_schedule act schedule (start_pool p ts s)))" unfolding pool_join_def by (intro sch)
  then show ?thesis using r by (simp add: run_pool_def Let_def I_def)
qed

lemma touches_each_of: "(\<And>x. x \<in> set xs \<Longrightarrow> touches P (f x)) \<Longrightarrow> touches P (io_each f xs)"
  by (induction xs) (auto intro: touch_intros)

lemma touches_pool:
  assumes "\<And>t. t \<in> set cols \<Longrightarrow> touches P (create_column B root options t)"
  shows "touches P (create_parallel B schedule root p options cols)"
proof -
  let ?act = "create_column B root options"
  have "fs' q = fs q" if w: "create_parallel B schedule root p options cols fs = (r, fs')" and q: "q \<notin> P" for fs r fs' q
  proof -
    obtain r' fs2 where r': "run_pool ?act schedule p cols fs = (r', fs2)" by (cases "run_pool ?act schedule p cols fs")
    have "fs2 q = fs q"
      using run_pool_keeps[where Q = "\<lambda>s. s q = fs q" and act = ?act and ts = cols, OF _ refl r'] touchesD[OF assms _ q]
      by metis
    then show ?thesis using create_parallel_run(1)[OF r'] w by simp
  qed
  then show ?thesis by (auto simp: touches_def)
qed

lemma touches_create_files:
  assumes "\<forall>c \<in> set cols. simple_name (fst c)"
  shows "touches {q. under root q} (create_files B schedule root meta par options cols)"
proof -
  have "touches {q. under root q} (create_column B root options c)" if "c \<in> set cols" for c
    using assms that by (cases c) (auto simp: create_column_def column_path_simple intro!: touch_intros)
  then show ?thesis
    unfolding create_files_def write_new_meta_def Let_def
    by (auto intro!: touch_intros touches_each_of touches_pool)
qed

subsection \<open>Properties\<close>

text \<open>C32. A creation that fails leaves the disk as it was: what the index and the first fields had written
  under the new directory is removed again, whatever the order of the threads, and no file outside was
  touched. (A panic of the builder is not caught; names with a leading dot are excluded, see below.)\<close>

theorem failed_creation_removed:
  assumes "create_dataset_from_view B listing schedule root data options fs = (Err e, fs')"
    and "\<forall>q. under root q \<longrightarrow> fs q = None" "\<forall>c \<in> set (field_cols data). simple_name (fst c)"
  shows "fs' = fs"
proof (cases "path_exists listing root fs \<or> data_view_column data ''sym'' = None \<or> data_view_column data ''time'' = None")
  case True
  then show ?thesis using assms(1) by (auto simp: create_dataset_from_view_def split: if_splits)
next
  case False
  show ?thesis
  proof (cases "\<exists>b fo. meta_build data = Ok b \<and> field_options options data = Ok fo")
    case True
    then obtain b fo where ok: "meta_build data = Ok b" "field_options options data = Ok fo" by blast
    let ?run = "create_files B schedule root b (do_max_parallelism options) fo (field_cols data)"
    have r: "io_on_err ?run (remove_dir_all root) fs = (Err e, fs')"
      using assms(1) False by (simp add: create_dataset_from_view_def io_bind_def io_lift_def ok del: not_None_eq)
    obtain a fs1 where a: "?run fs = (a, fs1)" by (cases "?run fs")
    have "fs1 q = fs q" if "\<not> under root q" for q
      using touchesD[OF touches_create_files[OF assms(3)] a, of q] that by simp
    moreover have "fs' = (\<lambda>q. if under root q then None else fs1 q)"
      using r a by (cases a) (simp_all add: io_on_err_def remove_dir_all_def)
    ultimately show ?thesis using assms(2) by (intro ext) simp
  next
    case no: False
    then show ?thesis using assms(1) False
      by (cases "meta_build data"; cases "field_options options data")
         (auto simp: create_dataset_from_view_def io_bind_def io_lift_def)
  qed
qed

text \<open>C31. Create, open, read. A dataset of a table whose input is sorted by time within each symbol is
  created without error, with any compression, any chunk target and any schedule of the threads, and nothing
  outside its directory changes; it opens in whatever order the system lists its files, with the schema of
  its fields sorted by name; and every row range of every projection reads back the symbols, the times and
  the cells of the table.\<close>

theorem create_open_read:
  assumes "build_input data tt keys tms name n" "sorted_input keys tms name" "meta_build data = Ok b" "length b \<le> u64_max"
    and "creatable B fs root n data options" "lists_dataset listing root data"
    and "0 < len" "offset + len \<le> n" "set cs \<subseteq> dom (view_table data)"
  shows "\<exists>fs' d d' sv tv vs sch. create_dataset_from_view B listing schedule root data options fs = (Ok (), fs') \<and>
    (\<forall>q. \<not> under root q \<longrightarrow> fs' q = fs q) \<and>
    open_dataset listing cores root Read fs' = (Ok d, fs') \<and> ds_schema d = table_schema tt (view_table data) \<and>
    dataset_shows B listing fs' d (view_table data) \<and>
    read_dataset B offset len (Some cs) (d, fs') =
      (Ok \<lparr>dv_schema = sch, dv_columns = sv # tv # vs, dv_length = len\<rparr>, d', fs') \<and>
    (\<forall>k < len. column_view_string_at sv k = (Ok (Some (name (offset + k))) :: (core_error, _) res)) \<and>
    view_cells tv = map (\<lambda>k. (True, CBytes (le_bytes (time_size_of tt) (tms ! (offset + k))))) [0..<len] \<and>
    map (\<lambda>v. shown (view_cells v)) vs = map (\<lambda>c. slice offset (offset + len) (snd (the (view_table data c)))) (projected cs)"
proof -
  obtain fs' where cr: "create_dataset_from_view B listing schedule root data options fs = (Ok (), fs')"
    and F: "created B root b fs (set (field_cols data)) fs'" using create_eq[OF assms(1-5)] by blast
  have out: "\<forall>q. \<not> under root q \<longrightarrow> fs' q = fs q" using F unfolding created_def by (metis imageE under_join)
  obtain d names recs where op: "open_dataset listing cores root Read fs' = (Ok d, fs')" and md: "ds_mode d = Read"
    and sc: "ds_schema d = table_schema tt (view_table data)" and D: "dataset_shows B listing fs' d (view_table data)"
    and ix: "indexed tt (time_axis tms) names recs n (ds_meta d)"
    and g: "\<forall>i < n. case grid_from 0 recs ! i of (s, t) \<Rightarrow> s < length names \<and> t < length (time_axis tms) \<and>
       names ! s = name i \<and> time_axis tms ! t = tms ! i"
    using open_created[OF assms(1-5) F assms(6), of cores Read] by (elim exE conjE) (rule that)
  obtain d' sv tv vs where rd: "read_dataset B offset len (Some cs) (d, fs') =
      (Ok \<lparr>dv_schema = index_fields tt @ map (\<lambda>c. \<lparr>fs_name = c, fs_type = fst (the (view_table data c))\<rparr>) (projected cs),
           dv_columns = sv # tv # vs, dv_length = len\<rparr>, d', fs')"
    and sv: "column_view_ok sv" "cv_length sv = len"
      "view_cells sv = map (sym_cell names) (slice offset (offset + len) (grid_from 0 recs))"
    and tv: "view_cells tv = map (time_cell tt (time_axis tms)) (slice offset (offset + len) (grid_from 0 recs))"
    and vs: "map (\<lambda>v. shown (view_cells v)) vs = map (\<lambda>c. slice offset (offset + len) (snd (the (view_table data c)))) (projected cs)"
    using read_table[OF D md ix assms(7-9)] by (elim exE conjE) (rule that)
  have nm: "\<forall>k < len. column_view_string_at sv k = (Ok (Some (name (offset + k))) :: (core_error, _) res)"
    using grid_names[OF ix g assms(8) sv] .
  have tm: "view_cells tv = map (\<lambda>k. (True, CBytes (le_bytes (time_size_of tt) (tms ! (offset + k))))) [0..<len]"
    using grid_times[OF ix g assms(8)] tv by simp
  show ?thesis
    by (intro exI conjI) (rule cr, rule out, rule op, rule sc, rule D, rule rd, rule nm, rule tm, rule vs)
qed

definition example_table :: data_view where
  "example_table = (example_input [1, 2, 1, 2, 3])
     \<lparr>dv_schema := dv_schema (example_input [1, 2, 1, 2, 3]) @ [\<lparr>fs_name = ''v'', fs_type = Int8\<rparr>],
      dv_columns := dv_columns (example_input [1, 2, 1, 2, 3]) @
        [\<lparr>cv_data_type = Int8, cv_segments =
           [\<lparr>seg_values = Fixed [5, 6], seg_validity = Some \<lparr>bv_data = [1], bv_bit_offset = 0, bv_len = 2\<rparr>, seg_rows = 2\<rparr>,
            \<lparr>seg_values = Fixed [7, 8, 9], seg_validity = None, seg_rows = 3\<rparr>], cv_length = 5\<rparr>]\<rparr>"

lemma example_table_input:
  "build_input example_table TT_TimestampUs [0, 0, 1, 1, 1] [1, 2, 1, 2, 3] (\<lambda>i. if i < 2 then [65] else [66]) 5"
proof -
  have five: "(\<forall>i < 5. P i) \<longleftrightarrow> P 0 \<and> P 1 \<and> P 2 \<and> P 3 \<and> P (4 :: nat)" for P
    by (auto simp: eval_nat_numeral less_Suc_eq)
  show ?thesis
    unfolding build_input_def five
    by (intro conjI exI[of _ "dv_columns example_table ! 0"] exI[of _ "dv_columns example_table ! 1"]) ((simp; fail) | code_simp)+
qed

lemma example_table_built:
  obtains b where "meta_build example_table = Ok b" "length b \<le> u64_max"
proof -
  have "case meta_build example_table of Ok b \<Rightarrow> length b = 138 | _ \<Rightarrow> False"
    by code_simp
  then show ?thesis using that by (cases "meta_build example_table") auto
qed

lemma example_table_cols: "field_cols example_table = [(''v'', Int8, dv_columns example_table ! 2)]"
  by code_simp

lemma example_table_creatable:
  "creatable example_backend (\<lambda>_. None) ''r'' 5 example_table \<lparr>do_max_parallelism = 3, do_compression = Zstd, do_chunk_target_rows = 2\<rparr>"
proof -
  have "data_view_column example_table ''sym'' = Some (dv_columns example_table ! 0)" by code_simp
  moreover have "\<exists>seg. cv_segments (dv_columns example_table ! 0) = [seg]" by (simp add: example_table_def example_input_def)
  moreover have "column_ok 5 (''v'', Int8, dv_columns example_table ! 2)"
    by (simp add: column_ok_def plain_name_def is_reserved_def RESERVED_FIELD_NAMES_def simple_name_def view_storable_def column_view_ok_def seg_fixed_def seg_ok_def
        validity_ok_def view_ok_def example_table_def example_input_def)
  ultimately show ?thesis unfolding creatable_def example_table_cols using example_backend_sane by simp
qed

theorem create_open_read_witness:
  "\<exists>fs' d d' sv tv v sch.
     create_dataset_from_view example_backend [''r/v'', ''r/.meta''] [1, 0] ''r'' example_table
       \<lparr>do_max_parallelism = 3, do_compression = Zstd, do_chunk_target_rows = 2\<rparr> (\<lambda>_. None) = (Ok (), fs') \<and>
     open_dataset [''r/v'', ''r/.meta''] 4 ''r'' Read fs' = (Ok d, fs') \<and>
     read_dataset example_backend 1 3 (Some [''v'']) (d, fs') =
       (Ok \<lparr>dv_schema = sch, dv_columns = [sv, tv, v], dv_length = 3\<rparr>, d', fs') \<and>
     (\<forall>k < 3. column_view_string_at sv k = (Ok (Some (if 1 + k < 2 then [65] else [66])) :: (core_error, _) res)) \<and>
     shown (view_cells v) = [None, Some (CBytes [7]), Some (CBytes [8])]"
proof -
  obtain b where b: "meta_build example_table = Ok b" "length b \<le> u64_max" by (rule example_table_built)
  have l: "lists_dataset [''r/v'', ''r/.meta''] ''r'' example_table"
    unfolding lists_dataset_def dom_view_table example_table_cols by code_simp
  have r: "(0 :: nat) < 3" "1 + 3 \<le> (5 :: nat)" "set [''v''] \<subseteq> dom (view_table example_table)"
    by (simp_all add: dom_view_table example_table_cols)
  have c: "map (\<lambda>c. slice 1 (1 + 3) (snd (the (view_table example_table c)))) (projected [''v'']) =
      [[None, Some (CBytes [7]), Some (CBytes [8])]]"
    unfolding view_table_def example_table_cols by code_simp
  from create_open_read[OF example_table_input example_sorted b example_table_creatable l r, of "[1, 0]" 4]
  obtain fs' d d' sv tv vs sch where R: "create_dataset_from_view example_backend [''r/v'', ''r/.meta''] [1, 0] ''r'' example_table
       \<lparr>do_max_parallelism = 3, do_compression = Zstd, do_chunk_target_rows = 2\<rparr> (\<lambda>_. None) = (Ok (), fs')"
     "open_dataset [''r/v'', ''r/.meta''] 4 ''r'' Read fs' = (Ok d, fs')"
     "read_dataset example_backend 1 3 (Some [''v'']) (d, fs') =
       (Ok \<lparr>dv_schema = sch, dv_columns = sv # tv # vs, dv_length = 3\<rparr>, d', fs')"
     "\<forall>k < 3. column_view_string_at sv k = (Ok (Some (if 1 + k < 2 then [65] else [66])) :: (core_error, _) res)"
     "map (\<lambda>v. shown (view_cells v)) vs = [[None, Some (CBytes [7]), Some (CBytes [8])]]"
    unfolding c by (elim exE conjE) (rule that)
  obtain v where v: "vs = [v]" using R(5) by (cases vs) auto
  show ?thesis using R(1-4) R(5) unfolding v by (intro exI conjI) (assumption | simp)+
qed

text \<open>A table that names a column twice: the second creation finds the file of the first.\<close>

definition doubled_table :: data_view where
  "doubled_table = example_table\<lparr>dv_schema := dv_schema example_table @ [\<lparr>fs_name = ''v'', fs_type = Int8\<rparr>],
     dv_columns := dv_columns example_table @ [dv_columns example_table ! 2]\<rparr>"

theorem failed_creation_removed_witness:
  "create_dataset_from_view example_backend [''r/v''] [] ''r'' doubled_table (default_dataset_options 1) (\<lambda>_. None) =
     (Err (AlreadyExists ''r/v''), \<lambda>_. None)"
proof -
  let ?c = "(''v'', Int8, dv_columns example_table ! 2) :: field_column"
  have cols: "field_cols doubled_table = [?c, ?c]" by code_simp
  have "case meta_build doubled_table of Ok b \<Rightarrow> True | _ \<Rightarrow> False" by code_simp
  then obtain b where b: "meta_build doubled_table = Ok b" by (cases "meta_build doubled_table") auto
  let ?fs1 = "[''r/.meta'' \<mapsto> b]"
  have col: "view_storable (dv_columns example_table ! 2)" "cv_length (dv_columns example_table ! 2) = 5"
    using example_table_creatable by (simp_all add: creatable_def column_ok_def example_table_cols)
  obtain rs where "compute_chunk_boundaries 5 (co_chunk_offsets default_options) = Ok rs"
    by (simp add: compute_chunk_boundaries_def default_options_def)
  then obtain bs where w: "create_field_file_from_view example_backend ''r/v'' (dv_columns example_table ! 2) default_options ?fs1 = (Ok (), ?fs1(''r/v'' \<mapsto> bs))"
    using view_created[OF col(1), where fs = ?fs1 and p = "''r/v''" and B = example_backend and opts = default_options] col(2)
    by (auto simp: default_options_def)
  have p: "column_path ''r'' ''v'' = ''r/v''" "path_join ''r'' META_FILE_NAME = ''r/.meta''" by code_simp+
  have "field_options (default_dataset_options 1) doubled_table = Ok default_options"
    by (simp add: field_options_def default_dataset_options_def)
  moreover have "data_view_column doubled_table ''sym'' = Some (dv_columns example_table ! 0)"
    "data_view_column doubled_table ''time'' = Some (dv_columns example_table ! 1)" by code_simp+
  moreover have "create_files example_backend [] ''r'' b 1 default_options [?c, ?c] (\<lambda>_. None) =
      (Err (AlreadyExists ''r/v''), ?fs1(''r/v'' \<mapsto> bs))"
    by (simp add: create_files_def write_new_meta_def create_column_def p io_simps w io_bind_def)
       (simp add: create_field_file_from_view_def io_simps io_exists_def io_bind_def)
  ultimately have e: "create_dataset_from_view example_backend [''r/v''] [] ''r'' doubled_table (default_dataset_options 1) (\<lambda>_. None) =
     (Err (AlreadyExists ''r/v''), snd (remove_dir_all ''r'' (?fs1(''r/v'' \<mapsto> bs))))"
    using b cols by (simp add: create_dataset_from_view_def io_bind_def io_lift_def io_on_err_def path_exists_def is_dir_def dir_files_def
        default_dataset_options_def)
  have "\<forall>c \<in> set (field_cols doubled_table). simple_name (fst c)" by (simp add: cols simple_name_def)
  from failed_creation_removed[OF e _ this] show ?thesis unfolding e by simp
qed

text \<open>The names of the columns are not validated: a leading dot becomes a leading slash, \<open>Path::join\<close> then
  drops the directory, and the column is written outside of it, where a failed creation leaves it.\<close>

theorem leading_dot_escapes:
  "column_path ''data/set'' ''.etc'' = ''/etc'' \<and> \<not> under ''data/set'' (column_path ''data/set'' ''.etc'')"
  by code_simp

end
