(* ===== verification/Dataset_Fields.thy ===== *)
theory Dataset_Fields
  imports Dataset_Create
begin

text \<open>
  Changing the fields of an open dataset (\<open>DatasetHandle\<close> of \<open>splayed-core/src/dataset.rs\<close>): creating,
  deleting, renaming, casting, compressing and decompressing a field, changing its header, replacing all the
  data, and the empty dataset. After each of them the schema is read again from the directory. On the table
  of the dataset the operations are updates of a map: the refinement lemmas say so for names without dots.
\<close>

subsection \<open>Initial values\<close>

datatype dataset_field_init = DI_AllNull | DI_Data column | DI_Stream chunk_reader

text \<open>\<open>LengthCheckReader\<close>: the rows are counted while the values pass; when the validity ends, a wrong count
  is an error.\<close>

definition stream_rows :: "(core_error, stream_values) res list \<Rightarrow> nat" where
  "stream_rows rs = sum_list (map (\<lambda>r. case r of Ok v \<Rightarrow> sv_rows v | _ \<Rightarrow> 0) rs)"

definition length_check_reader :: "nat \<Rightarrow> chunk_reader \<Rightarrow> chunk_reader" where
  "length_check_reader expected r = r\<lparr>rd_validity := rd_validity r @
     (if stream_rows (rd_values r) \<noteq> expected then [Err (Invalid ''stream rows'')] else [])\<rparr>"

definition checked_init :: "nat \<Rightarrow> data_type \<Rightarrow> dataset_field_init \<Rightarrow> (core_error, field_init) res" where
  "checked_init l data_type init = (case init of
       DI_AllNull \<Rightarrow> Ok (FI_Length l)
     | DI_Data col \<Rightarrow>
         if col_data_type col \<noteq> data_type then Err (Invalid ''field data type does not match requested'')
         else if column_length col \<noteq> l then Err (Invalid ''field data length must equal dataset logical length'')
         else Ok (FI_Data col)
     | DI_Stream reader \<Rightarrow> Ok (FI_Stream (length_check_reader l reader)))"

subsection \<open>The schema after a change\<close>

text \<open>Any error of the walk leaves the two columns of the index.\<close>

definition reload_schema :: "string list \<Rightarrow> unit ds" where
  "reload_schema listing = (\<lambda>(d, fs).
     case handle_time_type (ds_meta d) :: (core_error, time_type) res of
       Ok tt \<Rightarrow> (case build_schema listing (ds_root d) tt fs of
           (Ok s, fs') \<Rightarrow> (Ok (), d\<lparr>ds_schema := s\<rparr>, fs')
         | (Err _, fs') \<Rightarrow> (Ok (), d\<lparr>ds_schema := index_fields tt\<rparr>, fs')
         | (Panic, fs') \<Rightarrow> (Panic, d, fs'))
     | Err e \<Rightarrow> (Err e, d, fs)
     | Panic \<Rightarrow> (Panic, d, fs))"

definition field_exists :: "string \<Rightarrow> unit ds" where
  "field_exists name = ds_bind (ds_get (\<lambda>d. d)) (\<lambda>d.
     ds_lift (guard (schema_position (ds_schema d) name \<noteq> None) (NotFound (field_path d name))))"

subsection \<open>The operations\<close>

definition create_dataset_field ::
  "codec_backend \<Rightarrow> string list \<Rightarrow> string \<Rightarrow> data_type \<Rightarrow> dataset_field_init \<Rightarrow> create_options \<Rightarrow> unit ds" where
  "create_dataset_field B listing name data_type init options =
     ds_bind (ds_lift (validate_field_name name)) (\<lambda>_.
     ds_bind (ds_get (\<lambda>d. d)) (\<lambda>d.
     ds_bind (ds_lift (guard (schema_position (ds_schema d) name = None) (AlreadyExists (field_path d name)))) (\<lambda>_.
     ds_bind (ds_lift (checked_init (logical_length d) data_type init)) (\<lambda>i.
     ds_bind (ds_io (io_on_err (create_field_file B (field_path d name) data_type i options)
                       (io_try_remove (field_path d name)))) (\<lambda>_.
       reload_schema listing)))))"

definition delete_dataset_field :: "string list \<Rightarrow> string \<Rightarrow> unit ds" where
  "delete_dataset_field listing name =
     ds_bind (ds_lift (validate_field_name name)) (\<lambda>_.
     ds_bind (field_exists name) (\<lambda>_.
     ds_bind (ds_modify (cache_remove name)) (\<lambda>_.
     ds_bind (ds_get (\<lambda>d. d)) (\<lambda>d.
     ds_bind (ds_io (delete_field_file (field_path d name))) (\<lambda>_.
       reload_schema listing)))))"

definition rename_dataset_field :: "string list \<Rightarrow> string \<Rightarrow> string \<Rightarrow> unit ds" where
  "rename_dataset_field listing name new_name =
     ds_bind (ds_lift (validate_field_name new_name)) (\<lambda>_.
     ds_bind (field_exists name) (\<lambda>_.
     ds_bind (ds_get (\<lambda>d. d)) (\<lambda>d.
     ds_bind (ds_lift (guard (schema_position (ds_schema d) new_name = None) (AlreadyExists (field_path d new_name)))) (\<lambda>_.
     ds_bind (ds_modify (cache_remove name)) (\<lambda>_.
     ds_bind (ds_io (io_rename (field_path d name) (field_path d new_name))) (\<lambda>_.
       reload_schema listing))))))"

definition cached_update_header :: "string \<Rightarrow> field_header \<Rightarrow> unit ds" where
  "cached_update_header name header = ds_bind (ds_get (\<lambda>d. map_of (ds_fields d) name)) (\<lambda>c.
     case c of None \<Rightarrow> ds_lift Panic
     | Some h \<Rightarrow> ds_bind (ds_io (update_header h header)) (\<lambda>h'. ds_modify (cache_insert name h')))"

definition update_dataset_field_header :: "codec_backend \<Rightarrow> string \<Rightarrow> field_header \<Rightarrow> unit ds" where
  "update_dataset_field_header B name header =
     ds_bind (field_exists name) (\<lambda>_.
     ds_bind (ensure_field B name) (\<lambda>_. cached_update_header name header))"

text \<open>The name of the temporary file of a cast has the process and the time in it; it is a parameter.\<close>

definition cast_dataset_field ::
  "codec_backend \<Rightarrow> string list \<Rightarrow> string \<Rightarrow> string \<Rightarrow> data_type \<Rightarrow> unit ds" where
  "cast_dataset_field B listing tmp name target_type =
     ds_bind (ds_lift (validate_field_name name)) (\<lambda>_.
     ds_bind (field_exists name) (\<lambda>_.
     ds_bind (ds_modify (cache_remove name)) (\<lambda>_.
     ds_bind (ds_get (\<lambda>d. d)) (\<lambda>d.
     ds_bind (ds_io (cast_field_file B (field_path d name) tmp target_type)) (\<lambda>_.
       reload_schema listing)))))"

text \<open>The row cap is positive, so the plan always returns.\<close>

definition compress_dataset_field :: "codec_backend \<Rightarrow> string \<Rightarrow> unit ds" where
  "compress_dataset_field B name =
     ds_bind (field_exists name) (\<lambda>_.
     ds_bind (ds_modify (cache_remove name)) (\<lambda>_.
     ds_bind (ds_get (\<lambda>d. d)) (\<lambda>d.
     ds_bind (ds_lift (case sym_aligned_chunk_offsets (ds_meta d) 8 CHUNK_ROW_CAP of None \<Rightarrow> Panic | Some r \<Rightarrow> r)) (\<lambda>offsets.
       ds_io (compress_field_file B (field_path d name) (Some offsets))))))"

definition decompress_dataset_field :: "codec_backend \<Rightarrow> string \<Rightarrow> unit ds" where
  "decompress_dataset_field B name =
     ds_bind (field_exists name) (\<lambda>_.
     ds_bind (ds_modify (cache_remove name)) (\<lambda>_.
     ds_bind (ds_get (\<lambda>d. d)) (\<lambda>d. ds_io (decompress_field_file B (field_path d name)))))"

definition dataset_field_is_chunked :: "dataset_handle \<Rightarrow> string \<Rightarrow> bool io" where
  "dataset_field_is_chunked d name =
     io_bind (io_read_exact (field_path d name) HEADER_SIZE) (\<lambda>head.
     io_bind (io_lift (fmt_err (field_header_from_bytes head))) (\<lambda>header. io_ret (is_chunked header)))"

subsection \<open>Replacing all data\<close>

definition update_column :: "codec_backend \<Rightarrow> field_schema \<times> column_view \<Rightarrow> unit ds" where
  "update_column B fc = (case fc of (field, col) \<Rightarrow>
     if is_reserved (fs_name field) then ds_ret ()
     else ds_bind (ds_get (\<lambda>d. field_path d (fs_name field))) (\<lambda>path. ds_io (
          io_bind (io_exists path) (\<lambda>ex.
          if ex then io_bind (open_field_file B path Write) (\<lambda>fh.
                     io_bind (update_field B fh col) (\<lambda>fh'. close_field_handle B fh'))
          else create_field_file_from_view B path col default_options))))"

definition drop_stale :: "data_view \<Rightarrow> field_schema \<Rightarrow> unit ds" where
  "drop_stale data f = (if is_reserved (fs_name f) \<or> data_view_column data (fs_name f) \<noteq> None then ds_ret ()
     else ds_bind (ds_get (\<lambda>d. field_path d (fs_name f))) (\<lambda>path. ds_io (io_try_remove path)))"

definition update_dataset :: "codec_backend \<Rightarrow> string list \<Rightarrow> data_view \<Rightarrow> unit ds" where
  "update_dataset B listing data =
     ds_bind (ds_get (\<lambda>d. d)) (\<lambda>d.
     ds_bind (ds_lift (require_write (ds_mode d))) (\<lambda>_.
     ds_bind (ds_lift (guard (data_view_column data ''sym'' \<noteq> None \<and> data_view_column data ''time'' \<noteq> None)
                (Invalid ''update data requires sym and time columns''))) (\<lambda>_.
     ds_bind (ds_io (update_index (ds_meta d) data)) (\<lambda>meta.
     ds_bind (ds_modify (\<lambda>d. d\<lparr>ds_meta := meta, ds_fields := []\<rparr>)) (\<lambda>_.
     ds_bind (ds_each (update_column B) (zip (dv_schema data) (dv_columns data))) (\<lambda>_.
     ds_bind (ds_each (drop_stale data) (ds_schema d)) (\<lambda>_.
       reload_schema listing)))))))"

subsection \<open>The empty dataset\<close>

definition create_field :: "codec_backend \<Rightarrow> string \<Rightarrow> data_type \<Rightarrow> nat option \<Rightarrow> create_options option \<Rightarrow> unit io" where
  "create_field B path field_type rows options =
     create_field_file B path field_type (FI_Length (case rows of None \<Rightarrow> 0 | Some n \<Rightarrow> n))
       (case options of None \<Rightarrow> default_options | Some o' \<Rightarrow> o')"

definition schema_time_type :: "schema \<Rightarrow> (core_error, time_type) res" where
  "schema_time_type s = (case find (\<lambda>f. fs_name f = ''time'') s of
       None \<Rightarrow> Err (Invalid ''schema must contain 'time' column'')
     | Some f \<Rightarrow> (case fs_type f of
          Date32 \<Rightarrow> Ok TT_Date32
        | TimestampUs \<Rightarrow> Ok TT_TimestampUs
        | _ \<Rightarrow> Err (Invalid ''unsupported time column type'')))"

definition create_dataset :: "codec_backend \<Rightarrow> string list \<Rightarrow> nat \<Rightarrow> string \<Rightarrow> schema \<Rightarrow> dataset_handle io" where
  "create_dataset B listing cores path s = (\<lambda>fs.
     if fs path \<noteq> None then (Err (EIo ''not a directory''), fs)
     else if is_dir listing path fs then (Err (AlreadyExists path), fs)
     else io_bind (io_lift (schema_time_type s)) (\<lambda>tt.
          io_bind (create_index (path_join path META_FILE_NAME) tt) (\<lambda>_.
          io_bind (io_each (\<lambda>f. if is_reserved (fs_name f) then io_ret ()
              else create_field B (column_path path (fs_name f)) (fs_type f) None None) s) (\<lambda>_.
            open_dataset listing cores path Write))) fs)"

definition create_dataset_index :: "string \<Rightarrow> data_view \<Rightarrow> unit io" where
  "create_dataset_index path data = create_meta_file (path_join path META_FILE_NAME) data"

definition data_view_to_owned_data :: "data_view \<Rightarrow> (core_error, data) res" where
  "data_view_to_owned_data view =
     rbind (mapM column_view_to_owned_column (dv_columns view)) (\<lambda>cols. fmt_err (data_new (dv_schema view) cols))"

subsection \<open>Changes of a directory\<close>

lemma dir_shows_upd:
  assumes D: "dir_shows B listing fs root T" and x: "plain_name x" "path_join root x \<in> set listing"
    and f: "file_shows B fs' (path_join root x) v"
    and q: "\<And>q y. under root q \<Longrightarrow> q \<noteq> path_join root x \<Longrightarrow> walk_file root q = Some y \<Longrightarrow> fs' q = fs q"
  shows "dir_shows B listing fs' root (T(x \<mapsto> v))"
proof -
  have "file_shows B fs' (path_join root y) w" if "y \<noteq> x" "T y = Some w" for y w
  proof -
    have "plain_name y" using dir_showsD(3)[OF D, of y] that(2) by blast
    then have "fs' (path_join root y) = fs (path_join root y)"
      using q[OF _ _ walk_column[OF plain_simple]] that(1) by simp
    then show ?thesis using dir_showsD(6)[OF D that(2)] by (simp add: file_shows_def)
  qed
  moreover have "p \<in> path_join root ` dom (T(x \<mapsto> v))" if p: "under root p" "fs' p \<noteq> None" "walk_file root p \<noteq> None" for p
  proof (cases "p = path_join root x")
    case False
    obtain y where y: "walk_file root p = Some y" using p(3) by blast
    have "fs p \<noteq> None" using q[OF p(1) False y] p(2) by simp
    from dir_showsD(5)[OF D p(1) this p(3)] show ?thesis by auto
  qed simp
  ultimately show ?thesis
    using dir_showsD(1-4)[OF D] x f unfolding dir_shows_def by auto
qed

lemma dir_shows_del:
  assumes D: "dir_shows B listing fs root T" and q: "\<And>q. under root q \<Longrightarrow> fs' q = (if q = path_join root x then None else fs q)"
  shows "dir_shows B listing fs' root (T(x := None))"
proof -
  have "file_shows B fs' (path_join root y) w" if "y \<noteq> x" "T y = Some w" for y w
    using dir_showsD(6)[OF D that(2)] q[of "path_join root y"] that(1) by (simp add: file_shows_def)
  moreover have "p \<in> path_join root ` dom (T(x := None))" if p: "under root p" "fs' p \<noteq> None" "walk_file root p \<noteq> None" for p
  proof -
    have "p \<noteq> path_join root x" "fs p \<noteq> None" using q[OF p(1)] p(2) by (auto split: if_splits)
    then show ?thesis using dir_showsD(5)[OF D p(1) _ p(3)] by auto
  qed
  ultimately show ?thesis
    using dir_showsD(1-4)[OF D] unfolding dir_shows_def by auto
qed

text \<open>Temporary files are not seen.\<close>

lemma walk_tmp: "CHR ''/'' \<notin> set y \<Longrightarrow> walk_file root (path_join root (y @ ''.tmp'')) = None"
  by (simp add: walk_file_def Let_def split_on_simple hidden_def)

lemma walk_tmp_path: "plain_name x \<Longrightarrow> walk_file root (tmp_path (path_join root x)) = None"
  using walk_tmp[of x root] by (simp add: plain_name_def simple_name_def tmp_path_def path_join_def)

lemma reload_shows:
  assumes "meta_time_type (mt_header (ds_meta d)) = Ok tt" "dir_shows B listing fs (ds_root d) T"
  shows "reload_schema listing (d, fs) = (Ok (), d\<lparr>ds_schema := table_schema tt T\<rparr>, fs)"
  using assms build_schema_table[OF assms(2)] by (simp add: reload_schema_def handle_time_type_def)

text \<open>A handle after a change of its directory: the cache has lost at most the names that changed.\<close>

lemma dataset_shows_step:
  assumes D: "dataset_shows B listing fs d T" and D': "dir_shows B listing fs' (ds_root d) T'"
    and n: "\<And>x v. T' x = Some v \<Longrightarrow> T x \<noteq> T' x \<Longrightarrow> length (snd v) = logical_length d"
    and m: "meta_time_type (mt_header (ds_meta d)) = Ok tt"
    and c: "\<And>x h. map_of cache x = Some h \<Longrightarrow> map_of (ds_fields d) x = Some h \<and> T' x = T x"
  shows "dataset_shows B listing fs' (d\<lparr>ds_fields := cache, ds_schema := table_schema tt T'\<rparr>) T'"
proof -
  have "length (snd (the (T' x))) = logical_length d" if "x \<in> dom T'" for x
  proof -
    obtain v where v: "T' x = Some v" using \<open>x \<in> dom T'\<close> by blast
    then show ?thesis using n[OF v] dataset_showsD(2)[OF D, of x v] by (cases "T x = T' x") auto
  qed
  moreover have "x \<in> dom T' \<and> fd_path h = field_path d x \<and>
      (\<exists>cells. handle_shows h (fst (the (T' x))) cells \<and> shown cells = snd (the (T' x)))" if "map_of cache x = Some h" for x h
    using dataset_showsD(4)[OF D conjunct1[OF c[OF that]]] conjunct2[OF c[OF that]] by (auto simp: domIff)
  ultimately show ?thesis using D' m
    by (simp add: dataset_shows_def logical_length_def field_path_def)
qed

lemma cache_remove_simps [simp]:
  "ds_root (cache_remove x d) = ds_root d" "ds_meta (cache_remove x d) = ds_meta d" "ds_schema (cache_remove x d) = ds_schema d"
  "ds_mode (cache_remove x d) = ds_mode d" "logical_length (cache_remove x d) = logical_length d" "field_path (cache_remove x d) y = field_path d y"
  by (simp_all add: cache_remove_def logical_length_def field_path_def)

lemma map_of_cache_remove: "map_of (ds_fields (cache_remove x d)) y = (if y = x then None else map_of (ds_fields d) y)"
  by (simp add: cache_remove_def delete_conv)

lemma field_exists_table:
  assumes D: "dataset_shows B listing fs d T" and x: "plain_name x"
  shows "field_exists x (d, fs') = (if x \<in> dom T then (Ok (), d, fs') else (Err (NotFound (field_path d x)), d, fs'))"
proof -
  obtain tt where "ds_schema d = table_schema tt T" using dataset_showsD(3)[OF D] by blast
  then have "schema_position (ds_schema d) x \<noteq> None \<longleftrightarrow> x \<in> dom T"
    using position_table[OF dir_showsD(1)[OF dataset_showsD(1)[OF D]], of tt x] x by (simp add: plain_name_def)
  then show ?thesis by (simp add: field_exists_def ds_bind_def ds_get_def ds_lift_def guard_def)
qed

lemma plain_valid: "plain_name x \<Longrightarrow> CHR 0x5C \<notin> set x \<Longrightarrow> validate_field_name x = Ok ()"
  using simple_hd[of x] by (auto simp: validate_field_name_def guard_def plain_name_def simple_name_def)

subsection \<open>New fields\<close>

definition init_rows :: "nat \<Rightarrow> dataset_field_init \<Rightarrow> cell_value option list" where
  "init_rows n init = (case init of DI_Data col \<Rightarrow> shown (col_cells col) | _ \<Rightarrow> replicate n None)"

definition init_fits :: "codec_backend \<Rightarrow> nat \<Rightarrow> data_type \<Rightarrow> create_options \<Rightarrow> dataset_field_init \<Rightarrow> bool" where
  "init_fits B n dt opts init \<longleftrightarrow> 0 < n \<and> n \<le> 2 ^ 26 \<and> (co_compression opts \<noteq> CNone \<longrightarrow> backend_sane B (co_compression opts)) \<and>
     (\<exists>rs. compute_chunk_boundaries n (co_chunk_offsets opts) = Ok rs) \<and>
     (case init of DI_AllNull \<Rightarrow> True
      | DI_Data col \<Rightarrow> col_ok col \<and> col_data_type col = dt \<and> column_length col = n
      | DI_Stream _ \<Rightarrow> False)"

lemma shown_null_cells: "shown (null_cells dt n) = replicate n None"
  by (simp add: shown_def null_cells_def)

lemma length_init_rows: "init_fits B n dt opts init \<Longrightarrow> length (init_rows n init) = n"
  by (auto simp: init_fits_def init_rows_def col_cells_def split: dataset_field_init.splits)

lemma init_created:
  assumes f: "init_fits B n dt opts init" and p: "fs p = None"
  shows "\<exists>i bs. checked_init n dt init = Ok i \<and> create_field_file B p dt i opts fs = (Ok (), fs(p \<mapsto> bs)) \<and>
    file_shows B (fs(p \<mapsto> bs)) p (dt, init_rows n init)"
proof (cases init)
  case DI_AllNull
  have n: "0 < n" "n \<le> u32_max" using f by (simp_all add: init_fits_def)
  obtain rs where rs: "compute_chunk_boundaries n (co_chunk_offsets opts) = Ok rs" using f by (auto simp: init_fits_def)
  have "\<exists>bs. create_field_file B p dt (FI_Length n) opts fs = (Ok (), fs(p \<mapsto> bs)) \<and> field_holds B bs dt (null_cells dt n)"
  proof (cases "co_compression opts = CNone \<or> dt = Utf8")
    case True
    then show ?thesis using plain_length_created[where fs = fs and p = p and dt = dt and B = B, OF p n] p
      by (auto simp: create_field_file_def io_bind_def io_exists_def)
  next
    case False
    then show ?thesis using chunked_null_created[where fs = fs and p = p and dt = dt and B = B and c = "co_compression opts", OF p n] p rs
      by (auto simp: create_field_file_def create_field_file_chunked_def io_bind_def io_exists_def io_lift_def)
  qed
  then obtain bs where bs: "create_field_file B p dt (FI_Length n) opts fs = (Ok (), fs(p \<mapsto> bs))" "field_holds B bs dt (null_cells dt n)"
    by blast
  have "file_shows B (fs(p \<mapsto> bs)) p (dt, replicate n None)"
    unfolding file_shows_def using bs(2) by (intro exI[of _ bs] exI[of _ "null_cells dt n"]) (simp add: shown_null_cells)
  then show ?thesis using bs(1) by (auto simp: DI_AllNull checked_init_def init_rows_def)
next
  case (DI_Data col)
  then have c: "col_ok col" "col_data_type col = dt" "column_length col = n" using f by (simp_all add: init_fits_def)
  obtain rs where "compute_chunk_boundaries (column_length col) (co_chunk_offsets opts) = Ok rs" using f c(3) by (auto simp: init_fits_def)
  from created_holds[where fs = fs and p = p and B = B, OF p c(1) _ _ this] obtain bs where
    "create_field_file B p dt (FI_Data col) opts fs = (Ok (), fs(p \<mapsto> bs))" "field_holds B bs dt (col_cells col)"
    using f c by (auto simp: init_fits_def)
  then show ?thesis using c by (auto simp: DI_Data checked_init_def init_rows_def file_shows_def)
qed (use f in \<open>simp add: init_fits_def\<close>)

lemma path_free:
  assumes "dir_shows B listing fs root T" "plain_name x" "x \<notin> dom T"
  shows "fs (path_join root x) = None"
  using dir_showsD(5)[OF assms(1), of "path_join root x"] walk_column[OF plain_simple[OF assms(2)], of root] assms(3) by auto

lemma create_field_eq:
  assumes D: "dataset_shows B listing fs d T" and x: "plain_name x" "CHR 0x5C \<notin> set x" "x \<notin> dom T"
    and l: "path_join (ds_root d) x \<in> set listing" and f: "init_fits B (logical_length d) dt opts init"
  shows "\<exists>d' bs. create_dataset_field B listing x dt init opts (d, fs) = (Ok (), d', fs(field_path d x \<mapsto> bs)) \<and>
    dataset_shows B listing (fs(field_path d x \<mapsto> bs)) d' (T(x \<mapsto> (dt, init_rows (logical_length d) init))) \<and>
    ds_root d' = ds_root d \<and> logical_length d' = logical_length d \<and> ds_mode d' = ds_mode d"
proof -
  let ?p = "path_join (ds_root d) x" and ?v = "(dt, init_rows (logical_length d) init)"
  note dir = dataset_showsD(1)[OF D]
  obtain tt where tt: "meta_time_type (mt_header (ds_meta d)) = Ok tt" "ds_schema d = table_schema tt T"
    using dataset_showsD(3)[OF D] by blast
  have fp: "field_path d x = ?p" by (rule field_path_plain[OF x(1)])
  obtain i bs where i: "checked_init (logical_length d) dt init = Ok i"
    "create_field_file B ?p dt i opts fs = (Ok (), fs(?p \<mapsto> bs))" "file_shows B (fs(?p \<mapsto> bs)) ?p ?v"
    using init_created[where fs = fs, OF f path_free[OF dir x(1,3)]] by blast
  have new: "dir_shows B listing (fs(?p \<mapsto> bs)) (ds_root d) (T(x \<mapsto> ?v))"
    by (rule dir_shows_upd[OF dir x(1) l i(3)]) simp
  have pos: "schema_position (ds_schema d) x = None"
    using position_table[OF dir_showsD(1)[OF dir], of tt x] tt(2) x by (simp add: plain_name_def)
  have "create_dataset_field B listing x dt init opts (d, fs) = reload_schema listing (d, fs(?p \<mapsto> bs))"
    using plain_valid[OF x(1,2)] pos i(1,2)
    by (simp add: create_dataset_field_def ds_bind_def ds_lift_def ds_get_def guard_def ds_io_def io_on_err_def fp)
  also have "\<dots> = (Ok (), d\<lparr>ds_schema := table_schema tt (T(x \<mapsto> ?v))\<rparr>, fs(?p \<mapsto> bs))"
    by (rule reload_shows[OF tt(1) new])
  finally have run: "create_dataset_field B listing x dt init opts (d, fs) =
    (Ok (), d\<lparr>ds_schema := table_schema tt (T(x \<mapsto> ?v))\<rparr>, fs(?p \<mapsto> bs))" .
  have "dataset_shows B listing (fs(?p \<mapsto> bs)) (d\<lparr>ds_fields := ds_fields d, ds_schema := table_schema tt (T(x \<mapsto> ?v))\<rparr>) (T(x \<mapsto> ?v))"
  proof (rule dataset_shows_step[OF D new _ tt(1)])
    show "length (snd v) = logical_length d" if "(T(x \<mapsto> ?v)) y = Some v" "T y \<noteq> (T(x \<mapsto> ?v)) y" for y v
      using that length_init_rows[OF f] by (auto split: if_splits)
    show "map_of (ds_fields d) y = Some h \<and> (T(x \<mapsto> ?v)) y = T y" if "map_of (ds_fields d) y = Some h" for y h
      using dataset_showsD(4)[OF D that] x(3) that by auto
  qed
  then show ?thesis using run unfolding fp
    by (intro exI[of _ "d\<lparr>ds_schema := table_schema tt (T(x \<mapsto> ?v))\<rparr>"] exI[of _ bs]) (simp add: logical_length_def)
qed

subsection \<open>Deleting and renaming\<close>

lemma delete_field_eq:
  assumes D: "dataset_shows B listing fs d T" and x: "x \<in> dom T" "CHR 0x5C \<notin> set x"
  shows "\<exists>d'. delete_dataset_field listing x (d, fs) = (Ok (), d', fs(field_path d x := None)) \<and>
    dataset_shows B listing (fs(field_path d x := None)) d' (T(x := None)) \<and>
    ds_root d' = ds_root d \<and> logical_length d' = logical_length d \<and> ds_mode d' = ds_mode d"
proof -
  let ?p = "path_join (ds_root d) x" and ?d = "cache_remove x d"
  note dir = dataset_showsD(1)[OF D]
  have pl: "plain_name x" by (rule dir_showsD(3)[OF dir x(1)])
  obtain tt where tt: "meta_time_type (mt_header (ds_meta d)) = Ok tt" "ds_schema d = table_schema tt T"
    using dataset_showsD(3)[OF D] by blast
  have fp: "field_path d x = ?p" by (rule field_path_plain[OF pl])
  obtain v where v: "T x = Some v" using x(1) by blast
  then obtain bs where bs: "fs ?p = Some bs" using dir_showsD(6)[OF dir v] by (auto simp: file_shows_def)
  have new: "dir_shows B listing (fs(?p := None)) (ds_root d) (T(x := None))"
    by (rule dir_shows_del[OF dir]) simp
  have "delete_dataset_field listing x (d, fs) = reload_schema listing (?d, fs(?p := None))"
    using plain_valid[OF pl x(2)] x(1) bs
    by (simp add: delete_dataset_field_def ds_bind_def ds_lift_def ds_get_def ds_io_def ds_modify_def delete_field_file_def io_remove_def fp field_exists_table[OF D pl])
  also have "\<dots> = (Ok (), ?d\<lparr>ds_schema := table_schema tt (T(x := None))\<rparr>, fs(?p := None))"
    by (rule reload_shows) (use tt(1) new in simp_all)
  finally have run: "delete_dataset_field listing x (d, fs) = (Ok (), ?d\<lparr>ds_schema := table_schema tt (T(x := None))\<rparr>, fs(?p := None))" .
  have "dataset_shows B listing (fs(?p := None)) (d\<lparr>ds_fields := ds_fields ?d, ds_schema := table_schema tt (T(x := None))\<rparr>) (T(x := None))"
  proof (rule dataset_shows_step[OF D new _ tt(1)])
    show "length (snd w) = logical_length d" if "(T(x := None)) y = Some w" "T y \<noteq> (T(x := None)) y" for y w
      using that by (auto split: if_splits)
    show "map_of (ds_fields d) y = Some h \<and> (T(x := None)) y = T y" if "map_of (ds_fields ?d) y = Some h" for y h
      using that by (auto simp: map_of_cache_remove split: if_splits)
  qed
  moreover have "?d\<lparr>ds_schema := table_schema tt (T(x := None))\<rparr> = d\<lparr>ds_fields := ds_fields ?d, ds_schema := table_schema tt (T(x := None))\<rparr>"
    by (simp add: cache_remove_def)
  ultimately show ?thesis using run unfolding fp
    by (intro exI[of _ "?d\<lparr>ds_schema := table_schema tt (T(x := None))\<rparr>"]) (simp add: logical_length_def)
qed

lemma rename_field_eq:
  assumes D: "dataset_shows B listing fs d T" and x: "T x = Some v"
    and y: "plain_name y" "CHR 0x5C \<notin> set y" "y \<notin> dom T" "path_join (ds_root d) y \<in> set listing"
  shows "\<exists>d' fs'. rename_dataset_field listing x y (d, fs) = (Ok (), d', fs') \<and> dataset_shows B listing fs' d' (T(x := None, y \<mapsto> v)) \<and>
    fs' = (fs(field_path d x := None))(field_path d y := fs (field_path d x)) \<and>
    ds_root d' = ds_root d \<and> logical_length d' = logical_length d \<and> ds_mode d' = ds_mode d"
proof -
  let ?p = "path_join (ds_root d) x" and ?q = "path_join (ds_root d) y" and ?d = "cache_remove x d" and ?T = "T(x := None, y \<mapsto> v)"
  note dir = dataset_showsD(1)[OF D]
  have xd: "x \<in> dom T" using x by blast
  have pl: "plain_name x" by (rule dir_showsD(3)[OF dir xd])
  obtain tt where tt: "meta_time_type (mt_header (ds_meta d)) = Ok tt" "ds_schema d = table_schema tt T"
    using dataset_showsD(3)[OF D] by blast
  have fp: "field_path d x = ?p" "field_path d y = ?q" by (rule field_path_plain[OF pl], rule field_path_plain[OF y(1)])
  have sh: "file_shows B fs ?p v" by (rule dir_showsD(6)[OF dir x])
  then obtain bs where bs: "fs ?p = Some bs" by (auto simp: file_shows_def)
  let ?fs = "(fs(?p := None))(?q \<mapsto> bs)"
  have mid: "dir_shows B listing (fs(?p := None)) (ds_root d) (T(x := None))"
    by (rule dir_shows_del[OF dir]) simp
  have "file_shows B ?fs ?q v" using sh bs by (auto simp: file_shows_def)
  then have new: "dir_shows B listing ?fs (ds_root d) ?T"
    using dir_shows_upd[OF mid y(1,4), of ?fs v] by simp
  have pos: "schema_position (ds_schema d) y = None"
    using position_table[OF dir_showsD(1)[OF dir], of tt y] tt(2) y by (simp add: plain_name_def)
  have "rename_dataset_field listing x y (d, fs) = reload_schema listing (?d, ?fs)"
    using plain_valid[OF y(1,2)] xd bs pos
    by (simp add: rename_dataset_field_def ds_bind_def ds_lift_def ds_get_def guard_def ds_io_def ds_modify_def io_rename_def fp
        field_exists_table[OF D pl])
  also have "\<dots> = (Ok (), ?d\<lparr>ds_schema := table_schema tt ?T\<rparr>, ?fs)"
    by (rule reload_shows) (use tt(1) new in simp_all)
  finally have run: "rename_dataset_field listing x y (d, fs) = (Ok (), ?d\<lparr>ds_schema := table_schema tt ?T\<rparr>, ?fs)" .
  have "dataset_shows B listing ?fs (d\<lparr>ds_fields := ds_fields ?d, ds_schema := table_schema tt ?T\<rparr>) ?T"
  proof (rule dataset_shows_step[OF D new _ tt(1)])
    show "length (snd w) = logical_length d" if "?T z = Some w" "T z \<noteq> ?T z" for z w
      using that dataset_showsD(2)[OF D x] by (auto split: if_splits)
    show "map_of (ds_fields d) z = Some h \<and> ?T z = T z" if "map_of (ds_fields ?d) z = Some h" for z h
    proof -
      have "z \<noteq> x" "map_of (ds_fields d) z = Some h" using that by (auto simp: map_of_cache_remove split: if_splits)
      then show ?thesis using dataset_showsD(4)[OF D, of z h] y(3) by auto
    qed
  qed
  moreover have "?d\<lparr>ds_schema := table_schema tt ?T\<rparr> = d\<lparr>ds_fields := ds_fields ?d, ds_schema := table_schema tt ?T\<rparr>"
    by (simp add: cache_remove_def)
  ultimately show ?thesis using run bs unfolding fp
    by (intro exI[of _ "?d\<lparr>ds_schema := table_schema tt ?T\<rparr>"] exI[of _ ?fs]) (simp add: logical_length_def)
qed

subsection \<open>Rewriting a field\<close>

lemma field_opened:
  assumes D: "dataset_shows B listing fs d T" and x: "T x = Some v" and op: "open_field_file B (field_path d x) Read fs = (Ok h, fs)"
  shows "\<exists>src. fd_ok h src \<and> src_type src = fst v \<and> fd_row_count h = logical_length d \<and>
    shown (source_cells src (fd_row_count h)) = snd v"
proof -
  note dir = dataset_showsD(1)[OF D]
  have "x \<in> dom T" using x by blast
  from field_path_plain[OF dir_showsD(3)[OF dir this]] have fp: "field_path d x = path_join (ds_root d) x" .
  obtain bs cells where f: "fs (path_join (ds_root d) x) = Some bs" "field_holds B bs (fst v) cells" "shown cells = snd v"
    using dir_showsD(6)[OF dir x] by (auto simp: file_shows_def)
  then obtain h' src where h': "open_field_file B (path_join (ds_root d) x) Read fs = (Ok h', fs)" "fd_ok h' src" "src_type src = fst v"
    "fd_row_count h' = length cells" "source_cells src (length cells) = cells" unfolding field_holds_def by blast
  have "h' = h" using h'(1) op fp by simp
  moreover have "length cells = logical_length d" using dataset_showsD(2)[OF D x] f(3) length_shown[of cells] by simp
  ultimately show ?thesis using h' f(3) by (intro exI[of _ src]) simp
qed

text \<open>The file of one field is replaced by one that shows other rows; its cached handle is gone.\<close>

lemma rewritten_shows:
  assumes D: "dataset_shows B listing fs d T" and x: "x \<in> dom T" and f: "file_shows B fs' (field_path d x) v"
    and q: "\<And>q y. under (ds_root d) q \<Longrightarrow> q \<noteq> field_path d x \<Longrightarrow> walk_file (ds_root d) q = Some y \<Longrightarrow> fs' q = fs q"
    and n: "length (snd v) = logical_length d" and tt: "meta_time_type (mt_header (ds_meta d)) = Ok tt"
  shows "dir_shows B listing fs' (ds_root d) (T(x \<mapsto> v))"
    "dataset_shows B listing fs' (cache_remove x d\<lparr>ds_schema := table_schema tt (T(x \<mapsto> v))\<rparr>) (T(x \<mapsto> v))"
proof -
  note dir = dataset_showsD(1)[OF D]
  have pl: "plain_name x" by (rule dir_showsD(3)[OF dir x])
  note fp = field_path_plain[OF pl, of d]
  show new: "dir_shows B listing fs' (ds_root d) (T(x \<mapsto> v))"
    by (rule dir_shows_upd[OF dir pl dir_showsD(4)[OF dir x]]) (use f q fp in simp_all)
  have "dataset_shows B listing fs' (d\<lparr>ds_fields := ds_fields (cache_remove x d), ds_schema := table_schema tt (T(x \<mapsto> v))\<rparr>) (T(x \<mapsto> v))"
  proof (rule dataset_shows_step[OF D new _ tt])
    show "length (snd w) = logical_length d" if "(T(x \<mapsto> v)) y = Some w" "T y \<noteq> (T(x \<mapsto> v)) y" for y w
      using that n by (auto split: if_splits)
    show "map_of (ds_fields d) y = Some h \<and> (T(x \<mapsto> v)) y = T y" if "map_of (ds_fields (cache_remove x d)) y = Some h" for y h
      using that by (auto simp: map_of_cache_remove split: if_splits)
  qed
  then show "dataset_shows B listing fs' (cache_remove x d\<lparr>ds_schema := table_schema tt (T(x \<mapsto> v))\<rparr>) (T(x \<mapsto> v))"
    by (simp add: cache_remove_def)
qed

lemma recompressed:
  assumes D: "dataset_shows B listing fs d T" and x: "T x = Some v" and f: "file_shows B (fs(tmp_path (field_path d x) := None, field_path d x \<mapsto> bs)) (field_path d x) v"
  shows "dataset_shows B listing (fs(tmp_path (field_path d x) := None, field_path d x \<mapsto> bs)) (cache_remove x d) T"
proof -
  obtain tt where tt: "meta_time_type (mt_header (ds_meta d)) = Ok tt" "ds_schema d = table_schema tt T"
    using dataset_showsD(3)[OF D] by blast
  have xd: "x \<in> dom T" using x by blast
  note pl = dir_showsD(3)[OF dataset_showsD(1)[OF D] xd]
  have T: "T(x \<mapsto> v) = T" using x by (simp add: fun_upd_idem)
  have "cache_remove x d\<lparr>ds_schema := table_schema tt T\<rparr> = cache_remove x d" using tt(2) by (simp add: cache_remove_def)
  moreover have "dataset_shows B listing (fs(tmp_path (field_path d x) := None, field_path d x \<mapsto> bs))
      (cache_remove x d\<lparr>ds_schema := table_schema tt (T(x \<mapsto> v))\<rparr>) (T(x \<mapsto> v))"
    by (rule rewritten_shows(2)[OF D xd f _ dataset_showsD(2)[OF D x] tt(1)])
       (use walk_tmp_path[OF pl, of "ds_root d"] in \<open>auto simp: field_path_plain[OF pl]\<close>)
  ultimately show ?thesis unfolding T by simp
qed

lemma decompress_field_eq:
  assumes D: "dataset_shows B listing fs d T" and x: "T x = Some v" and op: "open_field_file B (field_path d x) Read fs = (Ok h, fs)"
    and c: "fd_is_chunked h" "fst v \<noteq> Utf8" "0 < logical_length d"
  shows "\<exists>fs'. decompress_dataset_field B x (d, fs) = (Ok (), cache_remove x d, fs') \<and> dataset_shows B listing fs' (cache_remove x d) T"
proof -
  obtain src where src: "fd_ok h src" "src_type src = fst v" "fd_row_count h = logical_length d"
    "shown (source_cells src (fd_row_count h)) = snd v" using field_opened[OF D x op] by blast
  have xd: "x \<in> dom T" using x by blast
  note pl = dir_showsD(3)[OF dataset_showsD(1)[OF D] xd]
  have "src_type src \<noteq> Utf8" "0 < fd_row_count h" using src c by simp_all
  from decompress_eq[OF op c(1) src(1) this] obtain bs where bs:
    "decompress_field_file B (field_path d x) fs = (Ok (), fs(tmp_path (field_path d x) := None, field_path d x \<mapsto> bs))"
    "field_holds B bs (fst v) (source_cells src (fd_row_count h))" using src(2) by auto
  have "file_shows B (fs(tmp_path (field_path d x) := None, field_path d x \<mapsto> bs)) (field_path d x) v"
    using bs(2) src(4) by (auto simp: file_shows_def)
  from recompressed[OF D x this] show ?thesis using bs(1) xd
    by (simp add: decompress_dataset_field_def ds_bind_def field_exists_table[OF D pl] ds_modify_def ds_get_def ds_io_def)
qed

lemma compress_field_eq:
  assumes D: "dataset_shows B listing fs d T" and x: "T x = Some v" and op: "open_field_file B (field_path d x) Read fs = (Ok h, fs)"
    and c: "\<not> fd_is_chunked h" "fst v \<noteq> Utf8" "0 < logical_length d" "logical_length d \<le> 2 ^ 26" "backend_sane B Zstd"
    and nulls: "unat (fh_null_count (fd_header h)) = count_list (snd v) None"
    and offs: "sym_aligned_chunk_offsets (ds_meta d) 8 CHUNK_ROW_CAP = Some (Ok offs)" "compress_offsets (logical_length d) (Some offs) = Ok l"
  shows "\<exists>fs'. compress_dataset_field B x (d, fs) = (Ok (), cache_remove x d, fs') \<and> dataset_shows B listing fs' (cache_remove x d) T"
proof -
  obtain src where src: "fd_ok h src" "src_type src = fst v" "fd_row_count h = logical_length d"
    "shown (source_cells src (fd_row_count h)) = snd v" using field_opened[OF D x op] by blast
  have xd: "x \<in> dom T" using x by blast
  note pl = dir_showsD(3)[OF dataset_showsD(1)[OF D] xd]
  have "nulls_of cells = count_list (shown cells) None" for cells
    by (induction cells) (auto simp: nulls_of_def shown_def split: prod.splits)
  then have nu: "unat (fh_null_count (fd_header h)) = nulls_of (source_cells src (fd_row_count h))" using nulls src(4) by simp
  have p: "src_type src \<noteq> Utf8" "0 < fd_row_count h" "fd_row_count h \<le> 2 ^ 26" "Zstd \<noteq> CNone \<or> Plain \<noteq> Plain"
    "compress_offsets (fd_row_count h) (Some offs) = Ok l" using src c offs by simp_all
  from compress_eq[OF op c(1) src(1) p(1-3) c(5) p(4) nu p(5)] obtain bs cells where bs:
    "compress_field_file B (field_path d x) (Some offs) fs = (Ok (), fs(tmp_path (field_path d x) := None, field_path d x \<mapsto> bs))"
    "field_holds B bs (fst v) cells" "shown cells = snd v" using src(2,4) by (auto simp: compress_field_file_def)
  have "file_shows B (fs(tmp_path (field_path d x) := None, field_path d x \<mapsto> bs)) (field_path d x) v"
    using bs(2,3) by (auto simp: file_shows_def)
  from recompressed[OF D x this] show ?thesis using bs(1) xd offs(1)
    by (simp add: compress_dataset_field_def ds_bind_def field_exists_table[OF D pl] ds_modify_def ds_get_def ds_io_def ds_lift_def)
qed

definition conv_value :: "data_type \<Rightarrow> data_type \<Rightarrow> cell_value \<Rightarrow> cell_value" where
  "conv_value src dst c = CBytes (conv_bytes src dst (cell_bytes c))"

lemma shown_conv: "shown (map (conv_cell src dst) cells) = map (map_option (conv_value src dst)) (shown cells)"
  by (induction cells) (auto simp: shown_def conv_cell_def conv_value_def)

lemma cast_field_eq:
  assumes D: "dataset_shows B listing fs d T" and x: "T x = Some v" "CHR 0x5C \<notin> set x"
    and op: "open_field_file B (field_path d x) Read fs = (Ok h, fs)"
    and c: "fst v \<noteq> Utf8" "dst \<noteq> Utf8" "dst \<noteq> fst v" "0 < logical_length d" "logical_length d \<le> 2 ^ 26"
    and ch: "fd_is_chunked h \<longrightarrow> field_compression (fd_header h) = Ok co \<and> backend_sane B co \<and> (\<forall>r \<in> set (fd_chunk_rows h). 0 < r)"
    and tmp: "tmp = field_path d x @ sfx @ ''.tmp''" "CHR ''/'' \<notin> set sfx" "fs tmp = None"
  shows "\<exists>d' fs'. cast_dataset_field B listing tmp x dst (d, fs) = (Ok (), d', fs') \<and>
    dataset_shows B listing fs' d' (T(x \<mapsto> (dst, map (map_option (conv_value (fst v) dst)) (snd v)))) \<and> ds_mode d' = ds_mode d"
proof -
  let ?v = "(dst, map (map_option (conv_value (fst v) dst)) (snd v))" and ?d = "cache_remove x d"
  obtain src where src: "fd_ok h src" "src_type src = fst v" "fd_row_count h = logical_length d"
    "shown (source_cells src (fd_row_count h)) = snd v" using field_opened[OF D x(1) op] by blast
  have xd: "x \<in> dom T" using x by blast
  note dir = dataset_showsD(1)[OF D]
  note pl = dir_showsD(3)[OF dir xd]
  note fp = field_path_plain[OF pl, of d]
  obtain tt where tt: "meta_time_type (mt_header (ds_meta d)) = Ok tt" using dataset_showsD(3)[OF D] by blast
  have p: "src_type src \<noteq> Utf8" "dst \<noteq> src_type src" "0 < fd_row_count h" "fd_row_count h \<le> 2 ^ 26" using src c by simp_all
  obtain fs' fs2 where w: "cast_field_file B (field_path d x) tmp dst fs = (Ok (), fs')" "cast_result B fs tmp h src dst fs2"
    "fs' (field_path d x) = fs2 tmp"
    using cast_eq[where fs = fs and tmp = tmp, OF op src(1) p(1) c(2) p(2-4) tmp(3) ch] by blast
  obtain bs cells where b: "fs' (field_path d x) = Some bs" "field_holds B bs dst cells"
    "shown cells = shown (map (conv_cell (src_type src) dst) (source_cells src (fd_row_count h)))"
    using w(2,3) unfolding cast_result_def by auto
  have f: "file_shows B fs' (field_path d x) ?v"
    unfolding file_shows_def using b src(2,4) by (intro exI[of _ bs] exI[of _ cells]) (simp add: shown_conv)
  have "touches {field_path d x, tmp, tmp_path tmp} (cast_field_file B (field_path d x) tmp dst)" by (intro cast_touches) simp_all
  from touchesD[where fs = fs and fs' = fs', OF this w(1)]
  have frame: "fs' q = fs q" if "q \<notin> {field_path d x, tmp, tmp_path tmp}" for q using that .
  have "CHR ''/'' \<notin> set (x @ sfx)" "CHR ''/'' \<notin> set (x @ sfx @ ''.tmp'')"
    using pl tmp(2) by (simp_all add: plain_name_def simple_name_def)
  from walk_tmp[OF this(1), of "ds_root d"] walk_tmp[OF this(2), of "ds_root d"]
  have hid: "walk_file (ds_root d) tmp = None" "walk_file (ds_root d) (tmp_path tmp) = None"
    by (simp_all add: tmp(1) fp path_join_def tmp_path_def)
  have q: "fs' q = fs q" if "under (ds_root d) q" "q \<noteq> field_path d x" "walk_file (ds_root d) q = Some y" for q y
  proof -
    have "q \<noteq> tmp" "q \<noteq> tmp_path tmp" using that(3) hid by auto
    then show ?thesis using frame[of q] that(2) by simp
  qed
  have l: "length (snd ?v) = logical_length d" using dataset_showsD(2)[OF D x(1)] by simp
  have new: "dir_shows B listing fs' (ds_root d) (T(x \<mapsto> ?v))"
    "dataset_shows B listing fs' (?d\<lparr>ds_schema := table_schema tt (T(x \<mapsto> ?v))\<rparr>) (T(x \<mapsto> ?v))"
    by (rule rewritten_shows[OF D xd f _ l tt]; rule q; assumption)+
  have "cast_dataset_field B listing tmp x dst (d, fs) = reload_schema listing (?d, fs')"
    using plain_valid[OF pl x(2)] xd w(1)
    by (simp add: cast_dataset_field_def ds_bind_def ds_lift_def field_exists_table[OF D pl] ds_modify_def ds_get_def ds_io_def)
  also have "\<dots> = (Ok (), ?d\<lparr>ds_schema := table_schema tt (T(x \<mapsto> ?v))\<rparr>, fs')"
    by (rule reload_shows) (use tt new(1) in simp_all)
  finally show ?thesis using new(2) by (intro exI[of _ "?d\<lparr>ds_schema := table_schema tt (T(x \<mapsto> ?v))\<rparr>"] exI[of _ fs']) simp
qed

subsection \<open>Errors\<close>

lemma create_field_errs:
  assumes run: "create_dataset_field B listing x dt init opts (d, fs) = (Err e, d', fs')"
    and free: "fs (field_path d x) = None"
  shows "d' = d \<and> (\<forall>q. q \<noteq> tmp_path (field_path d x) \<longrightarrow> fs' q = fs q)"
proof -
  let ?p = "field_path d x"
  show ?thesis
  proof (cases "validate_field_name x = Ok () \<and> schema_position (ds_schema d) x = None \<and> is_ok (checked_init (logical_length d) dt init)")
    case False
    then show ?thesis using run
      by (cases "validate_field_name x"; cases "checked_init (logical_length d) dt init")
         (auto simp: create_dataset_field_def ds_bind_def ds_lift_def ds_get_def guard_def split: if_splits)
  next
    case True
    then obtain i where i: "checked_init (logical_length d) dt init = Ok i" by (cases "checked_init (logical_length d) dt init") auto
    obtain r fs1 where r: "create_field_file B ?p dt i opts fs = (r, fs1)" by (cases "create_field_file B ?p dt i opts fs")
    have "touches {?p, tmp_path ?p} (create_field_file B ?p dt i opts)" by (intro touches_create) simp_all
    from touchesD[where fs = fs and fs' = fs1, OF this r] have frame: "fs1 q = fs q" if "q \<noteq> ?p" "q \<noteq> tmp_path ?p" for q using that by simp
    have no: "reload_schema listing (d, fs1) \<noteq> (Err e, d', fs')"
      by (cases "meta_time_type (mt_header (ds_meta d))") (auto simp: reload_schema_def handle_time_type_def split: res.splits prod.splits)
    have u: "create_dataset_field B listing x dt init opts (d, fs) =
        (case r of Ok _ \<Rightarrow> reload_schema listing (d, fs1) | Err e \<Rightarrow> (Err e, d, fs1(?p := None)) | Panic \<Rightarrow> (Panic, d, fs1))"
      using True i r
      by (cases r) (simp_all add: create_dataset_field_def ds_bind_def ds_lift_def ds_get_def guard_def ds_io_def io_on_err_def io_try_remove_def)
    show ?thesis using run no frame free by (cases r) (auto simp: u)
  qed
qed

text \<open>A file that the schema does not name - another handle created it, or the schema came from the caller or
  from a failed walk - makes the creation fail, and the clean-up then deletes that file.\<close>

theorem create_over_file_deletes_it:
  assumes "validate_field_name x = Ok ()" "schema_position (ds_schema d) x = None" "checked_init (logical_length d) dt init = Ok i"
    and "fs (field_path d x) = Some bs"
  shows "create_dataset_field B listing x dt init opts (d, fs) = (Err (AlreadyExists (field_path d x)), d, fs(field_path d x := None))"
  using assms
  by (simp add: create_dataset_field_def ds_bind_def ds_lift_def ds_get_def guard_def ds_io_def io_on_err_def io_try_remove_def
      create_field_file_def io_exists_def io_bind_def io_lift_def)

text \<open>The count of a stream is compared only when its validity ends early: a stream of two rows that brings
  the validity of its two rows is stored in a dataset of three.\<close>

theorem stream_length_unchecked:
  "case create_field_file_plain ''f'' Int8 (FI_Stream (length_check_reader 3
       \<lparr>rd_values = [Ok \<lparr>sv_values = [1, 2], sv_rows = 2\<rparr>], rd_validity = [Ok [3]]\<rparr>)) (\<lambda>_. None) of
     (r, fs) \<Rightarrow> r = Ok () \<and> fs ''f'' = Some (field_header_to_bytes (field_header_new_uncompressed Int8 1 2 0 True) @ [1, 2, 3])"
proof -
  let ?fs = "\<lambda>bs. (\<lambda>_. None)(''f'' \<mapsto> bs) :: files"
  have l: "length_check_reader 3 \<lparr>rd_values = [Ok \<lparr>sv_values = [1, 2], sv_rows = 2\<rparr>], rd_validity = [Ok [3]]\<rparr> =
      \<lparr>rd_values = [Ok \<lparr>sv_values = [1, 2], sv_rows = 2\<rparr>], rd_validity = [Ok [3], Err (Invalid ''stream rows'')]\<rparr>"
    by (simp add: length_check_reader_def stream_rows_def)
  have w: "validity_size 2 = 1" "unat (2 :: u32) = 2" "HEADER_SIZE = 64" by code_simp+
  have n: "bitmap_count_ones [3] 0 2 = (Ok 2 :: (core_error, nat) res)" by code_simp
  have v: "stream_validity ''f'' 66 1 2 [Ok [3], Err (Invalid ''stream rows'')] 0 0 (?fs (replicate 64 0 @ [1, 2])) =
      (Ok 2, ?fs (replicate 64 0 @ [1, 2, 3]))"
    by (subst stream_validity.simps, subst stream_validity.simps)
       (simp add: n io_bind_def io_lift_def io_pwrite_def overwrite_def io_ret_def)
  have f: "io_fold (stream_values_step ''f'') (0, 0) [Ok \<lparr>sv_values = [1, 2], sv_rows = 2\<rparr>] (?fs (replicate 64 0)) =
      (Ok (2, 2), ?fs (replicate 64 0 @ [1, 2]))"
    by (simp add: io_bind_def io_lift_def stream_values_step_def io_append_def io_ret_def)
  have c: "io_create_new ''f'' (\<lambda>_. None) = (Ok (), ?fs [])" "io_append ''f'' (replicate 64 0) (?fs []) = (Ok (), ?fs (replicate 64 0))"
    "io_set_len ''f'' 67 (?fs (replicate 64 0 @ [1, 2, 3])) = (Ok (), ?fs (replicate 64 0 @ [1, 2, 3]))"
    by (simp_all add: io_create_new_def io_append_def io_set_len_def)
  have u: "write_header ''f'' h (?fs (replicate 64 0 @ [1, 2, 3])) = (Ok (), ?fs (field_header_to_bytes h @ [1, 2, 3]))" for h
    by (simp add: write_header_def io_pwrite_def overwrite_def)
  have at: "?fs bs ''f'' = Some bs" for bs by simp
  show ?thesis unfolding l
    by (simp add: at create_field_file_plain_def io_bind_def w c f v u io_ret_def Let_def del: fun_upd_apply io_fold.simps One_nat_def)
qed

text \<open>Replacing all data is not atomic: when a column cannot be replaced, the index is already the new one,
  while the fields still have the old rows.\<close>

theorem update_dataset_not_atomic:
  assumes "ds_mode d = Write" "data_view_column data ''sym'' \<noteq> None" "data_view_column data ''time'' \<noteq> None"
    and "meta_build data = Ok b" "meta_open (\<lambda>_. Some b) (mt_path (ds_meta d)) = Ok m"
    and "with_extension ''tmp'' (mt_path (ds_meta d)) \<noteq> mt_path (ds_meta d)"
    and "fs1 = (fs(with_extension ''tmp'' (mt_path (ds_meta d)) := None))(mt_path (ds_meta d) \<mapsto> b)"
    and "zip (dv_schema data) (dv_columns data) = [s, t, (f, col)]" "is_reserved (fs_name (fst s))" "is_reserved (fs_name (fst t))"
    and "\<not> is_reserved (fs_name f)" "open_field_file B (field_path d (fs_name f)) Write fs1 = (Ok h, fs1)"
    and "fs1 (field_path d (fs_name f)) \<noteq> None" "fd_mode h = Write" "(fd_data_type h :: (core_error, _) res) = Ok dt" "cv_data_type col \<noteq> dt"
  shows "update_dataset B listing data (d, fs) =
    (Err (Invalid ''update data type mismatch''), d\<lparr>ds_meta := m, ds_fields := []\<rparr>, fs1)"
proof -
  let ?d = "d\<lparr>ds_meta := m, ds_fields := []\<rparr>"
  have up: "update_index (ds_meta d) data fs = (Ok m, fs1)"
    unfolding assms(7) by (rule update_index_eq[OF assms(4-6)])
  have p: "field_path ?d (fs_name f) = field_path d (fs_name f)" by (simp add: field_path_def)
  have "update_column B (f, col) (?d, fs1) = (Err (Invalid ''update data type mismatch''), ?d, fs1)"
    using assms(11-16) by (simp add: update_column_def ds_bind_def ds_get_def ds_io_def p io_bind_def io_exists_def update_field_def io_lift_def)
  moreover have "update_column B s (?d, fs1) = (Ok (), ?d, fs1)" "update_column B t (?d, fs1) = (Ok (), ?d, fs1)"
    using assms(9,10) by (cases s; cases t; simp add: update_column_def ds_ret_def)+
  ultimately have "ds_each (update_column B) (zip (dv_schema data) (dv_columns data)) (?d, fs1) =
      (Err (Invalid ''update data type mismatch''), ?d, fs1)"
    unfolding assms(8) by (simp add: ds_bind_def)
  then show ?thesis
    using assms(1-3) up by (simp add: update_dataset_def ds_bind_def ds_get_def ds_lift_def guard_def ds_io_def ds_modify_def del: not_None_eq)
qed

subsection \<open>An example\<close>

definition example_files :: files where
  "example_files = [''r/v'' \<mapsto> example_field_image]"

definition example_rows :: table where
  "example_rows = [''v'' \<mapsto> (Int8, map (\<lambda>b. Some (CBytes [b])) [5, 6, 7, 8, 9])]"

lemma example_holds: "field_holds B example_field_image Int8 example_cells"
proof -
  let ?hdr = "field_header_new_uncompressed Int8 1 5 0 False"
  have c: "cells_of Int8 [5, 6, 7, 8, 9] (\<lambda>i. if has_validity ?hdr then get_bit [] i else True) 5 = example_cells" by code_simp
  have "field_holds B (field_header_to_bytes ?hdr @ [5, 6, 7, 8, 9] @ []) Int8 example_cells"
    unfolding c[symmetric]
    by (rule plain_holds) (simp_all add: field_data_type_def data_type_from_id_def new_uncompressed_data_length field_validity_size_def)
  then show ?thesis by (simp add: example_field_image_def)
qed

lemma example_shows:
  obtains meta offs where "logical_length (example_dataset meta md) = 5"
    "sym_aligned_chunk_offsets meta 8 CHUNK_ROW_CAP = Some (Ok offs)" "compress_offsets 5 (Some offs) = Ok offs"
    "dataset_shows example_backend [''r/w'', ''r/v''] example_files (example_dataset meta md) example_rows"
proof -
  obtain b where b: "meta_build (example_input [1, 2, 1, 2, 3]) = Ok b" "length b \<le> u64_max" by (rule example_built)
  let ?c = "dv_columns (example_input [1, 2, 1, 2, 3]) ! 0"
  have c: "data_view_column (example_input [1, 2, 1, 2, 3]) ''sym'' = Some ?c" by code_simp
  obtain seg where seg: "cv_segments ?c = [seg]" by (simp add: example_input_def)
  have pos: "0 < (8 :: nat)" "0 < CHUNK_ROW_CAP" by (simp_all add: CHUNK_ROW_CAP_def)
  obtain meta offs where m: "meta_open (\<lambda>_. Some b) ''META'' = Ok meta" "sym_aligned_chunk_offsets meta 8 CHUNK_ROW_CAP = Some (Ok offs)"
    "compress_offsets 5 (Some offs) = Ok offs"
    using planned_view[where fs = "\<lambda>_. Some b" and path = "''META''", OF example_build_input example_sorted b refl pos c seg] by blast
  obtain names recs where "indexed TT_TimestampUs (time_axis [1, 2, 1, 2, 3]) names recs 5 meta"
    using built_open[where fs = "\<lambda>_. Some b" and path = "''META''", OF example_build_input example_sorted b refl] m(1) by auto
  note o' = opened_sections[OF indexed_simps(1)[OF this]]
  have n: "logical_length (example_dataset meta md) = 5" using o'(3) by (simp add: logical_length_def example_dataset_def)
  have p: "path_join ''r'' ''v'' = ''r/v''" "plain_name ''v''" by code_simp+
  have sh: "shown example_cells = map (\<lambda>b. Some (CBytes [b])) [5, 6, 7, 8, 9]" by code_simp
  have dom: "dom example_rows = {''v''}" by (simp add: example_rows_def)
  have "file_shows example_backend example_files ''r/v'' (Int8, map (\<lambda>b. Some (CBytes [b])) [5, 6, 7, 8, 9])"
    unfolding file_shows_def using example_holds sh
    by (intro exI[of _ example_field_image] exI[of _ example_cells]) (simp add: example_files_def)
  then have dir: "dir_shows example_backend [''r/w'', ''r/v''] example_files ''r'' example_rows"
    unfolding dir_shows_def dom using p by (auto simp: example_rows_def example_files_def split: if_splits)
  have "ds_schema (example_dataset meta md) = table_schema TT_TimestampUs example_rows"
    by (simp add: table_schema_def dom index_fields_def example_dataset_def) (simp add: example_rows_def)
  then have "dataset_shows example_backend [''r/w'', ''r/v''] example_files (example_dataset meta md) example_rows"
    using dir n o'(4) by (simp add: dataset_shows_def dom) (simp add: example_dataset_def example_rows_def)
  then show ?thesis using that n m(2,3) by blast
qed

lemma example_names: "plain_name ''w''" "plain_name ''v''" "CHR 0x5C \<notin> set ''w''" "CHR 0x5C \<notin> set ''v''" "''w'' \<notin> dom example_rows"
  by (simp_all add: plain_name_def simple_name_def is_reserved_def RESERVED_FIELD_NAMES_def example_rows_def)

lemma example_root: "ds_root (example_dataset meta md) = ''r''" "field_path (example_dataset meta md) ''w'' = ''r/w''"
  "field_path (example_dataset meta md) ''v'' = ''r/v''" "path_join ''r'' ''w'' = ''r/w''"
  by (simp_all add: example_dataset_def field_path_def path_join_def dots_to_slashes_def)

subsection \<open>Properties\<close>

text \<open>C34. A new field, all NULL or with the values of a column, in any compression: the table of the dataset
  gets this one entry. The schema is that of the new table, the cached handles still show their fields and
  no other file changes.\<close>

theorem create_dataset_field_refines:
  assumes "dataset_shows B listing fs d T" "plain_name x" "CHR 0x5C \<notin> set x" "x \<notin> dom T"
    and "path_join (ds_root d) x \<in> set listing" "init_fits B (logical_length d) dt opts init"
  shows "\<exists>d' fs'. create_dataset_field B listing x dt init opts (d, fs) = (Ok (), d', fs') \<and>
    dataset_shows B listing fs' d' (T(x \<mapsto> (dt, init_rows (logical_length d) init))) \<and>
    (\<forall>q. q \<noteq> field_path d x \<longrightarrow> fs' q = fs q)"
proof -
  obtain d' bs where r: "create_dataset_field B listing x dt init opts (d, fs) = (Ok (), d', fs(field_path d x \<mapsto> bs))"
    "dataset_shows B listing (fs(field_path d x \<mapsto> bs)) d' (T(x \<mapsto> (dt, init_rows (logical_length d) init)))"
    using create_field_eq[OF assms] by blast
  then show ?thesis by (intro exI[of _ d'] exI[of _ "fs(field_path d x \<mapsto> bs)"]) simp
qed

theorem create_dataset_field_refines_witness:
  "\<exists>meta d' fs'. create_dataset_field example_backend [''r/w'', ''r/v''] ''w'' Float64 DI_AllNull
       \<lparr>co_compression = Zstd, co_chunk_offsets = None\<rparr> (example_dataset meta Write, example_files) = (Ok (), d', fs') \<and>
     dataset_shows example_backend [''r/w'', ''r/v''] fs' d' (example_rows(''w'' \<mapsto> (Float64, replicate 5 None))) \<and>
     fs' ''r/v'' = Some example_field_image"
proof -
  obtain meta offs where m: "logical_length (example_dataset meta Write) = 5"
    "dataset_shows example_backend [''r/w'', ''r/v''] example_files (example_dataset meta Write) example_rows"
    using example_shows[where md = Write] by blast
  have l: "path_join (ds_root (example_dataset meta Write)) ''w'' \<in> set [''r/w'', ''r/v'']" by (simp add: example_root)
  have f: "init_fits example_backend (logical_length (example_dataset meta Write)) Float64 \<lparr>co_compression = Zstd, co_chunk_offsets = None\<rparr> DI_AllNull"
    unfolding m(1) by (simp add: init_fits_def example_backend_sane compute_chunk_boundaries_def)
  have r: "init_rows (logical_length (example_dataset meta Write)) DI_AllNull = replicate 5 None" unfolding m(1) by (simp add: init_rows_def)
  from create_dataset_field_refines[OF m(2) example_names(1,3,5) l f, unfolded r example_root]
  obtain d' fs' where "create_dataset_field example_backend [''r/w'', ''r/v''] ''w'' Float64 DI_AllNull
       \<lparr>co_compression = Zstd, co_chunk_offsets = None\<rparr> (example_dataset meta Write, example_files) = (Ok (), d', fs')"
     "dataset_shows example_backend [''r/w'', ''r/v''] fs' d' (example_rows(''w'' \<mapsto> (Float64, replicate 5 None)))"
     "\<forall>q. q \<noteq> ''r/w'' \<longrightarrow> fs' q = example_files q" by (elim exE conjE) (rule that)
  then show ?thesis by (intro exI[of _ meta] exI[of _ d'] exI[of _ fs']) (simp add: example_files_def)
qed

text \<open>C35. Deleting and renaming on the table: the entry goes, or moves to the new name with its rows, and only
  the files of the two names change. A name that is not there, or a target that is, is an error that
  changes nothing.\<close>

theorem delete_rename_refine:
  assumes "dataset_shows B listing fs d T" "plain_name x" "CHR 0x5C \<notin> set x"
    and "plain_name y" "CHR 0x5C \<notin> set y" "path_join (ds_root d) y \<in> set listing"
  shows "(case T x of
      None \<Rightarrow> delete_dataset_field listing x (d, fs) = (Err (NotFound (field_path d x)), d, fs) \<and>
        rename_dataset_field listing x y (d, fs) = (Err (NotFound (field_path d x)), d, fs)
    | Some v \<Rightarrow>
        (\<exists>d'. delete_dataset_field listing x (d, fs) = (Ok (), d', fs(field_path d x := None)) \<and>
           dataset_shows B listing (fs(field_path d x := None)) d' (T(x := None))) \<and>
        (if y \<in> dom T then rename_dataset_field listing x y (d, fs) = (Err (AlreadyExists (field_path d y)), d, fs)
         else \<exists>d' fs'. rename_dataset_field listing x y (d, fs) = (Ok (), d', fs') \<and>
           dataset_shows B listing fs' d' (T(x := None, y \<mapsto> v)) \<and>
           fs' = (fs(field_path d x := None))(field_path d y := fs (field_path d x))))"
proof (cases "T x")
  case None
  then have "x \<notin> dom T" by blast
  then show ?thesis using None plain_valid[OF assms(2,3)] plain_valid[OF assms(4,5)]
    by (simp add: delete_dataset_field_def rename_dataset_field_def ds_bind_def ds_lift_def field_exists_table[OF assms(1,2)])
next
  case (Some v)
  then have x: "x \<in> dom T" by blast
  have del: "\<exists>d'. delete_dataset_field listing x (d, fs) = (Ok (), d', fs(field_path d x := None)) \<and>
      dataset_shows B listing (fs(field_path d x := None)) d' (T(x := None))"
    using delete_field_eq[OF assms(1) x assms(3)] by blast
  show ?thesis
  proof (cases "y \<in> dom T")
    case True
    obtain tt where "ds_schema d = table_schema tt T" using dataset_showsD(3)[OF assms(1)] by blast
    then have "schema_position (ds_schema d) y \<noteq> None"
      using position_table[OF dir_showsD(1)[OF dataset_showsD(1)[OF assms(1)]], of tt y] True assms(4) by (simp add: plain_name_def)
    then have "rename_dataset_field listing x y (d, fs) = (Err (AlreadyExists (field_path d y)), d, fs)"
      using x plain_valid[OF assms(4,5)]
      by (simp add: rename_dataset_field_def ds_bind_def ds_lift_def ds_get_def guard_def field_exists_table[OF assms(1,2)] del: not_None_eq)
    then show ?thesis using Some del True by simp
  next
    case False
    have "\<exists>d' fs'. rename_dataset_field listing x y (d, fs) = (Ok (), d', fs') \<and> dataset_shows B listing fs' d' (T(x := None, y \<mapsto> v)) \<and>
        fs' = (fs(field_path d x := None))(field_path d y := fs (field_path d x))"
      using rename_field_eq[OF assms(1) Some assms(4,5) False assms(6)] by blast
    then show ?thesis using Some del False by simp
  qed
qed

theorem delete_rename_refine_witness:
  "\<exists>meta d1 d2 fs2. delete_dataset_field [''r/w'', ''r/v''] ''v'' (example_dataset meta Write, example_files) = (Ok (), d1, example_files(''r/v'' := None)) \<and>
     dataset_shows example_backend [''r/w'', ''r/v''] (example_files(''r/v'' := None)) d1 (example_rows(''v'' := None)) \<and>
     rename_dataset_field [''r/w'', ''r/v''] ''v'' ''w'' (example_dataset meta Write, example_files) = (Ok (), d2, fs2) \<and>
     dataset_shows example_backend [''r/w'', ''r/v''] fs2 d2 (example_rows(''v'' := None, ''w'' \<mapsto> (Int8, map (\<lambda>b. Some (CBytes [b])) [5, 6, 7, 8, 9])))"
proof -
  obtain meta offs where m: "dataset_shows example_backend [''r/w'', ''r/v''] example_files (example_dataset meta Write) example_rows"
    using example_shows[where md = Write] by blast
  have l: "path_join (ds_root (example_dataset meta Write)) ''w'' \<in> set [''r/w'', ''r/v'']" by (simp add: example_root)
  have v: "example_rows ''v'' = Some (Int8, map (\<lambda>b. Some (CBytes [b])) [5, 6, 7, 8, 9])" by (simp add: example_rows_def)
  from delete_rename_refine[OF m example_names(2,4,1,3) l, unfolded example_root v option.case if_not_P[OF example_names(5)]]
  show ?thesis by blast
qed

text \<open>C36. Compressing and decompressing leave the table as it is; a cast changes the type of its one entry and
  converts the values that are not NULL. The cached handle of the field is dropped, so later reads open the
  new file.\<close>

theorem restructure_refines:
  assumes "dataset_shows B listing fs d T" "T x = Some v" "CHR 0x5C \<notin> set x" "fst v \<noteq> Utf8"
    and "0 < logical_length d" "logical_length d \<le> 2 ^ 26"
    and "open_field_file B (field_path d x) Read fs = (Ok h, fs)"
    and "unat (fh_null_count (fd_header h)) = count_list (snd v) None"
    and "fd_is_chunked h \<longrightarrow> field_compression (fd_header h) = Ok co \<and> backend_sane B co \<and> (\<forall>r \<in> set (fd_chunk_rows h). 0 < r)"
    and "sym_aligned_chunk_offsets (ds_meta d) 8 CHUNK_ROW_CAP = Some (Ok offs)" "compress_offsets (logical_length d) (Some offs) = Ok l"
    and "backend_sane B Zstd"
    and "tmp = field_path d x @ sfx @ ''.tmp''" "CHR ''/'' \<notin> set sfx" "fs tmp = None" "dst \<noteq> Utf8" "dst \<noteq> fst v"
  shows "(\<exists>fs'. (if fd_is_chunked h then decompress_dataset_field B x else compress_dataset_field B x) (d, fs) =
        (Ok (), cache_remove x d, fs') \<and> dataset_shows B listing fs' (cache_remove x d) T) \<and>
    (\<exists>d' fs'. cast_dataset_field B listing tmp x dst (d, fs) = (Ok (), d', fs') \<and>
        dataset_shows B listing fs' d' (T(x \<mapsto> (dst, map (map_option (conv_value (fst v) dst)) (snd v)))))"
proof
  show "\<exists>fs'. (if fd_is_chunked h then decompress_dataset_field B x else compress_dataset_field B x) (d, fs) =
        (Ok (), cache_remove x d, fs') \<and> dataset_shows B listing fs' (cache_remove x d) T"
    using decompress_field_eq[OF assms(1,2,7) _ assms(4,5)] compress_field_eq[OF assms(1,2,7) _ assms(4-6,12,8,10,11)]
    by (cases "fd_is_chunked h") simp_all
  show "\<exists>d' fs'. cast_dataset_field B listing tmp x dst (d, fs) = (Ok (), d', fs') \<and>
        dataset_shows B listing fs' d' (T(x \<mapsto> (dst, map (map_option (conv_value (fst v) dst)) (snd v))))"
    using cast_field_eq[OF assms(1-3,7,4,16,17,5,6,9,13-15)] by blast
qed

theorem restructure_refines_witness:
  "\<exists>meta d' fs1 fs2. compress_dataset_field example_backend ''v'' (example_dataset meta Write, example_files) =
       (Ok (), cache_remove ''v'' (example_dataset meta Write), fs1) \<and>
     dataset_shows example_backend [''r/w'', ''r/v''] fs1 (cache_remove ''v'' (example_dataset meta Write)) example_rows \<and>
     cast_dataset_field example_backend [''r/w'', ''r/v''] ''r/v.cast.1.tmp'' ''v'' Int16 (example_dataset meta Write, example_files) = (Ok (), d', fs2) \<and>
     dataset_shows example_backend [''r/w'', ''r/v''] fs2 d'
       (example_rows(''v'' \<mapsto> (Int16, map (map_option (conv_value Int8 Int16)) (map (\<lambda>b. Some (CBytes [b])) [5, 6, 7, 8, 9]))))"
proof -
  obtain meta offs where m: "logical_length (example_dataset meta Write) = 5"
    "sym_aligned_chunk_offsets meta 8 CHUNK_ROW_CAP = Some (Ok offs)" "compress_offsets 5 (Some offs) = Ok offs"
    and D: "dataset_shows example_backend [''r/w'', ''r/v''] example_files (example_dataset meta Write) example_rows"
    using example_shows[where md = Write] by blast
  let ?d = "example_dataset meta Write" and ?v = "(Int8, map (\<lambda>b. Some (CBytes [b :: u8])) [5, 6, 7, 8, 9])"
  let ?hdr = "field_header_new_uncompressed Int8 1 5 0 False"
  have v: "example_rows ''v'' = Some ?v" by (simp add: example_rows_def)
  have hok: "field_header_ok ?hdr" "\<not> is_chunked ?hdr" by code_simp+
  have im: "example_files ''r/v'' = Some (field_header_to_bytes ?hdr @ [5, 6, 7, 8, 9])"
    by (simp add: example_files_def example_field_image_def)
  obtain h where h: "open_field_file example_backend ''r/v'' Read example_files = (Ok h, example_files)" "fd_header h = ?hdr"
    using open_plain_file[where fs = example_files and p = "''r/v''", OF im hok, of example_backend Read] by auto
  have op: "open_field_file example_backend (field_path ?d ''v'') Read example_files = (Ok h, example_files)" using h(1) by (simp add: example_root)
  have nc: "\<not> fd_is_chunked h" using hok(2) h(2) by (simp add: fd_is_chunked_def)
  then have ch: "fd_is_chunked h \<longrightarrow> field_compression (fd_header h) = Ok CNone \<and> backend_sane example_backend CNone \<and> (\<forall>r \<in> set (fd_chunk_rows h). 0 < r)"
    by simp
  have nulls: "unat (fh_null_count (fd_header h)) = count_list (snd ?v) None" unfolding h(2) by code_simp
  have c: "fst ?v \<noteq> Utf8" "0 < logical_length ?d" "logical_length ?d \<le> 2 ^ 26" "compress_offsets (logical_length ?d) (Some offs) = Ok offs"
    "sym_aligned_chunk_offsets (ds_meta ?d) 8 CHUNK_ROW_CAP = Some (Ok offs)"
    using m by (simp_all add: example_dataset_def)
  have t: "''r/v.cast.1.tmp'' = field_path ?d ''v'' @ ''.cast.1'' @ ''.tmp''" "CHR ''/'' \<notin> set ''.cast.1''"
    "example_files ''r/v.cast.1.tmp'' = None" "Int16 \<noteq> Utf8" "Int16 \<noteq> fst ?v"
    by (simp_all add: example_root example_files_def)
  from restructure_refines[OF D v example_names(4) c(1-3) op nulls ch c(5,4) example_backend_sane t]
  show ?thesis using nc by auto
qed

text \<open>C37. A creation of a field that returns an error where no file of that name is has left the handle as it
  was and every file, the one of the field included; only the temporary file of a compression may differ.\<close>

theorem create_field_error_clean:
  assumes "create_dataset_field B listing x dt init opts (d, fs) = (Err e, d', fs')" "fs (field_path d x) = None"
  shows "d' = d \<and> (\<forall>q. q \<noteq> tmp_path (field_path d x) \<longrightarrow> fs' q = fs q)"
  by (rule create_field_errs[OF assms])

text \<open>A column of the wrong length.\<close>

theorem create_field_error_clean_witness:
  "\<exists>meta. create_dataset_field example_backend [''r/w'', ''r/v''] ''w'' Int8
       (DI_Data \<lparr>col_data_type = Int8, col_values = [1, 2], col_validity = None, col_dict = None\<rparr>) default_options
       (example_dataset meta Write, example_files) =
     (Err (Invalid ''field data length must equal dataset logical length''), example_dataset meta Write, example_files)"
proof -
  obtain meta offs where m: "logical_length (example_dataset meta Write) = 5"
    using example_shows[where md = Write] by blast
  let ?col = "\<lparr>col_data_type = Int8, col_values = [1, 2 :: u8], col_validity = None, col_dict = None\<rparr>"
  have "schema_position (ds_schema (example_dataset meta Write)) ''w'' = None" by (simp add: example_dataset_def)
  moreover have "column_length ?col = 2" by code_simp
  moreover have "validate_field_name ''w'' = Ok ()" by code_simp
  ultimately have e: "create_dataset_field example_backend [''r/w'', ''r/v''] ''w'' Int8 (DI_Data ?col) default_options
       (example_dataset meta Write, example_files) =
     (Err (Invalid ''field data length must equal dataset logical length''), example_dataset meta Write, example_files)"
    using m by (simp add: create_dataset_field_def ds_bind_def ds_lift_def ds_get_def guard_def checked_init_def)
  have "example_files (field_path (example_dataset meta Write) ''w'') = None" by (simp add: example_root example_files_def)
  from create_field_error_clean[OF e this] show ?thesis using e by blast
qed

end
