(* ===== verification/Dataset_Scan.thy ===== *)
theory Dataset_Scan
  imports Dataset_Write "HOL-Library.Char_ord"
begin

text \<open>
  Scanning a dataset (\<open>scan_dataset\<close> and \<open>DatasetScanner\<close> of \<open>splayed-core/src/dataset.rs\<close>). The
  conditions on symbol and time go to the index and narrow the requested ranges; the other conditions are
  grouped by field, every field scans the same narrowed ranges (serially or in threads), and the results
  are intersected. The reference is the predicate read on the symbol, the time and the cells of a row.
\<close>

subsection \<open>Splitting a predicate\<close>

fun strip_all_fields :: "predicate \<Rightarrow> predicate" where
  "strip_all_fields (PAnd cs) = PAnd (map strip_all_fields cs)"
| "strip_all_fields (POr cs) = POr (map strip_all_fields cs)"
| "strip_all_fields (PNot p) = PNot (strip_all_fields p)"
| "strip_all_fields (PCmp f op val) = PCmp None op val"

text \<open>What \<open>collect\<close> pushes onto its output.\<close>

fun collect_allowed :: "string list \<Rightarrow> predicate \<Rightarrow> predicate list" where
  "collect_allowed allowed (PAnd cs) = concat (map (collect_allowed allowed) cs)"
| "collect_allowed allowed (POr cs) =
     (if list_all (\<lambda>f. f \<in> set allowed) (pred_fields (POr cs) []) then [POr cs]
      else concat (map (collect_allowed allowed) cs))"
| "collect_allowed allowed (PCmp (Some f) op val) = (if f \<in> set allowed then [PCmp (Some f) op val] else [])"
| "collect_allowed allowed _ = []"

definition collect_for_fields :: "predicate \<Rightarrow> string list \<Rightarrow> predicate" where
  "collect_for_fields pred allowed = PAnd (collect_allowed allowed pred)"

fun push_group :: "(string \<times> predicate) list \<Rightarrow> string \<Rightarrow> predicate \<Rightarrow> (string \<times> predicate) list" where
  "push_group [] name sub = [(name, sub)]"
| "push_group ((n, p) # gs) name sub =
     (if n = name then (n, PAnd [p, sub]) # gs else (n, p) # push_group gs name sub)"

fun walk_groups :: "predicate \<Rightarrow> (string \<times> predicate) list \<Rightarrow> (core_error, (string \<times> predicate) list) res" where
  "walk_groups (PAnd cs) gs = foldM (\<lambda>g c. walk_groups c g) gs cs"
| "walk_groups (PCmp (Some name) op val) gs =
     (if is_reserved name then Ok gs
      else rbind (validate_field_name name) (\<lambda>_. Ok (push_group gs name (strip_all_fields (PCmp (Some name) op val)))))"
| "walk_groups (PCmp None op val) gs = Ok gs"
| "walk_groups p gs =
     (let fields = pred_fields p []
      in if list_all is_reserved fields then Ok gs
         else if length fields = 1 \<and> \<not> is_reserved (hd fields)
         then Ok (push_group gs (hd fields) (strip_all_fields p))
         else Err (Invalid ''predicate crosses fields within Or/Not; not supported by dataset scan''))"

definition predicate_groups :: "predicate \<Rightarrow> (core_error, (string \<times> predicate) list) res" where
  "predicate_groups pred = walk_groups pred []"

subsection \<open>Draining the scanners of the parts\<close>

text \<open>\<open>while let Some(r) = scanner.next()? { .. }\<close>; the fuel bounds the number of ranges, so it never
  runs out.\<close>

definition drain_index :: "index_scanner \<Rightarrow> (core_error, row_range list) res" where
  "drain_index sc = (case index_collect (Suc (length (is_ranges sc))) sc of Some rs \<Rightarrow> Ok rs | None \<Rightarrow> Panic)"

text \<open>The value region is first read when a range is evaluated.\<close>

definition field_hits :: "field_handle \<Rightarrow> row_range list \<Rightarrow> predicate \<Rightarrow> (core_error, row_range list) res" where
  "field_hits h ranges sub =
     (let sc = field_scan (fd_row_count h) ranges (Some sub) None
      in if sc_ranges sc = [] then Ok []
         else rbind (scan_source_of h) (\<lambda>src.
              rbind (scan_collect (Suc (sum_list (map rr_length (sc_ranges sc)))) src sc) (\<lambda>r. case r of
                Some rs \<Rightarrow> Ok rs
              | None \<Rightarrow> Panic)))"

subsection \<open>The fields, serially or in threads\<close>

definition SCAN_PARALLEL_MIN_ROWS :: nat where
  "SCAN_PARALLEL_MIN_ROWS = 64 * 1024"

definition scan_serial ::
  "(string \<times> predicate) list \<Rightarrow> field_handle list \<Rightarrow> row_range list \<Rightarrow> (core_error, row_range list list) res" where
  "scan_serial groups handles current =
     mapM (\<lambda>gi. field_hits (handles ! gi) current (snd (groups ! gi))) [0..<length groups]"

text \<open>A scan changes nothing, so the outcome of a thread does not depend on the others.\<close>

definition scan_thread ::
  "(string \<times> predicate) list \<Rightarrow> field_handle list \<Rightarrow> row_range list \<Rightarrow> nat list \<Rightarrow>
   (core_error, (nat \<times> row_range list) list) res" where
  "scan_thread groups handles current bucket =
     mapM (\<lambda>gi. rbind (field_hits (handles ! gi) current (snd (groups ! gi))) (\<lambda>hit. Ok (gi, hit))) bucket"

text \<open>The results are joined in order. After the first error the scope joins the rest, and panics if one of
  them did.\<close>

fun join_threads :: "(core_error, 'a) res list \<Rightarrow> (core_error, 'a list) res" where
  "join_threads [] = Ok []"
| "join_threads (r # rs) = (case r of
       Ok x \<Rightarrow> rbind (join_threads rs) (\<lambda>xs. Ok (x # xs))
     | Err e \<Rightarrow> if list_ex is_panic rs then Panic else Err e
     | Panic \<Rightarrow> if list_ex is_panic rs then Panic else Err (InvalidState ''field scanner thread panicked''))"

definition scan_threads ::
  "nat \<Rightarrow> (string \<times> predicate) list \<Rightarrow> field_handle list \<Rightarrow> row_range list \<Rightarrow> (core_error, row_range list list) res" where
  "scan_threads p groups handles current =
     rbind (join_threads (map (scan_thread groups handles current) (round_robin p [0..<length groups])))
       (\<lambda>outs. Ok (foldl (\<lambda>results (gi, hit). results[gi := hit]) (replicate (length groups) []) (concat outs)))"

definition scan_groups ::
  "nat \<Rightarrow> (string \<times> predicate) list \<Rightarrow> field_handle list \<Rightarrow> row_range list \<Rightarrow> (core_error, row_range list list) res" where
  "scan_groups p groups handles current =
     (if groups = [] \<or> current = [] then Ok []
      else if 1 < length groups \<and> SCAN_PARALLEL_MIN_ROWS \<le> sum_list (map rr_length current) \<and> 1 < p
      then scan_threads (min p (length groups)) groups handles current
      else scan_serial groups handles current)"

fun intersect_results :: "row_range list \<Rightarrow> row_range list list \<Rightarrow> row_range list" where
  "intersect_results final [] = final"
| "intersect_results final (r # rs) = (if final = [] then final else intersect_results (intersect_lists final r) rs)"

subsection \<open>The scan\<close>

record dataset_scanner =
  dn_ranges :: "row_range list"
  dn_remaining :: "nat option"

fun group_handles :: "codec_backend \<Rightarrow> (string \<times> predicate) list \<Rightarrow> field_handle list ds" where
  "group_handles B [] = ds_ret []"
| "group_handles B ((name, sub) # gs) =
     ds_bind (ensure_field B name) (\<lambda>_.
     ds_bind (ds_get (\<lambda>d. d)) (\<lambda>d.
     ds_bind (ds_lift (cached_handle d name)) (\<lambda>h.
     ds_bind (group_handles B gs) (\<lambda>hs. ds_ret (h # hs)))))"

text \<open>The part of the scan that the index answers.\<close>

definition narrow_by_index :: "meta_handle \<Rightarrow> row_range list \<Rightarrow> predicate \<Rightarrow> (core_error, row_range list) res" where
  "narrow_by_index meta current pred =
     (let sym_time = collect_for_fields pred [''sym'', ''time'']
      in if sym_time = PAnd [] then Ok current
         else rbind (scan_index_handle meta
                \<lparr>sq_ranges = current, sq_projection = [], sq_predicate = Some sym_time, sq_limit = None\<rparr>) (\<lambda>sc.
              rbind (drain_index sc) (\<lambda>narrowed. Ok (intersect_lists current narrowed))))"

definition scan_dataset :: "codec_backend \<Rightarrow> scan_request \<Rightarrow> dataset_scanner ds" where
  "scan_dataset B rq =
     ds_bind (ds_get (\<lambda>d. d)) (\<lambda>d0.
     let requested = clamp_ranges (sq_ranges rq) (logical_length d0)
     in ds_bind (ds_lift (case sq_predicate rq of
            None \<Rightarrow> Ok (requested, [])
          | Some pred \<Rightarrow>
              rbind (narrow_by_index (ds_meta d0) requested pred) (\<lambda>current.
              rbind (predicate_groups pred) (\<lambda>groups. Ok (current, sort_key fst groups))))) (\<lambda>(current, groups).
        ds_bind (group_handles B groups) (\<lambda>handles.
        ds_bind (ds_lift (scan_groups (ds_max_parallelism d0) groups handles current)) (\<lambda>results.
          ds_ret \<lparr>dn_ranges = merge_ranges (intersect_results current results), dn_remaining = sq_limit rq\<rparr>))))"

definition dataset_next :: "dataset_scanner \<Rightarrow> row_range option \<times> dataset_scanner" where
  "dataset_next sc = (case dn_ranges sc of
      [] \<Rightarrow> (None, sc)
    | r # rs \<Rightarrow> (case dn_remaining sc of
          None \<Rightarrow> (Some r, sc\<lparr>dn_ranges := rs\<rparr>)
        | Some remaining \<Rightarrow>
            let tk = min (rr_length r) remaining; left = remaining - tk;
                sc' = \<lparr>dn_ranges = (if left = 0 then [] else rs), dn_remaining = Some left\<rparr>
            in (Some (if tk < rr_length r then rr_new (rr_offset r) tk else r), sc')))"

text \<open>Calling \<open>next\<close> until it returns \<open>None\<close>.\<close>

function dataset_collect :: "dataset_scanner \<Rightarrow> row_range list" where
  "dataset_collect sc = (case dataset_next sc of
      (None, _) \<Rightarrow> []
    | (Some r, sc') \<Rightarrow> r # dataset_collect sc')"
  by auto
termination
  by (relation "measure (\<lambda>sc. length (dn_ranges sc))")
     (auto simp: dataset_next_def Let_def split: list.splits option.splits if_splits)

declare dataset_collect.simps [simp del]


subsection \<open>What a row satisfies\<close>

text \<open>The condition of one field on a cell; NULL satisfies none.\<close>

definition cell_hit :: "data_type \<Rightarrow> predicate \<Rightarrow> bool \<times> cell_value \<Rightarrow> bool" where
  "cell_hit dt sub c \<longleftrightarrow> fst c \<and> (case snd c of CBytes bs \<Rightarrow> pred_holds sub (row_scalar dt bs 0) | _ \<Rightarrow> False)"

text \<open>A row with symbol \<open>name\<close> and time \<open>t\<close>, where \<open>hit f q\<close> says that field \<open>f\<close> satisfies \<open>q\<close>; \<open>other\<close> stands
  for the comparisons that no part of the scan decides.\<close>

fun ds_holds :: "other_cmp \<Rightarrow> bytes \<Rightarrow> int \<Rightarrow> (string \<Rightarrow> predicate \<Rightarrow> bool) \<Rightarrow> predicate \<Rightarrow> bool" where
  "ds_holds other name t hit (PAnd cs) \<longleftrightarrow> (\<forall>c \<in> set cs. ds_holds other name t hit c)"
| "ds_holds other name t hit (PCmp (Some f) op val) \<longleftrightarrow>
     (if is_reserved f then cmp_holds other name t (Some f) op val else hit f (PCmp None op val))"
| "ds_holds other name t hit (PCmp None op val) \<longleftrightarrow> other None op val"
| "ds_holds other name t hit p \<longleftrightarrow>
     (if list_all is_reserved (pred_fields p []) then index_holds other name t p
      else hit (hd (pred_fields p [])) (strip_all_fields p))"

text \<open>Predicates whose disjunctions all mention fields.\<close>

fun grounded :: "predicate \<Rightarrow> bool" where
  "grounded (PAnd cs) \<longleftrightarrow> (\<forall>c \<in> set cs. grounded c)"
| "grounded (POr cs) \<longleftrightarrow> cs \<noteq> [] \<and> (\<forall>c \<in> set cs. pred_fields c [] \<noteq> [] \<and> grounded c)"
| "grounded (PNot p) \<longleftrightarrow> grounded p"
| "grounded (PCmp f op val) \<longleftrightarrow> True"

text \<open>Predicates that the scan decides completely.\<close>

fun scan_exact :: "predicate \<Rightarrow> bool" where
  "scan_exact (PAnd cs) \<longleftrightarrow> (\<forall>c \<in> set cs. scan_exact c)"
| "scan_exact (PCmp (Some f) op val) \<longleftrightarrow> is_reserved f \<longrightarrow> exact (PCmp (Some f) op val)"
| "scan_exact (PCmp None op val) \<longleftrightarrow> False"
| "scan_exact p \<longleftrightarrow> \<not> list_all is_reserved (pred_fields p [])"

subsection \<open>The groups\<close>

fun field_part :: "(string \<Rightarrow> predicate \<Rightarrow> bool) \<Rightarrow> predicate \<Rightarrow> bool" where
  "field_part hit (PAnd cs) \<longleftrightarrow> (\<forall>c \<in> set cs. field_part hit c)"
| "field_part hit (PCmp (Some f) op val) \<longleftrightarrow> is_reserved f \<or> hit f (PCmp None op val)"
| "field_part hit (PCmp None op val) \<longleftrightarrow> True"
| "field_part hit p \<longleftrightarrow> list_all is_reserved (pred_fields p []) \<or> hit (hd (pred_fields p [])) (strip_all_fields p)"

definition group_part :: "(string \<Rightarrow> predicate \<Rightarrow> bool) \<Rightarrow> (string \<times> predicate) list \<Rightarrow> bool" where
  "group_part hit gs \<longleftrightarrow> (\<forall>(n, s) \<in> set gs. hit n s)"

definition splits_and :: "(string \<Rightarrow> predicate \<Rightarrow> bool) \<Rightarrow> bool" where
  "splits_and hit \<longleftrightarrow> (\<forall>n a b. hit n (PAnd [a, b]) \<longleftrightarrow> hit n a \<and> hit n b)"

lemma push_group_names: "fst ` set (push_group gs name sub) = insert name (fst ` set gs)"
  by (induction gs name sub rule: push_group.induct) auto

lemma push_group_spec:
  "distinct (map fst gs) \<Longrightarrow> splits_and hit \<Longrightarrow> distinct (map fst (push_group gs name sub)) \<and>
   (group_part hit (push_group gs name sub) \<longleftrightarrow> group_part hit gs \<and> hit name sub)"
proof (induction gs name sub rule: push_group.induct)
  case (2 n p gs name sub)
  then show ?case by (auto simp: group_part_def push_group_names splits_and_def)
qed (simp add: group_part_def)

lemma walk_groups_spec:
  "walk_groups p gs = Ok gs' \<Longrightarrow> distinct (map fst gs) \<Longrightarrow> splits_and hit \<Longrightarrow>
   distinct (map fst gs') \<and> (group_part hit gs' \<longleftrightarrow> group_part hit gs \<and> field_part hit p)"
proof (induction p gs arbitrary: gs' rule: walk_groups.induct)
  case (1 cs gs)
  have "\<lbrakk>foldM (\<lambda>g c. walk_groups c g) gs cs' = Ok gs'; set cs' \<subseteq> set cs; distinct (map fst gs)\<rbrakk> \<Longrightarrow>
      distinct (map fst gs') \<and> (group_part hit gs' \<longleftrightarrow> group_part hit gs \<and> (\<forall>c \<in> set cs'. field_part hit c))" for cs' gs gs'
  proof (induction cs' arbitrary: gs)
    case (Cons c cs')
    obtain g1 where g1: "walk_groups c gs = Ok g1" "foldM (\<lambda>g c. walk_groups c g) g1 cs' = Ok gs'"
      using Cons.prems(1) by (auto simp: res_simps)
    have "distinct (map fst g1) \<and> (group_part hit g1 \<longleftrightarrow> group_part hit gs \<and> field_part hit c)"
      using "1.IH"[OF _ g1(1) Cons.prems(3) "1.prems"(3)] Cons.prems(2) by simp
    then show ?case using Cons.IH[OF g1(2)] Cons.prems(2) by auto
  qed simp
  from this[OF "1.prems"(1)[simplified] subset_refl "1.prems"(2)] show ?case by simp
next
  case (2 name op val gs)
  then show ?case using push_group_spec[OF 2(2,3)] by (auto simp: res_simps split: if_splits)
next
  case "4_1"
  then show ?case using push_group_spec[OF "4_1"(2,3)] by (auto simp: Let_def split: if_splits)
next
  case "4_2"
  then show ?case using push_group_spec[OF "4_2"(2,3)] by (auto simp: Let_def split: if_splits)
qed simp_all

lemma reserved_fields: "is_reserved f \<longleftrightarrow> f \<in> set [''sym'', ''time'']"
  by (simp add: is_reserved_def RESERVED_FIELD_NAMES_def)


subsection \<open>The index part\<close>

lemma set_foldl_fields:
  "(\<And>c o'. c \<in> set xs \<Longrightarrow> set (pred_fields c o') = set o' \<union> fl c) \<Longrightarrow>
   set (foldl (\<lambda>o' f. f o') out (map pred_fields xs)) = set out \<union> (\<Union>c \<in> set xs. fl c)"
proof (induction xs arbitrary: out)
  case (Cons x xs)
  have "set (foldl (\<lambda>o' f. f o') (pred_fields x out) (map pred_fields xs)) = set (pred_fields x out) \<union> (\<Union>c \<in> set xs. fl c)"
    by (rule Cons.IH) (rule Cons.prems, simp)
  also have "set (pred_fields x out) = set out \<union> fl x" by (rule Cons.prems) simp
  finally show ?case by auto
qed simp

lemma set_pred_fields: "set (pred_fields p out) = set out \<union> set (pred_fields p [])"
proof (induction p arbitrary: out)
  case (PAnd cs)
  from set_foldl_fields[of cs "\<lambda>c. set (pred_fields c [])", OF PAnd] show ?case by simp
next
  case (POr cs)
  from set_foldl_fields[of cs "\<lambda>c. set (pred_fields c [])", OF POr] show ?case by simp
next
  case (PNot p)
  show ?case using PNot[of out] by (simp only: pred_fields.simps)
next
  case (PCmp f op val)
  then show ?case by (auto split: option.splits)
qed

lemma set_fields_list:
  "set (pred_fields (PAnd cs) []) = (\<Union>c \<in> set cs. set (pred_fields c []))"
  "set (pred_fields (POr cs) []) = (\<Union>c \<in> set cs. set (pred_fields c []))"
  using set_foldl_fields[of cs "\<lambda>c. set (pred_fields c [])" "[]", OF set_pred_fields] by simp_all

lemma collect_none:
  "grounded p \<Longrightarrow> set (pred_fields p []) \<subseteq> {f} \<Longrightarrow> f \<notin> set allowed \<Longrightarrow> collect_allowed allowed p = []"
proof (induction allowed p rule: collect_allowed.induct)
  case (1 allowed cs)
  then show ?case by (auto simp: set_fields_list simp del: pred_fields.simps)
next
  case (2 allowed cs)
  then obtain c where c: "c \<in> set cs" "pred_fields c [] \<noteq> []" by (cases cs) auto
  then have "hd (pred_fields c []) \<in> set (pred_fields c [])" by simp
  then obtain g where "g \<in> set (pred_fields (POr cs) [])" unfolding set_fields_list using c(1) by blast
  then have "f \<in> set (pred_fields (POr cs) [])" using 2(3) by blast
  then have n: "\<not> list_all (\<lambda>f. f \<in> set allowed) (pred_fields (POr cs) [])" using 2(4) by (auto simp: list_all_iff)
  have "collect_allowed allowed c = []" if "c \<in> set cs" for c
    by (rule "2.IH"[OF n that]) (use 2(2-4) that in \<open>auto simp: set_fields_list simp del: pred_fields.simps\<close>)
  then show ?case using n by (auto simp del: pred_fields.simps)
qed auto

text \<open>An accepted disjunction or negation is one of symbol and time or of one field.\<close>

lemma collect_accepted:
  assumes "walk_groups (POr cs) gs = Ok gs'" "grounded (POr cs)" "\<not> list_all is_reserved (pred_fields (POr cs) [])"
  shows "collect_allowed [''sym'', ''time''] (POr cs) = []"
proof -
  have l: "length (pred_fields (POr cs) []) = 1" "\<not> is_reserved (hd (pred_fields (POr cs) []))"
    using assms(1,3) by (auto simp: Let_def simp del: pred_fields.simps split: if_splits)
  then obtain f where f: "pred_fields (POr cs) [] = [f]" by (cases "pred_fields (POr cs) []") auto
  show ?thesis by (rule collect_none[OF assms(2), of f]) (use f l(2) reserved_fields in \<open>simp_all\<close>)
qed

lemma list_all_reserved: "list_all (\<lambda>f. f \<in> set [''sym'', ''time'']) fs \<longleftrightarrow> list_all is_reserved fs"
  by (simp add: list_all_iff reserved_fields)

lemma foldM_member:
  "foldM (\<lambda>g c. walk_groups c g) gs cs = Ok gs' \<Longrightarrow> c \<in> set cs \<Longrightarrow> \<exists>g g'. walk_groups c g = Ok g'"
  by (induction cs arbitrary: gs) (auto simp: res_simps)

lemma ds_holds_parts:
  assumes "grounded p"
  shows "walk_groups p gs = Ok gs' \<Longrightarrow>
    (ds_holds other name t hit p \<longrightarrow> field_part hit p \<and> (\<forall>q \<in> set (collect_allowed [''sym'', ''time''] p). index_holds other name t q)) \<and>
    (scan_exact p \<longrightarrow> (\<forall>q \<in> set (collect_allowed [''sym'', ''time''] p). exact q) \<and>
      (field_part hit p \<longrightarrow> (\<forall>q \<in> set (collect_allowed [''sym'', ''time''] p). index_holds other name t q) \<longrightarrow> ds_holds other name t hit p))"
  using assms
proof (induction p arbitrary: gs gs')
  case (PAnd cs)
  have "\<exists>g g'. walk_groups c g = Ok g'" if "c \<in> set cs" for c using foldM_member PAnd.prems(1) that by simp
  then have "(ds_holds other name t hit c \<longrightarrow> field_part hit c \<and> (\<forall>q \<in> set (collect_allowed [''sym'', ''time''] c). index_holds other name t q)) \<and>
    (scan_exact c \<longrightarrow> (\<forall>q \<in> set (collect_allowed [''sym'', ''time''] c). exact q) \<and>
      (field_part hit c \<longrightarrow> (\<forall>q \<in> set (collect_allowed [''sym'', ''time''] c). index_holds other name t q) \<longrightarrow> ds_holds other name t hit c))"
    if "c \<in> set cs" for c using PAnd.IH[OF that] PAnd.prems(2) that by fastforce
  then have *: "\<And>c. c \<in> set cs \<Longrightarrow> ds_holds other name t hit c \<Longrightarrow> field_part hit c"
    "\<And>c q. c \<in> set cs \<Longrightarrow> ds_holds other name t hit c \<Longrightarrow> q \<in> set (collect_allowed [''sym'', ''time''] c) \<Longrightarrow> index_holds other name t q"
    "\<And>c q. c \<in> set cs \<Longrightarrow> scan_exact c \<Longrightarrow> q \<in> set (collect_allowed [''sym'', ''time''] c) \<Longrightarrow> exact q"
    "\<And>c. c \<in> set cs \<Longrightarrow> scan_exact c \<Longrightarrow> field_part hit c \<Longrightarrow>
      (\<forall>q \<in> set (collect_allowed [''sym'', ''time''] c). index_holds other name t q) \<Longrightarrow> ds_holds other name t hit c" by blast+
  show ?case
    unfolding ds_holds.simps field_part.simps scan_exact.simps collect_allowed.simps set_concat set_map
  proof (intro conjI impI ballI)
    fix c assume "\<forall>c \<in> set cs. ds_holds other name t hit c" "c \<in> set cs"
    then show "field_part hit c" using *(1) by blast
  next
    fix q assume "\<forall>c \<in> set cs. ds_holds other name t hit c" "q \<in> \<Union> (set ` collect_allowed [''sym'', ''time''] ` set cs)"
    then show "index_holds other name t q" using *(2) by blast
  next
    fix q assume "\<forall>c \<in> set cs. scan_exact c" "q \<in> \<Union> (set ` collect_allowed [''sym'', ''time''] ` set cs)"
    then show "exact q" using *(3) by blast
  next
    fix c assume "\<forall>c \<in> set cs. scan_exact c" "\<forall>c \<in> set cs. field_part hit c"
      "\<forall>q \<in> \<Union> (set ` collect_allowed [''sym'', ''time''] ` set cs). index_holds other name t q" "c \<in> set cs"
    then show "ds_holds other name t hit c" using *(4)[of c] by blast
  qed
next
  case (POr cs)
  show ?case
  proof (cases "list_all is_reserved (pred_fields (POr cs) [])")
    case True
    then have "collect_allowed [''sym'', ''time''] (POr cs) = [POr cs]"
      by (simp only: collect_allowed.simps list_all_reserved if_True)
    then show ?thesis using True by (simp del: pred_fields.simps collect_allowed.simps)
  next
    case False
    have "collect_allowed [''sym'', ''time''] (POr cs) = []" by (rule collect_accepted[OF POr.prems(1,2) False])
    then show ?thesis using False by (simp del: pred_fields.simps collect_allowed.simps)
  qed
next
  case (PNot p)
  show ?case by simp
next
  case (PCmp f op val)
  show ?case by (cases f) (auto simp add: reserved_fields simp del: exact.simps)
qed

lemma collect_literals: "literals_ok p \<Longrightarrow> q \<in> set (collect_allowed allowed p) \<Longrightarrow> literals_ok q"
  by (induction allowed p rule: collect_allowed.induct) (auto split: if_splits)


subsection \<open>The scan of one field\<close>

lemma scanner_next_unlimited:
  "scanner_next src sc = Ok (r, sc') \<Longrightarrow> sc_remaining sc = None \<Longrightarrow> sc_remaining sc' = None"
proof (induction src sc arbitrary: r sc' rule: scanner_next.induct)
  case (1 src sc)
  show ?case
  proof (cases "sc_done sc")
    case True
    then show ?thesis using "1.prems" by (simp add: scanner_next.simps)
  next
    case nd: False
    obtain run where run: "(if sc_mask_pos sc < sc_mask_rows sc
        then next_true_run (sc_mask sc) (sc_mask_rows sc) (sc_mask_pos sc) else Ok None) = (Ok run :: (core_error, _) res)"
      using "1.prems"(1) nd unfolding scanner_next.simps[of src sc] by (auto simp: res_simps simp del: if_split_asm)
    show ?thesis
    proof (cases run)
      case (Some se)
      then show ?thesis using "1.prems" nd run
        by (cases se) (auto simp: scanner_next.simps[of src sc] scanner_take_def)
    next
      case None
      let ?row = "sc_row sc + sc_mask_rows sc"
      show ?thesis
      proof (cases "scanner_advance (sc_ranges sc) (sc_range_index sc) ?row")
        case None': None
        then show ?thesis using "1.prems" nd run None by (auto simp: scanner_next.simps[of src sc])
      next
        case (Some ir)
        obtain idx row' where ir: "ir = (idx, row')" by (cases ir)
        let ?fin = "min (rr_end (sc_ranges sc ! idx)) (row' + EVAL_CAP)"
        obtain sc1 where ev: "evaluate_range src (sc\<lparr>sc_range_index := idx, sc_row := row', sc_mask_rows := 0, sc_mask_pos := 0\<rparr>) (?fin - row') = Ok sc1"
          "scanner_next src sc1 = Ok (r, sc')"
          using "1.prems"(1) nd run None Some ir by (auto simp: scanner_next.simps[of src sc] res_simps Let_def)
        show ?thesis
          by (rule "1.IH"[OF nd run None refl Some ir[symmetric] refl ev(1) ev(2)])
             (use evaluate_range_fields(7)[OF ev(1)] "1.prems"(2) in simp)
      qed
    qed
  qed
qed

lemma scan_collect_nonempty:
  "scan_inv src n sc \<Longrightarrow> sc_remaining sc = None \<Longrightarrow> scan_collect fuel src sc = Ok (Some rs) \<Longrightarrow> r \<in> set rs \<Longrightarrow> 0 < rr_length r"
proof (induction fuel arbitrary: sc rs)
  case (Suc fuel)
  have ok: "next_ok src n sc (scanner_next src sc)" by (rule scanner_next_ok[OF Suc.prems(1)])
  then obtain o' sc' where nx: "scanner_next src sc = Ok (o', sc')"
    by (cases "scanner_next src sc") (auto simp: next_ok_def)
  have rem: "sc_remaining sc' = None" by (rule scanner_next_unlimited[OF nx Suc.prems(2)])
  show ?case
  proof (cases o')
    case None
    then show ?thesis using Suc.prems(3,4) nx by simp
  next
    case (Some r0)
    then have "scan_inv src n sc' \<and> limited (sc_remaining sc) (pending src sc) = rr_rows r0 @ limited (sc_remaining sc') (pending src sc') \<and>
        length (pending src sc') < length (pending src sc)" using ok nx by (simp add: next_ok_def)
    then have A: "scan_inv src n sc'" "length (pending src sc') < length (pending src sc)"
      "pending src sc = rr_rows r0 @ pending src sc'"
      unfolding Suc.prems(2) rem limited_def option.case by blast+
    then have "rr_rows r0 \<noteq> []" by (metis append_Nil less_irrefl)
    then have "0 < rr_length r0" by (simp add: rr_rows_def)
    moreover obtain rs' where "scan_collect fuel src sc' = Ok (Some rs')" "rs = r0 # rs'"
      using Suc.prems(3) nx Some by (auto simp: res_simps)
    ultimately show ?thesis using Suc.IH[OF A(1) rem] Suc.prems(4) by auto
  qed
qed simp

lemma length_cand: "length (cand rs 0) = sum_list (map rr_length rs)"
  by (induction rs) simp_all

lemma source_hit:
  assumes "i < n" "src_type src = dt"
  shows "src_hit src (Some sub) i \<longleftrightarrow> cell_hit dt sub (source_cells src n ! i)"
proof -
  let ?s = "size_of dt"
  have "slice (i * ?s) (i * ?s + ?s) (src_values src) = slice (0 * ?s) (0 * ?s + ?s) (slice (i * ?s) ((i + 1) * ?s) (src_values src))"
    by (subst slice_slice) (simp_all add: add.commute)
  then show ?thesis using assms by (simp add: src_hit_def cell_hit_def source_cells_def row_scalar_def conj_commute)
qed

lemma field_hits_eq:
  assumes h: "handle_shows h dt cells" and n: "length cells = n" "n \<le> u32_max" and pc: "pred_compatible dt sub"
    and cur: "scan_ranges current" "current \<noteq> []" "rows_all current \<subseteq> {..<n}"
  shows "\<exists>rs. field_hits h current sub = Ok rs \<and> scan_ranges rs \<and>
    rows_list rs = filter (\<lambda>i. cell_hit dt sub (cells ! i)) (rows_list current)"
proof -
  obtain src where src: "fd_ok h src" "src_type src = dt" "fd_row_count h = n" "source_cells src n = cells"
    using h n(1) by (auto simp: handle_shows_def)
  have n64: "n < 2 ^ 64" using n(2) by simp
  have ok: "src_ok src n (Some sub)"
    using src pc by (auto simp: src_ok_def fd_ok_def split: option.splits)
  have fits: "\<forall>r \<in> set current. rr_fits r" using cur(1) by (simp add: scan_ranges_def)
  let ?sc = "field_scan n current (Some sub) None"
  note S = field_scan_start[OF ok n64 fits, of None]
  have "[rr_offset r..<min n (rr_offset r + rr_length r)] = rr_rows r" if "r \<in> set current" for r
  proof (cases "rr_length r = 0")
    case False
    then have "rr_offset r + rr_length r - 1 \<in> rows_all current" using that by (force simp: rows_all_def rows_of_def)
    then have "rr_offset r + rr_length r - 1 < n" using cur(3) by auto
    then have "rr_offset r + rr_length r \<le> n" using False by linarith
    then show ?thesis by (simp add: rr_rows_def)
  qed (simp add: rr_rows_def)
  then have rq: "requested n current = rows_list current"
    using cur(2) by (simp add: requested_def rows_list_def cong: map_cong)
  have pend: "pending src ?sc = filter (src_hit src (Some sub)) (rows_list current)" using S(2) rq by simp
  have cc: "cand (sc_ranges ?sc) 0 = rows_list current"
    using cand_clip[OF n64 fits] rq cur(2) by (simp add: field_scan_def requested_def)
  have "length (pending src ?sc) \<le> length (rows_list current)" unfolding pend by (rule length_filter_le)
  also have "length (rows_list current) = sum_list (map rr_length (sc_ranges ?sc))" using length_cand cc by metis
  finally have fuel: "length (pending src ?sc) < Suc (sum_list (map rr_length (sc_ranges ?sc)))" by simp
  have hits: "filter (src_hit src (Some sub)) (rows_list current) = filter (\<lambda>i. cell_hit dt sub (cells ! i)) (rows_list current)"
    by (rule filter_cong[OF refl]) (use source_hit[of _ n src dt sub] src(2,4) cur(3) in auto)
  show ?thesis
  proof (cases "sc_ranges ?sc = []")
    case True
    then have "rows_list current = []" using cc by simp
    then show ?thesis using True src(3) by (intro exI[of _ "[]"]) (simp add: field_hits_def scan_ranges_def)
  next
    case False
    obtain rs where rs: "scan_collect (Suc (sum_list (map rr_length (sc_ranges ?sc)))) src ?sc = Ok (Some rs)"
      "concat (map rr_rows rs) = limited (sc_remaining ?sc) (pending src ?sc)"
      using scan_collect_rows[OF S(1) fuel] by blast
    have rl: "rows_list rs = filter (\<lambda>i. cell_hit dt sub (cells ! i)) (rows_list current)"
      using rs(2) pend hits by (simp add: rows_list_def field_scan_def limited_def)
    have pos: "\<forall>r \<in> set rs. 0 < rr_length r"
      using scan_collect_nonempty[OF S(1) _ rs(1)] by (simp add: field_scan_def)
    have "sorted_wrt (<) (rows_list rs)"
      unfolding rl using rows_list_sorted cur(1) by (simp add: scan_ranges_def sorted_wrt_filter)
    then have asc: "ascending rs" using sorted_rows_ascending pos by blast
    have "rr_fits r" if "r \<in> set rs" for r
    proof -
      have "rr_offset r + rr_length r - 1 \<in> set (rows_list rs)" using that pos by (force simp: rows_all_def rows_of_def)
      then have "rr_offset r + rr_length r - 1 < n" unfolding rl using cur(3) by auto
      then show ?thesis using n(2) by (simp add: rr_fits_def)
    qed
    moreover have "scan_source_of h = Ok src" using src(1) by (simp add: fd_ok_def)
    ultimately show ?thesis using False rs(1) rl asc src(3)
      by (intro exI[of _ rs]) (simp add: field_hits_def scan_ranges_def Let_def)
  qed
qed


subsection \<open>All fields\<close>

lemma foldl_results:
  "(\<forall>i \<in> set is. i < length xs) \<Longrightarrow>
   length (foldl (\<lambda>results (gi, hit). results[gi := hit]) xs (map (\<lambda>i. (i, g i)) is)) = length xs \<and>
   (\<forall>j < length xs. foldl (\<lambda>results (gi, hit). results[gi := hit]) xs (map (\<lambda>i. (i, g i)) is) ! j = (if j \<in> set is then g j else xs ! j))"
  by (induction "is" rule: rev_induct) (auto simp: nth_list_update)

text \<open>The threads give what the serial loop gives.\<close>

lemma join_threads_Ok: "join_threads (map Ok xs) = Ok xs"
  by (induction xs) simp_all

lemma scan_threads_serial:
  assumes "0 < p" "\<forall>gi < length groups. field_hits (handles ! gi) current (snd (groups ! gi)) = Ok (g gi)"
  shows "scan_threads p groups handles current = Ok (map g [0..<length groups])"
    "scan_serial groups handles current = Ok (map g [0..<length groups])"
proof -
  let ?n = "length groups" and ?bs = "round_robin p [0..<length groups]"
  have ms: "mset (concat ?bs) = mset [0..<?n]" by (rule mset_round_robin[OF assms(1)])
  have members: "set (concat ?bs) = {0..<?n}" using mset_eq_setD[OF ms] by (simp only: set_upt)
  have "scan_thread groups handles current bucket = Ok (map (\<lambda>gi. (gi, g gi)) bucket)" if "bucket \<in> set ?bs" for bucket
  proof -
    have "set bucket \<subseteq> {0..<?n}" using members that by auto
    then show ?thesis unfolding scan_thread_def by (intro mapM_all_Ok) (use assms(2) in auto)
  qed
  then have "map (scan_thread groups handles current) ?bs = map Ok (map (map (\<lambda>gi. (gi, g gi))) ?bs)" by simp
  then have "join_threads (map (scan_thread groups handles current) ?bs) = Ok (map (map (\<lambda>gi. (gi, g gi))) ?bs)"
    by (simp only: join_threads_Ok)
  moreover have "foldl (\<lambda>results (gi, hit). results[gi := hit]) (replicate ?n []) (concat (map (map (\<lambda>gi. (gi, g gi))) ?bs)) = map g [0..<?n]"
  proof -
    define js where "js = concat ?bs"
    have js: "set js = {0..<?n}" using members by (simp add: js_def)
    then have "\<forall>i \<in> set js. i < length (replicate ?n [])" by simp
    from foldl_results[OF this, of g]
    have "foldl (\<lambda>results (gi, hit). results[gi := hit]) (replicate ?n []) (map (\<lambda>gi. (gi, g gi)) js) = map g [0..<?n]"
      using js by (intro nth_equalityI) simp_all
    then show ?thesis by (simp add: js_def map_concat)
  qed
  ultimately show "scan_threads p groups handles current = Ok (map g [0..<?n])" by (simp add: scan_threads_def)
  show "scan_serial groups handles current = Ok (map g [0..<?n])"
    unfolding scan_serial_def by (intro mapM_all_Ok) (use assms(2) in auto)
qed

lemma intersect_results_rows:
  "scan_ranges current \<Longrightarrow> \<forall>r \<in> set rs. scan_ranges r \<Longrightarrow> scan_ranges (intersect_results current rs) \<and>
   rows_list (intersect_results current rs) = filter (\<lambda>i. \<forall>r \<in> set rs. i \<in> rows_all r) (rows_list current)"
proof (induction rs arbitrary: current)
  case (Cons r rs)
  show ?case
  proof (cases "current = []")
    case False
    have r: "scan_ranges r" using Cons.prems(2) by simp
    note I = intersect_scan_ranges[OF Cons.prems(1) r]
    show ?thesis using Cons.IH[OF I(1)] Cons.prems(2) False by (simp add: I(2) conj_commute)
  qed (use Cons.prems in simp)
qed simp

lemma scan_groups_rows:
  assumes hits: "current \<noteq> [] \<Longrightarrow> \<forall>gi < length groups. \<exists>rs. field_hits (handles ! gi) current (snd (groups ! gi)) = Ok rs \<and>
      scan_ranges rs \<and> rows_list rs = filter (\<lambda>i. hit gi i) (rows_list current)"
    and cur: "scan_ranges current"
  shows "\<exists>results. scan_groups p groups handles current = Ok results \<and> scan_ranges (intersect_results current results) \<and>
    rows_list (intersect_results current results) = filter (\<lambda>i. \<forall>gi < length groups. hit gi i) (rows_list current)"
proof (cases "groups = [] \<or> current = []")
  case True
  then show ?thesis using cur by (auto simp: scan_groups_def)
next
  case False
  define P where "P = (\<lambda>gi rs. gi < length groups \<longrightarrow> field_hits (handles ! gi) current (snd (groups ! gi)) = Ok rs \<and>
      scan_ranges rs \<and> rows_list rs = filter (\<lambda>i. hit gi i) (rows_list current))"
  have "\<forall>gi. \<exists>rs. P gi rs" unfolding P_def using hits False by blast
  then obtain g where "\<forall>gi. P gi (g gi)" by (rule choice[THEN exE])
  then have g: "\<forall>gi < length groups. field_hits (handles ! gi) current (snd (groups ! gi)) = Ok (g gi) \<and>
      scan_ranges (g gi) \<and> rows_list (g gi) = filter (\<lambda>i. hit gi i) (rows_list current)"
    by (simp add: P_def)
  then have ok: "\<forall>gi < length groups. field_hits (handles ! gi) current (snd (groups ! gi)) = Ok (g gi)" by blast
  let ?rs = "map g [0..<length groups]"
  have pos: "1 < p \<and> 1 < length groups \<longrightarrow> 0 < min p (length groups)" by auto
  have "scan_groups p groups handles current = Ok ?rs"
    using False scan_threads_serial(1)[OF _ ok, of "min p (length groups)"] scan_threads_serial(2)[OF _ ok, of 1] pos
    by (simp add: scan_groups_def)
  moreover have "\<forall>r \<in> set ?rs. scan_ranges r" using g by auto
  from intersect_results_rows[OF cur this]
  have "scan_ranges (intersect_results current ?rs)"
    "rows_list (intersect_results current ?rs) = filter (\<lambda>i. \<forall>r \<in> set ?rs. i \<in> rows_all r) (rows_list current)" by blast+
  moreover have "filter (\<lambda>i. \<forall>r \<in> set ?rs. i \<in> rows_all r) (rows_list current) =
      filter (\<lambda>i. \<forall>gi < length groups. hit gi i) (rows_list current)"
  proof (rule filter_cong[OF refl])
    fix i assume i: "i \<in> set (rows_list current)"
    have "i \<in> rows_all (g gi) \<longleftrightarrow> hit gi i" if "gi < length groups" for gi
    proof -
      have "rows_all (g gi) = set (filter (\<lambda>i. hit gi i) (rows_list current))" using g that set_rows_list by metis
      then show ?thesis using i by simp
    qed
    then show "(\<forall>r \<in> set ?rs. i \<in> rows_all r) \<longleftrightarrow> (\<forall>gi < length groups. hit gi i)" by auto
  qed
  ultimately show ?thesis by auto
qed

lemma group_handles_eq:
  "\<forall>g \<in> set gs. \<exists>dt cells. field_shows B fs d (fst g) dt cells \<Longrightarrow>
   \<exists>d' hs. group_handles B gs (d, fs) = (Ok hs, d', fs) \<and> opened_more B fs d d' \<and> length hs = length gs \<and>
     (\<forall>i < length gs. map_of (ds_fields d') (fst (gs ! i)) = Some (hs ! i))"
proof (induction gs arbitrary: d)
  case Nil
  then show ?case using opened_more_refl by (simp add: ds_simps)
next
  case (Cons g gs)
  obtain name sub where g: "g = (name, sub)" by (cases g)
  obtain dt cells where "field_shows B fs d name dt cells" using Cons.prems g by auto
  from ensure_field_eq[OF this] obtain d1 h where d1: "ensure_field B name (d, fs) = (Ok (), d1, fs)" "opened_more B fs d d1"
    "map_of (ds_fields d1) name = Some h" by blast
  have "\<forall>g \<in> set gs. \<exists>dt cells. field_shows B fs d1 (fst g) dt cells"
    using Cons.prems opened_more_shows[OF d1(2)] by (metis list.set_intros(2))
  from Cons.IH[OF this] obtain d2 hs where d2: "group_handles B gs (d1, fs) = (Ok hs, d2, fs)" "opened_more B fs d1 d2"
    "length hs = length gs" "\<forall>i < length gs. map_of (ds_fields d2) (fst (gs ! i)) = Some (hs ! i)" by blast
  have "map_of (ds_fields d2) name = Some h" using d2(2) d1(3) unfolding opened_more_def by (metis option.distinct(1))
  moreover have "cached_handle d1 name = Ok h" using d1(3) by (simp add: cached_handle_def ok_or_def)
  ultimately show ?case
    using d1(1) d2 opened_more_trans[OF d1(2) d2(2)] g
    by (intro exI[of _ d2] exI[of _ "h # hs"]) (simp add: ds_bind_def ds_get_def ds_lift_def ds_ret_def nth_Cons split: nat.splits)
qed

subsection \<open>The index and the whole scan\<close>

lemma index_collect_all:
  assumes "is_pos sc = 0" "is_limit sc = None"
  shows "drain_index sc = Ok (is_ranges sc)"
proof -
  have "length (is_ranges s) - is_pos s < fuel \<Longrightarrow> is_limit s = None \<Longrightarrow> index_collect fuel s = Some (drop (is_pos s) (is_ranges s))" for fuel s
  proof (induction fuel arbitrary: s)
    case (Suc fuel)
    show ?case
    proof (cases "length (is_ranges s) \<le> is_pos s")
      case False
      let ?s = "s\<lparr>is_pos := is_pos s + 1\<rparr>"
      have "index_collect fuel ?s = Some (drop (is_pos ?s) (is_ranges ?s))" by (rule Suc.IH) (use Suc.prems False in auto)
      then show ?thesis using Suc.prems(2) False by (simp add: index_next_def Let_def Cons_nth_drop_Suc)
    qed (simp add: index_next_def)
  qed simp
  from this[of sc "Suc (length (is_ranges sc))"] show ?thesis using assms by (simp add: drain_index_def)
qed

lemma dataset_collect_rows:
  "concat (map rr_rows (dataset_collect sc)) = limited (dn_remaining sc) (rows_list (dn_ranges sc))"
proof (induction sc rule: dataset_collect.induct)
  case (1 sc)
  show ?case
  proof (cases "dn_ranges sc")
    case Nil
    then show ?thesis by (simp add: dataset_collect.simps[of sc] dataset_next_def limited_def split: option.splits)
  next
    case (Cons r rs)
    show ?thesis
    proof (cases "dn_remaining sc")
      case None
      let ?s = "sc\<lparr>dn_ranges := rs\<rparr>"
      have nx: "dataset_next sc = (Some r, ?s)" using Cons None by (simp add: dataset_next_def)
      then have "dataset_collect sc = r # dataset_collect ?s" by (simp add: dataset_collect.simps[of sc])
      then show ?thesis using 1[OF nx[symmetric] refl] Cons None by (simp add: limited_def)
    next
      case (Some k)
      define tk where "tk = min (rr_length r) k"
      let ?r = "if tk < rr_length r then rr_new (rr_offset r) tk else r"
      let ?s = "\<lparr>dn_ranges = (if k - tk = 0 then [] else rs), dn_remaining = Some (k - tk)\<rparr>"
      have nx: "dataset_next sc = (Some ?r, ?s)" using Cons Some by (simp add: dataset_next_def tk_def Let_def)
      then have c: "dataset_collect sc = ?r # dataset_collect ?s" by (simp add: dataset_collect.simps[of sc])
      have "rr_rows ?r = take k (rr_rows r)" by (auto simp: rr_rows_def tk_def take_upt min_def)
      moreover have "k - tk = k - length (rr_rows r)" by (simp add: tk_def rr_rows_def)
      ultimately show ?thesis using 1[OF nx[symmetric] refl] Cons Some c
        by (simp add: limited_def)
    qed
  qed
qed


lemma narrow_by_index_eq:
  assumes ix: "indexed tt axis names recs n h" "axis_ok h" "dict_ok h" and lit: "literals_ok p"
    and cur: "scan_ranges current" "rows_all current \<subseteq> {..<n}"
  shows "\<exists>current' sel. narrow_by_index h current p = Ok current' \<and> scan_ranges current' \<and>
    rows_list current' = filter sel (rows_list current) \<and>
    (\<forall>i < n. (\<forall>q \<in> set (collect_allowed [''sym'', ''time''] p).
         index_holds other (name_key h (fst (grid_from 0 recs ! i))) (uint (time_key h (snd (grid_from 0 recs ! i)))) q) \<longrightarrow> sel i) \<and>
    ((\<forall>q \<in> set (collect_allowed [''sym'', ''time''] p). exact q) \<longrightarrow> (\<forall>i < n. sel i \<longrightarrow>
       (\<forall>q \<in> set (collect_allowed [''sym'', ''time''] p).
         index_holds other (name_key h (fst (grid_from 0 recs ! i))) (uint (time_key h (snd (grid_from 0 recs ! i)))) q)))"
proof -
  let ?qs = "collect_allowed [''sym'', ''time''] p"
  show ?thesis
  proof (cases "?qs = []")
    case True
    then show ?thesis using cur(1)
      by (intro exI[of _ current] exI[of _ "\<lambda>_. True"]) (simp add: narrow_by_index_def collect_for_fields_def)
  next
    case False
    let ?rq = "\<lparr>sq_ranges = current, sq_projection = [], sq_predicate = Some (PAnd ?qs), sq_limit = None\<rparr>"
    have l: "case sq_predicate ?rq of None \<Rightarrow> True | Some q \<Rightarrow> literals_ok q" using collect_literals[OF lit] by simp
    have r: "sq_limit ?rq = None" "\<forall>r \<in> set (sq_ranges ?rq). rr_fits r" using cur(1) by (simp_all add: scan_ranges_def)
    obtain sc w where S: "scan_index_handle h ?rq = Ok sc" "compile_predicate h (sq_predicate ?rq) = Ok w"
      "is_pos sc = 0" "is_limit sc = None" "scan_ranges (is_ranges sc)"
      "rows_all (is_ranges sc) = {i. i < n \<and> in_request ?rq i \<and> selects w (fst (grid_from 0 recs ! i)) (snd (grid_from 0 recs ! i))}"
      using scan_index_rows[OF ix l r] by blast
    define sel where "sel = (\<lambda>i. selects w (fst (grid_from 0 recs ! i)) (snd (grid_from 0 recs ! i)))"
    note I = intersect_scan_ranges[OF cur(1) S(5)]
    have "filter (\<lambda>x. x \<in> rows_all (is_ranges sc)) (rows_list current) = filter sel (rows_list current)"
    proof (rule filter_cong[OF refl])
      fix i assume "i \<in> set (rows_list current)"
      then have "i \<in> rows_all current" "i < n" using cur(2) by auto
      then show "i \<in> rows_all (is_ranges sc) \<longleftrightarrow> sel i" unfolding S(6) by (simp add: in_request_def sel_def)
    qed
    moreover have "narrow_by_index h current p = Ok (intersect_lists current (is_ranges sc))"
      using False S(1) index_collect_all[OF S(3,4)] by (simp add: narrow_by_index_def collect_for_fields_def)
    moreover have "((\<forall>q \<in> set ?qs. index_holds other (name_key h (fst (grid_from 0 recs ! i))) (uint (time_key h (snd (grid_from 0 recs ! i)))) q) \<longrightarrow> sel i) \<and>
       ((\<forall>q \<in> set ?qs. exact q) \<longrightarrow> sel i \<longrightarrow>
        (\<forall>q \<in> set ?qs. index_holds other (name_key h (fst (grid_from 0 recs ! i))) (uint (time_key h (snd (grid_from 0 recs ! i)))) q))"
      if "i < n" for i
      using compile_predicate_spec[OF ix(2,3) l, of other] S(2) grid_in_bounds[OF ix(1) that]
      by (auto simp: sel_def Let_def)
    ultimately show ?thesis using I by (intro exI[of _ "intersect_lists current (is_ranges sc)"] exI[of _ sel]) auto
  qed
qed


lemma merge_rows: "scan_ranges rs \<Longrightarrow> rows_list (merge_ranges rs) = rows_list rs"
proof -
  assume rs: "scan_ranges rs"
  then have f: "\<forall>r \<in> set rs. rr_fits r" by (simp add: scan_ranges_def)
  note M = merge_ranges_eq[OF f]
  have "sorted_wrt (<) (rows_list (merge_ranges rs))" using M(2) by (intro rows_list_sorted separated_ascending)
  moreover have "sorted_wrt (<) (rows_list rs)" using rs by (intro rows_list_sorted) (simp add: scan_ranges_def)
  moreover have "set (rows_list rs) = set (rows_list (merge_ranges rs))" using M(1) by simp
  ultimately show ?thesis using strict_sorted_equal by blast
qed

definition row_sym :: "meta_handle \<Rightarrow> sym_record list \<Rightarrow> nat \<Rightarrow> bytes" where
  "row_sym h recs i = name_key h (fst (grid_from 0 recs ! i))"

definition row_time :: "time_type \<Rightarrow> meta_handle \<Rightarrow> sym_record list \<Rightarrow> nat \<Rightarrow> int" where
  "row_time tt h recs i = time_value tt (time_key h (snd (grid_from 0 recs ! i)))"

lemma splits_cell_hit: "splits_and (\<lambda>f q. cell_hit (dt f) q (cells f ! i))"
  by (auto simp: splits_and_def cell_hit_def split: cell_value.splits)

subsection \<open>Properties\<close>

text \<open>C30. For an index whose times are not before 1970, and a predicate whose time literals are whole numbers,
  not negative and below \<open>u64::MAX\<close> (others are cast to such a number), and whose disjunctions are not empty
  and mention a field in every part: draining a dataset scan returns rows of the requested ranges in
  ascending order, up to the limit, and loses no row that satisfies the predicate; when every part of the
  predicate is decided by the scan (conjunctions of symbol equalities, time comparisons and conditions on
  single fields) it returns no other row. Serial and threaded scans agree, and no file changes.\<close>

theorem scan_dataset_correct:
  assumes "indexed tt axis names recs n (ds_meta d)" "axis_ok (ds_meta d)" "dict_ok (ds_meta d)"
    and "\<forall>r \<in> set (sq_ranges rq). rr_fits r" "sq_predicate rq = Some p" "literals_ok p" "grounded p"
    and "\<forall>t < time_total (ds_meta d). 0 \<le> time_value tt (time_key (ds_meta d) t)"
    and "predicate_groups p = Ok groups"
    and "\<forall>(f, sub) \<in> set groups. field_shows B fs d f (dt f) (cells f) \<and> length (cells f) = n \<and> pred_compatible (dt f) sub"
  shows "\<exists>d' sc sel. scan_dataset B rq (d, fs) = (Ok sc, d', fs) \<and>
    concat (map rr_rows (dataset_collect sc)) = limited (sq_limit rq) (filter sel (rows_list (clamp_ranges (sq_ranges rq) n))) \<and>
    (\<forall>i < n. ds_holds other (row_sym (ds_meta d) recs i) (row_time tt (ds_meta d) recs i)
       (\<lambda>f q. cell_hit (dt f) q (cells f ! i)) p \<longrightarrow> sel i) \<and>
    (scan_exact p \<longrightarrow> (\<forall>i < n. sel i \<longrightarrow> ds_holds other (row_sym (ds_meta d) recs i) (row_time tt (ds_meta d) recs i)
       (\<lambda>f q. cell_hit (dt f) q (cells f ! i)) p))"
proof -
  let ?h = "ds_meta d" and ?qs = "collect_allowed [''sym'', ''time''] p"
  define hit where "hit = (\<lambda>i f q. cell_hit (dt f) q (cells f ! i))"
  define cl where "cl = clamp_ranges (sq_ranges rq) n"
  have n: "n \<le> u32_max" "logical_length d = n" using indexed_schema(2,3)[OF assms(1)] by (simp_all add: logical_length_def)
  have n64: "n < 2 ^ 64" using n(1) by simp
  note C = clamp_ranges_eq[OF assms(4) n64]
  have cur: "scan_ranges cl" "rows_all cl \<subseteq> {..<n}"
    using C by (auto simp: cl_def scan_ranges_def separated_ascending split: if_splits)
  have tv: "uint (time_key ?h (snd (grid_from 0 recs ! i))) = row_time tt ?h recs i" if "i < n" for i
  proof -
    note b = grid_in_bounds(2)[OF assms(1) that]
    show ?thesis using time_value_key[OF indexed_simps(1)[OF assms(1)] b] assms(8) b by (simp add: row_time_def)
  qed
  obtain cur' sel1 where I: "narrow_by_index ?h cl p = Ok cur'" "scan_ranges cur'" "rows_list cur' = filter sel1 (rows_list cl)"
    "\<forall>i < n. (\<forall>q \<in> set ?qs. index_holds other (row_sym ?h recs i) (row_time tt ?h recs i) q) \<longrightarrow> sel1 i"
    "(\<forall>q \<in> set ?qs. exact q) \<longrightarrow> (\<forall>i < n. sel1 i \<longrightarrow> (\<forall>q \<in> set ?qs. index_holds other (row_sym ?h recs i) (row_time tt ?h recs i) q))"
    using narrow_by_index_eq[OF assms(1-3,6) cur, of other] tv unfolding row_sym_def by (metis (no_types, lifting))
  have sub': "rows_all cur' \<subseteq> {..<n}"
  proof -
    have "set (rows_list cur') \<subseteq> set (rows_list cl)" unfolding I(3) by auto
    then show ?thesis using cur(2) by simp
  qed
  define gs where "gs = sort_key fst groups"
  have gset: "set gs = set groups" by (simp add: gs_def)
  have "\<forall>g \<in> set gs. \<exists>dt cells. field_shows B fs d (fst g) dt cells" using assms(10) gset by fastforce
  from group_handles_eq[OF this] obtain d' hs where H: "group_handles B gs (d, fs) = (Ok hs, d', fs)" "opened_more B fs d d'"
    "length hs = length gs" "\<forall>i < length gs. map_of (ds_fields d') (fst (gs ! i)) = Some (hs ! i)" by blast
  have "\<exists>rs. field_hits (hs ! gi) cur' (snd (gs ! gi)) = Ok rs \<and> scan_ranges rs \<and>
      rows_list rs = filter (\<lambda>i. hit i (fst (gs ! gi)) (snd (gs ! gi))) (rows_list cur')"
    if gi: "gi < length gs" and ne: "cur' \<noteq> []" for gi
  proof -
    obtain f sub where g: "gs ! gi = (f, sub)" by (cases "gs ! gi")
    then have "(f, sub) \<in> set groups" using gi gset by (metis nth_mem)
    then have F: "field_shows B fs d f (dt f) (cells f)" "length (cells f) = n" "pred_compatible (dt f) sub" using assms(10) by auto
    have "handle_shows (hs ! gi) (dt f) (cells f)"
      using opened_more_shows[OF H(2) F(1)] H(4) gi g by (auto simp: field_shows_def)
    from field_hits_eq[OF this F(2) n(1) F(3) I(2) ne sub'] show ?thesis by (simp add: g hit_def)
  qed
  then obtain results where R: "scan_groups (ds_max_parallelism d) gs hs cur' = Ok results"
    "scan_ranges (intersect_results cur' results)"
    "rows_list (intersect_results cur' results) = filter (\<lambda>i. \<forall>gi < length gs. hit i (fst (gs ! gi)) (snd (gs ! gi))) (rows_list cur')"
    using scan_groups_rows[of cur' gs hs "\<lambda>gi i. hit i (fst (gs ! gi)) (snd (gs ! gi))" "ds_max_parallelism d"] I(2) by blast
  define sel where "sel = (\<lambda>i. sel1 i \<and> group_part (hit i) groups)"
  let ?sc = "\<lparr>dn_ranges = merge_ranges (intersect_results cur' results), dn_remaining = sq_limit rq\<rparr>"
  have "(\<forall>gi < length gs. hit i (fst (gs ! gi)) (snd (gs ! gi))) \<longleftrightarrow> group_part (hit i) groups" for i
    unfolding group_part_def gset[symmetric] by (fastforce simp: in_set_conv_nth)
  then have rows: "rows_list (dn_ranges ?sc) = filter sel (rows_list cl)"
    using merge_rows[OF R(2)] R(3) I(3) by (simp add: sel_def conj_commute)
  have "ds_bind (group_handles B gs) f (d, fs) = f hs (d', fs)" for f :: "field_handle list \<Rightarrow> dataset_scanner ds"
    by (simp add: ds_bind_def H(1))
  then have "scan_dataset B rq (d, fs) = (Ok ?sc, d', fs)"
    using I(1) assms(5,9) R(1) n(2) by (simp add: scan_dataset_def ds_simps cl_def gs_def)
  moreover have "concat (map rr_rows (dataset_collect ?sc)) = limited (sq_limit rq) (filter sel (rows_list cl))"
    using dataset_collect_rows[of ?sc] rows by simp
  moreover have "walk_groups p [] = Ok groups" using assms(9) by (simp add: predicate_groups_def)
  note D = ds_holds_parts[OF assms(7) this]
  have "group_part (hit i) groups \<longleftrightarrow> field_part (hit i) p" for i
    using walk_groups_spec[OF \<open>walk_groups p [] = Ok groups\<close>, of "hit i"] splits_cell_hit
    by (simp add: hit_def group_part_def)
  then have "(ds_holds other (row_sym ?h recs i) (row_time tt ?h recs i) (hit i) p \<longrightarrow> sel i) \<and>
      (scan_exact p \<longrightarrow> sel i \<longrightarrow> ds_holds other (row_sym ?h recs i) (row_time tt ?h recs i) (hit i) p)" if "i < n" for i
    using D[of other "row_sym ?h recs i" "row_time tt ?h recs i" "hit i"] I(4,5) that unfolding sel_def by blast
  ultimately show ?thesis unfolding hit_def cl_def
    by (intro exI[of _ d'] exI[of _ ?sc] exI[of _ sel]) (simp only: simp_thms, blast)
qed

theorem scan_dataset_correct_witness:
  "\<exists>meta d' sc. meta_open (\<lambda>_. Some example_image) ''META'' = Ok meta \<and>
     scan_dataset example_backend \<lparr>sq_ranges = [rr_new 1 9], sq_projection = [],
        sq_predicate = Some (PAnd [PCmp (Some ''sym'') Eq (SStr [66]), PCmp (Some ''time'') Ge (SInt 2),
                                   PCmp (Some ''v'') Lt (SInt 9)]), sq_limit = None\<rparr>
       (example_dataset meta Read, [''r/v'' \<mapsto> example_field_image]) = (Ok sc, d', [''r/v'' \<mapsto> example_field_image]) \<and>
     concat (map rr_rows (dataset_collect sc)) = [3]"
proof -
  let ?p = "PAnd [PCmp (Some ''sym'') Eq (SStr [66]), PCmp (Some ''time'') Ge (SInt 2), PCmp (Some ''v'') Lt (SInt 9)]"
  let ?rq = "\<lparr>sq_ranges = [rr_new 1 9], sq_projection = [], sq_predicate = Some ?p, sq_limit = None\<rparr>"
  obtain meta where m: "meta_open (\<lambda>_. Some example_image) ''META'' = Ok meta"
    "indexed TT_TimestampUs [1, 2, 3] [[65], [66]] example_recs 5 meta" "axis_ok meta" "dict_ok meta"
    "time_key meta 0 = 1" "time_key meta 1 = 2" "time_key meta 2 = 3" "name_key meta 0 = [65]" "name_key meta 1 = [66]"
    by (rule example_indexed)
  let ?d = "example_dataset meta Read" and ?fs = "[''r/v'' \<mapsto> example_field_image]"
  have d: "ds_meta ?d = meta" by (simp add: example_dataset_def)
  have pos: "\<forall>t < time_total meta. 0 \<le> time_value TT_TimestampUs (time_key meta t)"
    using m(5-7) opened_sections(2)[OF indexed_simps(1)[OF m(2)]] by (auto simp: less_Suc_eq eval_nat_numeral)
  have groups: "predicate_groups ?p = Ok [(''v'', PCmp None Lt (SInt 9))]"
    by (simp add: predicate_groups_def is_reserved_def RESERVED_FIELD_NAMES_def validate_field_name_def)
  have f: "field_shows example_backend ?fs ?d ''v'' Int8 example_cells"
    using example_field_shows[of ?fs ?d "''v''"] by (simp add: example_path)
  have g: "grid_from 0 example_recs = [(0, 0), (0, 1), (1, 0), (1, 1), (1, 2)]" by code_simp
  have cl: "rows_list (clamp_ranges [rr_new 1 9] 5) = [1, 2, 3, 4]"
    by (simp add: clamp_ranges_def map_filter_simps rr_intersect_def rr_end_def merge_ranges_def rows_list_def rr_rows_def rr_new_def upt_rec)
  let ?holds = "\<lambda>i. ds_holds (\<lambda>_ _ _. True) (row_sym meta example_recs i) (row_time TT_TimestampUs meta example_recs i)
       (\<lambda>f q. cell_hit Int8 q (example_cells ! i)) ?p"
  have hit: "cell_hit Int8 (PCmp None Lt (SInt 9)) (example_cells ! 3)" "\<not> cell_hit Int8 (PCmp None Lt (SInt 9)) (example_cells ! 4)"
    by code_simp+
  have H: "?holds i \<longleftrightarrow> i = 3" if "i < 5" for i
  proof -
    have "i = 0 \<or> i = 1 \<or> i = 2 \<or> i = 3 \<or> i = 4" using that by auto
    then show ?thesis
      using m(5-9) hit by (elim disjE) (simp_all add: row_sym_def row_time_def g cmp_of_def is_reserved_def RESERVED_FIELD_NAMES_def)
  qed
  have E: "scan_exact ?p" by (simp add: is_reserved_def RESERVED_FIELD_NAMES_def)
  obtain d' sc sel where S: "scan_dataset example_backend ?rq (?d, ?fs) = (Ok sc, d', ?fs)"
    "concat (map rr_rows (dataset_collect sc)) = limited None (filter sel [1, 2, 3, 4])"
    "\<forall>i < 5. ?holds i \<longrightarrow> sel i" "scan_exact ?p \<longrightarrow> (\<forall>i < 5. sel i \<longrightarrow> ?holds i)"
    using scan_dataset_correct[where d = ?d and rq = ?rq and p = ?p and fs = ?fs and B = example_backend and n = 5
        and dt = "\<lambda>_. Int8" and cells = "\<lambda>_. example_cells" and groups = "[(''v'', PCmp None Lt (SInt 9))]"
        and other = "\<lambda>_ _ _. True" and recs = example_recs, unfolded d, OF m(2-4)] f groups pos
    by (simp add: rr_fits_def cl whole_time_int example_cells_def del: One_nat_def) blast
  have "sel i \<longleftrightarrow> i = 3" if "i < 5" for i using S(3,4) E H that by blast
  then have "filter sel [1, 2, 3, 4] = [3]" by simp
  then show ?thesis using m(1) S(1,2) by (intro exI[of _ meta] exI[of _ d'] exI[of _ sc]) (simp add: limited_def)
qed

end
