(* ===== verification/Table_Gather.thy ===== *)
theory Table_Gather
  imports Dataset_Chunks Partition "HOL-Library.Char_ord"
begin

text \<open>
  Splitting rows by partition (\<open>splayed-table/src/table.rs\<close>): one pass over the times finds, for every
  partition, the runs of consecutive rows that belong to it, and the runs are gathered into owned columns of
  their own, with dictionaries rebuilt from the strings that occur. The lemmas show that a partition gets
  exactly the rows whose time has its name, in their order, and that gathering keeps values, strings and
  NULLs.
\<close>

subsection \<open>Times\<close>

definition infer_tt :: "data_type \<Rightarrow> (core_error, time_type) res" where
  "infer_tt dt = (case dt of
     Date32 \<Rightarrow> Ok TT_Date32 | Int32 \<Rightarrow> Ok TT_Date32
   | TimestampUs \<Rightarrow> Ok TT_TimestampUs | Date64 \<Rightarrow> Ok TT_TimestampUs | Int64 \<Rightarrow> Ok TT_TimestampUs
   | _ \<Rightarrow> Err (Invalid ''unsupported time column type for partitioning''))"

definition time_bytes :: "data_type \<Rightarrow> bytes \<Rightarrow> nat \<Rightarrow> (core_error, int) res" where
  "time_bytes dt bs i =
     (if dt \<in> {Date32, Int32} then rbind (slice_r (i * 4) (i * 4 + 4) bs) (\<lambda>b. Ok (sint (of_le b :: u32)))
      else if dt \<in> {TimestampUs, Date64, Int64} then rbind (slice_r (i * 8) (i * 8 + 8) bs) (\<lambda>b. Ok (sint (of_le b :: u64)))
      else Err (Invalid ''unsupported time column type''))"

fun time_in_segments :: "data_type \<Rightarrow> column_segment list \<Rightarrow> nat \<Rightarrow> (core_error, int) res" where
  "time_in_segments dt [] i = Err (Invalid ''time row out of range'')"
| "time_in_segments dt (seg # segs) i =
     (if i < seg_rows seg
      then rbind (ok_or (fixed_bytes (seg_values seg)) (Invalid ''time column must be fixed-width'')) (\<lambda>bs. time_bytes dt bs i)
      else time_in_segments dt segs (i - seg_rows seg))"

definition time_value_at :: "column_view \<Rightarrow> nat \<Rightarrow> (core_error, int) res" where
  "time_value_at time_col i = time_in_segments (cv_data_type time_col) (cv_segments time_col) i"

subsection \<open>Gathering\<close>

type_synonym row_span = "nat \<times> nat"

text \<open>The rebuilt dictionary: \<open>u32::MAX\<close> in \<open>remap\<close> is a key that has not occurred.\<close>

record remap_state =
  rm_remap :: "u32 list"
  rm_keys :: "u32 list"
  rm_offsets :: "u64 list"
  rm_strings :: bytes
  rm_count :: u32
  rm_last_k :: u32
  rm_last_id :: u32

definition remap_key :: "bytes \<Rightarrow> bytes \<Rightarrow> remap_state \<Rightarrow> nat \<Rightarrow> ('e, remap_state \<times> u32) res" where
  "remap_key offsets strings s k =
     rbind (nth_r (rm_remap s) k) (\<lambda>nid.
       if nid = - 1
       then rbind (slice_r (k * 8) (k * 8 + 8) offsets) (\<lambda>lo_bytes.
            rbind (slice_r (k * 8 + 8) (k * 8 + 16) offsets) (\<lambda>hi_bytes.
            rbind (slice_r (unat (of_le lo_bytes :: u64)) (unat (of_le hi_bytes :: u64)) strings) (\<lambda>str.
              let strings' = rm_strings s @ str
              in Ok (s\<lparr>rm_strings := strings', rm_offsets := rm_offsets s @ [of_nat (length strings')],
                       rm_count := rm_count s + 1, rm_remap := (rm_remap s)[k := rm_count s]\<rparr>, rm_count s))))
       else Ok (s, nid))"

definition gather_key :: "bytes \<Rightarrow> bytes \<Rightarrow> remap_state \<Rightarrow> u32 \<Rightarrow> ('e, remap_state) res" where
  "gather_key offsets strings s k_raw =
     (if k_raw = rm_last_k s then Ok (s\<lparr>rm_keys := rm_keys s @ [rm_last_id s]\<rparr>)
      else rbind (remap_key offsets strings s (unat k_raw)) (\<lambda>(s, nid).
        Ok (s\<lparr>rm_last_k := k_raw, rm_last_id := nid, rm_keys := rm_keys s @ [nid]\<rparr>)))"

definition gather_dict :: "bytes \<Rightarrow> bytes \<Rightarrow> bytes \<Rightarrow> row_span list \<Rightarrow> ('e, remap_state) res" where
  "gather_dict values offsets strings runs =
     rbind (assert_that (8 \<le> length offsets)) (\<lambda>_.
     rbind (cast_words 4 values) (\<lambda>keys :: u32 list.
       foldM (\<lambda>s (start, len). rbind (slice_r start (start + len) keys) (foldM (gather_key offsets strings) s))
         \<lparr>rm_remap = replicate (length offsets div 8 - 1) (- 1), rm_keys = [], rm_offsets = [0], rm_strings = [],
          rm_count = 0, rm_last_k = - 1, rm_last_id = 0\<rparr> runs))"

definition gather_fixed :: "nat \<Rightarrow> nat \<Rightarrow> bytes \<Rightarrow> row_span list \<Rightarrow> ('e, bytes) res" where
  "gather_fixed width rows src runs =
     rbind (foldM (\<lambda>(dst, out) (start, len).
         rbind (slice_r (start * width) ((start + len) * width) src) (\<lambda>bs.
         rbind (copy_into out (out + len * width) bs dst) (\<lambda>dst. Ok (dst, out + len * width))))
       (replicate (rows * width) 0, 0) runs) (\<lambda>(dst, _). Ok dst)"

definition gather_piece :: "bitmap_view \<Rightarrow> bitmap \<times> nat \<Rightarrow> row_span \<Rightarrow> (core_error, bitmap \<times> nat) res" where
  "gather_piece src_view = (\<lambda>(dst, out) (start, len).
     rbind (fmt_err (view_slice src_view start len)) (\<lambda>piece.
     rbind (bitmap_copy_bits_from dst out piece len) (\<lambda>(dst, _). Ok (dst, out + len))))"

definition gather_validity :: "bitmap option \<Rightarrow> row_span list \<Rightarrow> nat \<Rightarrow> (core_error, bitmap option) res" where
  "gather_validity validity runs rows = (case validity of
       None \<Rightarrow> Ok None
     | Some bm \<Rightarrow>
         rbind (bitmap_as_view bm) (\<lambda>src_view.
         rbind (foldM (gather_piece src_view) (bitmap_zeros rows, 0) runs) (\<lambda>(dst, _).
         rbind (bm_count_ones dst) (\<lambda>n. Ok (if n = rows then None else Some dst)))))"

definition run_total :: "row_span list \<Rightarrow> nat" where
  "run_total runs = sum_list (map snd runs)"

definition gather_column :: "data_type \<Rightarrow> column \<Rightarrow> row_span list \<Rightarrow> (core_error, column) res" where
  "gather_column dt col runs = (case col_dict col of
       Some (offsets, strings) \<Rightarrow>
         rbind (gather_dict (col_values col) offsets strings runs) (\<lambda>s.
         rbind (gather_validity (col_validity col) runs (run_total runs)) (\<lambda>validity.
           Ok \<lparr>col_data_type = Utf8, col_values = concat (map (le_bytes 4) (rm_keys s)), col_validity = validity,
               col_dict = Some (concat (map (le_bytes 8) (rm_offsets s)), rm_strings s)\<rparr>))
     | None \<Rightarrow>
         rbind (gather_fixed (size_of dt) (run_total runs) (col_values col) runs) (\<lambda>values.
         rbind (gather_validity (col_validity col) runs (run_total runs)) (\<lambda>validity.
           Ok \<lparr>col_data_type = dt, col_values = values, col_validity = validity, col_dict = None\<rparr>)))"

definition gather_runs :: "data \<Rightarrow> row_span list \<Rightarrow> (core_error, data) res" where
  "gather_runs d runs =
     rbind (mapM (\<lambda>field. case data_column d (fs_name field) of
         None \<Rightarrow> Panic
       | Some col \<Rightarrow> gather_column (fs_type field) col runs) (da_schema d)) (\<lambda>columns.
       fmt_err (data_new (da_schema d) columns))"

subsection \<open>Runs of a partition\<close>

definition partition_key :: "partition_scheme \<Rightarrow> int \<Rightarrow> time_type \<Rightarrow> int" where
  "partition_key scheme v tt = (case scheme of
       PS_Date \<Rightarrow> value_to_days v tt
     | PS_None \<Rightarrow> 0
     | _ \<Rightarrow> (case civil_from_days (value_to_days v tt) of (y, m, _) \<Rightarrow>
          if scheme = PS_Year then y else i64 (i64 (i64 (y * 12) + m) - 1)))"

text \<open>The days and the key of the last call are kept.\<close>

definition compute_key :: "partition_scheme \<Rightarrow> time_type \<Rightarrow> int \<times> int \<Rightarrow> int \<Rightarrow> int \<times> int \<times> int" where
  "compute_key scheme tt cache t = (case cache of (last_days, last_k) \<Rightarrow>
     if scheme = PS_None then (0, last_days, last_k)
     else let days = value_to_days t tt
       in if days = last_days then (last_k, last_days, last_k)
          else let k = (case scheme of
                 PS_Date \<Rightarrow> days
               | PS_Year \<Rightarrow> (case civil_from_days days of (y, _, _) \<Rightarrow> y)
               | PS_Month \<Rightarrow> (case civil_from_days days of (y, m, _) \<Rightarrow> i64 (i64 (i64 (y * 12) + m) - 1))
               | PS_None \<Rightarrow> 0)
            in (k, days, k))"

type_synonym buckets = "(string \<times> row_span list) list"

fun bucket_push :: "string \<Rightarrow> row_span \<Rightarrow> buckets \<Rightarrow> buckets" where
  "bucket_push name run [] = [(name, [run])]"
| "bucket_push name run ((n, runs) # bs) =
     (if n = name then (n, runs @ [run]) # bs else (n, runs) # bucket_push name run bs)"

record span_state =
  sp_buckets :: buckets
  sp_key :: "int option"
  sp_first :: int
  sp_start :: nat
  sp_len :: nat

definition close_run :: "partition_scheme \<Rightarrow> time_type \<Rightarrow> span_state \<Rightarrow> buckets" where
  "close_run scheme tt s = (if sp_key s = None then sp_buckets s
     else bucket_push (partition_name scheme (sp_first s) tt) (sp_start s, sp_len s) (sp_buckets s))"

definition span_step :: "partition_scheme \<Rightarrow> time_type \<Rightarrow> nat \<Rightarrow> int \<Rightarrow> int \<Rightarrow> span_state \<Rightarrow> span_state" where
  "span_step scheme tt i t key s =
     (if sp_key s = Some key then s\<lparr>sp_len := sp_len s + 1\<rparr>
      else \<lparr>sp_buckets = close_run scheme tt s, sp_key = Some key, sp_first = t, sp_start = i, sp_len = 1\<rparr>)"

definition span_start :: span_state where
  "span_start = \<lparr>sp_buckets = [], sp_key = None, sp_first = 0, sp_start = 0, sp_len = 0\<rparr>"

fun scan_times :: "partition_scheme \<Rightarrow> time_type \<Rightarrow> int \<times> int \<Rightarrow> nat \<Rightarrow> int list \<Rightarrow> span_state \<Rightarrow> span_state" where
  "scan_times scheme tt cache i [] s = s"
| "scan_times scheme tt cache i (t # ts) s =
     (case compute_key scheme tt cache t of (key, cache') \<Rightarrow>
        scan_times scheme tt cache' (Suc i) ts (span_step scheme tt i t key s))"

definition column_times :: "time_type \<Rightarrow> bytes \<Rightarrow> ('e, int list) res" where
  "column_times tt bs = (case tt of
       TT_Date32 \<Rightarrow> rbind (cast_words 4 bs) (\<lambda>ws :: u32 list. Ok (map sint ws))
     | TT_TimestampUs \<Rightarrow> rbind (cast_words 8 bs) (\<lambda>ws :: u64 list. Ok (map sint ws)))"

definition partition_spans :: "data \<Rightarrow> partition_scheme \<Rightarrow> time_type \<Rightarrow> (core_error, buckets) res" where
  "partition_spans d scheme tt = (case data_column d ''time'' of
       None \<Rightarrow> Panic
     | Some time_col \<Rightarrow>
         rbind (column_times tt (col_values time_col)) (\<lambda>ts.
         rbind (assert_that (data_length d \<le> length ts)) (\<lambda>_.
           Ok (sort_key fst (close_run scheme tt
             (scan_times scheme tt (- (2 ^ 63), 0) 0 (take (data_length d) ts) span_start))))))"

subsection \<open>The runs are the rows of the partition\<close>

definition span_rows :: "row_span list \<Rightarrow> nat list" where
  "span_rows runs = concat (map (\<lambda>(start, len). [start..<start + len]) runs)"

lemma span_rows_simps [simp]: "span_rows [] = []" "span_rows (r # rs) = [fst r..<fst r + snd r] @ span_rows rs"
  "span_rows (rs @ rs') = span_rows rs @ span_rows rs'"
  by (simp_all add: span_rows_def split: prod.splits)

lemma civil_days_eq: "civil_from_days a = civil_from_days b \<Longrightarrow> \<bar>a\<bar> \<le> 2 ^ 31 \<Longrightarrow> \<bar>b\<bar> \<le> 2 ^ 31 \<Longrightarrow> a = b"
  using civil_back[of a] civil_back[of b] by (cases "civil_from_days b") auto

text \<open>The coarse key tells the partitions apart exactly as their names do.\<close>

lemma key_name:
  assumes "supported v tt" "supported w tt" "partition_key scheme v tt = partition_key scheme w tt"
  shows "partition_name scheme v tt = partition_name scheme w tt"
proof -
  obtain y m d y' m' d' where c: "civil_from_days (value_to_days v tt) = (y, m, d)" "civil_from_days (value_to_days w tt) = (y', m', d')"
    by (metis prod_cases3)
  have b: "\<bar>value_to_days v tt\<bar> \<le> 2 ^ 31" "\<bar>value_to_days w tt\<bar> \<le> 2 ^ 31" using supported_days[OF assms(1)] supported_days[OF assms(2)] .
  have y: "\<bar>y\<bar> \<le> 2 ^ 24" "\<bar>y'\<bar> \<le> 2 ^ 24" using year_of_small_day b c by blast+
  have "\<bar>value_to_days v tt\<bar> \<le> 2 ^ 58" "\<bar>value_to_days w tt\<bar> \<le> 2 ^ 58" using b by simp_all
  then have "valid_date y m d" "valid_date y' m' d'" using civil_valid c by blast+
  then have m: "1 \<le> m" "m \<le> 12" "1 \<le> m'" "m' \<le> 12" by (simp_all add: valid_date_def)
  have "same_name scheme (y, m, d) (y', m', d')"
  proof (cases scheme)
    case PS_Month
    have "i64 (i64 (i64 (y * 12) + m) - 1) = y * 12 + m - 1" "i64 (i64 (i64 (y' * 12) + m') - 1) = y' * 12 + m' - 1"
      using y m by (simp_all add: abs_le_iff)
    then have "y * 12 + m = y' * 12 + m'" using assms(3) c PS_Month by (simp add: partition_key_def)
    then have "y = y' \<and> m = m'" using m by presburger
    then show ?thesis using PS_Month by (simp add: same_name_def)
  qed (use assms(3) c in \<open>auto simp: same_name_def partition_key_def\<close>)
  then show ?thesis using same_name_eq[of scheme v tt w] c by simp
qed

definition key_cache_ok :: "partition_scheme \<Rightarrow> int \<times> int \<Rightarrow> bool" where
  "key_cache_ok scheme cache \<longleftrightarrow> fst cache = - (2 ^ 63) \<or> snd cache = partition_key scheme (fst cache) TT_Date32"

lemma compute_key_eq:
  assumes "supported t tt" "key_cache_ok scheme cache"
  shows "\<exists>cache'. compute_key scheme tt cache t = (partition_key scheme t tt, cache') \<and> key_cache_ok scheme cache'"
proof -
  have "value_to_days t tt \<noteq> - (2 ^ 63)" using supported_days[OF assms(1)] by auto
  moreover have "partition_key scheme (value_to_days t tt) TT_Date32 = partition_key scheme t tt"
    by (cases scheme) (auto simp: partition_key_def value_to_days_def)
  ultimately show ?thesis using assms(2)
    by (cases cache; cases scheme) (auto simp: compute_key_def Let_def key_cache_ok_def partition_key_def value_to_days_def split: prod.splits)
qed

definition runs_at :: "buckets \<Rightarrow> string \<Rightarrow> row_span list" where
  "runs_at bs n = (case map_of bs n of None \<Rightarrow> [] | Some runs \<Rightarrow> runs)"

definition buckets_ok :: "buckets \<Rightarrow> bool" where
  "buckets_ok bs \<longleftrightarrow> distinct (map fst bs) \<and> (\<forall>(n, runs) \<in> set bs. runs \<noteq> [] \<and> (\<forall>(a, l) \<in> set runs. 0 < l))"

lemma map_of_push: "map_of (bucket_push name run bs) = (map_of bs)(name \<mapsto> runs_at bs name @ [run])"
  by (induction bs) (auto simp: runs_at_def)

lemma runs_at_push: "runs_at (bucket_push name run bs) n = (if n = name then runs_at bs name @ [run] else runs_at bs n)"
  by (simp add: runs_at_def[of "bucket_push name run bs"] map_of_push) (simp add: runs_at_def)

lemma fst_push: "fst ` set (bucket_push name run bs) = insert name (fst ` set bs)"
proof (induction bs)
  case (Cons b bs)
  then show ?case by (cases b) (simp add: insert_commute)
qed simp

lemma push_ok: "buckets_ok bs \<Longrightarrow> 0 < snd run \<Longrightarrow> buckets_ok (bucket_push name run bs)"
proof (induction bs)
  case (Cons b bs)
  then show ?case using fst_push[of name run bs] by (cases b) (fastforce simp: buckets_ok_def)
qed (auto simp: buckets_ok_def)

definition spans_inv :: "partition_scheme \<Rightarrow> time_type \<Rightarrow> int list \<Rightarrow> nat \<Rightarrow> span_state \<Rightarrow> bool" where
  "spans_inv scheme tt ts i s \<longleftrightarrow> buckets_ok (sp_buckets s) \<and>
     (\<forall>n. span_rows (runs_at (close_run scheme tt s) n) = filter (\<lambda>j. partition_name scheme (ts ! j) tt = n) [0..<i]) \<and>
     (\<forall>k. sp_key s = Some k \<longrightarrow> k = partition_key scheme (sp_first s) tt \<and> supported (sp_first s) tt \<and>
        sp_start s + sp_len s = i \<and> 0 < sp_len s)"

lemma span_step_inv:
  assumes "spans_inv scheme tt ts i s" "i < length ts" "supported (ts ! i) tt"
  shows "spans_inv scheme tt ts (Suc i) (span_step scheme tt i (ts ! i) (partition_key scheme (ts ! i) tt) s)"
proof (cases "sp_key s = Some (partition_key scheme (ts ! i) tt)")
  case True
  then have s: "partition_key scheme (sp_first s) tt = partition_key scheme (ts ! i) tt" "supported (sp_first s) tt"
    "sp_start s + sp_len s = i" "0 < sp_len s"
    using assms(1) by (auto simp: spans_inv_def)
  have name: "partition_name scheme (sp_first s) tt = partition_name scheme (ts ! i) tt"
    by (rule key_name[OF s(2) assms(3) s(1)])
  have u: "[sp_start s..<Suc i] = [sp_start s..<i] @ [i]" using s(3) by (simp add: upt_Suc_append)
  have "span_rows (runs_at (close_run scheme tt (s\<lparr>sp_len := sp_len s + 1\<rparr>)) n) =
      filter (\<lambda>j. partition_name scheme (ts ! j) tt = n) [0..<Suc i]" for n
  proof -
    have "span_rows (runs_at (close_run scheme tt s) n) = filter (\<lambda>j. partition_name scheme (ts ! j) tt = n) [0..<i]"
      using assms(1) by (simp add: spans_inv_def)
    then show ?thesis using True s(3) name u by (auto simp: close_run_def runs_at_push)
  qed
  then show ?thesis using True assms(1) s by (auto simp: spans_inv_def span_step_def)
next
  case False
  let ?s = "\<lparr>sp_buckets = close_run scheme tt s, sp_key = Some (partition_key scheme (ts ! i) tt), sp_first = ts ! i, sp_start = i, sp_len = 1\<rparr>"
  have "buckets_ok (close_run scheme tt s)" using assms(1) push_ok by (auto simp: spans_inv_def close_run_def)
  moreover have "span_rows (runs_at (close_run scheme tt ?s) n) = filter (\<lambda>j. partition_name scheme (ts ! j) tt = n) [0..<Suc i]" for n
  proof -
    have c: "close_run scheme tt ?s = bucket_push (partition_name scheme (ts ! i) tt) (i, 1) (close_run scheme tt s)"
      by (simp add: close_run_def)
    show ?thesis unfolding c using assms(1) by (auto simp: spans_inv_def runs_at_push)
  qed
  ultimately show ?thesis using False assms(3) by (simp add: spans_inv_def span_step_def)
qed

lemma scan_times_inv:
  assumes "spans_inv scheme tt ts i s" "key_cache_ok scheme cache" "\<forall>t \<in> set ts. supported t tt" "i \<le> length ts"
  shows "spans_inv scheme tt ts (length ts) (scan_times scheme tt cache i (drop i ts) s)"
  using assms
proof (induction "length ts - i" arbitrary: i s cache)
  case (Suc n)
  then have i: "i < length ts" by simp
  then have d: "drop i ts = ts ! i # drop (Suc i) ts" by (simp add: Cons_nth_drop_Suc)
  have t: "supported (ts ! i) tt" using Suc.prems(3) i by simp
  obtain cache' where c: "compute_key scheme tt cache (ts ! i) = (partition_key scheme (ts ! i) tt, cache')" "key_cache_ok scheme cache'"
    using compute_key_eq[OF t Suc.prems(2)] by blast
  show ?case using Suc.hyps(1)[of "Suc i", OF _ span_step_inv[OF Suc.prems(1) i t] c(2) Suc.prems(3)] Suc.hyps(2) i
    by (simp add: d c(1))
qed simp

subsection \<open>Gathered rows\<close>

definition runs_within :: "row_span list \<Rightarrow> nat \<Rightarrow> bool" where
  "runs_within runs n \<longleftrightarrow> (\<forall>(a, l) \<in> set runs. a + l \<le> n)"

lemma runs_within_simps [simp]: "runs_within [] n" "runs_within (r # rs) n \<longleftrightarrow> fst r + snd r \<le> n \<and> runs_within rs n"
  by (auto simp: runs_within_def)

lemma slice_map_nth: "b \<le> length xs \<Longrightarrow> slice a b xs = map ((!) xs) [a..<b]"
  by (rule nth_equalityI) simp_all

lemma length_span_rows [simp]: "length (span_rows runs) = run_total runs"
  by (induction runs) (simp_all add: run_total_def)

lemma span_rows_within: "runs_within runs n \<Longrightarrow> i \<in> set (span_rows runs) \<Longrightarrow> i < n"
  by (induction runs) auto

lemma gathered_slices:
  "runs_within runs (length xs) \<Longrightarrow> concat (map (\<lambda>(a, l). slice a (a + l) xs) runs) = map ((!) xs) (span_rows runs)"
  by (induction runs) (auto simp: slice_map_nth)

lemma slice_chunks:
  "b * w \<le> length xs \<Longrightarrow> a \<le> b \<Longrightarrow> slice (a * w) (b * w) xs = concat (map (\<lambda>i. slice (i * w) ((i + 1) * w) xs) [a..<b])"
proof (induction b)
  case (Suc b)
  show ?case
  proof (cases "a = Suc b")
    case False
    then have "slice (a * w) (Suc b * w) xs = slice (a * w) (b * w) xs @ slice (b * w) (Suc b * w) xs"
      using Suc.prems(2) by (intro slice_join[symmetric]) simp_all
    then show ?thesis using Suc False by (simp add: upt_Suc_append)
  qed simp
qed simp

lemma slice_concat_equal:
  "(\<forall>c \<in> set cs. length c = w) \<Longrightarrow> i < length cs \<Longrightarrow> slice (i * w) ((i + 1) * w) (concat cs) = cs ! i"
proof (induction cs arbitrary: i)
  case (Cons c cs)
  then show ?case by (cases i) (simp_all add: slice_append_right slice_append_left slice_def)
qed simp

lemma length_concat_equal: "(\<forall>x \<in> set xs. length (f x) = w) \<Longrightarrow> length (concat (map f xs)) = length xs * w"
  by (induction xs) simp_all

lemma splice_next: "p \<le> length zs \<Longrightarrow> splice (p + length xs) ys (splice p xs zs) = splice p (xs @ ys) zs"
  by (simp add: splice_def ac_simps)

lemma gather_fixed_loop:
  "runs_within runs n \<Longrightarrow> n * w \<le> length src \<Longrightarrow> out + run_total runs * w \<le> length dst \<Longrightarrow>
   foldM (\<lambda>(dst, out) (start, len).
       rbind (slice_r (start * w) ((start + len) * w) src) (\<lambda>bs.
       rbind (copy_into out (out + len * w) bs dst) (\<lambda>dst. Ok (dst, out + len * w)))) (dst, out) runs =
   (Ok (splice out (concat (map (\<lambda>i. slice (i * w) ((i + 1) * w) src) (span_rows runs))) dst, out + run_total runs * w) :: ('e, _) res)"
proof (induction runs arbitrary: dst out)
  case (Cons r runs)
  obtain a l where r: "r = (a, l)" by (cases r)
  let ?c = "\<lambda>i. slice (i * w) ((i + 1) * w) src"
  have al: "(a + l) * w \<le> length src" using Cons.prems(1,2) r by (auto intro: order.trans[OF mult_le_mono1])
  then have s: "slice_r (a * w) ((a + l) * w) src = (Ok (concat (map ?c [a..<a + l])) :: ('e, _) res)"
    using slice_chunks[OF al, of a] by (simp add: slice_r_def slice_ok_def)
  have len: "length (concat (map ?c [a..<a + l])) = l * w"
  proof -
    have "concat (map ?c [a..<a + l]) = slice (a * w) ((a + l) * w) src" using slice_chunks[OF al, of a] by simp
    then show ?thesis using al by (simp add: add_mult_distrib)
  qed
  have fit: "out + l * w + run_total runs * w \<le> length dst" using Cons.prems(3) r by (simp add: run_total_def add_mult_distrib)
  let ?dst = "splice out (concat (map ?c [a..<a + l])) dst"
  have "copy_into out (out + l * w) (concat (map ?c [a..<a + l])) dst = (Ok ?dst :: ('e, _) res)"
    using len fit by (simp add: copy_into_def slice_r_def slice_ok_def)
  moreover have "out + l * w + run_total runs * w \<le> length ?dst" using fit len by (simp add: splice_def)
  ultimately have "foldM (\<lambda>(dst, out) (start, len).
       rbind (slice_r (start * w) ((start + len) * w) src) (\<lambda>bs.
       rbind (copy_into out (out + len * w) bs dst) (\<lambda>dst. Ok (dst, out + len * w)))) (dst, out) (r # runs) =
     (Ok (splice (out + l * w) (concat (map ?c (span_rows runs))) ?dst, out + l * w + run_total runs * w) :: ('e, _) res)"
    using Cons.IH[of "out + l * w" ?dst] Cons.prems(1,2) s by (simp add: r)
  moreover have "splice (out + l * w) (concat (map ?c (span_rows runs))) ?dst = splice out (concat (map ?c (span_rows (r # runs)))) dst"
    using splice_next[of out dst "concat (map ?c [a..<a + l])" "concat (map ?c (span_rows runs))"] len fit by (simp add: r)
  ultimately show ?case by (simp add: r run_total_def add_mult_distrib)
qed (simp add: splice_def run_total_def)

lemma gather_fixed_eq:
  assumes "runs_within runs n" "n * w \<le> length src"
  shows "gather_fixed w (run_total runs) src runs =
    (Ok (concat (map (\<lambda>i. slice (i * w) ((i + 1) * w) src) (span_rows runs))) :: ('e, _) res)"
proof -
  have *: "(i + 1) * w \<le> length src" if "i \<in> set (span_rows runs)" for i
    using span_rows_within[OF assms(1) that] assms(2) order.trans[OF mult_le_mono1[of "i + 1" n w]] by simp
  have "length (concat (map (\<lambda>i. slice (i * w) ((i + 1) * w) src) (span_rows runs))) = run_total runs * w"
    using * by (subst length_concat_equal[where w = w]) auto
  then show ?thesis
    using gather_fixed_loop[OF assms, where 'e = 'e and out = 0 and dst = "replicate (run_total runs * w) 0"]
    by (simp add: gather_fixed_def splice_def)
qed

lemma gather_pieces:
  assumes "view_ok v" "runs_within runs (bv_len v)"
  shows "bitmap_ok b \<Longrightarrow> bm_bit_offset b = 0 \<Longrightarrow> out + run_total runs \<le> bm_len b \<Longrightarrow>
    \<exists>b'. foldM (gather_piece v) (b, out) runs = Ok (b', out + run_total runs) \<and> bitmap_ok b' \<and> bm_bit_offset b' = 0 \<and>
      bm_len b' = bm_len b \<and> (\<forall>j < out. bm_bit b' j = bm_bit b j) \<and>
      (\<forall>i < run_total runs. bm_bit b' (out + i) = view_bit v (span_rows runs ! i))"
  using assms(2)
proof (induction runs arbitrary: b out)
  case (Cons r runs)
  obtain a l where r: "r = (a, l)" by (cases r)
  define piece where "piece = v\<lparr>bv_bit_offset := bv_bit_offset v + a, bv_len := l\<rparr>"
  have s: "view_slice v a l = Ok piece" using assms(1) Cons.prems(4) r by (simp add: view_slice_Ok piece_def)
  have pk: "view_ok piece" "bv_len piece = l" "view_bit piece i = view_bit v (a + i)" for i
    using view_slice_ok[OF s] view_slice_bit[OF s] by simp_all
  have fit: "out + l \<le> bm_len b" using Cons.prems(3) r by (simp add: run_total_def)
  obtain b1 old new where b1: "bitmap_copy_bits_from b out piece l = (Ok (b1, old, new) :: (core_error, _) res)" "bitmap_ok b1"
    "bm_bit_offset b1 = 0" "bm_len b1 = bm_len b"
    "\<forall>j. bm_bit b1 j = (if out \<le> j \<and> j < out + l then view_bit piece (j - out) else bm_bit b j)"
    using copy_bits_from_eq[OF Cons.prems(1,2) fit pk(1), where 'e = core_error] pk(2) by auto
  have "out + l + run_total runs \<le> bm_len b1" using Cons.prems(3) r b1(4) by (simp add: run_total_def)
  then obtain b' where b': "foldM (gather_piece v) (b1, out + l) runs = Ok (b', out + l + run_total runs)" "bitmap_ok b'"
    "bm_bit_offset b' = 0" "bm_len b' = bm_len b1" "\<forall>j < out + l. bm_bit b' j = bm_bit b1 j"
    "\<forall>i < run_total runs. bm_bit b' (out + l + i) = view_bit v (span_rows runs ! i)"
    using Cons.IH[OF b1(2,3), of "out + l"] Cons.prems(4) by auto
  have "bm_bit b' (out + i) = view_bit v (span_rows (r # runs) ! i)" if i: "i < run_total (r # runs)" for i
  proof (cases "i < l")
    case True
    then show ?thesis using b'(5) b1(5) pk(3) by (simp add: r nth_append)
  next
    case False
    then have "i - l < run_total runs" using i r by (simp add: run_total_def)
    then show ?thesis using b'(6)[rule_format, of "i - l"] False by (simp add: r nth_append)
  qed
  moreover have "foldM (gather_piece v) (b, out) (r # runs) = Ok (b', out + run_total (r # runs))"
    using s b1(1) b'(1) by (simp add: gather_piece_def r run_total_def)
  moreover have "\<forall>j < out. bm_bit b' j = bm_bit b j" using b'(5) b1(5) by simp
  ultimately show ?case using b'(2-4) b1(4) by (intro exI[of _ b']) simp
qed (simp add: run_total_def)

lemma bm_count_eq: "bitmap_ok b \<Longrightarrow> bm_bit_offset b = 0 \<Longrightarrow>
    bm_count_ones b = (Ok (length (filter (bm_bit b) [0..<bm_len b])) :: ('e, _) res)"
proof -
  assume b: "bitmap_ok b" "bm_bit_offset b = 0"
  then have "bm_bit b = get_bit (bm_data b)" by (simp add: fun_eq_iff bm_bit_def)
  then show ?thesis using b by (simp add: bm_count_ones_def bitmap_ok_def bitmap_count_ones_eq mult.commute ones_def)
qed

definition valid_bits_ok :: "bitmap option \<Rightarrow> nat \<Rightarrow> bool" where
  "valid_bits_ok v n = (case v of None \<Rightarrow> True | Some b \<Rightarrow> bitmap_ok b \<and> bm_bit_offset b = 0 \<and> bm_len b = n)"

definition bit_valid :: "bitmap option \<Rightarrow> nat \<Rightarrow> bool" where
  "bit_valid v i = (case v of None \<Rightarrow> True | Some b \<Rightarrow> bm_bit b i)"

lemma gather_validity_eq:
  assumes "valid_bits_ok v n" "runs_within runs n"
  shows "\<exists>v'. gather_validity v runs (run_total runs) = Ok v' \<and> valid_bits_ok v' (run_total runs) \<and>
    (\<forall>i < run_total runs. bit_valid v' i = bit_valid v (span_rows runs ! i))"
proof (cases v)
  case (Some bm)
  let ?v = "\<lparr>bv_data = bm_data bm, bv_bit_offset = bm_bit_offset bm, bv_len = bm_len bm\<rparr>"
  have bm: "bitmap_ok bm" "bm_bit_offset bm = 0" "bm_len bm = n" using assms(1) Some by (simp_all add: valid_bits_ok_def)
  have view: "(bitmap_as_view bm :: (core_error, _) res) = Ok ?v" using bm(1) by (simp add: bitmap_as_view_eq)
  have "view_ok ?v" "runs_within runs (bv_len ?v)" using bm assms(2) by (simp_all add: view_ok_def bitmap_ok_def)
  then obtain b' where b': "foldM (gather_piece ?v) (bitmap_zeros (run_total runs), 0) runs = Ok (b', run_total runs)" "bitmap_ok b'"
    "bm_bit_offset b' = 0" "bm_len b' = run_total runs" "\<forall>i < run_total runs. bm_bit b' i = view_bit ?v (span_rows runs ! i)"
    using gather_pieces[of ?v runs "bitmap_zeros (run_total runs)" 0] bitmap_zeros_ok by (auto simp: bitmap_zeros_def)
  have bits: "\<forall>i < run_total runs. bm_bit b' i = bit_valid v (span_rows runs ! i)"
    using b'(5) Some by (simp add: bit_valid_def bm_bit_def view_bit_def)
  have count: "bm_count_ones b' = (Ok (length (filter (bm_bit b') [0..<run_total runs])) :: (core_error, _) res)"
    using bm_count_eq[OF b'(2,3), where 'e = core_error] b'(4) by simp
  show ?thesis
  proof (cases "length (filter (bm_bit b') [0..<run_total runs]) = run_total runs")
    case True
    then have "\<forall>i \<in> set [0..<run_total runs]. bm_bit b' i"
      using length_filter_less[of _ "[0..<run_total runs]" "bm_bit b'"] by (metis length_upt minus_nat.diff_0 nat_neq_iff)
    then show ?thesis using Some view b'(1) count True bits
      by (simp add: gather_validity_def valid_bits_ok_def bit_valid_def)
  next
    case False
    then show ?thesis using Some view b'(1-4) count bits
      by (simp add: gather_validity_def valid_bits_ok_def bit_valid_def)
  qed
qed (simp add: gather_validity_def valid_bits_ok_def bit_valid_def)

subsection \<open>The rebuilt dictionary\<close>

definition offset_at :: "bytes \<Rightarrow> nat \<Rightarrow> nat" where
  "offset_at ob k = unat (of_le (slice (k * 8) (k * 8 + 8) ob) :: u64)"

definition entry_ok :: "bytes \<Rightarrow> bytes \<Rightarrow> nat \<Rightarrow> bool" where
  "entry_ok ob sb k \<longleftrightarrow> (k + 2) * 8 \<le> length ob \<and> offset_at ob k \<le> offset_at ob (k + 1) \<and> offset_at ob (k + 1) \<le> length sb"

definition entry :: "bytes \<Rightarrow> bytes \<Rightarrow> nat \<Rightarrow> bytes" where
  "entry ob sb k = slice (offset_at ob k) (offset_at ob (k + 1)) sb"

lemma dict_string_entry: "entry_ok ob sb (unat k) \<Longrightarrow> dict_string ob sb k = Ok (str_from_utf8 (entry ob sb (unat k)))"
  by (simp add: dict_string_def entry_ok_def entry_def offset_at_def Let_def slice_r_def slice_ok_def)

text \<open>The new entry \<open>nid\<close> has the string of the old entry \<open>k\<close>.\<close>

definition entry_new :: "bytes \<Rightarrow> bytes \<Rightarrow> remap_state \<Rightarrow> nat \<Rightarrow> u32 \<Rightarrow> bool" where
  "entry_new ob sb s k nid \<longleftrightarrow> unat nid + 1 < length (rm_offsets s) \<and>
     unat (rm_offsets s ! unat nid) \<le> unat (rm_offsets s ! (unat nid + 1)) \<and>
     unat (rm_offsets s ! (unat nid + 1)) \<le> length (rm_strings s) \<and>
     slice (unat (rm_offsets s ! unat nid)) (unat (rm_offsets s ! (unat nid + 1))) (rm_strings s) = entry ob sb k"

definition remap_inv :: "bytes \<Rightarrow> bytes \<Rightarrow> u32 list \<Rightarrow> remap_state \<Rightarrow> bool" where
  "remap_inv ob sb ks s \<longleftrightarrow> length (rm_remap s) = length ob div 8 - 1 \<and> rm_offsets s \<noteq> [] \<and>
     length (rm_offsets s) = unat (rm_count s) + 1 \<and> unat (rm_count s) \<le> length ks \<and>
     unat (last (rm_offsets s)) = length (rm_strings s) \<and> length (rm_strings s) \<le> unat (rm_count s) * length sb \<and>
     (\<forall>k < length (rm_remap s). rm_remap s ! k \<noteq> - 1 \<longrightarrow> entry_new ob sb s k (rm_remap s ! k)) \<and>
     (rm_last_k s \<noteq> - 1 \<longrightarrow> entry_new ob sb s (unat (rm_last_k s)) (rm_last_id s)) \<and>
     length (rm_keys s) = length ks \<and> (\<forall>i < length ks. entry_new ob sb s (unat (ks ! i)) (rm_keys s ! i))"

lemma entry_new_grow:
  assumes "entry_new ob sb s k nid"
  shows "entry_new ob sb (s\<lparr>rm_strings := rm_strings s @ x, rm_offsets := rm_offsets s @ y, rm_count := c, rm_remap := m\<rparr>) k nid"
  using assms by (simp add: entry_new_def nth_append slice_append_left)

lemma entry_new_other [simp]:
  "entry_new ob sb (s\<lparr>rm_keys := ks\<rparr>) = entry_new ob sb s" "entry_new ob sb (s\<lparr>rm_last_k := k\<rparr>) = entry_new ob sb s"
  "entry_new ob sb (s\<lparr>rm_last_id := i\<rparr>) = entry_new ob sb s"
  by (simp_all add: entry_new_def fun_eq_iff)

lemma remap_key_eq:
  assumes "remap_inv ob sb ks s" "entry_ok ob sb k" "length ks < u32_max" "u32_max * length sb \<le> u64_max"
  shows "\<exists>s' nid. remap_key ob sb s k = (Ok (s', nid) :: ('e, _) res) \<and> entry_new ob sb s' k nid \<and>
    length (rm_remap s') = length (rm_remap s) \<and> length (rm_offsets s') = unat (rm_count s') + 1 \<and> unat (rm_count s') \<le> length ks + 1 \<and>
    unat (last (rm_offsets s')) = length (rm_strings s') \<and> length (rm_strings s') \<le> unat (rm_count s') * length sb \<and>
    (\<forall>k < length (rm_remap s'). rm_remap s' ! k \<noteq> - 1 \<longrightarrow> entry_new ob sb s' k (rm_remap s' ! k)) \<and>
    rm_keys s' = rm_keys s \<and> (\<forall>k nid. entry_new ob sb s k nid \<longrightarrow> entry_new ob sb s' k nid)"
proof -
  note I = assms(1)[unfolded remap_inv_def]
  have k: "k < length (rm_remap s)" using I assms(2) by (auto simp: entry_ok_def)
  show ?thesis
  proof (cases "rm_remap s ! k = - 1")
    case False
    then show ?thesis using I k by (auto simp: remap_key_def nth_r_def)
  next
    case True
    let ?str = "entry ob sb k" and ?c = "rm_count s"
    let ?s = "s\<lparr>rm_strings := rm_strings s @ ?str, rm_offsets := rm_offsets s @ [of_nat (length (rm_strings s @ ?str))],
        rm_count := ?c + 1, rm_remap := (rm_remap s)[k := ?c]\<rparr>"
    have c: "unat ?c < u32_max" using I assms(3) by linarith
    have c1: "unat (?c + 1) = unat ?c + 1" using c by (simp add: unat_word_ariths)
    have str: "length ?str \<le> length sb" using assms(2) by (simp add: entry_def entry_ok_def length_slice_min)
    have len: "length (rm_strings s @ ?str) \<le> (unat ?c + 1) * length sb" using I str by simp
    also have "\<dots> \<le> u32_max * length sb" using c by (intro mult_le_mono1) simp
    finally have small: "length (rm_strings s @ ?str) \<le> u64_max" using assms(4) by linarith
    have u: "unat (of_nat (length (rm_strings s)) + of_nat (length ?str) :: u64) = length (rm_strings s) + length ?str"
      using unat_of_nat_u64[OF small] by simp
    have lo: "slice_r (k * 8) (k * 8 + 8) ob = (Ok (slice (k * 8) (k * 8 + 8) ob) :: ('e, _) res)"
      "slice_r (k * 8 + 8) (k * 8 + 16) ob = (Ok (slice (k * 8 + 8) (k * 8 + 16) ob) :: ('e, _) res)"
      using assms(2) by (simp_all add: entry_ok_def slice_r_def slice_ok_def)
    have at: "unat (of_le (slice (k * 8) (k * 8 + 8) ob) :: u64) = offset_at ob k"
      "unat (of_le (slice (k * 8 + 8) (k * 8 + 16) ob) :: u64) = offset_at ob (k + 1)"
      by (simp_all add: offset_at_def add.commute)
    have st: "slice_r (offset_at ob k) (offset_at ob (k + 1)) sb = (Ok ?str :: ('e, _) res)"
      using assms(2) by (simp add: entry_ok_def slice_r_def slice_ok_def entry_def)
    have run: "remap_key ob sb s k = (Ok (?s, ?c) :: ('e, _) res)"
      unfolding remap_key_def using k True lo st by (simp only: nth_r_def if_True rbind.simps at Let_def simp_thms)
    have o: "length (rm_offsets s) = unat ?c + 1" "unat (last (rm_offsets s)) = length (rm_strings s)" "rm_offsets s \<noteq> []" using I by blast+
    have new: "entry_new ob sb ?s k ?c"
    proof -
      have "rm_offsets s ! unat ?c = last (rm_offsets s)" using o by (simp add: last_conv_nth)
      then have "unat (rm_offsets s ! unat ?c) = length (rm_strings s)" using o(2) by simp
      then show ?thesis using o(1) u by (simp add: entry_new_def nth_append slice_append_right)
    qed
    have grow: "entry_new ob sb ?s k' nid" if "entry_new ob sb s k' nid" for k' nid using entry_new_grow[OF that] .
    have "\<forall>k' < length (rm_remap ?s). rm_remap ?s ! k' \<noteq> - 1 \<longrightarrow> entry_new ob sb ?s k' (rm_remap ?s ! k')"
    proof (intro allI impI)
      fix k' assume "k' < length (rm_remap ?s)" "rm_remap ?s ! k' \<noteq> - 1"
      then show "entry_new ob sb ?s k' (rm_remap ?s ! k')" using I new grow k by (cases "k' = k") simp_all
    qed
    then show ?thesis using run new grow c1 o(1) u len I
      by (intro exI[of _ ?s] exI[of _ ?c]) simp
  qed
qed

lemma gather_key_eq:
  assumes "remap_inv ob sb ks s" "entry_ok ob sb (unat k)" "k \<noteq> - 1" "length ks < u32_max" "u32_max * length sb \<le> u64_max"
  shows "\<exists>s'. gather_key ob sb s k = (Ok s' :: ('e, _) res) \<and> remap_inv ob sb (ks @ [k]) s'"
proof (cases "k = rm_last_k s")
  case True
  then show ?thesis using assms(1,3) by (auto simp: gather_key_def remap_inv_def nth_append)
next
  case False
  obtain s' nid where r: "remap_key ob sb s (unat k) = (Ok (s', nid) :: ('e, _) res)" "entry_new ob sb s' (unat k) nid"
    "length (rm_remap s') = length (rm_remap s)" "length (rm_offsets s') = unat (rm_count s') + 1" "unat (rm_count s') \<le> length ks + 1"
    "unat (last (rm_offsets s')) = length (rm_strings s')" "length (rm_strings s') \<le> unat (rm_count s') * length sb"
    "\<forall>k < length (rm_remap s'). rm_remap s' ! k \<noteq> - 1 \<longrightarrow> entry_new ob sb s' k (rm_remap s' ! k)"
    "rm_keys s' = rm_keys s" "\<forall>k nid. entry_new ob sb s k nid \<longrightarrow> entry_new ob sb s' k nid"
    using remap_key_eq[OF assms(1,2,4,5), where 'e = 'e] by (elim exE conjE) (rule that)
  have ne: "rm_offsets s' \<noteq> []" using r(4) by auto
  have keys: "length (rm_keys s) = length ks" "\<forall>i < length ks. entry_new ob sb s' (unat (ks ! i)) (rm_keys s ! i)"
    using assms(1) r(10) by (auto simp: remap_inv_def)
  then have "\<forall>i < length (ks @ [k]). entry_new ob sb s' (unat ((ks @ [k]) ! i)) ((rm_keys s @ [nid]) ! i)"
    using r(2) by (auto simp: nth_append less_Suc_eq)
  then show ?thesis using False assms(1) r(1-9) ne keys(1)
    by (simp add: gather_key_def remap_inv_def)
qed

lemma gather_keys_eq:
  assumes "\<forall>k \<in> set ks'. entry_ok ob sb (unat k) \<and> k \<noteq> - 1" "u32_max * length sb \<le> u64_max"
  shows "remap_inv ob sb ks s \<Longrightarrow> length ks + length ks' \<le> u32_max \<Longrightarrow>
    \<exists>s'. foldM (gather_key ob sb) s ks' = (Ok s' :: ('e, _) res) \<and> remap_inv ob sb (ks @ ks') s'"
  using assms(1)
proof (induction ks' arbitrary: ks s)
  case (Cons k ks')
  obtain s1 where s1: "gather_key ob sb s k = (Ok s1 :: ('e, _) res)" "remap_inv ob sb (ks @ [k]) s1"
    using gather_key_eq[OF Cons.prems(1) _ _ _ assms(2), of k, where 'e = 'e] Cons.prems(2,3) by auto
  show ?case using Cons.IH[OF s1(2)] Cons.prems(2,3) s1(1) by simp
qed simp

lemma foldM_slices:
  "runs_within runs (length ks) \<Longrightarrow>
   foldM (\<lambda>s (start, len). rbind (slice_r start (start + len) ks) (foldM g s)) s runs = foldM g s (map ((!) ks) (span_rows runs))"
proof (induction runs arbitrary: s)
  case (Cons r runs)
  then show ?case
    by (cases r) (simp add: foldM_append slice_r_def slice_ok_def slice_map_nth)
qed simp

lemma gather_dict_eq:
  assumes "8 \<le> length ob" "cast_words 4 values = (Ok ks :: ('e, u32 list) res)" "runs_within runs (length ks)" "run_total runs \<le> u32_max"
    and "\<forall>k \<in> set ks. entry_ok ob sb (unat k) \<and> k \<noteq> - 1" "u32_max * length sb \<le> u64_max"
  shows "\<exists>s. gather_dict values ob sb runs = (Ok s :: ('e, _) res) \<and> remap_inv ob sb (map ((!) ks) (span_rows runs)) s"
proof -
  let ?s = "\<lparr>rm_remap = replicate (length ob div 8 - 1) (- 1), rm_keys = [], rm_offsets = [0], rm_strings = [],
      rm_count = 0, rm_last_k = - 1, rm_last_id = 0\<rparr>"
  have I: "remap_inv ob sb [] ?s" by (simp add: remap_inv_def)
  have k: "\<forall>k \<in> set (map ((!) ks) (span_rows runs)). entry_ok ob sb (unat k) \<and> k \<noteq> - 1"
    using assms(5) span_rows_within[OF assms(3)] by auto
  from gather_keys_eq[OF k assms(6) I, where 'e = 'e] assms(1-4) show ?thesis
    by (simp add: gather_dict_def foldM_slices)
qed

lemma new_entry_string:
  assumes "entry_new ob sb s k nid" "entry_ok ob sb k"
  shows "entry_ok (concat (map (le_bytes 8) (rm_offsets s))) (rm_strings s) (unat nid)"
    "entry (concat (map (le_bytes 8) (rm_offsets s))) (rm_strings s) (unat nid) = entry ob sb k"
proof -
  have at: "offset_at (concat (map (le_bytes 8) (rm_offsets s))) i = unat (rm_offsets s ! i)" if "i < length (rm_offsets s)" for i
    using that by (simp add: offset_at_def slice_concat_le_bytes)
  show "entry_ok (concat (map (le_bytes 8) (rm_offsets s))) (rm_strings s) (unat nid)"
    "entry (concat (map (le_bytes 8) (rm_offsets s))) (rm_strings s) (unat nid) = entry ob sb k"
    using assms(1) at by (simp_all add: entry_new_def entry_ok_def entry_def[of "concat _"])
qed

subsection \<open>What a column shows\<close>

fun cell_text :: "cell_value \<Rightarrow> (unit, bytes option) res" where
  "cell_text (CBytes b) = Ok (Some b)"
| "cell_text (CKey k ob sb) = dict_string ob sb k"

definition stored_values :: "column \<Rightarrow> column_values" where
  "stored_values c = (case col_dict c of None \<Rightarrow> Fixed (col_values c) | Some (ob, sb) \<Rightarrow> Dict (col_values c) ob sb)"

definition row_text :: "column \<Rightarrow> nat \<Rightarrow> bool \<times> (unit, bytes option) res" where
  "row_text c i = (bit_valid (col_validity c) i, cell_text (value_at (col_data_type c) (stored_values c) i))"

definition column_texts :: "column \<Rightarrow> (bool \<times> (unit, bytes option) res) list" where
  "column_texts c = map (row_text c) [0..<column_length c]"

definition key_at :: "column \<Rightarrow> nat \<Rightarrow> u32" where
  "key_at c i = of_le (slice (i * 4) ((i + 1) * 4) (col_values c))"

definition gatherable :: "column \<Rightarrow> nat \<Rightarrow> bool" where
  "gatherable c n \<longleftrightarrow> column_ok c \<and> column_length c = n \<and> (case col_dict c of None \<Rightarrow> True
     | Some (ob, sb) \<Rightarrow> (\<forall>i < n. entry_ok ob sb (unat (key_at c i)) \<and> key_at c i \<noteq> - 1) \<and> u32_max * length sb \<le> u64_max)"

lemma keys_of_values:
  assumes "length (col_values c) = n * 4"
  shows "cast_words 4 (col_values c) = (Ok (map (key_at c) [0..<n]) :: ('e, u32 list) res)"
proof -
  have "map of_le (chunks_exact 4 n (col_values c)) = map (key_at c) [0..<n]"
    by (rule nth_equalityI) (simp_all add: chunks_exact_nth key_at_def add.commute)
  then show ?thesis using assms by (simp add: cast_words_def)
qed

lemma gather_column_eq:
  assumes "gatherable c n" "runs_within runs n" "run_total runs \<le> u32_max"
  shows "\<exists>c'. gather_column (col_data_type c) c runs = Ok c' \<and> column_ok c' \<and> col_data_type c' = col_data_type c \<and>
    column_length c' = run_total runs \<and> column_texts c' = map (row_text c) (span_rows runs)"
proof -
  have ok: "column_ok c" "column_length c = n" using assms(1) by (simp_all add: gatherable_def)
  have "valid_bits_ok (col_validity c) n" using ok by (simp add: column_ok_def valid_bits_ok_def split: option.splits)
  then obtain v where v: "gather_validity (col_validity c) runs (run_total runs) = Ok v" "valid_bits_ok v (run_total runs)"
    "\<forall>i < run_total runs. bit_valid v i = bit_valid (col_validity c) (span_rows runs ! i)"
    using gather_validity_eq[OF _ assms(2)] by blast
  show ?thesis
  proof (cases "col_dict c")
    case None
    let ?w = "size_of (col_data_type c)" and ?chunk = "\<lambda>i. slice (i * size_of (col_data_type c)) ((i + 1) * size_of (col_data_type c)) (col_values c)"
    have dt: "col_data_type c \<noteq> Utf8" "length (col_values c) = n * ?w" using ok None by (simp_all add: column_ok_def)
    let ?c = "\<lparr>col_data_type = col_data_type c, col_values = concat (map ?chunk (span_rows runs)), col_validity = v, col_dict = None\<rparr>"
    have w: "0 < ?w" using size_of_pos dt(1) by simp
    have each: "\<forall>x \<in> set (map ?chunk (span_rows runs)). length x = ?w"
    proof
      fix x assume "x \<in> set (map ?chunk (span_rows runs))"
      then obtain i where i: "i \<in> set (span_rows runs)" "x = ?chunk i" by auto
      then have "(i + 1) * ?w \<le> n * ?w" using span_rows_within[OF assms(2)] by (intro mult_le_mono1) fastforce
      then show "length x = ?w" using i(2) dt(2) by simp
    qed
    then have len: "length (concat (map ?chunk (span_rows runs))) = run_total runs * ?w"
      using length_concat_equal[of "span_rows runs" ?chunk ?w] by simp
    have run: "gather_column (col_data_type c) c runs = Ok ?c"
      using gather_fixed_eq[OF assms(2), of ?w "col_values c", where 'e = core_error] dt(2) None v(1) by (simp add: gather_column_def)
    have cl: "column_length ?c = run_total runs" using dt(1) len w by (simp add: column_length_def)
    have "row_text ?c i = row_text c (span_rows runs ! i)" if "i < run_total runs" for i
      using slice_concat_equal[OF each, of i] that v(3) None by (simp add: row_text_def stored_values_def)
    then have "column_texts ?c = map (row_text c) (span_rows runs)"
      unfolding column_texts_def cl by (intro nth_equalityI) simp_all
    moreover have "column_ok ?c" using v(2) len dt(1) cl by (auto simp: column_ok_def valid_bits_ok_def split: option.splits)
    ultimately show ?thesis using run cl by (intro exI[of _ ?c]) simp
  next
    case (Some d)
    obtain ob sb where d: "col_dict c = Some (ob, sb)" using Some by (cases d) simp
    let ?ks = "map (key_at c) [0..<n]"
    have dt: "col_data_type c = Utf8" "length (col_values c) = n * 4" "dict_offsets_ok ob" using ok d by (simp_all add: column_ok_def)
    have k: "\<forall>k \<in> set ?ks. entry_ok ob sb (unat k) \<and> k \<noteq> - 1" "u32_max * length sb \<le> u64_max" using assms(1) d by (auto simp: gatherable_def)
    have "8 \<le> length ob" using dt(3) dvd_imp_le[of 8 "length ob"] by (simp add: dict_offsets_ok_def mod_eq_0_iff_dvd)
    then obtain s where s: "gather_dict (col_values c) ob sb runs = (Ok s :: (core_error, _) res)"
      "remap_inv ob sb (map ((!) ?ks) (span_rows runs)) s"
      using gather_dict_eq[OF _ keys_of_values[OF dt(2)] _ assms(3) k, where 'e = core_error] assms(2) by auto
    have keys: "length (rm_keys s) = run_total runs"
      "\<And>i. i < run_total runs \<Longrightarrow> entry_new ob sb s (unat (key_at c (span_rows runs ! i))) (rm_keys s ! i)"
      using s(2) span_rows_within[OF assms(2)] by (auto simp: remap_inv_def)
    let ?ob = "concat (map (le_bytes 8) (rm_offsets s))"
    let ?c = "\<lparr>col_data_type = Utf8, col_values = concat (map (le_bytes 4) (rm_keys s)), col_validity = v, col_dict = Some (?ob, rm_strings s)\<rparr>"
    have run: "gather_column (col_data_type c) c runs = Ok ?c" using s(1) v(1) d by (simp add: gather_column_def)
    have cl: "column_length ?c = run_total runs" using keys(1) by (simp add: column_length_def)
    have "row_text ?c i = row_text c (span_rows runs ! i)" if i: "i < run_total runs" for i
    proof -
      let ?r = "span_rows runs ! i"
      have r: "?r < n" using i span_rows_within[OF assms(2)] by simp
      have e: "entry_ok ob sb (unat (key_at c ?r))" using k(1) r by simp
      have "slice (i * 4) ((i + 1) * 4) (col_values ?c) = le_bytes 4 (rm_keys s ! i)"
        using slice_concat_le_bytes[of i "rm_keys s" 4] i keys(1) by (simp add: add.commute)
      then have key: "of_le (slice (i * 4) ((i + 1) * 4) (col_values ?c)) = rm_keys s ! i" by simp
      have "dict_string ?ob (rm_strings s) (rm_keys s ! i) = (dict_string ob sb (key_at c ?r) :: (unit, _) res)"
        using new_entry_string[OF keys(2)[OF i] e] by (simp add: dict_string_entry e)
      then show ?thesis using v(3) i d key by (simp add: row_text_def stored_values_def key_at_def)
    qed
    then have "column_texts ?c = map (row_text c) (span_rows runs)"
      unfolding column_texts_def cl by (intro nth_equalityI) simp_all
    moreover have "column_ok ?c"
    proof -
      have "rm_offsets s \<noteq> []" using s(2) by (simp add: remap_inv_def)
      then have "?ob \<noteq> []" using length_concat_le_bytes[of 8 "rm_offsets s"] by fastforce
      then show ?thesis using v(2) keys(1) cl by (auto simp: column_ok_def valid_bits_ok_def dict_offsets_ok_def split: option.splits)
    qed
    ultimately show ?thesis using run cl dt(1) by (intro exI[of _ ?c]) simp
  qed
qed

definition splittable :: "data \<Rightarrow> nat \<Rightarrow> bool" where
  "splittable d n \<longleftrightarrow> distinct (map fs_name (da_schema d)) \<and> length (da_columns d) = length (da_schema d) \<and> da_columns d \<noteq> [] \<and>
     (\<forall>(f, c) \<in> set (zip (da_schema d) (da_columns d)). col_data_type c = fs_type f \<and> gatherable c n)"

lemma gather_runs_eq:
  assumes "splittable d n" "runs_within runs n" "run_total runs \<le> u32_max"
  shows "\<exists>d'. gather_runs d runs = Ok d' \<and> da_schema d' = da_schema d \<and> length (da_columns d') = length (da_columns d) \<and>
    data_length d' = run_total runs \<and>
    (\<forall>j < length (da_columns d). column_ok (da_columns d' ! j) \<and> col_data_type (da_columns d' ! j) = col_data_type (da_columns d ! j) \<and>
       column_length (da_columns d' ! j) = run_total runs \<and>
       column_texts (da_columns d' ! j) = map (row_text (da_columns d ! j)) (span_rows runs))"
proof -
  let ?s = "da_schema d" and ?cs = "da_columns d"
  have d: "distinct (map fs_name ?s)" "length ?cs = length ?s" "?cs \<noteq> []" using assms(1) by (simp_all add: splittable_def)
  have col: "data_column d (fs_name (?s ! j)) = Some (?cs ! j)" "col_data_type (?cs ! j) = fs_type (?s ! j)" "gatherable (?cs ! j) n"
    if j: "j < length ?s" for j
  proof -
    have "(?s ! j, ?cs ! j) \<in> set (zip ?s ?cs)" using j d(2) by (auto simp: set_zip)
    then show "data_column d (fs_name (?s ! j)) = Some (?cs ! j)" "col_data_type (?cs ! j) = fs_type (?s ! j)" "gatherable (?cs ! j) n"
      using assms(1) j by (auto simp: splittable_def data_column_def schema_position_distinct)
  qed
  define G where "G j = (SOME c. gather_column (col_data_type (?cs ! j)) (?cs ! j) runs = Ok c)" for j
  have G: "gather_column (fs_type (?s ! j)) (?cs ! j) runs = Ok (G j) \<and> column_ok (G j) \<and> col_data_type (G j) = col_data_type (?cs ! j) \<and>
      column_length (G j) = run_total runs \<and> column_texts (G j) = map (row_text (?cs ! j)) (span_rows runs)" if j: "j < length ?s" for j
  proof -
    obtain c where c: "gather_column (col_data_type (?cs ! j)) (?cs ! j) runs = Ok c" "column_ok c" "col_data_type c = col_data_type (?cs ! j)"
      "column_length c = run_total runs" "column_texts c = map (row_text (?cs ! j)) (span_rows runs)"
      using gather_column_eq[OF col(3)[OF j] assms(2,3)] by blast
    then have "G j = c" by (simp add: G_def)
    then show ?thesis using c col(2)[OF j] by simp
  qed
  have "mapM (\<lambda>f. case data_column d (fs_name f) of None \<Rightarrow> Panic | Some c \<Rightarrow> gather_column (fs_type f) c runs) ?s = Ok (map G [0..<length ?s])"
  proof -
    have "mapM f xs = Ok (map G [0..<length xs])" if "\<forall>j < length xs. f (xs ! j) = Ok (G j)" for f :: "field_schema \<Rightarrow> (core_error, column) res" and xs G
      using that
    proof (induction xs arbitrary: G)
      case (Cons x xs)
      have "mapM f xs = Ok (map (\<lambda>j. G (Suc j)) [0..<length xs])" by (rule Cons.IH) (use Cons.prems in fastforce)
      moreover have "f x = Ok (G 0)" using Cons.prems by fastforce
      ultimately show ?case by (simp add: map_upt_Suc del: upt_Suc)
    qed simp
    then show ?thesis using G col(1) by simp
  qed
  moreover have "data_new ?s (map G [0..<length ?s]) = Ok \<lparr>da_schema = ?s, da_columns = map G [0..<length ?s]\<rparr>"
  proof -
    have "0 < length ?s" using d(2,3) by (cases ?cs) auto
    then have "hd (map G [0..<length ?s]) = G 0" by (simp add: hd_map)
    then show ?thesis unfolding data_new_Ok using G \<open>0 < length ?s\<close> by auto
  qed
  ultimately have "gather_runs d runs = Ok \<lparr>da_schema = ?s, da_columns = map G [0..<length ?s]\<rparr>"
    by (simp add: gather_runs_def)
  moreover have "data_length \<lparr>da_schema = ?s, da_columns = map G [0..<length ?s]\<rparr> = run_total runs"
  proof -
    obtain k where k: "length ?s = Suc k" using d(2,3) by (cases "length ?s") auto
    then have "map G [0..<length ?s] = G 0 # map G [1..<length ?s]" by (simp add: upt_conv_Cons del: upt_Suc)
    then show ?thesis using G[of 0] k by (simp add: data_length_def)
  qed
  ultimately show ?thesis using G d(2) by (intro exI[of _ "\<lparr>da_schema = ?s, da_columns = map G [0..<length ?s]\<rparr>"]) simp
qed

lemma times_scanned:
  assumes "\<forall>t \<in> set ts. supported t tt"
  shows "spans_inv scheme tt ts (length ts) (scan_times scheme tt (- (2 ^ 63), 0) 0 ts span_start)"
proof -
  have "spans_inv scheme tt ts 0 span_start"
    by (simp add: spans_inv_def span_start_def buckets_ok_def close_run_def runs_at_def)
  then show ?thesis using scan_times_inv[of scheme tt ts 0 span_start "(- (2 ^ 63), 0)"] assms by (simp add: key_cache_ok_def)
qed

lemma closed_spans:
  assumes inv: "spans_inv scheme tt ts (length ts) s"
  defines "c \<equiv> close_run scheme tt s"
  shows "distinct (map fst c)" "fst ` set c = (\<lambda>t. partition_name scheme t tt) ` set ts"
    "(p, runs) \<in> set c \<Longrightarrow> span_rows runs = filter (\<lambda>i. partition_name scheme (ts ! i) tt = p) [0..<length ts]"
    "(p, runs) \<in> set c \<Longrightarrow> (a, l) \<in> set runs \<Longrightarrow> 0 < l"
proof -
  let ?name = "\<lambda>t. partition_name scheme t tt"
  have ok: "buckets_ok c" using inv push_ok by (auto simp: spans_inv_def close_run_def c_def)
  have rows: "span_rows (runs_at c p) = filter (\<lambda>i. ?name (ts ! i) = p) [0..<length ts]" for p using inv by (simp add: spans_inv_def c_def)
  have at: "runs_at c p = runs" if "(p, runs) \<in> set c" for p runs
    using that ok by (simp add: runs_at_def buckets_ok_def)
  show "distinct (map fst c)" "(p, runs) \<in> set c \<Longrightarrow> (a, l) \<in> set runs \<Longrightarrow> 0 < l"
    "(p, runs) \<in> set c \<Longrightarrow> span_rows runs = filter (\<lambda>i. ?name (ts ! i) = p) [0..<length ts]"
    using ok rows at by (auto simp: buckets_ok_def)
  show "fst ` set c = ?name ` set ts"
  proof (intro set_eqI iffI)
    fix p assume "p \<in> fst ` set c"
    then obtain runs where r: "(p, runs) \<in> set c" by auto
    then have "runs \<noteq> []" "\<forall>(a, l) \<in> set runs. 0 < l" using ok by (auto simp: buckets_ok_def)
    then have "span_rows runs \<noteq> []" by (cases runs) auto
    then obtain i where "i \<in> set (filter (\<lambda>i. ?name (ts ! i) = p) [0..<length ts])" using rows[of p] at[OF r] by (metis list.set_sel(1))
    then show "p \<in> ?name ` set ts" by auto
  next
    fix p assume "p \<in> ?name ` set ts"
    then obtain i where "i < length ts" "?name (ts ! i) = p" by (auto simp: in_set_conv_nth)
    then have "span_rows (runs_at c p) \<noteq> []" unfolding rows by (auto simp: filter_empty_conv)
    then show "p \<in> fst ` set c" by (auto simp: runs_at_def dest: map_of_SomeD split: option.splits intro: rev_image_eqI)
  qed
qed

lemma partition_spans_eq:
  assumes "data_column d ''time'' = Some tc" "column_times tt (col_values tc) = (Ok ts :: (core_error, _) res)" "length ts = data_length d"
    and "\<forall>t \<in> set ts. supported t tt"
  shows "\<exists>bs. partition_spans d scheme tt = Ok bs \<and> sorted (map fst bs) \<and> distinct (map fst bs) \<and>
    set (map fst bs) = (\<lambda>t. partition_name scheme t tt) ` set ts \<and>
    (\<forall>(p, runs) \<in> set bs. span_rows runs = filter (\<lambda>i. partition_name scheme (ts ! i) tt = p) [0..<length ts] \<and> (\<forall>(a, l) \<in> set runs. 0 < l))"
proof -
  let ?c = "close_run scheme tt (scan_times scheme tt (- (2 ^ 63), 0) 0 ts span_start)"
  note c = closed_spans[OF times_scanned[OF assms(4), of scheme]]
  have "partition_spans d scheme tt = Ok (sort_key fst ?c)" using assms(1-3) by (simp add: partition_spans_def)
  moreover have "distinct (map fst (sort_key fst ?c))" using c(1) by (simp add: distinct_map distinct_sort)
  moreover have "\<forall>(p, runs) \<in> set (sort_key fst ?c). span_rows runs = filter (\<lambda>i. partition_name scheme (ts ! i) tt = p) [0..<length ts] \<and>
      (\<forall>(a, l) \<in> set runs. 0 < l)"
    using c(3,4) by auto
  ultimately show ?thesis using c(2) by (intro exI[of _ "sort_key fst ?c"]) simp
qed

subsection \<open>Properties\<close>

text \<open>C38. Splitting rows by partition: the partitions are found once each, in the order of their names, and
  gathering the runs of a partition succeeds and gives, in every column, the strings, values and NULLs of
  exactly the rows whose time has that partition's name, in the order of the input.\<close>

theorem partition_split:
  assumes "splittable d n" "n \<le> u32_max" "data_column d ''time'' = Some tc"
    and "column_times tt (col_values tc) = (Ok ts :: (core_error, _) res)" "length ts = n" "\<forall>t \<in> set ts. supported t tt"
  shows "\<exists>bs. partition_spans d scheme tt = Ok bs \<and> sorted (map fst bs) \<and> distinct (map fst bs) \<and>
    set (map fst bs) = (\<lambda>t. partition_name scheme t tt) ` set ts \<and>
    (\<forall>(p, runs) \<in> set bs. \<exists>d'. gather_runs d runs = Ok d' \<and> da_schema d' = da_schema d \<and>
       map column_texts (da_columns d') =
         map (\<lambda>c. map (row_text c) (filter (\<lambda>i. partition_name scheme (ts ! i) tt = p) [0..<n])) (da_columns d))"
proof -
  obtain c where c: "c \<in> set (da_columns d)" "data_length d = column_length c"
    using assms(1) by (cases "da_columns d") (auto simp: splittable_def data_length_def)
  have n: "length ts = data_length d"
  proof -
    obtain f where "(f, c) \<in> set (zip (da_schema d) (da_columns d))"
      using in_set_impl_in_set_zip2[of "da_schema d" "da_columns d" c] c(1) assms(1) by (auto simp: splittable_def)
    then show ?thesis using assms(1,5) c(2) by (auto simp: splittable_def gatherable_def)
  qed
  obtain bs where bs: "partition_spans d scheme tt = Ok bs" "sorted (map fst bs)" "distinct (map fst bs)"
    "set (map fst bs) = (\<lambda>t. partition_name scheme t tt) ` set ts"
    "\<forall>(p, runs) \<in> set bs. span_rows runs = filter (\<lambda>i. partition_name scheme (ts ! i) tt = p) [0..<length ts] \<and> (\<forall>(a, l) \<in> set runs. 0 < l)"
    using partition_spans_eq[OF assms(3,4) n assms(6)] by blast
  have "\<exists>d'. gather_runs d runs = Ok d' \<and> da_schema d' = da_schema d \<and> map column_texts (da_columns d') =
      map (\<lambda>c. map (row_text c) (filter (\<lambda>i. partition_name scheme (ts ! i) tt = p) [0..<n])) (da_columns d)"
    if pr: "(p, runs) \<in> set bs" for p runs
  proof -
    have rows: "span_rows runs = filter (\<lambda>i. partition_name scheme (ts ! i) tt = p) [0..<n]" using bs(5) pr assms(5) by auto
    have within: "runs_within runs n"
    proof -
      have ps: "0 < l" if "(a, l) \<in> set runs" for a l using bs(5) pr that by auto
      have "a + l \<le> n" if al: "(a, l) \<in> set runs" for a l
      proof -
        have "a + l - 1 \<in> set [a..<a + l]" using ps[OF al] by simp
        then have "a + l - 1 \<in> set (span_rows runs)" unfolding span_rows_def using al by fastforce
        then show ?thesis unfolding rows using ps[OF al] by auto
      qed
      then show ?thesis by (auto simp: runs_within_def)
    qed
    have "run_total runs \<le> n" using length_filter_le[of _ "[0..<n]"] by (simp flip: length_span_rows add: rows)
    then obtain d' where d': "gather_runs d runs = Ok d'" "da_schema d' = da_schema d" "length (da_columns d') = length (da_columns d)"
      "\<forall>j < length (da_columns d). column_texts (da_columns d' ! j) = map (row_text (da_columns d ! j)) (span_rows runs)"
      using gather_runs_eq[OF assms(1) within] assms(2) by auto
    then have "map column_texts (da_columns d') = map (\<lambda>c. map (row_text c) (span_rows runs)) (da_columns d)"
      by (intro nth_equalityI) simp_all
    then show ?thesis using d'(1,2) rows by auto
  qed
  then show ?thesis using bs(1-4) by (intro exI[of _ bs]) auto
qed

text \<open>Two symbols on two days, of September and October 2026; the second value is NULL.\<close>

definition example_data :: data where
  "example_data = \<lparr>
     da_schema = [\<lparr>fs_name = ''sym'', fs_type = Utf8\<rparr>, \<lparr>fs_name = ''time'', fs_type = Date32\<rparr>, \<lparr>fs_name = ''v'', fs_type = Int8\<rparr>],
     da_columns = [
       \<lparr>col_data_type = Utf8, col_values = [0, 0, 0, 0, 0, 0, 0, 0, 1, 0, 0, 0, 1, 0, 0, 0], col_validity = None,
        col_dict = Some (concat (map (le_bytes 8) [0 :: u64, 1, 2]), [65, 66])\<rparr>,
       \<lparr>col_data_type = Date32, col_values = [0xDC, 0x50, 0, 0, 4, 0x51, 0, 0, 0xDC, 0x50, 0, 0, 4, 0x51, 0, 0], col_validity = None, col_dict = None\<rparr>,
       \<lparr>col_data_type = Int8, col_values = [1, 2, 3, 4], col_validity = Some \<lparr>bm_data = [0xD], bm_bit_offset = 0, bm_len = 4\<rparr>, col_dict = None\<rparr>]\<rparr>"

lemma below_4: "(\<forall>i < (4 :: nat). P i) \<longleftrightarrow> P 0 \<and> P 1 \<and> P 2 \<and> P 3"
  by (auto simp: less_Suc_eq numeral_eq_Suc)

lemma example_splittable: "splittable example_data 4"
proof -
  have "gatherable (da_columns example_data ! 0) 4"
  proof -
    let ?c = "da_columns example_data ! 0" and ?ob = "concat (map (le_bytes 8) [0 :: u64, 1, 2])"
    have c: "column_ok ?c" "column_length ?c = 4" "col_dict ?c = Some (?ob, [65, 66])" by code_simp+
    moreover have "key_at ?c 0 = 0" "key_at ?c 1 = 0" "key_at ?c 2 = 1" "key_at ?c 3 = 1" by code_simp+
    moreover have "entry_ok ?ob [65, 66] 0" "entry_ok ?ob [65, 66] 1" by code_simp+
    ultimately show ?thesis by (simp add: gatherable_def below_4 del: list.map concat.simps)
  qed
  moreover have "gatherable (da_columns example_data ! 1) 4" unfolding gatherable_def below_4 by code_simp
  moreover have "gatherable (da_columns example_data ! 2) 4" unfolding gatherable_def below_4 by code_simp
  ultimately show ?thesis by (simp add: splittable_def example_data_def)
qed

lemma example_days: "civil_from_days 20700 = (2026, 9, 4)" "civil_from_days 20740 = (2026, 10, 14)" by code_simp+

lemma example_months: "partition_name PS_Month 20700 TT_Date32 = ''month=2026-09''" "partition_name PS_Month 20740 TT_Date32 = ''month=2026-10''"
proof -
  have digit: "char_of (48 :: nat) = CHR ''0''" "char_of (49 :: nat) = CHR ''1''" "char_of (50 :: nat) = CHR ''2''"
    "char_of (54 :: nat) = CHR ''6''" "char_of (57 :: nat) = CHR ''9''" by (simp_all add: char_of_def bit_0)
  show "partition_name PS_Month 20700 TT_Date32 = ''month=2026-09''" "partition_name PS_Month 20740 TT_Date32 = ''month=2026-10''"
    by (simp_all add: partition_name_def value_to_days_def example_days fmt_int_def pad0_def decimal.simps digit_char_def digit)
qed

theorem partition_split_witness:
  "partition_spans example_data PS_Month TT_Date32 = Ok [(''month=2026-09'', [(0, 1), (2, 1)]), (''month=2026-10'', [(1, 1), (3, 1)])] \<and>
   (\<exists>d'. gather_runs example_data [(1, 1), (3, 1)] = Ok d' \<and> map column_texts (da_columns d') =
      [[(True, Ok (Some [65])), (True, Ok (Some [66]))],
       [(True, Ok (Some [4, 0x51, 0, 0])), (True, Ok (Some [4, 0x51, 0, 0]))],
       [(False, Ok (Some [2])), (True, Ok (Some [4]))]])"
proof -
  have tc: "data_column example_data ''time'' = Some (da_columns example_data ! 1)" by code_simp
  have ts: "column_times TT_Date32 (col_values (da_columns example_data ! 1)) = (Ok [20700, 20740, 20700, 20740] :: (core_error, _) res)" by code_simp
  have spans: "partition_spans example_data PS_Month TT_Date32 = Ok [(''month=2026-09'', [(0, 1), (2, 1)]), (''month=2026-10'', [(1, 1), (3, 1)])]"
    proof -
    have "data_length example_data = 4" by code_simp
    then have "partition_spans example_data PS_Month TT_Date32 = Ok (sort_key fst (close_run PS_Month TT_Date32
        (scan_times PS_Month TT_Date32 (- (2 ^ 63), 0) 0 [20700, 20740, 20700, 20740] span_start)))"
      using tc ts by (simp add: partition_spans_def)
    then show ?thesis
      by (simp add: compute_key_def value_to_days_def example_days span_step_def close_run_def span_start_def example_months insort_key_def)
  qed
  have "(4 :: nat) \<le> u32_max" "length [20700 :: int, 20740, 20700, 20740] = 4" "\<forall>t \<in> set [20700, 20740, 20700, 20740]. supported t TT_Date32"
    by (simp_all add: supported_def)
  from partition_split[OF example_splittable this(1) tc ts this(2,3), of PS_Month] spans
  obtain d' where d': "gather_runs example_data [(1, 1), (3, 1)] = Ok d'" "map column_texts (da_columns d') =
      map (\<lambda>c. map (row_text c) (filter (\<lambda>i. partition_name PS_Month ([20700, 20740, 20700, 20740] ! i) TT_Date32 = ''month=2026-10'') [0..<4])) (da_columns example_data)"
    by auto
  have rows: "filter (\<lambda>i. partition_name PS_Month ([20700, 20740, 20700, 20740] ! i) TT_Date32 = ''month=2026-10'') [0..<4] = [1, 3]" by (simp add: upt_rec example_months)
  have "map (\<lambda>c. map (row_text c) [1, 3]) (da_columns example_data) =
      [[(True, Ok (Some [65])), (True, Ok (Some [66]))],
       [(True, Ok (Some [4, 0x51, 0, 0])), (True, Ok (Some [4, 0x51, 0, 0]))],
       [(False, Ok (Some [2])), (True, Ok (Some [4]))]]"
    by code_simp
  then show ?thesis using spans d' unfolding rows by auto
qed

end
