(* ===== verification/Table_Plan.thy ===== *)
theory Table_Plan
  imports Table_Gather Field_View
begin

text \<open>
  Planning a write to a table (\<open>splayed-table/src/write.rs\<close>): one pass checks that the keys of the input
  ascend strictly and finds the runs of every partition; the grid ranges that the index returns for a
  partition are matched with the input rows; a column that a partition does not have yet is built at the
  full length of the partition.
\<close>

subsection \<open>The pass over the input\<close>

fun scan_keys ::
  "partition_scheme \<Rightarrow> time_type \<Rightarrow> column_view \<Rightarrow> column_view \<Rightarrow> nat list \<Rightarrow> (bytes \<times> int) option \<Rightarrow> span_state \<Rightarrow>
   (core_error, span_state) res" where
  "scan_keys scheme tt sym_view time_view [] prev s = Ok s"
| "scan_keys scheme tt sym_view time_view (i # is) prev s =
     rbind (column_view_string_at sym_view i) (\<lambda>str.
     rbind (ok_or str (Invalid ''sym value is NULL'')) (\<lambda>sym.
     rbind (time_value_at time_view i) (\<lambda>t.
       if (case prev of None \<Rightarrow> False | Some (ps, pt) \<Rightarrow> sym < ps \<or> (sym = ps \<and> t \<le> pt))
       then Err (Invalid ''input must be strictly sorted and unique by (sym ASC, time ASC)'')
       else scan_keys scheme tt sym_view time_view is (Some (sym, t)) (span_step scheme tt i t (partition_key scheme t tt) s))))"

definition scan_partition_runs :: "partition_scheme \<Rightarrow> time_type \<Rightarrow> data_view \<Rightarrow> (core_error, buckets) res" where
  "scan_partition_runs scheme tt data = (case (data_view_column data ''sym'', data_view_column data ''time'') of
       (Some sym_view, Some time_view) \<Rightarrow>
         rbind (scan_keys scheme tt sym_view time_view [0..<dv_length data] None span_start) (\<lambda>s. Ok (close_run scheme tt s))
     | _ \<Rightarrow> Panic)"

subsection \<open>Matching grid rows with input rows\<close>

text \<open>A piece to write: its first grid row, its first input row, and its length. The runs that are left
  stand for the index \<open>ri\<close>; the position in the first of them never passes its length.\<close>

type_synonym piece = "nat \<times> nat \<times> nat"

function consume_range :: "nat \<Rightarrow> nat \<Rightarrow> row_span list \<Rightarrow> nat \<Rightarrow> (core_error, piece list \<times> row_span list \<times> nat) res" where
  "consume_range rest grid_off runs pos' =
     (if rest = 0 then Ok ([], runs, pos')
      else case runs of
        [] \<Rightarrow> Panic
      | (rs, rl) # later \<Rightarrow>
          let take_n = min rest (rl - pos')
          in if pos' + take_n = rl
             then rbind (consume_range (rest - take_n) (grid_off + take_n) later 0) (\<lambda>(ws, st). Ok ((grid_off, rs + pos', take_n) # ws, st))
             else if take_n = 0 then Panic
             else rbind (consume_range (rest - take_n) (grid_off + take_n) runs (pos' + take_n)) (\<lambda>(ws, st). Ok ((grid_off, rs + pos', take_n) # ws, st)))"
  by pat_completeness auto
termination
  by (relation "measure (\<lambda>(rest, grid_off, runs, pos'). rest + length runs)") auto

declare consume_range.simps [simp del]

fun consume_located :: "row_range list \<Rightarrow> row_span list \<Rightarrow> nat \<Rightarrow> (core_error, piece list) res" where
  "consume_located [] runs pos' = Ok []"
| "consume_located (r # rs) runs pos' =
     rbind (consume_range (rr_length r) (rr_offset r) runs pos') (\<lambda>(ws, runs', pos'').
     rbind (consume_located rs runs' pos'') (\<lambda>ws'. Ok (ws @ ws')))"

fun run_pairs :: "column_view \<Rightarrow> column_view \<Rightarrow> nat list \<Rightarrow> (core_error, (bytes \<times> int) list) res" where
  "run_pairs sym_view time_view [] = Ok []"
| "run_pairs sym_view time_view (i # is) =
     rbind (column_view_string_at sym_view i) (\<lambda>str.
     rbind (ok_or str (Invalid ''sym value is NULL'')) (\<lambda>sym.
     rbind (time_value_at time_view i) (\<lambda>t.
     rbind (run_pairs sym_view time_view is) (\<lambda>ps. Ok ((sym, t) # ps)))))"

definition partition_pieces :: "row_range list \<Rightarrow> nat \<Rightarrow> row_span list \<Rightarrow> (core_error, piece list) res" where
  "partition_pieces located pairs runs =
     (if sum_list (map rr_length located) \<noteq> pairs then Err (InvalidState ''locate total does not match the input rows'')
      else consume_located located runs 0)"

subsection \<open>A new column\<close>

definition put_segment :: "bytes \<times> nat \<Rightarrow> column_segment \<Rightarrow> (core_error, bytes \<times> nat) res" where
  "put_segment = (\<lambda>(values, p) s.
     rbind (ok_or (fixed_bytes (seg_values s)) (Invalid ''create_table_columns supports fixed-width columns only'')) (\<lambda>bs.
     rbind (copy_into p (p + length bs) bs values) (\<lambda>values'. Ok (values', p + length bs))))"

definition put_piece :: "column_view \<Rightarrow> nat \<Rightarrow> bytes \<times> bitmap \<Rightarrow> piece \<Rightarrow> (core_error, bytes \<times> bitmap) res" where
  "put_piece src width = (\<lambda>(values, validity) (grid_offset, input_start, len).
     rbind (fmt_err (slice_rows src input_start len)) (\<lambda>seg.
     rbind (foldM put_segment (values, grid_offset * width) (cv_segments seg)) (\<lambda>(values', _).
     rbind (bitmap_set_range validity grid_offset len True) (\<lambda>(validity', _). Ok (values', validity')))))"

definition build_aligned_column :: "data_view \<Rightarrow> piece list \<Rightarrow> string \<Rightarrow> data_type \<Rightarrow> nat \<Rightarrow> (core_error, column) res" where
  "build_aligned_column data pieces name dtype l_p =
     rbind (ok_or (data_view_column data name) (Invalid ''input column missing'')) (\<lambda>src.
     rbind (foldM (put_piece src (size_of dtype)) (replicate (l_p * size_of dtype) 0, bitmap_zeros l_p) pieces) (\<lambda>(values, validity).
       Ok \<lparr>col_data_type = dtype, col_values = values, col_validity = Some validity, col_dict = None\<rparr>))"

subsection \<open>The pieces pair grid rows and input rows\<close>

definition piece_pairs :: "piece \<Rightarrow> (nat \<times> nat) list" where
  "piece_pairs = (\<lambda>(g, s, l). zip [g..<g + l] [s..<s + l])"

definition range_rows :: "row_range list \<Rightarrow> nat list" where
  "range_rows rs = concat (map (\<lambda>r. [rr_offset r..<rr_offset r + rr_length r]) rs)"

lemma range_rows_simps [simp]: "range_rows [] = []"
  "range_rows (r # rs) = [rr_offset r..<rr_offset r + rr_length r] @ range_rows rs"
  by (simp_all add: range_rows_def)

lemma length_range_rows [simp]: "length (range_rows rs) = sum_list (map rr_length rs)"
  by (induction rs) simp_all

definition at_run :: "row_span list \<Rightarrow> nat \<Rightarrow> bool" where
  "at_run runs p \<longleftrightarrow> (\<forall>(a, l) \<in> set runs. 0 < l) \<and> (case runs of [] \<Rightarrow> p = 0 | (a, l) # _ \<Rightarrow> p < l)"

lemma upt_take_drop: "p < l \<Longrightarrow> n \<le> l - p \<Longrightarrow> take n (drop p [a..<a + l]) = [a + p..<a + p + n]"
  by (simp add: drop_upt take_upt)

lemma consume_range_eq:
  assumes "at_run runs p" "rest + p \<le> run_total runs"
  shows "\<exists>ws runs' p'. consume_range rest g runs p = Ok (ws, runs', p') \<and> at_run runs' p' \<and>
    concat (map piece_pairs ws) = zip [g..<g + rest] (take rest (drop p (span_rows runs))) \<and>
    drop p' (span_rows runs') = drop (p + rest) (span_rows runs) \<and> p' \<le> run_total runs' \<and> (\<forall>(g, s, l) \<in> set ws. 0 < l)"
  using assms
proof (induction rest g runs p rule: consume_range.induct)
  case (1 rest g runs p)
  show ?case
  proof (cases "rest = 0")
    case True
    then show ?thesis using 1(3,4) by (subst consume_range.simps) simp
  next
    case rest: False
    then obtain a l later where runs: "runs = (a, l) # later" using 1(4) by (cases runs) (auto simp: run_total_def)
    have p: "p < l" "\<forall>(a, l) \<in> set later. 0 < l" using 1(3) by (simp_all add: at_run_def runs)
    define n where "n = min rest (l - p)"
    have n: "0 < n" "n \<le> rest" "n \<le> l - p" using p(1) rest by (simp_all add: n_def)
    have rows: "drop p (span_rows runs) = [a + p..<a + p + n] @ drop (p + n) (span_rows runs)"
    proof -
      have "drop p [a..<a + l] = [a + p..<a + p + n] @ drop (p + n) [a..<a + l]"
        using upt_take_drop[OF p(1) n(3), of a] append_take_drop_id[of n "drop p [a..<a + l]"] by (simp add: ac_simps)
      then show ?thesis using p(1) n(3) by (simp add: runs)
    qed
    have z: "zip [g..<g + rest] (take rest (drop p (span_rows runs))) =
        piece_pairs (g, a + p, n) @ zip [g + n..<g + n + (rest - n)] (take (rest - n) (drop (p + n) (span_rows runs)))"
    proof -
      have "[g..<g + rest] = [g..<g + n] @ [g + n..<g + rest]" using n(2) upt_add_eq_append[of g "g + n" "rest - n"] by simp
      then show ?thesis using n(2) by (simp add: rows piece_pairs_def zip_append)
    qed
    obtain R q where R: "(R, q) = (if p + n = l then (later, 0) else (runs, p + n))" by (metis surj_pair)
    have R_ok: "at_run R q" using p n R by (auto simp: at_run_def runs split: list.splits if_splits)
    have R_rows: "drop q (span_rows R) = drop (p + n) (span_rows runs)" using R by (auto simp: runs split: if_splits)
    have R_total: "rest - n + q \<le> run_total R" using 1(4) n R by (auto simp: runs run_total_def split: if_splits)
    have "\<exists>ws runs' p'. consume_range (rest - n) (g + n) R q = Ok (ws, runs', p') \<and> at_run runs' p' \<and>
        concat (map piece_pairs ws) = zip [g + n..<g + n + (rest - n)] (take (rest - n) (drop q (span_rows R))) \<and>
        drop p' (span_rows runs') = drop (q + (rest - n)) (span_rows R) \<and> p' \<le> run_total runs' \<and> (\<forall>(g, s, l) \<in> set ws. 0 < l)"
    proof (cases "p + n = l")
      case True
      then show ?thesis using 1(1)[OF rest runs refl n_def] R R_ok R_total by simp
    next
      case False
      then show ?thesis using 1(2)[OF rest runs refl n_def] R R_ok R_total n(1) by simp
    qed
    moreover have "drop (q + (rest - n)) (span_rows R) = drop (p + rest) (span_rows runs)"
      using arg_cong[OF R_rows, of "drop (rest - n)"] n(2) by (simp add: ac_simps)
    ultimately obtain ws runs' p' where w: "consume_range (rest - n) (g + n) R q = Ok (ws, runs', p')" "at_run runs' p'"
      "concat (map piece_pairs ws) = zip [g + n..<g + n + (rest - n)] (take (rest - n) (drop (p + n) (span_rows runs)))"
      "drop p' (span_rows runs') = drop (p + rest) (span_rows runs)" "p' \<le> run_total runs'" "\<forall>(g, s, l) \<in> set ws. 0 < l"
      unfolding R_rows by (elim exE conjE) (rule that, simp_all)
    have "consume_range rest g runs p = Ok ((g, a + p, n) # ws, runs', p')"
      using rest w(1) n(1) R by (subst consume_range.simps) (auto simp: runs n_def Let_def split: if_splits)
    then show ?thesis using w(2-6) z n(1) by auto
  qed
qed

lemma consume_located_eq:
  "at_run runs p \<Longrightarrow> sum_list (map rr_length located) + p = run_total runs \<Longrightarrow>
   \<exists>ws. consume_located located runs p = Ok ws \<and> concat (map piece_pairs ws) = zip (range_rows located) (drop p (span_rows runs)) \<and> (\<forall>(g, s, l) \<in> set ws. 0 < l)"
proof (induction located arbitrary: runs p)
  case (Cons r rs)
  let ?n = "rr_length r" and ?rows = "drop p (span_rows runs)"
  obtain ws runs' p' where w: "consume_range ?n (rr_offset r) runs p = Ok (ws, runs', p')" "at_run runs' p'"
    "concat (map piece_pairs ws) = zip [rr_offset r..<rr_offset r + ?n] (take ?n ?rows)"
    "drop p' (span_rows runs') = drop (p + ?n) (span_rows runs)" "p' \<le> run_total runs'" "\<forall>(g, s, l) \<in> set ws. 0 < l"
    using consume_range_eq[OF Cons.prems(1), of ?n "rr_offset r"] Cons.prems(2) by auto
  have "run_total runs' - p' = run_total runs - (p + ?n)" using arg_cong[OF w(4), of length] by simp
  then have "sum_list (map rr_length rs) + p' = run_total runs'" using Cons.prems(2) w(5) by simp
  then obtain ws' where w': "consume_located rs runs' p' = Ok ws'"
    "concat (map piece_pairs ws') = zip (range_rows rs) (drop p' (span_rows runs'))" "\<forall>(g, s, l) \<in> set ws'. 0 < l"
    using Cons.IH[OF w(2)] by blast
  have "zip (range_rows (r # rs)) ?rows = zip [rr_offset r..<rr_offset r + ?n] (take ?n ?rows) @ zip (range_rows rs) (drop ?n ?rows)"
    by (simp add: zip_append1)
  then show ?case using w w' by (auto simp: add.commute)
qed simp

subsection \<open>The new column\<close>

lemma slice_loop_fixed:
  "\<forall>s \<in> set segs. seg_fixed dt s \<Longrightarrow> slice_loop dt stop segs st p = Ok ss \<Longrightarrow> s \<in> set ss \<Longrightarrow> \<exists>v. seg_values s = Fixed v"
proof (induction dt stop segs st p arbitrary: ss rule: slice_loop.induct)
  case (2 dt stop seg segs st p)
  obtain v where v: "seg_values seg = Fixed v" using 2(3) by (auto simp: seg_fixed_def)
  then have "\<exists>v. seg_values x = Fixed v" if "slice_segment dt seg lo n = Ok x" for lo n x
    using that by (auto simp: slice_segment_def segment_new_def Let_def res_simps split: if_splits)
  then show ?case using 2 by (auto simp: Let_def res_simps split: if_splits)
qed simp

lemma slice_rows_fixed:
  assumes "sliceable v" "offset + len \<le> cv_length v" "\<forall>s \<in> set (cv_segments v). seg_fixed (cv_data_type v) s"
  shows "\<exists>w. slice_rows v offset len = Ok w \<and> (\<forall>s \<in> set (cv_segments w). seg_fixed (cv_data_type v) s) \<and>
    sum_list (map seg_rows (cv_segments w)) = len \<and>
    concat (map (seg_cells (cv_data_type v)) (cv_segments w)) = slice offset (offset + len) (view_cells v)"
proof -
  obtain w where w: "slice_rows v offset len = Ok w" "column_view_ok w" "cv_length w = len" "cv_data_type w = cv_data_type v"
    "view_cells w = slice offset (offset + len) (view_cells v)" using slice_rows_eq[OF assms(1,2)] by blast
  have "\<exists>x. seg_values s = Fixed x" if "s \<in> set (cv_segments w)" for s
    using w(1) that assms(3) slice_loop_fixed[of "cv_segments v" "cv_data_type v"]
    by (fastforce simp: slice_rows_def column_view_empty_def column_view_new_def res_simps split: if_splits)
  then show ?thesis using w by (auto simp: seg_fixed_def column_view_ok_def view_cells_def)
qed

lemma put_segments:
  assumes "\<forall>s \<in> set segs. seg_fixed dt s" "p + sum_list (map seg_rows segs) * size_of dt \<le> length values"
  shows "foldM put_segment (values, p) segs =
    Ok (splice p (concat (map (\<lambda>s. plain_bytes (seg_values s)) segs)) values, p + sum_list (map seg_rows segs) * size_of dt)"
  using assms
proof (induction segs arbitrary: "values" p)
  case (Cons s segs)
  then have s: "seg_fixed dt s" by simp
  obtain v where v: "seg_values s = Fixed v" using s by (auto simp: seg_fixed_def)
  have l: "length v = seg_rows s * size_of dt" "plain_bytes (seg_values s) = v" using seg_cells_bytes(2)[OF s] v by simp_all
  have fit: "p + length v + sum_list (map seg_rows segs) * size_of dt \<le> length values" using Cons.prems(2) l(1) by (simp add: add_mult_distrib)
  have len: "length (concat (map (\<lambda>s. plain_bytes (seg_values s)) segs)) = sum_list (map seg_rows segs) * size_of dt"
    using concat_seg_cells[of segs dt] Cons.prems(1) by simp
  have "p + length v \<le> length values" using fit by linarith
  then have "put_segment (values, p) s = Ok (splice p v values, p + length v)"
    by (simp add: put_segment_def v copy_into_def slice_r_def slice_ok_def ok_or_def)
  moreover have "p + length v + sum_list (map seg_rows segs) * size_of dt \<le> length (splice p v values)" using fit by simp
  ultimately show ?case
    using Cons.IH[of "p + length v" "splice p v values"] Cons.prems(1) splice_splice_adjacent[of p v _ "values"] fit len l
    by (simp add: add_mult_distrib)
qed (simp add: splice_def)

text \<open>What the column shows after some pieces; a later piece overwrites an earlier one.\<close>

definition piece_cell :: "column_view \<Rightarrow> nat \<Rightarrow> (nat \<times> nat) list \<Rightarrow> nat \<Rightarrow> bool \<times> cell_value" where
  "piece_cell src w pairs r = (case map_of (rev pairs) r of
       None \<Rightarrow> (False, CBytes (replicate w 0))
     | Some i \<Rightarrow> (True, snd (view_cells src ! i)))"

definition built :: "column_view \<Rightarrow> data_type \<Rightarrow> nat \<Rightarrow> (nat \<times> nat) list \<Rightarrow> bytes \<Rightarrow> bitmap \<Rightarrow> bool" where
  "built src dt n pairs values validity \<longleftrightarrow> length values = n * size_of dt \<and> bitmap_ok validity \<and> bm_bit_offset validity = 0 \<and>
     bm_len validity = n \<and> length (bm_data validity) = validity_size n \<and>
     cells_of dt values (bm_bit validity) n = map (piece_cell src (size_of dt) pairs) [0..<n]"

lemma map_of_rev_distinct:
  assumes "distinct (map fst xs)"
  shows "map_of (rev xs) r = map_of xs r"
proof -
  have d: "distinct (map fst (rev xs))" using assms by (simp flip: rev_map)
  show ?thesis
  proof (cases "map_of xs r")
    case None
    then have "r \<notin> fst ` set xs" by (simp add: map_of_eq_None_iff)
    then have "map_of (rev xs) r = None" by (simp add: map_of_eq_None_iff)
    then show ?thesis using None by simp
  next
    case (Some x)
    then show ?thesis using map_of_is_SomeI[OF d, of r x] by (auto dest: map_of_SomeD)
  qed
qed

lemma map_of_pairs: "map_of (rev (piece_pairs (g, s, l))) r = (if g \<le> r \<and> r < g + l then Some (s + (r - g)) else None)"
proof -
  have d: "distinct (map fst (zip [g..<g + l] [s..<s + l]))" by simp
  have "map_of (zip [g..<g + l] [s..<s + l]) r = (if g \<le> r \<and> r < g + l then Some (s + (r - g)) else None)"
  proof (cases "g \<le> r \<and> r < g + l")
    case True
    then have "([g..<g + l] ! (r - g), [s..<s + l] ! (r - g)) \<in> set (zip [g..<g + l] [s..<s + l])"
      by (auto simp: set_zip intro!: exI[of _ "r - g"])
    moreover have "[s..<s + l] ! (r - g) = s + (r - g)" using True by (intro nth_upt) linarith
    ultimately show ?thesis using True d by (simp add: map_of_eq_Some_iff)
  next
    case False
    then show ?thesis by (auto simp: map_of_eq_None_iff dest: set_zip_leftD)
  qed
  then show ?thesis using map_of_rev_distinct[OF d] by (simp add: piece_pairs_def)
qed

lemma put_piece_built:
  assumes src: "sliceable src" "cv_data_type src = dt" "\<forall>s \<in> set (cv_segments src). seg_fixed dt s"
    and "built src dt n pairs values validity" "s + l \<le> cv_length src" "g + l \<le> n"
  shows "\<exists>values' validity'. put_piece src (size_of dt) (values, validity) (g, s, l) = Ok (values', validity') \<and>
    built src dt n (pairs @ piece_pairs (g, s, l)) values' validity'"
proof -
  let ?w = "size_of dt"
  note B = assms(4)[unfolded built_def]
  obtain w where w: "slice_rows src s l = Ok w" "\<forall>x \<in> set (cv_segments w). seg_fixed dt x" "sum_list (map seg_rows (cv_segments w)) = l"
    "concat (map (seg_cells dt) (cv_segments w)) = slice s (s + l) (view_cells src)"
    using slice_rows_fixed[OF src(1) assms(5)] src(2,3) by auto
  let ?raw = "concat (map (\<lambda>s. plain_bytes (seg_values s)) (cv_segments w))"
  let ?cells = "slice s (s + l) (view_cells src)"
  have raw: "?cells = cells_of dt ?raw (\<lambda>j. fst (?cells ! j)) l" "length ?raw = l * ?w"
    using concat_seg_cells[OF w(2)] w(3,4) by simp_all
  have len: "length (view_cells src) = cv_length src" using src(1) by (simp add: sliceable_def length_view_cells)
  have cell: "CBytes (slice (i * ?w) ((i + 1) * ?w) ?raw) = snd (view_cells src ! (s + i))" if i: "i < l" for i
  proof -
    have "?cells ! i = view_cells src ! (s + i)" using i assms(5) len by simp
    moreover have "snd (cells_of dt ?raw (\<lambda>j. fst (?cells ! j)) l ! i) = CBytes (slice (i * ?w) ((i + 1) * ?w) ?raw)"
      using i by (simp add: cells_of_def)
    ultimately show ?thesis using raw(1) by metis
  qed
  have fit: "g * ?w + sum_list (map seg_rows (cv_segments w)) * ?w \<le> length values"
    using B w(3) assms(6) mult_le_mono1[of "g + l" n ?w] by (simp add: add_mult_distrib)
  obtain v' old where v': "bitmap_set_range validity g l True = (Ok (v', old) :: (core_error, _) res)" "bitmap_ok v'" "bm_bit_offset v' = 0"
    "bm_len v' = bm_len validity" "length (bm_data v') = length (bm_data validity)"
    "\<forall>j. bm_bit v' j = (if g \<le> j \<and> j < g + l then True else bm_bit validity j)"
    using set_range_eq[of validity g l True, where 'e = core_error] B assms(6) by auto
  let ?vs = "splice (g * ?w) ?raw values"
  have run: "put_piece src ?w (values, validity) (g, s, l) = Ok (?vs, v')"
    using w(1) put_segments[OF w(2) fit] v'(1) by (simp add: put_piece_def)
  have "cells_of dt ?vs (bm_bit v') n =
      splice g (map (\<lambda>i. (True, CBytes (slice (i * ?w) ((i + 1) * ?w) ?raw))) [0..<l]) (cells_of dt values (bm_bit validity) n)"
    by (rule splice_cells) (use B assms(6) raw(2) v'(6) in auto)
  also have "\<dots> = map (piece_cell src ?w (pairs @ piece_pairs (g, s, l))) [0..<n]" (is "?lhs = ?rhs")
  proof (rule nth_equalityI)
    show "length ?lhs = length ?rhs" using assms(6) by (simp add: cells_of_def)
    fix r assume "r < length ?lhs"
    then have r: "r < n" using assms(6) by (simp add: cells_of_def)
    show "?lhs ! r = ?rhs ! r"
    proof (cases "g \<le> r \<and> r < g + l")
      case True
      then have "r - g < l" by linarith
      then show ?thesis using True r assms(6) cell[of "r - g"] by (simp add: nth_splice piece_cell_def map_of_pairs cells_of_def)
    next
      case False
      have "cells_of dt values (bm_bit validity) n ! r = piece_cell src ?w pairs r" using B r by simp
      then show ?thesis using False r assms(6) by (auto simp: nth_splice piece_cell_def map_of_pairs cells_of_def map_add_def)
    qed
  qed
  finally have "built src dt n (pairs @ piece_pairs (g, s, l)) ?vs v'"
    using B v'(2-5) raw(2) fit w(3) by (simp add: built_def)
  then show ?thesis using run by blast
qed

lemma put_pieces_built:
  assumes src: "sliceable src" "cv_data_type src = dt" "\<forall>s \<in> set (cv_segments src). seg_fixed dt s"
  shows "built src dt n pairs values validity \<Longrightarrow> \<forall>(g, s, l) \<in> set pieces. s + l \<le> cv_length src \<and> g + l \<le> n \<Longrightarrow>
    \<exists>values' validity'. foldM (put_piece src (size_of dt)) (values, validity) pieces = Ok (values', validity') \<and>
      built src dt n (pairs @ concat (map piece_pairs pieces)) values' validity'"
proof (induction pieces arbitrary: pairs "values" validity)
  case (Cons p pieces)
  obtain g s l where p: "p = (g, s, l)" by (cases p)
  obtain vs v where v: "put_piece src (size_of dt) (values, validity) p = Ok (vs, v)" "built src dt n (pairs @ piece_pairs p) vs v"
    using put_piece_built[OF src Cons.prems(1), of s l g] Cons.prems(2) p by auto
  then show ?case using Cons.IH[OF v(2)] Cons.prems(2) by auto
qed auto

lemma nothing_built: "dt \<noteq> Utf8 \<Longrightarrow> built src dt n [] (replicate (n * size_of dt) 0) (bitmap_zeros n)"
proof -
  assume "dt \<noteq> Utf8"
  let ?w = "size_of dt"
  have "slice (i * ?w) ((i + 1) * ?w) (replicate (n * ?w) (0 :: u8)) = replicate ?w 0" if "i < n" for i
  proof -
    have "(i + 1) * ?w \<le> n * ?w" using that by (intro mult_le_mono1) simp
    then show ?thesis by (simp add: slice_def min_def)
  qed
  then have "cells_of dt (replicate (n * ?w) 0) (bm_bit (bitmap_zeros n)) n = map (piece_cell src ?w []) [0..<n]"
    using bitmap_zeros_bits[of _ n] by (simp add: cells_of_def piece_cell_def)
  then show ?thesis using bitmap_zeros_ok[of n] by (simp add: built_def validity_size_def bitmap_zeros_def)
qed

lemma aligned_column_eq:
  assumes "data_view_column data name = Some src" "sliceable src" "cv_data_type src = dt" "dt \<noteq> Utf8"
    and "\<forall>s \<in> set (cv_segments src). seg_fixed dt s"
    and "\<forall>(a, l) \<in> set runs. 0 < l" "runs_within runs (cv_length src)" "sum_list (map rr_length located) = run_total runs"
    and "distinct (range_rows located)" "\<forall>r \<in> set (range_rows located). r < l_p"
  shows "\<exists>pieces col. partition_pieces located (run_total runs) runs = Ok pieces \<and> build_aligned_column data pieces name dt l_p = Ok col \<and>
    col_ok col \<and> col_data_type col = dt \<and> column_length col = l_p \<and>
    col_cells col = map (\<lambda>r. case map_of (zip (range_rows located) (span_rows runs)) r of
         None \<Rightarrow> (False, CBytes (replicate (size_of dt) 0))
       | Some i \<Rightarrow> (True, snd (view_cells src ! i))) [0..<l_p]"
proof -
  have at: "at_run runs 0" using assms(6) by (auto simp: at_run_def split: list.splits)
  obtain ws where ws: "consume_located located runs 0 = Ok ws" "concat (map piece_pairs ws) = zip (range_rows located) (span_rows runs)"
    "\<forall>(g, s, l) \<in> set ws. 0 < l"
    using consume_located_eq[OF at, of located] assms(8) by auto
  have pieces: "partition_pieces located (run_total runs) runs = Ok ws" using ws(1) assms(8) by (simp add: partition_pieces_def)
  have within: "\<forall>(g, s, l) \<in> set ws. s + l \<le> cv_length src \<and> g + l \<le> l_p"
  proof clarify
    fix g s l assume w: "(g, s, l) \<in> set ws"
    then have l: "0 < l" using ws(3) by auto
    then have "(g + (l - 1), s + (l - 1)) \<in> set (piece_pairs (g, s, l))"
      by (auto simp: piece_pairs_def set_zip intro!: exI[of _ "l - 1"])
    then have m: "(g + (l - 1), s + (l - 1)) \<in> set (zip (range_rows located) (span_rows runs))" 
      unfolding ws(2)[symmetric] set_concat set_map using w by blast
    have "g + (l - 1) < l_p" using set_zip_leftD[OF m] assms(10) by blast
    moreover have "s + (l - 1) < cv_length src" using set_zip_rightD[OF m] span_rows_within[OF assms(7)] by blast
    ultimately show "s + l \<le> cv_length src \<and> g + l \<le> l_p" using l by linarith
  qed
  obtain vs v where v: "foldM (put_piece src (size_of dt)) (replicate (l_p * size_of dt) 0, bitmap_zeros l_p) ws = Ok (vs, v)"
    "built src dt l_p (zip (range_rows located) (span_rows runs)) vs v"
    using put_pieces_built[OF assms(2,3,5) nothing_built[OF assms(4)] within] ws(2) by auto
  let ?col = "\<lparr>col_data_type = dt, col_values = vs, col_validity = Some v, col_dict = None\<rparr>"
  have w: "0 < size_of dt" using assms(4) size_of_pos by simp
  have cl: "column_length ?col = l_p" using v(2) assms(4) w by (simp add: column_length_def built_def)
  have d: "distinct (map fst (zip (range_rows located) (span_rows runs)))" using assms(9) by (simp add: map_fst_zip_take)
  have "build_aligned_column data ws name dt l_p = Ok ?col" using assms(1) v(1) by (simp add: build_aligned_column_def ok_or_def)
  moreover have "col_ok ?col" using v(2) assms(4) cl by (simp add: col_ok_def built_def)
  moreover have "col_cells ?col = map (piece_cell src (size_of dt) (zip (range_rows located) (span_rows runs))) [0..<l_p]"
  proof -
    have "col_valid ?col = bm_bit v" by (simp add: col_valid_def fun_eq_iff)
    then show ?thesis using v(2) cl by (simp add: col_cells_def built_def)
  qed
  ultimately show ?thesis using pieces cl d
    by (intro exI[of _ ws] exI[of _ ?col]) (simp add: piece_cell_def map_of_rev_distinct)
qed

subsection \<open>The pass accepts exactly ascending keys\<close>

definition ascending_keys :: "(bytes \<times> int) list \<Rightarrow> bool" where
  "ascending_keys ks \<longleftrightarrow> (\<forall>i. Suc i < length ks \<longrightarrow> fst (ks ! i) < fst (ks ! Suc i) \<or>
     (fst (ks ! i) = fst (ks ! Suc i) \<and> snd (ks ! i) < snd (ks ! Suc i)))"

definition keys_read :: "column_view \<Rightarrow> column_view \<Rightarrow> (bytes \<times> int) list \<Rightarrow> bool" where
  "keys_read sym_view time_view ks \<longleftrightarrow> (\<forall>i < length ks.
     column_view_string_at sym_view i = (Ok (Some (fst (ks ! i))) :: (core_error, _) res) \<and> time_value_at time_view i = Ok (snd (ks ! i)))"

fun later_key :: "(bytes \<times> int) option \<Rightarrow> bytes \<times> int \<Rightarrow> bool" where
  "later_key None k \<longleftrightarrow> True"
| "later_key (Some p) k \<longleftrightarrow> fst p < fst k \<or> (fst p = fst k \<and> snd p < snd k)"

lemma all_from_Suc: "i < n \<Longrightarrow> (\<forall>j. i \<le> j \<and> j < n \<longrightarrow> P j) \<longleftrightarrow> P i \<and> (\<forall>j. Suc i \<le> j \<and> j < n \<longrightarrow> P j)"
  by (metis Suc_leD Suc_leI le_eq_less_or_eq)

lemma scan_keys_eq:
  assumes "keys_read sv tv ks" "\<forall>k \<in> set ks. supported (snd k) tt"
  shows "i \<le> length ks \<Longrightarrow> spans_inv scheme tt (map snd ks) i s \<Longrightarrow>
    prev = (if i = 0 then None else Some (ks ! (i - 1))) \<Longrightarrow>
    (if \<forall>j. i \<le> j \<and> j < length ks \<longrightarrow> later_key (if j = 0 then None else Some (ks ! (j - 1))) (ks ! j)
     then \<exists>s'. scan_keys scheme tt sv tv [i..<length ks] prev s = Ok s' \<and> spans_inv scheme tt (map snd ks) (length ks) s'
     else scan_keys scheme tt sv tv [i..<length ks] prev s =
       Err (Invalid ''input must be strictly sorted and unique by (sym ASC, time ASC)''))"
proof (induction "length ks - i" arbitrary: i s prev)
  case 0
  then show ?case by auto
next
  case (Suc n)
  then have i: "i < length ks" by simp
  then have u: "[i..<length ks] = i # [Suc i..<length ks]" by (simp add: upt_conv_Cons)
  have rd: "column_view_string_at sv i = (Ok (Some (fst (ks ! i))) :: (core_error, _) res)" "time_value_at tv i = Ok (snd (ks ! i))"
    using assms(1) i by (simp_all add: keys_read_def)
  have sup: "supported (map snd ks ! i) tt" using assms(2) i by simp
  let ?s = "span_step scheme tt i (snd (ks ! i)) (partition_key scheme (snd (ks ! i)) tt) s"
  have inv: "spans_inv scheme tt (map snd ks) (Suc i) ?s"
    using span_step_inv[OF Suc.prems(2) _ sup] i by simp
  have IH: "if \<forall>j. Suc i \<le> j \<and> j < length ks \<longrightarrow> later_key (if j = 0 then None else Some (ks ! (j - 1))) (ks ! j)
     then \<exists>s'. scan_keys scheme tt sv tv [Suc i..<length ks] (Some (ks ! i)) ?s = Ok s' \<and> spans_inv scheme tt (map snd ks) (length ks) s'
     else scan_keys scheme tt sv tv [Suc i..<length ks] (Some (ks ! i)) ?s =
       Err (Invalid ''input must be strictly sorted and unique by (sym ASC, time ASC)'')"
    using Suc.hyps(1)[of "Suc i" ?s "Some (ks ! i)", OF _ _ inv] Suc.hyps(2) i by simp
  have step: "scan_keys scheme tt sv tv [i..<length ks] prev s = (if later_key prev (ks ! i)
      then scan_keys scheme tt sv tv [Suc i..<length ks] (Some (ks ! i)) ?s
      else Err (Invalid ''input must be strictly sorted and unique by (sym ASC, time ASC)''))"
    unfolding u by (cases prev) (auto simp: rd ok_or_def split: prod.splits)
  have all: "(\<forall>j. i \<le> j \<and> j < length ks \<longrightarrow> later_key (if j = 0 then None else Some (ks ! (j - 1))) (ks ! j)) \<longleftrightarrow>
      later_key prev (ks ! i) \<and> (\<forall>j. Suc i \<le> j \<and> j < length ks \<longrightarrow> later_key (if j = 0 then None else Some (ks ! (j - 1))) (ks ! j))"
    using all_from_Suc[OF i, of "\<lambda>j. later_key (if j = 0 then None else Some (ks ! (j - 1))) (ks ! j)"] Suc.prems(3) by simp
  show ?case unfolding step all using IH by simp
qed

lemma ascending_later:
  "ascending_keys ks \<longleftrightarrow> (\<forall>j. 0 \<le> j \<and> j < length ks \<longrightarrow> later_key (if j = 0 then None else Some (ks ! (j - 1))) (ks ! j))"
proof
  assume a: "ascending_keys ks"
  show "\<forall>j. 0 \<le> j \<and> j < length ks \<longrightarrow> later_key (if j = 0 then None else Some (ks ! (j - 1))) (ks ! j)"
  proof (intro allI impI)
    fix j assume "0 \<le> j \<and> j < length ks"
    then show "later_key (if j = 0 then None else Some (ks ! (j - 1))) (ks ! j)" using a by (cases j) (auto simp: ascending_keys_def)
  qed
next
  assume a: "\<forall>j. 0 \<le> j \<and> j < length ks \<longrightarrow> later_key (if j = 0 then None else Some (ks ! (j - 1))) (ks ! j)"
  show "ascending_keys ks" unfolding ascending_keys_def
  proof (intro allI impI)
    fix i assume "Suc i < length ks"
    then show "fst (ks ! i) < fst (ks ! Suc i) \<or> (fst (ks ! i) = fst (ks ! Suc i) \<and> snd (ks ! i) < snd (ks ! Suc i))"
      using a[rule_format, of "Suc i"] by simp
  qed
qed

subsection \<open>Properties\<close>

text \<open>C39. The pass over the input of a write accepts exactly the inputs whose keys ascend strictly by symbol
  and time, and then returns, for every partition that a time belongs to, the runs of exactly its rows.\<close>

theorem write_input_runs:
  assumes "data_view_column data ''sym'' = Some sv" "data_view_column data ''time'' = Some tv" "dv_length data = length ks"
    and "keys_read sv tv ks" "\<forall>k \<in> set ks. supported (snd k) tt"
  shows "if ascending_keys ks
    then \<exists>bs. scan_partition_runs scheme tt data = Ok bs \<and> distinct (map fst bs) \<and>
      fst ` set bs = (\<lambda>k. partition_name scheme (snd k) tt) ` set ks \<and>
      (\<forall>(p, runs) \<in> set bs. span_rows runs = filter (\<lambda>i. partition_name scheme (snd (ks ! i)) tt = p) [0..<length ks] \<and>
         (\<forall>(a, l) \<in> set runs. 0 < l))
    else scan_partition_runs scheme tt data = Err (Invalid ''input must be strictly sorted and unique by (sym ASC, time ASC)'')"
proof -
  have start: "spans_inv scheme tt (map snd ks) 0 span_start"
    by (simp add: spans_inv_def span_start_def buckets_ok_def close_run_def runs_at_def)
  note run = scan_keys_eq[OF assms(4,5) _ start, of None, folded ascending_later]
  show ?thesis
  proof (cases "ascending_keys ks")
    case True
    then obtain s where s: "scan_keys scheme tt sv tv [0..<length ks] None span_start = Ok s" "spans_inv scheme tt (map snd ks) (length ks) s"
      using run by auto
    have inv: "spans_inv scheme tt (map snd ks) (length (map snd ks)) s" using s(2) by simp
    note c = closed_spans[OF inv]
    have "scan_partition_runs scheme tt data = Ok (close_run scheme tt s)" using assms(1-3) s(1) by (simp add: scan_partition_runs_def)
    moreover have "\<forall>(p, runs) \<in> set (close_run scheme tt s).
        span_rows runs = filter (\<lambda>i. partition_name scheme (snd (ks ! i)) tt = p) [0..<length ks] \<and> (\<forall>(a, l) \<in> set runs. 0 < l)"
    proof clarify
      fix p runs assume r: "(p, runs) \<in> set (close_run scheme tt s)"
      have "filter (\<lambda>i. partition_name scheme (map snd ks ! i) tt = p) [0..<length (map snd ks)] =
          filter (\<lambda>i. partition_name scheme (snd (ks ! i)) tt = p) [0..<length ks]"
        by (intro filter_cong) simp_all
      then show "span_rows runs = filter (\<lambda>i. partition_name scheme (snd (ks ! i)) tt = p) [0..<length ks] \<and> (\<forall>(a, l) \<in> set runs. 0 < l)"
        using c(3)[OF r] c(4)[OF r] by auto
    qed
    moreover have "fst ` set (close_run scheme tt s) = (\<lambda>k. partition_name scheme (snd k) tt) ` set ks" using c(2) by (simp add: image_image)
    ultimately show ?thesis using True c(1) by auto
  next
    case False
    then show ?thesis using run assms(1-3) by (simp add: scan_partition_runs_def)
  qed
qed

text \<open>The view of the example's data, and its keys.\<close>

definition example_write :: data_view where
  "example_write = \<lparr>dv_schema = da_schema example_data, dv_columns = [
     \<lparr>cv_data_type = Utf8, cv_segments = [\<lparr>seg_values = Dict [0, 0, 0, 0, 0, 0, 0, 0, 1, 0, 0, 0, 1, 0, 0, 0]
         (concat (map (le_bytes 8) [0 :: u64, 1, 2])) [65, 66], seg_validity = None, seg_rows = 4\<rparr>], cv_length = 4\<rparr>,
     \<lparr>cv_data_type = Date32, cv_segments = [\<lparr>seg_values = Fixed [0xDC, 0x50, 0, 0, 4, 0x51, 0, 0, 0xDC, 0x50, 0, 0, 4, 0x51, 0, 0],
         seg_validity = None, seg_rows = 4\<rparr>], cv_length = 4\<rparr>,
     \<lparr>cv_data_type = Int8, cv_segments = [\<lparr>seg_values = Fixed [1, 2, 3, 4],
         seg_validity = Some \<lparr>bv_data = [0xD], bv_bit_offset = 0, bv_len = 4\<rparr>, seg_rows = 4\<rparr>], cv_length = 4\<rparr>], dv_length = 4\<rparr>"

definition example_keys :: "(bytes \<times> int) list" where
  "example_keys = [([65], 20700), ([65], 20740), ([66], 20700), ([66], 20740)]"

lemma example_keys_read:
  "keys_read (dv_columns example_write ! 0) (dv_columns example_write ! 1) example_keys"
proof -
  have l: "length example_keys = 4" by (simp add: example_keys_def)
  show ?thesis unfolding keys_read_def l below_4 by code_simp
qed

theorem write_input_runs_witness:
  "\<exists>bs. scan_partition_runs PS_Month TT_Date32 example_write = Ok bs \<and> fst ` set bs = {''month=2026-09'', ''month=2026-10''} \<and>
     (\<forall>(p, runs) \<in> set bs. span_rows runs = (if p = ''month=2026-09'' then [0, 2] else [1, 3]))"
proof -
  have c: "data_view_column example_write ''sym'' = Some (dv_columns example_write ! 0)"
    "data_view_column example_write ''time'' = Some (dv_columns example_write ! 1)" "dv_length example_write = length example_keys" by code_simp+
  have s: "\<forall>k \<in> set example_keys. supported (snd k) TT_Date32" by (simp add: example_keys_def supported_def)
  have a: "ascending_keys example_keys" unfolding ascending_later by (simp add: example_keys_def less_Suc_eq all_conj_distrib)
  from write_input_runs[OF c example_keys_read s, of PS_Month] a
  obtain bs where bs: "scan_partition_runs PS_Month TT_Date32 example_write = Ok bs"
    "fst ` set bs = (\<lambda>k. partition_name PS_Month (snd k) TT_Date32) ` set example_keys"
    "\<forall>(p, runs) \<in> set bs. span_rows runs = filter (\<lambda>i. partition_name PS_Month (snd (example_keys ! i)) TT_Date32 = p) [0..<length example_keys] \<and> (\<forall>(a, l) \<in> set runs. 0 < l)"
    by (simp only: if_True) blast
  have names: "fst ` set bs = {''month=2026-09'', ''month=2026-10''}" unfolding bs(2) by (auto simp: example_keys_def example_months)
  have rows: "filter (\<lambda>i. partition_name PS_Month (snd (example_keys ! i)) TT_Date32 = ''month=2026-09'') [0..<length example_keys] = [0, 2]"
    "filter (\<lambda>i. partition_name PS_Month (snd (example_keys ! i)) TT_Date32 = ''month=2026-10'') [0..<length example_keys] = [1, 3]"
    by (simp_all add: example_keys_def upt_rec example_months)
  have "span_rows runs = (if p = ''month=2026-09'' then [0, 2] else [1, 3])" if pr: "(p, runs) \<in> set bs" for p runs
  proof -
    have "p \<in> {''month=2026-09'', ''month=2026-10''}" using names pr by force
    then show ?thesis using bs(3) pr rows by auto
  qed
  then show ?thesis using bs(1) names by blast
qed

text \<open>C40. A column that a partition lacks: the ranges which the index returned for the rows of the input are cut
  into pieces, and the column built from them has the value of the input row at its grid row and NULL
  everywhere else. (An input row that is NULL becomes valid: see \<open>aligned_null_is_valid\<close>.)\<close>

theorem aligned_column_rows:
  assumes "data_view_column data name = Some src" "sliceable src" "cv_data_type src = dt" "dt \<noteq> Utf8"
    and "\<forall>s \<in> set (cv_segments src). seg_fixed dt s"
    and "\<forall>(a, l) \<in> set runs. 0 < l" "runs_within runs (cv_length src)" "sum_list (map rr_length located) = run_total runs"
    and "distinct (range_rows located)" "\<forall>r \<in> set (range_rows located). r < l_p"
  shows "\<exists>pieces col. partition_pieces located (run_total runs) runs = Ok pieces \<and> build_aligned_column data pieces name dt l_p = Ok col \<and>
    column_length col = l_p \<and>
    col_cells col = map (\<lambda>r. case map_of (zip (range_rows located) (span_rows runs)) r of
         None \<Rightarrow> (False, CBytes (replicate (size_of dt) 0))
       | Some i \<Rightarrow> (True, snd (view_cells src ! i))) [0..<l_p]"
  using aligned_column_eq[OF assms] by blast

theorem aligned_column_rows_witness:
  "\<exists>pieces col. partition_pieces [\<lparr>rr_offset = 1, rr_length = 2\<rparr>] (run_total [(1, 1), (3, 1)]) [(1, 1), (3, 1)] = Ok pieces \<and>
     build_aligned_column example_write pieces ''v'' Int8 3 = Ok col \<and> column_length col = 3 \<and>
     col_cells col = [(False, CBytes [0]), (True, CBytes [2]), (True, CBytes [4])]"
proof -
  let ?src = "dv_columns example_write ! 2" and ?l = "[\<lparr>rr_offset = 1, rr_length = 2\<rparr>]" and ?runs = "[(1, 1), (3, 1)] :: row_span list"
  have c: "data_view_column example_write ''v'' = Some ?src" "cv_data_type ?src = Int8" "Int8 \<noteq> Utf8" by code_simp+
  have ok: "sliceable ?src" "\<forall>s \<in> set (cv_segments ?src). seg_fixed Int8 s"
    by (simp_all add: example_write_def sliceable_def column_view_ok_def seg_ok_def validity_ok_def view_ok_def seg_byte_aligned_def seg_fixed_def)
  have r: "\<forall>(a, l) \<in> set ?runs. 0 < l" "runs_within ?runs (cv_length ?src)" "sum_list (map rr_length ?l) = run_total ?runs"
    "distinct (range_rows ?l)" "\<forall>r \<in> set (range_rows ?l). r < 3"
    by (simp_all add: example_write_def run_total_def upt_rec)
  from aligned_column_rows[OF c(1) ok(1) c(2,3) ok(2) r] obtain pieces col where
    p: "partition_pieces ?l (run_total ?runs) ?runs = Ok pieces" "build_aligned_column example_write pieces ''v'' Int8 3 = Ok col"
      "column_length col = 3" "col_cells col = map (\<lambda>r. case map_of (zip (range_rows ?l) (span_rows ?runs)) r of
         None \<Rightarrow> (False, CBytes (replicate (size_of Int8) 0))
       | Some i \<Rightarrow> (True, snd (view_cells ?src ! i))) [0..<3]" by blast
  have v: "view_cells ?src ! 1 = (False, CBytes [2])" "view_cells ?src ! 3 = (True, CBytes [4])" by code_simp+
  have "col_cells col = [(False, CBytes [0]), (True, CBytes [2]), (True, CBytes [4])]"
    using v unfolding p(4) by (simp add: upt_rec)
  then show ?thesis using p(1-3) by blast
qed

text \<open>The validity of the input is not read, so a NULL of the input is a value in the new column until the
  positional write that follows in \<open>write_table\<close> clears it.\<close>

theorem aligned_null_is_valid:
  "fst (view_cells (dv_columns example_write ! 2) ! 1) = False"
  "case build_aligned_column example_write [(0, 1, 1)] ''v'' Int8 1 of
     Ok col \<Rightarrow> col_cells col = [(True, CBytes [2])] | _ \<Rightarrow> False"
  by code_simp+

text \<open>A dictionary column without entries, as one that is NULL in every row can be, cannot be gathered.\<close>

theorem empty_dictionary_panics:
  "gather_column Utf8 \<lparr>col_data_type = Utf8, col_values = [0, 0, 0, 0], col_validity = Some (bitmap_zeros 1), col_dict = Some (le_bytes 8 (0 :: u64), [])\<rparr>
     [(0, 1)] = Panic"
  by code_simp

end
