(* ===== verification/Spec2Isabelle.thy ===== *)
theory Spec2Isabelle
  imports Columns Chunk Field_Scan Index_Locate Partition Dataset_Fields Dataset_Scan Table_Plan
begin

text \<open>
  A verification library for the splayed columnar store (the crates under \<open>crates/\<close>).

  The program. A dataset is a directory: the file \<open>.meta\<close> is the index, one file per field holds a column.
  The index is a grid: symbols in ascending order, a time axis, and one record per symbol that names a
  contiguous part of the axis; the rows are the records in order, so the columns \<open>sym\<close> and \<open>time\<close> are computed
  from it. A FIELD file is a 64-byte header followed by nothing (all NULL), by the plain values and validity
  bits, or by a sequence of encoded and compressed chunks. A handle maps a plain file or holds the decoded
  copy of a chunked one; closing a modified copy writes a new file and renames it over the old one. The
  operations of a dataset read, write and scan row ranges over several fields, serially or by scoped
  threads, and create, delete, rename, cast, compress and replace fields. A table is a directory of datasets
  named by time partitions.

  Conventions. A function that can fail returns \<open>res\<close>: \<open>Ok\<close>, \<open>Err\<close> with the source's error, or \<open>Panic\<close> (an
  index out of range, \<open>unwrap\<close>, \<open>expect\<close>, a division by zero, a failed allocation size). Error texts are fixed
  strings. Header fields are words of their width; lengths and row numbers, \<open>usize\<close> and \<open>u64\<close> in the code, are
  \<open>nat\<close>, and where a wrap-around or saturation is observable it is written out. Symbols and field contents
  are bytes, names and paths are \<open>string\<close>. Files are a map from paths to bytes; an operation on them is a
  state function (\<open>io\<close> in \<open>File_System\<close>, \<open>ds\<close> in \<open>Dataset_Handle\<close> with the handle as second state). A directory
  exists when a file is below it; the order and extent of a directory listing is the argument \<open>listing\<close>.
  Operations of the file system succeed when their documented preconditions hold: permission and disk
  errors are not modelled. The libraries zstd and lz4 are the argument \<open>codec_backend\<close>; a call of them may
  return an error or panic. Theorems that rest on them assume \<open>backend_ok\<close> (what was compressed decompresses
  to the same bytes) or \<open>backend_sane\<close> (moreover compression succeeds and does not expand without bound), and
  \<open>example_backend\<close> shows that both can hold.

  Theories, from the bottom up.
  \<^item> \<open>Prelude\<close>: \<open>res\<close>, little-endian words, slices, and list lemmas.
  \<^item> \<open>Format_Types\<close>, \<open>Headers\<close>, \<open>Bitmap\<close>, \<open>Columns\<close>: the crate \<open>splayed-format\<close>. \<open>Headers\<close> has the locale
    \<open>pod_format\<close> for fixed-size records; \<open>Bitmap\<close> proves the byte-wise routines equal to bit-wise ones through
    the locale \<open>bit_range_writer\<close>; \<open>Columns\<close> has buffers, segments, views and the cells a view shows (\<open>cv_cells\<close>).
  \<^item> \<open>Value_Codecs\<close>, \<open>Bitpack\<close>, \<open>Chunk\<close>: the crate \<open>splayed-codec\<close>; the locale \<open>value_codec\<close> is the contract of
    the four encodings and is interpreted on each of them and on their dispatch.
  \<^item> \<open>Ranges\<close>, \<open>Predicates\<close>, \<open>Range_Lists\<close>: \<open>scan.rs\<close>, the batch evaluation of predicates, the intersection of
    range lists; floating-point values are compared on their bits.
  \<^item> \<open>Number_Meaning\<close>: the references the conversions of the code are measured against, written without them:
    the number that the bytes of a cell, a literal or an axis value stand for, the nearest value of a float type,
    and when bytes of another type hold a number (\<open>holds_number\<close>).
  \<^item> \<open>Meta_Handle\<close>, \<open>Meta_Build\<close>, \<open>Meta_Read\<close>, \<open>Index_Scan\<close>, \<open>Index_Locate\<close>, \<open>Meta_File\<close>: \<open>meta_file.rs\<close>. The binary
    searches are instances of the locale \<open>sorted_probe\<close>; \<open>indexed\<close> says that an opened handle is the grid of an
    input; the scan of the index and the batch location of keys are stated against the rows of the grid, with
    times and literals read as numbers (\<open>time_value\<close>, \<open>literal_number\<close>); the code casts both to \<open>u64\<close>, so these
    results are for times from 1970 on and whole literals that are not negative.
  \<^item> \<open>File_System\<close>, \<open>Field_Create\<close>, \<open>Field_Handle\<close>, \<open>Field_Chunks\<close>, \<open>Field_Created\<close>, \<open>Field_Write\<close>, \<open>Field_Scan\<close>,
    \<open>Field_Compress\<close>, \<open>Field_Cast\<close>, \<open>Field_View\<close>: \<open>field_file.rs\<close>. The abstraction is \<open>field_holds B bs dt cells\<close>: the
    bytes of a file show a list of cells. Creation establishes it, opening and reading return it, writing is an
    update of the list, compression and decompression keep it, a cast keeps the numbers it shows.
  \<^item> \<open>Dataset_Chunks\<close>, \<open>Dataset_Handle\<close>, \<open>Thread_Pool\<close>, \<open>Dataset_Write\<close>, \<open>Dataset_Scan\<close>, \<open>Dataset_Table\<close>,
    \<open>Dataset_Create\<close>, \<open>Dataset_Fields\<close>: \<open>dataset.rs\<close>. \<open>dataset_shows B listing fs d T\<close> says that the directory and
    the cached handles of \<open>d\<close> show the table \<open>T\<close>, a map from field names to a type and rows; the operations
    refine updates of that map. Threads are a step relation over buckets of tasks (\<open>pool_step\<close>, the locale
    \<open>task_pool\<close>): results hold for every schedule.
  \<^item> \<open>Partition\<close>, \<open>Table_Gather\<close>, \<open>Table_Plan\<close>: the crate \<open>splayed-table\<close>: the calendar and the partition names in
    wrapping 64-bit arithmetic; the split of rows into partitions; the plan of a write. \<open>span_rows\<close> is the list of
    rows that runs stand for.

  Bounds and fuel. Loops over input that always shrinks are total functions. \<open>split_loop\<close> may run for ever (row
  cap 0) and is a partial function; its callers are shown to terminate for a positive cap. \<open>drain_values\<close> of a
  cast has the row count as fuel, one batch takes at least one row. The collecting loops of scans take one
  more than the sum of the lengths of the requested ranges, an upper bound on the number of ranges returned. The
  size bounds of hypotheses (2 to the 26th rows for compression) keep chunk lengths within the 32-bit fields of the
  chunk header.
\<close>

text \<open>
  Not modelled, and why. \<open>splayed-arrow\<close>, \<open>splayed-polars\<close>, \<open>splayed-python\<close>, the DuckDB extension and the Python
  package convert to and from the data types of third-party libraries, whose code is not in the repository.
  \<open>splayed-bench\<close> generates data and measures time. \<open>arena.rs\<close> is a pointer cast that hands out references. The
  reader and writer wrappers at the end of \<open>field_file.rs\<close> and \<open>dataset.rs\<close> forward to the modelled operations
  with one call each. The handle of a table, which
  opens datasets on demand, is not modelled, nor are the operations that walk over all partitions.
  Display texts, debug output, memory maps as such (a mapping is the contents of its file) and the release of
  resources are left out.
\<close>

end
